(* ===== verification/Weazer_Prelude.thy ===== *)
theory Weazer_Prelude
  imports Main "HOL-Library.Word"
begin

text \<open>
  Shared vocabulary of the development.

  The C++ sources abort through \<open>BUG()\<close> / \<open>BUG_ON(..)\<close> (\<open>Support/Error.hpp\<close>),
  index containers without a bounds check, and call operations whose precondition is the
  caller's duty.  All three are values here: a computation that can fail returns
  \<open>fault + 'a\<close>, with \<open>Inl\<close> for the failure.  \<open>bindR\<close> sequences two such
  computations, \<open>foldR\<close> is a \<open>for\<close> loop whose body may fail, and \<open>nthR\<close> and
  \<open>updR\<close> are a checked read and a checked write of a vector.

  The rest of the theory holds the facts about sorted lists, list updates and prefixes that
  several components share.
\<close>

section \<open>Failing computations\<close>

datatype fault =
    Bug              \<comment> \<open>\<open>BUG()\<close> or a violated \<open>BUG_ON\<close>: the tool aborts\<close>
  | Out_of_range     \<comment> \<open>an access outside a container: undefined in C++\<close>
  | Undefined        \<comment> \<open>any other operation C++ leaves undefined\<close>
  | Diverges         \<comment> \<open>a loop that never ends\<close>

type_synonym 'a res = "fault + 'a"

named_theorems res_simps \<open>evaluation of failing computations\<close>

definition bindR :: "'a res \<Rightarrow> ('a \<Rightarrow> 'b res) \<Rightarrow> 'b res" where
  "bindR m k = (case m of Inl e \<Rightarrow> Inl e | Inr x \<Rightarrow> k x)"

lemma bindR_simps [simp, res_simps]:
  "bindR (Inl e) k = Inl e"
  "bindR (Inr x) k = k x"
  by (simp_all add: bindR_def)

lemma bindR_Inr_iff: "bindR m k = Inr y \<longleftrightarrow> (\<exists>x. m = Inr x \<and> k x = Inr y)"
  by (cases m) auto

definition guardR :: "fault \<Rightarrow> bool \<Rightarrow> unit res" where
  "guardR e b = (if b then Inr () else Inl e)"

lemma guardR_simps [simp, res_simps]:
  "guardR e True = Inr ()"
  "guardR e False = Inl e"
  by (simp_all add: guardR_def)

fun foldR :: "('x \<Rightarrow> 's \<Rightarrow> 's res) \<Rightarrow> 'x list \<Rightarrow> 's \<Rightarrow> 's res" where
  "foldR f [] s = Inr s"
| "foldR f (x # xs) s = bindR (f x s) (foldR f xs)"

lemma foldR_append: "foldR f (xs @ ys) s = bindR (foldR f xs s) (foldR f ys)"
proof (induction xs arbitrary: s)
  case Nil
  show ?case by simp
next
  case (Cons x xs)
  then show ?case by (cases "f x s") simp_all
qed

text \<open>An invariant of the loop body that also rules out failure.\<close>

lemma foldR_invariant:
  assumes "I s" and "\<And>x s. x \<in> set xs \<Longrightarrow> I s \<Longrightarrow> \<exists>s'. f x s = Inr s' \<and> I s'"
  shows "\<exists>s'. foldR f xs s = Inr s' \<and> I s'"
  using assms
proof (induction xs arbitrary: s)
  case Nil
  then show ?case by simp
next
  case (Cons x xs)
  from Cons.prems obtain s1 where s1: "f x s = Inr s1" "I s1"
    by (meson list.set_intros(1))
  have "\<exists>s'. foldR f xs s1 = Inr s' \<and> I s'"
    by (rule Cons.IH[OF s1(2)]) (use Cons.prems(2) in auto)
  with s1 show ?case by simp
qed

text \<open>A loop whose body never fails is a plain fold.\<close>

lemma foldR_Inr:
  assumes "\<And>x s. x \<in> set xs \<Longrightarrow> f x s = Inr (g x s)"
  shows "foldR f xs s = Inr (fold g xs s)"
  using assms by (induction xs arbitrary: s) auto

definition nthR :: "'a list \<Rightarrow> int \<Rightarrow> 'a res" where
  "nthR xs i = (if 0 \<le> i \<and> i < int (length xs) then Inr (xs ! nat i) else Inl Out_of_range)"

definition updR :: "'a list \<Rightarrow> int \<Rightarrow> 'a \<Rightarrow> 'a list res" where
  "updR xs i x =
     (if 0 \<le> i \<and> i < int (length xs) then Inr (xs[nat i := x]) else Inl Out_of_range)"

lemma nthR_in [simp, res_simps]: "0 \<le> i \<Longrightarrow> i < int (length xs) \<Longrightarrow> nthR xs i = Inr (xs ! nat i)"
  by (simp add: nthR_def)

lemma updR_in [simp, res_simps]:
  "0 \<le> i \<Longrightarrow> i < int (length xs) \<Longrightarrow> updR xs i x = Inr (xs[nat i := x])"
  by (simp add: updR_def)

section \<open>Lists: growing, prefixes, updates\<close>

text \<open>\<open>std::vector::resize(n, x)\<close> (also \<open>IndexedMap::grow\<close> for the growing case).\<close>

definition resize :: "nat \<Rightarrow> 'a \<Rightarrow> 'a list \<Rightarrow> 'a list" where
  "resize n x xs = take n xs @ replicate (n - length xs) x"

lemma length_resize [simp]: "length (resize n x xs) = n"
  by (simp add: resize_def)

lemma nth_resize: "i < n \<Longrightarrow> resize n x xs ! i = (if i < length xs then xs ! i else x)"
  by (auto simp: resize_def nth_append)

lemma resize_same [simp]: "resize (length xs) x xs = xs"
  by (simp add: resize_def)

text \<open>Reading a list with a default past its end.\<close>

definition nth_default :: "'a \<Rightarrow> 'a list \<Rightarrow> nat \<Rightarrow> 'a" where
  "nth_default d xs n = (if n < length xs then xs ! n else d)"

lemma nth_default_Nil [simp]: "nth_default d [] n = d"
  by (simp add: nth_default_def)

lemma nth_default_resize:
  "length xs \<le> k \<Longrightarrow> nth_default d (resize k d xs) n = nth_default d xs n"
  by (simp add: nth_default_def nth_resize)

lemma nth_default_update:
  "i < length xs \<Longrightarrow> nth_default d (xs[i := x]) n = (if n = i then x else nth_default d xs n)"
  by (simp add: nth_default_def)

lemma take_Suc_update: "m < length v \<Longrightarrow> take (Suc m) (v[m := x]) = take m v @ [x]"
  by (simp add: take_Suc_conv_app_nth)

lemma drop_update_before: "m < a \<Longrightarrow> drop a (v[m := x]) = drop a v"
  by (rule nth_equalityI) simp_all

section \<open>Strictly sorted lists\<close>

declare sorted_list_of_set_insert_remove [simp del]

lemma sorted_list_of_set_snoc:
  assumes "finite X" and "\<And>x. x \<in> X \<Longrightarrow> x < m"
  shows "sorted_list_of_set (insert m X) = sorted_list_of_set X @ [m]"
  using assms
  by (intro strict_sorted_equal) (auto simp: sorted_wrt_append)

lemma strict_sorted_snoc [simp]:
  "sorted_wrt (<) (xs @ [x]) \<longleftrightarrow> sorted_wrt (<) xs \<and> (\<forall>y \<in> set xs. y < (x::'a::linorder))"
  by (auto simp: sorted_wrt_append)

lemma strict_sorted_distinct: "sorted_wrt (<) (xs::'a::linorder list) \<Longrightarrow> distinct xs"
  by (simp add: strict_sorted_iff)

lemma strict_sorted_last: "sorted_wrt (<) xs \<Longrightarrow> x \<in> set xs \<Longrightarrow> x \<le> (last xs::'a::linorder)"
  by (cases xs rule: rev_cases) auto

lemma strict_sorted_filter: "sorted_wrt (<) xs \<Longrightarrow> sorted_wrt (<) (filter P xs)"
  by (induction xs) auto

end
