(* ===== verification/Vset.thy ===== *)
theory Vset
  imports Weazer_Prelude
begin

text \<open>
  \<open>ADT/VSet.hpp\<close> and \<open>ADT/VSet.tcc\<close>: a set kept as a vector.  The state is the vector
  itself; \<open>vset_inv\<close> is the representation invariant the code relies on (sorted, no
  duplicates).  Iterators that only read are suffixes of the list; the two routines that
  rewrite the vector in place (\<open>insert(const VSet&)\<close>, \<open>erase(const VSet&)\<close>) keep their
  indices and their writes.  The abstraction is \<open>set\<close>.
\<close>

section \<open>Operations\<close>

definition vset_inv :: "'a::linorder list \<Rightarrow> bool" where
  "vset_inv xs = sorted_wrt (<) xs"

text \<open>\<open>std::lower_bound\<close>: position of the first element that is not below \<open>x\<close>.\<close>

definition lower_bound :: "'a::linorder list \<Rightarrow> 'a \<Rightarrow> nat" where
  "lower_bound xs x = length (takeWhile (\<lambda>y. y < x) xs)"

definition vset_find :: "'a::linorder list \<Rightarrow> 'a \<Rightarrow> nat" where
  "vset_find xs el =
     (let it = lower_bound xs el
      in if it = length xs \<or> xs ! it \<noteq> el then length xs else it)"

definition vset_count :: "'a::linorder list \<Rightarrow> 'a \<Rightarrow> nat" where
  "vset_count xs el = (if vset_find xs el \<noteq> length xs then 1 else 0)"

text \<open>\<open>insert(const T&)\<close> returns the position and whether it inserted.\<close>

definition vset_insert :: "'a::linorder list \<Rightarrow> 'a \<Rightarrow> 'a list \<times> nat \<times> bool" where
  "vset_insert xs el =
     (let it = lower_bound xs el
      in if it = length xs \<or> xs ! it \<noteq> el
         then (take it xs @ [el] @ drop it xs, it, True)
         else (xs, it, False))"

text \<open>The loop of the range constructor, of the initializer list and of the range insert.\<close>

fun vset_insert_range :: "'a::linorder list \<Rightarrow> 'a list \<Rightarrow> 'a list" where
  "vset_insert_range xs [] = xs"
| "vset_insert_range xs (e # es) =
     (if xs \<noteq> [] \<and> last xs < e then vset_insert_range (xs @ [e]) es
      else vset_insert_range (fst (vset_insert xs e)) es)"

definition vset_of_range :: "'a::linorder list \<Rightarrow> 'a list" where
  "vset_of_range es = vset_insert_range [] es"

definition vset_of_init_list :: "'a::linorder list \<Rightarrow> 'a list" where
  "vset_of_init_list il = vset_insert_range [] il"

text \<open>Elements of \<open>s\<close> that are missing, counted by one parallel pass.\<close>

fun count_new :: "'a::linorder list \<Rightarrow> 'a list \<Rightarrow> nat" where
  "count_new [] bs = length bs"
| "count_new (a # as) [] = 0"
| "count_new (a # as) (b # bs) =
     (if a < b then count_new as (b # bs)
      else if a = b then count_new as bs
      else Suc (count_new (a # as) bs))"

text \<open>
  The in-place merge: the vector has been resized, \<open>i\<close> runs down from its last position,
  \<open>idxA\<close> and \<open>idxB\<close> from the last old element and from the last element of \<open>s\<close>.
  The first argument is \<open>i + 1\<close>.
\<close>

fun merge_back :: "nat \<Rightarrow> int \<Rightarrow> int \<Rightarrow> 'a::linorder list \<Rightarrow> 'a list \<Rightarrow> 'a list res" where
  "merge_back 0 idxA idxB v s = Inr v"
| "merge_back (Suc i) idxA idxB v s =
     (if idxA < 0 \<or> (idxB \<ge> 0 \<and> v ! nat idxA < s ! nat idxB)
      then bindR (nthR s idxB) (\<lambda>x. merge_back i idxA (idxB - 1) (v[i := x]) s)
      else if idxA \<ge> 0 \<and> idxB \<ge> 0 \<and> v ! nat idxA = s ! nat idxB
      then bindR (nthR v idxA) (\<lambda>x. merge_back i (idxA - 1) (idxB - 1) (v[i := x]) s)
      else bindR (nthR v idxA) (\<lambda>x. merge_back i (idxA - 1) idxB (v[i := x]) s))"

definition vset_insert_set :: "'a::linorder list \<Rightarrow> 'a list \<Rightarrow> ('a list \<times> nat) res" where
  "vset_insert_set xs s =
     (if xs = [] then Inr (s, length s)
      else if s = [] then Inr (xs, 0)
      else if length s = 1
      then (let (xs', _, ins) = vset_insert xs (s ! 0) in Inr (xs', if ins then 1 else 0))
      else let cnt = count_new xs s in
        if cnt = 0 then Inr (xs, 0)
        else let idxA = int (length xs) - 1;
                 idxB = int (length s) - 1;
                 v = resize (length xs + cnt) (xs ! 0) xs
             in bindR (merge_back (length v) idxA idxB v s) (\<lambda>v'. Inr (v', cnt)))"

definition vset_erase :: "'a::linorder list \<Rightarrow> 'a \<Rightarrow> 'a list \<times> nat" where
  "vset_erase xs el =
     (let it = lower_bound xs el
      in if it = length xs \<or> xs ! it \<noteq> el then (xs, 0)
         else (take it xs @ drop (Suc it) xs, 1))"

text \<open>
  Bulk erase.  \<open>a\<close> and \<open>b\<close> scan the two vectors, \<open>mov\<close> is the next position to be
  filled; the loop returns \<open>(v, a, mov, erased)\<close>.
\<close>

function erase_scan ::
    "nat \<Rightarrow> nat \<Rightarrow> nat \<Rightarrow> nat \<Rightarrow> 'a::linorder list \<Rightarrow> 'a list \<Rightarrow> 'a list \<times> nat \<times> nat \<times> nat" where
  "erase_scan a b mov erased v s =
     (if a < length v \<and> b < length s then
        (if v ! a = s ! b then erase_scan (Suc a) (Suc b) mov (Suc erased) v s
         else if v ! a < s ! b then
           erase_scan (Suc a) b (Suc mov) erased (if mov \<noteq> a then v[mov := v ! a] else v) s
         else erase_scan a (Suc b) mov erased v s)
      else (v, a, mov, erased))"
  by pat_completeness auto
termination
  by (relation "measure (\<lambda>(a, b, mov, erased, v, s). (length v - a) + (length s - b))") auto

function erase_copy :: "nat \<Rightarrow> nat \<Rightarrow> 'a list \<Rightarrow> 'a list \<times> nat" where
  "erase_copy a mov v =
     (if a < length v then erase_copy (Suc a) (Suc mov) (v[mov := v ! a]) else (v, mov))"
  by pat_completeness auto
termination
  by (relation "measure (\<lambda>(a, mov, v). length v - a)") auto

declare erase_scan.simps [simp del] erase_copy.simps [simp del]

definition vset_erase_set :: "'a::linorder list \<Rightarrow> 'a list \<Rightarrow> 'a list \<times> nat" where
  "vset_erase_set xs s =
     (if xs = [] \<or> s = [] then (xs, 0)
      else let (v, a, mov, erased) = erase_scan 0 0 0 0 xs s
           in if mov \<noteq> a
              then let (v', mov') = erase_copy a mov v in (resize mov' (v' ! 0) v', erased)
              else (v, erased))"

function subset_scan :: "'a::linorder list \<Rightarrow> 'a list \<Rightarrow> bool" where
  "subset_scan [] bs = True"
| "subset_scan (a # as) [] = False"
| "subset_scan (a # as) (b # bs) =
     (if length (a # as) > length (b # bs) then False
      else if a < b then False
      else if a = b then subset_scan as bs
      else subset_scan (a # as) bs)"
  by pat_completeness auto
termination
  by (relation "measure (\<lambda>(as, bs). length as + length bs)") auto

definition vset_subsetOf :: "'a::linorder list \<Rightarrow> 'a list \<Rightarrow> bool" where
  "vset_subsetOf xs s = (if length xs > length s then False else subset_scan xs s)"

fun vset_intersects :: "'a::linorder list \<Rightarrow> 'a list \<Rightarrow> bool" where
  "vset_intersects (a # as) (b # bs) =
     (if a = b then True
      else if a < b then vset_intersects as (b # bs)
      else vset_intersects (a # as) bs)"
| "vset_intersects as bs = False"

fun intersect_scan :: "'a::linorder list \<Rightarrow> 'a list \<Rightarrow> 'a list \<Rightarrow> 'a list" where
  "intersect_scan result (a # as) (b # bs) =
     (if a = b then intersect_scan (fst (vset_insert result a)) as bs
      else if a < b then intersect_scan result as (b # bs)
      else intersect_scan result (a # as) bs)"
| "intersect_scan result as bs = result"

definition vset_intersectWith :: "'a::linorder list \<Rightarrow> 'a list \<Rightarrow> 'a list" where
  "vset_intersectWith xs s = intersect_scan [] xs s"


section \<open>Searching\<close>

lemma lower_bound_le: "lower_bound xs x \<le> length xs"
  by (simp add: lower_bound_def length_takeWhile_le)

lemma take_lower_bound: "take (lower_bound xs x) xs = takeWhile (\<lambda>y. y < x) xs"
  by (simp add: lower_bound_def takeWhile_eq_take [symmetric])

lemma drop_lower_bound: "drop (lower_bound xs x) xs = dropWhile (\<lambda>y. y < x) xs"
  by (simp add: lower_bound_def dropWhile_eq_drop [symmetric])

lemma lower_bound_split:
  "vset_inv xs \<Longrightarrow> dropWhile (\<lambda>y. y < x) xs = filter (\<lambda>y. x \<le> y) xs \<and>
     takeWhile (\<lambda>y. y < x) xs = filter (\<lambda>y. y < x) xs"
  unfolding vset_inv_def by (induction xs)
    (auto simp: filter_empty_conv filter_id_conv intro!: filter_True [symmetric] filter_False [symmetric])

text \<open>The test all operations share: the element at the lower bound is the one searched.\<close>

lemma lower_bound_hit:
  assumes "vset_inv xs"
  shows "(lower_bound xs x = length xs \<or> xs ! lower_bound xs x \<noteq> x) \<longleftrightarrow> x \<notin> set xs"
  using assms unfolding vset_inv_def lower_bound_def
  by (induction xs) auto

lemma vset_find_iff: "vset_inv xs \<Longrightarrow> vset_find xs x \<noteq> length xs \<longleftrightarrow> x \<in> set xs"
  using lower_bound_hit [of xs x] by (auto simp: vset_find_def Let_def)

lemma vset_count_eq: "vset_inv xs \<Longrightarrow> vset_count xs x = (if x \<in> set xs then 1 else 0)"
  by (simp add: vset_count_def vset_find_iff)

section \<open>Single insertion and removal\<close>

lemma vset_inv_Nil [simp]: "vset_inv []"
  by (simp add: vset_inv_def)

lemma vset_insert_list:
  "vset_inv xs \<Longrightarrow> fst (vset_insert xs x) =
     (if x \<in> set xs then xs else filter (\<lambda>y. y < x) xs @ [x] @ filter (\<lambda>y. x \<le> y) xs)"
  using lower_bound_hit [of xs x]
  by (auto simp: vset_insert_def Let_def take_lower_bound drop_lower_bound lower_bound_split)

lemma set_vset_insert [simp]:
  "vset_inv xs \<Longrightarrow> set (fst (vset_insert xs x)) = insert x (set xs)"
  by (auto simp: vset_insert_list)

lemma vset_inv_insert [simp]: "vset_inv xs \<Longrightarrow> vset_inv (fst (vset_insert xs x))"
  by (auto simp: vset_insert_list)
     (auto simp: vset_inv_def sorted_wrt_append strict_sorted_filter
       intro: less_le_trans order.not_eq_order_implies_strict)

lemma vset_insert_flag: "vset_inv xs \<Longrightarrow> snd (snd (vset_insert xs x)) \<longleftrightarrow> x \<notin> set xs"
  using lower_bound_hit [of xs x] by (auto simp: vset_insert_def Let_def)

lemma vset_insert_range_correct:
  "vset_inv xs \<Longrightarrow> vset_inv (vset_insert_range xs es) \<and>
     set (vset_insert_range xs es) = set xs \<union> set es"
proof (induction xs es rule: vset_insert_range.induct)
  case (1 xs)
  then show ?case by simp
next
  case (2 xs e es)
  have "vset_inv (xs @ [e])" if "xs \<noteq> []" "last xs < e"
    using 2(3) that strict_sorted_last [of xs] unfolding vset_inv_def
    by (auto intro: le_less_trans)
  with 2 show ?case by auto
qed

lemma vset_erase_list: "vset_inv xs \<Longrightarrow> fst (vset_erase xs x) = filter (\<lambda>y. y \<noteq> x) xs"
proof (induction xs)
  case Nil
  show ?case by (simp add: vset_erase_def lower_bound_def)
next
  case (Cons a xs)
  then have inv: "vset_inv xs" and a: "\<forall>y \<in> set xs. a < y"
    by (auto simp: vset_inv_def)
  consider "a < x" | "a = x" | "x < a" by fastforce
  then show ?case
  proof cases
    case 1
    then show ?thesis using Cons.IH [OF inv]
      by (auto simp: vset_erase_def lower_bound_def Let_def split: if_splits)
  next
    case 2
    with a have "filter (\<lambda>y. y \<noteq> x) xs = xs" by (auto simp: filter_id_conv)
    with 2 show ?thesis by (simp add: vset_erase_def lower_bound_def)
  next
    case 3
    with a have "filter (\<lambda>y. y \<noteq> x) xs = xs" by (auto simp: filter_id_conv)
    with 3 show ?thesis by (auto simp: vset_erase_def lower_bound_def)
  qed
qed

lemma set_vset_erase [simp]: "vset_inv xs \<Longrightarrow> set (fst (vset_erase xs x)) = set xs - {x}"
  by (auto simp: vset_erase_list)

lemma vset_inv_erase [simp]: "vset_inv xs \<Longrightarrow> vset_inv (fst (vset_erase xs x))"
  by (simp add: vset_erase_list vset_inv_def strict_sorted_filter)

section \<open>Bulk insertion\<close>

lemma count_new_card:
  "vset_inv as \<Longrightarrow> vset_inv bs \<Longrightarrow> count_new as bs = card (set bs - set as)"
proof (induction as bs rule: count_new.induct)
  case (1 bs)
  then show ?case by (simp add: vset_inv_def strict_sorted_distinct distinct_card)
next
  case (2 a as)
  then show ?case by simp
next
  case (3 a as b bs)
  consider "a < b" | "a = b" | "b < a" by fastforce
  then show ?case
  proof cases
    case 1
    with 3(5) have "set (b # bs) - set (a # as) = set (b # bs) - set as"
      by (auto simp: vset_inv_def)
    with 1 3 show ?thesis by (simp add: vset_inv_def)
  next
    case 2
    with 3(4,5) have "set (b # bs) - set (a # as) = set bs - set as"
      by (auto simp: vset_inv_def)
    with 2 3 show ?thesis by (simp add: vset_inv_def)
  next
    case 3
    with \<open>vset_inv (a # as)\<close> have "b \<notin> set (a # as)" by (auto simp: vset_inv_def)
    moreover from \<open>vset_inv (b # bs)\<close> have "b \<notin> set bs" by (auto simp: vset_inv_def)
    ultimately have "card (set (b # bs) - set (a # as)) = Suc (card (set bs - set (a # as)))"
      by (simp add: insert_Diff_if)
    moreover have "\<not> a < b" "a \<noteq> b" using \<open>b < a\<close> by auto
    ultimately show ?thesis using "3.IH"(3) "3.prems" by (simp add: vset_inv_def)
  qed
qed

text \<open>One step of the backward merge moves the greatest remaining element to its place.\<close>

lemma sorted_union_snoc:
  assumes "sorted_wrt (<) (A @ [x::'a::linorder])" "sorted_wrt (<) S" "\<forall>y \<in> set S. y \<le> x"
  shows "sorted_list_of_set (set (A @ [x]) \<union> set S)
    = sorted_list_of_set (set A \<union> (set S - {x})) @ [x]"
proof -
  have "set (A @ [x]) \<union> set S = insert x (set A \<union> (set S - {x}))" by auto
  then show ?thesis
    using assms by (simp only:) (rule sorted_list_of_set_snoc, auto simp: order_less_le)
qed

lemma take_snocD:
  assumes "take (Suc (length A)) v = A @ [x]"
  shows "take (length A) v = A" "v ! length A = x" "length A < length v"
proof -
  show l: "length A < length v"
    using arg_cong [OF assms, of length] by simp
  with assms show "take (length A) v = A" "v ! length A = x"
    by (simp_all add: take_Suc_conv_app_nth)
qed

lemma length_le_union:
  "sorted_wrt (<) (A::'a::linorder list) \<Longrightarrow> length A \<le> length (sorted_list_of_set (set A \<union> set S))"
  by (simp add: strict_sorted_distinct card_mono distinct_card [symmetric])

lemma merge_back_correct:
  assumes "sorted_wrt (<) A" "sorted_wrt (<) S"
    and "n = length (sorted_list_of_set (set A \<union> set S))" "n \<le> length v"
    and "take (length A) v = A" "take (length S) s = S" "length S \<le> length s"
  shows "merge_back n (int (length A) - 1) (int (length S) - 1) v s
    = Inr (sorted_list_of_set (set A \<union> set S) @ drop n v)"
  using assms
proof (induction n arbitrary: A S v)
  case 0
  then show ?case by simp
next
  case (Suc i)
  note prems = Suc.prems
  have step: "merge_back i (int (length A') - 1) (int (length S') - 1) (v[i := x]) s
      = Inr (sorted_list_of_set (set A \<union> set S) @ drop (Suc i) v)"
    if U: "sorted_list_of_set (set A \<union> set S) = sorted_list_of_set (set A' \<union> set S') @ [x]"
      and A': "sorted_wrt (<) A'" "take (length A') v = A'"
      and S': "sorted_wrt (<) S'" "take (length S') s = S'" "length S' \<le> length s" for A' S' x
  proof -
    have len: "i = length (sorted_list_of_set (set A' \<union> set S'))"
      using prems(3) U by simp
    have "length A' \<le> i" using length_le_union [OF A'(1), of S'] len by simp
    then have tA: "take (length A') (v[i := x]) = A'" using A'(2) by simp
    have "merge_back i (int (length A') - 1) (int (length S') - 1) (v[i := x]) s
        = Inr (sorted_list_of_set (set A' \<union> set S') @ drop i (v[i := x]))"
      using prems(4) by (intro Suc.IH len tA A' S') simp
    also have "drop i (v[i := x]) = x # drop (Suc i) v"
      using prems(4) by (simp add: Cons_nth_drop_Suc [symmetric] drop_update_before)
    finally show ?thesis using U by simp
  qed
  show ?case
  proof (cases A rule: rev_cases)
    case Nil
    show ?thesis
    proof (cases S rule: rev_cases)
      case (snoc S' y)
      with prems have U: "sorted_list_of_set (set S) = sorted_list_of_set (set S') @ [y]"
        by (simp add: sorted_list_of_set_snoc)
      with snoc Nil prems(1,2,4-7) step [of "[]" S' y] take_snocD [of S' s y]
      show ?thesis by simp
    qed (use Nil prems in simp)
  next
    case A: (snoc A' x)
    note vx = take_snocD [of A' v x]
    show ?thesis
    proof (cases S rule: rev_cases)
      case Nil
      from A prems have "sorted_list_of_set (set A) = sorted_list_of_set (set A') @ [x]"
        by (simp add: sorted_list_of_set_snoc)
      with Nil A prems(1,2,4-7) vx step [of A' "[]" x] show ?thesis by simp
    next
      case S: (snoc S' y)
      note sy = take_snocD [of S' s y]
      consider "x < y" | "x = y" | "y < x" by fastforce
      then show ?thesis
      proof cases
        case 1
        with A S prems have "\<forall>z \<in> set A. z \<le> y" "y \<notin> set A" by auto
        then have "sorted_list_of_set (set A \<union> set S) = sorted_list_of_set (set A \<union> set S') @ [y]"
          using sorted_union_snoc [of S' y A] S prems by (simp add: Un_commute)
        with 1 A S prems(1,2,4-7) vx sy step [of A S' y] show ?thesis by simp
      next
        case 2
        with A S prems have "\<forall>z \<in> set S. z \<le> x" "set S - {x} = set S'" by auto
        then have "sorted_list_of_set (set A \<union> set S) = sorted_list_of_set (set A' \<union> set S') @ [x]"
          using sorted_union_snoc [of A' x S] A prems by simp
        with 2 A S prems(1,2,4-7) vx sy step [of A' S' x] show ?thesis by simp
      next
        case 3
        with A S prems have "\<forall>z \<in> set S. z \<le> x" "set S - {x} = set S" by auto
        then have "sorted_list_of_set (set A \<union> set S) = sorted_list_of_set (set A' \<union> set S) @ [x]"
          using sorted_union_snoc [of A' x S] A prems by simp
        with 3 less_not_sym [OF 3] less_imp_neq [OF 3] A S prems(1,2,4-7) vx sy step [of A' S x] show ?thesis by simp
      qed
    qed
  qed
qed


lemma vset_insert_set_correct:
  assumes "vset_inv xs" "vset_inv s"
  shows "vset_insert_set xs s
    = Inr (sorted_list_of_set (set xs \<union> set s), card (set s - set xs))"
proof -
  have U: "zs = sorted_list_of_set (set xs \<union> set s)"
    if "vset_inv zs" "set zs = set xs \<union> set s" for zs
    using that by (intro strict_sorted_equal) (auto simp: vset_inv_def)
  consider "xs = [] \<or> s = []" | y where "xs \<noteq> []" "s = [y]" | "xs \<noteq> []" "length s \<ge> 2"
    by (cases s; cases "tl s") (auto simp: Suc_le_eq)
  then show ?thesis
  proof cases
    case 1
    then show ?thesis using assms U [of xs] U [of s]
      by (auto simp: vset_insert_set_def vset_inv_def strict_sorted_distinct distinct_card)
  next
    case 2
    obtain zs p b where ins: "vset_insert xs y = (zs, p, b)" by (cases "vset_insert xs y")
    then have "vset_inv zs" "set zs = insert y (set xs)" "b \<longleftrightarrow> y \<notin> set xs"
      using assms(1) vset_inv_insert [of xs y] set_vset_insert [of xs y] vset_insert_flag [of xs y]
      by simp_all
    moreover have "card ({y} - set xs) = (if y \<in> set xs then 0 else 1)"
      by (simp add: insert_Diff_if)
    ultimately show ?thesis using 2 ins U [of zs] by (auto simp: vset_insert_set_def)
  next
    case 3
    have cnt: "count_new xs s = card (set s - set xs)" by (rule count_new_card) fact+
    show ?thesis
    proof (cases "set s \<subseteq> set xs")
      case True
      then have "set xs \<union> set s = set xs" "card (set s - set xs) = 0"
        by (auto simp: Diff_eq_empty_iff [THEN iffD2])
      with 3 cnt assms U [of xs] show ?thesis by (auto simp: vset_insert_set_def)
    next
      case False
      then have pos: "card (set s - set xs) \<noteq> 0" by auto
      let ?v = "resize (length xs + card (set s - set xs)) (xs ! 0) xs"
      have "card (set xs \<union> set s) = card (set xs) + card (set s - set xs)"
        by (metis Un_Diff_cancel card_Un_disjnt disjnt_def Diff_disjoint finite_Diff finite_set)
      then have len: "length ?v = length (sorted_list_of_set (set xs \<union> set s))"
        using assms(1) by (simp add: vset_inv_def strict_sorted_distinct distinct_card)
      have "merge_back (length ?v) (int (length xs) - 1) (int (length s) - 1) ?v s
          = Inr (sorted_list_of_set (set xs \<union> set s) @ drop (length ?v) ?v)"
        by (rule merge_back_correct) (use assms len in \<open>auto simp: vset_inv_def resize_def\<close>)
      with 3 cnt pos show ?thesis
        by (auto simp: vset_insert_set_def Let_def)
    qed
  qed
qed

section \<open>Bulk removal\<close>

text \<open>The scan read as a pure difference of the two suffixes.\<close>

fun vdiff :: "'a::linorder list \<Rightarrow> 'a list \<Rightarrow> 'a list" where
  "vdiff [] bs = []"
| "vdiff as [] = as"
| "vdiff (a # as) (b # bs) =
     (if a = b then vdiff as bs else if a < b then a # vdiff as (b # bs) else vdiff (a # as) bs)"

lemma vdiff_Nil [simp]: "vdiff as [] = as"
  by (cases as) simp_all

lemma vdiff_filter:
  "sorted_wrt (<) as \<Longrightarrow> sorted_wrt (<) bs \<Longrightarrow> vdiff as bs = filter (\<lambda>x. x \<notin> set bs) as"
proof (induction as bs rule: vdiff.induct)
  case (3 a as b bs)
  then show ?case
    by (cases a b rule: linorder_cases) (auto intro!: filter_cong)
qed simp_all

lemma erase_scan_diff:
  assumes "mov \<le> a" "a \<le> length v" "erase_scan a b mov erased v s = (v', a', mov', erased')"
  shows "take mov' v' @ drop a' v' = take mov v @ vdiff (drop a v) (drop b s)
    \<and> mov' \<le> a' \<and> a' \<le> length v' \<and> length v' = length v
    \<and> a' + erased + mov = mov' + erased' + a"
  using assms
proof (induction a b mov erased v s rule: erase_scan.induct)
  case (1 a b mov erased v s)
  show ?case
  proof (cases "a < length v \<and> b < length s")
    case False
    with 1(4-6) show ?thesis by (auto simp: erase_scan.simps [of a])
  next
    case True
    then have d: "drop a v = v ! a # drop (Suc a) v" "drop b s = s ! b # drop (Suc b) s"
      by (simp_all add: Cons_nth_drop_Suc)
    consider (eq) "v ! a = s ! b" | (lt) "v ! a < s ! b" | (gt) "s ! b < v ! a" by fastforce
    then show ?thesis
    proof cases
      case eq
      with True 1(4-6) d 1(1) show ?thesis by (simp add: erase_scan.simps [of a])
    next
      case lt
      let ?w = "if mov \<noteq> a then v[mov := v ! a] else v"
      have w: "length ?w = length v" "take (Suc mov) ?w = take mov v @ [v ! a]"
        "drop (Suc a) ?w = drop (Suc a) v"
        using True 1(4) by (auto simp: take_Suc_update take_Suc_conv_app_nth drop_update_before)
      from lt True 1(6) have "erase_scan (Suc a) b (Suc mov) erased ?w s = (v', a', mov', erased')"
        by (simp add: erase_scan.simps [of a] split: if_splits)
      then have "take mov' v' @ drop a' v' = take (Suc mov) ?w @ vdiff (drop (Suc a) ?w) (drop b s)
        \<and> mov' \<le> a' \<and> a' \<le> length v' \<and> length v' = length ?w
        \<and> a' + erased + Suc mov = mov' + erased' + Suc a"
        using lt True 1(4) w(1) by (intro 1(2)) auto
      then show ?thesis unfolding w using lt d by auto
    next
      case gt
      with True 1(4-6) d 1(3) less_not_sym [OF gt] less_imp_neq [OF gt] show ?thesis
        by (simp add: erase_scan.simps [of a])
    qed
  qed
qed

lemma erase_copy_eq:
  assumes "mov \<le> a" "a \<le> length v" "erase_copy a mov v = (v', mov')"
  shows "take mov' v' = take mov v @ drop a v \<and> length v' = length v \<and> mov' \<le> length v'"
  using assms
proof (induction a mov v rule: erase_copy.induct)
  case (1 a mov v)
  show ?case
  proof (cases "a < length v")
    case True
    with 1 show ?thesis
      by (simp add: erase_copy.simps [of a] take_Suc_update drop_update_before
          Cons_nth_drop_Suc [symmetric])
  next
    case False
    with 1 erase_copy.simps [of a mov v] show ?thesis by auto
  qed
qed

lemma vset_erase_set_correct:
  assumes "vset_inv xs" "vset_inv s"
  shows "vset_erase_set xs s = (filter (\<lambda>x. x \<notin> set s) xs, card (set xs \<inter> set s))"
proof (cases "xs = [] \<or> s = []")
  case True
  then show ?thesis by (auto simp: vset_erase_set_def)
next
  case False
  obtain v a mov er where scan: "erase_scan 0 0 0 0 xs s = (v, a, mov, er)"
    by (cases "erase_scan 0 0 0 0 xs s") auto
  from erase_scan_diff [OF _ _ scan] have
    eq: "take mov v @ drop a v = filter (\<lambda>x. x \<notin> set s) xs"
    and le: "mov \<le> a" "a \<le> length v" "length v = length xs" "a = mov + er"
    using assms by (auto simp: vset_inv_def vdiff_filter)
  have "length xs = length (filter (\<lambda>x. x \<notin> set s) xs) + er"
    unfolding eq [symmetric] using le by simp
  moreover have "length (filter (\<lambda>x. x \<notin> set s) xs) + length (filter (\<lambda>x. x \<in> set s) xs) = length xs"
    using sum_length_filter_compl [of "\<lambda>x. x \<in> set s" xs] by simp
  moreover have "length (filter (\<lambda>x. x \<in> set s) xs) = card (set xs \<inter> set s)"
    using assms(1) by (simp add: vset_inv_def strict_sorted_distinct distinct_card [symmetric] Int_def)
  ultimately have er: "er = card (set xs \<inter> set s)" by simp
  show ?thesis
  proof (cases "mov = a")
    case True
    with False scan eq er show ?thesis by (simp add: vset_erase_set_def)
  next
    case ne: False
    obtain v' mov' where copy: "erase_copy a mov v = (v', mov')" by (cases "erase_copy a mov v")
    from erase_copy_eq [OF le(1,2) copy] eq have
      "take mov' v' = filter (\<lambda>x. x \<notin> set s) xs" "mov' \<le> length v'" by auto
    then have "resize mov' (v' ! 0) v' = filter (\<lambda>x. x \<notin> set s) xs" by (simp add: resize_def)
    with False ne scan copy er show ?thesis by (simp add: vset_erase_set_def)
  qed
qed

section \<open>Comparing sets\<close>

lemma subset_scan_iff:
  "vset_inv as \<Longrightarrow> vset_inv bs \<Longrightarrow> subset_scan as bs \<longleftrightarrow> set as \<subseteq> set bs"
proof (induction as bs rule: subset_scan.induct)
  case (3 a as b bs)
  have big: "\<not> set (a # as) \<subseteq> set (b # bs)" if "length (a # as) > length (b # bs)"
  proof
    assume "set (a # as) \<subseteq> set (b # bs)"
    then have "card (set (a # as)) \<le> card (set (b # bs))" by (rule card_mono [rotated]) simp
    with that "3.prems" show False
      by (simp only: vset_inv_def distinct_card strict_sorted_distinct)
  qed
  consider "a < b" | "a = b" | "b < a" by fastforce
  then show ?case
  proof cases
    case 1
    with "3.prems" have "a \<notin> set (b # bs)" by (auto simp: vset_inv_def)
    with 1 show ?thesis by simp
  next
    case 2
    with "3.prems" have "set (a # as) \<subseteq> set (b # bs) \<longleftrightarrow> set as \<subseteq> set bs"
      by (auto simp: vset_inv_def)
    with 2 3 big show ?thesis by (auto simp: vset_inv_def)
  next
    case 3
    with "3.prems" have "b \<notin> set (a # as)" by (auto simp: vset_inv_def)
    then have "set (a # as) \<subseteq> set (b # bs) \<longleftrightarrow> set (a # as) \<subseteq> set bs" by auto
    with 3 "3.IH" "3.prems" big show ?thesis by (auto simp: vset_inv_def)
  qed
qed simp_all

lemma vset_subsetOf_iff:
  assumes "vset_inv xs" "vset_inv s"
  shows "vset_subsetOf xs s \<longleftrightarrow> set xs \<subseteq> set s"
proof -
  have "length xs \<le> length s" if "set xs \<subseteq> set s"
    using that assms card_mono [OF _ that]
    by (simp add: vset_inv_def strict_sorted_distinct distinct_card)
  with assms show ?thesis by (auto simp: vset_subsetOf_def subset_scan_iff)
qed

lemma vset_intersects_iff:
  "vset_inv xs \<Longrightarrow> vset_inv s \<Longrightarrow> vset_intersects xs s \<longleftrightarrow> set xs \<inter> set s \<noteq> {}"
proof (induction xs s rule: vset_intersects.induct)
  case (1 a as b bs)
  then show ?case
    by (cases a b rule: linorder_cases) (auto simp: vset_inv_def)
qed simp_all

lemma intersect_scan_correct:
  "vset_inv as \<Longrightarrow> vset_inv bs \<Longrightarrow> vset_inv r \<Longrightarrow>
     vset_inv (intersect_scan r as bs) \<and> set (intersect_scan r as bs) = set r \<union> (set as \<inter> set bs)"
proof (induction r as bs rule: intersect_scan.induct)
  case (1 r a as b bs)
  have inv: "vset_inv as" "vset_inv bs" using 1 by (auto simp: vset_inv_def)
  consider "a < b" | "a = b" | "b < a" by fastforce
  then show ?case
  proof cases
    case 1
    with "1.prems" have "set (a # as) \<inter> set (b # bs) = set as \<inter> set (b # bs)"
      by (auto simp: vset_inv_def)
    with 1 "1.IH" "1.prems" inv show ?thesis by auto
  next
    case 2
    with "1.prems" have "set (a # as) \<inter> set (b # bs) = insert a (set as \<inter> set bs)"
      by (auto simp: vset_inv_def)
    with 2 "1.IH" "1.prems" inv show ?thesis by auto
  next
    case 3
    with "1.prems" have "set (a # as) \<inter> set (b # bs) = set (a # as) \<inter> set bs"
      by (auto simp: vset_inv_def)
    with 3 "1.IH" "1.prems" inv show ?thesis by auto
  qed
qed simp_all

lemma vset_inv_intersectWith [simp]:
  "vset_inv xs \<Longrightarrow> vset_inv s \<Longrightarrow> vset_inv (vset_intersectWith xs s)"
  by (simp add: vset_intersectWith_def intersect_scan_correct)

lemma set_vset_intersectWith [simp]:
  "vset_inv xs \<Longrightarrow> vset_inv s \<Longrightarrow> set (vset_intersectWith xs s) = set xs \<inter> set s"
  by (simp add: vset_intersectWith_def intersect_scan_correct)


section \<open>The interface its clients use\<close>

text \<open>
  \<open>DepView\<close> and \<open>DepInfo\<close> use a \<open>VSet\<close> only through these operations.  The lemmas
  below, about loops of insertions and removals, hold for every implementation.
\<close>

locale finite_set_rep =
  fixes inv :: "'s \<Rightarrow> bool"
    and abs :: "'s \<Rightarrow> 'a set"
    and emp :: "'s"
    and ins :: "'s \<Rightarrow> 'a \<Rightarrow> 's"
    and del :: "'s \<Rightarrow> 'a \<Rightarrow> 's"
    and isec :: "'s \<Rightarrow> 's \<Rightarrow> 's"
    and mem :: "'s \<Rightarrow> 'a \<Rightarrow> bool"
  assumes emp: "inv emp" "abs emp = {}"
    and ins: "inv s \<Longrightarrow> inv (ins s x)" "inv s \<Longrightarrow> abs (ins s x) = insert x (abs s)"
    and del: "inv s \<Longrightarrow> inv (del s x)" "inv s \<Longrightarrow> abs (del s x) = abs s - {x}"
    and isec: "inv s \<Longrightarrow> inv t \<Longrightarrow> inv (isec s t)"
      "inv s \<Longrightarrow> inv t \<Longrightarrow> abs (isec s t) = abs s \<inter> abs t"
    and mem: "inv s \<Longrightarrow> mem s x \<longleftrightarrow> x \<in> abs s"
begin

lemma fold_ins:
  "inv s \<Longrightarrow> inv (fold (\<lambda>x s. ins s x) xs s) \<and> abs (fold (\<lambda>x s. ins s x) xs s) = abs s \<union> set xs"
  by (induction xs arbitrary: s) (auto simp: ins)

lemma fold_del:
  "inv s \<Longrightarrow> inv (fold (\<lambda>x s. del s x) xs s) \<and> abs (fold (\<lambda>x s. del s x) xs s) = abs s - set xs"
  by (induction xs arbitrary: s) (auto simp: del)

lemma fold_ins_del:
  "inv s \<Longrightarrow> set xs \<inter> abs s = {} \<Longrightarrow>
     abs (fold (\<lambda>x s. del s x) xs (fold (\<lambda>x s. ins s x) xs s)) = abs s"
  using fold_ins [of s xs] fold_del [of "fold (\<lambda>x s. ins s x) xs s" xs] by auto

end

interpretation vset: finite_set_rep vset_inv set "[]" "\<lambda>s x. fst (vset_insert s x)"
    "\<lambda>s x. fst (vset_erase s x)" vset_intersectWith "\<lambda>s x. vset_count s x \<noteq> 0"
  by unfold_locales (auto simp: vset_count_eq)

section \<open>Properties\<close>

text \<open>C34: The bulk insertion \<open>VSet::insert(const VSet&)\<close>, with its in-place backward
  merge, never reads or writes outside a vector, leaves exactly the sorted union of the two
  sets and returns the number of elements that were new.\<close>

theorem vset_bulk_insert_is_union:
  assumes "vset_inv xs" "vset_inv s"
  shows "vset_insert_set xs s
    = Inr (sorted_list_of_set (set xs \<union> set s), card (set s - set xs))"
  by (rule vset_insert_set_correct [OF assms])

theorem vset_bulk_insert_is_union_witness:
  "vset_insert_set [1, 4, 6::nat] [2, 4, 9] = Inr ([1, 2, 4, 6, 9], 2)"
proof -
  have "vset_insert_set [1, 4, 6::nat] [2, 4, 9]
    = Inr (sorted_list_of_set (set [1, 4, 6] \<union> set [2, 4, 9]), card (set [2, 4, 9] - set [1, 4, 6::nat]))"
    by (rule vset_bulk_insert_is_union) (simp_all add: vset_inv_def)
  then show ?thesis by code_simp
qed

text \<open>The bulk removal \<open>VSet::erase(const VSet&)\<close> keeps, in order, exactly the elements
  that are not in the argument, and returns how many were removed.\<close>

theorem vset_bulk_erase_is_difference:
  assumes "vset_inv xs" "vset_inv s"
  shows "vset_erase_set xs s = (filter (\<lambda>x. x \<notin> set s) xs, card (set xs \<inter> set s))
    \<and> vset_inv (fst (vset_erase_set xs s))"
  using vset_erase_set_correct [OF assms] assms(1)
  by (simp add: vset_inv_def strict_sorted_filter)

theorem vset_bulk_erase_is_difference_witness:
  "vset_erase_set [1, 4, 6, 7::nat] [2, 4, 7] = ([1, 6], 2)"
proof -
  have "vset_erase_set [1, 4, 6, 7::nat] [2, 4, 7]
    = (filter (\<lambda>x. x \<notin> set [2, 4, 7]) [1, 4, 6, 7], card (set [1, 4, 6, 7] \<inter> set [2, 4, 7::nat]))"
    by (rule vset_bulk_erase_is_difference [THEN conjunct1]) (simp_all add: vset_inv_def)
  then show ?thesis by code_simp
qed

text \<open>The three parallel scans decide what their names say: \<open>subsetOf\<close> is inclusion,
  \<open>intersects\<close> is a non-empty intersection, \<open>intersectWith\<close> is a well-formed set with the
  elements of the intersection.\<close>

theorem vset_scans_correct:
  assumes "vset_inv xs" "vset_inv s"
  shows "(vset_subsetOf xs s \<longleftrightarrow> set xs \<subseteq> set s) \<and>
    (vset_intersects xs s \<longleftrightarrow> set xs \<inter> set s \<noteq> {}) \<and>
    vset_inv (vset_intersectWith xs s) \<and> set (vset_intersectWith xs s) = set xs \<inter> set s"
  using assms by (simp add: vset_subsetOf_iff vset_intersects_iff)

theorem vset_scans_correct_witness:
  "\<not> vset_subsetOf [1, 4::nat] [2, 4, 9] \<and> vset_intersects [1, 4::nat] [2, 4, 9] \<and>
   set (vset_intersectWith [1, 4::nat] [2, 4, 9]) = {4}"
  using vset_scans_correct [of "[1, 4::nat]" "[2, 4, 9]"] by (simp add: vset_inv_def)

end
