(* ===== verification/Vector_Clocks.thy ===== *)
theory Vector_Clocks
  imports Vset
begin

text \<open>
  \<open>ExecutionGraph/Event.hpp\<close>, \<open>ExecutionGraph/Stamp.hpp\<close>, \<open>ExecutionGraph/DepInfo.hpp\<close>
  and the vector clocks of \<open>ADT/VectorClock.hpp\<close>, \<open>ADT/View.hpp\<close>, \<open>ADT/View.cpp\<close>,
  \<open>ADT/DepView.hpp\<close> and \<open>ADT/DepView.cpp\<close>.

  A \<open>View\<close> is an \<open>llvm::IndexedMap<int>\<close> with default 0: here an \<open>int list\<close> that
  grows with zeros.  A \<open>DepView\<close> adds, for every thread, the set of \<^emph>\<open>holes\<close>: indices
  below the maximum that are not in the clock.  A negative thread index is an access outside
  the map and shows as \<open>Out_of_range\<close>.
\<close>

section \<open>Events, stamps and dependency sets\<close>

datatype event = Event (thread: int) (index: int)

definition DEF_IDX :: int where "DEF_IDX = -17"
definition BOT_IDX :: int where "BOT_IDX = -42"

definition event_default :: event where "event_default = Event DEF_IDX DEF_IDX"
definition event_init :: event where "event_init = Event 0 0"
definition event_bottom :: event where "event_bottom = Event BOT_IDX BOT_IDX"
definition event_isInitializer :: "event \<Rightarrow> bool" where
  "event_isInitializer e \<longleftrightarrow> e = event_init"
definition event_isBottom :: "event \<Rightarrow> bool" where
  "event_isBottom e \<longleftrightarrow> e = event_bottom"
definition event_prev :: "event \<Rightarrow> event" where
  "event_prev e = Event (thread e) (index e - 1)"
definition event_next :: "event \<Rightarrow> event" where
  "event_next e = Event (thread e) (index e + 1)"

text \<open>The defaulted \<open>operator<=>\<close>: by thread, then by index; negative, zero and positive stand for less, equal and greater.\<close>

definition event_compare :: "event \<Rightarrow> event \<Rightarrow> int" where
  "event_compare e f =
     (if thread e < thread f then -1 else if thread f < thread e then 1
      else if index e < index f then -1 else if index f < index e then 1 else 0)"

instantiation event :: linorder
begin

definition less_eq_event :: "event \<Rightarrow> event \<Rightarrow> bool" where
  "less_eq_event e f \<longleftrightarrow> event_compare e f \<le> 0"

definition less_event :: "event \<Rightarrow> event \<Rightarrow> bool" where
  "less_event e f \<longleftrightarrow> event_compare e f < 0"

instance
  by standard
    (auto simp: less_eq_event_def less_event_def event_compare_def event.expand split: if_splits)

end

type_synonym stamp = "32 word"

definition stamp_add :: "stamp \<Rightarrow> 32 word \<Rightarrow> stamp" where "stamp_add s v = s + v"

text \<open>\<open>IMPL_STAMP_BINOP(-)\<close>: the body of the macro adds, whatever the operator.\<close>

definition stamp_sub :: "stamp \<Rightarrow> 32 word \<Rightarrow> stamp" where "stamp_sub s v = s + v"
definition stamp_sub_assign :: "stamp \<Rightarrow> 32 word \<Rightarrow> stamp" where "stamp_sub_assign s v = s - v"
definition stamp_inc :: "stamp \<Rightarrow> stamp" where "stamp_inc s = s + 1"
definition stamp_dec :: "stamp \<Rightarrow> stamp" where "stamp_dec s = stamp_sub_assign s 1"

type_synonym dep_info = "event list"

definition dep_of_event :: "event \<Rightarrow> dep_info" where
  "dep_of_event e = vset_of_init_list [e]"

definition dep_update :: "dep_info \<Rightarrow> dep_info \<Rightarrow> dep_info res" where
  "dep_update d dep = bindR (vset_insert_set d dep) (\<lambda>r. Inr (fst r))"

definition dep_contains :: "dep_info \<Rightarrow> event \<Rightarrow> bool" where
  "dep_contains d e = (vset_count d e \<noteq> 0)"

section \<open>View\<close>

type_synonym view = "int list"

definition view_getMax :: "view \<Rightarrow> int \<Rightarrow> int res" where
  "view_getMax v t = (if t < int (length v) then nthR v t else Inr 0)"

definition view_setMax :: "view \<Rightarrow> event \<Rightarrow> view res" where
  "view_setMax v e =
     (let w = (if thread e \<ge> int (length v) then resize (nat (thread e) + 1) 0 v else v)
      in updR w (thread e) (index e))"

definition view_contains :: "view \<Rightarrow> event \<Rightarrow> bool res" where
  "view_contains v e = bindR (view_getMax v (thread e)) (\<lambda>m. Inr (index e \<le> m))"

definition view_updateIdx :: "view \<Rightarrow> event \<Rightarrow> view res" where
  "view_updateIdx v e =
     bindR (view_getMax v (thread e)) (\<lambda>m. if m < index e then view_setMax v e else Inr v)"

definition view_update :: "view \<Rightarrow> view \<Rightarrow> view res" where
  "view_update v w =
     (if w = [] then Inr v
      else foldR (\<lambda>i u. bindR (view_getMax u i) (\<lambda>a. bindR (view_getMax w i) (\<lambda>b.
             if a < b then view_setMax u (Event i b) else Inr u)))
             (map int [0..<max (length v) (length w)]) v)"

section \<open>DepView\<close>

record dep_view =
  dview :: view
  dholes :: "int list list"

definition dv_empty :: dep_view where
  "dv_empty = \<lparr>dview = [], dholes = []\<rparr>"

text \<open>\<open>HoleView::operator[]\<close>, the constant and the growing one.\<close>

definition holes_const :: "int list list \<Rightarrow> int \<Rightarrow> int list res" where
  "holes_const hs i = (if 0 \<le> i \<and> i < int (length hs) then Inr (hs ! nat i) else Inl Bug)"

definition holes_grow :: "int list list \<Rightarrow> int \<Rightarrow> int list list res" where
  "holes_grow hs i =
     (if i < 0 then Inl Out_of_range
      else Inr (if int (length hs) \<le> i then resize (nat i + 1) [] hs else hs))"

definition holes_modify ::
    "dep_view \<Rightarrow> int \<Rightarrow> (int list \<Rightarrow> int list) \<Rightarrow> dep_view res" where
  "holes_modify d t f = bindR (holes_grow (dholes d) t) (\<lambda>hs.
     Inr (d\<lparr>dholes := hs[nat t := f (hs ! nat t)]\<rparr>))"

definition dv_getMax :: "dep_view \<Rightarrow> int \<Rightarrow> int res" where
  "dv_getMax d t = view_getMax (dview d) t"

definition dv_contains :: "dep_view \<Rightarrow> event \<Rightarrow> bool res" where
  "dv_contains d e = bindR (dv_getMax d (thread e)) (\<lambda>m.
     if index e \<le> m then
       (if index e = 0 then Inr True
        else if 0 \<le> thread e \<and> thread e < int (length (dholes d))
        then bindR (holes_const (dholes d) (thread e)) (\<lambda>h. Inr (vset_count h (index e) = 0))
        else Inr False)
     else Inr False)"

definition dv_hasHole :: "dep_view \<Rightarrow> event \<Rightarrow> bool res" where
  "dv_hasHole d e =
     (if 0 \<le> thread e \<and> thread e < int (length (dholes d))
      then bindR (holes_const (dholes d) (thread e)) (\<lambda>h. Inr (vset_count h (index e) = 0))
      else Inr False)"

definition dv_addHole :: "event \<Rightarrow> dep_view \<Rightarrow> dep_view res" where
  "dv_addHole e d = bindR (dv_getMax d (thread e)) (\<lambda>m.
     bindR (guardR Bug (\<not> index e > m)) (\<lambda>_.
     holes_modify d (thread e) (\<lambda>h. fst (vset_insert h (index e)))))"

definition dv_addHolesInRange :: "event \<Rightarrow> int \<Rightarrow> dep_view \<Rightarrow> dep_view res" where
  "dv_addHolesInRange start endIdx d =
     foldR (\<lambda>i. dv_addHole (Event (thread start) i)) [index start..endIdx - 1] d"

definition dv_removeHole :: "event \<Rightarrow> dep_view \<Rightarrow> dep_view res" where
  "dv_removeHole e d = holes_modify d (thread e) (\<lambda>h. fst (vset_erase h (index e)))"

definition dv_removeAllHoles :: "int \<Rightarrow> dep_view \<Rightarrow> dep_view res" where
  "dv_removeAllHoles t d = holes_modify d t (\<lambda>h. [])"

definition dv_removeHolesInRange :: "event \<Rightarrow> int \<Rightarrow> dep_view \<Rightarrow> dep_view res" where
  "dv_removeHolesInRange start endIdx d =
     foldR (\<lambda>i. dv_removeHole (Event (thread start) i)) [index start..endIdx - 1] d"

definition dv_updateIdx :: "dep_view \<Rightarrow> event \<Rightarrow> dep_view res" where
  "dv_updateIdx d e = bindR (view_getMax (dview d) (thread e)) (\<lambda>old.
     if index e > old then
       bindR (view_setMax (dview d) e) (\<lambda>v.
       bindR (holes_grow (dholes d) (thread e)) (\<lambda>hs.
       dv_addHolesInRange (Event (thread e) (old + 1)) (index e) \<lparr>dview = v, dholes = hs\<rparr>))
     else dv_removeHole e d)"

definition dv_setMax :: "dep_view \<Rightarrow> event \<Rightarrow> dep_view res" where
  "dv_setMax d e =
     bindR (if thread e \<ge> int (length (dview d)) then holes_grow (dholes d) (thread e)
            else Inr (dholes d)) (\<lambda>hs.
     bindR (view_getMax (dview d) (thread e)) (\<lambda>old.
     bindR (view_setMax (dview d) e) (\<lambda>v.
     if old < index e
     then dv_addHolesInRange (Event (thread e) (old + 1)) (index e) \<lparr>dview = v, dholes = hs\<rparr>
     else dv_removeHolesInRange e (old + 1) \<lparr>dview = v, dholes = hs\<rparr>)))"

text \<open>The body of the loop of \<open>DepView::update\<close> for thread \<open>i\<close>.\<close>

definition dv_update_thread :: "dep_view \<Rightarrow> int \<Rightarrow> dep_view \<Rightarrow> dep_view res" where
  "dv_update_thread v i d =
     bindR (holes_grow (dholes d) i) (\<lambda>hs.
     bindR (holes_const (dholes v) i) (\<lambda>vh.
     let h = hs ! nat i; isec = vset_intersectWith h vh in
     bindR (dv_getMax d i) (\<lambda>m.
     bindR (dv_getMax v i) (\<lambda>vm.
     if m < vm then
       bindR (view_setMax (dview d) (Event i vm)) (\<lambda>w.
       Inr \<lparr>dview = w,
            dholes = hs[nat i := vset_insert_range isec (drop (lower_bound vh (m + 1)) vh)]\<rparr>)
     else
       Inr (d\<lparr>dholes := hs[nat i := vset_insert_range isec (drop (lower_bound h (vm + 1)) h)]\<rparr>)))))"

definition dv_update :: "dep_view \<Rightarrow> dep_view \<Rightarrow> dep_view res" where
  "dv_update d v =
     (if dview v = [] then Inr d
      else foldR (dv_update_thread v) (map int [0..<length (dview v)]) d)"

section \<open>VectorClock: the dispatch over the two kinds\<close>

datatype vector_clock = VC_View view | VC_DepView dep_view

fun vc_size :: "vector_clock \<Rightarrow> nat" where
  "vc_size (VC_View v) = length v"
| "vc_size (VC_DepView d) = length (dview d)"

fun vc_contains :: "vector_clock \<Rightarrow> event \<Rightarrow> bool res" where
  "vc_contains (VC_View v) e = view_contains v e"
| "vc_contains (VC_DepView d) e = dv_contains d e"

fun vc_getMax :: "vector_clock \<Rightarrow> int \<Rightarrow> int res" where
  "vc_getMax (VC_View v) t = view_getMax v t"
| "vc_getMax (VC_DepView d) t = dv_getMax d t"

fun vc_updateIdx :: "vector_clock \<Rightarrow> event \<Rightarrow> vector_clock res" where
  "vc_updateIdx (VC_View v) e = bindR (view_updateIdx v e) (\<lambda>v'. Inr (VC_View v'))"
| "vc_updateIdx (VC_DepView d) e = bindR (dv_updateIdx d e) (\<lambda>d'. Inr (VC_DepView d'))"

fun vc_update :: "vector_clock \<Rightarrow> vector_clock \<Rightarrow> vector_clock res" where
  "vc_update (VC_View v) (VC_View w) = bindR (view_update v w) (\<lambda>v'. Inr (VC_View v'))"
| "vc_update (VC_DepView d) (VC_DepView w) = bindR (dv_update d w) (\<lambda>d'. Inr (VC_DepView d'))"
| "vc_update _ _ = Inl Bug"


section \<open>Facts about View\<close>

abbreviation vmax :: "view \<Rightarrow> nat \<Rightarrow> int" where
  "vmax \<equiv> nth_default 0"

definition valid :: "event \<Rightarrow> bool" where
  "valid e \<longleftrightarrow> 0 \<le> thread e \<and> 0 \<le> index e"

definition view_inv :: "view \<Rightarrow> bool" where
  "view_inv v \<longleftrightarrow> (\<forall>x \<in> set v. 0 \<le> x)"

definition view_put :: "view \<Rightarrow> nat \<Rightarrow> int \<Rightarrow> view" where
  "view_put v t x = (resize (max (length v) (Suc t)) 0 v)[t := x]"

lemma length_view_put [simp]: "length (view_put v t x) = max (length v) (Suc t)"
  by (simp add: view_put_def)

lemma vmax_put [simp]: "vmax (view_put v t x) n = (if n = t then x else vmax v n)"
  by (simp add: view_put_def nth_default_update nth_default_resize)

lemma view_getMax_eq [simp]: "0 \<le> t \<Longrightarrow> view_getMax v t = Inr (vmax v (nat t))"
  by (auto simp: view_getMax_def nth_default_def nat_less_iff)

lemma view_setMax_eq [simp]:
  assumes "0 \<le> thread e"
  shows "view_setMax v e = Inr (view_put v (nat (thread e)) (index e))"
proof -
  have "max (length v) (Suc (nat (thread e)))
      = (if thread e \<ge> int (length v) then nat (thread e) + 1 else length v)"
    using assms by auto
  with assms show ?thesis by (auto simp: view_setMax_def view_put_def Let_def)
qed

lemma view_inv_vmax: "view_inv v \<longleftrightarrow> (\<forall>n. 0 \<le> vmax v n)"
  by (auto simp: view_inv_def nth_default_def in_set_conv_nth) (metis nth_mem)

lemma view_inv_Nil [simp]: "view_inv []"
  by (simp add: view_inv_def)

lemma view_contains_iff [simp]:
  "valid e \<Longrightarrow> view_contains v e = Inr (index e \<le> vmax v (nat (thread e)))"
  by (simp add: view_contains_def valid_def)

lemma view_updateIdx_vmax:
  assumes "valid e"
  shows "\<exists>u. view_updateIdx v e = Inr u \<and>
    (\<forall>n. vmax u n = (if n = nat (thread e) then max (vmax v n) (index e) else vmax v n))"
  using assms by (auto simp: view_updateIdx_def valid_def)

lemma view_update_loop:
  "\<exists>u. foldR (\<lambda>i u. bindR (view_getMax u i) (\<lambda>a. bindR (view_getMax w i) (\<lambda>b.
             if a < b then view_setMax u (Event i b) else Inr u))) (map int [0..<k]) v = Inr u \<and>
       (\<forall>n. vmax u n = (if n < k then max (vmax v n) (vmax w n) else vmax v n))"
proof (induction k)
  case 0
  show ?case by simp
next
  case (Suc k)
  then obtain u where "foldR (\<lambda>i u. bindR (view_getMax u i) (\<lambda>a. bindR (view_getMax w i) (\<lambda>b.
             if a < b then view_setMax u (Event i b) else Inr u))) (map int [0..<k]) v = Inr u"
    and u: "\<forall>n. vmax u n = (if n < k then max (vmax v n) (vmax w n) else vmax v n)" by blast
  then show ?case by (auto simp: foldR_append less_Suc_eq)
qed

text \<open>The update is the pointwise maximum (an empty argument changes nothing).\<close>

lemma view_update_vmax:
  "\<exists>u. view_update v w = Inr u \<and>
     (\<forall>n. vmax u n = (if w = [] then vmax v n else max (vmax v n) (vmax w n)))"
proof (cases "w = []")
  case True
  then show ?thesis by (simp add: view_update_def)
next
  case False
  have "vmax v n = max (vmax v n) (vmax w n)" if "\<not> n < max (length v) (length w)" for n
    using that by (simp add: nth_default_def)
  with False view_update_loop [of w "max (length v) (length w)" v] show ?thesis
    by (auto simp: view_update_def)
qed

section \<open>The interface of a vector clock\<close>

text \<open>
  What the label views and the exploration rely on, for either kind of clock: on well-formed
  clocks and valid events nothing aborts, \<open>updateIdx\<close> makes its event contained and loses
  none, and \<open>update\<close> is the union of the two clocks.
\<close>

locale vector_clock =
  fixes inv :: "'c \<Rightarrow> bool"
    and contains :: "'c \<Rightarrow> event \<Rightarrow> bool res"
    and updateIdx :: "'c \<Rightarrow> event \<Rightarrow> 'c res"
    and update :: "'c \<Rightarrow> 'c \<Rightarrow> 'c res"
  assumes contains_total: "inv c \<Longrightarrow> valid e \<Longrightarrow> \<exists>b. contains c e = Inr b"
    and updateIdx: "inv c \<Longrightarrow> valid e \<Longrightarrow> \<exists>c'. updateIdx c e = Inr c' \<and> inv c' \<and>
      contains c' e = Inr True \<and>
      (\<forall>f. valid f \<longrightarrow> contains c f = Inr True \<longrightarrow> contains c' f = Inr True)"
    and update: "inv c \<Longrightarrow> inv d \<Longrightarrow> \<exists>c'. update c d = Inr c' \<and> inv c' \<and>
      (\<forall>f. valid f \<longrightarrow>
        (contains c' f = Inr True \<longleftrightarrow> contains c f = Inr True \<or> contains d f = Inr True))"
begin

text \<open>Joining a list of clocks, as the view calculators do over the predecessors.\<close>

lemma join_list:
  assumes "inv c" and "\<forall>d \<in> set ds. inv d"
  shows "\<exists>c'. foldR (\<lambda>d c. update c d) ds c = Inr c' \<and> inv c' \<and>
    (\<forall>f. valid f \<longrightarrow> (contains c' f = Inr True \<longleftrightarrow>
      contains c f = Inr True \<or> (\<exists>d \<in> set ds. contains d f = Inr True)))"
  using assms
proof (induction ds arbitrary: c)
  case Nil
  then show ?case by simp
next
  case (Cons d ds)
  from update [of c d] Cons.prems obtain c1 where c1: "update c d = Inr c1" "inv c1"
    "\<forall>f. valid f \<longrightarrow>
      (contains c1 f = Inr True \<longleftrightarrow> contains c f = Inr True \<or> contains d f = Inr True)" by auto
  from Cons.IH [OF c1(2)] Cons.prems(2) c1 show ?case by auto
qed

lemma update_idem:
  assumes "inv c" "valid f" "update c c = Inr c'"
  shows "contains c' f = Inr True \<longleftrightarrow> contains c f = Inr True"
  using update [OF assms(1,1)] assms(2,3) by auto

lemma update_comm:
  assumes "inv c" "inv d" "valid f" "update c d = Inr cd" "update d c = Inr dc"
  shows "contains cd f = Inr True \<longleftrightarrow> contains dc f = Inr True"
  using update [OF assms(1,2)] update [OF assms(2,1)] assms(3-5) by auto

text \<open>A list of events inserted one by one ends up contained.\<close>

lemma updateIdx_list:
  assumes "inv c" and "\<forall>e \<in> set es. valid e"
  shows "\<exists>c'. foldR (\<lambda>e c. updateIdx c e) es c = Inr c' \<and> inv c' \<and>
    (\<forall>e \<in> set es. contains c' e = Inr True) \<and>
    (\<forall>f. valid f \<longrightarrow> contains c f = Inr True \<longrightarrow> contains c' f = Inr True)"
  using assms
proof (induction es arbitrary: c)
  case Nil
  then show ?case by simp
next
  case (Cons e es)
  from updateIdx [of c e] Cons.prems obtain c1 where c1: "updateIdx c e = Inr c1" "inv c1"
    "contains c1 e = Inr True"
    "\<forall>f. valid f \<longrightarrow> contains c f = Inr True \<longrightarrow> contains c1 f = Inr True" by auto
  from Cons.IH [OF c1(2)] Cons.prems(2) c1 show ?case by auto
qed

end

interpretation view_clock: vector_clock view_inv view_contains view_updateIdx view_update
proof
  fix c e assume "view_inv c" "valid e"
  then show "\<exists>b. view_contains c e = Inr b" by simp
  from view_updateIdx_vmax [OF \<open>valid e\<close>, of c] \<open>view_inv c\<close> \<open>valid e\<close>
  show "\<exists>c'. view_updateIdx c e = Inr c' \<and> view_inv c' \<and> view_contains c' e = Inr True \<and>
    (\<forall>f. valid f \<longrightarrow> view_contains c f = Inr True \<longrightarrow> view_contains c' f = Inr True)"
    by (auto simp: view_inv_vmax valid_def)
next
  fix c d assume "view_inv c" "view_inv d"
  with view_update_vmax [of c d] show "\<exists>c'. view_update c d = Inr c' \<and> view_inv c' \<and>
    (\<forall>f. valid f \<longrightarrow> (view_contains c' f = Inr True \<longleftrightarrow>
       view_contains c f = Inr True \<or> view_contains d f = Inr True))"
    by (fastforce simp: view_inv_vmax valid_def le_max_iff_disj split: if_splits)
qed


section \<open>Facts about DepView\<close>

abbreviation hol :: "dep_view \<Rightarrow> nat \<Rightarrow> int list" where
  "hol d \<equiv> nth_default [] (dholes d)"

text \<open>
  The invariant: no negative maximum, a hole set for every thread of the view, and every hole
  a positive index that is at most the maximum of its thread.
\<close>

definition dv_inv :: "dep_view \<Rightarrow> bool" where
  "dv_inv d \<longleftrightarrow> view_inv (dview d) \<and> length (dview d) \<le> length (dholes d) \<and>
     (\<forall>n. vset_inv (hol d n) \<and> (\<forall>h \<in> set (hol d n). 0 < h \<and> h \<le> vmax (dview d) n))"

definition dv_has :: "dep_view \<Rightarrow> event \<Rightarrow> bool" where
  "dv_has d e \<longleftrightarrow> index e \<le> vmax (dview d) (nat (thread e)) \<and>
     (index e = 0 \<or> index e \<notin> set (hol d (nat (thread e))))"

lemma dv_invD:
  assumes "dv_inv d"
  shows "view_inv (dview d)" "length (dview d) \<le> length (dholes d)" "vset_inv (hol d n)"
    "h \<in> set (hol d n) \<Longrightarrow> 0 < h" "h \<in> set (hol d n) \<Longrightarrow> h \<le> vmax (dview d) n"
    "0 \<le> vmax (dview d) n"
  using assms by (auto simp: dv_inv_def view_inv_vmax)

lemma dv_contains_iff:
  assumes "dv_inv d" "valid e"
  shows "dv_contains d e = Inr (dv_has d e)"
proof -
  let ?n = "nat (thread e)"
  have "vmax (dview d) ?n = 0" if "length (dholes d) \<le> ?n"
    using that dv_invD(2) [OF assms(1)] by (simp add: nth_default_def)
  moreover have "vset_count (dholes d ! ?n) (index e) = 0 \<longleftrightarrow> index e \<notin> set (hol d ?n)"
    if "?n < length (dholes d)"
    using that dv_invD(3) [OF assms(1), of ?n] by (simp add: nth_default_def vset_count_eq)
  ultimately show ?thesis
    using assms(2)
    by (auto simp: dv_contains_def dv_getMax_def dv_has_def holes_const_def valid_def
        nat_less_iff nth_default_def)
qed

definition hole_put :: "int list list \<Rightarrow> nat \<Rightarrow> (int list \<Rightarrow> int list) \<Rightarrow> int list list" where
  "hole_put hs t f = (let g = resize (max (length hs) (Suc t)) [] hs in g[t := f (g ! t)])"

lemma hole_put [simp]:
  "length (hole_put hs t f) = max (length hs) (Suc t)"
  "nth_default [] (hole_put hs t f) n =
     (if n = t then f (nth_default [] hs t) else nth_default [] hs n)"
  by (auto simp: hole_put_def Let_def nth_default_update nth_default_resize nth_resize)
     (auto simp: nth_default_def)

lemma holes_grow_eq:
  assumes "0 \<le> t"
  shows "holes_grow hs t = Inr (resize (max (length hs) (Suc (nat t))) [] hs)"
proof -
  have "max (length hs) (Suc (nat t)) = (if int (length hs) \<le> t then nat t + 1 else length hs)"
    using assms by auto
  with assms show ?thesis by (auto simp: holes_grow_def)
qed

lemma holes_modify_eq:
  "0 \<le> t \<Longrightarrow> holes_modify d t f = Inr (d\<lparr>dholes := hole_put (dholes d) (nat t) f\<rparr>)"
  by (simp add: holes_modify_def holes_grow_eq hole_put_def Let_def)

lemma add_holes:
  assumes "0 \<le> t" "\<forall>x \<in> set xs. x \<le> vmax (dview d) (nat t)"
  shows "\<exists>d'. foldR (\<lambda>i. dv_addHole (Event t i)) xs d = Inr d' \<and> dview d' = dview d \<and>
    length (dholes d) \<le> length (dholes d') \<and>
    (\<forall>n. hol d' n =
      (if n = nat t then fold (\<lambda>x s. fst (vset_insert s x)) xs (hol d n) else hol d n))"
  using assms(2)
proof (induction xs arbitrary: d)
  case Nil
  then show ?case by simp
next
  case (Cons x xs)
  let ?d = "d\<lparr>dholes := hole_put (dholes d) (nat t) (\<lambda>h. fst (vset_insert h x))\<rparr>"
  have "dv_addHole (Event t x) d = Inr ?d"
    using Cons.prems assms(1) by (simp add: dv_addHole_def dv_getMax_def holes_modify_eq not_less)
  moreover from Cons.IH [of ?d] Cons.prems obtain d' where
    "foldR (\<lambda>i. dv_addHole (Event t i)) xs ?d = Inr d'" "dview d' = dview d"
    "length (dholes ?d) \<le> length (dholes d')"
    "\<forall>n. hol d' n =
      (if n = nat t then fold (\<lambda>x s. fst (vset_insert s x)) xs (hol ?d n) else hol ?d n)"
    by auto
  ultimately show ?case by auto
qed

lemma remove_holes:
  assumes "0 \<le> t"
  shows "\<exists>d'. foldR (\<lambda>i. dv_removeHole (Event t i)) xs d = Inr d' \<and> dview d' = dview d \<and>
    length (dholes d) \<le> length (dholes d') \<and>
    (\<forall>n. hol d' n =
      (if n = nat t then fold (\<lambda>x s. fst (vset_erase s x)) xs (hol d n) else hol d n))"
proof (induction xs arbitrary: d)
  case Nil
  then show ?case by simp
next
  case (Cons x xs)
  let ?d = "d\<lparr>dholes := hole_put (dholes d) (nat t) (\<lambda>h. fst (vset_erase h x))\<rparr>"
  have "dv_removeHole (Event t x) d = Inr ?d"
    using assms by (simp add: dv_removeHole_def holes_modify_eq)
  moreover from Cons.IH [of ?d] obtain d' where
    "foldR (\<lambda>i. dv_removeHole (Event t i)) xs ?d = Inr d'" "dview d' = dview d"
    "length (dholes ?d) \<le> length (dholes d')"
    "\<forall>n. hol d' n =
      (if n = nat t then fold (\<lambda>x s. fst (vset_erase s x)) xs (hol ?d n) else hol ?d n)"
    by auto
  ultimately show ?case by auto
qed

text \<open>Raising the maximum of a thread, with the new indices in between as holes.\<close>

lemma raise_max:
  assumes "dv_inv d" "valid e" "vmax (dview d) (nat (thread e)) < index e"
    and "dview d1 = view_put (dview d) (nat (thread e)) (index e)"
    and "\<forall>n. hol d1 n = hol d n" "length (dview d1) \<le> length (dholes d1)"
  shows "\<exists>d'. dv_addHolesInRange (Event (thread e) (vmax (dview d) (nat (thread e)) + 1))
      (index e) d1 = Inr d' \<and> dv_inv d' \<and> dview d' = dview d1 \<and>
    (\<forall>f. valid f \<longrightarrow> (dv_has d' f \<longleftrightarrow> dv_has d f \<or> f = e))"
proof -
  let ?n = "nat (thread e)" and ?old = "vmax (dview d) (nat (thread e))"
  have t: "0 \<le> thread e" using assms(2) by (simp add: valid_def)
  from add_holes [OF t, of "[?old + 1..index e - 1]" d1] assms(3,4) obtain d' where
    d': "dv_addHolesInRange (Event (thread e) (?old + 1)) (index e) d1 = Inr d'"
      "dview d' = dview d1" "length (dholes d1) \<le> length (dholes d')"
      "\<forall>n. hol d' n = (if n = ?n then
         fold (\<lambda>x s. fst (vset_insert s x)) [?old + 1..index e - 1] (hol d1 n) else hol d1 n)"
    by (auto simp: dv_addHolesInRange_def)
  have H: "vset_inv (hol d' n) \<and>
      set (hol d' n) = set (hol d n) \<union> (if n = ?n then {?old + 1..index e - 1} else {})" for n
    using d'(4) assms(5) vset.fold_ins [OF dv_invD(3) [OF assms(1), of n]] dv_invD(3) [OF assms(1)]
    by auto
  have V: "vmax (dview d') n = (if n = ?n then index e else vmax (dview d) n)" for n
    using d'(2) assms(4) by simp
  have "0 < h \<and> h \<le> vmax (dview d') n" if "h \<in> set (hol d' n)" for h n
    using that H [of n] V [of n] dv_invD(4,5) [OF assms(1), of _ n] dv_invD(6) [OF assms(1), of n]
      assms(3)
    by (cases "n = ?n") force+
  moreover have "0 \<le> vmax (dview d') n" for n
    using V [of n] dv_invD(6) [OF assms(1), of n] assms(2) by (auto simp: valid_def)
  ultimately have "dv_inv d'"
    unfolding dv_inv_def view_inv_vmax using H d'(2,3) assms(6) by auto
  moreover have "dv_has d' f \<longleftrightarrow> dv_has d f \<or> f = e" if "valid f" for f
  proof (cases "thread f = thread e")
    case True
    then have "f = e \<longleftrightarrow> index f = index e" by (auto simp: event.expand)
    moreover have "dv_has d' f \<longleftrightarrow> index f \<le> index e \<and> (index f = 0 \<or>
        index f \<notin> set (hol d ?n) \<and> \<not> (?old < index f \<and> index f < index e))"
      using True H [of ?n] V [of ?n] by (auto simp: dv_has_def)
    moreover have "index f \<notin> set (hol d ?n)" if "?old < index f"
      using that dv_invD(5) [OF assms(1), of _ ?n] by force
    ultimately show ?thesis
      using assms(3) dv_invD(6) [OF assms(1), of ?n] True that by (auto simp: dv_has_def valid_def)
  next
    case False
    then have "nat (thread f) \<noteq> ?n" using that t by (auto simp: valid_def)
    with False H [of "nat (thread f)"] V [of "nat (thread f)"] show ?thesis
      by (auto simp: dv_has_def)
  qed
  ultimately show ?thesis using d'(1,2) by blast
qed


lemma hol_resize [simp]:
  "length hs \<le> k \<Longrightarrow> nth_default [] (resize k [] hs) n = nth_default [] hs n"
  by (rule nth_default_resize)

lemma dv_updateIdx_has:
  assumes "dv_inv d" "valid e"
  shows "\<exists>d'. dv_updateIdx d e = Inr d' \<and> dv_inv d' \<and>
    (\<forall>f. valid f \<longrightarrow> (dv_has d' f \<longleftrightarrow> dv_has d f \<or> f = e))"
proof (cases "vmax (dview d) (nat (thread e)) < index e")
  case True
  let ?n = "nat (thread e)"
  let ?d1 = "\<lparr>dview = view_put (dview d) ?n (index e),
              dholes = resize (max (length (dholes d)) (Suc ?n)) [] (dholes d)\<rparr>"
  have t: "0 \<le> thread e" using assms(2) by (simp add: valid_def)
  have "length (dview ?d1) \<le> length (dholes ?d1)" using dv_invD(2) [OF assms(1)] by simp
  with raise_max [OF assms True, of ?d1] True t show ?thesis
    by (simp add: dv_updateIdx_def holes_grow_eq) blast
next
  case False
  let ?d = "d\<lparr>dholes := hole_put (dholes d) (nat (thread e)) (\<lambda>h. fst (vset_erase h (index e)))\<rparr>"
  have eq: "dv_updateIdx d e = Inr ?d"
    using assms(2) False
    by (simp add: dv_updateIdx_def dv_removeHole_def holes_modify_eq valid_def)
  have inv: "dv_inv ?d"
    using assms(1) by (auto simp: dv_inv_def)
  have "dv_has ?d f \<longleftrightarrow> dv_has d f \<or> f = e" if "valid f" for f
  proof (cases "thread f = thread e")
    case True
    then have "f = e \<longleftrightarrow> index f = index e" by (auto simp: event.expand)
    with True False dv_invD(3) [OF assms(1), of "nat (thread e)"] show ?thesis
      by (auto simp: dv_has_def)
  next
    case ne: False
    with that assms(2) have "nat (thread f) \<noteq> nat (thread e)" by (auto simp: valid_def)
    with ne show ?thesis by (auto simp: dv_has_def)
  qed
  with eq inv show ?thesis by blast
qed

lemma dv_setMax_has:
  assumes "dv_inv d" "valid e"
  shows "\<exists>d'. dv_setMax d e = Inr d' \<and> dv_inv d' \<and>
    dview d' = view_put (dview d) (nat (thread e)) (index e) \<and>
    (\<forall>f. valid f \<longrightarrow> (dv_has d' f \<longleftrightarrow>
       f = e \<or> dv_has d f \<and> (thread f = thread e \<longrightarrow> index f \<le> index e)))"
proof -
  let ?n = "nat (thread e)" and ?old = "vmax (dview d) (nat (thread e))"
  let ?hs = "if thread e \<ge> int (length (dview d))
             then resize (max (length (dholes d)) (Suc ?n)) [] (dholes d) else dholes d"
  let ?d1 = "\<lparr>dview = view_put (dview d) ?n (index e), dholes = ?hs\<rparr>"
  have t: "0 \<le> thread e" using assms(2) by (simp add: valid_def)
  have eq: "dv_setMax d e =
    (if ?old < index e then dv_addHolesInRange (Event (thread e) (?old + 1)) (index e) ?d1
     else dv_removeHolesInRange e (?old + 1) ?d1)"
    using t by (simp add: dv_setMax_def holes_grow_eq)
  have len: "length (dview ?d1) \<le> length (dholes ?d1)"
    using dv_invD(2) [OF assms(1)] t by auto
  have h1: "\<forall>n. hol ?d1 n = hol d n" by simp
  show ?thesis
  proof (cases "?old < index e")
    case True
    have "dv_has d f \<and> (thread f = thread e \<longrightarrow> index f \<le> index e) \<longleftrightarrow> dv_has d f" for f
      using True by (auto simp: dv_has_def)
    moreover from raise_max [OF assms True _ h1 len] obtain d' where
      "dv_addHolesInRange (Event (thread e) (?old + 1)) (index e) ?d1 = Inr d'" "dv_inv d'"
      "dview d' = dview ?d1" "\<forall>f. valid f \<longrightarrow> (dv_has d' f \<longleftrightarrow> dv_has d f \<or> f = e)"
      by auto
    ultimately show ?thesis using True by (simp add: eq) blast
  next
    case False
    from remove_holes [OF t, of "[index e..?old]" ?d1] obtain d' where
      d': "dv_removeHolesInRange e (?old + 1) ?d1 = Inr d'" "dview d' = dview ?d1"
        "length (dholes ?d1) \<le> length (dholes d')"
        "\<forall>n. hol d' n = (if n = ?n then
           fold (\<lambda>x s. fst (vset_erase s x)) [index e..?old] (hol ?d1 n) else hol ?d1 n)"
      by (auto simp: dv_removeHolesInRange_def)
    have H: "vset_inv (hol d' n) \<and>
        set (hol d' n) = set (hol d n) - (if n = ?n then {index e..?old} else {})" for n
      using d'(4) h1 vset.fold_del [OF dv_invD(3) [OF assms(1), of n]] dv_invD(3) [OF assms(1)]
      by auto
    have V: "vmax (dview d') n = (if n = ?n then index e else vmax (dview d) n)" for n
      using d'(2) by simp
    have "0 < h \<and> h \<le> vmax (dview d') n" if "h \<in> set (hol d' n)" for h n
      using that H [of n] V [of n] dv_invD(4,5) [OF assms(1), of _ n]
      by (cases "n = ?n") force+
    moreover have "0 \<le> vmax (dview d') n" for n
      using V [of n] dv_invD(6) [OF assms(1), of n] assms(2) by (auto simp: valid_def)
    ultimately have inv: "dv_inv d'"
      unfolding dv_inv_def view_inv_vmax using H d'(2,3) len by auto
    have "dv_has d' f \<longleftrightarrow> f = e \<or> dv_has d f \<and> (thread f = thread e \<longrightarrow> index f \<le> index e)"
      if "valid f" for f
    proof (cases "thread f = thread e")
      case True
      then have "f = e \<longleftrightarrow> index f = index e" by (auto simp: event.expand)
      with True False H [of ?n] V [of ?n] show ?thesis by (auto simp: dv_has_def)
    next
      case ne: False
      with that t have "nat (thread f) \<noteq> ?n" by (auto simp: valid_def)
      with ne H [of "nat (thread f)"] V [of "nat (thread f)"] show ?thesis
        by (auto simp: dv_has_def)
    qed
    with False d'(1,2) inv show ?thesis by (auto simp: eq)
  qed
qed

text \<open>One thread of the join.\<close>

lemma set_drop_lower_bound:
  "vset_inv xs \<Longrightarrow> set (drop (lower_bound xs x) xs) = {y \<in> set xs. x \<le> y}"
  by (simp add: drop_lower_bound lower_bound_split)

lemma dv_update_thread_has:
  assumes "dv_inv d" "dv_inv v" "n < length (dview v)"
  shows "\<exists>d'. dv_update_thread v (int n) d = Inr d' \<and> dv_inv d' \<and>
    (\<forall>f. valid f \<longrightarrow> (dv_has d' f \<longleftrightarrow> dv_has d f \<or> nat (thread f) = n \<and> dv_has v f))"
proof -
  let ?h = "hol d n" and ?vh = "hol v n" and ?m = "vmax (dview d) n" and ?vm = "vmax (dview v) n"
  let ?isec = "vset_intersectWith ?h ?vh"
  let ?X = "if ?m < ?vm then vset_insert_range ?isec (drop (lower_bound ?vh (?m + 1)) ?vh)
            else vset_insert_range ?isec (drop (lower_bound ?h (?vm + 1)) ?h)"
  let ?w = "if ?m < ?vm then view_put (dview d) n ?vm else dview d"
  let ?d = "\<lparr>dview = ?w, dholes = hole_put (dholes d) n (\<lambda>_. ?X)\<rparr>"
  have "n < length (dholes v)" using assms(3) dv_invD(2) [OF assms(2)] by simp
  then have c: "holes_const (dholes v) (int n) = Inr ?vh"
    by (simp add: holes_const_def nth_default_def)
  have h: "resize (max (length (dholes d)) (Suc n)) [] (dholes d) ! n = ?h"
    by (auto simp: nth_resize nth_default_def)
  have eq: "dv_update_thread v (int n) d = Inr ?d"
    using c h
    by (simp add: dv_update_thread_def holes_grow_eq hole_put_def Let_def dv_getMax_def)
  have ih: "vset_inv ?h" "vset_inv ?vh" using dv_invD(3) assms(1,2) by blast+
  then have X: "vset_inv ?X" "set ?X = set ?h \<inter> set ?vh \<union>
      (if ?m < ?vm then {y \<in> set ?vh. ?m + 1 \<le> y} else {y \<in> set ?h. ?vm + 1 \<le> y})"
    using vset_insert_range_correct [of ?isec "drop (lower_bound ?vh (?m + 1)) ?vh"]
      vset_insert_range_correct [of ?isec "drop (lower_bound ?h (?vm + 1)) ?h"]
    by (simp_all add: set_drop_lower_bound)
  have V: "vmax (dview ?d) k = (if k = n then max ?m ?vm else vmax (dview d) k)" for k
    by auto
  have H: "hol ?d k = (if k = n then ?X else hol d k)" for k by simp
  have "0 < y \<and> y \<le> vmax (dview ?d) k" if "y \<in> set (hol ?d k)" for y k
  proof (cases "k = n")
    case True
    with that X(2) have "y \<in> set ?h \<and> y \<le> ?m \<or> y \<in> set ?vh \<and> y \<le> ?vm"
      using dv_invD(5) [OF assms(1), of y n] dv_invD(5) [OF assms(2), of y n]
      by (auto simp: H split: if_splits)
    with True show ?thesis
      using dv_invD(4) [OF assms(1), of y n] dv_invD(4) [OF assms(2), of y n] by (auto simp: V)
  next
    case False
    with that show ?thesis
      using dv_invD(4,5) [OF assms(1), of y k] by (auto simp: V H)
  qed
  moreover have "0 \<le> vmax (dview ?d) k" for k
    using dv_invD(6) [OF assms(1), of k] dv_invD(6) [OF assms(1), of n] by (auto simp: V)
  ultimately have inv: "dv_inv ?d"
    unfolding dv_inv_def view_inv_vmax
    using X(1) dv_invD(2,3) [OF assms(1)] assms(3) by (auto simp: H)
  have "dv_has ?d f \<longleftrightarrow> dv_has d f \<or> nat (thread f) = n \<and> dv_has v f" for f
  proof (cases "nat (thread f) = n")
    case True
    have "index f \<notin> set ?vh" if "?vm < index f" using that dv_invD(5) [OF assms(2)] by force
    moreover have "index f \<notin> set ?h" if "?m < index f" using that dv_invD(5) [OF assms(1)] by force
    ultimately show ?thesis
      unfolding dv_has_def V H using True X(2) by (auto simp: not_le)
  next
    case False
    then show ?thesis by (simp add: dv_has_def V H)
  qed
  with eq inv show ?thesis by blast
qed

lemma dv_update_has:
  assumes "dv_inv d" "dv_inv v"
  shows "\<exists>d'. dv_update d v = Inr d' \<and> dv_inv d' \<and>
    (\<forall>f. valid f \<longrightarrow> (dv_has d' f \<longleftrightarrow> dv_has d f \<or> dv_has v f))"
proof -
  have loop: "\<exists>d'. foldR (dv_update_thread v) (map int [0..<k]) d = Inr d' \<and> dv_inv d' \<and>
    (\<forall>f. valid f \<longrightarrow> (dv_has d' f \<longleftrightarrow> dv_has d f \<or> nat (thread f) < k \<and> dv_has v f))"
    if "k \<le> length (dview v)" for k
    using that
  proof (induction k)
    case 0
    then show ?case using assms(1) by simp
  next
    case (Suc k)
    then obtain d1 where d1: "foldR (dv_update_thread v) (map int [0..<k]) d = Inr d1" "dv_inv d1"
      "\<forall>f. valid f \<longrightarrow> (dv_has d1 f \<longleftrightarrow> dv_has d f \<or> nat (thread f) < k \<and> dv_has v f)" by auto
    from dv_update_thread_has [OF d1(2) assms(2), of k] Suc.prems d1 show ?case
      by (auto simp: foldR_append less_Suc_eq)
  qed
  have high: "dv_has d f" if "dv_has v f" "valid f" "\<not> nat (thread f) < length (dview v)" for f
  proof -
    have "vmax (dview v) (nat (thread f)) = 0" using that(3) by (simp add: nth_default_def)
    with that(1,2) have "index f = 0" by (simp add: dv_has_def valid_def)
    with dv_invD(6) [OF assms(1), of "nat (thread f)"] show ?thesis by (simp add: dv_has_def)
  qed
  show ?thesis
  proof (cases "dview v = []")
    case True
    with high assms(1) show ?thesis by (auto simp: dv_update_def)
  next
    case False
    then have "dv_update d v = foldR (dv_update_thread v) (map int [0..<length (dview v)]) d"
      by (simp add: dv_update_def)
    with loop [of "length (dview v)"] high show ?thesis by auto
  qed
qed

interpretation dep_clock: vector_clock dv_inv dv_contains dv_updateIdx dv_update
proof
  fix c e assume c: "dv_inv c" and e: "valid e"
  then show "\<exists>b. dv_contains c e = Inr b" by (simp add: dv_contains_iff)
  from dv_updateIdx_has [OF c e] obtain c' where "dv_updateIdx c e = Inr c'" "dv_inv c'"
    "\<forall>f. valid f \<longrightarrow> (dv_has c' f \<longleftrightarrow> dv_has c f \<or> f = e)" by blast
  with c e show "\<exists>c'. dv_updateIdx c e = Inr c' \<and> dv_inv c' \<and> dv_contains c' e = Inr True \<and>
    (\<forall>f. valid f \<longrightarrow> dv_contains c f = Inr True \<longrightarrow> dv_contains c' f = Inr True)"
    by (auto simp: dv_contains_iff)
next
  fix c d assume "dv_inv c" "dv_inv d"
  with dv_update_has [of c d] show "\<exists>c'. dv_update c d = Inr c' \<and> dv_inv c' \<and>
    (\<forall>f. valid f \<longrightarrow> (dv_contains c' f = Inr True \<longleftrightarrow>
       dv_contains c f = Inr True \<or> dv_contains d f = Inr True))"
    by (fastforce simp: dv_contains_iff)
qed

text \<open>
  \<open>hasHole\<close> answers the opposite of what its comment says (within the known threads), and
  the binary \<open>operator-\<close> of \<open>Stamp\<close> agrees with \<open>operator-=\<close> only where adding and
  subtracting coincide.
\<close>

lemma dv_hasHole_inverted:
  assumes "dv_inv d" "0 \<le> thread e" "thread e < int (length (dholes d))"
  shows "dv_hasHole d e = Inr (index e \<notin> set (hol d (nat (thread e))))"
proof -
  have "nat (thread e) < length (dholes d)" using assms(2,3) by (simp add: nat_less_iff)
  with assms dv_invD(3) [OF assms(1), of "nat (thread e)"] show ?thesis
    by (simp add: dv_hasHole_def holes_const_def vset_count_eq nth_default_def)
qed

lemma stamp_sub_iff: "stamp_sub s v = stamp_sub_assign s v \<longleftrightarrow> v + v = 0"
  unfolding stamp_sub_def stamp_sub_assign_def by (subst eq_iff_diff_eq_0) simp

fun vc_inv :: "vector_clock \<Rightarrow> bool" where
  "vc_inv (VC_View v) = view_inv v"
| "vc_inv (VC_DepView d) = dv_inv d"

fun vc_is_view :: "vector_clock \<Rightarrow> bool" where
  "vc_is_view (VC_View v) = True"
| "vc_is_view (VC_DepView d) = False"

section \<open>Properties\<close>

text \<open>\<open>View::update\<close> never fails and computes the pointwise maximum of the two clocks;
  so a joined view contains an event exactly when one of the two views contains it.\<close>

theorem view_update_joins:
  assumes "view_inv v" "view_inv w"
  shows "\<exists>u. view_update v w = Inr u \<and> view_inv u \<and>
    (\<forall>t\<ge>0. view_getMax u t = Inr (max (vmax v (nat t)) (vmax w (nat t)))) \<and>
    (\<forall>e. valid e \<longrightarrow> view_contains u e =
      Inr (view_contains v e = Inr True \<or> view_contains w e = Inr True))"
proof -
  from view_update_vmax [of v w] obtain u where u: "view_update v w = Inr u"
    "\<forall>n. vmax u n = (if w = [] then vmax v n else max (vmax v n) (vmax w n))" by blast
  have m: "vmax u n = max (vmax v n) (vmax w n)" for n
    using u(2) assms(1) by (simp add: view_inv_vmax max_absorb1)
  with u(1) assms show ?thesis by (auto simp: view_inv_vmax le_max_iff_disj)
qed

theorem view_update_joins_witness:
  "\<exists>u. view_update [1, 5] [2, 3, 4] = Inr u \<and> view_contains u (Event 1 5) = Inr True"
proof -
  have "view_inv [1, 5]" "view_inv [2, 3, 4]" by (simp_all add: view_inv_def)
  from view_update_joins [OF this] obtain u where u: "view_update [1, 5] [2, 3, 4] = Inr u"
    "\<forall>e. valid e \<longrightarrow> view_contains u e =
      Inr (view_contains [1, 5] e = Inr True \<or> view_contains [2, 3, 4] e = Inr True)" by blast
  have "view_contains [1, 5] (Event 1 5) = Inr True" by code_simp
  with u(1) u(2) [rule_format, of "Event 1 5"] show ?thesis by (simp add: valid_def del: view_contains_iff)
qed

text \<open>\<open>DepView::updateIdx\<close> never fails on a well-formed clock, keeps it well formed, and
  adds exactly the given event: the indices it jumps over become holes, a hole in its place is
  removed, nothing else changes.\<close>

theorem depview_updateIdx_adds_exactly:
  assumes "dv_inv d" "valid e"
  shows "\<exists>d'. dv_updateIdx d e = Inr d' \<and> dv_inv d' \<and>
    (\<forall>f. valid f \<longrightarrow> dv_contains d' f = Inr (f = e \<or> dv_contains d f = Inr True))"
proof -
  from dv_updateIdx_has [OF assms] obtain d' where
    "dv_updateIdx d e = Inr d'" "dv_inv d'" "\<forall>f. valid f \<longrightarrow> (dv_has d' f \<longleftrightarrow> dv_has d f \<or> f = e)"
    by blast
  with assms(1) show ?thesis by (auto simp: dv_contains_iff)
qed

text \<open>A clock with two threads: thread 0 up to 1, thread 1 up to 4 without 2 and 3.\<close>

definition dv_example :: dep_view where
  "dv_example = \<lparr>dview = [1, 4], dholes = [[], [2, 3]]\<rparr>"

lemma dv_example [simp]: "dv_inv dv_example"
proof -
  have "vset_inv (hol dv_example n) \<and>
      (\<forall>h \<in> set (hol dv_example n). 0 < h \<and> h \<le> vmax (dview dv_example) n)" for n
    by (cases n; cases "n - 1") (auto simp: dv_example_def nth_default_def vset_inv_def)
  then show ?thesis by (simp add: dv_inv_def) (simp add: dv_example_def view_inv_def)
qed

theorem depview_updateIdx_adds_exactly_witness:
  "\<exists>d'. dv_updateIdx dv_example (Event 1 2) = Inr d' \<and>
    dv_contains d' (Event 1 2) = Inr True \<and> dv_contains d' (Event 1 3) = Inr False"
proof -
  have f: "valid (Event 1 2)" "valid (Event 1 3)" by (simp_all add: valid_def)
  from depview_updateIdx_adds_exactly [OF dv_example f(1)] obtain d' where
    "dv_updateIdx dv_example (Event 1 2) = Inr d'"
    "\<forall>f. valid f \<longrightarrow> dv_contains d' f = Inr (f = Event 1 2 \<or> dv_contains dv_example f = Inr True)"
    by blast
  moreover have "dv_contains dv_example (Event 1 3) = Inr False" by code_simp
  ultimately show ?thesis using f by auto
qed

text \<open>\<open>DepView::update\<close> is the union: joining any list of well-formed dependency clocks
  into one, in any order, never fails and yields a well-formed clock with exactly the events
  of all of them.\<close>

theorem depview_join_list_is_union:
  assumes "dv_inv c" "\<forall>d \<in> set ds. dv_inv d"
  shows "\<exists>c'. foldR (\<lambda>d c. dv_update c d) ds c = Inr c' \<and> dv_inv c' \<and>
    (\<forall>f. valid f \<longrightarrow> (dv_contains c' f = Inr True \<longleftrightarrow>
      dv_contains c f = Inr True \<or> (\<exists>d \<in> set ds. dv_contains d f = Inr True)))"
  by (rule dep_clock.join_list [OF assms])

theorem depview_join_list_is_union_witness:
  "\<exists>c'. foldR (\<lambda>d c. dv_update c d) [dv_example, dv_empty] dv_empty = Inr c' \<and>
    dv_contains c' (Event 1 4) = Inr True \<and> dv_contains c' (Event 1 3) \<noteq> Inr True"
proof -
  have e: "dv_inv dv_empty" by (simp add: dv_inv_def dv_empty_def)
  have f: "valid (Event 1 4)" "valid (Event 1 3)" by (simp_all add: valid_def)
  have "dv_contains dv_example (Event 1 4) = Inr True" "dv_contains dv_example (Event 1 3) = Inr False"
    "dv_contains dv_empty (Event 1 3) = Inr False"
    by code_simp+
  with depview_join_list_is_union [OF e, of "[dv_example, dv_empty]"] e f show ?thesis by auto
qed

text \<open>\<open>DepView::setMax\<close> makes its event the last one of its thread: it keeps the smaller
  events, drops the larger ones, contains the event itself, and leaves other threads alone.\<close>

theorem depview_setMax_truncates:
  assumes "dv_inv d" "valid e"
  shows "\<exists>d'. dv_setMax d e = Inr d' \<and> dv_inv d' \<and> dv_getMax d' (thread e) = Inr (index e) \<and>
    (\<forall>f. valid f \<longrightarrow> dv_contains d' f = Inr (f = e \<or>
      dv_contains d f = Inr True \<and> (thread f = thread e \<longrightarrow> index f \<le> index e)))"
proof -
  from dv_setMax_has [OF assms] obtain d' where d': "dv_setMax d e = Inr d'" "dv_inv d'"
    "dview d' = view_put (dview d) (nat (thread e)) (index e)"
    "\<forall>f. valid f \<longrightarrow> (dv_has d' f \<longleftrightarrow> f = e \<or> dv_has d f \<and> (thread f = thread e \<longrightarrow> index f \<le> index e))"
    by blast
  with assms show ?thesis by (auto simp: dv_contains_iff dv_getMax_def valid_def)
qed

theorem depview_setMax_truncates_witness:
  "\<exists>d'. dv_setMax dv_example (Event 1 2) = Inr d' \<and> dv_contains d' (Event 1 2) = Inr True \<and>
    dv_contains d' (Event 1 4) = Inr False \<and> dv_contains d' (Event 1 1) = Inr True"
proof -
  have f: "valid (Event 1 2)" "valid (Event 1 4)" "valid (Event 1 1)"
    by (simp_all add: valid_def)
  from depview_setMax_truncates [OF dv_example f(1)] obtain d' where
    "dv_setMax dv_example (Event 1 2) = Inr d'"
    "\<forall>f. valid f \<longrightarrow> dv_contains d' f = Inr (f = Event 1 2 \<or>
      dv_contains dv_example f = Inr True \<and> (thread f = 1 \<longrightarrow> index f \<le> 2))" by auto
  moreover have "dv_contains dv_example (Event 1 1) = Inr True" by code_simp
  ultimately show ?thesis using f by auto
qed

text \<open>\<open>VectorClock::update\<close> and \<open>updateIdx\<close> dispatch on the kind: two clocks of one kind
  always join, an update with the other kind aborts, and no operation changes the kind.\<close>

theorem vc_update_joins_same_kind:
  assumes "vc_inv c" "vc_inv d"
  shows "if vc_is_view c = vc_is_view d
    then \<exists>c'. vc_update c d = Inr c' \<and> vc_inv c' \<and> vc_is_view c' = vc_is_view c \<and>
      (\<forall>e. valid e \<longrightarrow> (vc_contains c' e = Inr True \<longleftrightarrow>
        vc_contains c e = Inr True \<or> vc_contains d e = Inr True))
    else vc_update c d = Inl Bug"
proof (cases c)
  case c: (VC_View v)
  show ?thesis
  proof (cases d)
    case d: (VC_View w)
    with c assms view_clock.update [of v w] show ?thesis by (auto simp del: view_contains_iff)
  qed (simp add: c)
next
  case c: (VC_DepView v)
  show ?thesis
  proof (cases d)
    case d: (VC_DepView w)
    with c assms dep_clock.update [of v w] show ?thesis by auto
  qed (simp add: c)
qed

theorem vc_update_joins_same_kind_witness:
  "vc_update (VC_View [1]) (VC_DepView dv_example) = Inl Bug"
  using vc_update_joins_same_kind [of "VC_View [1]" "VC_DepView dv_example"]
  by (simp add: view_inv_def)

end
