(* ===== verification/Clock_Actions.thy ===== *)
theory Clock_Actions
  imports Weazer_Prelude
begin

text \<open>
  PCTWM's clock vectors (\<open>clockvector.cc\<close>) and actions (\<open>action.h\<close>, \<open>action.cc\<close>).

  A \<open>ClockVector\<close> is its array; \<open>num_threads\<close> is the length.  Clocks are 32-bit words
  and only compared.  Thread ids are non-negative \<open>int\<close>s of the code, here naturals.
  A \<open>ModelAction\<close> is a record; the anonymous union of \<open>reads_from\<close>, \<open>size\<close> and
  \<open>time\<close> is a datatype, and reading a member that is not the active one is \<open>Undefined\<close>.
  Pointers to other actions are identifiers into a store of actions.  \<open>ASSERT\<close> is
  compiled out in the shipped configuration (\<open>config.h\<close>), so it is not a check here.
\<close>

section \<open>Clock vectors\<close>

type_synonym clock = "32 word"
type_synonym clocks = "clock list"

text \<open>\<open>ClockVector(parent, act)\<close>; the action contributes its thread and its number.\<close>

definition cv_new :: "clocks option \<Rightarrow> (nat \<times> clock) option \<Rightarrow> clocks" where
  "cv_new parent act =
     (let n = (case act of Some (tid, _) \<Rightarrow> tid + 1 | None \<Rightarrow> 0);
          num = (case parent of Some p \<Rightarrow> if length p > n then length p else n | None \<Rightarrow> n);
          c = (case parent of Some p \<Rightarrow> resize num 0 p | None \<Rightarrow> replicate num 0)
      in case act of Some (tid, s) \<Rightarrow> c[tid := s] | None \<Rightarrow> c)"

text \<open>The element-wise loops, over the indices of the argument; they return the flag \<open>changed\<close>.\<close>

fun cv_max_loop :: "nat list \<Rightarrow> clocks \<Rightarrow> clocks \<Rightarrow> bool \<Rightarrow> clocks \<times> bool" where
  "cv_max_loop [] cv c ch = (c, ch)"
| "cv_max_loop (i # is) cv c ch =
     (if cv ! i > c ! i then cv_max_loop is cv (c[i := cv ! i]) True
      else cv_max_loop is cv c ch)"

fun cv_min_loop :: "nat list \<Rightarrow> clocks \<Rightarrow> clocks \<Rightarrow> bool \<Rightarrow> clocks \<times> bool" where
  "cv_min_loop [] cv c ch = (c, ch)"
| "cv_min_loop (i # is) cv c ch =
     (if cv ! i < c ! i then cv_min_loop is cv (c[i := cv ! i]) True
      else cv_min_loop is cv c ch)"

definition cv_merge :: "clocks \<Rightarrow> clocks \<Rightarrow> clocks \<times> bool" where
  "cv_merge c cv =
     (let c1 = (if length cv > length c then resize (length cv) 0 c else c)
      in cv_max_loop [0..<length cv] cv c1 False)"

definition cv_minmerge :: "clocks \<Rightarrow> clocks \<Rightarrow> clocks \<times> bool" where
  "cv_minmerge c cv =
     (let c1 = (if length cv > length c then resize (length cv) 0 c else c)
      in cv_min_loop [0..<length cv] cv c1 False)"

text \<open>\<open>synchronized_since\<close>, given the thread and the number of the action.\<close>

definition cv_synchronized_since :: "clocks \<Rightarrow> nat \<Rightarrow> clock \<Rightarrow> bool" where
  "cv_synchronized_since c tid seq = (if tid < length c then seq \<le> c ! tid else False)"

definition getClock :: "clocks \<Rightarrow> nat \<Rightarrow> clock" where
  "getClock c t = (if t < length c then c ! t else 0)"

section \<open>Actions\<close>

datatype action_type =
    THREAD_CREATE | THREAD_START | THREAD_YIELD | THREAD_JOIN | THREAD_FINISH
  | THREADONLY_FINISH | THREAD_SLEEP | PTHREAD_CREATE | PTHREAD_JOIN
  | NONATOMIC_WRITE | ATOMIC_INIT | ATOMIC_WRITE | ATOMIC_RMW | ATOMIC_READ
  | ATOMIC_RMWR | ATOMIC_RMWRCAS | ATOMIC_RMWC
  | ATOMIC_FENCE | ATOMIC_LOCK | ATOMIC_TRYLOCK | ATOMIC_UNLOCK
  | ATOMIC_NOTIFY_ONE | ATOMIC_NOTIFY_ALL | ATOMIC_WAIT | ATOMIC_TIMEDWAIT
  | ATOMIC_ANNOTATION | READY_FREE | ATOMIC_NOP

datatype memory_order =
    mo_relaxed | mo_consume | mo_acquire | mo_release | mo_acq_rel | mo_seq_cst
  | mo_other "32 word"   \<comment> \<open>\<open>memory_order_normal\<close> and the wildcards\<close>

datatype act_union = Reads_from "nat option" | Size "32 word" | Time "64 word"

definition VALUE_NONE :: "64 word" where "VALUE_NONE = 0xdeadbeef"
definition ACTION_INITIAL_CLOCK :: clock where "ACTION_INITIAL_CLOCK = 0"
definition VALUE_TRYSUCCESS :: "64 word" where "VALUE_TRYSUCCESS = 1"
definition VALUE_TRYFAILED :: "64 word" where "VALUE_TRYFAILED = 0"

record action =
  a_location :: "64 word"
  a_union :: act_union
  last_fence_release :: "nat option"
  a_cv :: "clocks option"
  a_rf_cv :: "clocks option"
  a_value :: "64 word"
  a_type :: action_type
  a_order :: memory_order
  original_order :: memory_order
  a_tid :: nat
  seq_number :: clock
  bag_flag :: bool
  read_external_flag :: bool
  a_bag :: nat

text \<open>
  The constructors.  \<open>current\<close> is the id of the current thread.  The first takes an optional
  thread, the second builds a sleep action, the third takes the size of the access.  \<open>bag\<close> is the address of the
  vector that the constructor allocates.
\<close>

definition new_action ::
    "nat \<Rightarrow> nat \<Rightarrow> action_type \<Rightarrow> memory_order \<Rightarrow> 64 word \<Rightarrow> 64 word \<Rightarrow> nat option \<Rightarrow> action" where
  "new_action bag current type order loc value thread =
     \<lparr>a_location = loc, a_union = Reads_from None, last_fence_release = None, a_cv = None,
      a_rf_cv = None, a_value = value, a_type = type, a_order = order, original_order = order,
      a_tid = (case thread of Some t \<Rightarrow> t | None \<Rightarrow> current), seq_number = ACTION_INITIAL_CLOCK,
      bag_flag = False, read_external_flag = False, a_bag = bag\<rparr>"

definition new_sleep_action ::
    "nat \<Rightarrow> nat \<Rightarrow> action_type \<Rightarrow> memory_order \<Rightarrow> 64 word \<Rightarrow> 64 word \<Rightarrow> action" where
  "new_sleep_action bag current type order value time =
     \<lparr>a_location = 0, a_union = Time time, last_fence_release = None, a_cv = None,
      a_rf_cv = None, a_value = value, a_type = type, a_order = order, original_order = order,
      a_tid = current, seq_number = ACTION_INITIAL_CLOCK,
      bag_flag = False, read_external_flag = False, a_bag = bag\<rparr>"

definition new_sized_action ::
    "nat \<Rightarrow> nat \<Rightarrow> action_type \<Rightarrow> memory_order \<Rightarrow> 64 word \<Rightarrow> 64 word \<Rightarrow> 32 word \<Rightarrow> action" where
  "new_sized_action bag current type order loc value sz =
     \<lparr>a_location = loc, a_union = Size sz, last_fence_release = None, a_cv = None,
      a_rf_cv = None, a_value = value, a_type = type, a_order = order, original_order = order,
      a_tid = current, seq_number = ACTION_INITIAL_CLOCK,
      bag_flag = False, read_external_flag = False, a_bag = bag\<rparr>"

definition getSize :: "action \<Rightarrow> 32 word res" where
  "getSize a = (case a_union a of Size s \<Rightarrow> Inr s | _ \<Rightarrow> Inl Undefined)"

definition copy_from_new :: "action \<Rightarrow> action \<Rightarrow> action" where
  "copy_from_new a new = a\<lparr>seq_number := seq_number new\<rparr>"

definition set_seq_number :: "clock \<Rightarrow> action \<Rightarrow> action" where
  "set_seq_number num a = a\<lparr>seq_number := num\<rparr>"

definition reset_seq_number :: "action \<Rightarrow> action" where
  "reset_seq_number a = a\<lparr>seq_number := 0\<rparr>"

subsection \<open>Predicates on the type and the order\<close>

definition is_thread_start :: "action \<Rightarrow> bool" where
  "is_thread_start a \<longleftrightarrow> a_type a = THREAD_START"
definition is_thread_join :: "action \<Rightarrow> bool" where
  "is_thread_join a \<longleftrightarrow> a_type a = THREAD_JOIN \<or> a_type a = PTHREAD_JOIN"
definition is_mutex_op :: "action \<Rightarrow> bool" where
  "is_mutex_op a \<longleftrightarrow> a_type a \<in> {ATOMIC_LOCK, ATOMIC_TRYLOCK, ATOMIC_UNLOCK, ATOMIC_WAIT,
     ATOMIC_TIMEDWAIT, ATOMIC_NOTIFY_ONE, ATOMIC_NOTIFY_ALL}"
definition is_lock :: "action \<Rightarrow> bool" where
  "is_lock a \<longleftrightarrow> a_type a = ATOMIC_LOCK"
definition is_sleep :: "action \<Rightarrow> bool" where
  "is_sleep a \<longleftrightarrow> a_type a = THREAD_SLEEP"
definition is_wait :: "action \<Rightarrow> bool" where
  "is_wait a \<longleftrightarrow> a_type a = ATOMIC_WAIT \<or> a_type a = ATOMIC_TIMEDWAIT"
definition is_timedwait :: "action \<Rightarrow> bool" where
  "is_timedwait a \<longleftrightarrow> a_type a = ATOMIC_TIMEDWAIT"
definition is_notify :: "action \<Rightarrow> bool" where
  "is_notify a \<longleftrightarrow> a_type a = ATOMIC_NOTIFY_ONE \<or> a_type a = ATOMIC_NOTIFY_ALL"
definition is_notify_one :: "action \<Rightarrow> bool" where
  "is_notify_one a \<longleftrightarrow> a_type a = ATOMIC_NOTIFY_ONE"
definition is_unlock :: "action \<Rightarrow> bool" where
  "is_unlock a \<longleftrightarrow> a_type a = ATOMIC_UNLOCK"
definition is_trylock :: "action \<Rightarrow> bool" where
  "is_trylock a \<longleftrightarrow> a_type a = ATOMIC_TRYLOCK"
definition is_success_lock :: "action \<Rightarrow> bool" where
  "is_success_lock a \<longleftrightarrow> a_type a = ATOMIC_LOCK \<or>
     (a_type a = ATOMIC_TRYLOCK \<and> a_value a = VALUE_TRYSUCCESS)"
definition is_failed_trylock :: "action \<Rightarrow> bool" where
  "is_failed_trylock a \<longleftrightarrow> a_type a = ATOMIC_TRYLOCK \<and> a_value a = VALUE_TRYFAILED"
definition is_read :: "action \<Rightarrow> bool" where
  "is_read a \<longleftrightarrow> a_type a = ATOMIC_READ \<or> a_type a = ATOMIC_RMWR \<or> a_type a = ATOMIC_RMWRCAS
     \<or> a_type a = ATOMIC_RMW"
definition is_write :: "action \<Rightarrow> bool" where
  "is_write a \<longleftrightarrow> a_type a = ATOMIC_WRITE \<or> a_type a = ATOMIC_RMW \<or> a_type a = ATOMIC_INIT
     \<or> a_type a = NONATOMIC_WRITE"
definition is_create :: "action \<Rightarrow> bool" where
  "is_create a \<longleftrightarrow> a_type a = THREAD_CREATE \<or> a_type a = PTHREAD_CREATE"
definition is_free :: "action \<Rightarrow> bool" where
  "is_free a \<longleftrightarrow> a_type a = READY_FREE"
definition is_rmwr :: "action \<Rightarrow> bool" where
  "is_rmwr a \<longleftrightarrow> a_type a = ATOMIC_RMWR \<or> a_type a = ATOMIC_RMWRCAS"
definition could_be_write :: "action \<Rightarrow> bool" where
  "could_be_write a \<longleftrightarrow> is_write a \<or> is_rmwr a"
definition is_atomic_var :: "action \<Rightarrow> bool" where
  "is_atomic_var a \<longleftrightarrow> is_read a \<or> could_be_write a"
definition is_yield :: "action \<Rightarrow> bool" where
  "is_yield a \<longleftrightarrow> a_type a = THREAD_YIELD"
definition is_rmwrcas :: "action \<Rightarrow> bool" where
  "is_rmwrcas a \<longleftrightarrow> a_type a = ATOMIC_RMWRCAS"
definition is_rmw :: "action \<Rightarrow> bool" where
  "is_rmw a \<longleftrightarrow> a_type a = ATOMIC_RMW"
definition is_rmwc :: "action \<Rightarrow> bool" where
  "is_rmwc a \<longleftrightarrow> a_type a = ATOMIC_RMWC"
definition is_fence :: "action \<Rightarrow> bool" where
  "is_fence a \<longleftrightarrow> a_type a = ATOMIC_FENCE"
definition is_initialization :: "action \<Rightarrow> bool" where
  "is_initialization a \<longleftrightarrow> a_type a = ATOMIC_INIT"
definition is_annotation :: "action \<Rightarrow> bool" where
  "is_annotation a \<longleftrightarrow> a_type a = ATOMIC_ANNOTATION"
definition is_relaxed :: "action \<Rightarrow> bool" where
  "is_relaxed a \<longleftrightarrow> a_order a = mo_relaxed"
definition is_acquire :: "action \<Rightarrow> bool" where
  "is_acquire a \<longleftrightarrow> (case a_order a of mo_acquire \<Rightarrow> True | mo_acq_rel \<Rightarrow> True
     | mo_seq_cst \<Rightarrow> True | _ \<Rightarrow> False)"
definition is_release :: "action \<Rightarrow> bool" where
  "is_release a \<longleftrightarrow> (case a_order a of mo_release \<Rightarrow> True | mo_acq_rel \<Rightarrow> True
     | mo_seq_cst \<Rightarrow> True | _ \<Rightarrow> False)"
definition is_seqcst :: "action \<Rightarrow> bool" where
  "is_seqcst a \<longleftrightarrow> a_order a = mo_seq_cst"

definition same_var :: "action \<Rightarrow> action \<Rightarrow> bool" where
  "same_var a act \<longleftrightarrow>
     (if is_wait act \<and> is_wait a \<and> a_value a = a_value act then True
      else if \<not> is_wait act \<and> is_wait a \<and> a_value a = a_location act then True
      else if \<not> is_wait a \<and> is_wait act \<and> a_location a = a_value act then True
      else a_location a = a_location act)"

definition same_thread :: "action \<Rightarrow> action \<Rightarrow> bool" where
  "same_thread a act \<longleftrightarrow> a_tid a = a_tid act"

definition copy_typeandorder :: "action \<Rightarrow> action \<Rightarrow> action" where
  "copy_typeandorder a act = a\<lparr>a_type := a_type act, a_order := a_order act\<rparr>"

definition in_count :: "action \<Rightarrow> bool" where
  "in_count a =
     (if is_write a \<and> (is_seqcst a \<or> is_release a) then True
      else if is_read a then True
      else if is_fence a \<and> is_acquire a then True
      else False)"

subsection \<open>Operations\<close>

definition process_rmw :: "action \<Rightarrow> action \<Rightarrow> action" where
  "process_rmw a act =
     (let b = a\<lparr>a_order := a_order act\<rparr>
      in if is_rmwc act then b\<lparr>a_type := ATOMIC_READ\<rparr>
         else if is_rmw act then b\<lparr>a_type := ATOMIC_RMW, a_value := a_value act\<rparr>
         else b)"

definition could_synchronize_with :: "action \<Rightarrow> action \<Rightarrow> bool" where
  "could_synchronize_with a act =
     (if same_thread a act then False
      else if \<not> same_var a act \<and> \<not> is_fence a \<and> \<not> is_fence act then False
      else if (could_be_write a \<or> could_be_write act \<or> is_fence a \<or> is_fence act)
              \<and> is_seqcst a \<and> is_seqcst act then True
      else if is_acquire a \<and> is_release act \<and> is_read a \<and> could_be_write act then True
      else if (is_lock a \<or> is_trylock a) \<and> (is_unlock act \<or> is_wait act) then True
      else if is_trylock a \<and> is_success_lock act then True
      else if is_unlock a \<and> (is_trylock act \<or> is_lock act) then True
      else if is_trylock a \<and> (is_unlock act \<or> is_wait act) then True
      else if is_notify a \<and> is_wait act then True
      else if is_wait a \<and> is_notify act then True
      else False)"

definition is_conflicting_lock :: "action \<Rightarrow> action \<Rightarrow> bool" where
  "is_conflicting_lock a act =
     (if same_thread a act then False
      else if is_success_lock act then True
      else if is_unlock act \<and> is_trylock a \<and> a_value a = VALUE_TRYSUCCESS then True
      else if is_wait act \<and> is_trylock a \<and> a_value a = VALUE_TRYSUCCESS then True
      else False)"

definition create_cv :: "action option \<Rightarrow> action \<Rightarrow> action" where
  "create_cv parent a =
     (case parent of
        Some p \<Rightarrow> a\<lparr>a_cv := Some (cv_new (a_cv p) (Some (a_tid a, seq_number a)))\<rparr>
      | None \<Rightarrow> a\<lparr>a_cv := Some (cv_new None (Some (a_tid a, seq_number a)))\<rparr>)"

definition set_try_lock :: "bool \<Rightarrow> action \<Rightarrow> action" where
  "set_try_lock obtained a = a\<lparr>a_value := (if obtained then VALUE_TRYSUCCESS else VALUE_TRYFAILED)\<rparr>"

definition get_write_value :: "action \<Rightarrow> 64 word" where
  "get_write_value a = a_value a"

text \<open>The store gives the action behind a pointer.\<close>

definition get_reads_from_value :: "(nat \<Rightarrow> action) \<Rightarrow> action \<Rightarrow> 64 word res" where
  "get_reads_from_value store a =
     (case a_union a of
        Reads_from (Some w) \<Rightarrow> Inr (get_write_value (store w))
      | Reads_from None \<Rightarrow> Inr VALUE_NONE
      | _ \<Rightarrow> Inl Undefined)"

definition get_return_value :: "(nat \<Rightarrow> action) \<Rightarrow> action \<Rightarrow> 64 word res" where
  "get_return_value store a =
     (if is_read a then get_reads_from_value store a
      else if is_write a then Inr (get_write_value a)
      else Inr (a_value a))"

definition set_read_from :: "nat \<Rightarrow> action \<Rightarrow> action" where
  "set_read_from w a = a\<lparr>a_union := Reads_from (Some w)\<rparr>"

definition synchronize_with :: "action \<Rightarrow> action \<Rightarrow> (action \<times> bool) res" where
  "synchronize_with a act =
     (if seq_number a < seq_number act then Inr (a, False)
      else case (a_cv a, a_cv act) of
        (Some c, Some d) \<Rightarrow> Inr (a\<lparr>a_cv := Some (fst (cv_merge c d))\<rparr>, True)
      | _ \<Rightarrow> Inl Undefined)"

definition has_synchronized_with :: "action \<Rightarrow> action \<Rightarrow> bool res" where
  "has_synchronized_with a act =
     (case a_cv a of
        Some c \<Rightarrow> Inr (cv_synchronized_since c (a_tid act) (seq_number act))
      | None \<Rightarrow> Inl Undefined)"

definition happens_before :: "action \<Rightarrow> action \<Rightarrow> bool res" where
  "happens_before a act =
     (case a_cv act of
        Some c \<Rightarrow> Inr (cv_synchronized_since c (a_tid a) (seq_number a))
      | None \<Rightarrow> Inl Undefined)"

definition get_type_str :: "action \<Rightarrow> string" where
  "get_type_str a = (case a_type a of
       THREAD_CREATE \<Rightarrow> ''thread create'' | THREAD_START \<Rightarrow> ''thread start''
     | THREAD_YIELD \<Rightarrow> ''thread yield'' | THREAD_JOIN \<Rightarrow> ''thread join''
     | THREAD_FINISH \<Rightarrow> ''thread finish'' | THREAD_SLEEP \<Rightarrow> ''thread sleep''
     | THREADONLY_FINISH \<Rightarrow> ''pthread_exit finish''
     | PTHREAD_CREATE \<Rightarrow> ''pthread create'' | PTHREAD_JOIN \<Rightarrow> ''pthread join''
     | NONATOMIC_WRITE \<Rightarrow> ''nonatomic write'' | ATOMIC_READ \<Rightarrow> ''atomic read''
     | ATOMIC_WRITE \<Rightarrow> ''atomic write'' | ATOMIC_RMW \<Rightarrow> ''atomic rmw''
     | ATOMIC_FENCE \<Rightarrow> ''fence'' | ATOMIC_RMWR \<Rightarrow> ''atomic rmwr''
     | ATOMIC_RMWRCAS \<Rightarrow> ''atomic rmwrcas'' | ATOMIC_RMWC \<Rightarrow> ''atomic rmwc''
     | ATOMIC_INIT \<Rightarrow> ''init atomic'' | ATOMIC_LOCK \<Rightarrow> ''lock''
     | ATOMIC_UNLOCK \<Rightarrow> ''unlock'' | ATOMIC_TRYLOCK \<Rightarrow> ''trylock''
     | ATOMIC_WAIT \<Rightarrow> ''wait'' | ATOMIC_TIMEDWAIT \<Rightarrow> ''timed wait''
     | ATOMIC_NOTIFY_ONE \<Rightarrow> ''notify one'' | ATOMIC_NOTIFY_ALL \<Rightarrow> ''notify all''
     | ATOMIC_ANNOTATION \<Rightarrow> ''annotation''
     | _ \<Rightarrow> ''unknown type'')"

definition get_mo_str :: "action \<Rightarrow> string" where
  "get_mo_str a = (case a_order a of
       mo_relaxed \<Rightarrow> ''relaxed'' | mo_acquire \<Rightarrow> ''acquire'' | mo_release \<Rightarrow> ''release''
     | mo_acq_rel \<Rightarrow> ''acq_rel'' | mo_seq_cst \<Rightarrow> ''seq_cst'' | _ \<Rightarrow> ''unknown'')"

text \<open>The mutex of a lock operation (by address), or \<open>None\<close>.\<close>

definition get_mutex :: "action \<Rightarrow> 64 word option" where
  "get_mutex a =
     (if is_trylock a \<or> is_lock a \<or> is_unlock a then Some (a_location a)
      else if is_wait a then Some (a_value a)
      else None)"

definition init_bagflag :: "action \<Rightarrow> action" where
  "init_bagflag a = a\<lparr>bag_flag := False, read_external_flag := False\<rparr>"
definition set_bag :: "nat \<Rightarrow> action \<Rightarrow> action" where
  "set_bag E a = a\<lparr>bag_flag := True, a_bag := E\<rparr>"
definition set_external_flag :: "action \<Rightarrow> action" where
  "set_external_flag a = a\<lparr>read_external_flag := True\<rparr>"
definition reset_external_flag :: "action \<Rightarrow> action" where
  "reset_external_flag a = a\<lparr>read_external_flag := False\<rparr>"

definition type_code :: "action_type \<Rightarrow> 32 word" where
  "type_code t = of_nat (length (takeWhile (\<lambda>u. u \<noteq> t)
     [THREAD_CREATE, THREAD_START, THREAD_YIELD, THREAD_JOIN, THREAD_FINISH, THREADONLY_FINISH,
      THREAD_SLEEP, PTHREAD_CREATE, PTHREAD_JOIN, NONATOMIC_WRITE, ATOMIC_INIT, ATOMIC_WRITE,
      ATOMIC_RMW, ATOMIC_READ, ATOMIC_RMWR, ATOMIC_RMWRCAS, ATOMIC_RMWC, ATOMIC_FENCE,
      ATOMIC_LOCK, ATOMIC_TRYLOCK, ATOMIC_UNLOCK, ATOMIC_NOTIFY_ONE, ATOMIC_NOTIFY_ALL,
      ATOMIC_WAIT, ATOMIC_TIMEDWAIT, ATOMIC_ANNOTATION, READY_FREE, ATOMIC_NOP]))"

fun mo_code :: "memory_order \<Rightarrow> 32 word" where
  "mo_code mo_relaxed = 0" | "mo_code mo_consume = 1" | "mo_code mo_acquire = 2"
| "mo_code mo_release = 3" | "mo_code mo_acq_rel = 4" | "mo_code mo_seq_cst = 5"
| "mo_code (mo_other w) = w"

definition action_hash :: "(nat \<Rightarrow> action) \<Rightarrow> action \<Rightarrow> 32 word res" where
  "action_hash store a =
     (let h = type_code (a_type a);
          h = xor h (push_bit 3 (mo_code (a_order a)));
          h = xor h (push_bit 5 (seq_number a));
          h = xor h (push_bit 6 (of_nat (a_tid a)))
      in if is_read a then
           bindR (get_reads_from_value store a) (\<lambda>v.
           let h = (case a_union a of Reads_from (Some w) \<Rightarrow> xor h (seq_number (store w)) | _ \<Rightarrow> h)
           in Inr (xor h (ucast v)))
         else Inr h)"


section \<open>Facts about clock vectors\<close>

lemma cv_max_loop:
  assumes "\<forall>i \<in> set is. i < length c" "cv_max_loop is cv c ch = (c', ch')"
  shows "length c' = length c \<and> (ch' \<longleftrightarrow> ch \<or> (\<exists>i \<in> set is. cv ! i > c ! i)) \<and>
    (\<forall>j < length c. c' ! j = (if j \<in> set is then max (c ! j) (cv ! j) else c ! j))"
  using assms
proof (induction "is" cv c ch rule: cv_max_loop.induct)
  case (2 i "is" cv c ch)
  then show ?case
    by (cases "cv ! i > c ! i") (auto simp: nth_list_update split: if_splits)
qed simp

lemma cv_min_loop:
  assumes "\<forall>i \<in> set is. i < length c" "cv_min_loop is cv c ch = (c', ch')"
  shows "length c' = length c \<and> (ch' \<longleftrightarrow> ch \<or> (\<exists>i \<in> set is. cv ! i < c ! i)) \<and>
    (\<forall>j < length c. c' ! j = (if j \<in> set is then min (c ! j) (cv ! j) else c ! j))"
  using assms
proof (induction "is" cv c ch rule: cv_min_loop.induct)
  case (2 i "is" cv c ch)
  then show ?case
    by (cases "cv ! i < c ! i") (auto simp: nth_list_update split: if_splits)
qed simp

lemma getClock_default: "getClock c t = nth_default 0 c t"
  by (simp add: getClock_def nth_default_def)

lemma cv_grow:
  fixes c cv :: clocks
  defines "g \<equiv> if length cv > length c then resize (length cv) 0 c else c"
  shows "length g = max (length c) (length cv)" "getClock g t = getClock c t"
  unfolding g_def by (auto simp: getClock_default nth_default_resize)

lemma getClock_merge [simp]:
  "getClock (fst (cv_merge c cv)) t = max (getClock c t) (getClock cv t)"
proof -
  let ?g = "if length cv > length c then resize (length cv) 0 c else c"
  obtain c' ch where l: "cv_max_loop [0..<length cv] cv ?g False = (c', ch)" by fastforce
  from cv_max_loop [OF _ l] cv_grow(1) [of cv c]
  have "length c' = max (length c) (length cv)"
    "\<forall>j < length ?g. c' ! j = (if j < length cv then max (?g ! j) (cv ! j) else ?g ! j)" by auto
  then have "getClock c' t = max (getClock ?g t) (getClock cv t)"
    using cv_grow(1) [of cv c] by (auto simp: getClock_def)
  with l cv_grow(2) show ?thesis by (simp add: cv_merge_def Let_def)
qed

lemma merge_changed: "snd (cv_merge c cv) \<longleftrightarrow> (\<exists>t. getClock c t < getClock cv t)"
proof -
  let ?g = "if length cv > length c then resize (length cv) 0 c else c"
  obtain c' ch where l: "cv_max_loop [0..<length cv] cv ?g False = (c', ch)" by fastforce
  from cv_max_loop [OF _ l] cv_grow(1) [of cv c]
  have "ch \<longleftrightarrow> (\<exists>i < length cv. ?g ! i < cv ! i)" by auto
  also have "\<dots> \<longleftrightarrow> (\<exists>t. getClock ?g t < getClock cv t)"
    using cv_grow(1) [of cv c] by (auto simp: getClock_def)
  finally show ?thesis using l cv_grow(2) by (simp add: cv_merge_def Let_def)
qed

lemma getClock_minmerge:
  "getClock (fst (cv_minmerge c cv)) t =
     (if t < length cv then min (getClock c t) (getClock cv t) else getClock c t)"
proof -
  let ?g = "if length cv > length c then resize (length cv) 0 c else c"
  obtain c' ch where l: "cv_min_loop [0..<length cv] cv ?g False = (c', ch)" by fastforce
  from cv_min_loop [OF _ l] cv_grow(1) [of cv c]
  have "length c' = max (length c) (length cv)"
    "\<forall>j < length ?g. c' ! j = (if j < length cv then min (?g ! j) (cv ! j) else ?g ! j)" by auto
  then have "getClock c' t = (if t < length cv then min (getClock ?g t) (getClock cv t) else getClock ?g t)"
    using cv_grow(1) [of cv c] by (auto simp: getClock_def)
  with l cv_grow(2) show ?thesis by (simp add: cv_minmerge_def Let_def)
qed

lemma length_merge [simp]: "length (fst (cv_merge c cv)) = max (length c) (length cv)"
proof -
  let ?g = "if length cv > length c then resize (length cv) 0 c else c"
  obtain c' ch where l: "cv_max_loop [0..<length cv] cv ?g False = (c', ch)" by fastforce
  from cv_max_loop [OF _ l] cv_grow(1) [of cv c] l show ?thesis
    by (auto simp: cv_merge_def Let_def)
qed

lemma cv_new_eq:
  "cv_new parent act =
     (let p = (case parent of Some p \<Rightarrow> p | None \<Rightarrow> []);
          c = resize (max (length p) (case act of Some (tid, _) \<Rightarrow> Suc tid | None \<Rightarrow> 0)) 0 p
      in case act of Some (tid, s) \<Rightarrow> c[tid := s] | None \<Rightarrow> c)"
  by (cases parent; cases act)
     (auto simp: cv_new_def Let_def max_def resize_def simp del: replicate.simps)

lemma getClock_new:
  "getClock (cv_new parent act) t =
     (case act of
        Some (tid, s) \<Rightarrow> if t = tid then s else (case parent of Some p \<Rightarrow> getClock p t | None \<Rightarrow> 0)
      | None \<Rightarrow> (case parent of Some p \<Rightarrow> getClock p t | None \<Rightarrow> 0))"
  by (auto simp: cv_new_eq Let_def getClock_default nth_default_update nth_default_resize
      split: option.splits)

lemma synchronized_since_iff:
  "s \<noteq> 0 \<Longrightarrow> cv_synchronized_since c tid s \<longleftrightarrow> s \<le> getClock c tid"
  by (auto simp: cv_synchronized_since_def getClock_def)

section \<open>The interface: clocks that join pointwise\<close>

locale pointwise_clock =
  fixes get :: "'c \<Rightarrow> nat \<Rightarrow> 't::linorder"
    and join :: "'c \<Rightarrow> 'c \<Rightarrow> 'c"
  assumes get_join: "get (join c d) t = max (get c t) (get d t)"
begin

lemma join_upper: "get c t \<le> get (join c d) t" "get d t \<le> get (join c d) t"
  by (simp_all add: get_join)

lemma join_least: "(\<And>t. get c t \<le> get e t) \<Longrightarrow> (\<And>t. get d t \<le> get e t) \<Longrightarrow> get (join c d) t \<le> get e t"
  by (simp add: get_join)

text \<open>Knowing an event (its thread and number) is monotone under joins, and a join knows
  nothing that neither argument knew.\<close>

lemma known_join: "s \<le> get (join c d) t \<longleftrightarrow> s \<le> get c t \<or> s \<le> get d t"
  by (simp add: get_join le_max_iff_disj)

lemma known_fold:
  "s \<le> get (fold (\<lambda>d c. join c d) ds c) t \<longleftrightarrow> s \<le> get c t \<or> (\<exists>d \<in> set ds. s \<le> get d t)"
  by (induction ds arbitrary: c) (auto simp: known_join)

end

interpretation cvc: pointwise_clock getClock "\<lambda>c d. fst (cv_merge c d)"
  by unfold_locales simp

section \<open>Properties\<close>

text \<open>\<open>ClockVector::merge\<close> yields the pointwise maximum with the longer length, and its
  result says exactly whether the vector changed, that is, whether the argument knew a later
  clock of some thread.\<close>

theorem clockvector_merge_correct:
  "(\<forall>t. getClock (fst (cv_merge c cv)) t = max (getClock c t) (getClock cv t)) \<and>
   length (fst (cv_merge c cv)) = max (length c) (length cv) \<and>
   (snd (cv_merge c cv) \<longleftrightarrow> (\<exists>t. getClock (fst (cv_merge c cv)) t \<noteq> getClock c t))"
  by (simp add: merge_changed) (metis max.strict_order_iff max.commute order.strict_iff_order max_def not_le)

text \<open>A successful \<open>synchronize_with\<close> makes the other action, and everything that
  happened before it, happen before this one; it forgets nothing and invents nothing; an action
  that comes later in the execution is refused without a change.\<close>

theorem synchronize_with_establishes_hb:
  assumes "a_cv a = Some c" "a_cv act = Some d"
  shows "if seq_number a < seq_number act then synchronize_with a act = Inr (a, False)
    else \<exists>a'. synchronize_with a act = Inr (a', True) \<and> a_tid a' = a_tid a \<and>
      seq_number a' = seq_number a \<and>
      (\<forall>x. seq_number x \<noteq> 0 \<longrightarrow> (happens_before x a' = Inr True \<longleftrightarrow>
        happens_before x a = Inr True \<or> happens_before x act = Inr True))"
  using assms
  by (auto simp: synchronize_with_def happens_before_def synchronized_since_iff cvc.known_join
      simp del: getClock_merge)

definition hb_example :: "nat \<Rightarrow> clock \<Rightarrow> clocks \<Rightarrow> action" where
  "hb_example tid s c = set_seq_number s
     (new_action 0 0 ATOMIC_WRITE mo_release 16 1 (Some tid)) \<lparr>a_cv := Some c\<rparr>"

theorem synchronize_with_establishes_hb_witness:
  "\<exists>a'. synchronize_with (hb_example 1 5 [2, 5]) (hb_example 0 3 [3]) = Inr (a', True) \<and>
     happens_before (hb_example 0 3 [3]) a' = Inr True"
proof -
  let ?a = "hb_example 1 5 [2, 5]" and ?b = "hb_example 0 3 [3]"
  have "a_cv ?a = Some [2, 5]" "a_cv ?b = Some [3]" by (simp_all add: hb_example_def)
  note * = synchronize_with_establishes_hb [OF this]
  have s: "seq_number ?a = 5" "seq_number ?b = 3" "a_tid ?b = 0" "a_cv ?b = Some [3]"
    by (simp_all add: hb_example_def set_seq_number_def new_action_def)
  then have "happens_before ?b ?b = Inr True"
    by (simp add: happens_before_def cv_synchronized_since_def)
  with * s show ?thesis by auto
qed

text \<open>\<open>create_cv\<close> starts an action's clock from its parent's: an earlier action of the
  parent's thread or known to the parent happens before the new action, the action itself is
  known with its own number, and no other thread advances.\<close>

theorem create_cv_inherits:
  assumes "a_cv p = Some c" "getClock c (a_tid a) \<le> seq_number a" "seq_number x \<noteq> 0"
  shows "happens_before x (create_cv (Some p) a) = Inr True \<longleftrightarrow>
    (if a_tid x = a_tid a then seq_number x \<le> seq_number a else happens_before x p = Inr True)"
  using assms
  by (auto simp: create_cv_def happens_before_def synchronized_since_iff getClock_new)

theorem create_cv_inherits_witness:
  "happens_before (hb_example 0 3 [3]) (create_cv (Some (hb_example 0 3 [3])) (hb_example 1 5 [])) = Inr True"
proof -
  have "happens_before (hb_example 0 3 [3]) (create_cv (Some (hb_example 0 3 [3])) (hb_example 1 5 [])) = Inr True \<longleftrightarrow>
    (if a_tid (hb_example 0 3 [3]) = a_tid (hb_example 1 5 []) then
       seq_number (hb_example 0 3 [3]) \<le> seq_number (hb_example 1 5 [])
     else happens_before (hb_example 0 3 [3]) (hb_example 0 3 [3]) = Inr True)"
    by (rule create_cv_inherits)
      (code_simp+)
  then show ?thesis
    by (simp add: hb_example_def set_seq_number_def new_action_def happens_before_def
        cv_synchronized_since_def)
qed

end
