(* ===== verification/Race_Detector.thy ===== *)
theory Race_Detector
  imports Clock_Actions
begin

unbundle bit_operations_syntax

text \<open>
  PCTWM's data race detector (\<open>datarace.h\<close>, \<open>datarace.cc\<close>).

  Every byte of the program has a 64-bit shadow entry.  It is zero, a packed word (lowest bit
  set) with one read and one write, or a pointer to a heap record with a vector of reads.  A
  pointer is owned by its entry, so the record is part of the entry here (\<open>Full\<close>).  The two
  parallel arrays \<open>thread\<close> and \<open>readClock\<close> are one list of pairs whose length is the
  allocated capacity (\<open>[]\<close> is the null pointer); every access to it is checked.  Memory
  fresh from \<open>snapshot_malloc\<close> is filled with pairs of zeros.

  The execution the detector asks for clock vectors and parent actions, and the call stack that
  \<open>backtrace\<close> returns, are the environment \<open>race_env\<close>.
\<close>

section \<open>Shadow entries\<close>

record race_record =
  rec_reads :: "(nat \<times> clock) list"
  numReads :: nat
  isAtomic :: bool
  writeThread :: nat
  writeClock :: clock

datatype shadow = Short "64 word" | Full race_record

definition INITCAPACITY :: nat where "INITCAPACITY = 4"
definition THREADMASK :: "64 word" where "THREADMASK = 0x3f"
definition READMASK :: "64 word" where "READMASK = 0x1ffffff"
definition MAXTHREADID :: nat where "MAXTHREADID = unat THREADMASK - 1"
definition MAXREADVECTOR :: clock where "MAXREADVECTOR = ucast READMASK - 1"
definition MAXWRITEVECTOR :: clock where "MAXWRITEVECTOR = ucast READMASK - 1"
definition ATOMICMASK :: "64 word" where "ATOMICMASK = push_bit 63 1"
definition INVALIDSHADOWVAL :: "64 word" where "INVALIDSHADOWVAL = 2"

definition ISSHORTRECORD :: "64 word \<Rightarrow> bool" where
  "ISSHORTRECORD x \<longleftrightarrow> x AND 1 \<noteq> 0"
definition RDTHREADID :: "64 word \<Rightarrow> nat" where
  "RDTHREADID x = unat (drop_bit 1 x AND THREADMASK)"
definition READVECTOR :: "64 word \<Rightarrow> clock" where
  "READVECTOR x = ucast (drop_bit 7 x AND READMASK)"
definition WRTHREADID :: "64 word \<Rightarrow> nat" where
  "WRTHREADID x = unat (drop_bit 32 x AND THREADMASK)"
definition WRITEVECTOR :: "64 word \<Rightarrow> clock" where
  "WRITEVECTOR x = ucast (drop_bit 38 x AND READMASK)"
definition is_atomic_word :: "64 word \<Rightarrow> bool" where
  "is_atomic_word x \<longleftrightarrow> x AND ATOMICMASK \<noteq> 0"

text \<open>The read clock is shifted at the width of a clock, the write fields at 64 bits.\<close>

definition ENCODEOP :: "nat \<Rightarrow> clock \<Rightarrow> nat \<Rightarrow> clock \<Rightarrow> 64 word" where
  "ENCODEOP rdthread rdtime wrthread wrtime =
     1 OR push_bit 1 (of_nat rdthread) OR ucast (push_bit 7 rdtime)
     OR push_bit 32 (of_nat wrthread) OR push_bit 38 (ucast wrtime)"

section \<open>Reports and state\<close>

record data_race =
  oldthread :: nat
  oldclock :: clock
  isoldwrite :: bool
  newaction :: nat
  isnewwrite :: bool
  race_address :: "64 word"
  backtrace :: "64 word list"

record race_env =
  env_cv :: "nat \<Rightarrow> clocks option"
  env_parent :: "nat \<Rightarrow> nat"
  env_frames :: "64 word list"

definition FIRST_STACK_FRAME :: nat where "FIRST_STACK_FRAME = 2"

fun race_hash_loop :: "64 word list \<Rightarrow> 32 word \<Rightarrow> 32 word" where
  "race_hash_loop [] h = h"
| "race_hash_loop (f # fs) h =
     (let h = h XOR ucast f in race_hash_loop fs (drop_bit 3 h OR push_bit 29 h))"

definition race_hash :: "data_race \<Rightarrow> 32 word" where
  "race_hash r = race_hash_loop (drop FIRST_STACK_FRAME (backtrace r)) 0"

definition race_equals :: "data_race \<Rightarrow> data_race \<Rightarrow> bool" where
  "race_equals r1 r2 =
     (if length (backtrace r1) \<noteq> length (backtrace r2) then False
      else drop FIRST_STACK_FRAME (backtrace r1) = drop FIRST_STACK_FRAME (backtrace r2))"

definition reportDataRace ::
    "race_env \<Rightarrow> nat \<Rightarrow> clock \<Rightarrow> bool \<Rightarrow> nat \<Rightarrow> bool \<Rightarrow> 64 word \<Rightarrow> data_race" where
  "reportDataRace env oldt oldc isoldw thread isneww addr =
     \<lparr>oldthread = oldt, oldclock = oldc, isoldwrite = isoldw, newaction = env_parent env thread,
      isnewwrite = isneww, race_address = addr, backtrace = env_frames env\<rparr>"

text \<open>
  The shadow table: two levels of tables indexed by 16 bits of the address each, then an array
  of entries indexed by the low 16 bits.  Missing tables are allocated, full of zeros, by
  \<open>lookupAddressEntry\<close>.  A pointer into the array is the triple of indices.
\<close>

type_synonym base_table = "16 word \<Rightarrow> shadow"
type_synonym shadow_root = "16 word \<Rightarrow> (16 word \<Rightarrow> base_table option) option"
type_synonym entry = "16 word \<times> 16 word \<times> 16 word"

record detector =
  root :: shadow_root
  raceset :: "data_race list"

definition zero_table :: base_table where "zero_table = (\<lambda>_. Short 0)"

definition initRaceDetector :: detector where
  "initRaceDetector = \<lparr>root = (\<lambda>_. None), raceset = []\<rparr>"

definition entry_of :: "64 word \<Rightarrow> entry" where
  "entry_of a = (ucast (drop_bit 32 a), ucast (drop_bit 16 a), ucast a)"

definition lookupAddressEntry :: "64 word \<Rightarrow> shadow_root \<Rightarrow> shadow_root \<times> entry" where
  "lookupAddressEntry a rt =
     (case entry_of a of (i, j, k) \<Rightarrow>
        let currtable = (case rt i of None \<Rightarrow> (\<lambda>_. None) | Some t \<Rightarrow> t);
            basetable = (case currtable j of None \<Rightarrow> zero_table | Some b \<Rightarrow> b)
        in (rt(i := Some (currtable(j := Some basetable))), (i, j, k)))"

text \<open>Reading and writing through a pointer that \<open>lookupAddressEntry\<close> returned.\<close>

fun deref :: "shadow_root \<Rightarrow> entry \<Rightarrow> shadow" where
  "deref rt (i, j, k) =
     (case rt i of None \<Rightarrow> Short 0
      | Some t \<Rightarrow> (case t j of None \<Rightarrow> Short 0 | Some b \<Rightarrow> b k))"

fun assign :: "shadow_root \<Rightarrow> entry \<Rightarrow> shadow \<Rightarrow> shadow_root" where
  "assign rt (i, j, k) s =
     (let t = (case rt i of None \<Rightarrow> (\<lambda>_. None) | Some t \<Rightarrow> t);
          b = (case t j of None \<Rightarrow> zero_table | Some b \<Rightarrow> b)
      in rt(i := Some (t(j := Some (b(k := s))))))"

text \<open>\<open>shadow[n]\<close> for a pointer \<open>shadow\<close>.\<close>

fun entry_plus :: "entry \<Rightarrow> nat \<Rightarrow> entry" where
  "entry_plus (i, j, k) n = (i, j, k + of_nat n)"

definition CHECKBOUNDARY :: "64 word \<Rightarrow> nat \<Rightarrow> bool" where
  "CHECKBOUNDARY loc bits \<longleftrightarrow> unat (loc AND 0xffff) + bits \<le> 0xffff"

text \<open>Equality of a shadow entry with a word: a pointer never equals a packed word, zero or
  the invalid value.\<close>

fun entry_is :: "shadow \<Rightarrow> 64 word \<Rightarrow> bool" where
  "entry_is (Short x) w = (x = w)"
| "entry_is (Full r) w = False"

text \<open>The \<open>Exit\<close> label of the checks: a race is kept unless an equal one was reported.\<close>

definition report :: "data_race option \<Rightarrow> detector \<Rightarrow> detector" where
  "report race d =
     (case race of None \<Rightarrow> d
      | Some r \<Rightarrow> if list_ex (\<lambda>q. race_equals q r) (raceset d) then d
                 else d\<lparr>raceset := raceset d @ [r]\<rparr>)"

section \<open>Queries and flags\<close>

definition hasNonAtomicStore :: "64 word \<Rightarrow> detector \<Rightarrow> detector \<times> bool" where
  "hasNonAtomicStore addr d =
     (let (rt, p) = lookupAddressEntry addr (root d)
      in (d\<lparr>root := rt\<rparr>,
          case deref rt p of
            Short w \<Rightarrow> if ISSHORTRECORD w then \<not> is_atomic_word w else True
          | Full r \<Rightarrow> \<not> isAtomic r))"

definition setAtomicStoreFlag :: "64 word \<Rightarrow> detector \<Rightarrow> detector" where
  "setAtomicStoreFlag addr d =
     (let (rt, p) = lookupAddressEntry addr (root d)
      in d\<lparr>root := assign rt p
          (case deref rt p of
             Short w \<Rightarrow> if ISSHORTRECORD w then Short (w OR ATOMICMASK)
                        else Short (ATOMICMASK OR ENCODEOP 0 0 0 0)
           | Full r \<Rightarrow> Full (r\<lparr>isAtomic := True\<rparr>))\<rparr>)"

definition getStoreThreadAndClock :: "64 word \<Rightarrow> detector \<Rightarrow> detector \<times> nat \<times> clock" where
  "getStoreThreadAndClock addr d =
     (let (rt, p) = lookupAddressEntry addr (root d)
      in (d\<lparr>root := rt\<rparr>,
          case deref rt p of
            Short w \<Rightarrow> (WRTHREADID w, WRITEVECTOR w)
          | Full r \<Rightarrow> (writeThread r, writeClock r)))"

section \<open>Checks on one entry\<close>

definition clock_may_race :: "clocks \<Rightarrow> nat \<Rightarrow> clock \<Rightarrow> nat \<Rightarrow> bool" where
  "clock_may_race clock1 tid1 clock2 tid2 \<longleftrightarrow>
     tid1 \<noteq> tid2 \<and> clock2 \<noteq> 0 \<and> getClock clock1 tid2 \<le> clock2"

definition expandRecord :: "64 word \<Rightarrow> race_record" where
  "expandRecord w =
     \<lparr>rec_reads = (if READVECTOR w \<noteq> 0
                   then (RDTHREADID w, READVECTOR w) # replicate (INITCAPACITY - 1) (0, 0)
                   else []),
      numReads = (if READVECTOR w \<noteq> 0 then 1 else 0),
      isAtomic = is_atomic_word w, writeThread = WRTHREADID w, writeClock = WRITEVECTOR w\<rparr>"

text \<open>The loop over the reads of a full record: the first one that may race.  The last
  argument counts the iterations left.\<close>

fun scan_reads :: "clocks \<Rightarrow> nat \<Rightarrow> (nat \<times> clock) list \<Rightarrow> nat \<Rightarrow> nat \<Rightarrow> (nat \<times> clock) option res" where
  "scan_reads c thread rs i 0 = Inr None"
| "scan_reads c thread rs i (Suc m) = bindR (nthR rs (int i)) (\<lambda>(t, k).
     if clock_may_race c thread k t then Inr (Some (t, k))
     else scan_reads c thread rs (Suc i) m)"

definition fullRaceCheckWrite ::
    "race_env \<Rightarrow> nat \<Rightarrow> 64 word \<Rightarrow> race_record \<Rightarrow> clocks \<Rightarrow> (data_race option \<times> race_record) res" where
  "fullRaceCheckWrite env thread loc r c =
     bindR (scan_reads c thread (rec_reads r) 0 (numReads r)) (\<lambda>racy.
     let race = (case racy of
           Some (t, k) \<Rightarrow> Some (reportDataRace env t k False thread True loc)
         | None \<Rightarrow> if clock_may_race c thread (writeClock r) (writeThread r)
                   then Some (reportDataRace env (writeThread r) (writeClock r) True thread True loc)
                   else None)
     in Inr (race, r\<lparr>numReads := 0, writeThread := thread, isAtomic := False,
                     writeClock := getClock c thread\<rparr>))"

definition atomfullRaceCheckWrite ::
    "race_env \<Rightarrow> nat \<Rightarrow> 64 word \<Rightarrow> race_record \<Rightarrow> clocks \<Rightarrow> (data_race option \<times> race_record) res" where
  "atomfullRaceCheckWrite env thread loc r c =
     bindR (if isAtomic r then Inr None else
       bindR (scan_reads c thread (rec_reads r) 0 (numReads r)) (\<lambda>racy. Inr (case racy of
           Some (t, k) \<Rightarrow> Some (reportDataRace env t k False thread True loc)
         | None \<Rightarrow> if clock_may_race c thread (writeClock r) (writeThread r)
                   then Some (reportDataRace env (writeThread r) (writeClock r) True thread True loc)
                   else None))) (\<lambda>race.
     Inr (race, r\<lparr>numReads := 0, writeThread := thread, isAtomic := True,
                  writeClock := getClock c thread\<rparr>))"

text \<open>Shortening the vector of reads in place; \<open>n\<close> is \<open>copytoindex\<close>.\<close>

fun compact_reads ::
    "clocks \<Rightarrow> nat \<Rightarrow> (nat \<times> clock) list \<Rightarrow> nat \<Rightarrow> nat \<Rightarrow> nat \<Rightarrow> ((nat \<times> clock) list \<times> nat) res" where
  "compact_reads c thread rs n i 0 = Inr (rs, n)"
| "compact_reads c thread rs n i (Suc m) = bindR (nthR rs (int i)) (\<lambda>(t, k).
     if clock_may_race c thread k t then
       bindR (if n \<noteq> i then updR rs (int n) (t, k) else Inr rs) (\<lambda>rs'.
       compact_reads c thread rs' (Suc n) (Suc i) m)
     else compact_reads c thread rs n (Suc i) m)"

fun popcount :: "nat \<Rightarrow> nat" where
  "popcount n = (if n = 0 then 0 else n mod 2 + popcount (n div 2))"

declare popcount.simps [simp del]

definition grow_reads :: "(nat \<times> clock) list \<Rightarrow> nat \<Rightarrow> (nat \<times> clock) list res" where
  "grow_reads rs n =
     (if popcount n \<le> 1 then
        if n = 0 \<and> rs = [] then Inr (replicate INITCAPACITY (0, 0))
        else if n \<ge> INITCAPACITY then
          (if n \<le> length rs then Inr (take n rs @ replicate n (0, 0)) else Inl Out_of_range)
        else Inr rs
      else Inr rs)"

definition fullRaceCheckRead ::
    "race_env \<Rightarrow> nat \<Rightarrow> 64 word \<Rightarrow> race_record \<Rightarrow> clocks \<Rightarrow> (data_race option \<times> race_record) res" where
  "fullRaceCheckRead env thread loc r c =
     (let race = (if clock_may_race c thread (writeClock r) (writeThread r)
                  then Some (reportDataRace env (writeThread r) (writeClock r) True thread False loc)
                  else None)
      in bindR (compact_reads c thread (rec_reads r) 0 0 (numReads r)) (\<lambda>(rs, n).
         bindR (grow_reads rs n) (\<lambda>rs'.
         bindR (updR rs' (int n) (thread, getClock c thread)) (\<lambda>rs''.
         Inr (race, r\<lparr>rec_reads := rs'', numReads := n + 1\<rparr>)))))"

definition atomfullRaceCheckRead ::
    "race_env \<Rightarrow> nat \<Rightarrow> 64 word \<Rightarrow> race_record \<Rightarrow> clocks \<Rightarrow> data_race option" where
  "atomfullRaceCheckRead env thread loc r c =
     (if isAtomic r then None
      else if clock_may_race c thread (writeClock r) (writeThread r)
      then Some (reportDataRace env (writeThread r) (writeClock r) True thread False loc)
      else None)"

definition fullRecordWrite :: "nat \<Rightarrow> race_record \<Rightarrow> clocks \<Rightarrow> race_record" where
  "fullRecordWrite thread r c =
     r\<lparr>numReads := 0, writeThread := thread, writeClock := getClock c thread, isAtomic := True\<rparr>"

definition fullRecordWriteNonAtomic :: "nat \<Rightarrow> race_record \<Rightarrow> clocks \<Rightarrow> race_record" where
  "fullRecordWriteNonAtomic thread r c =
     r\<lparr>numReads := 0, writeThread := thread, writeClock := getClock c thread, isAtomic := False\<rparr>"

text \<open>A thread or clock too large for the packed form.\<close>

definition too_large :: "nat \<Rightarrow> clock \<Rightarrow> bool" where
  "too_large threadid ourClock \<longleftrightarrow> threadid > MAXTHREADID \<or> ourClock > MAXWRITEVECTOR"

text \<open>
  The body shared by \<open>raceCheckRead_firstIt\<close>, \<open>raceCheckRead_otherIt\<close> and
  \<open>raceCheckReadMemop\<close>: the race, the new entry and, where the packed form was kept, the pair
  of the old and the new word.
\<close>

definition read_entry ::
    "race_env \<Rightarrow> nat \<Rightarrow> 64 word \<Rightarrow> clocks \<Rightarrow> shadow \<Rightarrow>
       (data_race option \<times> shadow \<times> (64 word \<times> 64 word) option) res" where
  "read_entry env thread loc c s =
     (case s of
        Full r \<Rightarrow> bindR (fullRaceCheckRead env thread loc r c) (\<lambda>(race, r').
          Inr (race, Full r', None))
      | Short w \<Rightarrow>
          let ourClock = getClock c thread in
          if too_large thread ourClock then
            bindR (fullRaceCheckRead env thread loc (expandRecord w) c) (\<lambda>(race, r').
              Inr (race, Full r', None))
          else
            let race = (if clock_may_race c thread (WRITEVECTOR w) (WRTHREADID w)
                  then Some (reportDataRace env (WRTHREADID w) (WRITEVECTOR w) True thread False loc)
                  else None)
            in if clock_may_race c thread (READVECTOR w) (RDTHREADID w) then
                 let r = expandRecord w in
                 bindR (updR (rec_reads r) 1 (thread, ourClock)) (\<lambda>rs.
                 Inr (race, Full (r\<lparr>rec_reads := rs, numReads := numReads r + 1\<rparr>), None))
               else
                 let new = ENCODEOP thread ourClock (WRTHREADID w) (WRITEVECTOR w)
                           OR (w AND ATOMICMASK)
                 in Inr (race, Short new, Some (w, new)))"

text \<open>The body shared by the write checks.\<close>

definition write_entry ::
    "race_env \<Rightarrow> nat \<Rightarrow> 64 word \<Rightarrow> clocks \<Rightarrow> shadow \<Rightarrow>
       (data_race option \<times> shadow \<times> (64 word \<times> 64 word) option) res" where
  "write_entry env thread loc c s =
     (case s of
        Full r \<Rightarrow> bindR (fullRaceCheckWrite env thread loc r c) (\<lambda>(race, r').
          Inr (race, Full r', None))
      | Short w \<Rightarrow>
          let ourClock = getClock c thread in
          if too_large thread ourClock then
            bindR (fullRaceCheckWrite env thread loc (expandRecord w) c) (\<lambda>(race, r').
              Inr (race, Full r', None))
          else
            let race = (if clock_may_race c thread (READVECTOR w) (RDTHREADID w)
                  then Some (reportDataRace env (RDTHREADID w) (READVECTOR w) False thread True loc)
                  else if clock_may_race c thread (WRITEVECTOR w) (WRTHREADID w)
                  then Some (reportDataRace env (WRTHREADID w) (WRITEVECTOR w) True thread True loc)
                  else None);
                new = ENCODEOP 0 0 thread ourClock
            in Inr (race, Short new, Some (w, new)))"

text \<open>The bodies of the atomic write check and of the two recording functions.\<close>

definition atomic_write_entry ::
    "race_env \<Rightarrow> nat \<Rightarrow> 64 word \<Rightarrow> clocks \<Rightarrow> shadow \<Rightarrow> (data_race option \<times> shadow) res" where
  "atomic_write_entry env thread loc c s =
     (case s of
        Full r \<Rightarrow> bindR (atomfullRaceCheckWrite env thread loc r c) (\<lambda>(race, r').
          Inr (race, Full r'))
      | Short w \<Rightarrow>
          let ourClock = getClock c thread in
          if too_large thread ourClock then
            bindR (atomfullRaceCheckWrite env thread loc (expandRecord w) c) (\<lambda>(race, r').
              Inr (race, Full r'))
          else
            let race = (if is_atomic_word w then None
                  else if clock_may_race c thread (READVECTOR w) (RDTHREADID w)
                  then Some (reportDataRace env (RDTHREADID w) (READVECTOR w) False thread True loc)
                  else if clock_may_race c thread (WRITEVECTOR w) (WRTHREADID w)
                  then Some (reportDataRace env (WRTHREADID w) (WRITEVECTOR w) True thread True loc)
                  else None)
            in Inr (race, Short (ENCODEOP 0 0 thread ourClock OR ATOMICMASK)))"

definition record_entry :: "nat \<Rightarrow> clocks \<Rightarrow> shadow \<Rightarrow> shadow" where
  "record_entry thread c s =
     (case s of
        Full r \<Rightarrow> Full (fullRecordWrite thread r c)
      | Short w \<Rightarrow>
          let ourClock = getClock c thread in
          if too_large thread ourClock then Full (fullRecordWrite thread (expandRecord w) c)
          else Short (ENCODEOP 0 0 thread ourClock OR ATOMICMASK))"

section \<open>The entry points\<close>

definition atomraceCheckWrite :: "race_env \<Rightarrow> nat \<Rightarrow> 64 word \<Rightarrow> detector \<Rightarrow> detector res" where
  "atomraceCheckWrite env thread loc d =
     (let (rt, p) = lookupAddressEntry loc (root d) in
      case env_cv env thread of
        None \<Rightarrow> Inr (d\<lparr>root := rt\<rparr>)
      | Some c \<Rightarrow> bindR (atomic_write_entry env thread loc c (deref rt p)) (\<lambda>(race, s).
          Inr (report race (d\<lparr>root := assign rt p s\<rparr>))))"

text \<open>A missing clock vector is dereferenced by the two recording functions.\<close>

definition recordWrite :: "race_env \<Rightarrow> nat \<Rightarrow> 64 word \<Rightarrow> detector \<Rightarrow> detector res" where
  "recordWrite env thread loc d =
     (let (rt, p) = lookupAddressEntry loc (root d) in
      case env_cv env thread of
        None \<Rightarrow> Inl Undefined
      | Some c \<Rightarrow> Inr (d\<lparr>root := assign rt p (record_entry thread c (deref rt p))\<rparr>))"

text \<open>\<open>recordCalloc\<close> stops at the first entry that is, or becomes, a full record.\<close>

fun recordCalloc :: "race_env \<Rightarrow> nat \<Rightarrow> 64 word \<Rightarrow> nat \<Rightarrow> detector \<Rightarrow> detector res" where
  "recordCalloc env thread loc 0 d = Inr d"
| "recordCalloc env thread loc (Suc n) d =
     (let (rt, p) = lookupAddressEntry loc (root d) in
      case env_cv env thread of
        None \<Rightarrow> Inl Undefined
      | Some c \<Rightarrow>
          (case deref rt p of
             Full r \<Rightarrow> Inr (d\<lparr>root := assign rt p (Full (fullRecordWriteNonAtomic thread r c))\<rparr>)
           | Short w \<Rightarrow>
               let ourClock = getClock c thread in
               if too_large thread ourClock then
                 Inr (d\<lparr>root := assign rt p
                   (Full (fullRecordWriteNonAtomic thread (expandRecord w) c))\<rparr>)
               else recordCalloc env thread (loc + 1) n
                      (d\<lparr>root := assign rt p (Short (ENCODEOP 0 0 thread ourClock))\<rparr>)))"

definition atomraceCheckRead :: "race_env \<Rightarrow> nat \<Rightarrow> 64 word \<Rightarrow> detector \<Rightarrow> detector" where
  "atomraceCheckRead env thread loc d =
     (let (rt, p) = lookupAddressEntry loc (root d);
          d1 = d\<lparr>root := rt\<rparr> in
      case env_cv env thread of
        None \<Rightarrow> d1
      | Some c \<Rightarrow>
          (case deref rt p of
             Full r \<Rightarrow> report (atomfullRaceCheckRead env thread loc r c) d1
           | Short w \<Rightarrow>
               if is_atomic_word w then d1
               else report (if clock_may_race c thread (WRITEVECTOR w) (WRTHREADID w)
                     then Some (reportDataRace env (WRTHREADID w) (WRITEVECTOR w) True thread False loc)
                     else None) d1))"

text \<open>The first iteration also returns the pointer and the old and new words.\<close>

definition raceCheckRead_firstIt ::
    "race_env \<Rightarrow> nat \<Rightarrow> 64 word \<Rightarrow> detector \<Rightarrow> (detector \<times> entry \<times> 64 word \<times> 64 word) res" where
  "raceCheckRead_firstIt env thread loc d =
     (let (rt, p) = lookupAddressEntry loc (root d) in
      case env_cv env thread of
        None \<Rightarrow> Inr (d\<lparr>root := rt\<rparr>, p, INVALIDSHADOWVAL, INVALIDSHADOWVAL)
      | Some c \<Rightarrow> bindR (read_entry env thread loc c (deref rt p)) (\<lambda>(race, s, vals).
          Inr (report race (d\<lparr>root := assign rt p s\<rparr>), p,
               case vals of None \<Rightarrow> (INVALIDSHADOWVAL, INVALIDSHADOWVAL) | Some v \<Rightarrow> v)))"

definition raceCheckRead_otherIt :: "race_env \<Rightarrow> nat \<Rightarrow> 64 word \<Rightarrow> detector \<Rightarrow> detector res" where
  "raceCheckRead_otherIt env thread loc d =
     (let (rt, p) = lookupAddressEntry loc (root d) in
      case env_cv env thread of
        None \<Rightarrow> Inr (d\<lparr>root := rt\<rparr>)
      | Some c \<Rightarrow> bindR (read_entry env thread loc c (deref rt p)) (\<lambda>(race, s, vals).
          Inr (report race (d\<lparr>root := assign rt p s\<rparr>))))"

definition raceCheckWrite_firstIt ::
    "race_env \<Rightarrow> nat \<Rightarrow> 64 word \<Rightarrow> detector \<Rightarrow> (detector \<times> entry \<times> 64 word \<times> 64 word) res" where
  "raceCheckWrite_firstIt env thread loc d =
     (let (rt, p) = lookupAddressEntry loc (root d) in
      case env_cv env thread of
        None \<Rightarrow> Inr (d\<lparr>root := rt\<rparr>, p, INVALIDSHADOWVAL, INVALIDSHADOWVAL)
      | Some c \<Rightarrow> bindR (write_entry env thread loc c (deref rt p)) (\<lambda>(race, s, vals).
          Inr (report race (d\<lparr>root := assign rt p s\<rparr>), p,
               case vals of None \<Rightarrow> (INVALIDSHADOWVAL, INVALIDSHADOWVAL) | Some v \<Rightarrow> v)))"

definition raceCheckWrite_otherIt :: "race_env \<Rightarrow> nat \<Rightarrow> 64 word \<Rightarrow> detector \<Rightarrow> detector res" where
  "raceCheckWrite_otherIt env thread loc d =
     (let (rt, p) = lookupAddressEntry loc (root d) in
      case env_cv env thread of
        None \<Rightarrow> Inr (d\<lparr>root := rt\<rparr>)
      | Some c \<Rightarrow> bindR (write_entry env thread loc c (deref rt p)) (\<lambda>(race, s, vals).
          Inr (report race (d\<lparr>root := assign rt p s\<rparr>))))"

text \<open>
  The chain of comparisons after the first iteration: an entry that holds the old word gets the
  new one; at the first that does not (label \<open>Lk\<close>) the rest is checked byte by byte.
\<close>

fun spread ::
    "(64 word \<Rightarrow> detector \<Rightarrow> detector res) \<Rightarrow> 64 word \<Rightarrow> entry \<Rightarrow> 64 word \<Rightarrow> 64 word \<Rightarrow> nat list \<Rightarrow>
       detector \<Rightarrow> detector res" where
  "spread other loc p old new [] d = Inr d"
| "spread other loc p old new (k # ks) d =
     (if entry_is (deref (root d) (entry_plus p k)) old
      then spread other loc p old new ks
             (d\<lparr>root := assign (root d) (entry_plus p k) (Short new)\<rparr>)
      else foldR (\<lambda>j. other (loc + of_nat j)) (k # ks) d)"

definition raceCheckRead64 :: "race_env \<Rightarrow> nat \<Rightarrow> 64 word \<Rightarrow> detector \<Rightarrow> detector res" where
  "raceCheckRead64 env thread loc d =
     bindR (raceCheckRead_firstIt env thread loc d) (\<lambda>(d1, p, old, new).
     if CHECKBOUNDARY loc 7
     then spread (raceCheckRead_otherIt env thread) loc p old new [1, 2, 3, 4, 5, 6, 7] d1
     else foldR (\<lambda>j. raceCheckRead_otherIt env thread (loc + of_nat j)) [1, 2, 3, 4, 5, 6, 7] d1)"

definition raceCheckRead32 :: "race_env \<Rightarrow> nat \<Rightarrow> 64 word \<Rightarrow> detector \<Rightarrow> detector res" where
  "raceCheckRead32 env thread loc d =
     bindR (raceCheckRead_firstIt env thread loc d) (\<lambda>(d1, p, old, new).
     if CHECKBOUNDARY loc 3
     then spread (raceCheckRead_otherIt env thread) loc p old new [1, 2, 3] d1
     else foldR (\<lambda>j. raceCheckRead_otherIt env thread (loc + of_nat j)) [1, 2, 3] d1)"

definition raceCheckRead16 :: "race_env \<Rightarrow> nat \<Rightarrow> 64 word \<Rightarrow> detector \<Rightarrow> detector res" where
  "raceCheckRead16 env thread loc d =
     bindR (raceCheckRead_firstIt env thread loc d) (\<lambda>(d1, p, old, new).
     if CHECKBOUNDARY loc 1 \<and> entry_is (deref (root d1) (entry_plus p 1)) old
     then Inr (d1\<lparr>root := assign (root d1) (entry_plus p 1) (Short new)\<rparr>)
     else raceCheckRead_otherIt env thread (loc + 1) d1)"

definition raceCheckRead8 :: "race_env \<Rightarrow> nat \<Rightarrow> 64 word \<Rightarrow> detector \<Rightarrow> detector res" where
  "raceCheckRead8 env thread loc d = raceCheckRead_otherIt env thread loc d"

definition raceCheckWrite64 :: "race_env \<Rightarrow> nat \<Rightarrow> 64 word \<Rightarrow> detector \<Rightarrow> detector res" where
  "raceCheckWrite64 env thread loc d =
     bindR (raceCheckWrite_firstIt env thread loc d) (\<lambda>(d1, p, old, new).
     if CHECKBOUNDARY loc 7
     then spread (raceCheckWrite_otherIt env thread) loc p old new [1, 2, 3, 4, 5, 6, 7] d1
     else foldR (\<lambda>j. raceCheckWrite_otherIt env thread (loc + of_nat j)) [1, 2, 3, 4, 5, 6, 7] d1)"

definition raceCheckWrite32 :: "race_env \<Rightarrow> nat \<Rightarrow> 64 word \<Rightarrow> detector \<Rightarrow> detector res" where
  "raceCheckWrite32 env thread loc d =
     bindR (raceCheckWrite_firstIt env thread loc d) (\<lambda>(d1, p, old, new).
     if CHECKBOUNDARY loc 3
     then spread (raceCheckWrite_otherIt env thread) loc p old new [1, 2, 3] d1
     else foldR (\<lambda>j. raceCheckWrite_otherIt env thread (loc + of_nat j)) [1, 2, 3] d1)"

definition raceCheckWrite16 :: "race_env \<Rightarrow> nat \<Rightarrow> 64 word \<Rightarrow> detector \<Rightarrow> detector res" where
  "raceCheckWrite16 env thread loc d =
     bindR (raceCheckWrite_firstIt env thread loc d) (\<lambda>(d1, p, old, new).
     if CHECKBOUNDARY loc 1 \<and> entry_is (deref (root d1) (entry_plus p 1)) old
     then Inr (d1\<lparr>root := assign (root d1) (entry_plus p 1) (Short new)\<rparr>)
     else raceCheckWrite_otherIt env thread (loc + 1) d1)"

definition raceCheckWrite8 :: "race_env \<Rightarrow> nat \<Rightarrow> 64 word \<Rightarrow> detector \<Rightarrow> detector res" where
  "raceCheckWrite8 env thread loc d = raceCheckWrite_otherIt env thread loc d"

text \<open>
  The checks of \<open>memcpy\<close>-like operations.  The counter has 32 bits, so a larger size is never
  reached.  \<open>location\<close> is not advanced.  The flag \<open>alreadyHasRace\<close> is set by the write check only.
\<close>

fun write_memop_loop ::
    "race_env \<Rightarrow> nat \<Rightarrow> 64 word \<Rightarrow> clocks \<Rightarrow> nat \<Rightarrow> bool \<Rightarrow> detector \<Rightarrow> detector res" where
  "write_memop_loop env thread loc c 0 already d = Inr d"
| "write_memop_loop env thread loc c (Suc n) already d =
     (let (rt, p) = lookupAddressEntry loc (root d) in
      bindR (write_entry env thread loc c (deref rt p)) (\<lambda>(race, s, vals).
      let d1 = d\<lparr>root := assign rt p s\<rparr> in
      if race \<noteq> None \<and> \<not> already
      then write_memop_loop env thread loc c n True (report race d1)
      else write_memop_loop env thread loc c n already d1))"

definition raceCheckWriteMemop ::
    "race_env \<Rightarrow> nat \<Rightarrow> 64 word \<Rightarrow> 64 word \<Rightarrow> detector \<Rightarrow> detector res" where
  "raceCheckWriteMemop env thread loc sz d =
     (case env_cv env thread of
        None \<Rightarrow> Inr d
      | Some c \<Rightarrow> if unat sz \<ge> 2 ^ 32 then Inl Diverges
                 else write_memop_loop env thread loc c (unat sz) False d)"

fun read_memop_loop ::
    "race_env \<Rightarrow> nat \<Rightarrow> 64 word \<Rightarrow> clocks \<Rightarrow> nat \<Rightarrow> detector \<Rightarrow> detector res" where
  "read_memop_loop env thread loc c 0 d = Inr d"
| "read_memop_loop env thread loc c (Suc n) d =
     (let (rt, p) = lookupAddressEntry loc (root d) in
      bindR (read_entry env thread loc c (deref rt p)) (\<lambda>(race, s, vals).
      read_memop_loop env thread loc c n (report race (d\<lparr>root := assign rt p s\<rparr>))))"

definition raceCheckReadMemop ::
    "race_env \<Rightarrow> nat \<Rightarrow> 64 word \<Rightarrow> 64 word \<Rightarrow> detector \<Rightarrow> detector res" where
  "raceCheckReadMemop env thread loc sz d =
     (case env_cv env thread of
        None \<Rightarrow> Inr d
      | Some c \<Rightarrow> if unat sz \<ge> 2 ^ 32 then Inl Diverges
                 else read_memop_loop env thread loc c (unat sz) d)"

end
