(* ===== verification/Race_Facts.thy ===== *)
theory Race_Facts
  imports Race_Detector
begin

unbundle bit_operations_syntax

text \<open>
  The correctness of the race detector: the packed form (encoding and decoding), the bounds of
  the vector of reads, the meaning of the checks on one entry over either representation, the
  soundness of dropping subsumed reads, the equivalence of the wide checks with the byte-wise
  ones, and the defects of the memory-block checks.
\<close>

section \<open>The packed form\<close>

lemma masks: "THREADMASK = mask 6" "READMASK = mask 25"
  by (simp_all add: THREADMASK_def READMASK_def mask_eq_exp_minus_1)

lemma limits [simp]: "MAXTHREADID = 62" "unat MAXWRITEVECTOR = 2 ^ 25 - 2"
  by (simp_all add: MAXTHREADID_def MAXWRITEVECTOR_def THREADMASK_def READMASK_def)

lemma not_too_large:
  "\<not> too_large t k \<longleftrightarrow> t \<le> 62 \<and> unat k \<le> 2 ^ 25 - 2"
  by (simp add: too_large_def not_less word_le_nat_alt)

lemma bit_bound:
  fixes x :: "'a::len word"
  assumes "unat x < 2 ^ m" "bit x n"
  shows "n < m"
proof (rule ccontr)
  assume "\<not> n < m"
  then have "unat x < 2 ^ n" using assms(1) by (meson not_less order_less_le_trans power_increasing_iff one_less_numeral_iff semiring_norm(76))
  moreover have "bit (unat x) n" using assms(2) by (simp add: bit_unsigned_iff)
  ultimately show False by (simp add: bit_iff_odd)
qed

lemma short_bit: "ISSHORTRECORD w \<longleftrightarrow> bit w 0"
  using bit_iff_and_push_bit_not_eq_0 [of w 0] by (simp add: ISSHORTRECORD_def)

lemma atomic_bit: "is_atomic_word w \<longleftrightarrow> bit w 63"
  by (simp add: is_atomic_word_def ATOMICMASK_def bit_iff_and_push_bit_not_eq_0)

lemma encode_bits:
  "bit (ENCODEOP rt rc wt wc) n \<longleftrightarrow> n < 64 \<and> (n = 0 \<or> (1 \<le> n \<and> bit rt (n - 1)) \<or>
    (7 \<le> n \<and> n < 32 \<and> bit rc (n - 7)) \<or> (32 \<le> n \<and> bit wt (n - 32)) \<or>
    (38 \<le> n \<and> bit wc (n - 38)))"
proof (cases "n < 64")
  case True
  then show ?thesis
    unfolding ENCODEOP_def bit_or_iff bit_push_bit_iff bit_unsigned_iff
    by (auto simp: bit_of_nat_iff bit_1_iff dest: bit_imp_le_length)
qed (auto dest: bit_imp_le_length)

lemma nat_bit_bound: "bit (k::nat) n \<Longrightarrow> k < 2 ^ m \<Longrightarrow> n < m"
  by (metis bit_take_bit_iff take_bit_nat_eq_self)

lemma word_bit_bound: "bit (x::'a::len word) n \<Longrightarrow> unat x < 2 ^ m \<Longrightarrow> n < m"
  using nat_bit_bound [of "unat x" n m] by (simp add: bit_unsigned_iff)

lemma ucast_up_down [simp]: "(ucast (ucast (x :: 32 word) :: 64 word) :: 32 word) = x"
  by (rule bit_word_eqI) (auto simp: bit_unsigned_iff)

lemma decode_encode:
  assumes "rt < 64" "wt < 64" "unat rc < 2 ^ 25" "unat wc < 2 ^ 25"
  defines "w \<equiv> ENCODEOP rt rc wt wc"
  shows "RDTHREADID w = rt" "READVECTOR w = rc" "WRTHREADID w = wt" "WRITEVECTOR w = wc"
    "ISSHORTRECORD w" "\<not> is_atomic_word w"
proof -
  have rt: "unat (of_nat rt :: 64 word) = rt" and wt: "unat (of_nat wt :: 64 word) = wt"
    using assms(1,2) by (simp_all add: unat_of_nat)
  have b: "bit rt n \<Longrightarrow> n < 6" "bit wt n \<Longrightarrow> n < 6" "bit rc n \<Longrightarrow> n < 25" "bit wc n \<Longrightarrow> n < 25" for n
    using assms by (auto intro: nat_bit_bound word_bit_bound)
  note bits = masks bit_simps(1-3) bit_and_iff bit_drop_bit_eq bit_mask_iff bit_of_nat_iff
    bit_unsigned_iff encode_bits
  have "drop_bit 1 w AND THREADMASK = of_nat rt"
    by (rule bit_word_eqI) (auto simp: w_def bits dest: b)
  then show "RDTHREADID w = rt" by (simp add: RDTHREADID_def rt)
  have "drop_bit 7 w AND READMASK = ucast rc"
    by (rule bit_word_eqI) (auto simp: w_def bits dest: b)
  then show "READVECTOR w = rc" by (simp add: READVECTOR_def)
  have "drop_bit 32 w AND THREADMASK = of_nat wt"
    by (rule bit_word_eqI) (auto simp: w_def bits dest: b)
  then show "WRTHREADID w = wt" by (simp add: WRTHREADID_def wt)
  have "drop_bit 38 w AND READMASK = ucast wc"
    by (rule bit_word_eqI) (auto simp: w_def bits dest: b)
  then show "WRITEVECTOR w = wc" by (simp add: WRITEVECTOR_def)
  show "ISSHORTRECORD w" by (simp add: short_bit w_def encode_bits)
  show "\<not> is_atomic_word w" by (auto simp: atomic_bit w_def encode_bits dest: b)
qed

lemma bit_ATOMICMASK: "bit ATOMICMASK n \<longleftrightarrow> n = 63"
  unfolding ATOMICMASK_def bit_push_bit_iff by (auto simp: bit_1_iff)

lemma decode_atomic [simp]:
  "RDTHREADID (w OR ATOMICMASK) = RDTHREADID w" "READVECTOR (w OR ATOMICMASK) = READVECTOR w"
  "WRTHREADID (w OR ATOMICMASK) = WRTHREADID w" "WRITEVECTOR (w OR ATOMICMASK) = WRITEVECTOR w"
  "is_atomic_word (w OR ATOMICMASK)" "ISSHORTRECORD (w OR ATOMICMASK) = ISSHORTRECORD w"
proof -
  note bits = masks bit_and_iff bit_or_iff bit_drop_bit_eq bit_mask_iff bit_ATOMICMASK
  have "drop_bit 1 (w OR ATOMICMASK) AND THREADMASK = drop_bit 1 w AND THREADMASK"
    "drop_bit 7 (w OR ATOMICMASK) AND READMASK = drop_bit 7 w AND READMASK"
    "drop_bit 32 (w OR ATOMICMASK) AND THREADMASK = drop_bit 32 w AND THREADMASK"
    "drop_bit 38 (w OR ATOMICMASK) AND READMASK = drop_bit 38 w AND READMASK"
    by (rule bit_word_eqI; auto simp: bits)+
  then show "RDTHREADID (w OR ATOMICMASK) = RDTHREADID w" "READVECTOR (w OR ATOMICMASK) = READVECTOR w"
    "WRTHREADID (w OR ATOMICMASK) = WRTHREADID w" "WRITEVECTOR (w OR ATOMICMASK) = WRITEVECTOR w"
    by (simp_all add: RDTHREADID_def READVECTOR_def WRTHREADID_def WRITEVECTOR_def)
  show "is_atomic_word (w OR ATOMICMASK)" "ISSHORTRECORD (w OR ATOMICMASK) = ISSHORTRECORD w"
    by (simp_all add: atomic_bit short_bit bit_or_iff bit_ATOMICMASK)
qed

text \<open>Keeping the atomic bit of the old word.\<close>

lemma keep_atomic: "x AND ATOMICMASK = (if is_atomic_word x then ATOMICMASK else 0)"
proof (rule bit_word_eqI)
  fix n
  show "bit (x AND ATOMICMASK) n \<longleftrightarrow> bit (if is_atomic_word x then ATOMICMASK else 0) n"
    by (auto simp: bit_and_iff atomic_bit bit_ATOMICMASK)
qed

lemma decode_zero [simp]:
  "RDTHREADID 0 = 0" "READVECTOR 0 = 0" "WRTHREADID 0 = 0" "WRITEVECTOR 0 = 0" "\<not> is_atomic_word 0"
  by (simp_all add: RDTHREADID_def READVECTOR_def WRTHREADID_def WRITEVECTOR_def is_atomic_word_def)

lemma decode_bounds:
  "RDTHREADID w < 64" "WRTHREADID w < 64" "unat (READVECTOR w) < 2 ^ 25" "unat (WRITEVECTOR w) < 2 ^ 25"
proof -
  have m: "unat (x AND mask k) < 2 ^ k" if "k < 32" for x :: "64 word" and k
    by (simp add: take_bit_eq_mask [symmetric] unsigned_take_bit_eq)
  have u: "unat (ucast x :: 32 word) = unat x" if "unat x < 2 ^ 25" for x :: "64 word"
    using that by (simp add: unsigned_ucast_eq take_bit_nat_eq_self)
  show "RDTHREADID w < 64" "WRTHREADID w < 64"
    using m [of 6] by (simp_all add: RDTHREADID_def WRTHREADID_def masks)
  show "unat (READVECTOR w) < 2 ^ 25" "unat (WRITEVECTOR w) < 2 ^ 25"
    using m [of 25] by (simp_all add: READVECTOR_def WRITEVECTOR_def masks u)
qed

section \<open>The vector of reads of a full record\<close>

abbreviation racy :: "clocks \<Rightarrow> nat \<Rightarrow> nat \<times> clock \<Rightarrow> bool" where
  "racy c thread \<equiv> \<lambda>(t, k). clock_may_race c thread k t"

definition rec_live :: "race_record \<Rightarrow> (nat \<times> clock) list" where
  "rec_live r = take (numReads r) (rec_reads r)"

text \<open>The capacity is zero (no array yet) or a power of two from \<open>INITCAPACITY\<close> on.\<close>

definition rec_ok :: "race_record \<Rightarrow> bool" where
  "rec_ok r \<longleftrightarrow> numReads r \<le> length (rec_reads r) \<and>
     (rec_reads r = [] \<or> (\<exists>k. length (rec_reads r) = INITCAPACITY * 2 ^ k))"

lemma take_Suc_drop: "i < length rs \<Longrightarrow> take (Suc m) (drop i rs) = rs ! i # take m (drop (Suc i) rs)"
  by (simp add: Cons_nth_drop_Suc [symmetric])

lemma scan_reads_find:
  "i + m \<le> length rs \<Longrightarrow> scan_reads c thread rs i m = Inr (List.find (racy c thread) (take m (drop i rs)))"
proof (induction m arbitrary: i)
  case (Suc m)
  then show ?case by (auto simp: take_Suc_drop split: prod.splits)
qed simp

lemma compact_reads_filter:
  assumes "n \<le> i" "i + m \<le> length rs"
  shows "\<exists>rs' n'. compact_reads c thread rs n i m = Inr (rs', n') \<and> length rs' = length rs \<and>
    n' \<le> n + m \<and> take n' rs' = take n rs @ filter (racy c thread) (take m (drop i rs))"
  using assms
proof (induction m arbitrary: n i rs)
  case (Suc m)
  obtain t k where tk: "rs ! i = (t, k)" by (cases "rs ! i")
  show ?case
  proof (cases "clock_may_race c thread k t")
    case True
    let ?rs = "if n \<noteq> i then rs[n := (t, k)] else rs"
    have "take (Suc n) ?rs = take n rs @ [(t, k)]" "drop (Suc i) ?rs = drop (Suc i) rs"
      "length ?rs = length rs"
      using Suc.prems tk by (auto simp: take_Suc_update take_Suc_conv_app_nth)
    moreover have "Suc n \<le> Suc i" "Suc i + m \<le> length ?rs" using Suc.prems by simp_all
    from Suc.IH [OF this] obtain rs' n' where
      "compact_reads c thread ?rs (Suc n) (Suc i) m = Inr (rs', n')" "length rs' = length ?rs"
      "n' \<le> Suc n + m"
      "take n' rs' = take (Suc n) ?rs @ filter (racy c thread) (take m (drop (Suc i) ?rs))" by blast
    ultimately show ?thesis using Suc.prems tk True by (cases "n = i") (auto simp: take_Suc_drop)
  next
    case False
    from Suc.IH [of n "Suc i" rs] Suc.prems obtain rs' n' where
      "compact_reads c thread rs n (Suc i) m = Inr (rs', n')" "length rs' = length rs" "n' \<le> n + m"
      "take n' rs' = take n rs @ filter (racy c thread) (take m (drop (Suc i) rs))" by auto
    then show ?thesis using Suc.prems tk False by (auto simp: take_Suc_drop)
  qed
qed simp

lemma popcount_power: "popcount (2 ^ k) = 1"
proof (induction k)
  case 0
  show ?case by (simp add: popcount.simps [of "Suc 0"] popcount.simps [of 0])
next
  case (Suc k)
  then show ?case by (simp add: popcount.simps [of "2 * 2 ^ k"])
qed

lemma popcount_0: "popcount n = 0 \<longleftrightarrow> n = 0"
  by (induction n rule: popcount.induct) (subst popcount.simps, auto)

lemma popcount_le_1: "popcount n \<le> 1 \<Longrightarrow> 0 < n \<Longrightarrow> \<exists>k. n = 2 ^ k"
proof (induction n rule: popcount.induct)
  case (1 n)
  have eq: "popcount n = n mod 2 + popcount (n div 2)" using 1(3) by (subst popcount.simps) simp
  show ?case
  proof (cases "even n")
    case True
    then have "popcount (n div 2) \<le> 1" "0 < n div 2" using eq 1(2,3) by (auto elim: evenE)
    from 1(1) [OF _ this] 1(3) obtain k where "n div 2 = 2 ^ k" by auto
    with True have "n = 2 ^ Suc k" by auto
    then show ?thesis by blast
  next
    case False
    then have "popcount (n div 2) = 0" using eq 1(2) by (simp add: odd_iff_mod_2_eq_one)
    then have "n div 2 = 0" by (cases "n div 2 = 0") (auto simp: popcount_0)
    with False have "n = 2 ^ 0" by (cases n) (auto simp: div_eq_0_iff)
    then show ?thesis by blast
  qed
qed

text \<open>After growing there is room for one more read, and the kept reads are unchanged.\<close>

lemma grow_reads_room:
  assumes "n \<le> length rs" "rs = [] \<or> (\<exists>k. length rs = INITCAPACITY * 2 ^ k)"
  shows "\<exists>rs'. grow_reads rs n = Inr rs' \<and> n < length rs' \<and> take n rs' = take n rs \<and>
    (\<exists>k. length rs' = INITCAPACITY * 2 ^ k)"
proof -
  consider "rs = []" | k where "length rs = INITCAPACITY * 2 ^ k" "n = length rs"
    | k where "length rs = INITCAPACITY * 2 ^ k" "n < length rs"
    using assms by fastforce
  then show ?thesis
  proof cases
    case 1
    with assms(1) show ?thesis
      by (auto simp: grow_reads_def popcount.simps [of 0] INITCAPACITY_def intro: exI [of _ 0])
  next
    case (2 k)
    then have n: "n = 2 ^ (k + 2)" by (simp add: INITCAPACITY_def power_add)
    then have "popcount n = 1" by (simp only: popcount_power)
    moreover have "INITCAPACITY \<le> n" "n \<noteq> 0" using 2 by (simp_all add: INITCAPACITY_def)
    moreover have "length (take n rs @ replicate n (0, 0)) = INITCAPACITY * 2 ^ Suc k"
      using 2 by simp
    moreover have "length rs < length (take n rs @ replicate n (0, 0))"
      using 2 by (simp add: INITCAPACITY_def)
    moreover have "rs \<noteq> []" using calculation(3) 2(2) by auto
    ultimately show ?thesis using 2(2) unfolding grow_reads_def
      by (intro exI [of _ "take n rs @ replicate n (0, 0)"] conjI exI [of _ "Suc k"]) simp_all
  next
    case (3 k)
    show ?thesis
    proof (cases "popcount n \<le> 1 \<and> INITCAPACITY \<le> n")
      case True
      then obtain j where j: "n = 2 ^ j" using popcount_le_1 [of n] by (auto simp: INITCAPACITY_def)
      with True have "2 \<le> j" using power_increasing_iff [of "2::nat" 2 j] by (simp add: INITCAPACITY_def)
      then have "2 * n = INITCAPACITY * 2 ^ (j - 1)"
        using j power_add [of "2::nat" 2 "j - 1"] by (simp add: INITCAPACITY_def power_Suc [symmetric] del: power_Suc)
      then have "\<exists>j. 2 * n = INITCAPACITY * 2 ^ j" by blast
      with True 3 show ?thesis by (auto simp: grow_reads_def INITCAPACITY_def)
    next
      case False
      with 3 show ?thesis by (auto simp: grow_reads_def)
    qed
  qed
qed

lemma grow_and_append:
  assumes "n \<le> length rs" "rs = [] \<or> (\<exists>k. length rs = INITCAPACITY * 2 ^ k)"
  obtains rs' rs'' where "grow_reads rs n = Inr rs'" "updR rs' (int n) x = Inr rs''"
    "take (Suc n) rs'' = take n rs @ [x]" "Suc n \<le> length rs''"
    "\<exists>k. length rs'' = INITCAPACITY * 2 ^ k"
proof -
  from grow_reads_room [OF assms] obtain rs' where
    "grow_reads rs n = Inr rs'" "n < length rs'" "take n rs' = take n rs"
    "\<exists>k. length rs' = INITCAPACITY * 2 ^ k" by blast
  then show ?thesis by (intro that [of rs' "rs'[n := x]"]) (simp_all add: take_Suc_update)
qed

definition write_race ::
    "race_env \<Rightarrow> nat \<Rightarrow> 64 word \<Rightarrow> bool \<Rightarrow> clocks \<Rightarrow> clock \<Rightarrow> nat \<Rightarrow> data_race option" where
  "write_race env thread loc isnew c wclock wthread =
     (if clock_may_race c thread wclock wthread
      then Some (reportDataRace env wthread wclock True thread isnew loc) else None)"

lemma fullRaceCheckRead_live:
  assumes "rec_ok r"
  obtains r' where
    "fullRaceCheckRead env thread loc r c
      = Inr (write_race env thread loc False c (writeClock r) (writeThread r), r')"
    "rec_ok r'" "rec_live r' = filter (racy c thread) (rec_live r) @ [(thread, getClock c thread)]"
    "writeThread r' = writeThread r" "writeClock r' = writeClock r" "isAtomic r' = isAtomic r"
proof -
  from compact_reads_filter [of 0 0 "numReads r" "rec_reads r" c thread] assms obtain rs n where
    c: "compact_reads c thread (rec_reads r) 0 0 (numReads r) = Inr (rs, n)"
      "length rs = length (rec_reads r)" "n \<le> numReads r"
      "take n rs = filter (racy c thread) (rec_live r)"
    by (auto simp: rec_ok_def rec_live_def)
  have "n \<le> length rs" "rs = [] \<or> (\<exists>k. length rs = INITCAPACITY * 2 ^ k)"
    using c assms by (auto simp: rec_ok_def)
  then obtain rs' rs'' where g: "grow_reads rs n = Inr rs'"
    "updR rs' (int n) (thread, getClock c thread) = Inr rs''"
    "take (Suc n) rs'' = take n rs @ [(thread, getClock c thread)]" "Suc n \<le> length rs''"
    "\<exists>k. length rs'' = INITCAPACITY * 2 ^ k"
    by (rule grow_and_append)
  show ?thesis
    by (rule that [of "r\<lparr>rec_reads := rs'', numReads := n + 1\<rparr>"])
      (use c g in \<open>simp_all add: fullRaceCheckRead_def write_race_def rec_ok_def rec_live_def\<close>)
qed

text \<open>The report of a write check, from the reads in order and then the last write.\<close>

definition access_race ::
    "race_env \<Rightarrow> nat \<Rightarrow> 64 word \<Rightarrow> clocks \<Rightarrow> (nat \<times> clock) list \<Rightarrow> clock \<Rightarrow> nat \<Rightarrow> data_race option" where
  "access_race env thread loc c reads wclock wthread =
     (case List.find (racy c thread) reads of
        Some (t, k) \<Rightarrow> Some (reportDataRace env t k False thread True loc)
      | None \<Rightarrow> write_race env thread loc True c wclock wthread)"

lemma fullRaceCheckWrite_eq:
  "rec_ok r \<Longrightarrow> fullRaceCheckWrite env thread loc r c =
     Inr (access_race env thread loc c (rec_live r) (writeClock r) (writeThread r),
          r\<lparr>numReads := 0, writeThread := thread, isAtomic := False, writeClock := getClock c thread\<rparr>)"
  by (simp add: fullRaceCheckWrite_def scan_reads_find rec_ok_def rec_live_def access_race_def
      write_race_def Let_def split: option.split)

lemma atomfullRaceCheckWrite_eq:
  "rec_ok r \<Longrightarrow> atomfullRaceCheckWrite env thread loc r c =
     Inr (if isAtomic r then None
          else access_race env thread loc c (rec_live r) (writeClock r) (writeThread r),
          r\<lparr>numReads := 0, writeThread := thread, isAtomic := True, writeClock := getClock c thread\<rparr>)"
  by (simp add: atomfullRaceCheckWrite_def scan_reads_find rec_ok_def rec_live_def access_race_def
      write_race_def split: option.split)

lemma expandRecord_facts [simp]:
  "rec_ok (expandRecord w)"
  "rec_live (expandRecord w) = (if READVECTOR w = 0 then [] else [(RDTHREADID w, READVECTOR w)])"
  "writeThread (expandRecord w) = WRTHREADID w" "writeClock (expandRecord w) = WRITEVECTOR w"
  "isAtomic (expandRecord w) = is_atomic_word w"
  by (auto simp: expandRecord_def rec_ok_def rec_live_def INITCAPACITY_def intro: exI [of _ 0])

section \<open>What an entry means\<close>

text \<open>
  The abstract entry: the reads that still count (those with a non-zero clock), the last write
  and whether that write was atomic.
\<close>

fun cell_reads :: "shadow \<Rightarrow> (nat \<times> clock) set" where
  "cell_reads (Short w) = {(t, k). t = RDTHREADID w \<and> k = READVECTOR w \<and> k \<noteq> 0}"
| "cell_reads (Full r) = {(t, k). (t, k) \<in> set (rec_live r) \<and> k \<noteq> 0}"

fun cell_write :: "shadow \<Rightarrow> nat \<times> clock" where
  "cell_write (Short w) = (WRTHREADID w, WRITEVECTOR w)"
| "cell_write (Full r) = (writeThread r, writeClock r)"

fun cell_atomic :: "shadow \<Rightarrow> bool" where
  "cell_atomic (Short w) = is_atomic_word w"
| "cell_atomic (Full r) = isAtomic r"

fun shadow_ok :: "shadow \<Rightarrow> bool" where
  "shadow_ok (Short w) \<longleftrightarrow> w = 0 \<or> ISSHORTRECORD w"
| "shadow_ok (Full r) \<longleftrightarrow> rec_ok r"

lemma racy_nonzero: "racy c th x \<Longrightarrow> snd x \<noteq> 0"
  by (auto simp: clock_may_race_def)

text \<open>Expanding a packed word changes the representation only.\<close>

lemma cell_expand [simp]:
  "cell_reads (Full (expandRecord w)) = cell_reads (Short w)"
  "cell_write (Full (expandRecord w)) = cell_write (Short w)"
  "cell_atomic (Full (expandRecord w)) = cell_atomic (Short w)"
  by auto

lemma access_race_iff:
  "access_race env thread loc c reads wc wt \<noteq> None \<longleftrightarrow>
     (\<exists>x \<in> set reads. racy c thread x) \<or> clock_may_race c thread wc wt"
proof (cases "List.find (racy c thread) reads")
  case None
  then have "\<not> (\<exists>x \<in> set reads. racy c thread x)" unfolding find_None_iff by blast
  with None show ?thesis by (simp add: access_race_def write_race_def)
next
  case (Some x)
  then have "x \<in> set reads \<and> racy c thread x" unfolding find_Some_iff by (metis nth_mem)
  with Some show ?thesis by (cases x) (auto simp: access_race_def)
qed

lemma cell_racy:
  "(\<exists>x \<in> set (rec_live r). racy c thread x) \<longleftrightarrow> (\<exists>x \<in> cell_reads (Full r). racy c thread x)"
  by (auto simp: clock_may_race_def)

lemma encode_small:
  assumes "\<not> too_large thread ourClock"
  shows "cell_reads (Short (ENCODEOP 0 0 thread ourClock)) = {}"
    "cell_write (Short (ENCODEOP 0 0 thread ourClock)) = (thread, ourClock)"
    "ISSHORTRECORD (ENCODEOP 0 0 thread ourClock)"
    "\<not> is_atomic_word (ENCODEOP 0 0 thread ourClock)"
  using assms decode_encode [of 0 thread 0 ourClock] by (auto simp: not_too_large)

lemma write_entry_correct:
  assumes "shadow_ok s"
  shows "\<exists>race s' vals. write_entry env thread loc c s = Inr (race, s', vals) \<and> shadow_ok s' \<and>
    cell_reads s' = {} \<and> cell_write s' = (thread, getClock c thread) \<and> \<not> cell_atomic s' \<and>
    (race \<noteq> None \<longleftrightarrow> (\<exists>x \<in> cell_reads s. racy c thread x) \<or>
      clock_may_race c thread (snd (cell_write s)) (fst (cell_write s)))"
proof -
  have full: "\<exists>race s' vals. bindR (fullRaceCheckWrite env thread loc r c) (\<lambda>(race, r').
        Inr (race, Full r', None :: (64 word \<times> 64 word) option)) = Inr (race, s', vals) \<and> shadow_ok s' \<and>
      cell_reads s' = {} \<and> cell_write s' = (thread, getClock c thread) \<and> \<not> cell_atomic s' \<and>
      (race \<noteq> None \<longleftrightarrow> (\<exists>x \<in> cell_reads (Full r). racy c thread x) \<or>
        clock_may_race c thread (writeClock r) (writeThread r))" if "rec_ok r" for r
  proof -
    have "rec_ok (r\<lparr>numReads := 0, writeThread := thread, isAtomic := False,
        writeClock := getClock c thread\<rparr>)"
      using that by (auto simp: rec_ok_def)
    moreover have "rec_live (r\<lparr>numReads := 0, writeThread := thread, isAtomic := False,
        writeClock := getClock c thread\<rparr>) = []"
      by (simp add: rec_live_def)
    ultimately show ?thesis
      using that access_race_iff [of env thread loc c "rec_live r" "writeClock r" "writeThread r"]
      by (simp add: fullRaceCheckWrite_eq cell_racy)
  qed
  show ?thesis
  proof (cases s)
    case (Full r)
    with full [of r] assms show ?thesis by (simp add: write_entry_def)
  next
    case (Short w)
    show ?thesis
    proof (cases "too_large thread (getClock c thread)")
      case True
      with full [of "expandRecord w"] Short show ?thesis
        by (simp add: write_entry_def Let_def del: cell_reads.simps)
    next
      case False
      with Short encode_small [OF False] show ?thesis
        by (auto simp: write_entry_def Let_def clock_may_race_def)
    qed
  qed
qed

lemma encode_read:
  fixes w :: "64 word"
  assumes "\<not> too_large thread ourClock"
  defines "e \<equiv> ENCODEOP thread ourClock (WRTHREADID w) (WRITEVECTOR w) OR (w AND ATOMICMASK)"
  shows "cell_reads (Short e) = {(t, k). (t, k) = (thread, ourClock) \<and> k \<noteq> 0}"
    "cell_write (Short e) = (WRTHREADID w, WRITEVECTOR w)" "ISSHORTRECORD e"
    "is_atomic_word e = is_atomic_word w"
  using assms(1) decode_encode [of thread "WRTHREADID w" ourClock "WRITEVECTOR w"] decode_bounds [of w]
  unfolding e_def keep_atomic by (auto simp: not_too_large)

lemma read_entry_correct:
  assumes "shadow_ok s"
  shows "\<exists>s' vals. read_entry env thread loc c s =
      Inr (write_race env thread loc False c (snd (cell_write s)) (fst (cell_write s)), s', vals) \<and>
    shadow_ok s' \<and> cell_write s' = cell_write s \<and> cell_atomic s' = cell_atomic s \<and>
    cell_reads s' = {x \<in> cell_reads s. racy c thread x} \<union>
      {(t, k). (t, k) = (thread, getClock c thread) \<and> k \<noteq> 0}"
proof -
  have full: "\<exists>s' vals. bindR (fullRaceCheckRead env thread loc r c) (\<lambda>(race, r').
        Inr (race, Full r', None :: (64 word \<times> 64 word) option)) =
        Inr (write_race env thread loc False c (writeClock r) (writeThread r), s', vals) \<and>
      shadow_ok s' \<and> cell_write s' = (writeThread r, writeClock r) \<and> cell_atomic s' = isAtomic r \<and>
      cell_reads s' = {x \<in> cell_reads (Full r). racy c thread x} \<union>
        {(t, k). (t, k) = (thread, getClock c thread) \<and> k \<noteq> 0}" if "rec_ok r" for r
    using that by (rule fullRaceCheckRead_live [of r env thread loc c]) auto
  show ?thesis
  proof (cases s)
    case (Full r)
    with full [of r] assms show ?thesis by (simp add: read_entry_def)
  next
    case (Short w)
    show ?thesis
    proof (cases "too_large thread (getClock c thread)")
      case True
      with full [of "expandRecord w"] Short show ?thesis
        by (simp add: read_entry_def Let_def del: cell_reads.simps)
    next
      case small: False
      show ?thesis
      proof (cases "clock_may_race c thread (READVECTOR w) (RDTHREADID w)")
        case True
        let ?rs = "[(RDTHREADID w, READVECTOR w), (thread, getClock c thread), (0, 0), (0, 0)]"
        let ?r = "(expandRecord w)\<lparr>rec_reads := ?rs, numReads := 2\<rparr>"
        have nz: "READVECTOR w \<noteq> 0" using True by (simp add: clock_may_race_def)
        then have "rec_reads (expandRecord w) = [(RDTHREADID w, READVECTOR w), (0, 0), (0, 0), (0, 0)]"
          "numReads (expandRecord w) = 1"
          by (simp_all add: expandRecord_def INITCAPACITY_def numeral_3_eq_3)
        then have "read_entry env thread loc c s =
            Inr (write_race env thread loc False c (WRITEVECTOR w) (WRTHREADID w), Full ?r, None)"
          using Short small True by (simp add: read_entry_def Let_def updR_def write_race_def numeral_2_eq_2)
        moreover have "rec_live ?r = [(RDTHREADID w, READVECTOR w), (thread, getClock c thread)]"
          by (simp add: rec_live_def)
        moreover have "rec_ok ?r"
          by (auto simp: rec_ok_def INITCAPACITY_def intro: exI [of _ 0])
        ultimately show ?thesis using Short True nz by auto
      next
        case False
        with Short small encode_read [OF small, of w] show ?thesis
          by (auto simp: read_entry_def Let_def write_race_def)
      qed
    qed
  qed
qed

lemma atomic_write_entry_correct:
  assumes "shadow_ok s"
  shows "\<exists>race s'. atomic_write_entry env thread loc c s = Inr (race, s') \<and> shadow_ok s' \<and>
    cell_reads s' = {} \<and> cell_write s' = (thread, getClock c thread) \<and> cell_atomic s' \<and>
    (race \<noteq> None \<longleftrightarrow> \<not> cell_atomic s \<and> ((\<exists>x \<in> cell_reads s. racy c thread x) \<or>
      clock_may_race c thread (snd (cell_write s)) (fst (cell_write s))))"
proof -
  have full: "\<exists>race s'. bindR (atomfullRaceCheckWrite env thread loc r c) (\<lambda>(race, r').
        Inr (race, Full r')) = Inr (race, s') \<and> shadow_ok s' \<and>
      cell_reads s' = {} \<and> cell_write s' = (thread, getClock c thread) \<and> cell_atomic s' \<and>
      (race \<noteq> None \<longleftrightarrow> \<not> isAtomic r \<and> ((\<exists>x \<in> cell_reads (Full r). racy c thread x) \<or>
        clock_may_race c thread (writeClock r) (writeThread r)))" if "rec_ok r" for r
  proof -
    have "rec_ok (r\<lparr>numReads := 0, writeThread := thread, isAtomic := True,
        writeClock := getClock c thread\<rparr>)"
      using that by (auto simp: rec_ok_def)
    moreover have "rec_live (r\<lparr>numReads := 0, writeThread := thread, isAtomic := True,
        writeClock := getClock c thread\<rparr>) = []"
      by (simp add: rec_live_def)
    ultimately show ?thesis
      using that access_race_iff [of env thread loc c "rec_live r" "writeClock r" "writeThread r"]
      by (simp add: atomfullRaceCheckWrite_eq cell_racy)
  qed
  show ?thesis
  proof (cases s)
    case (Full r)
    with full [of r] assms show ?thesis by (simp add: atomic_write_entry_def)
  next
    case (Short w)
    show ?thesis
    proof (cases "too_large thread (getClock c thread)")
      case True
      with full [of "expandRecord w"] Short show ?thesis
        by (simp add: atomic_write_entry_def Let_def del: cell_reads.simps)
    next
      case False
      with Short encode_small [OF False] show ?thesis
        by (auto simp: atomic_write_entry_def Let_def clock_may_race_def)
    qed
  qed
qed

section \<open>The shadow table\<close>

fun allocated :: "shadow_root \<Rightarrow> entry \<Rightarrow> bool" where
  "allocated rt (i, j, k) \<longleftrightarrow> (\<exists>t b. rt i = Some t \<and> t j = Some b)"

lemma snd_lookup [simp]: "snd (lookupAddressEntry a rt) = entry_of a"
  by (simp add: lookupAddressEntry_def entry_of_def Let_def)

lemma deref_lookup [simp]: "deref (fst (lookupAddressEntry a rt)) p = deref rt p"
  by (cases p) (auto simp: lookupAddressEntry_def entry_of_def Let_def zero_table_def split: option.splits)

lemma deref_assign [simp]: "deref (assign rt p s) q = (if q = p then s else deref rt q)"
  by (cases p; cases q) (auto simp: Let_def zero_table_def split: option.splits)

lemma allocated_lookup [simp]: "allocated (fst (lookupAddressEntry a rt)) (entry_of a)"
  by (simp add: lookupAddressEntry_def entry_of_def Let_def)

lemma allocated_assign [simp]: "allocated rt q \<Longrightarrow> allocated (assign rt p s) q"
  by (cases p; cases q) (auto simp: Let_def)

lemma allocated_plus [simp]: "allocated rt (entry_plus p n) = allocated rt p"
  by (cases p) simp

lemma lookup_allocated:
  assumes "allocated rt (entry_of a)"
  shows "lookupAddressEntry a rt = (rt, entry_of a)"
proof -
  obtain i j k where e: "entry_of a = (i, j, k)" by (cases "entry_of a")
  with assms obtain t b where "rt i = Some t" "t j = Some b" by auto
  then have "t(j := Some b) = t" "rt(i := Some t) = rt" by (auto simp: fun_upd_idem)
  with e \<open>rt i = Some t\<close> \<open>t j = Some b\<close> show ?thesis by (simp add: lookupAddressEntry_def Let_def)
qed

lemma entry_of_nat:
  "entry_of a = (of_nat (unat a div 2 ^ 32), of_nat (unat a div 2 ^ 16), of_nat (unat a))"
proof -
  have u: "ucast x = (of_nat (unat x) :: 16 word)" for x :: "64 word" by simp
  have "unat (drop_bit n x) = unat x div 2 ^ n" for n and x :: "64 word"
    using unat_drop_bit_eq [of n x] by (simp only: drop_bit_eq_div)
  then show ?thesis unfolding entry_of_def u by (simp only:)
qed

lemma CHECKBOUNDARY_iff: "CHECKBOUNDARY loc n \<longleftrightarrow> unat loc mod 2 ^ 16 + n < 2 ^ 16"
proof -
  have "loc AND 0xffff = take_bit 16 loc"
    unfolding take_bit_eq_mask by (simp add: mask_eq_exp_minus_1)
  moreover have "unat (take_bit 16 loc) = take_bit 16 (unat loc)" by (rule unsigned_take_bit_eq)
  ultimately have "unat (loc AND 0xffff) = unat loc mod 2 ^ 16" by (simp only: take_bit_eq_mod)
  then show ?thesis unfolding CHECKBOUNDARY_def by (simp only:) auto
qed

lemma entry_of_plus:
  assumes "CHECKBOUNDARY loc n" "k \<le> n"
  shows "entry_of (loc + of_nat k) = entry_plus (entry_of loc) k"
proof -
  let ?x = "unat loc"
  have m: "?x mod 2 ^ 16 + k < 2 ^ 16" using assms by (simp add: CHECKBOUNDARY_iff)
  then have d: "(?x + k) div 2 ^ 16 = ?x div 2 ^ 16"
    using div_add1_eq [of ?x k "2 ^ 16"] by simp
  have "(?x + k) div 2 ^ 32 = ((?x + k) div 2 ^ 16) div 2 ^ 16"
    by (simp add: div_mult2_eq [symmetric])
  also have "\<dots> = ?x div 2 ^ 32" unfolding d by (simp add: div_mult2_eq [symmetric])
  finally have d2: "(?x + k) div 2 ^ 32 = ?x div 2 ^ 32" .
  have "?x < 2 ^ LENGTH(64)" by (rule unsigned_less)
  then have "?x < 2 ^ 48 * 2 ^ 16" by simp
  then have "?x div 2 ^ 16 < 2 ^ 48" by (rule less_mult_imp_div_less)
  then have "(?x + k) div 2 ^ 16 < 2 ^ 48" using d by simp
  then have lt: "?x + k < 2 ^ 64" by (simp add: div_less_iff_less_mult)
  then have u: "unat (loc + of_nat k) = ?x + k"
  proof -
    have "loc + of_nat k = of_nat (?x + k)" by simp
    also have "unat (of_nat (?x + k) :: 64 word) = ?x + k"
      using lt unfolding unat_of_nat by simp
    finally show ?thesis .
  qed
  show ?thesis unfolding entry_of_nat u d d2 by simp
qed

declare deref.simps [simp del] assign.simps [simp del] split_paired_All [simp del]

section \<open>Byte-wise and wide checks\<close>

text \<open>
  The read and the write checks drive their entry check in the same way.  The laws of an entry
  check that make the wide entry points equal to a loop over the bytes are a contract; it is
  discharged for both.
\<close>

definition other_it where
  "other_it check env thread loc d =
     (let (rt, p) = lookupAddressEntry loc (root d) in
      case env_cv env thread of
        None \<Rightarrow> Inr (d\<lparr>root := rt\<rparr>)
      | Some c \<Rightarrow> bindR (check env thread loc c (deref rt p)) (\<lambda>(race, s, vals).
          Inr (report race (d\<lparr>root := assign rt p s\<rparr>))))"

definition first_it where
  "first_it check env thread loc d =
     (let (rt, p) = lookupAddressEntry loc (root d) in
      case env_cv env thread of
        None \<Rightarrow> Inr (d\<lparr>root := rt\<rparr>, p, INVALIDSHADOWVAL, INVALIDSHADOWVAL)
      | Some c \<Rightarrow> bindR (check env thread loc c (deref rt p)) (\<lambda>(race, s, vals).
          Inr (report race (d\<lparr>root := assign rt p s\<rparr>), p,
               case vals of None \<Rightarrow> (INVALIDSHADOWVAL, INVALIDSHADOWVAL) | Some v \<Rightarrow> v)))"

definition detector_ok :: "detector \<Rightarrow> bool" where
  "detector_ok d \<longleftrightarrow> (\<forall>p. shadow_ok (deref (root d) p))"

definition same_verdict :: "race_env \<Rightarrow> data_race option \<Rightarrow> data_race option \<Rightarrow> bool" where
  "same_verdict env r q \<longleftrightarrow> (r = None \<longleftrightarrow> q = None) \<and>
     (\<forall>x. r = Some x \<or> q = Some x \<longrightarrow> backtrace x = env_frames env)"

lemma report_root [simp]: "root (report race d) = root d"
  by (simp add: report_def split: option.split)

lemma race_equals_frames: "backtrace x = backtrace y \<Longrightarrow> race_equals q x = race_equals q y"
  by (simp add: race_equals_def)

lemma report_again:
  assumes "same_verdict env r q" "raceset d2 = raceset (report r d)"
  shows "report q d2 = d2"
proof (cases r)
  case None
  with assms(1) show ?thesis by (simp add: same_verdict_def report_def)
next
  case (Some x)
  with assms(1) obtain y where y: "q = Some y" "backtrace y = backtrace x"
    by (cases q) (auto simp: same_verdict_def)
  have "list_ex (\<lambda>z. race_equals z y) (raceset (report r d))"
    using Some race_equals_frames [OF y(2)] y(2)
    by (auto simp: report_def list_ex_iff race_equals_def)
  then show ?thesis using y(1) assms(2) by (simp add: report_def)
qed

locale entry_check =
  fixes check :: "race_env \<Rightarrow> nat \<Rightarrow> 64 word \<Rightarrow> clocks \<Rightarrow> shadow \<Rightarrow>
    (data_race option \<times> shadow \<times> (64 word \<times> 64 word) option) res"
  assumes total: "shadow_ok s \<Longrightarrow>
      \<exists>race s' vals. check env thread loc c s = Inr (race, s', vals) \<and> shadow_ok s'"
    and vals: "check env thread loc c s = Inr (race, s', Some (old, new)) \<Longrightarrow> s = Short old \<and> s' = Short new"
    and elsewhere: "check env thread loc c s = Inr (race, s', vals) \<Longrightarrow>
      \<exists>race'. check env thread loc' c s = Inr (race', s', vals) \<and> same_verdict env race race'"
begin

lemma other_total:
  assumes "detector_ok d"
  shows "\<exists>d'. other_it check env thread loc d = Inr d' \<and> detector_ok d'"
proof -
  obtain rt p where l: "lookupAddressEntry loc (root d) = (rt, p)" by (rule prod.exhaust)
  then have rt: "deref rt = deref (root d)" using deref_lookup [of loc "root d"] by (metis ext fst_conv)
  show ?thesis
  proof (cases "env_cv env thread")
    case None
    with assms l rt show ?thesis by (simp add: other_it_def detector_ok_def)
  next
    case (Some c)
    from assms have "shadow_ok (deref rt p)" by (simp add: detector_ok_def rt)
    from total [OF this, of env thread loc c] obtain race s' vals where
      "check env thread loc c (deref rt p) = Inr (race, s', vals)" "shadow_ok s'" by blast
    with assms Some l rt show ?thesis by (simp add: other_it_def detector_ok_def)
  qed
qed

text \<open>A chain that starts from an entry check equals the loop over the bytes.\<close>

lemma spread_loop:
  assumes "env_cv env thread = Some c"
    and "check env thread loc c (Short old) = Inr (race, Short new, Some (old, new))"
    and "\<And>d q rt. same_verdict env race q \<Longrightarrow> raceset d = rs \<Longrightarrow> report q (d\<lparr>root := rt\<rparr>) = d\<lparr>root := rt\<rparr>"
    and "CHECKBOUNDARY loc n" "\<forall>k \<in> set ks. k \<le> n"
    and "allocated (root d) (entry_of loc)" "raceset d = rs" "detector_ok d" "shadow_ok (Short new)"
  shows "spread (other_it check env thread) loc (entry_of loc) old new ks d
    = foldR (\<lambda>j. other_it check env thread (loc + of_nat j)) ks d"
  using assms(5-8)
proof (induction ks arbitrary: d)
  case (Cons k ks)
  let ?p = "entry_plus (entry_of loc) k"
  show ?case
  proof (cases "entry_is (deref (root d) ?p) old")
    case True
    let ?d = "d\<lparr>root := assign (root d) ?p (Short new)\<rparr>"
    have old: "deref (root d) ?p = Short old" using True by (cases "deref (root d) ?p") auto
    have p: "entry_of (loc + of_nat k) = ?p" using entry_of_plus [OF assms(4)] Cons.prems by simp
    with Cons.prems have l: "lookupAddressEntry (loc + of_nat k) (root d) = (root d, ?p)"
      by (simp add: lookup_allocated)
    from elsewhere [OF assms(2)] obtain q where
      "check env thread (loc + of_nat k) c (Short old) = Inr (q, Short new, Some (old, new))"
      "same_verdict env race q" by blast
    then have "other_it check env thread (loc + of_nat k) d = Inr ?d"
      using assms(1,3) l old Cons.prems(3) by (simp add: other_it_def)
    moreover have "spread (other_it check env thread) loc (entry_of loc) old new ks ?d
        = foldR (\<lambda>j. other_it check env thread (loc + of_nat j)) ks ?d"
      using Cons.prems assms(9) by (intro Cons.IH) (auto simp: detector_ok_def)
    ultimately show ?thesis using True by simp
  qed simp
qed simp

text \<open>The whole wide check.\<close>

lemma wide_loop:
  assumes "detector_ok d" "\<forall>k \<in> set ks. k \<le> n"
  shows "bindR (first_it check env thread loc d) (\<lambda>(d1, p, old, new).
      if CHECKBOUNDARY loc n then spread (other_it check env thread) loc p old new ks d1
      else foldR (\<lambda>j. other_it check env thread (loc + of_nat j)) ks d1)
    = bindR (other_it check env thread loc d)
        (foldR (\<lambda>j. other_it check env thread (loc + of_nat j)) ks)"
proof -
  obtain rt where l: "lookupAddressEntry loc (root d) = (rt, entry_of loc)"
    by (metis prod.collapse snd_lookup)
  then have rt: "deref rt = deref (root d)" and al: "allocated rt (entry_of loc)"
    using deref_lookup [of loc "root d"] allocated_lookup [of loc "root d"] by (metis ext fst_conv)+
  have invalid: "spread (other_it check env thread) loc p INVALIDSHADOWVAL new ks d1
      = foldR (\<lambda>j. other_it check env thread (loc + of_nat j)) ks d1" if "detector_ok d1" for p new d1
  proof (cases ks)
    case (Cons k ks')
    have "shadow_ok (deref (root d1) (entry_plus p k))" using that by (simp add: detector_ok_def)
    then have "\<not> entry_is (deref (root d1) (entry_plus p k)) INVALIDSHADOWVAL"
      by (cases "deref (root d1) (entry_plus p k)")
        (auto simp: INVALIDSHADOWVAL_def ISSHORTRECORD_def)
    with Cons show ?thesis by simp
  qed simp
  show ?thesis
  proof (cases "env_cv env thread")
    case None
    have "detector_ok (d\<lparr>root := rt\<rparr>)" using assms(1) rt by (simp add: detector_ok_def)
    with None l invalid show ?thesis by (simp add: first_it_def other_it_def)
  next
    case (Some c)
    have "shadow_ok (deref rt (entry_of loc))" using assms(1) rt by (simp add: detector_ok_def)
    from total [OF this, of env thread loc c] obtain race s' v where
      c: "check env thread loc c (deref rt (entry_of loc)) = Inr (race, s', v)" "shadow_ok s'" by blast
    let ?d1 = "report race (d\<lparr>root := assign rt (entry_of loc) s'\<rparr>)"
    have ok: "detector_ok ?d1" using assms(1) c(2) rt by (simp add: detector_ok_def)
    have o: "other_it check env thread loc d = Inr ?d1"
      using Some l c by (simp add: other_it_def)
    show ?thesis
    proof (cases v)
      case None
      with Some l c ok o invalid show ?thesis by (simp add: first_it_def)
    next
      case v: (Some ow)
      obtain old new where ow: "ow = (old, new)" by (cases ow)
      from vals [of env thread loc c _ race s' old new] c v ow
      have s: "deref rt (entry_of loc) = Short old" "s' = Short new" by auto
      have again: "report q (d2\<lparr>root := r\<rparr>) = d2\<lparr>root := r\<rparr>"
        if "same_verdict env race q" "raceset d2 = raceset ?d1" for d2 q r
        by (rule report_again [OF that(1), of _ "d\<lparr>root := assign rt (entry_of loc) s'\<rparr>"])
          (simp add: that(2))
      have "spread (other_it check env thread) loc (entry_of loc) old new ks ?d1
          = foldR (\<lambda>j. other_it check env thread (loc + of_nat j)) ks ?d1" if "CHECKBOUNDARY loc n"
        by (rule spread_loop [where c = c and race = race and n = n and rs = "raceset ?d1"])
          (use Some c s v ow assms(2) al ok that again in auto)
      with Some l c o v ow show ?thesis by (simp add: first_it_def)
    qed
  qed
qed

end

lemma read_entry_vals:
  "read_entry env thread loc c s = Inr (race, s', Some (old, new)) \<Longrightarrow> s = Short old \<and> s' = Short new"
  by (cases s) (auto simp: read_entry_def Let_def bindR_Inr_iff split: if_splits)

lemma write_entry_vals:
  "write_entry env thread loc c s = Inr (race, s', Some (old, new)) \<Longrightarrow> s = Short old \<and> s' = Short new"
  by (cases s) (auto simp: write_entry_def Let_def bindR_Inr_iff split: if_splits)

text \<open>The location only shows in the report.\<close>

lemma fullRaceCheckRead_elsewhere:
  "fullRaceCheckRead env thread loc r c = Inr (race, r') \<Longrightarrow>
   \<exists>race'. fullRaceCheckRead env thread loc' r c = Inr (race', r') \<and> same_verdict env race race'"
  by (auto simp: fullRaceCheckRead_def Let_def bindR_Inr_iff same_verdict_def reportDataRace_def
      split: prod.splits if_splits)

lemma fullRaceCheckWrite_elsewhere:
  "fullRaceCheckWrite env thread loc r c = Inr (race, r') \<Longrightarrow>
   \<exists>race'. fullRaceCheckWrite env thread loc' r c = Inr (race', r') \<and> same_verdict env race race'"
proof (cases "scan_reads c thread (rec_reads r) 0 (numReads r)")
  case (Inr x)
  assume "fullRaceCheckWrite env thread loc r c = Inr (race, r')"
  with Inr show ?thesis
    by (cases x) (auto simp: fullRaceCheckWrite_def Let_def same_verdict_def reportDataRace_def)
qed (simp add: fullRaceCheckWrite_def)

lemma read_entry_elsewhere:
  assumes "read_entry env thread loc c s = Inr (race, s', vals)"
  shows "\<exists>race'. read_entry env thread loc' c s = Inr (race', s', vals) \<and> same_verdict env race race'"
proof (cases s)
  case (Full r)
  with assms fullRaceCheckRead_elsewhere [of env thread loc r c _ _ loc'] show ?thesis
    by (fastforce simp: read_entry_def bindR_Inr_iff)
next
  case (Short w)
  show ?thesis
  proof (cases "too_large thread (getClock c thread)")
    case True
    with Short assms fullRaceCheckRead_elsewhere [of env thread loc "expandRecord w" c _ _ loc']
    show ?thesis by (fastforce simp: read_entry_def Let_def bindR_Inr_iff)
  next
    case False
    with Short assms show ?thesis
      by (auto simp: read_entry_def Let_def bindR_Inr_iff same_verdict_def reportDataRace_def
          split: if_splits)
  qed
qed

lemma write_entry_elsewhere:
  assumes "write_entry env thread loc c s = Inr (race, s', vals)"
  shows "\<exists>race'. write_entry env thread loc' c s = Inr (race', s', vals) \<and> same_verdict env race race'"
proof (cases s)
  case (Full r)
  with assms fullRaceCheckWrite_elsewhere [of env thread loc r c _ _ loc'] show ?thesis
    by (fastforce simp: write_entry_def bindR_Inr_iff)
next
  case (Short w)
  show ?thesis
  proof (cases "too_large thread (getClock c thread)")
    case True
    with Short assms fullRaceCheckWrite_elsewhere [of env thread loc "expandRecord w" c _ _ loc']
    show ?thesis by (fastforce simp: write_entry_def Let_def bindR_Inr_iff)
  next
    case False
    with Short assms show ?thesis
      by (auto simp: write_entry_def Let_def same_verdict_def reportDataRace_def)
  qed
qed

interpretation read_check: entry_check read_entry
proof
  show "\<exists>race s' vals. read_entry env thread loc c s = Inr (race, s', vals) \<and> shadow_ok s'"
    if "shadow_ok s" for s env thread loc c
    using read_entry_correct [OF that, of env thread loc c] by blast
qed (use read_entry_vals read_entry_elsewhere in blast)+

interpretation write_check: entry_check write_entry
proof
  show "\<exists>race s' vals. write_entry env thread loc c s = Inr (race, s', vals) \<and> shadow_ok s'"
    if "shadow_ok s" for s env thread loc c
    using write_entry_correct [OF that, of env thread loc c] by blast
qed (use write_entry_vals write_entry_elsewhere in blast)+

lemma drivers:
  "raceCheckRead_otherIt = other_it read_entry" "raceCheckRead_firstIt = first_it read_entry"
  "raceCheckWrite_otherIt = other_it write_entry" "raceCheckWrite_firstIt = first_it write_entry"
  by (auto simp: fun_eq_iff raceCheckRead_otherIt_def raceCheckWrite_otherIt_def other_it_def
      raceCheckRead_firstIt_def raceCheckWrite_firstIt_def first_it_def)

lemma other_it_elsewhere:
  assumes "other_it check env thread loc d = Inr d'" "p \<noteq> entry_of loc"
  shows "deref (root d') p = deref (root d) p"
proof -
  obtain rt q where l: "lookupAddressEntry loc (root d) = (rt, q)" by (rule prod.exhaust)
  then have rt: "deref rt = deref (root d)" "q = entry_of loc"
    using deref_lookup [of loc "root d"] snd_lookup [of loc "root d"] by (metis ext fst_conv snd_conv)+
  with l assms show ?thesis
    by (auto simp: other_it_def bindR_Inr_iff split: option.splits)
qed

lemma lookup_entry:
  obtains rt where "lookupAddressEntry loc (root d) = (rt, entry_of loc)" "deref rt = deref (root d)"
proof -
  obtain rt q where l: "lookupAddressEntry loc (root d) = (rt, q)" by (rule prod.exhaust)
  then have rt: "deref rt = deref (root d)" "q = entry_of loc"
    using deref_lookup [of loc "root d"] snd_lookup [of loc "root d"] by (metis ext fst_conv snd_conv)+
  show ?thesis by (rule that [of rt]) (use l rt in simp_all)
qed

section \<open>Sequences of operations\<close>

text \<open>Every call of the detector, with its thread, address and environment.\<close>

datatype race_op =
    Op_read8 | Op_read16 | Op_read32 | Op_read64 | Op_write8 | Op_write16 | Op_write32 | Op_write64
  | Op_read_block "64 word" | Op_write_block "64 word" | Op_atomic_read | Op_atomic_write
  | Op_record_write | Op_record_calloc nat | Op_set_atomic

fun run_race_op :: "race_op \<times> race_env \<times> nat \<times> 64 word \<Rightarrow> detector \<Rightarrow> detector res" where
  "run_race_op (Op_read8, env, t, loc) d = raceCheckRead8 env t loc d"
| "run_race_op (Op_read16, env, t, loc) d = raceCheckRead16 env t loc d"
| "run_race_op (Op_read32, env, t, loc) d = raceCheckRead32 env t loc d"
| "run_race_op (Op_read64, env, t, loc) d = raceCheckRead64 env t loc d"
| "run_race_op (Op_write8, env, t, loc) d = raceCheckWrite8 env t loc d"
| "run_race_op (Op_write16, env, t, loc) d = raceCheckWrite16 env t loc d"
| "run_race_op (Op_write32, env, t, loc) d = raceCheckWrite32 env t loc d"
| "run_race_op (Op_write64, env, t, loc) d = raceCheckWrite64 env t loc d"
| "run_race_op (Op_read_block sz, env, t, loc) d = raceCheckReadMemop env t loc sz d"
| "run_race_op (Op_write_block sz, env, t, loc) d = raceCheckWriteMemop env t loc sz d"
| "run_race_op (Op_atomic_read, env, t, loc) d = Inr (atomraceCheckRead env t loc d)"
| "run_race_op (Op_atomic_write, env, t, loc) d = atomraceCheckWrite env t loc d"
| "run_race_op (Op_record_write, env, t, loc) d = recordWrite env t loc d"
| "run_race_op (Op_record_calloc n, env, t, loc) d = recordCalloc env t loc n d"
| "run_race_op (Op_set_atomic, env, t, loc) d = Inr (setAtomicStoreFlag loc d)"

text \<open>The recording calls need a clock vector; the block checks need a size below \<open>2 ^ 32\<close>.\<close>

fun op_allowed :: "race_op \<times> race_env \<times> nat \<times> 64 word \<Rightarrow> bool" where
  "op_allowed (Op_record_write, env, t, loc) = (env_cv env t \<noteq> None)"
| "op_allowed (Op_record_calloc n, env, t, loc) = (env_cv env t \<noteq> None)"
| "op_allowed (Op_read_block sz, env, t, loc) = (unat sz < 2 ^ 32)"
| "op_allowed (Op_write_block sz, env, t, loc) = (unat sz < 2 ^ 32)"
| "op_allowed _ = True"

lemma wide_checks:
  assumes "detector_ok d"
  shows "raceCheckRead16 env t loc d = foldR (\<lambda>j. raceCheckRead8 env t (loc + of_nat j)) [0..<2] d"
    "raceCheckRead32 env t loc d = foldR (\<lambda>j. raceCheckRead8 env t (loc + of_nat j)) [0..<4] d"
    "raceCheckRead64 env t loc d = foldR (\<lambda>j. raceCheckRead8 env t (loc + of_nat j)) [0..<8] d"
    "raceCheckWrite16 env t loc d = foldR (\<lambda>j. raceCheckWrite8 env t (loc + of_nat j)) [0..<2] d"
    "raceCheckWrite32 env t loc d = foldR (\<lambda>j. raceCheckWrite8 env t (loc + of_nat j)) [0..<4] d"
    "raceCheckWrite64 env t loc d = foldR (\<lambda>j. raceCheckWrite8 env t (loc + of_nat j)) [0..<8] d"
proof -
  have r: "raceCheckRead8 = other_it read_entry" "raceCheckWrite8 = other_it write_entry"
    by (auto simp: fun_eq_iff raceCheckRead8_def raceCheckWrite8_def drivers)
  have l: "[0..<2] = [0, 1]" "[0..<4] = [0, 1, 2, 3]" "[0..<8] = [0, 1, 2, 3, 4, 5, 6, 7::nat]"
    by (simp_all add: upt_rec)
  note wide = read_check.wide_loop [OF assms] write_check.wide_loop [OF assms]
  have r16: "raceCheckRead16 env t loc d = bindR (first_it read_entry env t loc d) (\<lambda>(d1, p, old, new).
      if CHECKBOUNDARY loc 1 then spread (other_it read_entry env t) loc p old new [1] d1
      else foldR (\<lambda>j. other_it read_entry env t (loc + of_nat j)) [1] d1)"
    unfolding raceCheckRead16_def drivers
    by (rule arg_cong2 [where f = bindR]) (auto simp: fun_eq_iff bindR_def split: sum.split)
  have w16: "raceCheckWrite16 env t loc d = bindR (first_it write_entry env t loc d) (\<lambda>(d1, p, old, new).
      if CHECKBOUNDARY loc 1 then spread (other_it write_entry env t) loc p old new [1] d1
      else foldR (\<lambda>j. other_it write_entry env t (loc + of_nat j)) [1] d1)"
    unfolding raceCheckWrite16_def drivers
    by (rule arg_cong2 [where f = bindR]) (auto simp: fun_eq_iff bindR_def split: sum.split)
  show "raceCheckRead16 env t loc d = foldR (\<lambda>j. raceCheckRead8 env t (loc + of_nat j)) [0..<2] d"
    unfolding r16 r l by (subst wide(1)) simp_all
  show "raceCheckWrite16 env t loc d = foldR (\<lambda>j. raceCheckWrite8 env t (loc + of_nat j)) [0..<2] d"
    unfolding w16 r l by (subst wide(2)) simp_all
  show "raceCheckRead32 env t loc d = foldR (\<lambda>j. raceCheckRead8 env t (loc + of_nat j)) [0..<4] d"
    unfolding raceCheckRead32_def drivers r l by (subst wide(1)) simp_all
  show "raceCheckRead64 env t loc d = foldR (\<lambda>j. raceCheckRead8 env t (loc + of_nat j)) [0..<8] d"
    unfolding raceCheckRead64_def drivers r l by (subst wide(1)) simp_all
  show "raceCheckWrite32 env t loc d = foldR (\<lambda>j. raceCheckWrite8 env t (loc + of_nat j)) [0..<4] d"
    unfolding raceCheckWrite32_def drivers r l by (subst wide(2)) simp_all
  show "raceCheckWrite64 env t loc d = foldR (\<lambda>j. raceCheckWrite8 env t (loc + of_nat j)) [0..<8] d"
    unfolding raceCheckWrite64_def drivers r l by (subst wide(2)) simp_all
qed

lemma bytes_total:
  assumes "detector_ok d"
  shows "\<exists>d'. foldR (\<lambda>j. raceCheckRead8 env t (loc + of_nat j)) ks d = Inr d' \<and> detector_ok d'"
    "\<exists>d'. foldR (\<lambda>j. raceCheckWrite8 env t (loc + of_nat j)) ks d = Inr d' \<and> detector_ok d'"
  by (rule foldR_invariant [where I = detector_ok, OF assms],
      simp add: raceCheckRead8_def raceCheckWrite8_def drivers read_check.other_total write_check.other_total)+

lemma record_entry_ok: "shadow_ok s \<Longrightarrow> shadow_ok (record_entry t c s)"
proof (cases s)
  case (Full r)
  assume "shadow_ok s"
  with Full show ?thesis by (auto simp: record_entry_def fullRecordWrite_def rec_ok_def)
next
  case (Short w)
  have "rec_ok (fullRecordWrite t (expandRecord w) c)"
    using expandRecord_facts(1) [of w] by (auto simp: fullRecordWrite_def rec_ok_def)
  with Short show ?thesis using encode_small(3) by (auto simp: record_entry_def Let_def)
qed

lemma ok_assign: "detector_ok d \<Longrightarrow> deref rt = deref (root d) \<Longrightarrow> shadow_ok s \<Longrightarrow>
    detector_ok (d\<lparr>root := assign rt p s\<rparr>)"
  by (simp add: detector_ok_def)

lemma ok_report [simp]: "detector_ok (report r d) = detector_ok d"
  by (simp add: detector_ok_def)

lemma recordCalloc_total:
  "detector_ok d \<Longrightarrow> env_cv env t \<noteq> None \<Longrightarrow> \<exists>d'. recordCalloc env t loc n d = Inr d' \<and> detector_ok d'"
proof (induction env t loc n d rule: recordCalloc.induct)
  case (2 env t loc n d)
  then obtain c where c: "env_cv env t = Some c" by auto
  obtain rt where l: "lookupAddressEntry loc (root d) = (rt, entry_of loc)" "deref rt = deref (root d)"
    by (rule lookup_entry)
  note ok = ok_assign [OF 2(2) l(2)]
  have s: "shadow_ok (deref rt (entry_of loc))" using 2(2) l(2) by (simp add: detector_ok_def)
  show ?case
  proof (cases "deref rt (entry_of loc)")
    case (Full r)
    with s have "shadow_ok (Full (fullRecordWriteNonAtomic t r c))"
      by (auto simp: fullRecordWriteNonAtomic_def rec_ok_def)
    with ok l c Full show ?thesis by simp
  next
    case (Short w)
    show ?thesis
    proof (cases "too_large t (getClock c t)")
      case True
      have "shadow_ok (Full (fullRecordWriteNonAtomic t (expandRecord w) c))"
        using expandRecord_facts(1) [of w] by (auto simp: fullRecordWriteNonAtomic_def rec_ok_def)
      with ok l c Short True show ?thesis by simp
    next
      case False
      then have "shadow_ok (Short (ENCODEOP 0 0 t (getClock c t)))" by (simp add: encode_small)
      with 2(1) [OF _ refl c Short refl False] 2(3) ok l c Short False show ?thesis by simp
    qed
  qed
qed simp

lemma write_memop_total:
  "detector_ok d \<Longrightarrow> \<exists>d'. write_memop_loop env t loc c n already d = Inr d' \<and> detector_ok d' \<and>
     (\<forall>p. p \<noteq> entry_of loc \<longrightarrow> deref (root d') p = deref (root d) p)"
proof (induction n arbitrary: already d)
  case (Suc n)
  obtain rt where l: "lookupAddressEntry loc (root d) = (rt, entry_of loc)" "deref rt = deref (root d)"
    by (rule lookup_entry)
  have "shadow_ok (deref rt (entry_of loc))" using Suc.prems l(2) by (simp add: detector_ok_def)
  from write_check.total [OF this, of env t loc c] obtain race s' vals where
    w: "write_entry env t loc c (deref rt (entry_of loc)) = Inr (race, s', vals)" "shadow_ok s'" by blast
  let ?d = "d\<lparr>root := assign rt (entry_of loc) s'\<rparr>"
  have ok: "detector_ok ?d" by (rule ok_assign [OF Suc.prems l(2) w(2)])
  show ?case
  proof (cases "race \<noteq> None \<and> \<not> already")
    case True
    from Suc.IH [of "report race ?d" True] ok l w True show ?thesis by (auto simp: Let_def)
  next
    case False
    from Suc.IH [of ?d already] ok l w False show ?thesis by (auto simp: Let_def)
  qed
qed simp

lemma read_memop_total:
  "detector_ok d \<Longrightarrow> \<exists>d'. read_memop_loop env t loc c n d = Inr d' \<and> detector_ok d' \<and>
     (\<forall>p. p \<noteq> entry_of loc \<longrightarrow> deref (root d') p = deref (root d) p)"
proof (induction n arbitrary: d)
  case (Suc n)
  obtain rt where l: "lookupAddressEntry loc (root d) = (rt, entry_of loc)" "deref rt = deref (root d)"
    by (rule lookup_entry)
  have "shadow_ok (deref rt (entry_of loc))" using Suc.prems l(2) by (simp add: detector_ok_def)
  from read_check.total [OF this, of env t loc c] obtain race s' vals where
    w: "read_entry env t loc c (deref rt (entry_of loc)) = Inr (race, s', vals)" "shadow_ok s'" by blast
  let ?d = "report race (d\<lparr>root := assign rt (entry_of loc) s'\<rparr>)"
  have ok: "detector_ok ?d" using ok_assign [OF Suc.prems l(2) w(2)] by simp
  from Suc.IH [OF ok] l w show ?case by auto
qed simp

lemma run_race_op_total:
  assumes "detector_ok d" "op_allowed x"
  shows "\<exists>d'. run_race_op x d = Inr d' \<and> detector_ok d'"
proof -
  obtain op env t loc where x: "x = (op, env, t, loc)" by (cases x)
  obtain rt where l: "lookupAddressEntry loc (root d) = (rt, entry_of loc)" "deref rt = deref (root d)"
    by (rule lookup_entry)
  have s: "shadow_ok (deref rt (entry_of loc))" using assms(1) l(2) by (simp add: detector_ok_def)
  have ok: "detector_ok (d\<lparr>root := rt\<rparr>)" using assms(1) l(2) by (simp add: detector_ok_def)
  note wide = wide_checks [OF assms(1)] bytes_total [OF assms(1)]
  show ?thesis
  proof (cases op)
    case Op_read8
    then show ?thesis using x assms(1)
      by (simp add: raceCheckRead8_def drivers read_check.other_total)
  next
    case Op_write8
    then show ?thesis using x assms(1)
      by (simp add: raceCheckWrite8_def drivers write_check.other_total)
  next
    case (Op_read_block sz)
    then show ?thesis using x assms read_memop_total [OF assms(1)]
      by (cases "env_cv env t") (simp add: raceCheckReadMemop_def, fastforce simp: raceCheckReadMemop_def)
  next
    case (Op_write_block sz)
    then show ?thesis using x assms write_memop_total [OF assms(1)]
      by (cases "env_cv env t") (simp add: raceCheckWriteMemop_def, fastforce simp: raceCheckWriteMemop_def)
  next
    case Op_atomic_read
    then show ?thesis using x l ok
      by (auto simp: atomraceCheckRead_def Let_def split: option.split shadow.split)
  next
    case Op_atomic_write
    show ?thesis
    proof (cases "env_cv env t")
      case None
      with Op_atomic_write x l ok show ?thesis by (simp add: atomraceCheckWrite_def)
    next
      case (Some c)
      from atomic_write_entry_correct [OF s, of env t loc c] obtain race s' where
        "atomic_write_entry env t loc c (deref rt (entry_of loc)) = Inr (race, s')" "shadow_ok s'"
        by blast
      with Some Op_atomic_write x l ok_assign [OF assms(1) l(2)] show ?thesis
        by (simp add: atomraceCheckWrite_def)
    qed
  next
    case Op_record_write
    with x assms(2) obtain c where c: "env_cv env t = Some c" by auto
    with x l ok_assign [OF assms(1) l(2) record_entry_ok [OF s, of t c], of "entry_of loc"]
      Op_record_write show ?thesis by (simp add: recordWrite_def)
  next
    case (Op_record_calloc n)
    with x assms recordCalloc_total show ?thesis by simp
  next
    case Op_set_atomic
    have "shadow_ok (case deref rt (entry_of loc) of
        Short w \<Rightarrow> if ISSHORTRECORD w then Short (w OR ATOMICMASK)
                   else Short (ATOMICMASK OR ENCODEOP 0 0 0 0)
      | Full r \<Rightarrow> Full (r\<lparr>isAtomic := True\<rparr>))"
      using s decode_encode(5) [of 0 0 0 0] decode_atomic(6) [of "ENCODEOP 0 0 0 0"]
      by (auto simp: rec_ok_def or.commute split: shadow.split)
    with Op_set_atomic x l ok_assign [OF assms(1) l(2)] show ?thesis
      by (simp add: setAtomicStoreFlag_def)
  qed (use x wide in simp_all)
qed

lemma init_ok [simp]: "detector_ok initRaceDetector"
  by (simp add: detector_ok_def) (auto simp: initRaceDetector_def deref.simps split_paired_All)

section \<open>Properties\<close>

text \<open>A run with four threads, for the examples: thread 1 knows clock 5 of itself and 2 of
  thread 0; thread 2 knows only itself.\<close>

definition env_example :: race_env where
  "env_example = \<lparr>env_cv = (\<lambda>t. if t = 1 then Some [2, 5] else if t = 2 then Some [0, 0, 7] else None),
     env_parent = (\<lambda>t. t), env_frames = [1, 2, 3, 4]\<rparr>"

text \<open>C20: The packed word of a shadow entry keeps its five fields: for every thread id and clock
  that the guards \<open>MAXTHREADID\<close> and \<open>MAXWRITEVECTOR\<close> admit, each decoding macro returns what
  \<open>ENCODEOP\<close> stored, with and without the atomic bit, and the word is a short record.\<close>

theorem packed_word_roundtrip:
  assumes "\<not> too_large rt rc" "\<not> too_large wt wc"
  shows "\<forall>w \<in> {ENCODEOP rt rc wt wc, ENCODEOP rt rc wt wc OR ATOMICMASK}.
      RDTHREADID w = rt \<and> READVECTOR w = rc \<and> WRTHREADID w = wt \<and> WRITEVECTOR w = wc \<and>
      ISSHORTRECORD w \<and> (is_atomic_word w \<longleftrightarrow> w \<noteq> ENCODEOP rt rc wt wc)"
proof -
  have "rt < 64" "wt < 64" "unat rc < 2 ^ 25" "unat wc < 2 ^ 25"
    using assms by (auto simp: not_too_large)
  note d = decode_encode [OF this]
  have "is_atomic_word (ENCODEOP rt rc wt wc OR ATOMICMASK)" by simp
  then have "ENCODEOP rt rc wt wc OR ATOMICMASK \<noteq> ENCODEOP rt rc wt wc" using d(6) by metis
  with d show ?thesis by simp
qed

theorem packed_word_roundtrip_witness:
  "RDTHREADID (ENCODEOP 3 1000 62 77) = 3 \<and> WRITEVECTOR (ENCODEOP 3 1000 62 77) = 77"
  using packed_word_roundtrip [of 3 1000 62 77] by (simp add: not_too_large)

text \<open>C19: A write check reports a race exactly when some recorded read or the last write of
  the byte is by another thread and not before the writer's clock, whether the entry is packed or
  a full record; it never fails, and the new entry holds the write alone, as non-atomic.\<close>

theorem write_check_exact:
  assumes "shadow_ok s"
  shows "\<exists>race s' vals. write_entry env thread loc c s = Inr (race, s', vals) \<and> shadow_ok s' \<and>
    cell_reads s' = {} \<and> cell_write s' = (thread, getClock c thread) \<and> \<not> cell_atomic s' \<and>
    (race \<noteq> None \<longleftrightarrow> (\<exists>(t, k) \<in> cell_reads s. clock_may_race c thread k t) \<or>
      clock_may_race c thread (snd (cell_write s)) (fst (cell_write s)))"
  by (rule write_entry_correct [OF assms])

theorem write_check_exact_witness:
  "\<exists>r s' v. write_entry env_example 2 64 [0, 0, 7] (Short (ENCODEOP 1 5 0 0)) = Inr (Some r, s', v)"
proof -
  let ?s = "Short (ENCODEOP 1 5 0 0)"
  have "\<not> too_large 1 5" by (simp add: not_too_large)
  have d: "RDTHREADID (ENCODEOP 1 5 0 0) = 1" "READVECTOR (ENCODEOP 1 5 0 0) = 5"
    "ISSHORTRECORD (ENCODEOP 1 5 0 0)"
    using decode_encode [of 1 0 5 0] by simp_all
  then have "(1, 5) \<in> cell_reads ?s" "clock_may_race [0, 0, 7] 2 5 1"
    by (simp_all add: clock_may_race_def getClock_def)
  moreover have "shadow_ok ?s" using d by simp
  ultimately show ?thesis using write_check_exact [of ?s env_example 2 64 "[0, 0, 7]"] by blast
qed

text \<open>C18: A read check keeps, of the recorded reads, exactly those that are not subsumed by the
  reader's clock, adds its own, keeps the last write and its atomicity, and reports a race
  exactly when that write races; whether the entry is packed, gets expanded, or is a full record
  whose vector of reads is compacted and grown in place, no array bound is exceeded.\<close>

theorem read_check_exact:
  assumes "shadow_ok s"
  shows "\<exists>race s' vals. read_entry env thread loc c s = Inr (race, s', vals) \<and> shadow_ok s' \<and>
    cell_write s' = cell_write s \<and> cell_atomic s' = cell_atomic s \<and>
    cell_reads s' = {(t, k) \<in> cell_reads s. clock_may_race c thread k t} \<union>
      {(t, k). (t, k) = (thread, getClock c thread) \<and> k \<noteq> 0} \<and>
    (race \<noteq> None \<longleftrightarrow> clock_may_race c thread (snd (cell_write s)) (fst (cell_write s)))"
proof -
  from read_entry_correct [OF assms, of env thread loc c] obtain s' vals where
    r: "read_entry env thread loc c s =
      Inr (write_race env thread loc False c (snd (cell_write s)) (fst (cell_write s)), s', vals)"
    "shadow_ok s'" "cell_write s' = cell_write s" "cell_atomic s' = cell_atomic s"
    "cell_reads s' = {x \<in> cell_reads s. racy c thread x} \<union>
      {(t, k). (t, k) = (thread, getClock c thread) \<and> k \<noteq> 0}" by blast
  have "{x \<in> cell_reads s. racy c thread x} = {(t, k) \<in> cell_reads s. clock_may_race c thread k t}"
    by auto
  with r show ?thesis by (intro exI conjI) (auto simp: write_race_def)
qed

theorem read_check_exact_witness:
  "\<exists>race s' v. read_entry env_example 2 64 [0, 0, 7] (Short (ENCODEOP 1 5 0 0)) = Inr (race, s', v) \<and>
     (1, 5) \<in> cell_reads s' \<and> (2, 7) \<in> cell_reads s'"
proof -
  let ?s = "Short (ENCODEOP 1 5 0 0)"
  have d: "RDTHREADID (ENCODEOP 1 5 0 0) = 1" "READVECTOR (ENCODEOP 1 5 0 0) = 5"
    "ISSHORTRECORD (ENCODEOP 1 5 0 0)"
    using decode_encode [of 1 0 5 0] by simp_all
  then have "(1, 5) \<in> cell_reads ?s" "clock_may_race [0, 0, 7] 2 5 1" "getClock [0, 0, 7] 2 = 7"
    by (simp_all add: clock_may_race_def getClock_def)
  moreover have "shadow_ok ?s" using d by simp
  ultimately show ?thesis using read_check_exact [of ?s env_example 2 64 "[0, 0, 7]"] by fastforce
qed

text \<open>C16: Dropping subsumed reads loses no race.  Suppose a thread reads and a later write
  check runs with a clock vector that either belongs to the same thread or has seen the reader
  beyond its clock only together with everything the reader had seen.  Then the write check
  reports a race exactly when it would against all the earlier reads, the new read and the last
  write.\<close>

theorem dropped_reads_are_subsumed:
  assumes "shadow_ok s" "read_entry env th loc c s = Inr (race, s1, vals)"
    and "getClock c th \<noteq> 0" "\<forall>k. (th, k) \<in> cell_reads s \<longrightarrow> k \<le> getClock c th"
    and "t = th \<or> getClock c th < getClock d th \<longrightarrow> (\<forall>u. getClock c u \<le> getClock d u)"
    and "write_entry env' t loc' d s1 = Inr (race', s2, vals')"
  shows "race' \<noteq> None \<longleftrightarrow>
    (\<exists>(u, k) \<in> cell_reads s \<union> {(th, getClock c th)}. clock_may_race d t k u) \<or>
    clock_may_race d t (snd (cell_write s)) (fst (cell_write s))"
proof -
  from read_entry_correct [OF assms(1), of env th loc c] assms(2,3) have
    s1: "shadow_ok s1" "cell_write s1 = cell_write s"
      "cell_reads s1 = {x \<in> cell_reads s. racy c th x} \<union> {(th, getClock c th)}" by auto
  from write_entry_correct [OF s1(1), of env' t loc' d] assms(6) have
    w: "race' \<noteq> None \<longleftrightarrow> (\<exists>x \<in> cell_reads s1. racy d t x) \<or>
      clock_may_race d t (snd (cell_write s1)) (fst (cell_write s1))" by auto
  have drop: "clock_may_race d t (getClock c th) th"
    if "(u, k) \<in> cell_reads s" "\<not> clock_may_race c th k u" "clock_may_race d t k u" for u k
  proof (cases "u = th")
    case True
    then have "k \<le> getClock c th" using assms(4) that(1) by blast
    with that(3) True assms(3) show ?thesis by (auto simp: clock_may_race_def)
  next
    case False
    then have "getClock d u < getClock c u"
      using that(2,3) by (auto simp: clock_may_race_def not_le)
    then have "\<not> (\<forall>v. getClock c v \<le> getClock d v)" by (auto simp: not_le)
    with assms(5) have "t \<noteq> th" "getClock d th \<le> getClock c th" by (auto simp: not_less)
    with assms(3) show ?thesis by (simp add: clock_may_race_def)
  qed
  show ?thesis unfolding w s1(2,3) using drop by auto
qed

theorem dropped_reads_are_subsumed_witness:
  "\<exists>race s1 v race' s2 v'. read_entry env_example 1 64 [2, 5] (Short (ENCODEOP 0 1 0 0)) = Inr (race, s1, v) \<and>
     write_entry env_example 2 64 [0, 0, 7] s1 = Inr (race', s2, v') \<and> race' \<noteq> None"
proof -
  let ?s = "Short (ENCODEOP 0 1 0 0)"
  have d: "RDTHREADID (ENCODEOP 0 1 0 0) = 0" "READVECTOR (ENCODEOP 0 1 0 0) = 1"
    "ISSHORTRECORD (ENCODEOP 0 1 0 0)"
    using decode_encode [of 0 0 1 0] by simp_all
  then have s: "shadow_ok ?s" by simp
  from read_entry_correct [OF s, of env_example 1 64 "[2, 5]"] obtain race s1 v where
    r: "read_entry env_example 1 64 [2, 5] ?s = Inr (race, s1, v)" "shadow_ok s1" by blast
  from write_entry_correct [OF r(2), of env_example 2 64 "[0, 0, 7]"] obtain race' s2 v' where
    w: "write_entry env_example 2 64 [0, 0, 7] s1 = Inr (race', s2, v')" by blast
  have "getClock [2, 5] 1 = 5" "getClock [0, 0, 7] 1 = 0" "clock_may_race [0, 0, 7] 2 5 1"
    by (simp_all add: getClock_def clock_may_race_def)
  with dropped_reads_are_subsumed [OF s r(1) _ _ _ w] d have "race' \<noteq> None" by auto
  with r w show ?thesis by blast
qed

text \<open>C17: From the initial detector, any sequence of calls of its entry points runs without a
  fault: no array of reads is accessed out of bounds and every shadow entry stays a zero word, a
  packed word or a well-formed record.\<close>

theorem race_detector_never_faults:
  assumes "\<forall>x \<in> set ops. op_allowed x"
  shows "\<exists>d. foldR run_race_op ops initRaceDetector = Inr d \<and> detector_ok d"
  by (rule foldR_invariant [where I = detector_ok]) (use assms run_race_op_total in auto)

theorem race_detector_never_faults_witness:
  "\<exists>d. foldR run_race_op [(Op_read64, env_example, 1, 64), (Op_write_block 8, env_example, 2, 65)]
     initRaceDetector = Inr d \<and> detector_ok d"
  by (rule race_detector_never_faults) simp

text \<open>C15: The wide checks are the byte-wise checks: the fast path of
  \<open>raceCheckRead64/32/16\<close> and \<open>raceCheckWrite64/32/16\<close>, which copies the first byte's new word over equal
  neighbours, leaves the same shadow memory and the same reports as checking every byte alone,
  also across a table boundary.\<close>

theorem wide_check_is_bytewise:
  assumes "detector_ok d"
  shows "raceCheckRead16 env t loc d = foldR (\<lambda>j. raceCheckRead8 env t (loc + of_nat j)) [0..<2] d \<and>
    raceCheckRead32 env t loc d = foldR (\<lambda>j. raceCheckRead8 env t (loc + of_nat j)) [0..<4] d \<and>
    raceCheckRead64 env t loc d = foldR (\<lambda>j. raceCheckRead8 env t (loc + of_nat j)) [0..<8] d \<and>
    raceCheckWrite16 env t loc d = foldR (\<lambda>j. raceCheckWrite8 env t (loc + of_nat j)) [0..<2] d \<and>
    raceCheckWrite32 env t loc d = foldR (\<lambda>j. raceCheckWrite8 env t (loc + of_nat j)) [0..<4] d \<and>
    raceCheckWrite64 env t loc d = foldR (\<lambda>j. raceCheckWrite8 env t (loc + of_nat j)) [0..<8] d"
  using wide_checks [OF assms] by blast

theorem wide_check_is_bytewise_witness:
  "raceCheckWrite64 env_example 1 65532 initRaceDetector
    = foldR (\<lambda>j. raceCheckWrite8 env_example 1 (65532 + of_nat j)) [0..<8] initRaceDetector"
  using wide_check_is_bytewise [of initRaceDetector env_example 1 65532] by simp

text \<open>The memory-block checks never advance their location: whatever the size, only the
  first byte's entry can change, so the other bytes of the block are neither checked nor
  recorded.\<close>

theorem block_checks_touch_one_byte:
  assumes "detector_ok d" "unat sz < 2 ^ 32" "p \<noteq> entry_of loc"
  shows "(\<exists>d'. raceCheckWriteMemop env t loc sz d = Inr d' \<and> deref (root d') p = deref (root d) p) \<and>
    (\<exists>d'. raceCheckReadMemop env t loc sz d = Inr d' \<and> deref (root d') p = deref (root d) p)"
proof (cases "env_cv env t")
  case None
  then show ?thesis by (simp add: raceCheckWriteMemop_def raceCheckReadMemop_def)
next
  case (Some c)
  with assms write_memop_total [OF assms(1), of env t loc c "unat sz" False]
    read_memop_total [OF assms(1), of env t loc c "unat sz"]
  show ?thesis by (auto simp: raceCheckWriteMemop_def raceCheckReadMemop_def)
qed

theorem block_checks_touch_one_byte_witness:
  "\<exists>d'. raceCheckWriteMemop env_example 1 64 8 initRaceDetector = Inr d' \<and>
     deref (root d') (entry_of 65) = Short 0"
proof -
  have "entry_of 65 \<noteq> entry_of 64" by (simp add: entry_of_nat)
  from block_checks_touch_one_byte [OF init_ok _ this, of 8 env_example 1]
  show ?thesis by (simp add: initRaceDetector_def deref.simps entry_of_def)
qed

text \<open>Two addresses share a shadow entry exactly when they agree on their low 48 bits, and
  looking one up changes the contents of no entry, whether or not tables are allocated.\<close>

theorem shadow_lookup_injective:
  "(snd (lookupAddressEntry a rt) = snd (lookupAddressEntry b rt) \<longleftrightarrow> take_bit 48 a = take_bit 48 b) \<and>
   deref (fst (lookupAddressEntry a rt)) p = deref rt p"
proof -
  have e: "entry_of a = entry_of b \<longleftrightarrow> (\<forall>n < 48. bit a n = bit b n)"
  proof -
    have 1: "(ucast (drop_bit k a) :: 16 word) = ucast (drop_bit k b) \<longleftrightarrow>
        (\<forall>n < 16. bit a (k + n) = bit b (k + n))" for k
      by (auto simp: bit_eq_iff [where 'a = "16 word"] bit_unsigned_iff bit_drop_bit_eq)
    have 2: "(\<forall>n < 48. P n) \<longleftrightarrow> (\<forall>n < 16. P (32 + n)) \<and> (\<forall>n < 16. P (16 + n)) \<and> (\<forall>n < 16. P (0 + n))"
      for P :: "nat \<Rightarrow> bool"
    proof (intro iffI allI impI)
      fix n assume "(\<forall>n < 16. P (32 + n)) \<and> (\<forall>n < 16. P (16 + n)) \<and> (\<forall>n < 16. P (0 + n))" "n < (48::nat)"
      then show "P n" by (cases "n < 16"; cases "n < 32") (auto dest: spec [of _ "n - 32"] spec [of _ "n - 16"])
    qed auto
    show ?thesis unfolding 2 [where P = "\<lambda>n. bit a n = bit b n"]
      by (simp add: entry_of_def 1 [of 32] 1 [of 16] 1 [of 0, simplified])
  qed
  have "take_bit 48 a = take_bit 48 b \<longleftrightarrow> (\<forall>n < 48. bit a n = bit b n)"
  proof
    assume "take_bit 48 a = take_bit 48 b"
    then show "\<forall>n < 48. bit a n = bit b n" by (metis bit_take_bit_iff)
  qed (auto intro!: bit_word_eqI simp: bit_take_bit_iff)
  with e show ?thesis by simp
qed

text \<open>The race set's \<open>race_equals\<close> is an equivalence that \<open>race_hash\<close> respects, so the hash
  set never keeps two reports with the same stack beyond the first frames.\<close>

theorem race_hash_respects_equals:
  "race_equals r r \<and> (race_equals r q \<longleftrightarrow> race_equals q r) \<and>
   (race_equals r q \<longrightarrow> race_equals q z \<longrightarrow> race_equals r z) \<and>
   (race_equals r q \<longrightarrow> race_hash r = race_hash q)"
  by (auto simp: race_equals_def race_hash_def split: if_splits)

theorem race_hash_respects_equals_witness:
  "race_hash (reportDataRace env_example 0 1 True 1 True 64)
     = race_hash (reportDataRace env_example 2 3 False 1 False 65)"
  using race_hash_respects_equals [of "reportDataRace env_example 0 1 True 1 True 64"
      "reportDataRace env_example 2 3 False 1 False 65"]
  by (simp add: race_equals_def reportDataRace_def)

end
