(* ===== verification/Snap_Vectors.thy ===== *)
theory Snap_Vectors
  imports Weazer_Prelude
begin

text \<open>
  \<open>SnapVector\<close> of \<open>stl-model.h\<close>, the vector used all over PCTWM: a size and an array whose
  length is the capacity.  No access is checked against the size; here every access is checked
  against the capacity and is \<open>Out_of_range\<close> beyond it.  \<open>z\<close> is the all-zero value that
  \<open>bzero\<close> writes (and that stands for the content of fresh memory, which no operation reads
  before writing).  Sizes are \<open>uint\<close>: the doubling and the decrement wrap at \<open>2 ^ 32\<close>.
\<close>

section \<open>Operations\<close>

record 'a snapvec =
  sv_size :: nat
  sv_array :: "'a list"

definition VECTOR_DEFCAP :: nat where "VECTOR_DEFCAP = 8"

definition sv_new :: "'a \<Rightarrow> nat \<Rightarrow> 'a snapvec" where
  "sv_new z cap = \<lparr>sv_size = 0, sv_array = replicate cap z\<rparr>"

definition sv_of_array :: "'a list \<Rightarrow> 'a snapvec" where
  "sv_of_array xs = \<lparr>sv_size = length xs, sv_array = xs\<rparr>"

definition sv_pop_back :: "'a snapvec \<Rightarrow> 'a snapvec" where
  "sv_pop_back v = v\<lparr>sv_size := (sv_size v + 2 ^ 32 - 1) mod 2 ^ 32\<rparr>"

definition sv_back :: "'a snapvec \<Rightarrow> 'a res" where
  "sv_back v = nthR (sv_array v) (int (sv_size v) - 1)"

text \<open>The loops of \<open>find\<close> and \<open>get_index\<close>; the last argument counts the iterations left.\<close>

fun sv_find_loop :: "'a list \<Rightarrow> 'a \<Rightarrow> nat \<Rightarrow> nat \<Rightarrow> bool res" where
  "sv_find_loop a item i 0 = Inr False"
| "sv_find_loop a item i (Suc m) = bindR (nthR a (int i)) (\<lambda>y.
     if y = item then Inr True else sv_find_loop a item (Suc i) m)"

definition sv_find :: "'a \<Rightarrow> 'a snapvec \<Rightarrow> bool res" where
  "sv_find item v = sv_find_loop (sv_array v) item 0 (sv_size v)"

fun sv_index_loop :: "'a list \<Rightarrow> 'a \<Rightarrow> nat \<Rightarrow> nat \<Rightarrow> nat res" where
  "sv_index_loop a item i 0 = Inr (2 ^ 32 - 1)"
| "sv_index_loop a item i (Suc m) = bindR (nthR a (int i)) (\<lambda>y.
     if y = item then Inr i else sv_index_loop a item (Suc i) m)"

definition sv_get_index :: "'a \<Rightarrow> 'a snapvec \<Rightarrow> nat res" where
  "sv_get_index item v = sv_index_loop (sv_array v) item 0 (sv_size v)"

definition sv_resize :: "'a \<Rightarrow> nat \<Rightarrow> 'a snapvec \<Rightarrow> 'a snapvec res" where
  "sv_resize z psize v =
     (if psize \<le> sv_size v then Inr (v\<lparr>sv_size := psize\<rparr>)
      else let a = (if psize > length (sv_array v)
                    then resize (2 * psize mod 2 ^ 32) z (sv_array v) else sv_array v)
           in if psize \<le> length a
              then Inr \<lparr>sv_size = psize,
                        sv_array = take (sv_size v) a @ replicate (psize - sv_size v) z @ drop psize a\<rparr>
              else Inl Out_of_range)"

text \<open>\<open>resize(psize, item)\<close>: when it grows, it overwrites the old elements too.\<close>

definition sv_resize_fill :: "'a \<Rightarrow> nat \<Rightarrow> 'a \<Rightarrow> 'a snapvec \<Rightarrow> 'a snapvec res" where
  "sv_resize_fill z psize item v =
     (if psize \<le> sv_size v then Inr (v\<lparr>sv_size := psize\<rparr>)
      else bindR (sv_resize z psize v) (\<lambda>w.
        Inr (w\<lparr>sv_array := replicate psize item @ drop psize (sv_array w)\<rparr>)))"

definition sv_push_back :: "'a \<Rightarrow> 'a \<Rightarrow> 'a snapvec \<Rightarrow> 'a snapvec res" where
  "sv_push_back z item v =
     (let a = (if sv_size v \<ge> length (sv_array v)
               then resize (2 * length (sv_array v) mod 2 ^ 32) z (sv_array v) else sv_array v)
      in bindR (updR a (int (sv_size v)) item) (\<lambda>a'.
         Inr \<lparr>sv_size = (sv_size v + 1) mod 2 ^ 32, sv_array = a'\<rparr>))"

definition sv_get :: "'a snapvec \<Rightarrow> int \<Rightarrow> 'a res" where
  "sv_get v i = nthR (sv_array v) i"

definition sv_at :: "'a snapvec \<Rightarrow> nat \<Rightarrow> 'a res" where
  "sv_at v i = nthR (sv_array v) (int i)"

definition sv_set :: "int \<Rightarrow> 'a \<Rightarrow> 'a snapvec \<Rightarrow> 'a snapvec res" where
  "sv_set i item v = bindR (updR (sv_array v) i item) (\<lambda>a. Inr (v\<lparr>sv_array := a\<rparr>))"

definition sv_setExpand :: "'a \<Rightarrow> nat \<Rightarrow> 'a \<Rightarrow> 'a snapvec \<Rightarrow> 'a snapvec res" where
  "sv_setExpand z i item v =
     bindR (if i \<ge> sv_size v then sv_resize z (i + 1) v else Inr v) (sv_set (int i) item)"

definition sv_insertAt :: "'a \<Rightarrow> nat \<Rightarrow> 'a \<Rightarrow> 'a snapvec \<Rightarrow> 'a snapvec res" where
  "sv_insertAt z i item v =
     bindR (sv_resize z (sv_size v + 1) v) (\<lambda>w.
     bindR (foldR (\<lambda>j u. bindR (sv_at u (j - 1)) (\<lambda>x. sv_set (int j) x u))
              (rev [i + 1..<sv_size w]) w) (sv_set (int i) item))"

definition sv_removeAt :: "'a \<Rightarrow> nat \<Rightarrow> 'a snapvec \<Rightarrow> 'a snapvec res" where
  "sv_removeAt z i v =
     bindR (foldR (\<lambda>j u. bindR (sv_at u (j + 1)) (\<lambda>x. sv_set (int j) x u))
              [i..<sv_size v - 1] v)
       (\<lambda>w. sv_resize z ((sv_size w + 2 ^ 32 - 1) mod 2 ^ 32) w)"

fun sv_remove_loop :: "'a \<Rightarrow> 'a \<Rightarrow> nat \<Rightarrow> nat \<Rightarrow> 'a snapvec \<Rightarrow> 'a snapvec res" where
  "sv_remove_loop z item i 0 v = Inr v"
| "sv_remove_loop z item i (Suc m) v = bindR (sv_at v i) (\<lambda>y.
     if y = item then sv_removeAt z i v else sv_remove_loop z item (Suc i) m v)"

definition sv_remove :: "'a \<Rightarrow> 'a \<Rightarrow> 'a snapvec \<Rightarrow> 'a snapvec res" where
  "sv_remove z item v = sv_remove_loop z item 0 (sv_size v) v"

definition sv_clear :: "'a snapvec \<Rightarrow> 'a snapvec" where
  "sv_clear v = v\<lparr>sv_size := 0\<rparr>"

section \<open>Refinement of lists\<close>

definition sv_list :: "'a snapvec \<Rightarrow> 'a list" where
  "sv_list v = take (sv_size v) (sv_array v)"

definition sv_ok :: "'a snapvec \<Rightarrow> bool" where
  "sv_ok v \<longleftrightarrow> sv_size v \<le> length (sv_array v) \<and> 0 < length (sv_array v) \<and> length (sv_array v) < 2 ^ 31"

text \<open>Room for one more element without overflow of the capacity.\<close>

definition sv_room :: "'a snapvec \<Rightarrow> bool" where
  "sv_room v \<longleftrightarrow> sv_ok v \<and> length (sv_array v) < 2 ^ 30"

lemma length_sv_list [simp]: "sv_ok v \<Longrightarrow> length (sv_list v) = sv_size v"
  by (simp add: sv_list_def sv_ok_def)

lemma sv_new_ok [simp]: "0 < cap \<Longrightarrow> cap < 2 ^ 31 \<Longrightarrow> sv_ok (sv_new z cap) \<and> sv_list (sv_new z cap) = []"
  by (simp add: sv_new_def sv_ok_def sv_list_def)

lemma sv_get_ok [simp]:
  "sv_ok v \<Longrightarrow> 0 \<le> i \<Longrightarrow> nat i < sv_size v \<Longrightarrow> sv_get v i = Inr (sv_list v ! nat i)"
  by (simp add: sv_get_def sv_ok_def sv_list_def nat_less_iff nthR_def)

lemma sv_at_ok: "sv_ok v \<Longrightarrow> i < sv_size v \<Longrightarrow> sv_at v i = Inr (sv_list v ! i)"
  by (simp add: sv_at_def sv_ok_def sv_list_def nthR_def)

lemma sv_set_ok:
  assumes "sv_ok v" "0 \<le> i" "nat i < sv_size v"
  shows "\<exists>w. sv_set i x v = Inr w \<and> sv_ok w \<and> sv_size w = sv_size v \<and>
    sv_list w = (sv_list v)[nat i := x]"
  using assms
  by (auto simp: sv_set_def sv_ok_def sv_list_def updR_def nat_less_iff take_update_swap)

lemma sv_find_loop_eq: "i + m \<le> length a \<Longrightarrow> sv_find_loop a x i m = Inr (x \<in> set (take m (drop i a)))"
proof (induction m arbitrary: i)
  case (Suc m)
  then show ?case by (auto simp: Cons_nth_drop_Suc [symmetric])
qed simp

lemma sv_find_ok [simp]: "sv_ok v \<Longrightarrow> sv_find x v = Inr (x \<in> set (sv_list v))"
  by (simp add: sv_find_def sv_find_loop_eq sv_ok_def sv_list_def)

lemma sv_resize_ok:
  assumes "sv_ok v" "n < 2 ^ 30"
  shows "\<exists>w. sv_resize z n v = Inr w \<and> sv_ok w \<and> sv_size w = n \<and> sv_list w = resize n z (sv_list v)"
proof (cases "n \<le> sv_size v")
  case True
  with assms show ?thesis
    by (auto simp: sv_resize_def sv_ok_def sv_list_def resize_def min_def)
next
  case False
  let ?a = "if n > length (sv_array v) then resize (2 * n mod 2 ^ 32) z (sv_array v) else sv_array v"
  have "n \<le> length ?a" "length ?a < 2 ^ 31" "0 < length ?a" "take (sv_size v) ?a = sv_list v"
    using assms False by (auto simp: sv_ok_def sv_list_def resize_def)
  with False assms show ?thesis
    by (auto simp: sv_resize_def Let_def sv_ok_def sv_list_def resize_def min_def)
qed

lemma sv_resize_fill_ok:
  assumes "sv_ok v" "n < 2 ^ 30" "sv_size v < n"
  shows "\<exists>w. sv_resize_fill z n x v = Inr w \<and> sv_ok w \<and> sv_size w = n \<and> sv_list w = replicate n x"
proof -
  from sv_resize_ok [OF assms(1,2), of z] obtain w where "sv_resize z n v = Inr w" "sv_ok w" "sv_size w = n"
    by blast
  with assms(3) show ?thesis by (auto simp: sv_resize_fill_def sv_ok_def sv_list_def)
qed

lemma sv_push_back_ok:
  assumes "sv_room v"
  shows "\<exists>w. sv_push_back z x v = Inr w \<and> sv_ok w \<and> sv_size w = Suc (sv_size v) \<and>
    sv_list w = sv_list v @ [x]"
proof -
  let ?a = "if sv_size v \<ge> length (sv_array v)
            then resize (2 * length (sv_array v) mod 2 ^ 32) z (sv_array v) else sv_array v"
  have a: "sv_size v < length ?a" "length ?a < 2 ^ 31" "take (sv_size v) ?a = sv_list v"
    using assms by (auto simp: sv_room_def sv_ok_def sv_list_def resize_def)
  then have "(sv_size v + 1) mod 2 ^ 32 = Suc (sv_size v)" by simp
  with a show ?thesis
    by (auto simp: sv_push_back_def Let_def sv_ok_def sv_list_def take_Suc_update updR_def)
qed

section \<open>The interface of a growing vector\<close>

locale growing_vector =
  fixes inv :: "'v \<Rightarrow> bool"
    and room :: "nat \<Rightarrow> 'v \<Rightarrow> bool"
    and abs :: "'v \<Rightarrow> 'a list"
    and push :: "'a \<Rightarrow> 'v \<Rightarrow> 'v res"
  assumes room_inv: "room n v \<Longrightarrow> inv v"
    and push: "room (Suc n) v \<Longrightarrow> \<exists>w. push x v = Inr w \<and> room n w \<and> abs w = abs v @ [x]"
begin

lemma push_list:
  "room (length xs) v \<Longrightarrow> \<exists>w. foldR push xs v = Inr w \<and> inv w \<and> abs w = abs v @ xs"
proof (induction xs arbitrary: v)
  case Nil
  then show ?case by (simp add: room_inv)
next
  case (Cons x xs)
  then obtain u where u: "push x v = Inr u" "room (length xs) u" "abs u = abs v @ [x]"
    using push [of "length xs" v x] by auto
  with Cons.IH [OF u(2)] show ?case by auto
qed

end

text \<open>\<open>SnapVector\<close> grows as long as the number of elements stays below \<open>2 ^ 30\<close> and the
  capacity is at most twice that number, or the initial one.\<close>

definition sv_room_for :: "nat \<Rightarrow> 'a snapvec \<Rightarrow> bool" where
  "sv_room_for n v \<longleftrightarrow> sv_ok v \<and> sv_size v + n < 2 ^ 28 \<and> length (sv_array v) \<le> 2 ^ 29"

lemma sv_push_room:
  assumes "sv_room_for (Suc n) v"
  shows "\<exists>w. sv_push_back z x v = Inr w \<and> sv_room_for n w \<and> sv_list w = sv_list v @ [x]"
proof -
  have "sv_room v" using assms by (simp add: sv_room_for_def sv_room_def)
  from sv_push_back_ok [OF this, of z x] obtain w where
    w: "sv_push_back z x v = Inr w" "sv_ok w" "sv_size w = Suc (sv_size v)" "sv_list w = sv_list v @ [x]"
    by blast
  have "length (sv_array w) \<le> 2 ^ 29"
    using w(1) assms by (auto simp: sv_push_back_def Let_def bindR_Inr_iff updR_def sv_room_for_def
        split: if_splits)
  with w assms show ?thesis by (auto simp: sv_room_for_def)
qed

interpretation snapvec: growing_vector sv_ok sv_room_for sv_list "sv_push_back z" for z
  by unfold_locales (simp add: sv_room_for_def, rule sv_push_room)

section \<open>Inserting and removing in the middle\<close>

lemma shift_right:
  assumes "sv_ok u" "n \<le> sv_size u" "0 < k"
  shows "\<exists>w. foldR (\<lambda>j u. bindR (sv_at u (j - 1)) (\<lambda>x. sv_set (int j) x u)) (rev [k..<n]) u = Inr w \<and>
    sv_ok w \<and> sv_size w = sv_size u \<and>
    (\<forall>j < sv_size u. sv_list w ! j = (if k \<le> j \<and> j < n then sv_list u ! (j - 1) else sv_list u ! j))"
  using assms(1,2)
proof (induction n arbitrary: u)
  case 0
  then show ?case by simp
next
  case (Suc n)
  show ?case
  proof (cases "k \<le> n")
    case True
    have at: "sv_at u (n - 1) = Inr (sv_list u ! (n - 1))" using Suc.prems assms(3) by (simp add: sv_at_ok)
    from sv_set_ok [OF Suc.prems(1), of "int n" "sv_list u ! (n - 1)"] Suc.prems(2) obtain u1 where
      u1: "sv_set (int n) (sv_list u ! (n - 1)) u = Inr u1" "sv_ok u1" "sv_size u1 = sv_size u"
      "sv_list u1 = (sv_list u)[n := sv_list u ! (n - 1)]" by auto
    from Suc.IH [OF u1(2)] u1(3) Suc.prems(2) obtain w where
      w: "foldR (\<lambda>j u. bindR (sv_at u (j - 1)) (\<lambda>x. sv_set (int j) x u)) (rev [k..<n]) u1 = Inr w"
      "sv_ok w" "sv_size w = sv_size u"
      "\<forall>j < sv_size u. sv_list w ! j = (if k \<le> j \<and> j < n then sv_list u1 ! (j - 1) else sv_list u1 ! j)"
      by auto
    have "sv_list w ! j = (if k \<le> j \<and> j < Suc n then sv_list u ! (j - 1) else sv_list u ! j)"
      if "j < sv_size u" for j
      using w(4) that u1(4) True Suc.prems by (auto simp: nth_list_update)
    with True at u1(1) w(1-3) show ?thesis by auto
  next
    case False
    with Suc.prems show ?thesis by auto
  qed
qed

lemma shift_left:
  assumes "sv_ok u" "n < sv_size u" "k \<le> n"
  shows "\<exists>w. foldR (\<lambda>j u. bindR (sv_at u (j + 1)) (\<lambda>x. sv_set (int j) x u)) [k..<n] u = Inr w \<and>
    sv_ok w \<and> sv_size w = sv_size u \<and>
    (\<forall>j < sv_size u. sv_list w ! j = (if k \<le> j \<and> j < n then sv_list u ! (j + 1) else sv_list u ! j))"
  using assms(2,3)
proof (induction n)
  case 0
  with assms(1) show ?case by simp
next
  case (Suc n)
  show ?case
  proof (cases "k \<le> n")
    case True
    with Suc obtain w where
      w: "foldR (\<lambda>j u. bindR (sv_at u (j + 1)) (\<lambda>x. sv_set (int j) x u)) [k..<n] u = Inr w" "sv_ok w"
      "sv_size w = sv_size u"
      "\<forall>j < sv_size u. sv_list w ! j = (if k \<le> j \<and> j < n then sv_list u ! (j + 1) else sv_list u ! j)"
      by auto
    have at: "sv_at w (n + 1) = Inr (sv_list u ! (n + 1))" using w Suc.prems by (simp add: sv_at_ok)
    from sv_set_ok [OF w(2), of "int n" "sv_list u ! (n + 1)"] w(3) Suc.prems obtain w1 where
      w1: "sv_set (int n) (sv_list u ! (n + 1)) w = Inr w1" "sv_ok w1" "sv_size w1 = sv_size u"
      "sv_list w1 = (sv_list w)[n := sv_list u ! (n + 1)]" by auto
    have "sv_list w1 ! j = (if k \<le> j \<and> j < Suc n then sv_list u ! (j + 1) else sv_list u ! j)"
      if "j < sv_size u" for j
      using w(2-4) that w1(4) Suc.prems True by (auto simp: nth_list_update less_Suc_eq)
    with True at w(1) w1(1-3) show ?thesis by (auto simp: foldR_append)
  next
    case False
    with Suc.prems assms(1) show ?thesis by (auto simp: le_Suc_eq)
  qed
qed

lemma sv_insertAt_ok:
  assumes "sv_ok v" "sv_size v < 2 ^ 30 - 1" "i \<le> sv_size v"
  shows "\<exists>w. sv_insertAt z i x v = Inr w \<and> sv_ok w \<and>
    sv_list w = take i (sv_list v) @ x # drop i (sv_list v)"
proof -
  have "sv_size v + 1 < 2 ^ 30" using assms(2) by simp
  from sv_resize_ok [OF assms(1) this, of z] obtain u where
    u: "sv_resize z (sv_size v + 1) v = Inr u" "sv_ok u" "sv_size u = sv_size v + 1"
    "sv_list u = sv_list v @ [z]" using assms(1) by (auto simp: resize_def)
  from shift_right [OF u(2) order_refl, of "i + 1"] obtain w where
    w: "foldR (\<lambda>j u. bindR (sv_at u (j - 1)) (\<lambda>x. sv_set (int j) x u)) (rev [i + 1..<sv_size u]) u = Inr w"
    "sv_ok w" "sv_size w = sv_size u"
    "\<forall>j < sv_size u. sv_list w ! j =
       (if i + 1 \<le> j \<and> j < sv_size u then sv_list u ! (j - 1) else sv_list u ! j)" by auto
  from sv_set_ok [OF w(2), of "int i" x] w(3) u(3) assms(3) obtain r where
    r: "sv_set (int i) x w = Inr r" "sv_ok r" "sv_size r = sv_size u" "sv_list r = (sv_list w)[i := x]"
    by auto
  have "sv_list r = take i (sv_list v) @ x # drop i (sv_list v)"
  proof (rule nth_equalityI)
    show len: "length (sv_list r) = length (take i (sv_list v) @ x # drop i (sv_list v))"
      using r(4) w(2,3) u(3) assms(1,3) by simp
    fix j assume "j < length (sv_list r)"
    then have "j < sv_size u" using r w(2,3) by simp
    then show "sv_list r ! j = (take i (sv_list v) @ x # drop i (sv_list v)) ! j"
      using w(2-4) r(4) u(3,4) assms(1,3)
      by (auto simp: nth_list_update nth_append nth_Cons' Suc_le_eq)
  qed
  with u(1) w(1) r(1,2) show ?thesis by (simp add: sv_insertAt_def)
qed

lemma sv_removeAt_ok:
  assumes "sv_ok v" "sv_size v < 2 ^ 30" "i < sv_size v"
  shows "\<exists>w. sv_removeAt z i v = Inr w \<and> sv_ok w \<and>
    sv_list w = take i (sv_list v) @ drop (Suc i) (sv_list v)"
proof -
  have "sv_size v - 1 < sv_size v" "i \<le> sv_size v - 1" using assms(3) by auto
  from shift_left [OF assms(1) this] obtain w where
    w: "foldR (\<lambda>j u. bindR (sv_at u (j + 1)) (\<lambda>x. sv_set (int j) x u)) [i..<sv_size v - 1] v = Inr w"
    "sv_ok w" "sv_size w = sv_size v"
    "\<forall>j < sv_size v. sv_list w ! j =
       (if i \<le> j \<and> j < sv_size v - 1 then sv_list v ! (j + 1) else sv_list v ! j)" by blast
  have m: "(sv_size w + 2 ^ 32 - 1) mod 2 ^ 32 = sv_size v - 1"
    using w(3) assms(2,3) by (simp add: mod_if)
  have "sv_size v - 1 < 2 ^ 30" using assms(2) by simp
  from sv_resize_ok [OF w(2) this, of z] obtain r where
    r: "sv_resize z (sv_size v - 1) w = Inr r" "sv_ok r" "sv_size r = sv_size v - 1"
    "sv_list r = resize (sv_size v - 1) z (sv_list w)" by blast
  have "sv_list r = take i (sv_list v) @ drop (Suc i) (sv_list v)"
  proof (rule nth_equalityI)
    show "length (sv_list r) = length (take i (sv_list v) @ drop (Suc i) (sv_list v))"
      using r assms by simp
    fix j assume "j < length (sv_list r)"
    then have "j < sv_size v - 1" using r by simp
    then show "sv_list r ! j = (take i (sv_list v) @ drop (Suc i) (sv_list v)) ! j"
      using w(2-4) r(4) assms(1,3) by (auto simp: nth_resize nth_append)
  qed
  with w(1) m r(1,2) show ?thesis by (simp add: sv_removeAt_def)
qed

lemma sv_remove_ok:
  assumes "sv_ok v" "sv_size v < 2 ^ 30"
  shows "\<exists>w. sv_remove z x v = Inr w \<and> sv_ok w \<and> sv_list w = remove1 x (sv_list v)"
proof -
  have "\<exists>w. sv_remove_loop z x i m v = Inr w \<and> sv_ok w \<and>
      sv_list w = take i (sv_list v) @ remove1 x (drop i (sv_list v))" if "i + m = sv_size v" for i m
    using that
  proof (induction m arbitrary: i)
    case 0
    with assms(1) show ?case by simp
  next
    case (Suc m)
    then have at: "sv_at v i = Inr (sv_list v ! i)" using assms(1) by (simp add: sv_at_ok)
    have d: "drop i (sv_list v) = sv_list v ! i # drop (Suc i) (sv_list v)"
      using Suc.prems assms(1) by (simp add: Cons_nth_drop_Suc)
    show ?case
    proof (cases "sv_list v ! i = x")
      case True
      with sv_removeAt_ok [OF assms, of i z] Suc.prems at d show ?thesis by auto
    next
      case False
      moreover from Suc.IH [of "Suc i"] Suc.prems obtain w where "sv_remove_loop z x (Suc i) m v = Inr w"
        "sv_ok w" "sv_list w = take (Suc i) (sv_list v) @ remove1 x (drop (Suc i) (sv_list v))" by auto
      ultimately show ?thesis using at d Suc.prems assms(1)
        by (auto simp: take_Suc_conv_app_nth)
    qed
  qed
  from this [of 0 "sv_size v"] show ?thesis by (simp add: sv_remove_def)
qed

section \<open>Properties\<close>

text \<open>\<open>SnapVector\<close> implements a list: below \<open>2 ^ 30\<close> elements, \<open>resize\<close>, \<open>insertAt\<close>,
  \<open>removeAt\<close>, \<open>remove\<close> and \<open>find\<close> never access memory outside the array and act on the
  elements as the list operations do.\<close>

theorem snapvec_refines_list:
  assumes "sv_ok v" "sv_size v < 2 ^ 30 - 1" "n < 2 ^ 30" "i \<le> sv_size v" "j < sv_size v"
  shows "(\<exists>w. sv_resize z n v = Inr w \<and> sv_ok w \<and>
      sv_list w = take n (sv_list v) @ replicate (n - sv_size v) z) \<and>
    (\<exists>w. sv_insertAt z i x v = Inr w \<and> sv_ok w \<and> sv_list w = take i (sv_list v) @ x # drop i (sv_list v)) \<and>
    (\<exists>w. sv_removeAt z j v = Inr w \<and> sv_ok w \<and> sv_list w = take j (sv_list v) @ drop (Suc j) (sv_list v)) \<and>
    (\<exists>w. sv_remove z x v = Inr w \<and> sv_ok w \<and> sv_list w = remove1 x (sv_list v)) \<and>
    sv_find x v = Inr (x \<in> set (sv_list v))"
  using sv_resize_ok [OF assms(1,3), of z] sv_insertAt_ok [OF assms(1,2,4), of z x]
    sv_removeAt_ok [OF assms(1) _ assms(5), of z] sv_remove_ok [OF assms(1), of z x] assms(1,2)
  by (auto simp: resize_def)

theorem snapvec_refines_list_witness:
  "\<exists>w. sv_insertAt 0 1 9 (sv_of_array [5, 6, 7::nat]) = Inr w \<and> sv_list w = [5, 9, 6, 7]"
proof -
  let ?v = "sv_of_array [5, 6, 7::nat]"
  have "sv_ok ?v" "sv_size ?v = 3" "sv_list ?v = [5, 6, 7]"
    by (simp_all add: sv_of_array_def sv_ok_def sv_list_def)
  with snapvec_refines_list [of ?v 0 1 0 0 9] show ?thesis by auto
qed

end
