(* ===== verification/Pct_Scheduler.thy ===== *)
theory Pct_Scheduler
  imports Snap_Vectors "HOL-Library.Signed_Division"
begin

text \<open>
  PCTWM's scheduler (\<open>schedule.h\<close>, \<open>schedule.cc\<close>) with the parts of the fuzzer it calls
  (\<open>fuzzer.cc\<close>): the enabled array, the high and low priority vectors, the change points,
  and the choice of the next thread.

  A thread is its id.  The two fields of a \<open>Thread\<close> object that the scheduler writes (its
  state and the wake-up flag) are kept with the scheduler's state.  The results of \<open>rand()\<close> and
  \<open>random()\<close> are arguments: a single number, or a function from the number of the call for the
  loop that draws until it succeeds.  \<open>usingpct\<close> has no initial value in the constructor, so it
  is an argument of the initial state.  Printing is left out.
\<close>

section \<open>State\<close>

datatype enabled_type = THREAD_DISABLED | THREAD_ENABLED | THREAD_SLEEP_SET

datatype thread_state = THREAD_BLOCKED | THREAD_READY | THREAD_OTHER

record sched =
  enabled :: "enabled_type list"
  curr_thread_index :: int
  current :: "nat option"
  lowvec :: "int snapvec"
  chg_pts :: "int snapvec"
  schelen :: int
  highvec :: "int snapvec"
  highsize :: nat
  schelen_limit :: int
  livelock :: bool
  usingpct :: int
  highest_id :: int
  external_readnum_thread :: "bool snapvec"
  thread_state_of :: "nat \<Rightarrow> thread_state"
  wakeup_state :: "nat \<Rightarrow> bool"

definition scheduler_init :: "int \<Rightarrow> sched" where
  "scheduler_init upct =
     \<lparr>enabled = [], curr_thread_index = 0, current = None, lowvec = sv_new 0 VECTOR_DEFCAP,
      chg_pts = sv_new 0 VECTOR_DEFCAP, schelen = 0, highvec = sv_new 0 VECTOR_DEFCAP, highsize = 0,
      schelen_limit = 0, livelock = False, usingpct = upct, highest_id = 0,
      external_readnum_thread = sv_new False VECTOR_DEFCAP,
      thread_state_of = (\<lambda>_. THREAD_OTHER), wakeup_state = (\<lambda>_. False)\<rparr>"

definition enabled_type_to_string :: "enabled_type \<Rightarrow> string" where
  "enabled_type_to_string e = (case e of
     THREAD_DISABLED \<Rightarrow> ''disabled'' | THREAD_ENABLED \<Rightarrow> ''enabled'' | THREAD_SLEEP_SET \<Rightarrow> ''sleep'')"

section \<open>Change points\<close>

text \<open>\<open>getRandom(range, seed)\<close> for the number \<open>r\<close> that \<open>rand()\<close> returns; a zero rng is a
  division by zero.\<close>

definition getRandom :: "nat \<Rightarrow> int \<Rightarrow> int \<Rightarrow> int res" where
  "getRandom r rng seed =
     (if rng = 0 then Inl Undefined
      else let res = (if seed \<noteq> 0 then (int r sdiv seed) smod rng else int r smod rng)
           in Inr (if res < 1 then 1 else res))"

text \<open>The inner loop: draw until the value is not in the vector.  It returns the value and the
  number of the next call of \<open>rand()\<close>; \<open>None\<close> is a loop that never ends.\<close>

partial_function (option) draw_fresh ::
    "(nat \<Rightarrow> nat) \<Rightarrow> nat \<Rightarrow> int \<Rightarrow> int \<Rightarrow> int snapvec \<Rightarrow> (int \<times> nat) res option" where
  "draw_fresh rnd n rng seed v =
     (case getRandom (rnd n) rng seed of
        Inl e \<Rightarrow> Some (Inl e)
      | Inr tmp \<Rightarrow>
          (case sv_find tmp v of
             Inl e \<Rightarrow> Some (Inl e)
           | Inr found \<Rightarrow> if found then draw_fresh rnd (Suc n) rng seed v
                          else Some (Inr (tmp, Suc n))))"

fun draw_points ::
    "(nat \<Rightarrow> nat) \<Rightarrow> nat \<Rightarrow> int \<Rightarrow> int \<Rightarrow> nat list \<Rightarrow> int snapvec \<Rightarrow> int snapvec res option" where
  "draw_points rnd n rng seed [] v = Some (Inr v)"
| "draw_points rnd n rng seed (i # is) v =
     (case draw_fresh rnd n rng seed v of
        None \<Rightarrow> None
      | Some (Inl e) \<Rightarrow> Some (Inl e)
      | Some (Inr (tmp, n')) \<Rightarrow>
          (case sv_set (int i) tmp v of
             Inl e \<Rightarrow> Some (Inl e)
           | Inr w \<Rightarrow> draw_points rnd n' rng seed is w))"

text \<open>The two nested loops that sort the points.\<close>

definition bubble_step :: "nat \<Rightarrow> int snapvec \<Rightarrow> int snapvec res" where
  "bubble_step j v =
     bindR (sv_get v (int j - 1)) (\<lambda>x. bindR (sv_get v (int j)) (\<lambda>y.
     if x > y then bindR (sv_set (int j - 1) y v) (sv_set (int j) x) else Inr v))"

definition bubble_points :: "nat \<Rightarrow> int snapvec \<Rightarrow> int snapvec res" where
  "bubble_points n v = foldR (\<lambda>i. foldR bubble_step [1..<n]) [0..<n] v"

definition set_chg_pts_byread ::
    "(nat \<Rightarrow> nat) \<Rightarrow> int \<Rightarrow> int \<Rightarrow> int \<Rightarrow> sched \<Rightarrow> sched res option" where
  "set_chg_pts_byread rnd bugdepth maxinstr seed s =
     (if bugdepth \<le> 0 then Some (bindR (sv_resize 0 0 (chg_pts s)) (\<lambda>v. Inr (s\<lparr>chg_pts := v\<rparr>)))
      else case sv_resize 0 (nat bugdepth) (chg_pts s) of
        Inl e \<Rightarrow> Some (Inl e)
      | Inr v \<Rightarrow>
          (case draw_points rnd 0 maxinstr seed [0..<nat bugdepth] v of
             None \<Rightarrow> None
           | Some (Inl e) \<Rightarrow> Some (Inl e)
           | Some (Inr w) \<Rightarrow>
               Some (bindR (bubble_points (nat bugdepth) w) (\<lambda>u. Inr (s\<lparr>chg_pts := u\<rparr>)))))"

text \<open>The index of a change point; the last one when it occurs more than once.\<close>

fun find_chgidx_loop :: "int snapvec \<Rightarrow> int \<Rightarrow> nat \<Rightarrow> nat \<Rightarrow> int \<Rightarrow> int res" where
  "find_chgidx_loop v currlen i 0 r = Inr r"
| "find_chgidx_loop v currlen i (Suc m) r = bindR (sv_get v (int i)) (\<lambda>x.
     find_chgidx_loop v currlen (Suc i) m (if currlen = x then int i else r))"

definition find_chgidx :: "int \<Rightarrow> sched \<Rightarrow> int res" where
  "find_chgidx currlen s = find_chgidx_loop (chg_pts s) currlen 0 (sv_size (chg_pts s)) (-1)"

section \<open>Priority vectors\<close>

definition setlowvec :: "int \<Rightarrow> sched \<Rightarrow> sched res" where
  "setlowvec bugdepth s =
     (if bugdepth > 1
      then bindR (sv_resize_fill 0 (nat bugdepth) (-1) (lowvec s)) (\<lambda>v. Inr (s\<lparr>lowvec := v\<rparr>))
      else bindR (sv_resize 0 1 (lowvec s)) (\<lambda>v. Inr (s\<lparr>lowvec := v\<rparr>)))"

definition pctactive :: "sched \<Rightarrow> sched" where
  "pctactive s = s\<lparr>usingpct := 1\<rparr>"

definition setParams ::
    "(nat \<Rightarrow> nat) \<Rightarrow> int \<Rightarrow> int \<Rightarrow> int \<Rightarrow> int \<Rightarrow> sched \<Rightarrow> sched res option" where
  "setParams rnd bugdepth maxinstr seed version s =
     (case setlowvec bugdepth s of
        Inl e \<Rightarrow> Some (Inl e)
      | Inr s1 \<Rightarrow>
          (case set_chg_pts_byread rnd bugdepth maxinstr seed s1 of
             None \<Rightarrow> None
           | Some (Inl e) \<Rightarrow> Some (Inl e)
           | Some (Inr s2) \<Rightarrow>
               let s3 = s2\<lparr>schelen_limit := 2 * maxinstr\<rparr>
               in Some (Inr (if version = 1 then pctactive s3 else s3))))"

fun scan_for :: "int snapvec \<Rightarrow> int \<Rightarrow> nat \<Rightarrow> nat \<Rightarrow> nat option res" where
  "scan_for v x i 0 = Inr None"
| "scan_for v x i (Suc m) = bindR (sv_get v (int i)) (\<lambda>y.
     if y = x then Inr (Some i) else scan_for v x (Suc i) m)"

definition inhighvec :: "int \<Rightarrow> sched \<Rightarrow> bool res" where
  "inhighvec threadid s =
     bindR (scan_for (highvec s) threadid 0 (highsize s)) (\<lambda>r. Inr (r \<noteq> None))"

text \<open>
  \<open>highvec_addthread\<close>: the old vector is saved into \<open>oldhigh\<close>, a fresh vector that is never
  resized, so its writes go to the initial capacity only.  \<open>r\<close> is the result of \<open>random()\<close>.
\<close>

definition highvec_addthread :: "nat \<Rightarrow> nat \<Rightarrow> sched \<Rightarrow> sched res" where
  "highvec_addthread r threadid s =
     bindR (foldR (\<lambda>i old. bindR (sv_get (highvec s) (int i)) (\<lambda>x. sv_set (int i) x old))
              [0..<highsize s] (sv_new 0 VECTOR_DEFCAP)) (\<lambda>oldhigh.
     let n = highsize s + 1 in
     bindR (sv_resize 0 n (highvec s)) (\<lambda>hv.
     let tmp = r mod n in
     bindR (if tmp \<ge> n - 1 then
         bindR (foldR (\<lambda>i h. bindR (sv_get oldhigh (int i)) (\<lambda>x. sv_set (int i) x h)) [0..<n - 1] hv)
           (sv_set (int (n - 1)) (int threadid))
       else
         bindR (foldR (\<lambda>i h. bindR (sv_get oldhigh (int i)) (\<lambda>x. sv_set (int i) x h)) [0..<tmp] hv) (\<lambda>h1.
         bindR (sv_set (int tmp) (int threadid) h1) (\<lambda>h2.
         foldR (\<lambda>i h. bindR (sv_get oldhigh (int i - 1)) (\<lambda>x. sv_set (int i) x h)) [tmp + 1..<n] h2)))
     (\<lambda>h. Inr (s\<lparr>highvec := h, highsize := n\<rparr>))))"

definition movethread :: "int \<Rightarrow> int \<Rightarrow> sched \<Rightarrow> sched res" where
  "movethread lowvec_idx threadid s =
     bindR (scan_for (highvec s) threadid 0 (highsize s)) (\<lambda>inhigh.
     bindR (case inhigh of
         Some i \<Rightarrow> bindR (sv_set (int i) (-1) (highvec s)) (\<lambda>h. Inr (s\<lparr>highvec := h\<rparr>))
       | None \<Rightarrow>
           bindR (scan_for (lowvec s) threadid 0 (sv_size (lowvec s))) (\<lambda>inlow.
           case inlow of
             Some i \<Rightarrow> bindR (sv_set (int i) (-1) (lowvec s)) (\<lambda>l. Inr (s\<lparr>lowvec := l\<rparr>))
           | None \<Rightarrow> Inr s)) (\<lambda>s1.
     bindR (sv_set lowvec_idx threadid (lowvec s1)) (\<lambda>l. Inr (s1\<lparr>lowvec := l\<rparr>))))"

text \<open>The scan of a priority vector for its first element that is among the available
  threads.\<close>

fun first_avail :: "int snapvec \<Rightarrow> nat list \<Rightarrow> nat \<Rightarrow> nat \<Rightarrow> int option res" where
  "first_avail v avail i 0 = Inr None"
| "first_avail v avail i (Suc m) = bindR (sv_get v (int i)) (\<lambda>x.
     if list_ex (\<lambda>t. int t = x) avail then Inr (Some x) else first_avail v avail (Suc i) m)"

definition find_highest :: "nat list \<Rightarrow> sched \<Rightarrow> int res" where
  "find_highest avail s =
     bindR (first_avail (highvec s) avail 0 (highsize s)) (\<lambda>h.
     case h of
       Some x \<Rightarrow> Inr x
     | None \<Rightarrow>
         bindR (first_avail (lowvec s) avail 0 (sv_size (lowvec s))) (\<lambda>l.
         case l of Some x \<Rightarrow> Inr x | None \<Rightarrow> Inr 0))"

definition threads_with :: "enabled_type \<Rightarrow> sched \<Rightarrow> nat list" where
  "threads_with e s = filter (\<lambda>i. enabled s ! i = e) [0..<length (enabled s)]"

definition get_highest_thread :: "sched \<Rightarrow> int res" where
  "get_highest_thread s =
     (let avail = threads_with THREAD_ENABLED s in
      if length avail = 1 then Inr (int (avail ! 0))
      else bindR (first_avail (highvec s) avail 0 (sv_size (highvec s))) (\<lambda>h.
        case h of
          Some x \<Rightarrow> Inr x
        | None \<Rightarrow>
            bindR (first_avail (lowvec s) avail 0 (sv_size (lowvec s))) (\<lambda>l.
            case l of Some x \<Rightarrow> Inr x | None \<Rightarrow> Inr (-1))))"

text \<open>The loop of \<open>get_scecond_high_thread\<close> over one vector: \<open>Inl\<close> is the early return, \<open>Inr\<close>
  the value of \<open>highest1\<close> at its end.\<close>

fun second_avail :: "int snapvec \<Rightarrow> nat list \<Rightarrow> nat \<Rightarrow> nat \<Rightarrow> int \<Rightarrow> (int + int) res" where
  "second_avail v avail i 0 highest1 = Inr (Inr highest1)"
| "second_avail v avail i (Suc m) highest1 = bindR (sv_get v (int i)) (\<lambda>x.
     if list_ex (\<lambda>t. int t = x) avail then
       (if highest1 \<noteq> -1 then Inr (Inl x) else second_avail v avail (Suc i) m x)
     else second_avail v avail (Suc i) m highest1)"

definition get_scecond_high_thread :: "sched \<Rightarrow> int res" where
  "get_scecond_high_thread s =
     (let avail = threads_with THREAD_ENABLED s in
      if length avail = 1 then Inr (int (avail ! 0))
      else bindR (second_avail (highvec s) avail 0 (sv_size (highvec s)) (-1)) (\<lambda>h.
        case h of
          Inl x \<Rightarrow> Inr x
        | Inr highest1 \<Rightarrow>
            bindR (second_avail (lowvec s) avail 0 (sv_size (lowvec s)) highest1) (\<lambda>l.
            case l of Inl x \<Rightarrow> Inr x | Inr _ \<Rightarrow> Inr (-1))))"

section \<open>External reads\<close>

definition add_external_readnum_thread :: "nat \<Rightarrow> sched \<Rightarrow> sched res" where
  "add_external_readnum_thread threadid s =
     (let v = external_readnum_thread s;
          diff = threadid + 1 - sv_size v
      in bindR (if threadid \<ge> sv_size v
                then foldR (sv_push_back False) (replicate diff False) v else Inr v) (\<lambda>w.
         bindR (sv_set (int threadid) True w) (\<lambda>u. Inr (s\<lparr>external_readnum_thread := u\<rparr>))))"

definition deleteone_external_readnum_thread :: "nat \<Rightarrow> sched \<Rightarrow> (sched \<times> bool) res" where
  "deleteone_external_readnum_thread threadid s =
     (let v = external_readnum_thread s in
      if threadid \<ge> sv_size v then Inr (s, False)
      else bindR (sv_get v (int threadid)) (\<lambda>b.
        if b then bindR (sv_set (int threadid) False v) (\<lambda>u.
               Inr (s\<lparr>external_readnum_thread := u\<rparr>, True))
        else Inr (s, False)))"

definition get_external_readnum_thread :: "nat \<Rightarrow> sched \<Rightarrow> (sched \<times> bool) res" where
  "get_external_readnum_thread threadid s =
     (let v = external_readnum_thread s in
      if threadid \<ge> sv_size v then
        bindR (sv_push_back False False v) (\<lambda>u. Inr (s\<lparr>external_readnum_thread := u\<rparr>, False))
      else bindR (sv_get v (int threadid)) (\<lambda>b. Inr (s, b)))"

section \<open>The enabled array\<close>

definition set_enabled :: "nat \<Rightarrow> enabled_type \<Rightarrow> sched \<Rightarrow> sched" where
  "set_enabled threadid status s =
     (let e = (if threadid \<ge> length (enabled s)
               then enabled s @ replicate (threadid + 1 - length (enabled s)) THREAD_DISABLED
               else enabled s)
      in s\<lparr>enabled := e[threadid := status]\<rparr>)"

definition is_enabled :: "nat \<Rightarrow> sched \<Rightarrow> bool" where
  "is_enabled i s = (if i \<ge> length (enabled s) then False else enabled s ! i \<noteq> THREAD_DISABLED)"

definition is_sleep_set :: "nat \<Rightarrow> sched \<Rightarrow> bool res" where
  "is_sleep_set i s = bindR (nthR (enabled s) (int i)) (\<lambda>e. Inr (e = THREAD_SLEEP_SET))"

fun all_sleeping_loop :: "enabled_type list \<Rightarrow> bool \<Rightarrow> bool" where
  "all_sleeping_loop [] sleeping = sleeping"
| "all_sleeping_loop (e # es) sleeping =
     (if e = THREAD_ENABLED then False
      else if e = THREAD_SLEEP_SET then all_sleeping_loop es True
      else all_sleeping_loop es sleeping)"

definition all_threads_sleeping :: "sched \<Rightarrow> bool" where
  "all_threads_sleeping s = all_sleeping_loop (enabled s) False"

definition get_enabled :: "nat \<Rightarrow> sched \<Rightarrow> enabled_type res" where
  "get_enabled i s = nthR (enabled s) (int i)"

definition add_sleep :: "nat \<Rightarrow> sched \<Rightarrow> sched" where
  "add_sleep t s = set_enabled t THREAD_SLEEP_SET s"

definition remove_sleep :: "nat \<Rightarrow> sched \<Rightarrow> sched" where
  "remove_sleep t s = set_enabled t THREAD_ENABLED s"

definition add_thread :: "nat \<Rightarrow> nat \<Rightarrow> sched \<Rightarrow> sched res" where
  "add_thread r t s = highvec_addthread r t (set_enabled t THREAD_ENABLED s)"

definition remove_thread :: "nat \<Rightarrow> sched \<Rightarrow> sched" where
  "remove_thread t s =
     set_enabled t THREAD_DISABLED (if current s = Some t then s\<lparr>current := None\<rparr> else s)"

definition sched_sleep :: "nat \<Rightarrow> sched \<Rightarrow> sched" where
  "sched_sleep t s = (let s1 = set_enabled t THREAD_DISABLED s
     in s1\<lparr>thread_state_of := (thread_state_of s1)(t := THREAD_BLOCKED)\<rparr>)"

definition sched_wake :: "nat \<Rightarrow> sched \<Rightarrow> sched" where
  "sched_wake t s = (let s1 = set_enabled t THREAD_ENABLED s
     in s1\<lparr>thread_state_of := (thread_state_of s1)(t := THREAD_READY)\<rparr>)"

definition set_scheduler_thread :: "int \<Rightarrow> sched \<Rightarrow> sched" where
  "set_scheduler_thread tid s = s\<lparr>curr_thread_index := tid\<rparr>"

definition set_current_thread :: "nat option \<Rightarrow> sched \<Rightarrow> sched" where
  "set_current_thread t s = s\<lparr>current := t\<rparr>"

section \<open>Choosing the next thread\<close>

text \<open>\<open>Fuzzer::selectThread\<close> for the number \<open>r\<close> of \<open>random()\<close>, on a non-empty list.\<close>

definition selectThread :: "nat \<Rightarrow> nat list \<Rightarrow> nat res" where
  "selectThread r threadlist =
     (if threadlist = [] then Inl Undefined else Inr (threadlist ! (r mod length threadlist)))"

definition incSchelen :: "sched \<Rightarrow> sched" where
  "incSchelen s = s\<lparr>schelen := schelen s + 1\<rparr>"

text \<open>
  \<open>select_next_thread\<close> for the random number \<open>r\<close> and the executed instruction count
  \<open>instrnum\<close>.  The base fuzzer never has paused threads.  The chosen id is an \<open>int\<close> as in the
  code: \<open>find_highest\<close> may return an id that is not in its argument.
\<close>

definition livelock_test :: "int \<Rightarrow> int \<Rightarrow> bool" where
  "livelock_test instrnum limit \<longleftrightarrow>
     (instrnum smod limit = 0 \<and> instrnum \<noteq> 0) \<or> instrnum > 10 * limit"

definition select_next_thread :: "nat \<Rightarrow> int \<Rightarrow> sched \<Rightarrow> (sched \<times> int option) res" where
  "select_next_thread r instrnum s =
     (let thread_list = threads_with THREAD_ENABLED s;
          sleep_list = threads_with THREAD_SLEEP_SET s
      in if thread_list = [] then
           (if sleep_list \<noteq> [] then
              bindR (selectThread r sleep_list) (\<lambda>t.
              let s1 = remove_sleep t s
              in Inr (s1\<lparr>wakeup_state := (wakeup_state s1)(t := True)\<rparr>, Some (int t)))
            else Inr (s, None))
         else let s1 = incSchelen s in
           if usingpct s1 = 1 then
             (if schelen_limit s1 = 0 then Inl Undefined
              else if livelock_test instrnum (schelen_limit s1) then
                bindR (selectThread r thread_list) (\<lambda>t. Inr (s1\<lparr>livelock := True\<rparr>, Some (int t)))
              else bindR (find_highest thread_list s1) (\<lambda>t.
                Inr (s1\<lparr>highest_id := t\<rparr>, Some t)))
           else bindR (selectThread r thread_list) (\<lambda>t. Inr (s1, Some (int t))))"

end
