(* ===== verification/Scheduler_Facts.thy ===== *)
theory Scheduler_Facts
  imports Pct_Scheduler "HOL-Library.Multiset"
begin

text \<open>
  The correctness of PCTWM's scheduler: the insertion of a new thread into the priority vector,
  the drawing and sorting of the change points, and the choice of the next thread.
\<close>

section \<open>Loops over vectors\<close>

lemma copy_loop:
  assumes "a \<le> b" "\<And>i. a \<le> i \<Longrightarrow> i < b \<Longrightarrow> sv_get src (g i) = Inr (y i)" "b \<le> length (sv_array h)"
  shows "\<exists>w. foldR (\<lambda>i h. bindR (sv_get src (g i)) (\<lambda>x. sv_set (int i) x h)) [a..<b] h = Inr w \<and>
    sv_size w = sv_size h \<and> length (sv_array w) = length (sv_array h) \<and>
    (\<forall>j < length (sv_array h). sv_array w ! j = (if a \<le> j \<and> j < b then y j else sv_array h ! j))"
  using assms
proof (induction b)
  case 0
  then show ?case by simp
next
  case (Suc b)
  show ?case
  proof (cases "a \<le> b")
    case True
    with Suc obtain w where
      w: "foldR (\<lambda>i h. bindR (sv_get src (g i)) (\<lambda>x. sv_set (int i) x h)) [a..<b] h = Inr w"
      "sv_size w = sv_size h" "length (sv_array w) = length (sv_array h)"
      "\<forall>j < length (sv_array h). sv_array w ! j = (if a \<le> j \<and> j < b then y j else sv_array h ! j)"
      by auto
    from True w Suc.prems show ?thesis
      by (auto simp: foldR_append sv_set_def nth_list_update less_Suc_eq)
  next
    case False
    with Suc.prems have "a = Suc b" by simp
    then show ?thesis by auto
  qed
qed

lemma first_avail_find:
  "sv_ok v \<Longrightarrow> i + m \<le> sv_size v \<Longrightarrow> first_avail v avail i m =
     Inr (List.find (\<lambda>x. x \<in> int ` set avail) (take m (drop i (sv_list v))))"
proof (induction m arbitrary: i)
  case (Suc m)
  have "take (Suc m) (drop i (sv_list v)) = sv_list v ! i # take m (drop (Suc i) (sv_list v))"
    using Suc.prems by (simp add: Cons_nth_drop_Suc [symmetric])
  moreover have "list_ex (\<lambda>t. int t = x) avail \<longleftrightarrow> x \<in> int ` set avail" for x
    by (auto simp: list_ex_iff)
  ultimately show ?case using Suc by simp
qed simp

lemma scan_for_first:
  "sv_ok v \<Longrightarrow> i + m \<le> sv_size v \<Longrightarrow> \<exists>r. scan_for v x i m = Inr r \<and>
    (case r of None \<Rightarrow> x \<notin> set (take m (drop i (sv_list v)))
     | Some j \<Rightarrow> i \<le> j \<and> j < i + m \<and> sv_list v ! j = x \<and> (\<forall>k. i \<le> k \<and> k < j \<longrightarrow> sv_list v ! k \<noteq> x))"
proof (induction m arbitrary: i)
  case (Suc m)
  have t: "take (Suc m) (drop i (sv_list v)) = sv_list v ! i # take m (drop (Suc i) (sv_list v))"
    using Suc.prems by (simp add: Cons_nth_drop_Suc [symmetric])
  show ?case
  proof (cases "sv_list v ! i = x")
    case True
    with Suc.prems show ?thesis by auto
  next
    case False
    from Suc.IH [of "Suc i"] Suc.prems obtain r where r: "scan_for v x (Suc i) m = Inr r"
      "case r of None \<Rightarrow> x \<notin> set (take m (drop (Suc i) (sv_list v)))
       | Some j \<Rightarrow> Suc i \<le> j \<and> j < Suc i + m \<and> sv_list v ! j = x \<and>
           (\<forall>k. Suc i \<le> k \<and> k < j \<longrightarrow> sv_list v ! k \<noteq> x)" by auto
    have "sv_list v ! k \<noteq> x" if "r = Some j" "i \<le> k" "k < j" for j k
      using that r(2) False by (cases "k = i") auto
    with r Suc.prems False t show ?thesis by (auto split: option.splits)
  qed
qed simp

section \<open>Adding a thread\<close>

lemma save_old:
  assumes "sv_ok hv" "n = sv_size hv" "n \<le> VECTOR_DEFCAP"
  shows "\<exists>old. foldR (\<lambda>i old. bindR (sv_get hv (int i)) (\<lambda>x. sv_set (int i) x old))
      [0..<n] (sv_new 0 VECTOR_DEFCAP) = Inr old \<and>
    (\<forall>i < n. sv_get old (int i) = Inr (sv_list hv ! i))"
proof -
  have "sv_get hv (int i) = Inr (sv_list hv ! i)" if "i < n" for i
    using assms that by simp
  from copy_loop [of 0 n hv int "\<lambda>i. sv_list hv ! i" "sv_new 0 VECTOR_DEFCAP", OF _ this] assms(3)
  obtain w where w: "foldR (\<lambda>i old. bindR (sv_get hv (int i)) (\<lambda>x. sv_set (int i) x old))
      [0..<n] (sv_new 0 VECTOR_DEFCAP) = Inr w"
    "length (sv_array w) = VECTOR_DEFCAP" "\<forall>j < n. sv_array w ! j = sv_list hv ! j"
    by (auto simp: sv_new_def)
  with assms(3) show ?thesis by (auto simp: sv_get_def)
qed

lemma save_overflow:
  assumes "sv_ok hv" "n = sv_size hv" "VECTOR_DEFCAP < n"
  shows "foldR (\<lambda>i old. bindR (sv_get hv (int i)) (\<lambda>x. sv_set (int i) x old))
      [0..<n] (sv_new 0 VECTOR_DEFCAP) = Inl Out_of_range"
proof -
  have g: "sv_get hv (int i) = Inr (sv_list hv ! i)" if "i < n" for i
    using assms that by simp
  have "sv_get hv (int i) = Inr (sv_list hv ! i)" if "i < VECTOR_DEFCAP" for i
    using g assms(3) that by simp
  from copy_loop [of 0 VECTOR_DEFCAP hv int "\<lambda>i. sv_list hv ! i" "sv_new 0 VECTOR_DEFCAP", OF _ this]
  obtain w where w: "foldR (\<lambda>i old. bindR (sv_get hv (int i)) (\<lambda>x. sv_set (int i) x old))
      [0..<VECTOR_DEFCAP] (sv_new 0 VECTOR_DEFCAP) = Inr w" "length (sv_array w) = VECTOR_DEFCAP"
    by (auto simp: sv_new_def)
  have l: "[0..<n] = [0..<VECTOR_DEFCAP] @ VECTOR_DEFCAP # [Suc VECTOR_DEFCAP..<n]"
    using assms(3) upt_conv_Cons [OF assms(3)] upt_add_eq_append [of 0 VECTOR_DEFCAP "n - VECTOR_DEFCAP"]
    by simp
  show ?thesis unfolding l foldR_append
    using w g [OF assms(3)] by (simp add: sv_set_def updR_def)
qed

lemma highvec_addthread_inserts:
  assumes "sv_ok (highvec s)" "highsize s = sv_size (highvec s)" "highsize s \<le> VECTOR_DEFCAP"
  shows "\<exists>s'. highvec_addthread r t s = Inr s' \<and> sv_ok (highvec s') \<and>
    highsize s' = sv_size (highvec s') \<and>
    sv_list (highvec s') = take (r mod (highsize s + 1)) (sv_list (highvec s)) @
      int t # drop (r mod (highsize s + 1)) (sv_list (highvec s)) \<and>
    s' = s\<lparr>highvec := highvec s', highsize := highsize s'\<rparr>"
proof -
  let ?n = "highsize s + 1" and ?xs = "sv_list (highvec s)" and ?k = "r mod (highsize s + 1)"
  from save_old [OF assms(1,2,3)] obtain old where
    old: "foldR (\<lambda>i old. bindR (sv_get (highvec s) (int i)) (\<lambda>x. sv_set (int i) x old))
      [0..<highsize s] (sv_new 0 VECTOR_DEFCAP) = Inr old"
    "\<forall>i < highsize s. sv_get old (int i) = Inr (?xs ! i)" by blast
  have "?n < 2 ^ 30" using assms(3) by (simp add: VECTOR_DEFCAP_def)
  from sv_resize_ok [OF assms(1) this, of 0] obtain hv where
    hv: "sv_resize 0 ?n (highvec s) = Inr hv" "sv_ok hv" "sv_size hv = ?n" by blast
  have cap: "?n \<le> length (sv_array hv)" using hv by (simp add: sv_ok_def)
  have k: "?k < ?n" by simp
  have len: "length ?xs = highsize s" using assms by simp
  show ?thesis
  proof (cases "?k \<ge> ?n - 1")
    case True
    then have kn: "?k = highsize s" using k by linarith
    from copy_loop [of 0 "highsize s" old int "\<lambda>i. ?xs ! i" hv] old(2) cap obtain h1 where
      h1: "foldR (\<lambda>i h. bindR (sv_get old (int i)) (\<lambda>x. sv_set (int i) x h)) [0..<highsize s] hv = Inr h1"
      "sv_size h1 = ?n" "length (sv_array h1) = length (sv_array hv)"
      "\<forall>j < length (sv_array hv). sv_array h1 ! j = (if j < highsize s then ?xs ! j else sv_array hv ! j)"
      using hv(3) by auto
    let ?h = "h1\<lparr>sv_array := (sv_array h1)[highsize s := int t]\<rparr>"
    have "sv_set (int (highsize s)) (int t) h1 = Inr ?h"
      using cap h1(3) by (simp add: sv_set_def)
    moreover have "sv_ok ?h" using hv(2) h1 hv(3) by (simp add: sv_ok_def)
    moreover have "sv_list ?h = ?xs @ [int t]"
      using h1 cap len by (intro nth_equalityI) (auto simp: sv_list_def nth_append nth_list_update)
    ultimately show ?thesis using old(1) hv(1) h1(1,2) True kn len
      by (simp add: highvec_addthread_def Let_def)
  next
    case False
    then have kn: "?k < highsize s" by linarith
    from copy_loop [of 0 ?k old int "\<lambda>i. ?xs ! i" hv] old(2) cap kn obtain h1 where
      h1: "foldR (\<lambda>i h. bindR (sv_get old (int i)) (\<lambda>x. sv_set (int i) x h)) [0..<?k] hv = Inr h1"
      "sv_size h1 = ?n" "length (sv_array h1) = length (sv_array hv)"
      "\<forall>j < length (sv_array hv). sv_array h1 ! j = (if j < ?k then ?xs ! j else sv_array hv ! j)"
      using hv(3) by auto
    let ?h2 = "h1\<lparr>sv_array := (sv_array h1)[?k := int t]\<rparr>"
    have h2: "sv_set (int ?k) (int t) h1 = Inr ?h2"
    proof -
      have "?k < length (sv_array h1)" using k cap h1(3) by linarith
      then show ?thesis by (simp add: sv_set_def)
    qed
    have g: "sv_get old (int i - 1) = Inr (?xs ! (i - 1))" if "?k + 1 \<le> i" "i < ?n" for i
    proof -
      have "int i - 1 = int (i - 1)" "i - 1 < highsize s" using that by auto
      with old(2) show ?thesis by (metis One_nat_def)
    qed
    have "?k + 1 \<le> ?n" "?n \<le> length (sv_array ?h2)" using kn cap h1(3) by simp_all
    from copy_loop [of "?k + 1" ?n old "\<lambda>i. int i - 1" "\<lambda>i. ?xs ! (i - 1)", OF this(1) g this(2)]
    obtain h3 where
      h3: "foldR (\<lambda>i h. bindR (sv_get old (int i - 1)) (\<lambda>x. sv_set (int i) x h)) [?k + 1..<?n] ?h2 = Inr h3"
      "sv_size h3 = ?n" "length (sv_array h3) = length (sv_array hv)"
      "\<forall>j < length (sv_array hv). sv_array h3 ! j =
        (if ?k + 1 \<le> j \<and> j < ?n then ?xs ! (j - 1) else sv_array ?h2 ! j)"
      using h1 by auto
    have ok: "sv_ok h3" using hv h3 by (simp add: sv_ok_def)
    have "sv_list h3 = take ?k ?xs @ int t # drop ?k ?xs"
    proof (rule nth_equalityI)
      show "length (sv_list h3) = length (take ?k ?xs @ int t # drop ?k ?xs)"
        using h3 len cap kn by (simp add: sv_list_def)
      fix j assume "j < length (sv_list h3)"
      then have j: "j < ?n" using ok h3 by simp
      then show "sv_list h3 ! j = (take ?k ?xs @ int t # drop ?k ?xs) ! j"
        using h3 h1 cap len kn by (auto simp: sv_list_def nth_append nth_Cons' nth_list_update min_def)
    qed
    then show ?thesis using old(1) hv(1) h1(1) h2 h3(1,2) False ok
      by (simp add: highvec_addthread_def Let_def)
  qed
qed

section \<open>The change points\<close>

lemma getRandom_range:
  assumes "0 < rng"
  shows "\<exists>x. getRandom r rng seed = Inr x \<and> 1 \<le> x \<and> x \<le> max 1 (rng - 1)"
proof -
  let ?v = "if seed \<noteq> 0 then (int r sdiv seed) smod rng else int r smod rng"
  have "?v \<le> rng - 1"
    using smod_int_range [of rng "int r sdiv seed"] smod_int_range [of rng "int r"] assms by auto
  with assms show ?thesis by (auto simp: getRandom_def Let_def)
qed

text \<open>The value of the \<open>n\<close>-th call.\<close>

definition draw :: "(nat \<Rightarrow> nat) \<Rightarrow> int \<Rightarrow> int \<Rightarrow> nat \<Rightarrow> int" where
  "draw rnd rng seed n = (case getRandom (rnd n) rng seed of Inr x \<Rightarrow> x | Inl _ \<Rightarrow> 0)"

lemma draw_eq:
  assumes "0 < rng"
  shows "getRandom (rnd n) rng seed = Inr (draw rnd rng seed n)"
    "1 \<le> draw rnd rng seed n" "draw rnd rng seed n \<le> max 1 (rng - 1)"
  using getRandom_range [OF assms, of "rnd n" seed] by (auto simp: draw_def)

lemma draw_fresh_step:
  "0 < rng \<Longrightarrow> sv_ok v \<Longrightarrow> draw_fresh rnd n rng seed v =
     (if draw rnd rng seed n \<in> set (sv_list v) then draw_fresh rnd (Suc n) rng seed v
      else Some (Inr (draw rnd rng seed n, Suc n)))"
  by (subst draw_fresh.simps) (simp add: draw_eq)

lemma draw_fresh_ends:
  assumes "0 < rng" "sv_ok v" "n \<le> m" "draw rnd rng seed m \<notin> set (sv_list v)"
  shows "\<exists>x n'. draw_fresh rnd n rng seed v = Some (Inr (x, n')) \<and> x \<notin> set (sv_list v) \<and>
    1 \<le> x \<and> x \<le> max 1 (rng - 1)"
  using assms(3)
proof (induction "m - n" arbitrary: n)
  case 0
  then have "n = m" by simp
  with assms draw_eq [OF assms(1), where rnd = rnd and n = m and seed = seed] draw_fresh_step [OF assms(1,2), of rnd n seed]
  show ?case by auto
next
  case (Suc k)
  show ?case
  proof (cases "draw rnd rng seed n \<in> set (sv_list v)")
    case True
    with Suc draw_fresh_step [OF assms(1,2), of rnd n seed] show ?thesis by auto
  next
    case False
    with draw_eq [OF assms(1), where rnd = rnd and n = n and seed = seed] draw_fresh_step [OF assms(1,2), of rnd n seed]
    show ?thesis by auto
  qed
qed

text \<open>Whatever it returns is fresh and in range, so it cannot return when no value is left.\<close>

lemma draw_fresh_result:
  assumes "draw_fresh rnd n rng seed v = Some r" "0 < rng" "sv_ok v"
  shows "\<exists>x n'. r = Inr (x, n') \<and> x \<notin> set (sv_list v) \<and> 1 \<le> x \<and> x \<le> max 1 (rng - 1)"
proof -
  let ?P = "\<lambda>rnd n rng seed v r. 0 < rng \<longrightarrow> sv_ok v \<longrightarrow>
    (\<exists>x n'. r = Inr (x, n') \<and> x \<notin> set (sv_list v) \<and> 1 \<le> x \<and> x \<le> max 1 (rng - 1))"
  have "?P rnd n rng seed v r"
  proof (rule draw_fresh.raw_induct [where P = ?P, OF _ assms(1)], intro impI)
    fix f :: "(nat \<Rightarrow> nat) \<Rightarrow> nat \<Rightarrow> int \<Rightarrow> int \<Rightarrow> int snapvec \<Rightarrow> (int \<times> nat) res option"
      and rnd :: "nat \<Rightarrow> nat" and n rng seed and v :: "int snapvec" and r
    assume IH: "\<And>rnd n rng seed v r. f rnd n rng seed v = Some r \<Longrightarrow> ?P rnd n rng seed v r"
      and eq: "(case getRandom (rnd n) rng seed of Inl e \<Rightarrow> Some (Inl e)
        | Inr tmp \<Rightarrow> (case sv_find tmp v of Inl e \<Rightarrow> Some (Inl e)
            | Inr found \<Rightarrow> if found then f rnd (Suc n) rng seed v else Some (Inr (tmp, Suc n)))) = Some r"
      and pos: "0 < rng" "sv_ok v"
    show "\<exists>x n'. r = Inr (x, n') \<and> x \<notin> set (sv_list v) \<and> 1 \<le> x \<and> x \<le> max 1 (rng - 1)"
      using eq IH [of rnd "Suc n" rng seed v r] pos
        draw_eq [OF pos(1), where rnd = rnd and n = n and seed = seed]
      by (auto split: if_splits)
  qed
  with assms(2,3) show ?thesis by blast
qed

text \<open>Filling the vector: the drawn points are distinct and in range; with more points than
  values the loop of some draw never ends.\<close>

lemma draw_points_result:
  assumes "0 < rng" "sv_ok v" "sv_size v = b" "a \<le> b"
    and "distinct (take a (sv_list v))" "set (take a (sv_list v)) \<subseteq> {1..max 1 (rng - 1)}"
    and "\<forall>j. a \<le> j \<and> j < b \<longrightarrow> sv_list v ! j = 0"
    and "draw_points rnd n rng seed [a..<b] v = Some r"
  shows "\<exists>w. r = Inr w \<and> sv_ok w \<and> sv_size w = b \<and> distinct (sv_list w) \<and>
    set (sv_list w) \<subseteq> {1..max 1 (rng - 1)}"
  using assms(2-8)
proof (induction "b - a" arbitrary: a v n)
  case 0
  then show ?case by auto
next
  case (Suc k)
  then have ab: "a < b" "[a..<b] = a # [Suc a..<b]" by (auto simp: upt_conv_Cons)
  from Suc.prems(7) ab(2) obtain res where res: "draw_fresh rnd n rng seed v = Some res"
    by (auto split: option.splits)
  from draw_fresh_result [OF res assms(1) Suc.prems(1)] obtain x n' where
    x: "res = Inr (x, n')" "x \<notin> set (sv_list v)" "1 \<le> x" "x \<le> max 1 (rng - 1)" by blast
  from sv_set_ok [OF Suc.prems(1), of "int a" x] Suc.prems(2) ab(1) obtain w where
    w: "sv_set (int a) x v = Inr w" "sv_ok w" "sv_size w = b" "sv_list w = (sv_list v)[a := x]" by auto
  have len: "length (sv_list v) = b" using Suc.prems(1,2) by simp
  have t: "take (Suc a) (sv_list w) = take a (sv_list v) @ [x]"
    using w(4) ab(1) len by (simp add: take_Suc_update)
  have "x \<notin> set (take a (sv_list v))" using x(2) by (meson in_set_takeD)
  then have d: "distinct (take (Suc a) (sv_list w))" unfolding t using Suc.prems(4) by simp
  have sub: "set (take (Suc a) (sv_list w)) \<subseteq> {1..max 1 (rng - 1)}"
    unfolding t using Suc.prems(5) x(3,4) by auto
  have z: "\<forall>j. Suc a \<le> j \<and> j < b \<longrightarrow> sv_list w ! j = 0"
    using Suc.prems(6) w(4) by auto
  have "draw_points rnd n' rng seed [Suc a..<b] w = Some r"
    using Suc.prems(7) ab(2) res x(1) w(1) by simp
  with Suc.hyps(1) [of "Suc a" w n'] Suc.hyps(2) w(2,3) ab(1) d sub z show ?case by auto
qed

lemma draw_points_diverges:
  assumes "0 < rng" "sv_ok v" "sv_size v = b" "a \<le> b" "max 1 (rng - 1) < int b"
    and "int a \<le> max 1 (rng - 1)"
    and "distinct (take a (sv_list v))" "set (take a (sv_list v)) \<subseteq> {1..max 1 (rng - 1)}"
    and "\<forall>j. a \<le> j \<and> j < b \<longrightarrow> sv_list v ! j = 0"
  shows "draw_points rnd n rng seed [a..<b] v = None"
proof (cases "draw_points rnd n rng seed [a..<b] v")
  case (Some r)
  from draw_points_result [OF assms(1-4,7-9) Some] obtain w where
    w: "sv_ok w" "sv_size w = b" "distinct (sv_list w)" "set (sv_list w) \<subseteq> {1..max 1 (rng - 1)}"
    by blast
  have "b = card (set (sv_list w))" using w(1-3) by (simp add: distinct_card)
  also have "\<dots> \<le> card {1..max 1 (rng - 1)}" using w(4) by (intro card_mono) auto
  also have "\<dots> = nat (max 1 (rng - 1))" by simp
  finally show ?thesis using assms(5) by linarith
qed

text \<open>A source of numbers that keeps producing every value.\<close>

definition fair_source :: "(nat \<Rightarrow> nat) \<Rightarrow> int \<Rightarrow> int \<Rightarrow> bool" where
  "fair_source rnd rng seed \<longleftrightarrow>
     (\<forall>x \<in> {1..max 1 (rng - 1)}. \<forall>n. \<exists>m \<ge> n. draw rnd rng seed m = x)"

lemma draw_points_ends:
  assumes "0 < rng" "sv_ok v" "sv_size v = b" "a \<le> b" "int b \<le> max 1 (rng - 1)"
    and "fair_source rnd rng seed" "set (take a (sv_list v)) \<subseteq> {1..max 1 (rng - 1)}"
    and "\<forall>j. a \<le> j \<and> j < b \<longrightarrow> sv_list v ! j = 0"
  shows "draw_points rnd n rng seed [a..<b] v \<noteq> None"
  using assms(2-5,7,8)
proof (induction "b - a" arbitrary: a v n)
  case 0
  then show ?case by auto
next
  case (Suc k)
  then have ab: "a < b" "[a..<b] = a # [Suc a..<b]" by (auto simp: upt_conv_Cons)
  have len: "length (sv_list v) = b" using Suc.prems(1,2) by simp
  have "sv_list v = take a (sv_list v) @ drop a (sv_list v)" by simp
  have "set (drop a (sv_list v)) \<subseteq> {0}" using Suc.prems(6) len
    by (auto simp: in_set_conv_nth)
  then have "set (sv_list v) \<inter> {1..max 1 (rng - 1)} \<subseteq> set (take a (sv_list v))"
    using set_append [of "take a (sv_list v)" "drop a (sv_list v)"] by auto
  moreover have "card (set (take a (sv_list v))) \<le> a"
    using card_length [of "take a (sv_list v)"] by simp
  ultimately have "\<not> {1..max 1 (rng - 1)} \<subseteq> set (sv_list v)"
  proof -
    assume sub: "set (sv_list v) \<inter> {1..max 1 (rng - 1)} \<subseteq> set (take a (sv_list v))"
      and c: "card (set (take a (sv_list v))) \<le> a"
    show ?thesis
    proof
      assume "{1..max 1 (rng - 1)} \<subseteq> set (sv_list v)"
      with sub have "{1..max 1 (rng - 1)} \<subseteq> set (take a (sv_list v))" by blast
      then have "card {1..max 1 (rng - 1)} \<le> a" using c card_mono [OF finite_set] by (meson le_trans)
      then show False using ab(1) Suc.prems(4) by simp
    qed
  qed
  then obtain y where "y \<in> {1..max 1 (rng - 1)}" "y \<notin> set (sv_list v)" by blast
  with assms(6) obtain m where "n \<le> m" "draw rnd rng seed m \<notin> set (sv_list v)"
    unfolding fair_source_def by metis
  from draw_fresh_ends [OF assms(1) Suc.prems(1) this] obtain x n' where
    x: "draw_fresh rnd n rng seed v = Some (Inr (x, n'))" "1 \<le> x" "x \<le> max 1 (rng - 1)" by blast
  from sv_set_ok [OF Suc.prems(1), of "int a" x] Suc.prems(2) ab(1) obtain w where
    w: "sv_set (int a) x v = Inr w" "sv_ok w" "sv_size w = b" "sv_list w = (sv_list v)[a := x]" by auto
  have "take (Suc a) (sv_list w) = take a (sv_list v) @ [x]"
    using w(4) ab(1) len by (simp add: take_Suc_update)
  then have "set (take (Suc a) (sv_list w)) \<subseteq> {1..max 1 (rng - 1)}" using Suc.prems(5) x(2,3) by auto
  moreover have "\<forall>j. Suc a \<le> j \<and> j < b \<longrightarrow> sv_list w ! j = 0" using Suc.prems(6) w(4) by auto
  ultimately have "draw_points rnd n' rng seed [Suc a..<b] w \<noteq> None"
    using Suc.hyps ab(1) w(2,3) Suc.prems(4) by (intro Suc.hyps(1)) auto
  then show ?case using ab(2) x(1) w(1) by simp
qed

section \<open>Sorting the points\<close>

definition bstep :: "nat \<Rightarrow> int list \<Rightarrow> int list" where
  "bstep j xs = (if xs ! (j - 1) > xs ! j then xs[j - 1 := xs ! j, j := xs ! (j - 1)] else xs)"

lemma bubble_step_list:
  assumes "sv_ok v" "1 \<le> j" "j < sv_size v"
  shows "\<exists>w. bubble_step j v = Inr w \<and> sv_ok w \<and> sv_size w = sv_size v \<and> sv_list w = bstep j (sv_list v)"
proof -
  have i: "int j - 1 = int (j - 1)" using assms(2) by simp
  have g: "sv_get v (int (j - 1)) = Inr (sv_list v ! (j - 1))" "sv_get v (int j) = Inr (sv_list v ! j)"
    using sv_get_ok [of v "int (j - 1)"] sv_get_ok [of v "int j"] assms
    by (simp_all del: of_nat_diff)
  show ?thesis
  proof (cases "sv_list v ! (j - 1) > sv_list v ! j")
    case True
    have lt: "nat (int (j - 1)) < sv_size v" using assms(3) by simp
    from sv_set_ok [OF assms(1) of_nat_0_le_iff lt, of "sv_list v ! j"] obtain u where
      u: "sv_set (int (j - 1)) (sv_list v ! j) v = Inr u" "sv_ok u" "sv_size u = sv_size v"
      "sv_list u = (sv_list v)[j - 1 := sv_list v ! j]" unfolding nat_int by blast
    from sv_set_ok [OF u(2), of "int j" "sv_list v ! (j - 1)"] u(3) assms(3) obtain w where
      "sv_set (int j) (sv_list v ! (j - 1)) u = Inr w" "sv_ok w" "sv_size w = sv_size v"
      "sv_list w = (sv_list u)[j := sv_list v ! (j - 1)]" by auto
    with True g u show ?thesis unfolding bubble_step_def bstep_def i by (simp del: of_nat_diff)
  next
    case False
    with g assms(1) show ?thesis unfolding bubble_step_def bstep_def i by (simp del: of_nat_diff)
  qed
qed

lemma length_bstep [simp]: "length (bstep j xs) = length xs"
  by (simp add: bstep_def)

lemma length_fold_bstep [simp]: "length (fold bstep js xs) = length xs"
  by (induction js arbitrary: xs) simp_all

lemma mset_bstep: "j < length xs \<Longrightarrow> mset (bstep j xs) = mset xs"
proof -
  assume "j < length xs"
  then have "mset (xs[j - 1 := xs ! j, j := xs ! (j - 1)]) = mset xs" by (intro mset_swap) auto
  then show ?thesis by (simp add: bstep_def)
qed

lemma mset_fold_bstep: "\<forall>j \<in> set js. j < length xs \<Longrightarrow> mset (fold bstep js xs) = mset xs"
  by (induction js arbitrary: xs) (simp_all add: mset_bstep)

lemma take_two_updates:
  assumes "Suc m < length ys"
  shows "take (Suc (Suc m)) (ys[m := a, Suc m := b]) = take m ys @ [a, b]"
proof -
  have "take (Suc (Suc m)) (ys[m := a, Suc m := b])
      = take m (ys[m := a, Suc m := b]) @ [ys[m := a, Suc m := b] ! m, ys[m := a, Suc m := b] ! Suc m]"
    using assms by (simp add: take_Suc_conv_app_nth)
  also have "\<dots> = take m ys @ [a, b]" using assms by simp
  finally show ?thesis .
qed

text \<open>A pass over the first \<open>k\<close> elements brings their maximum to the last of them.\<close>

lemma pass_prefix:
  assumes "1 \<le> k" "k \<le> length xs"
  shows "drop k (fold bstep [1..<k] xs) = drop k xs \<and>
    set (take k (fold bstep [1..<k] xs)) = set (take k xs) \<and>
    (\<forall>y \<in> set (take k xs). y \<le> fold bstep [1..<k] xs ! (k - 1))"
  using assms
proof (induction k)
  case (Suc k)
  show ?case
  proof (cases "k = 0")
    case True
    with Suc.prems show ?thesis by (cases xs) auto
  next
    case False
    let ?ys = "fold bstep [1..<k] xs"
    from False Suc have IH: "drop k ?ys = drop k xs" "set (take k ?ys) = set (take k xs)"
      "\<forall>y \<in> set (take k xs). y \<le> ?ys ! (k - 1)" by auto
    have k: "k < length ?ys" "k - 1 < k" using Suc.prems False by simp_all
    have nk: "?ys ! k = xs ! k"
      using IH(1) k(1) by (metis length_fold_bstep hd_drop_conv_nth)
    have fold: "fold bstep [1..<Suc k] xs = bstep k ?ys" using False by simp
    have "take k ?ys = take (k - 1) ?ys @ [?ys ! (k - 1)]"
      using k take_Suc_conv_app_nth [of "k - 1" ?ys] False by simp
    then have tk: "set (take k xs) = insert (?ys ! (k - 1)) (set (take (k - 1) ?ys))"
      using IH(2) by auto
    have tS: "set (take (Suc k) xs) = insert (xs ! k) (set (take k xs))"
      using k(1) by (simp add: take_Suc_conv_app_nth)
    show ?thesis
    proof (cases "?ys ! (k - 1) > ?ys ! k")
      case True
      let ?zs = "?ys[k - 1 := ?ys ! k, k := ?ys ! (k - 1)]"
      have b: "bstep k ?ys = ?zs" using True by (simp add: bstep_def)
      have "take (Suc k) ?zs = take (k - 1) ?ys @ [?ys ! k, ?ys ! (k - 1)]"
        using take_two_updates [of "k - 1" ?ys] k False by simp
      then have "set (take (Suc k) ?zs) = set (take (Suc k) xs)" using tk tS nk by auto
      moreover have "drop (Suc k) ?zs = drop (Suc k) xs"
        using IH(1) k by (metis drop_update_cancel lessI less_SucI drop_drop plus_1_eq_Suc)
      moreover have "\<forall>y \<in> set (take (Suc k) xs). y \<le> ?zs ! k"
        using True IH(3) tS nk k by auto
      ultimately show ?thesis unfolding fold b by simp
    next
      case F: False
      then have b: "bstep k ?ys = ?ys" by (simp add: bstep_def)
      have "set (take (Suc k) ?ys) = set (take (Suc k) xs)"
        using tS IH(2) nk k(1) by (simp add: take_Suc_conv_app_nth del: length_fold_bstep)
      moreover have "drop (Suc k) ?ys = drop (Suc k) xs"
        using IH(1) by (metis drop_drop plus_1_eq_Suc)
      moreover have "\<forall>y \<in> set (take (Suc k) xs). y \<le> ?ys ! k" using F IH(3) tS nk by fastforce
      ultimately show ?thesis unfolding fold b by simp
    qed
  qed
qed simp

text \<open>From index \<open>m\<close> on, the list is sorted and above everything before.\<close>

definition sorted_from :: "nat \<Rightarrow> int list \<Rightarrow> bool" where
  "sorted_from m xs \<longleftrightarrow> (\<forall>i j. i < j \<and> m \<le> j \<and> j < length xs \<longrightarrow> xs ! i \<le> xs ! j)"

lemma pass_suffix:
  "sorted_from m xs \<Longrightarrow> 1 \<le> m \<Longrightarrow> \<forall>j \<in> set js. m \<le> j \<and> j < length xs \<Longrightarrow> fold bstep js xs = xs"
proof (induction js)
  case (Cons j js)
  then have "xs ! (j - 1) \<le> xs ! j" unfolding sorted_from_def by auto
  then have "bstep j xs = xs" by (simp add: bstep_def)
  with Cons show ?case by simp
qed simp

lemma pass_sorted_from:
  assumes "sorted_from m xs" "1 \<le> m" "m \<le> length xs"
  shows "sorted_from (m - 1) (fold bstep [1..<length xs] xs)"
proof -
  let ?ys = "fold bstep [1..<m] xs"
  from pass_prefix [OF assms(2,3)] have
    p: "drop m ?ys = drop m xs" "set (take m ?ys) = set (take m xs)"
      "\<forall>y \<in> set (take m xs). y \<le> ?ys ! (m - 1)" by auto
  have n: "?ys ! j = xs ! j" if "m \<le> j" "j < length xs" for j
    using arg_cong [OF p(1), of "\<lambda>l. l ! (j - m)"] that by simp
  have lo: "?ys ! i \<in> set (take m xs)" if "i < m" for i
  proof -
    have "take m ?ys ! i \<in> set (take m ?ys)" using that assms(3) by (intro nth_mem) simp
    with that p(2) show ?thesis by simp
  qed
  have up: "y \<le> xs ! j" if y: "y \<in> set (take m xs)" and j: "m \<le> j" "j < length xs" for y j
  proof -
    from y obtain i where "i < m" "y = xs ! i" by (auto simp: in_set_conv_nth)
    with assms(1) j show ?thesis by (auto simp: sorted_from_def)
  qed
  have s: "sorted_from (m - 1) ?ys" unfolding sorted_from_def
  proof (intro allI impI, elim conjE)
    fix i j assume ij: "i < j" "m - 1 \<le> j" "j < length ?ys"
    show "?ys ! i \<le> ?ys ! j"
    proof (cases "m \<le> j")
      case True
      show ?thesis
      proof (cases "i < m")
        case i: True
        with lo up n True ij show ?thesis by simp
      next
        case False
        with n True ij assms(1) show ?thesis by (simp add: sorted_from_def)
      qed
    next
      case False
      then have "j = m - 1" "i < m" using ij by auto
      with lo p(3) show ?thesis by simp
    qed
  qed
  then have "sorted_from m ?ys" unfolding sorted_from_def by auto
  then have "fold bstep [m..<length xs] ?ys = ?ys"
    using assms(2) by (intro pass_suffix) auto
  moreover have "[1..<length xs] = [1..<m] @ [m..<length xs]"
    using assms(2,3) upt_add_eq_append [of 1 m "length xs - m"] by simp
  ultimately show ?thesis using s by (simp del: upt_Suc)
qed

lemma passes_sort:
  assumes "k \<le> length xs"
  shows "sorted_from (length xs - k) (fold (\<lambda>_. fold bstep [1..<length xs]) [0..<k] xs) \<and>
    mset (fold (\<lambda>_. fold bstep [1..<length xs]) [0..<k] xs) = mset xs"
  using assms
proof (induction k)
  case 0
  show ?case by (simp add: sorted_from_def)
next
  case (Suc k)
  let ?ys = "fold (\<lambda>_. fold bstep [1..<length xs]) [0..<k] xs"
  from Suc have IH: "sorted_from (length xs - k) ?ys" "mset ?ys = mset xs" by auto
  then have len: "length ?ys = length xs" by (metis size_mset)
  with pass_sorted_from [OF IH(1)] Suc.prems mset_fold_bstep [of "[1..<length xs]" ?ys] IH(2)
  show ?case by (simp add: Suc_diff_Suc del: upt_Suc) (simp add: upt_Suc)
qed

lemma bubble_points_sorts:
  assumes "sv_ok v" "sv_size v = n"
  shows "\<exists>w. bubble_points n v = Inr w \<and> sv_ok w \<and> sv_size w = n \<and>
    sorted (sv_list w) \<and> mset (sv_list w) = mset (sv_list v)"
proof -
  have pass: "\<exists>w. foldR bubble_step js u = Inr w \<and> sv_ok w \<and> sv_size w = n \<and>
      sv_list w = fold bstep js (sv_list u)"
    if "sv_ok u" "sv_size u = n" "\<forall>j \<in> set js. 1 \<le> j \<and> j < n" for js u
    using that
  proof (induction js arbitrary: u)
    case (Cons j js)
    from bubble_step_list [of u j] Cons.prems obtain u1 where
      u1: "bubble_step j u = Inr u1" "sv_ok u1" "sv_size u1 = n" "sv_list u1 = bstep j (sv_list u)" by auto
    from Cons.IH [of u1] Cons.prems u1 show ?case by auto
  qed simp
  have "\<exists>w. foldR (\<lambda>i. foldR bubble_step [1..<n]) ks u = Inr w \<and> sv_ok w \<and> sv_size w = n \<and>
      sv_list w = fold (\<lambda>_. fold bstep [1..<n]) ks (sv_list u)"
    if "sv_ok u" "sv_size u = n" for ks :: "nat list" and u
    using that
  proof (induction ks arbitrary: u)
    case (Cons k ks)
    from pass [of u "[1..<n]"] Cons.prems obtain u1 where
      u1: "foldR bubble_step [1..<n] u = Inr u1" "sv_ok u1" "sv_size u1 = n"
      "sv_list u1 = fold bstep [1..<n] (sv_list u)" by auto
    from Cons.IH [OF u1(2,3)] u1 show ?case by auto
  qed simp
  from this [OF assms, of "[0..<n]"] obtain w where
    w: "bubble_points n v = Inr w" "sv_ok w" "sv_size w = n"
    "sv_list w = fold (\<lambda>_. fold bstep [1..<n]) [0..<n] (sv_list v)"
    by (auto simp: bubble_points_def)
  have "length (sv_list v) = n" using assms by simp
  with passes_sort [of n "sv_list v"] w(4) have
    "sorted_from 0 (sv_list w)" "mset (sv_list w) = mset (sv_list v)" by simp_all
  moreover from this(1) have "sorted (sv_list w)"
    by (auto simp: sorted_from_def sorted_iff_nth_mono_less)
  ultimately show ?thesis using w by blast
qed

end
