(* ===== verification/Scheduler_Order.thy ===== *)
theory Scheduler_Order
  imports Scheduler_Facts
begin

text \<open>
  The scheduler's two vectors as one priority order, the thread chosen in that order, and the
  properties of \<open>schedule.cc\<close>.
\<close>

section \<open>The priority order\<close>

definition prio_order :: "sched \<Rightarrow> int list" where
  "prio_order s = sv_list (highvec s) @ sv_list (lowvec s)"

definition prio_vecs_ok :: "sched \<Rightarrow> bool" where
  "prio_vecs_ok s \<longleftrightarrow> sv_ok (highvec s) \<and> sv_ok (lowvec s) \<and> highsize s = sv_size (highvec s)"

text \<open>Every enabled thread has a place in the order.\<close>

definition prio_ok :: "sched \<Rightarrow> bool" where
  "prio_ok s \<longleftrightarrow> prio_vecs_ok s \<and> int ` set (threads_with THREAD_ENABLED s) \<subseteq> set (prio_order s)"

lemma set_threads_with [simp]:
  "t \<in> set (threads_with e s) \<longleftrightarrow> t < length (enabled s) \<and> enabled s ! t = e"
  by (auto simp: threads_with_def)

lemma threads_with_eq_Nil: "threads_with e s = [] \<longleftrightarrow> e \<notin> set (enabled s)"
  by (auto simp: threads_with_def filter_empty_conv in_set_conv_nth)

lemma find_append: "List.find P (xs @ ys) = (case List.find P xs of Some x \<Rightarrow> Some x | None \<Rightarrow> List.find P ys)"
  by (induction xs) auto

lemma find_split:
  "List.find P xs = Some x \<longleftrightarrow> (\<exists>p q. xs = p @ x # q \<and> P x \<and> (\<forall>y \<in> set p. \<not> P y))"
proof (induction xs)
  case (Cons a xs)
  show ?case
  proof (cases "P a")
    case True
    then show ?thesis by (auto simp: Cons_eq_append_conv)
  next
    case False
    have "(\<exists>p q. a # xs = p @ x # q \<and> P x \<and> (\<forall>y \<in> set p. \<not> P y)) \<longleftrightarrow>
        (\<exists>p q. xs = p @ x # q \<and> P x \<and> (\<forall>y \<in> set p. \<not> P y))" (is "?l = ?r")
    proof
      assume ?l
      then obtain p q where "a # xs = p @ x # q" "P x" "\<forall>y \<in> set p. \<not> P y" by blast
      with False show ?r by (cases p) auto
    next
      assume ?r
      then obtain p q where "xs = p @ x # q" "P x" "\<forall>y \<in> set p. \<not> P y" by blast
      with False have "a # xs = (a # p) @ x # q \<and> P x \<and> (\<forall>y \<in> set (a # p). \<not> P y)" by simp
      then show ?l by blast
    qed
    with Cons False show ?thesis by simp
  qed
qed simp

lemma find_highest_eq:
  "prio_vecs_ok s \<Longrightarrow> find_highest avail s =
     Inr (case List.find (\<lambda>x. x \<in> int ` set avail) (prio_order s) of Some x \<Rightarrow> x | None \<Rightarrow> 0)"
  by (auto simp: find_highest_def prio_vecs_ok_def first_avail_find prio_order_def find_append
      split: option.splits)

lemma find_highest_first:
  assumes "prio_ok s" "threads_with THREAD_ENABLED s \<noteq> []"
  shows "\<exists>t p q. find_highest (threads_with THREAD_ENABLED s) s = Inr (int t) \<and>
    prio_order s = p @ int t # q \<and> t \<in> set (threads_with THREAD_ENABLED s) \<and>
    (\<forall>u \<in> set (threads_with THREAD_ENABLED s). int u \<notin> set p)"
proof -
  let ?P = "\<lambda>x. x \<in> int ` set (threads_with THREAD_ENABLED s)"
  obtain t0 where "t0 \<in> set (threads_with THREAD_ENABLED s)" using assms(2) by (meson last_in_set)
  then have "int t0 \<in> set (prio_order s)" "?P (int t0)" using assms(1) unfolding prio_ok_def by blast+
  then have "List.find ?P (prio_order s) \<noteq> None" unfolding find_None_iff by blast
  then obtain x where x: "List.find ?P (prio_order s) = Some x" by blast
  then obtain p q where pq: "prio_order s = p @ x # q" "?P x" "\<forall>y \<in> set p. \<not> ?P y"
    unfolding find_split by blast
  moreover have "find_highest (threads_with THREAD_ENABLED s) s = Inr x"
    using assms(1) x by (simp add: find_highest_eq prio_ok_def)
  ultimately show ?thesis by blast
qed

lemma prio_fields [simp]:
  "prio_order (s\<lparr>schelen := n\<rparr>) = prio_order s" "prio_ok (s\<lparr>schelen := n\<rparr>) = prio_ok s"
  "threads_with e (s\<lparr>schelen := n\<rparr>) = threads_with e s"
  by (simp_all add: prio_order_def prio_ok_def prio_vecs_ok_def threads_with_def)

lemma selectThread_member:
  "ts \<noteq> [] \<Longrightarrow> \<exists>t. selectThread r ts = Inr t \<and> t \<in> set ts"
  by (simp add: selectThread_def)

lemma set_enabled_nth:
  "enabled (set_enabled t e s) ! t = e" "t < length (enabled (set_enabled t e s))"
  "u \<noteq> t \<Longrightarrow> u < length (enabled s) \<Longrightarrow> enabled (set_enabled t e s) ! u = enabled s ! u"
  by (auto simp: set_enabled_def Let_def nth_append)

section \<open>The two highest threads\<close>

definition is_avail :: "nat list \<Rightarrow> int \<Rightarrow> bool" where
  "is_avail avail x \<longleftrightarrow> x \<in> int ` set avail"

lemma second_avail_filter:
  "sv_ok v \<Longrightarrow> i + m \<le> sv_size v \<Longrightarrow> second_avail v avail i m h = Inr
     (case filter (is_avail avail) (take m (drop i (sv_list v))) of
        [] \<Rightarrow> Inr h
      | x # xs \<Rightarrow> if h \<noteq> -1 then Inl x else case xs of [] \<Rightarrow> Inr x | y # _ \<Rightarrow> Inl y)"
proof (induction m arbitrary: i h)
  case (Suc m)
  have t: "take (Suc m) (drop i (sv_list v)) = sv_list v ! i # take m (drop (Suc i) (sv_list v))"
    using Suc.prems by (simp add: Cons_nth_drop_Suc [symmetric])
  have a: "list_ex (\<lambda>t. int t = x) avail \<longleftrightarrow> is_avail avail x" for x
    by (auto simp: list_ex_iff is_avail_def)
  have nn: "is_avail avail x \<Longrightarrow> x \<noteq> -1" for x by (auto simp: is_avail_def)
  show ?case using Suc.IH [of "Suc i"] Suc.prems nn
    by (auto simp: t a split: list.splits)
qed simp

lemma get_second_eq:
  assumes "prio_vecs_ok s"
  shows "get_scecond_high_thread s = Inr
    (let avail = threads_with THREAD_ENABLED s in
     if length avail = 1 then int (avail ! 0)
     else case filter (is_avail avail) (prio_order s) of x # y # _ \<Rightarrow> y | _ \<Rightarrow> -1)"
proof -
  let ?a = "threads_with THREAD_ENABLED s"
  have nn: "x \<noteq> -1" if "filter (is_avail ?a) xs = x # ys" for x xs ys
  proof -
    have "x \<in> set (filter (is_avail ?a) xs)" using that by simp
    then show ?thesis by (auto simp: is_avail_def)
  qed
  show ?thesis using assms nn
    by (auto simp: get_scecond_high_thread_def prio_vecs_ok_def second_avail_filter prio_order_def
        Let_def split: list.splits)
qed

lemma get_highest_eq:
  assumes "prio_vecs_ok s"
  shows "get_highest_thread s = Inr
    (let avail = threads_with THREAD_ENABLED s in
     if length avail = 1 then int (avail ! 0)
     else case List.find (\<lambda>x. x \<in> int ` set avail) (prio_order s) of Some x \<Rightarrow> x | None \<Rightarrow> -1)"
  using assms
  by (auto simp: get_highest_thread_def prio_vecs_ok_def first_avail_find prio_order_def Let_def
      find_append split: option.splits)

section \<open>Lowering a thread\<close>

text \<open>The threads of a vector; \<open>-1\<close> marks an empty slot.\<close>

definition slots :: "int list \<Rightarrow> int list" where
  "slots xs = filter (\<lambda>x. x \<noteq> -1) xs"

lemma filter_update_out:
  assumes "i < length xs" "\<not> P (xs ! i)" "\<not> P y"
  shows "filter P (xs[i := y]) = filter P xs"
  using assms
proof (induction xs arbitrary: i)
  case (Cons a xs)
  then show ?case by (cases i) simp_all
qed simp

lemma distinct_slots_count: "distinct (slots xs) \<longleftrightarrow> (\<forall>x. x \<noteq> -1 \<longrightarrow> count (mset xs) x \<le> 1)"
proof -
  have c: "count (mset xs) x = count (mset (slots xs)) x" if "x \<noteq> -1" for x
    using that by (simp add: slots_def)
  have z: "count (mset (slots xs)) (-1) = 0" by (simp add: count_eq_zero_iff slots_def)
  have "distinct (slots xs) \<longleftrightarrow> (\<forall>x. count (mset (slots xs)) x \<le> 1)"
    unfolding distinct_count_atmost_1
    by (metis One_nat_def count_greater_eq_one_iff count_mset_0_iff le_antisym le_numeral_extra(4) set_mset_mset zero_le_one)
  then show ?thesis using c z by (metis zero_le_one)
qed

text \<open>The first occurrence of \<open>t\<close> is emptied, and then \<open>t\<close> is put into slot \<open>k\<close>.\<close>

lemma clear_count:
  assumes "i < length xs" "xs ! i = (t::int)" "t \<noteq> -1" "x \<noteq> -1"
  shows "count (mset (xs[i := -1])) x = count (mset xs) x - (if x = t then 1 else 0)"
  using assms by (auto simp: mset_update)

lemma put_count:
  assumes "k < length xs" "xs ! k = -1 \<or> xs ! k = (t::int)" "x \<noteq> -1"
  shows "count (mset (xs[k := t])) x =
    (if x = t then (if xs ! k = t then count (mset xs) t else Suc (count (mset xs) t)) else count (mset xs) x)"
proof (cases "xs ! k = t")
  case True
  then have "xs[k := t] = xs" by (metis list_update_id)
  with True show ?thesis by simp
next
  case False
  with assms show ?thesis by (auto simp: mset_update)
qed

definition others :: "int \<Rightarrow> int list \<Rightarrow> int list" where
  "others t xs = filter (\<lambda>x. x \<noteq> -1 \<and> x \<noteq> t) xs"

lemma others_update:
  "i < length xs \<Longrightarrow> xs ! i \<in> {-1, t} \<Longrightarrow> y \<in> {-1, t} \<Longrightarrow> others t (xs[i := y]) = others t xs"
  unfolding others_def by (rule filter_update_out) auto

lemma scan_result:
  assumes "sv_ok v" "n = sv_size v"
  shows "(scan_for v x 0 n = Inr None \<and> x \<notin> set (sv_list v)) \<or>
    (\<exists>i < sv_size v. scan_for v x 0 n = Inr (Some i) \<and> sv_list v ! i = x)"
proof -
  from scan_for_first [OF assms(1), of 0 n x] assms obtain r where "scan_for v x 0 n = Inr r"
    "case r of None \<Rightarrow> x \<notin> set (sv_list v) | Some j \<Rightarrow> j < sv_size v \<and> sv_list v ! j = x"
    by (auto split: option.splits)
  then show ?thesis by (cases r) auto
qed

lemma clear_ok:
  assumes "sv_ok v" "i < sv_size v"
  obtains w where "sv_set (int i) x v = Inr w" "sv_ok w" "sv_size w = sv_size v"
    "sv_list w = (sv_list v)[i := x]"
proof -
  from sv_set_ok [OF assms(1), of "int i" x] assms(2) that show ?thesis by auto
qed

lemma movethread_effect:
  assumes "prio_vecs_ok s" "distinct (slots (prio_order s))" "k < sv_size (lowvec s)" "t \<noteq> -1"
    and "sv_list (lowvec s) ! k \<in> {-1, t}"
  shows "\<exists>s'. movethread (int k) t s = Inr s' \<and> prio_vecs_ok s' \<and>
    sv_size (lowvec s') = sv_size (lowvec s) \<and> sv_list (lowvec s') ! k = t \<and>
    others t (prio_order s') = others t (prio_order s) \<and> distinct (slots (prio_order s')) \<and>
    s' = s\<lparr>highvec := highvec s', lowvec := lowvec s'\<rparr>"
proof -
  let ?h = "sv_list (highvec s)" and ?l = "sv_list (lowvec s)"
  have ok: "sv_ok (highvec s)" "sv_ok (lowvec s)" "highsize s = sv_size (highvec s)"
    using assms(1) by (auto simp: prio_vecs_ok_def)
  have c: "x \<noteq> -1 \<Longrightarrow> count (mset ?h) x + count (mset ?l) x \<le> 1" for x
    using assms(2) by (simp add: distinct_slots_count prio_order_def)
  from scan_result [OF ok(1,3), of t] consider
    (none) "scan_for (highvec s) t 0 (highsize s) = Inr None" "t \<notin> set ?h"
    | (high) i where "i < sv_size (highvec s)" "scan_for (highvec s) t 0 (highsize s) = Inr (Some i)"
        "?h ! i = t" by blast
  then show ?thesis
  proof cases
    case high
    from clear_ok [OF ok(1) high(1), of "-1"] obtain h where
      h: "sv_set (int i) (-1) (highvec s) = Inr h" "sv_ok h" "sv_size h = sv_size (highvec s)"
      "sv_list h = ?h[i := -1]" by blast
    from clear_ok [OF ok(2) assms(3), of t] obtain l where
      l: "sv_set (int k) t (lowvec s) = Inr l" "sv_ok l" "sv_size l = sv_size (lowvec s)"
      "sv_list l = ?l[k := t]" by blast
    let ?s = "s\<lparr>highvec := h, lowvec := l\<rparr>"
    have m: "movethread (int k) t s = Inr ?s" using high(2) h(1) l(1) by (simp add: movethread_def)
    have v: "prio_vecs_ok ?s" using h l ok by (simp add: prio_vecs_ok_def)
    have n: "sv_list l ! k = t" using l(4) assms(3) ok by simp
    have o: "others t (prio_order ?s) = others t (prio_order s)"
      using others_update [of i ?h t "-1"] others_update [of k ?l t t] high h(4) l(4) assms(3,5) ok
      by (simp add: prio_order_def others_def)
    have "?h ! i \<in> set ?h" using high(1) ok by simp
    with high(3) have "1 \<le> count (mset ?h) t" by (simp add: Suc_le_eq)
    then have lt: "count (mset ?l) t = 0" "count (mset ?h) t = 1" using c [OF assms(4)] by linarith+
    then have "?l ! k \<noteq> t" using assms(3) ok by (metis count_mset_0_iff length_sv_list nth_mem)
    then have d: "distinct (slots (prio_order ?s))"
      using clear_count [of i ?h t] put_count [of k ?l t] high h(4) l(4) assms(3,4,5) ok lt c
      by (auto simp: distinct_slots_count prio_order_def)
    show ?thesis by (rule exI [of _ ?s]) (use m v n o d l(3) in simp)
  next
    case none
    have ht: "count (mset ?h) t = 0" using none(2) by (simp add: count_eq_zero_iff)
    from scan_result [OF ok(2) refl, of t] consider
      (absent) "scan_for (lowvec s) t 0 (sv_size (lowvec s)) = Inr None" "t \<notin> set ?l"
      | (low) i where "i < sv_size (lowvec s)"
          "scan_for (lowvec s) t 0 (sv_size (lowvec s)) = Inr (Some i)" "?l ! i = t" by blast
    then show ?thesis
    proof cases
      case absent
      from clear_ok [OF ok(2) assms(3), of t] obtain l where
        l: "sv_set (int k) t (lowvec s) = Inr l" "sv_ok l" "sv_size l = sv_size (lowvec s)"
        "sv_list l = ?l[k := t]" by blast
      let ?s = "s\<lparr>lowvec := l\<rparr>"
      have m: "movethread (int k) t s = Inr ?s" using none absent l(1) by (simp add: movethread_def)
      have v: "prio_vecs_ok ?s" using l ok by (simp add: prio_vecs_ok_def)
      have n: "sv_list l ! k = t" using l(4) assms(3) ok by simp
      have o: "others t (prio_order ?s) = others t (prio_order s)"
        using others_update [of k ?l t t] l(4) assms(3,5) ok by (simp add: prio_order_def others_def)
      have "count (mset ?l) t = 0" "?l ! k \<noteq> t" using absent(2) assms(3) ok
        by (simp add: count_eq_zero_iff, metis length_sv_list nth_mem)
      then have d: "distinct (slots (prio_order ?s))"
        using put_count [of k ?l t] l(4) assms(3,5) ok ht c
        by (auto simp: distinct_slots_count prio_order_def)
      show ?thesis by (rule exI [of _ ?s]) (use m v n o d l(3) in simp)
    next
      case low
      from clear_ok [OF ok(2) low(1), of "-1"] obtain u where
        u: "sv_set (int i) (-1) (lowvec s) = Inr u" "sv_ok u" "sv_size u = sv_size (lowvec s)"
        "sv_list u = ?l[i := -1]" by blast
      have ku: "k < sv_size u" using u(3) assms(3) by simp
      from clear_ok [OF u(2) ku, of t] obtain l where
        l: "sv_set (int k) t u = Inr l" "sv_ok l" "sv_size l = sv_size u"
        "sv_list l = (sv_list u)[k := t]" by blast
      let ?s = "s\<lparr>lowvec := l\<rparr>"
      have m: "movethread (int k) t s = Inr ?s" using none low u(1) l(1) by (simp add: movethread_def)
      have v: "prio_vecs_ok ?s" using l ok by (simp add: prio_vecs_ok_def)
      have n: "sv_list l ! k = t" using l(4) u assms(3) ok by simp
      have uk: "sv_list u ! k \<in> {-1, t}" using u(4) assms(3,5) low(1) ok by (cases "i = k") auto
      have "others t (sv_list u) = others t ?l"
        using others_update [of i ?l t "-1"] low u(4) ok by simp
      moreover have "others t (sv_list l) = others t (sv_list u)"
        using others_update [OF _ uk, of t] ku u(2) l(4) by simp
      ultimately have o: "others t (prio_order ?s) = others t (prio_order s)"
        by (simp add: prio_order_def others_def)
      have "?l ! i \<in> set ?l" using low(1) ok by simp
      with low(3) have "1 \<le> count (mset ?l) t" by (simp add: Suc_le_eq)
      then have lt: "count (mset ?l) t = 1" using c [OF assms(4)] by linarith
      have ut: "x \<noteq> -1 \<Longrightarrow> count (mset (sv_list u)) x = count (mset ?l) x - (if x = t then 1 else 0)" for x
        using clear_count [of i ?l t x] low u(4) assms(4) ok by simp
      then have "count (mset (sv_list u)) t = 0" using lt assms(4) by simp
      then have "sv_list u ! k \<noteq> t" using ku u(2) by (metis count_mset_0_iff length_sv_list nth_mem)
      then have d: "distinct (slots (prio_order ?s))"
        using put_count [of k "sv_list u" t] l(4) ku uk u(2) ht c ut lt
        by (auto simp: distinct_slots_count prio_order_def)
      show ?thesis by (rule exI [of _ ?s]) (use m v n o d l(3) u(3) in simp)
    qed
  qed
qed

section \<open>The flags of external reads\<close>

definition ext_flag :: "sched \<Rightarrow> nat \<Rightarrow> bool" where
  "ext_flag s t = nth_default False (sv_list (external_readnum_thread s)) t"

lemma nth_default_set: "i < length xs \<Longrightarrow> nth_default d (xs[i := x]) = (nth_default d xs)(i := x)"
  by (auto simp: nth_default_def fun_eq_iff nth_list_update)

lemma foldR_one: "foldR f [x] v = f x v"
  by (cases "f x v") simp_all

lemma nth_default_pad: "nth_default d (xs @ replicate n d) i = nth_default d xs i"
  by (auto simp: nth_default_def nth_append)

lemma add_external_flag:
  assumes "sv_room_for (t + 1 - sv_size (external_readnum_thread s)) (external_readnum_thread s)"
  shows "\<exists>s'. add_external_readnum_thread t s = Inr s' \<and> ext_flag s' = (ext_flag s)(t := True) \<and>
    sv_ok (external_readnum_thread s') \<and> s' = s\<lparr>external_readnum_thread := external_readnum_thread s'\<rparr>"
proof -
  let ?v = "external_readnum_thread s"
  let ?d = "t + 1 - sv_size ?v"
  have "length (replicate ?d False) = ?d" by simp
  with assms have "sv_room_for (length (replicate ?d False)) ?v" by simp
  from snapvec.push_list [OF this, of False] obtain w where
    w: "foldR (sv_push_back False) (replicate ?d False) ?v = Inr w" "sv_ok w"
    "sv_list w = sv_list ?v @ replicate ?d False" by blast
  have sz: "sv_size w = sv_size ?v + ?d"
    using w(2,3) assms length_sv_list [of w] length_sv_list [of ?v] by (simp add: sv_room_for_def)
  have w': "(if t \<ge> sv_size ?v then foldR (sv_push_back False) (replicate ?d False) ?v else Inr ?v) = Inr w"
    using w(1) by (auto simp: not_le)
  have "t < sv_size w" using sz by simp
  from clear_ok [OF w(2) this, of True] obtain u where
    u: "sv_set (int t) True w = Inr u" "sv_ok u" "sv_size u = sv_size w" "sv_list u = (sv_list w)[t := True]"
    by blast
  let ?s = "s\<lparr>external_readnum_thread := u\<rparr>"
  have "add_external_readnum_thread t s = Inr ?s"
    using w' u(1) unfolding add_external_readnum_thread_def Let_def by simp
  moreover have "ext_flag ?s = (ext_flag s)(t := True)"
  proof -
    have "t < length (sv_list w)" using w(2) \<open>t < sv_size w\<close> by simp
    from nth_default_set [OF this, of False True] show ?thesis
      using u(4) w(3) nth_default_pad [of False "sv_list ?v" ?d]
      by (simp add: ext_flag_def fun_eq_iff)
  qed
  ultimately show ?thesis using u(2) by (intro exI [of _ ?s]) simp
qed

lemma delete_external_flag:
  assumes "sv_ok (external_readnum_thread s)"
  shows "\<exists>s'. deleteone_external_readnum_thread t s = Inr (s', ext_flag s t) \<and>
    ext_flag s' = (ext_flag s)(t := False) \<and>
    sv_ok (external_readnum_thread s') \<and> s' = s\<lparr>external_readnum_thread := external_readnum_thread s'\<rparr>"
proof (cases "t < sv_size (external_readnum_thread s) \<and> ext_flag s t")
  case True
  let ?v = "external_readnum_thread s"
  from True clear_ok [OF assms, of t False] obtain u where
    u: "sv_set (int t) False ?v = Inr u" "sv_ok u" "sv_list u = (sv_list ?v)[t := False]" by blast
  let ?s = "s\<lparr>external_readnum_thread := u\<rparr>"
  from True assms have g: "sv_get ?v (int t) = Inr True" by (simp add: ext_flag_def nth_default_def)
  have "ext_flag ?s i = ((ext_flag s)(t := False)) i" for i
    using u(3) by (auto simp: ext_flag_def nth_default_def nth_list_update)
  then have "ext_flag ?s = (ext_flag s)(t := False)" by (rule ext)
  with True g u show ?thesis
    by (intro exI [of _ ?s]) (simp add: deleteone_external_readnum_thread_def Let_def)
next
  case False
  then have "\<not> ext_flag s t" using assms by (auto simp: ext_flag_def nth_default_def)
  moreover from this have "(ext_flag s)(t := False) = ext_flag s" by (simp add: fun_upd_idem_iff)
  ultimately show ?thesis using assms
    by (intro exI [of _ s])
       (auto simp: deleteone_external_readnum_thread_def Let_def ext_flag_def nth_default_def not_le)
qed

lemma get_external_flag:
  assumes "sv_room_for 1 (external_readnum_thread s)"
  shows "\<exists>s'. get_external_readnum_thread t s = Inr (s', ext_flag s t) \<and> ext_flag s' = ext_flag s \<and>
    sv_ok (external_readnum_thread s') \<and> s' = s\<lparr>external_readnum_thread := external_readnum_thread s'\<rparr>"
proof -
  let ?v = "external_readnum_thread s"
  have ok: "sv_ok ?v" using assms by (simp add: sv_room_for_def)
  have "sv_room_for (length [False]) ?v" using assms by simp
  from snapvec.push_list [OF this, of False] obtain w where
    w: "sv_push_back False False ?v = Inr w" "sv_ok w" "sv_list w = sv_list ?v @ [False]" unfolding foldR_one by blast
  let ?s = "s\<lparr>external_readnum_thread := w\<rparr>"
  have "ext_flag ?s = ext_flag s"
    using w(3) nth_default_pad [of False "sv_list ?v" 1] by (simp add: ext_flag_def fun_eq_iff)
  with w ok show ?thesis
    by (cases "t < sv_size ?v")
       (auto simp: get_external_readnum_thread_def Let_def ext_flag_def nth_default_def)
qed

end
