(* ===== verification/Scheduler_Props.thy ===== *)
theory Scheduler_Props
  imports Scheduler_Order
begin

text \<open>
  The properties of PCTWM's scheduler: what each operation of \<open>schedule.cc\<close> promises to the
  execution that drives it.
\<close>

section \<open>Enabling and adding threads\<close>

lemma set_enabled_status:
  "nth_default THREAD_DISABLED (enabled (set_enabled t e s)) =
     (nth_default THREAD_DISABLED (enabled s))(t := e)"
  by (auto simp: set_enabled_def Let_def nth_default_set nth_default_pad fun_eq_iff)

lemma set_enabled_set:
  "set (threads_with THREAD_ENABLED (set_enabled t THREAD_ENABLED s)) =
     insert t (set (threads_with THREAD_ENABLED s))"
proof -
  have "t \<in> set (threads_with THREAD_ENABLED s) \<longleftrightarrow>
      nth_default THREAD_DISABLED (enabled s) t = THREAD_ENABLED" for t s
    by (simp add: nth_default_def)
  then show ?thesis by (simp add: set_eq_iff set_enabled_status del: set_threads_with)
qed

lemma length_inserted: "length (take k xs @ y # drop k xs) = Suc (length xs)"
  by simp

lemma set_enabled_prio [simp]:
  "highvec (set_enabled t e s) = highvec s" "lowvec (set_enabled t e s) = lowvec s"
  "highsize (set_enabled t e s) = highsize s"
  by (simp_all add: set_enabled_def Let_def)

lemma all_sleeping_loop_eq:
  "all_sleeping_loop es b \<longleftrightarrow> THREAD_ENABLED \<notin> set es \<and> (b \<or> THREAD_SLEEP_SET \<in> set es)"
  by (induction es arbitrary: b) auto

text \<open>The enabled array is a total function from thread ids to status, \<open>DISABLED\<close> outside
  the array: \<open>set_enabled\<close> changes it at one thread and grows the array as needed,
  \<open>is_enabled\<close> is false exactly on disabled threads, and \<open>all_threads_sleeping\<close> holds exactly
  when no thread is enabled and some thread is in the sleep set.\<close>

theorem enabled_array_status:
  "nth_default THREAD_DISABLED (enabled (set_enabled t e s)) =
     (nth_default THREAD_DISABLED (enabled s))(t := e) \<and>
   (is_enabled u s = (nth_default THREAD_DISABLED (enabled s) u \<noteq> THREAD_DISABLED)) \<and>
   (all_threads_sleeping s =
     ((\<nexists>u. nth_default THREAD_DISABLED (enabled s) u = THREAD_ENABLED) \<and>
      (\<exists>u. nth_default THREAD_DISABLED (enabled s) u = THREAD_SLEEP_SET)))"
proof -
  have "is_enabled u s = (nth_default THREAD_DISABLED (enabled s) u \<noteq> THREAD_DISABLED)"
    by (simp add: is_enabled_def nth_default_def)
  moreover have "x \<noteq> THREAD_DISABLED \<Longrightarrow>
      (\<exists>u. nth_default THREAD_DISABLED (enabled s) u = x) \<longleftrightarrow> x \<in> set (enabled s)" for x
    by (auto simp: nth_default_def in_set_conv_nth)
  ultimately show ?thesis by (simp add: set_enabled_status all_threads_sleeping_def all_sleeping_loop_eq)
qed

text \<open>C31: \<open>add_thread\<close> enables the thread and inserts it into the priority vector at the position
  that the random number selects, shifting the threads behind it, and keeps every enabled thread
  in the priority order; but it works only for vectors of up to eight threads: the tenth thread
  overflows the array of \<open>oldhigh\<close>, which is never resized.\<close>

theorem add_thread_inserts:
  assumes "prio_ok s"
  shows "(highsize s \<le> 8 \<longrightarrow> (\<exists>s'. add_thread r t s = Inr s' \<and> prio_ok s' \<and> is_enabled t s' \<and>
      highsize s' = highsize s + 1 \<and> lowvec s' = lowvec s \<and>
      sv_list (highvec s') = take (r mod (highsize s + 1)) (sv_list (highvec s)) @
        int t # drop (r mod (highsize s + 1)) (sv_list (highvec s)))) \<and>
    (8 < highsize s \<longrightarrow> add_thread r t s = Inl Out_of_range)"
proof (intro conjI impI)
  let ?s = "set_enabled t THREAD_ENABLED s"
  assume "highsize s \<le> 8"
  then have "sv_ok (highvec ?s)" "highsize ?s = sv_size (highvec ?s)" "highsize ?s \<le> VECTOR_DEFCAP"
    using assms by (simp_all add: prio_ok_def prio_vecs_ok_def VECTOR_DEFCAP_def)
  from highvec_addthread_inserts [OF this, of r t] obtain s' where
    s': "highvec_addthread r t ?s = Inr s'" "sv_ok (highvec s')" "highsize s' = sv_size (highvec s')"
    "sv_list (highvec s') = take (r mod (highsize s + 1)) (sv_list (highvec s)) @
        int t # drop (r mod (highsize s + 1)) (sv_list (highvec s))"
    "s' = ?s\<lparr>highvec := highvec s', highsize := highsize s'\<rparr>" by auto
  have l: "lowvec s' = lowvec s" "enabled s' = enabled ?s"
    by (subst s'(5), simp)+
  have "highsize s' = highsize s + 1"
    using s'(3) length_sv_list [OF s'(2)] assms unfolding s'(4) length_inserted
    by (simp add: prio_ok_def prio_vecs_ok_def)
  moreover have set: "set (sv_list (highvec s')) = insert (int t) (set (sv_list (highvec s)))"
    unfolding s'(4) by (metis append_take_drop_id list.set(2) set_append Un_insert_right)
  have "threads_with THREAD_ENABLED s' = threads_with THREAD_ENABLED ?s"
    by (simp add: threads_with_def l)
  then have "int ` set (threads_with THREAD_ENABLED s') \<subseteq> set (prio_order s')"
    using set_enabled_set [of t s] assms set l(1) by (auto simp: prio_ok_def prio_order_def)
  then have "prio_ok s'" using s' l assms by (simp add: prio_ok_def prio_vecs_ok_def)
  moreover have "is_enabled t s'"
    using set_enabled_nth(1,2) [of t THREAD_ENABLED s] by (simp add: is_enabled_def l)
  ultimately show "\<exists>s'. add_thread r t s = Inr s' \<and> prio_ok s' \<and> is_enabled t s' \<and>
      highsize s' = highsize s + 1 \<and> lowvec s' = lowvec s \<and>
      sv_list (highvec s') = take (r mod (highsize s + 1)) (sv_list (highvec s)) @
        int t # drop (r mod (highsize s + 1)) (sv_list (highvec s))"
    using s'(1,4) l(1) by (intro exI [of _ s']) (simp add: add_thread_def)
next
  assume "8 < highsize s"
  then have "foldR (\<lambda>i old. bindR (sv_get (highvec s) (int i)) (\<lambda>x. sv_set (int i) x old))
      [0..<highsize s] (sv_new 0 VECTOR_DEFCAP) = Inl Out_of_range"
    using assms by (intro save_overflow) (simp_all add: prio_ok_def prio_vecs_ok_def VECTOR_DEFCAP_def)
  then show "add_thread r t s = Inl Out_of_range"
    by (simp add: add_thread_def highvec_addthread_def)
qed

theorem add_thread_inserts_witness:
  "\<exists>s'. add_thread 5 7 (scheduler_init 1) = Inr s' \<and> is_enabled 7 s' \<and> sv_list (highvec s') = [7]"
proof -
  have "prio_ok (scheduler_init 1)" "highsize (scheduler_init 1) = 0"
    "sv_list (highvec (scheduler_init 1)) = []"
    by (auto simp: prio_ok_def prio_vecs_ok_def scheduler_init_def VECTOR_DEFCAP_def sv_new_def
        sv_ok_def sv_list_def threads_with_def)
  with add_thread_inserts [of "scheduler_init 1" 5 7] show ?thesis by auto
qed

section \<open>The change points\<close>

lemma chg_pts_empty:
  assumes "sv_ok v" "sv_size v = 0" "n < 2 ^ 30"
  obtains w where "sv_resize 0 n v = Inr w" "sv_ok w" "sv_size w = n" "sv_list w = replicate n (0::int)"
proof -
  from sv_resize_ok [OF assms(1,3), of 0] obtain w where
    "sv_resize 0 n v = Inr w" "sv_ok w" "sv_size w = n" "sv_list w = resize n 0 (sv_list v)" by blast
  moreover have "sv_list v = []" using assms(2) by (simp add: sv_list_def)
  ultimately show ?thesis using that by (simp add: resize_def)
qed

text \<open>C28: With no more points than values and a source of random numbers that keeps producing
  every value, \<open>set_chg_pts_byread\<close> returns, and the change points it has drawn are strictly
  increasing numbers between 1 and the bound of instructions less one (at least 1).\<close>

theorem set_chg_pts_byread_points:
  assumes "0 < maxinstr" "0 < bugdepth" "bugdepth < 2 ^ 30" "bugdepth \<le> max 1 (maxinstr - 1)"
    and "sv_ok (chg_pts s)" "sv_size (chg_pts s) = 0" "fair_source rnd maxinstr seed"
  shows "\<exists>v. set_chg_pts_byread rnd bugdepth maxinstr seed s = Some (Inr (s\<lparr>chg_pts := v\<rparr>)) \<and>
    sv_ok v \<and> int (length (sv_list v)) = bugdepth \<and> sorted_wrt (<) (sv_list v) \<and>
    set (sv_list v) \<subseteq> {1..max 1 (maxinstr - 1)}"
proof -
  let ?b = "nat bugdepth"
  have b: "?b < 2 ^ 30" "int ?b \<le> max 1 (maxinstr - 1)" using assms(2-4) by simp_all
  from chg_pts_empty [OF assms(5,6) b(1)] obtain v where
    v: "sv_resize 0 ?b (chg_pts s) = Inr v" "sv_ok v" "sv_size v = ?b" "sv_list v = replicate ?b 0" by blast
  have z: "\<forall>j. 0 \<le> j \<and> j < ?b \<longrightarrow> sv_list v ! j = 0" using v(4) by simp
  from draw_points_ends [OF assms(1) v(2,3) le0 b(2) assms(7) _ z] obtain r where
    r: "draw_points rnd 0 maxinstr seed [0..<?b] v = Some r" by fastforce
  from draw_points_result [OF assms(1) v(2,3) le0 _ _ z r] obtain w where
    w: "r = Inr w" "sv_ok w" "sv_size w = ?b" "distinct (sv_list w)"
    "set (sv_list w) \<subseteq> {1..max 1 (maxinstr - 1)}" by auto
  from bubble_points_sorts [OF w(2,3)] obtain u where
    u: "bubble_points ?b w = Inr u" "sv_ok u" "sv_size u = ?b" "sorted (sv_list u)"
    "mset (sv_list u) = mset (sv_list w)" by blast
  have "distinct (sv_list u)" "set (sv_list u) = set (sv_list w)"
    using u(5) w(4) by (metis mset_eq_imp_distinct_iff, metis set_mset_mset)
  then have "sorted_wrt (<) (sv_list u)" "set (sv_list u) \<subseteq> {1..max 1 (maxinstr - 1)}"
    using u(4) w(5) by (simp_all add: strict_sorted_iff)
  then show ?thesis using assms(2) v(1) r w(1) u
    by (intro exI [of _ u]) (simp add: set_chg_pts_byread_def)
qed

text \<open>A source that counts up is fair for a zero seed.\<close>

lemma counting_source_fair: "fair_source (\<lambda>n. n) 4 0"
  unfolding fair_source_def
proof (intro ballI allI)
  fix x :: int and n :: nat
  assume x: "x \<in> {1..max 1 (4 - 1)}"
  have m: "int (4 * n + nat x) smod 4 = x"
  proof -
    have "int (4 * n + nat x) = x + 4 * int n" using x by simp
    moreover have "(x + 4 * int n) mod 4 = x mod 4" by simp
    ultimately have "int (4 * n + nat x) mod 4 = x" using x by simp
    then show ?thesis by (cases "4 * n + nat x = 0") (simp_all add: signed_modulo_int_def sgn_if)
  qed
  then have "getRandom (4 * n + nat x) 4 0 = Inr x" using x unfolding getRandom_def Let_def m by simp
  then have "draw (\<lambda>n. n) 4 0 (4 * n + nat x) = x" by (simp add: draw_def)
  then show "\<exists>m \<ge> n. draw (\<lambda>n. n) 4 0 m = x" by (intro exI [of _ "4 * n + nat x"]) simp
qed

theorem set_chg_pts_byread_points_witness:
  "\<exists>v. set_chg_pts_byread (\<lambda>n. n) 2 4 0 (scheduler_init 1) =
      Some (Inr (scheduler_init 1\<lparr>chg_pts := v\<rparr>)) \<and> sorted_wrt (<) (sv_list v)"
proof -
  have "sv_ok (chg_pts (scheduler_init 1))" "sv_size (chg_pts (scheduler_init 1)) = 0"
    by (simp_all add: scheduler_init_def VECTOR_DEFCAP_def sv_ok_def sv_new_def)
  from set_chg_pts_byread_points [OF _ _ _ _ this counting_source_fair, of 2] show ?thesis by auto
qed

text \<open>C29: With more points than values the loop that draws distinct points never ends, whatever
  numbers \<open>rand()\<close> returns: \<open>--bugdepth\<close> must be below \<open>--instrnum\<close>, which nothing checks.\<close>

theorem set_chg_pts_byread_diverges:
  assumes "0 < maxinstr" "bugdepth < 2 ^ 30" "max 1 (maxinstr - 1) < bugdepth"
    and "sv_ok (chg_pts s)" "sv_size (chg_pts s) = 0"
  shows "set_chg_pts_byread rnd bugdepth maxinstr seed s = None"
proof -
  let ?b = "nat bugdepth"
  have b: "?b < 2 ^ 30" "max 1 (maxinstr - 1) < int ?b" using assms(2,3) by simp_all
  from chg_pts_empty [OF assms(4,5) b(1)] obtain v where
    v: "sv_resize 0 ?b (chg_pts s) = Inr v" "sv_ok v" "sv_size v = ?b" "sv_list v = replicate ?b 0" by blast
  have "draw_points rnd 0 maxinstr seed [0..<?b] v = None"
    using v(4) by (intro draw_points_diverges [OF assms(1) v(2,3) le0 b(2)]) simp_all
  with v(1) assms(3) show ?thesis by (simp add: set_chg_pts_byread_def)
qed

theorem set_chg_pts_byread_diverges_witness:
  "set_chg_pts_byread (\<lambda>n. 3 * n) 7 5 0 (scheduler_init 1) = None"
proof -
  have "sv_ok (chg_pts (scheduler_init 1))" "sv_size (chg_pts (scheduler_init 1)) = 0"
    by (simp_all add: scheduler_init_def VECTOR_DEFCAP_def sv_ok_def sv_new_def)
  from set_chg_pts_byread_diverges [OF _ _ _ this, of 5 7] show ?thesis by simp
qed

section \<open>The next thread\<close>

text \<open>C27: In PCT mode and outside a livelock, \<open>select_next_thread\<close> returns the enabled thread
  that comes first in the priority order (high vector, then low vector), records it as
  \<open>highest_id\<close> and counts one scheduling step.\<close>

theorem select_next_thread_highest:
  assumes "prio_ok s" "usingpct s = 1" "schelen_limit s \<noteq> 0"
    and "\<not> livelock_test instrnum (schelen_limit s)" "\<exists>u < length (enabled s). enabled s ! u = THREAD_ENABLED"
  shows "\<exists>t p q. select_next_thread r instrnum s =
      Inr (s\<lparr>schelen := schelen s + 1, highest_id := int t\<rparr>, Some (int t)) \<and>
    prio_order s = p @ int t # q \<and> t < length (enabled s) \<and> enabled s ! t = THREAD_ENABLED \<and>
    (\<forall>u < length (enabled s). enabled s ! u = THREAD_ENABLED \<longrightarrow> int u \<notin> set p)"
proof -
  let ?s = "s\<lparr>schelen := schelen s + 1\<rparr>"
  have ne: "threads_with THREAD_ENABLED s \<noteq> []"
    using assms(5) by (auto simp: threads_with_eq_Nil in_set_conv_nth)
  with find_highest_first [of ?s] assms(1) obtain t p q where
    t: "find_highest (threads_with THREAD_ENABLED s) ?s = Inr (int t)"
    "prio_order s = p @ int t # q" "t \<in> set (threads_with THREAD_ENABLED s)"
    "\<forall>u \<in> set (threads_with THREAD_ENABLED s). int u \<notin> set p" by auto
  have "select_next_thread r instrnum s = Inr (?s\<lparr>highest_id := int t\<rparr>, Some (int t))"
    using ne assms(2-4) t(1) by (simp add: select_next_thread_def incSchelen_def Let_def)
  with t show ?thesis by (intro exI [of _ t] exI [of _ p] exI [of _ q]) auto
qed

definition pct_example :: sched where
  "pct_example = (scheduler_init 1)\<lparr>enabled := [THREAD_ENABLED, THREAD_DISABLED, THREAD_ENABLED],
     highvec := sv_of_array [1, 2], highsize := 2, lowvec := sv_of_array [0], schelen_limit := 38\<rparr>"

lemma pct_example_ok: "prio_ok pct_example"
proof -
  have "threads_with THREAD_ENABLED pct_example = [0, 2]"
    by (simp add: threads_with_def pct_example_def upt_rec)
  moreover have "prio_order pct_example = [1, 2, 0]"
    by (simp add: prio_order_def pct_example_def sv_list_def sv_of_array_def)
  moreover have "prio_vecs_ok pct_example"
    by (simp add: prio_vecs_ok_def pct_example_def sv_ok_def sv_of_array_def)
  ultimately show ?thesis by (simp add: prio_ok_def)
qed

theorem select_next_thread_highest_witness:
  "\<exists>t s'. select_next_thread 0 5 pct_example = Inr (s', Some (int t)) \<and> enabled pct_example ! t = THREAD_ENABLED"
proof -
  have "usingpct pct_example = 1" "schelen_limit pct_example = 38" "livelock_test 5 38 = False"
    "enabled pct_example = [THREAD_ENABLED, THREAD_DISABLED, THREAD_ENABLED]"
    by (simp_all add: pct_example_def scheduler_init_def livelock_test_def signed_modulo_int_def)
  with select_next_thread_highest [OF pct_example_ok, of 5 0] show ?thesis
    by (force intro: exI [of _ 0])
qed

text \<open>\<open>select_next_thread\<close> never picks a thread that cannot run, and never gives up while
  one can: it returns no thread only when none is enabled or in the sleep set, the thread it
  returns is enabled afterwards, and one taken from the sleep set has its wake-up flag set.\<close>

theorem select_next_thread_enabled:
  assumes "prio_ok s" "schelen_limit s \<noteq> 0"
  shows "\<exists>s' c. select_next_thread r instrnum s = Inr (s', c) \<and>
    (c = None \<longleftrightarrow> THREAD_ENABLED \<notin> set (enabled s) \<and> THREAD_SLEEP_SET \<notin> set (enabled s)) \<and>
    (\<forall>x. c = Some x \<longrightarrow> (\<exists>t. x = int t \<and> nth_default THREAD_DISABLED (enabled s') t = THREAD_ENABLED \<and>
      (enabled s ! t = THREAD_SLEEP_SET \<longrightarrow> wakeup_state s' t)))"
proof (cases "threads_with THREAD_ENABLED s = []")
  case True
  then have ne: "THREAD_ENABLED \<notin> set (enabled s)" by (simp add: threads_with_eq_Nil)
  show ?thesis
  proof (cases "threads_with THREAD_SLEEP_SET s = []")
    case T: True
    then have "THREAD_SLEEP_SET \<notin> set (enabled s)" by (simp add: threads_with_eq_Nil)
    with True T ne show ?thesis by (simp add: select_next_thread_def)
  next
    case False
    then have sl: "THREAD_SLEEP_SET \<in> set (enabled s)" by (simp add: threads_with_eq_Nil)
    from selectThread_member [OF False, of r] obtain t where
      t: "selectThread r (threads_with THREAD_SLEEP_SET s) = Inr t" by blast
    let ?s = "(remove_sleep t s)\<lparr>wakeup_state := (wakeup_state (remove_sleep t s))(t := True)\<rparr>"
    have "select_next_thread r instrnum s = Inr (?s, Some (int t))"
      using True False t by (simp add: select_next_thread_def Let_def)
    moreover have "nth_default THREAD_DISABLED (enabled ?s) t = THREAD_ENABLED"
      by (simp add: remove_sleep_def set_enabled_status)
    ultimately show ?thesis using sl by (intro exI [of _ ?s] exI [of _ "Some (int t)"]) simp
  qed
next
  case False
  then have en: "THREAD_ENABLED \<in> set (enabled s)" by (simp add: threads_with_eq_Nil)
  let ?L = "threads_with THREAD_ENABLED s"
  from selectThread_member [OF False, of r] obtain t1 where
    t1: "selectThread r ?L = Inr t1" "t1 \<in> set ?L" by blast
  from find_highest_first [of "incSchelen s"] assms(1) False obtain t2 where
    t2: "find_highest ?L (incSchelen s) = Inr (int t2)" "t2 \<in> set ?L"
    by (auto simp: incSchelen_def)
  have "\<exists>t s'. t \<in> set ?L \<and> enabled s' = enabled s \<and>
      select_next_thread r instrnum s = Inr (s', Some (int t))"
  proof (cases "usingpct s = 1")
    case pct: True
    show ?thesis
    proof (cases "livelock_test instrnum (schelen_limit s)")
      case True
      with False pct assms(2) t1 show ?thesis
        by (intro exI [of _ t1] exI [of _ "(incSchelen s)\<lparr>livelock := True\<rparr>"])
           (simp add: select_next_thread_def incSchelen_def Let_def)
    next
      case nl: False
      with False pct assms(2) t2 show ?thesis
        by (intro exI [of _ t2] exI [of _ "(incSchelen s)\<lparr>highest_id := int t2\<rparr>"])
           (simp add: select_next_thread_def incSchelen_def Let_def)
    qed
  next
    case npct: False
    with False t1 show ?thesis
      by (intro exI [of _ t1] exI [of _ "incSchelen s"])
         (simp add: select_next_thread_def incSchelen_def Let_def)
  qed
  then obtain t s' where "t \<in> set ?L" "enabled s' = enabled s"
    "select_next_thread r instrnum s = Inr (s', Some (int t))" by blast
  with en show ?thesis by (auto simp: nth_default_def)
qed

theorem select_next_thread_enabled_witness:
  "\<exists>t s'. select_next_thread 3 76 pct_example = Inr (s', Some (int t)) \<and>
     nth_default THREAD_DISABLED (enabled s') t = THREAD_ENABLED"
proof -
  have "schelen_limit pct_example \<noteq> 0" "THREAD_ENABLED \<in> set (enabled pct_example)"
    by (simp_all add: pct_example_def)
  with select_next_thread_enabled [OF pct_example_ok, of 3 76] show ?thesis by auto
qed

section \<open>Priorities\<close>

lemma priority_list_length:
  assumes "prio_ok s" "distinct (slots (prio_order s))"
  defines "avail \<equiv> threads_with THREAD_ENABLED s"
  shows "mset (filter (is_avail avail) (prio_order s)) = mset (map int avail)"
proof -
  let ?F = "filter (is_avail avail) (prio_order s)"
  have "?F = filter (is_avail avail) (slots (prio_order s))"
    unfolding slots_def filter_filter by (rule filter_cong) (auto simp: is_avail_def)
  then have "distinct ?F" using assms(2) by simp
  moreover have "distinct (map int avail)"
    by (simp add: avail_def threads_with_def distinct_map)
  moreover have "set ?F = set (map int avail)"
    using assms(1) by (auto simp: avail_def prio_ok_def is_avail_def)
  ultimately show ?thesis by (metis set_eq_iff_mset_eq_distinct)
qed

text \<open>\<open>get_highest_thread\<close> and \<open>get_scecond_high_thread\<close> return the first and the second
  enabled thread in priority order; with one enabled thread both return it.\<close>

theorem highest_two_threads:
  assumes "prio_ok s" "distinct (slots (prio_order s))"
    and "1 < length (threads_with THREAD_ENABLED s)"
  shows "\<exists>x y rest. filter (\<lambda>z. z \<in> int ` set (threads_with THREAD_ENABLED s)) (prio_order s) = x # y # rest \<and>
    get_highest_thread s = Inr x \<and> get_scecond_high_thread s = Inr y"
proof -
  let ?a = "threads_with THREAD_ENABLED s"
  have "length (filter (is_avail ?a) (prio_order s)) = length ?a"
    using priority_list_length [OF assms(1,2)] by (metis length_map size_mset)
  with assms(3) obtain x y rest where
    f: "filter (is_avail ?a) (prio_order s) = x # y # rest"
    by (metis One_nat_def length_0_conv length_Cons less_nat_zero_code less_one neq_Nil_conv not_less_iff_gr_or_eq)
  have "List.find (is_avail ?a) (prio_order s) = Some x"
  proof -
    have "filter P xs = x # ys \<Longrightarrow> List.find P xs = Some x" for P xs and x :: int and ys
      by (induction xs) (auto split: if_splits)
    with f show ?thesis by blast
  qed
  moreover have "is_avail ?a = (\<lambda>z. z \<in> int ` set ?a)" by (simp add: is_avail_def fun_eq_iff)
  ultimately have "get_highest_thread s = Inr x" "get_scecond_high_thread s = Inr y"
    using assms(1,3) f get_highest_eq [of s] get_second_eq [of s] by (simp_all add: prio_ok_def Let_def)
  with f \<open>is_avail ?a = _\<close> show ?thesis by metis
qed

theorem highest_two_threads_witness:
  "\<exists>x y. get_highest_thread pct_example = Inr x \<and> get_scecond_high_thread pct_example = Inr y \<and>
     {x, y} \<subseteq> {0, 2}"
proof -
  have a: "threads_with THREAD_ENABLED pct_example = [0, 2]" "prio_order pct_example = [1, 2, 0]"
    by (simp_all add: threads_with_def pct_example_def upt_rec prio_order_def sv_list_def sv_of_array_def)
  then have "distinct (slots (prio_order pct_example))" "1 < length (threads_with THREAD_ENABLED pct_example)"
    by (simp_all add: slots_def)
  from highest_two_threads [OF pct_example_ok this] show ?thesis unfolding a by auto
qed

text \<open>C30: \<open>movethread\<close> into an empty slot of the low vector (or the one the thread holds) takes
  the thread out of its old place and puts it into that slot; all other threads keep their
  relative order, no thread is lost or duplicated, and nothing else changes.\<close>

theorem movethread_lowers:
  assumes "prio_ok s" "distinct (slots (prio_order s))" "k < sv_size (lowvec s)"
    and "sv_list (lowvec s) ! k \<in> {-1, int t}"
  shows "\<exists>s'. movethread (int k) (int t) s = Inr s' \<and> prio_ok s' \<and> distinct (slots (prio_order s')) \<and>
    sv_list (lowvec s') ! k = int t \<and>
    filter (\<lambda>x. x \<noteq> -1 \<and> x \<noteq> int t) (prio_order s') = filter (\<lambda>x. x \<noteq> -1 \<and> x \<noteq> int t) (prio_order s) \<and>
    s' = s\<lparr>highvec := highvec s', lowvec := lowvec s'\<rparr>"
proof -
  have v: "prio_vecs_ok s" using assms(1) by (simp add: prio_ok_def)
  from movethread_effect [OF v assms(2,3) _ assms(4)] obtain s' where
    s': "movethread (int k) (int t) s = Inr s'" "prio_vecs_ok s'" "sv_size (lowvec s') = sv_size (lowvec s)"
    "sv_list (lowvec s') ! k = int t" "others (int t) (prio_order s') = others (int t) (prio_order s)"
    "distinct (slots (prio_order s'))" "s' = s\<lparr>highvec := highvec s', lowvec := lowvec s'\<rparr>" by auto
  have "enabled s' = enabled s" by (subst s'(7)) simp
  then have e: "threads_with THREAD_ENABLED s' = threads_with THREAD_ENABLED s" by (simp add: threads_with_def)
  have "int u \<in> set (prio_order s')" if "int u \<in> set (prio_order s)" for u
  proof (cases "u = t")
    case True
    have "k < length (sv_list (lowvec s'))" using s'(2,3) assms(3) by (simp add: prio_vecs_ok_def)
    then have "int t \<in> set (sv_list (lowvec s'))" using s'(4) by (metis nth_mem)
    with True show ?thesis by (simp add: prio_order_def)
  next
    case False
    then have "int u \<in> set (others (int t) (prio_order s))" using that by (simp add: others_def)
    then show ?thesis using s'(5) by (metis (no_types, lifting) filter_is_subset others_def subsetD)
  qed
  then have "prio_ok s'" using s'(2) e assms(1) by (auto simp: prio_ok_def)
  with s' show ?thesis unfolding others_def by blast
qed

theorem movethread_lowers_witness:
  "\<exists>s'. movethread 0 2 (pct_example\<lparr>lowvec := sv_of_array [-1, 0]\<rparr>) = Inr s' \<and>
     filter (\<lambda>x. x \<noteq> -1 \<and> x \<noteq> 2) (prio_order s') = [1, 0]"
proof -
  let ?s = "pct_example\<lparr>lowvec := sv_of_array [-1, 0]\<rparr>"
  have o: "prio_order ?s = [1, 2, -1, 0]" "threads_with THREAD_ENABLED ?s = [0, 2]"
    "sv_list (lowvec ?s) = [-1, 0]" "sv_size (lowvec ?s) = 2"
    by (simp_all add: prio_order_def pct_example_def sv_list_def sv_of_array_def threads_with_def upt_rec)
  moreover have "prio_vecs_ok ?s"
    by (simp add: prio_vecs_ok_def pct_example_def sv_ok_def sv_of_array_def)
  ultimately have "prio_ok ?s" "distinct (slots (prio_order ?s))"
    by (simp_all add: prio_ok_def slots_def)
  from movethread_lowers [OF this, of 0 2] o show ?thesis by auto
qed

text \<open>The flags of external reads are a function from thread ids to booleans:
  \<open>add_external_readnum_thread\<close> sets one, \<open>deleteone_external_readnum_thread\<close> clears one and
  returns its old value, and \<open>get_external_readnum_thread\<close> returns one and changes none, although
  it appends to the vector when the thread is beyond its end.\<close>

theorem external_read_flags:
  assumes "sv_room_for (t + 1) (external_readnum_thread s)"
  shows "(\<exists>s'. add_external_readnum_thread t s = Inr s' \<and> ext_flag s' = (ext_flag s)(t := True)) \<and>
    (\<exists>s'. deleteone_external_readnum_thread t s = Inr (s', ext_flag s t) \<and>
      ext_flag s' = (ext_flag s)(t := False)) \<and>
    (\<exists>s'. get_external_readnum_thread t s = Inr (s', ext_flag s t) \<and> ext_flag s' = ext_flag s)"
proof -
  have "sv_room_for (t + 1 - sv_size (external_readnum_thread s)) (external_readnum_thread s)"
    "sv_ok (external_readnum_thread s)" "sv_room_for 1 (external_readnum_thread s)"
    using assms by (auto simp: sv_room_for_def)
  with add_external_flag [of t s] delete_external_flag [of s t] get_external_flag [of s t]
  show ?thesis by blast
qed

theorem external_read_flags_witness:
  "\<exists>s'. add_external_readnum_thread 12 (scheduler_init 1) = Inr s' \<and> ext_flag s' 12"
proof -
  have "sv_room_for (12 + 1) (external_readnum_thread (scheduler_init 1))"
    by (simp add: scheduler_init_def VECTOR_DEFCAP_def sv_room_for_def sv_ok_def sv_new_def)
  from external_read_flags [OF this] show ?thesis by auto
qed

end
