(* ===== verification/Values.thy ===== *)
theory Values
  imports Weazer_Prelude
begin

text \<open>
  Values and sizes of memory accesses (\<open>Support/SVal.hpp\<close>, \<open>Support/ASize.hpp\<close>) and the
  arithmetic of atomic read-modify-write operations (\<open>Runtime/Execution.cpp\<close>).

  A value is a 64-bit word whatever the width of the access, and its operators are those of
  \<open>uint64_t\<close>: they wrap, a division by zero and a shift by 64 or more are undefined.
\<close>

type_synonym sval = "64 word"
type_synonym asize = "32 word"

definition asize_bits :: "asize \<Rightarrow> 32 word" where
  "asize_bits s = s * 8"

definition sval_compare :: "sval \<Rightarrow> sval \<Rightarrow> int" where
  "sval_compare a b = (if a < b then -1 else if b < a then 1 else 0)"

definition sval_compareSigned :: "sval \<Rightarrow> sval \<Rightarrow> int" where
  "sval_compareSigned a b = (if sint a < sint b then -1 else if sint b < sint a then 1 else 0)"

definition ult :: "sval \<Rightarrow> sval \<Rightarrow> bool" where "ult a b \<longleftrightarrow> sval_compare a b < 0"
definition ule :: "sval \<Rightarrow> sval \<Rightarrow> bool" where "ule a b \<longleftrightarrow> sval_compare a b \<le> 0"
definition ugt :: "sval \<Rightarrow> sval \<Rightarrow> bool" where "ugt a b \<longleftrightarrow> \<not> ule a b"
definition uge :: "sval \<Rightarrow> sval \<Rightarrow> bool" where "uge a b \<longleftrightarrow> \<not> ult a b"
definition slt :: "sval \<Rightarrow> sval \<Rightarrow> bool" where "slt a b \<longleftrightarrow> sval_compareSigned a b < 0"
definition sle :: "sval \<Rightarrow> sval \<Rightarrow> bool" where "sle a b \<longleftrightarrow> sval_compareSigned a b \<le> 0"
definition sgt :: "sval \<Rightarrow> sval \<Rightarrow> bool" where "sgt a b \<longleftrightarrow> \<not> sle a b"
definition sge :: "sval \<Rightarrow> sval \<Rightarrow> bool" where "sge a b \<longleftrightarrow> \<not> slt a b"

named_theorems sval_cmp \<open>the comparisons as orders\<close>

lemma sval_unsigned [sval_cmp]:
  "ult a b \<longleftrightarrow> a < b" "ule a b \<longleftrightarrow> a \<le> b" "ugt a b \<longleftrightarrow> b < a" "uge a b \<longleftrightarrow> b \<le> a"
  by (auto simp: ult_def ule_def ugt_def uge_def sval_compare_def)

lemma sval_signed [sval_cmp]:
  "slt a b \<longleftrightarrow> sint a < sint b" "sle a b \<longleftrightarrow> sint a \<le> sint b"
  "sgt a b \<longleftrightarrow> sint b < sint a" "sge a b \<longleftrightarrow> sint b \<le> sint a"
  by (auto simp: slt_def sle_def sgt_def sge_def sval_compareSigned_def)

definition sval_div :: "sval \<Rightarrow> sval \<Rightarrow> sval res" where
  "sval_div a b = (if b = 0 then Inl Undefined else Inr (a div b))"

definition sval_shl :: "sval \<Rightarrow> sval \<Rightarrow> sval res" where
  "sval_shl a b = (if b < 64 then Inr (push_bit (unat b) a) else Inl Undefined)"

definition sval_shr :: "sval \<Rightarrow> sval \<Rightarrow> sval res" where
  "sval_shr a b = (if b < 64 then Inr (drop_bit (unat b) a) else Inl Undefined)"

definition signExtendBottom :: "32 word \<Rightarrow> sval \<Rightarrow> sval res" where
  "signExtendBottom b v =
     (if b = 0 \<or> b > 64 then Inl Bug
      else Inr (signed_drop_bit (64 - unat b) (push_bit (64 - unat b) v)))"

section \<open>Read-modify-write operations\<close>

text \<open>The operations of LLVM's \<open>atomicrmw\<close> that the interpreter names; any other stores the
  operand.\<close>

datatype rmw_op =
  RMW_Xchg | RMW_Add | RMW_Sub | RMW_And | RMW_Nand | RMW_Or | RMW_Xor |
  RMW_Max | RMW_Min | RMW_UMax | RMW_UMin | RMW_Other

fun executeAtomicRMWOperation :: "sval \<Rightarrow> sval \<Rightarrow> asize \<Rightarrow> rmw_op \<Rightarrow> sval res" where
  "executeAtomicRMWOperation old v sz RMW_Xchg = Inr v"
| "executeAtomicRMWOperation old v sz RMW_Add = Inr (old + v)"
| "executeAtomicRMWOperation old v sz RMW_Sub = Inr (old - v)"
| "executeAtomicRMWOperation old v sz RMW_And = Inr (and old v)"
| "executeAtomicRMWOperation old v sz RMW_Nand = Inr (not (and old v))"
| "executeAtomicRMWOperation old v sz RMW_Or = Inr (or old v)"
| "executeAtomicRMWOperation old v sz RMW_Xor = Inr (xor old v)"
| "executeAtomicRMWOperation old v sz RMW_Max =
     bindR (signExtendBottom (asize_bits sz) old) (\<lambda>a.
     bindR (signExtendBottom (asize_bits sz) v) (\<lambda>b. Inr (if sgt a b then old else v)))"
| "executeAtomicRMWOperation old v sz RMW_Min =
     bindR (signExtendBottom (asize_bits sz) old) (\<lambda>a.
     bindR (signExtendBottom (asize_bits sz) v) (\<lambda>b. Inr (if slt a b then old else v)))"
| "executeAtomicRMWOperation old v sz RMW_UMax = Inr (if ugt old v then old else v)"
| "executeAtomicRMWOperation old v sz RMW_UMin = Inr (if ult old v then old else v)"
| "executeAtomicRMWOperation old v sz RMW_Other = Inr v"

end
