(* ===== verification/Symbolic_Exprs.thy ===== *)
theory Symbolic_Exprs
  imports Values Vset
begin

text \<open>
  Symbolic expressions and their visitors (\<open>Support/SExpr.hpp\<close>, \<open>Support/SExprVisitor.hpp\<close>,
  \<open>Support/SExprVisitor.tcc\<close>): the annotations that say which value a read waits for.  They are
  built from the program, transformed to name registers by number, concretised with the values of
  the thread's registers, and evaluated on the value that a store offers.
\<close>

section \<open>Expressions\<close>

datatype cast_kind = ZExt | SExt | Trunc
datatype bin_kind =
  Add | Sub | Mul | UDiv | SDiv | URem | SRem | BitAnd | BitOr | BitXor | Shl | LShr | AShr
datatype cmp_kind = Eq | Ne | Ult | Ule | Ugt | Uge | Slt | Sle | Sgt | Sge

type_synonym width = "32 word"

text \<open>A conjunction or disjunction has a first kid and further ones: its constructor aborts
  without a kid.\<close>

datatype 'r sexpr =
    ConcreteExpr width sval
  | RegisterExpr width 'r string
  | SelectExpr width "'r sexpr" "'r sexpr" "'r sexpr"
  | ConjunctionExpr "'r sexpr" "'r sexpr list"
  | DisjunctionExpr "'r sexpr" "'r sexpr list"
  | NotExpr "'r sexpr"
  | CastExpr cast_kind width "'r sexpr"
  | BinaryExpr bin_kind width "'r sexpr" "'r sexpr"
  | CmpExpr cmp_kind "'r sexpr" "'r sexpr"

fun getWidth :: "'r sexpr \<Rightarrow> width" where
  "getWidth (ConcreteExpr w _) = w"
| "getWidth (RegisterExpr w _ _) = w"
| "getWidth (SelectExpr w _ _ _) = w"
| "getWidth (CastExpr _ w _) = w"
| "getWidth (BinaryExpr _ w _ _) = w"
| "getWidth _ = 1"

fun create_conjunction :: "'r sexpr list \<Rightarrow> 'r sexpr res" where
  "create_conjunction [] = Inl Bug"
| "create_conjunction (k # ks) = Inr (ConjunctionExpr k ks)"

fun create_disjunction :: "'r sexpr list \<Rightarrow> 'r sexpr res" where
  "create_disjunction [] = Inl Bug"
| "create_disjunction (k # ks) = Inr (DisjunctionExpr k ks)"

definition create_select :: "'r sexpr \<Rightarrow> 'r sexpr \<Rightarrow> 'r sexpr \<Rightarrow> 'r sexpr" where
  "create_select c t f = SelectExpr (getWidth t) c t f"

definition create_binary :: "bin_kind \<Rightarrow> 'r sexpr \<Rightarrow> 'r sexpr \<Rightarrow> 'r sexpr" where
  "create_binary k l r = BinaryExpr k (getWidth l) l r"

text \<open>\<open>clone\<close> of an arithmetic expression calls the constructor that takes the width of the left
  operand.\<close>

fun clone_sexpr :: "'r sexpr \<Rightarrow> 'r sexpr" where
  "clone_sexpr (ConcreteExpr w v) = ConcreteExpr w v"
| "clone_sexpr (RegisterExpr w r n) = RegisterExpr w r n"
| "clone_sexpr (SelectExpr w c t f) = SelectExpr w (clone_sexpr c) (clone_sexpr t) (clone_sexpr f)"
| "clone_sexpr (ConjunctionExpr k ks) = ConjunctionExpr (clone_sexpr k) (map clone_sexpr ks)"
| "clone_sexpr (DisjunctionExpr k ks) = DisjunctionExpr (clone_sexpr k) (map clone_sexpr ks)"
| "clone_sexpr (NotExpr e) = NotExpr (clone_sexpr e)"
| "clone_sexpr (CastExpr k w e) = CastExpr k w (clone_sexpr e)"
| "clone_sexpr (BinaryExpr k w l r) = create_binary k (clone_sexpr l) (clone_sexpr r)"
| "clone_sexpr (CmpExpr k l r) = CmpExpr k (clone_sexpr l) (clone_sexpr r)"

section \<open>Evaluation\<close>

text \<open>The two ways to evaluate: every register is the same value, or a map gives the values.\<close>

datatype 'r valuation = BruteForce sval | Mapping "'r \<Rightarrow> sval option"

fun eval_bin :: "bin_kind \<Rightarrow> sval \<Rightarrow> sval \<Rightarrow> sval res" where
  "eval_bin Add a b = Inr (a + b)"
| "eval_bin Sub a b = Inr (a - b)"
| "eval_bin Mul a b = Inr (a * b)"
| "eval_bin UDiv a b = sval_div a b"
| "eval_bin SDiv a b = sval_div a b"
| "eval_bin URem a b = sval_div a b"
| "eval_bin SRem a b = sval_div a b"
| "eval_bin BitAnd a b = Inr (and a b)"
| "eval_bin BitOr a b = Inr (or a b)"
| "eval_bin BitXor a b = Inr (xor a b)"
| "eval_bin Shl a b = sval_shl a b"
| "eval_bin LShr a b = sval_shr a b"
| "eval_bin AShr a b = sval_shr a b"

fun eval_cmp :: "cmp_kind \<Rightarrow> sval \<Rightarrow> sval \<Rightarrow> bool" where
  "eval_cmp Eq a b \<longleftrightarrow> a = b"
| "eval_cmp Ne a b \<longleftrightarrow> a \<noteq> b"
| "eval_cmp Ult a b \<longleftrightarrow> ult a b"
| "eval_cmp Ule a b \<longleftrightarrow> ule a b"
| "eval_cmp Ugt a b \<longleftrightarrow> ugt a b"
| "eval_cmp Uge a b \<longleftrightarrow> uge a b"
| "eval_cmp Slt a b \<longleftrightarrow> slt a b"
| "eval_cmp Sle a b \<longleftrightarrow> sle a b"
| "eval_cmp Sgt a b \<longleftrightarrow> sgt a b"
| "eval_cmp Sge a b \<longleftrightarrow> sge a b"

definition of_flag :: "bool \<Rightarrow> sval" where "of_flag b = (if b then 1 else 0)"

text \<open>The visitor: the state is the set of registers that had no value.  \<open>visitNotExpr\<close> negates the
  pointer to its kid, which is never null.\<close>

fun eval_visit :: "'r::linorder valuation \<Rightarrow> 'r sexpr \<Rightarrow> 'r list \<Rightarrow> (sval \<times> 'r list) res"
  and eval_all :: "'r valuation \<Rightarrow> 'r sexpr list \<Rightarrow> 'r list \<Rightarrow> (bool \<times> 'r list) res"
  and eval_any :: "'r valuation \<Rightarrow> 'r sexpr list \<Rightarrow> 'r list \<Rightarrow> (bool \<times> 'r list) res" where
  "eval_visit m (ConcreteExpr w v) u = Inr (v, u)"
| "eval_visit m (RegisterExpr w r n) u = (case m of
     BruteForce v \<Rightarrow> Inr (v, u)
   | Mapping f \<Rightarrow> (case f r of Some v \<Rightarrow> Inr (v, u) | None \<Rightarrow> Inr (42, fst (vset_insert u r))))"
| "eval_visit m (SelectExpr w c t f) u = bindR (eval_visit m c u) (\<lambda>(b, u1).
     if b \<noteq> 0 then eval_visit m t u1 else eval_visit m f u1)"
| "eval_visit m (ConjunctionExpr k ks) u = bindR (eval_visit m k u) (\<lambda>(b, u1).
     if b = 0 then Inr (0, u1)
     else bindR (eval_all m ks u1) (\<lambda>(c, u2). Inr (of_flag c, u2)))"
| "eval_visit m (DisjunctionExpr k ks) u = bindR (eval_visit m k u) (\<lambda>(b, u1).
     if b \<noteq> 0 then Inr (1, u1)
     else bindR (eval_any m ks u1) (\<lambda>(c, u2). Inr (of_flag c, u2)))"
| "eval_visit m (NotExpr e) u = Inr (0, u)"
| "eval_visit m (CastExpr k w e) u = eval_visit m e u"
| "eval_visit m (BinaryExpr k w l r) u = bindR (eval_visit m l u) (\<lambda>(a, u1).
     bindR (eval_visit m r u1) (\<lambda>(b, u2). bindR (eval_bin k a b) (\<lambda>v. Inr (v, u2))))"
| "eval_visit m (CmpExpr k l r) u = bindR (eval_visit m l u) (\<lambda>(a, u1).
     bindR (eval_visit m r u1) (\<lambda>(b, u2). Inr (of_flag (eval_cmp k a b), u2)))"
| "eval_all m [] u = Inr (True, u)"
| "eval_all m (k # ks) u = bindR (eval_visit m k u) (\<lambda>(b, u1).
     if b = 0 then Inr (False, u1) else eval_all m ks u1)"
| "eval_any m [] u = Inr (False, u)"
| "eval_any m (k # ks) u = bindR (eval_visit m k u) (\<lambda>(b, u1).
     if b \<noteq> 0 then Inr (True, u1) else eval_any m ks u1)"

text \<open>\<open>evaluate(e, v)\<close> starts with no unknown registers; \<open>evaluate(e, map)\<close> with those that the
  evaluator has from before.\<close>

definition evaluate_bf :: "'r::linorder sexpr \<Rightarrow> sval \<Rightarrow> sval res" where
  "evaluate_bf e v = bindR (eval_visit (BruteForce v) e []) (\<lambda>(x, u). Inr x)"

definition evaluate_map :: "'r::linorder list \<Rightarrow> 'r sexpr \<Rightarrow> ('r \<Rightarrow> sval option) \<Rightarrow> (sval \<times> nat \<times> 'r list) res" where
  "evaluate_map u e f = bindR (eval_visit (Mapping f) e u) (\<lambda>(x, u1). Inr (x, length u1, u1))"

section \<open>Substitution, concretisation, transformation\<close>

text \<open>The visitors of \<open>SExprRegSubstitutor\<close> and \<open>SExprConcretizer\<close> replace the kids that are
  registers; \<open>rep\<close> is the replacement of a register, if it has one.\<close>

definition replace_kid :: "('r \<Rightarrow> 'r sexpr option) \<Rightarrow> 'r sexpr \<Rightarrow> 'r sexpr" where
  "replace_kid rep e = (case e of
     RegisterExpr w r n \<Rightarrow> (case rep r of Some e' \<Rightarrow> e' | None \<Rightarrow> e) | _ \<Rightarrow> e)"

fun replace_visit :: "('r \<Rightarrow> 'r sexpr option) \<Rightarrow> 'r sexpr \<Rightarrow> 'r sexpr" where
  "replace_visit p (ConcreteExpr w v) = ConcreteExpr w v"
| "replace_visit p (RegisterExpr w r n) = RegisterExpr w r n"
| "replace_visit p (SelectExpr w c t f) =
     SelectExpr w (replace_kid p (replace_visit p c)) (replace_kid p (replace_visit p t))
       (replace_kid p (replace_visit p f))"
| "replace_visit p (ConjunctionExpr k ks) =
     ConjunctionExpr (replace_kid p (replace_visit p k)) (map (\<lambda>e. replace_kid p (replace_visit p e)) ks)"
| "replace_visit p (DisjunctionExpr k ks) =
     DisjunctionExpr (replace_kid p (replace_visit p k)) (map (\<lambda>e. replace_kid p (replace_visit p e)) ks)"
| "replace_visit p (NotExpr e) = NotExpr (replace_kid p (replace_visit p e))"
| "replace_visit p (CastExpr k w e) = CastExpr k w (replace_kid p (replace_visit p e))"
| "replace_visit p (BinaryExpr k w l r) =
     BinaryExpr k w (replace_kid p (replace_visit p l)) (replace_kid p (replace_visit p r))"
| "replace_visit p (CmpExpr k l r) =
     CmpExpr k (replace_kid p (replace_visit p l)) (replace_kid p (replace_visit p r))"

definition substitute :: "'r sexpr \<Rightarrow> 'r \<Rightarrow> 'r sexpr \<Rightarrow> 'r sexpr" where
  "substitute orig reg r =
     (let rep = (\<lambda>x. if x = reg then Some (clone_sexpr r) else None)
      in case clone_sexpr orig of
           RegisterExpr w x n \<Rightarrow> if x = reg then clone_sexpr r else RegisterExpr w x n
         | e \<Rightarrow> replace_visit rep e)"

text \<open>The width of a concretised register is the size of its value, in bytes.\<close>

definition concretize :: "'r sexpr \<Rightarrow> ('r \<Rightarrow> (sval \<times> asize) option) \<Rightarrow> 'r sexpr" where
  "concretize orig rm =
     (let rep = (\<lambda>x. case rm x of Some (v, s) \<Rightarrow> Some (ConcreteExpr s v) | None \<Rightarrow> None)
      in case clone_sexpr orig of
           RegisterExpr w x n \<Rightarrow> (case rm x of Some (v, s) \<Rightarrow> ConcreteExpr s v | None \<Rightarrow> RegisterExpr w x n)
         | e \<Rightarrow> replace_visit rep e)"

text \<open>The transformer drops the casts: it uses the evaluator's macro for them.\<close>

fun transform :: "('a \<Rightarrow> 'b) \<Rightarrow> 'a sexpr \<Rightarrow> 'b sexpr" where
  "transform f (ConcreteExpr w v) = ConcreteExpr w v"
| "transform f (RegisterExpr w r n) = RegisterExpr w (f r) n"
| "transform f (SelectExpr w c t e) = SelectExpr w (transform f c) (transform f t) (transform f e)"
| "transform f (ConjunctionExpr k ks) = ConjunctionExpr (transform f k) (map (transform f) ks)"
| "transform f (DisjunctionExpr k ks) = DisjunctionExpr (transform f k) (map (transform f) ks)"
| "transform f (NotExpr e) = NotExpr (transform f e)"
| "transform f (CastExpr k w e) = transform f e"
| "transform f (BinaryExpr k w l r) = BinaryExpr k w (transform f l) (transform f r)"
| "transform f (CmpExpr k l r) = CmpExpr k (transform f l) (transform f r)"

end
