(* ===== verification/Event_Labels.thy ===== *)
theory Event_Labels
  imports Vector_Clocks Symbolic_Exprs
begin

text \<open>
  The labels of an execution graph (\<open>EventLabel.def\<close>, \<open>EventLabel.hpp\<close>, \<open>EventLabel.cpp\<close>).

  The class hierarchy is a record: \<open>lb_kind\<close> is the discriminator of the LLVM-style RTTI, and a
  field that only some classes have keeps its default in the others.  A pointer to a label is the
  label's position, which is unique in a graph; a null pointer is \<open>None\<close>.  Fields that no
  modelled operation reads (access types, thread info, names, file-system values) are left out.
\<close>

section \<open>Kinds\<close>

datatype label_kind =
    ThreadStart | Init
  | SpinloopBlock | FaiZNEBlock | LockZNEBlock | HelpedCASBlock | ConfirmationBlock
  | LockNotAcqBlock | LockNotRelBlock | BarrierBlock | ErrorBlock | UserBlock | JoinBlock
  | ReadOptBlock | ThreadKill | ThreadFinish
  | Read | BWaitRead | SpeculativeRead | ConfirmingRead | CondVarWaitRead
  | CasRead | LockCasRead | TrylockCasRead | HelpedCasRead | ConfirmingCasRead
  | FaiRead | NoRetFaiRead | BIncFaiRead
  | Write | UnlockWrite | BInitWrite | BDestroyWrite | CondVarInitWrite | CondVarSignalWrite
  | CondVarBcastWrite | CondVarDestroyWrite
  | CasWrite | LockCasWrite | TrylockCasWrite | HelpedCasWrite | ConfirmingCasWrite
  | FaiWrite | NoRetFaiWrite | BIncFaiWrite
  | Fence | Malloc | Free | HpRetire
  | ThreadCreate | ThreadJoin | HpProtect | HelpingCas | Optional | LoopBegin | SpinStart
  | FaiZNESpinEnd | LockZNESpinEnd | Empty

fun kind_num :: "label_kind \<Rightarrow> nat" where
  "kind_num ThreadStart = 1" | "kind_num Init = 2"
| "kind_num SpinloopBlock = 3" | "kind_num FaiZNEBlock = 4" | "kind_num LockZNEBlock = 5"
| "kind_num HelpedCASBlock = 6" | "kind_num ConfirmationBlock = 7" | "kind_num LockNotAcqBlock = 8"
| "kind_num LockNotRelBlock = 9" | "kind_num BarrierBlock = 10" | "kind_num ErrorBlock = 11"
| "kind_num UserBlock = 12" | "kind_num JoinBlock = 13" | "kind_num ReadOptBlock = 14"
| "kind_num ThreadKill = 15" | "kind_num ThreadFinish = 16"
| "kind_num Read = 17" | "kind_num BWaitRead = 18" | "kind_num SpeculativeRead = 19"
| "kind_num ConfirmingRead = 20" | "kind_num CondVarWaitRead = 21"
| "kind_num CasRead = 22" | "kind_num LockCasRead = 23" | "kind_num TrylockCasRead = 24"
| "kind_num HelpedCasRead = 25" | "kind_num ConfirmingCasRead = 26"
| "kind_num FaiRead = 27" | "kind_num NoRetFaiRead = 28" | "kind_num BIncFaiRead = 29"
| "kind_num Write = 30" | "kind_num UnlockWrite = 31" | "kind_num BInitWrite = 32"
| "kind_num BDestroyWrite = 33" | "kind_num CondVarInitWrite = 34"
| "kind_num CondVarSignalWrite = 35" | "kind_num CondVarBcastWrite = 36"
| "kind_num CondVarDestroyWrite = 37"
| "kind_num CasWrite = 38" | "kind_num LockCasWrite = 39" | "kind_num TrylockCasWrite = 40"
| "kind_num HelpedCasWrite = 41" | "kind_num ConfirmingCasWrite = 42"
| "kind_num FaiWrite = 43" | "kind_num NoRetFaiWrite = 44" | "kind_num BIncFaiWrite = 45"
| "kind_num Fence = 46" | "kind_num Malloc = 47" | "kind_num Free = 48" | "kind_num HpRetire = 49"
| "kind_num ThreadCreate = 50" | "kind_num ThreadJoin = 51" | "kind_num HpProtect = 52"
| "kind_num HelpingCas = 53" | "kind_num Optional = 54" | "kind_num LoopBegin = 55"
| "kind_num SpinStart = 56" | "kind_num FaiZNESpinEnd = 57" | "kind_num LockZNESpinEnd = 58"
| "kind_num Empty = 59"

text \<open>The \<open>classofKind\<close> functions, each a range between the \<open>FIRST\<close> and \<open>LAST\<close> markers.\<close>

definition kind_in :: "nat \<Rightarrow> nat \<Rightarrow> label_kind \<Rightarrow> bool" where
  "kind_in a b k \<longleftrightarrow> kind_num k \<ge> a \<and> kind_num k \<le> b"

definition isThreadStart :: "label_kind \<Rightarrow> bool" where "isThreadStart = kind_in 1 2"
definition isTerminator :: "label_kind \<Rightarrow> bool" where "isTerminator = kind_in 3 16"
definition isBlock :: "label_kind \<Rightarrow> bool" where "isBlock = kind_in 3 14"
definition isMemAccess :: "label_kind \<Rightarrow> bool" where "isMemAccess = kind_in 17 45"
definition isRead :: "label_kind \<Rightarrow> bool" where "isRead = kind_in 17 29"
definition isCasRead :: "label_kind \<Rightarrow> bool" where "isCasRead = kind_in 22 26"
definition isFaiRead :: "label_kind \<Rightarrow> bool" where "isFaiRead = kind_in 27 29"
definition isWrite :: "label_kind \<Rightarrow> bool" where "isWrite = kind_in 30 45"
definition isCasWrite :: "label_kind \<Rightarrow> bool" where "isCasWrite = kind_in 38 42"
definition isFaiWrite :: "label_kind \<Rightarrow> bool" where "isFaiWrite = kind_in 43 45"
definition isFence :: "label_kind \<Rightarrow> bool" where "isFence = kind_in 46 46"
definition isMalloc :: "label_kind \<Rightarrow> bool" where "isMalloc = kind_in 47 47"
definition isFree :: "label_kind \<Rightarrow> bool" where "isFree = kind_in 48 49"
definition isThreadFinish :: "label_kind \<Rightarrow> bool" where "isThreadFinish k \<longleftrightarrow> k = ThreadFinish"

named_theorems kind_defs \<open>the ranges of the label classes\<close>

lemmas [kind_defs] =
  isThreadStart_def isTerminator_def isBlock_def isMemAccess_def isRead_def isCasRead_def
  isFaiRead_def isWrite_def isCasWrite_def isFaiWrite_def isFence_def isMalloc_def isFree_def
  isThreadFinish_def kind_in_def

definition isDependable :: "label_kind \<Rightarrow> bool" where
  "isDependable k \<longleftrightarrow> isRead k \<or> k = Malloc \<or> k = Optional"

definition hasValue :: "label_kind \<Rightarrow> bool" where
  "hasValue k \<longleftrightarrow> isThreadStart k \<or> isRead k \<or> k = ThreadJoin \<or> k = Optional"

definition hasLocation :: "label_kind \<Rightarrow> bool" where
  "hasLocation k \<longleftrightarrow> isMemAccess k"

definition isConfirming :: "label_kind \<Rightarrow> bool" where
  "isConfirming k \<longleftrightarrow> k = ConfirmingRead \<or> k = ConfirmingCasRead"

section \<open>Orderings\<close>

datatype atomic_ordering =
  NotAtomic | Unordered | Monotonic | Acquire | Release | AcquireRelease | SequentiallyConsistent

definition isNotAtomic :: "atomic_ordering \<Rightarrow> bool" where
  "isNotAtomic ord \<longleftrightarrow> ord = NotAtomic"

definition isAtLeastAcquire :: "atomic_ordering \<Rightarrow> bool" where
  "isAtLeastAcquire ord \<longleftrightarrow> ord = Acquire \<or> ord = AcquireRelease \<or> ord = SequentiallyConsistent"

definition isAtMostAcquire :: "atomic_ordering \<Rightarrow> bool" where
  "isAtMostAcquire ord \<longleftrightarrow> ord = NotAtomic \<or> ord = Monotonic \<or> ord = Acquire"

definition isAtLeastRelease :: "atomic_ordering \<Rightarrow> bool" where
  "isAtLeastRelease ord \<longleftrightarrow> ord = Release \<or> ord = AcquireRelease \<or> ord = SequentiallyConsistent"

definition isAtMostRelease :: "atomic_ordering \<Rightarrow> bool" where
  "isAtMostRelease ord \<longleftrightarrow> ord = NotAtomic \<or> ord = Monotonic \<or> ord = Release"

definition isSC :: "atomic_ordering \<Rightarrow> bool" where
  "isSC ord \<longleftrightarrow> ord = SequentiallyConsistent"

section \<open>Labels\<close>

type_synonym saddr = "64 word"

text \<open>\<open>SAddr::isDynamic\<close>: bit 63 is the static mask.\<close>

definition saddr_isStatic :: "saddr \<Rightarrow> bool" where "saddr_isStatic a = bit a 63"
definition saddr_isDynamic :: "saddr \<Rightarrow> bool" where "saddr_isDynamic a \<longleftrightarrow> \<not> saddr_isStatic a"

type_synonym reader_map = "(saddr \<times> event list) list"

record label =
  lb_kind :: label_kind
  lb_pos :: event
  lb_ordering :: atomic_ordering
  lb_deps :: "dep_info \<times> dep_info \<times> dep_info"
  lb_stamp :: "stamp option"
  lb_prefixView :: "vector_clock option"
  lb_calculated :: "event list list"
  lb_views :: "view list"
  lb_revisitable :: bool
  lb_parentCreate :: event
  lb_initRfs :: reader_map
  lb_parentJoin :: "event option"
  lb_childId :: nat
  lb_addr :: saddr
  lb_maximal :: bool
  lb_alloc :: "event option"
  lb_rf :: "event option"
  lb_ipr :: bool
  lb_readers :: "event list"
  lb_val :: "64 word"
  lb_wattr :: "32 word"
  lb_allocAddr :: saddr
  lb_allocSize :: "32 word"
  lb_free :: "event option"
  lb_freeAddr :: saddr
  lb_freedSize :: "32 word"
  lb_accesses :: "event list"
  lb_hpAddr :: saddr
  lb_protAddr :: saddr
  lb_size :: asize
  lb_annot :: "32 word sexpr option"
  lb_expected :: sval
  lb_swapVal :: sval
  lb_opVal :: sval
  lb_binOp :: rmw_op
  lb_symmetricTid :: int
  lb_expandable :: bool
  lb_expanded :: bool

text \<open>A label as its constructor leaves it: the fields of other classes, and everything that the
  graph sets later, have their defaults.\<close>

definition new_label :: "label_kind \<Rightarrow> event \<Rightarrow> atomic_ordering \<Rightarrow> label" where
  "new_label k p ord =
     \<lparr>lb_kind = k, lb_pos = p, lb_ordering = ord, lb_deps = ([], [], []), lb_stamp = None,
      lb_prefixView = None, lb_calculated = [], lb_views = [], lb_revisitable = True,
      lb_parentCreate = event_init, lb_initRfs = [], lb_parentJoin = None, lb_childId = 0,
      lb_addr = 0, lb_maximal = True, lb_alloc = None, lb_rf = None, lb_ipr = False,
      lb_readers = [], lb_val = 0, lb_wattr = 0, lb_allocAddr = 0, lb_allocSize = 0, lb_free = None, lb_freeAddr = 0,
      lb_freedSize = 0, lb_accesses = [],
      lb_hpAddr = 0, lb_protAddr = 0, lb_size = 0, lb_annot = None, lb_expected = 0, lb_swapVal = 0,
      lb_opVal = 0, lb_binOp = RMW_Xchg, lb_symmetricTid = -1, lb_expandable = True, lb_expanded = False\<rparr>"

definition init_label :: label where
  "init_label = new_label Init event_init Acquire"

definition start_label :: "event \<Rightarrow> event \<Rightarrow> label" where
  "start_label p pc = (new_label ThreadStart p Acquire)\<lparr>lb_parentCreate := pc\<rparr>"

definition access_label :: "label_kind \<Rightarrow> event \<Rightarrow> atomic_ordering \<Rightarrow> saddr \<Rightarrow> label" where
  "access_label k p ord a = (new_label k p ord)\<lparr>lb_addr := a\<rparr>"

definition malloc_label :: "event \<Rightarrow> saddr \<Rightarrow> 32 word \<Rightarrow> label" where
  "malloc_label p a n = (new_label Malloc p NotAtomic)\<lparr>lb_allocAddr := a, lb_allocSize := n\<rparr>"

definition hp_protect_label :: "event \<Rightarrow> saddr \<Rightarrow> saddr \<Rightarrow> label" where
  "hp_protect_label p hp pr = (new_label HpProtect p Release)\<lparr>lb_hpAddr := hp, lb_protAddr := pr\<rparr>"

text \<open>\<open>clone\<close>: the copy constructor, whose \<open>CopyableIList\<close>s come out empty.\<close>

definition clone_label :: "label \<Rightarrow> label" where
  "clone_label l =
     (if isWrite (lb_kind l) then l\<lparr>lb_readers := []\<rparr>
      else if isMalloc (lb_kind l) then l\<lparr>lb_accesses := []\<rparr>
      else if lb_kind l = Init then l\<lparr>lb_initRfs := map (\<lambda>(a, rs). (a, [])) (lb_initRfs l)\<rparr>
      else l)"

text \<open>The attributes of a write (\<open>WriteAttr\<close>) are bits of a mask.\<close>

definition WA_Local :: "32 word" where "WA_Local = 1"
definition WA_Final :: "32 word" where "WA_Final = 2"
definition WA_RevBlocker :: "32 word" where "WA_RevBlocker = 4"
definition WA_WWRacy :: "32 word" where "WA_WWRacy = 8"

definition setAttr :: "32 word \<Rightarrow> label \<Rightarrow> label" where
  "setAttr a l = l\<lparr>lb_wattr := or (lb_wattr l) a\<rparr>"

definition hasAttr :: "32 word \<Rightarrow> label \<Rightarrow> bool" where
  "hasAttr a l \<longleftrightarrow> and (lb_wattr l) a \<noteq> 0"

text \<open>\<open>reset\<close> of the class of the label.\<close>

definition reset_label :: "label \<Rightarrow> label" where
  "reset_label l =
     (let l0 = l\<lparr>lb_stamp := None, lb_calculated := [], lb_views := [], lb_prefixView := None,
               lb_revisitable := True\<rparr>;
          l1 = (if isThreadFinish (lb_kind l) then l0\<lparr>lb_parentJoin := None\<rparr> else l0);
          l2 = (if isMemAccess (lb_kind l) then l1\<lparr>lb_maximal := True, lb_alloc := None\<rparr> else l1);
          l3 = (if isRead (lb_kind l) then l2\<lparr>lb_rf := None, lb_ipr := False\<rparr> else l2);
          l4 = (if isWrite (lb_kind l) then l3\<lparr>lb_readers := [], lb_wattr := and (lb_wattr l3) (not WA_RevBlocker)\<rparr> else l3);
          l5 = (if isMalloc (lb_kind l) then l4\<lparr>lb_free := None, lb_accesses := []\<rparr> else l4);
          l6 = (if isCasRead (lb_kind l) \<or> isFaiRead (lb_kind l)
                then l5\<lparr>lb_wattr := and (lb_wattr l5) (not WA_RevBlocker)\<rparr> else l5)
      in if isFree (lb_kind l) then l6\<lparr>lb_alloc := None\<rparr> else l6)"

definition isStable :: "label \<Rightarrow> bool" where
  "isStable l \<longleftrightarrow> \<not> lb_revisitable l \<or> (isMemAccess (lb_kind l) \<and> \<not> lb_maximal l)"

definition readsExt :: "label \<Rightarrow> bool" where
  "readsExt l = (case lb_rf l of None \<Rightarrow> False
     | Some w \<Rightarrow> \<not> event_isInitializer w \<and> thread w \<noteq> thread (lb_pos l))"

definition readsInt :: "label \<Rightarrow> bool" where
  "readsInt l = (case lb_rf l of None \<Rightarrow> False
     | Some w \<Rightarrow> event_isInitializer w \<or> thread w = thread (lb_pos l))"

definition valueMakesRMWSucceed :: "label \<Rightarrow> sval \<Rightarrow> bool" where
  "valueMakesRMWSucceed l v \<longleftrightarrow>
     isFaiRead (lb_kind l) \<or> (isCasRead (lb_kind l) \<and> v = lb_expected l)"

definition valueMakesAssumeSucceed :: "label \<Rightarrow> sval \<Rightarrow> bool res" where
  "valueMakesAssumeSucceed l v = (case lb_annot l of
     None \<Rightarrow> Inr False
   | Some e \<Rightarrow> bindR (evaluate_bf e v) (\<lambda>x. Inr (x \<noteq> 0)))"

definition write_isRMW :: "label \<Rightarrow> bool" where
  "write_isRMW l \<longleftrightarrow> isCasWrite (lb_kind l) \<or> isFaiWrite (lb_kind l)"

definition malloc_contains :: "label \<Rightarrow> saddr \<Rightarrow> bool" where
  "malloc_contains l a \<longleftrightarrow> lb_allocAddr l \<le> a \<and> a < lb_allocAddr l + ucast (lb_allocSize l)"

definition free_contains :: "label \<Rightarrow> saddr \<Rightarrow> bool" where
  "free_contains l a \<longleftrightarrow> lb_freeAddr l \<le> a \<and> a < lb_freeAddr l + ucast (lb_freedSize l)"

definition free_label :: "label_kind \<Rightarrow> event \<Rightarrow> atomic_ordering \<Rightarrow> saddr \<Rightarrow> 32 word \<Rightarrow> label" where
  "free_label k p ord a n = (new_label k p ord)\<lparr>lb_freeAddr := a, lb_freedSize := n\<rparr>"

text \<open>The lists of readers and accesses; adding twice is a \<open>BUG\<close>.\<close>

definition addReader :: "event \<Rightarrow> label \<Rightarrow> label res" where
  "addReader r l = (if r \<in> set (lb_readers l) then Inl Bug
     else Inr (l\<lparr>lb_readers := lb_readers l @ [r]\<rparr>))"

definition removeReader :: "(event \<Rightarrow> bool) \<Rightarrow> label \<Rightarrow> label" where
  "removeReader P l = l\<lparr>lb_readers := filter (\<lambda>r. \<not> P r) (lb_readers l)\<rparr>"

definition addAccess :: "event \<Rightarrow> label \<Rightarrow> label res" where
  "addAccess m l = (if m \<in> set (lb_accesses l) then Inl Bug
     else Inr (l\<lparr>lb_accesses := lb_accesses l @ [m]\<rparr>))"

definition removeAccess :: "(event \<Rightarrow> bool) \<Rightarrow> label \<Rightarrow> label" where
  "removeAccess P l = l\<lparr>lb_accesses := filter (\<lambda>r. \<not> P r) (lb_accesses l)\<rparr>"

section \<open>Maps from addresses to lists of events\<close>

text \<open>
  The \<open>std::unordered_map\<close>s of the initializer's readers and of the coherence order are
  association lists in their iteration order.  That order is the implementation's; all the code
  needs is that two maps with the same history of insertions and erasures are iterated in the
  same order, which insertion order gives.  \<open>m_touch\<close> is \<open>m[a]\<close> or \<open>m.emplace(a, {})\<close>.
\<close>

definition m_touch :: "saddr \<Rightarrow> reader_map \<Rightarrow> reader_map" where
  "m_touch a m = (if a \<in> fst ` set m then m else m @ [(a, [])])"

definition m_mod :: "saddr \<Rightarrow> (event list \<Rightarrow> event list) \<Rightarrow> reader_map \<Rightarrow> reader_map" where
  "m_mod a f m = map (\<lambda>(b, es). (b, if b = a then f es else es)) (m_touch a m)"

definition m_get :: "reader_map \<Rightarrow> saddr \<Rightarrow> event list" where
  "m_get m a = (case map_of m a of Some es \<Rightarrow> es | None \<Rightarrow> [])"

definition init_addReader :: "saddr \<Rightarrow> event \<Rightarrow> label \<Rightarrow> label res" where
  "init_addReader a r l =
     (if r \<in> set (m_get (lb_initRfs l) a) then Inl Bug
      else Inr (l\<lparr>lb_initRfs := m_mod a (\<lambda>rs. rs @ [r]) (lb_initRfs l)\<rparr>))"

definition init_removeReader :: "saddr \<Rightarrow> (event \<Rightarrow> bool) \<Rightarrow> label \<Rightarrow> label" where
  "init_removeReader a P l = l\<lparr>lb_initRfs := m_mod a (filter (\<lambda>r. \<not> P r)) (lb_initRfs l)\<rparr>"

end
