(* ===== verification/Exec_Graph.thy ===== *)
theory Exec_Graph
  imports Event_Labels
begin

text \<open>
  Execution graphs (\<open>ExecutionGraph.hpp\<close>, \<open>ExecutionGraph.cpp\<close>, \<open>DepExecutionGraph.cpp\<close>,
  \<open>GraphUtils.cpp\<close>): the labels of every thread, the coherence order of every location, the
  order of insertion and the stamp counter, with the operations that add, change, cut and copy.

  A pointer to a label is the position of the label.  \<open>getEventLabel\<close> checks its argument and
  aborts with \<open>Bug\<close>; a pointer whose label is gone is \<open>Undefined\<close>.
\<close>

section \<open>State and access\<close>

record exec_graph =
  events :: "label list list"
  timestamp :: stamp
  coherence :: reader_map
  insertionOrder :: "event list"
  recoveryTID :: int

definition getNumThreads :: "exec_graph \<Rightarrow> nat" where
  "getNumThreads g = length (events g)"

definition getThreadSize :: "exec_graph \<Rightarrow> nat \<Rightarrow> nat" where
  "getThreadSize g t = length (events g ! t)"

definition containsPos :: "exec_graph \<Rightarrow> event \<Rightarrow> bool" where
  "containsPos g e \<longleftrightarrow> thread e \<ge> 0 \<and> nat (thread e) < getNumThreads g \<and> index e \<ge> 0 \<and>
     nat (index e) < getThreadSize g (nat (thread e))"

definition lab_at :: "exec_graph \<Rightarrow> event \<Rightarrow> label option" where
  "lab_at g e = (if containsPos g e then Some (events g ! nat (thread e) ! nat (index e)) else None)"

definition getEventLabel :: "exec_graph \<Rightarrow> event \<Rightarrow> label res" where
  "getEventLabel g e = (case lab_at g e of Some l \<Rightarrow> Inr l | None \<Rightarrow> Inl Bug)"

definition deref :: "exec_graph \<Rightarrow> event \<Rightarrow> label res" where
  "deref g e = (case lab_at g e of Some l \<Rightarrow> Inr l | None \<Rightarrow> Inl Undefined)"

definition put_label :: "event \<Rightarrow> label \<Rightarrow> exec_graph \<Rightarrow> exec_graph" where
  "put_label e l g = g\<lparr>events := (events g)[nat (thread e) :=
     (events g ! nat (thread e))[nat (index e) := l]]\<rparr>"

text \<open>A change of the label at a position, or through a pointer.\<close>

definition with_label :: "event \<Rightarrow> (label \<Rightarrow> label res) \<Rightarrow> exec_graph \<Rightarrow> exec_graph res" where
  "with_label e f g = bindR (deref g e) (\<lambda>l. bindR (f l) (\<lambda>l'. Inr (put_label e l' g)))"

definition containsPosNonEmpty :: "exec_graph \<Rightarrow> event \<Rightarrow> bool" where
  "containsPosNonEmpty g e =
     (case lab_at g e of Some l \<Rightarrow> lb_kind l \<noteq> Empty | None \<Rightarrow> False)"

definition getPreviousLabel :: "exec_graph \<Rightarrow> label \<Rightarrow> event option" where
  "getPreviousLabel g l = (if index (lb_pos l) = 0 then None else Some (event_prev (lb_pos l)))"

definition getNextLabel :: "exec_graph \<Rightarrow> label \<Rightarrow> event option" where
  "getNextLabel g l =
     (if index (lb_pos l) = int (getThreadSize g (nat (thread (lb_pos l)))) - 1 then None
      else Some (event_next (lb_pos l)))"

definition getLastThreadLabel :: "exec_graph \<Rightarrow> nat \<Rightarrow> label res" where
  "getLastThreadLabel g t = getEventLabel g (Event (int t) (int (getThreadSize g t) - 1))"

definition isEventKind :: "(label_kind \<Rightarrow> bool) \<Rightarrow> exec_graph \<Rightarrow> event \<Rightarrow> bool" where
  "isEventKind P g e = (case lab_at g e of Some l \<Rightarrow> P (lb_kind l) | None \<Rightarrow> False)"

text \<open>\<open>ReadLabel::isRMW\<close> looks at the next label of the thread.\<close>

definition read_isRMW :: "exec_graph \<Rightarrow> label \<Rightarrow> bool" where
  "read_isRMW g l =
     (if \<not> isCasRead (lb_kind l) \<and> \<not> isFaiRead (lb_kind l) then False
      else case getNextLabel g l of
        None \<Rightarrow> False
      | Some n \<Rightarrow> (case lab_at g n of
            None \<Rightarrow> False
          | Some nl \<Rightarrow> isWrite (lb_kind nl) \<and> write_isRMW nl \<and> lb_addr nl = lb_addr l))"

text \<open>The positions of the graph, thread by thread.\<close>

definition positions :: "exec_graph \<Rightarrow> event list" where
  "positions g = concat (map (\<lambda>i. map (\<lambda>j. Event (int i) (int j)) [0..<getThreadSize g i])
     [0..<getNumThreads g])"

section \<open>Adding labels\<close>

definition nextStamp :: "exec_graph \<Rightarrow> stamp \<times> exec_graph" where
  "nextStamp g = (timestamp g, g\<lparr>timestamp := stamp_inc (timestamp g)\<rparr>)"

definition trackCoherenceAtLoc :: "saddr \<Rightarrow> exec_graph \<Rightarrow> exec_graph res" where
  "trackCoherenceAtLoc a g = with_label event_init
     (\<lambda>l. Inr (l\<lparr>lb_initRfs := m_touch a (lb_initRfs l)\<rparr>)) (g\<lparr>coherence := m_touch a (coherence g)\<rparr>)"

text \<open>The second half of \<open>addLabelToGraph\<close>: a label at the position must be a hole, which is
  replaced; otherwise the position must be the end of the thread.\<close>

definition place_label :: "label \<Rightarrow> exec_graph \<Rightarrow> exec_graph res" where
  "place_label lab g =
     (let p = lb_pos lab in
      if thread p < 0 \<or> nat (thread p) \<ge> getNumThreads g \<or> index p < 0 then Inl Out_of_range
      else if nat (index p) < getThreadSize g (nat (thread p)) then
        bindR (getEventLabel g p) (\<lambda>old.
        bindR (guardR Bug (lb_kind old = Empty)) (\<lambda>_.
          Inr ((put_label p lab g)\<lparr>insertionOrder := removeAll p (insertionOrder g) @ [p]\<rparr>)))
      else if nat (index p) > getThreadSize g (nat (thread p)) then Inl Out_of_range
      else Inr (g\<lparr>events := (events g)[nat (thread p) := events g ! nat (thread p) @ [lab]],
                  insertionOrder := insertionOrder g @ [p]\<rparr>))"

definition addLabelToGraph :: "label \<Rightarrow> exec_graph \<Rightarrow> exec_graph res" where
  "addLabelToGraph l g =
     (let (lab, g1) = (case lb_stamp l of
            None \<Rightarrow> (let (st, g') = nextStamp g in (l\<lparr>lb_stamp := Some st\<rparr>, g'))
          | Some _ \<Rightarrow> (l, g))
      in bindR (if isMemAccess (lb_kind lab) then trackCoherenceAtLoc (lb_addr lab) g1 else Inr g1)
           (place_label lab))"

definition addNewThread :: "exec_graph \<Rightarrow> exec_graph" where
  "addNewThread g = g\<lparr>events := events g @ [[]]\<rparr>"

definition addRecoveryThread :: "exec_graph \<Rightarrow> exec_graph" where
  "addRecoveryThread g = g\<lparr>recoveryTID := int (length (events g)), events := events g @ [[]]\<rparr>"

definition delRecoveryThread :: "exec_graph \<Rightarrow> exec_graph" where
  "delRecoveryThread g = g\<lparr>events := butlast (events g), recoveryTID := -1\<rparr>"

text \<open>The constructor: thread 0 with the initializer.\<close>

definition new_graph :: exec_graph where
  "new_graph =
     \<lparr>events = [[init_label\<lparr>lb_stamp := Some 0, lb_calculated := [[]], lb_views := [[]],
                            lb_prefixView := Some (VC_View [])\<rparr>]],
      timestamp = 1, coherence = [], insertionOrder = [event_init], recoveryTID = -1\<rparr>"

definition createHoleLabel :: "event \<Rightarrow> label" where
  "createHoleLabel p = (new_label Empty p NotAtomic)\<lparr>lb_views := [[]], lb_calculated := [[]]\<rparr>"

section \<open>Reads-from and coherence\<close>

definition drop_reader :: "event \<Rightarrow> saddr \<Rightarrow> event \<Rightarrow> exec_graph \<Rightarrow> exec_graph res" where
  "drop_reader r a w g = with_label w (\<lambda>l.
     if isWrite (lb_kind l) then Inr (removeReader (\<lambda>x. x = r) l)
     else if lb_kind l = Init then Inr (init_removeReader a (\<lambda>x. x = r) l)
     else Inl Bug) g"

definition join_reader :: "event \<Rightarrow> saddr \<Rightarrow> event \<Rightarrow> exec_graph \<Rightarrow> exec_graph res" where
  "join_reader r a w g = with_label w (\<lambda>l.
     if isWrite (lb_kind l) then addReader r l
     else if lb_kind l = Init then init_addReader a r l
     else Inl Bug) g"

definition setRf :: "event \<Rightarrow> event option \<Rightarrow> exec_graph \<Rightarrow> exec_graph res" where
  "setRf r rf g =
     bindR (deref g r) (\<lambda>rl.
     let g1 = put_label r (rl\<lparr>lb_rf := rf\<rparr>) g
     in bindR (case lb_rf rl of
            None \<Rightarrow> Inr g1
          | Some old \<Rightarrow> if containsPos g1 old then drop_reader r (lb_addr rl) old g1 else Inr g1) (\<lambda>g2.
        case rf of None \<Rightarrow> Inr g2 | Some w \<Rightarrow> join_reader r (lb_addr rl) w g2))"

definition co :: "exec_graph \<Rightarrow> saddr \<Rightarrow> event list" where
  "co g a = m_get (coherence g) a"

text \<open>Insertion of \<open>w\<close> in front of \<open>s\<close>, or behind \<open>p\<close>.\<close>

fun insert_before :: "event \<Rightarrow> event \<Rightarrow> event list \<Rightarrow> event list" where
  "insert_before s w [] = [w]"
| "insert_before s w (x # xs) = (if x = s then w # x # xs else x # insert_before s w xs)"

fun insert_after :: "event \<Rightarrow> event \<Rightarrow> event list \<Rightarrow> event list" where
  "insert_after p w [] = [w]"
| "insert_after p w (x # xs) = (if x = p then x # w # xs else x # insert_after p w xs)"

definition addStoreToCOBefore :: "event \<Rightarrow> event \<Rightarrow> exec_graph \<Rightarrow> exec_graph res" where
  "addStoreToCOBefore w s g = bindR (deref g w) (\<lambda>wl.
     if s \<in> set (co g (lb_addr wl))
     then Inr (g\<lparr>coherence := m_mod (lb_addr wl) (insert_before s w) (coherence g)\<rparr>)
     else Inl Undefined)"

definition addStoreToCOAfter :: "event \<Rightarrow> event \<Rightarrow> exec_graph \<Rightarrow> exec_graph res" where
  "addStoreToCOAfter w p g = bindR (deref g w) (\<lambda>wl. bindR (deref g p) (\<lambda>pl.
     if isWrite (lb_kind pl) then
       (if p \<in> set (co g (lb_addr wl))
        then Inr (g\<lparr>coherence := m_mod (lb_addr wl) (insert_after p w) (coherence g)\<rparr>)
        else Inl Undefined)
     else Inr (g\<lparr>coherence := m_mod (lb_addr wl) (\<lambda>ws. w # ws) (coherence g)\<rparr>)))"

definition removeStoreFromCO :: "event \<Rightarrow> exec_graph \<Rightarrow> exec_graph res" where
  "removeStoreFromCO w g = bindR (deref g w) (\<lambda>wl.
     Inr (g\<lparr>coherence := m_mod (lb_addr wl) (removeAll w) (coherence g)\<rparr>))"

definition moveStoreCOBefore :: "event \<Rightarrow> event \<Rightarrow> exec_graph \<Rightarrow> exec_graph res" where
  "moveStoreCOBefore w s g = bindR (removeStoreFromCO w g) (addStoreToCOBefore w s)"

definition moveStoreCOAfter :: "event \<Rightarrow> event \<Rightarrow> exec_graph \<Rightarrow> exec_graph res" where
  "moveStoreCOAfter w p g = bindR (removeStoreFromCO w g) (addStoreToCOAfter w p)"

text \<open>The neighbour of \<open>w\<close> in a list without duplicates.\<close>

fun succ_in :: "event \<Rightarrow> event list \<Rightarrow> event option" where
  "succ_in w [] = None"
| "succ_in w (x # xs) = (if x = w then (case xs of [] \<Rightarrow> None | y # _ \<Rightarrow> Some y) else succ_in w xs)"

text \<open>The constant accessors use \<open>at\<close>, which throws for a location that is not tracked; a store
  that is not linked has no neighbours to step to.\<close>

definition co_at :: "exec_graph \<Rightarrow> saddr \<Rightarrow> event list res" where
  "co_at g a = (case map_of (coherence g) a of Some ws \<Rightarrow> Inr ws | None \<Rightarrow> Inl Out_of_range)"

definition co_imm_succ :: "exec_graph \<Rightarrow> label \<Rightarrow> event option res" where
  "co_imm_succ g wl = bindR (co_at g (lb_addr wl)) (\<lambda>ws.
     if lb_pos wl \<in> set ws then Inr (succ_in (lb_pos wl) ws) else Inl Undefined)"

definition co_imm_pred :: "exec_graph \<Rightarrow> label \<Rightarrow> event option res" where
  "co_imm_pred g wl = bindR (co_at g (lb_addr wl)) (\<lambda>ws.
     if lb_pos wl \<in> set ws then Inr (succ_in (lb_pos wl) (rev ws)) else Inl Undefined)"

definition co_max :: "exec_graph \<Rightarrow> saddr \<Rightarrow> event res" where
  "co_max g a = bindR (co_at g a) (\<lambda>ws. Inr (if ws = [] then event_init else last ws))"

definition fr_imm_succ :: "exec_graph \<Rightarrow> label \<Rightarrow> event option res" where
  "fr_imm_succ g rl =
     (case lb_rf rl of
        None \<Rightarrow> Inl Undefined
      | Some w \<Rightarrow> bindR (deref g w) (\<lambda>wl.
          if isWrite (lb_kind wl) then co_imm_succ g wl
          else bindR (co_at g (lb_addr rl)) (\<lambda>ws. Inr (case ws of [] \<Rightarrow> None | x # _ \<Rightarrow> Some x))))"

definition isLocEmpty :: "exec_graph \<Rightarrow> saddr \<Rightarrow> bool res" where
  "isLocEmpty g a = bindR (co_at g a) (\<lambda>ws. Inr (ws = []))"

definition hasLocMoreThanOneStore :: "exec_graph \<Rightarrow> saddr \<Rightarrow> bool res" where
  "hasLocMoreThanOneStore g a = bindR (co_at g a) (\<lambda>ws. Inr (ws \<noteq> [] \<and> tl ws \<noteq> []))"

section \<open>Queries\<close>

text \<open>\<open>std::min_element\<close> returns the first of the smallest elements.\<close>

fun min_stamp :: "(event \<Rightarrow> stamp) \<Rightarrow> event \<Rightarrow> event list \<Rightarrow> event" where
  "min_stamp f m [] = m"
| "min_stamp f m (x # xs) = min_stamp f (if f x < f m then x else m) xs"

definition stamp_of :: "exec_graph \<Rightarrow> event \<Rightarrow> stamp" where
  "stamp_of g e = (case lab_at g e of Some l \<Rightarrow> the (lb_stamp l) | None \<Rightarrow> 0)"

definition getMinimumStampEvent :: "exec_graph \<Rightarrow> event list \<Rightarrow> event" where
  "getMinimumStampEvent g es = (case es of [] \<Rightarrow> event_init | x # xs \<Rightarrow> min_stamp (stamp_of g) x xs)"

definition is_rmw_read_at :: "exec_graph \<Rightarrow> event \<Rightarrow> bool" where
  "is_rmw_read_at g e = (case lab_at g e of Some l \<Rightarrow> read_isRMW g l | None \<Rightarrow> False)"

definition rf_at :: "exec_graph \<Rightarrow> event \<Rightarrow> event option" where
  "rf_at g e = (case lab_at g e of Some l \<Rightarrow> lb_rf l | None \<Rightarrow> None)"

text \<open>\<open>getPendingRMW\<close>: the label before the write must be a read with an \<open>rf\<close>.\<close>

definition getPendingRMW :: "exec_graph \<Rightarrow> label \<Rightarrow> event res" where
  "getPendingRMW g sl =
     (if \<not> write_isRMW sl then Inr event_init
      else case getPreviousLabel g sl of
        None \<Rightarrow> Inl Undefined
      | Some pp \<Rightarrow> bindR (deref g pp) (\<lambda>pl.
          if \<not> isRead (lb_kind pl) then Inl Undefined
          else case lb_rf pl of
            None \<Rightarrow> Inl Bug
          | Some w \<Rightarrow> bindR (deref g w) (\<lambda>wl.
              if isWrite (lb_kind wl) then
                Inr (getMinimumStampEvent g
                  (filter (\<lambda>r. is_rmw_read_at g r \<and> r \<noteq> pp) (lb_readers wl)))
              else bindR (deref g event_init) (\<lambda>il.
                case map_of (lb_initRfs il) (lb_addr pl) of
                  None \<Rightarrow> Inl Out_of_range
                | Some rs \<Rightarrow> Inr (getMinimumStampEvent g
                    (filter (\<lambda>r. rf_at g r = Some w \<and> r \<noteq> pp \<and> is_rmw_read_at g r) rs))))))"

definition violatesAtomicity :: "exec_graph \<Rightarrow> label \<Rightarrow> bool res" where
  "violatesAtomicity g sl =
     (if write_isRMW sl then bindR (getPendingRMW g sl) (\<lambda>e. Inr (\<not> event_isInitializer e))
      else Inr False)"

text \<open>The filter of \<open>getRevisitable\<close> on one label, and the loads it keeps when an RMW is pending.\<close>

definition revisitable_for :: "label \<Rightarrow> label \<Rightarrow> bool" where
  "revisitable_for sl l \<longleftrightarrow> isRead (lb_kind l) \<and> lb_addr l = lb_addr sl \<and> lb_revisitable l \<and> lb_maximal l"

definition label_sat :: "(label \<Rightarrow> bool) \<Rightarrow> exec_graph \<Rightarrow> event \<Rightarrow> bool" where
  "label_sat P g e = (case lab_at g e of Some l \<Rightarrow> P l | None \<Rightarrow> False)"

definition drop_younger :: "exec_graph \<Rightarrow> event \<Rightarrow> event list \<Rightarrow> event list" where
  "drop_younger g pending loads =
     (if event_isInitializer pending then loads
      else filter (\<lambda>e. \<not> stamp_of g e > stamp_of g pending) loads)"

definition getRevisitable :: "exec_graph \<Rightarrow> label \<Rightarrow> vector_clock \<Rightarrow> event list res" where
  "getRevisitable g sl before =
     bindR (getPendingRMW g sl) (\<lambda>pending.
     bindR (foldR (\<lambda>i es. bindR (vc_getMax before (int i)) (\<lambda>m.
              Inr (es @ filter (label_sat (revisitable_for sl) g)
                 (map (\<lambda>j. Event (int i) (int j)) [nat (m + 1)..<getThreadSize g i]))))
            [0..<getNumThreads g] []) (\<lambda>loads.
       Inr (drop_younger g pending loads)))"

definition dep_getRevisitable :: "exec_graph \<Rightarrow> label \<Rightarrow> vector_clock \<Rightarrow> event list res" where
  "dep_getRevisitable g sl pporf =
     bindR (getPendingRMW g sl) (\<lambda>pending.
     bindR (foldR (\<lambda>e es.
              if thread e \<noteq> thread (lb_pos sl) \<and> index e \<ge> 1 \<and>
                 label_sat (\<lambda>l. isRead (lb_kind l) \<and> lb_addr l = lb_addr sl) g e then
                bindR (vc_contains pporf e) (\<lambda>b.
                  Inr (if \<not> b \<and> label_sat (\<lambda>l. lb_revisitable l \<and> lb_maximal l) g e then es @ [e] else es))
              else Inr es)
            (positions g) []) (\<lambda>loads.
       Inr (drop_younger g pending loads)))"

text \<open>\<open>addAlloc\<close>, with a null allocation ignored.\<close>

definition addAlloc :: "event option \<Rightarrow> event \<Rightarrow> exec_graph \<Rightarrow> exec_graph res" where
  "addAlloc a m g = (case a of
     None \<Rightarrow> Inr g
   | Some al \<Rightarrow> bindR (with_label m (\<lambda>l. Inr (l\<lparr>lb_alloc := Some al\<rparr>)) g) (with_label al (addAccess m)))"

section \<open>Validation, prefixes\<close>

text \<open>\<open>validate\<close> calls \<open>BUG\<close> when one of these fails for some label.\<close>

definition validate_read :: "exec_graph \<Rightarrow> event \<Rightarrow> label \<Rightarrow> bool" where
  "validate_read g p l = (case lb_rf l of
     None \<Rightarrow> True
   | Some w \<Rightarrow> (case lab_at g w of
        None \<Rightarrow> False
      | Some wl \<Rightarrow> isWrite (lb_kind wl) \<longrightarrow> list_ex (\<lambda>r. r = p) (lb_readers wl)))"

definition validate_write :: "exec_graph \<Rightarrow> event \<Rightarrow> label \<Rightarrow> bool" where
  "validate_write g p l \<longleftrightarrow>
     \<not> (write_isRMW l \<and> length (filter (is_rmw_read_at g) (lb_readers l)) > 1) \<and>
     list_all (containsPosNonEmpty g) (lb_readers l) \<and>
     list_all (\<lambda>r. rf_at g r = Some p) (lb_readers l)"

definition validate :: "exec_graph \<Rightarrow> unit res" where
  "validate g = foldR (\<lambda>p _. bindR (deref g p) (\<lambda>l.
     if (isRead (lb_kind l) \<longrightarrow> validate_read g p l) \<and> (isWrite (lb_kind l) \<longrightarrow> validate_write g p l)
     then Inr () else Inl Bug)) (insertionOrder g) ()"

definition prefix_label :: "exec_graph \<Rightarrow> exec_graph \<Rightarrow> label \<Rightarrow> label \<Rightarrow> bool res" where
  "prefix_label g1 g2 l1 l2 =
     (if lb_kind l1 \<noteq> lb_kind l2 then Inr False
      else if isRead (lb_kind l1) then
        (case (lb_rf l1, lb_rf l2) of
           (Some a, Some b) \<Rightarrow> Inr (a = b)
         | (Some a, None) \<Rightarrow> Inr False
         | (None, None) \<Rightarrow> Inr False
         | (None, Some b) \<Rightarrow> Inl Undefined)
      else if isWrite (lb_kind l1) then
        bindR (co_imm_pred g1 l1) (\<lambda>p1. bindR (co_imm_pred g2 l2) (\<lambda>p2.
          Inr (case (p1, p2) of
             (Some a, Some b) \<Rightarrow> a = b
           | (Some a, None) \<Rightarrow> False
           | (None, _) \<Rightarrow> True)))
      else Inr True)"

fun all_labels :: "(event \<Rightarrow> bool res) \<Rightarrow> event list \<Rightarrow> bool res" where
  "all_labels f [] = Inr True"
| "all_labels f (e # es) = bindR (f e) (\<lambda>b. if b then all_labels f es else Inr False)"

fun prefix_threads :: "exec_graph \<Rightarrow> exec_graph \<Rightarrow> nat list \<Rightarrow> bool res" where
  "prefix_threads g1 g2 [] = Inr True"
| "prefix_threads g1 g2 (i # is) =
     (if getThreadSize g2 i < getThreadSize g1 i then Inr False
      else bindR (all_labels (\<lambda>e. bindR (getEventLabel g1 e) (\<lambda>l1. bindR (getEventLabel g2 e)
                   (prefix_label g1 g2 l1)))
                 (map (\<lambda>j. Event (int i) (int j)) [0..<getThreadSize g1 i]))
        (\<lambda>b. if b then prefix_threads g1 g2 is else Inr False))"

definition isPrefixOf :: "exec_graph \<Rightarrow> exec_graph \<Rightarrow> bool res" where
  "isPrefixOf g1 g2 =
     (if getNumThreads g2 < getNumThreads g1 then Inr False
      else prefix_threads g1 g2 [0..<getNumThreads g1])"

section \<open>Searches along a thread\<close>

text \<open>\<open>findMatchingLock\<close>: the indices from the unlock's down to 1, with the unlocks seen and not
  yet matched.\<close>

definition is_lock_write :: "label_kind \<Rightarrow> bool" where
  "is_lock_write k \<longleftrightarrow> k = LockCasWrite \<or> k = TrylockCasWrite"

fun matching_lock :: "exec_graph \<Rightarrow> int \<Rightarrow> saddr \<Rightarrow> nat \<Rightarrow> event list \<Rightarrow> event option res" where
  "matching_lock g t a 0 us = Inr None"
| "matching_lock g t a (Suc j) us =
     (let e = Event t (int (Suc j)) in
      bindR (getEventLabel g e) (\<lambda>l.
      let us1 = (if lb_kind l = UnlockWrite \<and> lb_addr l = a then us @ [e] else us)
      in if is_lock_write (lb_kind l) \<and> lb_addr l = a then
           (if us1 = [] then Inr (Some e) else matching_lock g t a j (butlast us1))
         else matching_lock g t a j us1))"

definition findMatchingLock :: "exec_graph \<Rightarrow> label \<Rightarrow> event option res" where
  "findMatchingLock g ul = matching_lock g (thread (lb_pos ul)) (lb_addr ul) (nat (index (lb_pos ul) - 1)) []"

fun matching_unlock :: "exec_graph \<Rightarrow> saddr \<Rightarrow> event list \<Rightarrow> event list \<Rightarrow> event option res" where
  "matching_unlock g a [] ls = Inr None"
| "matching_unlock g a (e # es) ls =
     bindR (getEventLabel g e) (\<lambda>l.
     let ls1 = (if is_lock_write (lb_kind l) \<and> lb_addr l = a then ls @ [e] else ls)
     in if lb_kind l = UnlockWrite \<and> lb_addr l = a then
          (if ls1 = [] then Inr (Some e) else matching_unlock g a es (butlast ls1))
        else matching_unlock g a es ls1)"

definition findMatchingUnlock :: "exec_graph \<Rightarrow> label \<Rightarrow> event option res" where
  "findMatchingUnlock g ll =
     bindR (guardR Bug (lb_kind ll = LockCasRead \<or> lb_kind ll = TrylockCasRead)) (\<lambda>_.
     let t = thread (lb_pos ll)
     in matching_unlock g (lb_addr ll)
          (map (\<lambda>j. Event t (int j)) [nat (index (lb_pos ll) + 1)..<getThreadSize g (nat t)]) [])"

text \<open>\<open>findMatchingSpeculativeRead\<close> also returns, through its reference argument \<open>sc\<close>, the last
  SC label it has passed.\<close>

fun matching_speculative :: "exec_graph \<Rightarrow> int \<Rightarrow> saddr \<Rightarrow> nat \<Rightarrow> event option \<Rightarrow> (event option \<times> event option) res" where
  "matching_speculative g t a 0 sc = Inr (None, sc)"
| "matching_speculative g t a (Suc j) sc =
     (let e = Event t (int (Suc j)) in
      bindR (getEventLabel g e) (\<lambda>l.
      let sc1 = (if isSC (lb_ordering l) then Some e else sc)
      in if lb_kind l = SpeculativeRead \<and> lb_addr l = a then Inr (Some e, sc1)
         else matching_speculative g t a j sc1))"

definition findMatchingSpeculativeRead ::
    "exec_graph \<Rightarrow> label \<Rightarrow> event option \<Rightarrow> (event option \<times> event option) res" where
  "findMatchingSpeculativeRead g cl sc =
     matching_speculative g (thread (lb_pos cl)) (lb_addr cl) (nat (index (lb_pos cl) - 1)) sc"

definition findAllocatingLabel :: "exec_graph \<Rightarrow> saddr \<Rightarrow> event option" where
  "findAllocatingLabel g a =
     (if \<not> saddr_isDynamic a then None
      else List.find (label_sat (\<lambda>l. isMalloc (lb_kind l) \<and> malloc_contains l a) g) (insertionOrder g))"

text \<open>\<open>isHazptrProtected\<close>: the last protection of an address in the access's block must not be
  followed by another one on the same hazard pointer.\<close>

fun last_protect :: "exec_graph \<Rightarrow> int \<Rightarrow> label \<Rightarrow> nat \<Rightarrow> event option" where
  "last_protect g t al 0 = None"
| "last_protect g t al (Suc j) =
     (let e = Event t (int j) in
      if label_sat (\<lambda>l. lb_kind l = HpProtect \<and> malloc_contains al (lb_protAddr l)) g e then Some e
      else last_protect g t al j)"

definition isHazptrProtected :: "exec_graph \<Rightarrow> label \<Rightarrow> bool res" where
  "isHazptrProtected g ml =
     bindR (guardR Bug (saddr_isDynamic (lb_addr ml))) (\<lambda>_.
     case lb_alloc ml of
       None \<Rightarrow> Inl Bug
     | Some a \<Rightarrow> bindR (deref g a) (\<lambda>al.
         case last_protect g (thread (lb_pos ml)) al (nat (index (lb_pos ml))) of
           None \<Rightarrow> Inr False
         | Some pp \<Rightarrow> bindR (deref g pp) (\<lambda>pl.
             Inr (\<not> list_ex (label_sat (\<lambda>l. lb_kind l = HpProtect \<and> lb_hpAddr l = lb_hpAddr pl) g)
               (map (\<lambda>j. Event (thread (lb_pos ml)) (int j))
                  [nat (index pp + 1)..<nat (index (lb_pos ml))])))))"

end
