(* ===== verification/Graph_Cutting.thy ===== *)
theory Graph_Cutting
  imports Exec_Graph
begin

text \<open>
  Views of a graph, cutting a graph at a stamp, and copying a graph up to a view: the operations
  with which the exploration goes back to an earlier state (\<open>ExecutionGraph.cpp\<close>) and their
  variants for dependency-tracking graphs (\<open>DepExecutionGraph.cpp\<close>).

  A graph position never has a negative thread or index, so \<open>contains\<close> and \<open>getMax\<close> do not fail
  on one; \<open>vc_has\<close> and \<open>vc_max\<close> are their values.
\<close>

definition vc_has :: "vector_clock \<Rightarrow> event \<Rightarrow> bool" where
  "vc_has v e = (vc_contains v e = Inr True)"

definition vc_max :: "vector_clock \<Rightarrow> nat \<Rightarrow> int" where
  "vc_max v t = (case vc_getMax v (int t) of Inr m \<Rightarrow> m | Inl _ \<Rightarrow> 0)"

section \<open>Views\<close>

text \<open>The search from the end of a thread for a label with a stamp up to \<open>st\<close>; the argument
  counts the labels left.\<close>

fun last_upto :: "exec_graph \<Rightarrow> stamp \<Rightarrow> nat \<Rightarrow> nat \<Rightarrow> event option" where
  "last_upto g st i 0 = None"
| "last_upto g st i (Suc j) =
     (if stamp_of g (Event (int i) (int j)) \<le> st then Some (Event (int i) (int j))
      else last_upto g st i j)"

definition getViewFromStamp :: "stamp \<Rightarrow> exec_graph \<Rightarrow> vector_clock res" where
  "getViewFromStamp st g =
     bindR (foldR (\<lambda>i v. case last_upto g st i (getThreadSize g i) of
                Some e \<Rightarrow> view_setMax v e
              | None \<Rightarrow> Inr v) [0..<getNumThreads g] [])
       (\<lambda>v. Inr (VC_View v))"

definition dep_getViewFromStamp :: "stamp \<Rightarrow> exec_graph \<Rightarrow> vector_clock res" where
  "dep_getViewFromStamp st g =
     bindR (foldR (\<lambda>e v. if index e \<ge> 1 \<and> stamp_of g e \<le> st then dv_setMax v e else Inr v)
              (positions g) dv_empty)
       (\<lambda>v. Inr (VC_DepView v))"

section \<open>Cutting\<close>

definition below_view :: "vector_clock \<Rightarrow> nat \<Rightarrow> event list" where
  "below_view v j0 = concat (map (\<lambda>i. map (\<lambda>j. Event (int i) (int j)) [j0..<nat (vc_max v i + 1)])
     [0..<vc_size v])"

text \<open>\<open>removeAfter\<close>: one iterator over the coherence map and one, advanced with it, over the
  initializer's readers.  \<open>n\<close> is the position of the second.\<close>

fun removeAfter_loop ::
    "saddr list \<Rightarrow> (event \<Rightarrow> bool) \<Rightarrow> reader_map \<Rightarrow> reader_map \<Rightarrow> nat \<Rightarrow> (reader_map \<times> reader_map) res" where
  "removeAfter_loop keep has [] rfs n = Inr ([], rfs)"
| "removeAfter_loop keep has ((a, ws) # cs) rfs n =
     (if a \<notin> set keep then
        (if n < length rfs then removeAfter_loop keep has cs (take n rfs @ drop (Suc n) rfs) n
         else Inl Undefined)
      else bindR (removeAfter_loop keep has cs (m_mod a (filter has) rfs) (Suc n))
        (\<lambda>r. Inr ((a, filter has ws) # fst r, snd r)))"

definition kept_locations :: "vector_clock \<Rightarrow> exec_graph \<Rightarrow> saddr list res" where
  "kept_locations v g = foldR (\<lambda>e ks. bindR (getEventLabel g e) (\<lambda>l.
     Inr (if isMemAccess (lb_kind l) then lb_addr l # ks else ks))) (below_view v 0) []"

definition removeAfter :: "vector_clock \<Rightarrow> exec_graph \<Rightarrow> exec_graph res" where
  "removeAfter v g =
     bindR (kept_locations v g) (\<lambda>keep.
     bindR (getEventLabel g event_init) (\<lambda>il.
     bindR (removeAfter_loop keep (vc_has v) (coherence g) (lb_initRfs il) 0) (\<lambda>(cs, rfs).
       Inr ((put_label event_init (il\<lparr>lb_initRfs := rfs\<rparr>) g)\<lparr>coherence := cs\<rparr>))))"

text \<open>Removing the pointers of a label to labels that are cut.\<close>

definition keep_ptr :: "(event \<Rightarrow> bool) \<Rightarrow> event option \<Rightarrow> event option" where
  "keep_ptr has p = (case p of Some e \<Rightarrow> if has e then Some e else None | None \<Rightarrow> None)"

definition cut_pointers :: "(event \<Rightarrow> bool) \<Rightarrow> label \<Rightarrow> label" where
  "cut_pointers has l =
     (let l1 = (if isWrite (lb_kind l) then removeReader (\<lambda>r. \<not> has r) l else l);
          l2 = (if isRead (lb_kind l) then l1\<lparr>lb_rf := keep_ptr has (lb_rf l1)\<rparr> else l1);
          l3 = (if isMemAccess (lb_kind l) then l2\<lparr>lb_alloc := keep_ptr has (lb_alloc l2)\<rparr> else l2);
          l4 = (if isThreadFinish (lb_kind l)
                then l3\<lparr>lb_parentJoin := keep_ptr has (lb_parentJoin l3)\<rparr> else l3);
          l5 = (if isFree (lb_kind l) then l4\<lparr>lb_alloc := keep_ptr has (lb_alloc l4)\<rparr> else l4)
      in if isMalloc (lb_kind l)
         then removeAccess (\<lambda>m. \<not> has m) (l5\<lparr>lb_free := keep_ptr has (lb_free l5)\<rparr>) else l5)"

text \<open>Erasing the end of every thread; an erased range that starts behind the end is undefined.\<close>

definition erase_after :: "vector_clock \<Rightarrow> exec_graph \<Rightarrow> exec_graph res" where
  "erase_after v g =
     (if \<exists>i < getNumThreads g. nat (vc_max v i + 1) > getThreadSize g i then Inl Undefined
      else Inr (g\<lparr>events := map (\<lambda>i. take (nat (vc_max v i + 1)) (events g ! i)) [0..<getNumThreads g]\<rparr>))"

definition restrict_labels :: "(event \<Rightarrow> bool) \<Rightarrow> event list \<Rightarrow> exec_graph \<Rightarrow> exec_graph res" where
  "restrict_labels has es g = foldR (\<lambda>e h. bindR (getEventLabel h e) (\<lambda>l.
     Inr (put_label e (cut_pointers has l) h))) es g"

definition cut_to_view :: "vector_clock \<Rightarrow> nat \<Rightarrow> exec_graph \<Rightarrow> exec_graph res" where
  "cut_to_view v j0 g =
     bindR (removeAfter v g) (\<lambda>g1.
     let g2 = g1\<lparr>insertionOrder := filter (vc_has v) (insertionOrder g1)\<rparr>
     in bindR (restrict_labels (vc_has v) (filter (\<lambda>e. j0 = 0 \<or> vc_has v e) (below_view v j0)) g2)
          (erase_after v))"

definition cutToStamp :: "stamp \<Rightarrow> exec_graph \<Rightarrow> exec_graph res" where
  "cutToStamp st g = bindR (getViewFromStamp st g) (\<lambda>v. cut_to_view v 0 g)"

text \<open>The holes that a cut leaves in a dependency-tracking graph.\<close>

definition put_hole :: "event \<Rightarrow> exec_graph \<Rightarrow> exec_graph" where
  "put_hole e g =
     (let (st, g1) = nextStamp g
      in (put_label e ((createHoleLabel e)\<lparr>lb_stamp := Some st\<rparr>) g1)
           \<lparr>insertionOrder := insertionOrder g1 @ [e]\<rparr>)"

definition dep_cutToStamp :: "stamp \<Rightarrow> exec_graph \<Rightarrow> exec_graph res" where
  "dep_cutToStamp st g =
     bindR (dep_getViewFromStamp st g) (\<lambda>v.
     bindR (cut_to_view v 1 g) (\<lambda>g1.
       Inr (fold put_hole (filter (\<lambda>e. \<not> vc_has v e) (positions g1)) g1)))"

definition compressStampsAfter :: "stamp \<Rightarrow> exec_graph \<Rightarrow> exec_graph res" where
  "compressStampsAfter st g =
     foldR (\<lambda>e h. bindR (deref h e) (\<lambda>l.
         if the (lb_stamp l) > st
         then Inr (put_label e (l\<lparr>lb_stamp := Some (fst (nextStamp h))\<rparr>) (snd (nextStamp h)))
         else Inr h))
       (insertionOrder g) (g\<lparr>timestamp := stamp_add st 1\<rparr>)"

section \<open>Removing the last label of a thread\<close>

definition removeLast :: "nat \<Rightarrow> exec_graph \<Rightarrow> exec_graph res" where
  "removeLast t g =
     bindR (getLastThreadLabel g t) (\<lambda>l.
     let p = lb_pos l; k = lb_kind l in
     bindR (case lb_rf l of
         Some w \<Rightarrow> if isRead k \<and> isEventKind isWrite g w
                   then with_label w (\<lambda>wl. Inr (removeReader (\<lambda>r. r = p) wl)) g else Inr g
       | None \<Rightarrow> Inr g) (\<lambda>g1.
     bindR (if isWrite k
            then foldR (\<lambda>r. with_label r (\<lambda>rl. Inr (rl\<lparr>lb_rf := None\<rparr>))) (lb_readers l) g1
            else Inr g1) (\<lambda>g2.
     bindR (case lb_alloc l of
         Some a \<Rightarrow> if isMemAccess k \<and> isEventKind isMalloc g a
                   then with_label a (\<lambda>al. Inr (removeAccess (\<lambda>m. m = p) al)) g2 else Inr g2
       | None \<Rightarrow> Inr g2) (\<lambda>g3.
     bindR (if isFree k then
              (case lb_alloc l of
                 Some a \<Rightarrow> with_label a (\<lambda>al. Inr (al\<lparr>lb_free := None\<rparr>)) g3
               | None \<Rightarrow> Inl Undefined)
            else Inr g3) (\<lambda>g4.
     bindR (case lb_free l of
         Some d \<Rightarrow> if isMalloc k \<and> isEventKind isFree g d
                   then with_label d (\<lambda>dl. Inr (dl\<lparr>lb_alloc := None\<rparr>)) g4 else Inr g4
       | None \<Rightarrow> Inr g4) (\<lambda>g5.
       Inr (g5\<lparr>insertionOrder := removeAll p (insertionOrder g5),
               events := (events g5)[t := take (nat (index p)) (events g5 ! t)]\<rparr>)))))))"

section \<open>Copying\<close>

text \<open>Step one: clones of the labels in the view, and holes for the positions below its maxima
  that it does not contain.\<close>

definition copy_labels :: "vector_clock \<Rightarrow> exec_graph \<Rightarrow> exec_graph \<Rightarrow> exec_graph res" where
  "copy_labels v g h =
     foldR (\<lambda>i h1.
       bindR (if i \<noteq> 0 then bindR (getEventLabel g (Event (int i) 0)) (\<lambda>l. addLabelToGraph (clone_label l) h1)
              else Inr h1)
         (foldR (\<lambda>j h2.
            let e = Event (int i) (int j) in
            if \<not> vc_has v e then addLabelToGraph (createHoleLabel e) h2
            else bindR (getEventLabel g e) (\<lambda>l. addLabelToGraph (clone_label l) h2))
          [1..<nat (vc_max v i + 1)]))
       [0..<getNumThreads g]
       (h\<lparr>timestamp := timestamp g, recoveryTID := recoveryTID g,
          events := events h @ replicate (getNumThreads g - length (events h)) []\<rparr>)"

text \<open>Step two: the pointers of a label of the copy \<open>h\<close>, from those of its original.\<close>

definition copy_ptr_in :: "exec_graph \<Rightarrow> event option \<Rightarrow> event option" where
  "copy_ptr_in h p = keep_ptr (containsPos h) p"

definition copy_readers ::
    "(event \<Rightarrow> bool) \<Rightarrow> (label_kind \<Rightarrow> bool) \<Rightarrow> (event \<Rightarrow> label \<Rightarrow> label res) \<Rightarrow>
     event list \<Rightarrow> exec_graph \<Rightarrow> label \<Rightarrow> label res" where
  "copy_readers has P add es h l = foldR (\<lambda>r l1. if has r then
     (if isEventKind P h r then add r l1 else Inl Undefined) else Inr l1) es l"

definition copy_pointers :: "(event \<Rightarrow> bool) \<Rightarrow> exec_graph \<Rightarrow> exec_graph \<Rightarrow> label \<Rightarrow> label res" where
  "copy_pointers has g h l =
     (let k = lb_kind l;
          l1 = (if isRead k then l\<lparr>lb_rf := copy_ptr_in h (lb_rf l)\<rparr> else l)
      in bindR (if isWrite k then bindR (deref g (lb_pos l)) (\<lambda>ol.
                  copy_readers has isRead addReader (lb_readers ol) h (l1\<lparr>lb_readers := []\<rparr>)) else Inr l1) (\<lambda>l2.
     let l3 = (if isMemAccess k
               then l2\<lparr>lb_alloc := (case copy_ptr_in h (lb_alloc l2) of
                         Some a \<Rightarrow> if isEventKind isMalloc h a then Some a else None
                       | None \<Rightarrow> None)\<rparr> else l2);
         l4 = (if isThreadFinish k then l3\<lparr>lb_parentJoin := keep_ptr has (lb_parentJoin l3)\<rparr> else l3);
         l5 = (if isMalloc k then l4\<lparr>lb_free := keep_ptr has (lb_free l4)\<rparr> else l4)
     in bindR (if isMalloc k then bindR (deref g (lb_pos l)) (\<lambda>ol.
                 copy_readers has isMemAccess addAccess (lb_accesses ol) h (l5\<lparr>lb_accesses := []\<rparr>)) else Inr l5) (\<lambda>l6.
     Inr (if isFree k then l6\<lparr>lb_alloc := keep_ptr has (lb_alloc l6)\<rparr> else l6))))"

text \<open>Step three: coherence, and the readers of the initializer.\<close>

definition copy_coherence :: "(event \<Rightarrow> bool) \<Rightarrow> exec_graph \<Rightarrow> exec_graph \<Rightarrow> exec_graph res" where
  "copy_coherence has g h =
     foldR (\<lambda>w h1. if has w then (if isEventKind isWrite h1 w then
                        bindR (deref g w) (\<lambda>wl. bindR (co_max h1 (lb_addr wl)) (\<lambda>m. addStoreToCOAfter w m h1))
                      else Inl Undefined)
                    else Inr h1)
       (concat (map snd (coherence g))) h"

definition copy_initRfs :: "(event \<Rightarrow> bool) \<Rightarrow> exec_graph \<Rightarrow> exec_graph \<Rightarrow> exec_graph res" where
  "copy_initRfs has g h =
     bindR (getEventLabel g event_init) (\<lambda>il.
     if \<exists>a \<in> fst ` set (coherence g). a \<notin> fst ` set (lb_initRfs il) then Inl Out_of_range
     else foldR (\<lambda>r h1. if has r then
                 (if isEventKind isRead h1 r then bindR (deref h1 r) (\<lambda>rl.
                    with_label event_init (init_addReader (lb_addr rl) r) h1)
                  else Inl Undefined)
               else Inr h1)
       (concat (map (\<lambda>a. m_get (lb_initRfs il) a) (map fst (coherence g)))) h)"

definition copyGraphUpTo :: "vector_clock \<Rightarrow> exec_graph \<Rightarrow> exec_graph \<Rightarrow> exec_graph res" where
  "copyGraphUpTo v g h =
     bindR (copy_labels v g h) (\<lambda>h1.
     let h2 = h1\<lparr>insertionOrder := filter (\<lambda>e. vc_has v e \<or> index e \<le> vc_max v (nat (thread e)))
                                    (insertionOrder g)\<rparr>
     in bindR (foldR (\<lambda>e. with_label e (copy_pointers (vc_has v) g h2)) (insertionOrder h2) h2) (\<lambda>h3.
     bindR (copy_coherence (vc_has v) g h3) (copy_initRfs (vc_has v) g)))"

definition getCopyUpTo :: "vector_clock \<Rightarrow> exec_graph \<Rightarrow> exec_graph res" where
  "getCopyUpTo v g = copyGraphUpTo v g new_graph"

definition clone_graph :: "exec_graph \<Rightarrow> exec_graph res" where
  "clone_graph g = bindR (getViewFromStamp (timestamp g) g) (\<lambda>v. getCopyUpTo v g)"

end
