(* ===== verification/Graph_Facts.thy ===== *)
theory Graph_Facts
  imports Graph_Cutting
begin

text \<open>
  Well-formed execution graphs, and the lemmas about single updates of a graph: what a position
  holds after each change, and which parts of well-formedness it can affect.
\<close>

section \<open>Looking up\<close>

named_theorems at_simps \<open>what a position holds after an update\<close>

lemma containsPos_lab: "containsPos g e \<longleftrightarrow> (\<exists>l. lab_at g e = Some l)"
  by (simp add: lab_at_def)

lemma lab_at_pos: "lab_at g e = Some l \<Longrightarrow> containsPos g e"
  by (simp add: lab_at_def split: if_splits)

lemma getEventLabel_at [simp]: "lab_at g e = Some l \<Longrightarrow> getEventLabel g e = Inr l"
  by (simp add: getEventLabel_def)

lemma deref_at [simp]: "lab_at g e = Some l \<Longrightarrow> deref g e = Inr l"
  by (simp add: deref_def)

lemma with_label_at: "lab_at g e = Some l \<Longrightarrow> f l = Inr l' \<Longrightarrow> with_label e f g = Inr (put_label e l' g)"
  by (simp add: with_label_def)

lemma getThreadSize_put [simp]: "getThreadSize (put_label e l g) t = getThreadSize g t"
  by (cases "t = nat (thread e)"; cases "t < length (events g)")
    (simp_all add: getThreadSize_def put_label_def nth_list_update list_update_beyond)

lemma getNumThreads_put [simp]: "getNumThreads (put_label e l g) = getNumThreads g"
  by (simp add: getNumThreads_def put_label_def)

lemma containsPos_put [simp, at_simps]: "containsPos (put_label e l g) x = containsPos g x"
  by (simp add: containsPos_def)

lemma event_eqI:
  assumes "0 \<le> thread x" "0 \<le> thread y" "0 \<le> index x" "0 \<le> index y"
    and "nat (thread x) = nat (thread y)" "nat (index x) = nat (index y)"
  shows "x = y"
proof -
  have "thread x = thread y" "index x = index y" using assms by (simp_all add: eq_nat_nat_iff)
  then show ?thesis by (simp add: event.expand)
qed

lemma lab_at_put [at_simps]:
  assumes "containsPos g e"
  shows "lab_at (put_label e l g) x = (if x = e then Some l else lab_at g x)"
proof (cases "containsPos g x")
  case True
  have "x = e \<longleftrightarrow> nat (thread x) = nat (thread e) \<and> nat (index x) = nat (index e)"
    using True assms event_eqI [of x e] by (auto simp: containsPos_def)
  with True assms show ?thesis
    by (auto simp: lab_at_def put_label_def nth_list_update containsPos_def getNumThreads_def getThreadSize_def)
next
  case False
  with assms show ?thesis by (auto simp: lab_at_def)
qed

lemma put_label_fields [simp]:
  "timestamp (put_label e l g) = timestamp g" "coherence (put_label e l g) = coherence g"
  "insertionOrder (put_label e l g) = insertionOrder g" "recoveryTID (put_label e l g) = recoveryTID g"
  by (simp_all add: put_label_def)

lemma events_field_simps [simp, at_simps]:
  "containsPos (g\<lparr>timestamp := n\<rparr>) = containsPos g" "lab_at (g\<lparr>timestamp := n\<rparr>) = lab_at g"
  "containsPos (g\<lparr>coherence := c\<rparr>) = containsPos g" "lab_at (g\<lparr>coherence := c\<rparr>) = lab_at g"
  "containsPos (g\<lparr>insertionOrder := o'\<rparr>) = containsPos g" "lab_at (g\<lparr>insertionOrder := o'\<rparr>) = lab_at g"
  "containsPos (g\<lparr>recoveryTID := r\<rparr>) = containsPos g" "lab_at (g\<lparr>recoveryTID := r\<rparr>) = lab_at g"
  "getNumThreads (g\<lparr>timestamp := n\<rparr>) = getNumThreads g" "getNumThreads (g\<lparr>coherence := c\<rparr>) = getNumThreads g"
  "getNumThreads (g\<lparr>insertionOrder := o'\<rparr>) = getNumThreads g"
  "getThreadSize (g\<lparr>timestamp := n\<rparr>) = getThreadSize g" "getThreadSize (g\<lparr>coherence := c\<rparr>) = getThreadSize g"
  "getThreadSize (g\<lparr>insertionOrder := o'\<rparr>) = getThreadSize g"
  by (simp_all add: containsPos_def lab_at_def getNumThreads_def getThreadSize_def fun_eq_iff)

lemma containsPos_Event:
  "containsPos g (Event t i) \<longleftrightarrow> 0 \<le> t \<and> nat t < getNumThreads g \<and> 0 \<le> i \<and> nat i < getThreadSize g (nat t)"
  by (simp add: containsPos_def)

lemma containsPos_nat:
  "containsPos g (Event (int t) (int i)) \<longleftrightarrow> t < getNumThreads g \<and> i < getThreadSize g t"
  by (simp add: containsPos_Event)

lemma containsPos_valid: "containsPos g e \<Longrightarrow> \<exists>t i. e = Event (int t) (int i) \<and> t < getNumThreads g \<and> i < getThreadSize g t"
proof -
  assume "containsPos g e"
  then show ?thesis
    by (intro exI [of _ "nat (thread e)"] exI [of _ "nat (index e)"]) (simp add: containsPos_def)
qed

section \<open>The maps from addresses\<close>

lemma m_touch_keys: "fst ` set (m_touch a m) = insert a (fst ` set m)"
  by (auto simp: m_touch_def)

lemma map_fst_touch: "map fst (m_touch a m) = (if a \<in> fst ` set m then map fst m else map fst m @ [a])"
  by (simp add: m_touch_def)

lemma map_fst_mod: "map fst (m_mod a f m) = map fst (m_touch a m)"
  by (simp add: m_mod_def comp_def case_prod_beta)

lemma m_get_touch [simp]: "m_get (m_touch a m) b = m_get m b"
proof -
  have "a \<notin> fst ` set m \<Longrightarrow> map_of m a = None" by (simp add: map_of_eq_None_iff)
  then show ?thesis
    by (auto simp: m_touch_def m_get_def map_add_def split: option.splits)
qed

lemma map_of_mod:
  "map_of (map (\<lambda>(b, es). (b, if b = a then f es else es)) m) x =
     (case map_of m x of None \<Rightarrow> None | Some es \<Rightarrow> Some (if x = a then f es else es))"
  by (induction m) (auto split: option.splits)

lemma m_get_mod: "m_get (m_mod a f m) b = (if b = a then f (m_get m a) else m_get m b)"
proof -
  have "map_of (m_touch a m) a \<noteq> None"
    unfolding map_of_eq_None_iff m_touch_keys by simp
  then have "m_get (m_mod a f m) b = (if b = a then f (m_get (m_touch a m) a) else m_get (m_touch a m) b)"
    by (auto simp: m_get_def m_mod_def map_of_mod split: option.splits)
  then show ?thesis by simp
qed

lemma m_get_absent: "a \<notin> fst ` set m \<Longrightarrow> m_get m a = []"
  by (simp add: m_get_def map_of_eq_None_iff [THEN iffD2])

section \<open>Well-formed graphs\<close>

text \<open>The readers of a label: a write's list, or the initializer's list for an address.\<close>

definition readers_of :: "exec_graph \<Rightarrow> event \<Rightarrow> saddr \<Rightarrow> event list" where
  "readers_of g w a = (case lab_at g w of
     None \<Rightarrow> []
   | Some l \<Rightarrow> if isWrite (lb_kind l) then lb_readers l
              else if lb_kind l = Init then m_get (lb_initRfs l) a else [])"

text \<open>Label \<open>e\<close> of class \<open>P\<close> satisfies \<open>Q\<close>.\<close>

definition at_kind :: "(label_kind \<Rightarrow> bool) \<Rightarrow> exec_graph \<Rightarrow> event \<Rightarrow> (label \<Rightarrow> bool) \<Rightarrow> bool" where
  "at_kind P g e Q \<longleftrightarrow> (\<exists>l. lab_at g e = Some l \<and> P (lb_kind l) \<and> Q l)"

definition pos_ok :: "exec_graph \<Rightarrow> bool" where
  "pos_ok g \<longleftrightarrow> (\<forall>e l. lab_at g e = Some l \<longrightarrow> lb_pos l = e \<and> lb_stamp l \<noteq> None)"

definition start_ok :: "exec_graph \<Rightarrow> bool" where
  "start_ok g \<longleftrightarrow>
     (\<forall>t l. lab_at g (Event t 0) = Some l \<longrightarrow> isThreadStart (lb_kind l)) \<and>
     at_kind (\<lambda>k. k = Init) g event_init (\<lambda>_. True) \<and>
     (\<forall>e l. lab_at g e = Some l \<and> lb_kind l = Init \<longrightarrow> e = event_init)"

definition rf_ok :: "exec_graph \<Rightarrow> bool" where
  "rf_ok g \<longleftrightarrow>
     (\<forall>r l w. lab_at g r = Some l \<and> isRead (lb_kind l) \<and> lb_rf l = Some w \<longrightarrow> r \<in> set (readers_of g w (lb_addr l))) \<and>
     (\<forall>w a r. r \<in> set (readers_of g w a) \<longrightarrow>
        at_kind isRead g r (\<lambda>l. lb_rf l = Some w \<and> (w = event_init \<longrightarrow> lb_addr l = a))) \<and>
     (\<forall>w a. distinct (readers_of g w a))"

definition co_ok :: "exec_graph \<Rightarrow> bool" where
  "co_ok g \<longleftrightarrow> (\<forall>a. distinct (co g a) \<and> (\<forall>w \<in> set (co g a). at_kind isWrite g w (\<lambda>l. lb_addr l = a)))"

definition keys_ok :: "exec_graph \<Rightarrow> bool" where
  "keys_ok g \<longleftrightarrow>
     at_kind (\<lambda>_. True) g event_init (\<lambda>l. map fst (lb_initRfs l) = map fst (coherence g)) \<and>
     distinct (map fst (coherence g)) \<and>
     (\<forall>e l. lab_at g e = Some l \<and> isMemAccess (lb_kind l) \<longrightarrow> lb_addr l \<in> fst ` set (coherence g))"

lemma keys_okI:
  assumes "lab_at g event_init = Some il" "map fst (lb_initRfs il) = map fst (coherence g)"
    and "distinct (map fst (coherence g))"
    and "\<And>e l. lab_at g e = Some l \<Longrightarrow> isMemAccess (lb_kind l) \<Longrightarrow> lb_addr l \<in> fst ` set (coherence g)"
  shows "keys_ok g"
  unfolding keys_ok_def at_kind_def using assms by blast

definition order_ok :: "exec_graph \<Rightarrow> bool" where
  "order_ok g \<longleftrightarrow> distinct (insertionOrder g) \<and> set (insertionOrder g) = {e. containsPos g e}"

definition alloc_ok :: "exec_graph \<Rightarrow> bool" where
  "alloc_ok g \<longleftrightarrow>
     (\<forall>m l a. lab_at g m = Some l \<and> isMemAccess (lb_kind l) \<and> lb_alloc l = Some a \<longrightarrow>
        at_kind isMalloc g a (\<lambda>al. m \<in> set (lb_accesses al))) \<and>
     (\<forall>a al m. lab_at g a = Some al \<and> isMalloc (lb_kind al) \<and> m \<in> set (lb_accesses al) \<longrightarrow>
        at_kind isMemAccess g m (\<lambda>l. lb_alloc l = Some a)) \<and>
     (\<forall>a al. lab_at g a = Some al \<and> isMalloc (lb_kind al) \<longrightarrow> distinct (lb_accesses al))"

definition free_ok :: "exec_graph \<Rightarrow> bool" where
  "free_ok g \<longleftrightarrow>
     (\<forall>d l a. lab_at g d = Some l \<and> isFree (lb_kind l) \<and> lb_alloc l = Some a \<longrightarrow>
        at_kind isMalloc g a (\<lambda>al. lb_free al = Some d)) \<and>
     (\<forall>a al d. lab_at g a = Some al \<and> isMalloc (lb_kind al) \<and> lb_free al = Some d \<longrightarrow>
        at_kind isFree g d (\<lambda>l. lb_alloc l = Some a)) \<and>
     (\<forall>e l j. lab_at g e = Some l \<and> isThreadFinish (lb_kind l) \<and> lb_parentJoin l = Some j \<longrightarrow>
        at_kind (\<lambda>k. k = ThreadJoin) g j (\<lambda>_. True))"

text \<open>A thread is empty only between its creation and the addition of its start label.\<close>

definition threads_ok :: "exec_graph \<Rightarrow> bool" where
  "threads_ok g \<longleftrightarrow> (\<forall>t < getNumThreads g. 0 < getThreadSize g t)"

definition graph_core :: "exec_graph \<Rightarrow> bool" where
  "graph_core g \<longleftrightarrow> pos_ok g \<and> start_ok g \<and> rf_ok g \<and> co_ok g \<and> keys_ok g \<and> order_ok g \<and>
     alloc_ok g \<and> free_ok g"

definition graph_ok :: "exec_graph \<Rightarrow> bool" where
  "graph_ok g \<longleftrightarrow> graph_core g \<and> threads_ok g"

lemmas graph_parts =
  graph_ok_def graph_core_def threads_ok_def pos_ok_def start_ok_def rf_ok_def co_ok_def keys_ok_def order_ok_def alloc_ok_def
  free_ok_def

lemma kind_disjoint [simp]:
  "isWrite k \<Longrightarrow> \<not> isRead k" "isRead k \<Longrightarrow> \<not> isWrite k" "isRead k \<Longrightarrow> isMemAccess k"
  "isWrite k \<Longrightarrow> isMemAccess k" "isMalloc k \<Longrightarrow> \<not> isMemAccess k" "isFree k \<Longrightarrow> \<not> isMemAccess k"
  "isMalloc k \<Longrightarrow> \<not> isFree k" "isThreadStart k \<Longrightarrow> \<not> isMemAccess k" "isThreadStart k \<Longrightarrow> \<not> isMalloc k"
  "isThreadStart k \<Longrightarrow> \<not> isFree k" "isThreadFinish k \<Longrightarrow> \<not> isMemAccess k" "isThreadFinish k \<Longrightarrow> \<not> isMalloc k"
  "isThreadFinish k \<Longrightarrow> \<not> isFree k" "isThreadStart k \<Longrightarrow> \<not> isThreadFinish k"
  by (cases k; simp add: kind_defs)+

lemma kind_proper [simp]:
  "isRead k \<Longrightarrow> k \<noteq> Init" "isWrite k \<Longrightarrow> k \<noteq> Init" "isMemAccess k \<Longrightarrow> k \<noteq> Init" "isMalloc k \<Longrightarrow> k \<noteq> Init"
  "isFree k \<Longrightarrow> k \<noteq> Init" "isThreadFinish k \<Longrightarrow> k \<noteq> Init"
  "isRead k \<Longrightarrow> k \<noteq> Empty" "isWrite k \<Longrightarrow> k \<noteq> Empty" "isMemAccess k \<Longrightarrow> k \<noteq> Empty" "isMalloc k \<Longrightarrow> k \<noteq> Empty"
  "isFree k \<Longrightarrow> k \<noteq> Empty" "isThreadFinish k \<Longrightarrow> k \<noteq> Empty"
  by (cases k; simp add: kind_defs)+

lemma kind_consts [simp]:
  "isThreadStart Init" "\<not> isWrite Init" "\<not> isRead Init" "\<not> isMemAccess Init" "\<not> isMalloc Init"
  "\<not> isFree Init" "\<not> isThreadFinish Init" "\<not> isMemAccess Empty" "\<not> isRead Empty" "\<not> isWrite Empty"
  "\<not> isMalloc Empty" "\<not> isFree Empty" "\<not> isThreadFinish Empty" "\<not> isThreadStart Empty"
  "isThreadStart ThreadStart" "\<not> isMalloc ThreadJoin" "\<not> isFree ThreadJoin" "\<not> isMemAccess ThreadJoin"
  by (simp_all add: kind_defs)

lemma new_graph_at: "lab_at new_graph e = (if e = event_init then Some (init_label\<lparr>lb_stamp := Some 0,
    lb_calculated := [[]], lb_views := [[]], lb_prefixView := Some (VC_View [])\<rparr>) else None)"
proof -
  have "containsPos new_graph e \<longleftrightarrow> e = event_init"
    by (cases e) (auto simp: containsPos_def new_graph_def getNumThreads_def getThreadSize_def event_init_def)
  then show ?thesis by (auto simp: lab_at_def new_graph_def event_init_def)
qed

lemma new_graph_ok: "graph_ok new_graph"
proof -
  have c: "coherence new_graph = []" "insertionOrder new_graph = [event_init]" "getNumThreads new_graph = 1"
    "getThreadSize new_graph 0 = 1"
    by (simp_all add: new_graph_def getNumThreads_def getThreadSize_def)
  have "readers_of new_graph w a = []" for w a
    by (simp add: readers_of_def new_graph_at init_label_def new_label_def m_get_def)
  then show ?thesis
    by (auto simp: graph_parts new_graph_at c at_kind_def co_def m_get_def init_label_def new_label_def
        containsPos_lab event_init_def)
qed

end
