(* ===== verification/Graph_Building.thy ===== *)
theory Graph_Building
  imports Graph_Facts
begin

text \<open>
  Building a graph keeps it well formed: adding labels and threads, setting reads-from edges, and
  inserting stores into the coherence order.
\<close>

section \<open>Adding a label\<close>

text \<open>A label as it is created: no edges yet, a start label exactly at index 0.\<close>

definition fresh_label :: "label \<Rightarrow> bool" where
  "fresh_label l \<longleftrightarrow> lb_rf l = None \<and> lb_readers l = [] \<and> lb_alloc l = None \<and> lb_accesses l = [] \<and>
     lb_free l = None \<and> lb_parentJoin l = None \<and> lb_kind l \<noteq> Init \<and>
     (isThreadStart (lb_kind l) \<longleftrightarrow> index (lb_pos l) = 0)"

text \<open>The position is the end of its thread, or holds a hole.\<close>

definition free_pos :: "exec_graph \<Rightarrow> event \<Rightarrow> bool" where
  "free_pos g p \<longleftrightarrow> 0 \<le> thread p \<and> nat (thread p) < getNumThreads g \<and> 0 \<le> index p \<and>
     (nat (index p) = getThreadSize g (nat (thread p)) \<or>
      (\<exists>l. lab_at g p = Some l \<and> lb_kind l = Empty))"

lemma trackCoherence_at:
  assumes "lab_at g event_init = Some il"
  shows "trackCoherenceAtLoc a g = Inr (put_label event_init (il\<lparr>lb_initRfs := m_touch a (lb_initRfs il)\<rparr>)
    (g\<lparr>coherence := m_touch a (coherence g)\<rparr>))"
  using assms by (simp add: trackCoherenceAtLoc_def with_label_def)

lemma lab_at_append:
  assumes "0 \<le> thread p" "nat (thread p) < getNumThreads g" "0 \<le> index p"
    and "nat (index p) = getThreadSize g (nat (thread p))"
    and "events h = (events g)[nat (thread p) := events g ! nat (thread p) @ [l]]"
  shows "lab_at h x = (if x = p then Some l else lab_at g x)"
proof -
  have eq: "nat (thread x) = nat (thread p) \<and> nat (index x) = nat (index p) \<longleftrightarrow> x = p"
    if "0 \<le> thread x" "0 \<le> index x"
    using that assms(1,3) event_eqI [of x p] by auto
  show ?thesis
  proof (cases "0 \<le> thread x \<and> 0 \<le> index x")
    case True
    with eq assms show ?thesis
      by (auto simp: lab_at_def containsPos_def getNumThreads_def getThreadSize_def nth_list_update
          nth_append less_Suc_eq)
  next
    case False
    with assms(1,3) show ?thesis by (auto simp: lab_at_def containsPos_def)
  qed
qed

lemma core_init:
  assumes "graph_core g"
  obtains il where "lab_at g event_init = Some il" "lb_kind il = Init" "map fst (lb_initRfs il) = map fst (coherence g)"
  using assms by (auto simp: graph_core_def start_ok_def keys_ok_def at_kind_def)

lemma free_pos_old:
  assumes "graph_core g" "free_pos g p"
  shows "p \<noteq> event_init" "lab_at g p = None \<or> (\<exists>l. lab_at g p = Some l \<and> lb_kind l = Empty)"
proof -
  have "nat (index p) = getThreadSize g (nat (thread p)) \<Longrightarrow> lab_at g p = None"
    by (simp add: lab_at_def containsPos_def)
  with assms(2) show "lab_at g p = None \<or> (\<exists>l. lab_at g p = Some l \<and> lb_kind l = Empty)"
    unfolding free_pos_def by blast
  moreover from core_init [OF assms(1)] obtain il where "lab_at g event_init = Some il" "lb_kind il = Init" .
  ultimately show "p \<noteq> event_init" by auto
qed

text \<open>What \<open>addLabelToGraph\<close> does.\<close>

definition touch_for :: "label \<Rightarrow> reader_map \<Rightarrow> reader_map" where
  "touch_for l = (if isMemAccess (lb_kind l) then m_touch (lb_addr l) else id)"

definition stamped :: "exec_graph \<Rightarrow> label \<Rightarrow> label" where
  "stamped g l = (if lb_stamp l = None then l\<lparr>lb_stamp := Some (timestamp g)\<rparr> else l)"

lemma stamped_fields [simp]:
  "lb_pos (stamped g l) = lb_pos l" "lb_kind (stamped g l) = lb_kind l" "lb_addr (stamped g l) = lb_addr l"
  "lb_rf (stamped g l) = lb_rf l" "lb_readers (stamped g l) = lb_readers l" "lb_alloc (stamped g l) = lb_alloc l"
  "lb_accesses (stamped g l) = lb_accesses l" "lb_free (stamped g l) = lb_free l"
  "lb_parentJoin (stamped g l) = lb_parentJoin l" "lb_initRfs (stamped g l) = lb_initRfs l"
  "\<exists>y. lb_stamp (stamped g l) = Some y"
  by (auto simp: stamped_def)

lemma addLabel_effect:
  assumes "graph_core g" "free_pos g (lb_pos l)" "lab_at g event_init = Some il"
  shows "\<exists>g'. addLabelToGraph l g = Inr g' \<and>
    (\<forall>x. lab_at g' x = (if x = lb_pos l then Some (stamped g l)
       else if x = event_init then Some (il\<lparr>lb_initRfs := touch_for l (lb_initRfs il)\<rparr>) else lab_at g x)) \<and>
    coherence g' = touch_for l (coherence g) \<and>
    insertionOrder g' = removeAll (lb_pos l) (insertionOrder g) @ [lb_pos l] \<and>
    timestamp g' = (if lb_stamp l = None then timestamp g + 1 else timestamp g) \<and>
    getNumThreads g' = getNumThreads g \<and> recoveryTID g' = recoveryTID g"
proof -
  let ?p = "lb_pos l"
  let ?g1 = "if lb_stamp l = None then g\<lparr>timestamp := timestamp g + 1\<rparr> else g"
  have pi: "?p \<noteq> event_init" by (rule free_pos_old [OF assms(1,2)])
  have at1: "lab_at ?g1 = lab_at g" "coherence ?g1 = coherence g" "insertionOrder ?g1 = insertionOrder g"
    "getNumThreads ?g1 = getNumThreads g" "getThreadSize ?g1 = getThreadSize g" "recoveryTID ?g1 = recoveryTID g"
    by simp_all
  define g2 where "g2 = (if isMemAccess (lb_kind l)
     then put_label event_init (il\<lparr>lb_initRfs := m_touch (lb_addr l) (lb_initRfs il)\<rparr>)
            (?g1\<lparr>coherence := m_touch (lb_addr l) (coherence g)\<rparr>) else ?g1)"
  have ci: "containsPos g event_init" using assms(3) by (rule lab_at_pos)
  have tr: "(if isMemAccess (lb_kind l) then trackCoherenceAtLoc (lb_addr l) ?g1 else Inr ?g1) = Inr g2"
    using trackCoherence_at [of ?g1 il "lb_addr l"] assms(3) at1(1,2) by (simp add: g2_def)
  have c2: "containsPos g2 = containsPos g"
  proof -
    have "containsPos ?g1 = containsPos g" by simp
    then show ?thesis by (auto simp: g2_def fun_eq_iff)
  qed
  have at2: "lab_at g2 x = (if x = event_init then Some (il\<lparr>lb_initRfs := touch_for l (lb_initRfs il)\<rparr>) else lab_at g x)" for x
  proof -
    have "containsPos (?g1\<lparr>coherence := c\<rparr>) event_init" for c using ci by simp
    then show ?thesis using assms(3)
      by (auto simp: g2_def touch_for_def lab_at_put)
  qed
  have o2: "coherence g2 = touch_for l (coherence g)" "insertionOrder g2 = insertionOrder g"
    "timestamp g2 = (if lb_stamp l = None then timestamp g + 1 else timestamp g)"
    "getNumThreads g2 = getNumThreads g" "getThreadSize g2 = getThreadSize g" "recoveryTID g2 = recoveryTID g"
    by (auto simp: g2_def touch_for_def fun_eq_iff)
  have "addLabelToGraph l g = bindR (if isMemAccess (lb_kind l) then trackCoherenceAtLoc (lb_addr l) ?g1
      else Inr ?g1) (place_label (stamped g l))"
    by (cases "lb_stamp l") (simp_all add: addLabelToGraph_def nextStamp_def stamp_inc_def stamped_def)
  then have add: "addLabelToGraph l g = place_label (stamped g l) g2" unfolding tr by simp
  have fp: "0 \<le> thread ?p" "nat (thread ?p) < getNumThreads g2" "0 \<le> index ?p"
    using assms(2) o2 by (auto simp: free_pos_def)
  consider (new) "nat (index ?p) = getThreadSize g (nat (thread ?p))"
    | (hole) old where "lab_at g ?p = Some old" "lb_kind old = Empty"
    using assms(2) by (auto simp: free_pos_def)
  then show ?thesis
  proof cases
    case new
    let ?g' = "g2\<lparr>events := (events g2)[nat (thread ?p) := events g2 ! nat (thread ?p) @ [stamped g l]],
                   insertionOrder := insertionOrder g2 @ [?p]\<rparr>"
    have "addLabelToGraph l g = Inr ?g'"
      unfolding add place_label_def Let_def stamped_fields using fp new o2 by simp
    moreover have "lab_at ?g' x = (if x = ?p then Some (stamped g l) else lab_at g2 x)" for x
      by (rule lab_at_append [OF fp]) (use new o2 in simp_all)
    moreover have "?p \<notin> set (insertionOrder g)"
      using assms(1) new by (auto simp: graph_core_def order_ok_def containsPos_def)
    ultimately show ?thesis using at2 o2 fp(2)
      by (intro exI [of _ ?g']) (simp add: getNumThreads_def removeAll_id)
  next
    case hole
    let ?g' = "(put_label ?p (stamped g l) g2)\<lparr>insertionOrder := removeAll ?p (insertionOrder g2) @ [?p]\<rparr>"
    have c: "containsPos g ?p" using hole(1) by (rule lab_at_pos)
    then have "nat (index ?p) < getThreadSize g2 (nat (thread ?p))" using o2 by (simp add: containsPos_def)
    moreover have "lab_at g2 ?p = Some old" using at2 hole(1) pi by simp
    ultimately have "addLabelToGraph l g = Inr ?g'"
      unfolding add place_label_def Let_def stamped_fields using fp hole(2) by simp
    moreover have "lab_at ?g' x = (if x = ?p then Some (stamped g l) else lab_at g2 x)" for x
      using c c2 by (simp add: lab_at_put)
    ultimately show ?thesis using at2 o2 by (intro exI [of _ ?g']) simp
  qed
qed

text \<open>A change of graph that keeps every label but the initializer and holes, and adds a label
  without edges, keeps the relations between labels.\<close>

lemma at_kind_keep:
  assumes "at_kind P g e Q" "\<not> P Init" "\<not> P Empty"
    and "\<And>x l. lab_at g x = Some l \<Longrightarrow> lb_kind l \<noteq> Init \<Longrightarrow> lb_kind l \<noteq> Empty \<Longrightarrow> lab_at h x = Some l"
  shows "at_kind P h e Q"
  using assms by (metis at_kind_def)

lemma fst_set_touch [simp]: "fst ` set (m_touch a m) = insert a (fst ` set m)"
  by (rule m_touch_keys)

lemma distinct_touch: "distinct (map fst m) \<Longrightarrow> distinct (map fst (m_touch a m))"
  by (simp add: map_fst_touch)

lemma map_fst_touch_cong: "map fst m = map fst n \<Longrightarrow> map fst (m_touch a m) = map fst (m_touch a n)"
proof -
  assume eq: "map fst m = map fst n"
  then have "fst ` set m = fst ` set n" by (metis list.set_map)
  with eq show ?thesis by (simp add: map_fst_touch)
qed

lemma addLabel_core:
  assumes core: "graph_core g" and free: "free_pos g (lb_pos l)" and fresh: "fresh_label l"
  shows "\<exists>g'. addLabelToGraph l g = Inr g' \<and> graph_core g' \<and>
    (\<forall>x. x \<noteq> event_init \<longrightarrow> lab_at g' x = (if x = lb_pos l then Some (stamped g l) else lab_at g x)) \<and>
    co g' = co g \<and> readers_of g' = readers_of g \<and> getNumThreads g' = getNumThreads g \<and>
    timestamp g' = (if lb_stamp l = None then timestamp g + 1 else timestamp g)"
proof -
  let ?p = "lb_pos l"
  from core_init [OF core] obtain il where il: "lab_at g event_init = Some il" "lb_kind il = Init"
    "map fst (lb_initRfs il) = map fst (coherence g)" .
  from free_pos_old [OF core free] have pi: "?p \<noteq> event_init"
    and old: "lab_at g ?p = None \<or> (\<exists>o'. lab_at g ?p = Some o' \<and> lb_kind o' = Empty)" .
  from addLabel_effect [OF core free il(1)] obtain g' where
    g': "addLabelToGraph l g = Inr g'" "\<And>x. lab_at g' x = (if x = ?p then Some (stamped g l)
       else if x = event_init then Some (il\<lparr>lb_initRfs := touch_for l (lb_initRfs il)\<rparr>) else lab_at g x)"
    "coherence g' = touch_for l (coherence g)" "insertionOrder g' = removeAll ?p (insertionOrder g) @ [?p]"
    "timestamp g' = (if lb_stamp l = None then timestamp g + 1 else timestamp g)"
    "getNumThreads g' = getNumThreads g" by blast
  have keep: "\<And>x l'. lab_at g x = Some l' \<Longrightarrow> lb_kind l' \<noteq> Init \<Longrightarrow> lb_kind l' \<noteq> Empty \<Longrightarrow> lab_at g' x = Some l'"
    using old il g'(2) by auto
  have old_or_new: "lab_at g' x = Some l' \<Longrightarrow> lb_kind l' \<noteq> Init \<Longrightarrow> x = ?p \<and> l' = stamped g l \<or> lab_at g x = Some l'" for x l'
    using g'(2) [of x] il(2) by (auto split: if_splits)
  have co: "co g' = co g" using g'(3) by (auto simp: co_def touch_for_def fun_eq_iff)
  have rd: "readers_of g' = readers_of g"
  proof (intro ext)
    fix w a show "readers_of g' w a = readers_of g w a"
      using old fresh il pi g'(2) [of w] unfolding readers_of_def
      by (auto simp: fresh_label_def touch_for_def)
  qed
  have "pos_ok g'" using core g'(2) il(1) by (auto simp: graph_core_def pos_ok_def split: if_splits)
  moreover have ix: "Event t 0 = ?p \<Longrightarrow> index ?p = 0" for t by (metis event.sel(2))
  have "start_ok g'"
    using ix core fresh il pi g'(2) unfolding graph_core_def start_ok_def at_kind_def
    by (auto simp: fresh_label_def split: if_splits)
  moreover have "rf_ok g'"
    unfolding rf_ok_def rd
  proof (intro conjI allI impI)
    fix r l' w assume h: "lab_at g' r = Some l' \<and> isRead (lb_kind l') \<and> lb_rf l' = Some w"
    then have "lab_at g r = Some l'" using old_or_new [of r l'] fresh by (auto simp: fresh_label_def)
    with h core show "r \<in> set (readers_of g w (lb_addr l'))" by (auto simp: graph_core_def rf_ok_def)
  next
    fix w a r assume "r \<in> set (readers_of g w a)"
    with core have "at_kind isRead g r (\<lambda>l. lb_rf l = Some w \<and> (w = event_init \<longrightarrow> lb_addr l = a))"
      by (auto simp: graph_core_def rf_ok_def)
    then show "at_kind isRead g' r (\<lambda>l. lb_rf l = Some w \<and> (w = event_init \<longrightarrow> lb_addr l = a))"
      by (rule at_kind_keep) (simp_all add: keep)
  next
    fix w a show "distinct (readers_of g w a)" using core by (auto simp: graph_core_def rf_ok_def)
  qed
  moreover have "co_ok g'" unfolding co_ok_def co
  proof (intro allI conjI ballI)
    fix a show "distinct (co g a)" using core by (simp add: graph_core_def co_ok_def)
    fix w assume "w \<in> set (co g a)"
    with core have "at_kind isWrite g w (\<lambda>l. lb_addr l = a)" by (simp add: graph_core_def co_ok_def)
    then show "at_kind isWrite g' w (\<lambda>l. lb_addr l = a)" by (rule at_kind_keep) (simp_all add: keep)
  qed
  moreover have "keys_ok g'"
  proof -
    have k: "distinct (map fst (coherence g))"
      "\<forall>e l. lab_at g e = Some l \<and> isMemAccess (lb_kind l) \<longrightarrow> lb_addr l \<in> fst ` set (coherence g)"
      using core unfolding graph_core_def keys_ok_def by blast+
    show ?thesis
    proof (rule keys_okI)
      show "lab_at g' event_init = Some (il\<lparr>lb_initRfs := touch_for l (lb_initRfs il)\<rparr>)"
        using g'(2) [of event_init] pi by simp
      show "map fst (lb_initRfs (il\<lparr>lb_initRfs := touch_for l (lb_initRfs il)\<rparr>)) = map fst (coherence g')"
        unfolding g'(3) touch_for_def using il(3) map_fst_touch_cong [OF il(3)] by simp
      show "distinct (map fst (coherence g'))" using k(1) g'(3) by (simp add: touch_for_def distinct_touch)
    next
      fix e l' assume l': "lab_at g' e = Some l'" "isMemAccess (lb_kind l')"
      have sub: "fst ` set (coherence g) \<subseteq> fst ` set (coherence g')"
        unfolding g'(3) touch_for_def using fst_set_touch by (cases "isMemAccess (lb_kind l)") auto
      from old_or_new [OF l'(1)] l'(2) consider "l' = stamped g l" | "lab_at g e = Some l'"
        using kind_proper(3) by blast
      then show "lb_addr l' \<in> fst ` set (coherence g')"
      proof cases
        case 1
        with l'(2) have "touch_for l (coherence g) = m_touch (lb_addr l) (coherence g)"
          by (simp add: touch_for_def)
        then show ?thesis unfolding g'(3) 1 by (simp only: fst_set_touch stamped_fields insertI1)
      next
        case 2
        with l'(2) k(2) sub show ?thesis by blast
      qed
    qed
  qed
  moreover have "order_ok g'"
    using core g'(2,4) il(1) unfolding graph_core_def order_ok_def containsPos_lab
    by (auto simp: distinct_removeAll split: if_splits)
  moreover have "alloc_ok g'"
    unfolding alloc_ok_def
  proof (intro conjI allI impI)
    fix m l' a assume h: "lab_at g' m = Some l' \<and> isMemAccess (lb_kind l') \<and> lb_alloc l' = Some a"
    then have "lab_at g m = Some l'" using old_or_new [of m l'] fresh by (auto simp: fresh_label_def)
    with h core have "at_kind isMalloc g a (\<lambda>al. m \<in> set (lb_accesses al))" by (auto simp: graph_core_def alloc_ok_def)
    then show "at_kind isMalloc g' a (\<lambda>al. m \<in> set (lb_accesses al))" by (rule at_kind_keep) (simp_all add: keep)
  next
    fix a al m assume h: "lab_at g' a = Some al \<and> isMalloc (lb_kind al) \<and> m \<in> set (lb_accesses al)"
    then have "lab_at g a = Some al" using old_or_new [of a al] fresh by (auto simp: fresh_label_def)
    with h core have "at_kind isMemAccess g m (\<lambda>l. lb_alloc l = Some a)" by (auto simp: graph_core_def alloc_ok_def)
    then show "at_kind isMemAccess g' m (\<lambda>l. lb_alloc l = Some a)" by (rule at_kind_keep) (simp_all add: keep)
  next
    fix a al assume h: "lab_at g' a = Some al \<and> isMalloc (lb_kind al)"
    then show "distinct (lb_accesses al)"
      using old_or_new [of a al] fresh core by (auto simp: fresh_label_def graph_core_def alloc_ok_def)
  qed
  moreover have "free_ok g'"
    unfolding free_ok_def
  proof (intro conjI allI impI)
    fix d l' a assume h: "lab_at g' d = Some l' \<and> isFree (lb_kind l') \<and> lb_alloc l' = Some a"
    then have "lab_at g d = Some l'" using old_or_new [of d l'] fresh by (auto simp: fresh_label_def)
    with h core have "at_kind isMalloc g a (\<lambda>al. lb_free al = Some d)" by (auto simp: graph_core_def free_ok_def)
    then show "at_kind isMalloc g' a (\<lambda>al. lb_free al = Some d)" by (rule at_kind_keep) (simp_all add: keep)
  next
    fix a al d assume h: "lab_at g' a = Some al \<and> isMalloc (lb_kind al) \<and> lb_free al = Some d"
    then have "lab_at g a = Some al" using old_or_new [of a al] fresh by (auto simp: fresh_label_def)
    with h core have "at_kind isFree g d (\<lambda>l. lb_alloc l = Some a)" by (auto simp: graph_core_def free_ok_def)
    then show "at_kind isFree g' d (\<lambda>l. lb_alloc l = Some a)" by (rule at_kind_keep) (simp_all add: keep)
  next
    fix e l' j assume h: "lab_at g' e = Some l' \<and> isThreadFinish (lb_kind l') \<and> lb_parentJoin l' = Some j"
    then have "lab_at g e = Some l'" using old_or_new [of e l'] fresh by (auto simp: fresh_label_def)
    with h core have "at_kind (\<lambda>k. k = ThreadJoin) g j (\<lambda>_. True)" by (auto simp: graph_core_def free_ok_def)
    then show "at_kind (\<lambda>k. k = ThreadJoin) g' j (\<lambda>_. True)" by (rule at_kind_keep) (simp_all add: keep)
  qed
  ultimately have "graph_core g'" by (simp add: graph_core_def)
  with g' co rd show ?thesis by auto
qed

text \<open>A label added at the end of a started thread, or in place of a hole, leaves no thread empty;
  neither does the start label of a new thread.\<close>

lemma addLabel_ok:
  assumes "graph_core g" "free_pos g (lb_pos l)" "fresh_label l"
    and "\<forall>t < getNumThreads g. 0 < getThreadSize g t \<or> t = nat (thread (lb_pos l))"
  shows "\<exists>g'. addLabelToGraph l g = Inr g' \<and> graph_ok g' \<and>
    (\<forall>x. x \<noteq> event_init \<longrightarrow> lab_at g' x = (if x = lb_pos l then Some (stamped g l) else lab_at g x)) \<and>
    co g' = co g \<and> readers_of g' = readers_of g"
proof -
  from addLabel_core [OF assms(1-3)] obtain g' where g': "addLabelToGraph l g = Inr g'" "graph_core g'"
    "\<forall>x. x \<noteq> event_init \<longrightarrow> lab_at g' x = (if x = lb_pos l then Some (stamped g l) else lab_at g x)"
    "co g' = co g" "readers_of g' = readers_of g" "getNumThreads g' = getNumThreads g" by blast
  have "0 < getThreadSize g' t" if t: "t < getNumThreads g" for t
  proof -
    have "containsPos g' (Event (int t) 0) \<or> containsPos g' (lb_pos l) \<and> t = nat (thread (lb_pos l))"
    proof (cases "t = nat (thread (lb_pos l))")
      case True
      from g'(3) free_pos_old [OF assms(1,2)] show ?thesis using True by (auto simp: containsPos_lab)
    next
      case False
      then have c: "containsPos g (Event (int t) 0)" using assms(4) t containsPos_nat [of g t 0] by auto
      moreover from core_init [OF g'(2)] have "containsPos g' event_init" by (auto simp: containsPos_lab)
      ultimately show ?thesis using g'(3) by (cases "Event (int t) 0 = event_init") (auto simp: containsPos_lab)
    qed
    then show ?thesis by (auto simp: containsPos_def)
  qed
  with g' show ?thesis by (auto simp: graph_ok_def threads_ok_def)
qed

lemma graph_core_cong:
  assumes at: "lab_at h = lab_at g" and "coherence h = coherence g" "insertionOrder h = insertionOrder g"
  shows "graph_core h = graph_core g"
proof -
  have "at_kind P h e Q = at_kind P g e Q" "readers_of h = readers_of g" "co h = co g" "containsPos h = containsPos g"
    for P e Q
    using assms by (simp_all add: at_kind_def readers_of_def co_def containsPos_lab fun_eq_iff)
  with assms show ?thesis
    unfolding graph_core_def pos_ok_def start_ok_def rf_ok_def co_ok_def keys_ok_def order_ok_def
      alloc_ok_def free_ok_def by simp
qed

lemma addNewThread_core: "graph_core g \<Longrightarrow> graph_core (addNewThread g) \<and> lab_at (addNewThread g) = lab_at g"
proof -
  have at: "lab_at (addNewThread g) = lab_at g"
  proof
    fix x show "lab_at (addNewThread g) x = lab_at g x"
      by (auto simp: addNewThread_def lab_at_def containsPos_def getNumThreads_def getThreadSize_def
          nth_append less_Suc_eq)
  qed
  assume "graph_core g"
  moreover have "coherence (addNewThread g) = coherence g" "insertionOrder (addNewThread g) = insertionOrder g"
    by (simp_all add: addNewThread_def)
  ultimately show ?thesis using at graph_core_cong by metis
qed

end
