(* ===== verification/Graph_Edges.thy ===== *)
theory Graph_Edges
  imports Graph_Building
begin

text \<open>
  Changing the edges of a graph: \<open>setRf\<close> keeps the reads-from edge of a read and the reader
  lists of the writes in step, and the coherence operations keep the lists free of duplicates.
\<close>

section \<open>Graphs that differ in reads-from edges only\<close>

definition strip_rf :: "label \<Rightarrow> label" where
  "strip_rf l = l\<lparr>lb_readers := [], lb_initRfs := [], lb_rf := None\<rparr>"

lemma strip_rf_fields:
  assumes "strip_rf l' = strip_rf l"
  shows "lb_kind l' = lb_kind l" "lb_pos l' = lb_pos l" "lb_stamp l' = lb_stamp l" "lb_addr l' = lb_addr l"
    "lb_alloc l' = lb_alloc l" "lb_accesses l' = lb_accesses l" "lb_free l' = lb_free l"
    "lb_parentJoin l' = lb_parentJoin l"
proof -
  note eq = assms [unfolded strip_rf_def]
  show "lb_kind l' = lb_kind l" using arg_cong [OF eq, of lb_kind] by simp
  show "lb_pos l' = lb_pos l" using arg_cong [OF eq, of lb_pos] by simp
  show "lb_stamp l' = lb_stamp l" using arg_cong [OF eq, of lb_stamp] by simp
  show "lb_addr l' = lb_addr l" using arg_cong [OF eq, of lb_addr] by simp
  show "lb_alloc l' = lb_alloc l" using arg_cong [OF eq, of lb_alloc] by simp
  show "lb_accesses l' = lb_accesses l" using arg_cong [OF eq, of lb_accesses] by simp
  show "lb_free l' = lb_free l" using arg_cong [OF eq, of lb_free] by simp
  show "lb_parentJoin l' = lb_parentJoin l" using arg_cong [OF eq, of lb_parentJoin] by simp
qed

definition same_but_rf :: "exec_graph \<Rightarrow> exec_graph \<Rightarrow> bool" where
  "same_but_rf h g \<longleftrightarrow> (\<forall>x. map_option strip_rf (lab_at h x) = map_option strip_rf (lab_at g x)) \<and>
     coherence h = coherence g \<and> insertionOrder h = insertionOrder g"

lemma same_but_rf_refl [simp]: "same_but_rf g g"
  by (simp add: same_but_rf_def)

lemma same_but_rf_trans: "same_but_rf h g \<Longrightarrow> same_but_rf k h \<Longrightarrow> same_but_rf k g"
  by (simp add: same_but_rf_def)

lemma same_but_rf_at:
  assumes "same_but_rf h g" "lab_at h x = Some l'"
  obtains l where "lab_at g x = Some l" "strip_rf l' = strip_rf l"
  using assms by (metis (no_types, lifting) map_option_eq_Some option.map(2) same_but_rf_def)

lemma same_but_rf_sym: "same_but_rf h g \<Longrightarrow> same_but_rf g h"
  by (simp add: same_but_rf_def)

lemma same_but_rf_at_kind:
  assumes "same_but_rf h g" "at_kind P g e Q" "\<And>l l'. strip_rf l' = strip_rf l \<Longrightarrow> Q l \<Longrightarrow> Q l'"
  shows "at_kind P h e Q"
proof -
  from assms(2) obtain l where l: "lab_at g e = Some l" "P (lb_kind l)" "Q l" by (auto simp: at_kind_def)
  from same_but_rf_at [OF same_but_rf_sym [OF assms(1)] l(1)] obtain l' where
    l': "lab_at h e = Some l'" "strip_rf l = strip_rf l'" .
  have "Q l'" using l(3) by (rule assms(3) [rotated]) (rule l'(2) [symmetric])
  with l l'(1) strip_rf_fields(1) [OF l'(2)] show ?thesis by (auto simp: at_kind_def)
qed

lemma same_but_rf_containsPos: "same_but_rf h g \<Longrightarrow> containsPos h x = containsPos g x"
  by (metis containsPos_lab same_but_rf_at same_but_rf_sym)

lemma same_but_rf_rest:
  assumes s: "same_but_rf h g" and c: "graph_core g"
  shows "pos_ok h \<and> start_ok h \<and> co_ok h \<and> order_ok h \<and> alloc_ok h \<and> free_ok h"
proof -
  note at = same_but_rf_at [OF s]
  note keep = same_but_rf_at_kind [OF s]
  have parts: "pos_ok g" "start_ok g" "co_ok g" "order_ok g" "alloc_ok g" "free_ok g"
    using c by (simp_all add: graph_core_def)
  have "pos_ok h"
    unfolding pos_ok_def
  proof (intro allI impI)
    fix e l' assume "lab_at h e = Some l'"
    then obtain l where l: "lab_at g e = Some l" "strip_rf l' = strip_rf l" by (rule at)
    with parts(1) have "lb_pos l = e \<and> lb_stamp l \<noteq> None" by (simp add: pos_ok_def)
    then show "lb_pos l' = e \<and> lb_stamp l' \<noteq> None" by (simp add: strip_rf_fields [OF l(2)])
  qed
  moreover have "start_ok h"
  proof -
    have "at_kind (\<lambda>k. k = Init) h event_init (\<lambda>_. True)"
      using parts(2) by (intro keep) (simp_all add: start_ok_def)
    moreover have "isThreadStart (lb_kind l')" if h: "lab_at h (Event t 0) = Some l'" for t l'
    proof -
      from h obtain l where l: "lab_at g (Event t 0) = Some l" "strip_rf l' = strip_rf l" by (rule at)
      with parts(2) show ?thesis by (simp add: start_ok_def strip_rf_fields [OF l(2)])
    qed
    moreover have "e = event_init" if h: "lab_at h e = Some l'" "lb_kind l' = Init" for e l'
    proof -
      from h(1) obtain l where l: "lab_at g e = Some l" "strip_rf l' = strip_rf l" by (rule at)
      with parts(2) h(2) show ?thesis unfolding start_ok_def by (simp add: strip_rf_fields [OF l(2)])
    qed
    ultimately show ?thesis unfolding start_ok_def by blast
  qed
  moreover have "co_ok h"
  proof -
    have "co h = co g" using s by (simp add: same_but_rf_def co_def fun_eq_iff)
    moreover have "at_kind isWrite g w (\<lambda>l. lb_addr l = a) \<Longrightarrow> at_kind isWrite h w (\<lambda>l. lb_addr l = a)" for w a
      by (erule keep) (drule strip_rf_fields(4), simp)
    ultimately show ?thesis using parts(3) by (simp add: co_ok_def)
  qed
  moreover have "order_ok h"
    using parts(4) s same_but_rf_containsPos [OF s] by (simp add: order_ok_def same_but_rf_def)
  moreover have "alloc_ok h"
    unfolding alloc_ok_def
  proof (intro conjI allI impI)
    fix m l' a assume h: "lab_at h m = Some l' \<and> isMemAccess (lb_kind l') \<and> lb_alloc l' = Some a"
    then obtain l where "lab_at g m = Some l" "strip_rf l' = strip_rf l" using at by metis
    with h parts(5) have "at_kind isMalloc g a (\<lambda>al. m \<in> set (lb_accesses al))"
      unfolding alloc_ok_def by (metis strip_rf_fields(1,5))
    then show "at_kind isMalloc h a (\<lambda>al. m \<in> set (lb_accesses al))" by (rule keep) (drule strip_rf_fields(6), simp)
  next
    fix a al m assume h: "lab_at h a = Some al \<and> isMalloc (lb_kind al) \<and> m \<in> set (lb_accesses al)"
    then obtain l where "lab_at g a = Some l" "strip_rf al = strip_rf l" using at by metis
    with h parts(5) have "at_kind isMemAccess g m (\<lambda>l. lb_alloc l = Some a)"
      unfolding alloc_ok_def by (metis strip_rf_fields(1,6))
    then show "at_kind isMemAccess h m (\<lambda>l. lb_alloc l = Some a)" by (rule keep) (drule strip_rf_fields(5), simp)
  next
    fix a al assume h: "lab_at h a = Some al \<and> isMalloc (lb_kind al)"
    then obtain l where "lab_at g a = Some l" "strip_rf al = strip_rf l" using at by metis
    with h parts(5) show "distinct (lb_accesses al)" unfolding alloc_ok_def by (metis strip_rf_fields(1,6))
  qed
  moreover have "free_ok h"
    unfolding free_ok_def
  proof (intro conjI allI impI)
    fix d l' a assume h: "lab_at h d = Some l' \<and> isFree (lb_kind l') \<and> lb_alloc l' = Some a"
    then obtain l where "lab_at g d = Some l" "strip_rf l' = strip_rf l" using at by metis
    with h parts(6) have "at_kind isMalloc g a (\<lambda>al. lb_free al = Some d)"
      unfolding free_ok_def by (metis strip_rf_fields(1,5))
    then show "at_kind isMalloc h a (\<lambda>al. lb_free al = Some d)" by (rule keep) (drule strip_rf_fields(7), simp)
  next
    fix a al d assume h: "lab_at h a = Some al \<and> isMalloc (lb_kind al) \<and> lb_free al = Some d"
    then obtain l where "lab_at g a = Some l" "strip_rf al = strip_rf l" using at by metis
    with h parts(6) have "at_kind isFree g d (\<lambda>l. lb_alloc l = Some a)"
      unfolding free_ok_def by (metis strip_rf_fields(1,7))
    then show "at_kind isFree h d (\<lambda>l. lb_alloc l = Some a)" by (rule keep) (drule strip_rf_fields(5), simp)
  next
    fix e l' j assume h: "lab_at h e = Some l' \<and> isThreadFinish (lb_kind l') \<and> lb_parentJoin l' = Some j"
    then obtain l where "lab_at g e = Some l" "strip_rf l' = strip_rf l" using at by metis
    with h parts(6) have "at_kind (\<lambda>k. k = ThreadJoin) g j (\<lambda>_. True)"
      unfolding free_ok_def by (metis strip_rf_fields(1,8))
    then show "at_kind (\<lambda>k. k = ThreadJoin) h j (\<lambda>_. True)" by (rule keep) simp
  qed
  ultimately show ?thesis by blast
qed

section \<open>Setting a reads-from edge\<close>

lemma same_but_rf_put:
  assumes "lab_at g e = Some l" "strip_rf l' = strip_rf l"
  shows "same_but_rf (put_label e l' g) g"
  using assms lab_at_pos [OF assms(1)] by (simp add: same_but_rf_def lab_at_put)

lemma readers_of_put:
  assumes "lab_at g e = Some l"
  shows "readers_of (put_label e l' g) w a = (if w = e then
      (if isWrite (lb_kind l') then lb_readers l'
       else if lb_kind l' = Init then m_get (lb_initRfs l') a else []) else readers_of g w a)"
  using lab_at_pos [OF assms] by (simp add: readers_of_def lab_at_put)

lemma readers_of_init: "lab_at g w = Some l \<Longrightarrow> lb_kind l = Init \<Longrightarrow> readers_of g w a = m_get (lb_initRfs l) a"
  by (simp add: readers_of_def)

lemma map_fst_mod_tracked: "a \<in> fst ` set m \<Longrightarrow> map fst (m_mod a f m) = map fst m"
  by (simp add: map_fst_mod map_fst_touch)

text \<open>The target of a reads-from edge: a write or the initializer.\<close>

definition rf_target :: "exec_graph \<Rightarrow> event \<Rightarrow> bool" where
  "rf_target g w \<longleftrightarrow> at_kind (\<lambda>k. isWrite k \<or> k = Init) g w (\<lambda>_. True)"

definition keys_same :: "exec_graph \<Rightarrow> exec_graph \<Rightarrow> bool" where
  "keys_same h g \<longleftrightarrow> (\<forall>l l'. lab_at g event_init = Some l \<and> lab_at h event_init = Some l' \<longrightarrow>
     map fst (lb_initRfs l') = map fst (lb_initRfs l))"

lemma drop_reader_effect:
  assumes "lab_at g w = Some wl" "isWrite (lb_kind wl) \<or> lb_kind wl = Init" "w = event_init \<Longrightarrow> a \<in> fst ` set (lb_initRfs wl)"
  shows "\<exists>h. drop_reader r a w g = Inr h \<and> same_but_rf h g \<and> keys_same h g \<and>
    (\<forall>v b. readers_of h v b = (if v = w \<and> (isWrite (lb_kind wl) \<or> b = a) then filter (\<lambda>x. x \<noteq> r) (readers_of g v b)
       else readers_of g v b)) \<and>
    (\<forall>x l'. lab_at h x = Some l' \<longrightarrow> (\<exists>l. lab_at g x = Some l \<and> lb_rf l' = lb_rf l)) \<and> getNumThreads h = getNumThreads g"
proof (cases "isWrite (lb_kind wl)")
  case True
  let ?h = "put_label w (removeReader (\<lambda>x. x = r) wl) g"
  have "drop_reader r a w g = Inr ?h" using assms(1) True by (simp add: drop_reader_def with_label_def)
  moreover have "same_but_rf ?h g" by (rule same_but_rf_put [OF assms(1)]) (simp add: strip_rf_def removeReader_def)
  moreover have "keys_same ?h g"
    using assms(1) lab_at_pos [OF assms(1)] by (auto simp: keys_same_def lab_at_put removeReader_def split: if_splits)
  moreover have "readers_of ?h v b = (if v = w \<and> (isWrite (lb_kind wl) \<or> b = a) then filter (\<lambda>x. x \<noteq> r) (readers_of g v b)
       else readers_of g v b)" for v b
    using True assms(1) by (auto simp: readers_of_put [OF assms(1)] removeReader_def) (simp add: readers_of_def)
  ultimately show ?thesis using assms(1) lab_at_pos [OF assms(1)]
    by (intro exI [of _ ?h]) (simp add: lab_at_put removeReader_def)
next
  case False
  with assms(2) have i: "lb_kind wl = Init" by simp
  let ?h = "put_label w (init_removeReader a (\<lambda>x. x = r) wl) g"
  have "drop_reader r a w g = Inr ?h" using assms(1) i by (simp add: drop_reader_def with_label_def)
  moreover have "same_but_rf ?h g" by (rule same_but_rf_put [OF assms(1)]) (simp add: strip_rf_def init_removeReader_def)
  moreover have "keys_same ?h g"
    using assms(1,3) lab_at_pos [OF assms(1)]
    by (auto simp: keys_same_def lab_at_put init_removeReader_def map_fst_mod_tracked split: if_splits)
  moreover have "readers_of ?h v b = (if v = w \<and> (isWrite (lb_kind wl) \<or> b = a) then filter (\<lambda>x. x \<noteq> r) (readers_of g v b)
       else readers_of g v b)" for v b
    using i assms(1) readers_of_init [OF assms(1) i]
    by (simp add: readers_of_put [OF assms(1)] init_removeReader_def m_get_mod)
  ultimately show ?thesis using assms(1) lab_at_pos [OF assms(1)]
    by (intro exI [of _ ?h]) (simp add: lab_at_put init_removeReader_def)
qed

lemma join_reader_effect:
  assumes "lab_at g w = Some wl" "isWrite (lb_kind wl) \<or> lb_kind wl = Init" "w = event_init \<Longrightarrow> a \<in> fst ` set (lb_initRfs wl)"
    and "r \<notin> set (readers_of g w a)"
  shows "\<exists>h. join_reader r a w g = Inr h \<and> same_but_rf h g \<and> keys_same h g \<and>
    (\<forall>v b. readers_of h v b = (if v = w \<and> (isWrite (lb_kind wl) \<or> b = a) then readers_of g v b @ [r]
       else readers_of g v b)) \<and>
    (\<forall>x l'. lab_at h x = Some l' \<longrightarrow> (\<exists>l. lab_at g x = Some l \<and> lb_rf l' = lb_rf l)) \<and> getNumThreads h = getNumThreads g"
proof (cases "isWrite (lb_kind wl)")
  case True
  let ?h = "put_label w (wl\<lparr>lb_readers := lb_readers wl @ [r]\<rparr>) g"
  have "r \<notin> set (lb_readers wl)" using assms(1,4) True by (simp add: readers_of_def)
  then have "join_reader r a w g = Inr ?h" using assms(1) True by (simp add: join_reader_def with_label_def addReader_def)
  moreover have "same_but_rf ?h g" by (rule same_but_rf_put [OF assms(1)]) (simp add: strip_rf_def)
  moreover have "keys_same ?h g"
    using assms(1) lab_at_pos [OF assms(1)] by (auto simp: keys_same_def lab_at_put split: if_splits)
  moreover have "readers_of ?h v b = (if v = w \<and> (isWrite (lb_kind wl) \<or> b = a) then readers_of g v b @ [r]
       else readers_of g v b)" for v b
    using True assms(1) by (auto simp: readers_of_put [OF assms(1)]) (simp add: readers_of_def)
  ultimately show ?thesis using assms(1) lab_at_pos [OF assms(1)]
    by (intro exI [of _ ?h]) (simp add: lab_at_put)
next
  case False
  with assms(2) have i: "lb_kind wl = Init" by simp
  let ?h = "put_label w (wl\<lparr>lb_initRfs := m_mod a (\<lambda>rs. rs @ [r]) (lb_initRfs wl)\<rparr>) g"
  have "r \<notin> set (m_get (lb_initRfs wl) a)" using assms(1,4) i by (simp add: readers_of_def)
  then have "join_reader r a w g = Inr ?h"
    using assms(1) i by (simp add: join_reader_def with_label_def init_addReader_def)
  moreover have "same_but_rf ?h g" by (rule same_but_rf_put [OF assms(1)]) (simp add: strip_rf_def)
  moreover have "keys_same ?h g"
    using assms(1,3) lab_at_pos [OF assms(1)]
    by (auto simp: keys_same_def lab_at_put map_fst_mod_tracked split: if_splits)
  moreover have "readers_of ?h v b = (if v = w \<and> (isWrite (lb_kind wl) \<or> b = a) then readers_of g v b @ [r]
       else readers_of g v b)" for v b
    using i assms(1) readers_of_init [OF assms(1) i] by (simp add: readers_of_put [OF assms(1)] m_get_mod)
  ultimately show ?thesis using assms(1) lab_at_pos [OF assms(1)]
    by (intro exI [of _ ?h]) (simp add: lab_at_put)
qed


text \<open>The readers of \<open>v\<close> for \<open>b\<close> once \<open>r\<close>, a read of \<open>a\<close>, reads from \<open>rf\<close> only.\<close>

definition new_readers :: "exec_graph \<Rightarrow> event \<Rightarrow> saddr \<Rightarrow> event option \<Rightarrow> event \<Rightarrow> saddr \<Rightarrow> event list" where
  "new_readers g r a rf v b = filter (\<lambda>x. x \<noteq> r) (readers_of g v b) @
     (if rf = Some v \<and> (at_kind isWrite g v (\<lambda>_. True) \<or> b = a) then [r] else [])"

definition rf_changed :: "exec_graph \<Rightarrow> event \<Rightarrow> event option \<Rightarrow> exec_graph \<Rightarrow> bool" where
  "rf_changed g r rf h \<longleftrightarrow> (\<forall>x l'. lab_at h x = Some l' \<longrightarrow>
     (\<exists>l. lab_at g x = Some l \<and> lb_rf l' = (if x = r then rf else lb_rf l)))"

lemma rf_changed_step:
  assumes "rf_changed g r rf h1" "\<And>x l'. lab_at h x = Some l' \<Longrightarrow> \<exists>l. lab_at h1 x = Some l \<and> lb_rf l' = lb_rf l"
  shows "rf_changed g r rf h"
  unfolding rf_changed_def
proof (intro allI impI)
  fix x l' assume "lab_at h x = Some l'"
  then obtain l1 where l1: "lab_at h1 x = Some l1" "lb_rf l' = lb_rf l1" using assms(2) by blast
  with assms(1) show "\<exists>l. lab_at g x = Some l \<and> lb_rf l' = (if x = r then rf else lb_rf l)"
    unfolding rf_changed_def by force
qed

lemma keys_same_trans:
  assumes "keys_same h1 g" "keys_same h h1" "same_but_rf h h1"
  shows "keys_same h g"
  unfolding keys_same_def
proof (intro allI impI)
  fix l l' assume a: "lab_at g event_init = Some l \<and> lab_at h event_init = Some l'"
  then obtain l1 where l1: "lab_at h1 event_init = Some l1" using same_but_rf_at [OF assms(3)] by blast
  from assms(1) a l1 have "map fst (lb_initRfs l1) = map fst (lb_initRfs l)" by (simp add: keys_same_def)
  moreover from assms(2) a l1 have "map fst (lb_initRfs l') = map fst (lb_initRfs l1)" by (simp add: keys_same_def)
  ultimately show "map fst (lb_initRfs l') = map fst (lb_initRfs l)" by simp
qed

lemma readers_of_nonempty:
  assumes "x \<in> set (readers_of g w a)"
  shows "\<exists>wl. lab_at g w = Some wl \<and> (isWrite (lb_kind wl) \<or> lb_kind wl = Init)"
  using assms by (cases "lab_at g w") (auto simp: readers_of_def split: if_splits)

lemma init_tracks:
  assumes "graph_core g" "lab_at g r = Some rl" "isRead (lb_kind rl)" "lab_at g event_init = Some il"
  shows "lb_addr rl \<in> fst ` set (lb_initRfs il)"
proof -
  have "map fst (lb_initRfs il) = map fst (coherence g)"
    using assms(1,4) by (auto simp: graph_core_def keys_ok_def at_kind_def)
  moreover have "lb_addr rl \<in> fst ` set (coherence g)"
    using assms(1-3) kind_disjoint(3) unfolding graph_core_def keys_ok_def by blast
  ultimately show ?thesis by (metis list.set_map)
qed

lemma core_init_only: "graph_core g \<Longrightarrow> lab_at g w = Some l \<Longrightarrow> lb_kind l = Init \<Longrightarrow> w = event_init"
  by (simp add: graph_core_def start_ok_def)

lemma rf_ok_back:
  "graph_core g \<Longrightarrow> x \<in> set (readers_of g w a) \<Longrightarrow>
     \<exists>l. lab_at g x = Some l \<and> isRead (lb_kind l) \<and> lb_rf l = Some w \<and> (w = event_init \<longrightarrow> lb_addr l = a)"
  by (auto simp: graph_core_def rf_ok_def at_kind_def)

lemma drop_old_effect:
  fixes rf :: "event option"
  assumes core: "graph_core g" and r: "lab_at g r = Some rl" "isRead (lb_kind rl)"
  defines "g1 \<equiv> put_label r (rl\<lparr>lb_rf := rf\<rparr>) g"
  shows "\<exists>h. (case lb_rf rl of None \<Rightarrow> Inr g1
     | Some old \<Rightarrow> if containsPos g1 old then drop_reader r (lb_addr rl) old g1 else Inr g1) = Inr h \<and>
    same_but_rf h g \<and> keys_same h g \<and> (\<forall>v b. readers_of h v b = filter (\<lambda>x. x \<noteq> r) (readers_of g v b)) \<and>
    rf_changed g r rf h \<and> getNumThreads h = getNumThreads g"
proof -
  have cr: "containsPos g r" using r(1) by (rule lab_at_pos)
  have at1: "lab_at g1 x = (if x = r then Some (rl\<lparr>lb_rf := rf\<rparr>) else lab_at g x)" for x
    unfolding g1_def using cr by (simp add: lab_at_put)
  have r1: "readers_of g1 v b = readers_of g v b" for v b
    unfolding g1_def readers_of_put [OF r(1)] using r by (simp add: readers_of_def)
  have s1: "same_but_rf g1 g" unfolding g1_def by (rule same_but_rf_put [OF r(1)]) (simp add: strip_rf_def)
  have ch1: "rf_changed g r rf g1" using r(1) at1 by (simp add: rf_changed_def)
  have ri: "r \<noteq> event_init"
    using core_init [OF core] r by (metis kind_proper(1) option.inject)
  have k1: "keys_same g1 g" using at1 ri by (auto simp: keys_same_def)
  have n1: "getNumThreads g1 = getNumThreads g" by (simp add: g1_def)
  show ?thesis
  proof (cases "lb_rf rl")
    case None
    have "r \<notin> set (readers_of g v b)" for v b using rf_ok_back [OF core] r(1) None by fastforce
    then have "filter (\<lambda>x. x \<noteq> r) (readers_of g v b) = readers_of g v b" for v b
      by (metis (mono_tags, lifting) filter_True)
    with None r1 s1 ch1 k1 n1 show ?thesis by simp
  next
    case (Some old)
    let ?a = "lb_addr rl"
    have "r \<in> set (readers_of g old ?a)" using core r Some by (auto simp: graph_core_def rf_ok_def)
    then obtain wl where wl: "lab_at g old = Some wl" "isWrite (lb_kind wl) \<or> lb_kind wl = Init"
      using readers_of_nonempty by blast
    have "old \<noteq> r" using wl r by auto
    with wl(1) at1 have w1: "lab_at g1 old = Some wl" by simp
    have "?a \<in> fst ` set (lb_initRfs wl)" if "old = event_init"
      using init_tracks [OF core r] wl(1) that by blast
    from drop_reader_effect [OF w1 wl(2) this, of r] obtain h where
      h: "drop_reader r ?a old g1 = Inr h" "same_but_rf h g1" "keys_same h g1"
      "\<And>v b. readers_of h v b = (if v = old \<and> (isWrite (lb_kind wl) \<or> b = ?a)
         then filter (\<lambda>x. x \<noteq> r) (readers_of g1 v b) else readers_of g1 v b)"
      "\<And>x l'. lab_at h x = Some l' \<Longrightarrow> \<exists>l. lab_at g1 x = Some l \<and> lb_rf l' = lb_rf l"
      "getNumThreads h = getNumThreads g1" by blast
    have "filter (\<lambda>x. x \<noteq> r) (readers_of g v b) = readers_of g v b"
      if "\<not> (v = old \<and> (isWrite (lb_kind wl) \<or> b = ?a))" for v b
    proof -
      have "r \<notin> set (readers_of g v b)"
      proof
        assume "r \<in> set (readers_of g v b)"
        with rf_ok_back [OF core] r(1) Some have "v = old \<and> (v = event_init \<longrightarrow> ?a = b)" by fastforce
        with that wl core_init_only [OF core wl(1)] show False by auto
      qed
      then show ?thesis by (metis (mono_tags, lifting) filter_True)
    qed
    with h(4) r1 have "readers_of h v b = filter (\<lambda>x. x \<noteq> r) (readers_of g v b)" for v b by simp
    moreover have "rf_changed g r rf h" using ch1 h(5) by (rule rf_changed_step)
    moreover have "keys_same h g" by (rule keys_same_trans [OF k1 h(3,2)])
    moreover have "containsPos g1 old" using w1 by (rule lab_at_pos)
    ultimately show ?thesis using Some h(1,6) n1 same_but_rf_trans [OF s1 h(2)] by simp
  qed
qed

lemma setRf_effect:
  assumes core: "graph_core g" and r: "lab_at g r = Some rl" "isRead (lb_kind rl)"
    and target: "\<And>w. rf = Some w \<Longrightarrow> rf_target g w"
  shows "\<exists>h. setRf r rf g = Inr h \<and> same_but_rf h g \<and> keys_same h g \<and>
    (\<forall>v b. readers_of h v b = new_readers g r (lb_addr rl) rf v b) \<and> rf_changed g r rf h \<and>
    getNumThreads h = getNumThreads g"
proof -
  let ?a = "lb_addr rl" let ?g1 = "put_label r (rl\<lparr>lb_rf := rf\<rparr>) g"
  from drop_old_effect [OF core r, of rf] obtain g2 where
    g2: "(case lb_rf rl of None \<Rightarrow> Inr ?g1
     | Some old \<Rightarrow> if containsPos ?g1 old then drop_reader r ?a old ?g1 else Inr ?g1) = Inr g2"
    "same_but_rf g2 g" "keys_same g2 g" "\<And>v b. readers_of g2 v b = filter (\<lambda>x. x \<noteq> r) (readers_of g v b)"
    "rf_changed g r rf g2" "getNumThreads g2 = getNumThreads g" by blast
  have sr: "setRf r rf g = (case rf of None \<Rightarrow> Inr g2 | Some w \<Rightarrow> join_reader r ?a w g2)"
    using r(1) g2(1) by (simp add: setRf_def Let_def)
  show ?thesis
  proof (cases rf)
    case None
    then show ?thesis using sr g2 by (simp add: new_readers_def)
  next
    case (Some w)
    from target [OF Some] obtain wl where wl: "lab_at g w = Some wl" "isWrite (lb_kind wl) \<or> lb_kind wl = Init"
      by (auto simp: rf_target_def at_kind_def)
    from same_but_rf_at [OF same_but_rf_sym [OF g2(2)] wl(1)] obtain wl2 where
      wl2: "lab_at g2 w = Some wl2" "strip_rf wl = strip_rf wl2" .
    have k2: "lb_kind wl2 = lb_kind wl" using strip_rf_fields(1) [OF wl2(2)] by simp
    have "?a \<in> fst ` set (lb_initRfs wl2)" if wi: "w = event_init"
    proof -
      have "map fst (lb_initRfs wl2) = map fst (lb_initRfs wl)"
        using g2(3) wl(1) wl2(1) wi by (simp add: keys_same_def)
      moreover have "?a \<in> fst ` set (lb_initRfs wl)" using init_tracks [OF core r] wl(1) wi by blast
      ultimately show ?thesis by (metis list.set_map)
    qed
    moreover have "r \<notin> set (readers_of g2 w ?a)" using g2(4) by simp
    moreover have "isWrite (lb_kind wl2) \<or> lb_kind wl2 = Init" using wl(2) k2 by simp
    ultimately have "\<exists>h. join_reader r ?a w g2 = Inr h \<and> same_but_rf h g2 \<and> keys_same h g2 \<and>
      (\<forall>v b. readers_of h v b = (if v = w \<and> (isWrite (lb_kind wl2) \<or> b = ?a) then readers_of g2 v b @ [r]
         else readers_of g2 v b)) \<and>
      (\<forall>x l'. lab_at h x = Some l' \<longrightarrow> (\<exists>l. lab_at g2 x = Some l \<and> lb_rf l' = lb_rf l)) \<and>
      getNumThreads h = getNumThreads g2"
      by (intro join_reader_effect [OF wl2(1)])
    then obtain h where h: "join_reader r ?a w g2 = Inr h" "same_but_rf h g2" "keys_same h g2"
      "\<And>v b. readers_of h v b = (if v = w \<and> (isWrite (lb_kind wl2) \<or> b = ?a) then readers_of g2 v b @ [r]
         else readers_of g2 v b)"
      "\<And>x l'. lab_at h x = Some l' \<Longrightarrow> \<exists>l. lab_at g2 x = Some l \<and> lb_rf l' = lb_rf l"
      "getNumThreads h = getNumThreads g2" by blast
    have "at_kind isWrite g w (\<lambda>_. True) \<longleftrightarrow> isWrite (lb_kind wl)" using wl by (simp add: at_kind_def)
    then have "readers_of h v b = new_readers g r ?a rf v b" for v b
      using h(4) g2(4) Some k2 by (auto simp: new_readers_def)
    moreover have "rf_changed g r rf h" using g2(5) h(5) by (rule rf_changed_step)
    moreover have "keys_same h g" by (rule keys_same_trans [OF g2(3) h(3,2)])
    ultimately show ?thesis using sr Some h(1,6) g2(6) same_but_rf_trans [OF g2(2) h(2)] by simp
  qed
qed

lemma setRf_core:
  assumes core: "graph_core g" and r: "lab_at g r = Some rl" "isRead (lb_kind rl)"
    and target: "\<And>w. rf = Some w \<Longrightarrow> rf_target g w"
  shows "\<exists>h. setRf r rf g = Inr h \<and> graph_core h \<and> same_but_rf h g \<and> rf_changed g r rf h \<and>
    (\<forall>v b. readers_of h v b = new_readers g r (lb_addr rl) rf v b) \<and> getNumThreads h = getNumThreads g"
proof -
  from setRf_effect [OF core r target] obtain h where h: "setRf r rf g = Inr h" "same_but_rf h g" "keys_same h g"
    "\<And>v b. readers_of h v b = new_readers g r (lb_addr rl) rf v b" "rf_changed g r rf h"
    "getNumThreads h = getNumThreads g" by blast
  have at: "\<exists>l. lab_at g x = Some l \<and> lb_rf l' = (if x = r then rf else lb_rf l) \<and> lb_kind l' = lb_kind l \<and>
      lb_addr l' = lb_addr l \<and> lb_stamp l' = lb_stamp l" if "lab_at h x = Some l'" for x l'
  proof -
    from same_but_rf_at [OF h(2) that] obtain l where l: "lab_at g x = Some l" "strip_rf l' = strip_rf l" .
    moreover from h(5) that l(1) have "lb_rf l' = (if x = r then rf else lb_rf l)" unfolding rf_changed_def by fastforce
    ultimately show ?thesis using strip_rf_fields [OF l(2)] by blast
  qed
  have ex: "\<exists>l'. lab_at h x = Some l'" if "lab_at g x = Some l" for x l
    using same_but_rf_at [OF same_but_rf_sym [OF h(2)] that] by blast
  have "rf_ok h"
    unfolding rf_ok_def
  proof (intro conjI allI impI)
    fix x l' w assume x: "lab_at h x = Some l' \<and> isRead (lb_kind l') \<and> lb_rf l' = Some w"
    with at obtain l where l: "lab_at g x = Some l" "lb_rf l' = (if x = r then rf else lb_rf l)"
      "lb_kind l' = lb_kind l" "lb_addr l' = lb_addr l" by blast
    show "x \<in> set (readers_of h w (lb_addr l'))"
    proof (cases "x = r")
      case True
      with x l have "rf = Some w" by simp
      with True l r(1) show ?thesis unfolding h(4) by (simp add: new_readers_def)
    next
      case False
      with x l have "isRead (lb_kind l)" "lb_rf l = Some w" by simp_all
      with core l(1) have "x \<in> set (readers_of g w (lb_addr l))" by (simp add: graph_core_def rf_ok_def)
      with False l(4) show ?thesis unfolding h(4) by (simp add: new_readers_def)
    qed
  next
    fix w b x assume x: "x \<in> set (readers_of h w b)"
    show "at_kind isRead h x (\<lambda>l. lb_rf l = Some w \<and> (w = event_init \<longrightarrow> lb_addr l = b))"
    proof (cases "x = r")
      case True
      with x have rf: "rf = Some w" "at_kind isWrite g w (\<lambda>_. True) \<or> b = lb_addr rl"
        unfolding h(4) new_readers_def by (auto split: if_splits)
      have "w = event_init \<Longrightarrow> b = lb_addr rl"
        using rf(2) core_init [OF core] by (metis at_kind_def kind_proper(2) option.inject)
      moreover from ex [OF r(1)] obtain l' where l': "lab_at h r = Some l'" by blast
      moreover from at [OF l'] r have "lb_rf l' = rf" "lb_kind l' = lb_kind rl" "lb_addr l' = lb_addr rl" by auto
      ultimately show ?thesis using True r(2) rf(1) by (simp add: at_kind_def)
    next
      case False
      with x have "x \<in> set (readers_of g w b)" unfolding h(4) new_readers_def by (auto split: if_splits)
      from rf_ok_back [OF core this] obtain l where
        l: "lab_at g x = Some l" "isRead (lb_kind l)" "lb_rf l = Some w" "w = event_init \<longrightarrow> lb_addr l = b" by blast
      from ex [OF l(1)] obtain l' where l': "lab_at h x = Some l'" by blast
      from at [OF l'] l False show ?thesis using l' by (auto simp: at_kind_def)
    qed
  next
    fix w b
    have "distinct (readers_of g w b)" using core by (simp add: graph_core_def rf_ok_def)
    then show "distinct (readers_of h w b)" unfolding h(4) by (auto simp: new_readers_def)
  qed
  moreover have "keys_ok h"
  proof -
    have k: "distinct (map fst (coherence g))"
      "\<And>e l. lab_at g e = Some l \<Longrightarrow> isMemAccess (lb_kind l) \<Longrightarrow> lb_addr l \<in> fst ` set (coherence g)"
      using core unfolding graph_core_def keys_ok_def by blast+
    have c: "coherence h = coherence g" using h(2) by (simp add: same_but_rf_def)
    from core_init [OF core] obtain il where il: "lab_at g event_init = Some il"
      "map fst (lb_initRfs il) = map fst (coherence g)" .
    from ex [OF il(1)] obtain il' where il': "lab_at h event_init = Some il'" by blast
    show ?thesis
    proof (rule keys_okI [OF il'])
      show "map fst (lb_initRfs il') = map fst (coherence h)" using h(3) il il' c by (simp add: keys_same_def)
      show "distinct (map fst (coherence h))" using k(1) c by simp
      show "lb_addr l' \<in> fst ` set (coherence h)" if x: "lab_at h e = Some l'" "isMemAccess (lb_kind l')" for e l'
        using at [OF x(1)] k(2) x(2) c by metis
    qed
  qed
  ultimately show ?thesis using h same_but_rf_rest [OF h(2) core] by (simp add: graph_core_def)
qed

end
