(* ===== verification/Graph_Coherence.thy ===== *)
theory Graph_Coherence
  imports Graph_Edges
begin

text \<open>
  The coherence operations of the graph: inserting, moving and removing stores keeps every
  location's order free of duplicates and made of writes to the location.
\<close>

section \<open>Changing the coherence order\<close>

lemma set_insert_before [simp]: "set (insert_before s w xs) = insert w (set xs)"
  by (induction xs) auto

lemma set_insert_after [simp]: "set (insert_after p w xs) = insert w (set xs)"
  by (induction xs) auto

lemma insert_before_split: "insert_before s w (xs @ s # ys) = xs @ w # s # ys" if "s \<notin> set xs"
  using that by (induction xs) auto

lemma insert_after_split: "insert_after p w (xs @ p # ys) = xs @ p # w # ys" if "p \<notin> set xs"
  using that by (induction xs) auto

lemma distinct_insert_before: "distinct xs \<Longrightarrow> w \<notin> set xs \<Longrightarrow> distinct (insert_before s w xs)"
  by (induction xs) auto

lemma distinct_insert_after: "distinct xs \<Longrightarrow> w \<notin> set xs \<Longrightarrow> distinct (insert_after p w xs)"
  by (induction xs) auto

lemma co_mod: "co (g\<lparr>coherence := m_mod a f (coherence g)\<rparr>) b = (if b = a then f (co g a) else co g b)"
  by (simp add: co_def m_get_mod)

lemma coherence_core:
  assumes core: "graph_core g" and tracked: "a \<in> fst ` set (coherence g)"
    and f: "distinct (f (co g a))" "\<And>w. w \<in> set (f (co g a)) \<Longrightarrow> at_kind isWrite g w (\<lambda>l. lb_addr l = a)"
  shows "graph_core (g\<lparr>coherence := m_mod a f (coherence g)\<rparr>)"
proof -
  let ?h = "g\<lparr>coherence := m_mod a f (coherence g)\<rparr>"
  have same: "at_kind P ?h e Q = at_kind P g e Q" "readers_of ?h = readers_of g" for P e Q
    by (simp_all add: at_kind_def readers_of_def fun_eq_iff)
  have "co_ok ?h"
    using core f unfolding co_ok_def same co_mod by (simp add: graph_core_def co_ok_def)
  moreover have "map fst (coherence ?h) = map fst (coherence g)"
    using map_fst_mod_tracked [OF tracked] by simp
  then have "keys_ok ?h"
    using core by (simp only: graph_core_def keys_ok_def same events_field_simps)
       (metis list.set_map)
  moreover have "pos_ok ?h = pos_ok g" "start_ok ?h = start_ok g" "rf_ok ?h = rf_ok g" "order_ok ?h = order_ok g"
    "alloc_ok ?h = alloc_ok g" "free_ok ?h = free_ok g"
    unfolding pos_ok_def start_ok_def rf_ok_def order_ok_def alloc_ok_def free_ok_def same by simp_all
  ultimately show ?thesis using core unfolding graph_core_def by blast
qed

lemma write_tracked:
  assumes "graph_core g" "lab_at g w = Some wl" "isWrite (lb_kind wl)"
  shows "lb_addr wl \<in> fst ` set (coherence g)"
  using assms kind_disjoint(4) unfolding graph_core_def keys_ok_def by blast

lemma co_writes:
  assumes "graph_core g"
  shows "distinct (co g a)" "w \<in> set (co g a) \<Longrightarrow> at_kind isWrite g w (\<lambda>l. lb_addr l = a)"
  using assms by (simp_all add: graph_core_def co_ok_def)

text \<open>Adding a store that is not yet ordered: before a store of its location, or after a store of
  its location or any other label, which means first.\<close>

lemma addStore_core:
  assumes core: "graph_core g" and w: "lab_at g w = Some wl" "isWrite (lb_kind wl)" "w \<notin> set (co g (lb_addr wl))"
    and f: "\<And>xs. set (f xs) = insert w (set xs)" "\<And>xs. distinct xs \<Longrightarrow> w \<notin> set xs \<Longrightarrow> distinct (f xs)"
  shows "graph_core (g\<lparr>coherence := m_mod (lb_addr wl) f (coherence g)\<rparr>)"
proof (rule coherence_core [OF core write_tracked [OF core w(1,2)]])
  show "distinct (f (co g (lb_addr wl)))" using co_writes(1) [OF core] w(3) by (rule f(2))
  fix x assume "x \<in> set (f (co g (lb_addr wl)))"
  then consider "x = w" | "x \<in> set (co g (lb_addr wl))" using f(1) by auto
  then show "at_kind isWrite g x (\<lambda>l. lb_addr l = lb_addr wl)"
    using w(1,2) co_writes(2) [OF core] by cases (auto simp: at_kind_def)
qed

lemma addStoreToCOBefore_core:
  assumes "graph_core g" "lab_at g w = Some wl" "isWrite (lb_kind wl)" "w \<notin> set (co g (lb_addr wl))"
    and "s \<in> set (co g (lb_addr wl))"
  shows "\<exists>h. addStoreToCOBefore w s g = Inr h \<and> graph_core h \<and> lab_at h = lab_at g \<and>
    co h = (co g)(lb_addr wl := insert_before s w (co g (lb_addr wl)))"
  using assms addStore_core [OF assms(1-4), of "insert_before s w"]
  by (auto simp: addStoreToCOBefore_def co_mod distinct_insert_before fun_eq_iff)

lemma addStoreToCOAfter_core:
  assumes "graph_core g" "lab_at g w = Some wl" "isWrite (lb_kind wl)" "w \<notin> set (co g (lb_addr wl))"
    and "lab_at g p = Some pl" "isWrite (lb_kind pl) \<Longrightarrow> p \<in> set (co g (lb_addr wl))"
  shows "\<exists>h. addStoreToCOAfter w p g = Inr h \<and> graph_core h \<and> lab_at h = lab_at g \<and>
    co h = (co g)(lb_addr wl := (if isWrite (lb_kind pl) then insert_after p w (co g (lb_addr wl))
      else w # co g (lb_addr wl)))"
  using assms addStore_core [OF assms(1-4), of "insert_after p w"] addStore_core [OF assms(1-4), of "(#) w"]
  by (auto simp: addStoreToCOAfter_def co_mod distinct_insert_after fun_eq_iff)

lemma removeStoreFromCO_core:
  assumes core: "graph_core g" and w: "lab_at g w = Some wl" "isWrite (lb_kind wl)"
  shows "\<exists>h. removeStoreFromCO w g = Inr h \<and> graph_core h \<and> lab_at h = lab_at g \<and>
    co h = (co g)(lb_addr wl := removeAll w (co g (lb_addr wl)))"
proof -
  have "graph_core (g\<lparr>coherence := m_mod (lb_addr wl) (removeAll w) (coherence g)\<rparr>)"
    by (rule coherence_core [OF core write_tracked [OF core w]])
      (use co_writes [OF core] in \<open>auto simp: distinct_removeAll\<close>)
  with w show ?thesis by (auto simp: removeStoreFromCO_def co_mod fun_eq_iff)
qed

lemma moveStoreCOBefore_core:
  assumes "graph_core g" "lab_at g w = Some wl" "isWrite (lb_kind wl)" "s \<in> set (co g (lb_addr wl))" "s \<noteq> w"
  shows "\<exists>h. moveStoreCOBefore w s g = Inr h \<and> graph_core h \<and> lab_at h = lab_at g \<and>
    co h = (co g)(lb_addr wl := insert_before s w (removeAll w (co g (lb_addr wl))))"
proof -
  from removeStoreFromCO_core [OF assms(1-3)] obtain h1 where h1: "removeStoreFromCO w g = Inr h1" "graph_core h1"
    "lab_at h1 = lab_at g" "co h1 = (co g)(lb_addr wl := removeAll w (co g (lb_addr wl)))" by blast
  with assms addStoreToCOBefore_core [of h1 w wl s] show ?thesis by (auto simp: moveStoreCOBefore_def)
qed

lemma moveStoreCOAfter_core:
  assumes "graph_core g" "lab_at g w = Some wl" "isWrite (lb_kind wl)" "lab_at g p = Some pl" "p \<noteq> w"
    and "isWrite (lb_kind pl) \<Longrightarrow> p \<in> set (co g (lb_addr wl))"
  shows "\<exists>h. moveStoreCOAfter w p g = Inr h \<and> graph_core h \<and> lab_at h = lab_at g \<and>
    co h = (co g)(lb_addr wl := (if isWrite (lb_kind pl)
      then insert_after p w (removeAll w (co g (lb_addr wl))) else w # removeAll w (co g (lb_addr wl))))"
proof -
  from removeStoreFromCO_core [OF assms(1-3)] obtain h1 where h1: "removeStoreFromCO w g = Inr h1" "graph_core h1"
    "lab_at h1 = lab_at g" "co h1 = (co g)(lb_addr wl := removeAll w (co g (lb_addr wl)))" by blast
  with assms addStoreToCOAfter_core [of h1 w wl p pl] show ?thesis by (auto simp: moveStoreCOAfter_def)
qed

end
