(* ===== verification/Graph_Restriction.thy ===== *)
theory Graph_Restriction
  imports Graph_Coherence
begin

text \<open>
  Restricting a graph to a set of positions: every label keeps what it was (the initializer only
  that it has a stamp) and loses its pointers to labels outside the set, positions outside are
  gone or are holes.  Cuts and copies produce
  such graphs; a restriction of a well-formed graph is well formed.
\<close>

definition restricts :: "(event \<Rightarrow> bool) \<Rightarrow> label \<Rightarrow> label \<Rightarrow> bool" where
  "restricts has l l' \<longleftrightarrow>
     (lb_kind l' = lb_kind l \<and> lb_pos l' = lb_pos l \<and> (lb_stamp l \<noteq> None \<longrightarrow> lb_stamp l' \<noteq> None)) \<and>
     (lb_kind l \<noteq> Init \<longrightarrow> lb_stamp l' = lb_stamp l \<and> lb_addr l' = lb_addr l) \<and>
     (isRead (lb_kind l) \<longrightarrow> lb_rf l' = keep_ptr has (lb_rf l)) \<and>
     (isWrite (lb_kind l) \<longrightarrow> lb_readers l' = filter has (lb_readers l)) \<and>
     (lb_kind l = Init \<longrightarrow> (\<forall>a. m_get (lb_initRfs l') a = filter has (m_get (lb_initRfs l) a))) \<and>
     (isMemAccess (lb_kind l) \<or> isFree (lb_kind l) \<longrightarrow> lb_alloc l' = keep_ptr has (lb_alloc l)) \<and>
     (isThreadFinish (lb_kind l) \<longrightarrow> lb_parentJoin l' = keep_ptr has (lb_parentJoin l)) \<and>
     (isMalloc (lb_kind l) \<longrightarrow>
        lb_free l' = keep_ptr has (lb_free l) \<and> lb_accesses l' = filter has (lb_accesses l))"

definition is_hole :: "event \<Rightarrow> label \<Rightarrow> bool" where
  "is_hole x l \<longleftrightarrow> lb_kind l = Empty \<and> lb_pos l = x \<and> lb_stamp l \<noteq> None"

definition restricted :: "(event \<Rightarrow> bool) \<Rightarrow> exec_graph \<Rightarrow> exec_graph \<Rightarrow> bool" where
  "restricted has g h \<longleftrightarrow>
     (\<forall>x l. lab_at g x = Some l \<and> has x \<longrightarrow> (\<exists>l'. lab_at h x = Some l' \<and> restricts has l l')) \<and>
     (\<forall>x l'. lab_at h x = Some l' \<longrightarrow> is_hole x l' \<or> (has x \<and> (\<exists>l. lab_at g x = Some l \<and> restricts has l l')))"

lemma keep_ptr_iff [simp]: "keep_ptr has p = Some e \<longleftrightarrow> p = Some e \<and> has e"
    "Some e = keep_ptr has p \<longleftrightarrow> p = Some e \<and> has e"
  by (auto simp: keep_ptr_def split: option.splits)

lemma restricts_kind: "restricts has l l' \<Longrightarrow> lb_kind l' = lb_kind l"
  by (simp add: restricts_def)

lemma restrictedD:
  assumes "restricted has g h" "lab_at g x = Some l" "has x"
  obtains l' where "lab_at h x = Some l'" "restricts has l l'"
  using assms unfolding restricted_def by blast

lemma restrictedE:
  assumes "restricted has g h" "lab_at h x = Some l'" "lb_kind l' \<noteq> Empty"
  obtains l where "has x" "lab_at g x = Some l" "restricts has l l'"
  using assms unfolding restricted_def is_hole_def by blast

lemma restricted_at_kind:
  assumes "restricted has g h" "at_kind P g x Q" "has x"
    and "\<And>l l'. restricts has l l' \<Longrightarrow> P (lb_kind l) \<Longrightarrow> Q l \<Longrightarrow> R l'"
  shows "at_kind P h x R"
proof -
  from assms(2) obtain l where l: "lab_at g x = Some l" "P (lb_kind l)" "Q l" by (auto simp: at_kind_def)
  from restrictedD [OF assms(1) l(1) assms(3)] obtain l' where l': "lab_at h x = Some l'" "restricts has l l'" .
  have "R l'" using l'(2) l(2,3) by (rule assms(4))
  with l' l(2) show ?thesis by (simp add: at_kind_def restricts_kind)
qed

lemma restricted_readers:
  assumes "restricted has g h"
  shows "readers_of h w a = (if has w then filter has (readers_of g w a) else [])"
proof (cases "lab_at h w")
  case None
  have "\<not> (has w \<and> lab_at g w \<noteq> None)" using None restrictedD [OF assms] by fastforce
  then have "\<not> has w \<or> lab_at g w = None" by blast
  with None show ?thesis by (auto simp: readers_of_def)
next
  case (Some l')
  show ?thesis
  proof (cases "lb_kind l' = Empty")
    case True
    have "readers_of g w a = []" if "has w"
    proof (cases "lab_at g w")
      case None
      then show ?thesis by (simp add: readers_of_def)
    next
      case (Some l)
      from restrictedD [OF assms Some that] obtain l'' where "lab_at h w = Some l''" "restricts has l l''" .
      with \<open>lab_at h w = Some l'\<close> True have "lb_kind l = Empty" by (simp add: restricts_def)
      with Some show ?thesis by (simp add: readers_of_def)
    qed
    with Some True show ?thesis by (simp add: readers_of_def)
  next
    case False
    from restrictedE [OF assms Some False] obtain l where l: "has w" "lab_at g w = Some l" "restricts has l l'" .
    with Some show ?thesis by (auto simp: readers_of_def restricts_def)
  qed
qed

lemma restrict_core_init:
  assumes core: "graph_core g" and r: "restricted has g h" and init: "has event_init"
    and holes: "\<And>t l. lab_at h (Event t 0) = Some l \<Longrightarrow> lb_kind l \<noteq> Empty"
    and co: "\<And>a. co h a = filter has (co g a)" and keys: "keys_ok h" and order: "order_ok h"
  shows "graph_core h"
proof -
  have ok: "pos_ok g" "start_ok g" "rf_ok g" "co_ok g" "alloc_ok g" "free_ok g"
    using core by (simp_all add: graph_core_def)
  note E = restrictedE [OF r]
  note keep = restricted_at_kind [OF r]
  have "pos_ok h"
    unfolding pos_ok_def
  proof (intro allI impI)
    fix e l' assume e: "lab_at h e = Some l'"
    show "lb_pos l' = e \<and> lb_stamp l' \<noteq> None"
    proof (cases "is_hole e l'")
      case False
      with r e obtain l where "lab_at g e = Some l" "restricts has l l'" unfolding restricted_def by blast
      with ok(1) show ?thesis by (simp add: pos_ok_def restricts_def)
    qed (simp add: is_hole_def)
  qed
  moreover have "start_ok h"
  proof -
    from core_init [OF core] obtain il where il: "lab_at g event_init = Some il" "lb_kind il = Init" .
    from restrictedD [OF r il(1) init] obtain il' where "lab_at h event_init = Some il'" "restricts has il il'" .
    with il(2) have "at_kind (\<lambda>k. k = Init) h event_init (\<lambda>_. True)" by (simp add: at_kind_def restricts_kind)
    moreover have "isThreadStart (lb_kind l')" if h: "lab_at h (Event t 0) = Some l'" for t l'
      using E [OF h holes [OF h]] ok(2) by (metis restricts_kind start_ok_def)
    moreover have "e = event_init" if h: "lab_at h e = Some l'" "lb_kind l' = Init" for e l'
    proof -
      from h(2) have "lb_kind l' \<noteq> Empty" by simp
      from E [OF h(1) this] obtain l where l: "lab_at g e = Some l" "restricts has l l'" .
      with h(2) core_init_only [OF core l(1)] show ?thesis by (simp add: restricts_kind)
    qed
    ultimately show ?thesis unfolding start_ok_def by blast
  qed
  moreover have "rf_ok h"
    unfolding rf_ok_def restricted_readers [OF r]
  proof (intro conjI allI impI)
    fix x l' w assume h: "lab_at h x = Some l' \<and> isRead (lb_kind l') \<and> lb_rf l' = Some w"
    then obtain l where l: "has x" "lab_at g x = Some l" "restricts has l l'"
      using E [of x l'] kind_proper(7) by blast
    with h have "isRead (lb_kind l)" "lb_rf l = Some w" "has w" "lb_addr l' = lb_addr l" by (auto simp: restricts_def)
    with l ok(3) show "x \<in> set (if has w then filter has (readers_of g w (lb_addr l')) else [])"
      by (simp add: rf_ok_def)
  next
    fix w a x assume "x \<in> set (if has w then filter has (readers_of g w a) else [])"
    then have x: "has w" "has x" "x \<in> set (readers_of g w a)" by (auto split: if_splits)
    with ok(3) have "at_kind isRead g x (\<lambda>l. lb_rf l = Some w \<and> (w = event_init \<longrightarrow> lb_addr l = a))"
      by (simp add: rf_ok_def)
    then show "at_kind isRead h x (\<lambda>l. lb_rf l = Some w \<and> (w = event_init \<longrightarrow> lb_addr l = a))"
      using x(2) by (rule keep) (use x(1) in \<open>auto simp: restricts_def\<close>)
  next
    fix w a show "distinct (if has w then filter has (readers_of g w a) else [])"
      using ok(3) by (simp add: rf_ok_def)
  qed
  moreover have "co_ok h"
    unfolding co_ok_def co
  proof (intro allI conjI ballI)
    fix a show "distinct (filter has (co g a))" using ok(4) by (simp add: co_ok_def)
    fix w assume "w \<in> set (filter has (co g a))"
    then have w: "has w" "w \<in> set (co g a)" by simp_all
    with ok(4) have "at_kind isWrite g w (\<lambda>l. lb_addr l = a)" by (simp add: co_ok_def)
    then show "at_kind isWrite h w (\<lambda>l. lb_addr l = a)" using w(1) by (rule keep) (simp add: restricts_def)
  qed
  moreover have "alloc_ok h"
    unfolding alloc_ok_def
  proof (intro conjI allI impI)
    fix m l' a assume h: "lab_at h m = Some l' \<and> isMemAccess (lb_kind l') \<and> lb_alloc l' = Some a"
    then obtain l where l: "has m" "lab_at g m = Some l" "restricts has l l'"
      using E [of m l'] kind_proper(9) by blast
    with h have "isMemAccess (lb_kind l)" "lb_alloc l = Some a" "has a" by (auto simp: restricts_def)
    moreover from this l(2) ok(5) have "at_kind isMalloc g a (\<lambda>al. m \<in> set (lb_accesses al))"
      unfolding alloc_ok_def by blast
    ultimately show "at_kind isMalloc h a (\<lambda>al. m \<in> set (lb_accesses al))"
      by (elim keep) (use l(1) in \<open>auto simp: restricts_def\<close>)
  next
    fix a al' m assume h: "lab_at h a = Some al' \<and> isMalloc (lb_kind al') \<and> m \<in> set (lb_accesses al')"
    then obtain al where al: "has a" "lab_at g a = Some al" "restricts has al al'"
      using E [of a al'] kind_proper(10) by blast
    with h have "isMalloc (lb_kind al)" "m \<in> set (lb_accesses al)" "has m" by (auto simp: restricts_def)
    moreover from this al(2) ok(5) have "at_kind isMemAccess g m (\<lambda>l. lb_alloc l = Some a)"
      unfolding alloc_ok_def by blast
    ultimately show "at_kind isMemAccess h m (\<lambda>l. lb_alloc l = Some a)"
      by (elim keep) (use al(1) in \<open>auto simp: restricts_def\<close>)
  next
    fix a al' assume h: "lab_at h a = Some al' \<and> isMalloc (lb_kind al')"
    then obtain al where al: "lab_at g a = Some al" "restricts has al al'"
      using E [of a al'] kind_proper(10) by blast
    with h ok(5) show "distinct (lb_accesses al')" by (auto simp: restricts_def alloc_ok_def)
  qed
  moreover have "free_ok h"
    unfolding free_ok_def
  proof (intro conjI allI impI)
    fix d l' a assume h: "lab_at h d = Some l' \<and> isFree (lb_kind l') \<and> lb_alloc l' = Some a"
    then obtain l where l: "has d" "lab_at g d = Some l" "restricts has l l'"
      using E [of d l'] kind_proper(11) by blast
    with h have "isFree (lb_kind l)" "lb_alloc l = Some a" "has a" by (auto simp: restricts_def)
    moreover from this l(2) ok(6) have "at_kind isMalloc g a (\<lambda>al. lb_free al = Some d)"
      unfolding free_ok_def by blast
    ultimately show "at_kind isMalloc h a (\<lambda>al. lb_free al = Some d)"
      by (elim keep) (use l(1) in \<open>auto simp: restricts_def\<close>)
  next
    fix a al' d assume h: "lab_at h a = Some al' \<and> isMalloc (lb_kind al') \<and> lb_free al' = Some d"
    then obtain al where al: "has a" "lab_at g a = Some al" "restricts has al al'"
      using E [of a al'] kind_proper(10) by blast
    with h have "isMalloc (lb_kind al)" "lb_free al = Some d" "has d" by (auto simp: restricts_def)
    moreover from this al(2) ok(6) have "at_kind isFree g d (\<lambda>l. lb_alloc l = Some a)"
      unfolding free_ok_def by blast
    ultimately show "at_kind isFree h d (\<lambda>l. lb_alloc l = Some a)"
      by (elim keep) (use al(1) in \<open>auto simp: restricts_def\<close>)
  next
    fix e l' j assume h: "lab_at h e = Some l' \<and> isThreadFinish (lb_kind l') \<and> lb_parentJoin l' = Some j"
    then obtain l where l: "has e" "lab_at g e = Some l" "restricts has l l'"
      using E [of e l'] kind_proper(12) by blast
    with h have "isThreadFinish (lb_kind l)" "lb_parentJoin l = Some j" "has j" by (auto simp: restricts_def)
    moreover from this l(2) ok(6) have "at_kind (\<lambda>k. k = ThreadJoin) g j (\<lambda>_. True)"
      unfolding free_ok_def by blast
    ultimately show "at_kind (\<lambda>k. k = ThreadJoin) h j (\<lambda>_. True)" by (elim keep) auto
  qed
  ultimately show ?thesis using keys order by (simp add: graph_core_def)
qed

lemma restrict_core:
  assumes core: "graph_core g" and r: "restricted has g h"
    and starts: "\<And>t. containsPos g (Event t 0) \<Longrightarrow> has (Event t 0)"
    and holes: "\<And>t l. lab_at h (Event t 0) = Some l \<Longrightarrow> lb_kind l \<noteq> Empty"
    and co: "\<And>a. co h a = filter has (co g a)" and keys: "keys_ok h" and order: "order_ok h"
  shows "graph_core h"
proof -
  from core_init [OF core] obtain il where "lab_at g event_init = Some il" .
  then have "has event_init" using starts [of 0] lab_at_pos by (simp add: event_init_def)
  then show ?thesis by (rule restrict_core_init [OF core r _ holes co keys order])
qed

end
