(* ===== verification/Graph_Cuts.thy ===== *)
theory Graph_Cuts
  imports Graph_Restriction
begin

text \<open>
  What a cut does, for any clock that \<open>cutToStamp\<close> can be run on.  The interface \<open>cut_clock\<close> is
  what the code relies on; \<open>View\<close> and \<open>DepView\<close> provide it.
\<close>

section \<open>The pieces of a cut\<close>

declare kind_disjoint [simp del] and kind_proper [simp del]

lemma keep_ptr_idem [simp]: "keep_ptr has (keep_ptr has p) = keep_ptr has p"
  by (simp add: keep_ptr_def split: option.split)

text \<open>The classes with pointers are disjoint, so one clause of the restriction applies.\<close>

lemma pointer_classes:
  "isWrite k \<Longrightarrow> isMemAccess k \<and> \<not> isRead k \<and> \<not> isThreadFinish k \<and> \<not> isFree k \<and> \<not> isMalloc k"
  "isRead k \<Longrightarrow> isMemAccess k \<and> \<not> isWrite k \<and> \<not> isThreadFinish k \<and> \<not> isFree k \<and> \<not> isMalloc k"
  "isThreadFinish k \<Longrightarrow> \<not> isMemAccess k \<and> \<not> isWrite k \<and> \<not> isRead k \<and> \<not> isFree k \<and> \<not> isMalloc k"
  "isFree k \<Longrightarrow> \<not> isMemAccess k \<and> \<not> isWrite k \<and> \<not> isRead k \<and> \<not> isThreadFinish k \<and> \<not> isMalloc k"
  "isMalloc k \<Longrightarrow> \<not> isMemAccess k \<and> \<not> isWrite k \<and> \<not> isRead k \<and> \<not> isThreadFinish k \<and> \<not> isFree k"
  "isMemAccess k \<Longrightarrow> isRead k \<or> isWrite k"
  by (cases k; simp add: kind_defs)+

lemma cut_pointers_cases:
  "isWrite (lb_kind l) \<Longrightarrow>
     cut_pointers has l = l\<lparr>lb_readers := filter has (lb_readers l), lb_alloc := keep_ptr has (lb_alloc l)\<rparr>"
  "isRead (lb_kind l) \<Longrightarrow>
     cut_pointers has l = l\<lparr>lb_rf := keep_ptr has (lb_rf l), lb_alloc := keep_ptr has (lb_alloc l)\<rparr>"
  "isThreadFinish (lb_kind l) \<Longrightarrow> cut_pointers has l = l\<lparr>lb_parentJoin := keep_ptr has (lb_parentJoin l)\<rparr>"
  "isFree (lb_kind l) \<Longrightarrow> cut_pointers has l = l\<lparr>lb_alloc := keep_ptr has (lb_alloc l)\<rparr>"
  "isMalloc (lb_kind l) \<Longrightarrow>
     cut_pointers has l = l\<lparr>lb_free := keep_ptr has (lb_free l), lb_accesses := filter has (lb_accesses l)\<rparr>"
proof -
  note d = cut_pointers_def removeReader_def removeAccess_def Let_def
  show "isWrite (lb_kind l) \<Longrightarrow>
     cut_pointers has l = l\<lparr>lb_readers := filter has (lb_readers l), lb_alloc := keep_ptr has (lb_alloc l)\<rparr>"
    by (frule pointer_classes(1)) (simp add: d)
  show "isRead (lb_kind l) \<Longrightarrow>
     cut_pointers has l = l\<lparr>lb_rf := keep_ptr has (lb_rf l), lb_alloc := keep_ptr has (lb_alloc l)\<rparr>"
    by (frule pointer_classes(2)) (simp add: d)
  show "isThreadFinish (lb_kind l) \<Longrightarrow> cut_pointers has l = l\<lparr>lb_parentJoin := keep_ptr has (lb_parentJoin l)\<rparr>"
    by (frule pointer_classes(3)) (simp add: d)
  show "isFree (lb_kind l) \<Longrightarrow> cut_pointers has l = l\<lparr>lb_alloc := keep_ptr has (lb_alloc l)\<rparr>"
    by (frule pointer_classes(4)) (simp add: d)
  show "isMalloc (lb_kind l) \<Longrightarrow>
     cut_pointers has l = l\<lparr>lb_free := keep_ptr has (lb_free l), lb_accesses := filter has (lb_accesses l)\<rparr>"
    by (frule pointer_classes(5)) (simp add: d)
qed

lemma cut_pointers_other:
  "\<not> isMemAccess (lb_kind l) \<Longrightarrow> \<not> isThreadFinish (lb_kind l) \<Longrightarrow> \<not> isFree (lb_kind l) \<Longrightarrow>
     \<not> isMalloc (lb_kind l) \<Longrightarrow> cut_pointers has l = l"
  using pointer_classes(1,2) [of "lb_kind l"] by (auto simp: cut_pointers_def)

lemma pointer_class_cases:
  obtains "isWrite k" | "isRead k" | "isThreadFinish k" | "isFree k" | "isMalloc k"
    | "\<not> isMemAccess k" "\<not> isThreadFinish k" "\<not> isFree k" "\<not> isMalloc k"
  using pointer_classes(6) [of k] by blast

lemma cut_pointers_kind [simp]: "lb_kind (cut_pointers has l) = lb_kind l"
  by (cases rule: pointer_class_cases [of "lb_kind l"]) (simp_all add: cut_pointers_cases cut_pointers_other)

lemma cut_pointers_idem [simp]: "cut_pointers has (cut_pointers has l) = cut_pointers has l"
  by (cases rule: pointer_class_cases [of "lb_kind l"]) (simp_all add: cut_pointers_cases cut_pointers_other)

lemma cut_pointers_start: "isThreadStart (lb_kind l) \<Longrightarrow> cut_pointers has l = l"
  using kind_disjoint(8,9,10,14) by (intro cut_pointers_other) blast+

lemma cut_pointers_restricts:
  assumes "lb_kind l \<noteq> Init"
  shows "restricts has l (cut_pointers has l)"
proof (cases rule: pointer_class_cases [of "lb_kind l"])
  case 1
  with pointer_classes(1) [OF 1] show ?thesis by (simp add: restricts_def cut_pointers_cases assms)
next
  case 2
  with pointer_classes(2) [OF 2] show ?thesis by (simp add: restricts_def cut_pointers_cases assms)
next
  case 3
  with pointer_classes(3) [OF 3] show ?thesis by (simp add: restricts_def cut_pointers_cases assms)
next
  case 4
  with pointer_classes(4) [OF 4] show ?thesis by (simp add: restricts_def cut_pointers_cases assms)
next
  case 5
  with pointer_classes(5) [OF 5] show ?thesis by (simp add: restricts_def cut_pointers_cases assms)
next
  case 6
  with pointer_classes(1,2) [of "lb_kind l"] show ?thesis
    by (auto simp: restricts_def cut_pointers_other assms)
qed

lemma restrict_labels_at:
  assumes "\<And>e. e \<in> set es \<Longrightarrow> containsPos g e"
  shows "\<exists>h. restrict_labels has es g = Inr h \<and>
    (\<forall>x. lab_at h x = (if x \<in> set es then map_option (cut_pointers has) (lab_at g x) else lab_at g x)) \<and>
    coherence h = coherence g \<and> insertionOrder h = insertionOrder g \<and> timestamp h = timestamp g \<and>
    recoveryTID h = recoveryTID g \<and> getNumThreads h = getNumThreads g \<and> getThreadSize h = getThreadSize g"
  using assms
proof (induction es arbitrary: g)
  case Nil
  then show ?case by (simp add: restrict_labels_def)
next
  case (Cons e es)
  from Cons.prems have "containsPos g e" by simp
  then obtain l where l: "lab_at g e = Some l" by (auto simp: containsPos_lab)
  let ?g = "put_label e (cut_pointers has l) g"
  have e: "containsPos g e" using l by (rule lab_at_pos)
  have "containsPos ?g x" if "x \<in> set es" for x using Cons.prems that by simp
  from Cons.IH [OF this] obtain h where h: "restrict_labels has es ?g = Inr h"
    "\<forall>x. lab_at h x = (if x \<in> set es then map_option (cut_pointers has) (lab_at ?g x) else lab_at ?g x)"
    "coherence h = coherence ?g" "insertionOrder h = insertionOrder ?g" "timestamp h = timestamp ?g"
    "recoveryTID h = recoveryTID ?g" "getNumThreads h = getNumThreads ?g" "getThreadSize h = getThreadSize ?g" by blast
  have "restrict_labels has (e # es) g = Inr h" using h(1) l by (simp add: restrict_labels_def)
  moreover have "getThreadSize ?g = getThreadSize g" by (rule ext) simp
  ultimately show ?case using h l e by (intro exI [of _ h]) (simp add: lab_at_put)
qed

text \<open>A map restricted to the locations that stay and the events that stay.\<close>

definition only_kept :: "saddr set \<Rightarrow> (event \<Rightarrow> bool) \<Rightarrow> reader_map \<Rightarrow> reader_map" where
  "only_kept K has m = map (\<lambda>(a, es). (a, filter has es)) (filter (\<lambda>(a, es). a \<in> K) m)"

lemma only_kept_Cons [simp]:
  "only_kept K has [] = []"
  "only_kept K has ((a, es) # m) = (if a \<in> K then (a, filter has es) # only_kept K has m else only_kept K has m)"
  by (simp_all add: only_kept_def)

lemma map_fst_restrict: "map fst (only_kept K has m) = filter (\<lambda>a. a \<in> K) (map fst m)"
  by (induction m) auto

lemma only_kept_keys: "fst ` set (only_kept K has m) \<subseteq> fst ` set m"
  unfolding only_kept_def by (force simp: image_iff)

lemma m_get_restrict: "distinct (map fst m) \<Longrightarrow>
    m_get (only_kept K has m) a = (if a \<in> K then filter has (m_get m a) else [])"
proof (induction m)
  case Nil
  then show ?case by (simp add: m_get_def)
next
  case (Cons p m)
  obtain b es where p: "p = (b, es)" by force
  have "m_get (only_kept K has m) b = []" if "b \<notin> fst ` set m"
    using that only_kept_keys [of K has m] by (intro m_get_absent) blast
  then have absent: "m_get (only_kept K has m) b = []" using Cons.prems p by (simp add: image_iff)
  have step: "m_get ((c, cs) # q) a = (if c = a then cs else m_get q a)" for c cs q by (simp add: m_get_def)
  have IH: "m_get (only_kept K has m) a = (if a \<in> K then filter has (m_get m a) else [])"
    using Cons.IH Cons.prems by simp
  show ?case
    unfolding p only_kept_Cons step using IH absent by (cases "b = a"; cases "b \<in> K") (simp_all add: step)
qed

lemma m_mod_split:
  assumes "a \<notin> fst ` set p" "a \<notin> fst ` set s"
  shows "m_mod a f (p @ (a, es) # s) = p @ (a, f es) # s"
proof -
  have "map (\<lambda>(b, es). (b, if b = a then f es else es)) q = q" if "a \<notin> fst ` set q" for q :: reader_map
  proof (rule map_idI)
    fix x assume "x \<in> set q"
    with that show "(case x of (b, es) \<Rightarrow> (b, if b = a then f es else es)) = x" by (cases x) force
  qed
  with assms show ?thesis by (simp add: m_mod_def m_touch_def)
qed

text \<open>The loop of \<open>removeAfter\<close>, when the two maps have the same locations in the same order.\<close>

lemma removeAfter_loop_eq:
  "distinct (map fst (p @ rs)) \<Longrightarrow> map fst rs = map fst cs \<Longrightarrow>
   removeAfter_loop keep has cs (p @ rs) (length p) =
     Inr (only_kept (set keep) has cs, p @ only_kept (set keep) has rs)"
proof (induction cs arbitrary: p rs)
  case Nil
  then show ?case by simp
next
  case (Cons c cs)
  obtain a ws where c: "c = (a, ws)" by force
  from Cons.prems(2) c obtain es rs' where rs: "rs = (a, es) # rs'" "map fst rs' = map fst cs" by auto
  show ?case
  proof (cases "a \<in> set keep")
    case True
    have m: "m_mod a (filter has) (p @ rs) = (p @ [(a, filter has es)]) @ rs'"
    proof -
      have "a \<notin> set (map fst p)" "a \<notin> set (map fst rs')" using Cons.prems(1) rs(1) by auto
      then show ?thesis unfolding rs(1) by (simp add: m_mod_split)
    qed
    have d: "distinct (map fst ((p @ [(a, filter has es)]) @ rs'))" using Cons.prems(1) rs by simp
    have "removeAfter_loop keep has cs (m_mod a (filter has) (p @ rs)) (Suc (length p)) =
        Inr (only_kept (set keep) has cs, (p @ [(a, filter has es)]) @ only_kept (set keep) has rs')"
      unfolding m using Cons.IH [OF d rs(2)] by simp
    with True show ?thesis by (simp add: c rs)
  next
    case False
    have "distinct (map fst (p @ rs'))" using Cons.prems(1) rs by simp
    from Cons.IH [OF this rs(2)] False show ?thesis by (simp add: c rs)
  qed
qed

lemma kept_locations_eq:
  assumes "\<And>e. e \<in> set (below_view v 0) \<Longrightarrow> containsPos g e"
  shows "\<exists>ks. kept_locations v g = Inr ks \<and>
    set ks = {lb_addr l |e l. e \<in> set (below_view v 0) \<and> lab_at g e = Some l \<and> isMemAccess (lb_kind l)}"
proof -
  let ?f = "\<lambda>e ks. bindR (getEventLabel g e) (\<lambda>l. Inr (if isMemAccess (lb_kind l) then lb_addr l # ks else ks))"
  have "\<exists>ks. foldR ?f es k0 = Inr ks \<and>
      set ks = set k0 \<union> {lb_addr l |e l. e \<in> set es \<and> lab_at g e = Some l \<and> isMemAccess (lb_kind l)}"
    if "\<And>e. e \<in> set es \<Longrightarrow> containsPos g e" for es k0
    using that
  proof (induction es arbitrary: k0)
    case Nil
    then show ?case by simp
  next
    case (Cons e es)
    from Cons.prems obtain l where l: "lab_at g e = Some l" by (auto simp: containsPos_lab)
    let ?k = "if isMemAccess (lb_kind l) then lb_addr l # k0 else k0"
    from Cons obtain ks where "foldR ?f es ?k = Inr ks"
      "set ks = set ?k \<union> {lb_addr l |e l. e \<in> set es \<and> lab_at g e = Some l \<and> isMemAccess (lb_kind l)}"
      by (metis (no_types, lifting) list.set_intros(2))
    with l show ?case by (intro exI [of _ ks]) auto
  qed
  from this [OF assms, where ?k0.0 = "[]"] show ?thesis by (simp add: kept_locations_def)
qed

lemma removeAfter_effect:
  assumes core: "graph_core g" and below: "\<And>e. e \<in> set (below_view v 0) \<Longrightarrow> containsPos g e"
    and il: "lab_at g event_init = Some il"
  shows "\<exists>h K. removeAfter v g = Inr h \<and>
    K = {lb_addr l |e l. e \<in> set (below_view v 0) \<and> lab_at g e = Some l \<and> isMemAccess (lb_kind l)} \<and>
    (\<forall>x. lab_at h x = (if x = event_init then Some (il\<lparr>lb_initRfs := only_kept K (vc_has v) (lb_initRfs il)\<rparr>)
       else lab_at g x)) \<and>
    coherence h = only_kept K (vc_has v) (coherence g) \<and> insertionOrder h = insertionOrder g \<and>
    timestamp h = timestamp g \<and> recoveryTID h = recoveryTID g \<and> getNumThreads h = getNumThreads g \<and>
    getThreadSize h = getThreadSize g"
proof -
  from kept_locations_eq [OF below] obtain ks where ks: "kept_locations v g = Inr ks"
    "set ks = {lb_addr l |e l. e \<in> set (below_view v 0) \<and> lab_at g e = Some l \<and> isMemAccess (lb_kind l)}" by blast
  have "map fst (lb_initRfs il) = map fst (coherence g)" "distinct (map fst (coherence g))"
    using core il by (auto simp: graph_core_def keys_ok_def at_kind_def)
  then have loop: "removeAfter_loop ks (vc_has v) (coherence g) (lb_initRfs il) 0 =
      Inr (only_kept (set ks) (vc_has v) (coherence g), only_kept (set ks) (vc_has v) (lb_initRfs il))"
    using removeAfter_loop_eq [of "[]" "lb_initRfs il" "coherence g"] by simp
  let ?h = "(put_label event_init (il\<lparr>lb_initRfs := only_kept (set ks) (vc_has v) (lb_initRfs il)\<rparr>) g)
     \<lparr>coherence := only_kept (set ks) (vc_has v) (coherence g)\<rparr>"
  have "removeAfter v g = Inr ?h" using ks(1) il loop by (simp add: removeAfter_def)
  moreover have "getThreadSize ?h = getThreadSize g" by (rule ext) simp
  ultimately show ?thesis using ks(2) lab_at_pos [OF il]
    by (intro exI [of _ ?h] exI [of _ "set ks"]) (simp add: lab_at_put)
qed

lemma nat_le_size: "m < int n \<Longrightarrow> nat (m + 1) \<le> n"
  by linarith

lemma erase_after_at:
  assumes "\<And>t. t < getNumThreads g \<Longrightarrow> 0 \<le> vc_max v t \<and> vc_max v t < int (getThreadSize g t)"
  shows "\<exists>h. erase_after v g = Inr h \<and>
    (\<forall>x. lab_at h x = (if index x \<le> vc_max v (nat (thread x)) then lab_at g x else None)) \<and>
    coherence h = coherence g \<and> insertionOrder h = insertionOrder g \<and> timestamp h = timestamp g \<and>
    recoveryTID h = recoveryTID g \<and> getNumThreads h = getNumThreads g"
proof -
  let ?h = "g\<lparr>events := map (\<lambda>i. take (nat (vc_max v i + 1)) (events g ! i)) [0..<getNumThreads g]\<rparr>"
  have "\<not> (\<exists>i<getNumThreads g. getThreadSize g i < nat (vc_max v i + 1))" using assms by fastforce
  then have e: "erase_after v g = Inr ?h" by (simp add: erase_after_def)
  have n: "getNumThreads ?h = getNumThreads g" by (simp add: getNumThreads_def)
  have s: "getThreadSize ?h t = nat (vc_max v t + 1)" if "t < getNumThreads g" for t
    using that assms [OF that] nat_le_size [of "vc_max v t" "getThreadSize g t"]
    by (simp add: getThreadSize_def min_absorb2)
  have c: "containsPos ?h x \<longleftrightarrow> containsPos g x \<and> index x \<le> vc_max v (nat (thread x))" for x
  proof (cases "nat (thread x) < getNumThreads g")
    case True
    with assms [OF True] s [OF True] n show ?thesis by (auto simp: containsPos_def)
  next
    case False
    with n show ?thesis by (simp add: containsPos_def)
  qed
  have "events ?h ! nat (thread x) ! nat (index x) = events g ! nat (thread x) ! nat (index x)"
    if "containsPos ?h x" for x
    using that c [of x] assms [of "nat (thread x)"] by (auto simp: containsPos_def)
  with c have "lab_at ?h x = (if index x \<le> vc_max v (nat (thread x)) then lab_at g x else None)" for x
    by (simp add: lab_at_def)
  with e n show ?thesis by (intro exI [of _ ?h]) simp
qed

lemma set_below_view:
  assumes "\<And>t. 0 \<le> vc_max v t"
  shows "e \<in> set (below_view v j0) \<longleftrightarrow> 0 \<le> thread e \<and> nat (thread e) < vc_size v \<and> int j0 \<le> index e \<and>
     index e \<le> vc_max v (nat (thread e))"
proof -
  have "e \<in> set (below_view v j0) \<longleftrightarrow>
      (\<exists>i<vc_size v. \<exists>j. j0 \<le> j \<and> j < nat (vc_max v i + 1) \<and> e = Event (int i) (int j))"
    by (auto simp: below_view_def image_iff Bex_def)
  also have "\<dots> \<longleftrightarrow> 0 \<le> thread e \<and> nat (thread e) < vc_size v \<and> int j0 \<le> index e \<and>
     index e \<le> vc_max v (nat (thread e))"
  proof
    assume r: "0 \<le> thread e \<and> nat (thread e) < vc_size v \<and> int j0 \<le> index e \<and> index e \<le> vc_max v (nat (thread e))"
    then show "\<exists>i<vc_size v. \<exists>j. j0 \<le> j \<and> j < nat (vc_max v i + 1) \<and> e = Event (int i) (int j)"
      by (intro exI [of _ "nat (thread e)"] conjI exI [of _ "nat (index e)"]) auto
  qed auto
  finally show ?thesis .
qed

section \<open>The interface a cut relies on\<close>

locale cut_clock =
  fixes emb :: "'v \<Rightarrow> vector_clock" and inv :: "'v \<Rightarrow> bool"
  assumes contains_law: "inv v \<Longrightarrow> valid e \<Longrightarrow> \<exists>b. vc_contains (emb v) e = Inr b"
    and max_law: "inv v \<Longrightarrow> vc_getMax (emb v) (int t) = Inr (vc_max (emb v) t)"
    and max_nonneg: "inv v \<Longrightarrow> 0 \<le> vc_max (emb v) t"
    and has_max: "inv v \<Longrightarrow> valid e \<Longrightarrow> vc_has (emb v) e \<Longrightarrow> index e \<le> vc_max (emb v) (nat (thread e))"
    and has_start: "inv v \<Longrightarrow> vc_has (emb v) (Event (int t) 0)"
    and beyond: "inv v \<Longrightarrow> vc_size (emb v) \<le> t \<Longrightarrow> vc_max (emb v) t = 0"
begin

definition fits :: "'v \<Rightarrow> exec_graph \<Rightarrow> bool" where
  "fits v g \<longleftrightarrow> inv v \<and> vc_size (emb v) \<le> getNumThreads g \<and>
     (\<forall>t < getNumThreads g. vc_max (emb v) t < int (getThreadSize g t))"

definition closed :: "'v \<Rightarrow> bool" where
  "closed v \<longleftrightarrow> (\<forall>e. valid e \<and> index e \<le> vc_max (emb v) (nat (thread e)) \<longrightarrow> vc_has (emb v) e)"

lemma fits_below:
  assumes "fits v g" "e \<in> set (below_view (emb v) j0)"
  shows "containsPos g e"
proof -
  from assms max_nonneg [of v] set_below_view [of "emb v" e j0] have e: "0 \<le> thread e"
    "nat (thread e) < vc_size (emb v)" "int j0 \<le> index e" "index e \<le> vc_max (emb v) (nat (thread e))"
    by (auto simp: fits_def)
  with assms(1) have "nat (thread e) < getNumThreads g" "vc_max (emb v) (nat (thread e)) < int (getThreadSize g (nat (thread e)))"
    by (auto simp: fits_def)
  with e show ?thesis by (simp add: containsPos_def)
qed

lemma mem_below:
  assumes "fits v g" "graph_core g" "lab_at g x = Some l" "isMemAccess (lb_kind l)"
    "index x \<le> vc_max (emb v) (nat (thread x))"
  shows "x \<in> set (below_view (emb v) 1)"
proof -
  have inv: "inv v" using assms(1) by (simp add: fits_def)
  have x: "0 \<le> thread x" "0 \<le> index x" using lab_at_pos [OF assms(3)] by (simp_all add: containsPos_def)
  have "index x \<noteq> 0"
  proof
    assume "index x = 0"
    then have "x = Event (thread x) 0" by (simp add: event.expand)
    with assms(2,3) have "isThreadStart (lb_kind l)" unfolding graph_core_def start_ok_def by metis
    with assms(4) show False using kind_disjoint(8) by blast
  qed
  with x beyond [OF inv, of "nat (thread x)"] assms(5) have "nat (thread x) < vc_size (emb v)" by linarith
  with x \<open>index x \<noteq> 0\<close> assms(5) show ?thesis using max_nonneg [OF inv] by (simp add: set_below_view)
qed

lemma below_mono: "fits v g \<Longrightarrow> x \<in> set (below_view (emb v) 1) \<Longrightarrow> x \<in> set (below_view (emb v) 0)"
  using max_nonneg [of v] by (auto simp: set_below_view fits_def)

lemma kept_filter:
  assumes fit: "fits v g" and core: "graph_core g"
    and K: "K = {lb_addr l |e l. e \<in> set (below_view (emb v) 0) \<and> lab_at g e = Some l \<and> isMemAccess (lb_kind l)}"
    and es: "\<And>e. e \<in> set es \<Longrightarrow> at_kind isMemAccess g e (\<lambda>l. lb_addr l = a)"
  shows "(if a \<in> K then filter (vc_has (emb v)) es else []) = filter (vc_has (emb v)) es"
proof (cases "a \<in> K")
  case False
  have "\<not> vc_has (emb v) e" if e: "e \<in> set es" for e
  proof
    assume h: "vc_has (emb v) e"
    from es [OF e] obtain l where l: "lab_at g e = Some l" "isMemAccess (lb_kind l)" "lb_addr l = a"
      by (auto simp: at_kind_def)
    have "valid e" using lab_at_pos [OF l(1)] by (simp add: valid_def containsPos_def)
    with has_max h fit have "index e \<le> vc_max (emb v) (nat (thread e))" by (simp add: fits_def)
    from below_mono [OF fit mem_below [OF fit core l(1,2) this]] l False show False unfolding K by blast
  qed
  then have "filter (vc_has (emb v)) es = []" by (simp add: filter_empty_conv)
  with False show ?thesis by simp
qed simp

text \<open>What is left of the graph after \<open>cut_to_view\<close>: the labels up to the maxima of the clock,
  without their pointers to labels outside the clock.\<close>

definition cut_result :: "'v \<Rightarrow> exec_graph \<Rightarrow> exec_graph \<Rightarrow> bool" where
  "cut_result v g h \<longleftrightarrow>
     (\<forall>x. containsPos h x \<longleftrightarrow> containsPos g x \<and> index x \<le> vc_max (emb v) (nat (thread x))) \<and>
     (\<forall>x l'. lab_at h x = Some l' \<longrightarrow> (\<exists>l. lab_at g x = Some l \<and>
        (vc_has (emb v) x \<longrightarrow> restricts (vc_has (emb v)) l l' \<and>
           (x \<noteq> event_init \<longrightarrow> l' = cut_pointers (vc_has (emb v)) l)))) \<and>
     (\<forall>a. co h a = filter (vc_has (emb v)) (co g a)) \<and> keys_ok h \<and>
     insertionOrder h = filter (vc_has (emb v)) (insertionOrder g) \<and>
     timestamp h = timestamp g \<and> recoveryTID h = recoveryTID g \<and> getNumThreads h = getNumThreads g"

lemma cut_to_view_result:
  assumes fit: "fits v g" and core: "graph_core g" and j0: "j0 \<le> 1" "j0 = 0 \<Longrightarrow> closed v"
  shows "\<exists>h. cut_to_view (emb v) j0 g = Inr h \<and> cut_result v g h"
proof -
  let ?V = "emb v" let ?has = "vc_has (emb v)"
  have inv: "inv v" using fit by (simp add: fits_def)
  from core_init [OF core] obtain il where il: "lab_at g event_init = Some il" "lb_kind il = Init"
    "map fst (lb_initRfs il) = map fst (coherence g)" .
  have d: "distinct (map fst (coherence g))" using core by (simp add: graph_core_def keys_ok_def)
  from removeAfter_effect [OF core _ il(1), of ?V, OF fits_below [of v g _ 0, OF fit]] obtain g1 K where
    rem: "removeAfter ?V g = Inr g1" and
    K: "K = {lb_addr l |e l. e \<in> set (below_view ?V 0) \<and> lab_at g e = Some l \<and> isMemAccess (lb_kind l)}" and
    g1: "\<And>x. lab_at g1 x = (if x = event_init then Some (il\<lparr>lb_initRfs := only_kept K ?has (lb_initRfs il)\<rparr>)
       else lab_at g x)" "coherence g1 = only_kept K ?has (coherence g)" "insertionOrder g1 = insertionOrder g"
       "timestamp g1 = timestamp g" "getNumThreads g1 = getNumThreads g" "getThreadSize g1 = getThreadSize g"
       "recoveryTID g1 = recoveryTID g" by blast
  let ?g2 = "g1\<lparr>insertionOrder := filter ?has (insertionOrder g1)\<rparr>"
  let ?es = "filter (\<lambda>e. j0 = 0 \<or> ?has e) (below_view ?V j0)"
  have "containsPos ?g2 e" if "e \<in> set ?es" for e
    using fits_below [OF fit, of e j0] that g1(5,6) by (simp add: containsPos_def)
  from restrict_labels_at [of ?es ?g2 ?has, OF this] obtain g3 where
    res: "restrict_labels ?has ?es ?g2 = Inr g3" and
    g3: "\<And>x. lab_at g3 x = (if x \<in> set ?es then map_option (cut_pointers ?has) (lab_at ?g2 x) else lab_at ?g2 x)"
    "coherence g3 = coherence ?g2" "insertionOrder g3 = insertionOrder ?g2" "timestamp g3 = timestamp ?g2"
    "getNumThreads g3 = getNumThreads ?g2" "getThreadSize g3 = getThreadSize ?g2"
    "recoveryTID g3 = recoveryTID ?g2" by blast
  have "0 \<le> vc_max ?V t \<and> vc_max ?V t < int (getThreadSize g3 t)" if "t < getNumThreads g3" for t
    using that fit max_nonneg [OF inv] g3(5,6) g1(5,6) by (simp add: fits_def)
  from erase_after_at [of g3 ?V, OF this] obtain h where er: "erase_after ?V g3 = Inr h" and
    h: "\<And>x. lab_at h x = (if index x \<le> vc_max ?V (nat (thread x)) then lab_at g3 x else None)"
    "coherence h = coherence g3" "insertionOrder h = insertionOrder g3" "timestamp h = timestamp g3"
    "getNumThreads h = getNumThreads g3" "recoveryTID h = recoveryTID g3" by blast
  have ret: "cut_to_view ?V j0 g = Inr h" using rem res er by (simp add: cut_to_view_def Let_def)
  have at: "lab_at h x = (if index x \<le> vc_max ?V (nat (thread x)) then
      (if x = event_init then Some (il\<lparr>lb_initRfs := only_kept K ?has (lb_initRfs il)\<rparr>)
       else if x \<in> set ?es then map_option (cut_pointers ?has) (lab_at g x) else lab_at g x) else None)" for x
  proof -
    have "cut_pointers ?has (il\<lparr>lb_initRfs := m\<rparr>) = il\<lparr>lb_initRfs := m\<rparr>" for m
      by (rule cut_pointers_start) (simp add: il(2))
    then show ?thesis
      unfolding h(1) g3(1) events_field_simps g1(1) by (cases "x = event_init") (simp_all del: set_filter)
  qed
  have i0: "index event_init \<le> vc_max ?V (nat (thread event_init))"
    using max_nonneg [OF inv] by (simp add: event_init_def)
  have pos: "containsPos h x \<longleftrightarrow> containsPos g x \<and> index x \<le> vc_max ?V (nat (thread x))" for x
    using at [of x] il(1) i0 by (auto simp: containsPos_lab)
  have co: "co h a = filter ?has (co g a)" for a
  proof -
    have "at_kind isMemAccess g w (\<lambda>l. lb_addr l = a)" if "w \<in> set (co g a)" for w
      using co_writes(2) [OF core that] kind_disjoint(4) by (auto simp: at_kind_def)
    from kept_filter [OF fit core K this] m_get_restrict [OF d, of K ?has a] show ?thesis
      by (simp add: co_def h(2) g3(2) g1(2))
  qed
  have old: "\<exists>l. lab_at g x = Some l \<and> lb_kind l' = lb_kind l \<and> lb_addr l' = lb_addr l \<and>
      index x \<le> vc_max ?V (nat (thread x)) \<and>
      (?has x \<longrightarrow> restricts ?has l l' \<and> (x \<noteq> event_init \<longrightarrow> l' = cut_pointers ?has l))" if x: "lab_at h x = Some l'" for x l'
  proof (cases "x = event_init")
    case True
    have "restricts ?has il (il\<lparr>lb_initRfs := only_kept K ?has (lb_initRfs il)\<rparr>)"
    proof -
      have "m_get (only_kept K ?has (lb_initRfs il)) a = filter ?has (m_get (lb_initRfs il) a)" for a
      proof -
        have "at_kind isMemAccess g r (\<lambda>l. lb_addr l = a)" if "r \<in> set (m_get (lb_initRfs il) a)" for r
        proof -
          have "r \<in> set (readers_of g event_init a)" using that il(1,2) by (simp add: readers_of_def)
          from rf_ok_back [OF core this] kind_disjoint(3) show ?thesis by (auto simp: at_kind_def)
        qed
        from kept_filter [OF fit core K this] m_get_restrict [of "lb_initRfs il" K ?has a] d il(3)
        show ?thesis by simp
      qed
      with il(2) show ?thesis by (simp add: restricts_def)
    qed
    with True x at [of x] il(1) i0 show ?thesis by simp
  next
    case False
    from x at [of x] have ix: "index x \<le> vc_max ?V (nat (thread x))" by (auto split: if_splits)
    from x at [of x] False obtain l where l: "lab_at g x = Some l" by (auto split: if_splits)
    have l': "l' = (if x \<in> set ?es then cut_pointers ?has l else l)" using x at [of x] False l ix by (auto split: if_splits)
    have k: "lb_kind l \<noteq> Init" using core_init_only [OF core l] False by blast
    have addr: "lb_addr (cut_pointers ?has l) = lb_addr l"
      using k cut_pointers_restricts [OF k, of ?has] by (simp add: restricts_def)
    have "l' = cut_pointers ?has l" if hx: "?has x"
    proof (cases "x \<in> set ?es")
      case True
      then show ?thesis unfolding l' by (rule if_P)
    next
      case out: False
      have "cut_pointers ?has l = l"
      proof (cases "index x = 0")
        case True
        then have "x = Event (thread x) 0" by (simp add: event.expand)
        with core l have "isThreadStart (lb_kind l)" unfolding graph_core_def start_ok_def by metis
        then show ?thesis by (rule cut_pointers_start)
      next
        case False
        have x0: "0 \<le> thread x" "0 \<le> index x" using lab_at_pos [OF l] by (simp_all add: containsPos_def)
        with False beyond [OF inv, of "nat (thread x)"] ix have "nat (thread x) < vc_size ?V" by linarith
        with x0 False ix j0(1) max_nonneg [OF inv] have "x \<in> set (below_view ?V j0)" by (simp add: set_below_view)
        with out hx show ?thesis by simp
      qed
      moreover have "l' = l" unfolding l' using out by (rule if_not_P)
      ultimately show ?thesis by simp
    qed
    with l l' ix addr cut_pointers_restricts [OF k, of ?has] show ?thesis by auto
  qed
  have "keys_ok h"
  proof (rule keys_okI)
    show "lab_at h event_init = Some (il\<lparr>lb_initRfs := only_kept K ?has (lb_initRfs il)\<rparr>)" using at i0 by simp
    show "map fst (lb_initRfs (il\<lparr>lb_initRfs := only_kept K ?has (lb_initRfs il)\<rparr>)) = map fst (coherence h)"
      using il(3) h(2) g3(2) g1(2) by (simp add: map_fst_restrict)
    show "distinct (map fst (coherence h))" using d h(2) g3(2) g1(2) by (simp add: map_fst_restrict)
  next
    fix e l' assume e: "lab_at h e = Some l'" "isMemAccess (lb_kind l')"
    from old [OF e(1)] e(2) obtain l where l: "lab_at g e = Some l" "isMemAccess (lb_kind l)" "lb_addr l' = lb_addr l"
      "index e \<le> vc_max ?V (nat (thread e))" by auto
    have "lb_addr l \<in> K" unfolding K using below_mono [OF fit mem_below [OF fit core l(1,2,4)]] l(1,2) by blast
    moreover have "lb_addr l \<in> set (map fst (coherence g))"
      using core l(1,2) unfolding graph_core_def keys_ok_def by auto
    ultimately have "lb_addr l \<in> set (map fst (coherence h))" by (simp add: h(2) g3(2) g1(2) map_fst_restrict)
    with l(3) show "lb_addr l' \<in> fst ` set (coherence h)" by simp
  qed
  moreover have "insertionOrder h = filter ?has (insertionOrder g)" "timestamp h = timestamp g"
    "recoveryTID h = recoveryTID g" "getNumThreads h = getNumThreads g"
    using h g3 g1 by simp_all
  ultimately have "cut_result v g h" unfolding cut_result_def using pos old co by blast
  with ret show ?thesis by blast
qed

end

end
