(* ===== verification/Graph_Cut_Facts.thy ===== *)
theory Graph_Cut_Facts
  imports Graph_Cuts
begin

text \<open>
  The clocks of a cut: \<open>View\<close> and \<open>DepView\<close> provide the interface of \<open>Graph_Cuts\<close>, and
  \<open>getViewFromStamp\<close> computes a clock that fits the graph.
\<close>

section \<open>Views\<close>

lemma vc_has_view: "valid e \<Longrightarrow> vc_has (VC_View v) e \<longleftrightarrow> index e \<le> vmax v (nat (thread e))"
  by (simp add: vc_has_def)

lemma vc_max_view [simp]: "vc_max (VC_View v) t = vmax v t"
  by (simp add: vc_max_def)

interpretation view_cut: cut_clock VC_View view_inv
proof unfold_locales
  fix v and e :: event assume "view_inv v" and e: "valid e"
  show "\<exists>b. vc_contains (VC_View v) e = Inr b" using e by simp
  show "vc_has (VC_View v) e \<Longrightarrow> index e \<le> vc_max (VC_View v) (nat (thread e))" using e by (simp add: vc_has_view)
next
  fix v t assume v: "view_inv v"
  show "vc_getMax (VC_View v) (int t) = Inr (vc_max (VC_View v) t)" by simp
  show "0 \<le> vc_max (VC_View v) t" using v by (simp add: view_inv_vmax)
  show "vc_has (VC_View v) (Event (int t) 0)" using v by (simp add: vc_has_view valid_def view_inv_vmax)
  show "vc_size (VC_View v) \<le> t \<Longrightarrow> vc_max (VC_View v) t = 0" by (simp add: nth_default_def)
qed

lemma view_closed: "view_cut.closed v"
  by (simp add: view_cut.closed_def vc_has_view)

section \<open>Dependency views\<close>

lemma vc_has_dep: "dv_inv d \<Longrightarrow> valid e \<Longrightarrow> vc_has (VC_DepView d) e \<longleftrightarrow> dv_has d e"
  by (simp add: vc_has_def dv_contains_iff)

lemma vc_max_dep [simp]: "vc_max (VC_DepView d) t = vmax (dview d) t"
  by (simp add: vc_max_def dv_getMax_def)

interpretation dep_cut: cut_clock VC_DepView dv_inv
proof unfold_locales
  fix d and e :: event assume d: "dv_inv d" and e: "valid e"
  show "\<exists>b. vc_contains (VC_DepView d) e = Inr b" using d e by (simp add: dv_contains_iff)
  show "vc_has (VC_DepView d) e \<Longrightarrow> index e \<le> vc_max (VC_DepView d) (nat (thread e))"
    using d e by (simp add: vc_has_dep dv_has_def)
next
  fix d t assume d: "dv_inv d"
  show "vc_getMax (VC_DepView d) (int t) = Inr (vc_max (VC_DepView d) t)" by (simp add: dv_getMax_def)
  show "0 \<le> vc_max (VC_DepView d) t" using dv_invD(6) [OF d] by simp
  show "vc_has (VC_DepView d) (Event (int t) 0)"
    using d dv_invD(6) [OF d] by (simp add: vc_has_dep valid_def dv_has_def)
  show "vc_size (VC_DepView d) \<le> t \<Longrightarrow> vc_max (VC_DepView d) t = 0" by (simp add: nth_default_def)
qed

section \<open>The view of a stamp\<close>

lemma last_upto_spec:
  "case last_upto g st i n of
     Some e \<Rightarrow> \<exists>j<n. e = Event (int i) (int j) \<and> stamp_of g e \<le> st \<and>
                 (\<forall>k. j < k \<and> k < n \<longrightarrow> \<not> stamp_of g (Event (int i) (int k)) \<le> st)
   | None \<Rightarrow> \<forall>k<n. \<not> stamp_of g (Event (int i) (int k)) \<le> st"
  by (induction n) (auto simp: less_Suc_eq split: option.splits)

definition upto_max :: "exec_graph \<Rightarrow> stamp \<Rightarrow> nat \<Rightarrow> int" where
  "upto_max g st i = (case last_upto g st i (getThreadSize g i) of Some e \<Rightarrow> index e | None \<Rightarrow> 0)"

lemma view_setMax_inv: "view_inv v \<Longrightarrow> 0 \<le> x \<Longrightarrow> view_inv (view_put v t x)"
  by (simp add: view_inv_vmax)

lemma getViewFromStamp_eq:
  "\<exists>v. getViewFromStamp st g = Inr (VC_View v) \<and> view_inv v \<and> length v \<le> getNumThreads g \<and>
     (\<forall>t. vmax v t = (if t < getNumThreads g then upto_max g st t else 0))"
proof -
  let ?f = "\<lambda>i v. case last_upto g st i (getThreadSize g i) of Some e \<Rightarrow> view_setMax v e | None \<Rightarrow> Inr v"
  have "\<exists>v. foldR ?f [0..<n] [] = Inr v \<and> view_inv v \<and> length v \<le> n \<and>
     (\<forall>t. vmax v t = (if t < n then upto_max g st t else 0))" for n
  proof (induction n)
    case 0
    then show ?case by simp
  next
    case (Suc n)
    then obtain v where v: "foldR ?f [0..<n] [] = Inr v" "view_inv v" "length v \<le> n"
      "\<And>t. vmax v t = (if t < n then upto_max g st t else 0)" by blast
    show ?case
    proof (cases "last_upto g st n (getThreadSize g n)")
      case None
      with v show ?thesis by (auto simp: foldR_append upto_max_def less_Suc_eq)
    next
      case (Some e)
      with last_upto_spec [where g = g and st = st and i = "n" and n = "getThreadSize g (n)"] obtain j where e: "e = Event (int n) (int j)" by auto
      have "foldR ?f [0..<Suc n] [] = Inr (view_put v n (int j))" using v(1) Some e by (simp add: foldR_append)
      moreover have "upto_max g st n = int j" using Some e by (simp add: upto_max_def)
      ultimately show ?thesis using v by (auto simp: view_setMax_inv less_Suc_eq)
    qed
  qed
  from this [of "getNumThreads g"] show ?thesis by (auto simp: getViewFromStamp_def)
qed

text \<open>The positions a cut at \<open>st\<close> keeps: the start of each thread, and every position up to the
  last one of its thread with a stamp up to \<open>st\<close>.\<close>

definition kept_at :: "exec_graph \<Rightarrow> stamp \<Rightarrow> event \<Rightarrow> bool" where
  "kept_at g st x \<longleftrightarrow> index x = 0 \<or>
     (\<exists>j. index x \<le> j \<and> containsPos g (Event (thread x) j) \<and> stamp_of g (Event (thread x) j) \<le> st)"

lemma upto_max_kept:
  assumes "containsPos g x"
  shows "index x \<le> upto_max g st (nat (thread x)) \<longleftrightarrow> kept_at g st x"
proof -
  let ?t = "nat (thread x)"
  have t: "Event (int ?t) (int j) = Event (thread x) (int j)" for j using assms by (simp add: containsPos_def)
  have pos: "containsPos g (Event (thread x) k) \<longleftrightarrow> 0 \<le> k \<and> nat k < getThreadSize g ?t" for k
    using assms by (auto simp: containsPos_def)
  note spec = last_upto_spec [where g = g and st = st and i = "?t" and n = "getThreadSize g (?t)", unfolded t]
  show ?thesis
  proof (cases "last_upto g st ?t (getThreadSize g ?t)")
    case None
    with spec have "\<not> stamp_of g (Event (thread x) k) \<le> st" if "containsPos g (Event (thread x) k)" for k
    proof -
      from that pos [of k] have k: "0 \<le> k" "nat k < getThreadSize g ?t" by simp_all
      from spec None have "\<forall>k<getThreadSize g ?t. \<not> stamp_of g (Event (thread x) (int k)) \<le> st" by simp
      from this [rule_format, OF k(2)] k(1) show ?thesis by simp
    qed
    moreover have "0 \<le> index x" using assms by (simp add: containsPos_def)
    ultimately show ?thesis using None by (auto simp: upto_max_def kept_at_def)
  next
    case (Some e)
    with spec obtain j where j: "j < getThreadSize g ?t" "e = Event (thread x) (int j)" "stamp_of g e \<le> st"
      "\<And>k. j < k \<Longrightarrow> k < getThreadSize g ?t \<Longrightarrow> \<not> stamp_of g (Event (thread x) (int k)) \<le> st" by auto
    have "upto_max g st ?t = int j" using Some j(2) by (simp add: upto_max_def)
    moreover have "kept_at g st x \<longleftrightarrow> index x \<le> int j"
    proof
      assume "index x \<le> int j"
      with j pos [of "int j"] show "kept_at g st x" unfolding kept_at_def by auto
    next
      assume "kept_at g st x"
      then consider "index x = 0" | k where "index x \<le> k" "containsPos g (Event (thread x) k)"
        "stamp_of g (Event (thread x) k) \<le> st" unfolding kept_at_def by blast
      then show "index x \<le> int j"
      proof cases
        case 2
        with pos [of k] have k: "0 \<le> k" "nat k < getThreadSize g ?t" by simp_all
        with 2(3) j(4) [of "nat k"] have "nat k \<le> j" by (metis int_nat_eq not_le)
        with k 2(1) show ?thesis by linarith
      qed simp
    qed
    ultimately show ?thesis by simp
  qed
qed

lemma getViewFromStamp_fits:
  assumes "threads_ok g"
  shows "\<exists>v. getViewFromStamp st g = Inr (VC_View v) \<and> view_cut.fits v g \<and>
    (\<forall>x. containsPos g x \<longrightarrow> (vc_has (VC_View v) x \<longleftrightarrow> kept_at g st x))"
proof -
  from getViewFromStamp_eq [of st g] obtain v where v: "getViewFromStamp st g = Inr (VC_View v)" "view_inv v"
    "length v \<le> getNumThreads g" "\<And>t. vmax v t = (if t < getNumThreads g then upto_max g st t else 0)" by blast
  have "upto_max g st t < int (getThreadSize g t)" if "t < getNumThreads g" for t
    using last_upto_spec [where g = g and st = st and i = "t" and n = "getThreadSize g (t)"] assms that
    by (auto simp: upto_max_def threads_ok_def split: option.splits)
  with v have "view_cut.fits v g" by (simp add: view_cut.fits_def)
  moreover have "vc_has (VC_View v) x \<longleftrightarrow> kept_at g st x" if x: "containsPos g x" for x
    using x v(4) upto_max_kept [OF x, of st] by (simp add: vc_has_view valid_def containsPos_def)
  ultimately show ?thesis using v(1) by blast
qed

section \<open>Cutting\<close>

lemma cut_result_ok:
  assumes cut: "view_cut.cut_result v g h" and fit: "view_cut.fits v g" and g: "graph_ok g"
  shows "graph_ok h \<and> restricted (vc_has (VC_View v)) g h \<and>
    (\<forall>x. containsPos h x \<longleftrightarrow> containsPos g x \<and> vc_has (VC_View v) x)"
proof -
  let ?has = "vc_has (VC_View v)"
  have core: "graph_core g" and th: "threads_ok g" using g by (simp_all add: graph_ok_def)
  have inv: "view_inv v" using fit by (simp add: view_cut.fits_def)
  have pos: "containsPos h x \<longleftrightarrow> containsPos g x \<and> ?has x" for x
  proof (cases "containsPos g x")
    case True
    then have "valid x" by (simp add: valid_def containsPos_def)
    with True cut show ?thesis by (simp add: view_cut.cut_result_def vc_has_view)
  next
    case False
    with cut show ?thesis by (simp add: view_cut.cut_result_def)
  qed
  have at: "\<exists>l. lab_at g x = Some l \<and> restricts ?has l l'" if "lab_at h x = Some l'" for x l'
    using cut that pos [of x] lab_at_pos [OF that] unfolding view_cut.cut_result_def by blast
  have r: "restricted ?has g h"
    unfolding restricted_def
  proof (intro conjI allI impI)
    fix x l assume "lab_at g x = Some l \<and> ?has x"
    then obtain l' where l': "lab_at h x = Some l'" using pos [of x] lab_at_pos by (auto simp: containsPos_lab)
    with at [OF l'] \<open>lab_at g x = Some l \<and> ?has x\<close> show "\<exists>l'. lab_at h x = Some l' \<and> restricts ?has l l'" by auto
  next
    fix x l' assume l': "lab_at h x = Some l'"
    with at [OF l'] pos [of x] lab_at_pos [OF l']
    show "is_hole x l' \<or> ?has x \<and> (\<exists>l. lab_at g x = Some l \<and> restricts ?has l l')" by blast
  qed
  have "graph_core h"
  proof (rule restrict_core [OF core r])
    fix t assume "containsPos g (Event t 0)"
    then show "?has (Event t 0)" using view_cut.has_start [OF inv, of "nat t"] by (simp add: containsPos_def)
  next
    fix t l assume l: "lab_at h (Event t 0) = Some l"
    from at [OF l] obtain l0 where "lab_at g (Event t 0) = Some l0" "restricts ?has l0 l" by blast
    with core have "isThreadStart (lb_kind l)" unfolding graph_core_def start_ok_def by (metis restricts_kind)
    then show "lb_kind l \<noteq> Empty" using kind_consts(14) by metis
  next
    fix a show "co h a = filter ?has (co g a)" "keys_ok h" using cut by (simp_all add: view_cut.cut_result_def)
  next
    have "insertionOrder h = filter ?has (insertionOrder g)" using cut by (simp add: view_cut.cut_result_def)
    with core pos show "order_ok h" by (auto simp: graph_core_def order_ok_def)
  qed
  moreover have "threads_ok h"
    unfolding threads_ok_def
  proof (intro allI impI)
    fix t assume "t < getNumThreads h"
    then have "containsPos g (Event (int t) 0)"
      using cut th by (simp add: view_cut.cut_result_def threads_ok_def containsPos_Event)
    with pos view_cut.has_start [OF inv, of t] have "containsPos h (Event (int t) 0)" by simp
    then show "0 < getThreadSize h t" by (simp add: containsPos_Event)
  qed
  ultimately show ?thesis using r pos by (simp add: graph_ok_def)
qed

text \<open>\<open>cutToStamp\<close> leaves the restriction of the graph to what the stamp keeps.\<close>

lemma cutToStamp_result:
  assumes g: "graph_ok g"
  shows "\<exists>h v. cutToStamp st g = Inr h \<and> getViewFromStamp st g = Inr (VC_View v) \<and> view_cut.fits v g \<and>
    view_cut.cut_result v g h \<and> graph_ok h \<and> restricted (vc_has (VC_View v)) g h \<and>
    (\<forall>x. containsPos g x \<longrightarrow> (vc_has (VC_View v) x \<longleftrightarrow> kept_at g st x)) \<and>
    (\<forall>x. containsPos h x \<longleftrightarrow> containsPos g x \<and> kept_at g st x)"
proof -
  from g have th: "threads_ok g" and core: "graph_core g" by (simp_all add: graph_ok_def)
  from getViewFromStamp_fits [OF th, of st] obtain v where v: "getViewFromStamp st g = Inr (VC_View v)"
    "view_cut.fits v g" "\<forall>x. containsPos g x \<longrightarrow> (vc_has (VC_View v) x \<longleftrightarrow> kept_at g st x)" by blast
  from view_cut.cut_to_view_result [OF v(2) core, of 0] view_closed obtain h where
    h: "cut_to_view (VC_View v) 0 g = Inr h" "view_cut.cut_result v g h" by auto
  from cut_result_ok [OF h(2) v(2) g] v h show ?thesis
    by (intro exI [of _ h] exI [of _ v]) (auto simp: cutToStamp_def)
qed

section \<open>Cutting a dependency-tracking graph\<close>

lemma positions_mem: "e \<in> set (positions g) \<longleftrightarrow> containsPos g e"
proof -
  have "e \<in> set (positions g) \<longleftrightarrow> (\<exists>i<getNumThreads g. \<exists>j<getThreadSize g i. e = Event (int i) (int j))"
    by (auto simp: positions_def image_iff Bex_def)
  also have "\<dots> \<longleftrightarrow> containsPos g e"
    using containsPos_valid [of g e] by (auto simp: containsPos_nat)
  finally show ?thesis .
qed

lemma positions_sorted: "sorted_wrt (\<lambda>a b. thread a = thread b \<longrightarrow> index a < index b) (positions g)"
proof -
  have "sorted_wrt (\<lambda>a b. thread a = thread b \<longrightarrow> index a < index b)
      (concat (map (\<lambda>i. map (\<lambda>j. Event (int i) (int j)) [0..<f i]) [0..<n]))" for f n
    by (induction n) (auto simp: sorted_wrt_append sorted_wrt_map intro!: sorted_wrt_mono_rel [OF _ sorted_wrt_upt])
  then show ?thesis by (simp add: positions_def)
qed

lemma sorted_wrt_irrefl_distinct: "sorted_wrt R xs \<Longrightarrow> (\<And>x. \<not> R x x) \<Longrightarrow> distinct xs"
  by (induction xs) auto

lemma positions_distinct: "distinct (positions g)"
  using positions_sorted by (rule sorted_wrt_irrefl_distinct) simp

definition dep_selected :: "exec_graph \<Rightarrow> stamp \<Rightarrow> event \<Rightarrow> bool" where
  "dep_selected g st e \<longleftrightarrow> index e \<ge> 1 \<and> stamp_of g e \<le> st"

lemma dep_view_loop:
  assumes "sorted_wrt (\<lambda>a b. thread a = thread b \<longrightarrow> index a < index b) es" "\<And>e. e \<in> set es \<Longrightarrow> containsPos g e"
  shows "\<exists>d. foldR (\<lambda>e v. if index e \<ge> 1 \<and> stamp_of g e \<le> st then dv_setMax v e else Inr v) es dv_empty = Inr d \<and>
    dv_inv d \<and> (\<forall>f. valid f \<longrightarrow> (dv_has d f \<longleftrightarrow> index f = 0 \<or> f \<in> set es \<and> dep_selected g st f)) \<and>
    length (dview d) \<le> getNumThreads g \<and>
    (\<forall>t. vmax (dview d) t = 0 \<or> (containsPos g (Event (int t) (vmax (dview d) t)) \<and>
       stamp_of g (Event (int t) (vmax (dview d) t)) \<le> st))"
  using assms
proof (induction es rule: rev_induct)
  case Nil
  have "dv_inv dv_empty" by (simp add: dv_inv_def dv_empty_def vset_inv_def)
  moreover have "valid f \<Longrightarrow> dv_has dv_empty f \<longleftrightarrow> index f = 0" for f
    by (auto simp: dv_has_def dv_empty_def valid_def)
  ultimately show ?case by (simp add: dv_empty_def)
next
  case (snoc e es)
  let ?f = "\<lambda>e v. if index e \<ge> 1 \<and> stamp_of g e \<le> st then dv_setMax v e else Inr v"
  have before: "thread a = thread e \<Longrightarrow> index a < index e" if "a \<in> set es" for a
    using snoc.prems(1) that by (simp add: sorted_wrt_append)
  from snoc obtain d where d: "foldR ?f es dv_empty = Inr d" "dv_inv d"
    "\<And>f. valid f \<Longrightarrow> dv_has d f \<longleftrightarrow> index f = 0 \<or> f \<in> set es \<and> dep_selected g st f"
    "length (dview d) \<le> getNumThreads g"
    "\<And>t. vmax (dview d) t = 0 \<or> (containsPos g (Event (int t) (vmax (dview d) t)) \<and>
       stamp_of g (Event (int t) (vmax (dview d) t)) \<le> st)"
    by (auto simp: sorted_wrt_append)
  have c: "containsPos g e" using snoc.prems(2) by simp
  then have ve: "valid e" by (simp add: valid_def containsPos_def)
  show ?case
  proof (cases "dep_selected g st e")
    case False
    then have "\<not> (1 \<le> index e \<and> stamp_of g e \<le> st)" by (simp add: dep_selected_def)
    then have "foldR ?f (es @ [e]) dv_empty = Inr d" using d(1) by (auto simp: foldR_append)
    then show ?thesis using d(2-5) False by (intro exI [of _ d]) auto
  next
    case True
    from dv_setMax_has [OF d(2) ve] obtain d' where d': "dv_setMax d e = Inr d'" "dv_inv d'"
      "dview d' = view_put (dview d) (nat (thread e)) (index e)"
      "\<And>f. valid f \<Longrightarrow> dv_has d' f \<longleftrightarrow> f = e \<or> dv_has d f \<and> (thread f = thread e \<longrightarrow> index f \<le> index e)" by blast
    have "foldR ?f (es @ [e]) dv_empty = Inr d'" using d(1) d'(1) True by (simp add: foldR_append dep_selected_def)
    moreover have "dv_has d' f \<longleftrightarrow> index f = 0 \<or> f \<in> set (es @ [e]) \<and> dep_selected g st f" if f: "valid f" for f
    proof -
      have "index f = 0 \<Longrightarrow> index f \<le> index e" using ve by (simp add: valid_def)
      then show ?thesis using d'(4) [OF f] d(3) [OF f] before [of f] True by auto
    qed
    moreover have "length (dview d') \<le> getNumThreads g"
      using d(4) c unfolding d'(3) by (simp add: containsPos_def)
    moreover have "vmax (dview d') t = 0 \<or> (containsPos g (Event (int t) (vmax (dview d') t)) \<and>
        stamp_of g (Event (int t) (vmax (dview d') t)) \<le> st)" for t
    proof (cases "t = nat (thread e)")
      case t: True
      have "Event (int t) (index e) = e" using ve t by (simp add: valid_def event.expand)
      with t c True show ?thesis unfolding d'(3) by (simp add: dep_selected_def)
    next
      case False
      then show ?thesis using d(5) [of t] unfolding d'(3) by simp
    qed
    ultimately show ?thesis using d'(2) by blast
  qed
qed

lemma dep_getViewFromStamp_fits:
  assumes th: "threads_ok g"
  shows "\<exists>d. dep_getViewFromStamp st g = Inr (VC_DepView d) \<and> dep_cut.fits d g \<and>
    (\<forall>x. containsPos g x \<longrightarrow> (vc_has (VC_DepView d) x \<longleftrightarrow> index x = 0 \<or> stamp_of g x \<le> st)) \<and>
    (\<forall>x. containsPos g x \<longrightarrow> (index x \<le> vmax (dview d) (nat (thread x)) \<longleftrightarrow> kept_at g st x))"
proof -
  from dep_view_loop [OF positions_sorted, of g g st] obtain d where
    d: "dep_getViewFromStamp st g = Inr (VC_DepView d)" "dv_inv d"
    "\<And>f. valid f \<Longrightarrow> dv_has d f \<longleftrightarrow> index f = 0 \<or> f \<in> set (positions g) \<and> dep_selected g st f"
    "length (dview d) \<le> getNumThreads g"
    "\<And>t. vmax (dview d) t = 0 \<or> (containsPos g (Event (int t) (vmax (dview d) t)) \<and>
       stamp_of g (Event (int t) (vmax (dview d) t)) \<le> st)"
    by (auto simp: dep_getViewFromStamp_def positions_mem)
  have "vmax (dview d) t < int (getThreadSize g t)" if "t < getNumThreads g" for t
    using d(5) [of t] that th by (auto simp: threads_ok_def containsPos_Event)
  with d have "dep_cut.fits d g" by (simp add: dep_cut.fits_def)
  moreover have "vc_has (VC_DepView d) x \<longleftrightarrow> index x = 0 \<or> stamp_of g x \<le> st" if x: "containsPos g x" for x
  proof -
    have v: "valid x" using x by (simp add: valid_def containsPos_def)
    with d(3) [OF v] x d(2) show ?thesis
      by (auto simp: vc_has_dep positions_mem dep_selected_def valid_def)
  qed
  moreover have "index x \<le> vmax (dview d) (nat (thread x)) \<longleftrightarrow> kept_at g st x" if x: "containsPos g x" for x
  proof
    have v: "valid x" and t: "Event (int (nat (thread x))) j = Event (thread x) j" for j
      using x by (simp_all add: valid_def containsPos_def)
    assume le: "index x \<le> vmax (dview d) (nat (thread x))"
    show "kept_at g st x"
    proof (cases "vmax (dview d) (nat (thread x)) = 0")
      case True
      with le v show ?thesis by (simp add: kept_at_def valid_def)
    next
      case False
      with d(5) [of "nat (thread x)"] le show ?thesis unfolding t kept_at_def by blast
    qed
  next
    have v: "valid x" using x by (simp add: valid_def containsPos_def)
    assume "kept_at g st x"
    then consider "index x = 0" | j where "index x \<le> j" "containsPos g (Event (thread x) j)"
      "stamp_of g (Event (thread x) j) \<le> st" unfolding kept_at_def by blast
    then show "index x \<le> vmax (dview d) (nat (thread x))"
    proof cases
      case 1
      then show ?thesis using dv_invD(6) [OF d(2)] by simp
    next
      case 2
      let ?e = "Event (thread x) j"
      have ve: "valid ?e" using 2(2) by (simp add: valid_def containsPos_def)
      have "dv_has d ?e"
        using d(3) [OF ve] 2 ve by (auto simp: positions_mem dep_selected_def valid_def)
      then have "j \<le> vmax (dview d) (nat (thread x))" by (simp add: dv_has_def)
      with 2(1) show ?thesis by linarith
    qed
  qed
  ultimately show ?thesis using d(1) by blast
qed

lemma put_hole_at:
  assumes "containsPos g e"
  shows "lab_at (put_hole e g) x = (if x = e then Some ((createHoleLabel e)\<lparr>lb_stamp := Some (timestamp g)\<rparr>) else lab_at g x)"
    "coherence (put_hole e g) = coherence g" "insertionOrder (put_hole e g) = insertionOrder g @ [e]"
    "getNumThreads (put_hole e g) = getNumThreads g"
  using assms by (simp_all add: put_hole_def nextStamp_def Let_def lab_at_put)

lemma put_holes_at:
  assumes "\<And>e. e \<in> set es \<Longrightarrow> containsPos g e" "distinct es"
  shows "\<forall>x. if x \<in> set es then \<exists>l. lab_at (fold put_hole es g) x = Some l \<and> is_hole x l
      else lab_at (fold put_hole es g) x = lab_at g x"
    and "coherence (fold put_hole es g) = coherence g \<and>
      insertionOrder (fold put_hole es g) = insertionOrder g @ es \<and>
      getNumThreads (fold put_hole es g) = getNumThreads g"
proof -
  have "(\<forall>x. if x \<in> set es then \<exists>l. lab_at (fold put_hole es g) x = Some l \<and> is_hole x l
      else lab_at (fold put_hole es g) x = lab_at g x) \<and> coherence (fold put_hole es g) = coherence g \<and>
      insertionOrder (fold put_hole es g) = insertionOrder g @ es \<and>
      getNumThreads (fold put_hole es g) = getNumThreads g"
    using assms
  proof (induction es arbitrary: g)
    case Nil
    then show ?case by simp
  next
    case (Cons e es)
    have e: "containsPos g e" using Cons.prems(1) by simp
    let ?g = "put_hole e g"
    have at: "lab_at ?g x = (if x = e then Some ((createHoleLabel e)\<lparr>lb_stamp := Some (timestamp g)\<rparr>) else lab_at g x)" for x
      by (rule put_hole_at(1) [OF e])
    have "containsPos ?g x" if "x \<in> set es" for x
      using Cons.prems(1) [of x] that at [of x] by (auto simp: containsPos_lab)
    from Cons.IH [OF this] Cons.prems(2) have IH:
      "\<And>x. if x \<in> set es then \<exists>l. lab_at (fold put_hole es ?g) x = Some l \<and> is_hole x l
        else lab_at (fold put_hole es ?g) x = lab_at ?g x"
      "coherence (fold put_hole es ?g) = coherence ?g" "insertionOrder (fold put_hole es ?g) = insertionOrder ?g @ es"
      "getNumThreads (fold put_hole es ?g) = getNumThreads ?g" by auto
    have "is_hole e ((createHoleLabel e)\<lparr>lb_stamp := Some (timestamp g)\<rparr>)"
      by (simp add: is_hole_def createHoleLabel_def new_label_def)
    moreover have "e \<notin> set es" using Cons.prems(2) by simp
    ultimately have "if x \<in> set (e # es) then \<exists>l. lab_at (fold put_hole es ?g) x = Some l \<and> is_hole x l
      else lab_at (fold put_hole es ?g) x = lab_at g x" for x
      using IH(1) [of x] at [of x] by (cases "x = e") (auto split: if_splits)
    with IH(2-4) put_hole_at [OF e] show ?case by simp
  qed
  then show "\<forall>x. if x \<in> set es then \<exists>l. lab_at (fold put_hole es g) x = Some l \<and> is_hole x l
      else lab_at (fold put_hole es g) x = lab_at g x"
    and "coherence (fold put_hole es g) = coherence g \<and>
      insertionOrder (fold put_hole es g) = insertionOrder g @ es \<and>
      getNumThreads (fold put_hole es g) = getNumThreads g" by blast+
qed

lemma dep_cutToStamp_result:
  assumes g: "graph_ok g"
  shows "\<exists>h d. dep_cutToStamp st g = Inr h \<and> dep_getViewFromStamp st g = Inr (VC_DepView d) \<and> graph_ok h \<and>
    restricted (vc_has (VC_DepView d)) g h \<and>
    (\<forall>x. containsPos g x \<longrightarrow> (vc_has (VC_DepView d) x \<longleftrightarrow> index x = 0 \<or> stamp_of g x \<le> st)) \<and>
    (\<forall>x. containsPos h x \<longleftrightarrow> containsPos g x \<and> kept_at g st x) \<and>
    (\<forall>x l. lab_at h x = Some l \<longrightarrow> (is_hole x l \<longleftrightarrow>
       \<not> vc_has (VC_DepView d) x \<or> (\<exists>l0. lab_at g x = Some l0 \<and> lb_kind l0 = Empty)))"
proof -
  from g have th: "threads_ok g" and core: "graph_core g" by (simp_all add: graph_ok_def)
  from dep_getViewFromStamp_fits [OF th, of st] obtain d where d: "dep_getViewFromStamp st g = Inr (VC_DepView d)"
    "dep_cut.fits d g" and has: "\<And>x. containsPos g x \<Longrightarrow> vc_has (VC_DepView d) x \<longleftrightarrow> index x = 0 \<or> stamp_of g x \<le> st"
    and top: "\<And>x. containsPos g x \<Longrightarrow> index x \<le> vmax (dview d) (nat (thread x)) \<longleftrightarrow> kept_at g st x" by blast
  let ?has = "vc_has (VC_DepView d)"
  have inv: "dv_inv d" using d(2) by (simp add: dep_cut.fits_def)
  from dep_cut.cut_to_view_result [OF d(2) core, of 1] obtain g1 where
    g1: "cut_to_view (VC_DepView d) 1 g = Inr g1" "dep_cut.cut_result d g g1" by auto
  let ?es = "filter (\<lambda>e. \<not> ?has e) (positions g1)" let ?h = "fold put_hole ?es g1"
  have ret: "dep_cutToStamp st g = Inr ?h" using d(1) g1(1) by (simp add: dep_cutToStamp_def)
  have es: "e \<in> set ?es \<Longrightarrow> containsPos g1 e" for e by (simp add: positions_mem)
  have "distinct ?es" using positions_distinct by simp
  note holes = put_holes_at [of ?es g1, OF es this]
  have at: "if containsPos g1 x \<and> \<not> ?has x then \<exists>l. lab_at ?h x = Some l \<and> is_hole x l
      else lab_at ?h x = lab_at g1 x" for x
    using holes(1) [rule_format, of x] unfolding set_filter mem_Collect_eq positions_mem .
  have pos: "containsPos ?h x \<longleftrightarrow> containsPos g x \<and> kept_at g st x" for x
  proof -
    have "containsPos ?h x \<longleftrightarrow> containsPos g1 x" using at [of x] by (auto simp: containsPos_lab split: if_splits)
    with g1(2) top [of x] show ?thesis by (auto simp: dep_cut.cut_result_def)
  qed
  have old: "\<exists>l. lab_at g x = Some l \<and> restricts ?has l l'" if "lab_at g1 x = Some l'" "?has x" for x l'
    using g1(2) that unfolding dep_cut.cut_result_def by blast
  have in1: "containsPos g1 x" if x: "containsPos g x" "?has x" for x
  proof -
    have "valid x" using x(1) by (simp add: valid_def containsPos_def)
    from dep_cut.has_max [OF inv this x(2)] x(1) g1(2) show ?thesis by (simp add: dep_cut.cut_result_def)
  qed
  have r: "restricted ?has g ?h"
    unfolding restricted_def
  proof (intro conjI allI impI)
    fix x l assume x: "lab_at g x = Some l \<and> ?has x"
    then have "containsPos g1 x" using in1 lab_at_pos by blast
    then obtain l' where l': "lab_at g1 x = Some l'" by (auto simp: containsPos_lab)
    with old [OF l'] x at [of x] show "\<exists>l'. lab_at ?h x = Some l' \<and> restricts ?has l l'" by auto
  next
    fix x l' assume l': "lab_at ?h x = Some l'"
    show "is_hole x l' \<or> ?has x \<and> (\<exists>l. lab_at g x = Some l \<and> restricts ?has l l')"
    proof (cases "containsPos g1 x \<and> \<not> ?has x")
      case True
      with at [of x] l' show ?thesis by simp
    next
      case False
      with at [of x] l' have l1: "lab_at g1 x = Some l'" by simp
      with False lab_at_pos [OF l1] old [OF l1] show ?thesis by blast
    qed
  qed
  have "graph_core ?h"
  proof (rule restrict_core [OF core r])
    show start: "?has (Event t 0)" if "containsPos g (Event t 0)" for t
      using that dep_cut.has_start [OF inv, of "nat t"] by (simp add: containsPos_def)
    show "lb_kind l \<noteq> Empty" if l: "lab_at ?h (Event t 0) = Some l" for t l
    proof -
      have c: "containsPos g (Event t 0)" using lab_at_pos [OF l] pos by blast
      with at [of "Event t 0"] l start have "lab_at g1 (Event t 0) = Some l" by (auto split: if_splits)
      from old [OF this start [OF c]] obtain l0 where "lab_at g (Event t 0) = Some l0" "restricts ?has l0 l" by blast
      with core have "isThreadStart (lb_kind l)" unfolding graph_core_def start_ok_def by (metis restricts_kind)
      then show ?thesis using kind_consts(14) by metis
    qed
    show "co ?h a = filter ?has (co g a)" for a
      using holes(2) g1(2) by (simp add: co_def dep_cut.cut_result_def)
    show "keys_ok ?h"
    proof -
      have k: "keys_ok g1" using g1(2) by (simp add: dep_cut.cut_result_def)
      from k obtain il where il: "lab_at g1 event_init = Some il" "map fst (lb_initRfs il) = map fst (coherence g1)"
        by (auto simp: keys_ok_def at_kind_def)
      have "?has event_init" using dep_cut.has_start [OF inv, of 0] by (simp add: event_init_def)
      with at [of event_init] il(1) have "lab_at ?h event_init = Some il" by simp
      then show ?thesis
      proof (rule keys_okI)
        show "map fst (lb_initRfs il) = map fst (coherence ?h)" "distinct (map fst (coherence ?h))"
          using il(2) holes(2) k by (simp_all add: keys_ok_def)
        fix e l assume e: "lab_at ?h e = Some l" "isMemAccess (lb_kind l)"
        then have "\<not> is_hole e l" using kind_consts(8) by (auto simp: is_hole_def)
        with at [of e] e(1) have "lab_at g1 e = Some l" by (auto split: if_splits)
        with k e(2) have "lb_addr l \<in> fst ` set (coherence g1)" unfolding keys_ok_def by blast
        with holes(2) show "lb_addr l \<in> fst ` set (coherence ?h)" by simp
      qed
    qed
    show "order_ok ?h"
    proof -
      have io: "insertionOrder ?h = filter ?has (insertionOrder g) @ ?es"
        using holes(2) g1(2) by (simp add: dep_cut.cut_result_def)
      have g_o: "distinct (insertionOrder g)" "set (insertionOrder g) = {e. containsPos g e}"
        using core by (simp_all add: graph_core_def order_ok_def)
      have "containsPos ?h x \<longleftrightarrow> containsPos g1 x" for x using at [of x] by (auto simp: containsPos_lab split: if_splits)
      moreover have "containsPos g1 x \<Longrightarrow> containsPos g x" for x using g1(2) by (simp add: dep_cut.cut_result_def)
      ultimately show ?thesis
        using g_o in1 positions_distinct unfolding order_ok_def io by (auto simp: positions_mem)
    qed
  qed
  moreover have "threads_ok ?h"
    unfolding threads_ok_def
  proof (intro allI impI)
    fix t assume "t < getNumThreads ?h"
    then have "containsPos g (Event (int t) 0)"
      using holes(2) g1(2) th by (simp add: dep_cut.cut_result_def threads_ok_def containsPos_Event)
    then have "containsPos ?h (Event (int t) 0)" using pos by (simp add: kept_at_def)
    then show "0 < getThreadSize ?h t" by (simp add: containsPos_Event)
  qed
  moreover have "is_hole x l \<longleftrightarrow> \<not> ?has x \<or> (\<exists>l0. lab_at g x = Some l0 \<and> lb_kind l0 = Empty)"
    if l: "lab_at ?h x = Some l" for x l
  proof (cases "?has x")
    case True
    with at [of x] l have l1: "lab_at g1 x = Some l" by simp
    from old [OF l1 True] obtain l0 where l0: "lab_at g x = Some l0" "restricts ?has l0 l" by blast
    with core have "lb_pos l0 = x \<and> lb_stamp l0 \<noteq> None" by (simp add: graph_core_def pos_ok_def)
    with l0 True show ?thesis by (auto simp: is_hole_def restricts_def)
  next
    case False
    have "containsPos g1 x" using at [of x] l by (auto simp: containsPos_lab split: if_splits)
    with False at [of x] l show ?thesis by simp
  qed
  ultimately have "graph_ok ?h \<and> (\<forall>x l. lab_at ?h x = Some l \<longrightarrow> (is_hole x l \<longleftrightarrow>
       \<not> ?has x \<or> (\<exists>l0. lab_at g x = Some l0 \<and> lb_kind l0 = Empty)))" by (simp add: graph_ok_def)
  with ret d(1) r has pos show ?thesis by (intro exI [of _ ?h] exI [of _ d]) blast
qed

end
