(* ===== verification/Graph_Copies.thy ===== *)
theory Graph_Copies
  imports Graph_Cut_Facts
begin

text \<open>
  Copying a graph up to a view (\<open>copyGraphUpTo\<close>): the clones are added thread by thread, their
  pointers are fixed in insertion order, and coherence and the initializer's readers are rebuilt.
\<close>

section \<open>Adding the clones\<close>

lemma foldR_map: "foldR f (map k xs) s = foldR (\<lambda>x. f (k x)) xs s"
proof (induction xs arbitrary: s)
  case (Cons x xs)
  then show ?case by (cases "f (k x) s") simp_all
qed simp

lemma foldR_concat: "foldR f (concat xss) s = foldR (foldR f) xss s"
proof (induction xss arbitrary: s)
  case (Cons xs xss)
  then show ?case by (cases "foldR f xs s") (simp_all add: foldR_append)
qed simp

lemma foldR_cong:
  assumes "xs = ys" "\<And>x s. x \<in> set ys \<Longrightarrow> f x s = k x s"
  shows "foldR f xs s = foldR k ys s"
  unfolding assms(1) using assms(2)
proof (induction ys arbitrary: s)
  case (Cons y ys)
  then show ?case by (cases "k y s") simp_all
qed simp

text \<open>The order in which positions can be appended to the threads of an empty graph.\<close>

inductive grow_order :: "nat \<Rightarrow> event list \<Rightarrow> bool" for n where
  Nil: "grow_order n []"
| snoc: "grow_order n ps \<Longrightarrow> valid p \<Longrightarrow> nat (thread p) < n \<Longrightarrow> p \<noteq> event_init \<Longrightarrow> p \<notin> set ps \<Longrightarrow>
    (\<And>j. 0 \<le> j \<Longrightarrow> j < index p \<Longrightarrow> Event (thread p) j \<in> insert event_init (set ps)) \<Longrightarrow>
    grow_order n (ps @ [p])"

lemma grow_row:
  assumes "grow_order n ps" "i < n" "\<And>j. 0 \<le> j \<Longrightarrow> j < int a \<Longrightarrow> Event (int i) j \<in> insert event_init (set ps)"
    and "\<And>j. int a \<le> j \<Longrightarrow> Event (int i) j \<notin> set ps" "i \<noteq> 0 \<or> a \<noteq> 0"
  shows "grow_order n (ps @ map (\<lambda>j. Event (int i) (int j)) [a..<b])"
proof (cases "a \<le> b")
  case True
  then show ?thesis
  proof (induction b rule: dec_induct)
    case base
    then show ?case using assms(1) by simp
  next
    case (step b)
    let ?ps = "ps @ map (\<lambda>j. Event (int i) (int j)) [a..<b]" and ?p = "Event (int i) (int b)"
    have "grow_order n (?ps @ [?p])"
    proof (rule grow_order.snoc [OF step.IH])
      show "valid ?p" "nat (thread ?p) < n" using assms(2) by (simp_all add: valid_def)
      show "?p \<noteq> event_init" using assms(5) step.hyps by (auto simp: event_init_def)
      show "?p \<notin> set ?ps" using assms(4) step.hyps by auto
      fix j assume j: "0 \<le> j" "j < index ?p"
      show "Event (thread ?p) j \<in> insert event_init (set ?ps)"
      proof (cases "j < int a")
        case True
        with assms(3) [OF j(1)] show ?thesis by auto
      next
        case False
        with j have "nat j \<in> {a..<b}" "Event (int i) j = Event (int i) (int (nat j))" by auto
        then show ?thesis by (auto intro: rev_image_eqI)
      qed
    qed
    with step.hyps show ?case by simp
  qed
qed (use assms(1) in simp)

definition copy_row :: "vector_clock \<Rightarrow> nat \<Rightarrow> event list" where
  "copy_row v i = (if i \<noteq> 0 then [Event (int i) 0] else []) @
     map (\<lambda>j. Event (int i) (int j)) [1..<nat (vc_max v i + 1)]"

definition copy_order :: "vector_clock \<Rightarrow> nat \<Rightarrow> event list" where
  "copy_order v n = concat (map (copy_row v) [0..<n])"

lemma copy_row_mem:
  assumes "0 \<le> vc_max v i"
  shows "e \<in> set (copy_row v i) \<longleftrightarrow> e \<noteq> event_init \<and> thread e = int i \<and> 0 \<le> index e \<and> index e \<le> vc_max v i"
proof
  assume "e \<in> set (copy_row v i)"
  with assms show "e \<noteq> event_init \<and> thread e = int i \<and> 0 \<le> index e \<and> index e \<le> vc_max v i"
    by (auto simp: copy_row_def event_init_def split: if_splits)
next
  assume e: "e \<noteq> event_init \<and> thread e = int i \<and> 0 \<le> index e \<and> index e \<le> vc_max v i"
  then have e1: "e = Event (int i) (index e)" by (simp add: event.expand)
  show "e \<in> set (copy_row v i)"
  proof (cases "index e = 0")
    case True
    with e e1 have "i \<noteq> 0" by (auto simp: event_init_def)
    with True e1 show ?thesis by (simp add: copy_row_def)
  next
    case False
    with e have "nat (index e) \<in> {1..<nat (vc_max v i + 1)}" "e = Event (int i) (int (nat (index e)))"
      using e1 by auto
    then have "e \<in> (\<lambda>j. Event (int i) (int j)) ` {1..<nat (vc_max v i + 1)}" by blast
    then show ?thesis by (simp add: copy_row_def)
  qed
qed

lemma copy_order_mem:
  assumes "\<And>i. 0 \<le> vc_max v i"
  shows "e \<in> set (copy_order v n) \<longleftrightarrow> valid e \<and> e \<noteq> event_init \<and> nat (thread e) < n \<and>
    index e \<le> vc_max v (nat (thread e))"
proof -
  have "e \<in> set (copy_order v n) \<longleftrightarrow> (\<exists>i<n. e \<in> set (copy_row v i))" by (auto simp: copy_order_def)
  also have "\<dots> \<longleftrightarrow> valid e \<and> e \<noteq> event_init \<and> nat (thread e) < n \<and> index e \<le> vc_max v (nat (thread e))"
    unfolding copy_row_mem [OF assms] by (auto simp: valid_def intro: exI [of _ "nat (thread e)"])
  finally show ?thesis .
qed

lemma copy_order_grows:
  assumes "\<And>i. 0 \<le> vc_max v i"
  shows "m \<le> n \<Longrightarrow> grow_order n (copy_order v m)"
proof (induction m)
  case 0
  then show ?case by (simp add: copy_order_def grow_order.Nil)
next
  case (Suc m)
  have other: "Event (int m) j \<notin> set (copy_order v m)" for j by (simp add: copy_order_mem [OF assms])
  have snoc: "copy_order v (Suc m) = (copy_order v m @ (if m \<noteq> 0 then [Event (int m) 0] else [])) @
      map (\<lambda>j. Event (int m) (int j)) [1..<nat (vc_max v m + 1)]"
    by (simp add: copy_order_def copy_row_def)
  have first: "grow_order n (copy_order v m @ (if m \<noteq> 0 then [Event (int m) 0] else []))"
  proof (cases "m = 0")
    case False
    have "grow_order n (copy_order v m @ map (\<lambda>j. Event (int m) (int j)) [0..<1])"
      by (rule grow_row) (use Suc False other in auto)
    with False show ?thesis by simp
  qed (use Suc in simp)
  show ?case
    unfolding snoc
  proof (rule grow_row [OF first])
    show "m < n" using Suc.prems by simp
  next
    fix j :: int assume "0 \<le> j" "j < int 1"
    then show "Event (int m) j \<in> insert event_init (set (copy_order v m @ (if m \<noteq> 0 then [Event (int m) 0] else [])))"
      by (auto simp: event_init_def)
  next
    fix j assume "int 1 \<le> j"
    then show "Event (int m) j \<notin> set (copy_order v m @ (if m \<noteq> 0 then [Event (int m) 0] else []))"
      using other by auto
  qed simp
qed

lemma addLabel_append:
  assumes il: "lab_at g event_init = Some il" and p: "valid (lb_pos l)" "nat (thread (lb_pos l)) < getNumThreads g"
    "nat (index (lb_pos l)) = getThreadSize g (nat (thread (lb_pos l)))" and st: "lb_stamp l \<noteq> None"
  shows "\<exists>g'. addLabelToGraph l g = Inr g' \<and>
    (\<forall>x. lab_at g' x = (if x = lb_pos l then Some l
       else if x = event_init then Some (il\<lparr>lb_initRfs := touch_for l (lb_initRfs il)\<rparr>) else lab_at g x)) \<and>
    coherence g' = touch_for l (coherence g) \<and> timestamp g' = timestamp g \<and> recoveryTID g' = recoveryTID g \<and>
    getNumThreads g' = getNumThreads g"
proof -
  let ?p = "lb_pos l"
  have pi: "?p \<noteq> event_init" using lab_at_pos [OF il] p(3) by (auto simp: containsPos_def)
  let ?g1 = "put_label event_init (il\<lparr>lb_initRfs := m_touch (lb_addr l) (lb_initRfs il)\<rparr>)
            (g\<lparr>coherence := m_touch (lb_addr l) (coherence g)\<rparr>)"
  define g2 where "g2 = (if isMemAccess (lb_kind l) then ?g1 else g)"
  have add: "addLabelToGraph l g = place_label l g2"
    using st trackCoherence_at [OF il, of "lb_addr l"] by (auto simp: addLabelToGraph_def g2_def)
  have at2: "lab_at g2 x = (if x = event_init then Some (il\<lparr>lb_initRfs := touch_for l (lb_initRfs il)\<rparr>) else lab_at g x)" for x
    using il lab_at_pos [OF il] by (auto simp: g2_def touch_for_def lab_at_put)
  have o2: "coherence g2 = touch_for l (coherence g)" "timestamp g2 = timestamp g" "recoveryTID g2 = recoveryTID g"
    "getNumThreads g2 = getNumThreads g" "getThreadSize g2 = getThreadSize g"
    by (auto simp: g2_def touch_for_def fun_eq_iff)
  let ?g' = "g2\<lparr>events := (events g2)[nat (thread ?p) := events g2 ! nat (thread ?p) @ [l]],
                 insertionOrder := insertionOrder g2 @ [?p]\<rparr>"
  have fp: "0 \<le> thread ?p" "nat (thread ?p) < getNumThreads g2" "0 \<le> index ?p"
    "nat (index ?p) = getThreadSize g2 (nat (thread ?p))"
    using p o2 by (simp_all add: valid_def)
  have "addLabelToGraph l g = Inr ?g'" unfolding add place_label_def Let_def using fp by simp
  moreover have "lab_at ?g' x = (if x = ?p then Some l else lab_at g2 x)" for x
    by (rule lab_at_append [OF fp]) simp
  ultimately show ?thesis using at2 o2 by (intro exI [of _ ?g']) (simp add: getNumThreads_def)
qed

text \<open>The tracked locations of the copy: every location once, with nothing in it.\<close>

definition empty_map :: "saddr list \<Rightarrow> reader_map" where
  "empty_map as = map (\<lambda>a. (a, [])) as"

lemma empty_map_simps [simp]:
  "map fst (empty_map as) = as" "fst ` set (empty_map as) = set as" "m_get (empty_map as) a = []"
proof -
  show "map fst (empty_map as) = as" by (simp add: empty_map_def comp_def)
  then show "fst ` set (empty_map as) = set as" by (metis list.set_map)
  have "map_of (empty_map as) a \<in> {None, Some []}" by (induction as) (auto simp: empty_map_def)
  then show "m_get (empty_map as) a = []" by (auto simp: m_get_def)
qed

definition add_new :: "'a \<Rightarrow> 'a list \<Rightarrow> 'a list" where
  "add_new a as = (if a \<in> set as then as else as @ [a])"

lemma touch_empty_map: "m_touch a (empty_map as) = empty_map (add_new a as)"
  by (simp add: m_touch_def add_new_def) (simp add: empty_map_def)

text \<open>A copy in progress: the clones of the positions \<open>ps\<close> of \<open>g\<close>.\<close>

definition copying :: "exec_graph \<Rightarrow> label \<Rightarrow> event list \<Rightarrow> exec_graph \<Rightarrow> bool" where
  "copying g il ps h \<longleftrightarrow> (\<exists>as. coherence h = empty_map as \<and> distinct as \<and>
     set as = {lb_addr l |e l. e \<in> set ps \<and> lab_at g e = Some l \<and> isMemAccess (lb_kind l)} \<and>
     (\<forall>x. lab_at h x = (if x = event_init then Some (il\<lparr>lb_initRfs := empty_map as\<rparr>)
        else if x \<in> set ps then map_option clone_label (lab_at g x) else None))) \<and>
     timestamp h = timestamp g \<and> recoveryTID h = recoveryTID g \<and> getNumThreads h = getNumThreads g"

lemma clone_label_fields [simp]:
  "lb_kind (clone_label l) = lb_kind l" "lb_pos (clone_label l) = lb_pos l" "lb_addr (clone_label l) = lb_addr l"
  "lb_stamp (clone_label l) = lb_stamp l"
  by (simp_all add: clone_label_def)

lemma size_when_prefix:
  assumes "\<not> containsPos h p" "valid p" "nat (thread p) < getNumThreads h"
    and "\<And>j. 0 \<le> j \<Longrightarrow> j < index p \<Longrightarrow> containsPos h (Event (thread p) j)"
  shows "nat (index p) = getThreadSize h (nat (thread p))"
proof (rule antisym)
  show "getThreadSize h (nat (thread p)) \<le> nat (index p)" using assms(1-3) by (simp add: containsPos_def valid_def)
  show "nat (index p) \<le> getThreadSize h (nat (thread p))"
  proof (cases "index p = 0")
    case False
    with assms(2) assms(4) [of "index p - 1"] have "nat (index p - 1) < getThreadSize h (nat (thread p))"
      by (simp add: containsPos_Event valid_def)
    with False assms(2) show ?thesis by (simp add: valid_def nat_diff_distrib)
  qed simp
qed

lemma copy_clones:
  assumes core: "graph_core g" and h0: "copying g il [] h0"
  shows "grow_order (getNumThreads g) ps \<Longrightarrow> (\<And>p. p \<in> set ps \<Longrightarrow> containsPos g p) \<Longrightarrow>
    \<exists>h. foldR (\<lambda>e h. bindR (getEventLabel g e) (\<lambda>l. addLabelToGraph (clone_label l) h)) ps h0 = Inr h \<and> copying g il ps h"
proof (induction rule: grow_order.induct)
  case Nil
  with h0 show ?case by simp
next
  case (snoc ps p)
  let ?f = "\<lambda>e h. bindR (getEventLabel g e) (\<lambda>l. addLabelToGraph (clone_label l) h)"
  from snoc obtain h where h: "foldR ?f ps h0 = Inr h" "copying g il ps h" by auto
  then obtain as where as: "coherence h = empty_map as" "distinct as"
     "set as = {lb_addr l |e l. e \<in> set ps \<and> lab_at g e = Some l \<and> isMemAccess (lb_kind l)}"
     "\<And>x. lab_at h x = (if x = event_init then Some (il\<lparr>lb_initRfs := empty_map as\<rparr>)
        else if x \<in> set ps then map_option clone_label (lab_at g x) else None)"
     "timestamp h = timestamp g" "recoveryTID h = recoveryTID g" "getNumThreads h = getNumThreads g"
    by (auto simp: copying_def)
  from snoc.prems [of p] obtain l where l: "lab_at g p = Some l" by (auto simp: containsPos_lab)
  then have lp: "lb_pos (clone_label l) = p" "lb_stamp (clone_label l) \<noteq> None"
    using core by (auto simp: graph_core_def pos_ok_def)
  have "nat (index p) = getThreadSize h (nat (thread p))"
  proof (rule size_when_prefix)
    show "\<not> containsPos h p" "valid p" "nat (thread p) < getNumThreads h"
      using snoc.hyps as(4) [of p] as(7) by (auto simp: containsPos_lab)
    fix j assume "0 \<le> j" "j < index p"
    from snoc.hyps(6) [OF this] snoc.prems have "Event (thread p) j = event_init \<or>
        Event (thread p) j \<in> set ps \<and> containsPos g (Event (thread p) j)" by auto
    with as(4) show "containsPos h (Event (thread p) j)" by (auto simp: containsPos_lab)
  qed
  with addLabel_append [of h "il\<lparr>lb_initRfs := empty_map as\<rparr>" "clone_label l"] as(4) [of event_init] lp snoc.hyps(2,3) as(7)
  obtain h' where h': "addLabelToGraph (clone_label l) h = Inr h'"
    "\<And>x. lab_at h' x = (if x = p then Some (clone_label l)
       else if x = event_init then Some (il\<lparr>lb_initRfs := touch_for (clone_label l) (empty_map as)\<rparr>) else lab_at h x)"
    "coherence h' = touch_for (clone_label l) (empty_map as)" "timestamp h' = timestamp h"
    "recoveryTID h' = recoveryTID h" "getNumThreads h' = getNumThreads h" by (auto simp: as(1))
  define bs where "bs = (if isMemAccess (lb_kind l) then add_new (lb_addr l) as else as)"
  have t: "touch_for (clone_label l) (empty_map as) = empty_map bs"
    by (simp add: touch_for_def bs_def touch_empty_map)
  have "copying g il (ps @ [p]) h'"
    unfolding copying_def
  proof (intro conjI exI [of _ bs])
    show "coherence h' = empty_map bs" using h'(3) t by simp
    show "distinct bs" using as(2) by (simp add: bs_def add_new_def)
    have "set bs = set as \<union> (if isMemAccess (lb_kind l) then {lb_addr l} else {})" by (auto simp: bs_def add_new_def)
    then show "set bs = {lb_addr l |e l. e \<in> set (ps @ [p]) \<and> lab_at g e = Some l \<and> isMemAccess (lb_kind l)}"
      using as(3) l by (auto split: if_splits)
    show "\<forall>x. lab_at h' x = (if x = event_init then Some (il\<lparr>lb_initRfs := empty_map bs\<rparr>)
        else if x \<in> set (ps @ [p]) then map_option clone_label (lab_at g x) else None)"
      using h'(2) t as(4) snoc.hyps(4) l by simp
  qed (use h' as in simp_all)
  with h(1) h'(1) l show ?case by (simp add: foldR_append)
qed

end
