(* ===== verification/Copy_Facts.thy ===== *)
theory Copy_Facts
  imports Graph_Copies
begin

text \<open>
  The later phases of a copy, and the result: the copy up to a view of the graph is the restriction
  of the graph to the view.
\<close>

lemma copy_labels_view:
  assumes g: "graph_ok g" and fit: "view_cut.fits v g"
  defines "il \<equiv> init_label\<lparr>lb_stamp := Some 0, lb_calculated := [[]], lb_views := [[]],
    lb_prefixView := Some (VC_View [])\<rparr>"
  shows "\<exists>h. copy_labels (VC_View v) g new_graph = Inr h \<and> copying g il (copy_order (VC_View v) (getNumThreads g)) h"
proof -
  let ?V = "VC_View v" let ?n = "getNumThreads g"
  have core: "graph_core g" and th: "threads_ok g" using g by (simp_all add: graph_ok_def)
  have inv: "view_inv v" using fit by (simp add: view_cut.fits_def)
  have top: "0 \<le> vc_max ?V i" for i by (rule view_cut.max_nonneg [OF inv])
  let ?f = "\<lambda>e h. bindR (getEventLabel g e) (\<lambda>l. addLabelToGraph (clone_label l) h)"
  let ?h0 = "new_graph\<lparr>timestamp := timestamp g, recoveryTID := recoveryTID g,
          events := events new_graph @ replicate (?n - length (events new_graph)) []\<rparr>"
  from core_init [OF core] obtain gi where "lab_at g event_init = Some gi" .
  from lab_at_pos [OF this] have "0 < ?n" by (simp add: containsPos_def event_init_def)
  then have n0: "getNumThreads ?h0 = ?n" by (simp add: new_graph_def getNumThreads_def)
  have h0: "lab_at ?h0 x = (if x = event_init then Some il else None)" for x
  proof -
    have "containsPos ?h0 x \<longleftrightarrow> x = event_init"
    proof -
      have "getThreadSize ?h0 t = (if t = 0 then 1 else 0)" if "t < ?n" for t
        using that by (simp add: getThreadSize_def new_graph_def nth_Cons')
      moreover have "x = event_init \<longleftrightarrow> thread x = 0 \<and> index x = 0" by (cases x) (simp add: event_init_def)
      ultimately show ?thesis using \<open>0 < ?n\<close> unfolding containsPos_def n0 by (auto split: if_splits)
    qed
    then show ?thesis by (auto simp: lab_at_def new_graph_def event_init_def il_def)
  qed
  have "il\<lparr>lb_initRfs := empty_map []\<rparr> = il" by (simp add: il_def init_label_def new_label_def empty_map_def)
  then have c0: "copying g il [] ?h0"
    unfolding copying_def using n0 h0 by (intro conjI exI [of _ "[]"]) (simp_all add: new_graph_def empty_map_def)
  have "containsPos g p" if "p \<in> set (copy_order ?V ?n)" for p
    using that fit by (auto simp: copy_order_mem [OF top] view_cut.fits_def containsPos_def valid_def)
  from copy_clones [OF core c0 copy_order_grows [OF top order.refl] this] obtain h where
    h: "foldR ?f (copy_order ?V ?n) ?h0 = Inr h" "copying g il (copy_order ?V ?n) h" by blast
  have "copy_labels ?V g new_graph = foldR (\<lambda>i. foldR ?f (copy_row ?V i)) [0..<?n] ?h0"
    unfolding copy_labels_def
  proof (rule foldR_cong [OF refl])
    fix i h1
    have "vc_has ?V (Event (int i) (int j))" if "j \<in> set [1..<nat (vc_max ?V i + 1)]" for j
      using that top [of i] by (simp add: vc_has_view valid_def) linarith
    then have "foldR (\<lambda>j h2. let e = Event (int i) (int j) in
          if \<not> vc_has ?V e then addLabelToGraph (createHoleLabel e) h2
          else bindR (getEventLabel g e) (\<lambda>l. addLabelToGraph (clone_label l) h2)) [1..<nat (vc_max ?V i + 1)] k =
        foldR ?f (map (\<lambda>j. Event (int i) (int j)) [1..<nat (vc_max ?V i + 1)]) k" for k
      unfolding foldR_map by (intro foldR_cong) (simp_all add: Let_def)
    then show "bindR (if i \<noteq> 0 then bindR (getEventLabel g (Event (int i) 0)) (\<lambda>l. addLabelToGraph (clone_label l) h1)
          else Inr h1) (foldR (\<lambda>j h2. let e = Event (int i) (int j) in
          if \<not> vc_has ?V e then addLabelToGraph (createHoleLabel e) h2
          else bindR (getEventLabel g e) (\<lambda>l. addLabelToGraph (clone_label l) h2)) [1..<nat (vc_max ?V i + 1)]) =
        foldR ?f (copy_row ?V i) h1"
      unfolding copy_row_def foldR_append by (cases "i = 0") (simp_all add: bindR_def split: sum.split)
  qed
  also have "\<dots> = foldR ?f (copy_order ?V ?n) ?h0" by (simp add: copy_order_def foldR_concat foldR_map)
  finally show ?thesis using h by simp
qed

section \<open>Fixing the pointers\<close>

lemma foldR_with_label:
  assumes "distinct es" "\<And>e. e \<in> set es \<Longrightarrow> \<exists>l. lab_at g e = Some l \<and> f l = Inr (F e)"
  shows "\<exists>h. foldR (\<lambda>e. with_label e f) es g = Inr h \<and>
    (\<forall>x. lab_at h x = (if x \<in> set es then Some (F x) else lab_at g x)) \<and> coherence h = coherence g \<and>
    insertionOrder h = insertionOrder g \<and> timestamp h = timestamp g \<and> recoveryTID h = recoveryTID g \<and>
    getNumThreads h = getNumThreads g"
  using assms
proof (induction es arbitrary: g)
  case Nil
  then show ?case by simp
next
  case (Cons e es)
  from Cons.prems(2) [of e] obtain l where l: "lab_at g e = Some l" "f l = Inr (F e)" by auto
  let ?g = "put_label e (F e) g"
  have at: "lab_at ?g x = (if x = e then Some (F e) else lab_at g x)" for x
    using lab_at_pos [OF l(1)] by (simp add: lab_at_put)
  have "\<exists>l. lab_at ?g x = Some l \<and> f l = Inr (F x)" if "x \<in> set es" for x
    using Cons.prems(2) [of x] that Cons.prems(1) at [of x] by auto
  with Cons.IH [of ?g] Cons.prems(1) obtain h where
    h: "foldR (\<lambda>e. with_label e f) es ?g = Inr h" "\<And>x. lab_at h x = (if x \<in> set es then Some (F x) else lab_at ?g x)"
    "coherence h = coherence ?g" "insertionOrder h = insertionOrder ?g" "timestamp h = timestamp ?g"
    "recoveryTID h = recoveryTID ?g" "getNumThreads h = getNumThreads ?g" by auto
  have "with_label e f g = Inr ?g" using l by (simp add: with_label_def)
  then have "foldR (\<lambda>e. with_label e f) (e # es) g = Inr h" using h(1) by simp
  moreover have "lab_at h x = (if x \<in> set (e # es) then Some (F x) else lab_at g x)" for x
    unfolding h(2) at by simp
  ultimately show ?case using h(3-7) by (intro exI [of _ h]) simp
qed

lemma copy_readers_eq:
  assumes "distinct es" "\<And>r. r \<in> set es \<Longrightarrow> has r \<Longrightarrow> isEventKind isRead h r" "lb_readers l = []"
  shows "copy_readers has isRead addReader es h l = Inr (l\<lparr>lb_readers := filter has es\<rparr>)"
proof -
  let ?f = "\<lambda>r l1. if has r then (if isEventKind isRead h r then addReader r l1 else Inl Undefined) else Inr l1"
  have "foldR ?f es (l\<lparr>lb_readers := rs\<rparr>) = Inr (l\<lparr>lb_readers := rs @ filter has es\<rparr>)"
    if "distinct (rs @ es)" "\<And>r. r \<in> set es \<Longrightarrow> has r \<Longrightarrow> isEventKind isRead h r" for rs es
    using that
  proof (induction es arbitrary: rs)
    case (Cons r es)
    show ?case
    proof (cases "has r")
      case True
      have "distinct ((rs @ [r]) @ es)" using Cons.prems(1) by simp
      from Cons.IH [OF this] Cons.prems True show ?thesis by (simp add: addReader_def)
    next
      case False
      from Cons.IH [of rs] Cons.prems False show ?thesis by simp
    qed
  qed simp
  moreover have "l\<lparr>lb_readers := []\<rparr> = l" using assms(3) by (cases l) simp
  ultimately show ?thesis using assms(1,2) by (metis append_Nil copy_readers_def)
qed

lemma copy_accesses_eq:
  assumes "distinct es" "\<And>r. r \<in> set es \<Longrightarrow> has r \<Longrightarrow> isEventKind isMemAccess h r" "lb_accesses l = []"
  shows "copy_readers has isMemAccess addAccess es h l = Inr (l\<lparr>lb_accesses := filter has es\<rparr>)"
proof -
  let ?f = "\<lambda>r l1. if has r then (if isEventKind isMemAccess h r then addAccess r l1 else Inl Undefined) else Inr l1"
  have "foldR ?f es (l\<lparr>lb_accesses := rs\<rparr>) = Inr (l\<lparr>lb_accesses := rs @ filter has es\<rparr>)"
    if "distinct (rs @ es)" "\<And>r. r \<in> set es \<Longrightarrow> has r \<Longrightarrow> isEventKind isMemAccess h r" for rs es
    using that
  proof (induction es arbitrary: rs)
    case (Cons r es)
    show ?case
    proof (cases "has r")
      case True
      have "distinct ((rs @ [r]) @ es)" using Cons.prems(1) by simp
      from Cons.IH [OF this] Cons.prems True show ?thesis by (simp add: addAccess_def)
    next
      case False
      from Cons.IH [of rs] Cons.prems False show ?thesis by simp
    qed
  qed simp
  moreover have "l\<lparr>lb_accesses := []\<rparr> = l" using assms(3) by (cases l) simp
  ultimately show ?thesis using assms(1,2) by (metis append_Nil copy_readers_def)
qed

text \<open>A clone in the copy becomes the label that the cut leaves.\<close>

lemma copy_pointers_eq:
  assumes core: "graph_core g" and l: "lab_at g e = Some l" "lb_kind l \<noteq> Init"
    and pos: "\<And>x. containsPos g x \<Longrightarrow> containsPos h x = has x"
    and kinds: "\<And>P x. at_kind P g x (\<lambda>_. True) \<Longrightarrow> has x \<Longrightarrow> isEventKind P h x"
  shows "copy_pointers has g h (clone_label l) = Inr (cut_pointers has l)"
proof -
  have ok: "pos_ok g" "rf_ok g" "alloc_ok g" "free_ok g" using core by (simp_all add: graph_core_def)
  have lp: "lb_pos l = e" using ok(1) l(1) by (simp add: pos_ok_def)
  have ptr: "copy_ptr_in h p = keep_ptr has p" if "\<And>x. p = Some x \<Longrightarrow> containsPos g x" for p
    using that pos by (auto simp: copy_ptr_in_def keep_ptr_def split: option.split)
  have posk: "at_kind P g x Q \<Longrightarrow> containsPos g x" for P x Q by (auto simp: at_kind_def containsPos_lab)
  have kindsQ: "at_kind P g x Q \<Longrightarrow> has x \<Longrightarrow> isEventKind P h x" for P x Q
    using kinds [of P x] by (auto simp: at_kind_def)
  have alloc: "(case copy_ptr_in h (lb_alloc l) of Some a \<Rightarrow> if isEventKind isMalloc h a then Some a else None
      | None \<Rightarrow> None) = keep_ptr has (lb_alloc l)" if m: "isMemAccess (lb_kind l)"
  proof (cases "lb_alloc l")
    case None
    then show ?thesis by (simp add: copy_ptr_in_def keep_ptr_def)
  next
    case (Some a)
    with m l ok(3) have "at_kind isMalloc g a (\<lambda>al. e \<in> set (lb_accesses al))" unfolding alloc_ok_def by blast
    from posk [OF this] kindsQ [OF this] pos Some show ?thesis
      by (auto simp: copy_ptr_in_def keep_ptr_def)
  qed
  show ?thesis
  proof (cases rule: pointer_class_cases [of "lb_kind l"])
    case 1
    note k = pointer_classes(1) [OF 1]
    have rd: "lb_readers l = readers_of g e a" for a using l(1) 1 by (simp add: readers_of_def)
    have "distinct (lb_readers l)" using ok(2) rd [of 0] by (simp add: rf_ok_def)
    moreover have "isEventKind isRead h r" if "r \<in> set (lb_readers l)" "has r" for r
    proof -
      have "r \<in> set (readers_of g e 0)" using that(1) rd [of 0] by simp
      with ok(2) have "at_kind isRead g r (\<lambda>l. lb_rf l = Some e \<and> (e = event_init \<longrightarrow> lb_addr l = 0))"
        unfolding rf_ok_def by blast
      from kindsQ [OF this that(2)] show ?thesis .
    qed
    ultimately have "copy_readers has isRead addReader (lb_readers l) h (l\<lparr>lb_readers := []\<rparr>) =
        Inr (l\<lparr>lb_readers := filter has (lb_readers l)\<rparr>)"
      by (subst copy_readers_eq) auto
    with 1 k l(1) lp alloc show ?thesis
      by (simp add: copy_pointers_def clone_label_def cut_pointers_cases Let_def)
  next
    case 2
    note k = pointer_classes(2) [OF 2]
    have "containsPos g x" if "lb_rf l = Some x" for x
    proof -
      have "e \<in> set (readers_of g x (lb_addr l))" using ok(2) l(1) 2 that unfolding rf_ok_def by blast
      then show ?thesis using readers_of_nonempty by (fastforce simp: containsPos_lab)
    qed
    with 2 k l(2) alloc show ?thesis
      by (simp add: copy_pointers_def clone_label_def cut_pointers_cases Let_def ptr)
  next
    case 3
    note k = pointer_classes(3) [OF 3]
    with 3 l(2) show ?thesis by (simp add: copy_pointers_def clone_label_def cut_pointers_cases Let_def)
  next
    case 4
    note k = pointer_classes(4) [OF 4]
    with 4 l(2) show ?thesis by (simp add: copy_pointers_def clone_label_def cut_pointers_cases Let_def)
  next
    case 5
    note k = pointer_classes(5) [OF 5]
    have "distinct (lb_accesses l)" using ok(3) l(1) 5 unfolding alloc_ok_def by blast
    moreover have "isEventKind isMemAccess h r" if "r \<in> set (lb_accesses l)" "has r" for r
    proof -
      have "at_kind isMemAccess g r (\<lambda>m. lb_alloc m = Some e)" using ok(3) l(1) 5 that(1) unfolding alloc_ok_def by blast
      from kindsQ [OF this that(2)] show ?thesis .
    qed
    ultimately have "copy_readers has isMemAccess addAccess (lb_accesses l) h (l\<lparr>lb_free := f, lb_accesses := []\<rparr>) =
        Inr (l\<lparr>lb_free := f, lb_accesses := filter has (lb_accesses l)\<rparr>)" for f
      by (subst copy_accesses_eq) auto
    with 5 k l lp show ?thesis
      by (simp add: copy_pointers_def clone_label_def cut_pointers_cases Let_def)
  next
    case 6
    have "\<not> isRead (lb_kind l)" "\<not> isWrite (lb_kind l)" using 6(1) pointer_classes(1,2) [of "lb_kind l"] by auto
    with 6 l(2) show ?thesis by (simp add: copy_pointers_def clone_label_def cut_pointers_other Let_def)
  qed
qed

section \<open>Coherence and the initializer's readers\<close>

lemma insert_after_last: "distinct xs \<Longrightarrow> xs \<noteq> [] \<Longrightarrow> insert_after (last xs) w xs = xs @ [w]"
  by (induction xs) auto

lemma m_get_Cons: "m_get ((c, cs) # q) a = (if c = a then cs else m_get q a)"
  by (simp add: m_get_def)

lemma m_get_in: "distinct (map fst m) \<Longrightarrow> (b, ws) \<in> set m \<Longrightarrow> m_get m b = ws"
  by (simp add: m_get_def)

lemma filter_concat_map:
  assumes "distinct (map fst m)" "\<And>b w. w \<in> set (m_get m b) \<Longrightarrow> addr w = b"
  shows "filter (\<lambda>w. P w \<and> addr w = a) (concat (map snd m)) = filter P (m_get m a)"
proof -
  have "filter (\<lambda>w. P w \<and> addr w = a) (concat (map snd m)) = filter P (m_get m a)"
    if "distinct (map fst m)" "\<And>b ws w. (b, ws) \<in> set m \<Longrightarrow> w \<in> set ws \<Longrightarrow> addr w = b" for m
    using that
  proof (induction m)
    case Nil
    then show ?case by (simp add: m_get_def)
  next
    case (Cons c m)
    obtain b ws where c: "c = (b, ws)" by force
    have ws: "filter (\<lambda>w. P w \<and> addr w = a) ws = (if b = a then filter P ws else [])"
      using Cons.prems(2) [of b ws] by (auto simp: c filter_empty_conv intro!: filter_cong)
    have IH: "filter (\<lambda>w. P w \<and> addr w = a) (concat (map snd m)) = filter P (m_get m a)"
      using Cons.prems by (intro Cons.IH) auto
    have "b \<notin> fst ` set m" using Cons.prems(1) by (simp add: c)
    then have "b = a \<Longrightarrow> m_get m a = []" using m_get_absent by blast
    with ws IH show ?case by (simp add: c m_get_Cons)
  qed
  moreover have "addr w = b" if "(b, ws) \<in> set m" "w \<in> set ws" for b ws w
    using assms(2) [of w b] m_get_in [OF assms(1) that(1)] that(2) by simp
  ultimately show ?thesis using assms(1) by blast
qed

lemma distinct_concat_map:
  assumes "distinct (map fst m)" "\<And>b w. w \<in> set (m_get m b) \<Longrightarrow> addr w = b" "\<And>b. distinct (m_get m b)"
  shows "distinct (concat (map snd m))"
proof -
  have "distinct (concat (map snd m))"
    if "distinct (map fst m)" "\<And>b ws w. (b, ws) \<in> set m \<Longrightarrow> w \<in> set ws \<Longrightarrow> addr w = b"
      "\<And>b ws. (b, ws) \<in> set m \<Longrightarrow> distinct ws" for m :: reader_map
    using that
  proof (induction m)
    case (Cons c m)
    obtain b ws where c: "c = (b, ws)" by force
    have "distinct (concat (map snd m))"
    proof (rule Cons.IH)
      show "distinct (map fst m)" using Cons.prems(1) by simp
      show "addr w = b" if "(b, ws) \<in> set m" "w \<in> set ws" for b ws w
        by (rule Cons.prems(2) [OF _ that(2)]) (simp add: that(1))
      show "distinct ws" if "(b, ws) \<in> set m" for b ws using Cons.prems(3) [of b ws] that by simp
    qed
    moreover have "w \<notin> set (concat (map snd m))" if w: "w \<in> set ws" for w
    proof
      assume "w \<in> set (concat (map snd m))"
      then obtain b' ws' where b': "(b', ws') \<in> set m" "w \<in> set ws'" by auto
      then have "addr w = b'" using Cons.prems(2) by (meson list.set_intros(2))
      moreover have "addr w = b" using Cons.prems(2) [of b ws w] w by (simp add: c)
      ultimately have "b \<in> fst ` set m" using b'(1) by force
      with Cons.prems(1) show False by (simp add: c)
    qed
    moreover have "distinct ws" using Cons.prems(3) [of b ws] by (simp add: c)
    ultimately show ?case by (auto simp: c)
  qed simp
  moreover have "addr w = b" if "(b, ws) \<in> set m" "w \<in> set ws" for b ws w
    using assms(2) [of w b] m_get_in [OF assms(1) that(1)] that(2) by simp
  moreover have "distinct ws" if "(b, ws) \<in> set m" for b ws
    using assms(3) [of b] m_get_in [OF assms(1) that] by simp
  ultimately show ?thesis using assms(1) by blast
qed

definition addr_at :: "exec_graph \<Rightarrow> event \<Rightarrow> saddr" where
  "addr_at g e = (case lab_at g e of Some l \<Rightarrow> lb_addr l | None \<Rightarrow> 0)"

lemma addr_at_simp [simp]: "lab_at g e = Some l \<Longrightarrow> addr_at g e = lb_addr l"
  by (simp add: addr_at_def)

lemma copy_coherence_eq:
  assumes core: "graph_core g" and keys: "set (map fst (coherence h)) = set as" "\<And>a. co h a = []"
    and ws: "\<And>w. has w \<Longrightarrow> at_kind isWrite g w (\<lambda>_. True) \<Longrightarrow>
      at_kind isWrite h w (\<lambda>l. lb_addr l = addr_at g w) \<and> addr_at g w \<in> set as"
    and init: "at_kind (\<lambda>k. k = Init) h event_init (\<lambda>_. True)"
  shows "\<exists>h'. copy_coherence has g h = Inr h' \<and> lab_at h' = lab_at h \<and> (\<forall>a. co h' a = filter has (co g a)) \<and>
    map fst (coherence h') = map fst (coherence h) \<and> insertionOrder h' = insertionOrder h \<and>
    timestamp h' = timestamp h \<and> recoveryTID h' = recoveryTID h \<and> getNumThreads h' = getNumThreads h"
proof -
  let ?L = "concat (map snd (coherence g))"
  let ?f = "\<lambda>w h1. if has w then (if isEventKind isWrite h1 w then
                        bindR (deref g w) (\<lambda>wl. bindR (co_max h1 (lb_addr wl)) (\<lambda>m. addStoreToCOAfter w m h1))
                      else Inl Undefined) else Inr h1"
  let ?I = "\<lambda>ws h'. lab_at h' = lab_at h \<and> (\<forall>a. co h' a = filter (\<lambda>w. has w \<and> addr_at g w = a) ws) \<and>
    map fst (coherence h') = map fst (coherence h) \<and> insertionOrder h' = insertionOrder h \<and>
    timestamp h' = timestamp h \<and> recoveryTID h' = recoveryTID h \<and> getNumThreads h' = getNumThreads h"
  have d: "distinct (map fst (coherence g))" using core by (simp add: graph_core_def keys_ok_def)
  have addr: "addr_at g w = b" if "w \<in> set (m_get (coherence g) b)" for b w
    using co_writes(2) [OF core, of w b] that by (auto simp: co_def at_kind_def)
  have dL: "distinct ?L"
    by (rule distinct_concat_map [OF d, of "addr_at g"]) (use addr co_writes(1) [OF core] in \<open>auto simp: co_def\<close>)
  have wr: "at_kind isWrite g w (\<lambda>_. True)" if w: "w \<in> set ?L" for w
  proof -
    from w obtain b us where b: "(b, us) \<in> set (coherence g)" "w \<in> set us" by auto
    then have "w \<in> set (co g b)" using m_get_in [OF d b(1)] by (simp add: co_def)
    from co_writes(2) [OF core this] show ?thesis by (auto simp: at_kind_def)
  qed
  have "\<exists>h'. foldR ?f ws h = Inr h' \<and> ?I ws h'" if "distinct ws" "set ws \<subseteq> set ?L" for ws
    using that
  proof (induction ws rule: rev_induct)
    case Nil
    then show ?case using keys(2) by simp
  next
    case (snoc w us)
    then obtain h1 where h1: "foldR ?f us h = Inr h1" "?I us h1" by auto
    from snoc.prems have w: "w \<in> set ?L" "w \<notin> set us" by auto
    show ?case
    proof (cases "has w")
      case False
      with h1 show ?thesis by (simp add: foldR_append)
    next
      case True
      from wr [OF w(1)] obtain wl where wl: "lab_at g w = Some wl" by (auto simp: at_kind_def)
      let ?a = "lb_addr wl"
      from ws [OF True wr [OF w(1)]] wl obtain hl where hl: "lab_at h w = Some hl" "isWrite (lb_kind hl)"
        "lb_addr hl = ?a" "?a \<in> set as" by (auto simp: at_kind_def)
      have tracked: "?a \<in> fst ` set (coherence h1)" using hl(4) keys(1) h1(2) by (metis list.set_map)
      then have at: "co_at h1 ?a = Inr (co h1 ?a)"
        by (auto simp: co_at_def co_def m_get_def map_of_eq_None_iff split: option.split)
      let ?m = "if co h1 ?a = [] then event_init else last (co h1 ?a)"
      have dco: "distinct (co h1 ?a)" "w \<notin> set (co h1 ?a)"
        using h1(2) snoc.prems(1) w(2) by simp_all
      have ins: "\<exists>h2. addStoreToCOAfter w ?m h1 = Inr h2 \<and>
          h2 = h1\<lparr>coherence := m_mod ?a (if co h1 ?a = [] then (#) w else insert_after ?m w) (coherence h1)\<rparr>"
      proof (cases "co h1 ?a = []")
        case True
        from init obtain il where "lab_at h event_init = Some il" "lb_kind il = Init" by (auto simp: at_kind_def)
        with True hl h1(2) kind_consts(2) show ?thesis by (simp add: addStoreToCOAfter_def)
      next
        case False
        let ?l = "last (co h1 ?a)"
        have l: "?l \<in> set (co h1 ?a)" using False by simp
        moreover have "co h1 ?a = filter (\<lambda>w. has w \<and> addr_at g w = ?a) us" using h1(2) by blast
        ultimately have "?l \<in> set (filter (\<lambda>w. has w \<and> addr_at g w = ?a) us)" by metis
        then have l2: "has ?l" "?l \<in> set us" by simp_all
        have "at_kind isWrite g ?l (\<lambda>_. True)" using wr l2(2) snoc.prems(2) by auto
        from ws [OF l2(1) this] obtain ll where "lab_at h ?l = Some ll" "isWrite (lb_kind ll)" by (auto simp: at_kind_def)
        with False hl h1(2) l show ?thesis by (simp add: addStoreToCOAfter_def)
      qed
      then obtain h2 where h2: "addStoreToCOAfter w ?m h1 = Inr h2"
        "h2 = h1\<lparr>coherence := m_mod ?a (if co h1 ?a = [] then (#) w else insert_after ?m w) (coherence h1)\<rparr>" by blast
      have co2: "co h2 b = (if b = ?a then co h1 ?a @ [w] else co h1 b)" for b
        unfolding h2(2) co_mod using insert_after_last [OF dco(1)] by simp
      have "isEventKind isWrite h1 w" using hl h1(2) by (simp add: isEventKind_def)
      then have "foldR ?f (us @ [w]) h = Inr h2"
        using h1(1) True wl h2(1) at by (simp add: foldR_append co_max_def)
      moreover have "?I (us @ [w]) h2"
        using h1(2) co2 True wl map_fst_mod_tracked [OF tracked] by (simp add: h2(2))
      ultimately show ?thesis by blast
    qed
  qed
  from this [OF dL order.refl] obtain h' where h': "foldR ?f ?L h = Inr h'" "?I ?L h'" by blast
  have "filter (\<lambda>w. has w \<and> addr_at g w = a) ?L = filter has (co g a)" for a
    unfolding co_def by (rule filter_concat_map [OF d addr])
  with h' show ?thesis by (simp add: copy_coherence_def)
qed

lemma copy_initRfs_eq:
  assumes core: "graph_core g" and il: "lab_at g event_init = Some gl"
    and hl: "lab_at h event_init = Some il" "map fst (lb_initRfs il) = as" "\<And>a. m_get (lb_initRfs il) a = []"
    and rs: "\<And>r. has r \<Longrightarrow> at_kind isRead g r (\<lambda>_. True) \<Longrightarrow>
      at_kind isRead h r (\<lambda>l. lb_addr l = addr_at g r) \<and> addr_at g r \<in> set as \<and> r \<noteq> event_init"
  shows "\<exists>h' M. copy_initRfs has g h = Inr h' \<and>
    (\<forall>x. lab_at h' x = (if x = event_init then Some (il\<lparr>lb_initRfs := M\<rparr>) else lab_at h x)) \<and>
    map fst M = as \<and> (\<forall>a. m_get M a = filter has (m_get (lb_initRfs gl) a)) \<and> coherence h' = coherence h \<and>
    insertionOrder h' = insertionOrder h \<and> timestamp h' = timestamp h \<and> recoveryTID h' = recoveryTID h \<and>
    getNumThreads h' = getNumThreads h"
proof -
  let ?m = "lb_initRfs gl"
  have kg: "map fst ?m = map fst (coherence g)" "distinct (map fst (coherence g))" "lb_kind gl = Init"
    using core il core_init [OF core] by (auto simp: graph_core_def keys_ok_def at_kind_def)
  then have d: "distinct (map fst ?m)" by simp
  let ?L = "concat (map snd ?m)"
  let ?f = "\<lambda>r h1. if has r then (if isEventKind isRead h1 r then bindR (deref h1 r) (\<lambda>rl.
                    with_label event_init (init_addReader (lb_addr rl) r) h1) else Inl Undefined) else Inr h1"
  let ?I = "\<lambda>rs h' M. (\<forall>x. lab_at h' x = (if x = event_init then Some (il\<lparr>lb_initRfs := M\<rparr>) else lab_at h x)) \<and>
    map fst M = as \<and> (\<forall>a. m_get M a = filter (\<lambda>r. has r \<and> addr_at g r = a) rs) \<and> coherence h' = coherence h \<and>
    insertionOrder h' = insertionOrder h \<and> timestamp h' = timestamp h \<and> recoveryTID h' = recoveryTID h \<and>
    getNumThreads h' = getNumThreads h"
  have L: "concat (map (\<lambda>a. m_get ?m a) (map fst (coherence g))) = ?L"
  proof -
    have "map (\<lambda>a. m_get ?m a) (map fst ?m) = map snd ?m" using m_get_in [OF d] by auto
    with kg(1) show ?thesis by metis
  qed
  have rd: "m_get ?m b = readers_of g event_init b" for b using il kg(3) by (simp add: readers_of_def)
  have rdg: "at_kind isRead g r (\<lambda>l. lb_addr l = b)" if "r \<in> set (m_get ?m b)" for r b
    using rf_ok_back [OF core that [unfolded rd]] by (auto simp: at_kind_def)
  then have addr: "addr_at g r = b" if "r \<in> set (m_get ?m b)" for b r using that by (fastforce simp: at_kind_def)
  have dL: "distinct ?L"
    by (rule distinct_concat_map [OF d, of "addr_at g"]) (use addr core in \<open>auto simp: rd graph_core_def rf_ok_def\<close>)
  have rk: "at_kind isRead g r (\<lambda>_. True)" if r: "r \<in> set ?L" for r
  proof -
    from r obtain b us where b: "(b, us) \<in> set ?m" "r \<in> set us" by auto
    then have "r \<in> set (m_get ?m b)" using m_get_in [OF d b(1)] by simp
    from rdg [OF this] show ?thesis by (auto simp: at_kind_def)
  qed
  have "\<exists>h' M. foldR ?f us h = Inr h' \<and> ?I us h' M" if "distinct us" "set us \<subseteq> set ?L" for us
    using that
  proof (induction us rule: rev_induct)
    case Nil
    then show ?case using hl by (intro exI [of _ h] exI [of _ "lb_initRfs il"]) simp
  next
    case (snoc r us)
    then obtain h1 M where h1: "foldR ?f us h = Inr h1" "?I us h1 M" by auto
    from snoc.prems have r: "r \<in> set ?L" "r \<notin> set us" by auto
    show ?case
    proof (cases "has r")
      case False
      with h1 show ?thesis by (intro exI [of _ h1] exI [of _ M]) (simp add: foldR_append)
    next
      case True
      from rs [OF True rk [OF r(1)]] obtain rl where rl: "lab_at h r = Some rl" "isRead (lb_kind rl)"
        "lb_addr rl = addr_at g r" "addr_at g r \<in> set as" "r \<noteq> event_init" by (auto simp: at_kind_def)
      let ?a = "addr_at g r" let ?M = "m_mod ?a (\<lambda>rs. rs @ [r]) M"
      let ?h2 = "put_label event_init (il\<lparr>lb_initRfs := ?M\<rparr>) h1"
      have i1: "lab_at h1 event_init = Some (il\<lparr>lb_initRfs := M\<rparr>)" "lab_at h1 r = Some rl" using h1(2) rl by simp_all
      have "r \<notin> set (m_get M ?a)" using h1(2) r(2) by simp
      then have "?f r h1 = Inr ?h2"
        using True i1 rl by (simp add: isEventKind_def with_label_def init_addReader_def)
      then have "foldR ?f (us @ [r]) h = Inr ?h2" using h1(1) by (simp add: foldR_append)
      moreover have "?I (us @ [r]) ?h2 ?M"
      proof -
        have M: "map fst M = as" using h1(2) by blast
        have "?a \<in> set (map fst M)" unfolding M by (rule rl(4))
        then have "?a \<in> fst ` set M" by simp
        from map_fst_mod_tracked [OF this] M have "map fst ?M = as" by simp
        moreover have "lab_at ?h2 x = (if x = event_init then Some (il\<lparr>lb_initRfs := ?M\<rparr>) else lab_at h x)" for x
          using h1(2) lab_at_pos [OF i1(1)] by (simp add: lab_at_put)
        ultimately show ?thesis using h1(2) True by (simp add: m_get_mod)
      qed
      ultimately show ?thesis by blast
    qed
  qed
  from this [OF dL order.refl] obtain h' M where h': "foldR ?f ?L h = Inr h'" "?I ?L h' M" by blast
  have "filter (\<lambda>r. has r \<and> addr_at g r = a) ?L = filter has (m_get ?m a)" for a
    by (rule filter_concat_map [OF d addr])
  moreover have "fst ` set ?m = fst ` set (coherence g)" using arg_cong [OF kg(1), of set] by simp
  then have "copy_initRfs has g h = Inr h'" using il h'(1) by (simp del: map_map add: copy_initRfs_def L)
  ultimately show ?thesis using h'(2) by (intro exI [of _ h'] exI [of _ M]) simp
qed

section \<open>The copy\<close>

lemma getCopyUpTo_result:
  assumes g: "graph_ok g" and fit: "view_cut.fits v g"
  defines "has \<equiv> vc_has (VC_View v)"
  shows "\<exists>h. getCopyUpTo (VC_View v) g = Inr h \<and> graph_ok h \<and> restricted has g h \<and>
    (\<forall>x. containsPos h x \<longleftrightarrow> containsPos g x \<and> has x) \<and>
    (\<forall>x l. lab_at h x = Some l \<and> x \<noteq> event_init \<longrightarrow>
       (\<exists>l0. lab_at g x = Some l0 \<and> l = cut_pointers has l0)) \<and>
    (\<forall>a. co h a = filter has (co g a)) \<and> insertionOrder h = filter has (insertionOrder g) \<and>
    timestamp h = timestamp g \<and> recoveryTID h = recoveryTID g \<and> getNumThreads h = getNumThreads g \<and>
    stamp_of h event_init = 0 \<and> rf_at h event_init = None"
proof -
  let ?V = "VC_View v" let ?n = "getNumThreads g"
  let ?ps = "copy_order ?V ?n"
  have core: "graph_core g" and th: "threads_ok g" using g by (simp_all add: graph_ok_def)
  have inv: "view_inv v" using fit by (simp add: view_cut.fits_def)
  have top: "0 \<le> vc_max ?V i" for i by (rule view_cut.max_nonneg [OF inv])
  from core_init [OF core] obtain gl where gl: "lab_at g event_init = Some gl" "lb_kind gl = Init" .
  have hasI: "has event_init" unfolding has_def using view_cut.has_start [OF inv, of 0] by (simp add: event_init_def)
  have mem: "x \<in> set ?ps \<longleftrightarrow> containsPos g x \<and> has x \<and> x \<noteq> event_init" for x
  proof -
    have "valid x \<and> nat (thread x) < ?n \<and> index x \<le> vmax v (nat (thread x)) \<longleftrightarrow> containsPos g x \<and> has x"
    proof
      assume x: "valid x \<and> nat (thread x) < ?n \<and> index x \<le> vmax v (nat (thread x))"
      then have "index x < int (getThreadSize g (nat (thread x)))" using fit by (fastforce simp: view_cut.fits_def)
      with x show "containsPos g x \<and> has x" by (auto simp: containsPos_def valid_def has_def vc_has_view)
    next
      assume x: "containsPos g x \<and> has x"
      then have "valid x" by (simp add: containsPos_def valid_def)
      with x show "valid x \<and> nat (thread x) < ?n \<and> index x \<le> vmax v (nat (thread x))"
        by (simp add: has_def vc_has_view containsPos_def)
    qed
    then show ?thesis by (auto simp: copy_order_mem [OF top])
  qed
  define il where "il = init_label\<lparr>lb_stamp := Some 0, lb_calculated := [[]], lb_views := [[]],
    lb_prefixView := Some (VC_View [])\<rparr>"
  have il: "lb_kind il = Init" "lb_pos il = event_init" "lb_stamp il \<noteq> None"
    by (simp_all add: il_def init_label_def new_label_def)
  from copy_labels_view [OF g fit] obtain h1 where
    h1: "copy_labels ?V g new_graph = Inr h1" "copying g il ?ps h1" unfolding il_def by blast
  from h1(2) obtain as where as: "coherence h1 = empty_map as" "distinct as"
     "set as = {lb_addr l |e l. e \<in> set ?ps \<and> lab_at g e = Some l \<and> isMemAccess (lb_kind l)}"
     "\<And>x. lab_at h1 x = (if x = event_init then Some (il\<lparr>lb_initRfs := empty_map as\<rparr>)
        else if x \<in> set ?ps then map_option clone_label (lab_at g x) else None)"
     "timestamp h1 = timestamp g" "recoveryTID h1 = recoveryTID g" "getNumThreads h1 = ?n"
    by (auto simp: copying_def)
  have ords: "distinct (insertionOrder g)" "set (insertionOrder g) = {e. containsPos g e}"
    using core by (simp_all add: graph_core_def order_ok_def)
  let ?es = "filter has (insertionOrder g)"
  have es: "filter (\<lambda>e. vc_has ?V e \<or> index e \<le> vc_max ?V (nat (thread e))) (insertionOrder g) = ?es"
  proof (rule filter_cong [OF refl])
    fix e assume "e \<in> set (insertionOrder g)"
    then have "valid e" using ords(2) by (simp add: containsPos_def valid_def)
    then show "(vc_has ?V e \<or> index e \<le> vc_max ?V (nat (thread e))) = has e" by (simp add: has_def vc_has_view)
  qed
  let ?h2 = "h1\<lparr>insertionOrder := ?es\<rparr>"
  have pos2: "containsPos ?h2 x \<longleftrightarrow> containsPos g x \<and> has x" for x
    using as(4) [of x] mem [of x] hasI lab_at_pos [OF gl(1)] by (auto simp: containsPos_lab)
  have kinds: "isEventKind P ?h2 x" if "at_kind P g x (\<lambda>_. True)" "has x" for P x
    using that as(4) [of x] mem [of x] gl il(1) by (auto simp: at_kind_def isEventKind_def containsPos_lab)
  define F where "F e = (if e = event_init then il\<lparr>lb_initRfs := empty_map as\<rparr> else cut_pointers has (the (lab_at g e)))" for e
  have "\<exists>l. lab_at ?h2 e = Some l \<and> copy_pointers has g ?h2 l = Inr (F e)" if e: "e \<in> set ?es" for e
  proof (cases "e = event_init")
    case True
    have "copy_pointers has g ?h2 l = Inr l" if "lb_kind l = Init" for l
      using that by (simp add: copy_pointers_def)
    with True as(4) il(1) show ?thesis by (simp add: F_def)
  next
    case False
    from e ords(2) obtain l where l: "has e" "lab_at g e = Some l" by (auto simp: containsPos_lab)
    have "lb_kind l \<noteq> Init" using core_init_only [OF core l(2)] False by blast
    with copy_pointers_eq [OF core l(2), of ?h2 has] kinds pos2 have
      "copy_pointers has g ?h2 (clone_label l) = Inr (cut_pointers has l)" by simp
    moreover have "e \<in> set ?ps" using mem l False by (simp add: containsPos_lab)
    ultimately show ?thesis using False l as(4) by (simp add: F_def)
  qed
  from foldR_with_label [of ?es ?h2 _ F, OF _ this] ords(1) obtain h3 where
    h3: "foldR (\<lambda>e. with_label e (copy_pointers has g ?h2)) ?es ?h2 = Inr h3"
    "\<And>x. lab_at h3 x = (if x \<in> set ?es then Some (F x) else lab_at ?h2 x)" "coherence h3 = coherence ?h2"
    "insertionOrder h3 = insertionOrder ?h2" "timestamp h3 = timestamp ?h2" "recoveryTID h3 = recoveryTID ?h2"
    "getNumThreads h3 = getNumThreads ?h2" by auto
  have at3: "lab_at h3 x = (if x = event_init then Some (il\<lparr>lb_initRfs := empty_map as\<rparr>)
      else if has x then map_option (cut_pointers has) (lab_at g x) else None)" for x
  proof (cases "x \<in> set ?es")
    case True
    then show ?thesis using h3(2) [of x] ords(2) by (auto simp: F_def containsPos_lab)
  next
    case False
    then have no: "\<not> (containsPos g x \<and> has x)" using ords(2) by simp
    with pos2 [of x] have "\<not> containsPos ?h2 x" by blast
    then have "lab_at ?h2 x = None" unfolding lab_at_def by (rule if_not_P)
    moreover have "x \<noteq> event_init" using no hasI lab_at_pos [OF gl(1)] by blast
    moreover have "has x \<Longrightarrow> lab_at g x = None" using no unfolding lab_at_def by simp
    ultimately show ?thesis unfolding h3(2) if_not_P [OF False] by simp
  qed
  have tracked: "lb_addr l \<in> set as \<and> e \<noteq> event_init" if "lab_at g e = Some l" "isMemAccess (lb_kind l)" "has e" for e l
  proof -
    have "e \<noteq> event_init" using that gl kind_consts(4) by auto
    with that mem [of e] have "e \<in> set ?ps" by (simp add: containsPos_lab)
    with that(1,2) \<open>e \<noteq> event_init\<close> show ?thesis unfolding as(3) by blast
  qed
  have acc: "at_kind P h3 e (\<lambda>l. lb_addr l = addr_at g e) \<and> addr_at g e \<in> set as \<and> e \<noteq> event_init"
    if "at_kind P g e (\<lambda>_. True)" "has e" "\<And>k. P k \<Longrightarrow> isMemAccess k" for P e
  proof -
    from that(1) obtain l where l: "lab_at g e = Some l" "P (lb_kind l)" by (auto simp: at_kind_def)
    from tracked [OF l(1) that(3) [OF l(2)] that(2)] have t: "lb_addr l \<in> set as" "e \<noteq> event_init" by simp_all
    have k: "lb_kind l \<noteq> Init" using core_init_only [OF core l(1)] t(2) by blast
    with cut_pointers_restricts [OF k, of has] have "lb_addr (cut_pointers has l) = lb_addr l" by (simp add: restricts_def)
    with l t that(2) at3 [of e] show ?thesis by (simp add: at_kind_def)
  qed
  have "\<exists>h4. copy_coherence has g h3 = Inr h4 \<and> lab_at h4 = lab_at h3 \<and> (\<forall>a. co h4 a = filter has (co g a)) \<and>
    map fst (coherence h4) = map fst (coherence h3) \<and> insertionOrder h4 = insertionOrder h3 \<and>
    timestamp h4 = timestamp h3 \<and> recoveryTID h4 = recoveryTID h3 \<and> getNumThreads h4 = getNumThreads h3"
  proof (rule copy_coherence_eq [OF core, where as = as])
    show "set (map fst (coherence h3)) = set as" using h3(3) as(1) by simp
    show "co h3 a = []" for a using h3(3) as(1) by (simp add: co_def)
    show "at_kind (\<lambda>k. k = Init) h3 event_init (\<lambda>_. True)" using at3 il(1) by (simp add: at_kind_def)
    show "at_kind isWrite h3 w (\<lambda>l. lb_addr l = addr_at g w) \<and> addr_at g w \<in> set as"
      if "has w" "at_kind isWrite g w (\<lambda>_. True)" for w using acc [OF that(2,1)] kind_disjoint(4) by blast
  qed
  then obtain h4 where h4: "copy_coherence has g h3 = Inr h4" "lab_at h4 = lab_at h3" "\<And>a. co h4 a = filter has (co g a)"
    "map fst (coherence h4) = map fst (coherence h3)" "insertionOrder h4 = insertionOrder h3"
    "timestamp h4 = timestamp h3" "recoveryTID h4 = recoveryTID h3" "getNumThreads h4 = getNumThreads h3" by blast
  have i4: "lab_at h4 event_init = Some (il\<lparr>lb_initRfs := empty_map as\<rparr>)" using h4(2) at3 by simp
  have "\<exists>h5 M. copy_initRfs has g h4 = Inr h5 \<and>
    (\<forall>x. lab_at h5 x = (if x = event_init then Some ((il\<lparr>lb_initRfs := empty_map as\<rparr>)\<lparr>lb_initRfs := M\<rparr>) else lab_at h4 x)) \<and>
    map fst M = as \<and> (\<forall>a. m_get M a = filter has (m_get (lb_initRfs gl) a)) \<and> coherence h5 = coherence h4 \<and>
    insertionOrder h5 = insertionOrder h4 \<and> timestamp h5 = timestamp h4 \<and> recoveryTID h5 = recoveryTID h4 \<and>
    getNumThreads h5 = getNumThreads h4"
  proof (rule copy_initRfs_eq [OF core gl(1) i4])
    show "at_kind isRead h4 r (\<lambda>l. lb_addr l = addr_at g r) \<and> addr_at g r \<in> set as \<and> r \<noteq> event_init"
      if "has r" "at_kind isRead g r (\<lambda>_. True)" for r
      using acc [OF that(2,1)] kind_disjoint(3) h4(2) by (simp add: at_kind_def)
  qed simp_all
  moreover have "il\<lparr>lb_initRfs := A, lb_initRfs := M\<rparr> = il\<lparr>lb_initRfs := M\<rparr>" for A M by (cases il) simp
  ultimately obtain h5 M where h5: "copy_initRfs has g h4 = Inr h5"
    "\<And>x. lab_at h5 x = (if x = event_init then Some (il\<lparr>lb_initRfs := M\<rparr>) else lab_at h4 x)"
    "map fst M = as" "\<And>a. m_get M a = filter has (m_get (lb_initRfs gl) a)" "coherence h5 = coherence h4"
    "insertionOrder h5 = insertionOrder h4" "timestamp h5 = timestamp h4" "recoveryTID h5 = recoveryTID h4"
    "getNumThreads h5 = getNumThreads h4" by metis
  have ret: "getCopyUpTo ?V g = Inr h5"
    using h1(1) es h3(1) h4(1) h5(1)
    by (simp add: getCopyUpTo_def copyGraphUpTo_def Let_def has_def)
  have at5: "lab_at h5 x = (if x = event_init then Some (il\<lparr>lb_initRfs := M\<rparr>)
      else if has x then map_option (cut_pointers has) (lab_at g x) else None)" for x
    unfolding h5(2) h4(2) at3 by simp
  have pos5: "containsPos h5 x \<longleftrightarrow> containsPos g x \<and> has x" for x
    using at5 [of x] hasI lab_at_pos [OF gl(1)] by (auto simp: containsPos_lab)
  have res: "\<exists>l'. lab_at h5 x = Some l' \<and> restricts has l l'" if l: "lab_at g x = Some l" "has x" for x l
  proof (cases "x = event_init")
    case True
    have "lb_pos gl = event_init" using core gl(1) by (simp add: graph_core_def pos_ok_def)
    with True l gl at5 [of x] il h5(4) show ?thesis by (simp add: restricts_def)
  next
    case False
    have "lb_kind l \<noteq> Init" using core_init_only [OF core l(1)] False by blast
    from cut_pointers_restricts [OF this] False l at5 [of x] show ?thesis by simp
  qed
  have r: "restricted has g h5"
    unfolding restricted_def
  proof (intro conjI allI impI)
    show "\<exists>l'. lab_at h5 x = Some l' \<and> restricts has l l'" if "lab_at g x = Some l \<and> has x" for x l
      using res that by blast
    fix x l' assume l': "lab_at h5 x = Some l'"
    with pos5 [of x] obtain l where l: "lab_at g x = Some l" "has x" using lab_at_pos by (auto simp: containsPos_lab)
    from res [OF l] l' l show "is_hole x l' \<or> has x \<and> (\<exists>l. lab_at g x = Some l \<and> restricts has l l')" by auto
  qed
  have "graph_core h5"
  proof (rule restrict_core [OF core r])
    show start: "has (Event t 0)" if "containsPos g (Event t 0)" for t
      using that view_cut.has_start [OF inv, of "nat t"] by (simp add: containsPos_def has_def)
    show "lb_kind l \<noteq> Empty" if l: "lab_at h5 (Event t 0) = Some l" for t l
    proof -
      from pos5 lab_at_pos [OF l] obtain l0 where l0: "lab_at g (Event t 0) = Some l0" "has (Event t 0)"
        by (auto simp: containsPos_lab)
      from res [OF this] l have "restricts has l0 l" by simp
      with l0(1) core have "isThreadStart (lb_kind l)" unfolding graph_core_def start_ok_def by (metis restricts_kind)
      then show ?thesis using kind_consts(14) by metis
    qed
    show "co h5 a = filter has (co g a)" for a using h4(3) h5(5) by (simp add: co_def)
    show "keys_ok h5"
    proof (rule keys_okI)
      show "lab_at h5 event_init = Some (il\<lparr>lb_initRfs := M\<rparr>)" using at5 by simp
      show "map fst (lb_initRfs (il\<lparr>lb_initRfs := M\<rparr>)) = map fst (coherence h5)" "distinct (map fst (coherence h5))"
        using h5(3,5) h4(4) h3(3) as(1,2) by simp_all
      fix e l assume l: "lab_at h5 e = Some l" "isMemAccess (lb_kind l)"
      from pos5 lab_at_pos [OF l(1)] obtain l0 where l0: "lab_at g e = Some l0" "has e" by (auto simp: containsPos_lab)
      from res [OF this] l have r0: "restricts has l0 l" by simp
      with l have k: "isMemAccess (lb_kind l0)" by (simp add: restricts_kind)
      from tracked [OF l0(1) k l0(2)] have "lb_addr l0 \<in> set as" "e \<noteq> event_init" by simp_all
      moreover have "lb_kind l0 \<noteq> Init" using core_init_only [OF core l0(1)] calculation(2) by blast
      with r0 have "lb_addr l = lb_addr l0" by (simp add: restricts_def)
      moreover have "map fst (coherence h5) = as" using h5(5) h4(4) h3(3) as(1) by simp
      then have "fst ` set (coherence h5) = set as" by (metis list.set_map)
      ultimately show "lb_addr l \<in> fst ` set (coherence h5)" by simp
    qed
    show "order_ok h5"
      using ords pos5 h5(6) h4(5) h3(4) by (auto simp: order_ok_def)
  qed
  moreover have "threads_ok h5"
    unfolding threads_ok_def
  proof (intro allI impI)
    fix t assume "t < getNumThreads h5"
    then have "containsPos g (Event (int t) 0)"
      using h5(9) h4(8) h3(7) as(7) th by (simp add: threads_ok_def containsPos_Event)
    with pos5 view_cut.has_start [OF inv, of t] have "containsPos h5 (Event (int t) 0)" by (simp add: has_def)
    then show "0 < getThreadSize h5 t" by (simp add: containsPos_Event)
  qed
  moreover have "\<exists>l0. lab_at g x = Some l0 \<and> l = cut_pointers has l0"
    if "lab_at h5 x = Some l \<and> x \<noteq> event_init" for x l
    using that at5 [of x] by (auto split: if_splits)
  moreover have "co h5 a = filter has (co g a)" for a using h4(3) h5(5) by (simp add: co_def)
  moreover have "stamp_of h5 event_init = 0 \<and> rf_at h5 event_init = None"
    using at5 [of event_init] by (simp add: stamp_of_def rf_at_def il_def init_label_def new_label_def)
  ultimately show ?thesis using ret r pos5 h5(6-9) h4(5-8) h3(4-7) as(5-7) by (auto simp: graph_ok_def)
qed

end
