(* ===== verification/Graph_Ops.thy ===== *)
theory Graph_Ops
  imports Copy_Facts
begin

text \<open>
  The operations of the graph as one alphabet, the states they reach, and the invariant: as long
  as each operation is used as the driver uses it, no operation fails and every graph is well
  formed.
\<close>

section \<open>Allocations\<close>

lemma addAlloc_core:
  assumes core: "graph_core g" and m: "lab_at g m = Some ml" "isMemAccess (lb_kind ml)" "lb_alloc ml = None"
    and a: "lab_at g a = Some al" "isMalloc (lb_kind al)"
  shows "\<exists>h. addAlloc (Some a) m g = Inr h \<and> graph_core h \<and> (\<forall>x. containsPos h x = containsPos g x) \<and>
    getNumThreads h = getNumThreads g"
proof -
  have ok: "pos_ok g" "start_ok g" "rf_ok g" "co_ok g" "keys_ok g" "order_ok g" "alloc_ok g" "free_ok g"
    using core by (simp_all add: graph_core_def)
  have am: "a \<noteq> m" using m(1,2) a pointer_classes(5) [OF a(2)] by auto
  let ?ml = "ml\<lparr>lb_alloc := Some a\<rparr>" let ?al = "al\<lparr>lb_accesses := lb_accesses al @ [m]\<rparr>"
  let ?h = "put_label a ?al (put_label m ?ml g)"
  have new: "m \<notin> set (lb_accesses al)"
  proof
    assume "m \<in> set (lb_accesses al)"
    with ok(7) a have "at_kind isMemAccess g m (\<lambda>l. lb_alloc l = Some a)" unfolding alloc_ok_def by blast
    with m show False by (simp add: at_kind_def)
  qed
  have at: "lab_at ?h x = (if x = a then Some ?al else if x = m then Some ?ml else lab_at g x)" for x
    using lab_at_pos [OF m(1)] lab_at_pos [OF a(1)] by (simp add: lab_at_put)
  have "lab_at (put_label m ?ml g) a = Some al" using am a(1) lab_at_pos [OF m(1)] by (simp add: lab_at_put)
  then have run: "addAlloc (Some a) m g = Inr ?h"
    using m(1) new by (simp add: addAlloc_def with_label_def addAccess_def)
  have same: "\<exists>l. lab_at g x = Some l \<and> lb_kind l' = lb_kind l \<and> lb_pos l' = lb_pos l \<and> lb_stamp l' = lb_stamp l \<and>
      lb_addr l' = lb_addr l \<and> lb_rf l' = lb_rf l \<and> lb_readers l' = lb_readers l \<and> lb_initRfs l' = lb_initRfs l \<and>
      lb_free l' = lb_free l \<and> lb_parentJoin l' = lb_parentJoin l \<and>
      lb_alloc l' = (if x = m then Some a else lb_alloc l) \<and>
      lb_accesses l' = (if x = a then lb_accesses al @ [m] else lb_accesses l)" if "lab_at ?h x = Some l'" for x l'
    using that at [of x] m(1) a(1) am by (auto split: if_splits)
  have fwd: "\<exists>l'. lab_at ?h x = Some l' \<and> lb_kind l' = lb_kind l \<and> lb_addr l' = lb_addr l \<and> lb_rf l' = lb_rf l \<and>
      lb_initRfs l' = lb_initRfs l \<and> lb_readers l' = lb_readers l \<and> lb_free l' = lb_free l \<and>
      lb_alloc l' = (if x = m then Some a else lb_alloc l) \<and>
      lb_accesses l' = (if x = a then lb_accesses al @ [m] else lb_accesses l)" if "lab_at g x = Some l" for x l
    using that at [of x] m(1) a(1) am by auto
  have pos: "containsPos ?h x = containsPos g x" for x by simp
  have rd: "readers_of ?h = readers_of g"
  proof (intro ext)
    fix w b show "readers_of ?h w b = readers_of g w b"
    proof (cases "lab_at g w")
      case None
      with pos [of w] have "lab_at ?h w = None" by (simp add: lab_at_def split: if_splits)
      with None show ?thesis by (simp add: readers_of_def)
    next
      case (Some l)
      from fwd [OF this] Some show ?thesis by (auto simp: readers_of_def)
    qed
  qed
  have keep: "at_kind P ?h x R" if "at_kind P g x Q" "\<And>l l'. Q l \<Longrightarrow> lb_addr l' = lb_addr l \<Longrightarrow> lb_rf l' = lb_rf l \<Longrightarrow>
      lb_initRfs l' = lb_initRfs l \<Longrightarrow> lb_free l' = lb_free l \<Longrightarrow>
      lb_alloc l' = (if x = m then Some a else lb_alloc l) \<Longrightarrow>
      lb_accesses l' = (if x = a then lb_accesses al @ [m] else lb_accesses l) \<Longrightarrow> lab_at g x = Some l \<Longrightarrow> R l'" for P x Q R
  proof -
    from that(1) obtain l where l: "lab_at g x = Some l" "P (lb_kind l)" "Q l" by (auto simp: at_kind_def)
    from fwd [OF l(1)] obtain l' where l': "lab_at ?h x = Some l'" "lb_kind l' = lb_kind l" "lb_addr l' = lb_addr l"
      "lb_rf l' = lb_rf l" "lb_initRfs l' = lb_initRfs l" "lb_free l' = lb_free l"
      "lb_alloc l' = (if x = m then Some a else lb_alloc l)"
      "lb_accesses l' = (if x = a then lb_accesses al @ [m] else lb_accesses l)" by blast
    from that(2) [OF l(3) l'(3-8) l(1)] l'(1,2) l(2) show ?thesis by (simp add: at_kind_def)
  qed
  have "pos_ok ?h" using ok(1) same unfolding pos_ok_def by metis
  moreover have "start_ok ?h"
  proof -
    have "at_kind (\<lambda>k. k = Init) ?h event_init (\<lambda>_. True)"
      using ok(2) by (intro keep [of _ event_init "\<lambda>_. True"]) (simp_all add: start_ok_def)
    with ok(2) same show ?thesis unfolding start_ok_def by metis
  qed
  moreover have "rf_ok ?h"
    unfolding rf_ok_def rd
  proof (intro conjI allI impI)
    fix r l' w assume "lab_at ?h r = Some l' \<and> isRead (lb_kind l') \<and> lb_rf l' = Some w"
    with same [of r l'] ok(3) show "r \<in> set (readers_of g w (lb_addr l'))" unfolding rf_ok_def by metis
  next
    fix w b r assume "r \<in> set (readers_of g w b)"
    with ok(3) have "at_kind isRead g r (\<lambda>l. lb_rf l = Some w \<and> (w = event_init \<longrightarrow> lb_addr l = b))"
      by (simp add: rf_ok_def)
    then show "at_kind isRead ?h r (\<lambda>l. lb_rf l = Some w \<and> (w = event_init \<longrightarrow> lb_addr l = b))" by (rule keep) simp
  qed (use ok(3) in \<open>simp add: rf_ok_def\<close>)
  moreover have "co_ok ?h"
    unfolding co_ok_def
  proof (intro allI conjI ballI)
    fix b show "distinct (co ?h b)" using ok(4) by (simp add: co_ok_def co_def)
    fix w assume "w \<in> set (co ?h b)"
    then have "at_kind isWrite g w (\<lambda>l. lb_addr l = b)" using ok(4) by (simp add: co_ok_def co_def)
    then show "at_kind isWrite ?h w (\<lambda>l. lb_addr l = b)" by (rule keep) simp
  qed
  moreover have "keys_ok ?h"
  proof -
    from ok(5) obtain il where il: "lab_at g event_init = Some il" "map fst (lb_initRfs il) = map fst (coherence g)"
      by (auto simp: keys_ok_def at_kind_def)
    from fwd [OF il(1)] obtain il' where il': "lab_at ?h event_init = Some il'" "lb_initRfs il' = lb_initRfs il" by blast
    from il'(1) show ?thesis
    proof (rule keys_okI)
      show "map fst (lb_initRfs il') = map fst (coherence ?h)" "distinct (map fst (coherence ?h))"
        using il il'(2) ok(5) by (simp_all add: keys_ok_def)
      show "lb_addr l' \<in> fst ` set (coherence ?h)" if "lab_at ?h e = Some l'" "isMemAccess (lb_kind l')" for e l'
        using same [OF that(1)] that(2) ok(5) unfolding keys_ok_def put_label_fields by metis
    qed
  qed
  moreover have "order_ok ?h" using ok(6) by (simp add: order_ok_def)
  moreover have "alloc_ok ?h"
    unfolding alloc_ok_def
  proof (intro conjI allI impI)
    fix x l' b assume x: "lab_at ?h x = Some l' \<and> isMemAccess (lb_kind l') \<and> lb_alloc l' = Some b"
    from x same [of x l'] obtain l where l: "lab_at g x = Some l" "lb_kind l' = lb_kind l"
      "lb_alloc l' = (if x = m then Some a else lb_alloc l)" by blast
    show "at_kind isMalloc ?h b (\<lambda>bl. x \<in> set (lb_accesses bl))"
    proof (cases "x = m")
      case True
      with x l(3) at [of a] a(2) show ?thesis by (auto simp: at_kind_def)
    next
      case False
      with x l have "lab_at g x = Some l \<and> isMemAccess (lb_kind l) \<and> lb_alloc l = Some b" by simp
      with ok(7) have "at_kind isMalloc g b (\<lambda>bl. x \<in> set (lb_accesses bl))" unfolding alloc_ok_def by blast
      then show ?thesis by (rule keep) (use a(1) in auto)
    qed
  next
    fix b bl' x assume b: "lab_at ?h b = Some bl' \<and> isMalloc (lb_kind bl') \<and> x \<in> set (lb_accesses bl')"
    from b same [of b bl'] obtain bl where bl: "lab_at g b = Some bl" "lb_kind bl' = lb_kind bl"
      "lb_accesses bl' = (if b = a then lb_accesses al @ [m] else lb_accesses bl)" by blast
    show "at_kind isMemAccess ?h x (\<lambda>l. lb_alloc l = Some b)"
    proof (cases "b = a \<and> x = m")
      case True
      with at [of m] am m(2) show ?thesis by (simp add: at_kind_def)
    next
      case False
      with b bl a(1) have "lab_at g b = Some bl \<and> isMalloc (lb_kind bl) \<and> x \<in> set (lb_accesses bl)"
        by (auto split: if_splits)
      with ok(7) have x: "at_kind isMemAccess g x (\<lambda>l. lb_alloc l = Some b)" unfolding alloc_ok_def by blast
      with m(1,3) have "x \<noteq> m" by (auto simp: at_kind_def)
      with x show ?thesis by (elim keep) simp
    qed
  next
    fix b bl' assume b: "lab_at ?h b = Some bl' \<and> isMalloc (lb_kind bl')"
    from b same [of b bl'] obtain bl where bl: "lab_at g b = Some bl" "lb_kind bl' = lb_kind bl"
      "lb_accesses bl' = (if b = a then lb_accesses al @ [m] else lb_accesses bl)" by blast
    have "distinct (lb_accesses bl)" using ok(7) b bl(1,2) unfolding alloc_ok_def by (metis)
    with bl new a(1) show "distinct (lb_accesses bl')" by auto
  qed
  moreover have "free_ok ?h"
    unfolding free_ok_def
  proof (intro conjI allI impI)
    fix d l' b assume d: "lab_at ?h d = Some l' \<and> isFree (lb_kind l') \<and> lb_alloc l' = Some b"
    from d same [of d l'] obtain l where l: "lab_at g d = Some l" "lb_kind l' = lb_kind l"
      "lb_alloc l' = (if d = m then Some a else lb_alloc l)" by blast
    have "d \<noteq> m" using d l(1,2) m(1,2) pointer_classes(4) [of "lb_kind l"] by auto
    with d l have "lab_at g d = Some l \<and> isFree (lb_kind l) \<and> lb_alloc l = Some b" by simp
    with ok(8) have "at_kind isMalloc g b (\<lambda>bl. lb_free bl = Some d)" unfolding free_ok_def by blast
    then show "at_kind isMalloc ?h b (\<lambda>bl. lb_free bl = Some d)" by (rule keep) simp
  next
    fix b bl' d assume b: "lab_at ?h b = Some bl' \<and> isMalloc (lb_kind bl') \<and> lb_free bl' = Some d"
    from b same [of b bl'] obtain bl where "lab_at g b = Some bl \<and> isMalloc (lb_kind bl) \<and> lb_free bl = Some d" by metis
    with ok(8) have d: "at_kind isFree g d (\<lambda>l. lb_alloc l = Some b)" unfolding free_ok_def by blast
    then have "d \<noteq> m" using m(1,2) pointer_classes(4) by (auto simp: at_kind_def)
    with d show "at_kind isFree ?h d (\<lambda>l. lb_alloc l = Some b)" by (elim keep) simp
  next
    fix e l' j assume e: "lab_at ?h e = Some l' \<and> isThreadFinish (lb_kind l') \<and> lb_parentJoin l' = Some j"
    from e same [of e l'] obtain l where "lab_at g e = Some l \<and> isThreadFinish (lb_kind l) \<and> lb_parentJoin l = Some j" by metis
    with ok(8) have "at_kind (\<lambda>k. k = ThreadJoin) g j (\<lambda>_. True)" unfolding free_ok_def by blast
    then show "at_kind (\<lambda>k. k = ThreadJoin) ?h j (\<lambda>_. True)" by (rule keep) simp
  qed
  ultimately have "graph_core ?h" by (simp add: graph_core_def)
  with run pos show ?thesis by (intro exI [of _ ?h]) simp
qed

end
