(* ===== verification/Graph_Relabels.thy ===== *)
theory Graph_Relabels
  imports Graph_Ops
begin

text \<open>
  Changes of a graph that leave its edges alone: they keep a graph well formed, and compressing the
  stamps (\<open>ExecutionGraph::compressStampsAfter\<close>) is one.
\<close>

lemma threads_ok_same:
  assumes "threads_ok g" "\<And>x. containsPos g x \<Longrightarrow> containsPos h x" "getNumThreads h = getNumThreads g"
  shows "threads_ok h"
  unfolding threads_ok_def
proof (intro allI impI)
  fix t assume "t < getNumThreads h"
  with assms(1,3) have "containsPos g (Event (int t) 0)" by (simp add: threads_ok_def containsPos_Event)
  from assms(2) [OF this] show "0 < getThreadSize h t" by (simp add: containsPos_Event)
qed

lemma threads_ok_lab:
  assumes "threads_ok g" "lab_at h = lab_at g" "getNumThreads h = getNumThreads g"
  shows "threads_ok h"
  using assms by (intro threads_ok_same [of g h]) (simp_all add: containsPos_lab)

section \<open>Changes that leave the edges alone\<close>

text \<open>Two labels that agree on everything that well-formedness speaks about; the value of the stamp
  and the flags may differ.\<close>

definition core_same :: "label \<Rightarrow> label \<Rightarrow> bool" where
  "core_same l l' \<longleftrightarrow> lb_kind l' = lb_kind l \<and> lb_pos l' = lb_pos l \<and> (lb_stamp l' = None \<longleftrightarrow> lb_stamp l = None) \<and>
     lb_addr l' = lb_addr l \<and> lb_rf l' = lb_rf l \<and> lb_readers l' = lb_readers l \<and> lb_initRfs l' = lb_initRfs l \<and>
     lb_alloc l' = lb_alloc l \<and> lb_free l' = lb_free l \<and> lb_accesses l' = lb_accesses l \<and>
     lb_parentJoin l' = lb_parentJoin l"

definition relabelled :: "exec_graph \<Rightarrow> exec_graph \<Rightarrow> bool" where
  "relabelled g h \<longleftrightarrow> (\<forall>x. rel_option core_same (lab_at g x) (lab_at h x)) \<and> coherence h = coherence g \<and>
     insertionOrder h = insertionOrder g \<and> getNumThreads h = getNumThreads g"

lemma core_same_refl [simp]: "core_same l l"
  by (simp add: core_same_def)

lemma core_same_trans: "core_same a b \<Longrightarrow> core_same b c \<Longrightarrow> core_same a c"
  by (simp add: core_same_def)

lemma relabelled_refl: "relabelled g g"
  by (simp add: relabelled_def option.rel_refl)

lemma relabelled_trans:
  assumes "relabelled a b" "relabelled b c"
  shows "relabelled a c"
proof -
  have "rel_option core_same (lab_at a x) (lab_at c x)" for x
  proof -
    have "rel_option core_same (lab_at a x) (lab_at b x)" "rel_option core_same (lab_at b x) (lab_at c x)"
      using assms by (simp_all add: relabelled_def)
    then show ?thesis
      by (cases "lab_at a x"; cases "lab_at b x"; cases "lab_at c x") (auto intro: core_same_trans)
  qed
  with assms show ?thesis by (simp add: relabelled_def)
qed

lemma relabelledD:
  assumes "relabelled g h" "lab_at g x = Some l"
  obtains l' where "lab_at h x = Some l'" "core_same l l'"
  using assms by (auto simp: relabelled_def elim!: allE [of _ x] simp: option_rel_Some1)

lemma relabelledE:
  assumes "relabelled g h" "lab_at h x = Some l'"
  obtains l where "lab_at g x = Some l" "core_same l l'"
  using assms by (auto simp: relabelled_def elim!: allE [of _ x] simp: option_rel_Some2)

lemma relabelled_containsPos: "relabelled g h \<Longrightarrow> containsPos h x \<longleftrightarrow> containsPos g x"
  unfolding containsPos_lab using relabelledD relabelledE by metis

lemma relabelled_threads: "relabelled g h \<Longrightarrow> threads_ok g \<Longrightarrow> threads_ok h"
  by (rule threads_ok_same [of g]) (simp_all add: relabelled_containsPos, simp add: relabelled_def)

lemma relabelled_at_kind:
  assumes "relabelled g h" "at_kind P g x Q" "\<And>l l'. core_same l l' \<Longrightarrow> Q l \<Longrightarrow> R l'"
  shows "at_kind P h x R"
proof -
  from assms(2) obtain l where l: "lab_at g x = Some l" "P (lb_kind l)" "Q l" by (auto simp: at_kind_def)
  from relabelledD [OF assms(1) l(1)] obtain l' where "lab_at h x = Some l'" "core_same l l'" .
  with l assms(3) show ?thesis unfolding at_kind_def by (metis core_same_def)
qed

lemma relabelled_readers: 
  assumes "relabelled g h"
  shows "readers_of h = readers_of g"
proof (intro ext)
  fix w a show "readers_of h w a = readers_of g w a"
  proof (cases "lab_at g w")
    case None
    with relabelled_containsPos [OF assms, of w] have "lab_at h w = None" by (simp add: lab_at_def split: if_splits)
    with None show ?thesis by (simp add: readers_of_def)
  next
    case (Some l)
    from relabelledD [OF assms Some] obtain l' where "lab_at h w = Some l'" "core_same l l'" .
    with Some show ?thesis by (simp add: readers_of_def core_same_def)
  qed
qed

lemma relabelled_co: "relabelled g h \<Longrightarrow> co h a = co g a"
  by (simp add: relabelled_def co_def)

lemma relabelled_core:
  assumes r: "relabelled g h" and core: "graph_core g"
  shows "graph_core h"
proof -
  have ok: "pos_ok g" "start_ok g" "rf_ok g" "co_ok g" "keys_ok g" "order_ok g" "alloc_ok g" "free_ok g"
    using core by (simp_all add: graph_core_def)
  note E = relabelledE [OF r]
  note K = relabelled_at_kind [OF r]
  have "pos_ok h"
    unfolding pos_ok_def
  proof (intro allI impI)
    fix e l' assume "lab_at h e = Some l'"
    from E [OF this] obtain l where "lab_at g e = Some l" "core_same l l'" .
    with ok(1) show "lb_pos l' = e \<and> lb_stamp l' \<noteq> None" by (simp add: pos_ok_def core_same_def)
  qed
  moreover have "start_ok h"
  proof -
    have "at_kind (\<lambda>k. k = Init) h event_init (\<lambda>_. True)"
      using ok(2) by (intro K [of _ event_init "\<lambda>_. True"]) (simp_all add: start_ok_def)
    moreover have "isThreadStart (lb_kind l')" if l: "lab_at h (Event t 0) = Some l'" for t l'
    proof -
      from E [OF l] obtain l where "lab_at g (Event t 0) = Some l" "core_same l l'" .
      with ok(2) show ?thesis by (simp add: start_ok_def core_same_def)
    qed
    moreover have "e = event_init" if l: "lab_at h e = Some l'" "lb_kind l' = Init" for e l'
    proof -
      from E [OF l(1)] obtain l where "lab_at g e = Some l" "core_same l l'" .
      with ok(2) l(2) show ?thesis by (simp add: start_ok_def core_same_def)
    qed
    ultimately show ?thesis unfolding start_ok_def by blast
  qed
  moreover have "rf_ok h"
    unfolding rf_ok_def relabelled_readers [OF r]
  proof (intro conjI allI impI)
    fix r' l w assume "lab_at h r' = Some l \<and> isRead (lb_kind l) \<and> lb_rf l = Some w"
    moreover from this obtain l0 where "lab_at g r' = Some l0" "core_same l0 l" using E by blast
    ultimately show "r' \<in> set (readers_of g w (lb_addr l))" using ok(3) by (simp add: rf_ok_def core_same_def)
  next
    fix w a r' assume "r' \<in> set (readers_of g w a)"
    with ok(3) have "at_kind isRead g r' (\<lambda>l. lb_rf l = Some w \<and> (w = event_init \<longrightarrow> lb_addr l = a))"
      by (simp add: rf_ok_def)
    then show "at_kind isRead h r' (\<lambda>l. lb_rf l = Some w \<and> (w = event_init \<longrightarrow> lb_addr l = a))"
      by (rule K) (simp add: core_same_def)
  next
    fix w a show "distinct (readers_of g w a)" using ok(3) by (simp add: rf_ok_def)
  qed
  moreover have "co_ok h"
    unfolding co_ok_def relabelled_co [OF r]
  proof (intro allI conjI ballI)
    fix a show "distinct (co g a)" using ok(4) by (simp add: co_ok_def)
  next
    fix a w assume "w \<in> set (co g a)"
    with ok(4) have "at_kind isWrite g w (\<lambda>l. lb_addr l = a)" by (simp add: co_ok_def)
    then show "at_kind isWrite h w (\<lambda>l. lb_addr l = a)" by (rule K) (simp add: core_same_def)
  qed
  moreover have "keys_ok h"
  proof -
    have c: "coherence h = coherence g" using r by (simp add: relabelled_def)
    have "at_kind (\<lambda>_. True) h event_init (\<lambda>l. map fst (lb_initRfs l) = map fst (coherence h))"
      unfolding c using ok(5) by (intro K [of _ event_init]) (auto simp: keys_ok_def core_same_def)
    moreover have "lb_addr l \<in> fst ` set (coherence h)" if l: "lab_at h e = Some l" "isMemAccess (lb_kind l)" for e l
    proof -
      from E [OF l(1)] obtain l0 where "lab_at g e = Some l0" "core_same l0 l" .
      with ok(5) l(2) c show ?thesis by (simp add: keys_ok_def core_same_def)
    qed
    moreover have "distinct (map fst (coherence h))" using ok(5) c by (simp add: keys_ok_def)
    ultimately show ?thesis unfolding keys_ok_def by blast
  qed
  moreover have "order_ok h" using ok(6) r by (simp add: order_ok_def relabelled_containsPos [OF r]) (simp add: relabelled_def)
  moreover have "alloc_ok h"
    unfolding alloc_ok_def
  proof (intro conjI allI impI)
    fix m l a assume "lab_at h m = Some l \<and> isMemAccess (lb_kind l) \<and> lb_alloc l = Some a"
    moreover from this obtain l0 where "lab_at g m = Some l0" "core_same l0 l" using E by blast
    ultimately have "lab_at g m = Some l0 \<and> isMemAccess (lb_kind l0) \<and> lb_alloc l0 = Some a" by (simp add: core_same_def)
    then have "at_kind isMalloc g a (\<lambda>al. m \<in> set (lb_accesses al))" using ok(7) unfolding alloc_ok_def by blast
    then show "at_kind isMalloc h a (\<lambda>al. m \<in> set (lb_accesses al))" by (rule K) (simp add: core_same_def)
  next
    fix a al m assume "lab_at h a = Some al \<and> isMalloc (lb_kind al) \<and> m \<in> set (lb_accesses al)"
    moreover from this obtain l0 where "lab_at g a = Some l0" "core_same l0 al" using E by blast
    ultimately have "lab_at g a = Some l0 \<and> isMalloc (lb_kind l0) \<and> m \<in> set (lb_accesses l0)" by (simp add: core_same_def)
    then have "at_kind isMemAccess g m (\<lambda>l. lb_alloc l = Some a)" using ok(7) unfolding alloc_ok_def by blast
    then show "at_kind isMemAccess h m (\<lambda>l. lb_alloc l = Some a)" by (rule K) (simp add: core_same_def)
  next
    fix a al assume "lab_at h a = Some al \<and> isMalloc (lb_kind al)"
    moreover from this obtain l0 where "lab_at g a = Some l0" "core_same l0 al" using E by blast
    ultimately have "lab_at g a = Some l0 \<and> isMalloc (lb_kind l0)" "lb_accesses al = lb_accesses l0" by (simp_all add: core_same_def)
    moreover from this(1) ok(7) have "distinct (lb_accesses l0)" unfolding alloc_ok_def by blast
    ultimately show "distinct (lb_accesses al)" by simp
  qed
  moreover have "free_ok h"
    unfolding free_ok_def
  proof (intro conjI allI impI)
    fix d l a assume "lab_at h d = Some l \<and> isFree (lb_kind l) \<and> lb_alloc l = Some a"
    moreover from this obtain l0 where "lab_at g d = Some l0" "core_same l0 l" using E by blast
    ultimately have "lab_at g d = Some l0 \<and> isFree (lb_kind l0) \<and> lb_alloc l0 = Some a" by (simp add: core_same_def)
    then have "at_kind isMalloc g a (\<lambda>al. lb_free al = Some d)" using ok(8) unfolding free_ok_def by blast
    then show "at_kind isMalloc h a (\<lambda>al. lb_free al = Some d)" by (rule K) (simp add: core_same_def)
  next
    fix a al d assume "lab_at h a = Some al \<and> isMalloc (lb_kind al) \<and> lb_free al = Some d"
    moreover from this obtain l0 where "lab_at g a = Some l0" "core_same l0 al" using E by blast
    ultimately have "lab_at g a = Some l0 \<and> isMalloc (lb_kind l0) \<and> lb_free l0 = Some d" by (simp add: core_same_def)
    then have "at_kind isFree g d (\<lambda>l. lb_alloc l = Some a)" using ok(8) unfolding free_ok_def by blast
    then show "at_kind isFree h d (\<lambda>l. lb_alloc l = Some a)" by (rule K) (simp add: core_same_def)
  next
    fix e l j assume "lab_at h e = Some l \<and> isThreadFinish (lb_kind l) \<and> lb_parentJoin l = Some j"
    moreover from this obtain l0 where "lab_at g e = Some l0" "core_same l0 l" using E by blast
    ultimately have "lab_at g e = Some l0 \<and> isThreadFinish (lb_kind l0) \<and> lb_parentJoin l0 = Some j" by (simp add: core_same_def)
    then have "at_kind (\<lambda>k. k = ThreadJoin) g j (\<lambda>_. True)" using ok(8) unfolding free_ok_def by blast
    then show "at_kind (\<lambda>k. k = ThreadJoin) h j (\<lambda>_. True)" by (rule K) simp
  qed
  ultimately show ?thesis by (simp add: graph_core_def)
qed

lemma relabelled_ok: "relabelled g h \<Longrightarrow> graph_ok g \<Longrightarrow> graph_ok h"
  by (simp add: graph_ok_def relabelled_core relabelled_threads)

lemma relabelled_put:
  assumes "lab_at g e = Some l" "core_same l l'"
  shows "relabelled g (put_label e l' g)"
proof -
  have "rel_option core_same (lab_at g x) (lab_at (put_label e l' g) x)" for x
    using assms lab_at_pos [OF assms(1)] by (cases "lab_at g x") (auto simp: lab_at_put)
  then show ?thesis by (simp add: relabelled_def)
qed

section \<open>Compressing stamps\<close>

lemma stamp_of_at: "lab_at g x = Some l \<Longrightarrow> stamp_of g x = the (lb_stamp l)"
  by (simp add: stamp_of_def)

definition flags_same :: "label \<Rightarrow> label \<Rightarrow> bool" where
  "flags_same l l' \<longleftrightarrow> lb_maximal l' = lb_maximal l \<and> lb_ipr l' = lb_ipr l \<and> lb_revisitable l' = lb_revisitable l"

lemma compress_loop:
  assumes "graph_core g" "set es \<subseteq> {e. containsPos g e}" "distinct es"
  shows "\<exists>h. foldR (\<lambda>e h. bindR (deref h e) (\<lambda>l.
         if the (lb_stamp l) > st
         then Inr (put_label e (l\<lparr>lb_stamp := Some (fst (nextStamp h))\<rparr>) (snd (nextStamp h)))
         else Inr h)) es g = Inr h \<and> relabelled g h \<and> recoveryTID h = recoveryTID g \<and>
     (\<forall>x l l'. lab_at g x = Some l \<and> lab_at h x = Some l' \<longrightarrow> l' = l\<lparr>lb_stamp := lb_stamp l'\<rparr> \<and>
        (x \<notin> set es \<or> stamp_of g x \<le> st \<longrightarrow> lb_stamp l' = lb_stamp l)) \<and>
     (\<forall>x \<in> set es. stamp_of g x > st \<longrightarrow> (\<exists>n. stamp_of h x = timestamp g + of_nat n \<and>
        n = length (filter (\<lambda>e. stamp_of g e > st) (takeWhile (\<lambda>e. e \<noteq> x) es)))) \<and>
     timestamp h = timestamp g + of_nat (length (filter (\<lambda>e. stamp_of g e > st) es))"
  using assms
proof (induction es arbitrary: g)
  case Nil
  then show ?case by (auto simp: relabelled_refl)
next
  case (Cons e es)
  then have "containsPos g e" by simp
  then obtain l where l: "lab_at g e = Some l" by (auto simp: containsPos_lab)
  have st: "stamp_of g e = the (lb_stamp l)" by (rule stamp_of_at [OF l])
  show ?case
  proof (cases "the (lb_stamp l) > st")
    case False
    from Cons.IH [of g] Cons.prems obtain h where h: "foldR (\<lambda>e h. bindR (deref h e) (\<lambda>l.
         if the (lb_stamp l) > st
         then Inr (put_label e (l\<lparr>lb_stamp := Some (fst (nextStamp h))\<rparr>) (snd (nextStamp h)))
         else Inr h)) es g = Inr h" "relabelled g h" "recoveryTID h = recoveryTID g"
      "\<And>x l l'. lab_at g x = Some l \<and> lab_at h x = Some l' \<Longrightarrow> l' = l\<lparr>lb_stamp := lb_stamp l'\<rparr> \<and>
        (x \<notin> set es \<or> stamp_of g x \<le> st \<longrightarrow> lb_stamp l' = lb_stamp l)"
      "\<And>x. x \<in> set es \<Longrightarrow> stamp_of g x > st \<Longrightarrow> stamp_of h x = timestamp g +
        of_nat (length (filter (\<lambda>e. stamp_of g e > st) (takeWhile (\<lambda>e. e \<noteq> x) es)))"
      "timestamp h = timestamp g + of_nat (length (filter (\<lambda>e. stamp_of g e > st) es))"
      by auto
    have "\<not> stamp_of g e > st" using False st by simp
    with h l False show ?thesis
      by (intro exI [of _ h]) (auto simp: h(5))
  next
    case True
    let ?l = "l\<lparr>lb_stamp := Some (timestamp g)\<rparr>"
    let ?gt = "g\<lparr>timestamp := stamp_inc (timestamp g)\<rparr>"
    let ?g = "put_label e ?l ?gt"
    have l0: "lab_at ?gt e = Some l" using l by simp
    have "lb_stamp l \<noteq> None" using Cons.prems(1) l by (simp add: graph_core_def pos_ok_def)
    then have same: "core_same l ?l" by (simp add: core_same_def)
    have r0: "relabelled g ?gt" by (simp add: relabelled_def option.rel_refl)
    have r: "relabelled g ?g" by (rule relabelled_trans [OF r0 relabelled_put [OF l0 same]])
    have at: "lab_at ?g x = (if x = e then Some ?l else lab_at g x)" for x
      using lab_at_pos [OF l0] by (simp add: lab_at_put)
    have so: "stamp_of ?g x = (if x = e then timestamp g else stamp_of g x)" for x
      by (simp add: stamp_of_def at)
    have sub: "set es \<subseteq> {x. containsPos ?g x}" using Cons.prems(2) relabelled_containsPos [OF r] by auto
    from Cons.IH [OF relabelled_core [OF r Cons.prems(1)] sub] Cons.prems(3) obtain h where h: "foldR (\<lambda>e h. bindR (deref h e) (\<lambda>l.
         if the (lb_stamp l) > st
         then Inr (put_label e (l\<lparr>lb_stamp := Some (fst (nextStamp h))\<rparr>) (snd (nextStamp h)))
         else Inr h)) es ?g = Inr h" "relabelled ?g h" "recoveryTID h = recoveryTID ?g"
      "\<And>x l l'. lab_at ?g x = Some l \<and> lab_at h x = Some l' \<Longrightarrow> l' = l\<lparr>lb_stamp := lb_stamp l'\<rparr> \<and>
        (x \<notin> set es \<or> stamp_of ?g x \<le> st \<longrightarrow> lb_stamp l' = lb_stamp l)"
      "\<And>x. x \<in> set es \<Longrightarrow> stamp_of ?g x > st \<Longrightarrow> stamp_of h x = timestamp ?g +
        of_nat (length (filter (\<lambda>e. stamp_of ?g e > st) (takeWhile (\<lambda>e. e \<noteq> x) es)))"
      "timestamp h = timestamp ?g + of_nat (length (filter (\<lambda>e. stamp_of ?g e > st) es))"
      by auto
    have e: "e \<notin> set es" using Cons.prems(3) by simp
    have ts: "timestamp ?g = timestamp g + 1" by (simp add: stamp_inc_def)
    have fl: "filter (\<lambda>x. stamp_of ?g x > st) xs = filter (\<lambda>x. stamp_of g x > st) xs" if "e \<notin> set xs" for xs
      using that by (intro filter_cong) (auto simp: so)
    have ft: "filter (\<lambda>x. stamp_of ?g x > st) (takeWhile P es) = filter (\<lambda>x. stamp_of g x > st) (takeWhile P es)" for P
      by (rule fl) (use e set_takeWhileD in fastforce)
    have e_at: "lab_at h e = Some ?l"
    proof -
      from relabelledD [OF h(2), of e ?l] at obtain l' where l': "lab_at h e = Some l'" by auto
      from h(4) [of e ?l l'] l' at e have "l' = ?l\<lparr>lb_stamp := lb_stamp l'\<rparr>" "lb_stamp l' = lb_stamp ?l" by auto
      with l' show ?thesis by simp
    qed
    have other: "l' = la\<lparr>lb_stamp := lb_stamp l'\<rparr> \<and> (x \<notin> set (e # es) \<or> stamp_of g x \<le> st \<longrightarrow> lb_stamp l' = lb_stamp la)"
      if "lab_at g x = Some la" "lab_at h x = Some l'" for x la l'
    proof (cases "x = e")
      case True
      with that e_at l \<open>the (lb_stamp l) > st\<close> st show ?thesis by auto
    next
      case False
      with that h(4) [of x la l'] at [of x] so [of x] show ?thesis by simp
    qed
    have stamps: "stamp_of h x = timestamp g + of_nat (length (filter (\<lambda>y. stamp_of g y > st) (takeWhile (\<lambda>y. y \<noteq> x) (e # es))))"
      if "x \<in> set (e # es)" "stamp_of g x > st" for x
    proof (cases "x = e")
      case True
      with e_at show ?thesis by (simp add: stamp_of_def)
    next
      case False
      with that h(5) [of x] so [of x] have "stamp_of h x = timestamp ?g +
        of_nat (length (filter (\<lambda>y. stamp_of ?g y > st) (takeWhile (\<lambda>y. y \<noteq> x) es)))" by simp
      with False ts \<open>the (lb_stamp l) > st\<close> st show ?thesis unfolding ft by (simp add: add.assoc)
    qed
    have "timestamp h = timestamp g + of_nat (length (filter (\<lambda>y. stamp_of g y > st) (e # es)))"
      using h(6) ts \<open>the (lb_stamp l) > st\<close> st unfolding fl [OF e] by (simp add: add.assoc)
    moreover have "foldR (\<lambda>e h. bindR (deref h e) (\<lambda>l.
         if the (lb_stamp l) > st
         then Inr (put_label e (l\<lparr>lb_stamp := Some (fst (nextStamp h))\<rparr>) (snd (nextStamp h)))
         else Inr h)) (e # es) g = Inr h"
      using l \<open>the (lb_stamp l) > st\<close> h(1) by (simp add: nextStamp_def)
    ultimately show ?thesis using relabelled_trans [OF r h(2)] h(3) other stamps
      by (intro exI [of _ h]) auto
  qed
qed

lemma compress_result:
  assumes core: "graph_core g"
  shows "\<exists>h. compressStampsAfter st g = Inr h \<and> relabelled g h \<and> recoveryTID h = recoveryTID g \<and>
     (\<forall>x l l'. lab_at g x = Some l \<and> lab_at h x = Some l' \<longrightarrow> l' = l\<lparr>lb_stamp := lb_stamp l'\<rparr>) \<and>
     (\<forall>x. containsPos g x \<and> stamp_of g x \<le> st \<longrightarrow> stamp_of h x = stamp_of g x) \<and>
     (\<forall>x. containsPos g x \<and> stamp_of g x > st \<longrightarrow> stamp_of h x = st + 1 + of_nat (length
        (filter (\<lambda>e. stamp_of g e > st) (takeWhile (\<lambda>e. e \<noteq> x) (insertionOrder g))))) \<and>
     timestamp h = st + 1 + of_nat (length (filter (\<lambda>e. stamp_of g e > st) (insertionOrder g)))"
proof -
  let ?g = "g\<lparr>timestamp := stamp_add st 1\<rparr>"
  have r0: "relabelled g ?g" by (simp add: relabelled_def option.rel_refl)
  have o: "distinct (insertionOrder g)" "set (insertionOrder g) = {e. containsPos g e}"
    using core by (simp_all add: graph_core_def order_ok_def)
  have so: "stamp_of ?g = stamp_of g" by (simp add: stamp_of_def fun_eq_iff)
  from compress_loop [OF relabelled_core [OF r0 core], of "insertionOrder g" st, unfolded so] o
  obtain h where h: "foldR (\<lambda>e h. bindR (deref h e) (\<lambda>l.
         if the (lb_stamp l) > st
         then Inr (put_label e (l\<lparr>lb_stamp := Some (fst (nextStamp h))\<rparr>) (snd (nextStamp h)))
         else Inr h)) (insertionOrder g) ?g = Inr h" "relabelled ?g h" "recoveryTID h = recoveryTID ?g"
    "\<And>x l l'. lab_at g x = Some l \<and> lab_at h x = Some l' \<Longrightarrow> l' = l\<lparr>lb_stamp := lb_stamp l'\<rparr> \<and>
        (x \<notin> set (insertionOrder g) \<or> stamp_of g x \<le> st \<longrightarrow> lb_stamp l' = lb_stamp l)"
    "\<And>x. x \<in> set (insertionOrder g) \<Longrightarrow> stamp_of g x > st \<Longrightarrow> stamp_of h x = timestamp ?g + of_nat
        (length (filter (\<lambda>e. stamp_of g e > st) (takeWhile (\<lambda>e. e \<noteq> x) (insertionOrder g))))"
    "timestamp h = timestamp ?g + of_nat (length (filter (\<lambda>e. stamp_of g e > st) (insertionOrder g)))"
    by auto
  have r: "relabelled g h" by (rule relabelled_trans [OF r0 h(2)])
  have keep: "stamp_of h x = stamp_of g x" if "containsPos g x" "stamp_of g x \<le> st" for x
  proof -
    from that(1) obtain l where l: "lab_at g x = Some l" by (auto simp: containsPos_lab)
    from relabelledD [OF r l] obtain l' where l': "lab_at h x = Some l'" .
    with h(4) l that(2) have "lb_stamp l' = lb_stamp l" by blast
    with l l' show ?thesis by (simp add: stamp_of_at)
  qed
  show ?thesis
    using h(1,3,4,5,6) r keep o(2) by (intro exI [of _ h]) (simp add: compressStampsAfter_def stamp_add_def)
qed

end
