(* ===== verification/Graph_Frees.thy ===== *)
theory Graph_Frees
  imports Graph_Ops
begin

text \<open>
  Freeing a block (\<open>GenMCDriver::handleFree\<close>): the label that frees points to the allocation, and the
  allocation to it.
\<close>

definition handleFree :: "label \<Rightarrow> exec_graph \<Rightarrow> exec_graph res" where
  "handleFree dl g =
     (let alloc = findAllocatingLabel g (lb_freeAddr dl);
          size = (case alloc of None \<Rightarrow> 0 | Some a \<Rightarrow> (case lab_at g a of None \<Rightarrow> 0 | Some al \<Rightarrow> lb_allocSize al))
      in bindR (addLabelToGraph (dl\<lparr>lb_freedSize := size, lb_alloc := alloc\<rparr>) g) (\<lambda>g1.
         case alloc of
           None \<Rightarrow> Inl Undefined
         | Some a \<Rightarrow> with_label a (\<lambda>al. Inr (al\<lparr>lb_free := Some (lb_pos dl)\<rparr>)) g1))"

section \<open>Linking a label that frees to its allocation\<close>

lemma link_free_core:
  assumes core: "graph_core g" and d: "lab_at g d = Some dl" "isFree (lb_kind dl)" "lb_alloc dl = None"
    and a: "lab_at g a = Some al" "isMalloc (lb_kind al)" "lb_free al = None"
  shows "graph_core (put_label a (al\<lparr>lb_free := Some d\<rparr>) (put_label d (dl\<lparr>lb_alloc := Some a\<rparr>) g))" (is "graph_core ?h")
proof -
  have ok: "pos_ok g" "start_ok g" "rf_ok g" "co_ok g" "keys_ok g" "order_ok g" "alloc_ok g" "free_ok g"
    using core by (simp_all add: graph_core_def)
  note kinds = pointer_classes(4) [OF d(2)] pointer_classes(5) [OF a(2)]
  have ad: "a \<noteq> d" using d(1,2) a(1) kinds by auto
  have at: "lab_at ?h x = (if x = a then Some (al\<lparr>lb_free := Some d\<rparr>) else if x = d then Some (dl\<lparr>lb_alloc := Some a\<rparr>) else lab_at g x)" for x
    using lab_at_pos [OF d(1)] lab_at_pos [OF a(1)] by (simp add: lab_at_put)
  have at_a: "lab_at ?h a = Some (al\<lparr>lb_free := Some d\<rparr>)" and at_d: "lab_at ?h d = Some (dl\<lparr>lb_alloc := Some a\<rparr>)"
    using at ad by simp_all
  have keep: "lab_at g x = Some l \<longleftrightarrow> lab_at ?h x = Some l" if "isRead (lb_kind l) \<or> isWrite (lb_kind l) \<or> lb_kind l = Init \<or> isMemAccess (lb_kind l) \<or> isThreadStart (lb_kind l) \<or> isThreadFinish (lb_kind l) \<or> lb_kind l = ThreadJoin" for x l
  proof -
    have "lb_kind l \<noteq> lb_kind dl \<and> lb_kind l \<noteq> lb_kind al"
      using that d(2) a(2) by (cases "lb_kind l") (auto simp: kind_defs)
    then show ?thesis using at [of x] d(1) a(1) by auto
  qed
  have keep_at: "at_kind P g x Q \<longleftrightarrow> at_kind P ?h x Q" if "\<And>k. P k \<Longrightarrow> isRead k \<or> isWrite k \<or> k = Init \<or> isMemAccess k \<or> isThreadStart k \<or> isThreadFinish k \<or> k = ThreadJoin" for P x Q
    unfolding at_kind_def using that keep by blast
  have read_at: "at_kind isRead ?h x Q = at_kind isRead g x Q" for x Q
    using keep_at [of isRead] by blast
  have access_at: "at_kind isMemAccess ?h x Q = at_kind isMemAccess g x Q" for x Q
    using keep_at [of isMemAccess] by blast
  have rd: "readers_of ?h = readers_of g"
  proof (intro ext)
    fix w b show "readers_of ?h w b = readers_of g w b"
      using at [of w] d a kinds by (auto simp: readers_of_def)
  qed
  have same: "\<exists>l. lab_at g x = Some l \<and> lb_kind l' = lb_kind l \<and> lb_pos l' = lb_pos l \<and> lb_stamp l' = lb_stamp l \<and>
      lb_accesses l' = lb_accesses l" if "lab_at ?h x = Some l'" for x l'
    using that at [of x] d(1) a(1) ad by (auto split: if_splits)
  have "pos_ok ?h" using ok(1) same unfolding pos_ok_def by metis
  moreover have "start_ok ?h"
  proof -
    have "at_kind (\<lambda>k. k = Init) ?h event_init (\<lambda>_. True)"
      using ok(2) keep_at [of "\<lambda>k. k = Init"] by (simp add: start_ok_def)
    with ok(2) same show ?thesis unfolding start_ok_def by metis
  qed
  moreover have "rf_ok ?h"
    unfolding rf_ok_def rd read_at
  proof (intro conjI allI impI)
    fix r l w assume "lab_at ?h r = Some l \<and> isRead (lb_kind l) \<and> lb_rf l = Some w"
    with keep have "lab_at g r = Some l \<and> isRead (lb_kind l) \<and> lb_rf l = Some w" by blast
    with ok(3) show "r \<in> set (readers_of g w (lb_addr l))" unfolding rf_ok_def by blast
  qed (use ok(3) in \<open>simp_all add: rf_ok_def\<close>)
  moreover have "co_ok ?h"
    using ok(4) keep_at [of isWrite] by (simp add: co_ok_def co_def)
  moreover have "keys_ok ?h"
  proof -
    from core_init [OF core] obtain il where il: "lab_at g event_init = Some il" "lb_kind il = Init"
      "map fst (lb_initRfs il) = map fst (coherence g)" .
    with keep have "lab_at ?h event_init = Some il" by blast
    then show ?thesis
    proof (rule keys_okI)
      show "map fst (lb_initRfs il) = map fst (coherence ?h)" "distinct (map fst (coherence ?h))"
        using il(3) ok(5) by (simp_all add: keys_ok_def)
      show "lb_addr l \<in> fst ` set (coherence ?h)" if "lab_at ?h e = Some l" "isMemAccess (lb_kind l)" for e l
        using that keep ok(5) unfolding keys_ok_def put_label_fields by blast
    qed
  qed
  moreover have "order_ok ?h" using ok(6) by (simp add: order_ok_def)
  moreover have "alloc_ok ?h"
  proof -
    have mal: "at_kind isMalloc g b (\<lambda>bl. m \<in> set (lb_accesses bl)) \<longleftrightarrow> at_kind isMalloc ?h b (\<lambda>bl. m \<in> set (lb_accesses bl))" for b m
      using at [of b] d(1) a(1) kinds ad by (auto simp: at_kind_def)
    have mal_of: "\<exists>bl. lab_at g b = Some bl \<and> isMalloc (lb_kind bl) \<and> lb_accesses bl = lb_accesses bl'"
      if "lab_at ?h b = Some bl'" "isMalloc (lb_kind bl')" for b bl'
      using same [OF that(1)] that(2) by metis
    show ?thesis
      unfolding alloc_ok_def mal [symmetric] access_at
    proof (intro conjI allI impI)
      fix m l b assume "lab_at ?h m = Some l \<and> isMemAccess (lb_kind l) \<and> lb_alloc l = Some b"
      with keep have "lab_at g m = Some l \<and> isMemAccess (lb_kind l) \<and> lb_alloc l = Some b" by blast
      with ok(7) show "at_kind isMalloc g b (\<lambda>bl. m \<in> set (lb_accesses bl))" unfolding alloc_ok_def by blast
    next
      fix b bl' m assume b: "lab_at ?h b = Some bl' \<and> isMalloc (lb_kind bl') \<and> m \<in> set (lb_accesses bl')"
      with mal_of [of b bl'] obtain bl where "lab_at g b = Some bl \<and> isMalloc (lb_kind bl) \<and> m \<in> set (lb_accesses bl)" by auto
      with ok(7) show "at_kind isMemAccess g m (\<lambda>l. lb_alloc l = Some b)" unfolding alloc_ok_def by blast
    next
      fix b bl' assume "lab_at ?h b = Some bl' \<and> isMalloc (lb_kind bl')"
      with mal_of [of b bl'] obtain bl where bl: "lab_at g b = Some bl \<and> isMalloc (lb_kind bl)" "lb_accesses bl = lb_accesses bl'" by auto
      with ok(7) have "distinct (lb_accesses bl)" unfolding alloc_ok_def by blast
      with bl(2) show "distinct (lb_accesses bl')" by simp
    qed
  qed
  moreover have "free_ok ?h"
    unfolding free_ok_def
  proof (intro conjI allI impI)
    fix e l' b assume e: "lab_at ?h e = Some l' \<and> isFree (lb_kind l') \<and> lb_alloc l' = Some b"
    show "at_kind isMalloc ?h b (\<lambda>bl. lb_free bl = Some e)"
    proof (cases "e = d")
      case True
      with e at_d at_a a(2) show ?thesis by (auto simp: at_kind_def)
    next
      case False
      then have "lab_at g e = Some l'" using e at [of e] kinds by (auto split: if_splits)
      with e ok(8) have b: "at_kind isMalloc g b (\<lambda>bl. lb_free bl = Some e)" unfolding free_ok_def by blast
      with a(1,3) have "b \<noteq> a" by (auto simp: at_kind_def)
      with b at [of b] d(1) kinds show ?thesis by (auto simp: at_kind_def)
    qed
  next
    fix b bl' e assume b: "lab_at ?h b = Some bl' \<and> isMalloc (lb_kind bl') \<and> lb_free bl' = Some e"
    show "at_kind isFree ?h e (\<lambda>l. lb_alloc l = Some b)"
    proof (cases "b = a")
      case True
      with b at_a at_d d(2) show ?thesis by (auto simp: at_kind_def)
    next
      case False
      then have "lab_at g b = Some bl'" using b at [of b] kinds by (auto split: if_splits)
      with b ok(8) have e: "at_kind isFree g e (\<lambda>l. lb_alloc l = Some b)" unfolding free_ok_def by blast
      with d(1,3) have "e \<noteq> d" by (auto simp: at_kind_def)
      with e at [of e] a(1) kinds show ?thesis by (auto simp: at_kind_def)
    qed
  next
    fix e l j assume "lab_at ?h e = Some l \<and> isThreadFinish (lb_kind l) \<and> lb_parentJoin l = Some j"
    with keep have "lab_at g e = Some l \<and> isThreadFinish (lb_kind l) \<and> lb_parentJoin l = Some j" by blast
    with ok(8) have "at_kind (\<lambda>k. k = ThreadJoin) g j (\<lambda>_. True)" unfolding free_ok_def by blast
    with keep_at [of "\<lambda>k. k = ThreadJoin"] show "at_kind (\<lambda>k. k = ThreadJoin) ?h j (\<lambda>_. True)" by blast
  qed
  ultimately show ?thesis by (simp add: graph_core_def)
qed

section \<open>The operation\<close>

lemma place_label_field:
  assumes g: "place_label lab g = Inr h" and p: "lb_pos (f lab) = lb_pos lab"
  shows "place_label (f lab) g = Inr (put_label (lb_pos lab) (f lab) h)"
proof -
  let ?t = "nat (thread (lb_pos lab))" and ?i = "nat (index (lb_pos lab))"
  show ?thesis
  proof (cases "?i < getThreadSize g ?t")
    case True
    with g p show ?thesis
      by (auto simp: place_label_def Let_def bindR_Inr_iff put_label_def getNumThreads_def split: if_splits)
  next
    case False
    have "(xs @ [lab])[?i := f lab] = xs @ [f lab]" if "length xs = ?i" for xs
      unfolding that [symmetric] by simp
    with False g p show ?thesis
      by (auto simp: place_label_def Let_def put_label_def getNumThreads_def getThreadSize_def not_less split: if_splits)
  qed
qed

lemma addLabel_alloc:
  assumes "\<not> isMemAccess (lb_kind l)" "addLabelToGraph l g = Inr h"
  shows "addLabelToGraph (l\<lparr>lb_alloc := x\<rparr>) g = Inr (put_label (lb_pos l) ((stamped g l)\<lparr>lb_alloc := x\<rparr>) h)"
proof -
  let ?g = "if lb_stamp l = None then snd (nextStamp g) else g"
  have run: "addLabelToGraph k g = place_label (stamped g k) ?g" if "lb_kind k = lb_kind l" "lb_stamp k = lb_stamp l" for k
    using assms(1) that by (cases "lb_stamp l") (simp_all add: addLabelToGraph_def nextStamp_def stamped_def Let_def)
  from assms(2) run [of l] have "place_label (stamped g l) ?g = Inr h" by simp
  then have "place_label ((stamped g l)\<lparr>lb_alloc := x\<rparr>) ?g = Inr (put_label (lb_pos l) ((stamped g l)\<lparr>lb_alloc := x\<rparr>) h)"
    using place_label_field [of "stamped g l" ?g h "\<lambda>l. l\<lparr>lb_alloc := x\<rparr>"] by simp
  moreover have "stamped g (l\<lparr>lb_alloc := x\<rparr>) = (stamped g l)\<lparr>lb_alloc := x\<rparr>" by (simp add: stamped_def)
  ultimately show ?thesis using run [of "l\<lparr>lb_alloc := x\<rparr>"] by simp
qed

lemma handleFree_step:
  assumes core: "graph_core g" and l: "free_pos g (lb_pos dl)" "fresh_label dl" "isFree (lb_kind dl)"
    and a: "findAllocatingLabel g (lb_freeAddr dl) = Some a" "at_kind isMalloc g a (\<lambda>al. lb_free al = None)"
  shows "\<exists>h. handleFree dl g = Inr h \<and> graph_core h \<and> at_kind isFree h (lb_pos dl) (\<lambda>l. lb_alloc l = Some a) \<and>
    at_kind isMalloc h a (\<lambda>al. lb_free al = Some (lb_pos dl))"
proof -
  let ?p = "lb_pos dl"
  from a(2) obtain al where al: "lab_at g a = Some al" "isMalloc (lb_kind al)" "lb_free al = None" by (auto simp: at_kind_def)
  let ?l = "dl\<lparr>lb_freedSize := lb_allocSize al\<rparr>" let ?d = "(stamped g ?l)\<lparr>lb_alloc := Some a\<rparr>"
  have l': "free_pos g (lb_pos ?l)" "fresh_label ?l" using l by (simp_all add: fresh_label_def)
  from addLabel_core [OF core this] obtain g' where g': "addLabelToGraph ?l g = Inr g'" "graph_core g'"
    "\<And>x. x \<noteq> event_init \<Longrightarrow> lab_at g' x = (if x = ?p then Some (stamped g ?l) else lab_at g x)" by auto
  have "lb_kind al \<noteq> Init" using al(2) by (auto simp: kind_defs)
  with core al(1) have ai: "a \<noteq> event_init" unfolding graph_core_def start_ok_def at_kind_def by auto
  have pi: "?p \<noteq> event_init" and "lab_at g ?p = None \<or> (\<exists>o'. lab_at g ?p = Some o' \<and> lb_kind o' = Empty)"
    using free_pos_old [OF core l(1)] by simp_all
  then have ap: "a \<noteq> ?p" using al(1,2) by (auto simp: kind_defs)
  have d: "lab_at g' ?p = Some (stamped g ?l)" "isFree (lb_kind (stamped g ?l))" "lb_alloc (stamped g ?l) = None"
    using g'(3) [OF pi] l(2,3) by (simp_all add: fresh_label_def)
  have al': "lab_at g' a = Some al" using g'(3) [OF ai] ap al(1) by simp
  let ?h = "put_label a (al\<lparr>lb_free := Some ?p\<rparr>) (put_label ?p ?d g')"
  have "\<not> isMemAccess (lb_kind ?l)" using pointer_classes(4) [OF l(3)] by simp
  from addLabel_alloc [OF this g'(1), of "Some a"]
  have "addLabelToGraph (?l\<lparr>lb_alloc := Some a\<rparr>) g = Inr (put_label ?p ?d g')" by simp
  moreover have "lab_at (put_label ?p ?d g') a = Some al" using al' ap lab_at_pos [OF d(1)] by (simp add: lab_at_put)
  ultimately have run: "handleFree dl g = Inr ?h"
    using a(1) al(1) by (simp add: handleFree_def with_label_def)
  have "graph_core ?h" by (rule link_free_core [OF g'(2) d al' al(2,3)])
  moreover have "at_kind isFree ?h ?p (\<lambda>l. lb_alloc l = Some a)" "at_kind isMalloc ?h a (\<lambda>al. lb_free al = Some ?p)"
    using lab_at_pos [OF d(1)] lab_at_pos [OF al'] ap d(2) al(2) by (simp_all add: at_kind_def lab_at_put)
  ultimately show ?thesis using run by blast
qed

lemma handleFree_ok:
  assumes g: "graph_ok g" and l: "free_pos g (lb_pos dl)" "fresh_label dl" "isFree (lb_kind dl)"
    and a: "findAllocatingLabel g (lb_freeAddr dl) = Some a" "at_kind isMalloc g a (\<lambda>al. lb_free al = None)"
  shows "\<exists>h. handleFree dl g = Inr h \<and> graph_ok h"
proof -
  have core: "graph_core g" and th: "threads_ok g" using g by (simp_all add: graph_ok_def)
  from handleFree_step [OF core l a] obtain h where h: "handleFree dl g = Inr h" "graph_core h" by blast
  from a(2) obtain al where al: "lab_at g a = Some al" by (auto simp: at_kind_def)
  let ?l = "dl\<lparr>lb_freedSize := lb_allocSize al\<rparr>"
  have "free_pos g (lb_pos ?l)" "fresh_label ?l" "\<forall>t < getNumThreads g. 0 < getThreadSize g t \<or> t = nat (thread (lb_pos ?l))"
    using l th by (simp_all add: fresh_label_def threads_ok_def)
  from addLabel_ok [OF core this] obtain g' where g': "addLabelToGraph ?l g = Inr g'" "graph_ok g'" by blast
  have "\<not> isMemAccess (lb_kind ?l)" using pointer_classes(4) [OF l(3)] by simp
  from addLabel_alloc [OF this g'(1), of "Some a"] h(1) a(1) al obtain k where
    "with_label a (\<lambda>al. Inr (al\<lparr>lb_free := Some (lb_pos dl)\<rparr>)) (put_label (lb_pos dl) k g') = Inr h"
    by (auto simp: handleFree_def)
  then obtain k' where "h = put_label a k' (put_label (lb_pos dl) k g')" by (auto simp: with_label_def bindR_Inr_iff)
  then have "threads_ok h" using g'(2) by (simp add: graph_ok_def threads_ok_def)
  with h show ?thesis by (simp add: graph_ok_def)
qed

end
