(* ===== verification/Graph_Removal.thy ===== *)
theory Graph_Removal
  imports Graph_Relabels Graph_Frees
begin

text \<open>
  Removing the last label of a thread (\<open>ExecutionGraph::removeLast\<close>) and linking the end of a thread
  to the join that waits for it (\<open>ThreadFinishLabel::setParentJoin\<close>).
\<close>

section \<open>Joining a thread\<close>

definition setParentJoin :: "event \<Rightarrow> event \<Rightarrow> exec_graph \<Rightarrow> exec_graph res" where
  "setParentJoin f j g = with_label f (\<lambda>l. Inr (l\<lparr>lb_parentJoin := Some j\<rparr>)) g"

lemma setParentJoin_core:
  assumes core: "graph_core g" and f: "lab_at g f = Some fl" "isThreadFinish (lb_kind fl)"
    and j: "at_kind (\<lambda>k. k = ThreadJoin) g j (\<lambda>_. True)"
  shows "\<exists>h. setParentJoin f j g = Inr h \<and> graph_core h \<and> (\<forall>x. containsPos h x = containsPos g x) \<and>
    getNumThreads h = getNumThreads g"
proof -
  let ?fl = "fl\<lparr>lb_parentJoin := Some j\<rparr>" let ?h = "put_label f ?fl g"
  have at: "lab_at ?h x = (if x = f then Some ?fl else lab_at g x)" for x
    using lab_at_pos [OF f(1)] by (simp add: lab_at_put)
  have keep: "at_kind P ?h x Q = at_kind P g x Q" if "\<And>l. Q (l\<lparr>lb_parentJoin := Some j\<rparr>) = Q l" for P x Q
    using at [of x] f(1) that by (auto simp: at_kind_def)
  have old: "\<exists>l. lab_at g x = Some l \<and> lb_kind l' = lb_kind l \<and> lb_pos l' = lb_pos l \<and> lb_stamp l' = lb_stamp l \<and>
      lb_addr l' = lb_addr l \<and> lb_rf l' = lb_rf l \<and> lb_alloc l' = lb_alloc l \<and> lb_free l' = lb_free l \<and>
      lb_accesses l' = lb_accesses l \<and> (x \<noteq> f \<longrightarrow> l' = l) \<and> (x = f \<longrightarrow> l' = ?fl)" if "lab_at ?h x = Some l'" for x l'
    using that at [of x] f(1) by (auto split: if_splits)
  have rd: "readers_of ?h = readers_of g"
  proof (intro ext)
    fix w a show "readers_of ?h w a = readers_of g w a"
      using at [of w] f(1) by (auto simp: readers_of_def)
  qed
  have ok: "pos_ok g" "start_ok g" "rf_ok g" "co_ok g" "keys_ok g" "order_ok g" "alloc_ok g" "free_ok g"
    using core by (simp_all add: graph_core_def)
  have "pos_ok ?h" using ok(1) old unfolding pos_ok_def by metis
  moreover have "start_ok ?h" using ok(2) old unfolding start_ok_def by (simp add: keep) metis
  moreover have "rf_ok ?h"
    unfolding rf_ok_def rd
  proof (intro conjI allI impI)
    fix r l' w assume "lab_at ?h r = Some l' \<and> isRead (lb_kind l') \<and> lb_rf l' = Some w"
    with old [of r l'] ok(3) show "r \<in> set (readers_of g w (lb_addr l'))" unfolding rf_ok_def by metis
  qed (use ok(3) in \<open>simp_all add: rf_ok_def keep\<close>)
  moreover have "co_ok ?h" using ok(4) by (simp add: co_ok_def co_def keep)
  moreover have "keys_ok ?h"
  proof -
    have "lb_addr l' \<in> fst ` set (coherence g)" if "lab_at ?h e = Some l'" "isMemAccess (lb_kind l')" for e l'
      using old [OF that(1)] that(2) ok(5) unfolding keys_ok_def by metis
    then have "\<forall>e l. lab_at ?h e = Some l \<and> isMemAccess (lb_kind l) \<longrightarrow> lb_addr l \<in> fst ` set (coherence ?h)" by auto
    moreover have "at_kind (\<lambda>_. True) ?h event_init (\<lambda>l. map fst (lb_initRfs l) = map fst (coherence ?h))"
      "distinct (map fst (coherence ?h))"
      using ok(5) by (simp_all add: keys_ok_def keep)
    ultimately show ?thesis unfolding keys_ok_def by blast
  qed
  moreover have "order_ok ?h" using ok(6) by (simp add: order_ok_def)
  moreover have "alloc_ok ?h"
    unfolding alloc_ok_def
  proof (intro conjI allI impI)
    fix m l' a assume "lab_at ?h m = Some l' \<and> isMemAccess (lb_kind l') \<and> lb_alloc l' = Some a"
    with old [of m l'] obtain l where "lab_at g m = Some l \<and> isMemAccess (lb_kind l) \<and> lb_alloc l = Some a" by auto
    with ok(7) have "at_kind isMalloc g a (\<lambda>al. m \<in> set (lb_accesses al))" unfolding alloc_ok_def by blast
    then show "at_kind isMalloc ?h a (\<lambda>al. m \<in> set (lb_accesses al))" by (simp add: keep)
  next
    fix a al' m assume "lab_at ?h a = Some al' \<and> isMalloc (lb_kind al') \<and> m \<in> set (lb_accesses al')"
    with old [of a al'] obtain al where "lab_at g a = Some al \<and> isMalloc (lb_kind al) \<and> m \<in> set (lb_accesses al)" by auto
    with ok(7) have "at_kind isMemAccess g m (\<lambda>l. lb_alloc l = Some a)" unfolding alloc_ok_def by blast
    then show "at_kind isMemAccess ?h m (\<lambda>l. lb_alloc l = Some a)" by (simp add: keep)
  next
    fix a al' assume "lab_at ?h a = Some al' \<and> isMalloc (lb_kind al')"
    with old [of a al'] obtain al where "lab_at g a = Some al \<and> isMalloc (lb_kind al)" "lb_accesses al' = lb_accesses al" by auto
    with ok(7) show "distinct (lb_accesses al')" unfolding alloc_ok_def by metis
  qed
  moreover have "free_ok ?h"
    unfolding free_ok_def
  proof (intro conjI allI impI)
    fix d l' a assume "lab_at ?h d = Some l' \<and> isFree (lb_kind l') \<and> lb_alloc l' = Some a"
    with old [of d l'] obtain l where "lab_at g d = Some l \<and> isFree (lb_kind l) \<and> lb_alloc l = Some a" by auto
    with ok(8) have "at_kind isMalloc g a (\<lambda>al. lb_free al = Some d)" unfolding free_ok_def by blast
    then show "at_kind isMalloc ?h a (\<lambda>al. lb_free al = Some d)" by (simp add: keep)
  next
    fix a al' d assume "lab_at ?h a = Some al' \<and> isMalloc (lb_kind al') \<and> lb_free al' = Some d"
    with old [of a al'] obtain al where "lab_at g a = Some al \<and> isMalloc (lb_kind al) \<and> lb_free al = Some d" by auto
    with ok(8) have "at_kind isFree g d (\<lambda>l. lb_alloc l = Some a)" unfolding free_ok_def by blast
    then show "at_kind isFree ?h d (\<lambda>l. lb_alloc l = Some a)" by (simp add: keep)
  next
    fix e l' i assume e: "lab_at ?h e = Some l' \<and> isThreadFinish (lb_kind l') \<and> lb_parentJoin l' = Some i"
    show "at_kind (\<lambda>k. k = ThreadJoin) ?h i (\<lambda>_. True)"
    proof (cases "e = f")
      case True
      with e at [of f] have "i = j" by auto
      with j show ?thesis by (simp add: keep)
    next
      case False
      with e at [of e] have "lab_at g e = Some l' \<and> isThreadFinish (lb_kind l') \<and> lb_parentJoin l' = Some i" by simp
      with ok(8) have "at_kind (\<lambda>k. k = ThreadJoin) g i (\<lambda>_. True)" unfolding free_ok_def by blast
      then show ?thesis by (simp add: keep)
    qed
  qed
  ultimately have "graph_core ?h" by (simp add: graph_core_def)
  with f(1) show ?thesis by (intro exI [of _ ?h]) (simp add: setParentJoin_def with_label_def)
qed

section \<open>Removing the last label\<close>

text \<open>What the driver sees to before it removes a label: the removal of a read that reads from the
  initializer, of an ordered store, of an allocation with accesses, of a free without an allocation
  and of a join that a thread's end points to leaves a stale pointer (or faults).\<close>

definition droppable :: "exec_graph \<Rightarrow> label \<Rightarrow> bool" where
  "droppable g l \<longleftrightarrow>
     (isRead (lb_kind l) \<longrightarrow> (case lb_rf l of None \<Rightarrow> True | Some w \<Rightarrow> isEventKind isWrite g w)) \<and>
     (isWrite (lb_kind l) \<longrightarrow> lb_pos l \<notin> set (co g (lb_addr l))) \<and>
     (isMalloc (lb_kind l) \<longrightarrow> lb_accesses l = []) \<and>
     (isFree (lb_kind l) \<longrightarrow> lb_alloc l \<noteq> None) \<and>
     (lb_kind l = ThreadJoin \<longrightarrow> list_all (\<lambda>e. \<not> at_kind isThreadFinish g e (\<lambda>f. lb_parentJoin f = Some (lb_pos l))) (positions g))"

text \<open>Graphs that differ in the labels at most, by the given function.\<close>

definition mapped_by :: "(event \<Rightarrow> label \<Rightarrow> label) \<Rightarrow> exec_graph \<Rightarrow> exec_graph \<Rightarrow> bool" where
  "mapped_by f g h \<longleftrightarrow> (\<forall>x. lab_at h x = map_option (f x) (lab_at g x)) \<and> coherence h = coherence g \<and>
     insertionOrder h = insertionOrder g \<and> timestamp h = timestamp g \<and> recoveryTID h = recoveryTID g \<and>
     getNumThreads h = getNumThreads g \<and> (\<forall>t. getThreadSize h t = getThreadSize g t)"

lemma mapped_by_refl: "mapped_by (\<lambda>_ l. l) g g"
  by (simp add: mapped_by_def option.map_ident)

lemma mapped_by_with:
  assumes "mapped_by f g h" "lab_at g e = Some l0" "\<And>l. F l = Inr (k l)"
  shows "\<exists>h'. with_label e F h = Inr h' \<and> mapped_by (\<lambda>x l. if x = e then k (f x l) else f x l) g h'"
proof -
  have e: "lab_at h e = Some (f e l0)" using assms(1,2) by (simp add: mapped_by_def)
  from lab_at_pos [OF e] assms(1) e have "mapped_by (\<lambda>x l. if x = e then k (f x l) else f x l) g (put_label e (k (f e l0)) h)"
    using assms(2) by (auto simp: mapped_by_def lab_at_put)
  with assms(3) e show ?thesis by (simp add: with_label_def)
qed

lemma mapped_by_withs:
  assumes "mapped_by f g h" "distinct es" "\<And>e. e \<in> set es \<Longrightarrow> containsPos g e" "\<And>l. F l = Inr (k l)"
  shows "\<exists>h'. foldR (\<lambda>e. with_label e F) es h = Inr h' \<and>
    mapped_by (\<lambda>x l. if x \<in> set es then k (f x l) else f x l) g h'"
  using assms
proof (induction es arbitrary: f h)
  case (Cons e es)
  from Cons.prems(3) [of e] obtain l0 where l0: "lab_at g e = Some l0" by (auto simp: containsPos_lab)
  from mapped_by_with [OF Cons.prems(1) l0, of F k] Cons.prems(4) obtain h1 where
    h1: "with_label e F h = Inr h1" "mapped_by (\<lambda>x l. if x = e then k (f x l) else f x l) g h1" by auto
  have c: "\<And>e. e \<in> set es \<Longrightarrow> containsPos g e" "distinct es" using Cons.prems by auto
  from Cons.IH [OF h1(2) c(2) c(1) Cons.prems(4)] obtain h2 where h2: "foldR (\<lambda>e. with_label e F) es h1 = Inr h2"
    "mapped_by (\<lambda>x l. if x \<in> set es then k (if x = e then k (f x l) else f x l)
        else (if x = e then k (f x l) else f x l)) g h2" by blast
  have "(\<lambda>x l. if x \<in> set es then k (if x = e then k (f x l) else f x l) else (if x = e then k (f x l) else f x l)) =
      (\<lambda>x l. if x \<in> set (e # es) then k (f x l) else f x l)"
    using Cons.prems(2) by (auto simp: fun_eq_iff)
  with h2 h1(1) show ?case by simp
qed simp

text \<open>Who may point to a label.\<close>

lemma points_to:
  assumes core: "graph_core g" and p: "lab_at g p = Some l" and x: "lab_at g x = Some lx"
  shows "isRead (lb_kind lx) \<Longrightarrow> lb_rf lx = Some p \<Longrightarrow> p \<noteq> event_init \<Longrightarrow> isWrite (lb_kind l) \<and> x \<in> set (lb_readers l)"
    and "isWrite (lb_kind lx) \<Longrightarrow> p \<in> set (lb_readers lx) \<Longrightarrow> isRead (lb_kind l) \<and> lb_rf l = Some x"
    and "isMemAccess (lb_kind lx) \<Longrightarrow> lb_alloc lx = Some p \<Longrightarrow> isMalloc (lb_kind l) \<and> x \<in> set (lb_accesses l)"
    and "isMalloc (lb_kind lx) \<Longrightarrow> p \<in> set (lb_accesses lx) \<Longrightarrow> isMemAccess (lb_kind l) \<and> lb_alloc l = Some x"
    and "isFree (lb_kind lx) \<Longrightarrow> lb_alloc lx = Some p \<Longrightarrow> isMalloc (lb_kind l) \<and> lb_free l = Some x"
    and "isMalloc (lb_kind lx) \<Longrightarrow> lb_free lx = Some p \<Longrightarrow> isFree (lb_kind l) \<and> lb_alloc l = Some x"
    and "isThreadFinish (lb_kind lx) \<Longrightarrow> lb_parentJoin lx = Some p \<Longrightarrow> lb_kind l = ThreadJoin"
proof -
  have ok: "rf_ok g" "alloc_ok g" "free_ok g" using core by (simp_all add: graph_core_def)
  show "isWrite (lb_kind l) \<and> x \<in> set (lb_readers l)" if "isRead (lb_kind lx)" "lb_rf lx = Some p" "p \<noteq> event_init"
  proof -
    have "x \<in> set (readers_of g p (lb_addr lx))" using ok(1) x that(1,2) unfolding rf_ok_def by blast
    moreover have "lb_kind l \<noteq> Init" using core_init_only [OF core p] that(3) by blast
    ultimately show ?thesis using p by (simp add: readers_of_def split: if_splits)
  qed
  show "isRead (lb_kind l) \<and> lb_rf l = Some x" if "isWrite (lb_kind lx)" "p \<in> set (lb_readers lx)"
  proof -
    have "p \<in> set (readers_of g x 0)" using x that by (simp add: readers_of_def)
    then have "at_kind isRead g p (\<lambda>l. lb_rf l = Some x \<and> (x = event_init \<longrightarrow> lb_addr l = 0))"
      using ok(1) unfolding rf_ok_def by blast
    with p show ?thesis by (simp add: at_kind_def)
  qed
  have al: "at_kind isMalloc g p (\<lambda>al. x \<in> set (lb_accesses al))" if "isMemAccess (lb_kind lx)" "lb_alloc lx = Some p"
    using ok(2) x that unfolding alloc_ok_def by blast
  then show "isMemAccess (lb_kind lx) \<Longrightarrow> lb_alloc lx = Some p \<Longrightarrow> isMalloc (lb_kind l) \<and> x \<in> set (lb_accesses l)"
    using p by (simp add: at_kind_def)
  have "at_kind isMemAccess g p (\<lambda>l. lb_alloc l = Some x)" if "isMalloc (lb_kind lx)" "p \<in> set (lb_accesses lx)"
    using ok(2) x that unfolding alloc_ok_def by blast
  then show "isMalloc (lb_kind lx) \<Longrightarrow> p \<in> set (lb_accesses lx) \<Longrightarrow> isMemAccess (lb_kind l) \<and> lb_alloc l = Some x"
    using p by (simp add: at_kind_def)
  have "at_kind isMalloc g p (\<lambda>al. lb_free al = Some x)" if "isFree (lb_kind lx)" "lb_alloc lx = Some p"
    using ok(3) x that unfolding free_ok_def by blast
  then show "isFree (lb_kind lx) \<Longrightarrow> lb_alloc lx = Some p \<Longrightarrow> isMalloc (lb_kind l) \<and> lb_free l = Some x"
    using p by (simp add: at_kind_def)
  have "at_kind isFree g p (\<lambda>l. lb_alloc l = Some x)" if "isMalloc (lb_kind lx)" "lb_free lx = Some p"
    using ok(3) x that unfolding free_ok_def by blast
  then show "isMalloc (lb_kind lx) \<Longrightarrow> lb_free lx = Some p \<Longrightarrow> isFree (lb_kind l) \<and> lb_alloc l = Some x"
    using p by (simp add: at_kind_def)
  have "at_kind (\<lambda>k. k = ThreadJoin) g p (\<lambda>_. True)" if "isThreadFinish (lb_kind lx)" "lb_parentJoin lx = Some p"
    using ok(3) x that unfolding free_ok_def by blast
  then show "isThreadFinish (lb_kind lx) \<Longrightarrow> lb_parentJoin lx = Some p \<Longrightarrow> lb_kind l = ThreadJoin"
    using p by (simp add: at_kind_def)
qed

text \<open>What the assignments of \<open>removeLast\<close> do to another label.\<close>

definition unlinked :: "label \<Rightarrow> event \<Rightarrow> label \<Rightarrow> label" where
  "unlinked l x lx =
     (let l1 = (if isRead (lb_kind l) \<and> lb_rf l = Some x then removeReader (\<lambda>r. r = lb_pos l) lx else lx);
          l2 = (if isWrite (lb_kind l) \<and> x \<in> set (lb_readers l) then l1\<lparr>lb_rf := None\<rparr> else l1);
          l3 = (if isMemAccess (lb_kind l) \<and> lb_alloc l = Some x then removeAccess (\<lambda>m. m = lb_pos l) l2 else l2);
          l4 = (if isFree (lb_kind l) \<and> lb_alloc l = Some x then l3\<lparr>lb_free := None\<rparr> else l3)
      in if isMalloc (lb_kind l) \<and> lb_free l = Some x then l4\<lparr>lb_alloc := None\<rparr> else l4)"

lemma unlinked_restricts:
  assumes core: "graph_core g" and p: "lab_at g p = Some l" "droppable g l" "p \<noteq> event_init"
    and x: "lab_at g x = Some lx" "x \<noteq> p"
  shows "unlinked l x lx = cut_pointers (\<lambda>y. y \<noteq> p) lx"
proof -
  let ?has = "\<lambda>y. y \<noteq> p"
  have pos: "lb_pos l = p" using core p(1) by (simp add: graph_core_def pos_ok_def)
  note to = points_to [OF core p(1) x(1)] and from_l = points_to [OF core x(1) p(1)]
  have w: "isWrite (lb_kind lx)" if "isRead (lb_kind l)" "lb_rf l = Some x"
    using p(2) that x(1) by (simp add: droppable_def isEventKind_def)
  have acc: "lb_alloc lx \<noteq> Some p" if "isMemAccess (lb_kind lx)"
    using to(3) [OF that] p(2) by (auto simp: droppable_def)
  have keep: "keep_ptr ?has q = q" if "q \<noteq> Some p" for q
    using that by (cases q) (simp_all add: keep_ptr_def)
  have all: "filter ?has xs = xs" if "p \<notin> set xs" for xs
    using that by (auto simp: filter_id_conv)
  show ?thesis
  proof (cases rule: pointer_class_cases [of "lb_kind lx"])
    case 1
    note k = pointer_classes(1) [OF 1]
    have no: "\<not> (isWrite (lb_kind l) \<and> x \<in> set (lb_readers l))" "\<not> (isMemAccess (lb_kind l) \<and> lb_alloc l = Some x)"
      "\<not> (isFree (lb_kind l) \<and> lb_alloc l = Some x)" "\<not> (isMalloc (lb_kind l) \<and> lb_free l = Some x)"
      using from_l k by blast+
    have "lb_alloc lx \<noteq> Some p" using acc k by blast
    note al = keep [OF this]
    show ?thesis
    proof (cases "isRead (lb_kind l) \<and> lb_rf l = Some x")
      case True
      then show ?thesis unfolding unlinked_def Let_def cut_pointers_cases(1) [OF 1] al pos
        by (cases lx) (simp add: no removeReader_def)
    next
      case False
      then have "p \<notin> set (lb_readers lx)" using to(2) [OF 1] by blast
      then show ?thesis unfolding unlinked_def Let_def cut_pointers_cases(1) [OF 1] al
        by (cases lx) (simp add: no False all)
    qed
  next
    case 2
    note k = pointer_classes(2) [OF 2]
    have no: "\<not> (isRead (lb_kind l) \<and> lb_rf l = Some x)" "\<not> (isMemAccess (lb_kind l) \<and> lb_alloc l = Some x)"
      "\<not> (isFree (lb_kind l) \<and> lb_alloc l = Some x)" "\<not> (isMalloc (lb_kind l) \<and> lb_free l = Some x)"
      using from_l k w by blast+
    have "lb_alloc lx \<noteq> Some p" using acc k by blast
    note al = keep [OF this]
    show ?thesis
    proof (cases "isWrite (lb_kind l) \<and> x \<in> set (lb_readers l)")
      case True
      then have "lb_rf lx = Some p" using from_l(2) by blast
      with True show ?thesis unfolding unlinked_def Let_def cut_pointers_cases(2) [OF 2] al
        by (cases lx) (simp add: no keep_ptr_def)
    next
      case False
      then have "lb_rf lx \<noteq> Some p" using to(1) [OF 2 _ p(3)] by blast
      with False show ?thesis unfolding unlinked_def Let_def cut_pointers_cases(2) [OF 2] al
        by (cases lx) (simp add: no False keep)
    qed
  next
    case 3
    note k = pointer_classes(3) [OF 3]
    have no: "\<not> (isRead (lb_kind l) \<and> lb_rf l = Some x)" "\<not> (isWrite (lb_kind l) \<and> x \<in> set (lb_readers l))"
      "\<not> (isMemAccess (lb_kind l) \<and> lb_alloc l = Some x)"
      "\<not> (isFree (lb_kind l) \<and> lb_alloc l = Some x)" "\<not> (isMalloc (lb_kind l) \<and> lb_free l = Some x)"
      using from_l k w by blast+
    have "lb_parentJoin lx \<noteq> Some p"
    proof
      assume j: "lb_parentJoin lx = Some p"
      with to(7) [OF 3] have "lb_kind l = ThreadJoin" by blast
      with p(2) pos have "list_all (\<lambda>e. \<not> at_kind isThreadFinish g e (\<lambda>f. lb_parentJoin f = Some p)) (positions g)"
        by (simp add: droppable_def)
      moreover have "x \<in> set (positions g)" using lab_at_pos [OF x(1)] by (simp add: positions_mem)
      ultimately show False using x(1) 3 j by (auto simp: list_all_iff at_kind_def)
    qed
    then show ?thesis unfolding unlinked_def Let_def cut_pointers_cases(3) [OF 3]
      by (cases lx) (simp add: no keep)
  next
    case 4
    note k = pointer_classes(4) [OF 4]
    have no: "\<not> (isRead (lb_kind l) \<and> lb_rf l = Some x)" "\<not> (isWrite (lb_kind l) \<and> x \<in> set (lb_readers l))"
      "\<not> (isMemAccess (lb_kind l) \<and> lb_alloc l = Some x)" "\<not> (isFree (lb_kind l) \<and> lb_alloc l = Some x)"
      using from_l k w by blast+
    show ?thesis
    proof (cases "isMalloc (lb_kind l) \<and> lb_free l = Some x")
      case True
      then have "lb_alloc lx = Some p" using from_l(6) by blast
      with True show ?thesis unfolding unlinked_def Let_def cut_pointers_cases(4) [OF 4]
        by (cases lx) (simp add: no keep_ptr_def)
    next
      case False
      then have "lb_alloc lx \<noteq> Some p" using to(5) [OF 4] by blast
      with False show ?thesis unfolding unlinked_def Let_def cut_pointers_cases(4) [OF 4]
        by (cases lx) (simp add: no False keep)
    qed
  next
    case 5
    note k = pointer_classes(5) [OF 5]
    have no: "\<not> (isRead (lb_kind l) \<and> lb_rf l = Some x)" "\<not> (isWrite (lb_kind l) \<and> x \<in> set (lb_readers l))"
      "\<not> (isMalloc (lb_kind l) \<and> lb_free l = Some x)"
      using from_l k w by blast+
    consider (m) "isMemAccess (lb_kind l)" | (f) "isFree (lb_kind l)" | (n) "\<not> isMemAccess (lb_kind l)" "\<not> isFree (lb_kind l)" by blast
    then show ?thesis
    proof cases
      case m
      then have nf: "\<not> isFree (lb_kind l)" using pointer_classes(4) by blast
      with to(6) [OF 5] have "lb_free lx \<noteq> Some p" by blast
      note fr = keep [OF this]
      show ?thesis
      proof (cases "lb_alloc l = Some x")
        case True
        with m nf show ?thesis unfolding unlinked_def Let_def cut_pointers_cases(5) [OF 5] fr pos
          by (cases lx) (simp add: no removeAccess_def)
      next
        case False
        then have "p \<notin> set (lb_accesses lx)" using to(4) [OF 5] by blast
        with m nf False show ?thesis unfolding unlinked_def Let_def cut_pointers_cases(5) [OF 5] fr
          by (cases lx) (simp add: no all)
      qed
    next
      case f
      then have nm: "\<not> isMemAccess (lb_kind l)" using pointer_classes(4) by blast
      then have ac: "p \<notin> set (lb_accesses lx)" using to(4) [OF 5] by blast
      show ?thesis
      proof (cases "lb_alloc l = Some x")
        case True
        then have "lb_free lx = Some p" using from_l(5) [OF f] by blast
        with True f nm ac show ?thesis unfolding unlinked_def Let_def cut_pointers_cases(5) [OF 5]
          by (cases lx) (simp add: no keep_ptr_def all)
      next
        case False
        then have "lb_free lx \<noteq> Some p" using to(6) [OF 5] by blast
        with False f nm ac show ?thesis unfolding unlinked_def Let_def cut_pointers_cases(5) [OF 5]
          by (cases lx) (simp add: no keep all)
      qed
    next
      case n
      then have "p \<notin> set (lb_accesses lx)" "lb_free lx \<noteq> Some p" using to(4,6) [OF 5] by blast+
      with n show ?thesis unfolding unlinked_def Let_def cut_pointers_cases(5) [OF 5]
        by (cases lx) (simp add: no keep all)
    qed
  next
    case 6
    have k: "\<not> isWrite (lb_kind lx)" "\<not> isRead (lb_kind lx)"
      using 6(1) pointer_classes(1,2) [of "lb_kind lx"] by blast+
    have no: "\<not> (isRead (lb_kind l) \<and> lb_rf l = Some x)" using w k by blast
    have no2: "\<not> (isWrite (lb_kind l) \<and> x \<in> set (lb_readers l))" using from_l(2) k by blast
    have no3: "\<not> (isMemAccess (lb_kind l) \<and> lb_alloc l = Some x)" using from_l(3) 6 by blast
    have no4: "\<not> (isFree (lb_kind l) \<and> lb_alloc l = Some x)" using from_l(5) 6 by blast
    have no5: "\<not> (isMalloc (lb_kind l) \<and> lb_free l = Some x)" using from_l(6) 6 by blast
    show ?thesis unfolding unlinked_def Let_def by (simp add: no no2 no3 no4 no5 cut_pointers_other 6)
  qed
qed

text \<open>One of the assignments: the target of a pointer, when the label has it.\<close>

lemma mapped_by_target:
  assumes "mapped_by f g h" "\<And>a. b \<Longrightarrow> q = Some a \<Longrightarrow> isEventKind K g a"
  shows "\<exists>h'. (case q of Some a \<Rightarrow> if b \<and> isEventKind K g a then with_label a (\<lambda>l. Inr (k l)) h else Inr h
       | None \<Rightarrow> Inr h) = Inr h' \<and>
    mapped_by (\<lambda>x l. if b \<and> q = Some x then k (f x l) else f x l) g h'"
proof (cases "b \<and> q \<noteq> None")
  case True
  then obtain a where a: "b" "q = Some a" by blast
  from assms(2) [OF a] have ak: "isEventKind K g a" .
  then obtain la where la: "lab_at g a = Some la" by (auto simp: isEventKind_def split: option.splits)
  have eq: "(\<lambda>x l. if b \<and> q = Some x then k (f x l) else f x l) = (\<lambda>x l. if x = a then k (f x l) else f x l)"
    using a by (auto simp: fun_eq_iff)
  from mapped_by_with [OF assms(1) la, of "\<lambda>l. Inr (k l)" k] a ak show ?thesis unfolding eq by simp
next
  case False
  then have "(\<lambda>x l. if b \<and> q = Some x then k (f x l) else f x l) = f" by (auto simp: fun_eq_iff)
  with False assms(1) show ?thesis by (auto split: option.split)
qed

text \<open>The assignments of \<open>removeLast\<close>, before the label is erased.\<close>

definition unlink_label :: "label \<Rightarrow> exec_graph \<Rightarrow> exec_graph res" where
  "unlink_label l g =
     (let p = lb_pos l; k = lb_kind l in
     bindR (case lb_rf l of
         Some w \<Rightarrow> if isRead k \<and> isEventKind isWrite g w
                   then with_label w (\<lambda>wl. Inr (removeReader (\<lambda>r. r = p) wl)) g else Inr g
       | None \<Rightarrow> Inr g) (\<lambda>g1.
     bindR (if isWrite k
            then foldR (\<lambda>r. with_label r (\<lambda>rl. Inr (rl\<lparr>lb_rf := None\<rparr>))) (lb_readers l) g1
            else Inr g1) (\<lambda>g2.
     bindR (case lb_alloc l of
         Some a \<Rightarrow> if isMemAccess k \<and> isEventKind isMalloc g a
                   then with_label a (\<lambda>al. Inr (removeAccess (\<lambda>m. m = p) al)) g2 else Inr g2
       | None \<Rightarrow> Inr g2) (\<lambda>g3.
     bindR (if isFree k then
              (case lb_alloc l of
                 Some a \<Rightarrow> with_label a (\<lambda>al. Inr (al\<lparr>lb_free := None\<rparr>)) g3
               | None \<Rightarrow> Inl Undefined)
            else Inr g3) (\<lambda>g4.
     case lb_free l of
         Some d \<Rightarrow> if isMalloc k \<and> isEventKind isFree g d
                   then with_label d (\<lambda>dl. Inr (dl\<lparr>lb_alloc := None\<rparr>)) g4 else Inr g4
       | None \<Rightarrow> Inr g4)))))"

lemma removeLast_unlink:
  "removeLast t g = bindR (getLastThreadLabel g t) (\<lambda>l. bindR (unlink_label l g) (\<lambda>h.
     Inr (h\<lparr>insertionOrder := removeAll (lb_pos l) (insertionOrder h),
            events := (events h)[t := take (nat (index (lb_pos l))) (events h ! t)]\<rparr>)))"
  by (simp add: removeLast_def unlink_label_def Let_def bindR_def split: sum.split)

lemma unlink_label_result:
  assumes core: "graph_core g" and p: "lab_at g (lb_pos l) = Some l" "droppable g l"
  shows "\<exists>h. unlink_label l g = Inr h \<and> mapped_by (unlinked l) g h"
proof -
  have ok: "rf_ok g" "alloc_ok g" "free_ok g" using core by (simp_all add: graph_core_def)
  note mal = ok(2) [unfolded alloc_ok_def, THEN conjunct1, rule_format, OF conjI [OF p(1) conjI]]
    and fre = ok(3) [unfolded free_ok_def, THEN conjunct1, rule_format, OF conjI [OF p(1) conjI]]
    and frd = ok(3) [unfolded free_ok_def, THEN conjunct2, THEN conjunct1, rule_format, OF conjI [OF p(1) conjI]]
  have kind: "isEventKind P g a" if "at_kind P g a Q" for P Q a
    using that by (auto simp: at_kind_def isEventKind_def)
  let ?k = "lb_kind l" and ?p = "lb_pos l"
  have "isEventKind isWrite g w" if "isRead ?k" "lb_rf l = Some w" for w
    using p(2) that by (simp add: droppable_def)
  with mapped_by_target [OF mapped_by_refl, of "isRead ?k" "lb_rf l" isWrite g "removeReader (\<lambda>r. r = ?p)"] obtain g1 where g1: "(case lb_rf l of
         Some w \<Rightarrow> if isRead ?k \<and> isEventKind isWrite g w
                   then with_label w (\<lambda>wl. Inr (removeReader (\<lambda>r. r = ?p) wl)) g else Inr g
       | None \<Rightarrow> Inr g) = Inr g1"
    "mapped_by (\<lambda>x lx. if isRead ?k \<and> lb_rf l = Some x then removeReader (\<lambda>r. r = ?p) lx else lx) g g1" by blast
  define f1 where "f1 = (\<lambda>x lx. if isRead ?k \<and> lb_rf l = Some x then removeReader (\<lambda>r. r = ?p) lx else lx)"
  define f2 where "f2 x lx = (if isWrite ?k \<and> x \<in> set (lb_readers l) then (f1 x lx)\<lparr>lb_rf := None\<rparr> else f1 x lx)" for x lx
  have "\<exists>g2. (if isWrite ?k then foldR (\<lambda>r. with_label r (\<lambda>rl. Inr (rl\<lparr>lb_rf := None\<rparr>))) (lb_readers l) g1
            else Inr g1) = Inr g2 \<and> mapped_by f2 g g2"
  proof (cases "isWrite ?k")
    case True
    have rd: "readers_of g ?p 0 = lb_readers l" using p(1) True by (simp add: readers_of_def)
    have d: "distinct (lb_readers l)" using ok(1) unfolding rf_ok_def rd [symmetric] by blast
    have c: "containsPos g r" if "r \<in> set (lb_readers l)" for r
    proof -
      have "at_kind isRead g r (\<lambda>l'. lb_rf l' = Some ?p \<and> (?p = event_init \<longrightarrow> lb_addr l' = 0))"
        using ok(1) that unfolding rf_ok_def rd [symmetric] by blast
      then show ?thesis by (auto simp: at_kind_def containsPos_lab)
    qed
    have "f2 = (\<lambda>x lx. if x \<in> set (lb_readers l) then (f1 x lx)\<lparr>lb_rf := None\<rparr> else f1 x lx)"
      using True by (simp add: f2_def fun_eq_iff)
    with mapped_by_withs [OF g1(2) [folded f1_def] d c, of "\<lambda>rl. Inr (rl\<lparr>lb_rf := None\<rparr>)" "\<lambda>rl. rl\<lparr>lb_rf := None\<rparr>"] True
    show ?thesis by simp
  next
    case False
    then have "f2 = f1" by (simp add: f2_def fun_eq_iff)
    with False g1(2) show ?thesis by (simp add: f1_def)
  qed
  then obtain g2 where g2: "(if isWrite ?k
            then foldR (\<lambda>r. with_label r (\<lambda>rl. Inr (rl\<lparr>lb_rf := None\<rparr>))) (lb_readers l) g1
            else Inr g1) = Inr g2" "mapped_by f2 g g2" by blast
  have "isEventKind isMalloc g a" if "isMemAccess ?k" "lb_alloc l = Some a" for a by (rule kind [OF mal [OF that]])
  with mapped_by_target [OF g2(2), of "isMemAccess ?k" "lb_alloc l" isMalloc "removeAccess (\<lambda>m. m = ?p)"] obtain g3 where g3: "(case lb_alloc l of
         Some a \<Rightarrow> if isMemAccess ?k \<and> isEventKind isMalloc g a
                   then with_label a (\<lambda>al. Inr (removeAccess (\<lambda>m. m = ?p) al)) g2 else Inr g2
       | None \<Rightarrow> Inr g2) = Inr g3"
    "mapped_by (\<lambda>x lx. if isMemAccess ?k \<and> lb_alloc l = Some x then removeAccess (\<lambda>m. m = ?p) (f2 x lx) else f2 x lx) g g3" by blast
  have fr: "isEventKind isMalloc g a" if "isFree ?k" "lb_alloc l = Some a" for a by (rule kind [OF fre [OF that]])
  with mapped_by_target [OF g3(2), of "isFree ?k" "lb_alloc l" isMalloc "\<lambda>al. al\<lparr>lb_free := None\<rparr>"] obtain g4 where g4: "(case lb_alloc l of
         Some a \<Rightarrow> if isFree ?k \<and> isEventKind isMalloc g a then with_label a (\<lambda>al. Inr (al\<lparr>lb_free := None\<rparr>)) g3 else Inr g3
       | None \<Rightarrow> Inr g3) = Inr g4" and m4: "mapped_by (\<lambda>x lx. if isFree ?k \<and> lb_alloc l = Some x
         then (if isMemAccess ?k \<and> lb_alloc l = Some x then removeAccess (\<lambda>m. m = ?p) (f2 x lx) else f2 x lx)\<lparr>lb_free := None\<rparr>
         else (if isMemAccess ?k \<and> lb_alloc l = Some x then removeAccess (\<lambda>m. m = ?p) (f2 x lx) else f2 x lx)) g g4" by blast
  have r4: "(if isFree ?k then (case lb_alloc l of Some a \<Rightarrow> with_label a (\<lambda>al. Inr (al\<lparr>lb_free := None\<rparr>)) g3
               | None \<Rightarrow> Inl Undefined) else Inr g3) = Inr g4"
  proof (cases "isFree ?k")
    case True
    then obtain a where a: "lb_alloc l = Some a" using p(2) by (auto simp: droppable_def)
    with True fr [OF True a] g4 show ?thesis by simp
  next
    case False
    with g4 show ?thesis by (simp split: option.splits)
  qed
  have "isEventKind isFree g d" if "isMalloc ?k" "lb_free l = Some d" for d by (rule kind [OF frd [OF that]])
  with mapped_by_target [OF m4, of "isMalloc ?k" "lb_free l" isFree "\<lambda>dl. dl\<lparr>lb_alloc := None\<rparr>"] obtain g5 where g5: "(case lb_free l of
         Some d \<Rightarrow> if isMalloc ?k \<and> isEventKind isFree g d
                   then with_label d (\<lambda>dl. Inr (dl\<lparr>lb_alloc := None\<rparr>)) g4 else Inr g4
       | None \<Rightarrow> Inr g4) = Inr g5" and m5: "mapped_by (unlinked l) g g5"
    unfolding unlinked_def [abs_def] Let_def f2_def [abs_def] f1_def by blast
  have "unlink_label l g = Inr g5"
    unfolding unlink_label_def Let_def g1(1) bindR_simps g2(1) g3(1) r4 g5 ..
  with m5 show ?thesis by blast
qed

lemma removeLast_result:
  assumes core: "graph_core g" and l: "getLastThreadLabel g t = Inr l" "droppable g l" "lb_pos l \<noteq> event_init"
  defines "p \<equiv> lb_pos l"
  shows "\<exists>h. removeLast t g = Inr h \<and> graph_core h \<and> (\<forall>x. containsPos h x \<longleftrightarrow> containsPos g x \<and> x \<noteq> p) \<and>
    (\<forall>x. lab_at h x = (if x = p then None else map_option (cut_pointers (\<lambda>y. y \<noteq> p)) (lab_at g x))) \<and>
    coherence h = coherence g \<and> insertionOrder h = removeAll p (insertionOrder g) \<and> timestamp h = timestamp g \<and>
    getNumThreads h = getNumThreads g \<and>
    (\<forall>s. getThreadSize h s = (if s = t then getThreadSize g t - 1 else getThreadSize g s))"
proof -
  let ?e = "Event (int t) (int (getThreadSize g t) - 1)"
  have "lab_at g ?e = Some l"
    using l(1) by (auto simp: getLastThreadLabel_def getEventLabel_def split: option.splits)
  moreover from this core have pe: "p = ?e" by (simp add: graph_core_def pos_ok_def p_def)
  ultimately have p: "lab_at g p = Some l" by simp
  have pi: "p \<noteq> event_init" using l(3) by (simp add: p_def)
  have ok: "rf_ok g" "co_ok g" "keys_ok g" "order_ok g" "alloc_ok g" "free_ok g"
    using core by (simp_all add: graph_core_def)
  from unlink_label_result [OF core p [unfolded p_def] l(2)] obtain g5 where
    g5: "unlink_label l g = Inr g5" "mapped_by (unlinked l) g g5" by blast
  define h where "h = g5\<lparr>insertionOrder := removeAll p (insertionOrder g5), events := (events g5)[t := take (nat (index p)) (events g5 ! t)]\<rparr>"
  have run: "removeLast t g = Inr h"
    unfolding removeLast_unlink l(1) bindR_simps g5(1) h_def p_def ..
  have cp: "containsPos g p" by (rule lab_at_pos [OF p])
  have m5: "\<And>x. lab_at g5 x = map_option (unlinked l x) (lab_at g x)" "coherence g5 = coherence g"
    "insertionOrder g5 = insertionOrder g" "timestamp g5 = timestamp g" "getNumThreads g5 = getNumThreads g"
    "\<And>s. getThreadSize g5 s = getThreadSize g s"
    using g5(2) by (simp_all add: mapped_by_def)
  have nt: "getNumThreads h = getNumThreads g" using m5(5) by (simp add: h_def getNumThreads_def)
  have tn: "t < getNumThreads g" "0 < getThreadSize g t" "nat (index p) = getThreadSize g t - 1"
    using cp pe by (auto simp: containsPos_Event)
  have sz: "getThreadSize h s = (if s = t then getThreadSize g t - 1 else getThreadSize g s)" for s
    using m5(6) [of t] m5(6) [of s] tn m5(5)
    by (cases "s = t") (simp_all add: h_def getThreadSize_def getNumThreads_def nth_list_update)
  have pos: "containsPos h x \<longleftrightarrow> containsPos g x \<and> x \<noteq> p" for x
  proof -
    have "x = p \<longleftrightarrow> nat (thread x) = t \<and> nat (index x) = getThreadSize g t - 1" if "containsPos g x"
      using that event_eqI [of x p] cp pe tn by (auto simp: containsPos_def)
    moreover have "containsPos h x \<longleftrightarrow> containsPos g x \<and> \<not> (nat (thread x) = t \<and> nat (index x) = getThreadSize g t - 1)"
      using tn(2) by (auto simp: containsPos_def nt sz) arith
    ultimately show ?thesis by blast
  qed
  have h5: "lab_at h x = lab_at g5 x" if "x \<noteq> p" for x
  proof (cases "containsPos g x")
    case True
    have c5: "containsPos g5 x" using True m5(5,6) by (simp add: containsPos_def)
    have "events h ! nat (thread x) ! nat (index x) = events g5 ! nat (thread x) ! nat (index x)"
    proof (cases "nat (thread x) = t")
      case t: True
      have "containsPos h x" using True that pos by blast
      then have "nat (index x) < getThreadSize g t - 1" using t by (simp add: containsPos_def sz)
      with t tn m5(5) show ?thesis by (simp add: h_def getNumThreads_def)
    qed (simp add: h_def)
    moreover have "containsPos h x" using True that pos by blast
    ultimately show ?thesis using c5 by (simp add: lab_at_def)
  next
    case False
    then have "\<not> containsPos h x" "\<not> containsPos g5 x" using pos m5(5,6) by (auto simp: containsPos_def)
    then show ?thesis by (simp add: lab_at_def)
  qed
  note f5 = unlinked_restricts [OF core p l(2) pi]
  have at_h: "lab_at h x = (if x = p then None else map_option (cut_pointers (\<lambda>y. y \<noteq> p)) (lab_at g x))" for x
  proof (cases "x = p")
    case True
    with pos [of p] show ?thesis by (simp add: lab_at_def)
  next
    case False
    with h5 [OF False] m5(1) [of x] f5 show ?thesis by (cases "lab_at g x") simp_all
  qed
  have noinit: "p \<notin> set (readers_of g event_init a)" for a
  proof
    assume "p \<in> set (readers_of g event_init a)"
    then have "at_kind isRead g p (\<lambda>l. lb_rf l = Some event_init \<and> (event_init = event_init \<longrightarrow> lb_addr l = a))"
      using ok(1) unfolding rf_ok_def by blast
    with p have "isRead (lb_kind l)" "lb_rf l = Some event_init" by (auto simp: at_kind_def)
    with l(2) have "isEventKind isWrite g event_init" by (simp add: droppable_def)
    moreover from core_init [OF core] obtain il where "lab_at g event_init = Some il" "lb_kind il = Init" .
    ultimately show False by (simp add: isEventKind_def)
  qed
  have one: "restricts (\<lambda>y. y \<noteq> p) lx (cut_pointers (\<lambda>y. y \<noteq> p) lx)" if x: "lab_at g x = Some lx" for x lx
  proof (cases "lb_kind lx = Init")
    case True
    with core_init_only [OF core x] have xi: "x = event_init" by simp
    have "m_get (lb_initRfs lx) a = readers_of g event_init a" for a
      using x xi True by (simp add: readers_of_def)
    with noinit have "filter (\<lambda>y. y \<noteq> p) (m_get (lb_initRfs lx) a) = m_get (lb_initRfs lx) a" for a
      by (auto simp: filter_id_conv)
    moreover have "cut_pointers (\<lambda>y. y \<noteq> p) lx = lx" using True by (intro cut_pointers_other) simp_all
    ultimately show ?thesis using True by (simp add: restricts_def)
  qed (rule cut_pointers_restricts)
  have r: "restricted (\<lambda>y. y \<noteq> p) g h"
    unfolding restricted_def
  proof (intro conjI allI impI)
    fix x lx assume "lab_at g x = Some lx \<and> x \<noteq> p"
    with one at_h [of x] show "\<exists>l'. lab_at h x = Some l' \<and> restricts (\<lambda>y. y \<noteq> p) lx l'" by auto
  next
    fix x l' assume "lab_at h x = Some l'"
    with at_h [of x] obtain l0 where "x \<noteq> p" "lab_at g x = Some l0" "l' = cut_pointers (\<lambda>y. y \<noteq> p) l0"
      by (cases "lab_at g x") (auto split: if_splits)
    with one show "is_hole x l' \<or> x \<noteq> p \<and> (\<exists>l. lab_at g x = Some l \<and> restricts (\<lambda>y. y \<noteq> p) l l')" by blast
  qed
  have "graph_core h"
  proof (rule restrict_core_init [OF core r])
    show "event_init \<noteq> p" using pi by simp
    show "lb_kind lx \<noteq> Empty" if "lab_at h (Event s 0) = Some lx" for s lx
    proof -
      from that at_h [of "Event s 0"] obtain l0 where "lab_at g (Event s 0) = Some l0" "lb_kind lx = lb_kind l0"
        by (auto split: if_splits)
      with core have "isThreadStart (lb_kind lx)" by (simp add: graph_core_def start_ok_def)
      then show ?thesis using kind_consts(14) by metis
    qed
    show "co h a = filter (\<lambda>y. y \<noteq> p) (co g a)" for a
    proof -
      have "p \<notin> set (co g a)"
      proof
        assume a: "p \<in> set (co g a)"
        with ok(2) have "at_kind isWrite g p (\<lambda>l. lb_addr l = a)" by (simp add: co_ok_def)
        with p a l(2) show False by (auto simp: at_kind_def droppable_def p_def)
      qed
      then have "filter (\<lambda>y. y \<noteq> p) (co g a) = co g a" by (auto simp: filter_id_conv)
      then show ?thesis by (simp add: co_def h_def m5(2))
    qed
    show "keys_ok h"
    proof -
      from core_init [OF core] obtain il where il: "lab_at g event_init = Some il" "lb_kind il = Init"
        "map fst (lb_initRfs il) = map fst (coherence g)" .
      have "lab_at h event_init = Some il"
        using at_h [of event_init] pi il(1,2) cut_pointers_other [of il "\<lambda>y. y \<noteq> p"] by simp
      then show ?thesis
      proof (rule keys_okI)
        show "map fst (lb_initRfs il) = map fst (coherence h)" "distinct (map fst (coherence h))"
          using il(3) ok(3) m5(2) by (simp_all add: keys_ok_def h_def)
        show "lb_addr lx \<in> fst ` set (coherence h)" if lx: "lab_at h e = Some lx" "isMemAccess (lb_kind lx)" for e lx
        proof -
          from lx(1) at_h [of e] obtain l0 where l0: "lab_at g e = Some l0" "lx = cut_pointers (\<lambda>y. y \<noteq> p) l0"
            by (auto split: if_splits)
          with lx(2) have k: "isMemAccess (lb_kind l0)" "lb_kind l0 \<noteq> Init" by auto
          from cut_pointers_restricts [OF k(2), of "\<lambda>y. y \<noteq> p"] k(2) l0(2) have "lb_addr lx = lb_addr l0"
            by (simp add: restricts_def)
          with k(1) show ?thesis using l0(1) ok(3) m5(2) by (simp add: keys_ok_def h_def)
        qed
      qed
    qed
    show "order_ok h" using ok(4) pos by (auto simp: order_ok_def m5(3) h_def distinct_removeAll)
  qed
  moreover have "coherence h = coherence g" "insertionOrder h = removeAll p (insertionOrder g)" "timestamp h = timestamp g"
    using m5(2-4) by (simp_all add: h_def)
  ultimately show ?thesis using run pos at_h nt sz by blast
qed

end
