(* ===== verification/Graph_Reach.thy ===== *)
theory Graph_Reach
  imports Graph_Removal
begin

text \<open>
  Sequences of graph operations.  \<open>enabled\<close> says how the driver uses each operation; from the
  graph of the constructor, no enabled operation fails and every graph is well formed.
\<close>

datatype graph_op =
    AddLabel label            \<comment> \<open>a fresh label at the end of its thread, or over a hole\<close>
  | Fork label                \<comment> \<open>a new thread and its start label\<close>
  | SetRf event "event option"
  | CoBefore event event
  | CoAfter event event
  | CoMoveBefore event event
  | CoMoveAfter event event
  | Alloc event event         \<comment> \<open>the allocation of a memory access\<close>
  | CutTo stamp
  | DepCutTo stamp
  | CopyUpTo view
  | Compress stamp
  | FreeBlock label           \<comment> \<open>the label of a free, and its link to the allocation\<close>
  | SetJoin event event       \<comment> \<open>the end of a thread points to the join that waited for it\<close>
  | DropLast nat              \<comment> \<open>the last label of a thread, which has another\<close>
  | Refork label              \<comment> \<open>a thread that is created again\<close>

definition forkThread :: "label \<Rightarrow> exec_graph \<Rightarrow> exec_graph res" where
  "forkThread l g = addLabelToGraph l (addNewThread g)"

text \<open>\<open>handleThreadCreate\<close> for a thread that the graph has.\<close>

definition reforkThread :: "label \<Rightarrow> exec_graph \<Rightarrow> exec_graph res" where
  "reforkThread l g =
     (let cid = nat (thread (lb_pos l)) in
      bindR (guardR Bug (getThreadSize g cid = 1)) (\<lambda>_. bindR (removeLast cid g) (addLabelToGraph l)))"

fun run_op :: "graph_op \<Rightarrow> exec_graph \<Rightarrow> exec_graph res" where
  "run_op (AddLabel l) g = addLabelToGraph l g"
| "run_op (Fork l) g = forkThread l g"
| "run_op (SetRf r rf) g = setRf r rf g"
| "run_op (CoBefore w s) g = addStoreToCOBefore w s g"
| "run_op (CoAfter w p) g = addStoreToCOAfter w p g"
| "run_op (CoMoveBefore w s) g = moveStoreCOBefore w s g"
| "run_op (CoMoveAfter w p) g = moveStoreCOAfter w p g"
| "run_op (Alloc a m) g = addAlloc (Some a) m g"
| "run_op (CutTo st) g = cutToStamp st g"
| "run_op (DepCutTo st) g = dep_cutToStamp st g"
| "run_op (CopyUpTo v) g = getCopyUpTo (VC_View v) g"
| "run_op (Compress st) g = compressStampsAfter st g"
| "run_op (FreeBlock dl) g = handleFree dl g"
| "run_op (SetJoin f j) g = setParentJoin f j g"
| "run_op (DropLast t) g = removeLast t g"
| "run_op (Refork l) g = reforkThread l g"

definition co_target :: "exec_graph \<Rightarrow> event \<Rightarrow> event \<Rightarrow> bool" where
  "co_target g w p \<longleftrightarrow> at_kind (\<lambda>_. True) g p (\<lambda>pl. isWrite (lb_kind pl) \<longrightarrow> p \<in> set (co g (addr_at g w)))"

definition view_fits :: "view \<Rightarrow> exec_graph \<Rightarrow> bool" where
  "view_fits v g \<longleftrightarrow> view_inv v \<and> length v \<le> getNumThreads g \<and>
     list_all (\<lambda>t. vmax v t < int (getThreadSize g t)) [0..<getNumThreads g]"

lemma view_fits_iff: "view_fits v g \<longleftrightarrow> view_cut.fits v g"
  by (auto simp: view_fits_def view_cut.fits_def list_all_iff)

fun enabled :: "graph_op \<Rightarrow> exec_graph \<Rightarrow> bool" where
  "enabled (AddLabel l) g \<longleftrightarrow> free_pos g (lb_pos l) \<and> fresh_label l"
| "enabled (Fork l) g \<longleftrightarrow> lb_pos l = Event (int (getNumThreads g)) 0 \<and> fresh_label l"
| "enabled (SetRf r rf) g \<longleftrightarrow> at_kind isRead g r (\<lambda>_. True) \<and> (case rf of None \<Rightarrow> True | Some w \<Rightarrow> rf_target g w)"
| "enabled (CoBefore w s) g \<longleftrightarrow> at_kind isWrite g w (\<lambda>_. True) \<and> w \<notin> set (co g (addr_at g w)) \<and> s \<in> set (co g (addr_at g w))"
| "enabled (CoAfter w p) g \<longleftrightarrow> at_kind isWrite g w (\<lambda>_. True) \<and> w \<notin> set (co g (addr_at g w)) \<and> co_target g w p"
| "enabled (CoMoveBefore w s) g \<longleftrightarrow> at_kind isWrite g w (\<lambda>_. True) \<and> s \<in> set (co g (addr_at g w)) \<and> s \<noteq> w"
| "enabled (CoMoveAfter w p) g \<longleftrightarrow> at_kind isWrite g w (\<lambda>_. True) \<and> p \<noteq> w \<and> co_target g w p"
| "enabled (Alloc a m) g \<longleftrightarrow> at_kind isMemAccess g m (\<lambda>l. lb_alloc l = None) \<and> at_kind isMalloc g a (\<lambda>_. True)"
| "enabled (CutTo st) g \<longleftrightarrow> True"
| "enabled (DepCutTo st) g \<longleftrightarrow> True"
| "enabled (CopyUpTo v) g \<longleftrightarrow> view_fits v g"
| "enabled (Compress st) g \<longleftrightarrow> True"
| "enabled (FreeBlock dl) g \<longleftrightarrow> free_pos g (lb_pos dl) \<and> fresh_label dl \<and> isFree (lb_kind dl) \<and>
     (case findAllocatingLabel g (lb_freeAddr dl) of None \<Rightarrow> False
      | Some a \<Rightarrow> at_kind isMalloc g a (\<lambda>al. lb_free al = None))"
| "enabled (SetJoin f j) g \<longleftrightarrow> at_kind isThreadFinish g f (\<lambda>_. True) \<and> at_kind (\<lambda>k. k = ThreadJoin) g j (\<lambda>_. True)"
| "enabled (DropLast t) g \<longleftrightarrow> t < getNumThreads g \<and> 2 \<le> getThreadSize g t \<and>
     (case getLastThreadLabel g t of Inl _ \<Rightarrow> False | Inr l \<Rightarrow> droppable g l)"
| "enabled (Refork l) g \<longleftrightarrow> 0 < thread (lb_pos l) \<and> index (lb_pos l) = 0 \<and> nat (thread (lb_pos l)) < getNumThreads g \<and>
     getThreadSize g (nat (thread (lb_pos l))) = 1 \<and> fresh_label l"

inductive reachable :: "exec_graph \<Rightarrow> bool" where
  new: "reachable new_graph"
| step: "reachable g \<Longrightarrow> enabled a g \<Longrightarrow> run_op a g = Inr h \<Longrightarrow> reachable h"

lemma co_ops_threads:
  "addStoreToCOBefore w s g = Inr h \<Longrightarrow> getNumThreads h = getNumThreads g"
  "addStoreToCOAfter w s g = Inr h \<Longrightarrow> getNumThreads h = getNumThreads g"
  "removeStoreFromCO w g = Inr h \<Longrightarrow> getNumThreads h = getNumThreads g"
  by (auto simp: addStoreToCOBefore_def addStoreToCOAfter_def removeStoreFromCO_def bindR_Inr_iff split: if_splits)

lemma co_moves_threads:
  "moveStoreCOBefore w s g = Inr h \<Longrightarrow> getNumThreads h = getNumThreads g"
  "moveStoreCOAfter w s g = Inr h \<Longrightarrow> getNumThreads h = getNumThreads g"
  by (auto simp: moveStoreCOBefore_def moveStoreCOAfter_def bindR_Inr_iff dest!: co_ops_threads)

lemma fork_ok:
  assumes g: "graph_ok g" and l: "lb_pos l = Event (int (getNumThreads g)) 0" "fresh_label l"
  shows "\<exists>h. forkThread l g = Inr h \<and> graph_ok h"
proof -
  let ?g = "addNewThread g"
  have core: "graph_core ?g" using addNewThread_core g by (simp add: graph_ok_def)
  have n: "getNumThreads ?g = Suc (getNumThreads g)" "getThreadSize ?g (getNumThreads g) = 0"
    by (simp_all add: addNewThread_def getNumThreads_def getThreadSize_def)
  have "0 < getThreadSize ?g t \<or> t = getNumThreads g" if "t < getNumThreads ?g" for t
    using g that n(1) by (auto simp: graph_ok_def threads_ok_def addNewThread_def getNumThreads_def getThreadSize_def nth_append less_Suc_eq)
  moreover have "free_pos ?g (lb_pos l)" using l(1) n by (simp add: free_pos_def)
  ultimately show ?thesis using addLabel_ok [OF core _ l(2)] l(1) unfolding forkThread_def by fastforce
qed

lemma drop_ok:
  assumes g: "graph_ok g" and t: "2 \<le> getThreadSize g t" "getLastThreadLabel g t = Inr l" "droppable g l"
  shows "\<exists>h. removeLast t g = Inr h \<and> graph_ok h"
proof -
  have core: "graph_core g" and th: "threads_ok g" using g by (simp_all add: graph_ok_def)
  have "lb_pos l = Event (int t) (int (getThreadSize g t) - 1)"
    using t(2) core by (auto simp: getLastThreadLabel_def getEventLabel_def graph_core_def pos_ok_def split: option.splits)
  with t(1) have "lb_pos l \<noteq> event_init" by (simp add: event_init_def)
  from removeLast_result [OF core t(2,3) this] obtain h where h: "removeLast t g = Inr h" "graph_core h"
    "getNumThreads h = getNumThreads g" "\<And>s. getThreadSize h s = (if s = t then getThreadSize g t - 1 else getThreadSize g s)"
    by blast
  with th t(1) have "threads_ok h" by (simp add: threads_ok_def)
  with h show ?thesis by (simp add: graph_ok_def)
qed

lemma refork_ok:
  assumes g: "graph_ok g" and l: "0 < thread (lb_pos l)" "index (lb_pos l) = 0"
    "nat (thread (lb_pos l)) < getNumThreads g" "getThreadSize g (nat (thread (lb_pos l))) = 1" "fresh_label l"
  shows "\<exists>h. reforkThread l g = Inr h \<and> graph_ok h"
proof -
  let ?t = "nat (thread (lb_pos l))" let ?e = "Event (int ?t) 0"
  have core: "graph_core g" and th: "threads_ok g" using g by (simp_all add: graph_ok_def)
  have "containsPos g ?e" using l(1,3,4) by (simp add: containsPos_Event)
  then obtain o' where o': "lab_at g ?e = Some o'" by (auto simp: containsPos_lab)
  with core have o1: "lb_pos o' = ?e" "isThreadStart (lb_kind o')" by (simp_all add: graph_core_def pos_ok_def start_ok_def)
  have ne: "lb_pos o' \<noteq> event_init" using o1(1) l(1) by (simp add: event_init_def)
  have lst: "getLastThreadLabel g ?t = Inr o'" using o' l(4) by (simp add: getLastThreadLabel_def)
  have "lb_kind o' \<noteq> ThreadJoin" using o1(2) by (auto simp: kind_defs)
  then have drop: "droppable g o'" using o1(2) kind_disjoint(3,4,8,9,10) unfolding droppable_def by blast
  from removeLast_result [OF core lst drop ne] obtain h where h: "removeLast ?t g = Inr h" "graph_core h"
    "getNumThreads h = getNumThreads g" "\<And>s. getThreadSize h s = (if s = ?t then getThreadSize g ?t - 1 else getThreadSize g s)"
    by blast
  have "free_pos h (lb_pos l)" using l h(3,4) by (simp add: free_pos_def)
  moreover have "\<forall>s < getNumThreads h. 0 < getThreadSize h s \<or> s = ?t" using th h(3,4) by (simp add: threads_ok_def)
  ultimately obtain k where "addLabelToGraph l h = Inr k" "graph_ok k"
    using addLabel_ok [OF h(2) _ l(5)] by blast
  with h(1) l(4) show ?thesis by (simp add: reforkThread_def)
qed

text \<open>Every enabled operation succeeds and keeps the graph well formed.\<close>

lemma op_ok:
  assumes g: "graph_ok g" and e: "enabled a g"
  shows "\<exists>h. run_op a g = Inr h \<and> graph_ok h"
proof -
  have core: "graph_core g" and th: "threads_ok g" using g by (simp_all add: graph_ok_def)
  note ok = threads_ok_lab [OF th]
  show ?thesis
  proof (cases a)
    case (AddLabel l)
    with e th addLabel_ok [OF core, of l] show ?thesis by (fastforce simp: threads_ok_def)
  next
    case (Fork l)
    with e fork_ok [OF g, of l] show ?thesis by simp
  next
    case (SetRf r rf)
    with e obtain rl where rl: "lab_at g r = Some rl" "isRead (lb_kind rl)" by (auto simp: at_kind_def)
    have "\<And>w. rf = Some w \<Longrightarrow> rf_target g w" using e SetRf by simp
    from setRf_core [OF core rl this] obtain h where h: "setRf r rf g = Inr h" "graph_core h" "same_but_rf h g"
      "getNumThreads h = getNumThreads g" by blast
    from threads_ok_same [OF th, of h] same_but_rf_containsPos [OF h(3)] h SetRf show ?thesis by (simp add: graph_ok_def)
  next
    case (CoBefore w s)
    with e obtain wl where wl: "lab_at g w = Some wl" "isWrite (lb_kind wl)" by (auto simp: at_kind_def)
    with e CoBefore addStoreToCOBefore_core [OF core wl, of s] obtain h where
      h: "addStoreToCOBefore w s g = Inr h" "graph_core h" "lab_at h = lab_at g" by auto
    with CoBefore ok [OF h(3) co_ops_threads(1) [OF h(1)]] show ?thesis by (simp add: graph_ok_def)
  next
    case (CoAfter w p)
    with e obtain wl pl where wl: "lab_at g w = Some wl" "isWrite (lb_kind wl)" and
      pl: "lab_at g p = Some pl" "isWrite (lb_kind pl) \<Longrightarrow> p \<in> set (co g (lb_addr wl))"
      by (auto simp: at_kind_def co_target_def)
    with e CoAfter addStoreToCOAfter_core [OF core wl _ pl] obtain h where
      h: "addStoreToCOAfter w p g = Inr h" "graph_core h" "lab_at h = lab_at g" by auto
    with CoAfter ok [OF h(3) co_ops_threads(2) [OF h(1)]] show ?thesis by (simp add: graph_ok_def)
  next
    case (CoMoveBefore w s)
    with e obtain wl where wl: "lab_at g w = Some wl" "isWrite (lb_kind wl)" by (auto simp: at_kind_def)
    with e CoMoveBefore moveStoreCOBefore_core [OF core wl, of s] obtain h where
      h: "moveStoreCOBefore w s g = Inr h" "graph_core h" "lab_at h = lab_at g" by auto
    with CoMoveBefore ok [OF h(3) co_moves_threads(1) [OF h(1)]] show ?thesis by (simp add: graph_ok_def)
  next
    case (CoMoveAfter w p)
    with e obtain wl pl where wl: "lab_at g w = Some wl" "isWrite (lb_kind wl)" and
      pl: "lab_at g p = Some pl" "p \<noteq> w" "isWrite (lb_kind pl) \<Longrightarrow> p \<in> set (co g (lb_addr wl))"
      by (auto simp: at_kind_def co_target_def)
    from moveStoreCOAfter_core [OF core wl pl] obtain h where
      h: "moveStoreCOAfter w p g = Inr h" "graph_core h" "lab_at h = lab_at g" by auto
    with CoMoveAfter ok [OF h(3) co_moves_threads(2) [OF h(1)]] show ?thesis by (simp add: graph_ok_def)
  next
    case (Alloc al m)
    with e obtain ml bl where "lab_at g m = Some ml" "isMemAccess (lb_kind ml)" "lb_alloc ml = None"
      "lab_at g al = Some bl" "isMalloc (lb_kind bl)" by (auto simp: at_kind_def)
    from addAlloc_core [OF core this] obtain h where h: "addAlloc (Some al) m g = Inr h" "graph_core h"
      "\<forall>x. containsPos h x = containsPos g x" "getNumThreads h = getNumThreads g" by blast
    with Alloc threads_ok_same [OF th, of h] show ?thesis by (simp add: graph_ok_def)
  next
    case (CutTo st)
    with cutToStamp_result [OF g, of st] show ?thesis by auto
  next
    case (DepCutTo st)
    with dep_cutToStamp_result [OF g, of st] show ?thesis by auto
  next
    case (CopyUpTo v)
    with e getCopyUpTo_result [OF g, of v] view_fits_iff show ?thesis by auto
  next
    case (Compress st)
    from compress_result [OF core, of st] obtain h where "compressStampsAfter st g = Inr h" "relabelled g h" by blast
    with Compress relabelled_ok [OF _ g] show ?thesis by auto
  next
    case (FreeBlock dl)
    with e obtain a where a: "free_pos g (lb_pos dl)" "fresh_label dl" "isFree (lb_kind dl)"
      "findAllocatingLabel g (lb_freeAddr dl) = Some a" "at_kind isMalloc g a (\<lambda>al. lb_free al = None)"
      by (auto split: option.splits)
    from handleFree_ok [OF g a] FreeBlock show ?thesis by simp
  next
    case (SetJoin f j)
    with e obtain fl where f: "lab_at g f = Some fl" "isThreadFinish (lb_kind fl)" and
      j: "at_kind (\<lambda>k. k = ThreadJoin) g j (\<lambda>_. True)" by (auto simp: at_kind_def)
    from setParentJoin_core [OF core f j] obtain h where h: "setParentJoin f j g = Inr h" "graph_core h"
      "\<forall>x. containsPos h x = containsPos g x" "getNumThreads h = getNumThreads g" by blast
    with SetJoin threads_ok_same [OF th, of h] show ?thesis by (simp add: graph_ok_def)
  next
    case (DropLast t)
    with e drop_ok [OF g, of t] show ?thesis by (auto split: sum.splits)
  next
    case (Refork l)
    with e refork_ok [OF g, of l] show ?thesis by simp
  qed
qed

lemma reachable_ok: "reachable g \<Longrightarrow> graph_ok g"
proof (induction rule: reachable.induct)
  case new
  show ?case by (rule new_graph_ok)
next
  case (step g a h)
  from op_ok [OF step.IH step.hyps(2)] step.hyps(3) show ?case by simp
qed

section \<open>Running a list of operations\<close>

lemma at_kind_code [code]:
  "at_kind P g e Q = (case lab_at g e of None \<Rightarrow> False | Some l \<Rightarrow> P (lb_kind l) \<and> Q l)"
  by (auto simp: at_kind_def split: option.split)

lemma free_pos_code [code]:
  "free_pos g p = (0 \<le> thread p \<and> nat (thread p) < getNumThreads g \<and> 0 \<le> index p \<and>
     (nat (index p) = getThreadSize g (nat (thread p)) \<or> at_kind (\<lambda>k. k = Empty) g p (\<lambda>_. True)))"
  by (auto simp: free_pos_def at_kind_def)

lemma kept_at_code [code]:
  "kept_at g st x = (index x = 0 \<or> (0 \<le> thread x \<and> nat (thread x) < getNumThreads g \<and>
     list_ex (\<lambda>j. index x \<le> int j \<and> stamp_of g (Event (thread x) (int j)) \<le> st)
       [0..<getThreadSize g (nat (thread x))]))"
proof -
  have "(\<exists>j. index x \<le> j \<and> containsPos g (Event (thread x) j) \<and> stamp_of g (Event (thread x) j) \<le> st) \<longleftrightarrow>
      0 \<le> thread x \<and> nat (thread x) < getNumThreads g \<and> (\<exists>j<getThreadSize g (nat (thread x)).
        index x \<le> int j \<and> stamp_of g (Event (thread x) (int j)) \<le> st)"
    by (auto simp: containsPos_Event)
  then show ?thesis by (auto simp: kept_at_def list_ex_iff)
qed

fun run_ops :: "graph_op list \<Rightarrow> exec_graph \<Rightarrow> exec_graph option" where
  "run_ops [] g = Some g"
| "run_ops (a # as) g =
     (if enabled a g then (case run_op a g of Inr h \<Rightarrow> run_ops as h | Inl _ \<Rightarrow> None) else None)"

lemma run_ops_reachable: "run_ops as g = Some h \<Longrightarrow> reachable g \<Longrightarrow> reachable h"
proof (induction as arbitrary: g)
  case (Cons a as)
  then obtain k where "enabled a g" "run_op a g = Inr k" "run_ops as k = Some h"
    by (auto split: if_splits sum.splits)
  with Cons.IH [of k] Cons.prems(2) reachable.step show ?case by blast
qed simp

text \<open>A graph of two threads: two ordered stores, and a load that reads the second.\<close>

definition sample_ops :: "graph_op list" where
  "sample_ops =
     [AddLabel (access_label UnlockWrite (Event 0 1) Release 8), CoAfter (Event 0 1) event_init,
      Fork (start_label (Event 1 0) event_init),
      AddLabel (access_label UnlockWrite (Event 1 1) Release 8), CoAfter (Event 1 1) (Event 0 1),
      AddLabel (access_label CasRead (Event 0 2) Acquire 8), SetRf (Event 0 2) (Some (Event 1 1))]"

definition sample_graph :: exec_graph where
  "sample_graph = the (run_ops sample_ops new_graph)"

lemma sample_run: "run_ops sample_ops new_graph \<noteq> None"
  by code_simp

lemma sample_ok [simp]: "graph_ok sample_graph"
proof -
  from sample_run obtain g where g: "run_ops sample_ops new_graph = Some g" by blast
  with run_ops_reachable [OF g reachable.new] reachable_ok show ?thesis by (simp add: sample_graph_def)
qed

end
