(* ===== verification/Graph_Queries.thy ===== *)
theory Graph_Queries
  imports Graph_Reach
begin

text \<open>
  Facts about the functions that only read a graph: validation, prefixes, revisitable loads, lock
  matching; and the labels that a restriction to the whole graph leaves alone.
\<close>

section \<open>Nothing is lost when everything is kept\<close>

lemma core_pointers:
  assumes core: "graph_core g" and l: "lab_at g x = Some l"
  shows "isRead (lb_kind l) \<Longrightarrow> lb_rf l = Some w \<Longrightarrow> containsPos g w"
    "isWrite (lb_kind l) \<Longrightarrow> r \<in> set (lb_readers l) \<Longrightarrow>
       \<exists>rl. lab_at g r = Some rl \<and> isRead (lb_kind rl) \<and> lb_rf rl = Some x"
    "isMemAccess (lb_kind l) \<Longrightarrow> lb_alloc l = Some a \<Longrightarrow> containsPos g a"
    "isFree (lb_kind l) \<Longrightarrow> lb_alloc l = Some a \<Longrightarrow> containsPos g a"
    "isThreadFinish (lb_kind l) \<Longrightarrow> lb_parentJoin l = Some j \<Longrightarrow> containsPos g j"
    "isMalloc (lb_kind l) \<Longrightarrow> lb_free l = Some d \<Longrightarrow> containsPos g d"
    "isMalloc (lb_kind l) \<Longrightarrow> m \<in> set (lb_accesses l) \<Longrightarrow> containsPos g m"
proof -
  have ok: "rf_ok g" "alloc_ok g" "free_ok g" using core by (simp_all add: graph_core_def)
  have k: "at_kind P g e Q \<Longrightarrow> containsPos g e" for P e Q by (auto simp: at_kind_def containsPos_lab)
  show "isRead (lb_kind l) \<Longrightarrow> lb_rf l = Some w \<Longrightarrow> containsPos g w"
  proof -
    assume "isRead (lb_kind l)" "lb_rf l = Some w"
    with ok(1) l have "x \<in> set (readers_of g w (lb_addr l))" unfolding rf_ok_def by blast
    from readers_of_nonempty [OF this] show ?thesis by (auto simp: containsPos_lab)
  qed
  show "isWrite (lb_kind l) \<Longrightarrow> r \<in> set (lb_readers l) \<Longrightarrow>
       \<exists>rl. lab_at g r = Some rl \<and> isRead (lb_kind rl) \<and> lb_rf rl = Some x"
  proof -
    assume "isWrite (lb_kind l)" "r \<in> set (lb_readers l)"
    with l have "r \<in> set (readers_of g x 0)" by (simp add: readers_of_def)
    from rf_ok_back [OF core this] show ?thesis by blast
  qed
  show "isMemAccess (lb_kind l) \<Longrightarrow> lb_alloc l = Some a \<Longrightarrow> containsPos g a"
    using ok(2) l k unfolding alloc_ok_def by blast
  show "isFree (lb_kind l) \<Longrightarrow> lb_alloc l = Some a \<Longrightarrow> containsPos g a"
    using ok(3) l k unfolding free_ok_def by blast
  show "isThreadFinish (lb_kind l) \<Longrightarrow> lb_parentJoin l = Some j \<Longrightarrow> containsPos g j"
    using ok(3) l k unfolding free_ok_def by blast
  show "isMalloc (lb_kind l) \<Longrightarrow> lb_free l = Some d \<Longrightarrow> containsPos g d"
    using ok(3) l k unfolding free_ok_def by blast
  show "isMalloc (lb_kind l) \<Longrightarrow> m \<in> set (lb_accesses l) \<Longrightarrow> containsPos g m"
    using ok(2) l k unfolding alloc_ok_def by blast
qed

lemma keep_all: "(\<And>e. p = Some e \<Longrightarrow> has e) \<Longrightarrow> keep_ptr has p = p"
  by (cases p) (simp_all add: keep_ptr_def)

lemma cut_pointers_all:
  assumes core: "graph_core g" and l: "lab_at g x = Some l" and all: "\<And>y. containsPos g y \<Longrightarrow> has y"
  shows "cut_pointers has l = l"
proof -
  note ptr = core_pointers [OF core l]
  have same: "l\<lparr>lb_readers := lb_readers l, lb_alloc := lb_alloc l\<rparr> = l"
    "l\<lparr>lb_rf := lb_rf l, lb_alloc := lb_alloc l\<rparr> = l" "l\<lparr>lb_parentJoin := lb_parentJoin l\<rparr> = l"
    "l\<lparr>lb_alloc := lb_alloc l\<rparr> = l" "l\<lparr>lb_free := lb_free l, lb_accesses := lb_accesses l\<rparr> = l"
    by (cases l, simp)+
  show ?thesis
  proof (cases rule: pointer_class_cases [of "lb_kind l"])
    case 1
    then have m: "isMemAccess (lb_kind l)" by (simp add: pointer_classes(1))
    have "filter has (lb_readers l) = lb_readers l" using ptr(2) [OF 1] all by (auto simp: containsPos_lab filter_id_conv)
    moreover have "keep_ptr has (lb_alloc l) = lb_alloc l" using ptr(3) [OF m] all by (intro keep_all) blast
    ultimately show ?thesis using 1 same(1) by (simp add: cut_pointers_cases)
  next
    case 2
    then have m: "isMemAccess (lb_kind l)" by (simp add: pointer_classes(2))
    have "keep_ptr has (lb_rf l) = lb_rf l" using ptr(1) [OF 2] all by (intro keep_all) blast
    moreover have "keep_ptr has (lb_alloc l) = lb_alloc l" using ptr(3) [OF m] all by (intro keep_all) blast
    ultimately show ?thesis using 2 same(2) by (simp add: cut_pointers_cases)
  next
    case 3
    have "keep_ptr has (lb_parentJoin l) = lb_parentJoin l" using ptr(5) [OF 3] all by (intro keep_all) blast
    then show ?thesis using 3 same(3) by (simp add: cut_pointers_cases)
  next
    case 4
    have "keep_ptr has (lb_alloc l) = lb_alloc l" using ptr(4) [OF 4] all by (intro keep_all) blast
    then show ?thesis using 4 same(4) by (simp add: cut_pointers_cases)
  next
    case 5
    have "keep_ptr has (lb_free l) = lb_free l" using ptr(6) [OF 5] all by (intro keep_all) blast
    moreover have "filter has (lb_accesses l) = lb_accesses l" using ptr(7) [OF 5] all by (auto simp: filter_id_conv)
    ultimately show ?thesis using 5 same(5) by (simp add: cut_pointers_cases)
  next
    case 6
    then show ?thesis by (rule cut_pointers_other)
  qed
qed

lemma clone_graph_result:
  assumes g: "graph_ok g" and st: "\<And>x. containsPos g x \<Longrightarrow> stamp_of g x \<le> timestamp g"
  shows "\<exists>h. clone_graph g = Inr h \<and> graph_ok h \<and> (\<forall>x. x \<noteq> event_init \<longrightarrow> lab_at h x = lab_at g x) \<and>
    readers_of h = readers_of g \<and> co h = co g \<and> insertionOrder h = insertionOrder g \<and>
    timestamp h = timestamp g \<and> recoveryTID h = recoveryTID g \<and> getNumThreads h = getNumThreads g"
proof -
  have th: "threads_ok g" and core: "graph_core g" using g by (simp_all add: graph_ok_def)
  from getViewFromStamp_fits [OF th, of "timestamp g"] obtain v where v:
    "getViewFromStamp (timestamp g) g = Inr (VC_View v)" "view_cut.fits v g"
    "\<forall>x. containsPos g x \<longrightarrow> (vc_has (VC_View v) x \<longleftrightarrow> kept_at g (timestamp g) x)" by blast
  let ?has = "vc_has (VC_View v)"
  have all: "?has x" if x: "containsPos g x" for x
  proof -
    have "Event (thread x) (index x) = x" by simp
    with x st [OF x] have "kept_at g (timestamp g) x" unfolding kept_at_def by (metis order_refl)
    with v(3) x show ?thesis by blast
  qed
  from getCopyUpTo_result [OF g v(2)] obtain h where h: "getCopyUpTo (VC_View v) g = Inr h" "graph_ok h"
    "restricted ?has g h" "\<forall>x. containsPos h x \<longleftrightarrow> containsPos g x \<and> ?has x"
    "\<And>x l. lab_at h x = Some l \<and> x \<noteq> event_init \<Longrightarrow> \<exists>l0. lab_at g x = Some l0 \<and> l = cut_pointers ?has l0"
    "\<And>a. co h a = filter ?has (co g a)" "insertionOrder h = filter ?has (insertionOrder g)"
    "timestamp h = timestamp g" "recoveryTID h = recoveryTID g" "getNumThreads h = getNumThreads g" by blast
  have "lab_at h x = lab_at g x" if x: "x \<noteq> event_init" for x
  proof (cases "lab_at h x")
    case None
    then have "\<not> containsPos h x" by (simp add: containsPos_lab)
    with h(4) all have "\<not> containsPos g x" by blast
    with None show ?thesis by (simp add: lab_at_def)
  next
    case (Some l)
    from h(5) [of x l] Some x obtain l0 where l0: "lab_at g x = Some l0" "l = cut_pointers ?has l0" by blast
    with Some cut_pointers_all [OF core l0(1), of ?has] all show ?thesis by simp
  qed
  moreover have rd: "containsPos g e" if "e \<in> set (readers_of g w a)" for e w a
    using rf_ok_back [OF core that] by (auto simp: containsPos_lab)
  have "readers_of h w a = readers_of g w a" for w a
  proof (cases "lab_at g w")
    case None
    then show ?thesis using restricted_readers [OF h(3), of w a] by (simp add: readers_of_def)
  next
    case (Some l)
    then have "?has w" using all by (auto simp: containsPos_lab)
    moreover have "filter ?has (readers_of g w a) = readers_of g w a" using rd all by (auto simp: filter_id_conv)
    ultimately show ?thesis using restricted_readers [OF h(3), of w a] by simp
  qed
  then have "readers_of h = readers_of g" by (simp add: fun_eq_iff)
  moreover have "co h = co g"
  proof
    fix a
    have "containsPos g w" if "w \<in> set (co g a)" for w
      using co_writes(2) [OF core that] by (auto simp: at_kind_def containsPos_lab)
    then have "filter ?has (co g a) = co g a" using all by (auto simp: filter_id_conv)
    with h(6) show "co h a = co g a" by simp
  qed
  moreover have "insertionOrder h = insertionOrder g"
  proof -
    have "set (insertionOrder g) = {e. containsPos g e}" using core by (simp add: graph_core_def order_ok_def)
    then have "filter ?has (insertionOrder g) = insertionOrder g" using all by (auto simp: filter_id_conv)
    with h(7) show ?thesis by simp
  qed
  ultimately show ?thesis using v(1) h(1,2,8-10) by (auto simp: clone_graph_def)
qed

section \<open>Validation\<close>

lemma foldR_check:
  assumes "\<And>p. p \<in> set ps \<Longrightarrow> f p () = (if C p then Inr () else Inl Bug)"
  shows "foldR f ps () = (if \<forall>p \<in> set ps. C p then Inr () else Inl Bug)"
  using assms by (induction ps) auto

definition rmw_atomic :: "exec_graph \<Rightarrow> bool" where
  "rmw_atomic g \<longleftrightarrow> (\<forall>w l. lab_at g w = Some l \<and> isWrite (lb_kind l) \<and> write_isRMW l \<longrightarrow>
     length (filter (is_rmw_read_at g) (lb_readers l)) \<le> 1)"

lemma validate_result:
  assumes core: "graph_core g"
  shows "validate g = (if rmw_atomic g then Inr () else Inl Bug)"
proof -
  let ?C = "\<lambda>p. \<forall>l. lab_at g p = Some l \<and> isWrite (lb_kind l) \<longrightarrow>
    \<not> (write_isRMW l \<and> length (filter (is_rmw_read_at g) (lb_readers l)) > 1)"
  have o: "set (insertionOrder g) = {e. containsPos g e}" using core by (simp add: graph_core_def order_ok_def)
  have rd: "validate_read g p l" if l: "lab_at g p = Some l" "isRead (lb_kind l)" for p l
  proof (cases "lb_rf l")
    case (Some w)
    from core_pointers(1) [OF core l Some] obtain wl where wl: "lab_at g w = Some wl" by (auto simp: containsPos_lab)
    have "p \<in> set (readers_of g w (lb_addr l))" using core l Some unfolding graph_core_def rf_ok_def by blast
    with wl Some show ?thesis by (auto simp: validate_read_def readers_of_def list_ex_iff)
  qed (simp add: validate_read_def)
  have wr: "validate_write g p l \<longleftrightarrow> \<not> (write_isRMW l \<and> length (filter (is_rmw_read_at g) (lb_readers l)) > 1)"
    if l: "lab_at g p = Some l" "isWrite (lb_kind l)" for p l
  proof -
    have "containsPosNonEmpty g r \<and> rf_at g r = Some p" if r: "r \<in> set (lb_readers l)" for r
    proof -
      from core_pointers(2) [OF core l r] obtain rl where "lab_at g r = Some rl" "isRead (lb_kind rl)" "lb_rf rl = Some p" by blast
      with kind_proper(7) show ?thesis by (auto simp: containsPosNonEmpty_def rf_at_def)
    qed
    then show ?thesis by (simp add: validate_write_def list_all_iff)
  qed
  have "validate g = (if \<forall>p \<in> set (insertionOrder g). ?C p then Inr () else Inl Bug)"
    unfolding validate_def
  proof (rule foldR_check)
    fix p assume "p \<in> set (insertionOrder g)"
    with o obtain l where "lab_at g p = Some l" by (auto simp: containsPos_lab)
    with rd [of p l] wr [of p l] show "bindR (deref g p) (\<lambda>l. if (isRead (lb_kind l) \<longrightarrow> validate_read g p l) \<and>
        (isWrite (lb_kind l) \<longrightarrow> validate_write g p l) then Inr () else Inl Bug) = (if ?C p then Inr () else Inl Bug)"
      by auto
  qed
  moreover have "(\<forall>p \<in> set (insertionOrder g). ?C p) \<longleftrightarrow> rmw_atomic g"
    unfolding o rmw_atomic_def by (auto simp: containsPos_lab not_less)
  ultimately show ?thesis by simp
qed

section \<open>Prefixes\<close>

lemma all_labels_Inr: "(\<And>e. e \<in> set es \<Longrightarrow> f e = Inr (P e)) \<Longrightarrow> all_labels f es = Inr (\<forall>e \<in> set es. P e)"
  by (induction es) auto

definition all_ordered :: "exec_graph \<Rightarrow> bool" where
  "all_ordered g \<longleftrightarrow> (\<forall>w l. lab_at g w = Some l \<and> isWrite (lb_kind l) \<longrightarrow> w \<in> set (co g (lb_addr l)))"

definition reads_resolved :: "exec_graph \<Rightarrow> bool" where
  "reads_resolved g \<longleftrightarrow> (\<forall>r l. lab_at g r = Some l \<and> isRead (lb_kind l) \<longrightarrow> lb_rf l \<noteq> None)"

lemma isPrefixOf_refl_result:
  assumes core: "graph_core g" and ord: "all_ordered g"
  shows "isPrefixOf g g = Inr (reads_resolved g)"
proof -
  let ?R = "\<lambda>l. isRead (lb_kind l) \<longrightarrow> lb_rf l \<noteq> None"
  let ?P = "\<lambda>e. \<forall>l. lab_at g e = Some l \<longrightarrow> ?R l"
  have lab: "prefix_label g g l l = Inr (?R l)" if l: "lab_at g e = Some l" for e l
  proof (cases "isWrite (lb_kind l)")
    case True
    have "lb_addr l \<in> fst ` set (coherence g)" by (rule write_tracked [OF core l True])
    then have at: "co_at g (lb_addr l) = Inr (co g (lb_addr l))"
      by (auto simp: co_at_def co_def m_get_def map_of_eq_None_iff split: option.split)
    have "lb_pos l = e" using core l by (simp add: graph_core_def pos_ok_def)
    moreover have "e \<in> set (co g (lb_addr l))" using ord l True by (simp add: all_ordered_def)
    ultimately obtain p where "co_imm_pred g l = Inr p" using at by (simp add: co_imm_pred_def)
    with pointer_classes(1) [OF True] True show ?thesis by (cases p) (simp_all add: prefix_label_def)
  next
    case False
    then show ?thesis by (auto simp: prefix_label_def split: option.split)
  qed
  have row: "all_labels (\<lambda>e. bindR (getEventLabel g e) (\<lambda>l1. bindR (getEventLabel g e) (prefix_label g g l1)))
      (map (\<lambda>j. Event (int i) (int j)) [0..<getThreadSize g i]) = Inr (\<forall>j<getThreadSize g i. ?P (Event (int i) (int j)))"
    if i: "i < getNumThreads g" for i
  proof -
    have "bindR (getEventLabel g e) (\<lambda>l1. bindR (getEventLabel g e) (prefix_label g g l1)) = Inr (?P e)"
      if "e \<in> set (map (\<lambda>j. Event (int i) (int j)) [0..<getThreadSize g i])" for e
    proof -
      have "containsPos g e" using that i by (auto simp: containsPos_nat)
      then obtain l where "lab_at g e = Some l" by (auto simp: containsPos_lab)
      with lab [OF this] show ?thesis by simp
    qed
    then have "all_labels (\<lambda>e. bindR (getEventLabel g e) (\<lambda>l1. bindR (getEventLabel g e) (prefix_label g g l1)))
        (map (\<lambda>j. Event (int i) (int j)) [0..<getThreadSize g i]) =
      Inr (\<forall>e \<in> set (map (\<lambda>j. Event (int i) (int j)) [0..<getThreadSize g i]). ?P e)"
      by (rule all_labels_Inr)
    then show ?thesis by (auto simp: atLeast0LessThan)
  qed
  have "prefix_threads g g is = Inr (\<forall>i \<in> set is. \<forall>j<getThreadSize g i. ?P (Event (int i) (int j)))"
    if "set is \<subseteq> {..<getNumThreads g}" for "is"
    using that
  proof (induction "is")
    case (Cons i "is")
    then have i: "i < getNumThreads g" by simp
    have IH: "prefix_threads g g is = Inr (\<forall>i \<in> set is. \<forall>j<getThreadSize g i. ?P (Event (int i) (int j)))"
      using Cons by simp
    show ?case unfolding prefix_threads.simps row [OF i] using IH by simp
  qed simp
  from this [of "[0..<getNumThreads g]"] have
    "isPrefixOf g g = Inr (\<forall>i<getNumThreads g. \<forall>j<getThreadSize g i. ?P (Event (int i) (int j)))"
    by (auto simp: isPrefixOf_def atLeast0LessThan)
  moreover have "(\<forall>i<getNumThreads g. \<forall>j<getThreadSize g i. ?P (Event (int i) (int j))) \<longleftrightarrow> reads_resolved g"
  proof
    assume p: "\<forall>i<getNumThreads g. \<forall>j<getThreadSize g i. ?P (Event (int i) (int j))"
    show "reads_resolved g"
      unfolding reads_resolved_def
    proof (intro allI impI)
      fix r l assume r: "lab_at g r = Some l \<and> isRead (lb_kind l)"
      then have "containsPos g r" using lab_at_pos by blast
      from containsPos_valid [OF this] p r show "lb_rf l \<noteq> None" by blast
    qed
  qed (auto simp: reads_resolved_def)
  ultimately show ?thesis by simp
qed

section \<open>Revisitable loads\<close>

lemma filter_upt_above: "-1 \<le> m \<Longrightarrow> filter (\<lambda>j. m < int j) [0..<n] = [nat (m + 1)..<n]"
  by (induction n) (auto simp: nat_le_iff)

text \<open>The loads that a store may revisit, given the pending RMW and what must not be revisited.\<close>

definition may_revisit :: "exec_graph \<Rightarrow> label \<Rightarrow> vector_clock \<Rightarrow> event \<Rightarrow> event \<Rightarrow> bool" where
  "may_revisit g sl v p e \<longleftrightarrow> \<not> vc_has v e \<and> label_sat (revisitable_for sl) g e \<and>
     (event_isInitializer p \<or> stamp_of g e \<le> stamp_of g p)"

lemma drop_younger_filter: "drop_younger g p (filter P es) =
    filter (\<lambda>e. P e \<and> (event_isInitializer p \<or> stamp_of g e \<le> stamp_of g p)) es"
  by (auto simp: drop_younger_def not_less intro: filter_cong)

lemma getRevisitable_view:
  assumes v: "view_inv v" and p: "getPendingRMW g sl = Inr p"
  shows "getRevisitable g sl (VC_View v) = Inr (filter (may_revisit g sl (VC_View v) p) (positions g))"
proof -
  let ?P = "label_sat (revisitable_for sl) g"
  let ?f = "\<lambda>i es. bindR (vc_getMax (VC_View v) (int i)) (\<lambda>m.
              Inr (es @ filter ?P (map (\<lambda>j. Event (int i) (int j)) [nat (m + 1)..<getThreadSize g i])))"
  have row: "filter ?P (map (\<lambda>j. Event (int i) (int j)) [nat (vmax v i + 1)..<n]) =
      filter (\<lambda>e. \<not> vc_has (VC_View v) e \<and> ?P e) (map (\<lambda>j. Event (int i) (int j)) [0..<n])" for i n
  proof -
    have "-1 \<le> vmax v i" using v by (simp add: view_inv_vmax order.trans [of "-1" 0])
    from filter_upt_above [OF this, of n] have "[nat (vmax v i + 1)..<n] = filter (\<lambda>j. vmax v i < int j) [0..<n]" by simp
    then show ?thesis
      by (auto simp: filter_map comp_def vc_has_view valid_def not_le intro!: arg_cong [of _ _ "map (\<lambda>j. Event (int i) (int j))"] filter_cong)
  qed
  have "foldR ?f is es = Inr (es @ filter (\<lambda>e. \<not> vc_has (VC_View v) e \<and> ?P e)
      (concat (map (\<lambda>i. map (\<lambda>j. Event (int i) (int j)) [0..<getThreadSize g i]) is)))" for "is" es
    by (induction "is" arbitrary: es) (simp_all add: row)
  from this [of "[0..<getNumThreads g]" "[]"] p show ?thesis
    by (simp add: getRevisitable_def positions_def drop_younger_filter may_revisit_def [abs_def] conj_assoc)
qed

lemma dep_getRevisitable_view:
  assumes v: "\<And>e. valid e \<Longrightarrow> \<exists>b. vc_contains v e = Inr b" and p: "getPendingRMW g sl = Inr p"
  shows "dep_getRevisitable g sl v = Inr (filter (\<lambda>e. may_revisit g sl v p e \<and> thread e \<noteq> thread (lb_pos sl) \<and> 1 \<le> index e)
    (positions g))"
proof -
  let ?A = "\<lambda>e. thread e \<noteq> thread (lb_pos sl) \<and> 1 \<le> index e \<and> \<not> vc_has v e \<and> label_sat (revisitable_for sl) g e"
  let ?f = "\<lambda>e es. if thread e \<noteq> thread (lb_pos sl) \<and> index e \<ge> 1 \<and>
                 label_sat (\<lambda>l. isRead (lb_kind l) \<and> lb_addr l = lb_addr sl) g e then
                bindR (vc_contains v e) (\<lambda>b.
                  Inr (if \<not> b \<and> label_sat (\<lambda>l. lb_revisitable l \<and> lb_maximal l) g e then es @ [e] else es))
              else Inr es"
  have step: "?f e es = Inr (if ?A e then es @ [e] else es)" if e: "valid e" for e es
  proof -
    from v [OF e] obtain b where b: "vc_contains v e = Inr b" by blast
    have sat: "label_sat (revisitable_for sl) g e \<longleftrightarrow> label_sat (\<lambda>l. isRead (lb_kind l) \<and> lb_addr l = lb_addr sl) g e \<and>
        label_sat (\<lambda>l. lb_revisitable l \<and> lb_maximal l) g e"
      by (cases "lab_at g e") (auto simp: label_sat_def revisitable_for_def)
    have "vc_has v e \<longleftrightarrow> b" using b by (simp add: vc_has_def)
    then show ?thesis unfolding sat b bindR_simps by (cases b) auto
  qed
  have "foldR ?f ps es = Inr (es @ filter ?A ps)" if "\<And>e. e \<in> set ps \<Longrightarrow> valid e" for ps es
    using that
  proof (induction ps arbitrary: es)
    case (Cons e ps)
    have "foldR ?f ps es' = Inr (es' @ filter ?A ps)" for es' using Cons by simp
    moreover have "valid e" using Cons.prems by simp
    ultimately show ?case unfolding foldR.simps step [OF \<open>valid e\<close>] bindR_simps by simp
  qed simp
  moreover have "valid e" if "e \<in> set (positions g)" for e
    using that by (simp add: positions_mem containsPos_def valid_def)
  ultimately have "foldR ?f (positions g) [] = Inr (filter ?A (positions g))" by simp
  with p have "dep_getRevisitable g sl v = Inr (drop_younger g p (filter ?A (positions g)))"
    by (simp add: dep_getRevisitable_def)
  also have "\<dots> = Inr (filter (\<lambda>e. may_revisit g sl v p e \<and> thread e \<noteq> thread (lb_pos sl) \<and> 1 \<le> index e) (positions g))"
    unfolding drop_younger_filter may_revisit_def by (auto intro: filter_cong)
  finally show ?thesis .
qed

section \<open>Lock matching\<close>

definition count_in :: "(nat \<Rightarrow> bool) \<Rightarrow> nat \<Rightarrow> nat \<Rightarrow> nat" where
  "count_in P j n = length (filter P [Suc j..<Suc n])"

lemma count_in_Suc: "j \<le> n \<Longrightarrow> count_in P j (Suc n) = count_in P j n + (if P (Suc n) then 1 else 0)"
  by (simp add: count_in_def)

definition locks_at :: "exec_graph \<Rightarrow> int \<Rightarrow> saddr \<Rightarrow> nat \<Rightarrow> bool" where
  "locks_at g t a j = label_sat (\<lambda>l. is_lock_write (lb_kind l) \<and> lb_addr l = a) g (Event t (int j))"

definition unlocks_at :: "exec_graph \<Rightarrow> int \<Rightarrow> saddr \<Rightarrow> nat \<Rightarrow> bool" where
  "unlocks_at g t a j = label_sat (\<lambda>l. lb_kind l = UnlockWrite \<and> lb_addr l = a) g (Event t (int j))"

text \<open>Position \<open>j\<close> opens the critical section that is open \<open>k\<close> unlocks later than \<open>n\<close>: as many
  locks as unlocks lie between.\<close>

definition opens :: "exec_graph \<Rightarrow> int \<Rightarrow> saddr \<Rightarrow> nat \<Rightarrow> nat \<Rightarrow> nat \<Rightarrow> bool" where
  "opens g t a n k j \<longleftrightarrow> 1 \<le> j \<and> j \<le> n \<and> locks_at g t a j \<and>
     k + count_in (unlocks_at g t a) j n = count_in (locks_at g t a) j n"

definition last_opening :: "exec_graph \<Rightarrow> int \<Rightarrow> saddr \<Rightarrow> nat \<Rightarrow> nat \<Rightarrow> event option \<Rightarrow> bool" where
  "last_opening g t a n k r \<longleftrightarrow> (case r of
     None \<Rightarrow> \<forall>j. \<not> opens g t a n k j
   | Some e \<Rightarrow> \<exists>j. e = Event t (int j) \<and> opens g t a n k j \<and> (\<forall>i>j. \<not> opens g t a n k i))"

lemma opens_Suc: "opens g t a (Suc n) k j \<longleftrightarrow>
    (j = Suc n \<and> k = 0 \<and> locks_at g t a j) \<or>
    (1 \<le> j \<and> j \<le> n \<and> locks_at g t a j \<and>
     k + (if unlocks_at g t a (Suc n) then 1 else 0) + count_in (unlocks_at g t a) j n =
     count_in (locks_at g t a) j n + (if locks_at g t a (Suc n) then 1 else 0))"
proof (cases "j = Suc n")
  case True
  then show ?thesis by (auto simp: opens_def count_in_def)
next
  case False
  then show ?thesis by (auto simp: opens_def count_in_Suc le_Suc_eq)
qed

lemma matching_lock_last:
  "(\<And>k. k \<le> n \<Longrightarrow> containsPos g (Event t (int k))) \<Longrightarrow>
   \<exists>r. matching_lock g t a n us = Inr r \<and> last_opening g t a n (length us) r"
proof (induction n arbitrary: us)
  case 0
  then show ?case by (simp add: last_opening_def opens_def)
next
  case (Suc n)
  have "containsPos g (Event t (int (Suc n)))" using Suc.prems by blast
  then obtain l where l: "lab_at g (Event t (int (Suc n))) = Some l" by (auto simp: containsPos_lab)
  let ?lk = "locks_at g t a (Suc n)" and ?ul = "unlocks_at g t a (Suc n)"
  have lk: "?lk \<longleftrightarrow> is_lock_write (lb_kind l) \<and> lb_addr l = a" and ul: "?ul \<longleftrightarrow> lb_kind l = UnlockWrite \<and> lb_addr l = a"
    using l by (simp_all add: locks_at_def unlocks_at_def label_sat_def)
  have disj: "\<not> (?lk \<and> ?ul)" unfolding lk ul by (auto simp: is_lock_write_def)
  have eq: "matching_lock g t a (Suc n) us =
      (if ?lk then (if us = [] then Inr (Some (Event t (int (Suc n)))) else matching_lock g t a n (butlast us))
       else matching_lock g t a n (if ?ul then us @ [Event t (int (Suc n))] else us))"
    using l disj lk ul by (auto simp: Let_def)
  have IH: "\<exists>r. matching_lock g t a n us' = Inr r \<and> last_opening g t a n (length us') r" for us'
    using Suc by simp
  have lift: "last_opening g t a (Suc n) k r" if "last_opening g t a n k' r" "\<And>j. opens g t a (Suc n) k j \<longleftrightarrow> opens g t a n k' j" for k k' r
    using that by (simp add: last_opening_def split: option.splits)
  show ?case
  proof (cases ?lk)
    case True
    show ?thesis
    proof (cases "us = []")
      case True
      have "opens g t a (Suc n) 0 (Suc n)" using \<open>?lk\<close> by (simp add: opens_Suc)
      moreover have "\<not> opens g t a (Suc n) 0 i" if "i > Suc n" for i using that by (simp add: opens_def)
      ultimately show ?thesis unfolding eq using True \<open>?lk\<close> by (auto simp: last_opening_def simp del: of_nat_Suc)
    next
      case False
      from IH [of "butlast us"] obtain r where r: "matching_lock g t a n (butlast us) = Inr r"
        "last_opening g t a n (length us - 1) r" by auto
      have "opens g t a (Suc n) (length us) j \<longleftrightarrow> opens g t a n (length us - 1) j" for j
        unfolding opens_Suc using True disj False by (cases us) (auto simp: opens_def)
      with lift [OF r(2)] r(1) True False show ?thesis unfolding eq by auto
    qed
  next
    case False
    let ?us = "if ?ul then us @ [Event t (int (Suc n))] else us"
    from IH [of ?us] obtain r where r: "matching_lock g t a n ?us = Inr r" "last_opening g t a n (length ?us) r" by blast
    have "opens g t a (Suc n) (length us) j \<longleftrightarrow> opens g t a n (length ?us) j" for j
      unfolding opens_Suc using False by (auto simp: opens_def)
    with lift [OF r(2)] r(1) False show ?thesis unfolding eq by auto
  qed
qed

end
