(* ===== verification/Graph_Props.thy ===== *)
theory Graph_Props
  imports Graph_Queries
begin

text \<open>
  Properties of the execution graph: what building, cutting, copying, validating and searching a
  graph does.
\<close>

section \<open>Building, cutting, copying\<close>

text \<open>C1: Starting from the graph of the constructor, no sequence of the operations of
  \<open>graph_op\<close>, used under the conditions of \<open>enabled\<close>, reaches a graph that is not well formed, and no
  such operation fails on a graph so reached: no \<open>BUG\<close>, no access outside a container. The operations
  are adding labels and threads, creating a thread again, setting reads-from edges, ordering and moving
  stores, recording and freeing allocations, linking a thread's end to its join, removing the last
  label of a thread, cutting to a stamp (with or without dependency tracking), copying up to a view
  and compressing stamps. The conditions that the driver does not always see to are part of
  \<open>enabled\<close>: a block is freed once and is found, and the label removed is not one to which pointers
  would be left (a read from the initializer, an ordered store, an allocation with accesses, a join
  that a thread's end points to). Copies along a dependency-tracking view are not among them.\<close>

theorem reachable_graphs_ok:
  assumes "reachable g"
  shows "graph_ok g \<and> (\<forall>a. enabled a g \<longrightarrow> (\<exists>h. run_op a g = Inr h \<and> reachable h))"
  using reachable_ok [OF assms] op_ok reachable.step [OF assms] by blast

theorem reachable_graphs_ok_witness:
  "(\<exists>h. run_op (AddLabel (access_label UnlockWrite (Event 0 1) Release 8)) new_graph = Inr h \<and> reachable h) \<and>
   (\<exists>h. run_op (DropLast 0) sample_graph = Inr h \<and> reachable h)"
proof -
  have "enabled (AddLabel (access_label UnlockWrite (Event 0 1) Release 8)) new_graph"
    by (simp add: free_pos_def fresh_label_def access_label_def new_label_def new_graph_def getNumThreads_def
        getThreadSize_def kind_defs)
  moreover have "enabled (DropLast 0) sample_graph" by code_simp
  moreover have "reachable sample_graph"
  proof -
    from sample_run obtain g where "run_ops sample_ops new_graph = Some g" by blast
    with run_ops_reachable [OF this reachable.new] show ?thesis by (simp add: sample_graph_def)
  qed
  ultimately show ?thesis using reachable_graphs_ok [OF reachable.new] reachable_graphs_ok [of sample_graph] by blast
qed

text \<open>C2: Cutting a well-formed graph to a stamp succeeds and gives a well-formed graph: its
  positions are the start labels and everything up to the last label of the thread with a stamp
  up to the given one; every label left is the old one without its pointers to labels that are gone,
  every coherence order and the insertion order are the old ones without the labels that are gone.\<close>

theorem cutToStamp_restricts:
  assumes "graph_ok g"
  shows "\<exists>h v. cutToStamp st g = Inr h \<and> graph_ok h \<and> getViewFromStamp st g = Inr v \<and>
    (\<forall>x. containsPos h x \<longleftrightarrow> containsPos g x \<and> kept_at g st x) \<and>
    (\<forall>x. containsPos g x \<longrightarrow> (vc_has v x \<longleftrightarrow> kept_at g st x)) \<and>
    restricted (vc_has v) g h \<and> (\<forall>a. co h a = filter (vc_has v) (co g a)) \<and>
    insertionOrder h = filter (vc_has v) (insertionOrder g)"
  using cutToStamp_result [OF assms, of st] unfolding view_cut.cut_result_def by blast

theorem cutToStamp_restricts_witness:
  "\<exists>h. cutToStamp 2 sample_graph = Inr h \<and> graph_ok h \<and> containsPos h (Event 1 0) \<and> \<not> containsPos h (Event 0 2)"
proof -
  have "containsPos sample_graph (Event 1 0)" "\<not> kept_at sample_graph 2 (Event 0 2)"
    by code_simp+
  with cutToStamp_restricts [OF sample_ok, of 2] show ?thesis by (auto simp: kept_at_def)
qed

text \<open>Cutting a well-formed graph of a dependency-tracking run keeps exactly the labels with a
  stamp up to the given one and the start labels; a position below a label that stays, whose own
  label does not, becomes a hole with a new stamp.  The result is well formed and its labels have
  no pointers to labels that are gone.\<close>

theorem dep_cutToStamp_restricts:
  assumes "graph_ok g"
  shows "\<exists>h v. dep_cutToStamp st g = Inr h \<and> graph_ok h \<and> dep_getViewFromStamp st g = Inr v \<and>
    (\<forall>x. containsPos g x \<longrightarrow> (vc_has v x \<longleftrightarrow> index x = 0 \<or> stamp_of g x \<le> st)) \<and>
    (\<forall>x. containsPos h x \<longleftrightarrow> containsPos g x \<and> kept_at g st x) \<and> restricted (vc_has v) g h \<and>
    (\<forall>x l. lab_at h x = Some l \<longrightarrow> (is_hole x l \<longleftrightarrow>
       \<not> vc_has v x \<or> (\<exists>l0. lab_at g x = Some l0 \<and> lb_kind l0 = Empty)))"
  using dep_cutToStamp_result [OF assms, of st] by blast

theorem dep_cutToStamp_restricts_witness:
  "\<exists>h. dep_cutToStamp 3 sample_graph = Inr h \<and> graph_ok h \<and> \<not> containsPos h (Event 0 2) \<and> containsPos h (Event 1 1)"
proof -
  have "containsPos sample_graph (Event 1 1)" "kept_at sample_graph 3 (Event 1 1)"
    "\<not> kept_at sample_graph 3 (Event 0 2)" by code_simp+
  with dep_cutToStamp_restricts [OF sample_ok, of 3] show ?thesis by blast
qed

lemma restricted_init_readers:
  assumes "restricted has g h" "restricted has g h'"
  shows "readers_of h event_init a = readers_of h' event_init a"
  using restricted_readers [OF assms(1)] restricted_readers [OF assms(2)] by simp

text \<open>C3: Going back by copying and going back by cutting agree: the copy of a graph up to the
  view of a stamp and the cut of the graph to the stamp have the same labels, except that the
  initializer is a new one, with the same readers; and the same coherence, insertion order, stamp
  counter and number of threads.\<close>

theorem copy_agrees_with_cut:
  assumes "graph_ok g"
  shows "\<exists>v h k. getViewFromStamp st g = Inr v \<and> getCopyUpTo v g = Inr h \<and> cutToStamp st g = Inr k \<and>
    (\<forall>x. x \<noteq> event_init \<longrightarrow> lab_at h x = lab_at k x) \<and> readers_of h event_init = readers_of k event_init \<and>
    co h = co k \<and> insertionOrder h = insertionOrder k \<and> timestamp h = timestamp k \<and>
    recoveryTID h = recoveryTID k \<and> getNumThreads h = getNumThreads k"
proof -
  from cutToStamp_result [OF assms, of st] obtain k v where k: "cutToStamp st g = Inr k"
    "getViewFromStamp st g = Inr (VC_View v)" "view_cut.fits v g" "view_cut.cut_result v g k"
    "restricted (vc_has (VC_View v)) g k" "\<forall>x. containsPos g x \<longrightarrow> (vc_has (VC_View v) x \<longleftrightarrow> kept_at g st x)"
    "\<forall>x. containsPos k x \<longleftrightarrow> containsPos g x \<and> kept_at g st x" by blast
  let ?has = "vc_has (VC_View v)"
  from getCopyUpTo_result [OF assms k(3)] obtain h where h: "getCopyUpTo (VC_View v) g = Inr h"
    "restricted ?has g h" "\<forall>x. containsPos h x \<longleftrightarrow> containsPos g x \<and> ?has x"
    "\<And>x l. lab_at h x = Some l \<and> x \<noteq> event_init \<Longrightarrow> \<exists>l0. lab_at g x = Some l0 \<and> l = cut_pointers ?has l0"
    "\<forall>a. co h a = filter ?has (co g a)" "insertionOrder h = filter ?has (insertionOrder g)"
    "timestamp h = timestamp g" "recoveryTID h = recoveryTID g" "getNumThreads h = getNumThreads g" by blast
  have at: "lab_at h x = lab_at k x" if x: "x \<noteq> event_init" for x
  proof (cases "containsPos h x")
    case True
    with h(3) have g: "containsPos g x" "?has x" by blast+
    then have "containsPos k x" using k(6,7) by blast
    then obtain lk where lk: "lab_at k x = Some lk" by (auto simp: containsPos_lab)
    from True obtain lh where lh: "lab_at h x = Some lh" by (auto simp: containsPos_lab)
    from h(4) [of x lh] lh x obtain l0 where l0: "lab_at g x = Some l0" "lh = cut_pointers ?has l0" by blast
    from k(4) lk obtain l1 where "lab_at g x = Some l1" "?has x \<longrightarrow> x \<noteq> event_init \<longrightarrow> lk = cut_pointers ?has l1"
      unfolding view_cut.cut_result_def by blast
    with g(2) x l0 lh lk show ?thesis by simp
  next
    case False
    with h(3) k(6,7) have "\<not> containsPos k x" by blast
    with False show ?thesis by (simp add: lab_at_def)
  qed
  moreover have "readers_of h event_init = readers_of k event_init"
    using restricted_init_readers [OF h(2) k(5)] by (rule ext)
  moreover have "co h = co k" "insertionOrder h = insertionOrder k" "timestamp h = timestamp k"
    "recoveryTID h = recoveryTID k" "getNumThreads h = getNumThreads k"
    using h(5-9) k(4) by (simp_all add: view_cut.cut_result_def fun_eq_iff)
  ultimately show ?thesis using k(1,2) h(1) by blast
qed

theorem copy_agrees_with_cut_witness:
  "\<exists>v h k. getViewFromStamp 3 sample_graph = Inr v \<and> getCopyUpTo v sample_graph = Inr h \<and>
    cutToStamp 3 sample_graph = Inr k \<and> lab_at h (Event 1 1) = lab_at k (Event 1 1)"
proof -
  have "Event 1 1 \<noteq> event_init" by (simp add: event_init_def)
  with copy_agrees_with_cut [OF sample_ok, of 3] show ?thesis by blast
qed

text \<open>\<open>clone\<close> loses nothing: when no label is younger than the stamp counter, the clone
  of a well-formed graph has the same labels at the same positions, except that the initializer is a
  new one with the same readers, and the same coherence, insertion order and counters.\<close>

theorem clone_graph_faithful:
  assumes "graph_ok g" and "\<And>x. containsPos g x \<Longrightarrow> stamp_of g x \<le> timestamp g"
  shows "\<exists>h. clone_graph g = Inr h \<and> graph_ok h \<and> (\<forall>x. x \<noteq> event_init \<longrightarrow> lab_at h x = lab_at g x) \<and>
    readers_of h = readers_of g \<and> co h = co g \<and> insertionOrder h = insertionOrder g \<and>
    timestamp h = timestamp g \<and> recoveryTID h = recoveryTID g \<and> getNumThreads h = getNumThreads g"
  using clone_graph_result [OF assms] .

lemma sample_stamps:
  assumes "containsPos sample_graph x"
  shows "stamp_of sample_graph x \<le> timestamp sample_graph"
proof -
  have "list_all (\<lambda>x. stamp_of sample_graph x \<le> timestamp sample_graph) (positions sample_graph)" by code_simp
  with assms show ?thesis by (simp add: list_all_iff positions_mem)
qed

theorem clone_graph_faithful_witness:
  "\<exists>h. clone_graph sample_graph = Inr h \<and> lab_at h (Event 1 1) = lab_at sample_graph (Event 1 1)"
proof -
  have "Event 1 1 \<noteq> event_init" by (simp add: event_init_def)
  with clone_graph_faithful [OF sample_ok sample_stamps] show ?thesis by blast
qed

section \<open>Validation and prefixes\<close>

text \<open>\<open>validate\<close> accepts a well-formed graph exactly when no RMW write is read by two RMW
  reads; otherwise it aborts with \<open>BUG\<close>.  All its other checks always pass.\<close>

theorem validate_accepts:
  assumes "graph_ok g"
  shows "validate g = (if rmw_atomic g then Inr () else Inl Bug)"
  using validate_result assms by (simp add: graph_ok_def)

theorem validate_accepts_witness: "validate sample_graph = Inr ()"
proof -
  have "rmw_atomic sample_graph"
    unfolding rmw_atomic_def
  proof (intro allI impI)
    fix w l assume w: "lab_at sample_graph w = Some l \<and> isWrite (lb_kind l) \<and> write_isRMW l"
    then have "w \<in> set (positions sample_graph)" by (auto simp: positions_mem containsPos_lab)
    moreover have "list_all (\<lambda>w. label_sat (\<lambda>l. \<not> (isWrite (lb_kind l) \<and> write_isRMW l)) sample_graph w)
        (positions sample_graph)" by code_simp
    ultimately show "length (filter (is_rmw_read_at sample_graph) (lb_readers l)) \<le> 1"
      using w by (simp add: list_all_iff label_sat_def) (metis option.simps(5))
  qed
  with validate_accepts [OF sample_ok] show ?thesis by simp
qed

text \<open>A well-formed graph whose stores are all ordered is a prefix of itself for
  \<open>isPrefixOf\<close> exactly when every load has a reads-from edge: a load that reads from bottom makes
  the answer \<open>false\<close> even though the graphs are the same.\<close>

theorem isPrefixOf_reflexive:
  assumes "graph_ok g" "all_ordered g"
  shows "isPrefixOf g g = Inr (reads_resolved g)"
  using isPrefixOf_refl_result assms by (simp add: graph_ok_def)

theorem isPrefixOf_reflexive_witness: "isPrefixOf sample_graph sample_graph = Inr True"
proof -
  have at: "list_all (\<lambda>w. label_sat (\<lambda>l. isWrite (lb_kind l) \<longrightarrow> w \<in> set (co sample_graph (lb_addr l))) sample_graph w)
      (positions sample_graph)"
    "list_all (\<lambda>w. label_sat (\<lambda>l. isRead (lb_kind l) \<longrightarrow> lb_rf l \<noteq> None) sample_graph w) (positions sample_graph)"
    by code_simp+
  have sat: "Q l" if "list_all (label_sat Q sample_graph) (positions sample_graph)"
      "lab_at sample_graph x = Some l" for Q x l
    using that lab_at_pos [OF that(2)] positions_mem [of x sample_graph] by (auto simp: list_all_iff label_sat_def)
  have "all_ordered sample_graph"
    unfolding all_ordered_def
  proof (intro allI impI)
    fix w l assume w: "lab_at sample_graph w = Some l \<and> isWrite (lb_kind l)"
    with lab_at_pos have "w \<in> set (positions sample_graph)" by (auto simp: positions_mem)
    with at(1) w show "w \<in> set (co sample_graph (lb_addr l))" by (auto simp: list_all_iff label_sat_def)
  qed
  moreover have "reads_resolved sample_graph"
    unfolding reads_resolved_def using sat [OF at(2)] by blast
  ultimately show ?thesis using isPrefixOf_reflexive [OF sample_ok] by simp
qed

section \<open>Searches\<close>

text \<open>\<open>getRevisitable\<close> returns, in the order of the positions, exactly the loads of the
  store's location that are revisitable and were added maximally, that are not in the given view,
  and that are not younger than the pending RMW if there is one.  The variant for
  dependency-tracking graphs selects among the other threads only.\<close>

theorem getRevisitable_exact:
  assumes "getPendingRMW g sl = Inr p" "view_inv v" "dv_inv d"
  shows "getRevisitable g sl (VC_View v) = Inr (filter (may_revisit g sl (VC_View v) p) (positions g)) \<and>
    dep_getRevisitable g sl (VC_DepView d) = Inr (filter (\<lambda>e. may_revisit g sl (VC_DepView d) p e \<and>
      thread e \<noteq> thread (lb_pos sl) \<and> 1 \<le> index e) (positions g))"
  using getRevisitable_view [OF assms(2,1)] dep_getRevisitable_view [OF dep_cut.contains_law [OF assms(3)] assms(1)]
  by simp

theorem getRevisitable_exact_witness:
  "getRevisitable sample_graph (access_label UnlockWrite (Event 1 2) Release 8) (VC_View [1, 1]) = Inr [Event 0 2]"
proof -
  have "getPendingRMW sample_graph (access_label UnlockWrite (Event 1 2) Release 8) = Inr event_init" by code_simp
  moreover have "filter (may_revisit sample_graph (access_label UnlockWrite (Event 1 2) Release 8) (VC_View [1, 1]) event_init)
      (positions sample_graph) = [Event 0 2]" by code_simp
  moreover have "view_inv [1, 1]" by (simp add: view_inv_def)
  ultimately show ?thesis using getRevisitable_exact [OF _ _ dv_example] by simp
qed

text \<open>C4: \<open>findMatchingLock\<close> pairs locks and unlocks like parentheses: it returns the last
  lock of the location before the unlock such that as many locks as unlocks of the location lie
  between, and nothing if there is none.  Its counterpart \<open>findMatchingUnlock\<close> aborts with \<open>BUG\<close>
  for every label of the class it accepts, since it asks for a read on a write.\<close>

theorem findMatchingLock_parenthesis:
  assumes "\<And>k. k \<le> nat (index (lb_pos ul) - 1) \<Longrightarrow> containsPos g (Event (thread (lb_pos ul)) (int k))"
  shows "(\<exists>r. findMatchingLock g ul = Inr r \<and>
      last_opening g (thread (lb_pos ul)) (lb_addr ul) (nat (index (lb_pos ul) - 1)) 0 r) \<and>
    (\<forall>ll. isCasWrite (lb_kind ll) \<longrightarrow> findMatchingUnlock g ll = Inl Bug)"
proof -
  have "\<exists>r. findMatchingLock g ul = Inr r \<and>
      last_opening g (thread (lb_pos ul)) (lb_addr ul) (nat (index (lb_pos ul) - 1)) 0 r"
    using matching_lock_last [OF assms, where a = "lb_addr ul" and us = "[]"] by (simp add: findMatchingLock_def)
  moreover have "isCasWrite k \<Longrightarrow> k \<noteq> LockCasRead \<and> k \<noteq> TrylockCasRead" for k by (cases k) (simp_all add: kind_defs)
  then have "\<forall>ll. isCasWrite (lb_kind ll) \<longrightarrow> findMatchingUnlock g ll = Inl Bug"
    by (auto simp: findMatchingUnlock_def)
  ultimately show ?thesis by blast
qed

theorem findMatchingLock_parenthesis_witness:
  "\<exists>r. findMatchingLock sample_graph (access_label UnlockWrite (Event 0 3) Release 8) = Inr r \<and>
     last_opening sample_graph 0 8 2 0 r"
proof -
  have "containsPos sample_graph (Event 0 (int k))" if "k \<le> 2" for k
  proof -
    have "list_all (\<lambda>k. containsPos sample_graph (Event 0 (int k))) [0..<3]" by code_simp
    with that show ?thesis by (simp add: list_all_iff)
  qed
  with findMatchingLock_parenthesis [of "access_label UnlockWrite (Event 0 3) Release 8" sample_graph] show ?thesis
    by (simp add: access_label_def new_label_def)
qed

end
