(* ===== verification/Symbolic_Facts.thy ===== *)
theory Symbolic_Facts
  imports Symbolic_Exprs
begin

text \<open>
  Facts about symbolic expressions: a reference semantics (the value under a total valuation, and
  the registers read to find it), its relation to the evaluator, when the value does not depend on
  the registers without a value, and what the visitors that rewrite an expression do to its value.
\<close>

section \<open>Reference semantics\<close>

fun sem :: "('r \<Rightarrow> sval) \<Rightarrow> 'r sexpr \<Rightarrow> sval res"
  and sem_all :: "('r \<Rightarrow> sval) \<Rightarrow> 'r sexpr list \<Rightarrow> bool res"
  and sem_any :: "('r \<Rightarrow> sval) \<Rightarrow> 'r sexpr list \<Rightarrow> bool res" where
  "sem \<rho> (ConcreteExpr w v) = Inr v"
| "sem \<rho> (RegisterExpr w r n) = Inr (\<rho> r)"
| "sem \<rho> (SelectExpr w c t e) = bindR (sem \<rho> c) (\<lambda>b. if b \<noteq> 0 then sem \<rho> t else sem \<rho> e)"
| "sem \<rho> (ConjunctionExpr k ks) = bindR (sem \<rho> k) (\<lambda>b.
     if b = 0 then Inr 0 else bindR (sem_all \<rho> ks) (\<lambda>c. Inr (of_flag c)))"
| "sem \<rho> (DisjunctionExpr k ks) = bindR (sem \<rho> k) (\<lambda>b.
     if b \<noteq> 0 then Inr 1 else bindR (sem_any \<rho> ks) (\<lambda>c. Inr (of_flag c)))"
| "sem \<rho> (NotExpr e) = Inr 0"
| "sem \<rho> (CastExpr k w e) = sem \<rho> e"
| "sem \<rho> (BinaryExpr k w l r) = bindR (sem \<rho> l) (\<lambda>a. bindR (sem \<rho> r) (eval_bin k a))"
| "sem \<rho> (CmpExpr k l r) = bindR (sem \<rho> l) (\<lambda>a. bindR (sem \<rho> r) (\<lambda>b. Inr (of_flag (eval_cmp k a b))))"
| "sem_all \<rho> [] = Inr True"
| "sem_all \<rho> (k # ks) = bindR (sem \<rho> k) (\<lambda>b. if b = 0 then Inr False else sem_all \<rho> ks)"
| "sem_any \<rho> [] = Inr False"
| "sem_any \<rho> (k # ks) = bindR (sem \<rho> k) (\<lambda>b. if b \<noteq> 0 then Inr True else sem_any \<rho> ks)"

definition is_set :: "sval res \<Rightarrow> bool" where
  "is_set x \<longleftrightarrow> (case x of Inr v \<Rightarrow> v \<noteq> 0 | Inl _ \<Rightarrow> False)"

lemma is_set_Inr [simp]: "is_set (Inr v) \<longleftrightarrow> v \<noteq> 0"
  by (simp add: is_set_def)

fun reads :: "('r \<Rightarrow> sval) \<Rightarrow> 'r sexpr \<Rightarrow> 'r list"
  and reads_all :: "('r \<Rightarrow> sval) \<Rightarrow> 'r sexpr list \<Rightarrow> 'r list"
  and reads_any :: "('r \<Rightarrow> sval) \<Rightarrow> 'r sexpr list \<Rightarrow> 'r list" where
  "reads \<rho> (ConcreteExpr w v) = []"
| "reads \<rho> (RegisterExpr w r n) = [r]"
| "reads \<rho> (SelectExpr w c t e) = reads \<rho> c @ (if is_set (sem \<rho> c) then reads \<rho> t else reads \<rho> e)"
| "reads \<rho> (ConjunctionExpr k ks) = reads \<rho> k @ (if is_set (sem \<rho> k) then reads_all \<rho> ks else [])"
| "reads \<rho> (DisjunctionExpr k ks) = reads \<rho> k @ (if is_set (sem \<rho> k) then [] else reads_any \<rho> ks)"
| "reads \<rho> (NotExpr e) = []"
| "reads \<rho> (CastExpr k w e) = reads \<rho> e"
| "reads \<rho> (BinaryExpr k w l r) = reads \<rho> l @ reads \<rho> r"
| "reads \<rho> (CmpExpr k l r) = reads \<rho> l @ reads \<rho> r"
| "reads_all \<rho> [] = []"
| "reads_all \<rho> (k # ks) = reads \<rho> k @ (if is_set (sem \<rho> k) then reads_all \<rho> ks else [])"
| "reads_any \<rho> [] = []"
| "reads_any \<rho> (k # ks) = reads \<rho> k @ (if is_set (sem \<rho> k) then [] else reads_any \<rho> ks)"

lemma of_flag_simps [simp]: "of_flag True = 1" "of_flag False = 0" "of_flag b = 0 \<longleftrightarrow> \<not> b"
  by (simp_all add: of_flag_def)

text \<open>The value depends only on the registers read.\<close>

lemma sem_agree:
  "sem \<rho> e = Inr v \<Longrightarrow> (\<And>r. r \<in> set (reads \<rho> e) \<Longrightarrow> \<rho>' r = \<rho> r) \<Longrightarrow> sem \<rho>' e = Inr v"
  "sem_all \<rho> es = Inr b \<Longrightarrow> (\<And>r. r \<in> set (reads_all \<rho> es) \<Longrightarrow> \<rho>' r = \<rho> r) \<Longrightarrow> sem_all \<rho>' es = Inr b"
  "sem_any \<rho> es = Inr b \<Longrightarrow> (\<And>r. r \<in> set (reads_any \<rho> es) \<Longrightarrow> \<rho>' r = \<rho> r) \<Longrightarrow> sem_any \<rho>' es = Inr b"
proof (induction \<rho> e and \<rho> es and \<rho> es arbitrary: v and b and b rule: sem_sem_all_sem_any.induct)
  case (3 \<rho> w c t e)
  then obtain x where "sem \<rho> c = Inr x" by (auto simp: bindR_Inr_iff)
  with 3 show ?case by (cases "x = 0") simp_all
next
  case (4 \<rho> k ks)
  then obtain x where "sem \<rho> k = Inr x" by (auto simp: bindR_Inr_iff)
  with 4 show ?case by (cases "x = 0"; cases "sem_all \<rho> ks") simp_all
next
  case (5 \<rho> k ks)
  then obtain x where "sem \<rho> k = Inr x" by (auto simp: bindR_Inr_iff)
  with 5 show ?case by (cases "x = 0"; cases "sem_any \<rho> ks") simp_all
next
  case (8 \<rho> k w l r)
  then obtain x y where "sem \<rho> l = Inr x" "sem \<rho> r = Inr y" by (auto simp: bindR_Inr_iff)
  with 8 show ?case by simp
next
  case (9 \<rho> k l r)
  then obtain x y where "sem \<rho> l = Inr x" "sem \<rho> r = Inr y" by (auto simp: bindR_Inr_iff)
  with 9 show ?case by simp
next
  case (11 \<rho> k ks)
  then obtain x where "sem \<rho> k = Inr x" by (auto simp: bindR_Inr_iff)
  with 11 show ?case by (cases "x = 0") simp_all
next
  case (13 \<rho> k ks)
  then obtain x where "sem \<rho> k = Inr x" by (auto simp: bindR_Inr_iff)
  with 13 show ?case by (cases "x = 0") simp_all
qed simp_all

lemma reads_agree:
  "sem \<rho> e = Inr v \<Longrightarrow> (\<And>r. r \<in> set (reads \<rho> e) \<Longrightarrow> \<rho>' r = \<rho> r) \<Longrightarrow> reads \<rho>' e = reads \<rho> e"
  "sem_all \<rho> es = Inr b \<Longrightarrow> (\<And>r. r \<in> set (reads_all \<rho> es) \<Longrightarrow> \<rho>' r = \<rho> r) \<Longrightarrow> reads_all \<rho>' es = reads_all \<rho> es"
  "sem_any \<rho> es = Inr b \<Longrightarrow> (\<And>r. r \<in> set (reads_any \<rho> es) \<Longrightarrow> \<rho>' r = \<rho> r) \<Longrightarrow> reads_any \<rho>' es = reads_any \<rho> es"
proof (induction \<rho> e and \<rho> es and \<rho> es arbitrary: v and b and b rule: sem_sem_all_sem_any.induct)
  case (3 \<rho> w c t e)
  then obtain x where "sem \<rho> c = Inr x" by (auto simp: bindR_Inr_iff)
  with 3 sem_agree(1) [OF this, of \<rho>'] show ?case by (cases "x = 0") simp_all
next
  case (4 \<rho> k ks)
  then obtain x where "sem \<rho> k = Inr x" by (auto simp: bindR_Inr_iff)
  with 4 sem_agree(1) [OF this, of \<rho>'] show ?case by (cases "x = 0"; cases "sem_all \<rho> ks") simp_all
next
  case (5 \<rho> k ks)
  then obtain x where "sem \<rho> k = Inr x" by (auto simp: bindR_Inr_iff)
  with 5 sem_agree(1) [OF this, of \<rho>'] show ?case by (cases "x = 0"; cases "sem_any \<rho> ks") simp_all
next
  case (8 \<rho> k w l r)
  then obtain x y where "sem \<rho> l = Inr x" "sem \<rho> r = Inr y" by (auto simp: bindR_Inr_iff)
  with 8 show ?case by simp
next
  case (9 \<rho> k l r)
  then obtain x y where "sem \<rho> l = Inr x" "sem \<rho> r = Inr y" by (auto simp: bindR_Inr_iff)
  with 9 show ?case by simp
next
  case (11 \<rho> k ks)
  then obtain x where "sem \<rho> k = Inr x" by (auto simp: bindR_Inr_iff)
  with 11 sem_agree(1) [OF this, of \<rho>'] show ?case by (cases "x = 0") simp_all
next
  case (13 \<rho> k ks)
  then obtain x where "sem \<rho> k = Inr x" by (auto simp: bindR_Inr_iff)
  with 13 sem_agree(1) [OF this, of \<rho>'] show ?case by (cases "x = 0") simp_all
qed simp_all

section \<open>The evaluator\<close>

definition val_of :: "'r valuation \<Rightarrow> 'r \<Rightarrow> sval" where
  "val_of m r = (case m of BruteForce v \<Rightarrow> v | Mapping f \<Rightarrow> (case f r of Some v \<Rightarrow> v | None \<Rightarrow> 42))"

definition note_unknown :: "'r::linorder valuation \<Rightarrow> 'r list \<Rightarrow> 'r list \<Rightarrow> 'r list" where
  "note_unknown m rs u = (case m of
     BruteForce _ \<Rightarrow> u
   | Mapping f \<Rightarrow> fold (\<lambda>r u. if f r = None then fst (vset_insert u r) else u) rs u)"

lemma note_unknown_simps [simp]:
  "note_unknown m [] u = u"
  "note_unknown m (rs @ rs') u = note_unknown m rs' (note_unknown m rs u)"
  by (simp_all add: note_unknown_def split: valuation.split)

lemma note_unknown_set:
  "vset_inv u \<Longrightarrow> vset_inv (note_unknown (Mapping f) rs u) \<and>
     set (note_unknown (Mapping f) rs u) = set u \<union> {r \<in> set rs. f r = None}"
  by (induction rs arbitrary: u) (auto simp: note_unknown_def)

lemma eval_sem:
  "eval_visit m e u = bindR (sem (val_of m) e) (\<lambda>v. Inr (v, note_unknown m (reads (val_of m) e) u))"
  "eval_all m es u = bindR (sem_all (val_of m) es) (\<lambda>b. Inr (b, note_unknown m (reads_all (val_of m) es) u))"
  "eval_any m es u = bindR (sem_any (val_of m) es) (\<lambda>b. Inr (b, note_unknown m (reads_any (val_of m) es) u))"
proof (induction m e u and m es u and m es u rule: eval_visit_eval_all_eval_any.induct)
  case (2 m w r n u)
  then show ?case by (simp add: val_of_def note_unknown_def split: valuation.splits option.splits)
next
  case (3 m w c t e u)
  then show ?case by (cases "sem (val_of m) c") simp_all
next
  case (4 m k ks u)
  then show ?case by (cases "sem (val_of m) k"; cases "sem_all (val_of m) ks") simp_all
next
  case (5 m k ks u)
  then show ?case by (cases "sem (val_of m) k"; cases "sem_any (val_of m) ks") simp_all
next
  case (8 m k w l r u)
  then show ?case by (cases "sem (val_of m) l"; cases "sem (val_of m) r") simp_all
next
  case (9 m k l r u)
  then show ?case by (cases "sem (val_of m) l"; cases "sem (val_of m) r") simp_all
next
  case (11 m k ks u)
  then show ?case by (cases "sem (val_of m) k") simp_all
next
  case (13 m k ks u)
  then show ?case by (cases "sem (val_of m) k") simp_all
qed simp_all

lemma evaluate_bf_sem:
  fixes e :: "'r::linorder sexpr"
  shows "evaluate_bf e v = sem (\<lambda>_. v) e"
proof -
  have "val_of (BruteForce v) = (\<lambda>_::'r. v)" by (simp add: val_of_def fun_eq_iff)
  then show ?thesis unfolding evaluate_bf_def eval_sem(1) by (cases "sem (\<lambda>_. v) e") simp_all
qed

lemma evaluate_map_sem: "evaluate_map u e f = bindR (sem (val_of (Mapping f)) e) (\<lambda>v.
    let u1 = note_unknown (Mapping f) (reads (val_of (Mapping f)) e) u in Inr (v, length u1, u1))"
  by (cases "sem (val_of (Mapping f)) e") (simp_all add: evaluate_map_def eval_sem(1) Let_def)

section \<open>The visitors that rewrite\<close>

lemma sem_clone:
  "sem \<rho> (clone_sexpr e) = sem \<rho> e"
  "sem_all \<rho> (map clone_sexpr es) = sem_all \<rho> es"
  "sem_any \<rho> (map clone_sexpr es) = sem_any \<rho> es"
  by (induction \<rho> e and \<rho> es and \<rho> es rule: sem_sem_all_sem_any.induct)
    (auto simp: create_binary_def intro!: arg_cong2 [of _ _ _ _ bindR])

lemma reads_clone:
  "reads \<rho> (clone_sexpr e) = reads \<rho> e"
  "reads_all \<rho> (map clone_sexpr es) = reads_all \<rho> es"
  "reads_any \<rho> (map clone_sexpr es) = reads_any \<rho> es"
  by (induction \<rho> e and \<rho> es and \<rho> es rule: reads_reads_all_reads_any.induct)
    (auto simp: create_binary_def sem_clone)

lemma sem_transform:
  fixes f :: "'a \<Rightarrow> 'b" and \<rho> :: "'b \<Rightarrow> sval"
  shows "\<rho>' = \<rho> \<circ> f \<Longrightarrow> sem \<rho> (transform f e) = sem \<rho>' e"
    "\<rho>' = \<rho> \<circ> f \<Longrightarrow> sem_all \<rho> (map (transform f) es) = sem_all \<rho>' es"
    "\<rho>' = \<rho> \<circ> f \<Longrightarrow> sem_any \<rho> (map (transform f) es) = sem_any \<rho>' es"
  by (induction \<rho>' e and \<rho>' es and \<rho>' es rule: sem_sem_all_sem_any.induct)
    (auto intro!: arg_cong2 [of _ _ _ _ bindR])

lemma replace_kid_simps [simp]:
  "replace_kid p (RegisterExpr w r n) = (case p r of Some e \<Rightarrow> e | None \<Rightarrow> RegisterExpr w r n)"
  "replace_kid p (ConcreteExpr w v) = ConcreteExpr w v"
  "replace_kid p (SelectExpr w c t e) = SelectExpr w c t e"
  "replace_kid p (ConjunctionExpr k ks) = ConjunctionExpr k ks"
  "replace_kid p (DisjunctionExpr k ks) = DisjunctionExpr k ks"
  "replace_kid p (NotExpr k) = NotExpr k"
  "replace_kid p (CastExpr ck w k) = CastExpr ck w k"
  "replace_kid p (BinaryExpr b w k l) = BinaryExpr b w k l"
  "replace_kid p (CmpExpr d k l) = CmpExpr d k l"
  by (simp_all add: replace_kid_def)

text \<open>Replacing registers by expressions, whose value has to be defined.\<close>

definition replaced :: "('r \<Rightarrow> sval) \<Rightarrow> ('r \<Rightarrow> 'r sexpr option) \<Rightarrow> 'r \<Rightarrow> sval" where
  "replaced \<rho> p r = (case p r of None \<Rightarrow> \<rho> r | Some e \<Rightarrow> (case sem \<rho> e of Inr v \<Rightarrow> v | Inl _ \<Rightarrow> 0))"

lemma sem_replace:
  assumes "\<And>r e. p r = Some e \<Longrightarrow> \<exists>v. sem \<rho> e = Inr v"
  shows "\<rho>' = replaced \<rho> p \<Longrightarrow> sem \<rho> (replace_kid p (replace_visit p e)) = sem \<rho>' e"
    "\<rho>' = replaced \<rho> p \<Longrightarrow> sem_all \<rho> (map (\<lambda>e. replace_kid p (replace_visit p e)) es) = sem_all \<rho>' es"
    "\<rho>' = replaced \<rho> p \<Longrightarrow> sem_any \<rho> (map (\<lambda>e. replace_kid p (replace_visit p e)) es) = sem_any \<rho>' es"
proof (induction \<rho>' e and \<rho>' es and \<rho>' es rule: sem_sem_all_sem_any.induct)
  case (2 \<rho>' w r n)
  show ?case
  proof (cases "p r")
    case (Some e)
    with assms obtain v where "sem \<rho> e = Inr v" by blast
    with Some 2 show ?thesis by (simp add: replaced_def)
  qed (simp add: replaced_def 2)
qed (auto intro!: arg_cong2 [of _ _ _ _ bindR])

lemma sem_concretize:
  "sem \<rho> (concretize e rm) = sem (\<lambda>r. case rm r of Some (v, s) \<Rightarrow> v | None \<Rightarrow> \<rho> r) e"
proof -
  let ?p = "\<lambda>x. case rm x of Some (v, s) \<Rightarrow> Some (ConcreteExpr s v) | None \<Rightarrow> None"
  let ?\<rho> = "\<lambda>r. case rm r of Some (v, s) \<Rightarrow> v | None \<Rightarrow> \<rho> r"
  have \<rho>: "?\<rho> = replaced \<rho> ?p" by (auto simp: replaced_def fun_eq_iff split: option.split)
  have "concretize e rm = replace_kid ?p (replace_visit ?p (clone_sexpr e))"
    by (cases "clone_sexpr e") (simp_all add: concretize_def Let_def split: option.split)
  moreover have "sem \<rho> (replace_kid ?p (replace_visit ?p (clone_sexpr e))) = sem ?\<rho> (clone_sexpr e)"
    by (rule sem_replace(1) [OF _ \<rho>]) (auto split: option.splits)
  ultimately show ?thesis by (simp add: sem_clone)
qed

lemma sem_substitute:
  assumes "sem \<rho> r = Inr v"
  shows "sem \<rho> (substitute e reg r) = sem (\<rho>(reg := v)) e"
proof -
  let ?p = "\<lambda>x. if x = reg then Some (clone_sexpr r) else None"
  have \<rho>: "\<rho>(reg := v) = replaced \<rho> ?p" using assms by (auto simp: replaced_def fun_eq_iff sem_clone)
  have "substitute e reg r = replace_kid ?p (replace_visit ?p (clone_sexpr e))"
    by (cases "clone_sexpr e") (simp_all add: substitute_def Let_def)
  moreover have "sem \<rho> (replace_kid ?p (replace_visit ?p (clone_sexpr e))) = sem (\<rho>(reg := v)) (clone_sexpr e)"
    by (rule sem_replace(1) [OF _ \<rho>]) (use assms in \<open>auto simp: sem_clone split: if_splits\<close>)
  ultimately show ?thesis by (simp add: sem_clone)
qed

section \<open>Widths\<close>

text \<open>An arithmetic expression that has the width of its left operand, everywhere.\<close>

fun widths_inherited :: "'r sexpr \<Rightarrow> bool" where
  "widths_inherited (ConcreteExpr _ _) \<longleftrightarrow> True"
| "widths_inherited (RegisterExpr _ _ _) \<longleftrightarrow> True"
| "widths_inherited (SelectExpr _ c t e) \<longleftrightarrow> widths_inherited c \<and> widths_inherited t \<and> widths_inherited e"
| "widths_inherited (ConjunctionExpr k ks) \<longleftrightarrow> widths_inherited k \<and> list_all widths_inherited ks"
| "widths_inherited (DisjunctionExpr k ks) \<longleftrightarrow> widths_inherited k \<and> list_all widths_inherited ks"
| "widths_inherited (NotExpr e) \<longleftrightarrow> widths_inherited e"
| "widths_inherited (CastExpr _ _ e) \<longleftrightarrow> widths_inherited e"
| "widths_inherited (BinaryExpr _ w l r) \<longleftrightarrow> w = getWidth l \<and> widths_inherited l \<and> widths_inherited r"
| "widths_inherited (CmpExpr _ l r) \<longleftrightarrow> widths_inherited l \<and> widths_inherited r"

lemma map_id_iff: "(\<And>x. x \<in> set xs \<Longrightarrow> f x = x \<longleftrightarrow> P x) \<Longrightarrow> map f xs = xs \<longleftrightarrow> list_all P xs"
  by (induction xs) simp_all

lemma clone_sexpr_same: "clone_sexpr e = e \<longleftrightarrow> widths_inherited e"
proof (induction e)
  case (ConjunctionExpr k ks)
  then show ?case by (simp add: map_id_iff)
next
  case (DisjunctionExpr k ks)
  then show ?case by (simp add: map_id_iff)
next
  case (BinaryExpr k w l r)
  then show ?case by (auto simp: create_binary_def)
qed simp_all

end
