(* ===== verification/LLVM_Values.thy ===== *)
theory LLVM_Values
  imports Symbolic_Facts "HOL-Library.Signed_Division"
begin

text \<open>
  What the operators of a symbolic expression mean in LLVM: a value of width \<open>w\<close> is a number below \<open>2 ^ w\<close>,
  and the operators are those of the language reference, written with integers and not with the evaluator's
  words.  No value is a poison value or undefined behaviour.  The last section compares the evaluator
  with it.
\<close>

section \<open>Operators on numbers\<close>

definition as_signed :: "nat \<Rightarrow> int \<Rightarrow> int" where
  "as_signed w x = (if 2 * x < 2 ^ w then x else x - 2 ^ w)"

definition wrapped :: "nat \<Rightarrow> int \<Rightarrow> int" where
  "wrapped w x = x mod 2 ^ w"

fun llvm_bin :: "nat \<Rightarrow> bin_kind \<Rightarrow> int \<Rightarrow> int \<Rightarrow> int option" where
  "llvm_bin w Add x y = Some (wrapped w (x + y))"
| "llvm_bin w Sub x y = Some (wrapped w (x - y))"
| "llvm_bin w Mul x y = Some (wrapped w (x * y))"
| "llvm_bin w UDiv x y = (if y = 0 then None else Some (x div y))"
| "llvm_bin w SDiv x y = (if y = 0 \<or> (2 * x = 2 ^ w \<and> y = 2 ^ w - 1) then None
     else Some (wrapped w (as_signed w x sdiv as_signed w y)))"
| "llvm_bin w URem x y = (if y = 0 then None else Some (x mod y))"
| "llvm_bin w SRem x y = (if y = 0 \<or> (2 * x = 2 ^ w \<and> y = 2 ^ w - 1) then None
     else Some (wrapped w (as_signed w x smod as_signed w y)))"
| "llvm_bin w BitAnd x y = Some (and x y)"
| "llvm_bin w BitOr x y = Some (or x y)"
| "llvm_bin w BitXor x y = Some (xor x y)"
| "llvm_bin w Shl x y = (if y < int w then Some (wrapped w (x * 2 ^ nat y)) else None)"
| "llvm_bin w LShr x y = (if y < int w then Some (x div 2 ^ nat y) else None)"
| "llvm_bin w AShr x y = (if y < int w then Some (wrapped w (as_signed w x div 2 ^ nat y)) else None)"

fun llvm_cmp :: "nat \<Rightarrow> cmp_kind \<Rightarrow> int \<Rightarrow> int \<Rightarrow> bool" where
  "llvm_cmp w Eq x y \<longleftrightarrow> x = y"
| "llvm_cmp w Ne x y \<longleftrightarrow> x \<noteq> y"
| "llvm_cmp w Ult x y \<longleftrightarrow> x < y"
| "llvm_cmp w Ule x y \<longleftrightarrow> x \<le> y"
| "llvm_cmp w Ugt x y \<longleftrightarrow> x > y"
| "llvm_cmp w Uge x y \<longleftrightarrow> x \<ge> y"
| "llvm_cmp w Slt x y \<longleftrightarrow> as_signed w x < as_signed w y"
| "llvm_cmp w Sle x y \<longleftrightarrow> as_signed w x \<le> as_signed w y"
| "llvm_cmp w Sgt x y \<longleftrightarrow> as_signed w x > as_signed w y"
| "llvm_cmp w Sge x y \<longleftrightarrow> as_signed w x \<ge> as_signed w y"

fun llvm_cast :: "nat \<Rightarrow> cast_kind \<Rightarrow> nat \<Rightarrow> int \<Rightarrow> int" where
  "llvm_cast v ZExt w x = x"
| "llvm_cast v SExt w x = wrapped w (as_signed v x)"
| "llvm_cast v Trunc w x = wrapped w x"

section \<open>Expressions\<close>

abbreviation bits :: "'r sexpr \<Rightarrow> nat" where
  "bits e \<equiv> unat (getWidth e)"

definition number_of_bool :: "bool \<Rightarrow> int" where
  "number_of_bool b = (if b then 1 else 0)"

text \<open>A register holds its low bits.  Conjunctions and disjunctions are \<open>and\<close> and \<open>or\<close> of single bits, whose
  operands are all computed.\<close>

fun llvm_sem :: "('r \<Rightarrow> int) \<Rightarrow> 'r sexpr \<Rightarrow> int option"
  and llvm_list :: "('r \<Rightarrow> int) \<Rightarrow> 'r sexpr list \<Rightarrow> int list option" where
  "llvm_sem \<rho> (ConcreteExpr w v) = Some (wrapped (unat w) (uint v))"
| "llvm_sem \<rho> (RegisterExpr w r n) = Some (wrapped (unat w) (\<rho> r))"
| "llvm_sem \<rho> (SelectExpr w c t e) =
     Option.bind (llvm_sem \<rho> c) (\<lambda>b. if b \<noteq> 0 then llvm_sem \<rho> t else llvm_sem \<rho> e)"
| "llvm_sem \<rho> (ConjunctionExpr k ks) =
     Option.bind (llvm_list \<rho> (k # ks)) (\<lambda>xs. Some (number_of_bool (list_all (\<lambda>x. x \<noteq> 0) xs)))"
| "llvm_sem \<rho> (DisjunctionExpr k ks) =
     Option.bind (llvm_list \<rho> (k # ks)) (\<lambda>xs. Some (number_of_bool (list_ex (\<lambda>x. x \<noteq> 0) xs)))"
| "llvm_sem \<rho> (NotExpr e) = Option.bind (llvm_sem \<rho> e) (\<lambda>x. Some (number_of_bool (x = 0)))"
| "llvm_sem \<rho> (CastExpr k w e) = Option.bind (llvm_sem \<rho> e) (\<lambda>x. Some (llvm_cast (bits e) k (unat w) x))"
| "llvm_sem \<rho> (BinaryExpr k w l r) =
     Option.bind (llvm_sem \<rho> l) (\<lambda>x. Option.bind (llvm_sem \<rho> r) (llvm_bin (unat w) k x))"
| "llvm_sem \<rho> (CmpExpr k l r) =
     Option.bind (llvm_sem \<rho> l) (\<lambda>x. Option.bind (llvm_sem \<rho> r) (\<lambda>y. Some (number_of_bool (llvm_cmp (bits l) k x y))))"
| "llvm_list \<rho> [] = Some []"
| "llvm_list \<rho> (k # ks) =
     Option.bind (llvm_sem \<rho> k) (\<lambda>x. Option.bind (llvm_list \<rho> ks) (\<lambda>xs. Some (x # xs)))"

section \<open>Where the evaluator agrees\<close>

text \<open>Numbers and registers fit their widths, operands have one width, no operator is one that the evaluator
  gets wrong, and what depends on the width (sums, differences, products, left shifts, signed comparisons) is
  done on 64 bits.\<close>

fun plain_ops :: "('r \<Rightarrow> sval) \<Rightarrow> 'r sexpr \<Rightarrow> bool" where
  "plain_ops \<rho> (ConcreteExpr w v) \<longleftrightarrow> uint v < 2 ^ unat w"
| "plain_ops \<rho> (RegisterExpr w r n) \<longleftrightarrow> uint (\<rho> r) < 2 ^ unat w"
| "plain_ops \<rho> (SelectExpr w c t e) \<longleftrightarrow> plain_ops \<rho> c \<and> plain_ops \<rho> t \<and> plain_ops \<rho> e \<and> getWidth t = w \<and> getWidth e = w"
| "plain_ops \<rho> (ConjunctionExpr k ks) \<longleftrightarrow> plain_ops \<rho> k \<and> list_all (plain_ops \<rho>) ks"
| "plain_ops \<rho> (DisjunctionExpr k ks) \<longleftrightarrow> plain_ops \<rho> k \<and> list_all (plain_ops \<rho>) ks"
| "plain_ops \<rho> (NotExpr e) \<longleftrightarrow> False"
| "plain_ops \<rho> (CastExpr k w e) \<longleftrightarrow> k = ZExt \<and> plain_ops \<rho> e \<and> getWidth e \<le> w"
| "plain_ops \<rho> (BinaryExpr k w l r) \<longleftrightarrow> plain_ops \<rho> l \<and> plain_ops \<rho> r \<and> getWidth l = w \<and> getWidth r = w \<and>
     (k \<in> {UDiv, BitAnd, BitOr, BitXor, LShr} \<and> w \<le> 64 \<or> k \<in> {Add, Sub, Mul, Shl} \<and> w = 64)"
| "plain_ops \<rho> (CmpExpr k l r) \<longleftrightarrow> plain_ops \<rho> l \<and> plain_ops \<rho> r \<and> getWidth l = getWidth r \<and>
     (k \<in> {Eq, Ne, Ult, Ule, Ugt, Uge} \<or> getWidth l = 64)"

lemma as_signed_64: "as_signed 64 (uint (a :: sval)) = sint a"
proof -
  have r: "- (2 ^ 63) \<le> sint a" "sint a < 2 ^ 63" using sint_greater_eq [of a] sint_less [of a] by simp_all
  have u: "uint a = sint a mod 2 ^ 64" by (simp add: uint_sint take_bit_eq_mod)
  show ?thesis
  proof (cases "0 \<le> sint a")
    case True
    then have "uint a = sint a" using u r by simp
    with r True show ?thesis by (simp add: as_signed_def)
  next
    case False
    then have "(sint a + 2 ^ 64) mod 2 ^ 64 = sint a + 2 ^ 64" using r by (intro mod_pos_pos_trivial) simp_all
    then have "uint a = sint a + 2 ^ 64" using u by simp
    with r False show ?thesis by (simp add: as_signed_def)
  qed
qed

text \<open>The operators on words, read as numbers.\<close>

lemma uint_shl: "b < 64 \<Longrightarrow> uint (push_bit (unat b) (a :: sval)) = wrapped 64 (uint a * 2 ^ nat (uint b))"
  unfolding unsigned_push_bit_eq by (simp add: push_bit_eq_mult take_bit_eq_mod wrapped_def)

lemma uint_shr: "uint (drop_bit (unat b) (a :: sval)) = uint a div 2 ^ nat (uint b)"
proof -
  have "take_bit 64 (uint a) = uint a" using unsigned_less [of a] by (intro take_bit_int_eq_self) simp_all
  then show ?thesis unfolding unsigned_drop_bit_eq by (simp add: drop_bit_eq_div)
qed

lemma shift_amount: "uint (b :: sval) < int w \<Longrightarrow> w \<le> 64 \<Longrightarrow> b < 64"
  by (simp add: word_less_def)

lemma eval_bin_llvm:
  assumes x: "llvm_bin w k (uint a) (uint b) = Some x" and a: "uint a < 2 ^ w" and b: "uint b < 2 ^ w"
    and k: "k \<in> {UDiv, BitAnd, BitOr, BitXor, LShr} \<and> w \<le> 64 \<or> k \<in> {Add, Sub, Mul, Shl} \<and> w = 64"
  shows "\<exists>v. eval_bin k a b = Inr v \<and> uint v = x \<and> x < 2 ^ w"
proof -
  have top: "uint v < 2 ^ 64" for v :: sval using unsigned_less [of v] by simp
  have below: "uint a div y \<le> uint a" if "0 < y" for y using zdiv_mono2 [of "uint a" 1 y] that by simp
  consider "k = UDiv" | "k = BitAnd" | "k = BitOr" | "k = BitXor" | "k = LShr" "w \<le> 64"
    | "k = Add" "w = 64" | "k = Sub" "w = 64" | "k = Mul" "w = 64" | "k = Shl" "w = 64" using k by blast
  then show ?thesis
  proof cases
    case 1
    with x have "b \<noteq> 0" "x = uint a div uint b" by (auto split: if_splits)
    moreover have "uint a div uint b \<le> uint a" using below [of "uint b"] \<open>b \<noteq> 0\<close> by (simp add: word_neq_0_conv word_less_def)
    ultimately show ?thesis using 1 a by (simp add: sval_div_def uint_div)
  next
    case 2
    with x a show ?thesis by (auto simp: unsigned_and_eq intro: order.strict_trans1 [OF AND_upper1])
  next
    case 3
    with x a b show ?thesis by (auto simp: unsigned_or_eq intro: OR_upper)
  next
    case 4
    with x a b show ?thesis by (auto simp: unsigned_xor_eq intro: XOR_upper)
  next
    case 5
    with x have "b < 64" "x = uint a div 2 ^ nat (uint b)" using shift_amount [of b w] by (auto split: if_splits)
    moreover have "uint a div 2 ^ nat (uint b) \<le> uint a" by (rule below) simp
    ultimately show ?thesis using 5 a by (simp add: sval_shr_def uint_shr)
  next
    case 6
    with x top [of "a + b"] show ?thesis by (auto simp: uint_word_ariths wrapped_def)
  next
    case 7
    with x top [of "a - b"] show ?thesis by (auto simp: uint_word_ariths wrapped_def)
  next
    case 8
    with x top [of "a * b"] show ?thesis by (auto simp: uint_word_ariths wrapped_def)
  next
    case 9
    with x have "b < 64" "x = wrapped 64 (uint a * 2 ^ nat (uint b))" using shift_amount [of b 64] by (auto split: if_splits)
    with 9 top [of "push_bit (unat b) a"] show ?thesis by (simp add: sval_shl_def uint_shl)
  qed
qed

lemma eval_cmp_llvm:
  "k \<in> {Eq, Ne, Ult, Ule, Ugt, Uge} \<or> w = 64 \<Longrightarrow> eval_cmp k a b \<longleftrightarrow> llvm_cmp w k (uint a) (uint b)"
  by (cases k) (auto simp: sval_cmp word_less_def word_le_def as_signed_64 word_uint_eq_iff)

lemma of_flag_number: "uint (of_flag b) = number_of_bool b"
  by (simp add: of_flag_def number_of_bool_def)

lemma sem_conjunction: "sem \<rho> (ConjunctionExpr k ks) = bindR (sem_all \<rho> (k # ks)) (\<lambda>c. Inr (of_flag c))"
  by (cases "sem \<rho> k") (simp_all add: of_flag_def)

lemma sem_disjunction: "sem \<rho> (DisjunctionExpr k ks) = bindR (sem_any \<rho> (k # ks)) (\<lambda>c. Inr (of_flag c))"
  by (cases "sem \<rho> k") (simp_all add: of_flag_def)

text \<open>Whenever LLVM gives a plain expression a value, the evaluator computes it.\<close>

lemma sem_refines_llvm:
  "plain_ops \<rho> e \<Longrightarrow> llvm_sem (\<lambda>r. uint (\<rho> r)) e = Some x \<Longrightarrow> \<exists>v. sem \<rho> e = Inr v \<and> uint v = x \<and> x < 2 ^ bits e"
  "list_all (plain_ops \<rho>) es \<Longrightarrow> llvm_list (\<lambda>r. uint (\<rho> r)) es = Some xs \<Longrightarrow>
     sem_all \<rho> es = Inr (list_all (\<lambda>x. x \<noteq> 0) xs) \<and> sem_any \<rho> es = Inr (list_ex (\<lambda>x. x \<noteq> 0) xs)"
proof (induction "\<lambda>r. uint (\<rho> r)" e and "\<lambda>r. uint (\<rho> r)" es arbitrary: x and xs rule: llvm_sem_llvm_list.induct)
  case (1 w v)
  then show ?case by (simp add: wrapped_def)
next
  case (2 w r n)
  then show ?case by (simp add: wrapped_def)
next
  case (3 w c t e)
  then obtain b where b: "llvm_sem (\<lambda>r. uint (\<rho> r)) c = Some b" by (auto simp: bind_eq_Some_conv)
  with 3 obtain vb where vb: "sem \<rho> c = Inr vb" "uint vb = b" by auto
  then have "vb = 0 \<longleftrightarrow> b = 0" by (auto simp: unsigned_eq_0_iff)
  with 3 b vb show ?case by (cases "b = 0") auto
next
  case (4 k ks)
  then obtain xs where xs: "llvm_list (\<lambda>r. uint (\<rho> r)) (k # ks) = Some xs"
    and x: "x = number_of_bool (list_all (\<lambda>x. x \<noteq> 0) xs)" by (auto simp: bind_eq_Some_conv simp del: llvm_list.simps)
  with 4 have "sem_all \<rho> (k # ks) = Inr (list_all (\<lambda>x. x \<noteq> 0) xs)" by auto
  with x show ?case by (simp add: sem_conjunction of_flag_number number_of_bool_def del: sem.simps sem_all.simps)
next
  case (5 k ks)
  then obtain xs where xs: "llvm_list (\<lambda>r. uint (\<rho> r)) (k # ks) = Some xs"
    and x: "x = number_of_bool (list_ex (\<lambda>x. x \<noteq> 0) xs)" by (auto simp: bind_eq_Some_conv simp del: llvm_list.simps)
  with 5 have "sem_any \<rho> (k # ks) = Inr (list_ex (\<lambda>x. x \<noteq> 0) xs)" by auto
  with x show ?case by (simp add: sem_disjunction of_flag_number number_of_bool_def del: sem.simps sem_any.simps)
next
  case (6 e)
  then show ?case by simp
next
  case (7 k w e)
  then obtain y where y: "llvm_sem (\<lambda>r. uint (\<rho> r)) e = Some y" by (auto simp: bind_eq_Some_conv)
  with 7 obtain v where v: "sem \<rho> e = Inr v" "uint v = y" "y < 2 ^ bits e" by auto
  have "(2::int) ^ bits e \<le> 2 ^ unat w" using 7(2) by (simp add: word_le_nat_alt)
  with v(3) have "y < 2 ^ unat w" by linarith
  with 7 y v show ?case by simp
next
  case (8 k w l r)
  then obtain a b where ab: "llvm_sem (\<lambda>r. uint (\<rho> r)) l = Some a" "llvm_sem (\<lambda>r. uint (\<rho> r)) r = Some b"
    "llvm_bin (unat w) k a b = Some x" by (auto simp: bind_eq_Some_conv)
  from 8 ab obtain u v where uv: "sem \<rho> l = Inr u" "uint u = a" "a < 2 ^ unat w"
    "sem \<rho> r = Inr v" "uint v = b" "b < 2 ^ unat w" by fastforce
  have "k \<in> {UDiv, BitAnd, BitOr, BitXor, LShr} \<and> unat w \<le> 64 \<or> k \<in> {Add, Sub, Mul, Shl} \<and> unat w = 64"
    using 8(3) by (auto simp: word_le_nat_alt)
  from eval_bin_llvm [OF _ _ _ this, of u v x] uv ab show ?case by simp
next
  case (9 k l r)
  then obtain a b where ab: "llvm_sem (\<lambda>r. uint (\<rho> r)) l = Some a" "llvm_sem (\<lambda>r. uint (\<rho> r)) r = Some b"
    "x = number_of_bool (llvm_cmp (bits l) k a b)" by (auto simp: bind_eq_Some_conv)
  from 9 ab obtain u v where uv: "sem \<rho> l = Inr u" "uint u = a" "sem \<rho> r = Inr v" "uint v = b" by fastforce
  have "k \<in> {Eq, Ne, Ult, Ule, Ugt, Uge} \<or> bits l = 64" using 9(3) by auto
  from eval_cmp_llvm [OF this, of u v] uv ab show ?case by (simp add: of_flag_number number_of_bool_def)
next
  case 10
  then show ?case by simp
next
  case (11 k ks)
  then obtain y ys where y: "llvm_sem (\<lambda>r. uint (\<rho> r)) k = Some y" "llvm_list (\<lambda>r. uint (\<rho> r)) ks = Some ys"
    "xs = y # ys" by (auto simp: bind_eq_Some_conv)
  from 11 y obtain v where v: "sem \<rho> k = Inr v" "uint v = y" by fastforce
  then have "v = 0 \<longleftrightarrow> y = 0" by (auto simp: unsigned_eq_0_iff)
  with 11 y v show ?case by simp
qed

section \<open>Where it does not\<close>

text \<open>Operands for which the division of unsigned values, the quotient for a remainder and the logical shift
  are wrong.\<close>

lemma wrong_operators:
  assumes "k \<in> {SDiv, URem, SRem, AShr}"
  shows "\<exists>a b y z. sem \<rho> (BinaryExpr k 64 (ConcreteExpr 64 a) (ConcreteExpr 64 b) :: 'r sexpr) = Inr y \<and>
    llvm_sem \<rho>' (BinaryExpr k 64 (ConcreteExpr 64 a) (ConcreteExpr 64 b) :: 'r sexpr) = Some z \<and> uint y \<noteq> z"
proof -
  let ?wrong = "\<lambda>k a b. \<exists>y z. sem \<rho> (BinaryExpr k 64 (ConcreteExpr 64 a) (ConcreteExpr 64 b) :: 'r sexpr) = Inr y \<and>
    llvm_sem \<rho>' (BinaryExpr k 64 (ConcreteExpr 64 a) (ConcreteExpr 64 b) :: 'r sexpr) = Some z \<and> uint y \<noteq> z"
  have "?wrong SDiv (-4) 2" by (simp add: wrapped_def as_signed_def sval_div_def signed_divide_int_def uint_div)
  moreover have "?wrong URem 7 2" by (simp add: wrapped_def sval_div_def)
  moreover have "?wrong SRem 7 2" by (simp add: wrapped_def as_signed_def sval_div_def signed_modulo_int_def signed_divide_int_def)
  moreover have "?wrong AShr (-4) 1" by (simp add: wrapped_def as_signed_def sval_shr_def)
  ultimately show ?thesis using assms by blast
qed

end
