(* ===== verification/Symbolic_Props.thy ===== *)
theory Symbolic_Props
  imports LLVM_Values
begin

text \<open>
  Properties of symbolic expressions: what the transformations of an annotation do to its value,
  what an evaluation without unknown registers guarantees, where the evaluator departs from
  LLVM's operators, and which expressions a clone reproduces.
\<close>

text \<open>C32: The annotation of a read is built over program values, transformed to name them by number,
  concretised with the registers of the thread, and then evaluated on the value that a store offers
  (\<open>valueMakesAssumeSucceed\<close>).  The result is the value of the original expression when each
  register that the thread knows has its value there, and every other one has the offered value;
  an evaluation that is undefined is undefined in both.\<close>

theorem annotation_pipeline:
  fixes e :: "'a::linorder sexpr" and number :: "'a \<Rightarrow> 'b::linorder"
  shows "evaluate_bf (concretize (transform number e) regs) v =
    bindR (evaluate_map [] e (\<lambda>r. Some (case regs (number r) of Some (x, s) \<Rightarrow> x | None \<Rightarrow> v))) (\<lambda>(x, _). Inr x)"
proof -
  let ?\<rho> = "\<lambda>r. case regs (number r) of Some (x, s) \<Rightarrow> x | None \<Rightarrow> v"
  have "val_of (Mapping (\<lambda>r. Some (?\<rho> r))) = ?\<rho>" by (simp add: val_of_def fun_eq_iff)
  then have "bindR (evaluate_map [] e (\<lambda>r. Some (?\<rho> r))) (\<lambda>(x, _). Inr x) = sem ?\<rho> e"
    by (cases "sem ?\<rho> e") (simp_all add: evaluate_map_sem Let_def)
  moreover have "evaluate_bf (concretize (transform number e) regs) v = sem ?\<rho> e"
    by (simp add: evaluate_bf_sem sem_concretize sem_transform(1) [OF refl] comp_def)
  ultimately show ?thesis by simp
qed

text \<open>An evaluation over a map counts the registers that it reads and that the map does not know.
  If it counts none, the result does not depend on the default value of such registers: every map
  that extends the one given yields the same value, again with no unknown register.  The loop
  passes rely on this to decide a branch from a partial map.\<close>

theorem evaluate_known_sound:
  assumes "evaluate_map [] e f = Inr (v, 0, u)" and "f \<subseteq>\<^sub>m f'"
  shows "evaluate_map [] e f' = Inr (v, 0, [])"
proof -
  let ?\<rho> = "val_of (Mapping f)" and ?\<rho>' = "val_of (Mapping f')"
  from assms(1) have v: "sem ?\<rho> e = Inr v" and n: "note_unknown (Mapping f) (reads ?\<rho> e) [] = []"
    by (auto simp: evaluate_map_sem bindR_Inr_iff Let_def)
  from n note_unknown_set [of "[]" f "reads ?\<rho> e"] have known: "f r \<noteq> None" if "r \<in> set (reads ?\<rho> e)" for r
    using that by (auto simp: vset_inv_def)
  have agree: "?\<rho>' r = ?\<rho> r" if "r \<in> set (reads ?\<rho> e)" for r
    using known [OF that] assms(2) by (auto simp: val_of_def map_le_def dom_def split: option.splits)
  have "sem ?\<rho>' e = Inr v" by (rule sem_agree(1) [OF v agree])
  moreover have "reads ?\<rho>' e = reads ?\<rho> e" by (rule reads_agree(1) [OF v agree])
  moreover have "note_unknown (Mapping f') (reads ?\<rho> e) [] = []"
  proof -
    have "f' r \<noteq> None" if "r \<in> set (reads ?\<rho> e)" for r
      using known [OF that] assms(2) by (metis domIff map_le_implies_dom_le subsetD)
    then have "{r \<in> set (reads ?\<rho> e). f' r = None} = {}" by blast
    with note_unknown_set [of "[]" f' "reads ?\<rho> e"] show ?thesis by (simp add: vset_inv_def)
  qed
  ultimately show ?thesis by (simp add: evaluate_map_sem)
qed

lemma evaluate_known_sound_witness:
  "evaluate_map [] (DisjunctionExpr (CmpExpr Eq (RegisterExpr 32 (1::nat) ''x'') (ConcreteExpr 32 7))
     [RegisterExpr 32 2 ''y'']) [1 \<mapsto> 7, 2 \<mapsto> 0] = Inr (1, 0, [])"
  by (rule evaluate_known_sound [where f = "[1 \<mapsto> 7]" and u = "[]"])
    (simp_all add: evaluate_map_def map_le_def)

text \<open>C33: \<open>llvm_sem\<close> is an independent account of the expressions, over numbers of the widths that the
  expressions declare.  Whenever it gives a plain expression a value, the evaluator computes that value: plain
  are numbers and registers that fit, selections, conjunctions, disjunctions, zero extensions, unsigned
  division, bitwise operators, logical right shifts and unsigned comparisons at any width up to 64, and sums,
  differences, products, left shifts and signed comparisons on 64 bits.  For each operator left out there are
  operands on which the evaluator computes another value: a negation is always false, a remainder is a
  quotient, a signed division is unsigned, an arithmetic shift is logical; sign extensions and truncations
  do nothing, and a sum on 8 bits does not wrap.\<close>

theorem evaluator_agrees_with_llvm:
  fixes e :: "'r::linorder sexpr"
  shows "(plain_ops (\<lambda>_. v) e \<and> llvm_sem (\<lambda>_. uint v) e = Some x \<longrightarrow> (\<exists>y. evaluate_bf e v = Inr y \<and> uint y = x)) \<and>
    evaluate_bf (NotExpr e) v = Inr 0 \<and>
    llvm_sem (\<lambda>_. uint v) (NotExpr (ConcreteExpr 1 0) :: 'r sexpr) = Some 1 \<and>
    (\<forall>k \<in> {SDiv, URem, SRem, AShr}. \<exists>a b y z.
       evaluate_bf (BinaryExpr k 64 (ConcreteExpr 64 a) (ConcreteExpr 64 b) :: 'r sexpr) v = Inr y \<and>
       llvm_sem (\<lambda>_. uint v) (BinaryExpr k 64 (ConcreteExpr 64 a) (ConcreteExpr 64 b) :: 'r sexpr) = Some z \<and> uint y \<noteq> z) \<and>
    evaluate_bf (CastExpr SExt 64 (ConcreteExpr 8 255) :: 'r sexpr) v = Inr 255 \<and>
    llvm_sem (\<lambda>_. uint v) (CastExpr SExt 64 (ConcreteExpr 8 255) :: 'r sexpr) = Some (2 ^ 64 - 1) \<and>
    evaluate_bf (CastExpr Trunc 8 (ConcreteExpr 64 256) :: 'r sexpr) v = Inr 256 \<and>
    llvm_sem (\<lambda>_. uint v) (CastExpr Trunc 8 (ConcreteExpr 64 256) :: 'r sexpr) = Some 0 \<and>
    evaluate_bf (BinaryExpr Add 8 (ConcreteExpr 8 255) (ConcreteExpr 8 1) :: 'r sexpr) v = Inr 256 \<and>
    llvm_sem (\<lambda>_. uint v) (BinaryExpr Add 8 (ConcreteExpr 8 255) (ConcreteExpr 8 1) :: 'r sexpr) = Some 0"
proof -
  have "plain_ops (\<lambda>_. v) e \<and> llvm_sem (\<lambda>_. uint v) e = Some x \<longrightarrow> (\<exists>y. evaluate_bf e v = Inr y \<and> uint y = x)"
    using sem_refines_llvm(1) [of "\<lambda>_. v" e x] by (auto simp: evaluate_bf_sem)
  moreover have "\<forall>k \<in> {SDiv, URem, SRem, AShr}. \<exists>a b y z.
       evaluate_bf (BinaryExpr k 64 (ConcreteExpr 64 a) (ConcreteExpr 64 b) :: 'r sexpr) v = Inr y \<and>
       llvm_sem (\<lambda>_. uint v) (BinaryExpr k 64 (ConcreteExpr 64 a) (ConcreteExpr 64 b) :: 'r sexpr) = Some z \<and> uint y \<noteq> z"
    using wrong_operators [where 'r = 'r] unfolding evaluate_bf_sem by blast
  ultimately show ?thesis by (simp add: evaluate_bf_sem number_of_bool_def as_signed_def wrapped_def)
qed

lemma evaluator_agrees_with_llvm_witness:
  "evaluate_bf (CmpExpr Ult (BinaryExpr UDiv 64 (RegisterExpr 64 (1::nat) ''x'') (ConcreteExpr 64 3)) (ConcreteExpr 64 4)) 9 = Inr 1"
  using conjunct1 [OF evaluator_agrees_with_llvm [where v = 9 and x = 1 and
    e = "CmpExpr Ult (BinaryExpr UDiv 64 (RegisterExpr 64 (1::nat) ''x'') (ConcreteExpr 64 3)) (ConcreteExpr 64 4)"]]
  by (simp add: number_of_bool_def wrapped_def) (metis word_uint_eqI uint_1_eq)

text \<open>\<open>clone\<close> is a copy exactly of the expressions in which every arithmetic node has the width of
  its left operand; a width that was given explicitly is lost.  The value is always preserved.\<close>

theorem clone_sexpr_roundtrip:
  fixes e :: "'r::linorder sexpr"
  shows "(clone_sexpr e = e \<longleftrightarrow> widths_inherited e) \<and> evaluate_bf (clone_sexpr e) v = evaluate_bf e v \<and>
    evaluate_map u (clone_sexpr e) f = evaluate_map u e f"
  by (simp add: clone_sexpr_same evaluate_bf_sem evaluate_map_sem sem_clone reads_clone)

end
