(* ===== verification/Explorer.thy ===== *)
theory Explorer
  imports Graph_Queries Complex_Main "HOL-Library.Product_Lexorder"
begin

text \<open>
  The state of the exploration (\<open>Verification/Revisit.hpp\<close>, \<open>Verification/WorkSet.hpp\<close>,
  \<open>Verification/GenMCDriver.hpp\<close>, \<open>Verification/GenMCDriver.cpp\<close>): revisits, the worklist of an
  execution, the recorded choices, the stack of executions, and the restriction of an execution to
  the stamp of the item that is taken next.

  A \<open>std::map\<close> is an association list in the order of its keys.  The graph of an execution is a
  dependency-tracking one when \<open>isDepTrackingModel\<close> says so; the flag selects the virtual functions.
\<close>

section \<open>Revisits\<close>

datatype revisit =
    ReadForwardRevisit event event bool
  | WriteForwardRevisit event event
  | OptionalForwardRevisit event
  | RerunForwardRevisit
  | BackwardRevisit event event vector_clock
  | BackwardRevisitHELPER event event vector_clock event

datatype revisit_kind = RV_FRevRead | RV_FRevMO | RV_FRevOpt | RV_FRevRerun | RV_BRev | RV_BRevHelper

fun rv_getKind :: "revisit \<Rightarrow> revisit_kind" where
  "rv_getKind (ReadForwardRevisit _ _ _) = RV_FRevRead"
| "rv_getKind (WriteForwardRevisit _ _) = RV_FRevMO"
| "rv_getKind (OptionalForwardRevisit _) = RV_FRevOpt"
| "rv_getKind RerunForwardRevisit = RV_FRevRerun"
| "rv_getKind (BackwardRevisit _ _ _) = RV_BRev"
| "rv_getKind (BackwardRevisitHELPER _ _ _ _) = RV_BRevHelper"

fun rv_getPos :: "revisit \<Rightarrow> event" where
  "rv_getPos (ReadForwardRevisit p _ _) = p"
| "rv_getPos (WriteForwardRevisit p _) = p"
| "rv_getPos (OptionalForwardRevisit p) = p"
| "rv_getPos RerunForwardRevisit = event_init"
| "rv_getPos (BackwardRevisit p _ _) = p"
| "rv_getPos (BackwardRevisitHELPER p _ _ _) = p"

text \<open>\<open>castToReadRevisit\<close> aborts for the other kinds.\<close>

fun rv_getRev :: "revisit \<Rightarrow> event res" where
  "rv_getRev (ReadForwardRevisit _ w _) = Inr w"
| "rv_getRev (BackwardRevisit _ w _) = Inr w"
| "rv_getRev (BackwardRevisitHELPER _ w _ _) = Inr w"
| "rv_getRev _ = Inl Bug"

fun rv_getMid :: "revisit \<Rightarrow> event option" where
  "rv_getMid (BackwardRevisitHELPER _ _ _ m) = Some m"
| "rv_getMid _ = None"

fun rv_view :: "revisit \<Rightarrow> vector_clock option" where
  "rv_view (BackwardRevisit _ _ v) = Some v"
| "rv_view (BackwardRevisitHELPER _ _ v _) = Some v"
| "rv_view _ = None"

fun isForwardRevisit :: "revisit \<Rightarrow> bool" where
  "isForwardRevisit (BackwardRevisit _ _ _) = False"
| "isForwardRevisit (BackwardRevisitHELPER _ _ _ _) = False"
| "isForwardRevisit _ = True"

section \<open>Worklists and choices\<close>

fun smap_mod :: "'k::linorder \<Rightarrow> 'v \<Rightarrow> ('v \<Rightarrow> 'v) \<Rightarrow> ('k \<times> 'v) list \<Rightarrow> ('k \<times> 'v) list" where
  "smap_mod k d f [] = [(k, f d)]"
| "smap_mod k d f ((j, x) # m) =
     (if k < j then (k, f d) # (j, x) # m
      else if k = j then (j, f x) # m
      else (j, x) # smap_mod k d f m)"

type_synonym work_queue = "(stamp \<times> revisit list) list"
type_synonym choice_map = "(stamp \<times> (event \<times> rat) list) list"

definition ws_add :: "revisit \<Rightarrow> revisit list \<Rightarrow> revisit list" where
  "ws_add it ws = ws @ [it]"

definition ws_getNext :: "revisit list \<Rightarrow> (revisit \<times> revisit list) res" where
  "ws_getNext ws = (if ws = [] then Inl Undefined else Inr (last ws, butlast ws))"

definition addToWorklist :: "stamp \<Rightarrow> revisit \<Rightarrow> work_queue \<Rightarrow> work_queue" where
  "addToWorklist st it q = smap_mod st [] (ws_add it) q"

text \<open>The search through the map from its end; the work sets it passes are empty.\<close>

fun next_item :: "work_queue \<Rightarrow> (stamp \<times> revisit) option \<times> work_queue" where
  "next_item [] = (None, [])"
| "next_item ((s, ws) # m) =
     (if ws = [] then (fst (next_item m), (s, ws) # snd (next_item m))
      else (Some (s, last ws), (s, butlast ws) # m))"

definition getNextItem :: "work_queue \<Rightarrow> (stamp \<times> revisit) option \<times> work_queue" where
  "getNextItem q = (let (r, m) = next_item (rev q) in (r, rev m))"

definition restrictWorklist :: "stamp \<Rightarrow> work_queue \<Rightarrow> work_queue" where
  "restrictWorklist st q =
     (let idxs = map fst (filter (\<lambda>(s, ws). s > st \<and> ws = []) (rev q))
      in fold (\<lambda>i q. filter (\<lambda>(s, _). s \<noteq> i) q) idxs q)"

definition restrictChoices :: "stamp \<Rightarrow> choice_map \<Rightarrow> choice_map" where
  "restrictChoices st m = filter (\<lambda>(s, _). \<not> s > st) m"

text \<open>Recording the stores that a read could read from, the stores behind which a write could be
  placed, and the loads that a write could have revisited.\<close>

definition insert_choice :: "stamp \<Rightarrow> event \<times> rat \<Rightarrow> choice_map \<Rightarrow> choice_map" where
  "insert_choice st c m = smap_mod st [] (\<lambda>cs. fst (vset_insert cs c)) m"

definition updateStSpaceChoices :: "stamp \<Rightarrow> event list \<Rightarrow> choice_map \<Rightarrow> choice_map" where
  "updateStSpaceChoices st stores m =
     fold (\<lambda>s. insert_choice st (s, -1)) stores (smap_mod st [] (\<lambda>_. []) m)"

definition updateStSpaceChoices_loads :: "exec_graph \<Rightarrow> event list \<Rightarrow> event \<Rightarrow> choice_map \<Rightarrow> choice_map res" where
  "updateStSpaceChoices_loads g loads w m = foldR (\<lambda>l m. bindR (getEventLabel g l) (\<lambda>rl.
     if isRead (lb_kind rl) then Inr (insert_choice (the (lb_stamp rl)) (w, -1) m) else Inl Undefined)) loads m"

text \<open>The choices of a graph that are still possible in a copy of it, under the copy's stamps.\<close>

definition createChoiceMapForCopy :: "exec_graph \<Rightarrow> choice_map \<Rightarrow> exec_graph \<Rightarrow> choice_map res" where
  "createChoiceMapForCopy g choices og =
     foldR (\<lambda>e m. bindR (deref g e) (\<lambda>l.
       case map_of choices (the (lb_stamp l)) of
         None \<Rightarrow> Inr m
       | Some cs \<Rightarrow>
           if \<not> containsPos og e then Inr m
           else bindR (getEventLabel og e) (\<lambda>ol.
             Inr (fold (\<lambda>(s, w) m. if containsPos og s then insert_choice (the (lb_stamp ol)) (s, w) m else m) cs m))))
       (insertionOrder g) []"

section \<open>Executions\<close>

record execution =
  ex_graph :: exec_graph
  ex_work :: work_queue
  ex_choices :: choice_map

definition graph_cutToStamp :: "bool \<Rightarrow> stamp \<Rightarrow> exec_graph \<Rightarrow> exec_graph res" where
  "graph_cutToStamp dep st g = (if dep then dep_cutToStamp st g else cutToStamp st g)"

definition graph_getViewFromStamp :: "bool \<Rightarrow> stamp \<Rightarrow> exec_graph \<Rightarrow> vector_clock res" where
  "graph_getViewFromStamp dep st g = (if dep then dep_getViewFromStamp st g else getViewFromStamp st g)"

definition getPredsView :: "bool \<Rightarrow> exec_graph \<Rightarrow> event \<Rightarrow> vector_clock res" where
  "getPredsView dep g e = bindR (getEventLabel g e) (\<lambda>l. graph_getViewFromStamp dep (the (lb_stamp l)) g)"

text \<open>A read that lost its store reads from the last one of its location.\<close>

definition repairRead :: "event \<Rightarrow> exec_graph \<Rightarrow> exec_graph res" where
  "repairRead r g =
     bindR (deref g r) (\<lambda>l. bindR (co_max g (lb_addr l)) (\<lambda>m. bindR (deref g m) (\<lambda>ml.
     bindR (setRf r (Some m) g) (with_label r (\<lambda>l.
       Inr (l\<lparr>lb_maximal := True, lb_ipr := the (lb_stamp ml) > the (lb_stamp l)\<rparr>))))))"

definition repairDanglingReads :: "exec_graph \<Rightarrow> exec_graph res" where
  "repairDanglingReads g = foldR (\<lambda>i h. bindR (getLastThreadLabel h i) (\<lambda>l.
     if isRead (lb_kind l) \<and> lb_rf l = None then repairRead (lb_pos l) h else Inr h))
     [0..<getNumThreads g] g"

definition restrictGraph :: "bool \<Rightarrow> stamp \<Rightarrow> exec_graph \<Rightarrow> exec_graph res" where
  "restrictGraph dep st g =
     bindR (graph_cutToStamp dep st g) (\<lambda>g1. bindR (compressStampsAfter st g1) repairDanglingReads)"

definition restrict_execution :: "bool \<Rightarrow> stamp \<Rightarrow> execution \<Rightarrow> execution res" where
  "restrict_execution dep st x =
     bindR (restrictGraph dep st (ex_graph x)) (\<lambda>g.
       Inr \<lparr>ex_graph = g, ex_work = restrictWorklist st (ex_work x),
            ex_choices = restrictChoices st (ex_choices x)\<rparr>)"

section \<open>The driver\<close>

record driver =
  execStack :: "execution list"
  isMootExecution :: bool
  readToReschedule :: event
  threadPrios :: "event list"
  lastAdded :: event
  fds :: "bool list"
  shouldHalt :: bool

definition moot :: "driver \<Rightarrow> driver" where "moot d = d\<lparr>isMootExecution := True\<rparr>"
definition unmoot :: "driver \<Rightarrow> driver" where "unmoot d = d\<lparr>isMootExecution := False\<rparr>"

definition getExecution :: "driver \<Rightarrow> execution res" where
  "getExecution d = (if execStack d = [] then Inl Undefined else Inr (last (execStack d)))"

definition with_execution :: "(execution \<Rightarrow> execution res) \<Rightarrow> driver \<Rightarrow> driver res" where
  "with_execution f d = bindR (getExecution d) (\<lambda>x. bindR (f x) (\<lambda>y.
     Inr (d\<lparr>execStack := butlast (execStack d) @ [y]\<rparr>)))"

definition with_graph :: "(exec_graph \<Rightarrow> exec_graph res) \<Rightarrow> driver \<Rightarrow> driver res" where
  "with_graph f = with_execution (\<lambda>x. bindR (f (ex_graph x)) (\<lambda>g. Inr (x\<lparr>ex_graph := g\<rparr>)))"

definition getGraph :: "driver \<Rightarrow> exec_graph res" where
  "getGraph d = bindR (getExecution d) (\<lambda>x. Inr (ex_graph x))"

definition pushExecution :: "execution \<Rightarrow> driver \<Rightarrow> driver" where
  "pushExecution x d = d\<lparr>execStack := execStack d @ [x]\<rparr>"

definition popExecution :: "driver \<Rightarrow> bool \<times> driver" where
  "popExecution d =
     (if execStack d = [] then (False, d)
      else (butlast (execStack d) \<noteq> [], d\<lparr>execStack := butlast (execStack d)\<rparr>))"

text \<open>\<open>rotateExecStack\<close>: the last \<open>n\<close> executions become the first.\<close>

definition rotateExecStack :: "nat \<Rightarrow> driver \<Rightarrow> driver res" where
  "rotateExecStack n d =
     (let xs = execStack d; k = length xs - n in
      if n > length xs then Inl Undefined else Inr (d\<lparr>execStack := drop k xs @ take k xs\<rparr>))"

definition resetExplorationOptions :: "driver \<Rightarrow> driver" where
  "resetExplorationOptions d = d\<lparr>isMootExecution := False, readToReschedule := event_init, threadPrios := []\<rparr>"

definition driver_getNextItem :: "driver \<Rightarrow> ((stamp \<times> revisit) option \<times> driver) res" where
  "driver_getNextItem d = bindR (getExecution d) (\<lambda>x.
     let (r, q) = getNextItem (ex_work x)
     in bindR (with_execution (\<lambda>x. Inr (x\<lparr>ex_work := q\<rparr>)) d) (\<lambda>d1. Inr (r, d1)))"

definition driver_addToWorklist :: "stamp \<Rightarrow> revisit \<Rightarrow> driver \<Rightarrow> driver res" where
  "driver_addToWorklist st it = with_execution (\<lambda>x. Inr (x\<lparr>ex_work := addToWorklist st it (ex_work x)\<rparr>))"

section \<open>Blocking threads\<close>

definition blockThread :: "label \<Rightarrow> exec_graph \<Rightarrow> exec_graph res" where
  "blockThread b g =
     (let t = nat (thread (lb_pos b)) in
      bindR (getLastThreadLabel g t) (\<lambda>l.
      bindR (if lb_pos b = lb_pos l then removeLast t g else Inr g) (addLabelToGraph b)))"

definition unblockThread :: "event \<Rightarrow> exec_graph \<Rightarrow> exec_graph res" where
  "unblockThread p g =
     bindR (getLastThreadLabel g (nat (thread p))) (\<lambda>l.
     bindR (guardR Bug (isBlock (lb_kind l))) (\<lambda>_. removeLast (nat (thread p)) g))"

section \<open>File descriptors\<close>

definition find_first_unset :: "bool list \<Rightarrow> nat option" where
  "find_first_unset b = (let i = length (takeWhile id b) in if i < length b then Some i else None)"

definition markFdAsUsed :: "nat \<Rightarrow> bool list \<Rightarrow> bool list res" where
  "markFdAsUsed fd b = updR (if fd > length b then resize fd False b else b) (int fd) True"

function getFreshFd :: "bool list \<Rightarrow> (nat \<times> bool list) res" where
  "getFreshFd b = (case find_first_unset b of
     None \<Rightarrow> getFreshFd (resize (2 * length b + 1) False b)
   | Some fd \<Rightarrow> bindR (markFdAsUsed fd b) (\<lambda>b'. Inr (fd, b')))"
  by pat_completeness auto

termination getFreshFd
proof (relation "measure (\<lambda>b. if find_first_unset b = None then 1 else 0)")
  fix b :: "bool list"
  assume "find_first_unset b = None"
  then have len: "length (takeWhile id b) = length b"
    by (simp add: find_first_unset_def Let_def length_takeWhile_le le_antisym not_less split: if_splits)
  have "takeWhile id (resize (2 * length b + 1) False b) = b"
  proof -
    have "takeWhile id b = b" using len by (metis length_takeWhile_le takeWhile_eq_take take_all_iff order_refl)
    moreover have "resize (2 * length b + 1) False b = b @ False # replicate (length b) False"
      by (simp add: resize_def)
    ultimately show ?thesis by (auto simp: takeWhile_append takeWhile_eq_all_conv)
  qed
  then show "(resize (2 * length b + 1) False b, b) \<in> measure (\<lambda>b. if find_first_unset b = None then 1 else 0)"
    using \<open>find_first_unset b = None\<close> by (simp add: find_first_unset_def)
qed simp

end
