(* ===== verification/Explorer_Facts.thy ===== *)
theory Explorer_Facts
  imports Explorer
begin

text \<open>
  Facts about the exploration's state: restricting a
  graph to a stamp, repairing its reads, and what happens to the items of the worklist.
\<close>

section \<open>Repairing reads\<close>

text \<open>Graphs with the same events, which may differ in reads-from edges and in the flags of reads.\<close>

definition strip_flags :: "label \<Rightarrow> label" where
  "strip_flags l = (strip_rf l)\<lparr>lb_maximal := True, lb_ipr := False\<rparr>"

definition same_events :: "exec_graph \<Rightarrow> exec_graph \<Rightarrow> bool" where
  "same_events g h \<longleftrightarrow> (\<forall>x. map_option strip_flags (lab_at h x) = map_option strip_flags (lab_at g x)) \<and>
     coherence h = coherence g \<and> insertionOrder h = insertionOrder g \<and> getNumThreads h = getNumThreads g"

lemma same_events_refl [simp]: "same_events g g"
  by (simp add: same_events_def)

lemma same_events_trans: "same_events a b \<Longrightarrow> same_events b c \<Longrightarrow> same_events a c"
  by (simp add: same_events_def)

lemma same_events_rf: "same_but_rf h g \<Longrightarrow> getNumThreads h = getNumThreads g \<Longrightarrow> same_events g h"
proof -
  assume h: "same_but_rf h g" "getNumThreads h = getNumThreads g"
  have "map_option strip_flags p = map_option (\<lambda>l. l\<lparr>lb_maximal := True, lb_ipr := False\<rparr>) (map_option strip_rf p)" for p
    by (cases p) (simp_all add: strip_flags_def)
  with h show ?thesis by (simp add: same_events_def same_but_rf_def)
qed

lemma strip_flags_fields:
  assumes "strip_flags l' = strip_flags l"
  shows "lb_kind l' = lb_kind l" "lb_pos l' = lb_pos l" "lb_stamp l' = lb_stamp l" "lb_addr l' = lb_addr l"
    "lb_revisitable l' = lb_revisitable l" "lb_prefixView l' = lb_prefixView l"
proof -
  note eq = assms [unfolded strip_flags_def strip_rf_def]
  show "lb_kind l' = lb_kind l" using arg_cong [OF eq, of lb_kind] by simp
  show "lb_pos l' = lb_pos l" using arg_cong [OF eq, of lb_pos] by simp
  show "lb_stamp l' = lb_stamp l" using arg_cong [OF eq, of lb_stamp] by simp
  show "lb_addr l' = lb_addr l" using arg_cong [OF eq, of lb_addr] by simp
  show "lb_revisitable l' = lb_revisitable l" using arg_cong [OF eq, of lb_revisitable] by simp
  show "lb_prefixView l' = lb_prefixView l" using arg_cong [OF eq, of lb_prefixView] by simp
qed

lemma same_eventsE:
  assumes "same_events g h" "lab_at h x = Some l'"
  obtains l where "lab_at g x = Some l" "strip_flags l' = strip_flags l"
  using assms by (cases "lab_at g x") (auto simp: same_events_def dest!: spec [of _ x])

lemma same_eventsD:
  assumes "same_events g h" "lab_at g x = Some l"
  obtains l' where "lab_at h x = Some l'" "strip_flags l' = strip_flags l"
  using assms by (cases "lab_at h x") (auto simp: same_events_def dest!: spec [of _ x])

lemma same_events_containsPos: "same_events g h \<Longrightarrow> containsPos h x \<longleftrightarrow> containsPos g x"
  unfolding containsPos_lab by (auto elim: same_eventsE same_eventsD)

lemma same_events_stamp: "same_events g h \<Longrightarrow> stamp_of h x = stamp_of g x"
proof (cases "lab_at h x")
  case None
  assume s: "same_events g h"
  with None have "lab_at g x = None" by (auto simp: same_events_def dest!: spec [of _ x])
  with None show ?thesis by (simp add: stamp_of_def)
next
  case (Some l)
  assume s: "same_events g h"
  from same_eventsE [OF s Some] obtain l0 where "lab_at g x = Some l0" "strip_flags l = strip_flags l0" .
  with Some strip_flags_fields(3) show ?thesis by (metis stamp_of_at)
qed

lemma same_events_threadSize:
  assumes "same_events g h" "t < getNumThreads g"
  shows "getThreadSize h t = getThreadSize g t"
proof -
  have n: "getNumThreads h = getNumThreads g" using assms(1) by (simp add: same_events_def)
  have "i < getThreadSize h t \<longleftrightarrow> i < getThreadSize g t" for i
    using same_events_containsPos [OF assms(1), of "Event (int t) (int i)"] assms(2) n by (simp add: containsPos_nat)
  then show ?thesis by (metis linorder_neqE_nat less_irrefl)
qed

lemma same_events_threads: "same_events g h \<Longrightarrow> threads_ok g \<Longrightarrow> threads_ok h"
  by (rule threads_ok_same [of g]) (simp_all add: same_events_containsPos, simp add: same_events_def)

lemma rf_at_Some: "lab_at g r = Some l \<Longrightarrow> rf_at g r = lb_rf l"
  by (simp add: rf_at_def)

text \<open>The last store of a location, or the initializer.\<close>

definition max_store :: "exec_graph \<Rightarrow> saddr \<Rightarrow> event" where
  "max_store g a = (if co g a = [] then event_init else last (co g a))"

lemma co_max_tracked:
  assumes "a \<in> fst ` set (coherence g)"
  shows "co_max g a = Inr (max_store g a)"
  using assms by (auto simp: co_max_def co_at_def max_store_def co_def m_get_def map_of_eq_None_iff split: option.split)

lemma max_store_target:
  assumes core: "graph_core g"
  shows "rf_target g (max_store g a)"
proof (cases "co g a = []")
  case True
  from core_init [OF core] obtain il where "lab_at g event_init = Some il" "lb_kind il = Init" .
  with True show ?thesis by (simp add: rf_target_def max_store_def at_kind_def)
next
  case False
  then have "last (co g a) \<in> set (co g a)" by simp
  with core have "at_kind isWrite g (last (co g a)) (\<lambda>l. lb_addr l = a)"
    unfolding graph_core_def co_ok_def by blast
  with False show ?thesis by (auto simp: rf_target_def max_store_def at_kind_def)
qed

lemma access_tracked:
  "graph_core g \<Longrightarrow> lab_at g e = Some l \<Longrightarrow> isMemAccess (lb_kind l) \<Longrightarrow> lb_addr l \<in> fst ` set (coherence g)"
  unfolding graph_core_def keys_ok_def by blast

text \<open>A read that gets a store and new flags.\<close>

definition rf_updated :: "exec_graph \<Rightarrow> event \<Rightarrow> event \<Rightarrow> bool \<Rightarrow> bool \<Rightarrow> exec_graph \<Rightarrow> bool" where
  "rf_updated g r w m i h \<longleftrightarrow> graph_core h \<and> same_events g h \<and>
     (\<forall>x. rf_at h x = (if x = r then Some w else rf_at g x)) \<and>
     (\<forall>x l0 l'. lab_at g x = Some l0 \<and> lab_at h x = Some l' \<longrightarrow>
        (lb_maximal l', lb_ipr l') = (if x = r then (m, i) else (lb_maximal l0, lb_ipr l0)))"

lemma set_rf_flags:
  assumes core: "graph_core g" and r: "lab_at g r = Some l" "isRead (lb_kind l)" and t: "rf_target g w"
  obtains g1 l1 where "setRf r (Some w) g = Inr g1" "lab_at g1 r = Some l1" "strip_rf l = strip_rf l1"
    "coherence g1 = coherence g"
    "\<forall>m i. rf_updated g r w m i (put_label r (l1\<lparr>lb_maximal := m, lb_ipr := i\<rparr>) g1)"
proof -
  from setRf_core [OF core r, of "Some w"] t obtain g1 where g1: "setRf r (Some w) g = Inr g1" "graph_core g1"
    "same_but_rf g1 g" "rf_changed g r (Some w) g1" "getNumThreads g1 = getNumThreads g" by auto
  from same_but_rf_at [OF same_but_rf_sym [OF g1(3)] r(1)] obtain l1 where
    l1: "lab_at g1 r = Some l1" "strip_rf l = strip_rf l1" .
  have c: "coherence g1 = coherence g" using g1(3) by (simp add: same_but_rf_def)
  have "rf_updated g r w m i h"
    if h: "h = put_label r (l1\<lparr>lb_maximal := m, lb_ipr := i\<rparr>) g1" for m i h
  proof -
    let ?l = "l1\<lparr>lb_maximal := m, lb_ipr := i\<rparr>"
    have same: "core_same l1 ?l" by (simp add: core_same_def)
    have core': "graph_core h" unfolding h by (rule relabelled_core [OF relabelled_put [OF l1(1) same] g1(2)])
    have at: "lab_at h x = (if x = r then Some ?l else lab_at g1 x)" for x
      using lab_at_pos [OF l1(1)] unfolding h by (simp add: lab_at_put)
    have "map_option strip_flags (lab_at h x) = map_option strip_flags (lab_at g1 x)" for x
      unfolding at using l1(1) by (simp add: strip_flags_def strip_rf_def)
    then have "same_events g1 h" by (simp add: same_events_def h)
    then have ev: "same_events g h" by (rule same_events_trans [OF same_events_rf [OF g1(3,5)]])
    have rf: "rf_at h x = (if x = r then Some w else rf_at g x)" for x
    proof (cases "lab_at g1 x")
      case None
      with same_but_rf_containsPos [OF g1(3), of x] have "lab_at g x = None" by (simp add: lab_at_def split: if_splits)
      with None at [of x] l1(1) r(1) show ?thesis by (auto simp: rf_at_def)
    next
      case (Some lx)
      with g1(4) obtain l0 where "lab_at g x = Some l0" "lb_rf lx = (if x = r then Some w else lb_rf l0)"
        unfolding rf_changed_def by blast
      with Some at [of x] l1(1) show ?thesis by (auto simp: rf_at_def)
    qed
    have fl: "(lb_maximal l', lb_ipr l') = (if x = r then (m, i) else (lb_maximal l0, lb_ipr l0))"
      if "lab_at g x = Some l0" "lab_at h x = Some l'" for x l0 l'
    proof (cases "x = r")
      case True
      with that(2) at [of x] show ?thesis by auto
    next
      case False
      with that(2) at [of x] have "lab_at g1 x = Some l'" by simp
      from same_but_rf_at [OF g1(3) this] that(1) have "strip_rf l' = strip_rf l0" by auto
      note eq = this [unfolded strip_rf_def]
      show ?thesis using False arg_cong [OF eq, of lb_maximal] arg_cong [OF eq, of lb_ipr] by simp
    qed
    from core' ev rf fl show ?thesis unfolding rf_updated_def by blast
  qed
  with g1(1) l1 c show ?thesis using that by blast
qed

lemma repairRead_result:
  assumes core: "graph_core g" and r: "lab_at g r = Some l" "isRead (lb_kind l)"
  shows "\<exists>h. repairRead r g = Inr h \<and> graph_core h \<and> same_events g h \<and>
    (\<forall>x. rf_at h x = (if x = r then Some (max_store g (lb_addr l)) else rf_at g x)) \<and>
    (\<forall>x l0 l'. lab_at g x = Some l0 \<and> lab_at h x = Some l' \<longrightarrow> (lb_maximal l', lb_ipr l') =
       (if x = r then (True, stamp_of g (max_store g (lb_addr l)) > stamp_of g r) else (lb_maximal l0, lb_ipr l0)))"
proof -
  let ?m = "max_store g (lb_addr l)"
  have "lb_addr l \<in> fst ` set (coherence g)"
    using access_tracked [OF core r(1)] pointer_classes(2) [OF r(2)] by simp
  then have m: "co_max g (lb_addr l) = Inr ?m" by (rule co_max_tracked)
  have t: "rf_target g ?m" by (rule max_store_target [OF core])
  then obtain ml where ml: "lab_at g ?m = Some ml" by (auto simp: rf_target_def at_kind_def)
  obtain g1 l1 where g1: "setRf r (Some ?m) g = Inr g1" "lab_at g1 r = Some l1"
    "strip_rf l = strip_rf l1" "coherence g1 = coherence g"
    and h: "\<forall>m i. rf_updated g r ?m m i (put_label r (l1\<lparr>lb_maximal := m, lb_ipr := i\<rparr>) g1)"
    by (rule set_rf_flags [OF core r t])
  have st: "the (lb_stamp ml) > the (lb_stamp l) \<longleftrightarrow> stamp_of g ?m > stamp_of g r" using ml r(1) by (simp add: stamp_of_at)
  have "repairRead r g = Inr (put_label r (l1\<lparr>lb_maximal := True, lb_ipr := stamp_of g ?m > stamp_of g r\<rparr>) g1)"
    using r(1) m ml g1 strip_rf_fields(3) [OF g1(3)] st by (simp add: repairRead_def with_label_def)
  with h show ?thesis unfolding rf_updated_def by blast
qed

definition dangling :: "exec_graph \<Rightarrow> event \<Rightarrow> bool" where
  "dangling g r \<longleftrightarrow> at_kind isRead g r (\<lambda>l. lb_rf l = None)"

definition is_last :: "exec_graph \<Rightarrow> event \<Rightarrow> bool" where
  "is_last g r \<longleftrightarrow> containsPos g r \<and> nat (index r) + 1 = getThreadSize g (nat (thread r))"

text \<open>What the repair of the reads at the end of the first \<open>k\<close> threads has done to position \<open>x\<close>.\<close>

definition repaired_upto :: "exec_graph \<Rightarrow> nat \<Rightarrow> exec_graph \<Rightarrow> bool" where
  "repaired_upto g k h \<longleftrightarrow> graph_core h \<and> same_events g h \<and>
    (\<forall>x. rf_at h x = (if dangling g x \<and> is_last g x \<and> nat (thread x) < k
                     then Some (max_store g (addr_at g x)) else rf_at g x)) \<and>
    (\<forall>x l l'. lab_at g x = Some l \<and> lab_at h x = Some l' \<longrightarrow> (lb_maximal l', lb_ipr l') =
       (if dangling g x \<and> is_last g x \<and> nat (thread x) < k
        then (True, stamp_of g (max_store g (addr_at g x)) > stamp_of g x) else (lb_maximal l, lb_ipr l)))"

lemma last_label_at:
  assumes "threads_ok g" "t < getNumThreads g"
  obtains l where "lab_at g (Event (int t) (int (getThreadSize g t) - 1)) = Some l"
    "is_last g (Event (int t) (int (getThreadSize g t) - 1))" "getLastThreadLabel g t = Inr l"
proof -
  let ?e = "Event (int t) (int (getThreadSize g t) - 1)"
  have "0 < getThreadSize g t" using assms by (simp add: threads_ok_def)
  then have p: "containsPos g ?e" and n: "nat (int (getThreadSize g t) - 1) + 1 = getThreadSize g t"
    using assms(2) by (simp_all add: containsPos_Event)
  from p obtain l where "lab_at g ?e = Some l" by (auto simp: containsPos_lab)
  with that p n show ?thesis by (simp add: is_last_def getLastThreadLabel_def)
qed

lemma is_last_unique: "is_last g x \<Longrightarrow> x = Event (int (nat (thread x))) (int (getThreadSize g (nat (thread x))) - 1)"
  by (cases x) (auto simp: is_last_def containsPos_def)

lemma max_store_same: "same_events g h \<Longrightarrow> max_store h a = max_store g a"
  by (simp add: max_store_def same_events_def co_def)

lemma repair_upto_result:
  assumes g: "graph_ok g" and k: "k \<le> getNumThreads g"
  shows "\<exists>h. foldR (\<lambda>i h. bindR (getLastThreadLabel h i) (\<lambda>l.
     if isRead (lb_kind l) \<and> lb_rf l = None then repairRead (lb_pos l) h else Inr h)) [0..<k] g = Inr h \<and>
     repaired_upto g k h"
  using k
proof (induction k)
  case 0
  have "graph_core g" using g by (simp add: graph_ok_def)
  then show ?case by (auto simp: repaired_upto_def)
next
  case (Suc k)
  let ?f = "\<lambda>i h. bindR (getLastThreadLabel h i) (\<lambda>l.
     if isRead (lb_kind l) \<and> lb_rf l = None then repairRead (lb_pos l) h else Inr h)"
  from Suc obtain h where h: "foldR ?f [0..<k] g = Inr h" and up: "repaired_upto g k h" by auto
  then have core: "graph_core h" and ev: "same_events g h" by (simp_all add: repaired_upto_def)
  have th: "threads_ok g" using g by (simp add: graph_ok_def)
  have kn: "k < getNumThreads g" "k < getNumThreads h" using Suc.prems ev by (simp_all add: same_events_def)
  let ?e = "Event (int k) (int (getThreadSize g k) - 1)"
  have sz: "getThreadSize h k = getThreadSize g k" by (rule same_events_threadSize [OF ev kn(1)])
  from last_label_at [OF th kn(1)] obtain l where l: "lab_at g ?e = Some l" "is_last g ?e" .
  from last_label_at [OF same_events_threads [OF ev th] kn(2)] obtain l' where
    l': "lab_at h ?e = Some l'" "getLastThreadLabel h k = Inr l'" unfolding sz .
  from same_eventsD [OF ev l(1)] l'(1) have same: "strip_flags l' = strip_flags l" by auto
  note fields = strip_flags_fields [OF same]
  have pos: "lb_pos l' = ?e" using core l'(1) by (simp add: graph_core_def pos_ok_def)
  have rf: "lb_rf l' = lb_rf l" using up rf_at_Some [OF l'(1)] rf_at_Some [OF l(1)] by (simp add: repaired_upto_def)
  have only: "is_last g x \<and> nat (thread x) < Suc k \<longleftrightarrow> x = ?e \<or> is_last g x \<and> nat (thread x) < k" for x
    using is_last_unique [of g x] l(2) by (auto simp: less_Suc_eq)
  have not_before: "\<not> nat (thread ?e) < k" by simp
  show ?case
  proof (cases "isRead (lb_kind l') \<and> lb_rf l' = None")
    case False
    with fields(1) rf l(1) have "\<not> dangling g ?e" by (auto simp: dangling_def at_kind_def)
    then have "dangling g x \<and> is_last g x \<and> nat (thread x) < Suc k \<longleftrightarrow> dangling g x \<and> is_last g x \<and> nat (thread x) < k" for x
      using only [of x] by blast
    with up have "repaired_upto g (Suc k) h" unfolding repaired_upto_def by presburger
    with h l'(2) False show ?thesis by (auto simp: foldR_append)
  next
    case True
    with fields(1) rf l(1) have d: "dangling g ?e" by (simp add: dangling_def at_kind_def)
    from repairRead_result [OF core l'(1)] True obtain h' where h': "repairRead ?e h = Inr h'" "graph_core h'"
      "same_events h h'"
      "\<And>x. rf_at h' x = (if x = ?e then Some (max_store h (lb_addr l')) else rf_at h x)"
      "\<And>x l0 l1. lab_at h x = Some l0 \<and> lab_at h' x = Some l1 \<Longrightarrow> (lb_maximal l1, lb_ipr l1) =
         (if x = ?e then (True, stamp_of h (max_store h (lb_addr l')) > stamp_of h ?e) else (lb_maximal l0, lb_ipr l0))"
      by auto
    have m: "max_store h (lb_addr l') = max_store g (addr_at g ?e)"
      using fields(4) l(1) by (simp add: max_store_same [OF ev] addr_at_def)
    have iff: "dangling g x \<and> is_last g x \<and> nat (thread x) < Suc k \<longleftrightarrow>
        x = ?e \<or> dangling g x \<and> is_last g x \<and> nat (thread x) < k" for x
      using only [of x] d by blast
    have rf': "rf_at h' x = (if dangling g x \<and> is_last g x \<and> nat (thread x) < Suc k
        then Some (max_store g (addr_at g x)) else rf_at g x)" for x
      using up h'(4) [of x] m unfolding iff repaired_upto_def by auto
    have fl': "(lb_maximal l2, lb_ipr l2) = (if dangling g x \<and> is_last g x \<and> nat (thread x) < Suc k
        then (True, stamp_of g (max_store g (addr_at g x)) > stamp_of g x) else (lb_maximal l0, lb_ipr l0))"
      if at: "lab_at g x = Some l0" "lab_at h' x = Some l2" for x l0 l2
    proof -
      from same_eventsD [OF ev at(1)] obtain l1 where l1: "lab_at h x = Some l1" .
      from h'(5) [of x l1 l2] l1 at(2) have eq: "(lb_maximal l2, lb_ipr l2) =
        (if x = ?e then (True, stamp_of h (max_store h (lb_addr l')) > stamp_of h ?e) else (lb_maximal l1, lb_ipr l1))" by blast
      from up at(1) l1 have old: "(lb_maximal l1, lb_ipr l1) = (if dangling g x \<and> is_last g x \<and> nat (thread x) < k
        then (True, stamp_of g (max_store g (addr_at g x)) > stamp_of g x) else (lb_maximal l0, lb_ipr l0))"
        unfolding repaired_upto_def by blast
      show ?thesis
      proof (cases "x = ?e")
        case True
        then show ?thesis unfolding iff eq m using same_events_stamp [OF ev] by simp
      next
        case False
        then show ?thesis unfolding iff eq using old by simp
      qed
    qed
    have "repaired_upto g (Suc k) h'"
      unfolding repaired_upto_def using h'(2) same_events_trans [OF ev h'(3)] rf' fl' by blast
    with h l'(2) True pos h'(1) show ?thesis by (auto simp: foldR_append)
  qed
qed

lemma rf_contained:
  assumes "graph_core g" "lab_at g r = Some l" "isRead (lb_kind l)" "lb_rf l = Some w"
  shows "containsPos g w"
proof -
  from assms have "r \<in> set (readers_of g w (lb_addr l))" unfolding graph_core_def rf_ok_def by blast
  then show ?thesis by (cases "lab_at g w") (simp_all add: readers_of_def containsPos_lab)
qed

end
