(* ===== verification/Explorer_Runs.thy ===== *)
theory Explorer_Runs
  imports Explorer_Facts "HOL-Library.Multiset"
begin

text \<open>
  Runs of the exploration on one execution: the graph grows, items are added to the worklist, and the
  item with the greatest stamp is taken, which restricts the execution to that stamp.
\<close>

section \<open>The worklist\<close>

definition sorted_keys :: "('k::linorder \<times> 'v) list \<Rightarrow> bool" where
  "sorted_keys m \<longleftrightarrow> sorted_wrt (<) (map fst m)"

definition pending :: "work_queue \<Rightarrow> (stamp \<times> revisit) multiset" where
  "pending q = mset (concat (map (\<lambda>(s, ws). map (Pair s) ws) q))"

lemma pending_simps [simp]:
  "pending [] = {#}"
  "pending ((s, ws) # q) = mset (map (Pair s) ws) + pending q"
  "pending (q @ r) = pending q + pending r"
  by (simp_all add: pending_def)

lemma pending_rev [simp]: "pending (rev q) = pending q"
  by (induction q) auto

lemma pending_mem: "(s, it) \<in># pending q \<longleftrightarrow> (\<exists>ws. (s, ws) \<in> set q \<and> it \<in> set ws)"
  by (induction q) auto

lemma smap_mod_keys: "set (map fst (smap_mod k d f m)) = insert k (set (map fst m))"
  by (induction k d f m rule: smap_mod.induct) auto

lemma smap_mod_sorted: "sorted_keys m \<Longrightarrow> sorted_keys (smap_mod k d f m)"
proof (induction k d f m rule: smap_mod.induct)
  case (2 k d f j x m)
  show ?case
  proof (cases "k < j")
    case True
    with 2 show ?thesis by (auto simp: sorted_keys_def)
  next
    case False
    have "fst p \<in> insert k (set (map fst m))" if "p \<in> set (smap_mod k d f m)" for p
      using that smap_mod_keys [of k d f m] by (metis image_eqI set_map)
    moreover have "j < y" if "y \<in> insert k (set (map fst m))" "k \<noteq> j" for y
      using that False 2(2) by (auto simp: sorted_keys_def)
    ultimately have "j < fst p" if "p \<in> set (smap_mod k d f m)" "k \<noteq> j" for p using that by blast
    with 2 False show ?thesis by (auto simp: sorted_keys_def)
  qed
qed (simp add: sorted_keys_def)

lemma addToWorklist_pending: "pending (addToWorklist s it q) = add_mset (s, it) (pending q)"
  unfolding addToWorklist_def by (induction q) (auto simp: ws_add_def)

lemma next_item_None: "fst (next_item m) = None \<longleftrightarrow> pending m = {#}"
  by (induction m rule: next_item.induct) auto

lemma next_item_keys: "map fst (snd (next_item m)) = map fst m"
  by (induction m rule: next_item.induct) auto

lemma next_item_Some:
  "fst (next_item m) = Some (s, it) \<Longrightarrow> pending m = add_mset (s, it) (pending (snd (next_item m)))"
proof (induction m rule: next_item.induct)
  case (2 s' ws m)
  show ?case
  proof (cases "ws = []")
    case False
    then obtain ws0 x where "ws = ws0 @ [x]" by (cases ws rule: rev_cases) auto
    with 2 show ?thesis by auto
  qed (use 2 in simp)
qed simp

lemma pending_keys: "(s, it) \<in># pending q \<Longrightarrow> s \<in> set (map fst q)"
  by (induction q) auto

lemma next_item_greatest:
  "sorted_wrt (\<lambda>x y. y < x) (map fst m) \<Longrightarrow> fst (next_item m) = Some (s, it) \<Longrightarrow> (s', it') \<in># pending m \<Longrightarrow> s' \<le> s"
proof (induction m)
  case (Cons p m)
  obtain k ws where p: "p = (k, ws)" by (cases p)
  show ?case
  proof (cases "ws = []")
    case True
    with Cons p show ?thesis by simp
  next
    case False
    with Cons.prems(2) p have "s = k" by simp
    moreover have "s' = k \<or> s' \<in> set (map fst m)" using pending_keys [OF Cons.prems(3)] p by simp
    ultimately show ?thesis using Cons.prems(1) p by auto
  qed
qed simp

lemma sorted_keys_rev: "sorted_keys q \<longleftrightarrow> sorted_wrt (\<lambda>x y. y < x) (map fst (rev q))"
  by (simp add: sorted_keys_def rev_map [symmetric] sorted_wrt_rev)

lemma getNextItem_Some:
  assumes s: "sorted_keys q" and n: "getNextItem q = (Some (s, it), q')"
  shows "sorted_keys q'" "pending q = add_mset (s, it) (pending q')" "map fst q' = map fst q"
    "\<And>s' it'. (s', it') \<in># pending q \<Longrightarrow> s' \<le> s"
proof -
  from n have r: "fst (next_item (rev q)) = Some (s, it)" "q' = rev (snd (next_item (rev q)))"
    by (auto simp: getNextItem_def Let_def split: prod.splits)
  show keys: "map fst q' = map fst q"
    using next_item_keys [of "rev q"] r(2) by (metis rev_map rev_rev_ident)
  then show "sorted_keys q'" using s by (simp add: sorted_keys_def)
  show "pending q = add_mset (s, it) (pending q')" using next_item_Some [OF r(1)] r(2) by simp
  show "s' \<le> s" if "(s', it') \<in># pending q" for s' it'
    using next_item_greatest [of "rev q" s it s' it'] s r(1) that by (simp add: sorted_keys_rev)
qed

lemma getNextItem_None: "getNextItem q = (None, q') \<Longrightarrow> pending q = {#}"
  using next_item_None [of "rev q"] by (auto simp: getNextItem_def Let_def split: prod.splits)

lemma fold_erase: "fold (\<lambda>i q. filter (\<lambda>(s, _). s \<noteq> i) q) is q = filter (\<lambda>(s, _). s \<notin> set is) q"
  by (induction "is" arbitrary: q) (auto simp: filter_filter intro!: filter_cong)

lemma restrictWorklist_filter:
  assumes "sorted_keys q"
  shows "restrictWorklist st q = filter (\<lambda>(s, ws). \<not> (s > st \<and> ws = [])) q"
proof -
  have uniq: "ws = ws'" if "(s, ws) \<in> set q" "(s, ws') \<in> set q" for s ws ws'
    using that assms strict_sorted_distinct [of "map fst q"] eq_key_imp_eq_value [of q s ws ws']
    by (simp add: sorted_keys_def)
  show ?thesis
    unfolding restrictWorklist_def Let_def fold_erase
  proof (rule filter_cong [OF refl])
    fix p assume p: "p \<in> set q"
    obtain s ws where sw: "p = (s, ws)" by (cases p)
    have "s \<in> set (map fst (filter (\<lambda>(s, ws). st < s \<and> ws = []) (rev q))) \<longleftrightarrow> st < s \<and> ws = []"
      using p uniq unfolding sw by force
    then show "(case p of (s, _) \<Rightarrow> s \<notin> set (map fst (filter (\<lambda>(s, ws). st < s \<and> ws = []) (rev q)))) =
        (case p of (s, ws) \<Rightarrow> \<not> (st < s \<and> ws = []))"
      unfolding sw by simp
  qed
qed

lemma restrictWorklist_result:
  assumes "sorted_keys q"
  shows "sorted_keys (restrictWorklist st q)" "pending (restrictWorklist st q) = pending q"
    "(\<And>s it. (s, it) \<in># pending q \<Longrightarrow> s \<le> st) \<Longrightarrow> s \<in> set (map fst (restrictWorklist st q)) \<Longrightarrow> s \<le> st"
proof -
  have eq: "restrictWorklist st q = filter (\<lambda>(s, ws). \<not> (s > st \<and> ws = [])) q"
    by (rule restrictWorklist_filter [OF assms])
  show "sorted_keys (restrictWorklist st q)"
    unfolding eq using assms by (induction q) (auto simp: sorted_keys_def)
  show "pending (restrictWorklist st q) = pending q"
    unfolding eq by (induction q) auto
  assume below: "\<And>s it. (s, it) \<in># pending q \<Longrightarrow> s \<le> st" and s: "s \<in> set (map fst (restrictWorklist st q))"
  from s obtain ws where ws: "(s, ws) \<in> set q" "\<not> (s > st \<and> ws = [])" unfolding eq by auto
  show "s \<le> st"
  proof (cases ws)
    case Nil
    with ws show ?thesis by simp
  next
    case (Cons w ws')
    with ws(1) have "(s, w) \<in># pending q" unfolding pending_mem by (intro exI [of _ ws]) simp
    then show ?thesis by (rule below)
  qed
qed

section \<open>Restricting the graph\<close>

text \<open>An event that a restriction to \<open>st\<close> keeps; the initializer is always there.\<close>

definition event_below :: "exec_graph \<Rightarrow> stamp \<Rightarrow> event \<Rightarrow> bool" where
  "event_below g st e \<longleftrightarrow> containsPos g e \<and> (e = event_init \<or> stamp_of g e \<le> st)"

definition keeps_below :: "stamp \<Rightarrow> exec_graph \<Rightarrow> exec_graph \<Rightarrow> bool" where
  "keeps_below st g h \<longleftrightarrow> (\<forall>x l. lab_at g x = Some l \<and> x \<noteq> event_init \<and> stamp_of g x \<le> st \<longrightarrow>
     (\<exists>l'. lab_at h x = Some l' \<and> lb_kind l' = lb_kind l \<and> lb_addr l' = lb_addr l \<and> stamp_of h x = stamp_of g x)) \<and>
     containsPos h event_init"

lemma keeps_below_event:
  assumes "keeps_below st g h" "event_below g s e" "s \<le> st"
  shows "event_below h s e"
proof (cases "e = event_init")
  case False
  from assms(2) obtain l where "lab_at g e = Some l" by (auto simp: event_below_def containsPos_lab)
  with False assms show ?thesis by (fastforce simp: keeps_below_def event_below_def containsPos_lab)
qed (use assms(1) in \<open>simp add: event_below_def keeps_below_def\<close>)

lemma keeps_below_trans:
  assumes "keeps_below st a b" "keeps_below st b c"
  shows "keeps_below st a c"
  unfolding keeps_below_def
proof (intro conjI allI impI)
  fix x l assume x: "lab_at a x = Some l \<and> x \<noteq> event_init \<and> stamp_of a x \<le> st"
  with assms(1) obtain l' where l': "lab_at b x = Some l'" "lb_kind l' = lb_kind l" "lb_addr l' = lb_addr l"
    "stamp_of b x = stamp_of a x" unfolding keeps_below_def by blast
  with x assms(2) obtain l'' where "lab_at c x = Some l''" "lb_kind l'' = lb_kind l'" "lb_addr l'' = lb_addr l'"
    "stamp_of c x = stamp_of b x" unfolding keeps_below_def by metis
  with l' show "\<exists>l'. lab_at c x = Some l' \<and> lb_kind l' = lb_kind l \<and> lb_addr l' = lb_addr l \<and> stamp_of c x = stamp_of a x"
    by auto
qed (use assms(2) in \<open>simp add: keeps_below_def\<close>)

lemma init_contained: "graph_core g \<Longrightarrow> containsPos g event_init"
  by (auto simp: containsPos_lab elim: core_init)

lemma restricted_keeps_below:
  assumes core: "graph_core g" and r: "restricted has g h" and h: "graph_core h"
    and has: "\<And>x. containsPos g x \<Longrightarrow> stamp_of g x \<le> st \<Longrightarrow> has x"
  shows "keeps_below st g h"
  unfolding keeps_below_def
proof (intro conjI allI impI init_contained [OF h])
  fix x l assume x: "lab_at g x = Some l \<and> x \<noteq> event_init \<and> stamp_of g x \<le> st"
  then have "has x" by (intro has) (auto simp: containsPos_lab)
  from restrictedD [OF r _ this] x obtain l' where l': "lab_at h x = Some l'" "restricts has l l'" by blast
  have "lb_kind l \<noteq> Init" using core_init_only [OF core] x by blast
  with l' x show "\<exists>l'. lab_at h x = Some l' \<and> lb_kind l' = lb_kind l \<and> lb_addr l' = lb_addr l \<and> stamp_of h x = stamp_of g x"
    by (auto simp: restricts_def stamp_of_def)
qed

lemma graph_cut_result:
  assumes g: "graph_ok g"
  shows "\<exists>h. graph_cutToStamp dep st g = Inr h \<and> graph_ok h \<and> keeps_below st g h \<and>
    (\<forall>x. containsPos h x \<longleftrightarrow> containsPos g x \<and> kept_at g st x)"
proof -
  have core: "graph_core g" using g by (simp add: graph_ok_def)
  have kept: "kept_at g st x" if x: "containsPos g x" "stamp_of g x \<le> st" for x
    unfolding kept_at_def
  proof (intro disjI2 exI [of _ "index x"] conjI)
    show "index x \<le> index x" by simp
    show "containsPos g (Event (thread x) (index x))" "stamp_of g (Event (thread x) (index x)) \<le> st" using x by simp_all
  qed
  show ?thesis
  proof (cases dep)
    case True
    from dep_cutToStamp_result [OF g, of st] obtain h d where h: "dep_cutToStamp st g = Inr h" "graph_ok h"
      "restricted (vc_has (VC_DepView d)) g h"
      "\<forall>x. containsPos g x \<longrightarrow> (vc_has (VC_DepView d) x \<longleftrightarrow> index x = 0 \<or> stamp_of g x \<le> st)"
      "\<forall>x. containsPos h x \<longleftrightarrow> containsPos g x \<and> kept_at g st x" by blast
    have "keeps_below st g h"
      using h(2,4) by (intro restricted_keeps_below [OF core h(3)]) (simp_all add: graph_ok_def)
    with h True show ?thesis by (auto simp: graph_cutToStamp_def)
  next
    case False
    from cutToStamp_result [OF g, of st] obtain h v where h: "cutToStamp st g = Inr h" "graph_ok h"
      "restricted (vc_has (VC_View v)) g h"
      "\<forall>x. containsPos g x \<longrightarrow> (vc_has (VC_View v) x \<longleftrightarrow> kept_at g st x)"
      "\<forall>x. containsPos h x \<longleftrightarrow> containsPos g x \<and> kept_at g st x" by blast
    have "keeps_below st g h"
      using h(2,4) kept by (intro restricted_keeps_below [OF core h(3)]) (simp_all add: graph_ok_def)
    with h False show ?thesis by (auto simp: graph_cutToStamp_def)
  qed
qed

lemma relabelled_keeps_below:
  assumes core: "graph_core g" and r: "relabelled g h"
    and s: "\<And>x. containsPos g x \<Longrightarrow> stamp_of g x \<le> st \<Longrightarrow> stamp_of h x = stamp_of g x"
  shows "keeps_below st g h"
  unfolding keeps_below_def
proof (intro conjI allI impI init_contained [OF relabelled_core [OF r core]])
  fix x l assume x: "lab_at g x = Some l \<and> x \<noteq> event_init \<and> stamp_of g x \<le> st"
  then obtain l' where "lab_at h x = Some l'" "core_same l l'" using relabelledD [OF r] by blast
  moreover have "stamp_of h x = stamp_of g x" using x s by (auto simp: containsPos_lab)
  ultimately show "\<exists>l'. lab_at h x = Some l' \<and> lb_kind l' = lb_kind l \<and> lb_addr l' = lb_addr l \<and> stamp_of h x = stamp_of g x"
    by (auto simp: core_same_def)
qed

lemma same_events_keeps_below:
  assumes core: "graph_core g" and e: "same_events g h"
  shows "keeps_below st g h"
  unfolding keeps_below_def
proof (intro conjI allI impI)
  show "containsPos h event_init" using same_events_containsPos [OF e] init_contained [OF core] by simp
  fix x l assume x: "lab_at g x = Some l \<and> x \<noteq> event_init \<and> stamp_of g x \<le> st"
  then obtain l' where "lab_at h x = Some l'" "strip_flags l' = strip_flags l" using same_eventsD [OF e] by blast
  then show "\<exists>l'. lab_at h x = Some l' \<and> lb_kind l' = lb_kind l \<and> lb_addr l' = lb_addr l \<and> stamp_of h x = stamp_of g x"
    using strip_flags_fields same_events_stamp [OF e] by blast
qed

text \<open>The three steps of a restriction: cut, compress, repair.\<close>

lemma restrictGraph_steps:
  assumes g: "graph_ok g"
  obtains h1 h2 h where "graph_cutToStamp dep st g = Inr h1" "graph_ok h1" "keeps_below st g h1"
    "\<And>x. containsPos h1 x \<longleftrightarrow> containsPos g x \<and> kept_at g st x"
    "compressStampsAfter st h1 = Inr h2" "relabelled h1 h2"
    "\<And>x. containsPos h1 x \<Longrightarrow> stamp_of h1 x \<le> st \<Longrightarrow> stamp_of h2 x = stamp_of h1 x"
    "restrictGraph dep st g = Inr h" "graph_ok h2" "graph_ok h" "repaired_upto h2 (getNumThreads h2) h" "keeps_below st g h"
proof -
  from graph_cut_result [OF g, of dep st] obtain h1 where h1: "graph_cutToStamp dep st g = Inr h1" "graph_ok h1"
    "keeps_below st g h1" "\<And>x. containsPos h1 x \<longleftrightarrow> containsPos g x \<and> kept_at g st x" by blast
  have core1: "graph_core h1" using h1(2) by (simp add: graph_ok_def)
  from compress_result [OF core1, of st] obtain h2 where h2: "compressStampsAfter st h1 = Inr h2" "relabelled h1 h2"
    "\<And>x. containsPos h1 x \<Longrightarrow> stamp_of h1 x \<le> st \<Longrightarrow> stamp_of h2 x = stamp_of h1 x" by blast
  have ok2: "graph_ok h2" by (rule relabelled_ok [OF h2(2) h1(2)])
  from repair_upto_result [OF ok2 order_refl] obtain h where h: "repairDanglingReads h2 = Inr h"
    "repaired_upto h2 (getNumThreads h2) h" unfolding repairDanglingReads_def by blast
  have ev: "same_events h2 h" and core: "graph_core h" using h(2) by (simp_all add: repaired_upto_def)
  have "graph_ok h" using core same_events_threads [OF ev] ok2 by (simp add: graph_ok_def)
  moreover have "restrictGraph dep st g = Inr h" using h1(1) h2(1) h(1) by (simp add: restrictGraph_def)
  moreover have "keeps_below st g h"
  proof -
    have "keeps_below st h1 h2" by (rule relabelled_keeps_below [OF core1 h2(2,3)])
    moreover have "keeps_below st h2 h"
      using ok2 by (intro same_events_keeps_below [OF _ ev]) (simp add: graph_ok_def)
    ultimately show ?thesis using h1(3) keeps_below_trans by blast
  qed
  ultimately show ?thesis using that h1 h2 h(2) ok2 by blast
qed

section \<open>Runs\<close>

text \<open>The events that an item speaks about.\<close>

fun item_events :: "revisit \<Rightarrow> event list" where
  "item_events (ReadForwardRevisit r w _) = [r, w]"
| "item_events (WriteForwardRevisit w p) = [w, p]"
| "item_events (OptionalForwardRevisit e) = [e]"
| "item_events RerunForwardRevisit = []"
| "item_events (BackwardRevisit r w _) = [r, w]"
| "item_events (BackwardRevisitHELPER r w _ m) = [r, w, m]"

definition item_below :: "exec_graph \<Rightarrow> stamp \<Rightarrow> revisit \<Rightarrow> bool" where
  "item_below g st it \<longleftrightarrow> list_all (event_below g st) (item_events it)"

text \<open>The graph operations with which an execution grows: not those that go back, and no label over
  a hole.\<close>

fun grows :: "graph_op \<Rightarrow> exec_graph \<Rightarrow> bool" where
  "grows (AddLabel l) g \<longleftrightarrow> \<not> containsPos g (lb_pos l)"
| "grows (Fork l) g \<longleftrightarrow> True"
| "grows (SetRf _ _) g \<longleftrightarrow> True"
| "grows (CoBefore _ _) g \<longleftrightarrow> True"
| "grows (CoAfter _ _) g \<longleftrightarrow> True"
| "grows (CoMoveBefore _ _) g \<longleftrightarrow> True"
| "grows (CoMoveAfter _ _) g \<longleftrightarrow> True"
| "grows (Alloc _ _) g \<longleftrightarrow> True"
| "grows _ g \<longleftrightarrow> False"

inductive explored :: "bool \<Rightarrow> execution \<Rightarrow> bool" for dep where
  start: "explored dep \<lparr>ex_graph = new_graph, ex_work = [], ex_choices = []\<rparr>"
| grow: "explored dep x \<Longrightarrow> enabled a (ex_graph x) \<Longrightarrow> grows a (ex_graph x) \<Longrightarrow> run_op a (ex_graph x) = Inr h \<Longrightarrow>
    explored dep (x\<lparr>ex_graph := h\<rparr>)"
| add: "explored dep x \<Longrightarrow> item_below (ex_graph x) st it \<Longrightarrow>
    explored dep (x\<lparr>ex_work := addToWorklist st it (ex_work x)\<rparr>)"
| choose: "explored dep x \<Longrightarrow> explored dep (x\<lparr>ex_choices := cs\<rparr>)"
| take: "explored dep x \<Longrightarrow> getNextItem (ex_work x) = (Some (st, it), q) \<Longrightarrow>
    restrict_execution dep st (x\<lparr>ex_work := q\<rparr>) = Inr y \<Longrightarrow> explored dep y"

definition execution_ok :: "execution \<Rightarrow> bool" where
  "execution_ok x \<longleftrightarrow> graph_ok (ex_graph x) \<and> sorted_keys (ex_work x) \<and>
     (\<forall>(s, it) \<in># pending (ex_work x). item_below (ex_graph x) s it)"

text \<open>Growing keeps every event and its stamp.\<close>

definition same_stamps :: "exec_graph \<Rightarrow> exec_graph \<Rightarrow> bool" where
  "same_stamps g h \<longleftrightarrow> (\<forall>x l. lab_at g x = Some l \<and> x \<noteq> event_init \<longrightarrow>
     (\<exists>l'. lab_at h x = Some l' \<and> lb_stamp l' = lb_stamp l))"

lemma same_stamps_lab: "lab_at h = lab_at g \<Longrightarrow> same_stamps g h"
  by (simp add: same_stamps_def)

lemma same_stamps_below:
  assumes "same_stamps g h" "graph_core h" "event_below g s e"
  shows "event_below h s e"
proof (cases "e = event_init")
  case True
  with init_contained [OF assms(2)] show ?thesis by (simp add: event_below_def)
next
  case False
  from assms(3) obtain l where l: "lab_at g e = Some l" by (auto simp: event_below_def containsPos_lab)
  with assms(1) False obtain l' where "lab_at h e = Some l'" "lb_stamp l' = lb_stamp l"
    unfolding same_stamps_def by blast
  with l assms(3) show ?thesis by (simp add: event_below_def containsPos_lab stamp_of_def)
qed

lemma addLabel_same_stamps:
  assumes "graph_core g" "free_pos g (lb_pos l)" "fresh_label l" "\<not> containsPos g (lb_pos l)" "addLabelToGraph l g = Inr h"
  shows "same_stamps g h"
proof -
  from addLabel_core [OF assms(1-3)] assms(5) have at: "\<forall>x. x \<noteq> event_init \<longrightarrow>
      lab_at h x = (if x = lb_pos l then Some (stamped g l) else lab_at g x)" by auto
  show ?thesis
    unfolding same_stamps_def
  proof (intro allI impI)
    fix x l' assume x: "lab_at g x = Some l' \<and> x \<noteq> event_init"
    with assms(4) have "x \<noteq> lb_pos l" using lab_at_pos by blast
    with at x show "\<exists>la. lab_at h x = Some la \<and> lb_stamp la = lb_stamp l'" by simp
  qed
qed

lemma addAlloc_same_stamps:
  assumes m: "lab_at g m = Some ml" and a: "lab_at g a = Some al" "a \<noteq> m" and h: "addAlloc (Some a) m g = Inr h"
  shows "same_stamps g h"
proof -
  let ?g1 = "put_label m (ml\<lparr>lb_alloc := Some a\<rparr>) g"
  have "lab_at ?g1 a = Some al" using a lab_at_pos [OF m] by (simp add: lab_at_put)
  with h m have "m \<notin> set (lb_accesses al)" and eq: "h = put_label a (al\<lparr>lb_accesses := lb_accesses al @ [m]\<rparr>) ?g1"
    by (auto simp: addAlloc_def with_label_def addAccess_def split: if_splits)
  have "lab_at h x = (if x = a then Some (al\<lparr>lb_accesses := lb_accesses al @ [m]\<rparr>)
      else if x = m then Some (ml\<lparr>lb_alloc := Some a\<rparr>) else lab_at g x)" for x
    unfolding eq using lab_at_pos [OF m] lab_at_pos [OF a(1)] by (simp add: lab_at_put)
  with m a(1) show ?thesis by (auto simp: same_stamps_def)
qed

lemma grow_same_stamps:
  assumes g: "graph_ok g" and e: "enabled a g" and gr: "grows a g" and h: "run_op a g = Inr h"
  shows "same_stamps g h"
proof -
  have core: "graph_core g" using g by (simp add: graph_ok_def)
  show ?thesis
  proof (cases a)
    case (AddLabel l)
    have "free_pos g (lb_pos l)" "fresh_label l" "\<not> containsPos g (lb_pos l)" "addLabelToGraph l g = Inr h"
      using e gr h AddLabel by simp_all
    then show ?thesis by (rule addLabel_same_stamps [OF core])
  next
    case (Fork l)
    let ?g = "addNewThread g"
    have c: "graph_core ?g" "lab_at ?g = lab_at g" using addNewThread_core [OF core] by simp_all
    have p: "lb_pos l = Event (int (getNumThreads g)) 0" and f: "fresh_label l" using e Fork by simp_all
    have "free_pos ?g (lb_pos l)" unfolding p
      by (simp add: free_pos_def addNewThread_def getNumThreads_def getThreadSize_def)
    moreover have "\<not> containsPos ?g (lb_pos l)" unfolding containsPos_lab c(2) p
      by (simp add: lab_at_def containsPos_Event)
    moreover have "addLabelToGraph l ?g = Inr h" using h Fork by (simp add: forkThread_def)
    ultimately have "same_stamps ?g h" using addLabel_same_stamps [OF c(1) _ f] by blast
    then show ?thesis by (simp add: same_stamps_def c(2))
  next
    case (SetRf r rf)
    with e obtain rl where rl: "lab_at g r = Some rl" "isRead (lb_kind rl)" by (auto simp: at_kind_def)
    have w: "\<And>w. rf = Some w \<Longrightarrow> rf_target g w" using e SetRf by simp
    have "setRf r rf g = Inr h" using h SetRf by simp
    with setRf_core [OF core rl w] have "same_but_rf h g" by fastforce
    then have s: "same_but_rf g h" by (rule same_but_rf_sym)
    show ?thesis
      unfolding same_stamps_def
    proof (intro allI impI)
      fix x l assume "lab_at g x = Some l \<and> x \<noteq> event_init"
      with same_but_rf_at [OF s, of x l] obtain l' where "lab_at h x = Some l'" "strip_rf l = strip_rf l'" by blast
      then show "\<exists>l'. lab_at h x = Some l' \<and> lb_stamp l' = lb_stamp l" using strip_rf_fields(3) by metis
    qed
  next
    case (CoBefore w s)
    with h have "lab_at h = lab_at g" by (auto simp: addStoreToCOBefore_def bindR_Inr_iff split: if_splits)
    then show ?thesis by (rule same_stamps_lab)
  next
    case (CoAfter w p)
    with h have "lab_at h = lab_at g" by (auto simp: addStoreToCOAfter_def bindR_Inr_iff split: if_splits)
    then show ?thesis by (rule same_stamps_lab)
  next
    case (CoMoveBefore w s)
    with h have "lab_at h = lab_at g"
      by (auto simp: moveStoreCOBefore_def addStoreToCOBefore_def removeStoreFromCO_def bindR_Inr_iff split: if_splits)
    then show ?thesis by (rule same_stamps_lab)
  next
    case (CoMoveAfter w p)
    with h have "lab_at h = lab_at g"
      by (auto simp: moveStoreCOAfter_def addStoreToCOAfter_def removeStoreFromCO_def bindR_Inr_iff split: if_splits)
    then show ?thesis by (rule same_stamps_lab)
  next
    case (Alloc b m)
    with e obtain ml al where l: "lab_at g m = Some ml" "isMemAccess (lb_kind ml)" "lab_at g b = Some al" "isMalloc (lb_kind al)"
      by (auto simp: at_kind_def)
    then have "b \<noteq> m" using pointer_classes(5) by fastforce
    with addAlloc_same_stamps l(1,3) h Alloc show ?thesis by simp
  qed (use gr in simp_all)
qed

lemma item_below_mono:
  "(\<And>e. event_below g s e \<Longrightarrow> event_below h s e) \<Longrightarrow> item_below g s it \<Longrightarrow> item_below h s it"
  by (auto simp: item_below_def list_all_iff)

text \<open>Taking the next item: the restriction succeeds, the item's events are in the restricted graph,
  and nothing else is lost from the worklist.\<close>

lemma take_ok:
  assumes ok: "execution_ok x" and n: "getNextItem (ex_work x) = (Some (st, it), q)"
  obtains y where "restrict_execution dep st (x\<lparr>ex_work := q\<rparr>) = Inr y" "execution_ok y" "item_below (ex_graph y) st it"
    "pending (ex_work x) = add_mset (st, it) (pending (ex_work y))"
    "\<And>s. s \<in> set (map fst (ex_work y)) \<Longrightarrow> s \<le> st"
    "\<And>s. s \<in> set (map fst (ex_choices y)) \<Longrightarrow> s \<le> st"
proof -
  have g: "graph_ok (ex_graph x)" and sk: "sorted_keys (ex_work x)"
    and items: "\<And>s i. (s, i) \<in># pending (ex_work x) \<Longrightarrow> item_below (ex_graph x) s i"
    using ok by (auto simp: execution_ok_def)
  from restrictGraph_steps [OF g, where st = st and dep = dep] obtain h where h: "restrictGraph dep st (ex_graph x) = Inr h" "graph_ok h"
    "keeps_below st (ex_graph x) h" by metis
  note next_it = getNextItem_Some [OF sk n]
  let ?y = "\<lparr>ex_graph = h, ex_work = restrictWorklist st q, ex_choices = restrictChoices st (ex_choices x)\<rparr>"
  have run: "restrict_execution dep st (x\<lparr>ex_work := q\<rparr>) = Inr ?y"
    using h(1) by (simp add: restrict_execution_def)
  note rw = restrictWorklist_result [OF next_it(1)]
  have below: "s \<le> st" if "(s, i) \<in># pending q" for s i
    using next_it(4) [of s i] next_it(2) that by simp
  have keep: "item_below h s i" if "(s, i) \<in># pending (ex_work x)" for s i
  proof (rule item_below_mono [OF _ items [OF that]])
    fix e assume "event_below (ex_graph x) s e"
    from keeps_below_event [OF h(3) this next_it(4) [OF that]] show "event_below h s e" .
  qed
  have "execution_ok ?y"
    using h(2) rw(1) keep next_it(2) by (auto simp: execution_ok_def rw(2))
  moreover have "item_below h st it" using keep next_it(2) by simp
  moreover have "s \<le> st" if "s \<in> set (map fst (restrictWorklist st q))" for s
    using rw(3) [OF below that] .
  moreover have "s \<le> st" if "s \<in> set (map fst (restrictChoices st (ex_choices x)))" for s
    using that by (auto simp: restrictChoices_def)
  ultimately show ?thesis using that [OF run] next_it(2) rw(2) by simp
qed

lemma explored_ok: "explored dep x \<Longrightarrow> execution_ok x"
proof (induction rule: explored.induct)
  case start
  show ?case using new_graph_ok by (simp add: execution_ok_def sorted_keys_def)
next
  case (grow x a h)
  have g: "graph_ok (ex_graph x)" using grow by (simp add: execution_ok_def)
  from op_ok [OF g grow(2)] grow(4) have h: "graph_ok h" by auto
  have "event_below h s e" if "event_below (ex_graph x) s e" for s e
    using same_stamps_below [OF grow_same_stamps [OF g grow(2-4)] _ that] h by (simp add: graph_ok_def)
  then have "item_below h s i" if "item_below (ex_graph x) s i" for s i
    using that by (rule item_below_mono)
  with grow.IH h show ?case by (auto simp: execution_ok_def)
next
  case (add x st it)
  then show ?case
    by (auto simp: execution_ok_def addToWorklist_pending) (simp add: addToWorklist_def smap_mod_sorted)
next
  case (choose x cs)
  then show ?case by (simp add: execution_ok_def)
next
  case (take x st it q y)
  from take_ok [OF take.IH take(2), of dep] take(3) show ?case by auto
qed

end
