(* ===== verification/Explorer_Props.thy ===== *)
theory Explorer_Props
  imports Explorer_Runs
begin

text \<open>
  Properties of the exploration: restricting an execution to the stamp of the item that is taken, the
  repair of the reads that the restriction leaves without a store, and the worklist along a run.
\<close>

section \<open>The reads of a restricted graph\<close>

lemma is_last_same:
  assumes e: "same_events g h"
  shows "is_last h r = is_last g r"
proof (cases "containsPos g r")
  case True
  then have "nat (thread r) < getNumThreads g" by (auto simp: containsPos_def)
  with same_events_threadSize [OF e this] same_events_containsPos [OF e] show ?thesis by (simp add: is_last_def)
qed (simp add: is_last_def same_events_containsPos [OF e])

lemma relabelled_rf:
  assumes "relabelled g h"
  shows "rf_at h x = rf_at g x"
proof (cases "lab_at g x")
  case None
  with assms have "lab_at h x = None" by (auto simp: relabelled_def elim!: allE [of _ x])
  with None show ?thesis by (simp add: rf_at_def)
next
  case (Some l)
  from relabelledD [OF assms this] obtain l' where "lab_at h x = Some l'" "core_same l l'" .
  with Some show ?thesis by (simp add: rf_at_def core_same_def)
qed

lemma restrictGraph_contains:
  assumes g: "graph_ok g" and run: "restrictGraph dep st g = Inr h"
  shows "containsPos h x \<longleftrightarrow> containsPos g x \<and> kept_at g st x"
proof -
  from restrictGraph_steps [OF g, where st = st and dep = dep] obtain h1 h2 h' where
    h': "\<And>x. containsPos h1 x \<longleftrightarrow> containsPos g x \<and> kept_at g st x" "relabelled h1 h2"
    "restrictGraph dep st g = Inr h'" "repaired_upto h2 (getNumThreads h2) h'" by metis
  then have "same_events h2 h" using run by (simp add: repaired_upto_def)
  with h'(1,2) show ?thesis by (simp add: same_events_containsPos relabelled_containsPos)
qed

text \<open>A read keeps its store when the store is kept.  Otherwise it reads, if it is the last event of its
  thread, from the last store of its location, and it has no store if it is not.\<close>

lemma restrictGraph_reads:
  assumes g: "graph_ok g" and run: "restrictGraph False st g = Inr h"
    and r: "lab_at g r = Some l" "isRead (lb_kind l)" "containsPos h r"
  shows "rf_at h r = (let p = keep_ptr (kept_at g st) (lb_rf l) in
     if p = None \<and> is_last h r then Some (max_store h (lb_addr l)) else p)"
proof -
  have core: "graph_core g" using g by (simp add: graph_ok_def)
  from restrictGraph_steps [OF g, where st = st and dep = False] obtain h1 h2 h' where
    cut: "graph_cutToStamp False st g = Inr h1" "\<And>x. containsPos h1 x \<longleftrightarrow> containsPos g x \<and> kept_at g st x" and
    h': "relabelled h1 h2" "restrictGraph False st g = Inr h'" "repaired_upto h2 (getNumThreads h2) h'" by metis
  have h2: "relabelled h1 h2" "repaired_upto h2 (getNumThreads h2) h" using h' run by simp_all
  from cutToStamp_result [OF g, of st] cut(1) [unfolded graph_cutToStamp_def] obtain v where v: "restricted (vc_has (VC_View v)) g h1"
    "\<And>x. containsPos g x \<Longrightarrow> vc_has (VC_View v) x \<longleftrightarrow> kept_at g st x" by auto
  have ev: "same_events h2 h" using h2(2) by (simp add: repaired_upto_def)
  have c2: "containsPos h2 r" using r(3) same_events_containsPos [OF ev] by simp
  then have c1: "containsPos h1 r" using relabelled_containsPos [OF h2(1)] by simp
  with cut(2) v(2) have "vc_has (VC_View v) r" by blast
  from restrictedD [OF v(1) r(1) this] obtain l1 where l1: "lab_at h1 r = Some l1"
    "restricts (vc_has (VC_View v)) l l1" by blast
  from relabelledD [OF h2(1) l1(1)] obtain l2 where l2: "lab_at h2 r = Some l2" "core_same l1 l2" .
  have ni: "lb_kind l \<noteq> Init" using r(2) by auto
  have fields: "lb_kind l2 = lb_kind l" "lb_addr l2 = lb_addr l" "lb_rf l2 = keep_ptr (vc_has (VC_View v)) (lb_rf l)"
    using l1(2) l2(2) r(2) ni by (simp_all add: restricts_def core_same_def)
  have p: "keep_ptr (vc_has (VC_View v)) (lb_rf l) = keep_ptr (kept_at g st) (lb_rf l)"
    using v(2) rf_contained [OF core r(1,2)] by (auto simp: keep_ptr_def split: option.splits)
  have d: "dangling h2 r \<longleftrightarrow> keep_ptr (kept_at g st) (lb_rf l) = None"
    using l2(1) fields r(2) p by (simp add: dangling_def at_kind_def)
  have t: "nat (thread r) < getNumThreads h2" using c2 by (auto simp: containsPos_def)
  have "rf_at h r = (if dangling h2 r \<and> is_last h2 r then Some (max_store h2 (lb_addr l)) else rf_at h2 r)"
    using h2(2) t fields(2) l2(1) by (simp add: repaired_upto_def addr_at_def)
  then show ?thesis
    unfolding d is_last_same [OF ev] max_store_same [OF ev] rf_at_Some [OF l2(1)] fields(3) p Let_def .
qed


section \<open>Graphs of the exploration\<close>

text \<open>Every read has a store; stamps grow along a thread; and when a read reads from a store that was added
  after it, the rest of its thread was added after that store.\<close>

definition reads_resolved :: "exec_graph \<Rightarrow> bool" where
  "reads_resolved g \<longleftrightarrow> list_all (\<lambda>r. case lab_at g r of Some l \<Rightarrow> isRead (lb_kind l) \<longrightarrow> lb_rf l \<noteq> None | None \<Rightarrow> True)
     (positions g)"

definition po_stamped :: "exec_graph \<Rightarrow> bool" where
  "po_stamped g \<longleftrightarrow> list_all (\<lambda>x. list_all (\<lambda>y.
     thread x = thread y \<and> 0 < index x \<and> index x < index y \<longrightarrow> stamp_of g x < stamp_of g y) (positions g)) (positions g)"

definition late_rf :: "exec_graph \<Rightarrow> bool" where
  "late_rf g \<longleftrightarrow> list_all (\<lambda>r. case rf_at g r of None \<Rightarrow> True | Some w \<Rightarrow>
     index w \<noteq> 0 \<and> stamp_of g r < stamp_of g w \<longrightarrow>
     list_all (\<lambda>y. thread r = thread y \<and> index r < index y \<longrightarrow> stamp_of g w < stamp_of g y) (positions g)) (positions g)"

lemma reads_resolved_iff:
  "reads_resolved g \<longleftrightarrow> (\<forall>r l. lab_at g r = Some l \<and> isRead (lb_kind l) \<longrightarrow> lb_rf l \<noteq> None)"
  unfolding reads_resolved_def list_all_iff Ball_def positions_mem containsPos_lab by (auto split: option.splits)

lemma po_stampedD:
  "po_stamped g \<Longrightarrow> containsPos g x \<Longrightarrow> containsPos g y \<Longrightarrow> thread x = thread y \<Longrightarrow> 0 < index x \<Longrightarrow>
    index x < index y \<Longrightarrow> stamp_of g x < stamp_of g y"
  unfolding po_stamped_def list_all_iff Ball_def positions_mem by blast

lemma late_rfD:
  assumes "late_rf g" "lab_at g r = Some l" "lb_rf l = Some w" "index w \<noteq> 0" "stamp_of g r < stamp_of g w"
    "containsPos g y" "thread y = thread r" "index r < index y"
  shows "stamp_of g w < stamp_of g y"
proof -
  have "containsPos g r" using assms(2) by (simp add: containsPos_lab)
  moreover have "rf_at g r = Some w" using assms(2,3) by (simp add: rf_at_Some)
  ultimately have "index w \<noteq> 0 \<and> stamp_of g r < stamp_of g w \<longrightarrow>
      (\<forall>y. containsPos g y \<longrightarrow> thread r = thread y \<and> index r < index y \<longrightarrow> stamp_of g w < stamp_of g y)"
    using assms(1) unfolding late_rf_def list_all_iff Ball_def positions_mem by (auto split: option.splits)
  with assms(4-8) show ?thesis by simp
qed

lemma read_index:
  assumes "graph_core g" "lab_at g r = Some l" "isRead (lb_kind l)"
  shows "index r \<noteq> 0"
proof
  assume "index r = 0"
  then have "lab_at g (Event (thread r) 0) = Some l" using assms(2) by (cases r) simp
  then have "isThreadStart (lb_kind l)" using assms(1) unfolding graph_core_def start_ok_def by blast
  then have "\<not> isMemAccess (lb_kind l)" by (rule kind_disjoint)
  with pointer_classes(2) [OF assms(3)] show False by simp
qed

lemma kept_stamp:
  assumes p: "po_stamped g" and x: "containsPos g x" "index x \<noteq> 0"
  shows "kept_at g st x \<longleftrightarrow> stamp_of g x \<le> st"
proof
  assume "stamp_of g x \<le> st"
  with x show "kept_at g st x" unfolding kept_at_def by (intro disjI2 exI [of _ "index x"]) simp
next
  assume "kept_at g st x"
  with x obtain j where j: "index x \<le> j" "containsPos g (Event (thread x) j)" "stamp_of g (Event (thread x) j) \<le> st"
    unfolding kept_at_def by blast
  have "0 < index x" using x by (auto simp: containsPos_def)
  show "stamp_of g x \<le> st"
  proof (cases "index x = j")
    case True
    then have "Event (thread x) j = x" by (cases x) simp
    with j(3) show ?thesis by simp
  next
    case False
    with j(1) \<open>0 < index x\<close> po_stampedD [OF p x(1) j(2)] have "stamp_of g x < stamp_of g (Event (thread x) j)" by simp
    with j(3) show ?thesis by simp
  qed
qed

lemma last_by_next:
  assumes "containsPos h x" "\<not> containsPos h (Event (thread x) (index x + 1))"
  shows "is_last h x"
  using assms by (auto simp: is_last_def containsPos_def nat_add_distrib)

lemma dangling_last:
  assumes g: "graph_ok g" and p: "po_stamped g" and lr: "late_rf g" and run: "restrictGraph False st g = Inr h"
    and r: "lab_at g r = Some l" "isRead (lb_kind l)" "containsPos h r" "lb_rf l = Some w" "\<not> kept_at g st w"
  shows "is_last h r"
proof (rule last_by_next [OF r(3)], rule notI)
  let ?n = "Event (thread r) (index r + 1)"
  assume n: "containsPos h ?n"
  have core: "graph_core g" using g by (simp add: graph_ok_def)
  have kept: "containsPos g x \<and> kept_at g st x" if "containsPos h x" for x
    using restrictGraph_contains [OF g run] that by simp
  have cw: "containsPos g w" by (rule rf_contained [OF core r(1,2,4)])
  have w: "index w \<noteq> 0" using r(5) by (auto simp: kept_at_def)
  with r(5) have sw: "st < stamp_of g w" using kept_stamp [OF p cw] by simp
  have ir: "index r \<noteq> 0" by (rule read_index [OF core r(1,2)])
  have "stamp_of g r \<le> st" using kept_stamp [OF p _ ir] kept [OF r(3)] by blast
  then have "stamp_of g w < stamp_of g ?n"
    using late_rfD [OF lr r(1,4) w, of ?n] sw kept [OF n] by simp
  moreover have "0 \<le> index r" using r(3) by (auto simp: containsPos_def)
  then have "stamp_of g ?n \<le> st" using kept [OF n] kept_stamp [OF p, of ?n] by simp
  ultimately show False using sw by simp
qed


text \<open>A read that was added before the store it reads from.\<close>

definition revisited_ops :: "graph_op list" where
  "revisited_ops =
     [AddLabel (access_label CasRead (Event 0 1) Acquire 8),
      Fork (start_label (Event 1 0) event_init),
      AddLabel (access_label UnlockWrite (Event 1 1) Release 8), CoAfter (Event 1 1) event_init,
      SetRf (Event 0 1) (Some (Event 1 1))]"

definition revisited_graph :: exec_graph where
  "revisited_graph = the (run_ops revisited_ops new_graph)"

lemma revisited_run: "run_ops revisited_ops new_graph \<noteq> None"
  by code_simp

lemma revisited_ok: "graph_ok revisited_graph"
proof -
  from revisited_run obtain g where g: "run_ops revisited_ops new_graph = Some g" by blast
  with run_ops_reachable [OF g reachable.new] reachable_ok show ?thesis by (simp add: revisited_graph_def)
qed

text \<open>C14: Restricting an execution graph to a stamp never leaves a read without a store.  In a well-formed
  graph whose reads all have a store, whose stamps grow along threads, and in which a thread continues
  after a read only once the store of the read is there, \<open>restrictGraph\<close> succeeds; the result is
  well-formed; every one of its reads has a store, which is the old one if its stamp is at most the
  bound and otherwise the last store of the location; and the events that go are those after the stamp.\<close>

theorem restricted_reads_resolved:
  assumes g: "graph_ok g" and r: "reads_resolved g" and p: "po_stamped g" and lr: "late_rf g"
  shows "\<exists>h. restrictGraph False st g = Inr h \<and> graph_ok h \<and> reads_resolved h \<and>
    (\<forall>x. containsPos h x \<longleftrightarrow> containsPos g x \<and> (index x = 0 \<or> stamp_of g x \<le> st)) \<and>
    (\<forall>x l w. lab_at h x = Some l \<and> isRead (lb_kind l) \<and> rf_at g x = Some w \<longrightarrow>
       lb_rf l = Some (if index w = 0 \<or> stamp_of g w \<le> st then w else max_store h (lb_addr l)))"
proof -
  have core: "graph_core g" using g by (simp add: graph_ok_def)
  from restrictGraph_steps [OF g, where st = st and dep = False] obtain h where
    h: "restrictGraph False st g = Inr h" "graph_ok h" "keeps_below st g h" by metis
  have kept: "kept_at g st x \<longleftrightarrow> index x = 0 \<or> stamp_of g x \<le> st" if "containsPos g x" for x
    using kept_stamp [OF p that] by (cases "index x = 0") (simp_all add: kept_at_def)
  have has: "containsPos h x \<longleftrightarrow> containsPos g x \<and> (index x = 0 \<or> stamp_of g x \<le> st)" for x
    using restrictGraph_contains [OF g h(1), of x] kept [of x] by blast
  have reads: "lb_rf l = Some (if index w = 0 \<or> stamp_of g w \<le> st then w else max_store h (lb_addr l)) \<and>
      rf_at g x = Some w" if x: "lab_at h x = Some l" "isRead (lb_kind l)" and w: "w = the (rf_at g x)" for x l w
  proof -
    have hc: "containsPos h x" using x(1) by (simp add: containsPos_lab)
    have ix: "index x \<noteq> 0" using read_index x h(2) by (auto simp: graph_ok_def)
    then have "x \<noteq> event_init" by (auto simp: event_init_def)
    from hc has obtain l0 where l0: "lab_at g x = Some l0" by (auto simp: containsPos_lab)
    have "stamp_of g x \<le> st" using has hc ix by blast
    with h(3) l0 \<open>x \<noteq> event_init\<close> x(1) have same: "lb_kind l0 = lb_kind l" "lb_addr l0 = lb_addr l"
      unfolding keeps_below_def by force+
    with r l0 x(2) have rf: "lb_rf l0 = Some w" using w by (fastforce simp: reads_resolved_iff rf_at_Some)
    have cw: "containsPos g w" using rf_contained [OF core l0 _ rf] same x(2) by simp
    have rd: "isRead (lb_kind l0)" using same x(2) by simp
    note res = restrictGraph_reads [OF g h(1) l0 rd hc]
    show ?thesis
    proof (cases "kept_at g st w")
      case True
      with res rf rf_at_Some [OF x(1)] kept [OF cw] rf_at_Some [OF l0] show ?thesis by (auto simp: keep_ptr_def Let_def)
    next
      case False
      with res rf rf_at_Some [OF x(1)] kept [OF cw] rf_at_Some [OF l0] dangling_last [OF g p lr h(1) l0 rd hc rf False] same
      show ?thesis by (auto simp: keep_ptr_def Let_def)
    qed
  qed
  have "reads_resolved h" using reads by (auto simp: reads_resolved_iff)
  moreover have "lb_rf l = Some (if index w = 0 \<or> stamp_of g w \<le> st then w else max_store h (lb_addr l))"
    if "lab_at h x = Some l \<and> isRead (lb_kind l) \<and> rf_at g x = Some w" for x l w
    using reads [of x l w] that by simp
  ultimately show ?thesis using h(1,2) has by blast
qed

theorem restricted_reads_resolved_witness:
  "\<exists>h. restrictGraph False 2 revisited_graph = Inr h \<and> reads_resolved h \<and> rf_at revisited_graph (Event 0 1) = Some (Event 1 1) \<and>
    containsPos h (Event 0 1) \<and> \<not> containsPos h (Event 1 1)"
proof -
  have c: "reads_resolved revisited_graph" "po_stamped revisited_graph" "late_rf revisited_graph" by code_simp+
  have at: "containsPos revisited_graph (Event 0 1)" "stamp_of revisited_graph (Event 0 1) \<le> 2"
    "\<not> stamp_of revisited_graph (Event 1 1) \<le> 2" "rf_at revisited_graph (Event 0 1) = Some (Event 1 1)" by code_simp+
  from restricted_reads_resolved [OF revisited_ok c, of 2] at show ?thesis by fastforce
qed

section \<open>The worklist\<close>

text \<open>The items in the order in which the driver takes them when no new ones are added.\<close>

fun drain :: "nat \<Rightarrow> work_queue \<Rightarrow> (stamp \<times> revisit) list" where
  "drain 0 q = []"
| "drain (Suc n) q = (case getNextItem q of
     (None, _) \<Rightarrow> []
   | (Some (st, it), q1) \<Rightarrow> (st, it) # drain n (restrictWorklist st q1))"

text \<open>The worklist loses nothing.  From a worklist whose stamps are in order, as many steps as there
  are pending items return exactly the pending items, each as often as it was added, and the stamps never
  grow; after these steps nothing is pending.\<close>

theorem drain_delivers:
  assumes "sorted_keys q"
  shows "mset (drain (size (pending q)) q) = pending q \<and> sorted_wrt (\<ge>) (map fst (drain (size (pending q)) q)) \<and>
    drain (Suc (size (pending q))) q = drain (size (pending q)) q"
  using assms
proof (induction "size (pending q)" arbitrary: q)
  case 0
  then have "pending q = {#}" by simp
  moreover have "fst (getNextItem q) = None"
  proof (rule ccontr)
    assume "fst (getNextItem q) \<noteq> None"
    then obtain s it q' where "getNextItem q = (Some (s, it), q')" by (cases "getNextItem q") auto
    from getNextItem_Some(2) [OF 0(2) this] \<open>pending q = {#}\<close> show False by simp
  qed
  ultimately show ?case by (cases "getNextItem q") simp
next
  case (Suc n)
  show ?case
  proof (cases "getNextItem q")
    case (Pair r q1)
    show ?thesis
    proof (cases r)
      case None
      with Pair getNextItem_None have "pending q = {#}" by blast
      with Suc(2) show ?thesis by simp
    next
      case (Some p)
      obtain s it where p: "p = (s, it)" by (cases p)
      note next_it = getNextItem_Some [OF Suc.prems Pair [unfolded Some p]]
      note rw = restrictWorklist_result [OF next_it(1), of s]
      let ?q = "restrictWorklist s q1"
      have n: "n = size (pending ?q)" using Suc(2) next_it(2) rw(2) by simp
      note IH = Suc(1) [OF n rw(1), folded n]
      have eq: "size (pending q) = Suc n" using Suc(2) by simp
      have "fst x \<le> s" if "x \<in> set (drain n ?q)" for x
      proof -
        have "x \<in># pending q" using IH rw(2) next_it(2) that by (metis insert_noteq_member set_mset_mset union_iff add_mset_add_single)
        with next_it(4) [of "fst x" "snd x"] show ?thesis by simp
      qed
      then show ?thesis
        unfolding eq drain.simps(2) [of "Suc n"] drain.simps(2) [of n]
        using Pair Some p IH next_it(2) rw(2) by simp
    qed
  qed
qed

theorem drain_delivers_witness:
  "drain 3 [(1, [RerunForwardRevisit]), (4, [OptionalForwardRevisit (Event 0 1), WriteForwardRevisit (Event 0 2) (Event 0 1)])] =
     [(4, WriteForwardRevisit (Event 0 2) (Event 0 1)), (4, OptionalForwardRevisit (Event 0 1)), (1, RerunForwardRevisit)] \<and>
   sorted_wrt (\<ge>) (map fst (drain 3 [(1, [RerunForwardRevisit]),
     (4, [OptionalForwardRevisit (Event 0 1), WriteForwardRevisit (Event 0 2) (Event 0 1)])]))"
proof -
  let ?q = "[(1, [RerunForwardRevisit]), (4, [OptionalForwardRevisit (Event 0 1), WriteForwardRevisit (Event 0 2) (Event 0 1)])] :: work_queue"
  have q: "sorted_keys ?q" "size (pending ?q) = 3" by (simp_all add: sorted_keys_def)
  from drain_delivers [OF q(1)] have "sorted_wrt (\<ge>) (map fst (drain 3 ?q))" unfolding q(2) by blast
  moreover have "drain 3 ?q = [(4, WriteForwardRevisit (Event 0 2) (Event 0 1)), (4, OptionalForwardRevisit (Event 0 1)), (1, RerunForwardRevisit)]"
    by code_simp
  ultimately show ?thesis by blast
qed







end
