(* ===== verification/Graph_Iterators.thy ===== *)
theory Graph_Iterators
  imports Graph_Queries
begin

text \<open>
  The relations of an execution graph as the consistency checkers see them
  (\<open>ExecutionGraph/GraphIterators.hpp\<close>): the immediate successors and predecessors of a label in
  program order, thread creation and joining, reads-from, coherence, from-read, same location and
  allocation.  A null pointer is \<open>None\<close>, a range is a list in iteration order.
\<close>

definition getFirstThreadLabel :: "exec_graph \<Rightarrow> int \<Rightarrow> event option res" where
  "getFirstThreadLabel g t = bindR (getEventLabel g (Event t 0)) (\<lambda>l.
     Inr (if isThreadStart (lb_kind l) then Some (Event t 0) else None))"

definition po_imm_succ :: "exec_graph \<Rightarrow> label \<Rightarrow> event option" where
  "po_imm_succ g l = getNextLabel g l"

definition po_imm_pred :: "exec_graph \<Rightarrow> label \<Rightarrow> event option" where
  "po_imm_pred g l = getPreviousLabel g l"

definition tc_succ :: "exec_graph \<Rightarrow> label \<Rightarrow> event option res" where
  "tc_succ g l = (if lb_kind l = ThreadCreate then getFirstThreadLabel g (int (lb_childId l)) else Inr None)"

definition tc_pred :: "exec_graph \<Rightarrow> label \<Rightarrow> event option res" where
  "tc_pred g l =
     (if isThreadStart (lb_kind l) then
        bindR (getEventLabel g (lb_parentCreate l)) (\<lambda>p.
          Inr (if lb_kind p = ThreadCreate then Some (lb_parentCreate l) else None))
      else Inr None)"

definition tj_succ :: "label \<Rightarrow> event option" where
  "tj_succ l = (if isThreadFinish (lb_kind l) then lb_parentJoin l else None)"

definition tj_pred :: "exec_graph \<Rightarrow> label \<Rightarrow> event option res" where
  "tj_pred g l =
     (if lb_kind l = ThreadJoin then
        bindR (getLastThreadLabel g (lb_childId l)) (\<lambda>e.
          Inr (if isThreadFinish (lb_kind e) then Some (lb_pos e) else None))
      else Inr None)"

definition rf_succs :: "label \<Rightarrow> event list" where
  "rf_succs l = (if isWrite (lb_kind l) then lb_readers l else [])"

definition rf_pred :: "label \<Rightarrow> event option" where
  "rf_pred l = (if isRead (lb_kind l) then lb_rf l else None)"

definition co_imm_succ_of :: "exec_graph \<Rightarrow> label \<Rightarrow> event option res" where
  "co_imm_succ_of g l = (if isWrite (lb_kind l) then co_imm_succ g l else Inr None)"

definition co_imm_pred_of :: "exec_graph \<Rightarrow> label \<Rightarrow> event option res" where
  "co_imm_pred_of g l = (if isWrite (lb_kind l) then co_imm_pred g l else Inr None)"

definition fr_imm_succ_of :: "exec_graph \<Rightarrow> label \<Rightarrow> event option res" where
  "fr_imm_succ_of g l = (if isRead (lb_kind l) then fr_imm_succ g l else Inr None)"

text \<open>The coherence order behind and in front of a store (\<open>co_succ_begin\<close>, \<open>co_pred_begin\<close>); the
  reverse iteration starts at the store.\<close>

fun after_in :: "event \<Rightarrow> event list \<Rightarrow> event list" where
  "after_in w [] = []"
| "after_in w (x # xs) = (if x = w then xs else after_in w xs)"

definition co_succs :: "exec_graph \<Rightarrow> label \<Rightarrow> event list res" where
  "co_succs g wl = bindR (co_at g (lb_addr wl)) (\<lambda>ws.
     if lb_pos wl \<in> set ws then Inr (after_in (lb_pos wl) ws) else Inl Undefined)"

definition co_preds :: "exec_graph \<Rightarrow> label \<Rightarrow> event list res" where
  "co_preds g wl = bindR (co_at g (lb_addr wl)) (\<lambda>ws.
     if lb_pos wl \<in> set ws then Inr (after_in (lb_pos wl) (rev ws)) else Inl Undefined)"

text \<open>\<open>samelocs\<close>: the other labels of the graph at the location of a label.  Only a memory access has a
  location here.\<close>

definition at_location :: "saddr \<Rightarrow> event \<Rightarrow> label \<Rightarrow> bool" where
  "at_location a p l \<longleftrightarrow>
     (if isMemAccess (lb_kind l) then lb_pos l \<noteq> p \<and> lb_addr l = a
      else if isMalloc (lb_kind l) then lb_pos l \<noteq> p \<and> malloc_contains l a
      else isFree (lb_kind l) \<and> lb_pos l \<noteq> p \<and> free_contains l a)"

definition samelocs :: "exec_graph \<Rightarrow> label \<Rightarrow> event list" where
  "samelocs g l =
     (if hasLocation (lb_kind l) then filter (label_sat (at_location (lb_addr l) (lb_pos l)) g) (insertionOrder g)
      else [])"

definition alloc_succs :: "label \<Rightarrow> event list" where
  "alloc_succs l = (if isMalloc (lb_kind l) then lb_accesses l else [])"

definition alloc_pred :: "label \<Rightarrow> event option" where
  "alloc_pred l = (if isMemAccess (lb_kind l) then lb_alloc l else None)"

definition free_succ :: "label \<Rightarrow> event option" where
  "free_succ l = (if isMalloc (lb_kind l) then lb_free l else None)"

definition free_pred :: "label \<Rightarrow> event option" where
  "free_pred l = (if isFree (lb_kind l) then lb_alloc l else None)"

section \<open>Visitors\<close>

text \<open>
  The visitors of the checkers return whether to go on, and update a state: a view, the nodes seen, the
  label of a counterexample.  \<open>visit_seq\<close> runs steps until one says no; \<open>visit_opt\<close> visits the label
  behind a pointer that is not null; \<open>visit_list\<close> those of a range.
\<close>

type_synonym 's visit = "'s \<Rightarrow> (bool \<times> 's) res"

fun visit_seq :: "'s visit list \<Rightarrow> 's visit" where
  "visit_seq [] s = Inr (True, s)"
| "visit_seq (f # fs) s = bindR (f s) (\<lambda>(b, s1). if b then visit_seq fs s1 else Inr (False, s1))"

fun visit_list :: "exec_graph \<Rightarrow> event list \<Rightarrow> (label \<Rightarrow> 's visit) \<Rightarrow> 's visit" where
  "visit_list g [] f s = Inr (True, s)"
| "visit_list g (e # es) f s = bindR (deref g e) (\<lambda>l. bindR (f l s) (\<lambda>(b, s1).
     if b then visit_list g es f s1 else Inr (False, s1)))"

definition visit_opt :: "exec_graph \<Rightarrow> event option res \<Rightarrow> (label \<Rightarrow> 's visit) \<Rightarrow> 's visit" where
  "visit_opt g p f s = bindR p (\<lambda>e. visit_list g (case e of None \<Rightarrow> [] | Some e \<Rightarrow> [e]) f s)"

text \<open>A step under a condition, and a label under a condition.\<close>

definition visit_if :: "bool \<Rightarrow> 's visit \<Rightarrow> 's visit" where
  "visit_if b f s = (if b then f s else Inr (True, s))"

text \<open>\<open>std::any_of\<close> and \<open>std::find_if\<close> with a test that can fail; a position past the end is the length.\<close>

fun anyR :: "('a \<Rightarrow> bool res) \<Rightarrow> 'a list \<Rightarrow> bool res" where
  "anyR f [] = Inr False"
| "anyR f (x # xs) = bindR (f x) (\<lambda>b. if b then Inr True else anyR f xs)"

lemma anyR_total: "(\<And>x. x \<in> set xs \<Longrightarrow> f x = Inr (P x)) \<Longrightarrow> anyR f xs = Inr (list_ex P xs)"
  by (induction xs) auto

fun find_ifR :: "('a \<Rightarrow> bool res) \<Rightarrow> 'a list \<Rightarrow> nat res" where
  "find_ifR f [] = Inr 0"
| "find_ifR f (x # xs) = bindR (f x) (\<lambda>b. if b then Inr 0 else bindR (find_ifR f xs) (\<lambda>n. Inr (Suc n)))"

fun filterR :: "('a \<Rightarrow> bool res) \<Rightarrow> 'a list \<Rightarrow> 'a list res" where
  "filterR f [] = Inr []"
| "filterR f (x # xs) = bindR (f x) (\<lambda>b. bindR (filterR f xs) (\<lambda>ys. Inr (if b then x # ys else ys)))"

fun mapR :: "('a \<Rightarrow> 'b res) \<Rightarrow> 'a list \<Rightarrow> 'b list res" where
  "mapR f [] = Inr []"
| "mapR f (x # xs) = bindR (f x) (\<lambda>y. bindR (mapR f xs) (\<lambda>ys. Inr (y # ys)))"

end
