(* ===== verification/SC_Checker.thy ===== *)
theory SC_Checker
  imports Graph_Iterators
begin

text \<open>
  The consistency checker for sequential consistency (\<open>Verification/Consistency/SCChecker.cpp\<close>,
  \<open>SCChecker.hpp\<close>): the views it caches in a label, the stores a read may read from, the places of a
  store in coherence, the loads a store may revisit, the search for a cycle, and the error checks.

  \<open>cexLab\<close> is the state of the error checks: the label that shows the error.
\<close>

definition isDepTracking :: bool where "isDepTracking = False"

section \<open>Cached views\<close>

definition lab_view :: "label \<Rightarrow> nat \<Rightarrow> view res" where
  "lab_view l i = nthR (lb_views l)
     (if event_isInitializer (lb_pos l) \<or> lb_kind l = Empty then 0 else int i)"

definition visitCalc57_0 :: "exec_graph \<Rightarrow> label \<Rightarrow> view visit" where
  "visitCalc57_0 g l v = Inr (True, v)"

definition visitCalc57_1 :: "exec_graph \<Rightarrow> label \<Rightarrow> view visit" where
  "visitCalc57_1 g l v = bindR (lab_view l 0) (\<lambda>w. bindR (view_update v w) (visitCalc57_0 g l))"

definition visitCalc57_add :: "exec_graph \<Rightarrow> label \<Rightarrow> view visit" where
  "visitCalc57_add g p v = bindR (view_updateIdx v (lb_pos p)) (visitCalc57_0 g p)"

definition visitCalc57_3 :: "exec_graph \<Rightarrow> label \<Rightarrow> view visit" where
  "visitCalc57_3 g l = visit_seq
     [visit_opt g (tc_pred g l) (visitCalc57_add g),
      visit_opt g (tj_pred g l) (visitCalc57_add g),
      visit_opt g (Inr (rf_pred l)) (visitCalc57_add g),
      visit_opt g (tc_pred g l) (visitCalc57_1 g),
      visit_opt g (tj_pred g l) (visitCalc57_1 g),
      visit_opt g (Inr (rf_pred l)) (visitCalc57_1 g)]"

definition visitCalc57_2 :: "exec_graph \<Rightarrow> label \<Rightarrow> view visit" where
  "visitCalc57_2 g l = visit_seq
     [visit_opt g (Inr (po_imm_pred g l)) (visitCalc57_add g),
      visit_opt g (Inr (po_imm_pred g l)) (visitCalc57_3 g),
      visit_opt g (Inr (po_imm_pred g l)) (visitCalc57_1 g)]"

definition visitCalc57 :: "exec_graph \<Rightarrow> label \<Rightarrow> view res" where
  "visitCalc57 g l = bindR (visitCalc57_2 g l []) (\<lambda>(b, v). Inr v)"

definition checkCalc57 :: "exec_graph \<Rightarrow> label \<Rightarrow> view res" where
  "checkCalc57 g l = visitCalc57 g l"

definition visitCalc62_0 :: "exec_graph \<Rightarrow> label \<Rightarrow> view visit" where
  "visitCalc62_0 g l v = Inr (True, v)"

definition visitCalc62_1 :: "exec_graph \<Rightarrow> label \<Rightarrow> view visit" where
  "visitCalc62_1 g l v = bindR (lab_view l 0) (\<lambda>w. bindR (view_update v w) (visitCalc62_0 g l))"

definition visitCalc62_add :: "exec_graph \<Rightarrow> label \<Rightarrow> view visit" where
  "visitCalc62_add g p v = bindR (view_updateIdx v (lb_pos p)) (visitCalc62_0 g p)"

definition visitCalc62_3 :: "exec_graph \<Rightarrow> label \<Rightarrow> view visit" where
  "visitCalc62_3 g l = visit_seq
     [visit_opt g (tc_pred g l) (visitCalc62_add g),
      visit_opt g (tj_pred g l) (visitCalc62_add g),
      visit_opt g (Inr (rf_pred l)) (visitCalc62_add g),
      visit_opt g (tc_pred g l) (visitCalc62_1 g),
      visit_opt g (tj_pred g l) (visitCalc62_1 g),
      visit_opt g (Inr (rf_pred l)) (visitCalc62_1 g)]"

definition visitCalc62_2 :: "exec_graph \<Rightarrow> label \<Rightarrow> view visit" where
  "visitCalc62_2 g l = visit_seq
     [visit_opt g (Inr (po_imm_pred g l)) (visitCalc62_add g),
      visit_opt g (Inr (po_imm_pred g l)) (visitCalc62_1 g),
      visit_opt g (Inr (po_imm_pred g l)) (visitCalc62_3 g)]"

definition visitCalc62 :: "exec_graph \<Rightarrow> label \<Rightarrow> view res" where
  "visitCalc62 g l = bindR (visitCalc62_2 g l []) (\<lambda>(b, v). Inr v)"

definition checkCalc62 :: "exec_graph \<Rightarrow> label \<Rightarrow> view res" where
  "checkCalc62 g l = visitCalc62 g l"

definition calculateSaved :: "label \<Rightarrow> label" where "calculateSaved l = l"

definition calculateViews :: "exec_graph \<Rightarrow> label \<Rightarrow> label res" where
  "calculateViews g l = bindR (checkCalc57 g l) (\<lambda>v. bindR (checkCalc62 g l) (\<lambda>w.
     Inr (l\<lparr>lb_views := lb_views l @ [v, w]\<rparr>)))"

definition getPrefixViewOf :: "label \<Rightarrow> vector_clock res" where
  "getPrefixViewOf l = (case lb_prefixView l of None \<Rightarrow> Inl Undefined | Some v \<Rightarrow> Inr v)"

text \<open>\<open>calcPPoRfBefore\<close>: the label itself, and what its predecessor has in its prefix or gets from the store
  it reads from, the thread's creation, or the thread it joins.\<close>

definition calcPPoRfBefore :: "exec_graph \<Rightarrow> label \<Rightarrow> view res" where
  "calcPPoRfBefore g l =
     (let join = (\<lambda>p v. bindR (getPrefixViewOf p) (\<lambda>w. vc_update v w)) in
      bindR (vc_updateIdx (VC_View []) (lb_pos l)) (\<lambda>v0.
      bindR (case getPreviousLabel g l of
        None \<Rightarrow> Inr v0
      | Some pp \<Rightarrow> bindR (deref g pp) (\<lambda>p.
          bindR (join p v0) (\<lambda>v1.
          bindR (if isRead (lb_kind p) then
                   (case lb_rf p of None \<Rightarrow> Inl Undefined | Some w \<Rightarrow> bindR (deref g w) (\<lambda>wl. join wl v1))
                 else Inr v1) (\<lambda>v2.
          bindR (if isThreadStart (lb_kind p) then bindR (getEventLabel g (lb_parentCreate p)) (\<lambda>c. join c v2)
                 else Inr v2) (\<lambda>v3.
          if lb_kind p = ThreadJoin then bindR (getLastThreadLabel g (lb_childId p)) (\<lambda>e. join e v3)
          else Inr v3)))))
      (\<lambda>v. case v of VC_View w \<Rightarrow> Inr w | VC_DepView _ \<Rightarrow> Inl Bug)))"

definition calculatePrefixView :: "exec_graph \<Rightarrow> label \<Rightarrow> vector_clock res" where
  "calculatePrefixView g l = bindR (calcPPoRfBefore g l) (\<lambda>v. Inr (VC_View v))"

definition updateMMViews :: "exec_graph \<Rightarrow> label \<Rightarrow> label res" where
  "updateMMViews g l = bindR (calculateViews g l) (\<lambda>l1. bindR (calculatePrefixView g (calculateSaved l1)) (\<lambda>v.
     Inr ((calculateSaved l1)\<lparr>lb_prefixView := Some v\<rparr>)))"

definition getHbView :: "label \<Rightarrow> view res" where
  "getHbView l = lab_view l 0"

section \<open>Coherent stores, placings and revisits\<close>

definition isWriteRfBefore :: "exec_graph \<Rightarrow> event \<Rightarrow> event \<Rightarrow> bool res" where
  "isWriteRfBefore g a b =
     bindR (getEventLabel g b) (\<lambda>bl. bindR (lab_view bl 0) (\<lambda>before.
     bindR (view_contains before a) (\<lambda>c. if c then Inr True else
     bindR (getEventLabel g a) (\<lambda>wl. bindR (guardR Bug (isWrite (lb_kind wl))) (\<lambda>_.
       anyR (view_contains before) (lb_readers wl))))))"

definition getInitRfsAtLoc :: "exec_graph \<Rightarrow> saddr \<Rightarrow> event list res" where
  "getInitRfsAtLoc g a = bindR (deref g event_init) (\<lambda>il.
     case map_of (lb_initRfs il) a of Some rs \<Rightarrow> Inr rs | None \<Rightarrow> Inl Out_of_range)"

definition view_at :: "exec_graph \<Rightarrow> event \<Rightarrow> view res" where
  "view_at g e = bindR (deref g e) (\<lambda>l. lab_view l 0)"

definition isHbOptRfBefore :: "exec_graph \<Rightarrow> event \<Rightarrow> event \<Rightarrow> bool res" where
  "isHbOptRfBefore g e w =
     bindR (getEventLabel g w) (\<lambda>wl. bindR (guardR Bug (isWrite (lb_kind wl))) (\<lambda>_.
     bindR (lab_view wl 0) (\<lambda>v. bindR (view_contains v e) (\<lambda>c. if c then Inr True else
       anyR (\<lambda>r. bindR (view_at g r) (\<lambda>u. view_contains u e)) (lb_readers wl)))))"

text \<open>An iterator into the coherence order of a location is the number of stores in front of it.\<close>

definition splitLocMOBefore :: "exec_graph \<Rightarrow> saddr \<Rightarrow> event \<Rightarrow> nat res" where
  "splitLocMOBefore g a e = bindR (co_at g a) (\<lambda>ws.
     bindR (find_ifR (\<lambda>w. isWriteRfBefore g w e) (rev ws)) (\<lambda>k. Inr (length ws - k)))"

definition splitLocMOAfterHb :: "exec_graph \<Rightarrow> saddr \<Rightarrow> event \<Rightarrow> nat res" where
  "splitLocMOAfterHb g a r =
     bindR (getInitRfsAtLoc g a) (\<lambda>rs.
     bindR (anyR (\<lambda>x. bindR (getEventLabel g x) (\<lambda>l. bindR (lab_view l 0) (\<lambda>v. view_contains v r))) rs) (\<lambda>b.
     if b then Inr 0 else
     bindR (co_at g a) (\<lambda>ws. bindR (find_ifR (isHbOptRfBefore g r) ws) (\<lambda>k.
       if k = length ws then Inr k
       else bindR (view_at g (ws ! k)) (\<lambda>v. bindR (view_contains v r) (\<lambda>c. Inr (if c then k else Suc k)))))))"

definition splitLocMOAfter :: "exec_graph \<Rightarrow> saddr \<Rightarrow> event \<Rightarrow> nat res" where
  "splitLocMOAfter g a e = bindR (co_at g a) (find_ifR (isHbOptRfBefore g e))"

definition getCoherentStores :: "exec_graph \<Rightarrow> saddr \<Rightarrow> event \<Rightarrow> event list res" where
  "getCoherentStores g a r =
     bindR (co_at g a) (\<lambda>ws.
     let comax = (if ws = [] then event_init else last ws) in
     if thread comax = thread r \<and> index comax < index r then Inr [comax]
     else bindR (splitLocMOBefore g a r) (\<lambda>b.
       bindR (if isDepTracking then splitLocMOAfterHb g a r else Inr (length ws)) (\<lambda>e.
         if e < b then Inl Undefined
         else Inr ((if b = 0 then event_init else ws ! (b - 1)) # drop b (take e ws)))))"

definition readers_at :: "exec_graph \<Rightarrow> event \<Rightarrow> event list res" where
  "readers_at g w = bindR (deref g w) (\<lambda>l. Inr (lb_readers l))"

definition getMOOptRfAfter :: "exec_graph \<Rightarrow> label \<Rightarrow> event list res" where
  "getMOOptRfAfter g sl = bindR (co_succs g sl) (\<lambda>ws.
     bindR (mapR (readers_at g) ws) (\<lambda>rss. Inr (ws @ concat rss)))"

definition getMOInvOptRfAfter :: "exec_graph \<Rightarrow> label \<Rightarrow> event list res" where
  "getMOInvOptRfAfter g sl = bindR (co_preds g sl) (\<lambda>ws.
     bindR (mapR (readers_at g) ws) (\<lambda>rss.
     bindR (getInitRfsAtLoc g (lb_addr sl)) (\<lambda>irs. Inr (ws @ concat rss @ irs))))"

definition getRevisitableFrom :: "exec_graph \<Rightarrow> label \<Rightarrow> vector_clock \<Rightarrow> label \<Rightarrow> event list res" where
  "getRevisitableFrom g sl pporf coPred =
     bindR (getPendingRMW g sl) (\<lambda>pending.
     bindR (filterR (\<lambda>r. bindR (vc_contains pporf r) (\<lambda>b.
              Inr (\<not> b \<and> label_sat (\<lambda>l. lb_addr l = lb_addr sl \<and> lb_revisitable l \<and> lb_maximal l) g r)))
            (lb_readers coPred)) (\<lambda>loads. Inr (drop_younger g pending loads)))"

text \<open>The most recent store in coherence other than the new one.\<close>

definition prev_co_max :: "exec_graph \<Rightarrow> label \<Rightarrow> event option res" where
  "prev_co_max g sl = bindR (co_at g (lb_addr sl)) (\<lambda>ws. Inr (List.find (\<lambda>w. w \<noteq> lb_pos sl) (rev ws)))"

definition getCoherentRevisits :: "exec_graph \<Rightarrow> label \<Rightarrow> vector_clock \<Rightarrow> event list res" where
  "getCoherentRevisits g sl pporf =
     bindR (prev_co_max g sl) (\<lambda>pm.
     bindR (case pm of None \<Rightarrow> Inr False | Some w \<Rightarrow> vc_contains pporf w) (\<lambda>fast.
     bindR (if fast then bindR (deref g (the pm)) (getRevisitableFrom g sl pporf)
            else getRevisitable g sl pporf) (\<lambda>ls.
     bindR (co_max g (lb_addr sl)) (\<lambda>m.
     if \<not> isDepTracking \<and> lb_pos sl = m then Inr ls
     else bindR (getMOOptRfAfter g sl) (\<lambda>after.
       bindR (filterR (\<lambda>e. bindR (getEventLabel g e) (\<lambda>l. bindR (lab_view l 0) (\<lambda>before.
                bindR (anyR (view_contains before) after) (\<lambda>b. Inr (\<not> b))))) ls) (\<lambda>ls1.
       if \<not> isDepTracking then Inr ls1
       else bindR (filterR (\<lambda>e. bindR (view_at g (lb_pos sl)) (\<lambda>v. bindR (view_contains v e) (\<lambda>b. Inr (\<not> b)))) ls1) (\<lambda>ls2.
         bindR (getMOInvOptRfAfter g sl) (\<lambda>inv.
           filterR (\<lambda>e. bindR (getEventLabel g e) (\<lambda>l.
             bindR (getViewFromStamp (the (lb_stamp l)) g) (\<lambda>v0. bindR (vc_update v0 pporf) (\<lambda>v.
             bindR (anyR (\<lambda>ev. bindR (vc_contains v ev) (\<lambda>c. if \<not> c then Inr False
                      else bindR (view_at g ev) (\<lambda>u. view_contains u e))) inv) (\<lambda>b. Inr (\<not> b)))))) ls2))))))))"

text \<open>The store in front of a position of the coherence order, or the initializer.\<close>

definition pred_at :: "event list \<Rightarrow> nat \<Rightarrow> event" where
  "pred_at ws i = (if i = 0 then event_init else ws ! (i - 1))"

definition getCoherentPlacings :: "exec_graph \<Rightarrow> saddr \<Rightarrow> event \<Rightarrow> bool \<Rightarrow> event list res" where
  "getCoherentPlacings g a w isRMW =
     (if isRMW then bindR (getEventLabel g (event_prev w)) (\<lambda>rl.
        bindR (guardR Bug (isRead (lb_kind rl))) (\<lambda>_.
        case lb_rf rl of None \<Rightarrow> Inl Bug | Some rf \<Rightarrow> Inr [rf]))
      else bindR (co_at g a) (\<lambda>ws. bindR (splitLocMOBefore g a w) (\<lambda>b.
        bindR (if isDepTracking then splitLocMOAfter g a w else Inr (length ws)) (\<lambda>e.
        if e < b then Inl Undefined
        else bindR (filterR (\<lambda>i. bindR (deref g (ws ! i)) (\<lambda>sl. Inr (\<not> write_isRMW sl))) [b..<e]) (\<lambda>is.
          Inr (map (pred_at ws) is @ [pred_at ws e]))))))"

section \<open>The searches for cycles\<close>

datatype node_status = unseen | entered | left

text \<open>The visited nodes, indexed by stamp, with the value of the counter of accepting states.\<close>

record search =
  nodes :: "(32 word \<times> node_status) list"
  accepting :: "32 word"

definition new_search :: "exec_graph \<Rightarrow> search" where
  "new_search g = \<lparr>nodes = replicate (unat (timestamp g + 1)) (0, unseen), accepting = 0\<rparr>"

definition node_at :: "label \<Rightarrow> search \<Rightarrow> (32 word \<times> node_status) res" where
  "node_at l s = nthR (nodes s) (uint (the (lb_stamp l)))"

definition set_node :: "node_status \<Rightarrow> label \<Rightarrow> search \<Rightarrow> search res" where
  "set_node st l s = bindR (updR (nodes s) (uint (the (lb_stamp l))) (accepting s, st)) (\<lambda>ns.
     Inr (s\<lparr>nodes := ns\<rparr>))"

text \<open>A successor: an unseen node is visited, a node that was entered and not left closes a cycle.\<close>

definition try_node :: "(label \<Rightarrow> search visit) \<Rightarrow> label \<Rightarrow> search visit" where
  "try_node f l s = bindR (node_at l s) (\<lambda>(c, st).
     if st = unseen then f l s
     else if st = entered \<and> (accepting s > c \<or> True) then Inr (False, s)
     else Inr (True, s))"

text \<open>The depth of the recursion is bounded by \<open>n\<close>; every node is entered at most once, so the number of
  nodes is enough.\<close>

fun visitConsAcyclic1_0 :: "nat \<Rightarrow> exec_graph \<Rightarrow> label \<Rightarrow> search visit" where
  "visitConsAcyclic1_0 0 g l s = Inl Diverges"
| "visitConsAcyclic1_0 (Suc n) g l s =
     (let s0 = s\<lparr>accepting := accepting s + 1\<rparr>; try = try_node (visitConsAcyclic1_0 n g) in
      bindR (set_node entered l s0) (\<lambda>s1.
      bindR (visit_seq
        [visit_opt g (tc_succ g l) try,
         visit_opt g (Inr (tj_succ l)) try,
         visit_list g (rf_succs l) try,
         visit_opt g (co_imm_succ_of g l) try,
         visit_opt g (fr_imm_succ_of g l) try,
         visit_opt g (Inr (po_imm_succ g l)) try] s1) (\<lambda>(b, s2).
      if \<not> b then Inr (False, s2)
      else let s3 = s2\<lparr>accepting := accepting s2 - 1\<rparr> in bindR (set_node left l s3) (\<lambda>s4. Inr (True, s4)))))"

definition search_fuel :: "exec_graph \<Rightarrow> nat" where
  "search_fuel g = length (nodes (new_search g))"

definition visit_from :: "(label \<Rightarrow> search visit) \<Rightarrow> label \<Rightarrow> search visit" where
  "visit_from f l s = bindR (node_at l s) (\<lambda>(c, st). if st \<noteq> unseen then Inr (True, s) else f l s)"

definition visitConsAcyclic1 :: "exec_graph \<Rightarrow> label \<Rightarrow> bool res" where
  "visitConsAcyclic1 g l =
     bindR (visit_from (visitConsAcyclic1_0 (search_fuel g) g) l (new_search g)) (\<lambda>(b, s). Inr b)"

definition visitConsAcyclic1Full :: "exec_graph \<Rightarrow> bool res" where
  "visitConsAcyclic1Full g =
     bindR (visit_list g (insertionOrder g) (visit_from (visitConsAcyclic1_0 (search_fuel g) g)) (new_search g))
       (\<lambda>(b, s). Inr b)"

definition checkConsAcyclic1 :: "exec_graph \<Rightarrow> label \<Rightarrow> bool res" where
  "checkConsAcyclic1 g l = visitConsAcyclic1 g l"

definition isConsistent :: "exec_graph \<Rightarrow> label \<Rightarrow> bool res" where
  "isConsistent g l = checkConsAcyclic1 g l"

text \<open>Coherence: the search for a cycle along program order whose steps may also take a
  synchronization edge behind it.\<close>

definition visitCoherence_0 :: "label \<Rightarrow> search visit" where
  "visitCoherence_0 l s = Inr (True, s\<lparr>accepting := accepting s + 1 - 1\<rparr>)"

definition visitCoherence_2 :: "exec_graph \<Rightarrow> (label \<Rightarrow> search visit) \<Rightarrow> label \<Rightarrow> search visit" where
  "visitCoherence_2 g f l = visit_seq
     [visit_opt g (tc_pred g l) (try_node f),
      visit_opt g (tj_pred g l) (try_node f),
      visit_opt g (Inr (rf_pred l)) (try_node f),
      visit_opt g (tc_pred g l) visitCoherence_0,
      visit_opt g (tj_pred g l) visitCoherence_0,
      visit_opt g (Inr (rf_pred l)) visitCoherence_0]"

fun visitCoherence_1 :: "nat \<Rightarrow> exec_graph \<Rightarrow> label \<Rightarrow> search visit" where
  "visitCoherence_1 0 g l s = Inl Diverges"
| "visitCoherence_1 (Suc n) g l s =
     bindR (set_node entered l s) (\<lambda>s1.
     bindR (visit_seq
       [visit_opt g (Inr (po_imm_pred g l)) (visitCoherence_2 g (visitCoherence_1 n g)),
        visit_opt g (Inr (po_imm_pred g l)) (try_node (visitCoherence_1 n g)),
        visit_opt g (Inr (po_imm_pred g l)) visitCoherence_0] s1) (\<lambda>(b, s2).
     if \<not> b then Inr (False, s2) else bindR (set_node left l s2) (\<lambda>s3. Inr (True, s3))))"

definition visitCoherenceFull :: "exec_graph \<Rightarrow> bool res" where
  "visitCoherenceFull g =
     bindR (visit_list g (insertionOrder g) (visit_from (visitCoherence_1 (search_fuel g) g)) (new_search g))
       (\<lambda>(b, s). Inr b)"

section \<open>Error checks\<close>

datatype verification_error =
    VE_NonErrorBegin | VE_OK | VE_WWRace | VE_UnfreedMemory | VE_NonErrorLast
  | VE_Safety | VE_Recovery | VE_Liveness | VE_RaceNotAtomic | VE_RaceFreeMalloc | VE_FreeNonMalloc
  | VE_DoubleFree | VE_Allocation | VE_InvalidAccessBegin | VE_UninitializedMem | VE_AccessNonMalloc
  | VE_AccessFreed | VE_InvalidAccessEnd | VE_InvalidCreate | VE_InvalidJoin | VE_InvalidUnlock
  | VE_InvalidBInit | VE_InvalidRecoveryCall | VE_InvalidTruncate | VE_Annotation | VE_MixedSize
  | VE_SystemError

type_synonym cex = "event option"

text \<open>The last state of the views checks: the label must be in the view.\<close>

definition must_contain :: "view \<Rightarrow> label \<Rightarrow> cex visit" where
  "must_contain v l c = bindR (view_contains v (lb_pos l)) (\<lambda>b.
     Inr (if \<not> b then (False, Some (lb_pos l)) else (True, c)))"

definition visit_when :: "(label \<Rightarrow> bool res) \<Rightarrow> (label \<Rightarrow> 's visit) \<Rightarrow> label \<Rightarrow> 's visit" where
  "visit_when P f l s = bindR (P l) (\<lambda>b. if b then f l s else Inr (True, s))"

definition of_kind :: "(label_kind \<Rightarrow> bool) \<Rightarrow> label \<Rightarrow> bool res" where
  "of_kind P l = Inr (P (lb_kind l))"

definition plain_free :: "label_kind \<Rightarrow> bool" where
  "plain_free k \<longleftrightarrow> isFree k \<and> k \<noteq> HpRetire"

definition unprotected :: "exec_graph \<Rightarrow> label \<Rightarrow> bool res" where
  "unprotected g l =
     (if isMemAccess (lb_kind l) \<and> saddr_isDynamic (lb_addr l)
      then bindR (isHazptrProtected g l) (\<lambda>b. Inr (\<not> b)) else Inr False)"

text \<open>The checks without a view keep two vectors of accepting states, which nothing sets; a position set
  in the first and not in the second gives the label with that stamp.\<close>

definition accepting_gap :: "exec_graph \<Rightarrow> bool list \<Rightarrow> bool list \<Rightarrow> cex visit" where
  "accepting_gap g lhs rhs c = (case List.find (\<lambda>i. lhs ! i \<and> \<not> rhs ! i) [0..<length lhs] of
     None \<Rightarrow> Inr (True, c)
   | Some i \<Rightarrow> (case List.find (label_sat (\<lambda>l. unat (the (lb_stamp l)) = i) g) (insertionOrder g) of
       None \<Rightarrow> Inl Undefined | Some e \<Rightarrow> Inr (False, Some e)))"

definition no_accepting :: "exec_graph \<Rightarrow> bool list" where
  "no_accepting g = replicate (unat (timestamp g + 1)) False"

definition check_unless :: "cex visit \<Rightarrow> (label \<Rightarrow> bool) \<Rightarrow> label \<Rightarrow> cex visit" where
  "check_unless unless err l c = bindR (unless c) (\<lambda>(b, c1). Inr (if b then True else err l, c1))"

definition visitError2 :: "label \<Rightarrow> bool" where "visitError2 l = False"
definition visitLHSUnlessError2_0 :: "view \<Rightarrow> label \<Rightarrow> cex visit" where
  "visitLHSUnlessError2_0 v l = must_contain v l"
definition visitLHSUnlessError2_1 :: "exec_graph \<Rightarrow> view \<Rightarrow> label \<Rightarrow> cex visit" where
  "visitLHSUnlessError2_1 g v l = visit_opt g (Inr (alloc_pred l)) (visitLHSUnlessError2_0 v)"
definition visitUnlessError2 :: "exec_graph \<Rightarrow> label \<Rightarrow> cex visit" where
  "visitUnlessError2 g l c = bindR (lab_view l 0) (\<lambda>v. visitLHSUnlessError2_1 g v l c)"
definition checkError2 :: "exec_graph \<Rightarrow> label \<Rightarrow> cex visit" where
  "checkError2 g l = check_unless (visitUnlessError2 g l) visitError2 l"

definition visitError3 :: "label \<Rightarrow> bool" where "visitError3 l = False"
definition visitLHSUnlessError3_0 :: "label \<Rightarrow> cex visit" where
  "visitLHSUnlessError3_0 l c = Inr (False, c)"
definition visitLHSUnlessError3_1 :: "exec_graph \<Rightarrow> label \<Rightarrow> cex visit" where
  "visitLHSUnlessError3_1 g l = visit_seq
     [visit_if (plain_free (lb_kind l)) (visit_list g (samelocs g l) (visit_when (of_kind plain_free) visitLHSUnlessError3_0)),
      visit_if (plain_free (lb_kind l)) (visit_list g (samelocs g l) (visit_when (of_kind (\<lambda>k. k = HpRetire)) visitLHSUnlessError3_0)),
      visit_if (lb_kind l = HpRetire) (visit_list g (samelocs g l) (visit_when (of_kind plain_free) visitLHSUnlessError3_0)),
      visit_if (lb_kind l = HpRetire) (visit_list g (samelocs g l) (visit_when (of_kind (\<lambda>k. k = HpRetire)) visitLHSUnlessError3_0))]"
definition visitUnlessError3 :: "exec_graph \<Rightarrow> label \<Rightarrow> cex visit" where
  "visitUnlessError3 g l = visit_seq [visitLHSUnlessError3_1 g l, accepting_gap g (no_accepting g) (no_accepting g)]"
definition checkError3 :: "exec_graph \<Rightarrow> label \<Rightarrow> cex visit" where
  "checkError3 g l = check_unless (visitUnlessError3 g l) visitError3 l"

definition visitError4 :: "label \<Rightarrow> bool" where "visitError4 l = False"
definition visitLHSUnlessError4_0 :: "view \<Rightarrow> label \<Rightarrow> cex visit" where
  "visitLHSUnlessError4_0 v l = must_contain v l"
definition visitLHSUnlessError4_1 :: "exec_graph \<Rightarrow> view \<Rightarrow> label \<Rightarrow> cex visit" where
  "visitLHSUnlessError4_1 g v l = visit_list g (alloc_succs l) (visitLHSUnlessError4_0 v)"
definition visitLHSUnlessError4_2 :: "exec_graph \<Rightarrow> view \<Rightarrow> label \<Rightarrow> cex visit" where
  "visitLHSUnlessError4_2 g v l = visit_seq
     [visit_if (plain_free (lb_kind l)) (visit_opt g (Inr (free_pred l)) (visitLHSUnlessError4_0 v)),
      visit_if (plain_free (lb_kind l)) (visit_opt g (Inr (free_pred l)) (visitLHSUnlessError4_1 g v))]"
definition visitUnlessError4 :: "exec_graph \<Rightarrow> label \<Rightarrow> cex visit" where
  "visitUnlessError4 g l c = bindR (lab_view l 0) (\<lambda>v. visitLHSUnlessError4_2 g v l c)"
definition checkError4 :: "exec_graph \<Rightarrow> label \<Rightarrow> cex visit" where
  "checkError4 g l = check_unless (visitUnlessError4 g l) visitError4 l"

definition visitError5 :: "label \<Rightarrow> bool" where "visitError5 l = False"
definition visitLHSUnlessError5_0 :: "label \<Rightarrow> cex visit" where
  "visitLHSUnlessError5_0 l c = Inr (False, c)"
definition visitLHSUnlessError5_1 :: "exec_graph \<Rightarrow> label \<Rightarrow> cex visit" where
  "visitLHSUnlessError5_1 g l = visit_opt g (Inr (free_succ l)) (visit_when (of_kind plain_free) visitLHSUnlessError5_0)"
definition visitLHSUnlessError5_2 :: "exec_graph \<Rightarrow> label \<Rightarrow> cex visit" where
  "visitLHSUnlessError5_2 g l = visit_opt g (Inr (alloc_pred l)) (visitLHSUnlessError5_1 g)"
definition visitUnlessError5 :: "exec_graph \<Rightarrow> label \<Rightarrow> cex visit" where
  "visitUnlessError5 g l = visit_seq [visitLHSUnlessError5_2 g l, accepting_gap g (no_accepting g) (no_accepting g)]"
definition checkError5 :: "exec_graph \<Rightarrow> label \<Rightarrow> cex visit" where
  "checkError5 g l = check_unless (visitUnlessError5 g l) visitError5 l"

definition visitError6 :: "label \<Rightarrow> bool" where "visitError6 l = False"
definition visitLHSUnlessError6_0 :: "view \<Rightarrow> label \<Rightarrow> cex visit" where
  "visitLHSUnlessError6_0 v l = must_contain v l"
definition visitLHSUnlessError6_1 :: "exec_graph \<Rightarrow> view \<Rightarrow> label \<Rightarrow> cex visit" where
  "visitLHSUnlessError6_1 g v l = visit_list g (alloc_succs l) (visit_when (unprotected g) (visitLHSUnlessError6_0 v))"
definition visitLHSUnlessError6_2 :: "exec_graph \<Rightarrow> view \<Rightarrow> label \<Rightarrow> cex visit" where
  "visitLHSUnlessError6_2 g v l = visit_seq
     [visit_if (lb_kind l = HpRetire) (visit_opt g (Inr (free_pred l)) (visitLHSUnlessError6_1 g v)),
      visit_if (lb_kind l = HpRetire) (visit_opt g (Inr (free_pred l)) (visit_when (unprotected g) (visitLHSUnlessError6_0 v)))]"
definition visitUnlessError6 :: "exec_graph \<Rightarrow> label \<Rightarrow> cex visit" where
  "visitUnlessError6 g l c = bindR (lab_view l 0) (\<lambda>v. visitLHSUnlessError6_2 g v l c)"
definition checkError6 :: "exec_graph \<Rightarrow> label \<Rightarrow> cex visit" where
  "checkError6 g l = check_unless (visitUnlessError6 g l) visitError6 l"

definition visitError7 :: "label \<Rightarrow> bool" where "visitError7 l = False"
definition visitLHSUnlessError7_0 :: "label \<Rightarrow> cex visit" where
  "visitLHSUnlessError7_0 l c = Inr (False, c)"
definition visitLHSUnlessError7_1 :: "exec_graph \<Rightarrow> label \<Rightarrow> cex visit" where
  "visitLHSUnlessError7_1 g l = visit_opt g (Inr (free_succ l)) (visit_when (of_kind (\<lambda>k. k = HpRetire)) visitLHSUnlessError7_0)"
definition visitLHSUnlessError7_2 :: "exec_graph \<Rightarrow> label \<Rightarrow> cex visit" where
  "visitLHSUnlessError7_2 g = visit_when (unprotected g) (\<lambda>l. visit_opt g (Inr (alloc_pred l)) (visitLHSUnlessError7_1 g))"
definition visitUnlessError7 :: "exec_graph \<Rightarrow> label \<Rightarrow> cex visit" where
  "visitUnlessError7 g l = visit_seq [visitLHSUnlessError7_2 g l, accepting_gap g (no_accepting g) (no_accepting g)]"
definition checkError7 :: "exec_graph \<Rightarrow> label \<Rightarrow> cex visit" where
  "checkError7 g l = check_unless (visitUnlessError7 g l) visitError7 l"

text \<open>Races: two accesses of a location, one of them a store, one of them not atomic, that happens-before
  does not order.\<close>

definition na_of :: "(label_kind \<Rightarrow> bool) \<Rightarrow> label \<Rightarrow> bool res" where
  "na_of P l = Inr (isNotAtomic (lb_ordering l) \<and> P (lb_kind l))"

definition visitError8 :: "label \<Rightarrow> bool" where "visitError8 l = False"
definition visitLHSUnlessError8_0 :: "view \<Rightarrow> label \<Rightarrow> cex visit" where
  "visitLHSUnlessError8_0 v l = must_contain v l"
definition visitLHSUnlessError8_1 :: "exec_graph \<Rightarrow> view \<Rightarrow> label \<Rightarrow> cex visit" where
  "visitLHSUnlessError8_1 g v l =
     (let na = isNotAtomic (lb_ordering l); step = (\<lambda>P. visit_list g (samelocs g l) (visit_when P (visitLHSUnlessError8_0 v))) in
      visit_seq
        [visit_if (na \<and> isWrite (lb_kind l)) (step (of_kind isWrite)),
         visit_if (na \<and> isWrite (lb_kind l)) (step (of_kind isRead)),
         visit_if (na \<and> isRead (lb_kind l)) (step (of_kind isWrite)),
         visit_if (isWrite (lb_kind l)) (step (na_of isWrite)),
         visit_if (isWrite (lb_kind l)) (step (na_of isRead)),
         visit_if (isRead (lb_kind l)) (step (na_of isWrite))])"
definition visitUnlessError8 :: "exec_graph \<Rightarrow> label \<Rightarrow> cex visit" where
  "visitUnlessError8 g l c = bindR (lab_view l 0) (\<lambda>v. visitLHSUnlessError8_1 g v l c)"
definition checkError8 :: "exec_graph \<Rightarrow> label \<Rightarrow> cex visit" where
  "checkError8 g l = check_unless (visitUnlessError8 g l) visitError8 l"

definition visitWarning9 :: "label \<Rightarrow> bool" where "visitWarning9 l = False"
definition visitLHSUnlessWarning9_0 :: "view \<Rightarrow> label \<Rightarrow> cex visit" where
  "visitLHSUnlessWarning9_0 v l = must_contain v l"
definition visitLHSUnlessWarning9_1 :: "exec_graph \<Rightarrow> view \<Rightarrow> label \<Rightarrow> cex visit" where
  "visitLHSUnlessWarning9_1 g v l =
     visit_if (isWrite (lb_kind l)) (visit_list g (samelocs g l) (visit_when (of_kind isWrite) (visitLHSUnlessWarning9_0 v)))"
definition visitUnlessWarning9 :: "exec_graph \<Rightarrow> label \<Rightarrow> cex visit" where
  "visitUnlessWarning9 g l c = bindR (lab_view l 0) (\<lambda>v. visitLHSUnlessWarning9_1 g v l c)"
definition checkWarning9 :: "exec_graph \<Rightarrow> label \<Rightarrow> cex visit" where
  "checkWarning9 g l = check_unless (visitUnlessWarning9 g l) visitWarning9 l"

text \<open>The first check that fails gives the error and the racing label.\<close>

fun first_error :: "(cex visit \<times> verification_error) list \<Rightarrow> cex \<Rightarrow> (verification_error \<times> cex) res" where
  "first_error [] c = Inr (VE_OK, c)"
| "first_error ((check, e) # cs) c = bindR (check c) (\<lambda>(b, c1). if \<not> b then Inr (e, c1) else first_error cs c1)"

definition checkErrors :: "exec_graph \<Rightarrow> label \<Rightarrow> cex \<Rightarrow> (verification_error \<times> cex) res" where
  "checkErrors g l = first_error
     [(checkError2 g l, VE_AccessNonMalloc), (checkError3 g l, VE_DoubleFree),
      (checkError4 g l, VE_AccessFreed), (checkError5 g l, VE_AccessFreed),
      (checkError6 g l, VE_AccessFreed), (checkError7 g l, VE_AccessFreed),
      (checkError8 g l, VE_RaceNotAtomic)]"

definition checkWarnings :: "exec_graph \<Rightarrow> label \<Rightarrow> verification_error list \<Rightarrow> cex \<Rightarrow> (verification_error list \<times> cex list \<times> cex) res" where
  "checkWarnings g l seen c =
     (if VE_WWRace \<in> set seen then Inr ([], [], c)
      else bindR (checkWarning9 g l c) (\<lambda>(b, c1). Inr (if b then ([], [], c1) else ([VE_WWRace], [c1], c1))))"

end
