(* ===== verification/Search_Facts.thy ===== *)
theory Search_Facts
  imports SC_Checker
begin

text \<open>
  The depth-first search of the checkers over the labels of a graph, for any relation given by lists of
  successors: it ends, and it answers whether a cycle can be reached.  The locale states what a visitor
  has to do at one label; the visitors of the checkers interpret it.
\<close>

text \<open>Stamps identify the labels of the graph, and are indices of the table of visited nodes.\<close>

definition stamps_ok :: "exec_graph \<Rightarrow> bool" where
  "stamps_ok g \<longleftrightarrow> distinct (map (stamp_of g) (positions g)) \<and>
     list_all (\<lambda>e. unat (stamp_of g e) < search_fuel g) (positions g)"

lemma stamps_okD:
  assumes "stamps_ok g"
  shows "containsPos g x \<Longrightarrow> containsPos g y \<Longrightarrow> stamp_of g x = stamp_of g y \<Longrightarrow> x = y"
    and "containsPos g x \<Longrightarrow> unat (stamp_of g x) < search_fuel g"
proof -
  have "inj_on (stamp_of g) (set (positions g))" using assms by (simp add: stamps_ok_def distinct_map)
  then show "containsPos g x \<Longrightarrow> containsPos g y \<Longrightarrow> stamp_of g x = stamp_of g y \<Longrightarrow> x = y"
    unfolding inj_on_def Ball_def positions_mem by blast
  show "containsPos g x \<Longrightarrow> unat (stamp_of g x) < search_fuel g"
    using assms unfolding stamps_ok_def list_all_iff Ball_def positions_mem by blast
qed

section \<open>The table of visited nodes\<close>

definition status :: "exec_graph \<Rightarrow> search \<Rightarrow> event \<Rightarrow> node_status" where
  "status g s e = snd (nodes s ! unat (stamp_of g e))"

definition table_ok :: "exec_graph \<Rightarrow> search \<Rightarrow> bool" where
  "table_ok g s \<longleftrightarrow> length (nodes s) = search_fuel g"

definition unseen_nodes :: "exec_graph \<Rightarrow> search \<Rightarrow> event set" where
  "unseen_nodes g s = {e. containsPos g e \<and> status g s e = unseen}"

lemma positions_finite [simp]: "finite {e. containsPos g e}"
  unfolding positions_mem [symmetric] by simp

lemma unseen_finite [simp]: "finite (unseen_nodes g s)"
  by (rule finite_subset [OF _ positions_finite [of g]]) (auto simp: unseen_nodes_def)

lemma new_search_table: "table_ok g (new_search g)"
  by (simp add: table_ok_def search_fuel_def)

lemma new_search_status:
  "stamps_ok g \<Longrightarrow> containsPos g e \<Longrightarrow> status g (new_search g) e = unseen"
  using stamps_okD(2) [of g e] by (simp add: status_def search_fuel_def new_search_def)

lemma unseen_card:
  assumes "stamps_ok g"
  shows "card (unseen_nodes g s) \<le> search_fuel g"
proof -
  have "card (unseen_nodes g s) = card ((unat \<circ> stamp_of g) ` unseen_nodes g s)"
    by (rule card_image [symmetric]) (auto simp: inj_on_def unseen_nodes_def word_unat_eq_iff intro: stamps_okD(1) [OF assms])
  also have "\<dots> \<le> card {..<search_fuel g}"
    by (rule card_mono) (auto simp: unseen_nodes_def dest: stamps_okD(2) [OF assms])
  finally show ?thesis by simp
qed

lemma nthR_word: "unat w < length xs \<Longrightarrow> nthR xs (uint w) = Inr (xs ! unat w)"
  and updR_word: "unat w < length xs \<Longrightarrow> updR xs (uint w) x = Inr (xs[unat w := x])"
proof -
  obtain k where k: "k = unat w" by simp
  then have u: "uint w = int k" by simp
  show "unat w < length xs \<Longrightarrow> nthR xs (uint w) = Inr (xs ! unat w)"
    unfolding u k [symmetric] nthR_def by simp
  show "unat w < length xs \<Longrightarrow> updR xs (uint w) x = Inr (xs[unat w := x])"
    unfolding u k [symmetric] updR_def by simp
qed

lemma node_at_status:
  assumes "stamps_ok g" "table_ok g s" "lab_at g e = Some l"
  obtains c where "node_at l s = Inr (c, status g s e)"
proof -
  have "containsPos g e" using assms(3) by (simp add: containsPos_lab)
  moreover have "stamp_of g e = the (lb_stamp l)" using assms(3) by (simp add: stamp_of_def)
  ultimately have "unat (the (lb_stamp l)) < length (nodes s)" "stamp_of g e = the (lb_stamp l)"
    using stamps_okD(2) [OF assms(1), of e] assms(2) by (simp_all add: table_ok_def)
  then have "node_at l s = Inr (nodes s ! unat (the (lb_stamp l)))"
    unfolding node_at_def by (intro nthR_word)
  with that [of "fst (nodes s ! unat (the (lb_stamp l)))"] \<open>stamp_of g e = _\<close> show ?thesis by (simp add: status_def)
qed

lemma set_node_status:
  assumes "stamps_ok g" "table_ok g s" "lab_at g e = Some l"
  obtains s' where "set_node st l s = Inr s'" "table_ok g s'"
    "\<And>x. containsPos g x \<Longrightarrow> status g s' x = (if x = e then st else status g s x)"
proof -
  have e: "containsPos g e" using assms(3) by (simp add: containsPos_lab)
  have eq: "stamp_of g e = the (lb_stamp l)" using assms(3) by (simp add: stamp_of_def)
  have b: "unat (the (lb_stamp l)) < length (nodes s)"
    using stamps_okD(2) [OF assms(1) e] assms(2) eq by (simp add: table_ok_def)
  let ?s = "s\<lparr>nodes := (nodes s)[unat (the (lb_stamp l)) := (accepting s, st)]\<rparr>"
  have "set_node st l s = Inr ?s" using b by (simp add: set_node_def updR_word)
  moreover have "table_ok g ?s" using assms(2) by (simp add: table_ok_def)
  moreover have "status g ?s x = (if x = e then st else status g s x)" if x: "containsPos g x" for x
  proof (cases "x = e")
    case True
    with b eq show ?thesis by (simp add: status_def)
  next
    case False
    then have "stamp_of g x \<noteq> stamp_of g e" using stamps_okD(1) [OF assms(1) x e] by blast
    then have "unat (stamp_of g x) \<noteq> unat (the (lb_stamp l))" by (simp add: eq word_unat_eq_iff)
    with False show ?thesis by (simp add: status_def)
  qed
  ultimately show ?thesis using that by blast
qed

section \<open>The search\<close>

text \<open>
  \<open>succs\<close> gives the successors of a label, in the order in which they are tried, in the graphs that are
  \<open>ready\<close>: in them no successor is missing.
\<close>

locale coloured_search =
  fixes ready :: "exec_graph \<Rightarrow> bool"
    and succs :: "exec_graph \<Rightarrow> event \<Rightarrow> event list"
    and visit :: "nat \<Rightarrow> exec_graph \<Rightarrow> label \<Rightarrow> search visit"
    and before :: "search \<Rightarrow> search"
    and after :: "search \<Rightarrow> search"
  assumes ready_stamps: "ready g \<Longrightarrow> stamps_ok g"
    and succs_there: "ready g \<Longrightarrow> containsPos g x \<Longrightarrow> y \<in> set (succs g x) \<Longrightarrow> containsPos g y"
    and visit_Suc: "ready g \<Longrightarrow> lab_at g x = Some l \<Longrightarrow> visit (Suc n) g l s =
      bindR (set_node entered l (before s)) (\<lambda>s1.
      bindR (visit_list g (succs g x) (try_node (visit n g)) s1) (\<lambda>(b, s2).
      if \<not> b then Inr (False, s2) else bindR (set_node left l (after s2)) (\<lambda>s3. Inr (True, s3))))"
    and nodes_kept: "nodes (before s) = nodes s" "nodes (after s) = nodes s"
begin

definition edges :: "exec_graph \<Rightarrow> (event \<times> event) set" where
  "edges g = {(x, y). containsPos g x \<and> y \<in> set (succs g x)}"

text \<open>The nodes that are left are closed under the relation and on no cycle.\<close>

definition done_ok :: "exec_graph \<Rightarrow> search \<Rightarrow> bool" where
  "done_ok g s \<longleftrightarrow> table_ok g s \<and> (\<forall>x y. status g s x = left \<and> (x, y) \<in> edges g \<longrightarrow> status g s y = left) \<and>
     (\<forall>x. containsPos g x \<and> status g s x = left \<longrightarrow> (x, x) \<notin> (edges g)\<^sup>+)"

text \<open>What a step does to the table: the nodes in progress stay so, those that are left stay left.\<close>

definition progress :: "exec_graph \<Rightarrow> search \<Rightarrow> search \<Rightarrow> bool" where
  "progress g s s' \<longleftrightarrow> (\<forall>x. containsPos g x \<longrightarrow> (status g s' x = entered \<longleftrightarrow> status g s x = entered) \<and>
     (status g s x = left \<longrightarrow> status g s' x = left))"

lemma progress_refl [simp]: "progress g s s"
  by (simp add: progress_def)

lemma progress_trans: "progress g a b \<Longrightarrow> progress g b c \<Longrightarrow> progress g a c"
  by (simp add: progress_def)

lemma progress_unseen: "progress g a b \<Longrightarrow> unseen_nodes g b \<subseteq> unseen_nodes g a"
  unfolding progress_def unseen_nodes_def by (auto, metis node_status.exhaust node_status.distinct)

lemma status_nodes: "nodes s = nodes s' \<Longrightarrow> status g s e = status g s' e"
  by (simp add: status_def)

lemma kept [simp]:
  "status g (before s) e = status g s e" "status g (after s) e = status g s e"
  "table_ok g (before s) = table_ok g s" "table_ok g (after s) = table_ok g s"
  by (simp_all add: status_def table_ok_def nodes_kept)

text \<open>The outcome of a visit of \<open>e\<close>, or of trying it.\<close>

definition outcome :: "exec_graph \<Rightarrow> event set \<Rightarrow> search \<Rightarrow> (bool \<times> search) res \<Rightarrow> bool" where
  "outcome g es s r \<longleftrightarrow> (\<exists>b s'. r = Inr (b, s') \<and>
     (if b then done_ok g s' \<and> progress g s s' \<and> (\<forall>e \<in> es. status g s' e = left)
      else \<exists>e \<in> es. \<exists>x. (e, x) \<in> (edges g)\<^sup>* \<and> (x, x) \<in> (edges g)\<^sup>+))"

definition in_progress :: "exec_graph \<Rightarrow> search \<Rightarrow> event \<Rightarrow> bool" where
  "in_progress g s x \<longleftrightarrow> (\<forall>z. containsPos g z \<and> status g s z = entered \<longrightarrow> (z, x) \<in> (edges g)\<^sup>*)"

lemma left_closed:
  assumes "done_ok g s" "status g s x = left" "(x, y) \<in> (edges g)\<^sup>*"
  shows "status g s y = left"
  using assms(3,2)
proof (induction rule: rtrancl_induct)
  case (step y z)
  with assms(1) show ?case unfolding done_ok_def by blast
qed

lemma try_outcome:
  assumes r: "ready g" and d: "done_ok g s" and xy: "(x, y) \<in> edges g" and p: "in_progress g s x"
    and l: "lab_at g y = Some l"
    and V: "status g s y = unseen \<Longrightarrow> in_progress g s y \<Longrightarrow> outcome g {y} s (f l s)"
  shows "outcome g {y} s (try_node f l s)"
proof -
  have y: "containsPos g y" using l by (simp add: containsPos_lab)
  from d have "table_ok g s" by (simp add: done_ok_def)
  from node_at_status [OF ready_stamps [OF r] this l] obtain c where c: "node_at l s = Inr (c, status g s y)" .
  show ?thesis
  proof (cases "status g s y")
    case unseen
    have "in_progress g s y" using p xy unfolding in_progress_def by (meson rtrancl.rtrancl_into_rtrancl)
    with V [OF unseen] c unseen show ?thesis by (simp add: try_node_def)
  next
    case entered
    with p y have "(y, x) \<in> (edges g)\<^sup>*" by (simp add: in_progress_def)
    with xy have "(y, y) \<in> (edges g)\<^sup>+" by (simp add: rtrancl_into_trancl1)
    with c entered show ?thesis by (auto simp: try_node_def outcome_def)
  next
    case left
    with c d show ?thesis by (simp add: try_node_def outcome_def ex_bool_eq)
  qed
qed

lemma list_outcome:
  assumes r: "ready g" and x: "containsPos g x" and ys: "set ys \<subseteq> set (succs g x)"
    and d: "done_ok g s" and p: "in_progress g s x" and c: "card (unseen_nodes g s) \<le> n"
    and V: "\<And>y l s. lab_at g y = Some l \<Longrightarrow> done_ok g s \<Longrightarrow> status g s y = unseen \<Longrightarrow> in_progress g s y \<Longrightarrow>
      card (unseen_nodes g s) \<le> n \<Longrightarrow> outcome g {y} s (visit n g l s)"
  shows "outcome g (set ys) s (visit_list g ys (try_node (visit n g)) s)"
  using ys d p c
proof (induction ys arbitrary: s)
  case Nil
  then show ?case by (simp add: outcome_def ex_bool_eq)
next
  case (Cons y ys)
  have xy: "(x, y) \<in> edges g" using Cons.prems(1) x by (simp add: edges_def)
  have "containsPos g y" using succs_there [OF r x] Cons.prems(1) by simp
  then obtain l where l: "lab_at g y = Some l" by (auto simp: containsPos_lab)
  have "outcome g {y} s (try_node (visit n g) l s)"
    by (rule try_outcome [OF r Cons.prems(2) xy Cons.prems(3) l]) (rule V [OF l Cons.prems(2) _ _ Cons.prems(4)])
  then obtain b s1 where b: "try_node (visit n g) l s = Inr (b, s1)"
    "if b then done_ok g s1 \<and> progress g s s1 \<and> status g s1 y = left
     else \<exists>x. (y, x) \<in> (edges g)\<^sup>* \<and> (x, x) \<in> (edges g)\<^sup>+"
    unfolding outcome_def by (simp only: ball_simps bex_simps simp_thms) blast
  show ?case
  proof (cases b)
    case False
    with b l show ?thesis by (auto simp: outcome_def deref_def)
  next
    case True
    with b(2) have s1: "done_ok g s1" "progress g s s1" "status g s1 y = left" by simp_all
    have "in_progress g s1 x" using Cons.prems(3) s1(2) unfolding in_progress_def progress_def by blast
    moreover have "card (unseen_nodes g s1) \<le> n"
      using Cons.prems(4) card_mono [OF unseen_finite progress_unseen [OF s1(2)]] by linarith
    ultimately have "outcome g (set ys) s1 (visit_list g ys (try_node (visit n g)) s1)"
      using Cons.IH [OF _ s1(1)] Cons.prems(1) by simp
    then obtain b2 s2 where b2: "visit_list g ys (try_node (visit n g)) s1 = Inr (b2, s2)"
      "if b2 then done_ok g s2 \<and> progress g s1 s2 \<and> (\<forall>e \<in> set ys. status g s2 e = left)
       else \<exists>e \<in> set ys. \<exists>x. (e, x) \<in> (edges g)\<^sup>* \<and> (x, x) \<in> (edges g)\<^sup>+"
      unfolding outcome_def by auto
    have run: "visit_list g (y # ys) (try_node (visit n g)) s = Inr (b2, s2)"
      using b(1) True b2(1) l by (simp add: deref_def)
    show ?thesis
    proof (cases b2)
      case True
      with b2(2) s1 have "progress g s s2" "status g s2 y = left"
        using progress_trans \<open>containsPos g y\<close> by (auto simp: progress_def)
      with run b2(2) True show ?thesis unfolding outcome_def by auto
    next
      case False
      with run b2(2) show ?thesis unfolding outcome_def by auto
    qed
  qed
qed

lemma visit_outcome:
  assumes r: "ready g"
  shows "lab_at g x = Some l \<Longrightarrow> done_ok g s \<Longrightarrow> status g s x = unseen \<Longrightarrow> in_progress g s x \<Longrightarrow>
    card (unseen_nodes g s) \<le> n \<Longrightarrow> outcome g {x} s (visit n g l s)"
proof (induction n arbitrary: x l s)
  case 0
  then have "x \<in> unseen_nodes g s" by (simp add: unseen_nodes_def containsPos_lab)
  with 0 show ?case by (simp add: card_eq_0_iff)
next
  case (Suc n)
  have st: "stamps_ok g" by (rule ready_stamps [OF r])
  have x: "containsPos g x" using Suc.prems(1) by (simp add: containsPos_lab)
  have "table_ok g (before s)" using Suc.prems(2) by (simp add: done_ok_def)
  from set_node_status [OF st this Suc.prems(1)] obtain s1 where s1: "set_node entered l (before s) = Inr s1" "table_ok g s1"
    "\<And>z. containsPos g z \<Longrightarrow> status g s1 z = (if z = x then entered else status g s z)" by (metis kept(1))
  have there: "containsPos g a \<and> containsPos g b" if "(a, b) \<in> edges g" for a b
    using that succs_there [OF r] by (auto simp: edges_def)
  have d1: "done_ok g s1"
    unfolding done_ok_def
  proof (intro conjI allI impI s1(2))
    fix a b assume ab: "status g s1 a = left \<and> (a, b) \<in> edges g"
    then have "status g s a = left" using s1(3) there by (auto split: if_splits)
    with ab Suc.prems(2) have "status g s b = left" by (auto simp: done_ok_def)
    with Suc.prems(3) s1(3) there ab show "status g s1 b = left" by auto
  next
    fix a assume "containsPos g a \<and> status g s1 a = left"
    then have "containsPos g a" "status g s a = left" using s1(3) by (auto split: if_splits)
    with Suc.prems(2) show "(a, a) \<notin> (edges g)\<^sup>+" by (simp add: done_ok_def)
  qed
  have "unseen_nodes g s1 = unseen_nodes g s - {x}" 
    by (auto simp: unseen_nodes_def s1(3) split: if_splits)
  moreover have "x \<in> unseen_nodes g s" using x Suc.prems(3) by (simp add: unseen_nodes_def)
  ultimately have c1: "card (unseen_nodes g s1) \<le> n" using Suc.prems(5) by (simp add: card_Diff_singleton)
  have p1: "in_progress g s1 x"
    using Suc.prems(4) by (auto simp: in_progress_def s1(3) split: if_splits)
  have "outcome g (set (succs g x)) s1 (visit_list g (succs g x) (try_node (visit n g)) s1)"
    by (rule list_outcome [OF r x subset_refl d1 p1 c1 Suc.IH])
  then obtain b s2 where s2: "visit_list g (succs g x) (try_node (visit n g)) s1 = Inr (b, s2)"
    "if b then done_ok g s2 \<and> progress g s1 s2 \<and> (\<forall>e \<in> set (succs g x). status g s2 e = left)
     else \<exists>e \<in> set (succs g x). \<exists>x. (e, x) \<in> (edges g)\<^sup>* \<and> (x, x) \<in> (edges g)\<^sup>+"
    unfolding outcome_def by auto
  show ?case
  proof (cases b)
    case False
    with s2(2) obtain y z where y: "y \<in> set (succs g x)" "(y, z) \<in> (edges g)\<^sup>*" "(z, z) \<in> (edges g)\<^sup>+" by auto
    have "(x, y) \<in> edges g" using x y(1) by (simp add: edges_def)
    with y(2,3) have "\<exists>z. (x, z) \<in> (edges g)\<^sup>* \<and> (z, z) \<in> (edges g)\<^sup>+"
      by (meson converse_rtrancl_into_rtrancl)
    with visit_Suc [OF r Suc.prems(1)] s1(1) s2(1) False show ?thesis by (simp add: outcome_def ex_bool_eq)
  next
    case True
    with s2(2) have d2: "done_ok g s2" and p2: "progress g s1 s2" and succ: "\<And>e. e \<in> set (succs g x) \<Longrightarrow> status g s2 e = left"
      by simp_all
    have "table_ok g (after s2)" using d2 by (simp add: done_ok_def)
    from set_node_status [OF st this Suc.prems(1)] obtain s3 where s3: "set_node left l (after s2) = Inr s3" "table_ok g s3"
      "\<And>z. containsPos g z \<Longrightarrow> status g s3 z = (if z = x then left else status g s2 z)" by (metis kept(2))
    have x2: "status g s2 x = entered" using p2 s1(3) [OF x] x unfolding progress_def by metis
    have "(x, x) \<notin> (edges g)\<^sup>+"
    proof
      assume "(x, x) \<in> (edges g)\<^sup>+"
      then obtain y where y: "(x, y) \<in> edges g" "(y, x) \<in> (edges g)\<^sup>*" by (meson tranclD)
      from y(1) have "y \<in> set (succs g x)" by (simp add: edges_def)
      from left_closed [OF d2 succ [OF this] y(2)] x2 show False by simp
    qed
    then have "done_ok g s3"
      unfolding done_ok_def
    proof (intro conjI allI impI s3(2))
      fix a b assume ab: "status g s3 a = left \<and> (a, b) \<in> edges g"
      then have c: "containsPos g a" "containsPos g b" using there by blast+
      show "status g s3 b = left"
      proof (cases "a = x")
        case True
        with ab succ s3(3) [OF c(2)] show ?thesis by (simp add: edges_def)
      next
        case False
        with ab s3(3) [OF c(1)] have "status g s2 a = left" by simp
        with d2 ab have "status g s2 b = left" unfolding done_ok_def by blast
        with s3(3) [OF c(2)] show ?thesis by simp
      qed
    next
      fix a assume a: "containsPos g a \<and> status g s3 a = left"
      show "(a, a) \<notin> (edges g)\<^sup>+"
      proof (cases "a = x")
        case True
        with \<open>(x, x) \<notin> (edges g)\<^sup>+\<close> show ?thesis by simp
      next
        case False
        with a s3(3) [of a] have "status g s2 a = left" by simp
        with d2 a show ?thesis unfolding done_ok_def by blast
      qed
    qed
    moreover have "progress g s s3"
      unfolding progress_def
    proof (intro allI impI conjI)
      fix z assume z: "containsPos g z"
      have "status g s2 z = entered \<longleftrightarrow> status g s1 z = entered" "status g s1 z = left \<longrightarrow> status g s2 z = left"
        using p2 z by (auto simp: progress_def)
      then show "status g s3 z = entered \<longleftrightarrow> status g s z = entered" "status g s z = left \<Longrightarrow> status g s3 z = left"
        using s3(3) [OF z] s1(3) [OF z] Suc.prems(3) by (auto split: if_splits)
    qed
    moreover have "visit (Suc n) g l s = Inr (True, s3)"
      using visit_Suc [OF r Suc.prems(1)] s1(1) s2(1) s3(1) True by simp
    ultimately show ?thesis using s3(3) [OF x] by (simp add: outcome_def ex_bool_eq)
  qed
qed

text \<open>A visit from a fresh table, and one over all labels.\<close>

definition reach_cycle :: "exec_graph \<Rightarrow> event \<Rightarrow> bool" where
  "reach_cycle g e \<longleftrightarrow> (\<exists>x. (e, x) \<in> (edges g)\<^sup>* \<and> (x, x) \<in> (edges g)\<^sup>+)"

lemma fresh_ok: "ready g \<Longrightarrow> done_ok g (new_search g) \<and> in_progress g (new_search g) x"
  unfolding done_ok_def in_progress_def
  using new_search_table new_search_status [OF ready_stamps, of g] by (auto simp: edges_def)

lemma left_no_cycle:
  assumes "done_ok g s" "status g s e = left" "containsPos g e" "ready g"
  shows "\<not> reach_cycle g e"
proof
  assume "reach_cycle g e"
  then obtain x where x: "(e, x) \<in> (edges g)\<^sup>*" "(x, x) \<in> (edges g)\<^sup>+" by (auto simp: reach_cycle_def)
  from x(2) obtain y where "(x, y) \<in> edges g" by (meson tranclD)
  then have "containsPos g x" by (simp add: edges_def)
  moreover have "status g s x = left" by (rule left_closed [OF assms(1,2) x(1)])
  ultimately have "(x, x) \<notin> (edges g)\<^sup>+" using assms(1) unfolding done_ok_def by blast
  with x(2) show False by blast
qed

lemma visit_from_outcome:
  assumes r: "ready g" and l: "lab_at g x = Some l" and d: "done_ok g s" "\<And>z. containsPos g z \<Longrightarrow> status g s z \<noteq> entered"
  shows "\<exists>b s'. visit_from (visit (search_fuel g) g) l s = Inr (b, s') \<and>
    (if b then done_ok g s' \<and> progress g s s' \<and> status g s' x = left else reach_cycle g x)"
proof -
  have x: "containsPos g x" using l by (simp add: containsPos_lab)
  from d(1) have "table_ok g s" by (simp add: done_ok_def)
  from node_at_status [OF ready_stamps [OF r] this l] obtain c where c: "node_at l s = Inr (c, status g s x)" .
  show ?thesis
  proof (cases "status g s x")
    case unseen
    have "in_progress g s x" using d(2) unfolding in_progress_def by blast
    from visit_outcome [OF r l d(1) unseen this unseen_card [OF ready_stamps [OF r]]] obtain b s' where
      "visit (search_fuel g) g l s = Inr (b, s')"
      "if b then done_ok g s' \<and> progress g s s' \<and> status g s' x = left else reach_cycle g x"
      unfolding outcome_def reach_cycle_def by (simp only: ball_simps bex_simps simp_thms) blast
    with c unseen show ?thesis by (simp add: visit_from_def)
  next
    case entered
    with d(2) x show ?thesis by blast
  next
    case left
    with c d(1) show ?thesis by (auto simp: visit_from_def ex_bool_eq)
  qed
qed

lemma search_from:
  assumes r: "ready g" and l: "lab_at g x = Some l"
  shows "bindR (visit_from (visit (search_fuel g) g) l (new_search g)) (\<lambda>(b, s). Inr b) = Inr (\<not> reach_cycle g x)"
proof -
  have x: "containsPos g x" using l by (simp add: containsPos_lab)
  have "status g (new_search g) z \<noteq> entered" if "containsPos g z" for z
    using new_search_status [OF ready_stamps [OF r] that] by simp
  from visit_from_outcome [OF r l _ this] fresh_ok [OF r] obtain b s' where
    v: "visit_from (visit (search_fuel g) g) l (new_search g) = Inr (b, s')"
      "if b then done_ok g s' \<and> progress g (new_search g) s' \<and> status g s' x = left else reach_cycle g x" by blast
  have "b \<longleftrightarrow> \<not> reach_cycle g x" using v(2) left_no_cycle [OF _ _ x r] by (cases b) auto
  with v(1) show ?thesis by simp
qed

lemma search_list:
  assumes r: "ready g"
  shows "\<forall>e \<in> set es. containsPos g e \<Longrightarrow> done_ok g s \<Longrightarrow> (\<And>z. containsPos g z \<Longrightarrow> status g s z \<noteq> entered) \<Longrightarrow>
    \<exists>b s'. visit_list g es (visit_from (visit (search_fuel g) g)) s = Inr (b, s') \<and> (b \<longleftrightarrow> (\<forall>e \<in> set es. \<not> reach_cycle g e))"
proof (induction es arbitrary: s)
  case Nil
  show ?case by (simp add: ex_bool_eq)
next
  case (Cons e es)
  then obtain l where l: "lab_at g e = Some l" by (auto simp: containsPos_lab)
  from visit_from_outcome [OF r l Cons.prems(2,3)] obtain b s' where
    v: "visit_from (visit (search_fuel g) g) l s = Inr (b, s')"
      "if b then done_ok g s' \<and> progress g s s' \<and> status g s' e = left else reach_cycle g e" by blast
  show ?case
  proof (cases b)
    case False
    with v l show ?thesis by (simp add: deref_def ex_bool_eq)
  next
    case True
    with v(2) have s': "done_ok g s'" "progress g s s'" "status g s' e = left" by simp_all
    have "status g s' z \<noteq> entered" if "containsPos g z" for z
      using s'(2) Cons.prems(3) [OF that] that unfolding progress_def by blast
    from Cons.IH [OF _ s'(1) this] Cons.prems(1) obtain b2 s2 where
      "visit_list g es (visit_from (visit (search_fuel g) g)) s' = Inr (b2, s2)" "b2 \<longleftrightarrow> (\<forall>e \<in> set es. \<not> reach_cycle g e)" by auto
    moreover have "\<not> reach_cycle g e" using left_no_cycle [OF s'(1,3) _ r] Cons.prems(1) by simp
    ultimately show ?thesis using v(1) True l by (simp add: deref_def)
  qed
qed

lemma search_all:
  assumes r: "ready g" and es: "\<And>e. e \<in> set es \<longleftrightarrow> containsPos g e"
  shows "bindR (visit_list g es (visit_from (visit (search_fuel g) g)) (new_search g)) (\<lambda>(b, s). Inr b) = Inr (acyclic (edges g))"
proof -
  have "status g (new_search g) z \<noteq> entered" if "containsPos g z" for z
    using new_search_status [OF ready_stamps [OF r] that] by simp
  from search_list [OF r _ _ this, of es] fresh_ok [OF r] es obtain b s' where
    v: "visit_list g es (visit_from (visit (search_fuel g) g)) (new_search g) = Inr (b, s')"
      "b \<longleftrightarrow> (\<forall>e \<in> set es. \<not> reach_cycle g e)" by blast
  have "(\<forall>e \<in> set es. \<not> reach_cycle g e) \<longleftrightarrow> acyclic (edges g)"
  proof
    assume a: "\<forall>e \<in> set es. \<not> reach_cycle g e"
    show "acyclic (edges g)"
      unfolding acyclic_def
    proof (intro allI notI)
      fix x assume x: "(x, x) \<in> (edges g)\<^sup>+"
      then obtain y where "(x, y) \<in> edges g" by (meson tranclD)
      then have "x \<in> set es" using es by (simp add: edges_def)
      with a have "\<not> reach_cycle g x" by blast
      with x show False unfolding reach_cycle_def by blast
    qed
  qed (auto simp: acyclic_def reach_cycle_def)
  with v show ?thesis by simp
qed

end

end
