(* ===== verification/SC_Facts.thy ===== *)
theory SC_Facts
  imports Search_Facts Explorer_Facts
begin

text \<open>
  The two searches of the checker for sequential consistency as instances of the search over a relation:
  the graphs in which no successor is missing, the successors of a label, and what the checks answer.
\<close>

section \<open>Graphs that the checker can search\<close>

text \<open>Every edge leads to a label of the graph, every store is placed in coherence, every read has a store,
  of its own location.\<close>

definition link_ok :: "exec_graph \<Rightarrow> label \<Rightarrow> bool" where
  "link_ok g l \<longleftrightarrow>
     (lb_kind l = ThreadCreate \<longrightarrow> containsPos g (Event (int (lb_childId l)) 0)) \<and>
     (isThreadStart (lb_kind l) \<longrightarrow> containsPos g (lb_parentCreate l)) \<and>
     (isThreadFinish (lb_kind l) \<longrightarrow> (case lb_parentJoin l of None \<Rightarrow> True | Some e \<Rightarrow> containsPos g e)) \<and>
     (lb_kind l = ThreadJoin \<longrightarrow> lb_childId l < getNumThreads g) \<and>
     (isWrite (lb_kind l) \<longrightarrow> lb_pos l \<in> set (co g (lb_addr l))) \<and>
     (isRead (lb_kind l) \<longrightarrow> (case lb_rf l of None \<Rightarrow> False
        | Some w \<Rightarrow> label_sat (\<lambda>wl. isWrite (lb_kind wl) \<longrightarrow> lb_addr wl = lb_addr l) g w))"

definition searchable :: "exec_graph \<Rightarrow> bool" where
  "searchable g \<longleftrightarrow> graph_ok g \<and> stamps_ok g \<and> list_all (label_sat (link_ok g) g) (positions g)"

lemma searchableD:
  assumes "searchable g"
  shows "graph_core g" "threads_ok g" "stamps_ok g" "lab_at g x = Some l \<Longrightarrow> link_ok g l"
proof -
  from assms show "graph_core g" "threads_ok g" "stamps_ok g" by (simp_all add: searchable_def graph_ok_def)
  show "lab_at g x = Some l \<Longrightarrow> link_ok g l"
    using assms unfolding searchable_def list_all_iff Ball_def positions_mem containsPos_lab label_sat_def
    by (auto split: option.splits)
qed

lemma lab_pos: "graph_core g \<Longrightarrow> lab_at g x = Some l \<Longrightarrow> lb_pos l = x"
  by (simp add: graph_core_def pos_ok_def)

section \<open>Visits of several ranges\<close>

definition opt_list :: "event option \<Rightarrow> event list" where
  "opt_list p = (case p of None \<Rightarrow> [] | Some e \<Rightarrow> [e])"

lemma opt_list_simps [simp]: "opt_list None = []" "opt_list (Some e) = [e]"
  by (simp_all add: opt_list_def)

lemma visit_opt_list: "visit_opt g (Inr p) f = visit_list g (opt_list p) f"
  by (simp add: visit_opt_def opt_list_def fun_eq_iff)

lemma visit_list_append:
  "visit_list g (xs @ ys) f s = bindR (visit_list g xs f s) (\<lambda>(b, s1). if b then visit_list g ys f s1 else Inr (False, s1))"
proof (induction xs arbitrary: s)
  case (Cons x xs)
  show ?case
  proof (cases "deref g x")
    case (Inr l)
    with Cons show ?thesis by (cases "f l s") (auto split: prod.splits)
  qed simp
qed simp

lemma visit_seq_lists: "visit_seq (map (\<lambda>es. visit_list g es f) ess) s = visit_list g (concat ess) f s"
proof (induction ess arbitrary: s)
  case (Cons es ess)
  show ?case
    by (cases "visit_list g es f s") (auto simp: visit_list_append Cons split: prod.splits)
qed simp

definition skips :: "'s visit \<Rightarrow> bool" where "skips f \<longleftrightarrow> (\<forall>s. f s = Inr (True, s))"

lemma visit_seq_skip: "list_all skips gs \<Longrightarrow> visit_seq (fs @ gs) s = visit_seq fs s"
proof (induction fs arbitrary: s)
  case Nil
  then show ?case by (induction gs) (simp_all add: skips_def)
next
  case (Cons f fs)
  then show ?case by (cases "f s") (simp_all split: prod.splits)
qed

lemma visit_all_true:
  assumes "\<And>e. e \<in> set es \<Longrightarrow> containsPos g e" "\<And>l s. f l s = Inr (True, s)"
  shows "visit_list g es f s = Inr (True, s)"
  using assms(1)
proof (induction es arbitrary: s)
  case (Cons e es)
  then obtain l where "lab_at g e = Some l" by (auto simp: containsPos_lab)
  with Cons assms(2) show ?case by (simp add: deref_def)
qed simp

section \<open>The successors\<close>

text \<open>The value of a look-up that succeeds.\<close>

definition res_list :: "event option res \<Rightarrow> event list" where
  "res_list r = (case r of Inl _ \<Rightarrow> [] | Inr p \<Rightarrow> opt_list p)"

lemma res_list_simps [simp]: "res_list (Inr p) = opt_list p" "res_list (Inl e) = []"
  by (simp_all add: res_list_def)

definition sc_lists :: "exec_graph \<Rightarrow> label \<Rightarrow> event list list" where
  "sc_lists g l =
     [res_list (tc_succ g l), opt_list (tj_succ l), rf_succs l, res_list (co_imm_succ_of g l),
      res_list (fr_imm_succ_of g l), opt_list (po_imm_succ g l)]"

definition sc_succs :: "exec_graph \<Rightarrow> event \<Rightarrow> event list" where
  "sc_succs g x = (case lab_at g x of None \<Rightarrow> [] | Some l \<Rightarrow> concat (sc_lists g l))"

definition sync_lists :: "exec_graph \<Rightarrow> label \<Rightarrow> event list list" where
  "sync_lists g l = [res_list (tc_pred g l), res_list (tj_pred g l), opt_list (rf_pred l)]"

definition coh_succs :: "exec_graph \<Rightarrow> event \<Rightarrow> event list" where
  "coh_succs g x = (case lab_at g x of None \<Rightarrow> [] | Some l \<Rightarrow>
     (case po_imm_pred g l of None \<Rightarrow> [] | Some p \<Rightarrow>
       (case lab_at g p of None \<Rightarrow> [] | Some pl \<Rightarrow> concat (sync_lists g pl) @ [p])))"

text \<open>In a searchable graph every look-up succeeds, and finds a label of the graph.\<close>

definition found :: "exec_graph \<Rightarrow> event option res \<Rightarrow> bool" where
  "found g r \<longleftrightarrow> (\<exists>p. r = Inr p \<and> (\<forall>e. p = Some e \<longrightarrow> containsPos g e))"

lemma found_intros [intro]: "found g (Inr None)" "containsPos g e \<Longrightarrow> found g (Inr (Some e))"
  by (simp_all add: found_def)

lemma foundE:
  assumes "found g r"
  obtains p where "r = Inr p" "\<And>e. e \<in> set (opt_list p) \<Longrightarrow> containsPos g e"
  using assms by (auto simp: found_def opt_list_def split: option.splits)

lemma found_visit: "found g r \<Longrightarrow> visit_opt g r f = visit_list g (res_list r) f"
  by (auto simp: found_def visit_opt_list)

lemma found_there: "found g r \<Longrightarrow> e \<in> set (res_list r) \<Longrightarrow> containsPos g e"
  by (auto simp: found_def opt_list_def split: option.splits)

lemma succ_in_mem: "succ_in w ws = Some x \<Longrightarrow> x \<in> set ws"
proof (induction w ws rule: succ_in.induct)
  case (2 w x xs)
  then show ?case by (auto split: if_splits list.splits)
qed simp

lemma co_contained: "graph_core g \<Longrightarrow> w \<in> set (co g a) \<Longrightarrow> containsPos g w"
  unfolding graph_core_def co_ok_def by (auto simp: at_kind_def containsPos_lab)

lemma succ_in_contained: "graph_core g \<Longrightarrow> succ_in w (co g a) = Some e \<Longrightarrow> containsPos g e"
  using succ_in_mem co_contained by blast

lemma co_at_placed:
  assumes "graph_core g" "w \<in> set (co g a)"
  shows "co_at g a = Inr (co g a)"
  using assms(2) by (cases "map_of (coherence g) a") (simp_all add: co_at_def co_def m_get_def)

lemma co_at_access: "graph_core g \<Longrightarrow> lab_at g x = Some l \<Longrightarrow> isMemAccess (lb_kind l) \<Longrightarrow> co_at g (lb_addr l) = Inr (co g (lb_addr l))"
  using access_tracked [of g x l]
  by (cases "map_of (coherence g) (lb_addr l)") (auto simp: co_at_def co_def m_get_def map_of_eq_None_iff)

lemma sc_found:
  assumes s: "searchable g" and l: "lab_at g x = Some l"
  shows "found g (tc_succ g l)" "found g (Inr (tj_succ l))" "\<And>e. e \<in> set (rf_succs l) \<Longrightarrow> containsPos g e"
    "found g (co_imm_succ_of g l)" "found g (fr_imm_succ_of g l)" "found g (Inr (po_imm_succ g l))"
proof -
  note core = searchableD(1) [OF s]
  have link: "link_ok g l" by (rule searchableD(4) [OF s l])
  have pos: "lb_pos l = x" by (rule lab_pos [OF core l])
  have x: "containsPos g x" using l by (simp add: containsPos_lab)
  show "found g (tc_succ g l)"
  proof (cases "lb_kind l = ThreadCreate")
    case True
    with link have "containsPos g (Event (int (lb_childId l)) 0)" by (simp add: link_ok_def)
    then obtain cl where cl: "lab_at g (Event (int (lb_childId l)) 0) = Some cl" by (auto simp: containsPos_lab)
    with core have "isThreadStart (lb_kind cl)" by (simp add: graph_core_def start_ok_def)
    with cl True \<open>containsPos g (Event (int (lb_childId l)) 0)\<close> show ?thesis
      by (auto simp: tc_succ_def getFirstThreadLabel_def getEventLabel_def)
  qed (auto simp: tc_succ_def)
  show "found g (Inr (tj_succ l))"
    using link by (auto simp: tj_succ_def link_ok_def found_def split: option.splits)
  show "containsPos g e" if "e \<in> set (rf_succs l)" for e
  proof -
    have "e \<in> set (readers_of g x (lb_addr l))"
      using that l by (auto simp: rf_succs_def readers_of_def split: if_splits)
    with core have "at_kind isRead g e (\<lambda>l'. lb_rf l' = Some x \<and> (x = event_init \<longrightarrow> lb_addr l' = lb_addr l))"
      unfolding graph_core_def rf_ok_def by blast
    then show ?thesis by (auto simp: at_kind_def containsPos_lab)
  qed
  show "found g (co_imm_succ_of g l)"
  proof (cases "isWrite (lb_kind l)")
    case True
    with link pos have "x \<in> set (co g (lb_addr l))" by (simp add: link_ok_def)
    with co_at_placed [OF core this] pos True succ_in_contained [OF core] show ?thesis
      by (auto simp: co_imm_succ_of_def co_imm_succ_def found_def)
  qed (auto simp: co_imm_succ_of_def)
  show "found g (fr_imm_succ_of g l)"
  proof (cases "isRead (lb_kind l)")
    case True
    with link obtain w wl where w: "lb_rf l = Some w" "lab_at g w = Some wl" "isWrite (lb_kind wl) \<longrightarrow> lb_addr wl = lb_addr l"
      by (auto simp: link_ok_def label_sat_def split: option.splits)
    have "link_ok g wl" "lb_pos wl = w" using searchableD(4) [OF s w(2)] lab_pos [OF core w(2)] by simp_all
    then have wco: "isWrite (lb_kind wl) \<Longrightarrow> w \<in> set (co g (lb_addr wl))" by (simp add: link_ok_def)
    have acc: "co_at g (lb_addr l) = Inr (co g (lb_addr l))"
      using co_at_access [OF core l] pointer_classes(2) [OF True] by simp
    show ?thesis
    proof (cases "isWrite (lb_kind wl)")
      case True
      with w wco co_at_placed [OF core wco] \<open>lb_pos wl = w\<close> \<open>isRead (lb_kind l)\<close> succ_in_contained [OF core] show ?thesis
        by (auto simp: fr_imm_succ_of_def fr_imm_succ_def deref_def co_imm_succ_def found_def)
    next
      case False
      have "e \<in> set (co g (lb_addr l)) \<Longrightarrow> containsPos g e" for e using co_contained [OF core] .
      with w acc True False show ?thesis
        by (cases "co g (lb_addr l)") (auto simp: fr_imm_succ_of_def fr_imm_succ_def deref_def found_def)
    qed
  qed (auto simp: fr_imm_succ_of_def)
  show "found g (Inr (po_imm_succ g l))"
    using x pos by (auto simp: po_imm_succ_def getNextLabel_def found_def event_next_def containsPos_def nat_add_distrib)
qed

lemma sync_found:
  assumes s: "searchable g" and l: "lab_at g x = Some l"
  shows "found g (tc_pred g l)" "found g (tj_pred g l)" "found g (Inr (rf_pred l))"
proof -
  note core = searchableD(1) [OF s]
  have link: "link_ok g l" by (rule searchableD(4) [OF s l])
  show "found g (tc_pred g l)"
    using link by (auto simp: tc_pred_def link_ok_def getEventLabel_def containsPos_lab found_def)
  show "found g (tj_pred g l)"
  proof (cases "lb_kind l = ThreadJoin")
    case True
    with link have "lb_childId l < getNumThreads g" by (simp add: link_ok_def)
    from last_label_at [OF searchableD(2) [OF s] this] obtain el where
      "lab_at g (Event (int (lb_childId l)) (int (getThreadSize g (lb_childId l)) - 1)) = Some el"
      "getLastThreadLabel g (lb_childId l) = Inr el" by blast
    moreover from this have "containsPos g (lb_pos el)" using lab_pos [OF core] by (auto simp: containsPos_lab)
    ultimately show ?thesis by (auto simp: tj_pred_def found_def)
  qed (auto simp: tj_pred_def)
  show "found g (Inr (rf_pred l))"
    using rf_contained [OF core l] by (auto simp: rf_pred_def found_def)
qed

section \<open>The searches\<close>

lemma sc_succs_there:
  assumes "searchable g" "y \<in> set (sc_succs g x)"
  shows "containsPos g y"
proof -
  from assms(2) obtain l where l: "lab_at g x = Some l" "y \<in> set (concat (sc_lists g l))"
    unfolding sc_succs_def by (cases "lab_at g x") (simp_all del: set_concat)
  note f = sc_found [OF assms(1) l(1)]
  from l(2) found_there [OF f(1)] found_there [OF f(2)] f(3) found_there [OF f(4)] found_there [OF f(5)] found_there [OF f(6)]
  show ?thesis by (auto simp: sc_lists_def)
qed

lemma sc_visits:
  assumes s: "searchable g" and l: "lab_at g x = Some l"
  shows "visit_seq
        [visit_opt g (tc_succ g l) f, visit_opt g (Inr (tj_succ l)) f, visit_list g (rf_succs l) f,
         visit_opt g (co_imm_succ_of g l) f, visit_opt g (fr_imm_succ_of g l) f,
         visit_opt g (Inr (po_imm_succ g l)) f] st = visit_list g (sc_succs g x) f st"
proof -
  note found = sc_found [OF s l]
  have "visit_seq (map (\<lambda>es. visit_list g es f) (sc_lists g l)) st = visit_list g (sc_succs g x) f st"
    using l by (simp only: visit_seq_lists sc_succs_def option.case)
  then show ?thesis
    by (simp only: sc_lists_def list.map found_visit [OF found(1)] found_visit [OF found(4)] found_visit [OF found(5)] visit_opt_list)
qed

interpretation cons_search: coloured_search searchable sc_succs visitConsAcyclic1_0
  "\<lambda>s. s\<lparr>accepting := accepting s + 1\<rparr>" "\<lambda>s. s\<lparr>accepting := accepting s - 1\<rparr>"
proof
  show "searchable g \<Longrightarrow> stamps_ok g" for g by (rule searchableD)
  show "searchable g \<Longrightarrow> containsPos g x \<Longrightarrow> y \<in> set (sc_succs g x) \<Longrightarrow> containsPos g y" for g x y
    by (rule sc_succs_there)
  show "visitConsAcyclic1_0 (Suc n) g l s =
      bindR (set_node entered l (s\<lparr>accepting := accepting s + 1\<rparr>)) (\<lambda>s1.
      bindR (visit_list g (sc_succs g x) (try_node (visitConsAcyclic1_0 n g)) s1) (\<lambda>(b, s2).
      if \<not> b then Inr (False, s2)
      else bindR (set_node left l (s2\<lparr>accepting := accepting s2 - 1\<rparr>)) (\<lambda>s3. Inr (True, s3))))"
    if "searchable g" "lab_at g x = Some l" for g x l n s
    by (simp only: visitConsAcyclic1_0.simps Let_def sc_visits [OF that])
qed simp_all

lemma coh_succs_there:
  assumes "searchable g" "y \<in> set (coh_succs g x)"
  shows "containsPos g y"
proof -
  from assms(2) obtain l where "lab_at g x = Some l" unfolding coh_succs_def by (cases "lab_at g x") simp_all
  with assms(2) obtain p where p: "po_imm_pred g l = Some p" unfolding coh_succs_def by (cases "po_imm_pred g l") simp_all
  with assms(2) \<open>lab_at g x = Some l\<close> obtain pl where l: "lab_at g p = Some pl" "y = p \<or> y \<in> set (concat (sync_lists g pl))"
    unfolding coh_succs_def by (cases "lab_at g p") (simp_all del: set_concat)
  note f = sync_found [OF assms(1) l(1)]
  from l found_there [OF f(1)] found_there [OF f(2)] found_there [OF f(3)]
  show ?thesis by (auto simp: sync_lists_def containsPos_lab)
qed

lemma visitCoherence_0_skip: "visitCoherence_0 l s = Inr (True, s)"
  by (simp add: visitCoherence_0_def)

lemma coh_visits:
  assumes s: "searchable g" and l: "lab_at g x = Some l"
  shows "visit_seq
       [visit_opt g (Inr (po_imm_pred g l)) (visitCoherence_2 g f),
        visit_opt g (Inr (po_imm_pred g l)) (try_node f),
        visit_opt g (Inr (po_imm_pred g l)) visitCoherence_0] st = visit_list g (coh_succs g x) (try_node f) st"
proof (cases "po_imm_pred g l")
  case None
  with l show ?thesis by (simp add: visit_opt_list coh_succs_def)
next
  case (Some p)
  have pos: "lb_pos l = x" by (rule lab_pos [OF searchableD(1) [OF s] l])
  have "containsPos g x" using l by (simp add: containsPos_lab)
  then have "containsPos g p"
    using Some pos by (auto simp: po_imm_pred_def getPreviousLabel_def event_prev_def containsPos_def split: if_splits)
  then obtain pl where pl: "lab_at g p = Some pl" by (auto simp: containsPos_lab)
  note found = sync_found [OF s pl]
  have skip: "visit_list g (res_list r) visitCoherence_0 st = Inr (True, st)" if "found g r" for r st
    by (rule visit_all_true [OF found_there [OF that] visitCoherence_0_skip])
  have two: "visitCoherence_2 g f pl st = visit_list g (concat (sync_lists g pl)) (try_node f) st" for st
  proof -
    have "visit_seq (map (\<lambda>es. visit_list g es (try_node f)) (sync_lists g pl)) st
        = visit_list g (concat (sync_lists g pl)) (try_node f) st"
      by (rule visit_seq_lists)
    moreover have "visitCoherence_2 g f pl st = visit_seq (map (\<lambda>es. visit_list g es (try_node f)) (sync_lists g pl)) st"
      unfolding visitCoherence_2_def found_visit [OF found(1)] found_visit [OF found(2)] found_visit [OF found(3)] sync_lists_def
      by (simp only: list.map res_list_simps) (rule visit_seq_skip [where fs = "[_, _, _]", simplified append.simps], simp add: skips_def skip [OF found(1)] skip [OF found(2)] skip [OF found(3), unfolded res_list_simps])
    ultimately show ?thesis by simp
  qed
  have one: "visit_list g [p] h st = h pl st" for h :: "label \<Rightarrow> search visit" and st
    using pl by (cases "h pl st") (auto simp: deref_def)
  have "visit_seq [visit_list g [p] (visitCoherence_2 g f), visit_list g [p] (try_node f), visit_list g [p] visitCoherence_0] st =
      visit_seq [visit_list g [p] (visitCoherence_2 g f), visit_list g [p] (try_node f)] st"
  proof -
    have "list_all skips [visit_list g [p] visitCoherence_0]" using pl by (simp add: skips_def visitCoherence_0_skip deref_def)
    from visit_seq_skip [OF this, where fs = "[visit_list g [p] (visitCoherence_2 g f), visit_list g [p] (try_node f)]"]
    show ?thesis by (simp only: append.simps)
  qed
  also have "\<dots> = visit_list g (concat (sync_lists g pl) @ [p]) (try_node f) st"
  proof -
    have eq: "visit_list g [p] (visitCoherence_2 g f) = visit_list g (concat (sync_lists g pl)) (try_node f)"
      by (rule ext) (simp only: one two)
    show ?thesis
      unfolding eq using visit_seq_lists [of g "try_node f" "[concat (sync_lists g pl), [p]]" st]
      by (simp only: list.map concat.simps append_Nil2)
  qed
  finally show ?thesis
    unfolding Some visit_opt_list opt_list_simps using l Some pl by (simp add: coh_succs_def)
qed

interpretation coh_search: coloured_search searchable coh_succs visitCoherence_1 "\<lambda>s. s" "\<lambda>s. s"
proof
  show "searchable g \<Longrightarrow> stamps_ok g" for g by (rule searchableD)
  show "searchable g \<Longrightarrow> containsPos g x \<Longrightarrow> y \<in> set (coh_succs g x) \<Longrightarrow> containsPos g y" for g x y
    by (rule coh_succs_there)
  show "visitCoherence_1 (Suc n) g l s =
      bindR (set_node entered l s) (\<lambda>s1.
      bindR (visit_list g (coh_succs g x) (try_node (visitCoherence_1 n g)) s1) (\<lambda>(b, s2).
      if \<not> b then Inr (False, s2) else bindR (set_node left l s2) (\<lambda>s3. Inr (True, s3))))"
    if "searchable g" "lab_at g x = Some l" for g x l n s
    by (simp only: visitCoherence_1.simps coh_visits [OF that])
qed simp_all

text \<open>What the checks answer, for the relation given by the successors.\<close>

lemma isConsistent_result:
  "searchable g \<Longrightarrow> lab_at g x = Some l \<Longrightarrow> isConsistent g l = Inr (\<not> cons_search.reach_cycle g x)"
  unfolding isConsistent_def checkConsAcyclic1_def visitConsAcyclic1_def by (rule cons_search.search_from)

lemma insertionOrder_mem: "graph_core g \<Longrightarrow> e \<in> set (insertionOrder g) \<longleftrightarrow> containsPos g e"
  by (simp add: graph_core_def order_ok_def)

lemma visitConsAcyclic1Full_result:
  "searchable g \<Longrightarrow> visitConsAcyclic1Full g = Inr (acyclic (cons_search.edges g))"
  unfolding visitConsAcyclic1Full_def by (rule cons_search.search_all) (simp_all add: insertionOrder_mem searchableD)

lemma visitCoherenceFull_result:
  "searchable g \<Longrightarrow> visitCoherenceFull g = Inr (acyclic (coh_search.edges g))"
  unfolding visitCoherenceFull_def by (rule coh_search.search_all) (simp_all add: insertionOrder_mem searchableD)

end
