(* ===== verification/SC_Order.thy ===== *)
theory SC_Order
  imports SC_Facts
begin

text \<open>
  What the absence of a cycle means: the events of the graph can be put in a line in which every read
  reads from the latest store of its location.
\<close>

section \<open>Places in a list\<close>

definition place :: "'a list \<Rightarrow> 'a \<Rightarrow> nat" where
  "place xs x = length (takeWhile (\<lambda>y. y \<noteq> x) xs)"

lemma place_nth: "x \<in> set xs \<Longrightarrow> place xs x < length xs \<and> xs ! place xs x = x"
  unfolding place_def by (induction xs) auto

lemma place_of_nth: "distinct xs \<Longrightarrow> i < length xs \<Longrightarrow> place xs (xs ! i) = i"
  using place_nth [of "xs ! i" xs] nth_eq_iff_index_eq [of xs "place xs (xs ! i)" i] by simp

lemma place_inj: "inj_on (place xs) (set xs)"
  by (rule inj_onI) (metis place_nth)

lemma place_append: "x \<in> set xs \<Longrightarrow> place (xs @ ys) x = place xs x"
  unfolding place_def by (subst takeWhile_append1) auto

lemma place_end: "x \<notin> set xs \<Longrightarrow> place (xs @ [x]) x = length xs"
  unfolding place_def by (subst takeWhile_append2) auto

lemma sorted_places:
  assumes "distinct xs"
  shows "sorted_wrt (\<lambda>x y. place xs x < place xs y) xs"
  using assms by (simp add: sorted_wrt_iff_nth_less place_of_nth)

lemma sorted_wrt_filter_places: "distinct xs \<Longrightarrow> sorted_wrt (\<lambda>x y. place xs x < place xs y) (filter P xs)"
  by (rule sorted_wrt_filter [OF sorted_places])

lemma same_order:
  fixes f :: "'a \<Rightarrow> nat"
  assumes "sorted_wrt (\<lambda>x y. f x < f y) xs" "sorted_wrt (\<lambda>x y. f x < f y) ys" "set xs = set ys" "inj_on f (set xs)"
  shows "xs = ys"
proof -
  have "sorted_wrt (<) (map f xs)" "sorted_wrt (<) (map f ys)" "set (map f ys) = set (map f xs)"
    using assms by (simp_all add: sorted_wrt_map)
  then have "map f ys = map f xs" by (rule strict_sorted_equal)
  with assms(3,4) show ?thesis by (metis inj_on_map_eq_map sup.idem)
qed

lemma take_place:
  assumes "distinct xs"
  shows "take (place xs r) xs = filter (\<lambda>x. place xs x < place xs r) xs"
proof (rule same_order [of "place xs"])
  show "sorted_wrt (\<lambda>x y. place xs x < place xs y) (take (place xs r) xs)"
    by (rule sorted_wrt_take [OF sorted_places [OF assms]])
  show "sorted_wrt (\<lambda>x y. place xs x < place xs y) (filter (\<lambda>x. place xs x < place xs r) xs)"
    by (rule sorted_wrt_filter_places [OF assms])
  show "set (take (place xs r) xs) = set (filter (\<lambda>x. place xs x < place xs r) xs)"
  proof
    show "set (take (place xs r) xs) \<subseteq> set (filter (\<lambda>x. place xs x < place xs r) xs)"
    proof
      fix x assume "x \<in> set (take (place xs r) xs)"
      then obtain i where "i < length xs" "i < place xs r" "x = xs ! i" by (auto simp: in_set_conv_nth)
      with assms show "x \<in> set (filter (\<lambda>x. place xs x < place xs r) xs)" by (simp add: place_of_nth)
    qed
    show "set (filter (\<lambda>x. place xs x < place xs r) xs) \<subseteq> set (take (place xs r) xs)"
    proof
      fix x assume "x \<in> set (filter (\<lambda>x. place xs x < place xs r) xs)"
      then have x: "x \<in> set xs" "place xs x < place xs r" by simp_all
      have "place xs x < length (take (place xs r) xs)" using place_nth [OF x(1)] x(2) by simp
      moreover have "take (place xs r) xs ! place xs x = x" using place_nth [OF x(1)] x(2) by simp
      ultimately show "x \<in> set (take (place xs r) xs)" by (metis nth_mem)
    qed
  qed
  show "inj_on (place xs) (set (take (place xs r) xs))"
    by (rule inj_on_subset [OF place_inj set_take_subset])
qed

lemma filter_initial:
  "k \<le> length xs \<Longrightarrow> (\<And>j. j < length xs \<Longrightarrow> P (xs ! j) \<longleftrightarrow> j < k) \<Longrightarrow> filter P xs = take k xs"
proof (induction xs arbitrary: k)
  case (Cons x xs)
  show ?case
  proof (cases k)
    case 0
    with Cons.prems have "\<not> P y" if "y \<in> set (x # xs)" for y using that by (metis in_set_conv_nth not_less0)
    with 0 show ?thesis by simp
  next
    case (Suc k')
    have "filter P xs = take k' xs"
    proof (rule Cons.IH)
      show "k' \<le> length xs" using Cons.prems(1) Suc by simp
      show "P (xs ! j) \<longleftrightarrow> j < k'" if "j < length xs" for j
        using Cons.prems(2) [of "Suc j"] that Suc by simp
    qed
    with Cons.prems(2) [of 0] Suc show ?thesis by simp
  qed
qed simp

section \<open>Lines\<close>

text \<open>A finite acyclic relation has a line along which it goes forward, and only then is it acyclic.\<close>

lemma line_exists:
  fixes r :: "('a \<times> 'a) set"
  assumes "finite A" "acyclic r"
  shows "\<exists>xs. distinct xs \<and> set xs = A \<and> (\<forall>(x, y) \<in> r. x \<in> A \<and> y \<in> A \<longrightarrow> place xs x < place xs y)"
  using assms
proof (induction A rule: finite_psubset_induct)
  case (psubset A)
  show ?case
  proof (cases "A = {}")
    case True
    then show ?thesis by auto
  next
    case False
    let ?r = "(r \<inter> A \<times> A)\<inverse>"
    have "acyclic ?r" using psubset.prems acyclic_subset by (fastforce simp: acyclic_converse)
    moreover have "finite ?r" using psubset.hyps(1) by simp
    ultimately have "wf ?r" by (simp add: finite_acyclic_wf)
    with False obtain m where m: "m \<in> A" "\<And>y. (y, m) \<in> ?r \<Longrightarrow> y \<notin> A" by (metis wfE_min ex_in_conv)
    from psubset.IH [of "A - {m}"] m(1) psubset.prems obtain xs where
      xs: "distinct xs" "set xs = A - {m}" "\<forall>(x, y) \<in> r. x \<in> A - {m} \<and> y \<in> A - {m} \<longrightarrow> place xs x < place xs y" by blast
    have "place (xs @ [m]) x < place (xs @ [m]) y" if "(x, y) \<in> r" "x \<in> A" "y \<in> A" for x y
    proof -
      have "x \<noteq> m" using m(2) [of y] that by auto
      then have x: "x \<in> set xs" using that(2) xs(2) by simp
      show ?thesis
      proof (cases "y = m")
        case True
        with x place_nth [OF x] xs(2) show ?thesis by (simp add: place_append place_end)
      next
        case False
        then have "y \<in> set xs" using that(3) xs(2) by simp
        with x xs(2,3) that(1) show ?thesis by (fastforce simp: place_append)
      qed
    qed
    with xs m(1) show ?thesis by (intro exI [of _ "xs @ [m]"]) auto
  qed
qed

lemma forward_trancl:
  fixes f :: "'a \<Rightarrow> nat"
  assumes "(x, y) \<in> r\<^sup>+" "\<And>x y. (x, y) \<in> r \<Longrightarrow> f x < f y"
  shows "f x < f y"
  using assms(1) by (induction rule: trancl_induct) (use assms(2) less_trans in blast)+

lemma forward_acyclic: "(\<And>x y. (x, y) \<in> r \<Longrightarrow> f x < (f y :: nat)) \<Longrightarrow> acyclic r"
  unfolding acyclic_def using forward_trancl by (metis less_irrefl)

section \<open>Interleavings\<close>

definition stores_to :: "exec_graph \<Rightarrow> saddr \<Rightarrow> event list \<Rightarrow> event list" where
  "stores_to g a es = filter (label_sat (\<lambda>l. isWrite (lb_kind l) \<and> lb_addr l = a) g) es"

definition last_store :: "exec_graph \<Rightarrow> saddr \<Rightarrow> event list \<Rightarrow> event" where
  "last_store g a es = (case stores_to g a es of [] \<Rightarrow> event_init | ws \<Rightarrow> last ws)"

text \<open>A line of all events that keeps every thread's order, starts threads after their creation and joins
  them after their end, has the stores of a location in coherence order, and lets every read see the
  last store before it.\<close>

definition interleaving :: "exec_graph \<Rightarrow> event list \<Rightarrow> bool" where
  "interleaving g es \<longleftrightarrow> distinct es \<and> (\<forall>x. x \<in> set es \<longleftrightarrow> containsPos g x) \<and>
     (\<forall>x y. containsPos g x \<and> containsPos g y \<and> thread x = thread y \<and> index x < index y \<longrightarrow> place es x < place es y) \<and>
     (\<forall>x l. lab_at g x = Some l \<and> lb_kind l = ThreadCreate \<longrightarrow> place es x < place es (Event (int (lb_childId l)) 0)) \<and>
     (\<forall>x l e. lab_at g x = Some l \<and> tj_succ l = Some e \<longrightarrow> place es x < place es e) \<and>
     (\<forall>a. stores_to g a es = co g a) \<and>
     (\<forall>x l. lab_at g x = Some l \<and> isRead (lb_kind l) \<longrightarrow>
        lb_rf l = Some (last_store g (lb_addr l) (take (place es x) es)))"

lemma label_sat_at [simp]: "lab_at g x = Some l \<Longrightarrow> label_sat P g x = P l"
  by (simp add: label_sat_def)

lemma stores_to_take:
  "distinct es \<Longrightarrow> stores_to g a (take (place es r) es) = filter (\<lambda>x. place es x < place es r) (stores_to g a es)"
  by (simp add: take_place stores_to_def filter_filter conj_commute)

lemma succ_in_nth:
  assumes "distinct ws"
  shows "succ_in w ws = Some x \<longleftrightarrow> (\<exists>i. Suc i < length ws \<and> ws ! i = w \<and> ws ! Suc i = x)"
  using assms
proof (induction w ws rule: succ_in.induct)
  case (2 w y ws)
  show ?case
  proof (cases "y = w")
    case True
    have "(\<exists>i. Suc i < length (y # ws) \<and> (y # ws) ! i = w \<and> (y # ws) ! Suc i = x) \<longleftrightarrow> ws \<noteq> [] \<and> ws ! 0 = x"
    proof
      assume "\<exists>i. Suc i < length (y # ws) \<and> (y # ws) ! i = w \<and> (y # ws) ! Suc i = x"
      then obtain i where i: "Suc i < length (y # ws)" "(y # ws) ! i = w" "(y # ws) ! Suc i = x" by blast
      have "i = 0"
      proof (rule ccontr)
        assume "i \<noteq> 0"
        with i(1,2) have "w \<in> set ws" by (cases i) auto
        with 2(2) True show False by simp
      qed
      with i show "ws \<noteq> [] \<and> ws ! 0 = x" by auto
    qed (use True in \<open>auto intro: exI [of _ 0]\<close>)
    with True show ?thesis by (cases ws) auto
  next
    case False
    have "(\<exists>i. Suc i < length (y # ws) \<and> (y # ws) ! i = w \<and> (y # ws) ! Suc i = x) \<longleftrightarrow>
        (\<exists>i. Suc i < length ws \<and> ws ! i = w \<and> ws ! Suc i = x)" (is "?L \<longleftrightarrow> ?R")
    proof
      assume ?L
      then obtain i where i: "Suc i < length (y # ws)" "(y # ws) ! i = w" "(y # ws) ! Suc i = x" by blast
      with False obtain j where "i = Suc j" by (cases i) auto
      with i show ?R by auto
    next
      assume ?R
      then obtain i where "Suc i < length ws" "ws ! i = w" "ws ! Suc i = x" by blast
      then show ?L by (intro exI [of _ "Suc i"]) simp
    qed
    with 2 False show ?thesis by simp
  qed
qed simp

section \<open>The edges of the search\<close>

lemma search_edge:
  assumes "searchable g" "lab_at g x = Some l"
  shows "(x, y) \<in> cons_search.edges g \<longleftrightarrow> y \<in> set (concat (sc_lists g l))"
  using assms(2) unfolding cons_search.edges_def sc_succs_def by (simp add: containsPos_lab del: set_concat)

lemma po_succ_eq:
  assumes "graph_core g" "lab_at g x = Some l"
  shows "po_imm_succ g l = Some y \<longleftrightarrow> containsPos g y \<and> thread y = thread x \<and> index y = index x + 1"
proof -
  have "containsPos g x" using assms(2) by (simp add: containsPos_lab)
  then show ?thesis
    unfolding po_imm_succ_def getNextLabel_def lab_pos [OF assms]
    by (cases x; cases y) (auto simp: event_next_def containsPos_def nat_add_distrib)
qed

lemma tc_succ_eq:
  assumes "searchable g" "lab_at g x = Some l"
  shows "res_list (tc_succ g l) = (if lb_kind l = ThreadCreate then [Event (int (lb_childId l)) 0] else [])"
proof (cases "lb_kind l = ThreadCreate")
  case True
  with searchableD(4) [OF assms] have "containsPos g (Event (int (lb_childId l)) 0)" by (simp add: link_ok_def)
  then obtain cl where cl: "lab_at g (Event (int (lb_childId l)) 0) = Some cl" by (auto simp: containsPos_lab)
  with searchableD(1) [OF assms(1)] have "isThreadStart (lb_kind cl)" by (simp add: graph_core_def start_ok_def)
  with cl True show ?thesis by (simp add: tc_succ_def getFirstThreadLabel_def getEventLabel_def)
qed (simp add: tc_succ_def)

lemma store_placed:
  "searchable g \<Longrightarrow> lab_at g x = Some l \<Longrightarrow> isWrite (lb_kind l) \<Longrightarrow> x \<in> set (co g (lb_addr l))"
  using searchableD(4) [of g x l] lab_pos [of g x l] searchableD(1) [of g] by (simp add: link_ok_def)

lemma placed_store:
  "searchable g \<Longrightarrow> x \<in> set (co g a) \<Longrightarrow> \<exists>l. lab_at g x = Some l \<and> isWrite (lb_kind l) \<and> lb_addr l = a"
  using searchableD(1) [of g] unfolding graph_core_def co_ok_def at_kind_def by auto

lemma co_distinct: "searchable g \<Longrightarrow> distinct (co g a)"
  using searchableD(1) [of g] unfolding graph_core_def co_ok_def by blast

lemma co_succ_eq:
  assumes "searchable g" "lab_at g x = Some l"
  shows "res_list (co_imm_succ_of g l) = (if isWrite (lb_kind l) then opt_list (succ_in x (co g (lb_addr l))) else [])"
  using co_at_placed [OF searchableD(1) [OF assms(1)] store_placed [OF assms]] store_placed [OF assms] lab_pos [OF searchableD(1) [OF assms(1)] assms(2)]
  by (simp add: co_imm_succ_of_def co_imm_succ_def)

text \<open>A read reads from a store of its location, or from the initial value.\<close>

lemma read_source:
  assumes s: "searchable g" and l: "lab_at g x = Some l" "isRead (lb_kind l)"
  obtains w wl where "lb_rf l = Some w" "lab_at g w = Some wl"
    "w = event_init \<and> \<not> isWrite (lb_kind wl) \<or> w \<noteq> event_init \<and> isWrite (lb_kind wl) \<and> lb_addr wl = lb_addr l \<and> x \<in> set (lb_readers wl)"
proof -
  note core = searchableD(1) [OF s]
  from searchableD(4) [OF s l(1)] l(2) obtain w wl where w: "lb_rf l = Some w" "lab_at g w = Some wl" "isWrite (lb_kind wl) \<longrightarrow> lb_addr wl = lb_addr l"
    by (auto simp: link_ok_def label_sat_def split: option.splits)
  have r: "x \<in> set (readers_of g w (lb_addr l))" using core l w(1) unfolding graph_core_def rf_ok_def by blast
  have i: "lb_kind wl = Init \<longleftrightarrow> w = event_init"
    using core w(2) unfolding graph_core_def start_ok_def at_kind_def by auto
  show ?thesis
  proof (rule that [OF w(1,2)])
    show "w = event_init \<and> \<not> isWrite (lb_kind wl) \<or> w \<noteq> event_init \<and> isWrite (lb_kind wl) \<and> lb_addr wl = lb_addr l \<and> x \<in> set (lb_readers wl)"
    proof (cases "isWrite (lb_kind wl)")
      case True
      then have "lb_kind wl \<noteq> Init" by (auto simp: kind_defs)
      with True i r w(2,3) show ?thesis by (simp add: readers_of_def)
    next
      case False
      with i r w(2) show ?thesis by (simp add: readers_of_def split: if_splits)
    qed
  qed
qed

lemma fr_succ_eq:
  assumes s: "searchable g" and l: "lab_at g x = Some l" "isRead (lb_kind l)" and w: "lb_rf l = Some w"
  shows "res_list (fr_imm_succ_of g l) =
    opt_list (if w = event_init then (case co g (lb_addr l) of [] \<Rightarrow> None | y # _ \<Rightarrow> Some y) else succ_in w (co g (lb_addr l)))"
proof -
  note core = searchableD(1) [OF s]
  obtain v wl where v: "lb_rf l = Some v" "lab_at g v = Some wl"
    "v = event_init \<and> \<not> isWrite (lb_kind wl) \<or> v \<noteq> event_init \<and> isWrite (lb_kind wl) \<and> lb_addr wl = lb_addr l \<and> x \<in> set (lb_readers wl)"
    by (rule read_source [OF s l])
  from v(1) w have "v = w" by simp
  note wl = v(2,3) [unfolded this]
  have a: "co_at g (lb_addr l) = Inr (co g (lb_addr l))"
    using co_at_access [OF core l(1)] pointer_classes(2) [OF l(2)] by simp
  show ?thesis
  proof (cases "isWrite (lb_kind wl)")
    case True
    have "fr_imm_succ_of g l = co_imm_succ g wl" using l(2) w wl(1) True by (simp add: fr_imm_succ_of_def fr_imm_succ_def deref_def)
    moreover have "res_list (co_imm_succ g wl) = opt_list (succ_in w (co g (lb_addr wl)))"
      using co_succ_eq [OF s wl(1)] True by (simp add: co_imm_succ_of_def)
    moreover have "w \<noteq> event_init" "lb_addr wl = lb_addr l" using wl(2) True by blast+
    ultimately show ?thesis by simp
  next
    case False
    have "w = event_init" using wl(2) False by blast
    moreover have "fr_imm_succ_of g l = Inr (case co g (lb_addr l) of [] \<Rightarrow> None | y # _ \<Rightarrow> Some y)"
      using l(2) w wl(1) False a by (simp add: fr_imm_succ_of_def fr_imm_succ_def deref_def)
    ultimately show ?thesis by simp
  qed
qed

end
