(* ===== verification/SC_Lines.thy ===== *)
theory SC_Lines
  imports SC_Order
begin

text \<open>
  The relation searched by the checker for sequential consistency has no cycle exactly when the graph
  has an interleaving: from a line along the relation to an interleaving, and back.
\<close>

section \<open>Coherence along a line\<close>

lemma succ_in_line:
  assumes "distinct ws" "\<And>w x. succ_in w ws = Some x \<Longrightarrow> f w < (f x :: nat)"
  shows "sorted_wrt (\<lambda>x y. f x < f y) ws"
proof -
  have "f (ws ! i) < f (ws ! Suc i)" if "Suc i < length ws" for i
    using assms(2) [of "ws ! i" "ws ! Suc i"] succ_in_nth [OF assms(1)] that by blast
  moreover have "transp (\<lambda>x y. f x < f y)" by (rule transpI) simp
  ultimately show ?thesis by (simp add: sorted_wrt_iff_nth_Suc_transp)
qed

text \<open>In a list ordered by a place, a prefix is cut off by a place between two neighbours.\<close>

lemma cut_at:
  assumes s: "sorted_wrt (\<lambda>x y. f x < (f y :: nat)) ws" and k: "k \<le> length ws"
    and before: "k > 0 \<Longrightarrow> f (ws ! (k - 1)) < n" and behind: "k < length ws \<Longrightarrow> n \<le> f (ws ! k)"
  shows "filter (\<lambda>x. f x < n) ws = take k ws"
proof (rule filter_initial [OF k])
  fix j assume j: "j < length ws"
  show "f (ws ! j) < n \<longleftrightarrow> j < k"
  proof
    assume a: "f (ws ! j) < n"
    show "j < k"
    proof (rule ccontr)
      assume "\<not> j < k"
      with j have "k < length ws" "k = j \<or> k < j" by auto
      with s j have "f (ws ! k) \<le> f (ws ! j)" by (auto simp: sorted_wrt_iff_nth_less less_imp_le)
      with behind \<open>k < length ws\<close> a show False by simp
    qed
  next
    assume "j < k"
    then have "j = k - 1 \<or> j < k - 1" "k - 1 < length ws" using k by auto
    with s have "f (ws ! j) \<le> f (ws ! (k - 1))" by (auto simp: sorted_wrt_iff_nth_less less_imp_le)
    with before \<open>j < k\<close> show "f (ws ! j) < n" by simp
  qed
qed

section \<open>From a line to an interleaving\<close>

lemma line_po:
  assumes line: "\<And>x y. (x, y) \<in> cons_search.edges g \<Longrightarrow> f x < (f y :: nat)" and s: "searchable g"
  shows "containsPos g (Event t (i + int (Suc n))) \<Longrightarrow> 0 \<le> i \<Longrightarrow> f (Event t i) < f (Event t (i + int (Suc n)))"
proof (induction n)
  case (Suc n)
  have c: "containsPos g (Event t (i + int (Suc n)))" using Suc.prems by (auto simp: containsPos_def)
  then obtain l where l: "lab_at g (Event t (i + int (Suc n))) = Some l" by (auto simp: containsPos_lab)
  have "po_imm_succ g l = Some (Event t (i + int (Suc (Suc n))))"
    using po_succ_eq [OF searchableD(1) [OF s] l] Suc.prems by simp
  then have "(Event t (i + int (Suc n)), Event t (i + int (Suc (Suc n)))) \<in> cons_search.edges g"
    by (simp add: search_edge [OF s l] sc_lists_def del: of_nat_Suc)
  from line [OF this] Suc.IH [OF c Suc.prems(2)] show ?case by simp
next
  case 0
  then have c: "containsPos g (Event t i)" by (auto simp: containsPos_def)
  then obtain l where l: "lab_at g (Event t i) = Some l" by (auto simp: containsPos_lab)
  have "po_imm_succ g l = Some (Event t (i + 1))"
    using po_succ_eq [OF searchableD(1) [OF s] l] 0 by simp
  then have "(Event t i, Event t (i + 1)) \<in> cons_search.edges g"
    by (simp add: search_edge [OF s l] sc_lists_def)
  from line [OF this] show ?case by simp
qed

lemma line_threads:
  assumes line: "\<And>x y. (x, y) \<in> cons_search.edges g \<Longrightarrow> f x < (f y :: nat)" and s: "searchable g"
    and xy: "containsPos g x" "containsPos g y" "thread x = thread y" "index x < index y"
  shows "f x < f y"
proof -
  obtain t i where x: "x = Event t i" by (cases x)
  have "index y = i + int (Suc (nat (index y - i) - 1))" using xy(4) x by simp
  then obtain n where y: "y = Event t (i + int (Suc n))" using xy(3) x by (metis event.collapse event.sel(1))
  from xy(1) x have "0 \<le> i" by (simp add: containsPos_def)
  with line_po [OF _ s xy(2) [unfolded y], of f] line show ?thesis unfolding x y by blast
qed

lemma line_coherence:
  assumes line: "\<And>x y. (x, y) \<in> cons_search.edges g \<Longrightarrow> f x < (f y :: nat)" and s: "searchable g"
  shows "sorted_wrt (\<lambda>x y. f x < f y) (co g a)"
proof (rule succ_in_line [OF co_distinct [OF s]])
  fix w x assume wx: "succ_in w (co g a) = Some x"
  have "w \<in> set (co g a)" using wx succ_in_nth [OF co_distinct [OF s]] by (metis Suc_lessD nth_mem)
  from placed_store [OF s this] obtain l where l: "lab_at g w = Some l" "isWrite (lb_kind l)" "lb_addr l = a" by blast
  then have "(w, x) \<in> cons_search.edges g"
    using wx by (simp add: search_edge [OF s l(1)] sc_lists_def co_succ_eq [OF s l(1)])
  then show "f w < f x" by (rule line)
qed

lemma line_stores:
  assumes es: "distinct es" "\<And>x. x \<in> set es \<longleftrightarrow> containsPos g x"
    and line: "\<And>x y. (x, y) \<in> cons_search.edges g \<Longrightarrow> place es x < place es y" and s: "searchable g"
  shows "stores_to g a es = co g a"
proof (rule same_order)
  show "sorted_wrt (\<lambda>x y. place es x < place es y) (stores_to g a es)"
    unfolding stores_to_def by (rule sorted_wrt_filter_places [OF es(1)])
  show "sorted_wrt (\<lambda>x y. place es x < place es y) (co g a)" by (rule line_coherence [OF line s])
  show "set (stores_to g a es) = set (co g a)"
  proof (intro set_eqI iffI)
    fix x assume "x \<in> set (stores_to g a es)"
    then obtain l where "lab_at g x = Some l" "isWrite (lb_kind l)" "lb_addr l = a"
      by (auto simp: stores_to_def label_sat_def split: option.splits)
    with store_placed [OF s] show "x \<in> set (co g a)" by blast
  next
    fix x assume "x \<in> set (co g a)"
    from placed_store [OF s this] show "x \<in> set (stores_to g a es)"
      by (auto simp: stores_to_def es(2) containsPos_lab)
  qed
  show "inj_on (place es) (set (stores_to g a es))"
    by (rule inj_on_subset [OF place_inj]) (auto simp: stores_to_def)
qed

lemma last_store_if: "last_store g a es = (if stores_to g a es = [] then event_init else last (stores_to g a es))"
  by (simp add: last_store_def split: list.splits)

lemma line_reads:
  assumes es: "distinct es" "\<And>x. x \<in> set es \<longleftrightarrow> containsPos g x"
    and line: "\<And>x y. (x, y) \<in> cons_search.edges g \<Longrightarrow> place es x < place es y" and s: "searchable g"
    and l: "lab_at g x = Some l" "isRead (lb_kind l)"
  shows "lb_rf l = Some (last_store g (lb_addr l) (take (place es x) es))"
proof -
  let ?ws = "co g (lb_addr l)" and ?n = "place es x"
  have stores: "stores_to g (lb_addr l) (take ?n es) = filter (\<lambda>y. place es y < ?n) ?ws"
    using stores_to_take [OF es(1)] line_stores [OF es line s] by simp
  have sorted: "sorted_wrt (\<lambda>x y. place es x < place es y) ?ws" by (rule line_coherence [OF line s])
  obtain w wl where w: "lb_rf l = Some w" "lab_at g w = Some wl"
    "w = event_init \<and> \<not> isWrite (lb_kind wl) \<or> w \<noteq> event_init \<and> isWrite (lb_kind wl) \<and> lb_addr wl = lb_addr l \<and> x \<in> set (lb_readers wl)"
    by (rule read_source [OF s l])
  have fr: "?n < place es y" if "y \<in> set (res_list (fr_imm_succ_of g l))" for y
    by (rule line) (use that in \<open>simp add: search_edge [OF s l(1)] sc_lists_def\<close>)
  show ?thesis
  proof (cases "w = event_init")
    case True
    have "filter (\<lambda>y. place es y < ?n) ?ws = take 0 ?ws"
    proof (rule cut_at [OF sorted])
      assume "0 < length ?ws"
      then have "?ws ! 0 \<in> set (res_list (fr_imm_succ_of g l))"
        using fr_succ_eq [OF s l w(1)] True by (cases ?ws) simp_all
      from fr [OF this] show "?n \<le> place es (?ws ! 0)" by simp
    qed simp_all
    with stores w(1) True show ?thesis by (simp add: last_store_def)
  next
    case False
    with w(3) have wl: "isWrite (lb_kind wl)" "lb_addr wl = lb_addr l" "x \<in> set (lb_readers wl)" by blast+
    then have "w \<in> set ?ws" using store_placed [OF s w(2)] by simp
    then obtain i where i: "i < length ?ws" "?ws ! i = w" by (auto simp: in_set_conv_nth)
    have "(w, x) \<in> cons_search.edges g"
      using wl by (simp add: search_edge [OF s w(2)] sc_lists_def rf_succs_def)
    then have "place es w < ?n" by (rule line)
    have "filter (\<lambda>y. place es y < ?n) ?ws = take (Suc i) ?ws"
    proof (rule cut_at [OF sorted])
      show "Suc i \<le> length ?ws" using i by simp
      show "place es (?ws ! (Suc i - 1)) < ?n" using i \<open>place es w < ?n\<close> by simp
      assume "Suc i < length ?ws"
      then have "succ_in w ?ws = Some (?ws ! Suc i)" using succ_in_nth [OF co_distinct [OF s]] i by blast
      then have "?ws ! Suc i \<in> set (res_list (fr_imm_succ_of g l))"
        using fr_succ_eq [OF s l w(1)] False by simp
      from fr [OF this] show "?n \<le> place es (?ws ! Suc i)" by simp
    qed
    moreover have "take (Suc i) ?ws = take i ?ws @ [w]" using i by (simp add: take_Suc_conv_app_nth)
    ultimately show ?thesis using stores w(1) by (simp add: last_store_if)
  qed
qed

lemma line_interleaving:
  assumes es: "distinct es" "\<And>x. x \<in> set es \<longleftrightarrow> containsPos g x"
    and line: "\<And>x y. (x, y) \<in> cons_search.edges g \<Longrightarrow> place es x < place es y" and s: "searchable g"
  shows "interleaving g es"
  unfolding interleaving_def
proof (intro conjI allI impI es)
  show "place es x < place es y" if "containsPos g x \<and> containsPos g y \<and> thread x = thread y \<and> index x < index y" for x y
    using line_threads [OF _ s, of "place es"] line that by blast
  show "place es x < place es (Event (int (lb_childId l)) 0)" if "lab_at g x = Some l \<and> lb_kind l = ThreadCreate" for x l
  proof (rule line)
    from that have l: "lab_at g x = Some l" "lb_kind l = ThreadCreate" by blast+
    with tc_succ_eq [OF s l(1)] show "(x, Event (int (lb_childId l)) 0) \<in> cons_search.edges g"
      by (simp add: search_edge [OF s l(1)] sc_lists_def)
  qed
  show "place es x < place es e" if "lab_at g x = Some l \<and> tj_succ l = Some e" for x l e
    by (rule line) (use that in \<open>simp add: search_edge [OF s] sc_lists_def\<close>)
  show "stores_to g a es = co g a" for a by (rule line_stores [OF es line s])
  show "lb_rf l = Some (last_store g (lb_addr l) (take (place es x) es))"
    if "lab_at g x = Some l \<and> isRead (lb_kind l)" for x l
    using line_reads [OF es line s] that by blast
qed

section \<open>From an interleaving to a line\<close>

lemma interleavingD:
  assumes "interleaving g es"
  shows "distinct es" "x \<in> set es \<longleftrightarrow> containsPos g x"
    "containsPos g x \<Longrightarrow> containsPos g y \<Longrightarrow> thread x = thread y \<Longrightarrow> index x < index y \<Longrightarrow> place es x < place es y"
    "lab_at g x = Some l \<Longrightarrow> lb_kind l = ThreadCreate \<Longrightarrow> place es x < place es (Event (int (lb_childId l)) 0)"
    "lab_at g x = Some l \<Longrightarrow> tj_succ l = Some e \<Longrightarrow> place es x < place es e"
    "stores_to g a es = co g a"
    "lab_at g x = Some l \<Longrightarrow> isRead (lb_kind l) \<Longrightarrow> lb_rf l = Some (last_store g (lb_addr l) (take (place es x) es))"
  using assms unfolding interleaving_def by blast+

lemma interleaving_co:
  assumes i: "interleaving g es"
  shows "sorted_wrt (\<lambda>x y. place es x < place es y) (co g a)"
  by (subst interleavingD(6) [OF i, symmetric]) (simp only: stores_to_def sorted_wrt_filter_places [OF interleavingD(1) [OF i]])

lemma interleaving_succ:
  "interleaving g es \<Longrightarrow> searchable g \<Longrightarrow> succ_in w (co g a) = Some y \<Longrightarrow> place es w < place es y"
  using interleaving_co [of g es a] succ_in_nth [OF co_distinct, of g w a y]
  by (auto simp: sorted_wrt_iff_nth_less)

text \<open>The stores before a read, as a prefix of coherence that ends in the store it reads from.\<close>

lemma interleaving_read:
  assumes i: "interleaving g es" and l: "lab_at g x = Some l" "isRead (lb_kind l)" and w: "lb_rf l = Some w"
  shows "(w = event_init \<and> (\<forall>y \<in> set (co g (lb_addr l)). \<not> place es y < place es x)) \<or>
     (w \<in> set (co g (lb_addr l)) \<and> place es w < place es x \<and>
      (\<forall>y \<in> set (co g (lb_addr l)). place es y < place es x \<longrightarrow> place es y \<le> place es w))"
proof -
  let ?ws = "filter (\<lambda>y. place es y < place es x) (co g (lb_addr l))"
  have stores: "stores_to g (lb_addr l) (take (place es x) es) = ?ws"
    using stores_to_take [OF interleavingD(1) [OF i]] interleavingD(6) [OF i] by simp
  show ?thesis
  proof (cases "?ws = []")
    case True
    with stores interleavingD(7) [OF i l] w show ?thesis by (auto simp: last_store_def filter_empty_conv)
  next
    case False
    with stores interleavingD(7) [OF i l] w have w: "w = last ?ws" by (simp add: last_store_if)
    with False have "w \<in> set ?ws" by (metis last_in_set)
    moreover have "place es y \<le> place es w" if y: "y \<in> set ?ws" for y
    proof -
      obtain ys where ys: "?ws = ys @ [w]" using w False by (metis append_butlast_last_id)
      have "sorted_wrt (\<lambda>x y. place es x < place es y) ?ws" by (rule sorted_wrt_filter [OF interleaving_co [OF i]])
      with ys y show ?thesis by (auto simp: sorted_wrt_append less_imp_le)
    qed
    ultimately show ?thesis by auto
  qed
qed


lemma interleaving_line:
  assumes i: "interleaving g es" and s: "searchable g" and xy: "(x, y) \<in> cons_search.edges g"
  shows "place es x < place es y"
proof -
  note core = searchableD(1) [OF s]
  obtain l where l: "lab_at g x = Some l" using xy by (auto simp: cons_search.edges_def containsPos_lab)
  from xy have "y \<in> set (concat (sc_lists g l))" by (simp add: search_edge [OF s l] del: set_concat)
  then consider (tc) "y \<in> set (res_list (tc_succ g l))" | (tj) "tj_succ l = Some y" | (rf) "y \<in> set (rf_succs l)"
    | (co) "y \<in> set (res_list (co_imm_succ_of g l))" | (fr) "y \<in> set (res_list (fr_imm_succ_of g l))" | (po) "po_imm_succ g l = Some y"
    by (auto simp: sc_lists_def opt_list_def split: option.splits)
  then show ?thesis
  proof cases
    case tc
    with interleavingD(4) [OF i l] show ?thesis by (simp add: tc_succ_eq [OF s l] split: if_splits)
  next
    case tj
    with interleavingD(5) [OF i l] show ?thesis by simp
  next
    case rf
    then have w: "isWrite (lb_kind l)" "y \<in> set (readers_of g x (lb_addr l))"
      using l by (auto simp: rf_succs_def readers_of_def split: if_splits)
    then have "at_kind isRead g y (\<lambda>l'. lb_rf l' = Some x)"
      using core unfolding graph_core_def rf_ok_def at_kind_def by blast
    then obtain yl where yl: "lab_at g y = Some yl" "isRead (lb_kind yl)" "lb_rf yl = Some x" by (auto simp: at_kind_def)
    have "x \<noteq> event_init" using w(1) l core unfolding graph_core_def start_ok_def at_kind_def by (auto simp: kind_defs)
    with interleaving_read [OF i yl] show ?thesis by blast
  next
    case co
    then have "succ_in x (co g (lb_addr l)) = Some y" 
      by (cases "succ_in x (co g (lb_addr l))"; cases "isWrite (lb_kind l)") (simp_all add: co_succ_eq [OF s l])
    then show ?thesis by (rule interleaving_succ [OF i s])
  next
    case fr
    then have r: "isRead (lb_kind l)" by (auto simp: fr_imm_succ_of_def split: if_splits)
    obtain w where w: "lb_rf l = Some w" using read_source [OF s l r] by metis
    have y: "y \<in> set (co g (lb_addr l)) \<and> \<not> place es y < place es x"
    proof (cases "w = event_init")
      case True
      with fr fr_succ_eq [OF s l r w] have "y \<in> set (co g (lb_addr l))" by (auto split: list.splits)
      moreover have "event_init \<notin> set (co g (lb_addr l))"
        using placed_store [OF s, of event_init] core unfolding graph_core_def start_ok_def at_kind_def by (auto simp: kind_defs)
      ultimately show ?thesis using interleaving_read [OF i l r w] True by blast
    next
      case False
      with fr fr_succ_eq [OF s l r w] have yw: "succ_in w (co g (lb_addr l)) = Some y" by (simp add: opt_list_def split: option.splits)
      with succ_in_mem interleaving_succ [OF i s yw] interleaving_read [OF i l r w] False show ?thesis by fastforce
    qed
    then obtain yl where yl: "lab_at g y = Some yl" "isWrite (lb_kind yl)" using placed_store [OF s] by blast
    have "x \<noteq> y" using yl l r kind_disjoint(2) by auto
    moreover have "x \<in> set es" "y \<in> set es" using l yl interleavingD(2) [OF i] by (auto simp: containsPos_lab)
    ultimately have "place es x \<noteq> place es y" using place_inj [of es] by (meson inj_onD)
    with y show ?thesis by simp
  next
    case po
    from iffD1 [OF po_succ_eq [OF core l] this] have "containsPos g y" "thread y = thread x" "index x < index y" by simp_all
    moreover have "containsPos g x" using l by (simp add: containsPos_lab)
    ultimately show ?thesis using interleavingD(3) [OF i] by metis
  qed
qed

section \<open>The two notions agree\<close>

lemma acyclic_interleaving:
  assumes s: "searchable g"
  shows "acyclic (cons_search.edges g) \<longleftrightarrow> (\<exists>es. interleaving g es)"
proof
  assume "acyclic (cons_search.edges g)"
  from line_exists [OF positions_finite [of g] this] obtain es where
    es: "distinct es" "set es = {e. containsPos g e}"
    "\<forall>(x, y) \<in> cons_search.edges g. x \<in> {e. containsPos g e} \<and> y \<in> {e. containsPos g e} \<longrightarrow> place es x < place es y" by blast
  have "place es x < place es y" if "(x, y) \<in> cons_search.edges g" for x y
  proof -
    have "containsPos g x" "y \<in> set (sc_succs g x)" using that by (simp_all add: cons_search.edges_def)
    with sc_succs_there [OF s] es(3) that show ?thesis by blast
  qed
  then have "interleaving g es" by (intro line_interleaving [OF es(1) _ _ s]) (simp_all add: es(2))
  then show "\<exists>es. interleaving g es" by blast
next
  assume "\<exists>es. interleaving g es"
  then show "acyclic (cons_search.edges g)" using interleaving_line [OF _ s] forward_acyclic by metis
qed

end
