(* ===== verification/SC_Views.thy ===== *)
theory SC_Views
  imports SC_Lines
begin

text \<open>
  The happens-before views that the checker caches in the labels: a label's view holds exactly the
  events that happen before it, when the views of those events do.
\<close>

section \<open>Happens-before\<close>

text \<open>What the view calculation steps back to: the label in front, and the labels it synchronizes with.\<close>

definition happens_before :: "exec_graph \<Rightarrow> (event \<times> event) set" where
  "happens_before g = {(y, x). containsPos g x \<and> y \<in> set (coh_succs g x)}\<^sup>+"

lemma happens_before_edges: "(y, x) \<in> happens_before g \<longleftrightarrow> (x, y) \<in> (coh_search.edges g)\<^sup>+"
proof -
  have "{(y, x). containsPos g x \<and> y \<in> set (coh_succs g x)} = (coh_search.edges g)\<inverse>"
    by (auto simp: coh_search.edges_def)
  then show ?thesis by (simp add: happens_before_def trancl_converse)
qed

definition before :: "exec_graph \<Rightarrow> event \<Rightarrow> event set" where
  "before g x = {y. (y, x) \<in> happens_before g}"

lemma before_step:
  assumes "containsPos g x"
  shows "before g x = (\<Union>y \<in> set (coh_succs g x). insert y (before g y))"
proof (intro set_eqI iffI)
  fix z assume "z \<in> before g x"
  then have "(x, z) \<in> (coh_search.edges g)\<^sup>+" by (simp add: before_def happens_before_edges)
  then obtain y where "(x, y) \<in> coh_search.edges g" "(y, z) \<in> (coh_search.edges g)\<^sup>*" by (meson tranclD)
  then show "z \<in> (\<Union>y \<in> set (coh_succs g x). insert y (before g y))"
    by (auto simp: coh_search.edges_def before_def happens_before_edges rtrancl_eq_or_trancl)
next
  fix z assume "z \<in> (\<Union>y \<in> set (coh_succs g x). insert y (before g y))"
  then obtain y where y: "y \<in> set (coh_succs g x)" "z = y \<or> z \<in> before g y" by blast
  have "(x, y) \<in> coh_search.edges g" using assms y(1) by (simp add: coh_search.edges_def)
  with y(2) show "z \<in> before g x" by (auto simp: before_def happens_before_edges intro: trancl_into_trancl2)
qed

lemma before_there: "searchable g \<Longrightarrow> y \<in> before g x \<Longrightarrow> containsPos g y"
  unfolding before_def happens_before_edges mem_Collect_eq
  by (erule tranclE) (auto simp: coh_search.edges_def coh_succs_there)

lemma before_trans: "y \<in> before g x \<Longrightarrow> z \<in> before g y \<Longrightarrow> z \<in> before g x"
  unfolding before_def happens_before_def by (auto intro: trancl_trans)

text \<open>The label in front of a label is among its direct predecessors, hence program order is.\<close>

lemma prev_in_succs:
  assumes "searchable g" "containsPos g (Event t (i + 1))" "0 \<le> i"
  shows "Event t i \<in> set (coh_succs g (Event t (i + 1)))"
proof -
  obtain l where l: "lab_at g (Event t (i + 1)) = Some l" using assms(2) by (auto simp: containsPos_lab)
  have "containsPos g (Event t i)" using assms(2,3) by (auto simp: containsPos_def)
  then obtain pl where pl: "lab_at g (Event t i) = Some pl" by (auto simp: containsPos_lab)
  have "po_imm_pred g l = Some (Event t i)"
    using lab_pos [OF searchableD(1) [OF assms(1)] l] assms(3) by (simp add: po_imm_pred_def getPreviousLabel_def event_prev_def)
  with l pl show ?thesis by (simp add: coh_succs_def)
qed

lemma po_before:
  assumes "searchable g" "0 \<le> i"
  shows "containsPos g (Event t (i + int (Suc n))) \<Longrightarrow> Event t i \<in> before g (Event t (i + int (Suc n)))"
proof (induction n)
  case 0
  then have "containsPos g (Event t (i + 1))" by simp
  from prev_in_succs [OF assms(1) this assms(2)] before_step [OF this] show ?case by auto
next
  case (Suc n)
  let ?y = "Event t (i + int (Suc n))" and ?x = "Event t (i + int (Suc n) + 1)"
  have eq: "i + int (Suc (Suc n)) = i + int (Suc n) + 1" by simp
  have c: "containsPos g ?x" using Suc.prems unfolding eq .
  then have "containsPos g ?y" using assms(2) by (auto simp: containsPos_def)
  from Suc.IH [OF this] have "Event t i \<in> before g ?y" .
  moreover have "?y \<in> set (coh_succs g ?x)" by (rule prev_in_succs [OF assms(1) c]) (use assms(2) in simp)
  then have "?y \<in> before g ?x" unfolding before_step [OF c] by blast
  ultimately show ?case unfolding eq by (rule before_trans [rotated])
qed

lemma po_le_before:
  assumes "searchable g" "containsPos g x" "containsPos g y" "thread x = thread y" "index x \<le> index y"
  shows "x = y \<or> x \<in> before g y"
proof (cases "x = y")
  case False
  obtain t i where x: "x = Event t i" by (cases x)
  with assms(4,5) False have "index y = i + int (Suc (nat (index y - i) - 1))" by (cases y) auto
  then obtain n where y: "y = Event t (i + int (Suc n))" using assms(4) x by (metis event.collapse event.sel(1))
  from assms(2) x have "0 \<le> i" by (simp add: containsPos_def)
  from po_before [OF assms(1) this] assms(3) show ?thesis unfolding x y by blast
qed simp

section \<open>What a view holds\<close>

text \<open>A view counts an entry that is missing as zero, so it always holds the first label of a thread.\<close>

definition holds :: "exec_graph \<Rightarrow> view \<Rightarrow> event set \<Rightarrow> bool" where
  "holds g v es \<longleftrightarrow> view_inv v \<and>
     (\<forall>e. containsPos g e \<and> 0 < index e \<longrightarrow> (index e \<le> vmax v (nat (thread e)) \<longleftrightarrow> e \<in> es))"

lemma contains_valid: "containsPos g e \<Longrightarrow> valid e"
  by (simp add: containsPos_def valid_def)


lemma holds_empty: "holds g [] {}"
  by (auto simp: holds_def view_inv_def)

lemma holds_contains:
  "holds g v es \<Longrightarrow> containsPos g e \<Longrightarrow> 0 < index e \<Longrightarrow> view_contains v e = Inr (e \<in> es)"
  by (simp add: holds_def contains_valid)

lemma holds_update:
  assumes "holds g v es" "holds g w fs"
  obtains u where "view_update v w = Inr u" "holds g u (es \<union> fs)"
proof -
  from view_update_vmax [of v w] obtain u where u: "view_update v w = Inr u"
    "\<forall>n. vmax u n = (if w = [] then vmax v n else max (vmax v n) (vmax w n))" by blast
  have n: "0 \<le> vmax v n" for n using assms(1) by (simp add: holds_def view_inv_vmax)
  have "vmax u n = max (vmax v n) (vmax w n)" for n
    using u(2) n [of n] by (cases "w = []") (simp_all add: max_def)
  with assms have "holds g u (es \<union> fs)" by (auto simp: holds_def view_inv_vmax le_max_iff_disj)
  with u(1) that show ?thesis by blast
qed

text \<open>Adding a label to a view adds what comes before it in its thread.\<close>

definition upto_label :: "exec_graph \<Rightarrow> event \<Rightarrow> event set" where
  "upto_label g y = {z. containsPos g z \<and> thread z = thread y \<and> index z \<le> index y}"

lemma upto_before: "searchable g \<Longrightarrow> containsPos g y \<Longrightarrow> upto_label g y \<union> before g y = insert y (before g y)"
  using po_le_before [of g _ y] by (auto simp: upto_label_def)

lemma holds_updateIdx:
  assumes h: "holds g v es" and y: "containsPos g y"
  obtains u where "view_updateIdx v y = Inr u" "holds g u (es \<union> upto_label g y)"
proof -
  from view_updateIdx_vmax [OF contains_valid [OF y], of v] obtain u where u: "view_updateIdx v y = Inr u"
    "\<And>n. vmax u n = (if n = nat (thread y) then max (vmax v n) (index y) else vmax v n)" by blast
  have "nat (thread e) = nat (thread y) \<longleftrightarrow> thread e = thread y" if "containsPos g e" for e
    using that y by (auto simp: containsPos_def)
  moreover have "0 \<le> index y" using y by (simp add: containsPos_def)
  ultimately have "holds g u (es \<union> upto_label g y)"
    using h by (auto simp: holds_def view_inv_vmax u(2) upto_label_def le_max_iff_disj)
  with u(1) that show ?thesis by blast
qed

section \<open>Visitors that collect views\<close>

definition adds :: "exec_graph \<Rightarrow> view visit \<Rightarrow> event set \<Rightarrow> bool" where
  "adds g f fs \<longleftrightarrow> (\<forall>v es. holds g v es \<longrightarrow> (\<exists>u. f v = Inr (True, u) \<and> holds g u (es \<union> fs)))"

lemma addsE:
  assumes "adds g f fs" "holds g v es"
  obtains u where "f v = Inr (True, u)" "holds g u (es \<union> fs)"
  using assms unfolding adds_def by blast

lemma adds_list:
  "(\<And>y. y \<in> set ys \<Longrightarrow> \<exists>l. lab_at g y = Some l \<and> adds g (f l) (F y)) \<Longrightarrow> adds g (visit_list g ys f) (\<Union>(F ` set ys))"
proof (induction ys)
  case Nil
  then show ?case by (simp add: adds_def)
next
  case (Cons y ys)
  from Cons.prems [of y] obtain l where l: "lab_at g y = Some l" "adds g (f l) (F y)" by auto
  have ys: "adds g (visit_list g ys f) (\<Union>(F ` set ys))" by (rule Cons.IH) (simp add: Cons.prems)
  show ?case
    unfolding adds_def
  proof (intro allI impI)
    fix v es assume "holds g v es"
    from addsE [OF l(2) this] obtain u where u: "f l v = Inr (True, u)" "holds g u (es \<union> F y)" .
    from addsE [OF ys u(2)] obtain u' where "visit_list g ys f u = Inr (True, u')" "holds g u' (es \<union> F y \<union> \<Union>(F ` set ys))" .
    with u(1) l(1) show "\<exists>u. visit_list g (y # ys) f v = Inr (True, u) \<and> holds g u (es \<union> \<Union>(F ` set (y # ys)))"
      by (simp add: deref_def Un_assoc)
  qed
qed

lemma adds_seq: "list_all2 (adds g) fs Fs \<Longrightarrow> adds g (visit_seq fs) (\<Union>(set Fs))"
proof (induction rule: list_all2_induct)
  case Nil
  then show ?case by (simp add: adds_def)
next
  case (Cons f fs F Fs)
  show ?case
    unfolding adds_def
  proof (intro allI impI)
    fix v es assume "holds g v es"
    from addsE [OF Cons.hyps(1) this] obtain u where u: "f v = Inr (True, u)" "holds g u (es \<union> F)" .
    from addsE [OF Cons.IH u(2)] obtain u' where "visit_seq fs u = Inr (True, u')" "holds g u' (es \<union> F \<union> \<Union>(set Fs))" .
    with u(1) show "\<exists>u. visit_seq (f # fs) v = Inr (True, u) \<and> holds g u (es \<union> \<Union>(set (F # Fs)))"
      by (simp add: Un_assoc)
  qed
qed

lemma adds_seq3:
  assumes "adds g f1 A" "adds g f2 B" "adds g f3 C" "A \<union> B \<union> C = D"
  shows "adds g (visit_seq [f1, f2, f3]) D"
  using adds_seq [of g "[f1, f2, f3]" "[A, B, C]"] assms by (simp add: Un_assoc)

lemma adds_seq6:
  assumes "adds g f1 A" "adds g f2 B" "adds g f3 C" "adds g f4 A'" "adds g f5 B'" "adds g f6 C'"
    and "A \<union> B \<union> C \<union> (A' \<union> B' \<union> C') = D"
  shows "adds g (visit_seq [f1, f2, f3, f4, f5, f6]) D"
  using adds_seq [of g "[f1, f2, f3, f4, f5, f6]" "[A, B, C, A', B', C']"] assms by (simp add: Un_assoc)

text \<open>A label whose view is right.\<close>

definition view_right :: "exec_graph \<Rightarrow> event \<Rightarrow> bool" where
  "view_right g y \<longleftrightarrow> (\<exists>l w. lab_at g y = Some l \<and> lab_view l 0 = Inr w \<and> holds g w (before g y))"

lemma adds_label:
  assumes "searchable g" "lab_at g y = Some l"
  shows "adds g (visitCalc57_add g l) (upto_label g y)" "adds g (visitCalc62_add g l) (upto_label g y)"
proof -
  have y: "containsPos g y" "lb_pos l = y" using assms lab_pos [OF searchableD(1)] by (auto simp: containsPos_lab)
  have "\<exists>u. view_updateIdx v y = Inr u \<and> holds g u (es \<union> upto_label g y)" if "holds g v es" for v es
    using holds_updateIdx [OF that y(1)] by metis
  then show "adds g (visitCalc57_add g l) (upto_label g y)" "adds g (visitCalc62_add g l) (upto_label g y)"
    by (fastforce simp: adds_def visitCalc57_add_def visitCalc57_0_def visitCalc62_add_def visitCalc62_0_def y(2))+
qed

lemma adds_view:
  assumes "view_right g y" "lab_at g y = Some l"
  shows "adds g (visitCalc57_1 g l) (before g y)" "adds g (visitCalc62_1 g l) (before g y)"
proof -
  from assms obtain w where w: "lab_view l 0 = Inr w" "holds g w (before g y)" by (auto simp: view_right_def)
  have "\<exists>u. view_update v w = Inr u \<and> holds g u (es \<union> before g y)" if "holds g v es" for v es
    using holds_update [OF that w(2)] by metis
  then show "adds g (visitCalc57_1 g l) (before g y)" "adds g (visitCalc62_1 g l) (before g y)"
    by (fastforce simp: adds_def visitCalc57_1_def visitCalc57_0_def visitCalc62_1_def visitCalc62_0_def w(1))+
qed

section \<open>The views of a label\<close>

lemma sync_steps:
  assumes s: "searchable g" and p: "lab_at g p = Some pl"
    and there: "\<And>y l. y \<in> set (concat (sync_lists g pl)) \<Longrightarrow> lab_at g y = Some l \<Longrightarrow> adds g (f l) (F y)"
  shows "adds g (visit_opt g (tc_pred g pl) f) (\<Union>(F ` set (res_list (tc_pred g pl))))"
    "adds g (visit_opt g (tj_pred g pl) f) (\<Union>(F ` set (res_list (tj_pred g pl))))"
    "adds g (visit_opt g (Inr (rf_pred pl)) f) (\<Union>(F ` set (opt_list (rf_pred pl))))"
proof -
  note found = sync_found [OF s p]
  show "adds g (visit_opt g (tc_pred g pl) f) (\<Union>(F ` set (res_list (tc_pred g pl))))"
    unfolding found_visit [OF found(1)]
    by (rule adds_list) (use there found_there [OF found(1)] in \<open>fastforce simp: sync_lists_def containsPos_lab\<close>)
  show "adds g (visit_opt g (tj_pred g pl) f) (\<Union>(F ` set (res_list (tj_pred g pl))))"
    unfolding found_visit [OF found(2)]
    by (rule adds_list) (use there found_there [OF found(2)] in \<open>fastforce simp: sync_lists_def containsPos_lab\<close>)
  show "adds g (visit_opt g (Inr (rf_pred pl)) f) (\<Union>(F ` set (opt_list (rf_pred pl))))"
    unfolding visit_opt_list
    by (rule adds_list) (use there found_there [OF found(3)] in \<open>fastforce simp: sync_lists_def containsPos_lab\<close>)
qed

lemma adds_opt: "lab_at g p = Some pl \<Longrightarrow> adds g (f pl) F \<Longrightarrow> adds g (visit_opt g (Inr (Some p)) f) F"
  using adds_list [of "[p]" g f "\<lambda>_. F"] by (simp add: visit_opt_list)

lemma adds_sync:
  assumes s: "searchable g" and p: "lab_at g p = Some pl"
    and right: "\<And>y. y \<in> set (concat (sync_lists g pl)) \<Longrightarrow> view_right g y"
  shows "adds g (visitCalc57_3 g pl) (\<Union>y \<in> set (concat (sync_lists g pl)). insert y (before g y))"
    "adds g (visitCalc62_3 g pl) (\<Union>y \<in> set (concat (sync_lists g pl)). insert y (before g y))"
proof -
  have views: "y \<in> set (concat (sync_lists g pl)) \<Longrightarrow> lab_at g y = Some l \<Longrightarrow> adds g (visitCalc57_1 g l) (before g y)"
    "y \<in> set (concat (sync_lists g pl)) \<Longrightarrow> lab_at g y = Some l \<Longrightarrow> adds g (visitCalc62_1 g l) (before g y)" for y l
    using adds_view [OF right] by blast+
  have there: "containsPos g y" if "y \<in> set (concat (sync_lists g pl))" for y
    using that found_there [OF sync_found(1) [OF s p]] found_there [OF sync_found(2) [OF s p]] found_there [OF sync_found(3) [OF s p]]
    by (auto simp: sync_lists_def)
  have eq: "(\<Union>y \<in> set (concat (sync_lists g pl)). insert y (before g y)) =
      (\<Union>y \<in> set (concat (sync_lists g pl)). upto_label g y \<union> before g y)"
    by (rule SUP_cong) (simp_all only: upto_before [OF s there])
  show "adds g (visitCalc57_3 g pl) (\<Union>y \<in> set (concat (sync_lists g pl)). insert y (before g y))"
    unfolding visitCalc57_3_def eq
    by (rule adds_seq6 [OF sync_steps [OF s p adds_label(1) [OF s]] sync_steps [OF s p views(1)]])
      (auto simp: sync_lists_def)
  show "adds g (visitCalc62_3 g pl) (\<Union>y \<in> set (concat (sync_lists g pl)). insert y (before g y))"
    unfolding visitCalc62_3_def eq
    by (rule adds_seq6 [OF sync_steps [OF s p adds_label(2) [OF s]] sync_steps [OF s p views(2)]])
      (auto simp: sync_lists_def)
qed

lemma calc_views:
  assumes s: "searchable g" and l: "lab_at g x = Some l" and right: "\<And>y. y \<in> before g x \<Longrightarrow> view_right g y"
  shows "\<exists>v. visitCalc57 g l = Inr v \<and> holds g v (before g x)" "\<exists>v. visitCalc62 g l = Inr v \<and> holds g v (before g x)"
proof -
  have x: "containsPos g x" using l by (simp add: containsPos_lab)
  have both: "adds g (visitCalc57_2 g l) (before g x) \<and> adds g (visitCalc62_2 g l) (before g x)"
  proof (cases "po_imm_pred g l")
    case None
    have "coh_succs g x = []" using l None by (simp add: coh_succs_def)
    with before_step [OF x] have "before g x = {}" by simp
    then show ?thesis
      by (simp add: visitCalc57_2_def visitCalc62_2_def None visit_opt_list adds_def)
  next
    case (Some p)
    have "po_imm_pred g l = Some p \<Longrightarrow> containsPos g p"
      using x lab_pos [OF searchableD(1) [OF s] l]
      by (auto simp: po_imm_pred_def getPreviousLabel_def event_prev_def containsPos_def split: if_splits)
    with Some obtain pl where pl: "lab_at g p = Some pl" by (auto simp: containsPos_lab)
    have succs: "coh_succs g x = concat (sync_lists g pl) @ [p]" using l Some pl by (simp add: coh_succs_def)
    have sub: "y \<in> before g x" if "y \<in> set (concat (sync_lists g pl)) \<or> y = p" for y
      using that unfolding before_step [OF x] succs by auto
    have p: "view_right g p" by (rule right [OF sub]) simp
    have "\<And>y. y \<in> set (concat (sync_lists g pl)) \<Longrightarrow> view_right g y" by (rule right [OF sub]) simp
    note sync = adds_sync [OF s pl this]
    have b: "before g x = (\<Union>y \<in> set (concat (sync_lists g pl)). insert y (before g y)) \<union> (upto_label g p \<union> before g p)"
      unfolding before_step [OF x] succs upto_before [OF s \<open>po_imm_pred g l = Some p \<Longrightarrow> containsPos g p\<close> [OF Some]] by auto
    have "adds g (visitCalc57_2 g l) (before g x)"
      unfolding visitCalc57_2_def b Some
      by (rule adds_seq3 [OF adds_opt [where f = "visitCalc57_add g", OF pl adds_label(1) [OF s pl]] adds_opt [where f = "visitCalc57_3 g", OF pl sync(1)] adds_opt [where f = "visitCalc57_1 g", OF pl adds_view(1) [OF p pl]]]) auto
    moreover have "adds g (visitCalc62_2 g l) (before g x)"
      unfolding visitCalc62_2_def b Some
      by (rule adds_seq3 [OF adds_opt [where f = "visitCalc62_add g", OF pl adds_label(2) [OF s pl]] adds_opt [where f = "visitCalc62_1 g", OF pl adds_view(2) [OF p pl]] adds_opt [where f = "visitCalc62_3 g", OF pl sync(2)]]) auto
    ultimately show ?thesis by simp
  qed
  from addsE [OF conjunct1 [OF both] holds_empty] addsE [OF conjunct2 [OF both] holds_empty]
  show "\<exists>v. visitCalc57 g l = Inr v \<and> holds g v (before g x)" "\<exists>v. visitCalc62 g l = Inr v \<and> holds g v (before g x)"
    unfolding visitCalc57_def visitCalc62_def by (metis bindR_simps(2) case_prod_conv sup_bot_left)+
qed

end
