(* ===== verification/SC_Stores.thy ===== *)
theory SC_Stores
  imports SC_Views
begin

text \<open>
  The stores that a read may read from, and the places that a store may take in coherence: what the
  scan of coherence from its end finds, and which stores are left.
\<close>

text \<open>A store is seen by a label when it, or a read from it, happens before the label.\<close>

definition seen_by :: "exec_graph \<Rightarrow> event \<Rightarrow> event \<Rightarrow> bool" where
  "seen_by g r w \<longleftrightarrow> w \<in> before g r \<or> (\<exists>x l. lab_at g w = Some l \<and> x \<in> set (lb_readers l) \<and> x \<in> before g r)"

text \<open>The rest of a list from its last element with \<open>P\<close>; the whole list if there is none.\<close>

fun from_last :: "('a \<Rightarrow> bool) \<Rightarrow> 'a list \<Rightarrow> 'a list" where
  "from_last P [] = []"
| "from_last P (x # xs) = (if list_ex P xs then from_last P xs else x # xs)"

lemma from_last_none: "\<not> list_ex P xs \<Longrightarrow> from_last P (x # xs) = x # xs"
  by simp

lemma from_last_split: "P y \<Longrightarrow> \<not> list_ex P zs \<Longrightarrow> from_last P (x # ys @ y # zs) = y # zs"
proof (induction ys arbitrary: x)
  case Nil
  then show ?case by (cases zs) simp_all
qed simp

section \<open>The scan\<close>

lemma start_not_access:
  assumes "graph_core g" "lab_at g x = Some l" "isMemAccess (lb_kind l)"
  shows "0 < index x"
proof (rule ccontr)
  assume "\<not> 0 < index x"
  moreover have "containsPos g x" using assms(2) by (simp add: containsPos_lab)
  ultimately have "x = Event (thread x) 0" by (cases x) (simp add: containsPos_def)
  with assms(1,2) have "isThreadStart (lb_kind l)" unfolding graph_core_def start_ok_def by metis
  with assms(3) show False by (cases "lb_kind l") (simp_all add: kind_defs)
qed

lemma readers_there:
  assumes core: "graph_core g" and w: "lab_at g w = Some l" "isWrite (lb_kind l)" and x: "x \<in> set (lb_readers l)"
  shows "containsPos g x" "0 < index x"
proof -
  have "x \<in> set (readers_of g w 0)" using w x by (simp add: readers_of_def)
  with core have "at_kind isRead g x (\<lambda>xl. lb_rf xl = Some w \<and> (w = event_init \<longrightarrow> lb_addr xl = 0))"
    unfolding graph_core_def rf_ok_def by blast
  then obtain xl where xl: "lab_at g x = Some xl" "isRead (lb_kind xl)" by (auto simp: at_kind_def)
  then show "containsPos g x" by (simp add: containsPos_lab)
  have "isMemAccess (lb_kind xl)" using pointer_classes(2) [OF xl(2)] by simp
  from start_not_access [OF core xl(1) this] show "0 < index x" .
qed

lemma seen_scan:
  assumes s: "searchable g" and r: "view_right g r" and w: "lab_at g w = Some l" "isWrite (lb_kind l)"
  shows "isWriteRfBefore g w r = Inr (seen_by g r w)"
proof -
  note core = searchableD(1) [OF s]
  from r obtain rl v where v: "lab_at g r = Some rl" "lab_view rl 0 = Inr v" "holds g v (before g r)"
    by (auto simp: view_right_def)
  have "containsPos g w" using w(1) by (simp add: containsPos_lab)
  moreover have "0 < index w" using start_not_access [OF core w(1)] pointer_classes(1) [OF w(2)] by simp
  ultimately have "view_contains v w = Inr (w \<in> before g r)" by (rule holds_contains [OF v(3)])
  moreover have "anyR (view_contains v) (lb_readers l) = Inr (list_ex (\<lambda>x. x \<in> before g r) (lb_readers l))"
    by (rule anyR_total) (rule holds_contains [OF v(3)]; rule readers_there [OF core w])
  ultimately show ?thesis
    using v(1,2) w by (simp add: isWriteRfBefore_def getEventLabel_def guardR_def seen_by_def list_ex_iff Bex_def)
qed

lemma find_ifR_total: "(\<And>x. x \<in> set xs \<Longrightarrow> f x = Inr (P x)) \<Longrightarrow> find_ifR f xs = Inr (length (takeWhile (\<lambda>x. \<not> P x) xs))"
  by (induction xs) auto

lemma filterR_total: "(\<And>x. x \<in> set xs \<Longrightarrow> f x = Inr (P x)) \<Longrightarrow> filterR f xs = Inr (filter P xs)"
  by (induction xs) auto

text \<open>The number of elements up to the last one with \<open>P\<close>.\<close>

definition upto_last :: "('a \<Rightarrow> bool) \<Rightarrow> 'a list \<Rightarrow> nat" where
  "upto_last P xs = length xs - length (takeWhile (\<lambda>x. \<not> P x) (rev xs))"

lemma upto_last_none: "\<not> list_ex P xs \<Longrightarrow> upto_last P xs = 0"
proof -
  assume "\<not> list_ex P xs"
  then have "takeWhile (\<lambda>x. \<not> P x) (rev xs) = rev xs"
    unfolding takeWhile_eq_all_conv by (simp add: list_ex_iff)
  then show "upto_last P xs = 0" by (simp only: upto_last_def length_rev diff_self_eq_0)
qed

lemma upto_last_split: "P y \<Longrightarrow> \<not> list_ex P zs \<Longrightarrow> upto_last P (ys @ y # zs) = Suc (length ys)"
proof -
  assume y: "P y" and zs: "\<not> list_ex P zs"
  have "takeWhile (\<lambda>x. \<not> P x) (rev zs @ [y] @ rev ys) = rev zs @ takeWhile (\<lambda>x. \<not> P x) ([y] @ rev ys)"
    by (rule takeWhile_append2) (use zs in \<open>simp add: list_ex_iff\<close>)
  with y show "upto_last P (ys @ y # zs) = Suc (length ys)" by (simp add: upto_last_def)
qed

lemma upto_last_le: "upto_last P xs \<le> length xs"
  by (simp add: upto_last_def)

lemma last_with:
  assumes "list_ex P xs"
  obtains ys y zs where "xs = ys @ y # zs" "P y" "\<not> list_ex P zs"
  using split_list_last_prop [of xs P] assms unfolding list_ex_iff by blast

lemma from_last_upto:
  "from_last P (x # xs) = (if upto_last P xs = 0 then x else xs ! (upto_last P xs - 1)) # drop (upto_last P xs) xs"
proof (cases "list_ex P xs")
  case True
  then obtain ys y zs where "xs = ys @ y # zs" "P y" "\<not> list_ex P zs" by (rule last_with)
  with from_last_split [of P y zs x ys] upto_last_split [of P y zs ys] show ?thesis by simp
qed (simp add: upto_last_none)

lemma coherence_scan:
  assumes s: "searchable g" and r: "view_right g r" and a: "co_at g a = Inr ws"
  shows "splitLocMOBefore g a r = Inr (upto_last (seen_by g r) ws)"
proof -
  have ws: "ws = co g a" using a by (auto simp: co_at_def co_def m_get_def split: option.splits)
  have "find_ifR (\<lambda>w. isWriteRfBefore g w r) (rev ws) = Inr (length (takeWhile (\<lambda>w. \<not> seen_by g r w) (rev ws)))"
  proof (rule find_ifR_total)
    fix w assume "w \<in> set (rev ws)"
    with ws placed_store [OF s, of w a] obtain l where "lab_at g w = Some l" "isWrite (lb_kind l)" by auto
    then show "isWriteRfBefore g w r = Inr (seen_by g r w)" by (rule seen_scan [OF s r])
  qed
  with a show ?thesis by (simp add: splitLocMOBefore_def upto_last_def)
qed

text \<open>The shortcut of \<open>getCoherentStores\<close>: when the last store is in the thread of the read and in front of
  it, it is seen, and is what the scan would leave.\<close>

lemma shortcut:
  assumes s: "searchable g" and r: "containsPos g r" and a: "co_at g a = Inr ws" and ws: "ws \<noteq> []"
    and "thread (last ws) = thread r" "index (last ws) < index r"
  shows "from_last (seen_by g r) (x # ws) = [last ws]"
proof -
  have "ws = co g a" using a by (auto simp: co_at_def co_def m_get_def split: option.splits)
  with ws have "last ws \<in> set (co g a)" by (metis last_in_set)
  then have "containsPos g (last ws)" by (rule co_contained [OF searchableD(1) [OF s]])
  with po_le_before [OF s this r] assms(5,6) have "seen_by g r (last ws)" by (auto simp: seen_by_def)
  with from_last_split [of "seen_by g r" "last ws" "[]" x "butlast ws"] ws show ?thesis by simp
qed

lemma coherent_stores:
  assumes s: "searchable g" and r: "view_right g r" and a: "co_at g a = Inr ws"
  shows "getCoherentStores g a r = Inr (from_last (seen_by g r) (event_init # ws))"
proof -
  let ?m = "if ws = [] then event_init else last ws"
  have rg: "containsPos g r" using r by (auto simp: view_right_def containsPos_lab)
  show ?thesis
  proof (cases "thread ?m = thread r \<and> index ?m < index r")
    case True
    then have "from_last (seen_by g r) (event_init # ws) = [?m]"
      using shortcut [OF s rg a] by (cases "ws = []") simp_all
    with True a show ?thesis by (simp add: getCoherentStores_def Let_def del: from_last.simps)
  next
    case False
    have "getCoherentStores g a r =
        Inr ((if upto_last (seen_by g r) ws = 0 then event_init else ws ! (upto_last (seen_by g r) ws - 1)) #
          drop (upto_last (seen_by g r) ws) ws)"
      using a coherence_scan [OF s r a] upto_last_le [of "seen_by g r" ws]
      by (simp only: getCoherentStores_def bindR_simps Let_def if_not_P [OF False] isDepTracking_def if_False not_less [symmetric] take_all_iff) simp
    then show ?thesis by (simp only: from_last_upto)
  qed
qed

text \<open>The places of a store that is not part of an RMW: behind every store it has seen, and not between
  an RMW's store and the store it reads from.\<close>

lemma coherent_placings:
  assumes s: "searchable g" and r: "view_right g w" and a: "co_at g a = Inr ws"
  shows "getCoherentPlacings g a w False =
    Inr (map (pred_at ws) (filter (\<lambda>i. \<not> label_sat write_isRMW g (ws ! i)) [upto_last (seen_by g w) ws..<length ws]) @ [pred_at ws (length ws)])"
proof -
  have "filterR (\<lambda>i. bindR (deref g (ws ! i)) (\<lambda>sl. Inr (\<not> write_isRMW sl))) [upto_last (seen_by g w) ws..<length ws] =
      Inr (filter (\<lambda>i. \<not> label_sat write_isRMW g (ws ! i)) [upto_last (seen_by g w) ws..<length ws])"
  proof (rule filterR_total)
    fix i assume "i \<in> set [upto_last (seen_by g w) ws..<length ws]"
    then have "ws ! i \<in> set ws" by simp
    moreover have "ws = co g a" using a by (auto simp: co_at_def co_def m_get_def split: option.splits)
    ultimately obtain l where "lab_at g (ws ! i) = Some l" using placed_store [OF s] by blast
    then show "bindR (deref g (ws ! i)) (\<lambda>sl. Inr (\<not> write_isRMW sl)) = Inr (\<not> label_sat write_isRMW g (ws ! i))"
      by (simp add: deref_def)
  qed
  with coherence_scan [OF s r a] a upto_last_le [of "seen_by g w" ws] show ?thesis
    by (simp add: getCoherentPlacings_def isDepTracking_def not_less)
qed

end
