(* ===== verification/SC_Races.thy ===== *)
theory SC_Races
  imports SC_Stores
begin

text \<open>
  The error checks on an access: what each of them reports, in terms of happens-before.
\<close>

section \<open>Checks that look for a label\<close>

text \<open>\<open>finds g f bad\<close>: the check \<open>f\<close> fails with one of the \<open>bad\<close> labels, or goes on when there is none.\<close>

definition finds :: "cex visit \<Rightarrow> event set \<Rightarrow> bool" where
  "finds f bad \<longleftrightarrow> (\<forall>c. if bad = {} then f c = Inr (True, c) else \<exists>y \<in> bad. f c = Inr (False, Some y))"

lemma finds_none: "finds f {} \<Longrightarrow> f c = Inr (True, c)"
  by (simp add: finds_def)

lemma finds_some: "finds f bad \<Longrightarrow> bad \<noteq> {} \<Longrightarrow> \<exists>y \<in> bad. f c = Inr (False, Some y)"
  unfolding finds_def by (metis (no_types))

lemma finds_skip: "finds (\<lambda>c. Inr (True, c)) {}"
  by (simp add: finds_def)

lemma finds_seq_Nil: "finds (visit_seq []) {}"
  by (simp add: finds_def)

lemma finds_seq_Cons:
  assumes "finds f A" "finds (visit_seq fs) B"
  shows "finds (visit_seq (f # fs)) (A \<union> B)"
proof (cases "A = {}")
  case True
  with assms have "visit_seq (f # fs) c = visit_seq fs c" for c using finds_none [of f c] by simp
  with assms(2) True show ?thesis by (simp add: finds_def del: visit_seq.simps)
next
  case False
  have "\<exists>y \<in> A \<union> B. visit_seq (f # fs) c = Inr (False, Some y)" for c
    using finds_some [OF assms(1) False, of c] by auto
  with False show ?thesis by (simp add: finds_def del: visit_seq.simps)
qed

lemma finds_if: "(P \<Longrightarrow> finds f A) \<Longrightarrow> finds (visit_if P f) (if P then A else {})"
  by (auto simp: visit_if_def finds_def)

lemma finds_list:
  "(\<And>y. y \<in> set ys \<Longrightarrow> \<exists>l. lab_at g y = Some l \<and> finds (f l) (F y)) \<Longrightarrow> finds (visit_list g ys f) (\<Union>(F ` set ys))"
proof (induction ys)
  case Nil
  show ?case by (simp add: finds_def)
next
  case (Cons y ys)
  from Cons.prems [of y] obtain l where l: "lab_at g y = Some l" "finds (f l) (F y)" by auto
  have ys: "finds (visit_list g ys f) (\<Union>(F ` set ys))" by (rule Cons.IH) (simp add: Cons.prems)
  show ?case
  proof (cases "F y = {}")
    case True
    have "visit_list g (y # ys) f c = visit_list g ys f c" for c
      using finds_none [OF l(2) [unfolded True], of c] l(1) by (simp add: deref_def)
    with ys True show ?thesis by (simp add: finds_def del: visit_list.simps)
  next
    case False
    have "\<exists>z \<in> \<Union>(F ` set (y # ys)). visit_list g (y # ys) f c = Inr (False, Some z)" for c
      using finds_some [OF l(2) False, of c] l(1) by (auto simp: deref_def)
    with False show ?thesis by (simp add: finds_def del: visit_list.simps)
  qed
qed

lemma finds_opt: "lab_at g p = Some pl \<Longrightarrow> finds (f pl) F \<Longrightarrow> finds (visit_opt g (Inr (Some p)) f) F"
  using finds_list [of "[p]" g f "\<lambda>_. F"] by (simp add: visit_opt_list)

lemma finds_when: "P l = Inr p \<Longrightarrow> (p \<Longrightarrow> finds (f l) A) \<Longrightarrow> finds (visit_when P f l) (if p then A else {})"
  by (auto simp: visit_when_def finds_def)

lemma finds_cong: "finds f A \<Longrightarrow> A = B \<Longrightarrow> finds f B"
  by simp

lemma finds_contain:
  assumes "holds g v (before g x)" "containsPos g y" "0 < index y" "lb_pos yl = y"
  shows "finds (must_contain v yl) (if y \<in> before g x then {} else {y})"
  using holds_contains [OF assms(1,2,3)] assms(4) by (simp add: finds_def must_contain_def)

section \<open>Races\<close>

text \<open>Two accesses of a location, one of them a store and one of them not atomic, the second not ordered
  before the first.\<close>

definition races :: "exec_graph \<Rightarrow> event \<Rightarrow> event \<Rightarrow> bool" where
  "races g x y \<longleftrightarrow> x \<noteq> y \<and> y \<notin> before g x \<and> (\<exists>xl yl. lab_at g x = Some xl \<and> lab_at g y = Some yl \<and>
     isMemAccess (lb_kind xl) \<and> isMemAccess (lb_kind yl) \<and> lb_addr xl = lb_addr yl \<and>
     (isWrite (lb_kind xl) \<or> isWrite (lb_kind yl)) \<and> (isNotAtomic (lb_ordering xl) \<or> isNotAtomic (lb_ordering yl)))"

lemma samelocs_mem:
  assumes "graph_core g" "lab_at g x = Some l" "isMemAccess (lb_kind l)" "lab_at g y = Some yl" "isMemAccess (lb_kind yl)"
  shows "y \<in> set (samelocs g l) \<longleftrightarrow> x \<noteq> y \<and> lb_addr yl = lb_addr l"
proof -
  have "hasLocation (lb_kind l)" using assms(3) by (simp add: hasLocation_def)
  moreover have "containsPos g y" using assms(4) by (simp add: containsPos_lab)
  ultimately show ?thesis
    using assms insertionOrder_mem [OF assms(1)] lab_pos [OF assms(1,2)] lab_pos [OF assms(1,4)]
    by (auto simp: samelocs_def at_location_def)
qed

lemma finds_step:
  assumes core: "graph_core g" and x: "lab_at g x = Some l" "isMemAccess (lb_kind l)" and v: "holds g v (before g x)"
    and P: "\<And>yl. P yl = Inr (p yl)" "\<And>yl. p yl \<Longrightarrow> isMemAccess (lb_kind yl)"
  shows "finds (visit_list g (samelocs g l) (visit_when P (must_contain v)))
    {y. x \<noteq> y \<and> y \<notin> before g x \<and> label_sat (\<lambda>yl. p yl \<and> lb_addr yl = lb_addr l) g y}"
proof (rule finds_cong [OF finds_list])
  fix y assume "y \<in> set (samelocs g l)"
  then have "containsPos g y" using insertionOrder_mem [OF core] by (auto simp: samelocs_def split: if_splits)
  then obtain yl where yl: "lab_at g y = Some yl" by (auto simp: containsPos_lab)
  have "finds (visit_when P (must_contain v) yl) (if p yl then (if y \<in> before g x then {} else {y}) else {})"
  proof (rule finds_when [OF P(1)])
    assume "p yl"
    from start_not_access [OF core yl P(2) [OF this]] show "finds (must_contain v yl) (if y \<in> before g x then {} else {y})"
      by (rule finds_contain [OF v \<open>containsPos g y\<close> _ lab_pos [OF core yl]])
  qed
  moreover have "(if p yl then (if y \<in> before g x then {} else {y}) else {}) = {z. z = y \<and> label_sat p g y \<and> y \<notin> before g x}"
    using yl by auto
  ultimately show "\<exists>yl. lab_at g y = Some yl \<and> finds (visit_when P (must_contain v) yl) {z. z = y \<and> label_sat p g y \<and> y \<notin> before g x}"
    using yl by simp
next
  have "y \<in> set (samelocs g l) \<and> label_sat p g y \<longleftrightarrow> x \<noteq> y \<and> label_sat (\<lambda>yl. p yl \<and> lb_addr yl = lb_addr l) g y" for y
  proof (cases "lab_at g y")
    case (Some yl)
    then show ?thesis using samelocs_mem [OF core x Some P(2)] by auto
  qed (simp add: label_sat_def)
  then show "(\<Union>y \<in> set (samelocs g l). {z. z = y \<and> label_sat p g y \<and> y \<notin> before g x}) =
      {y. x \<noteq> y \<and> y \<notin> before g x \<and> label_sat (\<lambda>yl. p yl \<and> lb_addr yl = lb_addr l) g y}" by blast
qed

lemma error8_finds:
  assumes core: "graph_core g" and x: "lab_at g x = Some l" "isMemAccess (lb_kind l)" and v: "holds g v (before g x)"
  shows "finds (visitLHSUnlessError8_1 g v l) {y. races g x y}"
proof -
  let ?na = "isNotAtomic (lb_ordering l)"
  let ?hit = "\<lambda>p. {y. x \<noteq> y \<and> y \<notin> before g x \<and> label_sat (\<lambda>yl. p yl \<and> lb_addr yl = lb_addr l) g y}"
  have kind: "finds (visit_list g (samelocs g l) (visit_when (of_kind K) (must_contain v))) (?hit (\<lambda>yl. K (lb_kind yl)))"
    if "\<And>k. K k \<Longrightarrow> isMemAccess k" for K
    by (rule finds_step [OF core x v]) (simp_all add: of_kind_def that)
  have na: "finds (visit_list g (samelocs g l) (visit_when (na_of K) (must_contain v)))
      (?hit (\<lambda>yl. isNotAtomic (lb_ordering yl) \<and> K (lb_kind yl)))" if "\<And>k. K k \<Longrightarrow> isMemAccess k" for K
    by (rule finds_step [OF core x v]) (simp_all add: na_of_def that)
  have w: "isWrite k \<Longrightarrow> isMemAccess k" and r: "isRead k \<Longrightarrow> isMemAccess k" for k
    using pointer_classes by blast+
  show ?thesis
    unfolding visitLHSUnlessError8_1_def Let_def visitLHSUnlessError8_0_def [abs_def]
  proof (rule finds_cong, (rule finds_seq_Cons finds_if kind [of isWrite, OF w] kind [of isRead, OF r] na [of isWrite, OF w] na [of isRead, OF r] finds_seq_Nil | assumption)+)
    show "(if ?na \<and> isWrite (lb_kind l) then ?hit (\<lambda>yl. isWrite (lb_kind yl)) else {}) \<union>
        ((if ?na \<and> isWrite (lb_kind l) then ?hit (\<lambda>yl. isRead (lb_kind yl)) else {}) \<union>
        ((if ?na \<and> isRead (lb_kind l) then ?hit (\<lambda>yl. isWrite (lb_kind yl)) else {}) \<union>
        ((if isWrite (lb_kind l) then ?hit (\<lambda>yl. isNotAtomic (lb_ordering yl) \<and> isWrite (lb_kind yl)) else {}) \<union>
        ((if isWrite (lb_kind l) then ?hit (\<lambda>yl. isNotAtomic (lb_ordering yl) \<and> isRead (lb_kind yl)) else {}) \<union>
        ((if isRead (lb_kind l) then ?hit (\<lambda>yl. isNotAtomic (lb_ordering yl) \<and> isWrite (lb_kind yl)) else {}) \<union> {}))))) = {y. races g x y}" (is "?all = _")
    proof (rule set_eqI)
      fix y
      have cases: "isRead (lb_kind l) \<longleftrightarrow> \<not> isWrite (lb_kind l)" using x(2) pointer_classes by blast
      show "y \<in> ?all \<longleftrightarrow> y \<in> {y. races g x y}"
      proof (cases "lab_at g y")
        case None
        then show ?thesis by (simp add: races_def label_sat_def)
      next
        case (Some yl)
        have "isMemAccess (lb_kind yl) \<longleftrightarrow> isRead (lb_kind yl) \<or> isWrite (lb_kind yl)" "isWrite (lb_kind yl) \<Longrightarrow> \<not> isRead (lb_kind yl)"
          using pointer_classes by blast+
        with Some x cases show ?thesis by (auto simp: races_def)
      qed
    qed
  qed
qed

section \<open>The checks in sequence\<close>

lemma first_error_skip:
  "f c = Inr (True, c) \<Longrightarrow> first_error ((f, e) # cs) c = first_error cs c"
  by simp

lemma check_unless_skip: "f c = Inr (True, c) \<Longrightarrow> check_unless f err l c = Inr (True, c)"
  by (simp add: check_unless_def)

lemma no_gap: "accepting_gap g (no_accepting g) (no_accepting g) c = Inr (True, c)"
proof -
  have "List.find (\<lambda>i. no_accepting g ! i \<and> \<not> no_accepting g ! i) [0..<length (no_accepting g)] = None"
    by (simp add: find_None_iff)
  then show ?thesis by (simp add: accepting_gap_def)
qed

lemma accesses_finds:
  assumes core: "graph_core g" and v: "holds g v (before g x)" and a: "lab_at g a = Some al" "isMalloc (lb_kind al)"
  shows "finds (visit_list g (lb_accesses al) (must_contain v)) {m \<in> set (lb_accesses al). m \<notin> before g x}"
proof (rule finds_cong [OF finds_list])
  fix m assume "m \<in> set (lb_accesses al)"
  with core a have "at_kind isMemAccess g m (\<lambda>l. lb_alloc l = Some a)"
    unfolding graph_core_def alloc_ok_def by blast
  then obtain ml where ml: "lab_at g m = Some ml" "isMemAccess (lb_kind ml)" by (auto simp: at_kind_def)
  have "finds (must_contain v ml) (if m \<in> before g x then {} else {m})"
    by (rule finds_contain [OF v _ start_not_access [OF core ml] lab_pos [OF core ml(1)]]) (use ml in \<open>simp add: containsPos_lab\<close>)
  with ml(1) show "\<exists>ml. lab_at g m = Some ml \<and> finds (must_contain v ml) (if m \<in> before g x then {} else {m})" by blast
qed (auto split: if_splits)

text \<open>A label that is not an access and does not free passes the checks for a double free, and the checks
  that look at the block of an access.\<close>

lemma error3_passes: "checkError3 g l c = Inr (True, c)"
proof -
  have "plain_free (lb_kind l) \<or> lb_kind l = HpRetire \<Longrightarrow> samelocs g l = []"
    by (cases "lb_kind l") (simp_all add: plain_free_def samelocs_def hasLocation_def kind_defs)
  then have "visitLHSUnlessError3_1 g l c = Inr (True, c)"
    by (cases "plain_free (lb_kind l)"; cases "lb_kind l = HpRetire") (simp_all add: visitLHSUnlessError3_1_def visit_if_def)
  then show ?thesis
    unfolding checkError3_def by (intro check_unless_skip) (simp add: visitUnlessError3_def no_gap)
qed

lemma no_block_passes:
  assumes "alloc_pred l = None" "lab_view l 0 = Inr v"
  shows "checkError2 g l c = Inr (True, c)" "checkError5 g l c = Inr (True, c)"
proof -
  show "checkError2 g l c = Inr (True, c)"
    unfolding checkError2_def
    by (rule check_unless_skip) (simp add: visitUnlessError2_def visitLHSUnlessError2_1_def visit_opt_def assms)
  show "checkError5 g l c = Inr (True, c)"
    unfolding checkError5_def
    by (rule check_unless_skip) (simp add: visitUnlessError5_def visitLHSUnlessError5_2_def visit_opt_def assms no_gap)
qed

lemma finds_unless: "finds f bad \<Longrightarrow> err l = False \<Longrightarrow> finds (check_unless f err l) bad"
proof (cases "bad = {}")
  case True
  assume "finds f bad"
  with True show ?thesis by (simp add: finds_def check_unless_def)
next
  case False
  assume f: "finds f bad" and err: "err l = False"
  have "\<exists>y \<in> bad. check_unless f err l c = Inr (False, Some y)" for c
  proof -
    from finds_some [OF f False, of c] obtain y where "y \<in> bad" "f c = Inr (False, Some y)" by blast
    with err show ?thesis by (auto simp: check_unless_def)
  qed
  with False show ?thesis by (simp add: finds_def)
qed

lemma static_access_checks:
  assumes s: "searchable g" and r: "view_right g x" and x: "lab_at g x = Some l" "isMemAccess (lb_kind l)"
    and a: "saddr_isStatic (lb_addr l)" "lb_alloc l = None"
  shows "if \<exists>y. races g x y then \<exists>y. races g x y \<and> checkErrors g l None = Inr (VE_RaceNotAtomic, Some y)
    else checkErrors g l None = Inr (VE_OK, None)"
proof -
  note core = searchableD(1) [OF s]
  from r x obtain v where v: "lab_view l 0 = Inr v" "holds g v (before g x)" by (auto simp: view_right_def)
  have k: "\<not> plain_free (lb_kind l)" "lb_kind l \<noteq> HpRetire"
    using x(2) by (cases "lb_kind l"; simp add: plain_free_def kind_defs)+
  have "alloc_pred l = None" using a(2) by (simp add: alloc_pred_def)
  note e25 = no_block_passes [OF this v(1)]
  have e46: "checkError4 g l c = Inr (True, c)" "checkError6 g l c = Inr (True, c)" for c
    unfolding checkError4_def checkError6_def
    by (rule check_unless_skip; simp add: visitUnlessError4_def visitLHSUnlessError4_2_def visitUnlessError6_def
      visitLHSUnlessError6_2_def visit_if_def v(1) k)+
  have e7: "checkError7 g l c = Inr (True, c)" for c
    unfolding checkError7_def
    by (rule check_unless_skip) (use a(1) in \<open>simp add: visitUnlessError7_def visitLHSUnlessError7_2_def visit_when_def
      unprotected_def saddr_isDynamic_def no_gap\<close>)
  have errors: "checkErrors g l None = first_error [(checkError8 g l, VE_RaceNotAtomic)] None"
    unfolding checkErrors_def by (simp only: first_error_skip e25 error3_passes e46 e7)
  have "visitUnlessError8 g l = visitLHSUnlessError8_1 g v l"
    by (rule ext) (simp add: visitUnlessError8_def v(1))
  with error8_finds [OF core x v(2)] have "finds (visitUnlessError8 g l) {y. races g x y}" by simp
  then have e8: "finds (checkError8 g l) {y. races g x y}"
    unfolding checkError8_def by (rule finds_unless) (simp add: visitError8_def)
  show ?thesis
  proof (cases "\<exists>y. races g x y")
    case True
    then have "{y. races g x y} \<noteq> {}" by blast
    from finds_some [OF e8 this, of None] obtain y where "races g x y" "checkError8 g l None = Inr (False, Some y)" by blast
    with True show ?thesis unfolding errors by auto
  next
    case False
    then have "{y. races g x y} = {}" by blast
    with e8 finds_none have "checkError8 g l None = Inr (True, None)" by metis
    with False show ?thesis unfolding errors by simp
  qed
qed

text \<open>Freeing a block: the allocation and every access of the block must come before.\<close>

lemma free_checks:
  assumes s: "searchable g" and r: "view_right g x" and x: "lab_at g x = Some l" "lb_kind l = Free"
    and a: "lb_alloc l = Some a" "lab_at g a = Some al"
  shows "let bad = {m \<in> insert a (set (lb_accesses al)). m \<notin> before g x} in
    if bad = {} then checkErrors g l None = Inr (VE_OK, None)
    else \<exists>m \<in> bad. checkErrors g l None = Inr (VE_AccessFreed, Some m)"
proof -
  note core = searchableD(1) [OF s]
  from r x obtain v where v: "lab_view l 0 = Inr v" "holds g v (before g x)" by (auto simp: view_right_def)
  have k: "plain_free (lb_kind l)" "lb_kind l \<noteq> HpRetire" "isFree (lb_kind l)" "\<not> isMemAccess (lb_kind l)"
    "\<not> isRead (lb_kind l)" "\<not> isWrite (lb_kind l)"
    using x(2) by (simp_all add: plain_free_def kind_defs)
  have "at_kind isMalloc g a (\<lambda>al. lb_free al = Some x)"
    using core x(1) k(3) a(1) unfolding graph_core_def free_ok_def by blast
  then have m: "isMalloc (lb_kind al)" using a(2) by (auto simp: at_kind_def)
  have "containsPos g a" using a(2) by (simp add: containsPos_lab)
  have i: "0 < index a"
  proof (rule ccontr)
    assume "\<not> 0 < index a"
    with \<open>containsPos g a\<close> have "a = Event (thread a) 0" by (cases a) (simp add: containsPos_def)
    with core a(2) have "isThreadStart (lb_kind al)" unfolding graph_core_def start_ok_def by metis
    with m show False by (cases "lb_kind al") (simp_all add: kind_defs)
  qed
  have "alloc_pred l = None" using k by (simp add: alloc_pred_def)
  note e25 = no_block_passes [OF this v(1)]
  have rest: "checkError6 g l c = Inr (True, c)" "checkError7 g l c = Inr (True, c)" "checkError8 g l c = Inr (True, c)" for c
    unfolding checkError6_def checkError7_def checkError8_def
    by (rule check_unless_skip; simp add: visitUnlessError6_def visitLHSUnlessError6_2_def visitUnlessError7_def
      visitLHSUnlessError7_2_def visitUnlessError8_def visitLHSUnlessError8_1_def visit_when_def unprotected_def
      visit_if_def no_gap v(1) k)+
  have "finds (visitLHSUnlessError4_2 g v l) ((if a \<in> before g x then {} else {a}) \<union> ({m \<in> set (lb_accesses al). m \<notin> before g x} \<union> {}))"
  proof -
    have "finds (visit_opt g (Inr (free_pred l)) (visitLHSUnlessError4_0 v)) (if a \<in> before g x then {} else {a})"
      using finds_opt [of g a al "visitLHSUnlessError4_0 v", OF a(2)]
        finds_contain [OF v(2) \<open>containsPos g a\<close> i lab_pos [OF core a(2)]] a(1) k(3)
      by (simp only: free_pred_def if_True visitLHSUnlessError4_0_def)
    moreover have "visitLHSUnlessError4_1 g v al = visit_list g (lb_accesses al) (must_contain v)"
      by (rule ext) (simp add: visitLHSUnlessError4_1_def alloc_succs_def m visitLHSUnlessError4_0_def [abs_def])
    then have "finds (visit_opt g (Inr (free_pred l)) (visitLHSUnlessError4_1 g v)) {m \<in> set (lb_accesses al). m \<notin> before g x}"
      using finds_opt [of g a al "visitLHSUnlessError4_1 g v", OF a(2)] accesses_finds [OF core v(2) a(2) m] a(1) k(3)
      by (simp only: free_pred_def if_True)
    ultimately have "finds (visit_seq [visit_opt g (Inr (free_pred l)) (visitLHSUnlessError4_0 v), visit_opt g (Inr (free_pred l)) (visitLHSUnlessError4_1 g v)])
        ((if a \<in> before g x then {} else {a}) \<union> ({m \<in> set (lb_accesses al). m \<notin> before g x} \<union> {}))"
      by (intro finds_seq_Cons finds_seq_Nil)
    moreover have "visit_if True f = f" for f :: "cex visit" by (rule ext) (simp add: visit_if_def)
    ultimately show ?thesis using k(1) by (simp only: visitLHSUnlessError4_2_def)
  qed
  moreover have "visitUnlessError4 g l = visitLHSUnlessError4_2 g v l"
    by (rule ext) (simp add: visitUnlessError4_def v(1))
  ultimately have "finds (visitUnlessError4 g l) ((if a \<in> before g x then {} else {a}) \<union> ({m \<in> set (lb_accesses al). m \<notin> before g x} \<union> {}))"
    by (simp only:)
  moreover have "(if a \<in> before g x then {} else {a}) \<union> ({m \<in> set (lb_accesses al). m \<notin> before g x} \<union> {}) =
      {m \<in> insert a (set (lb_accesses al)). m \<notin> before g x}" by auto
  ultimately have "finds (visitUnlessError4 g l) {m \<in> insert a (set (lb_accesses al)). m \<notin> before g x}" by (simp only:)
  then have e4: "finds (checkError4 g l) {m \<in> insert a (set (lb_accesses al)). m \<notin> before g x}"
    unfolding checkError4_def by (rule finds_unless) (simp add: visitError4_def)
  have "checkErrors g l None = first_error [(checkError4 g l, VE_AccessFreed), (checkError5 g l, VE_AccessFreed),
      (checkError6 g l, VE_AccessFreed), (checkError7 g l, VE_AccessFreed), (checkError8 g l, VE_RaceNotAtomic)] None"
    unfolding checkErrors_def by (simp only: first_error_skip e25(1) error3_passes)
  moreover have "first_error [(checkError5 g l, VE_AccessFreed), (checkError6 g l, VE_AccessFreed),
      (checkError7 g l, VE_AccessFreed), (checkError8 g l, VE_RaceNotAtomic)] c = Inr (VE_OK, c)" for c
    by (simp add: e25(2) rest)
  ultimately have errors: "checkErrors g l None = bindR (checkError4 g l None) (\<lambda>(b, c). Inr (if \<not> b then VE_AccessFreed else VE_OK, c))"
    by (cases "checkError4 g l None") (auto split: if_splits)
  show ?thesis
  proof (cases "{m \<in> insert a (set (lb_accesses al)). m \<notin> before g x} = {}")
    case True
    with e4 finds_none have "checkError4 g l None = Inr (True, None)" by metis
    with True errors show ?thesis by (simp add: Let_def)
  next
    case False
    from finds_some [OF e4 False, of None] obtain y where
      "y \<in> {m \<in> insert a (set (lb_accesses al)). m \<notin> before g x}" "checkError4 g l None = Inr (False, Some y)" by blast
    with False errors show ?thesis unfolding Let_def by auto
  qed
qed

end
