(* ===== verification/SC_Samples.thy ===== *)
theory SC_Samples
  imports SC_Races Graph_Frees
begin

text \<open>
  Graphs on which the properties of the checker are evaluated, with the views that the checker
  computes, and executable forms of the notions the properties use.
\<close>

section \<open>Executable forms\<close>

fun past :: "nat \<Rightarrow> exec_graph \<Rightarrow> event \<Rightarrow> event list" where
  "past 0 g x = []"
| "past (Suc n) g x = concat (map (\<lambda>y. y # past n g y) (coh_succs g x))"

definition past_closed :: "nat \<Rightarrow> exec_graph \<Rightarrow> event \<Rightarrow> bool" where
  "past_closed n g x \<longleftrightarrow> (let ps = past n g x in list_all (\<lambda>y. list_all (\<lambda>z. z \<in> set ps) (coh_succs g y)) (x # ps))"

lemma past_before: "searchable g \<Longrightarrow> containsPos g x \<Longrightarrow> y \<in> set (past n g x) \<Longrightarrow> y \<in> before g x"
proof (induction n arbitrary: x)
  case (Suc n)
  from Suc.prems(3) obtain z where z: "z \<in> set (coh_succs g x)" "y = z \<or> y \<in> set (past n g z)" by auto
  then have "y = z \<or> y \<in> before g z" using Suc.IH [OF Suc.prems(1) coh_succs_there [OF Suc.prems(1) z(1)]] by blast
  with z(1) before_step [OF Suc.prems(2)] show ?case by auto
qed simp

lemma past_is_before:
  assumes "searchable g" "containsPos g x" "past_closed n g x"
  shows "before g x = set (past n g x)"
proof
  show "set (past n g x) \<subseteq> before g x" using past_before [OF assms(1,2)] by blast
  have closed: "z \<in> set (past n g x)" if "y = x \<or> y \<in> set (past n g x)" "z \<in> set (coh_succs g y)" for y z
    using assms(3) that by (auto simp: past_closed_def Let_def list_all_iff)
  show "before g x \<subseteq> set (past n g x)"
  proof
    fix y assume "y \<in> before g x"
    then have "(x, y) \<in> (coh_search.edges g)\<^sup>+" by (simp add: before_def happens_before_edges)
    then show "y \<in> set (past n g x)"
    proof (induction rule: trancl_induct)
      case (base y)
      then show ?case by (intro closed [of x]) (simp_all add: coh_search.edges_def)
    next
      case (step y z)
      then show ?case by (intro closed [of y]) (simp_all add: coh_search.edges_def)
    qed
  qed
qed

definition view_check :: "nat \<Rightarrow> exec_graph \<Rightarrow> event \<Rightarrow> bool" where
  "view_check n g x \<longleftrightarrow> past_closed n g x \<and> (case lab_at g x of None \<Rightarrow> False | Some l \<Rightarrow>
     (case lab_view l 0 of Inl e \<Rightarrow> False | Inr v \<Rightarrow> list_all (\<lambda>i. 0 \<le> i) v \<and>
       list_all (\<lambda>e. 0 < index e \<longrightarrow> (index e \<le> vmax v (nat (thread e)) \<longleftrightarrow> e \<in> set (past n g x))) (positions g)))"

lemma view_checked:
  assumes "searchable g" "view_check n g x"
  shows "view_right g x"
proof -
  from assms(2) obtain l v where l: "lab_at g x = Some l" "lab_view l 0 = Inr v" "list_all (\<lambda>i. 0 \<le> i) v"
    "list_all (\<lambda>e. 0 < index e \<longrightarrow> (index e \<le> vmax v (nat (thread e)) \<longleftrightarrow> e \<in> set (past n g x))) (positions g)"
    "past_closed n g x"
    unfolding view_check_def by (cases "lab_at g x"; simp; cases "lab_view (the (lab_at g x)) 0"; auto)
  have "containsPos g x" using l(1) by (simp add: containsPos_lab)
  note past_is_before [OF assms(1) this l(5)]
  then have "holds g v (before g x)"
    using l(3,4) unfolding holds_def view_inv_def list_all_iff Ball_def positions_mem by auto
  with l(1,2) show ?thesis by (auto simp: view_right_def)
qed

section \<open>Graphs with views\<close>

definition fill_views :: "event \<Rightarrow> exec_graph \<Rightarrow> exec_graph res" where
  "fill_views e g = bindR (deref g e) (\<lambda>l. bindR (calculateViews g l) (\<lambda>l'. Inr (put_label e l' g)))"

lemma fill_views_ok:
  assumes "graph_ok g" "foldR fill_views es g = Inr h"
  shows "graph_ok h"
  using assms
proof (induction es arbitrary: g)
  case (Cons e es)
  then obtain k where k: "fill_views e g = Inr k" "foldR fill_views es k = Inr h" by (auto simp: bindR_Inr_iff)
  from k(1) obtain l l' where l: "lab_at g e = Some l" "calculateViews g l = Inr l'" "k = put_label e l' g"
    by (auto simp: fill_views_def bindR_Inr_iff deref_def split: option.splits)
  have "core_same l l'" using l(2) by (auto simp: calculateViews_def bindR_Inr_iff core_same_def)
  from relabelled_put [OF l(1) this] l(3) have "relabelled g k" by simp
  from relabelled_ok [OF this Cons.prems(1)] Cons.IH k(2) show ?case by blast
qed simp

definition viewed :: "event list \<Rightarrow> graph_op list \<Rightarrow> exec_graph \<Rightarrow> exec_graph option" where
  "viewed es as g = (case run_ops as g of None \<Rightarrow> None | Some h \<Rightarrow> (case foldR fill_views es h of Inl _ \<Rightarrow> None | Inr k \<Rightarrow> Some k))"

lemma viewed_ok:
  assumes "viewed es as new_graph = Some g"
  shows "graph_ok g"
proof -
  from assms obtain h where h: "run_ops as new_graph = Some h" "foldR fill_views es h = Inr g"
    by (auto simp: viewed_def split: option.splits sum.splits)
  from run_ops_reachable [OF h(1) reachable.new] reachable_ok have "graph_ok h" by blast
  then show ?thesis using fill_views_ok h(2) by blast
qed

text \<open>Two unordered plain stores to static memory, and a load that reads the first.\<close>

definition static_addr :: saddr where "static_addr = 9223372036854775816"

definition racy_ops :: "graph_op list" where
  "racy_ops =
     [AddLabel (access_label Write (Event 0 1) NotAtomic static_addr), CoAfter (Event 0 1) event_init,
      Fork (start_label (Event 1 0) event_init),
      AddLabel (access_label Write (Event 1 1) NotAtomic static_addr), CoAfter (Event 1 1) (Event 0 1),
      AddLabel (access_label Read (Event 0 2) Acquire static_addr), SetRf (Event 0 2) (Some (Event 0 1))]"

definition racy_graph :: exec_graph where
  "racy_graph = the (viewed [Event 0 1, Event 1 0, Event 1 1, Event 0 2] racy_ops new_graph)"

definition searchable_check :: "exec_graph \<Rightarrow> bool" where
  "searchable_check g \<longleftrightarrow> stamps_ok g \<and> list_all (label_sat (link_ok g) g) (positions g)"

lemma searchable_checked: "graph_ok g \<Longrightarrow> searchable_check g \<Longrightarrow> searchable g"
  by (simp add: searchable_def searchable_check_def)

lemma racy_run: "viewed [Event 0 1, Event 1 0, Event 1 1, Event 0 2] racy_ops new_graph = Some racy_graph"
proof -
  have "viewed [Event 0 1, Event 1 0, Event 1 1, Event 0 2] racy_ops new_graph \<noteq> None" by code_simp
  then show ?thesis by (auto simp: racy_graph_def)
qed

lemma racy_searchable: "searchable racy_graph"
proof (rule searchable_checked [OF viewed_ok [OF racy_run]])
  show "searchable_check racy_graph" by code_simp
qed

lemma racy_views: "view_right racy_graph (Event 0 2)" "view_right racy_graph (Event 1 1)"
proof -
  have "view_check 3 racy_graph (Event 0 2)" "view_check 3 racy_graph (Event 1 1)" by code_simp+
  then show "view_right racy_graph (Event 0 2)" "view_right racy_graph (Event 1 1)"
    using view_checked [OF racy_searchable] by blast+
qed

text \<open>A block that one thread allocates and writes, and another frees.\<close>

definition block_addr :: saddr where "block_addr = 16"

definition block_ops :: "graph_op list" where
  "block_ops =
     [AddLabel (malloc_label (Event 0 1) block_addr 8), AddLabel (access_label Write (Event 0 2) NotAtomic block_addr),
      CoAfter (Event 0 2) event_init, Alloc (Event 0 1) (Event 0 2), Fork (start_label (Event 1 0) event_init)]"

definition block_graph :: exec_graph where
  "block_graph = the (run_ops block_ops new_graph)"

definition block_free :: label where
  "block_free = free_label Free (Event 1 1) NotAtomic block_addr 0"

definition freed_graph :: exec_graph where
  "freed_graph = (case handleFree block_free block_graph of Inr h \<Rightarrow>
     (case foldR fill_views [Event 0 1, Event 0 2, Event 1 0, Event 1 1] h of Inr k \<Rightarrow> k | Inl _ \<Rightarrow> h) | Inl _ \<Rightarrow> block_graph)"

lemma block_ok: "graph_ok block_graph"
proof -
  have "run_ops block_ops new_graph \<noteq> None" by code_simp
  then have "run_ops block_ops new_graph = Some block_graph" by (auto simp: block_graph_def)
  from run_ops_reachable [OF this reachable.new] reachable_ok show ?thesis by blast
qed

lemma block_free_ready:
  "free_pos block_graph (lb_pos block_free)" "fresh_label block_free" "isFree (lb_kind block_free)"
  "findAllocatingLabel block_graph (lb_freeAddr block_free) = Some (Event 0 1)"
  "at_kind isMalloc block_graph (Event 0 1) (\<lambda>al. lb_free al = None)"
proof -
  have "nat (index (lb_pos block_free)) = getThreadSize block_graph (nat (thread (lb_pos block_free)))"
    "0 \<le> thread (lb_pos block_free)" "nat (thread (lb_pos block_free)) < getNumThreads block_graph"
    "0 \<le> index (lb_pos block_free)" by code_simp+
  then show "free_pos block_graph (lb_pos block_free)" by (simp add: free_pos_def)
  show "fresh_label block_free" "isFree (lb_kind block_free)"
    "findAllocatingLabel block_graph (lb_freeAddr block_free) = Some (Event 0 1)" by code_simp+
  have "(case lab_at block_graph (Event 0 1) of None \<Rightarrow> False | Some l \<Rightarrow> isMalloc (lb_kind l) \<and> lb_free l = None)" by code_simp
  then show "at_kind isMalloc block_graph (Event 0 1) (\<lambda>al. lb_free al = None)"
    by (simp add: at_kind_def split: option.splits)
qed

lemma freed_ok: "graph_ok freed_graph"
proof -
  from block_ok have core: "graph_core block_graph" by (simp add: graph_ok_def)
  from handleFree_step [OF core block_free_ready] obtain h where h: "handleFree block_free block_graph = Inr h" "graph_core h" by blast
  have "(case handleFree block_free block_graph of Inr h \<Rightarrow> list_all (\<lambda>t. 0 < getThreadSize h t) [0..<getNumThreads h] | Inl _ \<Rightarrow> False)"
    by code_simp
  with h(1) have "threads_ok h" by (simp add: threads_ok_def list_all_iff)
  with h(2) have ok: "graph_ok h" by (simp add: graph_ok_def)
  show ?thesis
  proof (cases "foldR fill_views [Event 0 1, Event 0 2, Event 1 0, Event 1 1] h")
    case (Inl e)
    then show ?thesis using ok h(1) by (simp add: freed_graph_def del: foldR.simps)
  next
    case (Inr k)
    from fill_views_ok [OF ok Inr] Inr h(1) show ?thesis by (simp add: freed_graph_def del: foldR.simps)
  qed
qed

lemma freed_searchable: "searchable freed_graph"
proof (rule searchable_checked [OF freed_ok])
  show "searchable_check freed_graph" by code_simp
qed

lemma freed_view: "view_right freed_graph (Event 1 1)"
proof -
  have "view_check 3 freed_graph (Event 1 1)" by code_simp
  then show ?thesis by (rule view_checked [OF freed_searchable])
qed

end
