(* ===== verification/SC_Props.thy ===== *)
theory SC_Props
  imports SC_Samples
begin

text \<open>
  Properties of the checker for sequential consistency: what its search for a cycle decides, what the
  views it caches hold, which stores a read gets, and what the error checks report.
\<close>

section \<open>Consistency\<close>

text \<open>C7: The full check answers whether the graph is sequentially consistent: it never fails, and it says
  yes exactly when the events can be put in a line that keeps every thread's order, starts threads
  after their creation and joins them after their end, has the stores of each location in coherence
  order, and lets every read see the last store in front of it.\<close>

theorem full_check_sc:
  "searchable g \<Longrightarrow> visitConsAcyclic1Full g = Inr (\<exists>es. interleaving g es)"
  by (simp only: visitConsAcyclic1Full_result acyclic_interleaving)

lemma full_check_sc_witness:
  "visitConsAcyclic1Full racy_graph = Inr True \<and> (\<exists>es. interleaving racy_graph es)"
proof -
  have run: "visitConsAcyclic1Full racy_graph = Inr True" by code_simp
  with full_check_sc [OF racy_searchable] show ?thesis by simp
qed

text \<open>A cycle that the rest of the graph does not have goes through the new label.\<close>

definition without_label :: "exec_graph \<Rightarrow> event \<Rightarrow> (event \<times> event) set" where
  "without_label g x = {(a, b). containsPos g a \<and> b \<in> set (sc_succs g a) \<and> a \<noteq> x \<and> b \<noteq> x}"

lemma path_without:
  "(a, b) \<in> (cons_search.edges g)\<^sup>+ \<Longrightarrow>
   (a, b) \<in> (without_label g x)\<^sup>+ \<or> (a, x) \<in> (cons_search.edges g)\<^sup>* \<and> (x, b) \<in> (cons_search.edges g)\<^sup>*"
proof (induction rule: trancl_induct)
  case (base b)
  then show ?case
    by (cases "a = x \<or> b = x") (auto simp: without_label_def cons_search.edges_def intro!: r_into_trancl r_into_rtrancl)
next
  case (step b c)
  show ?case
  proof (cases "(a, x) \<in> (cons_search.edges g)\<^sup>* \<and> (x, b) \<in> (cons_search.edges g)\<^sup>*")
    case True
    with step.hyps(2) show ?thesis by (meson rtrancl.rtrancl_into_rtrancl)
  next
    case False
    with step.IH have ab: "(a, b) \<in> (without_label g x)\<^sup>+" by blast
    show ?thesis
    proof (cases "c = x")
      case True
      have "(a, c) \<in> (cons_search.edges g)\<^sup>*"
        using step.hyps by (meson rtrancl.rtrancl_into_rtrancl trancl_into_rtrancl)
      with True show ?thesis by simp
    next
      case False
      from ab have "b \<noteq> x" by (cases rule: tranclE) (auto simp: without_label_def)
      with False step.hyps(2) have "(b, c) \<in> without_label g x"
        by (simp add: without_label_def cons_search.edges_def)
      with ab show ?thesis by (meson trancl.trancl_into_trancl)
    qed
  qed
qed

text \<open>C8: The incremental check, which searches from the label that was added only, decides the same when
  the rest of the graph was consistent: then it says yes exactly when the whole graph is sequentially
  consistent.\<close>

theorem incremental_check_sc:
  assumes "searchable g" "lab_at g x = Some l" "acyclic (without_label g x)"
  shows "isConsistent g l = Inr (\<exists>es. interleaving g es)"
proof -
  have "cons_search.reach_cycle g x \<longleftrightarrow> \<not> acyclic (cons_search.edges g)"
  proof
    assume "\<not> acyclic (cons_search.edges g)"
    then obtain z where z: "(z, z) \<in> (cons_search.edges g)\<^sup>+" by (auto simp: acyclic_def)
    with path_without [OF z, of x] assms(3) have "(x, z) \<in> (cons_search.edges g)\<^sup>*" by (auto simp: acyclic_def)
    with z show "cons_search.reach_cycle g x" by (auto simp: cons_search.reach_cycle_def)
  qed (auto simp: cons_search.reach_cycle_def acyclic_def)
  with isConsistent_result [OF assms(1,2)] acyclic_interleaving [OF assms(1)] show ?thesis by simp
qed

lemma racy_acyclic: "acyclic (cons_search.edges racy_graph)"
proof -
  have "visitConsAcyclic1Full racy_graph = Inr True" by code_simp
  with visitConsAcyclic1Full_result [OF racy_searchable] show ?thesis by simp
qed

lemma incremental_check_sc_witness:
  "\<exists>l. lab_at racy_graph (Event 0 2) = Some l \<and> isConsistent racy_graph l = Inr (\<exists>es. interleaving racy_graph es)"
proof -
  have "lab_at racy_graph (Event 0 2) \<noteq> None" by code_simp
  then obtain l where l: "lab_at racy_graph (Event 0 2) = Some l" by blast
  have "acyclic (without_label racy_graph (Event 0 2))"
    by (rule acyclic_subset [OF racy_acyclic]) (auto simp: without_label_def cons_search.edges_def)
  from incremental_check_sc [OF racy_searchable l this] l show ?thesis by blast
qed

section \<open>Views\<close>

text \<open>C9: The happens-before view computed for a label holds exactly the events that happen before it, if the
  views of those events do: the events of its thread in front of it, those that they synchronize with by
  reading, thread creation and joining, and what happens before these.  The calculation never fails.\<close>

theorem calculated_view_exact:
  assumes "searchable g" "lab_at g x = Some l" "lb_views l = []" "\<And>y. (y, x) \<in> happens_before g \<Longrightarrow> view_right g y"
  shows "\<exists>l' v. calculateViews g l = Inr l' \<and> getHbView l' = Inr v \<and>
    (\<forall>e. containsPos g e \<and> 0 < index e \<longrightarrow> view_contains v e = Inr ((e, x) \<in> happens_before g))"
proof -
  have "view_right g y" if "y \<in> before g x" for y using assms(4) that by (simp add: before_def)
  from calc_views [OF assms(1,2) this] obtain v w where
    v: "visitCalc57 g l = Inr v" "holds g v (before g x)" "visitCalc62 g l = Inr w" by metis
  have "calculateViews g l = Inr (l\<lparr>lb_views := [v, w]\<rparr>)"
    using v(1,3) assms(3) by (simp add: calculateViews_def checkCalc57_def checkCalc62_def)
  moreover have "getHbView (l\<lparr>lb_views := [v, w]\<rparr>) = Inr v"
    by (simp add: getHbView_def lab_view_def nthR_def)
  moreover have "view_contains v e = Inr ((e, x) \<in> happens_before g)" if "containsPos g e \<and> 0 < index e" for e
    using holds_contains [OF v(2)] that by (simp add: before_def)
  ultimately show ?thesis by blast
qed

lemma calculated_view_exact_witness:
  "\<exists>g l l' v. searchable g \<and> lab_at g (Event 0 1) = Some l \<and> calculateViews g l = Inr l' \<and> getHbView l' = Inr v \<and>
    view_contains v (Event 1 1) = Inr ((Event 1 1, Event 0 1) \<in> happens_before g)"
proof -
  let ?g = sample_graph
  have s: "searchable ?g" by (rule searchable_checked [OF sample_ok]) code_simp
  have "case lab_at ?g (Event 0 1) of None \<Rightarrow> False | Some l \<Rightarrow> lb_views l = []" by code_simp
  then obtain l where l: "lab_at ?g (Event 0 1) = Some l" "lb_views l = []" by (auto split: option.splits)
  have x: "containsPos ?g (Event 0 1)" using l(1) by (simp add: containsPos_lab)
  have "past_closed 2 ?g (Event 0 1)" by code_simp
  from past_is_before [OF s x this] have b: "before ?g (Event 0 1) = set (past 2 ?g (Event 0 1))" .
  have "list_all (view_check 2 ?g) (past 2 ?g (Event 0 1))" by code_simp
  then have "view_right ?g y" if "(y, Event 0 1) \<in> happens_before ?g" for y
    using that b view_checked [OF s] by (auto simp: list_all_iff before_def)
  from calculated_view_exact [OF s l this] obtain l' v where
    v: "calculateViews ?g l = Inr l'" "getHbView l' = Inr v"
      "\<forall>e. containsPos ?g e \<and> 0 < index e \<longrightarrow> view_contains v e = Inr ((e, Event 0 1) \<in> happens_before ?g)" by blast
  have "containsPos ?g (Event 1 1)" by code_simp
  with v(3) have "view_contains v (Event 1 1) = Inr ((Event 1 1, Event 0 1) \<in> happens_before ?g)" by simp
  with s l(1) v(1,2) show ?thesis by blast
qed

section \<open>Stores\<close>

text \<open>C11: A read may read from the stores of its location that no store it has seen hides: of the initial
  value and the stores in coherence order, the last one that happens before the read, or is read by an
  event that does, and all behind it.  The shortcut for a last store of the same thread gives the same.\<close>

theorem coherent_stores_exact:
  assumes "searchable g" "view_right g r" "co_at g a = Inr ws"
  shows "getCoherentStores g a r = Inr (from_last (seen_by g r) (event_init # ws))"
  by (rule coherent_stores [OF assms])

lemma coherent_stores_exact_witness:
  "getCoherentStores racy_graph static_addr (Event 0 2) =
     Inr (from_last (seen_by racy_graph (Event 0 2)) [event_init, Event 0 1, Event 1 1]) \<and>
   getCoherentStores racy_graph static_addr (Event 0 2) = Inr [Event 0 1, Event 1 1]"
proof -
  have "co_at racy_graph static_addr = Inr [Event 0 1, Event 1 1]" by code_simp
  moreover have "getCoherentStores racy_graph static_addr (Event 0 2) = Inr [Event 0 1, Event 1 1]" by code_simp
  ultimately show ?thesis using coherent_stores_exact [OF racy_searchable racy_views(1)] by simp
qed

text \<open>The places of a new store in coherence, as the store it comes after: every place behind the last
  store that it has seen, except between the store of an RMW and the store that the RMW reads from.\<close>

theorem coherent_placings_exact:
  assumes "searchable g" "view_right g w" "co_at g a = Inr ws"
  shows "getCoherentPlacings g a w False =
    Inr (map (pred_at ws) (filter (\<lambda>i. \<not> label_sat write_isRMW g (ws ! i)) [upto_last (seen_by g w) ws..<length ws])
      @ [pred_at ws (length ws)])"
  by (rule coherent_placings [OF assms])

lemma coherent_placings_exact_witness:
  "getCoherentPlacings racy_graph static_addr (Event 1 1) False = Inr [event_init, Event 0 1, Event 1 1] \<and>
   upto_last (seen_by racy_graph (Event 1 1)) [Event 0 1, Event 1 1] = 0"
proof -
  have co: "co_at racy_graph static_addr = Inr [Event 0 1, Event 1 1]" by code_simp
  have run: "getCoherentPlacings racy_graph static_addr (Event 1 1) False = Inr [event_init, Event 0 1, Event 1 1]" by code_simp
  let ?n = "upto_last (seen_by racy_graph (Event 1 1)) [Event 0 1, Event 1 1]"
  have "length (filter (\<lambda>i. \<not> label_sat write_isRMW racy_graph ([Event 0 1, Event 1 1] ! i)) [?n..<2]) = 2"
    using coherent_placings_exact [OF racy_searchable racy_views(2) co] run
    by (metis Inr_inject length_Cons length_append_singleton length_map list.size(3) nat.inject numeral_2_eq_2)
  moreover have "length (filter (\<lambda>i. \<not> label_sat write_isRMW racy_graph ([Event 0 1, Event 1 1] ! i)) [?n..<2]) \<le> 2 - ?n"
    using length_filter_le [of _ "[?n..<2]"] by simp
  ultimately show ?thesis using run by simp
qed

section \<open>Errors\<close>

text \<open>C10: The checks of an access to static memory report a data race exactly when there is one: another access
  of the location, one of the two a store and one of them not atomic, that does not happen before it.  The
  label they name is such an access.\<close>

theorem race_check_exact:
  assumes "searchable g" "view_right g x" "lab_at g x = Some l" "isMemAccess (lb_kind l)"
    and "saddr_isStatic (lb_addr l)" "lb_alloc l = None"
  shows "if \<exists>y. races g x y then \<exists>y. races g x y \<and> checkErrors g l None = Inr (VE_RaceNotAtomic, Some y)
    else checkErrors g l None = Inr (VE_OK, None)"
  by (rule static_access_checks [OF assms])

lemma race_check_exact_witness:
  "\<exists>l. lab_at racy_graph (Event 1 1) = Some l \<and> (\<exists>y. races racy_graph (Event 1 1) y \<and>
     checkErrors racy_graph l None = Inr (VE_RaceNotAtomic, Some y))"
proof -
  have "(case lab_at racy_graph (Event 1 1) of None \<Rightarrow> False | Some l \<Rightarrow> isMemAccess (lb_kind l) \<and>
      saddr_isStatic (lb_addr l) \<and> lb_alloc l = None \<and> checkErrors racy_graph l None \<noteq> Inr (VE_OK, None))" by code_simp
  then obtain l where l: "lab_at racy_graph (Event 1 1) = Some l" "isMemAccess (lb_kind l)"
    "saddr_isStatic (lb_addr l)" "lb_alloc l = None" "checkErrors racy_graph l None \<noteq> Inr (VE_OK, None)"
    by (auto split: option.splits)
  from race_check_exact [OF racy_searchable racy_views(2) l(1-4)] l(1,5) show ?thesis
    by (cases "\<exists>y. races racy_graph (Event 1 1) y") auto
qed

text \<open>C12: Freeing a block is reported as an access to freed memory exactly when its allocation or one of the
  accesses of the block does not happen before it.\<close>

theorem free_check_exact:
  assumes "searchable g" "view_right g x" "lab_at g x = Some l" "lb_kind l = Free" "lb_alloc l = Some a" "lab_at g a = Some al"
  shows "let bad = {m \<in> insert a (set (lb_accesses al)). m \<notin> before g x} in
    if bad = {} then checkErrors g l None = Inr (VE_OK, None)
    else \<exists>m \<in> bad. checkErrors g l None = Inr (VE_AccessFreed, Some m)"
  by (rule free_checks [OF assms])

lemma free_check_exact_witness:
  "\<exists>l m. lab_at freed_graph (Event 1 1) = Some l \<and> m \<notin> before freed_graph (Event 1 1) \<and>
     checkErrors freed_graph l None = Inr (VE_AccessFreed, Some m)"
proof -
  have "(case lab_at freed_graph (Event 1 1) of None \<Rightarrow> False | Some l \<Rightarrow> lb_kind l = Free \<and>
      lb_alloc l = Some (Event 0 1) \<and> checkErrors freed_graph l None \<noteq> Inr (VE_OK, None))" by code_simp
  then obtain l where l: "lab_at freed_graph (Event 1 1) = Some l" "lb_kind l = Free" "lb_alloc l = Some (Event 0 1)"
    "checkErrors freed_graph l None \<noteq> Inr (VE_OK, None)" by (auto split: option.splits)
  have "lab_at freed_graph (Event 0 1) \<noteq> None" by code_simp
  then obtain al where al: "lab_at freed_graph (Event 0 1) = Some al" by blast
  let ?bad = "{m \<in> insert (Event 0 1) (set (lb_accesses al)). m \<notin> before freed_graph (Event 1 1)}"
  have r: "if ?bad = {} then checkErrors freed_graph l None = Inr (VE_OK, None)
      else \<exists>m \<in> ?bad. checkErrors freed_graph l None = Inr (VE_AccessFreed, Some m)"
    using free_check_exact [OF freed_searchable freed_view l(1-3) al] by (simp only: Let_def)
  then have "\<exists>m \<in> ?bad. checkErrors freed_graph l None = Inr (VE_AccessFreed, Some m)"
    using l(4) by presburger
  with l(1) show ?thesis by blast
qed

text \<open>The checks never report that a block is freed twice.  They look for the other label among the labels
  at the same location, and a label that frees has no location.\<close>

theorem double_free_not_reported:
  "checkErrors g l c \<noteq> Inr (VE_DoubleFree, c')"
  by (simp add: checkErrors_def error3_passes bindR_def split: sum.splits prod.splits)

text \<open>Freeing a block that is allocated and not freed keeps the graph well formed, and links the label that
  frees and the allocation to each other.\<close>

theorem handleFree_core:
  assumes "graph_core g" "free_pos g (lb_pos dl)" "fresh_label dl" "isFree (lb_kind dl)"
    and "findAllocatingLabel g (lb_freeAddr dl) = Some a" "at_kind isMalloc g a (\<lambda>al. lb_free al = None)"
  shows "\<exists>h. handleFree dl g = Inr h \<and> graph_core h \<and> at_kind isFree h (lb_pos dl) (\<lambda>l. lb_alloc l = Some a) \<and>
    at_kind isMalloc h a (\<lambda>al. lb_free al = Some (lb_pos dl))"
  by (rule handleFree_step [OF assms])

lemma handleFree_core_witness:
  "\<exists>h. handleFree block_free block_graph = Inr h \<and> graph_core h"
  using handleFree_core [OF _ block_free_ready] block_ok by (auto simp: graph_ok_def)

text \<open>An address outside every block has no allocation, which is followed all the same.\<close>

lemma handleFree_unallocated:
  assumes "graph_core g" "free_pos g (lb_pos dl)" "fresh_label dl" "findAllocatingLabel g (lb_freeAddr dl) = None"
  shows "handleFree dl g = Inl Undefined"
proof -
  have "fresh_label (dl\<lparr>lb_freedSize := 0, lb_alloc := None\<rparr>)" "free_pos g (lb_pos (dl\<lparr>lb_freedSize := 0, lb_alloc := None\<rparr>))"
    using assms(2,3) by (simp_all add: fresh_label_def)
  from addLabel_core [OF assms(1) this(2,1)] assms(4) show ?thesis by (auto simp: handleFree_def)
qed

end
