(* ===== verification/Revisits.thy ===== *)
theory Revisits
  imports Explorer Graph_Iterators
begin

text \<open>
  Backward revisits of the driver (\<open>Verification/GenMCDriver.cpp\<close>): the view of a revisit, whether the part
  of the graph that it deletes was added maximally, and the graph that it continues with.

  The configuration and the consistency checker are an argument.  The view that the checker calculates
  for a label that has none cached is stored in the label by the code; here it is only returned.
\<close>

record checker_env =
  conf_helper :: bool
  isDepTrackingModel :: bool
  calcPrefix :: "exec_graph \<Rightarrow> label \<Rightarrow> vector_clock res"
  coherentRevisits :: "exec_graph \<Rightarrow> label \<Rightarrow> vector_clock \<Rightarrow> event list res"

section \<open>Views\<close>

definition getReadLabel :: "exec_graph \<Rightarrow> event \<Rightarrow> label option res" where
  "getReadLabel g e = bindR (getEventLabel g e) (\<lambda>l. Inr (if isRead (lb_kind l) then Some l else None))"

definition getWriteLabel :: "exec_graph \<Rightarrow> event \<Rightarrow> label option res" where
  "getWriteLabel g e = bindR (getEventLabel g e) (\<lambda>l. Inr (if isWrite (lb_kind l) then Some l else None))"

text \<open>A pointer that the code follows without a check.\<close>

definition follow :: "'a option res \<Rightarrow> 'a res" where
  "follow p = bindR p (\<lambda>x. case x of None \<Rightarrow> Inl Undefined | Some y \<Rightarrow> Inr y)"

fun as_dep_view :: "vector_clock \<Rightarrow> dep_view res" where
  "as_dep_view (VC_DepView d) = Inr d"
| "as_dep_view (VC_View v) = Inl Undefined"

fun vc_setMax :: "vector_clock \<Rightarrow> event \<Rightarrow> vector_clock res" where
  "vc_setMax (VC_View v) e = bindR (view_setMax v e) (\<lambda>v'. Inr (VC_View v'))"
| "vc_setMax (VC_DepView d) e = bindR (dv_setMax d e) (\<lambda>d'. Inr (VC_DepView d'))"

definition getPrefixView :: "checker_env \<Rightarrow> exec_graph \<Rightarrow> label \<Rightarrow> vector_clock res" where
  "getPrefixView c g l = (case lb_prefixView l of Some v \<Rightarrow> Inr v | None \<Rightarrow> calcPrefix c g l)"

text \<open>The events of the prefix: a read whose store in the same thread is missing gets it, and so does the
  read part of an RMW its store.\<close>

definition include_rfi :: "label \<Rightarrow> dep_view \<Rightarrow> dep_view res" where
  "include_rfi l d =
     (if isRead (lb_kind l) then bindR (dv_contains d (lb_pos l)) (\<lambda>b.
        if \<not> b then Inr d
        else case lb_rf l of
          None \<Rightarrow> Inl Undefined
        | Some w \<Rightarrow> bindR (dv_contains d w) (\<lambda>c.
            if \<not> c \<and> thread w = thread (lb_pos l) then dv_removeHole w d else Inr d))
      else Inr d)"

definition include_rmw :: "vector_clock \<Rightarrow> label \<Rightarrow> dep_view \<Rightarrow> dep_view res" where
  "include_rmw pporf l d =
     (if isWrite (lb_kind l) \<and> write_isRMW l then bindR (vc_contains pporf (event_prev (lb_pos l))) (\<lambda>b.
        if b then dv_removeHole (lb_pos l) d else Inr d)
      else Inr d)"

definition updatePredsWithPrefixView :: "bool \<Rightarrow> exec_graph \<Rightarrow> vector_clock \<Rightarrow> vector_clock \<Rightarrow> vector_clock res" where
  "updatePredsWithPrefixView dep g preds pporf =
     bindR (vc_update preds pporf) (\<lambda>preds1.
     if \<not> dep then Inr preds1
     else bindR (as_dep_view preds1) (\<lambda>d.
       bindR (foldR (\<lambda>i d. bindR (vc_getMax pporf (int i)) (\<lambda>m.
         foldR (\<lambda>j d. bindR (getEventLabel g (Event (int i) j)) (\<lambda>l.
           bindR (include_rfi l d) (include_rmw pporf l))) [1..m] d)) [0..<vc_size pporf] d)
       (\<lambda>d. Inr (VC_DepView d))))"

definition getRevisitView :: "checker_env \<Rightarrow> exec_graph \<Rightarrow> label \<Rightarrow> label \<Rightarrow> label option \<Rightarrow> vector_clock res" where
  "getRevisitView c g rl sl mid =
     (let dep = isDepTrackingModel c in
      bindR (getPredsView dep g (lb_pos rl)) (\<lambda>preds.
      bindR (getPrefixView c g sl) (\<lambda>pporf.
      bindR (updatePredsWithPrefixView dep g preds pporf) (\<lambda>preds1.
      case mid of
        None \<Rightarrow> Inr preds1
      | Some ml \<Rightarrow> bindR (getPrefixView c g ml) (updatePredsWithPrefixView dep g preds1)))))"

text \<open>The pending RMW of the store, when its write part blocks revisits.\<close>

definition pending_blocker :: "exec_graph \<Rightarrow> label \<Rightarrow> event res" where
  "pending_blocker g sl =
     bindR (getPendingRMW g sl) (\<lambda>p. bindR (getEventLabel g p) (\<lambda>pl.
     bindR (case getNextLabel g pl of
         None \<Rightarrow> Inr None
       | Some n \<Rightarrow> bindR (deref g n) (\<lambda>nl. Inr (if isWrite (lb_kind nl) then Some nl else None))) (\<lambda>nw.
     if event_isInitializer p then Inr event_init
     else case nw of
       None \<Rightarrow> Inl Undefined
     | Some nl \<Rightarrow> Inr (if hasAttr WA_RevBlocker nl then event_next p else event_init))))"

definition constructBackwardRevisit :: "checker_env \<Rightarrow> exec_graph \<Rightarrow> label \<Rightarrow> label \<Rightarrow> revisit res" where
  "constructBackwardRevisit c g rl sl =
     (let plain = bindR (getRevisitView c g rl sl None) (\<lambda>v. Inr (BackwardRevisit (lb_pos rl) (lb_pos sl) v)) in
      if \<not> conf_helper c then plain
      else bindR (pending_blocker g sl) (\<lambda>p. bindR (getPrefixView c g sl) (\<lambda>prefix.
        if event_isInitializer p then plain
        else bindR (getEventLabel g p) (\<lambda>pl. bindR (getPrefixView c g pl) (\<lambda>pv.
          bindR (vc_contains pv (lb_pos rl)) (\<lambda>b.
          if b \<or> \<not> the (lb_stamp rl) < the (lb_stamp pl) then plain
          else bindR (vc_contains prefix p) (\<lambda>b.
            if b then plain
            else bindR (getWriteLabel g p) (\<lambda>ml.
              bindR (getRevisitView c g rl sl ml) (\<lambda>v.
              Inr (BackwardRevisitHELPER (lb_pos rl) (lb_pos sl) v p))))))))))"

section \<open>Maximal extensions\<close>

definition readers_contained :: "dep_view \<Rightarrow> label \<Rightarrow> bool res" where
  "readers_contained v wl = anyR (dv_contains v) (lb_readers wl)"

text \<open>The loop looks at every event up to the greatest of each thread, and passes over the holes.\<close>

definition upto_view :: "dep_view \<Rightarrow> event list" where
  "upto_view v = concat (map (\<lambda>i. map (Event (int i)) [0..dview v ! i]) [0..<length (dview v)])"

definition isFixedHoleInView :: "exec_graph \<Rightarrow> label \<Rightarrow> dep_view \<Rightarrow> bool res" where
  "isFixedHoleInView g l v =
     (if isWrite (lb_kind l) then readers_contained v l
      else if \<not> isRead (lb_kind l) then Inr False
      else bindR (anyR (\<lambda>e. bindR (dv_contains v e) (\<lambda>b.
             if \<not> b then Inr False
             else bindR (getReadLabel g e) (\<lambda>m. case m of
                 None \<Rightarrow> Inr False
               | Some ml \<Rightarrow> Inr (lb_addr ml = lb_addr l \<and> lb_rf ml = lb_rf l)))) (upto_view v)) (\<lambda>b.
        if b then Inr True
        else if read_isRMW g l then bindR (follow (getWriteLabel g (event_next (lb_pos l)))) (readers_contained v)
        else Inr False))"

definition prefix_holds :: "checker_env \<Rightarrow> exec_graph \<Rightarrow> event \<Rightarrow> label \<Rightarrow> bool res" where
  "prefix_holds c g w l = bindR (getEventLabel g w) (\<lambda>wl. bindR (getPrefixView c g wl) (\<lambda>pv.
     bindR (as_dep_view pv) (\<lambda>v. bindR (dv_getMax v (thread (lb_pos l))) (\<lambda>m.
     if index (lb_pos l) \<le> m then isFixedHoleInView g l v else Inr False))))"

definition prefixContainsSameLoc :: "checker_env \<Rightarrow> exec_graph \<Rightarrow> revisit \<Rightarrow> label \<Rightarrow> bool res" where
  "prefixContainsSameLoc c g r l =
     (if \<not> isDepTrackingModel c then Inr False
      else bindR (rv_getRev r) (\<lambda>w. bindR (prefix_holds c g w l) (\<lambda>b.
        if b then Inr True
        else case rv_getMid r of None \<Rightarrow> Inr False | Some m \<Rightarrow> prefix_holds c g m l)))"

text \<open>The view of a backward revisit; the functions below take only those.\<close>

definition rv_contains :: "revisit \<Rightarrow> event \<Rightarrow> bool res" where
  "rv_contains r e = (case rv_view r of None \<Rightarrow> Inl Undefined | Some v \<Rightarrow> vc_contains v e)"

definition hasBeenRevisitedByDeleted :: "checker_env \<Rightarrow> exec_graph \<Rightarrow> revisit \<Rightarrow> label \<Rightarrow> bool res" where
  "hasBeenRevisitedByDeleted c g r l =
     (if \<not> isRead (lb_kind l) \<or> lb_ipr l then Inr False
      else case lb_rf l of
        None \<Rightarrow> Inl Undefined
      | Some w \<Rightarrow> bindR (deref g w) (\<lambda>wl. bindR (rv_contains r w) (\<lambda>b.
          if b \<or> \<not> the (lb_stamp wl) > the (lb_stamp l) then Inr False
          else bindR (prefixContainsSameLoc c g r wl) (\<lambda>b. Inr (\<not> b)))))"

definition isCoBeforeSavedPrefix :: "checker_env \<Rightarrow> exec_graph \<Rightarrow> revisit \<Rightarrow> label \<Rightarrow> bool res" where
  "isCoBeforeSavedPrefix c g r l =
     (if \<not> isMemAccess (lb_kind l) then Inr False
      else bindR (if isRead (lb_kind l) then (case lb_rf l of None \<Rightarrow> Inl Undefined | Some w \<Rightarrow> Inr w)
                  else Inr (lb_pos l)) (\<lambda>w.
        bindR (getWriteLabel g w) (\<lambda>wl.
        bindR (case wl of None \<Rightarrow> Inr (co g (lb_addr l)) | Some wl \<Rightarrow> co_succs g wl) (\<lambda>ss.
        anyR (\<lambda>s. bindR (rv_contains r s) (\<lambda>b.
          if \<not> b then Inr False
          else bindR (if \<not> isDepTrackingModel c then Inr True
                 else bindR (deref g s) (\<lambda>sl. bindR (getPrefixView c g sl) (\<lambda>pv.
                   bindR (vc_getMax pv (thread (lb_pos l))) (\<lambda>m. Inr (index (lb_pos l) > m))))) (\<lambda>b.
            if \<not> b then Inr False else bindR (rv_getRev r) (\<lambda>rev. Inr (s \<noteq> rev))))) ss))))"

definition coherenceSuccRemainInGraph :: "exec_graph \<Rightarrow> revisit \<Rightarrow> bool res" where
  "coherenceSuccRemainInGraph g r =
     bindR (rv_getRev r) (\<lambda>w. bindR (follow (getWriteLabel g w)) (\<lambda>wl.
     if write_isRMW wl then Inr True
     else bindR (co_succs g wl) (\<lambda>ss. case ss of [] \<Rightarrow> Inr True | s # _ \<Rightarrow> rv_contains r s)))"

definition wasAddedMaximally :: "label \<Rightarrow> bool" where
  "wasAddedMaximally l =
     (if isMemAccess (lb_kind l) then lb_maximal l
      else if lb_kind l = Optional then \<not> lb_expanded l else True)"

text \<open>One label: it stays, or it was added maximally and nothing that stays depends on it.\<close>

definition maximal_label :: "checker_env \<Rightarrow> exec_graph \<Rightarrow> revisit \<Rightarrow> label \<Rightarrow> bool res" where
  "maximal_label c g r l =
     bindR (if lb_pos l \<noteq> rv_getPos r then rv_contains r (lb_pos l) else Inr False) (\<lambda>b. if b then Inr True else
     bindR (prefixContainsSameLoc c g r l) (\<lambda>b. if b then Inr True else
     if \<not> wasAddedMaximally l then Inr False else
     bindR (isCoBeforeSavedPrefix c g r l) (\<lambda>b. if b then Inr False else
     bindR (hasBeenRevisitedByDeleted c g r l) (\<lambda>b. Inr (\<not> b)))))"

definition isMaximalExtension :: "checker_env \<Rightarrow> exec_graph \<Rightarrow> revisit \<Rightarrow> bool res" where
  "isMaximalExtension c g r =
     bindR (coherenceSuccRemainInGraph g r) (\<lambda>b. if \<not> b then Inr False else
     all_labels (\<lambda>e. bindR (deref g e) (maximal_label c g r)) (insertionOrder g))"

definition thread_modified :: "checker_env \<Rightarrow> exec_graph \<Rightarrow> vector_clock \<Rightarrow> nat \<Rightarrow> bool res" where
  "thread_modified c g v i =
     bindR (vc_getMax v (int i)) (\<lambda>m.
     bindR (if m + 1 = int (getThreadSize g i) then Inr False
            else bindR (getEventLabel g (Event (int i) (m + 1))) (\<lambda>l. Inr (\<not> isTerminator (lb_kind l)))) (\<lambda>b.
     if b then Inr True
     else if \<not> isDepTrackingModel c then Inr False
     else anyR (\<lambda>j. bindR (getEventLabel g (Event (int i) (int j))) (\<lambda>l. bindR (vc_contains v (lb_pos l)) (\<lambda>b.
       Inr (\<not> b \<and> lb_kind l \<noteq> Empty \<and> \<not> isTerminator (lb_kind l))))) [0..<getThreadSize g i]))"

definition revisitModifiesGraph :: "checker_env \<Rightarrow> exec_graph \<Rightarrow> revisit \<Rightarrow> bool res" where
  "revisitModifiesGraph c g r = (case rv_view r of
     None \<Rightarrow> Inl Undefined
   | Some v \<Rightarrow> anyR (thread_modified c g v) [0..<getNumThreads g])"

section \<open>The graph of a revisit\<close>

text \<open>An optimized revisit leaves out the RMW that it passes over.\<close>

definition adjust_view :: "revisit \<Rightarrow> vector_clock \<Rightarrow> vector_clock res" where
  "adjust_view br v = (case rv_getMid br of
     None \<Rightarrow> Inr v
   | Some m \<Rightarrow> (case v of
       VC_DepView d \<Rightarrow> bindR (dv_addHole m d) (\<lambda>d. bindR (dv_addHole (event_prev m) d) (\<lambda>d. Inr (VC_DepView d)))
     | VC_View _ \<Rightarrow> bindR (vc_getMax v (thread m)) (\<lambda>prev. vc_setMax v (Event (thread m) (prev - 2)))))"

definition fix_prefix :: "vector_clock \<Rightarrow> exec_graph \<Rightarrow> exec_graph res" where
  "fix_prefix prefix og = foldR (\<lambda>e og. bindR (vc_contains prefix e) (\<lambda>b.
     if b then with_label e (\<lambda>l. Inr (l\<lparr>lb_revisitable := False\<rparr>)) og else Inr og)) (insertionOrder og) og"

definition copyGraph :: "checker_env \<Rightarrow> exec_graph \<Rightarrow> revisit \<Rightarrow> vector_clock \<Rightarrow> exec_graph res" where
  "copyGraph c g br v =
     bindR (rv_getRev br) (\<lambda>w. bindR (getEventLabel g w) (\<lambda>wl. bindR (getPrefixView c g wl) (\<lambda>prefix.
     bindR (adjust_view br v) (\<lambda>v1. bindR (getCopyUpTo v1 g) (\<lambda>og.
     bindR (follow (getReadLabel og (rv_getPos br))) (\<lambda>rl.
     bindR (compressStampsAfter (the (lb_stamp rl)) og) (fix_prefix prefix)))))))"

text \<open>A mutant of an execution: the graph in which read \<open>r\<close> is to read from \<open>w\<close>, and the revisit that does it.
  The view of a backward revisit is that of the current graph \<open>cur\<close>, not of the argument.\<close>

definition mutate :: "checker_env \<Rightarrow> exec_graph \<Rightarrow> exec_graph \<Rightarrow> event \<Rightarrow> event \<Rightarrow> (exec_graph \<times> revisit) res" where
  "mutate c cur g r w =
     bindR (follow (getReadLabel g r)) (\<lambda>rl. bindR (getEventLabel g w) (\<lambda>wl.
     bindR (if the (lb_stamp rl) > the (lb_stamp wl)
            then bindR (graph_getViewFromStamp (isDepTrackingModel c) (the (lb_stamp rl)) g) (\<lambda>v.
              Inr (v, ReadForwardRevisit r w True))
            else if \<not> isWrite (lb_kind wl) then Inl Undefined
            else bindR (getRevisitView c cur rl wl None) (\<lambda>v.
              bindR (constructBackwardRevisit c cur rl wl) (\<lambda>rev. Inr (v, rev)))) (\<lambda>(v, rev).
     bindR (getCopyUpTo v g) (\<lambda>og. bindR (compressStampsAfter (the (lb_stamp rl)) og) (\<lambda>og.
     Inr (og, rev))))))"

text \<open>The loads that a store may revisit, the most recent one first.\<close>

definition getRevisitableApproximation :: "checker_env \<Rightarrow> exec_graph \<Rightarrow> label \<Rightarrow> event list res" where
  "getRevisitableApproximation c g sl =
     bindR (getPrefixView c g sl) (\<lambda>prefix. bindR (coherentRevisits c g sl prefix) (\<lambda>loads.
     Inr (rev (sort_key (stamp_of g) loads))))"

text \<open>The backward revisits of a store, up to the first one that does not extend maximally.\<close>

fun maximal_revisits :: "checker_env \<Rightarrow> exec_graph \<Rightarrow> label \<Rightarrow> event list \<Rightarrow> revisit list res" where
  "maximal_revisits c g sl [] = Inr []"
| "maximal_revisits c g sl (e # es) =
     bindR (getReadLabel g e) (\<lambda>r. case r of None \<Rightarrow> Inl Bug | Some rl \<Rightarrow>
     bindR (constructBackwardRevisit c g rl sl) (\<lambda>br.
     bindR (isMaximalExtension c g br) (\<lambda>b.
     if \<not> b then Inr [] else bindR (maximal_revisits c g sl es) (\<lambda>brs. Inr (br # brs)))))"

section \<open>The read\<close>

text \<open>The edge that a read revisit changes, and the flags of the read.\<close>

definition change_rf :: "revisit \<Rightarrow> exec_graph \<Rightarrow> exec_graph res" where
  "change_rf ri g =
     bindR (rv_getRev ri) (\<lambda>w. bindR (follow (getReadLabel g (rv_getPos ri))) (\<lambda>rl. bindR (getEventLabel g w) (\<lambda>_.
     bindR (setRf (rv_getPos ri) (Some w) g) (\<lambda>g1.
     bindR (case ri of
         ReadForwardRevisit _ _ m \<Rightarrow> Inr m
       | _ \<Rightarrow> bindR (co_max g1 (lb_addr rl)) (\<lambda>m. Inr (w = m))) (\<lambda>m.
     with_label (rv_getPos ri) (\<lambda>l. Inr (l\<lparr>lb_maximal := m, lb_ipr := False\<rparr>)) g1)))))"

text \<open>The graph in which a backward revisit continues: the view is calculated anew, because blocks may
  have gone since the revisit was planned; the copy is repaired, and the read gets its new store.\<close>

definition backward_graph :: "checker_env \<Rightarrow> exec_graph \<Rightarrow> revisit \<Rightarrow> exec_graph res" where
  "backward_graph c g br =
     bindR (rv_getRev br) (\<lambda>w.
     bindR (follow (getReadLabel g (rv_getPos br))) (\<lambda>rl. bindR (follow (getWriteLabel g w)) (\<lambda>wl.
     bindR (case rv_getMid br of None \<Rightarrow> Inr None | Some m \<Rightarrow> getWriteLabel g m) (\<lambda>ml.
     bindR (getRevisitView c g rl wl ml) (\<lambda>v. bindR (copyGraph c g br v) (\<lambda>og.
     bindR (repairDanglingReads og) (change_rf br)))))))"

end
