(* ===== verification/Revisit_Facts.thy ===== *)
theory Revisit_Facts
  imports Revisits Explorer_Props
begin

text \<open>
  Facts about backward revisits: the view of a revisit is the events up to the stamp of the read together
  with the prefix of the store, and what the copy of the graph to that view is.
\<close>

section \<open>The view of a revisit\<close>

lemma view_update_length:
  assumes "view_update v w = Inr u"
  shows "length u \<le> max (length v) (length w)"
proof -
  have "length y \<le> max (length v) (length w)"
    if "foldR (\<lambda>i u. bindR (view_getMax u i) (\<lambda>a. bindR (view_getMax w i) (\<lambda>b.
             if a < b then view_setMax u (Event i b) else Inr u))) (map int [0..<k]) v = Inr y"
      "k \<le> max (length v) (length w)" for k y
    using that
  proof (induction k arbitrary: y)
    case (Suc k)
    then obtain u where u: "foldR (\<lambda>i u. bindR (view_getMax u i) (\<lambda>a. bindR (view_getMax w i) (\<lambda>b.
             if a < b then view_setMax u (Event i b) else Inr u))) (map int [0..<k]) v = Inr u"
      by (auto simp: foldR_append bindR_def split: sum.splits)
    with Suc have "length u \<le> max (length v) (length w)" by simp
    with Suc.prems u show ?case by (auto simp: foldR_append split: if_splits)
  qed simp
  with assms show ?thesis by (cases "w = []") (auto simp: view_update_def)
qed

lemma view_join_fits:
  assumes v: "view_cut.fits v g" and w: "view_cut.fits w g"
  shows "\<exists>u. view_update v w = Inr u \<and> view_cut.fits u g \<and>
    (\<forall>x. valid x \<longrightarrow> (vc_has (VC_View u) x \<longleftrightarrow> vc_has (VC_View v) x \<or> vc_has (VC_View w) x))"
proof -
  from view_update_vmax [of v w] obtain u where u: "view_update v w = Inr u"
    "\<And>n. vmax u n = (if w = [] then vmax v n else max (vmax v n) (vmax w n))" by blast
  have inv: "view_inv v" "view_inv w" using v w by (simp_all add: view_cut.fits_def)
  then have nn: "0 \<le> vmax v n" "0 \<le> vmax w n" for n by (simp_all add: view_inv_vmax)
  have mx: "vmax u n = max (vmax v n) (vmax w n)" for n
    using u(2) [of n] nn [of n] by (cases "w = []") (simp_all add: nth_default_def)
  have "view_inv u" unfolding view_inv_vmax mx using nn by (simp add: max.coboundedI1)
  moreover have "length u \<le> getNumThreads g"
    using view_update_length [OF u(1)] v w by (auto simp: view_cut.fits_def)
  moreover have "vc_max (VC_View u) t < int (getThreadSize g t)" if "t < getNumThreads g" for t
    using v w that by (simp add: view_cut.fits_def vc_max_def mx)
  ultimately have "view_cut.fits u g" by (simp add: view_cut.fits_def)
  moreover have "vc_has (VC_View u) x \<longleftrightarrow> vc_has (VC_View v) x \<or> vc_has (VC_View w) x" if "valid x" for x
    using that by (auto simp: vc_has_view mx)
  ultimately show ?thesis using u(1) by blast
qed

lemma label_pos: "graph_core g \<Longrightarrow> lab_at g x = Some l \<Longrightarrow> lb_pos l = x"
  by (simp add: graph_core_def pos_ok_def)

lemma contained_valid: "containsPos g x \<Longrightarrow> valid x"
  by (simp add: containsPos_def valid_def)

lemma revisit_view:
  assumes g: "graph_ok g" and rl: "lab_at g r = Some rl" and plain: "\<not> isDepTrackingModel c"
    and pv: "getPrefixView c g sl = Inr (VC_View pv)" "view_cut.fits pv g"
  shows "\<exists>v. getRevisitView c g rl sl None = Inr (VC_View v) \<and> view_cut.fits v g \<and>
    (\<forall>x. containsPos g x \<longrightarrow> (vc_has (VC_View v) x \<longleftrightarrow> kept_at g (stamp_of g r) x \<or> vc_has (VC_View pv) x))"
proof -
  have core: "graph_core g" and th: "threads_ok g" using g by (simp_all add: graph_ok_def)
  have pos: "lb_pos rl = r" by (rule label_pos [OF core rl])
  from getViewFromStamp_fits [OF th, of "stamp_of g r"] obtain v where
    v: "getViewFromStamp (stamp_of g r) g = Inr (VC_View v)" "view_cut.fits v g"
    "\<And>x. containsPos g x \<Longrightarrow> vc_has (VC_View v) x \<longleftrightarrow> kept_at g (stamp_of g r) x" by blast
  have "getPredsView False g r = Inr (VC_View v)"
    using rl v(1) by (simp add: getPredsView_def graph_getViewFromStamp_def stamp_of_at)
  moreover from view_join_fits [OF v(2) pv(2)] obtain u where u: "view_update v pv = Inr u" "view_cut.fits u g"
    "\<And>x. valid x \<Longrightarrow> vc_has (VC_View u) x \<longleftrightarrow> vc_has (VC_View v) x \<or> vc_has (VC_View pv) x" by blast
  ultimately have "getRevisitView c g rl sl None = Inr (VC_View u)"
    using plain pv(1) pos by (simp add: getRevisitView_def Let_def updatePredsWithPrefixView_def)
  with u(2,3) v(3) contained_valid show ?thesis by blast
qed

section \<open>Labels of the prefix\<close>

definition pin :: "(event \<Rightarrow> bool) \<Rightarrow> event \<Rightarrow> label \<Rightarrow> label" where
  "pin has x l = (if has x then l\<lparr>lb_revisitable := False\<rparr> else l)"

lemma fix_prefix_loop:
  assumes "\<And>e. e \<in> set es \<Longrightarrow> containsPos og e \<and> vc_contains prefix e = Inr (has e)" "distinct es"
  shows "\<exists>h. foldR (\<lambda>e og. bindR (vc_contains prefix e) (\<lambda>b.
     if b then with_label e (\<lambda>l. Inr (l\<lparr>lb_revisitable := False\<rparr>)) og else Inr og)) es og = Inr h \<and>
    (\<forall>x. lab_at h x = (if x \<in> set es then map_option (pin has x) (lab_at og x) else lab_at og x)) \<and>
    coherence h = coherence og \<and> insertionOrder h = insertionOrder og \<and> timestamp h = timestamp og \<and>
    recoveryTID h = recoveryTID og \<and> getNumThreads h = getNumThreads og"
  using assms
proof (induction es arbitrary: og)
  case (Cons e es)
  then have e: "containsPos og e" "vc_contains prefix e = Inr (has e)" by simp_all
  from e(1) obtain l where l0: "lab_at og e = Some l" by (auto simp: containsPos_lab)
  note l = l0 e
  let ?g = "if has e then put_label e (l\<lparr>lb_revisitable := False\<rparr>) og else og"
  have at: "lab_at ?g x = (if x = e then Some (pin has e l) else lab_at og x)" for x
    using l by (simp add: lab_at_put pin_def)
  have "containsPos ?g x = containsPos og x" for x by simp
  with Cons.IH [of ?g] Cons.prems obtain h where h: "foldR (\<lambda>e og. bindR (vc_contains prefix e) (\<lambda>b.
     if b then with_label e (\<lambda>l. Inr (l\<lparr>lb_revisitable := False\<rparr>)) og else Inr og)) es ?g = Inr h"
    "\<And>x. lab_at h x = (if x \<in> set es then map_option (pin has x) (lab_at ?g x) else lab_at ?g x)"
    "coherence h = coherence ?g" "insertionOrder h = insertionOrder ?g" "timestamp h = timestamp ?g"
    "recoveryTID h = recoveryTID ?g" "getNumThreads h = getNumThreads ?g" by (metis (no_types, lifting) distinct.simps(2) list.set_intros(2))
  have "lab_at h x = (if x \<in> set (e # es) then map_option (pin has x) (lab_at og x) else lab_at og x)" for x
    unfolding h(2) at using Cons.prems(2) l(1) by auto
  moreover have "with_label e (\<lambda>l. Inr (l\<lparr>lb_revisitable := False\<rparr>)) og = Inr (put_label e (l\<lparr>lb_revisitable := False\<rparr>) og)"
    using l(1) by (simp add: with_label_def)
  then have "foldR (\<lambda>e og. bindR (vc_contains prefix e) (\<lambda>b.
     if b then with_label e (\<lambda>l. Inr (l\<lparr>lb_revisitable := False\<rparr>)) og else Inr og)) (e # es) og = Inr h"
    using h(1) l(3) by (cases "has e") simp_all
  ultimately show ?case using h(3-7) by (intro exI [of _ h]) simp
qed simp

lemma fix_prefix_result:
  assumes core: "graph_core og" and inv: "view_inv pv"
  defines "has \<equiv> vc_has (VC_View pv)"
  shows "\<exists>h. fix_prefix (VC_View pv) og = Inr h \<and> relabelled og h \<and>
    (\<forall>x. lab_at h x = map_option (pin has x) (lab_at og x)) \<and> timestamp h = timestamp og"
proof -
  have o: "distinct (insertionOrder og)" "set (insertionOrder og) = {e. containsPos og e}"
    using core by (simp_all add: graph_core_def order_ok_def)
  have c: "vc_contains (VC_View pv) e = Inr (has e)" if "containsPos og e" for e
    using view_cut.contains_law [OF inv contained_valid [OF that]] unfolding has_def vc_has_def by auto
  from fix_prefix_loop [OF _ o(1), of og "VC_View pv" has] o(2) c obtain h where
    h: "fix_prefix (VC_View pv) og = Inr h"
    "\<And>x. lab_at h x = (if x \<in> set (insertionOrder og) then map_option (pin has x) (lab_at og x) else lab_at og x)"
    "coherence h = coherence og" "insertionOrder h = insertionOrder og" "timestamp h = timestamp og"
    "recoveryTID h = recoveryTID og" "getNumThreads h = getNumThreads og" unfolding fix_prefix_def by blast
  have at: "lab_at h x = map_option (pin has x) (lab_at og x)" for x
    unfolding h(2) using o(2) by (cases "lab_at og x") (auto simp: containsPos_lab)
  have "rel_option core_same (lab_at og x) (lab_at h x)" for x
    unfolding at by (cases "lab_at og x") (auto simp: pin_def core_same_def)
  with h at show ?thesis by (auto simp: relabelled_def)
qed

section \<open>Compressing stamps keeps their order\<close>

text \<open>The insertion order follows the stamps, which are below the counter.\<close>

definition stamps_ok :: "exec_graph \<Rightarrow> bool" where
  "stamps_ok g \<longleftrightarrow> sorted_wrt (\<lambda>x y. stamp_of g x < stamp_of g y) (insertionOrder g) \<and>
     stamp_of g event_init = 0 \<and> list_all (\<lambda>x. stamp_of g x < timestamp g) (insertionOrder g)"

lemma takeWhile_sorted:
  fixes f :: "'a \<Rightarrow> 'b::linorder"
  assumes "sorted_wrt (\<lambda>x y. f x < f y) os" "x \<in> set os"
  shows "takeWhile (\<lambda>e. e \<noteq> x) os = filter (\<lambda>e. f e < f x) os"
  using assms
proof (induction os)
  case (Cons o1 os)
  show ?case
  proof (cases "o1 = x")
    case True
    with Cons.prems have "filter (\<lambda>e. f e < f x) os = []" by (auto simp: filter_empty_conv)
    with True show ?thesis by simp
  next
    case False
    with Cons.prems have "x \<in> set os" "f o1 < f x" by auto
    with False Cons show ?thesis by simp
  qed
qed simp

definition rank :: "(event \<Rightarrow> stamp) \<Rightarrow> stamp \<Rightarrow> event list \<Rightarrow> event \<Rightarrow> nat" where
  "rank f st os x = card {e \<in> set os. st < f e \<and> f e < f x}"

lemma sorted_inj:
  fixes f :: "'a \<Rightarrow> 'b::linorder"
  assumes "sorted_wrt (\<lambda>x y. f x < f y) os"
  shows "inj_on f (set os) \<and> distinct os"
  using assms
proof (induction os)
  case (Cons o1 os)
  then have "\<forall>y \<in> set os. f o1 < f y" "inj_on f (set os)" "distinct os" by simp_all
  then have "f o1 \<notin> f ` (set os - {o1})" "o1 \<notin> set os" by auto
  with \<open>inj_on f (set os)\<close> \<open>distinct os\<close> show ?case by simp
qed simp

lemma rank_takeWhile:
  assumes "sorted_wrt (\<lambda>x y. f x < f y) os" "x \<in> set os"
  shows "length (filter (\<lambda>e. f e > st) (takeWhile (\<lambda>e. e \<noteq> x) os)) = rank f st os x"
proof -
  have "filter (\<lambda>e. f e > st) (takeWhile (\<lambda>e. e \<noteq> x) os) = filter (\<lambda>e. st < f e \<and> f e < f x) os"
    unfolding takeWhile_sorted [OF assms] by (auto intro: filter_cong)
  moreover have "{x. P x} \<inter> set os = {e \<in> set os. P e}" for P by blast
  ultimately show ?thesis using sorted_inj [OF assms(1)] by (simp add: rank_def distinct_length_filter)
qed

lemma rank_gap:
  fixes f :: "event \<Rightarrow> stamp"
  assumes "sorted_wrt (\<lambda>x y. f x < f y) os" "st < b"
  shows "unat st + 1 + card {e \<in> set os. st < f e \<and> f e < b} \<le> unat b"
proof -
  let ?A = "{e \<in> set os. st < f e \<and> f e < b}"
  have "inj_on (\<lambda>e. unat (f e)) ?A"
    using sorted_inj [OF assms(1)] by (auto simp: inj_on_def word_unat_eq_iff [symmetric])
  moreover have "(\<lambda>e. unat (f e)) ` ?A \<subseteq> {unat st <..< unat b}" by (auto simp: word_less_nat_alt)
  ultimately have "card ?A \<le> card {unat st <..< unat b}" by (intro card_inj_on_le) auto
  moreover have "unat st < unat b" using assms(2) by (simp add: word_less_nat_alt)
  ultimately show ?thesis by simp
qed

lemma rank_mono:
  assumes "x \<in> set os" "st < f x" "f x < f y"
  shows "rank f st os x < rank f st os y"
  unfolding rank_def using assms by (intro psubset_card_mono) auto

lemma small_sum:
  fixes st b :: stamp
  assumes "unat st + 1 + n \<le> unat b"
  shows "unat (st + 1 + of_nat n) = unat st + 1 + n"
proof -
  have "unat st + 1 + n < 2 ^ 32" using assms unsigned_less [of b, where ?'a = nat] by simp
  moreover have "st + 1 + of_nat n = of_nat (unat st + 1 + n)" by simp
  moreover have "unat (of_nat m :: stamp) = m" if "m < 2 ^ 32" for m
    using that by (simp add: unsigned_of_nat take_bit_nat_eq_self)
  ultimately show ?thesis by presburger
qed

text \<open>The new stamps: below the bound they are the old ones, above it they count up without wrapping.\<close>

lemma compress_order:
  assumes core: "graph_core g" and ok: "stamps_ok g" and st: "st < timestamp g"
    and run: "compressStampsAfter st g = Inr h"
  shows "stamps_ok h \<and> (\<forall>x y. containsPos g x \<and> containsPos g y \<longrightarrow> (stamp_of h x < stamp_of h y \<longleftrightarrow> stamp_of g x < stamp_of g y)) \<and>
    (\<forall>x. containsPos g x \<longrightarrow> stamp_of h x \<le> stamp_of g x)"
proof -
  let ?f = "stamp_of g" let ?os = "insertionOrder g"
  have os: "set ?os = {e. containsPos g e}" using core by (simp add: graph_core_def order_ok_def)
  have sorted: "sorted_wrt (\<lambda>x y. ?f x < ?f y) ?os" and i0: "?f event_init = 0"
    and top: "\<And>x. containsPos g x \<Longrightarrow> ?f x < timestamp g"
    using ok os by (simp_all add: stamps_ok_def list_all_iff)
  from compress_result [OF core, of st] run have
    h: "relabelled g h" "\<And>x. containsPos g x \<Longrightarrow> ?f x \<le> st \<Longrightarrow> stamp_of h x = ?f x"
      "\<And>x. containsPos g x \<Longrightarrow> ?f x > st \<Longrightarrow> stamp_of h x = st + 1 + of_nat (length
        (filter (\<lambda>e. ?f e > st) (takeWhile (\<lambda>e. e \<noteq> x) ?os)))"
      "timestamp h = st + 1 + of_nat (length (filter (\<lambda>e. ?f e > st) ?os))" by auto
  have high: "unat (stamp_of h x) = unat st + 1 + rank ?f st ?os x" "unat (stamp_of h x) \<le> unat (?f x)"
    if x: "containsPos g x" "?f x > st" for x
  proof -
    note gap = rank_gap [OF sorted x(2), folded rank_def]
    have "stamp_of h x = st + 1 + of_nat (rank ?f st ?os x)"
      using h(3) [OF x] rank_takeWhile [OF sorted, of x st] x(1) os by simp
    with small_sum [OF gap] gap show "unat (stamp_of h x) = unat st + 1 + rank ?f st ?os x"
      "unat (stamp_of h x) \<le> unat (?f x)" by simp_all
  qed
  have iff: "stamp_of h x < stamp_of h y \<longleftrightarrow> ?f x < ?f y" if x: "containsPos g x" "containsPos g y" for x y
  proof (cases "?f x > st")
    case True
    show ?thesis
    proof (cases "?f y > st")
      case yes: True
      have "rank ?f st ?os x < rank ?f st ?os y \<longleftrightarrow> ?f x < ?f y"
      proof
        assume "rank ?f st ?os x < rank ?f st ?os y"
        then show "?f x < ?f y" using rank_mono [of y ?os st ?f x] x os yes by (cases "?f x" "?f y" rule: linorder_cases)
          (auto simp: rank_def)
      qed (use rank_mono [of x ?os st ?f y] x os True in simp)
      with high [OF x(1) True] high [OF x(2) yes] show ?thesis by (simp add: word_less_nat_alt)
    next
      case no: False
      with True have "\<not> ?f x < ?f y" by auto
      moreover have "unat (stamp_of h y) \<le> unat st" using no h(2) [OF x(2)] by (simp add: not_less word_le_nat_alt)
      ultimately show ?thesis using high [OF x(1) True] by (simp add: word_less_nat_alt)
    qed
  next
    case False
    then have lx: "stamp_of h x = ?f x" using h(2) [OF x(1)] by simp
    show ?thesis
    proof (cases "?f y > st")
      case yes: True
      with False have "?f x < ?f y" by auto
      moreover have "unat (?f x) \<le> unat st" using False by (simp add: not_less word_le_nat_alt)
      ultimately show ?thesis using high [OF x(2) yes] lx by (simp add: word_less_nat_alt)
    next
      case no: False
      with h(2) [OF x(2)] lx show ?thesis by simp
    qed
  qed
  have "stamp_of h x \<le> ?f x" if "containsPos g x" for x
    using h(2) [OF that] high(2) [OF that] by (cases "?f x > st") (auto simp: word_le_nat_alt not_less)
  moreover have "stamps_ok h"
  proof -
    have eq: "insertionOrder h = ?os" using h(1) by (simp add: relabelled_def)
    have "sorted_wrt (\<lambda>x y. stamp_of h x < stamp_of h y) ?os"
      using sorted by (rule sorted_wrt_mono_rel [rotated]) (use iff os in auto)
    moreover have "stamp_of h event_init = 0"
      using h(2) [OF init_contained [OF core]] i0 by simp
    moreover have "stamp_of h x < timestamp h" if x: "containsPos g x" for x
    proof -
      let ?n = "length (filter (\<lambda>e. ?f e > st) ?os)"
      have n: "?n = card {e \<in> set ?os. st < ?f e}"
        using sorted_inj [OF sorted] by (simp add: distinct_length_filter Collect_conj_eq Int_commute)
      also have "{e \<in> set ?os. st < ?f e} = {e \<in> set ?os. st < ?f e \<and> ?f e < timestamp g}" using top os by auto
      finally have "unat st + 1 + ?n \<le> unat (timestamp g)" using rank_gap [OF sorted st] by simp
      then have ts: "unat (timestamp h) = unat st + 1 + ?n" unfolding h(4) by (rule small_sum)
      show ?thesis
      proof (cases "?f x > st")
        case True
        have "rank ?f st ?os x < ?n" 
          unfolding n rank_def by (rule psubset_card_mono) (simp, use x True os in auto)
        with high(1) [OF x True] ts show ?thesis by (simp add: word_less_nat_alt)
      next
        case False
        with h(2) [OF x] ts show ?thesis by (auto simp: word_less_nat_alt word_le_nat_alt)
      qed
    qed
    ultimately show ?thesis using os by (simp add: stamps_ok_def eq list_all_iff)
  qed
  ultimately show ?thesis using iff by blast
qed

end
