(* ===== verification/Revisit_Graphs.thy ===== *)
theory Revisit_Graphs
  imports Revisit_Facts
begin

text \<open>
  The graph of a backward revisit: the copy to the view of the revisit, its repair, and the new edge.
\<close>

section \<open>The copy\<close>

text \<open>What a label of the copy has kept: everything but its pointers to events that are gone, and a label of
  the prefix can no longer be revisited.\<close>

definition carried :: "(event \<Rightarrow> bool) \<Rightarrow> (event \<Rightarrow> bool) \<Rightarrow> exec_graph \<Rightarrow> exec_graph \<Rightarrow> bool" where
  "carried has fixed g h \<longleftrightarrow> (\<forall>x l. lab_at h x = Some l \<and> x \<noteq> event_init \<longrightarrow> (\<exists>l0. lab_at g x = Some l0 \<and>
     lb_kind l = lb_kind l0 \<and> lb_addr l = lb_addr l0 \<and>
     lb_rf l = (if isRead (lb_kind l0) then keep_ptr has (lb_rf l0) else lb_rf l0) \<and>
     lb_maximal l = lb_maximal l0 \<and> lb_ipr l = lb_ipr l0 \<and> lb_revisitable l = (lb_revisitable l0 \<and> \<not> fixed x)))"

lemma carriedE:
  assumes "carried has fixed g h" "lab_at h x = Some l" "x \<noteq> event_init"
  obtains l0 where "lab_at g x = Some l0" "lb_kind l = lb_kind l0" "lb_addr l = lb_addr l0"
    "lb_rf l = (if isRead (lb_kind l0) then keep_ptr has (lb_rf l0) else lb_rf l0)" "lb_maximal l = lb_maximal l0" "lb_ipr l = lb_ipr l0"
    "lb_revisitable l = (lb_revisitable l0 \<and> \<not> fixed x)"
  using assms unfolding carried_def by blast

lemma cut_pointers_keeps:
  "lb_kind (cut_pointers has l) = lb_kind l" "lb_addr (cut_pointers has l) = lb_addr l"
  "lb_stamp (cut_pointers has l) = lb_stamp l"
  "lb_maximal (cut_pointers has l) = lb_maximal l" "lb_ipr (cut_pointers has l) = lb_ipr l"
  "lb_revisitable (cut_pointers has l) = lb_revisitable l"
  "lb_rf (cut_pointers has l) = (if isRead (lb_kind l) then keep_ptr has (lb_rf l) else lb_rf l)"
proof -
  show "lb_rf (cut_pointers has l) = (if isRead (lb_kind l) then keep_ptr has (lb_rf l) else lb_rf l)"
  proof (cases "isRead (lb_kind l)")
    case False
    then show ?thesis
      by (cases rule: pointer_class_cases [of "lb_kind l"]) (simp_all add: cut_pointers_cases cut_pointers_other)
  qed (simp add: cut_pointers_cases(2))
  have "lb_kind (cut_pointers has l) = lb_kind l \<and> lb_addr (cut_pointers has l) = lb_addr l \<and>
    lb_stamp (cut_pointers has l) = lb_stamp l \<and> lb_maximal (cut_pointers has l) = lb_maximal l \<and>
    lb_ipr (cut_pointers has l) = lb_ipr l \<and> lb_revisitable (cut_pointers has l) = lb_revisitable l"
    by (cases rule: pointer_class_cases [of "lb_kind l"]) (simp_all add: cut_pointers_cases cut_pointers_other)
  then show "lb_kind (cut_pointers has l) = lb_kind l" "lb_addr (cut_pointers has l) = lb_addr l"
    "lb_stamp (cut_pointers has l) = lb_stamp l" "lb_maximal (cut_pointers has l) = lb_maximal l"
    "lb_ipr (cut_pointers has l) = lb_ipr l" "lb_revisitable (cut_pointers has l) = lb_revisitable l" by simp_all
qed

lemma copy_stamps:
  assumes core: "graph_core g" and ok: "stamps_ok g" and h: "getCopyUpTo (VC_View v) g = Inr h" "graph_core h"
    and at: "\<And>x l. lab_at h x = Some l \<Longrightarrow> x \<noteq> event_init \<Longrightarrow> \<exists>l0. lab_at g x = Some l0 \<and> l = cut_pointers has l0"
    and ord: "insertionOrder h = filter has (insertionOrder g)" and ts: "timestamp h = timestamp g"
    and i0: "stamp_of h event_init = 0"
  shows "stamps_ok h \<and> (\<forall>x. containsPos h x \<longrightarrow> stamp_of h x = stamp_of g x)"
proof -
  have eq: "stamp_of h x = stamp_of g x" if "containsPos h x" for x
  proof (cases "x = event_init")
    case True
    with i0 ok show ?thesis by (simp add: stamps_ok_def)
  next
    case False
    from that obtain l where l: "lab_at h x = Some l" by (auto simp: containsPos_lab)
    from at [OF this False] obtain l0 where "lab_at g x = Some l0" "l = cut_pointers has l0" by blast
    with l show ?thesis by (simp add: stamp_of_at cut_pointers_keeps)
  qed
  have os: "set (insertionOrder h) = {e. containsPos h e}" using h(2) by (simp add: graph_core_def order_ok_def)
  have "sorted_wrt (\<lambda>x y. stamp_of g x < stamp_of g y) (insertionOrder h)"
    unfolding ord using ok by (intro sorted_wrt_filter) (simp add: stamps_ok_def)
  then have "sorted_wrt (\<lambda>x y. stamp_of h x < stamp_of h y) (insertionOrder h)"
    by (rule sorted_wrt_mono_rel [rotated]) (use eq os in auto)
  moreover have "list_all (\<lambda>x. stamp_of h x < timestamp h) (insertionOrder h)"
    unfolding list_all_iff
  proof
    fix x assume x: "x \<in> set (insertionOrder h)"
    then have "x \<in> set (insertionOrder g)" by (simp add: ord)
    with ok have "stamp_of g x < timestamp g" by (simp add: stamps_ok_def list_all_iff)
    with eq x os ts show "stamp_of h x < timestamp h" by auto
  qed
  ultimately show ?thesis using eq i0 by (simp add: stamps_ok_def)
qed

lemma copyGraph_result:
  assumes g: "graph_ok g" and ok: "stamps_ok g" and r: "lab_at g r = Some rl" "isRead (lb_kind rl)"
    and w: "lab_at g w = Some wl" and pv: "getPrefixView c g wl = Inr (VC_View pv)" "view_inv pv"
    and fit: "view_cut.fits v g" and hr: "vc_has (VC_View v) r"
  defines "has \<equiv> vc_has (VC_View v)" and "fixed \<equiv> vc_has (VC_View pv)"
  shows "\<exists>h. copyGraph c g (BackwardRevisit r w v0) (VC_View v) = Inr h \<and> graph_ok h \<and> stamps_ok h \<and>
    (\<forall>x. containsPos h x \<longleftrightarrow> containsPos g x \<and> has x) \<and> carried has fixed g h \<and> (\<forall>a. co h a = filter has (co g a)) \<and>
    (\<forall>x y. containsPos h x \<and> containsPos h y \<longrightarrow> (stamp_of h x < stamp_of h y \<longleftrightarrow> stamp_of g x < stamp_of g y)) \<and>
    (\<forall>x. containsPos h x \<longrightarrow> stamp_of h x \<le> stamp_of g x) \<and> rf_at h event_init = None"
proof -
  have core: "graph_core g" using g by (simp add: graph_ok_def)
  from getCopyUpTo_result [OF g fit, folded has_def] obtain h1 where
    h1: "getCopyUpTo (VC_View v) g = Inr h1" "graph_ok h1" "\<And>x. containsPos h1 x \<longleftrightarrow> containsPos g x \<and> has x"
    "\<And>x l. lab_at h1 x = Some l \<Longrightarrow> x \<noteq> event_init \<Longrightarrow> \<exists>l0. lab_at g x = Some l0 \<and> l = cut_pointers has l0"
    "\<And>a. co h1 a = filter has (co g a)" "insertionOrder h1 = filter has (insertionOrder g)"
    "timestamp h1 = timestamp g" "stamp_of h1 event_init = 0" "rf_at h1 event_init = None" by blast
  have core1: "graph_core h1" using h1(2) by (simp add: graph_ok_def)
  from copy_stamps [OF core ok h1(1) core1 h1(4,6-8)] have
    ok1: "stamps_ok h1" and st1: "\<And>x. containsPos h1 x \<Longrightarrow> stamp_of h1 x = stamp_of g x" by blast+
  have cr: "containsPos g r" using r(1) by (rule lab_at_pos)
  with h1(3) hr have cr1: "containsPos h1 r" by (simp add: has_def)
  have ni: "r \<noteq> event_init" using core_init [OF core] r by (metis kind_proper(1) option.inject)
  from cr1 obtain l1 where l1: "lab_at h1 r = Some l1" by (auto simp: containsPos_lab)
  from h1(4) [OF this ni] r(1) have k1: "lb_kind l1 = lb_kind rl" by (auto simp: cut_pointers_keeps)
  let ?st = "stamp_of g r"
  have s1: "the (lb_stamp l1) = ?st" using st1 [OF cr1] l1 by (simp add: stamp_of_at)
  have "?st < timestamp h1"
    using ok core cr h1(7) by (simp add: stamps_ok_def list_all_iff graph_core_def order_ok_def)
  from compress_result [OF core1, of ?st] obtain h2 where h2: "compressStampsAfter ?st h1 = Inr h2" "relabelled h1 h2"
    "\<And>x l l'. lab_at h1 x = Some l \<Longrightarrow> lab_at h2 x = Some l' \<Longrightarrow> l' = l\<lparr>lb_stamp := lb_stamp l'\<rparr>" by blast
  from compress_order [OF core1 ok1 \<open>?st < timestamp h1\<close> h2(1)] have
    ok2: "stamps_ok h2" and ord: "\<And>x y. containsPos h1 x \<Longrightarrow> containsPos h1 y \<Longrightarrow>
        (stamp_of h2 x < stamp_of h2 y \<longleftrightarrow> stamp_of h1 x < stamp_of h1 y)"
      "\<And>x. containsPos h1 x \<Longrightarrow> stamp_of h2 x \<le> stamp_of h1 x" by blast+
  have g2: "graph_ok h2" by (rule relabelled_ok [OF h2(2) h1(2)])
  then have core2: "graph_core h2" by (simp add: graph_ok_def)
  from fix_prefix_result [OF core2 pv(2), folded fixed_def] obtain h3 where
    h3: "fix_prefix (VC_View pv) h2 = Inr h3" "relabelled h2 h3"
      "\<And>x. lab_at h3 x = map_option (pin fixed x) (lab_at h2 x)" "timestamp h3 = timestamp h2" by blast
  have run: "copyGraph c g (BackwardRevisit r w v0) (VC_View v) = Inr h3"
    using w pv(1) h1(1) l1 k1 r(2) s1 h2(1) h3(1)
    by (simp add: copyGraph_def adjust_view_def getReadLabel_def follow_def)
  have r13: "relabelled h1 h3" by (rule relabelled_trans [OF h2(2) h3(2)])
  have st3: "stamp_of h3 x = stamp_of h2 x" for x
    unfolding stamp_of_def h3(3) by (cases "lab_at h2 x") (auto simp: pin_def)
  have pos: "containsPos h3 x \<longleftrightarrow> containsPos h1 x" for x by (rule relabelled_containsPos [OF r13])
  have ok3: "stamps_ok h3" using ok2 h3(2,4) by (simp add: stamps_ok_def relabelled_def st3)
  have "carried has fixed g h3"
    unfolding carried_def
  proof (intro allI impI, elim conjE)
    fix x l assume x: "lab_at h3 x = Some l" "x \<noteq> event_init"
    then obtain l2 where l2: "lab_at h2 x = Some l2" "l = pin fixed x l2" using h3(3) by auto
    from relabelledE [OF h2(2) l2(1)] obtain l1 where l1: "lab_at h1 x = Some l1" .
    from h1(4) [OF this x(2)] obtain l0 where l0: "lab_at g x = Some l0" "l1 = cut_pointers has l0" by blast
    have l2': "l2 = l1\<lparr>lb_stamp := lb_stamp l2\<rparr>" by (rule h2(3) [OF l1 l2(1)])
    have f: "lb_kind l2 = lb_kind l1" "lb_addr l2 = lb_addr l1" "lb_rf l2 = lb_rf l1" "lb_maximal l2 = lb_maximal l1"
      "lb_ipr l2 = lb_ipr l1" "lb_revisitable l2 = lb_revisitable l1" by (subst l2', simp)+
    show "\<exists>l0. lab_at g x = Some l0 \<and> lb_kind l = lb_kind l0 \<and> lb_addr l = lb_addr l0 \<and>
       lb_rf l = (if isRead (lb_kind l0) then keep_ptr has (lb_rf l0) else lb_rf l0) \<and>
       lb_maximal l = lb_maximal l0 \<and> lb_ipr l = lb_ipr l0 \<and> lb_revisitable l = (lb_revisitable l0 \<and> \<not> fixed x)"
      using l0 f unfolding l2(2) by (auto simp: pin_def cut_pointers_keeps)
  qed
  moreover have "graph_ok h3" by (rule relabelled_ok [OF r13 h1(2)])
  moreover have "co h3 a = filter has (co g a)" for a using relabelled_co [OF r13] h1(5) by simp
  moreover have "rf_at h3 event_init = None" using relabelled_rf [OF r13] h1(9) by simp
  ultimately show ?thesis using run ok3 pos h1(3) ord st1 st3 by (intro exI [of _ h3]) simp
qed

section \<open>The new edge\<close>

lemma change_rf_result:
  assumes g: "graph_ok g" and r: "lab_at g r = Some rl" "isRead (lb_kind rl)"
    and w: "lab_at g w = Some wl" "isWrite (lb_kind wl)"
  shows "\<exists>h. change_rf (BackwardRevisit r w v) g = Inr h \<and> graph_ok h \<and>
    rf_updated g r w (w = max_store g (lb_addr rl)) False h"
proof -
  have core: "graph_core g" using g by (simp add: graph_ok_def)
  have t: "rf_target g w" using w by (simp add: rf_target_def at_kind_def)
  obtain g1 l1 where g1: "setRf r (Some w) g = Inr g1" "lab_at g1 r = Some l1"
    "strip_rf rl = strip_rf l1" "coherence g1 = coherence g"
    and h: "\<forall>m i. rf_updated g r w m i (put_label r (l1\<lparr>lb_maximal := m, lb_ipr := i\<rparr>) g1)"
    by (rule set_rf_flags [OF core r t])
  have "lb_addr rl \<in> fst ` set (coherence g)"
    using access_tracked [OF core r(1)] pointer_classes(2) [OF r(2)] by simp
  then have "co_max g (lb_addr rl) = Inr (max_store g (lb_addr rl))" by (rule co_max_tracked)
  then have m: "co_max g1 (lb_addr rl) = Inr (max_store g (lb_addr rl))"
    by (simp add: co_max_def co_at_def g1(4))
  let ?m = "w = max_store g (lb_addr rl)"
  let ?h = "put_label r (l1\<lparr>lb_maximal := ?m, lb_ipr := False\<rparr>) g1"
  have "change_rf (BackwardRevisit r w v) g = Inr ?h"
    using r w g1(1,2) m by (simp add: change_rf_def getReadLabel_def follow_def with_label_def)
  moreover have u: "rf_updated g r w ?m False ?h" using h by blast
  moreover have "graph_ok ?h"
    using u g same_events_threads [of g ?h] by (simp add: rf_updated_def graph_ok_def)
  ultimately show ?thesis by blast
qed

section \<open>The counter of stamps\<close>

lemma with_label_timestamp: "with_label e f g = Inr h \<Longrightarrow> timestamp h = timestamp g"
  by (auto simp: with_label_def bindR_def split: sum.splits)

lemma setRf_timestamp:
  assumes "setRf r rf g = Inr h"
  shows "timestamp h = timestamp g"
proof -
  have d: "drop_reader r a w k = Inr k' \<Longrightarrow> timestamp k' = timestamp k" for a w k k'
    unfolding drop_reader_def by (rule with_label_timestamp)
  have j: "join_reader r a w k = Inr k' \<Longrightarrow> timestamp k' = timestamp k" for a w k k'
    unfolding join_reader_def by (rule with_label_timestamp)
  show ?thesis
    using assms by (auto simp: setRf_def bindR_def Let_def split: sum.splits option.splits if_splits dest!: d j)
qed

lemma repairRead_timestamp: "repairRead r g = Inr h \<Longrightarrow> timestamp h = timestamp g"
  by (auto simp: repairRead_def bindR_def split: sum.splits dest!: setRf_timestamp with_label_timestamp)

lemma foldR_timestamp:
  assumes "\<And>x g h. f x g = Inr h \<Longrightarrow> timestamp h = timestamp g" "foldR f xs g = Inr h"
  shows "timestamp h = timestamp g"
  using assms(2)
proof (induction xs arbitrary: g)
  case (Cons x xs)
  then obtain k where "f x g = Inr k" "foldR f xs k = Inr h" by (auto simp: bindR_def split: sum.splits)
  with Cons.IH assms(1) show ?case by metis
qed simp

lemma repair_timestamp:
  assumes "repairDanglingReads g = Inr h"
  shows "timestamp h = timestamp g"
  by (rule foldR_timestamp [OF _ assms [unfolded repairDanglingReads_def]])
    (auto simp: bindR_def split: sum.splits if_splits dest!: repairRead_timestamp)

lemma change_rf_timestamp: "change_rf ri g = Inr h \<Longrightarrow> timestamp h = timestamp g"
  by (auto simp: change_rf_def bindR_def split: sum.splits dest!: setRf_timestamp with_label_timestamp)

end
