(* ===== verification/Revisit_Props.thy ===== *)
theory Revisit_Props
  imports Revisit_Graphs
begin

text \<open>
  Properties of backward revisits: the graph in which a revisit continues keeps the invariant of the
  exploration, and what makes a revisit maximal.
\<close>

section \<open>The invariant of the exploration\<close>

definition explorable :: "exec_graph \<Rightarrow> bool" where
  "explorable g \<longleftrightarrow> graph_ok g \<and> reads_resolved g \<and> po_stamped g \<and> late_rf g \<and> stamps_ok g"

text \<open>A prefix: a view of the graph that has the store of every read it has.\<close>

definition prefix_view :: "exec_graph \<Rightarrow> view \<Rightarrow> bool" where
  "prefix_view g v \<longleftrightarrow> view_inv v \<and> length v \<le> getNumThreads g \<and>
     list_all (\<lambda>t. vmax v t < int (getThreadSize g t)) [0..<getNumThreads g] \<and>
     list_all (\<lambda>x. case lab_at g x of
         None \<Rightarrow> True
       | Some l \<Rightarrow> isRead (lb_kind l) \<and> vc_has (VC_View v) x \<longrightarrow>
           (case lb_rf l of None \<Rightarrow> True | Some w \<Rightarrow> vc_has (VC_View v) w)) (positions g)"

lemma prefix_viewD:
  assumes "prefix_view g v"
  shows "view_cut.fits v g" "view_inv v"
    "lab_at g x = Some l \<Longrightarrow> isRead (lb_kind l) \<Longrightarrow> vc_has (VC_View v) x \<Longrightarrow> lb_rf l = Some w \<Longrightarrow> vc_has (VC_View v) w"
proof -
  show "view_cut.fits v g" "view_inv v"
    using assms by (simp_all add: prefix_view_def view_cut.fits_def list_all_iff vc_max_def)
  assume x: "lab_at g x = Some l" "isRead (lb_kind l)" "vc_has (VC_View v) x" "lb_rf l = Some w"
  then have "x \<in> set (positions g)" by (simp add: positions_mem containsPos_lab)
  with assms x show "vc_has (VC_View v) w" by (auto simp: prefix_view_def list_all_iff)
qed

text \<open>A read that loses its store is the last event of its thread.\<close>

lemma dangling_is_last:
  assumes g: "explorable g" and p: "prefix_view g pv"
    and has: "\<And>x. containsPos g x \<Longrightarrow> has x \<longleftrightarrow> kept_at g st x \<or> vc_has (VC_View pv) x"
    and h: "\<And>x. containsPos h x \<longleftrightarrow> containsPos g x \<and> has x"
    and x: "lab_at g x = Some l" "isRead (lb_kind l)" "containsPos h x" "lb_rf l = Some w" "\<not> has w"
  shows "is_last h x"
proof (rule last_by_next [OF x(3)], rule notI)
  let ?n = "Event (thread x) (index x + 1)"
  assume n: "containsPos h ?n"
  have core: "graph_core g" and po: "po_stamped g" and lr: "late_rf g"
    using g by (simp_all add: explorable_def graph_ok_def)
  have cx: "containsPos g x" "has x" and cn: "containsPos g ?n" "has ?n" using h x(3) n by blast+
  have cw: "containsPos g w" by (rule rf_contained [OF core x(1,2,4)])
  have nx: "\<not> vc_has (VC_View pv) x" using prefix_viewD(3) [OF p x(1,2) _ x(4)] has [OF cw] x(5) by blast
  have nn: "\<not> vc_has (VC_View pv) ?n"
  proof
    assume "vc_has (VC_View pv) ?n"
    with contained_valid [OF cn(1)] have "index x + 1 \<le> vmax pv (nat (thread x))" by (simp add: vc_has_view)
    with contained_valid [OF cx(1)] have "vc_has (VC_View pv) x" by (simp add: vc_has_view)
    with nx show False ..
  qed
  have ix: "index x \<noteq> 0" by (rule read_index [OF core x(1,2)])
  have i0: "0 \<le> index x" using cx(1) by (simp add: containsPos_def)
  have "kept_at g st x" using has [OF cx(1)] cx(2) nx by blast
  then have sx: "stamp_of g x \<le> st" using kept_stamp [OF po cx(1) ix] by simp
  have "kept_at g st ?n" using has [OF cn(1)] cn(2) nn by blast
  then have sn: "stamp_of g ?n \<le> st" using kept_stamp [OF po cn(1)] i0 by simp
  have "\<not> kept_at g st w" using has [OF cw] x(5) by blast
  then have "index w \<noteq> 0" by (simp add: kept_at_def)
  with \<open>\<not> kept_at g st w\<close> have w: "index w \<noteq> 0" "st < stamp_of g w" using kept_stamp [OF po cw, of st] by simp_all
  then have "stamp_of g w < stamp_of g ?n"
    using late_rfD [OF lr x(1,4) w(1), of ?n] sx cn(1) by simp
  with sn w(2) show False by simp
qed

lemma order_transfer:
  assumes pos: "\<And>x. containsPos k x \<Longrightarrow> containsPos g x"
    and ord: "\<And>x y. containsPos k x \<Longrightarrow> containsPos k y \<Longrightarrow> stamp_of k x < stamp_of k y \<longleftrightarrow> stamp_of g x < stamp_of g y"
    and po: "po_stamped g"
  shows "po_stamped k"
  unfolding po_stamped_def list_all_iff Ball_def positions_mem
  using po_stampedD [OF po pos pos] ord by blast

lemma late_rf_transfer:
  assumes g: "graph_core g" "graph_core k" "late_rf g" and pos: "\<And>x. containsPos k x \<Longrightarrow> containsPos g x"
    and ord: "\<And>x y. containsPos k x \<Longrightarrow> containsPos k y \<Longrightarrow> stamp_of k x < stamp_of k y \<longleftrightarrow> stamp_of g x < stamp_of g y"
    and rf: "\<And>x l w. lab_at k x = Some l \<Longrightarrow> lb_rf l = Some w \<Longrightarrow> is_last k x \<or> rf_at g x = Some w"
  shows "late_rf k"
  unfolding late_rf_def list_all_iff Ball_def positions_mem
proof (intro allI impI)
  fix x assume "containsPos k x"
  then obtain l where l: "lab_at k x = Some l" by (auto simp: containsPos_lab)
  show "case rf_at k x of None \<Rightarrow> True | Some w \<Rightarrow> index w \<noteq> 0 \<and> stamp_of k x < stamp_of k w \<longrightarrow>
      (\<forall>y. containsPos k y \<longrightarrow> thread x = thread y \<and> index x < index y \<longrightarrow> stamp_of k w < stamp_of k y)"
  proof (cases "lb_rf l")
    case None
    with l show ?thesis by (simp add: rf_at_Some)
  next
    case (Some w)
    have "stamp_of k w < stamp_of k y" if w: "index w \<noteq> 0" "stamp_of k x < stamp_of k w"
      and y: "containsPos k y" "thread x = thread y" "index x < index y" for y
    proof -
      have "\<not> is_last k x" using y by (auto simp: is_last_def containsPos_def)
      with rf [OF l Some] have "rf_at g x = Some w" by auto
      then obtain l0 where l0: "lab_at g x = Some l0" "lb_rf l0 = Some w" by (auto simp: rf_at_def split: option.splits)
      have "containsPos k x" using l by (rule lab_at_pos)
      moreover have cw: "containsPos k w"
      proof (rule ccontr)
        assume "\<not> containsPos k w"
        with w(2) show False by (simp add: stamp_of_def containsPos_lab split: option.splits)
      qed
      ultimately have "stamp_of g x < stamp_of g w" using ord w(2) by blast
      with late_rfD [OF g(3) l0 w(1)] pos y have "stamp_of g w < stamp_of g y" by metis
      with ord [OF cw y(1)] show ?thesis by simp
    qed
    with l Some show ?thesis by (simp add: rf_at_Some)
  qed
qed

section \<open>Backward revisits\<close>

lemma updated_lab:
  assumes u: "rf_updated g r w m i h" and x: "lab_at h x = Some l"
  obtains l0 where "lab_at g x = Some l0" "lb_kind l = lb_kind l0" "lb_addr l = lb_addr l0"
    "lb_revisitable l = lb_revisitable l0" "lb_rf l = (if x = r then Some w else lb_rf l0)"
proof -
  have ev: "same_events g h" using u by (simp add: rf_updated_def)
  from same_eventsE [OF ev x] obtain l0 where l0: "lab_at g x = Some l0" "strip_flags l = strip_flags l0" .
  moreover have "rf_at h x = (if x = r then Some w else rf_at g x)" using u by (simp add: rf_updated_def)
  then have "lb_rf l = (if x = r then Some w else lb_rf l0)" using x l0(1) by (simp add: rf_at_Some split: if_splits)
  ultimately show ?thesis using that strip_flags_fields [OF l0(2)] by simp
qed

lemma repaired_lab:
  assumes u: "repaired_upto g (getNumThreads g) h" and x: "lab_at h x = Some l"
  obtains l0 where "lab_at g x = Some l0" "lb_kind l = lb_kind l0" "lb_addr l = lb_addr l0"
    "lb_revisitable l = lb_revisitable l0"
    "lb_rf l = (if dangling g x \<and> is_last g x then Some (max_store g (lb_addr l0)) else lb_rf l0)"
proof -
  have ev: "same_events g h" using u by (simp add: repaired_upto_def)
  from same_eventsE [OF ev x] obtain l0 where l0: "lab_at g x = Some l0" "strip_flags l = strip_flags l0" .
  then have "nat (thread x) < getNumThreads g" using lab_at_pos by (auto simp: containsPos_def)
  with u have "rf_at h x = (if dangling g x \<and> is_last g x then Some (max_store g (addr_at g x)) else rf_at g x)"
    by (simp add: repaired_upto_def)
  then have "lb_rf l = (if dangling g x \<and> is_last g x then Some (max_store g (lb_addr l0)) else lb_rf l0)"
    using x l0(1) by (simp add: rf_at_Some addr_at_def split: if_splits)
  then show ?thesis using that l0 strip_flags_fields [OF l0(2)] by simp
qed

text \<open>The steps of a backward revisit.\<close>

lemma backward_steps:
  assumes g: "explorable g" and p: "prefix_view g pv" and plain: "\<not> isDepTrackingModel c"
    and r: "lab_at g r = Some rl" "isRead (lb_kind rl)"
    and w: "lab_at g w = Some wl" "isWrite (lb_kind wl)" "lb_prefixView wl = Some (VC_View pv)" "vc_has (VC_View pv) w"
  shows "\<exists>has h h1 k.
    (\<forall>x. containsPos g x \<longrightarrow> (has x \<longleftrightarrow> kept_at g (stamp_of g r) x \<or> vc_has (VC_View pv) x)) \<and>
    (\<forall>x. containsPos h x \<longleftrightarrow> containsPos g x \<and> has x) \<and> carried has (vc_has (VC_View pv)) g h \<and> graph_ok h \<and> stamps_ok h \<and>
    (\<forall>x y. containsPos h x \<and> containsPos h y \<longrightarrow> (stamp_of h x < stamp_of h y \<longleftrightarrow> stamp_of g x < stamp_of g y)) \<and>
    rf_at h event_init = None \<and> repaired_upto h (getNumThreads h) h1 \<and> timestamp k = timestamp h \<and>
    backward_graph c g (BackwardRevisit r w v) = Inr k \<and> graph_ok k \<and>
    rf_updated h1 r w (w = max_store h1 (lb_addr rl)) False k"
proof -
  have ok: "graph_ok g" and so: "stamps_ok g" using g by (simp_all add: explorable_def)
  have core: "graph_core g" using ok by (simp add: graph_ok_def)
  have gp: "getPrefixView c g wl = Inr (VC_View pv)" using w(3) by (simp add: getPrefixView_def)
  note fit = prefix_viewD(1,2) [OF p]
  from revisit_view [OF ok r(1) plain gp fit(1)] obtain u where u: "getRevisitView c g rl wl None = Inr (VC_View u)"
    "view_cut.fits u g" and has: "\<And>x. containsPos g x \<Longrightarrow> vc_has (VC_View u) x \<longleftrightarrow>
      kept_at g (stamp_of g r) x \<or> vc_has (VC_View pv) x" by blast
  let ?has = "vc_has (VC_View u)"
  have cr: "containsPos g r" and cw: "containsPos g w" using r(1) w(1) lab_at_pos by blast+
  have "kept_at g (stamp_of g r) r" unfolding kept_at_def using cr by (intro disjI2 exI [of _ "index r"]) simp
  then have hr: "?has r" using has [OF cr] by simp
  have hw: "?has w" using has [OF cw] w(4) by simp
  from copyGraph_result [OF ok so r w(1) gp fit(2) u(2) hr, of v] obtain h where
    h: "copyGraph c g (BackwardRevisit r w v) (VC_View u) = Inr h" "graph_ok h" "stamps_ok h"
      "\<And>x. containsPos h x \<longleftrightarrow> containsPos g x \<and> ?has x" "carried ?has (vc_has (VC_View pv)) g h"
      "\<And>x y. containsPos h x \<Longrightarrow> containsPos h y \<Longrightarrow> stamp_of h x < stamp_of h y \<longleftrightarrow> stamp_of g x < stamp_of g y"
      "rf_at h event_init = None" by blast
  from repair_upto_result [OF h(2) order_refl] obtain h1 where h1: "repairDanglingReads h = Inr h1"
    "repaired_upto h (getNumThreads h) h1" unfolding repairDanglingReads_def by blast
  then have ev: "same_events h h1" and core1: "graph_core h1" by (simp_all add: repaired_upto_def)
  then have ok1: "graph_ok h1" using same_events_threads [OF ev] h(2) by (simp add: graph_ok_def)
  have ne: "x \<noteq> event_init" if "lab_at g x = Some l" "isRead (lb_kind l) \<or> isWrite (lb_kind l)" for x l
    using core_init [OF core] that by (metis kind_proper(1,2) option.inject)
  have at1: "\<exists>l1. lab_at h1 x = Some l1 \<and> lb_kind l1 = lb_kind l \<and> lb_addr l1 = lb_addr l"
    if x: "lab_at g x = Some l" "isRead (lb_kind l) \<or> isWrite (lb_kind l)" "?has x" for x l
  proof -
    have "containsPos h x" using h(4) x lab_at_pos by blast
    then obtain l1 where "lab_at h x = Some l1" by (auto simp: containsPos_lab)
    note l1 = this
    from carriedE [OF h(5) l1 ne [OF x(1,2)]] x(1) have f: "lb_kind l1 = lb_kind l" "lb_addr l1 = lb_addr l" by auto
    from same_eventsD [OF ev l1] obtain l2 where "lab_at h1 x = Some l2" "strip_flags l2 = strip_flags l1" .
    with f strip_flags_fields(1,4) [of l2 l1] show ?thesis by simp
  qed
  from at1 [OF r(1) disjI1 [OF r(2)] hr] obtain rl1 where rl1: "lab_at h1 r = Some rl1" "isRead (lb_kind rl1)"
    "lb_addr rl1 = lb_addr rl" using r(2) by auto
  from at1 [OF w(1) disjI2 [OF w(2)] hw] obtain wl1 where wl1: "lab_at h1 w = Some wl1" "isWrite (lb_kind wl1)"
    using w(2) by auto
  from change_rf_result [OF ok1 rl1(1,2) wl1, of v] obtain k where k: "change_rf (BackwardRevisit r w v) h1 = Inr k"
    "graph_ok k" "rf_updated h1 r w (w = max_store h1 (lb_addr rl)) False k" using rl1(3) by auto
  have ts: "timestamp k = timestamp h" using change_rf_timestamp [OF k(1)] repair_timestamp [OF h1(1)] by simp
  have run: "backward_graph c g (BackwardRevisit r w v) = Inr k"
    using r w(1,2) u(1) h(1) h1(1) k(1)
    by (simp add: backward_graph_def getReadLabel_def getWriteLabel_def follow_def)
  show ?thesis
  proof (rule exI [of _ ?has], rule exI [of _ h], rule exI [of _ h1], rule exI [of _ k], intro conjI)
    show "\<forall>x. containsPos g x \<longrightarrow> ?has x = (kept_at g (stamp_of g r) x \<or> vc_has (VC_View pv) x)" using has by blast
    show "\<forall>x. containsPos h x = (containsPos g x \<and> ?has x)" using h(4) by blast
    show "\<forall>x y. containsPos h x \<and> containsPos h y \<longrightarrow> (stamp_of h x < stamp_of h y) = (stamp_of g x < stamp_of g y)"
      using h(6) by blast
  qed (fact h(5) h(2) h(3) h(7) h1(2) ts run k(2) k(3))+
qed

text \<open>C5: Exploration by backward revisits keeps its invariant, for models that do not track dependencies (prefixes
  are plain views).  Take a well-formed graph whose reads all have
  a store, whose stamps follow the insertion order and grow along threads, and in which a thread continues
  after a read only once the store of the read is there; a read, and a store that comes with a cached prefix
  that has the store of every read in it and does not have the read.  Then the revisit of the read by the
  store succeeds, without an aborting assertion, and the new graph satisfies the same conditions.  It has
  the events up to the stamp of the read and those of the prefix; the read reads from the store; every other
  read keeps its store if that is still there, and otherwise is the last event of its thread and reads from
  the last store of its location; and no event of the prefix can be revisited any more.\<close>

theorem backward_revisit_explorable:
  assumes g: "explorable g" and p: "prefix_view g pv" and plain: "\<not> isDepTrackingModel c"
    and r: "lab_at g r = Some rl" "isRead (lb_kind rl)" "\<not> vc_has (VC_View pv) r"
    and w: "lab_at g w = Some wl" "isWrite (lb_kind wl)" "lb_prefixView wl = Some (VC_View pv)" "vc_has (VC_View pv) w"
  shows "\<exists>k. backward_graph c g (BackwardRevisit r w v) = Inr k \<and> explorable k \<and> rf_at k r = Some w \<and>
    (\<forall>x. containsPos k x \<longleftrightarrow> containsPos g x \<and>
       (index x = 0 \<or> stamp_of g x \<le> stamp_of g r \<or> vc_has (VC_View pv) x)) \<and>
    (\<forall>x l w'. lab_at k x = Some l \<and> isRead (lb_kind l) \<and> x \<noteq> r \<and> rf_at g x = Some w' \<longrightarrow>
       (if containsPos k w' then lb_rf l = Some w' else is_last k x \<and> lb_rf l = Some (max_store k (lb_addr l)))) \<and>
    (\<forall>x l. lab_at k x = Some l \<and> x \<noteq> event_init \<and> vc_has (VC_View pv) x \<longrightarrow> \<not> lb_revisitable l)"
proof -
  let ?pin = "vc_has (VC_View pv)" let ?st = "stamp_of g r"
  from backward_steps [OF g p plain r(1,2) w, of v] obtain has h h1 k where
    has: "\<And>x. containsPos g x \<Longrightarrow> has x \<longleftrightarrow> kept_at g ?st x \<or> ?pin x"
    and h: "\<And>x. containsPos h x \<longleftrightarrow> containsPos g x \<and> has x" "carried has ?pin g h" "graph_ok h" "stamps_ok h"
    and ord: "\<And>x y. containsPos h x \<Longrightarrow> containsPos h y \<Longrightarrow> stamp_of h x < stamp_of h y \<longleftrightarrow> stamp_of g x < stamp_of g y"
    and i0: "rf_at h event_init = None" and h1: "repaired_upto h (getNumThreads h) h1" and ts: "timestamp k = timestamp h"
    and k: "backward_graph c g (BackwardRevisit r w v) = Inr k" "graph_ok k"
      "rf_updated h1 r w (w = max_store h1 (lb_addr rl)) False k" by blast
  have core: "graph_core g" and po: "po_stamped g" and lr: "late_rf g" and res: "reads_resolved g"
    using g by (simp_all add: explorable_def graph_ok_def)
  have ev1: "same_events h h1" and ev2: "same_events h1 k" using h1 k(3) by (simp_all add: repaired_upto_def rf_updated_def)
  then have ev: "same_events h k" by (rule same_events_trans)
  have pos: "containsPos k x \<longleftrightarrow> containsPos g x \<and> has x" for x using same_events_containsPos [OF ev] h(1) by simp
  have st: "stamp_of k x = stamp_of h x" for x by (rule same_events_stamp [OF ev])
  have lst: "is_last k x \<longleftrightarrow> is_last h x" for x by (rule is_last_same [OF ev])
  have mx: "max_store k a = max_store h a" for a by (rule max_store_same [OF ev])
  have ordk: "stamp_of k x < stamp_of k y \<longleftrightarrow> stamp_of g x < stamp_of g y" if "containsPos k x" "containsPos k y" for x y
    using ord that pos h(1) by (simp add: st)
  have kept: "kept_at g ?st x \<longleftrightarrow> index x = 0 \<or> stamp_of g x \<le> ?st" if "containsPos g x" for x
    using kept_stamp [OF po that] by (cases "index x = 0") (simp_all add: kept_at_def)
  have lab: "\<exists>l0. lab_at g x = Some l0 \<and> lb_kind l = lb_kind l0 \<and> lb_addr l = lb_addr l0 \<and>
      lb_revisitable l = (lb_revisitable l0 \<and> \<not> ?pin x) \<and>
      lb_rf l = (if x = r then Some w else if isRead (lb_kind l0) then
        (if keep_ptr has (lb_rf l0) = None \<and> is_last h x then Some (max_store h (lb_addr l0)) else keep_ptr has (lb_rf l0))
        else lb_rf l0)"
    if x: "lab_at k x = Some l" "x \<noteq> event_init" for x l
  proof -
    from updated_lab [OF k(3) x(1)] obtain l2 where l2: "lab_at h1 x = Some l2" "lb_kind l = lb_kind l2"
      "lb_addr l = lb_addr l2" "lb_revisitable l = lb_revisitable l2" "lb_rf l = (if x = r then Some w else lb_rf l2)" .
    from repaired_lab [OF h1 l2(1)] obtain l1 where l1: "lab_at h x = Some l1" "lb_kind l2 = lb_kind l1"
      "lb_addr l2 = lb_addr l1" "lb_revisitable l2 = lb_revisitable l1"
      "lb_rf l2 = (if dangling h x \<and> is_last h x then Some (max_store h (lb_addr l1)) else lb_rf l1)" .
    from carriedE [OF h(2) l1(1) x(2)] obtain l0 where l0: "lab_at g x = Some l0" "lb_kind l1 = lb_kind l0"
      "lb_addr l1 = lb_addr l0" "lb_rf l1 = (if isRead (lb_kind l0) then keep_ptr has (lb_rf l0) else lb_rf l0)"
      "lb_revisitable l1 = (lb_revisitable l0 \<and> \<not> ?pin x)" .
    have "dangling h x \<longleftrightarrow> isRead (lb_kind l0) \<and> keep_ptr has (lb_rf l0) = None"
      using l1(1) l0(2,4) by (auto simp: dangling_def at_kind_def)
    with l0 l1 l2 show ?thesis by (cases "lb_rf l0") (auto simp: keep_ptr_def)
  qed
  have corek: "graph_core k" using k(2) by (simp add: graph_ok_def)
  have nei: "x \<noteq> event_init" if "lab_at k x = Some l" "isRead (lb_kind l)" for x l
    using core_init [OF corek] that by (metis kind_proper(1) option.inject)
  have reads: "lb_rf l = (if x = r then Some w else if has w' then Some w' else Some (max_store h (lb_addr l))) \<and>
      (has w' \<or> is_last h x) \<and> rf_at g x = Some w'"
    if x: "lab_at k x = Some l" "isRead (lb_kind l)" and w': "w' = the (rf_at g x)" for x l w'
  proof -
    from lab [OF x(1) nei [OF x]] obtain l0 where l0: "lab_at g x = Some l0" "lb_kind l = lb_kind l0" "lb_addr l = lb_addr l0"
      "lb_rf l = (if x = r then Some w else if isRead (lb_kind l0) then
        (if keep_ptr has (lb_rf l0) = None \<and> is_last h x then Some (max_store h (lb_addr l0)) else keep_ptr has (lb_rf l0))
        else lb_rf l0)" by blast
    with x(2) res have rf: "lb_rf l0 = Some w'" using w' by (fastforce simp: reads_resolved_iff rf_at_Some)
    have "is_last h x" if nh: "\<not> has w'"
    proof -
      have "containsPos h x" using pos h(1) lab_at_pos [OF x(1)] by simp
      with dangling_is_last [OF g p has h(1) l0(1)] x(2) l0(2) rf nh show ?thesis by simp
    qed
    with l0 rf x(2) show ?thesis by (auto simp: keep_ptr_def rf_at_Some)
  qed
  have last_r: "is_last k r" if "containsPos k r"
  proof (rule last_by_next [OF that], rule notI)
    let ?n = "Event (thread r) (index r + 1)"
    assume n: "containsPos k ?n"
    have ir: "index r \<noteq> 0" and cr: "containsPos g r" using read_index [OF core r(1,2)] r(1) by (simp_all add: containsPos_lab)
    then have i0: "0 < index r" by (simp add: containsPos_def)
    have cn: "containsPos g ?n" "has ?n" using n pos by blast+
    have "?st < stamp_of g ?n" using po_stampedD [OF po cr cn(1)] i0 by simp
    then have "?pin ?n" using has [OF cn(1)] cn(2) kept [OF cn(1)] i0 by auto
    with contained_valid [OF cn(1)] have "index r + 1 \<le> vmax pv (nat (thread r))" by (simp add: vc_has_view)
    with contained_valid [OF cr] have "?pin r" by (simp add: vc_has_view)
    with r(3) show False ..
  qed
  have "reads_resolved k"
    unfolding reads_resolved_iff
  proof (intro allI impI)
    fix x l assume x: "lab_at k x = Some l \<and> isRead (lb_kind l)"
    from conjunct1 [OF reads [OF conjunct1 [OF x] conjunct2 [OF x] refl]] show "lb_rf l \<noteq> None" by (simp split: if_splits)
  qed
  moreover have "po_stamped k" by (rule order_transfer [OF _ ordk po]) (simp_all add: pos)
  moreover have "late_rf k"
  proof (rule late_rf_transfer [OF core corek lr _ ordk])
    fix x l w' assume x: "lab_at k x = Some l" "lb_rf l = Some w'"
    have cx: "containsPos k x" using x(1) by (rule lab_at_pos)
    show "is_last k x \<or> rf_at g x = Some w'"
    proof (cases "x = event_init")
      case True
      have "r \<noteq> event_init" using core_init [OF core] r by (metis kind_proper(1) option.inject)
      with updated_lab [OF k(3) x(1)] True obtain l2 where l2: "lab_at h1 x = Some l2" "lb_rf l = lb_rf l2" by metis
      from repaired_lab [OF h1 l2(1)] obtain l1 where l1: "lab_at h x = Some l1"
        "lb_rf l2 = (if dangling h x \<and> is_last h x then Some (max_store h (lb_addr l1)) else lb_rf l1)" by metis
      with l2 x(2) i0 True show ?thesis by (auto simp: lst rf_at_Some split: if_splits)
    next
      case False
      from lab [OF x(1) this] obtain l0 where l0: "lab_at g x = Some l0" "lb_kind l = lb_kind l0"
        "lb_rf l = (if x = r then Some w else if isRead (lb_kind l0) then
        (if keep_ptr has (lb_rf l0) = None \<and> is_last h x then Some (max_store h (lb_addr l0)) else keep_ptr has (lb_rf l0))
        else lb_rf l0)" by blast
      show ?thesis
      proof (cases "x = r")
        case True
        with last_r cx show ?thesis by simp
      next
        case False
        with l0 x(2) show ?thesis by (auto simp: lst rf_at_Some split: if_splits)
      qed
    qed
  qed (simp_all add: pos)
  moreover have "stamps_ok k"
    using h(4) ev ts by (simp add: stamps_ok_def st same_events_def)
  ultimately have "explorable k" using k(2) by (simp add: explorable_def)
  moreover have "rf_at k r = Some w" using k(3) by (simp add: rf_updated_def)
  moreover have "containsPos k x \<longleftrightarrow> containsPos g x \<and> (index x = 0 \<or> stamp_of g x \<le> ?st \<or> ?pin x)" for x
    using pos has kept by blast
  moreover have "if containsPos k w' then lb_rf l = Some w' else is_last k x \<and> lb_rf l = Some (max_store k (lb_addr l))"
    if x: "lab_at k x = Some l \<and> isRead (lb_kind l) \<and> x \<noteq> r \<and> rf_at g x = Some w'" for x l w'
  proof -
    from x obtain l0 where l0: "lab_at g x = Some l0" "lb_rf l0 = Some w'" by (auto simp: rf_at_def split: option.splits)
    have "isRead (lb_kind l0)" using lab [of x l] nei [of x l] x l0(1) by auto
    then have "containsPos g w'" using rf_contained [OF core l0(1) _ l0(2)] by blast
    with reads [of x l w'] x show ?thesis by (auto simp: pos lst mx)
  qed
  moreover have "\<not> lb_revisitable l" if "lab_at k x = Some l \<and> x \<noteq> event_init \<and> ?pin x" for x l
    using lab [of x l] that by blast
  ultimately show ?thesis using k(1) by (intro exI [of _ k]) blast
qed

text \<open>A read of the initial value in one thread, and a later store in another whose prefix is only that store.\<close>

definition to_revisit_ops :: "graph_op list" where
  "to_revisit_ops =
     [AddLabel (access_label Read (Event 0 1) Acquire 8), SetRf (Event 0 1) (Some event_init),
      Fork (start_label (Event 1 0) event_init),
      AddLabel ((access_label Write (Event 1 1) Release 8)\<lparr>lb_prefixView := Some (VC_View [0, 1])\<rparr>),
      CoAfter (Event 1 1) event_init,
      AddLabel (access_label Read (Event 0 2) Acquire 8), SetRf (Event 0 2) (Some (Event 1 1))]"

definition to_revisit :: exec_graph where
  "to_revisit = the (run_ops to_revisit_ops new_graph)"

definition plain_env :: checker_env where
  "plain_env = \<lparr>conf_helper = False, isDepTrackingModel = False,
     calcPrefix = (\<lambda>g l. Inl Undefined), coherentRevisits = (\<lambda>g l v. Inl Undefined)\<rparr>"

lemma to_revisit_ok: "explorable to_revisit"
proof -
  have "run_ops to_revisit_ops new_graph \<noteq> None" by code_simp
  then obtain g where g: "run_ops to_revisit_ops new_graph = Some g" by blast
  with run_ops_reachable [OF g reachable.new] reachable_ok have "graph_ok to_revisit" by (simp add: to_revisit_def)
  moreover have "reads_resolved to_revisit" "po_stamped to_revisit" "late_rf to_revisit" "stamps_ok to_revisit"
    by code_simp+
  ultimately show ?thesis by (simp add: explorable_def)
qed

lemma backward_revisit_explorable_witness:
  "\<exists>k. backward_graph plain_env to_revisit (BackwardRevisit (Event 0 1) (Event 1 1) (VC_View [])) = Inr k \<and> explorable k \<and>
    rf_at k (Event 0 1) = Some (Event 1 1) \<and> containsPos to_revisit (Event 0 2) \<and> \<not> containsPos k (Event 0 2)"
proof -
  let ?g = to_revisit
  have "case lab_at ?g (Event 0 1) of None \<Rightarrow> False | Some l \<Rightarrow> isRead (lb_kind l)" by code_simp
  then obtain rl where r: "lab_at ?g (Event 0 1) = Some rl" "isRead (lb_kind rl)" by (auto split: option.splits)
  have "case lab_at ?g (Event 1 1) of None \<Rightarrow> False | Some l \<Rightarrow> isWrite (lb_kind l) \<and> lb_prefixView l = Some (VC_View [0, 1])"
    by code_simp
  then obtain wl where w: "lab_at ?g (Event 1 1) = Some wl" "isWrite (lb_kind wl)" "lb_prefixView wl = Some (VC_View [0, 1])"
    by (auto split: option.splits)
  have p: "prefix_view ?g [0, 1]" by code_simp
  have h: "vc_has (VC_View [0, 1]) (Event 1 1)" "\<not> vc_has (VC_View [0, 1]) (Event 0 1)" by code_simp+
  have e: "\<not> isDepTrackingModel plain_env" by (simp add: plain_env_def)
  from backward_revisit_explorable [OF to_revisit_ok p e r h(2) w h(1), of "VC_View []"] obtain k where
    k: "backward_graph plain_env ?g (BackwardRevisit (Event 0 1) (Event 1 1) (VC_View [])) = Inr k" "explorable k"
      "rf_at k (Event 0 1) = Some (Event 1 1)"
      "\<And>x. containsPos k x \<longleftrightarrow> containsPos ?g x \<and>
       (index x = 0 \<or> stamp_of ?g x \<le> stamp_of ?g (Event 0 1) \<or> vc_has (VC_View [0, 1]) x)" by blast
  have "containsPos ?g (Event 0 2)" "\<not> stamp_of ?g (Event 0 2) \<le> stamp_of ?g (Event 0 1)"
    "\<not> vc_has (VC_View [0, 1]) (Event 0 2)" by code_simp+
  with k show ?thesis by auto
qed

section \<open>Maximal extensions\<close>

text \<open>The stores of a location behind the store that an access is or reads from.\<close>

definition later_stores :: "exec_graph \<Rightarrow> label \<Rightarrow> event list" where
  "later_stores g l = (let s = (if isRead (lb_kind l) then the (lb_rf l) else lb_pos l) in
     case lab_at g s of
       None \<Rightarrow> []
     | Some sl \<Rightarrow> if isWrite (lb_kind sl) then after_in s (co g (lb_addr sl)) else co g (lb_addr l))"

text \<open>The label was added maximally and does not depend on what the revisit changes: no store that stays,
  other than the revisiting one, is behind its store, and its own store did not come later and go.\<close>

definition redoable :: "exec_graph \<Rightarrow> (event \<Rightarrow> bool) \<Rightarrow> event \<Rightarrow> label \<Rightarrow> bool" where
  "redoable g has w l \<longleftrightarrow> wasAddedMaximally l \<and>
     (isMemAccess (lb_kind l) \<longrightarrow> list_all (\<lambda>s. has s \<longrightarrow> s = w) (later_stores g l)) \<and>
     (isRead (lb_kind l) \<and> \<not> lb_ipr l \<longrightarrow> (case lb_rf l of None \<Rightarrow> False
        | Some s \<Rightarrow> has s \<or> stamp_of g s \<le> the (lb_stamp l)))"

lemma co_succs_placed:
  assumes core: "graph_core g" and all: "all_ordered g" and w: "lab_at g w = Some wl" "isWrite (lb_kind wl)"
  shows "co_succs g wl = Inr (after_in w (co g (lb_addr wl)))"
proof -
  have "w \<in> set (co g (lb_addr wl))" using all w by (simp add: all_ordered_def)
  moreover have "lb_addr wl \<in> fst ` set (coherence g)"
    using access_tracked [OF core w(1)] pointer_classes(1) [OF w(2)] by simp
  then have "co_at g (lb_addr wl) = Inr (co g (lb_addr wl))"
    by (auto simp: co_at_def co_def m_get_def map_of_eq_None_iff split: option.split)
  ultimately show ?thesis using label_pos [OF core w(1)] by (simp add: co_succs_def)
qed

lemma after_in_subset: "set (after_in w xs) \<subseteq> set xs"
  by (induction xs) auto

lemma view_inside:
  assumes "view_inv v" "containsPos g e"
  shows "vc_contains (VC_View v) e = Inr (vc_has (VC_View v) e)"
proof -
  from view_cut.contains_law [OF assms(1) contained_valid [OF assms(2)]] obtain b where
    "vc_contains (VC_View v) e = Inr b" by blast
  then show ?thesis unfolding vc_has_def by simp
qed

lemma maximal_label_exact:
  assumes core: "graph_core g" and res: "reads_resolved g" and all: "all_ordered g" and plain: "\<not> isDepTrackingModel c"
    and v: "view_inv v" and x: "lab_at g x = Some l"
  defines "has \<equiv> vc_has (VC_View v)"
  shows "maximal_label c g (BackwardRevisit r w (VC_View v)) l =
    Inr (x \<noteq> r \<and> has x \<or> redoable g has w l)"
proof -
  let ?R = "BackwardRevisit r w (VC_View v)"
  have pos: "lb_pos l = x" by (rule label_pos [OF core x])
  have inside: "rv_contains ?R e = Inr (has e)" if "containsPos g e" for e
    using view_inside [OF v that] by (simp add: rv_contains_def has_def)
  have same: "prefixContainsSameLoc c g ?R k = Inr False" for k using plain by (simp add: prefixContainsSameLoc_def)
  have stores: "containsPos g s" if "s \<in> set (co g a)" for s a
    using co_writes(2) [OF core that] by (auto simp: at_kind_def containsPos_lab)
  have src: "\<exists>s sl. (if isRead (lb_kind l) then lb_rf l else Some x) = Some s \<and> lab_at g s = Some sl"
    if "isMemAccess (lb_kind l)"
  proof (cases "isRead (lb_kind l)")
    case True
    with res x obtain s where s: "lb_rf l = Some s" by (auto simp: reads_resolved_iff)
    from rf_contained [OF core x True s] True s show ?thesis by (auto simp: containsPos_lab)
  next
    case False
    with x show ?thesis by simp
  qed
  have before: "isCoBeforeSavedPrefix c g ?R l =
      Inr (isMemAccess (lb_kind l) \<and> \<not> list_all (\<lambda>s. has s \<longrightarrow> s = w) (later_stores g l))"
  proof (cases "isMemAccess (lb_kind l)")
    case True
    from src [OF True] obtain s sl where s: "(if isRead (lb_kind l) then lb_rf l else Some x) = Some s" "lab_at g s = Some sl"
      by blast
    have ls: "later_stores g l = (if isWrite (lb_kind sl) then after_in s (co g (lb_addr sl)) else co g (lb_addr l))"
      using s pos by (auto simp: later_stores_def split: if_splits)
    have sub: "containsPos g e" if "e \<in> set (later_stores g l)" for e
      using that unfolding ls by (auto dest: stores subsetD [OF after_in_subset] split: if_splits)
    let ?f = "\<lambda>s. bindR (rv_contains ?R s) (\<lambda>b. if \<not> b then Inr False else 
        bindR (if \<not> isDepTrackingModel c then Inr True
               else bindR (deref g s) (\<lambda>sl. bindR (getPrefixView c g sl) (\<lambda>pv.
                 bindR (vc_getMax pv (thread (lb_pos l))) (\<lambda>m. Inr (index (lb_pos l) > m))))) (\<lambda>b.
            if \<not> b then Inr False else bindR (rv_getRev ?R) (\<lambda>rev. Inr (s \<noteq> rev))))"
    have "isCoBeforeSavedPrefix c g ?R l = anyR ?f (later_stores g l)"
    proof (cases "isWrite (lb_kind sl)")
      case wr: True
      with True s plain pos co_succs_placed [OF core all s(2) wr] show ?thesis
        by (cases "isRead (lb_kind l)") (simp_all add: isCoBeforeSavedPrefix_def getWriteLabel_def ls)
    next
      case False
      with True s plain pos show ?thesis
        by (cases "isRead (lb_kind l)") (simp_all add: isCoBeforeSavedPrefix_def getWriteLabel_def ls)
    qed
    also have "\<dots> = Inr (list_ex (\<lambda>s. has s \<and> s \<noteq> w) (later_stores g l))"
      by (rule anyR_total) (simp add: inside sub plain)
    finally show ?thesis using True by (simp add: list_all_iff list_ex_iff)
  qed (simp add: isCoBeforeSavedPrefix_def)
  have late: "hasBeenRevisitedByDeleted c g ?R l = Inr (isRead (lb_kind l) \<and> \<not> lb_ipr l \<and>
      \<not> (case lb_rf l of None \<Rightarrow> False | Some s \<Rightarrow> has s \<or> stamp_of g s \<le> the (lb_stamp l)))"
  proof (cases "isRead (lb_kind l) \<and> \<not> lb_ipr l")
    case True
    with res x obtain s where s: "lb_rf l = Some s" by (auto simp: reads_resolved_iff)
    from rf_contained [OF core x _ s] True have cs: "containsPos g s" by blast
    then obtain sl where sl: "lab_at g s = Some sl" by (auto simp: containsPos_lab)
    with True s inside [OF cs] same show ?thesis by (simp add: hasBeenRevisitedByDeleted_def stamp_of_at not_less)
  qed (auto simp: hasBeenRevisitedByDeleted_def)
  have cx: "containsPos g x" using x by (rule lab_at_pos)
  show ?thesis
    using inside [OF cx] before late by (auto simp: maximal_label_def same pos redoable_def)
qed

text \<open>What an extension has to satisfy to be maximal: the coherence successor of the store stays, unless the
  store is part of an RMW, and everything that goes, and the read, could be added again the same way.\<close>

definition maximal_ext :: "exec_graph \<Rightarrow> (event \<Rightarrow> bool) \<Rightarrow> event \<Rightarrow> event \<Rightarrow> bool" where
  "maximal_ext g has r w \<longleftrightarrow>
     (case lab_at g w of None \<Rightarrow> False | Some wl \<Rightarrow>
        write_isRMW wl \<or> (case after_in w (co g (lb_addr wl)) of [] \<Rightarrow> True | s # _ \<Rightarrow> has s)) \<and>
     list_all (\<lambda>x. case lab_at g x of None \<Rightarrow> True | Some l \<Rightarrow> x = r \<or> \<not> has x \<longrightarrow> redoable g has w l) (positions g)"

lemma maximal_extension:
  assumes core: "graph_core g" and res: "reads_resolved g" and all: "all_ordered g" and plain: "\<not> isDepTrackingModel c"
    and v: "view_inv v" and w: "lab_at g w = Some wl" "isWrite (lb_kind wl)"
  shows "isMaximalExtension c g (BackwardRevisit r w (VC_View v)) = Inr (maximal_ext g (vc_has (VC_View v)) r w)"
proof -
  let ?R = "BackwardRevisit r w (VC_View v)" let ?has = "vc_has (VC_View v)"
  let ?C = "write_isRMW wl \<or> (case after_in w (co g (lb_addr wl)) of [] \<Rightarrow> True | s # _ \<Rightarrow> ?has s)"
  have inside: "rv_contains ?R s = Inr (?has s)" if s: "s \<in> set (after_in w (co g a))" for s a
  proof -
    from s have "s \<in> set (co g a)" using after_in_subset by blast
    then have "containsPos g s" using co_writes(2) [OF core] by (auto simp: at_kind_def containsPos_lab)
    from view_inside [OF v this] show ?thesis by (simp add: rv_contains_def)
  qed
  have c: "coherenceSuccRemainInGraph g ?R = Inr ?C"
    using w co_succs_placed [OF core all w] inside [of _ "lb_addr wl"]
    by (cases "after_in w (co g (lb_addr wl))") (auto simp: coherenceSuccRemainInGraph_def getWriteLabel_def follow_def)
  have os: "set (insertionOrder g) = {e. containsPos g e}" using core by (simp add: graph_core_def order_ok_def)
  have step: "bindR (deref g x) (maximal_label c g ?R) =
      Inr (case lab_at g x of None \<Rightarrow> True | Some l \<Rightarrow> x = r \<or> \<not> ?has x \<longrightarrow> redoable g ?has w l)"
    if "x \<in> set (insertionOrder g)" for x
  proof -
    from that os obtain l where l: "lab_at g x = Some l" by (auto simp: containsPos_lab)
    with maximal_label_exact [OF core res all plain v l, of r w] show ?thesis by auto
  qed
  have "all_labels (\<lambda>e. bindR (deref g e) (maximal_label c g ?R)) (insertionOrder g) =
      Inr (\<forall>x \<in> set (insertionOrder g). case lab_at g x of None \<Rightarrow> True | Some l \<Rightarrow> x = r \<or> \<not> ?has x \<longrightarrow> redoable g ?has w l)"
    by (rule all_labels_Inr) (rule step)
  then show ?thesis
    using c w by (auto simp: isMaximalExtension_def maximal_ext_def list_all_iff os positions_mem)
qed

lemma maximal_revisits_exact:
  assumes g: "graph_ok g" and res: "reads_resolved g" and all: "all_ordered g" and p: "prefix_view g pv"
    and env: "\<not> isDepTrackingModel c" "\<not> conf_helper c"
    and w: "lab_at g w = Some wl" "isWrite (lb_kind wl)" "lb_prefixView wl = Some (VC_View pv)"
    and loads: "\<And>r. r \<in> set loads \<Longrightarrow> at_kind isRead g r (\<lambda>_. True)"
  shows "\<exists>V. (\<forall>r \<in> set loads. \<forall>x. containsPos g x \<longrightarrow> (vc_has (VC_View (V r)) x \<longleftrightarrow>
      kept_at g (stamp_of g r) x \<or> vc_has (VC_View pv) x)) \<and>
    maximal_revisits c g wl loads = Inr (map (\<lambda>r. BackwardRevisit r w (VC_View (V r)))
      (takeWhile (\<lambda>r. maximal_ext g (vc_has (VC_View (V r))) r w) loads))"
proof -
  have core: "graph_core g" using g by (simp add: graph_ok_def)
  have gp: "getPrefixView c g wl = Inr (VC_View pv)" using w(3) by (simp add: getPrefixView_def)
  define V where "V r = (case lab_at g r of None \<Rightarrow> [] | Some rl \<Rightarrow>
    (case getRevisitView c g rl wl None of Inr (VC_View v) \<Rightarrow> v | _ \<Rightarrow> []))" for r
  have V: "\<exists>rl. lab_at g r = Some rl \<and> isRead (lb_kind rl) \<and> getRevisitView c g rl wl None = Inr (VC_View (V r)) \<and>
      view_inv (V r) \<and> (\<forall>x. containsPos g x \<longrightarrow> (vc_has (VC_View (V r)) x \<longleftrightarrow>
      kept_at g (stamp_of g r) x \<or> vc_has (VC_View pv) x))" if r: "r \<in> set loads" for r
  proof -
    from loads [OF r] obtain rl where rl: "lab_at g r = Some rl" "isRead (lb_kind rl)" by (auto simp: at_kind_def)
    from revisit_view [OF g rl(1) env(1) gp prefix_viewD(1) [OF p]] obtain v where
      v: "getRevisitView c g rl wl None = Inr (VC_View v)" "view_cut.fits v g"
        "\<forall>x. containsPos g x \<longrightarrow> (vc_has (VC_View v) x \<longleftrightarrow> kept_at g (stamp_of g r) x \<or> vc_has (VC_View pv) x)" by blast
    then have "V r = v" by (simp add: V_def rl(1))
    with rl v show ?thesis by (auto simp: view_cut.fits_def)
  qed
  have "maximal_revisits c g wl es = Inr (map (\<lambda>r. BackwardRevisit r w (VC_View (V r)))
      (takeWhile (\<lambda>r. maximal_ext g (vc_has (VC_View (V r))) r w) es))" if "set es \<subseteq> set loads" for es
    using that
  proof (induction es)
    case (Cons r es)
    then have "r \<in> set loads" by simp
    from V [OF this] obtain rl where rl: "lab_at g r = Some rl" "isRead (lb_kind rl)"
      "getRevisitView c g rl wl None = Inr (VC_View (V r))" "view_inv (V r)" by blast
    have "constructBackwardRevisit c g rl wl = Inr (BackwardRevisit r w (VC_View (V r)))"
      using env(2) rl(3) label_pos [OF core rl(1)] label_pos [OF core w(1)] by (simp add: constructBackwardRevisit_def)
    with Cons rl maximal_extension [OF core res all env(1) rl(4) w(1,2), of r] show ?case
      by (simp add: getReadLabel_def)
  qed simp
  from this [of loads] have "maximal_revisits c g wl loads = Inr (map (\<lambda>r. BackwardRevisit r w (VC_View (V r)))
      (takeWhile (\<lambda>r. maximal_ext g (vc_has (VC_View (V r))) r w) loads))" by simp
  with V show ?thesis by (intro exI [of _ V]) blast
qed

text \<open>C6: A store plans exactly the backward revisits that extend maximally, up to the first that does not.
  Without dependency tracking and the Helper optimisations, for loads that are reads of the graph, the
  result is the longest prefix of them such that for each of its loads: the coherence successor of the store
  stays in the graph (or the store is part of an RMW), and every event that the revisit deletes, and the
  load, was added maximally, is not in coherence before a store that stays other than the revisiting one,
  and, if it is a read that was not revisited in place, does not read from a younger store that goes.  The
  view of each revisit is the events up to the stamp of the load with the prefix of the store.\<close>

theorem planned_revisits_exact:
  assumes "graph_ok g" "reads_resolved g" "all_ordered g" "prefix_view g pv" "\<not> isDepTrackingModel c" "\<not> conf_helper c"
    "lab_at g w = Some wl" "isWrite (lb_kind wl)" "lb_prefixView wl = Some (VC_View pv)"
    "\<And>r. r \<in> set loads \<Longrightarrow> at_kind isRead g r (\<lambda>_. True)"
  shows "\<exists>V. (\<forall>r \<in> set loads. \<forall>x. containsPos g x \<longrightarrow> (vc_has (VC_View (V r)) x \<longleftrightarrow>
      kept_at g (stamp_of g r) x \<or> vc_has (VC_View pv) x)) \<and>
    maximal_revisits c g wl loads = Inr (map (\<lambda>r. BackwardRevisit r w (VC_View (V r)))
      (takeWhile (\<lambda>r. maximal_ext g (vc_has (VC_View (V r))) r w) loads))"
  by (rule maximal_revisits_exact [OF assms])

lemma planned_revisits_exact_witness:
  "\<exists>wl v. lab_at to_revisit (Event 1 1) = Some wl \<and>
    maximal_revisits plain_env to_revisit wl [Event 0 1] = Inr [BackwardRevisit (Event 0 1) (Event 1 1) (VC_View v)]"
proof -
  let ?g = to_revisit
  have "case lab_at ?g (Event 1 1) of None \<Rightarrow> False | Some l \<Rightarrow> isWrite (lb_kind l) \<and> lb_prefixView l = Some (VC_View [0, 1])"
    by code_simp
  then obtain wl where w: "lab_at ?g (Event 1 1) = Some wl" "isWrite (lb_kind wl)" "lb_prefixView wl = Some (VC_View [0, 1])"
    by (auto split: option.splits)
  have p: "prefix_view ?g [0, 1]" by code_simp
  have "list_all (\<lambda>x. case lab_at ?g x of Some l \<Rightarrow> isWrite (lb_kind l) \<longrightarrow> x \<in> set (co ?g (lb_addr l)) | None \<Rightarrow> True) (positions ?g)"
    by code_simp
  then have all: "all_ordered ?g"
    unfolding list_all_iff Ball_def positions_mem all_ordered_def containsPos_lab by (auto split: option.splits)
  have loads: "at_kind isRead ?g r (\<lambda>_. True)" if "r \<in> set [Event 0 1]" for r
  proof -
    have "at_kind isRead ?g (Event 0 1) (\<lambda>_. True) = (case lab_at ?g (Event 0 1) of None \<Rightarrow> False | Some l \<Rightarrow> isRead (lb_kind l))"
      by (simp add: at_kind_def split: option.splits)
    moreover have "case lab_at ?g (Event 0 1) of None \<Rightarrow> False | Some l \<Rightarrow> isRead (lb_kind l)" by code_simp
    ultimately show ?thesis using that by simp
  qed
  have g: "graph_ok ?g" "reads_resolved ?g" using to_revisit_ok by (simp_all add: explorable_def)
  have e: "\<not> isDepTrackingModel plain_env" "\<not> conf_helper plain_env" by (simp_all add: plain_env_def)
  from planned_revisits_exact [OF g all p e w loads] obtain V where
    V: "maximal_revisits plain_env ?g wl [Event 0 1] = Inr (map (\<lambda>r. BackwardRevisit r (Event 1 1) (VC_View (V r)))
      (takeWhile (\<lambda>r. maximal_ext ?g (vc_has (VC_View (V r))) r (Event 1 1)) [Event 0 1]))" by blast
  have "case maximal_revisits plain_env ?g (the (lab_at ?g (Event 1 1))) [Event 0 1] of Inr rs \<Rightarrow> rs \<noteq> [] | Inl _ \<Rightarrow> False"
    by code_simp
  with V w(1) show ?thesis by (auto split: if_splits)
qed

end
