(* ===== verification/Mo_Graph.thy ===== *)
theory Mo_Graph
  imports Clock_Actions
begin

text \<open>
  PCTWM's modification-order graph (\<open>cyclegraph.h\<close>, \<open>cyclegraph.cc\<close>): nodes for stores, edges for the
  constraints on their order, and a clock vector in every node from which reachability is read off.

  An action is known by an identifier and lives in a store \<open>acts\<close>; the node of an action has the action's
  identifier, so the table \<open>actionToNode\<close> and the pointers to nodes are one partial function.  A pointer to a
  node that is not there is \<open>Undefined\<close>.  The queue is empty between operations.
\<close>

section \<open>Nodes\<close>

record cycle_node =
  edges :: "nat list"
  inedges :: "nat list"
  hasRMW :: "nat option"
  node_cv :: clocks

type_synonym cycle_graph = "nat \<Rightarrow> cycle_node option"

definition new_node :: "(nat \<Rightarrow> action) \<Rightarrow> nat \<Rightarrow> cycle_node" where
  "new_node acts a = \<lparr>edges = [], inedges = [], hasRMW = None,
     node_cv = cv_new None (Some (a_tid (acts a), seq_number (acts a)))\<rparr>"

definition mo_node :: "cycle_graph \<Rightarrow> nat \<Rightarrow> cycle_node res" where
  "mo_node g n = (case g n of None \<Rightarrow> Inl Undefined | Some c \<Rightarrow> Inr c)"

definition with_node :: "nat \<Rightarrow> (cycle_node \<Rightarrow> cycle_node) \<Rightarrow> cycle_graph \<Rightarrow> cycle_graph res" where
  "with_node n f g = bindR (mo_node g n) (\<lambda>c. Inr (g(n \<mapsto> f c)))"

definition getNode_noCreate :: "nat \<Rightarrow> cycle_graph \<Rightarrow> nat option" where
  "getNode_noCreate a g = (case g a of None \<Rightarrow> None | Some _ \<Rightarrow> Some a)"

definition putNode :: "nat \<Rightarrow> cycle_node \<Rightarrow> cycle_graph \<Rightarrow> cycle_graph" where
  "putNode a c g = g(a \<mapsto> c)"

definition getNode :: "(nat \<Rightarrow> action) \<Rightarrow> nat \<Rightarrow> cycle_graph \<Rightarrow> cycle_graph" where
  "getNode acts a g = (case getNode_noCreate a g of None \<Rightarrow> putNode a (new_node acts a) g | Some _ \<Rightarrow> g)"

text \<open>\<open>CycleNode::addEdge\<close>: an edge is there once, in the list of its source and of its target.\<close>

definition node_addEdge :: "nat \<Rightarrow> nat \<Rightarrow> cycle_graph \<Rightarrow> cycle_graph res" where
  "node_addEdge from to g = bindR (mo_node g from) (\<lambda>c.
     if to \<in> set (edges c) then Inr g
     else bindR (with_node from (\<lambda>c. c\<lparr>edges := edges c @ [to]\<rparr>) g)
       (with_node to (\<lambda>c. c\<lparr>inedges := inedges c @ [from]\<rparr>)))"

text \<open>\<open>removeInEdge\<close>, \<open>removeEdge\<close>: the last element takes the place of the first occurrence.\<close>

definition remove_swap :: "nat \<Rightarrow> nat list \<Rightarrow> nat list" where
  "remove_swap x xs = (let i = length (takeWhile (\<lambda>y. y \<noteq> x) xs) in
     if i < length xs then butlast (xs[i := last xs]) else xs)"

definition removeInEdge :: "nat \<Rightarrow> cycle_node \<Rightarrow> cycle_node" where
  "removeInEdge src c = c\<lparr>inedges := remove_swap src (inedges c)\<rparr>"

definition removeEdge :: "nat \<Rightarrow> cycle_node \<Rightarrow> cycle_node" where
  "removeEdge dst c = c\<lparr>edges := remove_swap dst (edges c)\<rparr>"

definition setRMW :: "nat \<Rightarrow> cycle_node \<Rightarrow> cycle_node \<times> bool" where
  "setRMW n c = (if hasRMW c \<noteq> None then (c, True) else (c\<lparr>hasRMW := Some n\<rparr>, False))"

definition clearRMW :: "cycle_node \<Rightarrow> cycle_node" where
  "clearRMW c = c\<lparr>hasRMW := None\<rparr>"

section \<open>Reachability\<close>

definition checkReachable :: "(nat \<Rightarrow> action) \<Rightarrow> cycle_graph \<Rightarrow> nat \<Rightarrow> nat \<Rightarrow> bool res" where
  "checkReachable acts g from to = bindR (mo_node g to) (\<lambda>c.
     Inr (cv_synchronized_since (node_cv c) (a_tid (acts from)) (seq_number (acts from))))"

definition checkReachable_actions :: "(nat \<Rightarrow> action) \<Rightarrow> cycle_graph \<Rightarrow> nat \<Rightarrow> nat \<Rightarrow> bool res" where
  "checkReachable_actions acts g from to =
     (case (getNode_noCreate from g, getNode_noCreate to g) of
        (Some n, Some m) \<Rightarrow> checkReachable acts g n m
      | _ \<Rightarrow> Inr False)"

section \<open>Adding edges\<close>

text \<open>The end of the chain of RMWs that starts at a store, or the last one in front of \<open>to\<close>.  Neither this
  loop nor the next has to end: \<open>None\<close> is a loop that does not.\<close>

partial_function (option) rmw_end :: "cycle_graph \<Rightarrow> nat \<Rightarrow> nat \<Rightarrow> nat res option" where
  "rmw_end g to from = (case g from of
     None \<Rightarrow> Some (Inl Undefined)
   | Some c \<Rightarrow> (case hasRMW c of
       None \<Rightarrow> Some (Inr from)
     | Some n \<Rightarrow> if n = to then Some (Inr from) else rmw_end g to n))"

text \<open>The successors of a node take over its clock; those that change go to the queue.\<close>

fun merge_succs :: "nat \<Rightarrow> nat list \<Rightarrow> nat list \<Rightarrow> cycle_graph \<Rightarrow> (nat list \<times> cycle_graph) res" where
  "merge_succs n [] q g = Inr (q, g)"
| "merge_succs n (e # es) q g =
     bindR (mo_node g n) (\<lambda>c. bindR (mo_node g e) (\<lambda>ec.
     let (cv, changed) = cv_merge (node_cv ec) (node_cv c)
     in merge_succs n es (if changed then q @ [e] else q) (g(e \<mapsto> ec\<lparr>node_cv := cv\<rparr>))))"

partial_function (option) propagate :: "nat list \<Rightarrow> cycle_graph \<Rightarrow> cycle_graph res option" where
  "propagate q g =
     (if q = [] then Some (Inr g)
      else case g (last q) of
        None \<Rightarrow> Some (Inl Undefined)
      | Some c \<Rightarrow> (case merge_succs (last q) (edges c) (butlast q) g of
          Inl f \<Rightarrow> Some (Inl f)
        | Inr (q1, g1) \<Rightarrow> propagate q1 g1))"

definition ended :: "'a res option \<Rightarrow> 'a res" where
  "ended r = (case r of None \<Rightarrow> Inl Diverges | Some x \<Rightarrow> x)"

definition spread_clock :: "nat \<Rightarrow> nat \<Rightarrow> cycle_graph \<Rightarrow> cycle_graph res" where
  "spread_clock from to g = bindR (mo_node g to) (\<lambda>tc. bindR (mo_node g from) (\<lambda>fc.
     let (cv, changed) = cv_merge (node_cv tc) (node_cv fc); g1 = g(to \<mapsto> tc\<lparr>node_cv := cv\<rparr>)
     in if changed then ended (propagate [to] g1) else Inr g1))"

definition addNodeEdge :: "(nat \<Rightarrow> action) \<Rightarrow> nat \<Rightarrow> nat \<Rightarrow> bool \<Rightarrow> cycle_graph \<Rightarrow> cycle_graph res" where
  "addNodeEdge acts from to forceedge g =
     bindR (checkReachable acts g from to) (\<lambda>b.
     if b \<and> \<not> forceedge then Inr g
     else bindR (ended (rmw_end g to from)) (\<lambda>from1.
       bindR (node_addEdge from1 to g) (spread_clock from1 to)))"

text \<open>Both \<open>addEdge\<close> functions; the one without a flag does not force the edge.\<close>

definition cg_addEdge :: "(nat \<Rightarrow> action) \<Rightarrow> nat \<Rightarrow> nat \<Rightarrow> bool \<Rightarrow> cycle_graph \<Rightarrow> cycle_graph res" where
  "cg_addEdge acts from to forceedge g = addNodeEdge acts from to forceedge (getNode acts to (getNode acts from g))"

text \<open>The outgoing edges of the store that a RMW reads from become edges of the RMW.\<close>

definition transfer_edge :: "nat \<Rightarrow> nat \<Rightarrow> nat \<Rightarrow> cycle_graph \<Rightarrow> cycle_graph res" where
  "transfer_edge from rmw to g =
     bindR (if to \<noteq> rmw then node_addEdge rmw to g else Inr g) (with_node to (removeInEdge from))"

definition addRMWEdge :: "(nat \<Rightarrow> action) \<Rightarrow> nat \<Rightarrow> nat \<Rightarrow> cycle_graph \<Rightarrow> cycle_graph res" where
  "addRMWEdge acts from rmw g =
     (let g1 = getNode acts rmw (getNode acts from g) in
      bindR (with_node from (\<lambda>c. fst (setRMW rmw c)) g1) (\<lambda>g2.
      bindR (mo_node g2 from) (\<lambda>c. bindR (foldR (transfer_edge from rmw) (edges c) g2) (\<lambda>g3.
      bindR (with_node from (\<lambda>c. c\<lparr>edges := []\<rparr>) g3) (addNodeEdge acts from rmw True)))))"

text \<open>The set of predecessors is reduced first.  The inner loop compares one of them with those behind it:
  it goes when it reaches one of them, and those that reach it go.\<close>

fun prune_behind :: "(nat \<Rightarrow> action) \<Rightarrow> nat \<Rightarrow> nat list \<Rightarrow> cycle_graph \<Rightarrow> (bool \<times> nat list \<times> cycle_graph) res" where
  "prune_behind acts a [] g = Inr (False, [], g)"
| "prune_behind acts a (b # bs) g =
     (let g1 = getNode acts b g in
      bindR (checkReachable acts g1 a b) (\<lambda>r.
      if r then Inr (True, b # bs, g1)
      else bindR (checkReachable acts g1 b a) (\<lambda>r.
        if r then prune_behind acts a bs g1
        else bindR (prune_behind acts a bs g1) (\<lambda>(erased, cs, g2). Inr (erased, b # cs, g2)))))"

lemma prune_behind_length:
  "prune_behind acts a bs g = Inr (er, cs, h) \<Longrightarrow> length cs \<le> length bs"
  by (induction acts a bs g arbitrary: er cs h rule: prune_behind.induct)
    (auto simp: Let_def bindR_Inr_iff split: if_splits intro: le_SucI)

function prune_edges :: "(nat \<Rightarrow> action) \<Rightarrow> nat list \<Rightarrow> cycle_graph \<Rightarrow> (nat list \<times> cycle_graph) res" where
  "prune_edges acts [] g = Inr ([], g)"
| "prune_edges acts (a # as) g =
     (case prune_behind acts a as (getNode acts a g) of
        Inl f \<Rightarrow> Inl f
      | Inr (erased, bs, g1) \<Rightarrow>
          bindR (prune_edges acts bs g1) (\<lambda>(cs, g2). Inr (if erased then cs else a # cs, g2)))"
  by pat_completeness auto
termination
  by (relation "measure (\<lambda>(acts, as, g). length as)") (auto dest: prune_behind_length)

definition addEdges :: "(nat \<Rightarrow> action) \<Rightarrow> nat list \<Rightarrow> nat \<Rightarrow> cycle_graph \<Rightarrow> cycle_graph res" where
  "addEdges acts edgeset to g = bindR (prune_edges acts edgeset g) (\<lambda>(froms, g1).
     foldR (\<lambda>from. cg_addEdge acts from to (a_tid (acts from) = a_tid (acts to))) froms g1)"

section \<open>Removing a node\<close>

definition freeAction :: "nat \<Rightarrow> cycle_graph \<Rightarrow> cycle_graph res" where
  "freeAction a g = bindR (mo_node g a) (\<lambda>c.
     bindR (foldR (\<lambda>dst. with_node dst (removeInEdge a)) (edges c) g) (\<lambda>g1.
     bindR (foldR (\<lambda>src. with_node src (removeEdge a)) (inedges c) g1) (\<lambda>g2. Inr (g2(a := None)))))"

end
