(* ===== verification/Mo_Facts.thy ===== *)
theory Mo_Facts
  imports Mo_Graph
begin

text \<open>
  What one operation of the modification-order graph does: the shape of the graph and its clocks are read by
  functions, so that a step is an equation on each of them.  The loop that spreads clocks ends with every clock
  below those of its successors, and with no more in a clock than some predecessor had.
\<close>

section \<open>Reading the graph\<close>

definition clk :: "cycle_graph \<Rightarrow> nat \<Rightarrow> nat \<Rightarrow> clock" where
  "clk g n = (case g n of None \<Rightarrow> (\<lambda>_. 0) | Some c \<Rightarrow> getClock (node_cv c))"

definition succs :: "cycle_graph \<Rightarrow> nat \<Rightarrow> nat list" where
  "succs g n = (case g n of None \<Rightarrow> [] | Some c \<Rightarrow> edges c)"

definition preds :: "cycle_graph \<Rightarrow> nat \<Rightarrow> nat list" where
  "preds g n = (case g n of None \<Rightarrow> [] | Some c \<Rightarrow> inedges c)"

definition rmw_of :: "cycle_graph \<Rightarrow> nat \<Rightarrow> nat option" where
  "rmw_of g n = (case g n of None \<Rightarrow> None | Some c \<Rightarrow> hasRMW c)"

definition mo_edge :: "cycle_graph \<Rightarrow> (nat \<times> nat) set" where
  "mo_edge g = {(n, m). m \<in> set (succs g n)}"

definition linked :: "cycle_graph \<Rightarrow> bool" where
  "linked g \<longleftrightarrow> finite (dom g) \<and> (\<forall>n. distinct (succs g n) \<and> distinct (preds g n)) \<and>
     (\<forall>n m. m \<in> set (succs g n) \<longleftrightarrow> n \<in> set (preds g m))"

definition same_shape :: "cycle_graph \<Rightarrow> cycle_graph \<Rightarrow> bool" where
  "same_shape g h \<longleftrightarrow> dom h = dom g \<and> succs h = succs g \<and> preds h = preds g \<and> rmw_of h = rmw_of g"

named_theorems graph_simps \<open>reading an updated graph\<close>

lemma read_update [graph_simps]:
  "clk (g(n \<mapsto> c)) = (clk g)(n := getClock (node_cv c))"
  "succs (g(n \<mapsto> c)) = (succs g)(n := edges c)"
  "preds (g(n \<mapsto> c)) = (preds g)(n := inedges c)"
  "rmw_of (g(n \<mapsto> c)) = (rmw_of g)(n := hasRMW c)"
  by (auto simp: clk_def succs_def preds_def rmw_of_def)

lemma read_delete [graph_simps]:
  "clk (g(n := None)) = (clk g)(n := (\<lambda>_. 0))"
  "succs (g(n := None)) = (succs g)(n := [])"
  "preds (g(n := None)) = (preds g)(n := [])"
  "rmw_of (g(n := None)) = (rmw_of g)(n := None)"
  by (auto simp: clk_def succs_def preds_def rmw_of_def)

lemma read_node:
  "g n = Some c \<Longrightarrow> clk g n = getClock (node_cv c)"
  "g n = Some c \<Longrightarrow> succs g n = edges c"
  "g n = Some c \<Longrightarrow> preds g n = inedges c"
  "g n = Some c \<Longrightarrow> rmw_of g n = hasRMW c"
  by (simp_all add: clk_def succs_def preds_def rmw_of_def)

lemma read_none:
  "n \<notin> dom g \<Longrightarrow> clk g n = (\<lambda>_. 0)"
  "n \<notin> dom g \<Longrightarrow> succs g n = []"
  "n \<notin> dom g \<Longrightarrow> preds g n = []"
  "n \<notin> dom g \<Longrightarrow> rmw_of g n = None"
  by (simp_all add: clk_def succs_def preds_def rmw_of_def domIff)

lemma mo_node_dom [simp]: "n \<in> dom g \<Longrightarrow> mo_node g n = Inr (the (g n))"
  by (auto simp: mo_node_def)

lemma read_the [simp]:
  "n \<in> dom g \<Longrightarrow> getClock (node_cv (the (g n))) = clk g n"
  "n \<in> dom g \<Longrightarrow> edges (the (g n)) = succs g n"
  "n \<in> dom g \<Longrightarrow> inedges (the (g n)) = preds g n"
  "n \<in> dom g \<Longrightarrow> hasRMW (the (g n)) = rmw_of g n"
  by (auto simp: read_node)

lemma same_shape_refl [simp]: "same_shape g g"
  by (simp add: same_shape_def)

lemma same_shape_trans: "same_shape g h \<Longrightarrow> same_shape h k \<Longrightarrow> same_shape g k"
  by (simp add: same_shape_def)

lemma same_shape_edge: "same_shape g h \<Longrightarrow> mo_edge h = mo_edge g"
  by (simp add: same_shape_def mo_edge_def)

lemma same_shape_linked: "same_shape g h \<Longrightarrow> linked h = linked g"
  by (simp add: same_shape_def linked_def)

lemma same_shape_clock:
  "n \<in> dom g \<Longrightarrow> same_shape g (g(n \<mapsto> (the (g n))\<lparr>node_cv := cv\<rparr>))"
  by (auto simp: same_shape_def graph_simps read_node fun_eq_iff)

lemma linked_dom:
  assumes "linked g" and "(n, m) \<in> mo_edge g" shows "n \<in> dom g" "m \<in> dom g"
proof -
  from assms have "m \<in> set (succs g n)" "n \<in> set (preds g m)" by (auto simp: linked_def mo_edge_def)
  then show "n \<in> dom g" "m \<in> dom g" using read_none(2) [of n g] read_none(3) [of m g] by fastforce+
qed

lemma linked_path_dom:
  assumes "(a, b) \<in> (mo_edge g)\<^sup>*" and "linked g" shows "a \<in> dom g \<longleftrightarrow> b \<in> dom g"
  using assms by (induction rule: rtrancl_induct) (auto dest: linked_dom)

section \<open>One edge, one node\<close>

lemma linked_insert:
  assumes "linked g" and "dom h = dom g" and "b \<notin> set (succs g a)"
    and "succs h = (succs g)(a := succs g a @ [b])" and "preds h = (preds g)(b := preds g b @ [a])"
  shows "linked h"
proof -
  have "a \<notin> set (preds g b)" using assms(1,3) by (simp add: linked_def)
  then show ?thesis using assms by (auto simp: linked_def)
qed

lemma node_addEdge_new:
  assumes "a \<in> dom g" and "b \<in> dom g" and "b \<notin> set (succs g a)"
  obtains h where "node_addEdge a b g = Inr h" and "dom h = dom g" and "clk h = clk g" and "rmw_of h = rmw_of g"
    and "succs h = (succs g)(a := succs g a @ [b])" and "preds h = (preds g)(b := preds g b @ [a])"
proof -
  define g1 where "g1 = g(a \<mapsto> (the (g a))\<lparr>edges := succs g a @ [b]\<rparr>)"
  define h where "h = g1(b \<mapsto> (the (g1 b))\<lparr>inedges := preds g b @ [a]\<rparr>)"
  have d: "dom g1 = dom g" using assms by (auto simp: g1_def)
  have r1: "clk g1 = clk g" "succs g1 = (succs g)(a := succs g a @ [b])" "preds g1 = preds g" "rmw_of g1 = rmw_of g"
    using assms(1) by (auto simp: g1_def graph_simps)
  have r: "clk h = clk g" "succs h = (succs g)(a := succs g a @ [b])" "preds h = (preds g)(b := preds g b @ [a])"
      "rmw_of h = rmw_of g"
    using assms(2) d r1 by (auto simp: h_def graph_simps fun_eq_iff)
  have dh: "dom h = dom g" using d assms by (auto simp: h_def)
  have eq: "node_addEdge a b g = Inr h"
    using assms d r1 by (simp add: node_addEdge_def with_node_def g1_def [symmetric] h_def)
  show thesis by (rule that [OF eq dh r(1,4,2,3)])
qed

lemma node_addEdge_result:
  assumes "linked g" and "a \<in> dom g" and "b \<in> dom g"
  obtains h where "node_addEdge a b g = Inr h" and "linked h" and "dom h = dom g" and "clk h = clk g"
    and "rmw_of h = rmw_of g" and "mo_edge h = insert (a, b) (mo_edge g)"
    and "succs h = (succs g)(a := if b \<in> set (succs g a) then succs g a else succs g a @ [b])"
proof (cases "b \<in> set (succs g a)")
  case True
  then have "node_addEdge a b g = Inr g" using assms by (simp add: node_addEdge_def)
  with True assms(1) show thesis by (intro that [of g]) (auto simp: mo_edge_def)
next
  case False
  obtain h where h: "node_addEdge a b g = Inr h" "dom h = dom g" "clk h = clk g" "rmw_of h = rmw_of g"
    "succs h = (succs g)(a := succs g a @ [b])" "preds h = (preds g)(b := preds g b @ [a])"
    using node_addEdge_new [OF assms(2,3) False] .
  have l: "linked h" using linked_insert [OF assms(1) h(2) False h(5,6)] .
  have m: "mo_edge h = insert (a, b) (mo_edge g)" using h(5) by (auto simp: mo_edge_def split: if_splits)
  show thesis by (rule that [OF h(1) l h(2-4) m]) (simp add: False h(5))
qed

lemma getNode_eq: "getNode acts a g = (if a \<in> dom g then g else g(a \<mapsto> new_node acts a))"
  by (auto simp: getNode_def getNode_noCreate_def putNode_def split: option.splits)

lemma getNode_dom [simp]: "dom (getNode acts a g) = insert a (dom g)"
  by (auto simp: getNode_eq)

lemma getNode_same [simp]: "a \<in> dom g \<Longrightarrow> getNode acts a g = g"
  by (simp add: getNode_eq)

lemma getNode_read:
  "succs (getNode acts a g) = succs g" "preds (getNode acts a g) = preds g"
  "rmw_of (getNode acts a g) = rmw_of g" "mo_edge (getNode acts a g) = mo_edge g"
  "clk (getNode acts a g) = (if a \<in> dom g then clk g
     else (clk g)(a := (\<lambda>_. 0)(a_tid (acts a) := seq_number (acts a))))"
proof -
  show s: "succs (getNode acts a g) = succs g" "preds (getNode acts a g) = preds g"
    "rmw_of (getNode acts a g) = rmw_of g"
    by (auto simp: getNode_eq graph_simps new_node_def fun_eq_iff read_none)
  then show "mo_edge (getNode acts a g) = mo_edge g" by (simp add: mo_edge_def)
  show "clk (getNode acts a g) = (if a \<in> dom g then clk g
     else (clk g)(a := (\<lambda>_. 0)(a_tid (acts a) := seq_number (acts a))))"
    by (auto simp: getNode_eq graph_simps new_node_def getClock_new fun_eq_iff)
qed

lemma getNode_linked: "linked g \<Longrightarrow> linked (getNode acts a g)"
  by (simp add: linked_def getNode_read)

section \<open>Spreading clocks\<close>

text \<open>A bound on the lengths of the vectors makes the room left in all clocks a number that every change
  lowers; with the length of the queue it measures the loop.\<close>

definition short :: "nat \<Rightarrow> cycle_graph \<Rightarrow> bool" where
  "short T g \<longleftrightarrow> (\<forall>n c. g n = Some c \<longrightarrow> length (node_cv c) \<le> T)"

definition room :: "nat \<Rightarrow> cycle_graph \<Rightarrow> nat" where
  "room T g = (\<Sum>n\<in>dom g. \<Sum>t<T. 2 ^ 32 - unat (clk g n t))"

lemma short_exists: "finite (dom g) \<Longrightarrow> \<exists>T. short T g"
proof -
  assume "finite (dom g)"
  then have "length (node_cv (the (g n))) \<le> (\<Sum>n\<in>dom g. length (node_cv (the (g n))))" if "n \<in> dom g" for n
    using that by (intro member_le_sum) auto
  then show ?thesis unfolding short_def by (metis domI option.sel)
qed

lemma clk_past_end: "short T g \<Longrightarrow> T \<le> t \<Longrightarrow> clk g n t = 0"
  by (cases "g n") (fastforce simp: clk_def short_def getClock_def)+

lemma room_less:
  assumes "finite (dom g)" and "dom h = dom g" and "\<forall>n t. clk g n t \<le> clk h n t"
    and "e \<in> dom g" and "t < T" and "clk g e t < clk h e t"
  shows "room T h < room T g"
proof -
  have le: "2 ^ 32 - unat (clk h n t) \<le> 2 ^ 32 - unat (clk g n t)" for n t
    using assms(3) by (simp add: word_le_nat_alt diff_le_mono2)
  have "unat (clk g e t) < unat (clk h e t)" using assms(6) by (simp add: word_less_nat_alt)
  moreover have "unat (clk h e t) < 2 ^ 32" using unsigned_less [of "clk h e t"] by simp
  ultimately have "2 ^ 32 - unat (clk h e t) < 2 ^ 32 - unat (clk g e t)" by linarith
  then have "(\<Sum>t<T. 2 ^ 32 - unat (clk h e t)) < (\<Sum>t<T. 2 ^ 32 - unat (clk g e t))"
    using assms(5) le by (intro sum_strict_mono_ex1) auto
  then show ?thesis unfolding room_def assms(2)
    using assms(1,4) le by (intro sum_strict_mono_ex1) (auto intro: sum_mono)
qed


lemma short_clock:
  "short T g \<Longrightarrow> n \<in> dom g \<Longrightarrow> length cv \<le> T \<Longrightarrow> short T (g(n \<mapsto> c\<lparr>node_cv := cv\<rparr>))"
  by (auto simp: short_def)

text \<open>One round of the inner loop.\<close>

lemma merge_succs_result:
  assumes "n \<in> dom g" and "set es \<subseteq> dom g" and "finite (dom g)" and "short T g"
  shows "\<exists>p h. merge_succs n es q g = Inr (q @ p, h) \<and> same_shape g h \<and> short T h \<and> set p \<subseteq> set es \<and>
    length p + room T h \<le> room T g \<and>
    (\<forall>m t. clk h m t = (if m \<in> set es then max (clk g m t) (clk g n t) else clk g m t)) \<and>
    (\<forall>m. m \<notin> set p \<longrightarrow> clk h m = clk g m)"
  using assms
proof (induction es arbitrary: q g)
  case Nil
  then show ?case by simp
next
  case (Cons e es)
  define cv where "cv = fst (cv_merge (node_cv (the (g e))) (node_cv (the (g n))))"
  define ch where "ch = snd (cv_merge (node_cv (the (g e))) (node_cv (the (g n))))"
  define k where "k = g(e \<mapsto> (the (g e))\<lparr>node_cv := cv\<rparr>)"
  define q1 where "q1 = (if ch then [e] else [])"
  have e: "e \<in> dom g" and n: "n \<in> dom g" using Cons.prems by auto
  have sh: "same_shape g k" unfolding k_def by (rule same_shape_clock [OF e])
  then have dk: "dom k = dom g" by (simp add: same_shape_def)
  have ck: "clk k m t = (if m = e then max (clk g e t) (clk g n t) else clk g m t)" for m t
    using e n by (simp add: k_def graph_simps cv_def)
  have len: "length (node_cv (the (g m))) \<le> T" if "m \<in> dom g" for m
    using that Cons.prems(4) by (auto simp: short_def)
  have st: "short T k" unfolding k_def
    by (rule short_clock [OF Cons.prems(4) e]) (use len [OF e] len [OF n] in \<open>simp add: cv_def\<close>)
  have chg: "ch \<longleftrightarrow> (\<exists>t. clk g e t < clk g n t)" using e n by (simp add: ch_def merge_changed)
  have le: "\<forall>m t. clk g m t \<le> clk k m t" by (simp add: ck)
  have room: "length q1 + room T k \<le> room T g"
  proof (cases ch)
    case True
    then obtain t where t: "clk g e t < clk g n t" using chg by blast
    then have "t < T" using clk_past_end [OF Cons.prems(4), of t n] by (cases "t < T") auto
    then have "room T k < room T g"
      by (rule room_less [OF Cons.prems(3) dk le e]) (use t in \<open>simp add: ck\<close>)
    with True show ?thesis by (simp add: q1_def)
  next
    case False
    then have "clk k m t = clk g m t" for m t
      using chg by (cases "m = e") (auto simp: ck max_absorb1 not_less)
    with False show ?thesis by (simp add: room_def dk q1_def)
  qed
  have same: "clk k m = clk g m" if "m \<notin> set q1" for m
  proof
    fix t show "clk k m t = clk g m t"
      using that chg by (cases "m = e") (auto simp: ck q1_def max_absorb1 not_less split: if_splits)
  qed
  have "\<exists>p h. merge_succs n es (q @ q1) k = Inr ((q @ q1) @ p, h) \<and> same_shape k h \<and> short T h \<and> set p \<subseteq> set es \<and>
    length p + room T h \<le> room T k \<and>
    (\<forall>m t. clk h m t = (if m \<in> set es then max (clk k m t) (clk k n t) else clk k m t)) \<and>
    (\<forall>m. m \<notin> set p \<longrightarrow> clk h m = clk k m)"
    by (rule Cons.IH) (use Cons.prems dk st in auto)
  then obtain p h where ih: "merge_succs n es (q @ q1) k = Inr ((q @ q1) @ p, h)" "same_shape k h" "short T h"
    "set p \<subseteq> set es" "length p + room T h \<le> room T k"
    "\<And>m t. clk h m t = (if m \<in> set es then max (clk k m t) (clk k n t) else clk k m t)"
    "\<And>m. m \<notin> set p \<Longrightarrow> clk h m = clk k m" by blast
  have "merge_succs n (e # es) q g = merge_succs n es (if ch then q @ [e] else q) k"
    using e n by (simp add: k_def cv_def ch_def case_prod_beta Let_def)
  then have "merge_succs n (e # es) q g = Inr (q @ q1 @ p, h)"
    using ih(1) by (cases ch) (simp_all add: q1_def)
  moreover have "clk h m t = (if m \<in> set (e # es) then max (clk g m t) (clk g n t) else clk g m t)" for m t
    by (auto simp: ih(6) ck max_def)
  moreover have "same_shape g h" using sh ih(2) by (rule same_shape_trans)
  moreover have "set (q1 @ p) \<subseteq> set (e # es)" using ih(4) by (auto simp: q1_def)
  ultimately show ?case using ih(3,5,7) room same by (intro exI [of _ "q1 @ p"] exI [of _ h]) auto
qed

text \<open>The loop over the queue: whatever may be said of a clock (\<open>B\<close>) and is inherited along edges still holds
  of every clock at its end.\<close>

text \<open>The nodes in \<open>Q\<close> still have to tell their successors; the edges in \<open>X\<close> need not hold clocks in order.\<close>

definition settled :: "(nat \<times> nat) set \<Rightarrow> nat set \<Rightarrow> cycle_graph \<Rightarrow> bool" where
  "settled X Q g \<longleftrightarrow>
     (\<forall>n m t. (n, m) \<in> mo_edge g \<longrightarrow> (n, m) \<notin> X \<longrightarrow> n \<notin> Q \<longrightarrow> clk g n t \<le> clk g m t)"

lemma propagate_result:
  assumes "linked g" and "short T g" and "set q \<subseteq> dom g" and "settled X (set q) g"
    and B: "\<forall>n\<in>dom g. \<forall>t. B n t (clk g n t)"
    and step: "\<forall>n m t v. (n, m) \<in> mo_edge g \<longrightarrow> B n t v \<longrightarrow> B m t v"
  shows "\<exists>h. propagate q g = Some (Inr h) \<and> same_shape g h \<and> settled X {} h \<and>
    (\<forall>n t. clk g n t \<le> clk h n t) \<and> (\<forall>n\<in>dom g. \<forall>t. B n t (clk h n t))"
  using assms
proof (induction "length q + room T g" arbitrary: q g rule: less_induct)
  case less
  show ?case
  proof (cases q rule: rev_cases)
    case Nil
    then have "propagate q g = Some (Inr g)" by (simp add: propagate.simps [of "[]"])
    with Nil show ?thesis using less.prems(4,5) by (intro exI [of _ g]) simp
  next
    case (snoc r n)
    have n: "n \<in> dom g" and es: "set (succs g n) \<subseteq> dom g"
      using less.prems(1,3) snoc linked_dom(2) [OF less.prems(1)] by (auto simp: mo_edge_def)
    have fin: "finite (dom g)" using less.prems(1) by (simp add: linked_def)
    obtain p k where k: "merge_succs n (succs g n) r g = Inr (r @ p, k)" "same_shape g k" "short T k"
      "set p \<subseteq> set (succs g n)" "length p + room T k \<le> room T g"
      "\<And>m t. clk k m t = (if m \<in> set (succs g n) then max (clk g m t) (clk g n t) else clk g m t)"
      "\<And>m. m \<notin> set p \<Longrightarrow> clk k m = clk g m"
      using merge_succs_result [OF n es fin less.prems(2), of r] by blast
    have dk: "dom k = dom g" using k(2) by (simp add: same_shape_def)
    have ek: "mo_edge k = mo_edge g" using k(2) by (rule same_shape_edge)
    have le: "clk g m t \<le> clk k m t" for m t by (simp add: k(6))
    have st: "settled X (set (r @ p)) k" unfolding settled_def ek
    proof (intro allI impI)
      fix a m t assume am: "(a, m) \<in> mo_edge g" and x: "(a, m) \<notin> X" and a: "a \<notin> set (r @ p)"
      have ka: "clk k a = clk g a" using a k(7) by simp
      show "clk k a t \<le> clk k m t"
      proof (cases "a = n")
        case True
        then have "m \<in> set (succs g n)" using am by (simp add: mo_edge_def)
        then show ?thesis using True by (simp add: ka k(6))
      next
        case False
        then have "clk g a t \<le> clk g m t" using am x a less.prems(4) snoc by (auto simp: settled_def)
        then show ?thesis using le [of m t] by (simp add: ka)
      qed
    qed
    have Bk: "\<forall>m\<in>dom k. \<forall>t. B m t (clk k m t)"
    proof (intro ballI allI)
      fix m t assume "m \<in> dom k"
      then have m: "B m t (clk g m t)" using less.prems(5) dk by simp
      show "B m t (clk k m t)"
      proof (cases "m \<in> set (succs g n)")
        case True
        then have "B m t (clk g n t)" using less.prems(5,6) n unfolding mo_edge_def by blast
        with m True show ?thesis by (simp add: k(6) max_def)
      qed (simp add: k(6) m)
    qed
    have lt: "length (r @ p) + room T k < length q + room T g" using k(5) snoc by simp
    have lk: "linked k" using less.prems(1) same_shape_linked [OF k(2)] by simp
    have rp: "set (r @ p) \<subseteq> dom k" using less.prems(3) k(4) es dk snoc by auto
    have stepk: "\<forall>n m t v. (n, m) \<in> mo_edge k \<longrightarrow> B n t v \<longrightarrow> B m t v" using less.prems(6) ek by simp
    from less.hyps [OF lt lk k(3) rp st Bk stepk] obtain h where h: "propagate (r @ p) k = Some (Inr h)"
      "same_shape k h" "settled X {} h" "\<And>n t. clk k n t \<le> clk h n t" "\<forall>n\<in>dom k. \<forall>t. B n t (clk h n t)" by blast
    obtain c where c: "g n = Some c" using n by auto
    have "propagate q g = propagate (r @ p) k"
      using k(1) c snoc by (simp add: propagate.simps [of "r @ [n]"] read_node)
    then have "propagate q g = Some (Inr h)" using h(1) by simp
    moreover have "clk g m t \<le> clk h m t" for m t using le [of m t] h(4) [of m t] by (rule order_trans)
    ultimately show ?thesis using h(3,5) same_shape_trans [OF k(2) h(2)] dk by (intro exI [of _ h]) auto
  qed
qed


section \<open>An edge and its clocks\<close>

lemma spread_clock_result:
  assumes l: "linked g" and a: "a \<in> dom g" and b: "b \<in> dom g" and ab: "(a, b) \<in> mo_edge g"
    and ready: "\<forall>n m t. (n, m) \<in> mo_edge g \<longrightarrow> (n, m) \<notin> X \<longrightarrow> (n, m) \<noteq> (a, b) \<longrightarrow> n \<noteq> b \<longrightarrow>
      clk g n t \<le> clk g m t"
    and learns: "(\<exists>t. clk g b t < clk g a t) \<or>
      (\<forall>m t. (b, m) \<in> mo_edge g \<longrightarrow> (b, m) \<notin> X \<longrightarrow> clk g b t \<le> clk g m t)"
  obtains h where "spread_clock a b g = Inr h" and "same_shape g h" and "settled X {} h"
    and "\<forall>n t. clk g n t \<le> clk h n t"
    and "\<forall>n\<in>dom g. \<forall>t. \<exists>m\<in>dom g. (m, n) \<in> (mo_edge g)\<^sup>* \<and> clk h n t = clk g m t"
proof -
  define cv where "cv = fst (cv_merge (node_cv (the (g b))) (node_cv (the (g a))))"
  define ch where "ch = snd (cv_merge (node_cv (the (g b))) (node_cv (the (g a))))"
  define k where "k = g(b \<mapsto> (the (g b))\<lparr>node_cv := cv\<rparr>)"
  have eq: "spread_clock a b g = (if ch then ended (propagate [b] k) else Inr k)"
    using a b by (simp add: spread_clock_def k_def cv_def ch_def case_prod_beta Let_def)
  have sh: "same_shape g k" unfolding k_def by (rule same_shape_clock [OF b])
  then have dk: "dom k = dom g" by (simp add: same_shape_def)
  have ek: "mo_edge k = mo_edge g" using sh by (rule same_shape_edge)
  have ck: "clk k m t = (if m = b then max (clk g b t) (clk g a t) else clk g m t)" for m t
    using a b by (simp add: k_def graph_simps cv_def)
  have chg: "ch \<longleftrightarrow> (\<exists>t. clk g b t < clk g a t)" using a b by (simp add: ch_def merge_changed)
  have st: "settled X {b} k" unfolding settled_def ek
  proof (intro allI impI)
    fix n m t assume nm: "(n, m) \<in> mo_edge g" "(n, m) \<notin> X" and n: "n \<notin> {b}"
    show "clk k n t \<le> clk k m t"
    proof (cases "(n, m) = (a, b)")
      case False
      then have "clk g n t \<le> clk g m t" using ready nm n by auto
      then show ?thesis using n by (auto simp: ck le_max_iff_disj)
    qed (use n in \<open>simp add: ck\<close>)
  qed
  define B where "B n t v \<longleftrightarrow> (\<exists>m\<in>dom g. (m, n) \<in> (mo_edge g)\<^sup>* \<and> v = clk g m t)" for n t v
  have Bk: "\<forall>n\<in>dom k. \<forall>t. B n t (clk k n t)"
  proof (intro ballI allI)
    fix n t assume n: "n \<in> dom k"
    have "B b t (clk g a t)" using a ab by (auto simp: B_def)
    moreover have "B n t (clk g n t)" using n dk by (auto simp: B_def)
    ultimately show "B n t (clk k n t)" by (auto simp: ck max_def)
  qed
  have step: "\<forall>n m t v. (n, m) \<in> mo_edge k \<longrightarrow> B n t v \<longrightarrow> B m t v"
    unfolding ek B_def by (blast intro: rtrancl_into_rtrancl)
  have le: "clk g n t \<le> clk k n t" for n t by (simp add: ck)
  show thesis
  proof (cases ch)
    case True
    have lk: "linked k" using l same_shape_linked [OF sh] by simp
    then obtain T where T: "short T k" using short_exists [of k] by (auto simp: linked_def)
    have q: "set [b] \<subseteq> dom k" "settled X (set [b]) k" using b dk st by auto
    from propagate_result [OF lk T q Bk step] obtain h where h: "propagate [b] k = Some (Inr h)" "same_shape k h"
      "settled X {} h" "\<And>n t. clk k n t \<le> clk h n t" "\<forall>n\<in>dom k. \<forall>t. B n t (clk h n t)" by blast
    show thesis
    proof (rule that)
      show "spread_clock a b g = Inr h" using True h(1) by (simp add: eq ended_def)
      show "same_shape g h" using sh h(2) by (rule same_shape_trans)
      show "settled X {} h" by (rule h(3))
      show "\<forall>n t. clk g n t \<le> clk h n t" using le h(4) by (blast intro: order_trans)
      show "\<forall>n\<in>dom g. \<forall>t. \<exists>m\<in>dom g. (m, n) \<in> (mo_edge g)\<^sup>* \<and> clk h n t = clk g m t"
        using h(5) by (simp add: B_def dk)
    qed
  next
    case False
    then have le_b: "\<And>t. clk g a t \<le> clk g b t" using chg by (simp add: not_less)
    then have same: "clk k = clk g" by (auto simp: ck fun_eq_iff max_absorb1)
    have out: "\<forall>m t. (b, m) \<in> mo_edge g \<longrightarrow> (b, m) \<notin> X \<longrightarrow> clk g b t \<le> clk g m t" using learns False chg by blast
    show thesis
    proof (rule that)
      show "spread_clock a b g = Inr k" using False by (simp add: eq)
      show "same_shape g k" by (rule sh)
      show "settled X {} k" using st out by (auto simp: settled_def same ek)
      show "\<forall>n t. clk g n t \<le> clk k n t" by (simp add: same)
      show "\<forall>n\<in>dom g. \<forall>t. \<exists>m\<in>dom g. (m, n) \<in> (mo_edge g)\<^sup>* \<and> clk k n t = clk g m t" by (auto simp: same)
    qed
  qed
qed

text \<open>Chains of RMWs: a store that a RMW reads from has one successor, which is later.\<close>

definition rmw_chained :: "(nat \<Rightarrow> action) \<Rightarrow> cycle_graph \<Rightarrow> bool" where
  "rmw_chained acts g \<longleftrightarrow> (\<forall>n m. rmw_of g n = Some m \<longrightarrow>
     succs g n = [m] \<and> seq_number (acts n) < seq_number (acts m))"

lemma rmw_end_result:
  assumes "linked g" and "rmw_chained acts g" and "n \<in> dom g"
  shows "\<exists>e. rmw_end g to n = Some (Inr e) \<and> e \<in> dom g \<and> (n, e) \<in> (mo_edge g)\<^sup>* \<and>
    (rmw_of g e = None \<or> rmw_of g e = Some to)"
  using assms(3)
proof (induction "2 ^ 32 - unat (seq_number (acts n))" arbitrary: n rule: less_induct)
  case less
  then obtain c where c: "g n = Some c" by auto
  show ?case
  proof (cases "hasRMW c")
    case None
    with c less.prems show ?thesis by (intro exI [of _ n]) (simp add: rmw_end.simps read_node)
  next
    case (Some m)
    then have r: "rmw_of g n = Some m" using c by (simp add: read_node)
    then have s: "succs g n = [m]" "seq_number (acts n) < seq_number (acts m)"
      using assms(2) by (auto simp: rmw_chained_def)
    have e: "(n, m) \<in> mo_edge g" using s(1) by (simp add: mo_edge_def)
    show ?thesis
    proof (cases "m = to")
      case True
      with c Some r less.prems show ?thesis by (intro exI [of _ n]) (simp add: rmw_end.simps [of g to n])
    next
      case False
      have "unat (seq_number (acts m)) < 2 ^ 32" using unsigned_less [of "seq_number (acts m)"] by simp
      then have "2 ^ 32 - unat (seq_number (acts m)) < 2 ^ 32 - unat (seq_number (acts n))"
        using s(2) by (simp add: word_less_nat_alt)
      from less.hyps [OF this] linked_dom(2) [OF assms(1) e] obtain x where x: "rmw_end g to m = Some (Inr x)"
        "x \<in> dom g" "(m, x) \<in> (mo_edge g)\<^sup>*" "rmw_of g x = None \<or> rmw_of g x = Some to" by blast
      have "rmw_end g to n = rmw_end g to m" using c Some False by (simp add: rmw_end.simps [of g to n])
      with x e show ?thesis by (intro exI [of _ x]) (simp add: converse_rtrancl_into_rtrancl)
    qed
  qed
qed


section \<open>Well-formed graphs and how they grow\<close>

text \<open>Every clock knows the node's own store and is below the clocks of the successors, but for the edges in
  \<open>X\<close>; edges order stores of one location.\<close>

definition mo_part :: "(nat \<Rightarrow> action) \<Rightarrow> (nat \<times> nat) set \<Rightarrow> cycle_graph \<Rightarrow> bool" where
  "mo_part acts X g \<longleftrightarrow> linked g \<and> rmw_chained acts g \<and> settled X {} g \<and>
     (\<forall>n\<in>dom g. seq_number (acts n) \<noteq> 0 \<and> seq_number (acts n) \<le> clk g n (a_tid (acts n))) \<and>
     (\<forall>n m. (n, m) \<in> mo_edge g \<longrightarrow> a_location (acts n) = a_location (acts m))"

abbreviation mo_wf :: "(nat \<Rightarrow> action) \<Rightarrow> cycle_graph \<Rightarrow> bool" where
  "mo_wf acts \<equiv> mo_part acts {}"

text \<open>\<open>h\<close> has new edges into \<open>x\<close> only, and its clocks come from \<open>g\<close> along the edges of \<open>h\<close>.\<close>

definition grown :: "nat \<Rightarrow> cycle_graph \<Rightarrow> cycle_graph \<Rightarrow> bool" where
  "grown x g h \<longleftrightarrow> dom h = dom g \<and> rmw_of h = rmw_of g \<and> mo_edge g \<subseteq> mo_edge h \<and>
     mo_edge h \<subseteq> mo_edge g \<union> UNIV \<times> {x} \<and> (\<forall>n t. clk g n t \<le> clk h n t) \<and>
     (\<forall>n\<in>dom g. \<forall>t. \<exists>m\<in>dom g. (m, n) \<in> (mo_edge h)\<^sup>* \<and> clk h n t = clk g m t)"

lemma grown_refl [simp]: "grown x g g"
  by (auto simp: grown_def)

lemma grown_source:
  "grown x g h \<Longrightarrow> n \<in> dom h \<Longrightarrow> \<exists>m\<in>dom h. (m, n) \<in> (mo_edge h)\<^sup>* \<and> clk h n t = clk g m t"
  unfolding grown_def by metis

lemma grown_path: "grown x g h \<Longrightarrow> (a, b) \<in> (mo_edge g)\<^sup>* \<Longrightarrow> (a, b) \<in> (mo_edge h)\<^sup>*"
  using rtrancl_mono [of "mo_edge g" "mo_edge h"] by (auto simp: grown_def)

lemma grown_trans:
  assumes gh: "grown x g h" and hk: "grown x h k" shows "grown x g k"
proof -
  have "\<exists>m\<in>dom g. (m, n) \<in> (mo_edge k)\<^sup>* \<and> clk k n t = clk g m t" if n: "n \<in> dom g" for n t
  proof -
    have "n \<in> dom h" "dom h = dom g" using gh n by (simp_all add: grown_def)
    then obtain m where m: "m \<in> dom g" "(m, n) \<in> (mo_edge k)\<^sup>*" "clk k n t = clk h m t"
      using hk unfolding grown_def by blast
    then obtain l where "l \<in> dom g" "(l, m) \<in> (mo_edge h)\<^sup>*" "clk h m t = clk g l t"
      using gh unfolding grown_def by blast
    moreover from this(2) have "(l, m) \<in> (mo_edge k)\<^sup>*" by (rule grown_path [OF hk])
    ultimately show ?thesis using m by (auto intro: rtrancl_trans)
  qed
  moreover have "clk g n t \<le> clk k n t" for n t
    using gh hk order_trans [of "clk g n t" "clk h n t" "clk k n t"] by (simp add: grown_def)
  moreover have "mo_edge k \<subseteq> mo_edge g \<union> UNIV \<times> {x}" "mo_edge g \<subseteq> mo_edge k"
    "dom k = dom g" "rmw_of k = rmw_of g" using gh hk by (auto simp: grown_def)
  ultimately show ?thesis unfolding grown_def by blast
qed

lemma settled_path:
  assumes "settled X {} g" and "(a, b) \<in> (mo_edge g - X)\<^sup>*" shows "clk g a t \<le> clk g b t"
  using assms(2)
proof (induction rule: rtrancl_induct)
  case (step b c)
  then have "clk g b t \<le> clk g c t" using assms(1) by (auto simp: settled_def)
  with step.IH show ?case by (rule order_trans)
qed simp

lemma same_location:
  assumes "mo_part acts X g" and "(a, b) \<in> (mo_edge g)\<^sup>*" shows "a_location (acts a) = a_location (acts b)"
  using assms(2) by (induction rule: rtrancl_induct) (use assms(1) in \<open>auto simp: mo_part_def\<close>)

lemma path_clock:
  assumes "mo_part acts X g" and "a \<in> dom g" and "(a, b) \<in> (mo_edge g - X)\<^sup>*"
  shows "seq_number (acts a) \<le> clk g b (a_tid (acts a))"
proof -
  have "seq_number (acts a) \<le> clk g a (a_tid (acts a))" using assms(1,2) by (simp add: mo_part_def)
  also have "\<dots> \<le> clk g b (a_tid (acts a))" using assms by (intro settled_path [of X]) (auto simp: mo_part_def)
  finally show ?thesis .
qed

lemma checkReachable_clock:
  "mo_part acts X g \<Longrightarrow> a \<in> dom g \<Longrightarrow> b \<in> dom g \<Longrightarrow>
   checkReachable acts g a b = Inr (seq_number (acts a) \<le> clk g b (a_tid (acts a)))"
  by (simp add: checkReachable_def mo_part_def synchronized_since_iff)

text \<open>The last step of both ways to add an edge.\<close>

lemma join_edge:
  assumes l: "linked g" and a: "a \<in> dom g" and b: "b \<in> dom g"
    and ready: "settled X {b} g"
    and learns: "(\<exists>t. clk g b t < clk g a t) \<or> settled X {} g"
  obtains h where "bindR (node_addEdge a b g) (spread_clock a b) = Inr h" and "linked h" and "settled X {} h"
    and "mo_edge h = insert (a, b) (mo_edge g)" and "grown b g h"
    and "succs h = (succs g)(a := if b \<in> set (succs g a) then succs g a else succs g a @ [b])"
proof -
  obtain k where k: "node_addEdge a b g = Inr k" "linked k" "dom k = dom g" "clk k = clk g" "rmw_of k = rmw_of g"
    "mo_edge k = insert (a, b) (mo_edge g)"
    "succs k = (succs g)(a := if b \<in> set (succs g a) then succs g a else succs g a @ [b])"
    using node_addEdge_result [OF l a b] by metis
  have r: "\<forall>n m t. (n, m) \<in> mo_edge k \<longrightarrow> (n, m) \<notin> X \<longrightarrow> (n, m) \<noteq> (a, b) \<longrightarrow> n \<noteq> b \<longrightarrow> clk k n t \<le> clk k m t"
    using ready by (auto simp: k(4,6) settled_def)
  have ln: "(\<exists>t. clk k b t < clk k a t) \<or> (\<forall>m t. (b, m) \<in> mo_edge k \<longrightarrow> (b, m) \<notin> X \<longrightarrow> clk k b t \<le> clk k m t)"
    using learns by (auto simp: k(4,6) settled_def)
  have ab: "(a, b) \<in> mo_edge k" by (simp add: k(6))
  from a b have ak: "a \<in> dom k" "b \<in> dom k" by (simp_all add: k(3))
  obtain h where h: "spread_clock a b k = Inr h" "same_shape k h" "settled X {} h" "\<forall>n t. clk k n t \<le> clk h n t"
    "\<forall>n\<in>dom k. \<forall>t. \<exists>m\<in>dom k. (m, n) \<in> (mo_edge k)\<^sup>* \<and> clk h n t = clk k m t"
    using spread_clock_result [OF k(2) ak ab r ln] by metis
  have eh: "mo_edge h = mo_edge k" using h(2) by (rule same_shape_edge)
  show thesis
  proof (rule that)
    show "bindR (node_addEdge a b g) (spread_clock a b) = Inr h" by (simp add: k(1) h(1))
    show "linked h" using k(2) same_shape_linked [OF h(2)] by simp
    show "settled X {} h" by (rule h(3))
    show "mo_edge h = insert (a, b) (mo_edge g)" by (simp add: eh k(6))
    show "grown b g h" using h(2,4,5) k by (auto simp: grown_def same_shape_def eh)
    show "succs h = (succs g)(a := if b \<in> set (succs g a) then succs g a else succs g a @ [b])"
      using h(2) k(7) by (simp add: same_shape_def)
  qed
qed

lemma grown_wf:
  assumes wf: "mo_part acts X g" and gr: "grown x g h" and h: "linked h" "settled X {} h" "rmw_chained acts h"
    and loc: "\<And>n. (n, x) \<in> mo_edge h \<Longrightarrow> a_location (acts n) = a_location (acts x)"
  shows "mo_part acts X h"
proof -
  have "seq_number (acts n) \<noteq> 0 \<and> seq_number (acts n) \<le> clk h n (a_tid (acts n))" if "n \<in> dom h" for n
  proof -
    have "n \<in> dom g" and le: "clk g n (a_tid (acts n)) \<le> clk h n (a_tid (acts n))"
      using gr that by (simp_all add: grown_def)
    then have "seq_number (acts n) \<noteq> 0" "seq_number (acts n) \<le> clk g n (a_tid (acts n))"
      using wf by (simp_all add: mo_part_def)
    with le show ?thesis by (blast intro: order_trans)
  qed
  moreover have "a_location (acts n) = a_location (acts m)" if "(n, m) \<in> mo_edge h" for n m
  proof (cases "m = x")
    case False
    with that gr have "(n, m) \<in> mo_edge g" by (auto simp: grown_def)
    with wf show ?thesis by (auto simp: mo_part_def)
  qed (use that loc in simp)
  ultimately show ?thesis using h by (auto simp: mo_part_def)
qed

lemma addNodeEdge_result:
  assumes wf: "mo_part acts X g" and a: "a \<in> dom g" and b: "b \<in> dom g"
    and loc: "a_location (acts a) = a_location (acts b)"
  shows "\<exists>h. addNodeEdge acts a b f g = Inr h \<and> mo_part acts X h \<and> grown b g h \<and>
    ((a, b) \<in> (mo_edge h)\<^sup>* \<or> \<not> f \<and> seq_number (acts a) \<le> clk g b (a_tid (acts a)))"
proof (cases "seq_number (acts a) \<le> clk g b (a_tid (acts a)) \<and> \<not> f")
  case True
  then have "addNodeEdge acts a b f g = Inr g" by (simp add: addNodeEdge_def checkReachable_clock [OF wf a b])
  with True wf show ?thesis by simp
next
  case False
  from wf have l: "linked g" and c: "rmw_chained acts g" and st: "settled X {} g" by (simp_all add: mo_part_def)
  from rmw_end_result [OF l c a, of b] obtain e where e: "rmw_end g b a = Some (Inr e)" "e \<in> dom g"
    "(a, e) \<in> (mo_edge g)\<^sup>*" "rmw_of g e = None \<or> rmw_of g e = Some b" by blast
  have "settled X {b} g" using st by (simp add: settled_def)
  from join_edge [OF l e(2) b this disjI2 [OF st]] obtain h where h:
    "bindR (node_addEdge e b g) (spread_clock e b) = Inr h" "linked h" "settled X {} h"
    "mo_edge h = insert (e, b) (mo_edge g)" "grown b g h"
    "succs h = (succs g)(e := if b \<in> set (succs g e) then succs g e else succs g e @ [b])" by metis
  have "addNodeEdge acts a b f g = Inr h"
    using False e(1) h(1)
    by (subst addNodeEdge_def) (simp only: checkReachable_clock [OF wf a b] bindR_simps ended_def option.case if_False)
  moreover have "rmw_chained acts h"
    using c e(4) h(5,6) by (auto simp: rmw_chained_def grown_def)
  moreover have "a_location (acts e) = a_location (acts b)" using same_location [OF wf e(3)] loc by simp
  then have "a_location (acts n) = a_location (acts b)" if "(n, b) \<in> mo_edge h" for n
    using that wf by (auto simp: h(4) mo_part_def)
  then have "mo_part acts X h" by (rule grown_wf [OF wf h(5,2,3) \<open>rmw_chained acts h\<close>])
  moreover have "(a, b) \<in> (mo_edge h)\<^sup>*"
    using grown_path [OF h(5) e(3)] by (rule rtrancl_into_rtrancl) (simp add: h(4))
  ultimately show ?thesis using h(5) by blast
qed

end
