(* ===== verification/Mo_Orders.thy ===== *)
theory Mo_Orders
  imports Mo_Facts
begin

text \<open>
  The modification-order graph as the execution uses it: a new store with the stores that come before it, an
  edge between two stores, a RMW behind the store it reads from, old stores freed.  Each of these returns and
  keeps the clocks a sound account of the edges; all keep them an exact account of the paths but for a RMW that
  takes over edges and learns nothing (\<open>unspread\<close>), which \<open>rmw_contract\<close> leaves out.
\<close>

section \<open>Clocks that are sound, clocks that are exact\<close>

text \<open>What a clock knows comes along edges of \<open>P\<close>, a set that holds the edges of the graph: those that it
  has or has had.\<close>

definition mo_sound :: "(nat \<Rightarrow> action) \<Rightarrow> (nat \<times> nat) set \<Rightarrow> cycle_graph \<Rightarrow> bool" where
  "mo_sound acts P g \<longleftrightarrow> mo_edge g \<subseteq> P \<and>
     (\<forall>a\<in>dom g. \<forall>b\<in>dom g. a_location (acts a) = a_location (acts b) \<longrightarrow>
       seq_number (acts a) \<le> clk g b (a_tid (acts a)) \<longrightarrow> (a, b) \<in> P\<^sup>*)"

lemma sound_path:
  "mo_sound acts P g \<Longrightarrow> a \<in> dom g \<Longrightarrow> b \<in> dom g \<Longrightarrow> a_location (acts a) = a_location (acts b) \<Longrightarrow>
   seq_number (acts a) \<le> clk g b (a_tid (acts a)) \<Longrightarrow> (a, b) \<in> P\<^sup>*"
  by (auto simp: mo_sound_def)

lemma sound_mono: "mo_sound acts P g \<Longrightarrow> (a, b) \<in> (mo_edge g)\<^sup>* \<Longrightarrow> (a, b) \<in> P\<^sup>*"
  using rtrancl_mono [of "mo_edge g" P] by (auto simp: mo_sound_def)

definition mo_exact :: "(nat \<Rightarrow> action) \<Rightarrow> cycle_graph \<Rightarrow> bool" where
  "mo_exact acts g \<longleftrightarrow> mo_sound acts (mo_edge g) g"

lemma exact_path:
  "mo_exact acts g \<Longrightarrow> a \<in> dom g \<Longrightarrow> b \<in> dom g \<Longrightarrow> a_location (acts a) = a_location (acts b) \<Longrightarrow>
   seq_number (acts a) \<le> clk g b (a_tid (acts a)) \<Longrightarrow> (a, b) \<in> (mo_edge g)\<^sup>*"
  unfolding mo_exact_def by (rule sound_path)

lemma checkReachable_path:
  assumes "mo_wf acts g" and "mo_exact acts g" and "a \<in> dom g" and "b \<in> dom g"
    and "a_location (acts a) = a_location (acts b)"
  shows "checkReachable acts g a b = Inr ((a, b) \<in> (mo_edge g)\<^sup>*)"
  using checkReachable_clock [OF assms(1,3,4)] path_clock [OF assms(1,3)] exact_path [OF assms(2-5)] by auto

text \<open>A store that is about to get its node, and the clock of the new node.\<close>

definition newcomer :: "(nat \<Rightarrow> action) \<Rightarrow> nat \<Rightarrow> cycle_graph \<Rightarrow> bool" where
  "newcomer acts w g \<longleftrightarrow> w \<notin> dom g \<and> seq_number (acts w) \<noteq> 0 \<and>
     (\<forall>n\<in>dom g. a_location (acts n) = a_location (acts w) \<longrightarrow> clk g n (a_tid (acts w)) < seq_number (acts w))"

lemma new_clock:
  assumes "w \<notin> dom g"
  shows "clk (getNode acts w g) n t =
    (if n = w then (if t = a_tid (acts w) then seq_number (acts w) else 0) else clk g n t)"
  using assms by (simp add: getNode_read)

lemma new_node_wf:
  assumes wf: "mo_part acts X g" and new: "newcomer acts w g" shows "mo_part acts X (getNode acts w g)"
proof -
  have w: "w \<notin> dom g" using new by (simp add: newcomer_def)
  have ne: "n \<noteq> w \<and> m \<noteq> w" if "(n, m) \<in> mo_edge g" for n m
    using linked_dom [OF _ that] wf w by (auto simp: mo_part_def)
  have "settled X {} (getNode acts w g)"
    using wf ne by (auto simp: settled_def new_clock [OF w] getNode_read mo_part_def)
  moreover have "rmw_chained acts (getNode acts w g)" using wf by (simp add: rmw_chained_def getNode_read mo_part_def)
  moreover have "seq_number (acts n) \<noteq> 0 \<and> seq_number (acts n) \<le> clk (getNode acts w g) n (a_tid (acts n))"
    if "n \<in> insert w (dom g)" for n
    using that wf new by (auto simp: new_clock [OF w] mo_part_def newcomer_def)
  ultimately show ?thesis using wf by (simp add: mo_part_def getNode_linked getNode_read(4))
qed

text \<open>What is below a clock of a graph that has grown from one with a new node.\<close>

lemma new_node_sound:
  assumes wf: "mo_part acts X g" and ex: "mo_sound acts P g" and new: "newcomer acts w g"
    and wfh: "mo_part acts Y h" and dom: "dom h = insert w (dom g)" and edge: "mo_edge h \<subseteq> P'"
    and path: "\<And>a b. (a, b) \<in> P\<^sup>* \<Longrightarrow> (a, b) \<in> P'\<^sup>*"
    and source: "\<And>n t. n \<in> dom h \<Longrightarrow> \<exists>m\<in>dom h. (m, n) \<in> (mo_edge h)\<^sup>* \<and> clk h n t = clk (getNode acts w g) m t"
    and own: "\<And>a. a \<in> dom g \<Longrightarrow> a_location (acts a) = a_location (acts w) \<Longrightarrow> a_tid (acts a) = a_tid (acts w) \<Longrightarrow>
      (a, w) \<in> P'\<^sup>*"
  shows "mo_sound acts P' h"
  unfolding mo_sound_def
proof (intro conjI edge ballI impI)
  fix a n assume a: "a \<in> dom h" and n: "n \<in> dom h" and loc: "a_location (acts a) = a_location (acts n)"
    and le: "seq_number (acts a) \<le> clk h n (a_tid (acts a))"
  have w: "w \<notin> dom g" and s: "seq_number (acts w) \<noteq> 0" using new by (simp_all add: newcomer_def)
  have nz: "seq_number (acts a) \<noteq> 0" using wfh a by (simp add: mo_part_def)
  obtain m where m: "m \<in> dom h" "(m, n) \<in> (mo_edge h)\<^sup>*"
    "seq_number (acts a) \<le> clk (getNode acts w g) m (a_tid (acts a))" using source [OF n] le by metis
  have lm: "a_location (acts a) = a_location (acts m)" using same_location [OF wfh m(2)] loc by simp
  have "(a, m) \<in> P'\<^sup>*"
  proof (cases "m = w")
    case True
    with m(3) nz have "a_tid (acts a) = a_tid (acts w)" by (auto simp: new_clock [OF w] split: if_splits)
    with True lm a dom own show ?thesis by (cases "a = w") auto
  next
    case False
    then have mg: "m \<in> dom g" and le': "seq_number (acts a) \<le> clk g m (a_tid (acts a))"
      using m(1,3) dom by (simp_all add: new_clock [OF w])
    then have "a \<noteq> w" using new lm by (auto simp: newcomer_def not_less)
    with a dom have "a \<in> dom g" by simp
    with ex mg lm le' show ?thesis by (intro path sound_path)
  qed
  moreover have "(m, n) \<in> P'\<^sup>*" using m(2) rtrancl_mono [OF edge] by blast
  ultimately show "(a, n) \<in> P'\<^sup>*" by simp
qed


section \<open>A new store behind others\<close>

text \<open>An edge that is added, or left out because the clocks know it.\<close>

lemma cg_addEdge_sound:
  assumes wf: "mo_part acts X g" and ex: "mo_sound acts P g" and a: "a \<in> dom g" and b: "b \<in> dom g"
    and loc: "a_location (acts a) = a_location (acts b)"
  shows "\<exists>h. cg_addEdge acts a b f g = Inr h \<and> mo_part acts X h \<and> mo_sound acts (P \<union> mo_edge h) h \<and> grown b g h \<and>
    (a, b) \<in> (P \<union> mo_edge h)\<^sup>*"
proof -
  from addNodeEdge_result [OF wf a b loc, of f] obtain h where h: "addNodeEdge acts a b f g = Inr h" "mo_part acts X h"
    "grown b g h" "(a, b) \<in> (mo_edge h)\<^sup>* \<or> seq_number (acts a) \<le> clk g b (a_tid (acts a))" by blast
  let ?P = "P \<union> mo_edge h"
  have d: "dom h = dom g" using h(3) by (simp add: grown_def)
  have up: "p \<in> P\<^sup>* \<Longrightarrow> p \<in> ?P\<^sup>*" "p \<in> (mo_edge h)\<^sup>* \<Longrightarrow> p \<in> ?P\<^sup>*" for p
    using rtrancl_mono [of P ?P] rtrancl_mono [of "mo_edge h" ?P] by auto
  have "mo_sound acts ?P h" unfolding mo_sound_def
  proof (intro conjI ballI impI)
    fix x n assume x: "x \<in> dom h" and n: "n \<in> dom h" and l: "a_location (acts x) = a_location (acts n)"
      and le: "seq_number (acts x) \<le> clk h n (a_tid (acts x))"
    obtain m where m: "m \<in> dom g" "(m, n) \<in> (mo_edge h)\<^sup>*" "clk h n (a_tid (acts x)) = clk g m (a_tid (acts x))"
      using h(3) n d unfolding grown_def by blast
    have "(x, m) \<in> P\<^sup>*"
      by (rule sound_path [OF ex]) (use x d m le l same_location [OF h(2) m(2)] in auto)
    with up m(2) show "(x, n) \<in> ?P\<^sup>*" by (meson rtrancl_trans)
  qed simp
  moreover have "(a, b) \<in> ?P\<^sup>*" using h(4) sound_path [OF ex a b loc] up by blast
  ultimately show ?thesis using h(1-3) a b by (simp add: cg_addEdge_def)
qed

lemma grown_edges: "grown w g h \<Longrightarrow> mo_edge g \<union> mo_edge h = mo_edge h"
  by (auto simp: grown_def)

lemma cg_addEdge_result:
  assumes wf: "mo_wf acts g" and ex: "mo_exact acts g" and a: "a \<in> dom g" and b: "b \<in> dom g"
    and loc: "a_location (acts a) = a_location (acts b)"
  shows "\<exists>h. cg_addEdge acts a b f g = Inr h \<and> mo_wf acts h \<and> mo_exact acts h \<and> grown b g h \<and>
    (a, b) \<in> (mo_edge h)\<^sup>*"
  using cg_addEdge_sound [OF wf ex [unfolded mo_exact_def] a b loc, of f] grown_edges [of b g]
  by (auto simp: mo_exact_def)

lemma prune_behind_result:
  assumes wf: "mo_part acts X g" and ex: "mo_sound acts P g" and a: "a \<in> dom g"
    and bs: "\<forall>b\<in>set bs. b \<in> dom g \<and> a_location (acts b) = a_location (acts a)"
  shows "\<exists>er cs. prune_behind acts a bs g = Inr (er, cs, g) \<and> set cs \<subseteq> set bs \<and>
    (\<forall>b\<in>set bs. b \<in> set cs \<or> (b, a) \<in> P\<^sup>*) \<and> (er \<longrightarrow> (\<exists>c\<in>set cs. (a, c) \<in> P\<^sup>*))"
  using bs
proof (induction bs)
  case (Cons b bs)
  then have b: "b \<in> dom g" and l: "a_location (acts b) = a_location (acts a)" by auto
  note r = checkReachable_clock [OF wf a b] checkReachable_clock [OF wf b a]
  note p = sound_path [OF ex a b l [symmetric]] sound_path [OF ex b a l]
  from Cons obtain er cs where ih: "prune_behind acts a bs g = Inr (er, cs, g)" "set cs \<subseteq> set bs"
    "\<forall>b\<in>set bs. b \<in> set cs \<or> (b, a) \<in> P\<^sup>*" "er \<longrightarrow> (\<exists>c\<in>set cs. (a, c) \<in> P\<^sup>*)" by auto
  let ?ab = "seq_number (acts a) \<le> clk g b (a_tid (acts a))" let ?ba = "seq_number (acts b) \<le> clk g a (a_tid (acts b))"
  consider "?ab" | "\<not> ?ab" "?ba" | "\<not> ?ab" "\<not> ?ba" by blast
  then show ?case
  proof cases
    case 1
    then have "prune_behind acts a (b # bs) g = Inr (True, b # bs, g)" using b by (simp add: r)
    with p(1) [OF 1] show ?thesis by auto
  next
    case 2
    then have "prune_behind acts a (b # bs) g = Inr (er, cs, g)" using b ih(1) by (simp add: r)
    with p(2) [OF 2(2)] ih(2-4) show ?thesis by auto
  next
    case 3
    then have "prune_behind acts a (b # bs) g = Inr (er, b # cs, g)" using b ih(1) by (simp add: r)
    with ih(2-4) show ?thesis by auto
  qed
next
  case Nil
  show ?case by (rule exI [of _ False]) simp
qed

lemma prune_edges_result:
  assumes wf: "mo_part acts X g" and ex: "mo_sound acts P g"
    and as: "\<forall>a\<in>set as. a \<in> dom g \<and> a_location (acts a) = l"
  shows "\<exists>cs. prune_edges acts as g = Inr (cs, g) \<and> set cs \<subseteq> set as \<and>
    (\<forall>a\<in>set as. \<exists>c\<in>set cs. (a, c) \<in> P\<^sup>*)"
  using as
proof (induction "length as" arbitrary: as rule: less_induct)
  case less
  show ?case
  proof (cases as)
    case (Cons a bs)
    with less.prems have a: "a \<in> dom g" and
      bs: "\<forall>b\<in>set bs. b \<in> dom g \<and> a_location (acts b) = a_location (acts a)" by auto
    from prune_behind_result [OF wf ex a bs] obtain er cs where p: "prune_behind acts a bs g = Inr (er, cs, g)"
      "set cs \<subseteq> set bs" "\<forall>b\<in>set bs. b \<in> set cs \<or> (b, a) \<in> P\<^sup>*"
      "er \<longrightarrow> (\<exists>c\<in>set cs. (a, c) \<in> P\<^sup>*)" by blast
    have "length cs < length as" using prune_behind_length [OF p(1)] Cons by simp
    moreover have "\<forall>c\<in>set cs. c \<in> dom g \<and> a_location (acts c) = l" using less.prems p(2) Cons by auto
    ultimately obtain ds where d: "prune_edges acts cs g = Inr (ds, g)" "set ds \<subseteq> set cs"
      "\<forall>c\<in>set cs. \<exists>d\<in>set ds. (c, d) \<in> P\<^sup>*" using less.hyps by blast
    let ?r = "if er then ds else a # ds"
    have "prune_edges acts as g = Inr (?r, g)" using Cons a p(1) d(1) by simp
    moreover have "set ?r \<subseteq> set as" using Cons p(2) d(2) by auto
    moreover have ar: "\<exists>d\<in>set ?r. (a, d) \<in> P\<^sup>*"
    proof (cases er)
      case True
      with p(4) obtain c where c: "c \<in> set cs" "(a, c) \<in> P\<^sup>*" by blast
      with d(3) True show ?thesis by (auto dest!: bspec intro: rtrancl_trans)
    qed simp
    moreover have "\<exists>d\<in>set ?r. (b, d) \<in> P\<^sup>*" if b: "b \<in> set bs" for b
    proof (cases "b \<in> set cs")
      case True
      with d(3) show ?thesis by auto
    next
      case False
      with p(3) b have "(b, a) \<in> P\<^sup>*" by blast
      with ar show ?thesis by (blast intro: rtrancl_trans)
    qed
    ultimately show ?thesis using Cons by (intro exI [of _ ?r]) auto
  qed simp
qed

text \<open>The edges to a new store; one from the store's own thread is forced.\<close>

lemma add_to_new:
  assumes wf: "mo_part acts X g" and ex: "mo_sound acts P g" and new: "newcomer acts w g"
    and h: "mo_part acts X h" "grown w (getNode acts w g) h"
    and a: "a \<in> dom g" and loc: "a_location (acts a) = a_location (acts w)"
  shows "\<exists>k. cg_addEdge acts a w (a_tid (acts a) = a_tid (acts w)) h = Inr k \<and> mo_part acts X k \<and>
    grown w (getNode acts w g) k \<and> grown w h k \<and> (a, w) \<in> (P \<union> mo_edge k)\<^sup>*"
proof -
  have w: "w \<notin> dom g" using new by (simp add: newcomer_def)
  have d: "dom h = insert w (dom g)" using h(2) by (simp add: grown_def)
  let ?f = "a_tid (acts a) = a_tid (acts w)"
  have aw: "a \<in> dom h" "w \<in> dom h" using a d by auto
  from addNodeEdge_result [OF h(1) aw loc, of ?f] obtain k where k: "addNodeEdge acts a w ?f h = Inr k"
    "mo_part acts X k" "grown w h k"
    "(a, w) \<in> (mo_edge k)\<^sup>* \<or> \<not> ?f \<and> seq_number (acts a) \<le> clk h w (a_tid (acts a))" by blast
  let ?P = "P \<union> mo_edge k"
  have up: "p \<in> P\<^sup>* \<Longrightarrow> p \<in> ?P\<^sup>*" "p \<in> (mo_edge k)\<^sup>* \<Longrightarrow> p \<in> ?P\<^sup>*" for p
    using rtrancl_mono [of P ?P] rtrancl_mono [of "mo_edge k" ?P] by auto
  have "(a, w) \<in> ?P\<^sup>*"
  proof (cases "(a, w) \<in> (mo_edge k)\<^sup>*")
    case False
    with k(4) have f: "\<not> ?f" and le: "seq_number (acts a) \<le> clk h w (a_tid (acts a))" by auto
    obtain m where m: "m \<in> insert w (dom g)" "(m, w) \<in> (mo_edge h)\<^sup>*"
      "clk h w (a_tid (acts a)) = clk (getNode acts w g) m (a_tid (acts a))"
      using h(2) unfolding grown_def by (metis getNode_dom insertI1)
    have "seq_number (acts a) \<noteq> 0" using wf a by (simp add: mo_part_def)
    with f le m(3) have "m \<noteq> w" by (auto simp: new_clock [OF w] split: if_splits)
    with m(1,3) le have "m \<in> dom g" "seq_number (acts a) \<le> clk g m (a_tid (acts a))"
      by (simp_all add: new_clock [OF w])
    moreover have "a_location (acts a) = a_location (acts m)" using same_location [OF h(1) m(2)] loc by simp
    ultimately have "(a, m) \<in> P\<^sup>*" using sound_path [OF ex a] by blast
    moreover have "(m, w) \<in> (mo_edge k)\<^sup>*" by (rule grown_path [OF k(3) m(2)])
    ultimately show ?thesis using up by (meson rtrancl_trans)
  qed (rule up(2))
  then show ?thesis using k(1-3) aw grown_trans [OF h(2) k(3)] by (intro exI [of _ k]) (simp add: cg_addEdge_def)
qed


lemma foldR_add_to_new:
  assumes wf: "mo_part acts X g" and ex: "mo_sound acts P g" and new: "newcomer acts w g"
    and as: "\<forall>a\<in>set as. a \<in> dom g \<and> a_location (acts a) = a_location (acts w)"
    and h: "mo_part acts X h" "grown w (getNode acts w g) h"
  shows "\<exists>k. foldR (\<lambda>a. cg_addEdge acts a w (a_tid (acts a) = a_tid (acts w))) as h = Inr k \<and> mo_part acts X k \<and>
    grown w (getNode acts w g) k \<and> grown w h k \<and> (\<forall>a\<in>set as. (a, w) \<in> (P \<union> mo_edge k)\<^sup>*)"
  using as h
proof (induction as arbitrary: h)
  case (Cons a as)
  then have a: "a \<in> dom g" "a_location (acts a) = a_location (acts w)" by auto
  from add_to_new [OF wf ex new Cons.prems(2,3) a] obtain k where k:
    "cg_addEdge acts a w (a_tid (acts a) = a_tid (acts w)) h = Inr k" "mo_part acts X k"
    "grown w (getNode acts w g) k" "grown w h k" "(a, w) \<in> (P \<union> mo_edge k)\<^sup>*" by blast
  obtain l where l: "foldR (\<lambda>a. cg_addEdge acts a w (a_tid (acts a) = a_tid (acts w))) as k = Inr l" "mo_part acts X l"
    "grown w (getNode acts w g) l" "grown w k l" "\<forall>a\<in>set as. (a, w) \<in> (P \<union> mo_edge l)\<^sup>*"
    using Cons.IH [OF _ k(2,3)] Cons.prems(1) by auto
  have "P \<union> mo_edge k \<subseteq> P \<union> mo_edge l" using l(4) by (auto simp: grown_def)
  from rtrancl_mono [OF this] k(5) have "(a, w) \<in> (P \<union> mo_edge l)\<^sup>*" by blast
  with k(1) l grown_trans [OF k(4) l(4)] show ?case by (intro exI [of _ l]) simp
qed simp

text \<open>What the execution owes a call of \<open>addEdges\<close>: the stores are of the location, and every earlier store of
  the thread is one of them or ordered before one of them.\<close>

definition stands_for :: "(nat \<Rightarrow> action) \<Rightarrow> (nat \<times> nat) set \<Rightarrow> nat list \<Rightarrow> nat \<Rightarrow> cycle_graph \<Rightarrow> bool" where
  "stands_for acts P es w g \<longleftrightarrow> (\<forall>e\<in>set es. e \<in> dom g \<and> a_location (acts e) = a_location (acts w)) \<and>
     (\<forall>n\<in>dom g. a_location (acts n) = a_location (acts w) \<longrightarrow> a_tid (acts n) = a_tid (acts w) \<longrightarrow>
        (\<exists>e\<in>set es. (n, e) \<in> P\<^sup>*))"

definition covers :: "(nat \<Rightarrow> action) \<Rightarrow> nat list \<Rightarrow> nat \<Rightarrow> cycle_graph \<Rightarrow> bool" where
  "covers acts es w g \<longleftrightarrow> stands_for acts (mo_edge g) es w g"

lemma addEdges_sound:
  assumes wf: "mo_part acts X g" and ex: "mo_sound acts P g" and new: "newcomer acts w g"
    and cov: "stands_for acts P es w g" and ne: "es \<noteq> []"
  shows "\<exists>h. addEdges acts es w g = Inr h \<and> mo_part acts X h \<and> mo_sound acts (P \<union> mo_edge h) h \<and>
    grown w (getNode acts w g) h \<and> (\<forall>e\<in>set es. (e, w) \<in> (P \<union> mo_edge h)\<^sup>*)"
proof -
  have w: "w \<notin> dom g" using new by (simp add: newcomer_def)
  have es: "\<forall>e\<in>set es. e \<in> dom g \<and> a_location (acts e) = a_location (acts w)" using cov by (simp add: stands_for_def)
  from prune_edges_result [OF wf ex es] obtain cs where c: "prune_edges acts es g = Inr (cs, g)" "set cs \<subseteq> set es"
    "\<forall>a\<in>set es. \<exists>c\<in>set cs. (a, c) \<in> P\<^sup>*" by blast
  let ?add = "\<lambda>a. cg_addEdge acts a w (a_tid (acts a) = a_tid (acts w))"
  have cs: "\<forall>a\<in>set cs. a \<in> dom g \<and> a_location (acts a) = a_location (acts w)" using es c(2) by auto
  have wf1: "mo_part acts X (getNode acts w g)" by (rule new_node_wf [OF wf new])
  from foldR_add_to_new [OF wf ex new cs wf1 grown_refl] obtain h where
    h: "foldR ?add cs (getNode acts w g) = Inr h" "mo_part acts X h" "grown w (getNode acts w g) h"
      "\<forall>a\<in>set cs. (a, w) \<in> (P \<union> mo_edge h)\<^sup>*" by blast
  have "cs \<noteq> []" using c(3) ne by (cases es) auto
  then obtain a as where a: "cs = a # as" "a \<in> dom g" using cs by (cases cs) auto
  then have "?add a g = ?add a (getNode acts w g)" using w by (simp add: cg_addEdge_def)
  then have eq: "addEdges acts es w g = Inr h" using h(1) a c(1) by (simp add: addEdges_def)
  have dom: "dom h = insert w (dom g)" using h(3) by (simp add: grown_def)
  have path: "p \<in> (P \<union> mo_edge h)\<^sup>*" if "p \<in> P\<^sup>*" for p
    using that rtrancl_mono [of P "P \<union> mo_edge h"] by auto
  have ew: "(e, w) \<in> (P \<union> mo_edge h)\<^sup>*" if "e \<in> set es" for e
    using c(3) h(4) path that by (blast intro: rtrancl_trans)
  have "mo_sound acts (P \<union> mo_edge h) h"
  proof (rule new_node_sound [OF wf ex new h(2) dom _ path])
    fix n t assume "n \<in> dom h"
    then show "\<exists>m\<in>dom h. (m, n) \<in> (mo_edge h)\<^sup>* \<and> clk h n t = clk (getNode acts w g) m t"
      by (rule grown_source [OF h(3)])
  next
    fix a assume "a \<in> dom g" "a_location (acts a) = a_location (acts w)" "a_tid (acts a) = a_tid (acts w)"
    then obtain e where "e \<in> set es" "(a, e) \<in> P\<^sup>*" using cov by (auto simp: stands_for_def)
    then show "(a, w) \<in> (P \<union> mo_edge h)\<^sup>*" using path ew by (blast intro: rtrancl_trans)
  qed simp
  with eq h(2,3) ew show ?thesis by blast
qed

lemma addEdges_result:
  assumes wf: "mo_wf acts g" and ex: "mo_exact acts g" and new: "newcomer acts w g" and cov: "covers acts es w g"
    and ne: "es \<noteq> []"
  shows "\<exists>h. addEdges acts es w g = Inr h \<and> mo_wf acts h \<and> mo_exact acts h \<and> grown w (getNode acts w g) h \<and>
    (\<forall>e\<in>set es. (e, w) \<in> (mo_edge h)\<^sup>*)"
  using addEdges_sound [OF wf ex [unfolded mo_exact_def] new cov [unfolded covers_def] ne]
    grown_edges [of w "getNode acts w g"]
  by (auto simp: mo_exact_def getNode_read)

text \<open>A store with nothing before it gets its node when the graph first needs it.\<close>

lemma create_sound:
  assumes wf: "mo_part acts X g" and ex: "mo_sound acts P g" and new: "newcomer acts w g"
    and cov: "stands_for acts P [] w g"
  shows "mo_part acts X (getNode acts w g)" "mo_sound acts P (getNode acts w g)"
proof -
  show wf1: "mo_part acts X (getNode acts w g)" by (rule new_node_wf [OF wf new])
  show "mo_sound acts P (getNode acts w g)"
  proof (rule new_node_sound [OF wf ex new wf1])
    fix n t assume "n \<in> dom (getNode acts w g)"
    then show "\<exists>m\<in>dom (getNode acts w g). (m, n) \<in> (mo_edge (getNode acts w g))\<^sup>* \<and>
        clk (getNode acts w g) n t = clk (getNode acts w g) m t" by blast
  qed (use cov ex in \<open>auto simp: getNode_read stands_for_def mo_sound_def\<close>)
qed

lemma create_result:
  assumes wf: "mo_wf acts g" and ex: "mo_exact acts g" and new: "newcomer acts w g" and cov: "covers acts [] w g"
  shows "mo_wf acts (getNode acts w g)" "mo_exact acts (getNode acts w g)"
  using create_sound [OF wf ex [unfolded mo_exact_def] new cov [unfolded covers_def]]
  by (simp_all add: mo_exact_def getNode_read)


section \<open>A RMW behind the store it reads from\<close>

lemma remove_swap_absent:
  assumes "x \<notin> set xs" shows "remove_swap x xs = xs"
proof -
  have "length (takeWhile (\<lambda>y. y \<noteq> x) xs) = length xs"
    using assms by (subst takeWhile_eq_all_conv [THEN iffD2]) auto
  then show ?thesis by (simp add: remove_swap_def)
qed

lemma remove_swap_set:
  assumes "distinct xs" shows "set (remove_swap x xs) = set xs - {x} \<and> distinct (remove_swap x xs)"
proof (cases "x \<in> set xs")
  case True
  then obtain us vs where xs: "xs = us @ x # vs" "x \<notin> set us" by (meson split_list_first)
  have i: "length (takeWhile (\<lambda>y. y \<noteq> x) xs) = length us"
    using xs by (subst xs(1), subst takeWhile_append2) auto
  show ?thesis
  proof (cases vs rule: rev_cases)
    case Nil
    then have "remove_swap x xs = us" unfolding remove_swap_def Let_def i using xs by (simp add: butlast_append)
    then show ?thesis using xs assms Nil by auto
  next
    case (snoc ws w)
    then have "remove_swap x xs = us @ w # ws" unfolding remove_swap_def Let_def i
      using xs by (simp add: butlast_append)
    then show ?thesis using xs assms snoc by auto
  qed
qed (simp add: remove_swap_absent assms)

text \<open>Moving the edges of \<open>from\<close>.  In between, a moved target no longer lists \<open>from\<close>, which still lists it.\<close>

lemma transfer_result:
  assumes g: "linked g" and a: "a \<in> dom g" and r: "r \<in> dom g" and ar: "a \<noteq> r"
    and fresh: "succs g r = []" "preds g r = []"
    and ds: "distinct ds" "set ds \<subseteq> set (succs g a)"
  shows "\<exists>h. foldR (transfer_edge a r) ds g = Inr h \<and> dom h = dom g \<and> clk h = clk g \<and> rmw_of h = rmw_of g \<and>
    succs h = (succs g)(r := ds) \<and> (\<forall>m. distinct (preds h m) \<and>
      set (preds h m) = (if m \<in> set ds then insert r (set (preds g m) - {a}) else set (preds g m)))"
  using ds
proof (induction ds rule: rev_induct)
  case Nil
  then show ?case using g fresh by (auto simp: linked_def)
next
  case (snoc d ds)
  then have "distinct ds" "set ds \<subseteq> set (succs g a)" by auto
  from snoc.IH [OF this] obtain h where h: "foldR (transfer_edge a r) ds g = Inr h" "dom h = dom g" "clk h = clk g"
    "rmw_of h = rmw_of g" "succs h = (succs g)(r := ds)"
    "\<And>m. distinct (preds h m)"
    "\<And>m. set (preds h m) = (if m \<in> set ds then insert r (set (preds g m) - {a}) else set (preds g m))" by blast
  have ad: "(a, d) \<in> mo_edge g" using snoc.prems by (simp add: mo_edge_def)
  have d: "d \<in> dom h" using linked_dom(2) [OF g ad] h(2) by simp
  have dr: "d \<noteq> r" using g ad fresh(2) by (auto simp: linked_def mo_edge_def)
  have "d \<notin> set (succs h r)" using snoc.prems h(5) by simp
  moreover have "r \<in> dom h" using r h(2) by simp
  ultimately obtain k where k: "node_addEdge r d h = Inr k" "dom k = dom h" "clk k = clk h" "rmw_of k = rmw_of h"
    "succs k = (succs h)(r := succs h r @ [d])" "preds k = (preds h)(d := preds h d @ [r])"
    using node_addEdge_new [of r h d] d by metis
  define l where "l = k(d \<mapsto> removeInEdge a (the (k d)))"
  have dk: "d \<in> dom k" using d k(2) by simp
  have rl: "clk l = clk k" "succs l = succs k" "rmw_of l = rmw_of k"
    "preds l = (preds k)(d := remove_swap a (preds k d))" "dom l = dom k"
    using dk by (auto simp: l_def graph_simps removeInEdge_def)
  have "foldR (transfer_edge a r) (ds @ [d]) g = Inr l"
    using h(1) k(1) dk dr by (simp add: foldR_append transfer_edge_def with_node_def l_def)
  moreover have "r \<notin> set (preds g d)"
    using g fresh(1) unfolding linked_def by (metis empty_iff list.set(1))
  then have dp: "distinct (preds h d @ [r])" using h(6,7) [of d] snoc.prems by auto
  have "distinct (preds l m) \<and>
      set (preds l m) = (if m \<in> set (ds @ [d]) then insert r (set (preds g m) - {a}) else set (preds g m))" for m
  proof (cases "m = d")
    case True
    then show ?thesis using remove_swap_set [OF dp, of a] h(7) [of d] snoc.prems ar by (auto simp: rl(4) k(6))
  next
    case False
    then show ?thesis using h(6,7) [of m] by (simp add: rl(4) k(6))
  qed
  ultimately show ?case using h(2-5) k rl by (intro exI [of _ l]) auto
qed


text \<open>The RMW is about to get its node, everything of its thread is at or before the store it reads from, and it
  learns something from that store unless no edge is moved.\<close>

definition rmw_contract :: "(nat \<Rightarrow> action) \<Rightarrow> nat \<Rightarrow> nat \<Rightarrow> cycle_graph \<Rightarrow> bool" where
  "rmw_contract acts from r g \<longleftrightarrow> newcomer acts r g \<and> covers acts [from] r g \<and> rmw_of g from = None \<and>
     seq_number (acts from) < seq_number (acts r) \<and>
     (succs g from = [] \<or> (\<exists>t. t \<noteq> a_tid (acts r) \<and> clk g from t \<noteq> 0))"

text \<open>The graph before the edge itself is added.\<close>

lemma addRMWEdge_prepared:
  assumes wf: "mo_part acts X g" and a: "a \<in> dom g" and r: "r \<notin> dom g" and none: "rmw_of g a = None"
  obtains h where "addRMWEdge acts a r g = addNodeEdge acts a r True h" and "dom h = insert r (dom g)" and "linked h"
    and "clk h = clk (getNode acts r g)" and "rmw_of h = (rmw_of g)(a := Some r)"
    and "succs h = (succs g)(a := [], r := succs g a)"
proof -
  define g1 where "g1 = getNode acts r g"
  define g2 where "g2 = g1(a \<mapsto> (the (g1 a))\<lparr>hasRMW := Some r\<rparr>)"
  have l: "linked g1" using wf by (simp add: g1_def mo_part_def getNode_linked)
  have ar: "a \<noteq> r" using a r by auto
  have d1: "dom g1 = insert r (dom g)" by (simp add: g1_def)
  have d2: "dom g2 = insert r (dom g)" using a d1 by (auto simp: g2_def)
  have a1: "a \<in> dom g1" using a d1 by simp
  have r2: "clk g2 = clk g1" "succs g2 = succs g" "preds g2 = preds g" "rmw_of g2 = (rmw_of g)(a := Some r)"
    using a1 by (auto simp: g2_def graph_simps g1_def getNode_read)
  have l2: "linked g2" using l by (simp add: linked_def d2 d1 r2 g1_def getNode_read)
  have ds: "distinct (succs g a)" "set (succs g a) \<subseteq> set (succs g2 a)"
    using wf by (simp_all add: mo_part_def linked_def r2)
  have fresh: "succs g2 r = []" "preds g2 r = []" using r by (simp_all add: r2 read_none)
  have ra: "a \<in> dom g2" "r \<in> dom g2" using a d2 by auto
  from transfer_result [OF l2 ra ar fresh ds] obtain k where k:
    "foldR (transfer_edge a r) (succs g a) g2 = Inr k" "dom k = dom g2" "clk k = clk g2" "rmw_of k = rmw_of g2"
    "succs k = (succs g2)(r := succs g a)"
    "\<And>m. distinct (preds k m)"
    "\<And>m. set (preds k m) = (if m \<in> set (succs g a) then insert r (set (preds g2 m) - {a}) else set (preds g2 m))"
    by blast
  define h where "h = k(a \<mapsto> (the (k a))\<lparr>edges := []\<rparr>)"
  have ak: "a \<in> dom k" using a k(2) d2 by simp
  have rh: "clk h = clk k" "succs h = (succs k)(a := [])" "preds h = preds k" "rmw_of h = rmw_of k" "dom h = dom k"
    using ak by (auto simp: h_def graph_simps)
  have sh: "succs h = (succs g)(a := [], r := succs g a)" using ar by (auto simp: rh k(5) r2 fun_eq_iff)
  have rp: "r \<notin> set (preds g m)" "r \<notin> set (succs g m)" for m
    using wf linked_dom [of g r m] linked_dom [of g m r] r
    by (auto simp: mo_part_def mo_edge_def linked_def)
  have lg: "\<And>n m. m \<in> set (succs g n) \<longleftrightarrow> n \<in> set (preds g m)" using wf by (simp add: mo_part_def linked_def)
  have "linked h"
  proof -
    have "distinct (succs h n)" for n using wf by (simp add: sh mo_part_def linked_def)
    moreover have "m \<in> set (succs h n) \<longleftrightarrow> n \<in> set (preds h m)" for n m
      using rp ar by (auto simp: sh rh(3) k(7) r2(3) lg split: if_splits)
    moreover have "finite (dom h)" using l2 by (simp add: rh k(2) linked_def)
    ultimately show ?thesis using k(6) by (simp add: linked_def rh(3))
  qed
  have ga: "getNode acts a g = g" using a by simp
  have "setRMW r (the (g1 a)) = ((the (g1 a))\<lparr>hasRMW := Some r\<rparr>, False)"
    using a1 none by (simp add: setRMW_def g1_def getNode_read)
  then have "addRMWEdge acts a r g = addNodeEdge acts a r True h"
    using a1 ra(1) ak k(1) r2(2) by (simp add: addRMWEdge_def ga g1_def [symmetric] with_node_def g2_def [symmetric] h_def)
  then show thesis
    by (rule that) (use rh k r2 d2 \<open>linked h\<close> sh in \<open>simp_all add: g1_def\<close>)
qed


text \<open>The edges that a RMW takes over while it learns nothing from the store it reads from.\<close>

definition unspread :: "(nat \<Rightarrow> action) \<Rightarrow> nat \<Rightarrow> nat \<Rightarrow> cycle_graph \<Rightarrow> (nat \<times> nat) set" where
  "unspread acts from r g =
     (if \<exists>t. t \<noteq> a_tid (acts r) \<and> clk g from t \<noteq> 0 then {} else {r} \<times> set (succs g from))"

lemma addRMWEdge_part:
  assumes wf: "mo_part acts X g" and new: "newcomer acts r g" and a: "a \<in> dom g"
    and loc: "a_location (acts a) = a_location (acts r)" and none: "rmw_of g a = None"
    and seq: "seq_number (acts a) < seq_number (acts r)"
  obtains h where "addRMWEdge acts a r g = Inr h" and "mo_part acts (X \<union> unspread acts a r g) h"
    and "dom h = insert r (dom g)" and "rmw_of h = (rmw_of g)(a := Some r)"
    and "succs h = (succs g)(a := [r], r := succs g a)"
    and "\<forall>n t. clk (getNode acts r g) n t \<le> clk h n t"
    and "\<forall>n\<in>dom h. \<forall>t. \<exists>m\<in>dom h. (m, n) \<in> (mo_edge h)\<^sup>* \<and> clk h n t = clk (getNode acts r g) m t"
proof -
  let ?Y = "X \<union> unspread acts a r g"
  have r: "r \<notin> dom g" using new by (simp add: newcomer_def)
  have ar: "a \<noteq> r" using a r by auto
  obtain k where k: "addRMWEdge acts a r g = addNodeEdge acts a r True k" "dom k = insert r (dom g)" "linked k"
    "clk k = clk (getNode acts r g)" "rmw_of k = (rmw_of g)(a := Some r)"
    "succs k = (succs g)(a := [], r := succs g a)" using addRMWEdge_prepared [OF wf a r none] .
  have rg: "n \<noteq> r \<and> m \<noteq> r" if "(n, m) \<in> mo_edge g" for n m
    using that linked_dom [of g n m] wf r by (auto simp: mo_part_def)
  have ek: "(n, m) \<in> mo_edge k \<longleftrightarrow> (n \<noteq> a \<and> (n, m) \<in> mo_edge g) \<or> (n = r \<and> (a, m) \<in> mo_edge g)" for n m
    using rg [of n m] ar by (auto simp: mo_edge_def k(6))
  have ak: "a \<in> dom k" "r \<in> dom k" using a k(2) by auto
  have ready: "settled ?Y {r} k"
    using wf rg by (auto simp: settled_def ek k(4) new_clock [OF r] mo_part_def)
  have learns: "(\<exists>t. clk k r t < clk k a t) \<or> settled ?Y {} k"
  proof (cases "\<exists>t. t \<noteq> a_tid (acts r) \<and> clk g a t \<noteq> 0")
    case True
    then obtain t where "t \<noteq> a_tid (acts r)" "clk g a t \<noteq> 0" by blast
    then have "clk k r t < clk k a t" using ar by (simp add: k(4) new_clock [OF r] word_gt_0)
    then show ?thesis by blast
  next
    case False
    then have "unspread acts a r g = {r} \<times> set (succs g a)" unfolding unspread_def by (simp only: if_False)
    then have "(r, m) \<in> ?Y" if "(r, m) \<in> mo_edge k" for m using that by (simp add: mo_edge_def k(6))
    with ready show ?thesis by (auto simp: settled_def)
  qed
  from join_edge [OF k(3) ak ready learns] obtain h where h:
    "bindR (node_addEdge a r k) (spread_clock a r) = Inr h" "linked h" "settled ?Y {} h"
    "mo_edge h = insert (a, r) (mo_edge k)" "grown r k h"
    "succs h = (succs k)(a := if r \<in> set (succs k a) then succs k a else succs k a @ [r])" by metis
  have sh: "succs h = (succs g)(a := [r], r := succs g a)" using ar by (simp add: h(6) k(6) fun_upd_twist)
  obtain c where c: "k a = Some c" using ak by auto
  then have "hasRMW c = Some r" using fun_cong [OF k(5), of a] by (simp add: rmw_of_def)
  with c have "rmw_end k r a = Some (Inr a)" by (simp add: rmw_end.simps [of k r a])
  then have eq: "addRMWEdge acts a r g = Inr h"
    using h(1) ak by (simp add: k(1) addNodeEdge_def checkReachable_def ended_def)
  have dom: "dom h = insert r (dom g)" using h(5) k(2) by (simp add: grown_def)
  have rmw: "rmw_of h = (rmw_of g)(a := Some r)" using h(5) k(5) by (simp add: grown_def)
  have chained: "rmw_chained acts h" unfolding rmw_chained_def
  proof (intro allI impI)
    fix n m assume nm: "rmw_of h n = Some m"
    show "succs h n = [m] \<and> seq_number (acts n) < seq_number (acts m)"
    proof (cases "n = a")
      case True
      with nm show ?thesis using seq ar by (simp add: rmw sh)
    next
      case False
      then have g: "rmw_of g n = Some m" using nm by (simp add: rmw)
      then have "n \<noteq> r" using read_none(4) [OF r] by auto
      with False g show ?thesis using wf by (auto simp: mo_part_def rmw_chained_def sh)
    qed
  qed
  have le: "clk (getNode acts r g) n t \<le> clk h n t" for n t using h(5) by (simp add: grown_def k(4) [symmetric])
  have wfh: "mo_part acts ?Y h"
  proof -
    have "seq_number (acts n) \<noteq> 0 \<and> seq_number (acts n) \<le> clk h n (a_tid (acts n))" if "n \<in> dom h" for n
    proof -
      have wf1: "mo_part acts X (getNode acts r g)" by (rule new_node_wf [OF wf new])
      have "n \<in> dom (getNode acts r g)" using that dom by simp
      then have "seq_number (acts n) \<noteq> 0" "seq_number (acts n) \<le> clk (getNode acts r g) n (a_tid (acts n))"
        using wf1 unfolding mo_part_def by blast+
      with le show ?thesis by (blast intro: order_trans)
    qed
    moreover have "a_location (acts n) = a_location (acts m)" if "(n, m) \<in> mo_edge h" for n m
      using that wf loc by (auto simp: h(4) ek mo_part_def)
    ultimately show ?thesis using h(2,3) chained by (auto simp: mo_part_def)
  qed
  show thesis
    by (rule that [OF eq wfh dom rmw sh]) (use le grown_source [OF h(5)] k(4) in auto)
qed

text \<open>Paths survive when a RMW gets its place.\<close>

lemma rmw_keeps_paths:
  assumes l: "linked g" and r: "r \<notin> dom g" and s: "succs h = (succs g)(a := [r], r := succs g a)"
    and p: "(x, y) \<in> (mo_edge g)\<^sup>*"
  shows "(x, y) \<in> (mo_edge h)\<^sup>*"
proof -
  have edge: "(n, m) \<in> (mo_edge h)\<^sup>*" if nm: "(n, m) \<in> mo_edge g" for n m
  proof (cases "n = a")
    case True
    have "a \<noteq> r" using linked_dom(1) [OF l nm] r True by blast
    with nm True have "(a, r) \<in> mo_edge h" "(r, m) \<in> mo_edge h" by (simp_all add: mo_edge_def s)
    with True show ?thesis by (meson r_into_rtrancl rtrancl_into_rtrancl)
  next
    case False
    have "n \<noteq> r" using linked_dom(1) [OF l nm] r by blast
    with False nm have "(n, m) \<in> mo_edge h" by (simp add: mo_edge_def s)
    then show ?thesis ..
  qed
  show ?thesis using p by (induction rule: rtrancl_induct) (auto intro: rtrancl_trans dest: edge)
qed

lemma addRMWEdge_result:
  assumes wf: "mo_wf acts g" and ex: "mo_exact acts g" and con: "rmw_contract acts a r g"
  shows "\<exists>h. addRMWEdge acts a r g = Inr h \<and> mo_wf acts h \<and> mo_exact acts h \<and> dom h = insert r (dom g) \<and>
    rmw_of h = (rmw_of g)(a := Some r) \<and> succs h = (succs g)(a := [r], r := succs g a) \<and>
    (\<forall>n\<in>dom h. \<forall>t. \<exists>m\<in>dom h. (m, n) \<in> (mo_edge h)\<^sup>* \<and> clk h n t = clk (getNode acts r g) m t) \<and>
    (\<forall>x y. (x, y) \<in> (mo_edge g)\<^sup>* \<longrightarrow> (x, y) \<in> (mo_edge h)\<^sup>*)"
proof -
  have new: "newcomer acts r g" and cov: "covers acts [a] r g" and none: "rmw_of g a = None"
    and seq: "seq_number (acts a) < seq_number (acts r)"
    and learn: "succs g a = [] \<or> (\<exists>t. t \<noteq> a_tid (acts r) \<and> clk g a t \<noteq> 0)"
    using con by (simp_all add: rmw_contract_def)
  have r: "r \<notin> dom g" using new by (simp add: newcomer_def)
  have a: "a \<in> dom g" and loc: "a_location (acts a) = a_location (acts r)" using cov by (simp_all add: covers_def stands_for_def)
  have l: "linked g" using wf by (simp add: mo_part_def)
  obtain h where h: "addRMWEdge acts a r g = Inr h" "mo_part acts ({} \<union> unspread acts a r g) h"
    "dom h = insert r (dom g)" "rmw_of h = (rmw_of g)(a := Some r)" "succs h = (succs g)(a := [r], r := succs g a)"
    "\<forall>n\<in>dom h. \<forall>t. \<exists>m\<in>dom h. (m, n) \<in> (mo_edge h)\<^sup>* \<and> clk h n t = clk (getNode acts r g) m t"
    using addRMWEdge_part [OF wf new a loc none seq] by metis
  have "unspread acts a r g = {}" using learn by (auto simp: unspread_def)
  with h(2) have wfh: "mo_wf acts h" by simp
  have path: "(x, y) \<in> (mo_edge h)\<^sup>*" if "(x, y) \<in> (mo_edge g)\<^sup>*" for x y
    by (rule rmw_keeps_paths [OF l r h(5) that])
  have "a \<noteq> r" using a r by auto
  then have ar1: "(a, r) \<in> mo_edge h" by (simp add: mo_edge_def h(5))
  have src: "\<exists>m\<in>dom h. (m, n) \<in> (mo_edge h)\<^sup>* \<and> clk h n t = clk (getNode acts r g) m t" if "n \<in> dom h" for n t
    using h(6) that by blast
  have "mo_exact acts h" unfolding mo_exact_def
  proof (rule new_node_sound [OF wf ex [unfolded mo_exact_def] new wfh h(3) order_refl path src])
    fix x assume "x \<in> dom g" "a_location (acts x) = a_location (acts r)" "a_tid (acts x) = a_tid (acts r)"
    then have "(x, a) \<in> (mo_edge g)\<^sup>*" using cov by (auto simp: covers_def stands_for_def)
    from path [OF this] ar1 show "(x, r) \<in> (mo_edge h)\<^sup>*" by (rule rtrancl_into_rtrancl)
  qed
  with h(1,3-6) wfh path show ?thesis by blast
qed

section \<open>Freeing stores\<close>

lemma foldR_with_node:
  "distinct xs \<Longrightarrow> set xs \<subseteq> dom g \<Longrightarrow>
   foldR (\<lambda>x. with_node x f) xs g = Inr (\<lambda>n. if n \<in> set xs then map_option f (g n) else g n)"
proof (induction xs arbitrary: g)
  case (Cons x xs)
  then have x: "x \<in> dom g" "x \<notin> set xs" by auto
  have "foldR (\<lambda>x. with_node x f) xs (g(x \<mapsto> f (the (g x)))) =
      Inr (\<lambda>n. if n \<in> set xs then map_option f ((g(x \<mapsto> f (the (g x)))) n) else (g(x \<mapsto> f (the (g x)))) n)"
    by (rule Cons.IH) (use Cons.prems in auto)
  moreover have "(\<lambda>n. if n \<in> set xs then map_option f ((g(x \<mapsto> f (the (g x)))) n) else (g(x \<mapsto> f (the (g x)))) n) =
      (\<lambda>n. if n \<in> set (x # xs) then map_option f (g n) else g n)"
    using x by (auto simp: fun_eq_iff)
  moreover have "with_node x f g = Inr (g(x \<mapsto> f (the (g x))))" using x by (simp add: with_node_def)
  ultimately show ?case by simp
qed simp

lemma freeAction_result:
  assumes l: "linked g" and a: "a \<in> dom g"
  obtains h where "freeAction a g = Inr h" and "linked h" and "dom h = dom g - {a}" and "clk h = (clk g)(a := (\<lambda>_. 0))"
    and "rmw_of h = (rmw_of g)(a := None)" and "succs h = (\<lambda>n. if n = a then [] else remove_swap a (succs g n))"
proof -
  have ss: "\<And>n m. m \<in> set (succs g n) \<longleftrightarrow> n \<in> set (preds g m)" using l by (simp add: linked_def)
  have di: "\<And>n. distinct (succs g n)" "\<And>n. distinct (preds g n)" using l by (simp_all add: linked_def)
  have sd: "set (succs g a) \<subseteq> dom g" "set (preds g a) \<subseteq> dom g"
  proof -
    show "set (succs g a) \<subseteq> dom g"
    proof
      fix n assume "n \<in> set (succs g a)"
      then show "n \<in> dom g" by (intro linked_dom(2) [OF l, of a]) (simp add: mo_edge_def)
    qed
    show "set (preds g a) \<subseteq> dom g"
    proof
      fix n assume "n \<in> set (preds g a)"
      then show "n \<in> dom g" by (intro linked_dom(1) [OF l, of n a]) (simp add: mo_edge_def ss)
    qed
  qed
  define g1 where "g1 = (\<lambda>n. if n \<in> set (succs g a) then map_option (removeInEdge a) (g n) else g n)"
  define g2 where "g2 = (\<lambda>n. if n \<in> set (preds g a) then map_option (removeEdge a) (g1 n) else g1 n)"
  have d1: "dom g1 = dom g" by (auto simp: g1_def split: if_splits)
  have e1: "foldR (\<lambda>x. with_node x (removeInEdge a)) (succs g a) g = Inr g1"
    using foldR_with_node [OF di(1) sd(1), of "removeInEdge a"] by (simp add: g1_def)
  have "foldR (\<lambda>x. with_node x (removeEdge a)) (preds g a) g1 = Inr g2"
    using foldR_with_node [OF di(2), of a g1 "removeEdge a"] sd(2) d1 by (simp add: g2_def)
  then have eq: "freeAction a g = Inr (g2(a := None))" using a e1 by (simp add: freeAction_def)
  have "dom g2 = dom g1" by (auto simp: g2_def split: if_splits)
  then have d2: "dom g2 = dom g" using d1 by simp
  have r1: "clk g1 n = clk g n" "succs g1 n = succs g n" "rmw_of g1 n = rmw_of g n"
    "preds g1 n = remove_swap a (preds g n)" for n
  proof -
    show "clk g1 n = clk g n" "succs g1 n = succs g n" "rmw_of g1 n = rmw_of g n"
      by (cases "g n"; simp add: g1_def clk_def succs_def rmw_of_def removeInEdge_def)+
    show "preds g1 n = remove_swap a (preds g n)"
    proof (cases "n \<in> set (succs g a)")
      case True
      then show ?thesis using sd(1) by (cases "g n") (auto simp: g1_def preds_def removeInEdge_def)
    next
      case False
      then have "a \<notin> set (preds g n)" by (simp add: ss)
      then show ?thesis using False by (simp add: remove_swap_absent) (simp add: g1_def preds_def)
    qed
  qed
  have r2: "clk g2 n = clk g n" "preds g2 n = preds g1 n" "rmw_of g2 n = rmw_of g n"
    "succs g2 n = remove_swap a (succs g n)" for n
  proof -
    show "clk g2 n = clk g n" "rmw_of g2 n = rmw_of g n" "preds g2 n = preds g1 n"
      by (cases "g1 n"; simp add: g2_def clk_def preds_def rmw_of_def removeEdge_def
          flip: r1(1) [of n, unfolded clk_def] r1(3) [of n, unfolded rmw_of_def])+
    show "succs g2 n = remove_swap a (succs g n)"
    proof (cases "n \<in> set (preds g a)")
      case True
      then have "n \<in> dom g1" using sd(2) d1 by auto
      then show ?thesis using True r1(2) [of n] by (auto simp: g2_def succs_def removeEdge_def)
    next
      case False
      then have "a \<notin> set (succs g n)" by (simp add: ss)
      then show ?thesis using False r1(2) [of n] by (simp add: remove_swap_absent) (simp add: g2_def succs_def)
    qed
  qed
  have "linked (g2(a := None))"
    using l remove_swap_set [OF di(1), of a] remove_swap_set [OF di(2), of a] ss remove_swap_absent [of a]
    by (auto simp: linked_def d2 read_delete r1 r2)
  then show thesis
    by (rule that [OF eq]) (auto simp: d2 graph_simps r2 fun_eq_iff)
qed


text \<open>Stores are freed together with everything ordered before them.\<close>

definition ancestor_closed :: "nat list \<Rightarrow> cycle_graph \<Rightarrow> bool" where
  "ancestor_closed ds g \<longleftrightarrow> distinct ds \<and> set ds \<subseteq> dom g \<and>
     (\<forall>n m. (n, m) \<in> mo_edge g \<longrightarrow> m \<in> set ds \<longrightarrow> n \<in> set ds)"

lemma foldR_freeAction:
  assumes "linked g" and "distinct ds" and "set ds \<subseteq> dom g"
  shows "\<exists>h. foldR freeAction ds g = Inr h \<and> linked h \<and> dom h = dom g - set ds \<and>
    (\<forall>n. n \<notin> set ds \<longrightarrow> clk h n = clk g n \<and> rmw_of h n = rmw_of g n \<and>
      set (succs h n) = set (succs g n) - set ds \<and> (set (succs g n) \<inter> set ds = {} \<longrightarrow> succs h n = succs g n))"
  using assms
proof (induction ds arbitrary: g)
  case (Cons d ds)
  then have d: "d \<in> dom g" by simp
  obtain k where k: "freeAction d g = Inr k" "linked k" "dom k = dom g - {d}" "clk k = (clk g)(d := (\<lambda>_. 0))"
    "rmw_of k = (rmw_of g)(d := None)" "succs k = (\<lambda>n. if n = d then [] else remove_swap d (succs g n))"
    using freeAction_result [OF Cons.prems(1) d] .
  have "distinct ds" "set ds \<subseteq> dom k" using Cons.prems k(3) by auto
  from Cons.IH [OF k(2) this] obtain h where h: "foldR freeAction ds k = Inr h" "linked h"
    "dom h = dom k - set ds"
    "\<And>n. n \<notin> set ds \<Longrightarrow> clk h n = clk k n \<and> rmw_of h n = rmw_of k n \<and>
      set (succs h n) = set (succs k n) - set ds \<and> (set (succs k n) \<inter> set ds = {} \<longrightarrow> succs h n = succs k n)" by blast
  have "clk h n = clk g n \<and> rmw_of h n = rmw_of g n \<and> set (succs h n) = set (succs g n) - set (d # ds) \<and>
      (set (succs g n) \<inter> set (d # ds) = {} \<longrightarrow> succs h n = succs g n)" if n: "n \<notin> set (d # ds)" for n
  proof -
    have "distinct (succs g n)" using Cons.prems(1) by (simp add: linked_def)
    then have "set (succs k n) = set (succs g n) - {d}" using n remove_swap_set by (simp add: k(6))
    moreover have "succs k n = succs g n" if "d \<notin> set (succs g n)"
      using n that by (simp add: k(6) remove_swap_absent)
    moreover have "clk k n = clk g n" "rmw_of k n = rmw_of g n" using n by (simp_all add: k(4,5))
    ultimately show ?thesis using h(4) [of n] n by auto
  qed
  with h(1-3) k(1,3) show ?case by (intro exI [of _ h]) auto
qed simp

lemma free_result:
  assumes wf: "mo_wf acts g" and ex: "mo_exact acts g" and cl: "ancestor_closed ds g"
  shows "\<exists>h. foldR freeAction ds g = Inr h \<and> mo_wf acts h \<and> mo_exact acts h \<and> dom h = dom g - set ds \<and>
    (\<forall>a b. a \<in> dom h \<longrightarrow> b \<in> dom h \<longrightarrow> ((a, b) \<in> (mo_edge h)\<^sup>* \<longleftrightarrow> (a, b) \<in> (mo_edge g)\<^sup>*))"
proof -
  have l: "linked g" using wf by (simp add: mo_part_def)
  have ds: "distinct ds" "set ds \<subseteq> dom g" and up: "\<And>n m. (n, m) \<in> mo_edge g \<Longrightarrow> m \<in> set ds \<Longrightarrow> n \<in> set ds"
    using cl by (auto simp: ancestor_closed_def)
  from foldR_freeAction [OF l ds] obtain h where h: "foldR freeAction ds g = Inr h" "linked h"
    "dom h = dom g - set ds"
    "\<And>n. n \<notin> set ds \<Longrightarrow> clk h n = clk g n \<and> rmw_of h n = rmw_of g n \<and>
      set (succs h n) = set (succs g n) - set ds \<and> (set (succs g n) \<inter> set ds = {} \<longrightarrow> succs h n = succs g n)" by blast
  have alive: "succs h n = succs g n" "clk h n = clk g n" "rmw_of h n = rmw_of g n" if n: "n \<notin> set ds" for n
  proof -
    have "set (succs g n) \<inter> set ds = {}" using up [of n] n by (auto simp: mo_edge_def)
    then show "succs h n = succs g n" "clk h n = clk g n" "rmw_of h n = rmw_of g n" using h(4) [OF n] by auto
  qed
  have dead: "succs h n = []" "rmw_of h n = None" if "n \<in> set ds" for n
    using that h(3) read_none(2,4) [of n h] by auto
  have e: "(n, m) \<in> mo_edge h \<longleftrightarrow> n \<notin> set ds \<and> (n, m) \<in> mo_edge g" for n m
    using alive [of n] dead [of n] by (cases "n \<in> set ds") (auto simp: mo_edge_def)
  have path: "(a, b) \<in> (mo_edge h)\<^sup>*" if ab: "(a, b) \<in> (mo_edge g)\<^sup>*" and a: "a \<notin> set ds" for a b
    using ab
  proof (induction rule: rtrancl_induct)
    case (step b c)
    have "(b, c) \<in> mo_edge h"
    proof -
      have "b \<notin> set ds" using step.hyps(1) a
        by (induction rule: rtrancl_induct) (auto intro: up)
      then show ?thesis using step.hyps(2) by (simp add: e)
    qed
    with step.IH show ?case by (rule rtrancl_into_rtrancl)
  qed simp
  have "mo_edge h \<subseteq> mo_edge g" using e by auto
  then have pathg: "(a, b) \<in> (mo_edge g)\<^sup>*" if "(a, b) \<in> (mo_edge h)\<^sup>*" for a b
    using that rtrancl_mono by blast
  have dh: "n \<notin> set ds \<and> n \<in> dom g" if "n \<in> dom h" for n using that h(3) by blast
  have "rmw_chained acts h" unfolding rmw_chained_def
  proof (intro allI impI)
    fix n m assume nm: "rmw_of h n = Some m"
    then have "n \<notin> set ds" using dead(2) by fastforce
    with nm wf show "succs h n = [m] \<and> seq_number (acts n) < seq_number (acts m)"
      by (simp add: alive mo_part_def rmw_chained_def)
  qed
  moreover have "settled {} {} h" unfolding settled_def
  proof (intro allI impI)
    fix n m t assume nm: "(n, m) \<in> mo_edge h"
    then have "n \<notin> set ds" "m \<notin> set ds" using dh [OF linked_dom(1) [OF h(2) nm]] dh [OF linked_dom(2) [OF h(2) nm]] by auto
    then show "clk h n t \<le> clk h m t" using nm wf by (auto simp: e alive mo_part_def settled_def)
  qed
  moreover have "seq_number (acts n) \<noteq> 0 \<and> seq_number (acts n) \<le> clk h n (a_tid (acts n))" if "n \<in> dom h" for n
    using dh [OF that] wf by (simp add: alive mo_part_def)
  moreover have "a_location (acts n) = a_location (acts m)" if "(n, m) \<in> mo_edge h" for n m
    using that wf by (auto simp: e mo_part_def)
  ultimately have wfh: "mo_wf acts h" using h(2) by (auto simp: mo_part_def)
  have "mo_exact acts h" unfolding mo_exact_def mo_sound_def
  proof (intro conjI order_refl ballI impI)
    fix a b assume a: "a \<in> dom h" and b: "b \<in> dom h" and loc: "a_location (acts a) = a_location (acts b)"
      and le: "seq_number (acts a) \<le> clk h b (a_tid (acts a))"
    have "(a, b) \<in> (mo_edge g)\<^sup>*"
      by (rule exact_path [OF ex _ _ loc]) (use dh [OF a] dh [OF b] le in \<open>auto simp: alive\<close>)
    then show "(a, b) \<in> (mo_edge h)\<^sup>*" by (rule path) (use dh [OF a] in blast)
  qed
  moreover have "(a, b) \<in> (mo_edge h)\<^sup>* \<longleftrightarrow> (a, b) \<in> (mo_edge g)\<^sup>*" if "a \<in> dom h" for a b
    using path [of a b] pathg [of a b] dh [OF that] by blast
  ultimately show ?thesis using h(1,3) wfh by blast
qed

end
