(* ===== verification/Mo_Runs.thy ===== *)
theory Mo_Runs
  imports Mo_Orders
begin

text \<open>
  Runs of the modification-order graph, with no promise on what a RMW learns and with any stores freed that
  \<open>collectActions\<close> may free.  A run carries two sets that the program does not keep: \<open>P\<close>, the edges that the
  graph has or has had, and \<open>X\<close>, the edges of the graph that a RMW took over without learning from the store
  it reads from, over which no clock was sent.
\<close>

section \<open>Steps\<close>

lemma addEdges_old_sound:
  assumes wf: "mo_part acts X g" and ex: "mo_sound acts P g" and w: "w \<in> dom g"
    and es: "\<forall>e\<in>set es. e \<in> dom g \<and> a_location (acts e) = a_location (acts w)"
  shows "\<exists>h. addEdges acts es w g = Inr h \<and> mo_part acts X h \<and> mo_sound acts (P \<union> mo_edge h) h \<and> grown w g h"
proof -
  from prune_edges_result [OF wf ex es] obtain cs where c: "prune_edges acts es g = Inr (cs, g)" "set cs \<subseteq> set es"
    by blast
  let ?I = "\<lambda>h. mo_part acts X h \<and> mo_sound acts (P \<union> mo_edge h) h \<and> grown w g h"
  have "\<exists>h. foldR (\<lambda>a. cg_addEdge acts a w (a_tid (acts a) = a_tid (acts w))) cs g = Inr h \<and> ?I h"
  proof (rule foldR_invariant)
    have "P \<union> mo_edge g = P" using ex by (auto simp: mo_sound_def)
    then show "?I g" using wf ex by simp
    fix a h assume "a \<in> set cs" and h: "?I h"
    then have a: "a \<in> dom h" "w \<in> dom h" "a_location (acts a) = a_location (acts w)"
      using es c(2) w by (auto simp: grown_def)
    from h have h1: "mo_part acts X h" "mo_sound acts (P \<union> mo_edge h) h" "grown w g h" by auto
    from cg_addEdge_sound [OF h1(1,2) a, of "a_tid (acts a) = a_tid (acts w)"] obtain k where
      k: "cg_addEdge acts a w (a_tid (acts a) = a_tid (acts w)) h = Inr k" "mo_part acts X k"
      "mo_sound acts (P \<union> mo_edge h \<union> mo_edge k) k" "grown w h k" by blast
    have "P \<union> mo_edge h \<union> mo_edge k = P \<union> mo_edge k" using k(4) by (auto simp: grown_def)
    with k grown_trans [OF h1(3) k(4)]
    show "\<exists>k. cg_addEdge acts a w (a_tid (acts a) = a_tid (acts w)) h = Inr k \<and> ?I k" by auto
  qed
  then show ?thesis using c(1) by (simp add: addEdges_def)
qed

text \<open>A RMW is put behind the store it reads from (\<open>process_rmw\<close>): it is new, the store has no RMW yet, and
  the earlier stores of its thread are ordered before that store, as the constraints of its read
  (\<open>r_modification_order\<close>) see to.\<close>

definition rmw_ready :: "(nat \<Rightarrow> action) \<Rightarrow> (nat \<times> nat) set \<Rightarrow> nat \<Rightarrow> nat \<Rightarrow> cycle_graph \<Rightarrow> bool" where
  "rmw_ready acts P from r g \<longleftrightarrow> newcomer acts r g \<and> stands_for acts P [from] r g \<and> rmw_of g from = None \<and>
     seq_number (acts from) < seq_number (acts r)"

text \<open>Stores that may be freed: with a RMW goes the store it reads from, which is older.\<close>

definition freeable :: "nat list \<Rightarrow> cycle_graph \<Rightarrow> bool" where
  "freeable ds g \<longleftrightarrow> distinct ds \<and> set ds \<subseteq> dom g \<and> (\<forall>n m. rmw_of g n = Some m \<longrightarrow> m \<in> set ds \<longrightarrow> n \<in> set ds)"

inductive mo_run :: "(nat \<Rightarrow> action) \<Rightarrow> (nat \<times> nat) set \<Rightarrow> (nat \<times> nat) set \<Rightarrow> cycle_graph \<Rightarrow> bool" for acts where
  start: "mo_run acts {} {} (\<lambda>_. None)"
| create: "mo_run acts P X g \<Longrightarrow> newcomer acts w g \<Longrightarrow> stands_for acts P [] w g \<Longrightarrow>
    mo_run acts P X (getNode acts w g)"
| store: "mo_run acts P X g \<Longrightarrow> newcomer acts w g \<Longrightarrow> stands_for acts P es w g \<Longrightarrow> es \<noteq> [] \<Longrightarrow>
    addEdges acts es w g = Inr h \<Longrightarrow> mo_run acts (P \<union> mo_edge h) X h"
| order: "mo_run acts P X g \<Longrightarrow> w \<in> dom g \<Longrightarrow>
    \<forall>e\<in>set es. e \<in> dom g \<and> a_location (acts e) = a_location (acts w) \<Longrightarrow>
    addEdges acts es w g = Inr h \<Longrightarrow> mo_run acts (P \<union> mo_edge h) X h"
| coherence: "mo_run acts P X g \<Longrightarrow> a \<in> dom g \<Longrightarrow> b \<in> dom g \<Longrightarrow> a_location (acts a) = a_location (acts b) \<Longrightarrow>
    cg_addEdge acts a b False g = Inr h \<Longrightarrow> mo_run acts (P \<union> mo_edge h) X h"
| read_modify_write: "mo_run acts P X g \<Longrightarrow> rmw_ready acts P from r g \<Longrightarrow> addRMWEdge acts from r g = Inr h \<Longrightarrow>
    mo_run acts (P \<union> mo_edge h) ((X \<union> unspread acts from r g) \<inter> mo_edge h) h"
| free: "mo_run acts P X g \<Longrightarrow> freeable ds g \<Longrightarrow> foldR freeAction ds g = Inr h \<Longrightarrow>
    mo_run acts P (X \<inter> mo_edge h) h"

lemma part_only: "mo_part acts X g \<Longrightarrow> mo_part acts (X \<inter> mo_edge g) g"
  by (auto simp: mo_part_def settled_def)

lemma rmw_ready_step:
  assumes part: "mo_part acts X g" and snd: "mo_sound acts P g" and ready: "rmw_ready acts P a r g"
  obtains h where "addRMWEdge acts a r g = Inr h" and "mo_part acts (X \<union> unspread acts a r g) h"
    and "mo_sound acts (P \<union> mo_edge h) h" and "dom h = insert r (dom g)" and "rmw_of h = (rmw_of g)(a := Some r)"
    and "succs h = (succs g)(a := [r], r := succs g a)" and "\<forall>n t. clk (getNode acts r g) n t \<le> clk h n t"
proof -
  have new: "newcomer acts r g" and cov: "stands_for acts P [a] r g" and none: "rmw_of g a = None"
    and seq: "seq_number (acts a) < seq_number (acts r)"
    using ready by (simp_all add: rmw_ready_def)
  have a: "a \<in> dom g" and loc: "a_location (acts a) = a_location (acts r)" using cov by (simp_all add: stands_for_def)
  have "a \<noteq> r" using a new by (auto simp: newcomer_def)
  from addRMWEdge_part [OF part new a loc none seq] obtain h where h: "addRMWEdge acts a r g = Inr h"
    "mo_part acts (X \<union> unspread acts a r g) h" "dom h = insert r (dom g)" "rmw_of h = (rmw_of g)(a := Some r)"
    "succs h = (succs g)(a := [r], r := succs g a)" "\<forall>n t. clk (getNode acts r g) n t \<le> clk h n t"
    "\<forall>n\<in>dom h. \<forall>t. \<exists>m\<in>dom h. (m, n) \<in> (mo_edge h)\<^sup>* \<and> clk h n t = clk (getNode acts r g) m t" by metis
  let ?P = "P \<union> mo_edge h"
  have up: "p \<in> ?P\<^sup>*" if "p \<in> P\<^sup>*" for p using that rtrancl_mono [of P ?P] by auto
  have ar: "(a, r) \<in> ?P" using \<open>a \<noteq> r\<close> by (simp add: mo_edge_def h(5))
  have "mo_sound acts ?P h"
  proof (rule new_node_sound [OF part snd new h(2,3) _ up])
    fix n t assume "n \<in> dom h"
    with h(7) show "\<exists>m\<in>dom h. (m, n) \<in> (mo_edge h)\<^sup>* \<and> clk h n t = clk (getNode acts r g) m t" by blast
  next
    fix x assume "x \<in> dom g" "a_location (acts x) = a_location (acts r)" "a_tid (acts x) = a_tid (acts r)"
    then have "(x, a) \<in> P\<^sup>*" using cov by (auto simp: stands_for_def)
    with ar show "(x, r) \<in> ?P\<^sup>*" by (blast intro: up rtrancl_into_rtrancl)
  qed auto
  with h that show thesis by blast
qed

lemma free_step:
  assumes part: "mo_part acts X g" and snd: "mo_sound acts P g" and fr: "freeable ds g"
  obtains h where "foldR freeAction ds g = Inr h" and "mo_part acts X h" and "mo_sound acts P h"
    and "dom h = dom g - set ds" and "\<And>n. n \<in> dom h \<Longrightarrow> clk h n = clk g n"
    and "\<And>n. n \<in> dom h \<Longrightarrow> set (succs h n) = set (succs g n) - set ds" and "mo_edge h \<subseteq> mo_edge g"
proof -
  have l: "linked g" using part by (simp add: mo_part_def)
  have ds: "distinct ds" "set ds \<subseteq> dom g" and up: "\<And>n m. rmw_of g n = Some m \<Longrightarrow> m \<in> set ds \<Longrightarrow> n \<in> set ds"
    using fr by (auto simp: freeable_def)
  from foldR_freeAction [OF l ds] obtain h where h: "foldR freeAction ds g = Inr h" "linked h"
    "dom h = dom g - set ds"
    "\<And>n. n \<notin> set ds \<Longrightarrow> clk h n = clk g n \<and> rmw_of h n = rmw_of g n \<and>
      set (succs h n) = set (succs g n) - set ds \<and> (set (succs g n) \<inter> set ds = {} \<longrightarrow> succs h n = succs g n)" by blast
  have keep: "clk h n = clk g n" "rmw_of h n = rmw_of g n" "set (succs h n) = set (succs g n) - set ds"
    if "n \<in> dom h" for n using h(3) h(4) [of n] that by auto
  have edge: "(n, m) \<in> mo_edge g" "n \<in> dom h" "m \<in> dom h" if "(n, m) \<in> mo_edge h" for n m
    using that linked_dom [OF h(2) that] keep(3) [of n] by (auto simp: mo_edge_def)
  have "rmw_chained acts h" unfolding rmw_chained_def
  proof (intro allI impI)
    fix n m assume nm: "rmw_of h n = Some m"
    then have n: "n \<in> dom h" using read_none(4) [of n h] by fastforce
    with nm keep have g: "rmw_of g n = Some m" by simp
    then have c: "succs g n = [m]" "seq_number (acts n) < seq_number (acts m)"
      using part by (auto simp: mo_part_def rmw_chained_def)
    moreover have "m \<notin> set ds" using up [OF g] n h(3) by auto
    ultimately show "succs h n = [m] \<and> seq_number (acts n) < seq_number (acts m)" using h(3) h(4) [of n] n by simp
  qed
  moreover have "settled X {} h"
    using part edge keep(1) unfolding mo_part_def settled_def by metis
  moreover have "seq_number (acts n) \<noteq> 0 \<and> seq_number (acts n) \<le> clk h n (a_tid (acts n))" if "n \<in> dom h" for n
    using part that h(3) by (simp add: keep mo_part_def)
  moreover have "a_location (acts n) = a_location (acts m)" if "(n, m) \<in> mo_edge h" for n m
    using part edge(1) [OF that] unfolding mo_part_def by blast
  ultimately have "mo_part acts X h" using h(2) by (auto simp: mo_part_def)
  moreover have sub: "mo_edge h \<subseteq> mo_edge g" using edge(1) by auto
  moreover have "mo_sound acts P h" unfolding mo_sound_def
  proof (intro conjI ballI impI)
    show "mo_edge h \<subseteq> P" using snd sub by (auto simp: mo_sound_def)
    fix a b assume "a \<in> dom h" "b \<in> dom h" "a_location (acts a) = a_location (acts b)"
      "seq_number (acts a) \<le> clk h b (a_tid (acts a))"
    with h(3) keep(1) show "(a, b) \<in> P\<^sup>*" by (intro sound_path [OF snd]) auto
  qed
  ultimately show thesis using that h(1,3) keep by blast
qed

text \<open>In every run the clocks are sound, and settled but for the edges in \<open>X\<close>.\<close>

lemma mo_run_ok: "mo_run acts P X g \<Longrightarrow> mo_part acts X g \<and> mo_sound acts P g \<and> X \<subseteq> mo_edge g"
proof (induction rule: mo_run.induct)
  case start
  have "succs (\<lambda>_. None) n = []" "preds (\<lambda>_. None) n = []" "rmw_of (\<lambda>_. None) n = None" for n
    by (simp_all add: succs_def preds_def rmw_of_def)
  then show ?case
    by (simp add: mo_part_def mo_sound_def linked_def settled_def rmw_chained_def mo_edge_def)
next
  case (create P X g w)
  then show ?case using create_sound [of acts X g P w] by (simp add: getNode_read)
next
  case (store P X g w es h)
  then show ?case using addEdges_sound [of acts X g P w es] by (auto simp: grown_def getNode_read)
next
  case (order P X g w es h)
  then show ?case using addEdges_old_sound [of acts X g P w es] by (auto simp: grown_def)
next
  case (coherence P X g a b h)
  then show ?case using cg_addEdge_sound [of acts X g P a b False] by (auto simp: grown_def)
next
  case (read_modify_write P X g a r h)
  then obtain h' where "addRMWEdge acts a r g = Inr h'" "mo_part acts (X \<union> unspread acts a r g) h'"
    "mo_sound acts (P \<union> mo_edge h') h'" using rmw_ready_step [of acts X g P a r] by metis
  with read_modify_write.hyps(3) part_only show ?case by auto
next
  case (free P X g ds h)
  then obtain h' where "foldR freeAction ds g = Inr h'" "mo_part acts X h'" "mo_sound acts P h'"
    using free_step [of acts X g P ds] by metis
  with free.hyps(3) part_only show ?case by auto
qed

text \<open>When a clock has nothing to learn, no clock changes.\<close>

lemma spread_clock_idle:
  assumes a: "a \<in> dom g" and b: "b \<in> dom g" and le: "\<And>t. clk g a t \<le> clk g b t"
  obtains h where "spread_clock a b g = Inr h" and "same_shape g h" and "clk h = clk g"
proof -
  define cv where "cv = fst (cv_merge (node_cv (the (g b))) (node_cv (the (g a))))"
  define h where "h = g(b \<mapsto> (the (g b))\<lparr>node_cv := cv\<rparr>)"
  have "\<not> snd (cv_merge (node_cv (the (g b))) (node_cv (the (g a))))"
    using a b le by (simp add: merge_changed not_less)
  then have "spread_clock a b g = Inr h"
    using a b by (simp add: spread_clock_def h_def cv_def case_prod_beta Let_def)
  moreover have "same_shape g h" unfolding h_def by (rule same_shape_clock [OF b])
  moreover have "clk h = clk g"
  proof (intro ext)
    fix n t show "clk h n t = clk g n t"
      using a b le [of t] by (cases "n = b") (simp_all add: h_def graph_simps cv_def max_absorb1)
  qed
  ultimately show thesis by (rule that)
qed

text \<open>A RMW that learns nothing from the store it reads from leaves all clocks as they are.\<close>

lemma addRMWEdge_idle:
  assumes part: "mo_part acts X g" and new: "newcomer acts r g" and a: "a \<in> dom g" and none: "rmw_of g a = None"
    and loc: "a_location (acts a) = a_location (acts r)" and idle: "\<forall>t. t \<noteq> a_tid (acts r) \<longrightarrow> clk g a t = 0"
  obtains h where "addRMWEdge acts a r g = Inr h" and "clk h = clk (getNode acts r g)" and "dom h = insert r (dom g)"
    and "succs h = (succs g)(a := [r], r := succs g a)"
proof -
  have r: "r \<notin> dom g" using new by (simp add: newcomer_def)
  have ar: "a \<noteq> r" using a r by auto
  obtain k where k: "addRMWEdge acts a r g = addNodeEdge acts a r True k" "dom k = insert r (dom g)" "linked k"
    "clk k = clk (getNode acts r g)" "rmw_of k = (rmw_of g)(a := Some r)"
    "succs k = (succs g)(a := [], r := succs g a)" using addRMWEdge_prepared [OF part a r none] .
  have ak: "a \<in> dom k" "r \<in> dom k" using a k(2) by auto
  obtain k1 where k1: "node_addEdge a r k = Inr k1" "dom k1 = dom k" "clk k1 = clk k"
    "succs k1 = (succs k)(a := if r \<in> set (succs k a) then succs k a else succs k a @ [r])"
    using node_addEdge_result [OF k(3) ak] by metis
  have "clk k1 a t \<le> clk k1 r t" for t
    using new a loc idle ar by (auto simp: k1(3) k(4) new_clock [OF r] newcomer_def less_imp_le)
  then obtain h where h: "spread_clock a r k1 = Inr h" "same_shape k1 h" "clk h = clk k1"
    using spread_clock_idle [of a k1 r] ak k1(2) by metis
  obtain c where c: "k a = Some c" using ak by auto
  then have "hasRMW c = Some r" using fun_cong [OF k(5), of a] by (simp add: rmw_of_def)
  with c have "rmw_end k r a = Some (Inr a)" by (simp add: rmw_end.simps [of k r a])
  then have "addRMWEdge acts a r g = Inr h"
    using h(1) k1(1) ak by (simp add: k(1) addNodeEdge_def checkReachable_def ended_def)
  then show thesis
    by (rule that) (use h(2,3) k1 k ar in \<open>simp_all add: same_shape_def fun_upd_twist\<close>)
qed

text \<open>No edge to a RMW from the store it reads from is among them.\<close>

lemma mo_run_rmw: "mo_run acts P X g \<Longrightarrow> rmw_of g n = Some m \<Longrightarrow> (n, m) \<notin> X"
proof (induction arbitrary: n m rule: mo_run.induct)
  case (create P X g w)
  then show ?case by (simp add: getNode_read)
next
  case (store P X g w es h)
  then show ?case using addEdges_sound [of acts X g P w es] mo_run_ok [of acts P X g] by (auto simp: grown_def getNode_read)
next
  case (order P X g w es h)
  then show ?case using addEdges_old_sound [of acts X g P w es] mo_run_ok [of acts P X g] by (auto simp: grown_def)
next
  case (coherence P X g a b h)
  then show ?case using cg_addEdge_sound [of acts X g P a b False] mo_run_ok [of acts P X g] by (auto simp: grown_def)
next
  case (read_modify_write P X g a r h)
  from mo_run_ok [OF read_modify_write.hyps(1)] have ok: "mo_part acts X g" "mo_sound acts P g" "X \<subseteq> mo_edge g" by auto
  obtain h' where h: "addRMWEdge acts a r g = Inr h'" "rmw_of h' = (rmw_of g)(a := Some r)"
    using rmw_ready_step [OF ok(1,2) read_modify_write.hyps(2)] by metis
  have r: "r \<notin> dom g" "a \<in> dom g"
    using read_modify_write.hyps(2) by (simp_all add: rmw_ready_def newcomer_def stands_for_def)
  then have "a \<noteq> r" by auto
  have nr: "n \<noteq> r" if "rmw_of g n = Some m" using that read_none(4) [OF r(1)] by auto
  have "(a, r) \<notin> X" using ok linked_dom(2) [of g a r] r(1) by (auto simp: mo_part_def)
  moreover have "(n', m') \<in> unspread acts a r g \<Longrightarrow> n' = r" for n' m' by (auto simp: unspread_def split: if_splits)
  ultimately show ?case
    using read_modify_write.prems read_modify_write.hyps(3) read_modify_write.IH [of n m] h nr r \<open>a \<noteq> r\<close>
    by (auto split: if_splits)
next
  case (free P X g ds h)
  from mo_run_ok [OF free.hyps(1)] have ok: "mo_part acts X g" "X \<subseteq> mo_edge g" by auto
  have ds: "distinct ds" "set ds \<subseteq> dom g" using free.hyps(2) by (simp_all add: freeable_def)
  have l: "linked g" using ok by (simp add: mo_part_def)
  from foldR_freeAction [OF l ds] free.hyps(3) have h: "dom h = dom g - set ds"
    "\<And>n. n \<notin> set ds \<Longrightarrow> rmw_of h n = rmw_of g n" by auto
  have "n \<notin> set ds" using free.prems read_none(4) [of n h] h(1) by fastforce
  with free.prems free.IH [of n m] h(2) show ?case by simp
qed simp

lemma run_reachable:
  assumes "mo_run acts P X g" and "a \<in> dom g" and "b \<in> dom g"
  shows "checkReachable_actions acts g a b = Inr (seq_number (acts a) \<le> clk g b (a_tid (acts a)))"
proof -
  from mo_run_ok [OF assms(1)] have part: "mo_part acts X g" by blast
  from checkReachable_clock [OF part assms(2,3)] assms(2,3) show ?thesis
    by (auto simp: checkReachable_actions_def getNode_noCreate_def)
qed

end
