(* ===== verification/Mo_Props.thy ===== *)
theory Mo_Props
  imports Mo_Runs
begin

text \<open>
  What runs of the modification-order graph give.  In every run (\<open>mo_run\<close>) a clock knows nothing that no
  path of edges told it, and all that settled edges tell; a RMW stays next to the store it reads from.  In the
  runs of \<open>mo_built\<close>, in which every RMW learns something from the store it reads from or takes no edge over,
  and stores are freed together with all that is ordered before them, reachability is read off the clocks
  without error: a new store is ordered behind the stores it is given and nothing else changes, and freeing is
  invisible.  The step that \<open>mo_built\<close> leaves out does not spread clocks where it should, which is shown as well.
\<close>

section \<open>Runs with exact clocks\<close>

lemma addEdges_old_result:
  assumes wf: "mo_wf acts g" and ex: "mo_exact acts g" and w: "w \<in> dom g"
    and es: "\<forall>e\<in>set es. e \<in> dom g \<and> a_location (acts e) = a_location (acts w)"
  shows "\<exists>h. addEdges acts es w g = Inr h \<and> mo_wf acts h \<and> mo_exact acts h \<and> grown w g h"
  using addEdges_old_sound [OF wf ex [unfolded mo_exact_def] w es] grown_edges [of w g] by (auto simp: mo_exact_def)

inductive mo_built :: "(nat \<Rightarrow> action) \<Rightarrow> cycle_graph \<Rightarrow> bool" for acts where
  start: "mo_built acts (\<lambda>_. None)"
| create: "mo_built acts g \<Longrightarrow> newcomer acts w g \<Longrightarrow> covers acts [] w g \<Longrightarrow> mo_built acts (getNode acts w g)"
| store: "mo_built acts g \<Longrightarrow> newcomer acts w g \<Longrightarrow> covers acts es w g \<Longrightarrow> es \<noteq> [] \<Longrightarrow>
    addEdges acts es w g = Inr h \<Longrightarrow> mo_built acts h"
| order: "mo_built acts g \<Longrightarrow> w \<in> dom g \<Longrightarrow>
    \<forall>e\<in>set es. e \<in> dom g \<and> a_location (acts e) = a_location (acts w) \<Longrightarrow>
    addEdges acts es w g = Inr h \<Longrightarrow> mo_built acts h"
| coherence: "mo_built acts g \<Longrightarrow> a \<in> dom g \<Longrightarrow> b \<in> dom g \<Longrightarrow> a_location (acts a) = a_location (acts b) \<Longrightarrow>
    cg_addEdge acts a b False g = Inr h \<Longrightarrow> mo_built acts h"
| read_modify_write: "mo_built acts g \<Longrightarrow> rmw_contract acts a r g \<Longrightarrow> addRMWEdge acts a r g = Inr h \<Longrightarrow>
    mo_built acts h"
| free: "mo_built acts g \<Longrightarrow> ancestor_closed ds g \<Longrightarrow> foldR freeAction ds g = Inr h \<Longrightarrow> mo_built acts h"

lemma mo_built_ok: "mo_built acts g \<Longrightarrow> mo_wf acts g \<and> mo_exact acts g"
proof (induction rule: mo_built.induct)
  case start
  have "succs (\<lambda>_. None) n = []" "preds (\<lambda>_. None) n = []" "rmw_of (\<lambda>_. None) n = None" for n
    by (simp_all add: succs_def preds_def rmw_of_def)
  then show ?case
    by (simp add: mo_part_def mo_exact_def mo_sound_def linked_def settled_def rmw_chained_def mo_edge_def)
next
  case (create g w)
  then show ?case using create_result by blast
next
  case (store g w es h)
  then show ?case using addEdges_result [of acts g w es] by auto
next
  case (order g w es h)
  then show ?case using addEdges_old_result [of acts g w es] by auto
next
  case (coherence g a b h)
  then show ?case using cg_addEdge_result [of acts g a b False] by auto
next
  case (read_modify_write g a r h)
  then show ?case using addRMWEdge_result [of acts g a r] by auto
next
  case (free g ds h)
  then show ?case using free_result [of acts g ds] by auto
qed

lemma checkReachable_actions_eq:
  "checkReachable_actions acts g a b =
     (if a \<in> dom g \<and> b \<in> dom g then checkReachable acts g a b else Inr False)"
  by (auto simp: checkReachable_actions_def getNode_noCreate_def split: option.splits)

lemma built_reachable:
  "mo_built acts g \<Longrightarrow> a \<in> dom g \<Longrightarrow> b \<in> dom g \<Longrightarrow> a_location (acts a) = a_location (acts b) \<Longrightarrow>
   checkReachable_actions acts g a b = Inr ((a, b) \<in> (mo_edge g)\<^sup>*)"
  using mo_built_ok [of acts g] checkReachable_path by (simp add: checkReachable_actions_eq)

section \<open>A sample\<close>

text \<open>Two threads that store to one location in turn.\<close>

definition mo_sample :: "nat \<Rightarrow> action" where
  "mo_sample n = set_seq_number (of_nat n + 1) (new_action 0 0 ATOMIC_WRITE mo_relaxed 16 0 (Some (n mod 2)))"

definition mo_two :: cycle_graph where
  "mo_two = [0 \<mapsto> \<lparr>edges = [1], inedges = [], hasRMW = None, node_cv = [1]\<rparr>,
     1 \<mapsto> \<lparr>edges = [], inedges = [0], hasRMW = None, node_cv = [1, 2]\<rparr>]"

definition mo_three :: cycle_graph where
  "mo_three = [0 \<mapsto> \<lparr>edges = [1], inedges = [], hasRMW = None, node_cv = [1]\<rparr>,
     1 \<mapsto> \<lparr>edges = [2], inedges = [0], hasRMW = Some 2, node_cv = [1, 2]\<rparr>,
     2 \<mapsto> \<lparr>edges = [], inedges = [1], hasRMW = None, node_cv = [3, 2]\<rparr>]"

lemma sample_act [simp]:
  "a_tid (mo_sample n) = n mod 2" "seq_number (mo_sample n) = of_nat n + 1" "a_location (mo_sample n) = 16"
  by (simp_all add: mo_sample_def set_seq_number_def new_action_def)

text \<open>The graphs are computed operation by operation.\<close>

lemma sample_merges:
  "cv_merge [0, 2] [1] = ([1, 2], True)" "cv_merge [3] [1, 2] = ([3, 2], True)" "cv_merge [3] [1] = ([3], False)"
  by (simp_all add: cv_merge_def resize_def upt_rec)

lemma sample_new_nodes:
  "new_node mo_sample 0 = \<lparr>edges = [], inedges = [], hasRMW = None, node_cv = [1]\<rparr>"
  "new_node mo_sample (Suc 0) = \<lparr>edges = [], inedges = [], hasRMW = None, node_cv = [0, 2]\<rparr>"
  "new_node mo_sample 2 = \<lparr>edges = [], inedges = [], hasRMW = None, node_cv = [3]\<rparr>"
  by (simp_all add: new_node_def cv_new_def)

lemma mo_two_eq: "addEdges mo_sample [0] 1 (getNode mo_sample 0 (\<lambda>_. None)) = Inr mo_two"
proof -
  let ?g = "[0 \<mapsto> new_node mo_sample 0]"
  let ?g1 = "?g(1 \<mapsto> new_node mo_sample 1)"
  let ?g2 = "[0 \<mapsto> \<lparr>edges = [1], inedges = [], hasRMW = None, node_cv = [1]\<rparr>,
     1 \<mapsto> \<lparr>edges = [], inedges = [0], hasRMW = None, node_cv = [0, 2]\<rparr>]"
  have "rmw_end ?g1 1 0 = Some (Inr 0)" by (subst rmw_end.simps) (simp add: sample_new_nodes)
  moreover have "node_addEdge 0 1 ?g1 = Inr ?g2"
    by (simp add: node_addEdge_def with_node_def mo_node_def sample_new_nodes fun_upd_twist)
  moreover have "propagate [1] mo_two = Some (Inr mo_two)"
    by (subst propagate.simps) (simp add: mo_two_def propagate.simps [of "[]"])
  then have "spread_clock 0 1 ?g2 = Inr mo_two"
    by (simp add: spread_clock_def mo_node_def sample_merges mo_two_def ended_def)
  moreover have "checkReachable mo_sample ?g1 0 1 = Inr False"
    by (simp add: checkReachable_def mo_node_def cv_synchronized_since_def sample_new_nodes)
  ultimately have "addNodeEdge mo_sample 0 1 False ?g1 = Inr mo_two" by (simp add: addNodeEdge_def ended_def)
  then show ?thesis
    by (simp add: addEdges_def cg_addEdge_def getNode_def getNode_noCreate_def putNode_def)
qed


lemma mo_two_built: "mo_built mo_sample mo_two"
proof -
  let ?g = "getNode mo_sample 0 (\<lambda>_. None)"
  have g: "mo_built mo_sample ?g"
    by (rule mo_built.create [OF mo_built.start]) (simp_all add: newcomer_def covers_def stands_for_def)
  have n: "newcomer mo_sample 1 ?g" "covers mo_sample [0] 1 ?g"
    by (auto simp: newcomer_def covers_def stands_for_def getNode_read)
  show ?thesis by (rule mo_built.store [OF g n _ mo_two_eq]) simp
qed

lemma mo_two_read:
  "dom mo_two = {0, 1}" "mo_edge mo_two = {(0, 1)}" "rmw_of mo_two n = None"
  "clk mo_two 0 = (\<lambda>_. 0)(0 := 1)" "clk mo_two (Suc 0) = (\<lambda>_. 0)(0 := 1, 1 := 2)"
  "succs mo_two 0 = [1]" "succs mo_two (Suc 0) = []"
proof -
  show "dom mo_two = {0, 1}" "rmw_of mo_two n = None" "succs mo_two 0 = [1]" "succs mo_two (Suc 0) = []"
    by (auto simp: mo_two_def rmw_of_def succs_def)
  show "mo_edge mo_two = {(0, 1)}" by (auto simp: mo_two_def mo_edge_def succs_def split: if_splits)
  show "clk mo_two 0 = (\<lambda>_. 0)(0 := 1)" "clk mo_two (Suc 0) = (\<lambda>_. 0)(0 := 1, 1 := 2)"
    by (auto simp: mo_two_def clk_def getClock_def fun_eq_iff less_Suc_eq)
qed

lemma mo_three_eq: "addRMWEdge mo_sample 1 2 mo_two = Inr mo_three"
proof -
  let ?g = "mo_two(1 \<mapsto> \<lparr>edges = [], inedges = [0], hasRMW = Some 2, node_cv = [1, 2]\<rparr>, 2 \<mapsto> new_node mo_sample 2)"
  let ?g1 = "[0 \<mapsto> \<lparr>edges = [1], inedges = [], hasRMW = None, node_cv = [1]\<rparr>,
     1 \<mapsto> \<lparr>edges = [2], inedges = [0], hasRMW = Some 2, node_cv = [1, 2]\<rparr>,
     2 \<mapsto> \<lparr>edges = [], inedges = [1], hasRMW = None, node_cv = [3]\<rparr>]"
  have "rmw_end ?g 2 1 = Some (Inr 1)" by (subst rmw_end.simps) simp
  moreover have "node_addEdge 1 2 ?g = Inr ?g1"
    by (simp add: node_addEdge_def with_node_def mo_node_def sample_new_nodes mo_two_def fun_upd_twist)
  moreover have "propagate [2] mo_three = Some (Inr mo_three)"
    by (subst propagate.simps) (simp add: mo_three_def propagate.simps [of "[]"])
  then have "spread_clock 1 2 ?g1 = Inr mo_three"
    by (simp add: spread_clock_def mo_node_def sample_merges mo_three_def ended_def)
  moreover have "checkReachable mo_sample ?g 1 2 = Inr False"
    by (simp add: checkReachable_def mo_node_def cv_synchronized_since_def sample_new_nodes)
  ultimately have "addNodeEdge mo_sample 1 2 True ?g = Inr mo_three" by (simp add: addNodeEdge_def ended_def)
  then show ?thesis
    by (simp add: addRMWEdge_def getNode_def getNode_noCreate_def putNode_def with_node_def mo_node_def setRMW_def
        mo_two_def fun_upd_twist)
qed

lemma two_contract: "newcomer mo_sample 2 mo_two" "rmw_contract mo_sample 1 2 mo_two"
proof -
  show n: "newcomer mo_sample 2 mo_two" by (auto simp: newcomer_def mo_two_read)
  have "(0, 1) \<in> (mo_edge mo_two)\<^sup>*" by (simp add: mo_two_read r_into_rtrancl)
  then show "rmw_contract mo_sample 1 2 mo_two"
    using n by (auto simp: rmw_contract_def covers_def stands_for_def mo_two_read)
qed

lemma mo_three_built: "mo_built mo_sample mo_three"
  by (rule mo_built.read_modify_write [OF mo_two_built two_contract(2) mo_three_eq])


text \<open>The same graph as a run, and a RMW by the thread of its first store, which learns nothing.\<close>

lemma mo_two_run: "mo_run mo_sample {(0, 1)} {} mo_two"
proof -
  let ?g = "getNode mo_sample 0 (\<lambda>_. None)"
  have g: "mo_run mo_sample {} {} ?g"
    by (rule mo_run.create [OF mo_run.start]) (simp_all add: newcomer_def stands_for_def)
  have n: "newcomer mo_sample 1 ?g" "stands_for mo_sample {} [0] 1 ?g"
    by (auto simp: newcomer_def stands_for_def getNode_read)
  have "mo_run mo_sample ({} \<union> mo_edge mo_two) {} mo_two" by (rule mo_run.store [OF g n _ mo_two_eq]) simp
  then show ?thesis by (simp add: mo_two_read)
qed

lemma two_ready: "rmw_ready mo_sample {(0, 1)} 0 2 mo_two"
  using two_contract(1) by (auto simp: rmw_ready_def stands_for_def mo_two_read)

lemma stale_run:
  obtains h where "addRMWEdge mo_sample 0 2 mo_two = Inr h" and "mo_run mo_sample ({(0, 1)} \<union> mo_edge h) {(2, 1)} h"
    and "succs h = (succs mo_two)(0 := [2], 2 := [1])" and "dom h = {0, 1, 2}" and "rmw_of h 0 = Some 2"
    and "clk h 1 0 < 3"
proof -
  from mo_run_ok [OF mo_two_run] have ok: "mo_part mo_sample {} mo_two" "mo_sound mo_sample {(0, 1)} mo_two" by auto
  obtain h where h: "addRMWEdge mo_sample 0 2 mo_two = Inr h" "dom h = insert 2 (dom mo_two)"
    "rmw_of h = (rmw_of mo_two)(0 := Some 2)" "succs h = (succs mo_two)(0 := [2], 2 := succs mo_two 0)"
    using rmw_ready_step [OF ok two_ready] by metis
  have u: "unspread mo_sample 0 2 mo_two = {(2, 1)}" by (auto simp: unspread_def mo_two_read)
  have "(2, 1) \<in> mo_edge h" by (simp add: mo_edge_def h(4) mo_two_read)
  with mo_run.read_modify_write [OF mo_two_run two_ready h(1)] have
    "mo_run mo_sample ({(0, 1)} \<union> mo_edge h) {(2, 1)} h" by (simp add: u)
  moreover have "clk h 1 0 < 3"
  proof -
    obtain h' where "addRMWEdge mo_sample 0 2 mo_two = Inr h'" "clk h' = clk (getNode mo_sample 2 mo_two)"
      by (rule addRMWEdge_idle [OF ok(1) two_contract(1)]) (auto simp: mo_two_read)
    with h(1) show ?thesis by (simp add: getNode_read mo_two_read)
  qed
  ultimately show thesis using h by (intro that [of h]) (simp_all add: mo_two_read insert_commute)
qed

section \<open>Steps that always succeed\<close>

lemma store_step:
  assumes b: "mo_built acts g" and new: "newcomer acts w g" and cov: "covers acts es w g" and ne: "es \<noteq> []"
  obtains h where "addEdges acts es w g = Inr h" and "mo_built acts h" and "grown w (getNode acts w g) h"
    and "\<forall>e\<in>set es. (e, w) \<in> (mo_edge h)\<^sup>*"
  using mo_built_ok [OF b] addEdges_result [OF _ _ new cov ne] mo_built.store [OF b new cov ne] by blast

lemma rmw_step:
  assumes b: "mo_built acts g" and con: "rmw_contract acts a r g"
  obtains h where "addRMWEdge acts a r g = Inr h" and "mo_built acts h" and "dom h = insert r (dom g)"
    and "rmw_of h = (rmw_of g)(a := Some r)" and "succs h = (succs g)(a := [r], r := succs g a)"
  using mo_built_ok [OF b] addRMWEdge_result [OF _ _ con] mo_built.read_modify_write [OF b con] by blast

lemma newcomer_no_path:
  assumes "linked g" and "w \<notin> dom g" and "mo_edge h \<subseteq> mo_edge g \<union> UNIV \<times> {w}" and "(a, b) \<in> (mo_edge h)\<^sup>*"
    and "b \<noteq> w"
  shows "(a, b) \<in> (mo_edge g)\<^sup>*"
  using assms(4,5)
proof (induction rule: rtrancl_induct)
  case (step b c)
  then have "(b, c) \<in> mo_edge g" using assms(3) by auto
  moreover from this have "b \<noteq> w" using linked_dom(1) assms(1,2) by blast
  ultimately show ?case using step.IH by simp
qed simp

text \<open>Paths in a graph with a RMW put between a store and its successors.\<close>

lemma rmw_path:
  assumes l: "linked g" and r: "r \<notin> dom g" and a: "a \<noteq> r"
    and s: "succs h = (succs g)(a := [r], r := succs g a)" and p: "(x, y) \<in> (mo_edge h)\<^sup>*" and x: "x \<noteq> r"
  shows "(x, if y = r then a else y) \<in> (mo_edge g)\<^sup>*"
  using p
proof (induction rule: rtrancl_induct)
  case (step y z)
  have "z \<noteq> r" if "(n, z) \<in> mo_edge g" for n using that linked_dom(2) [OF l] r by blast
  with step a show ?case by (auto simp: mo_edge_def s split: if_splits intro: rtrancl_into_rtrancl)
qed (use x in simp)

section \<open>Properties\<close>

text \<open>C21: in every run of the modification-order graph (\<open>mo_run\<close>: new stores and RMWs have sequence numbers that no
  clock of their location has reached, and come behind the earlier stores of their thread), also one in which RMWs
  take over edges without learning and stores are freed, \<open>checkReachable\<close> never fails on two stores of one location. It says yes when
  there is a path over edges of the graph that no RMW took over without learning, and when it says yes there is
  a path over edges that the graph has or has had. Where both sets of edges are the graph's own, the answer is
  exact (lemma \<open>built_reachable\<close>).\<close>

theorem reachability_of_runs:
  assumes "mo_run acts P X g" and "a \<in> dom g" and "b \<in> dom g" and "a_location (acts a) = a_location (acts b)"
  shows "\<exists>r. checkReachable_actions acts g a b = Inr r \<and> ((a, b) \<in> (mo_edge g - X)\<^sup>* \<longrightarrow> r) \<and>
    (r \<longrightarrow> (a, b) \<in> P\<^sup>*)"
proof -
  from mo_run_ok [OF assms(1)] have "mo_part acts X g" "mo_sound acts P g" by auto
  then show ?thesis
    using run_reachable [OF assms(1-3)] path_clock [OF _ assms(2)] sound_path [OF _ assms(2-4)] by auto
qed

theorem reachability_of_runs_witness:
  "\<exists>P h. mo_run mo_sample P {(2, 1)} h \<and> (2, 1) \<in> mo_edge h \<and> checkReachable_actions mo_sample h 0 2 = Inr True \<and>
     checkReachable_actions mo_sample h 2 1 = Inr False"
proof -
  obtain h where h: "addRMWEdge mo_sample 0 2 mo_two = Inr h" "mo_run mo_sample ({(0, 1)} \<union> mo_edge h) {(2, 1)} h"
    "succs h = (succs mo_two)(0 := [2], 2 := [1])" "dom h = {0, 1, 2}" "clk h 1 0 < 3"
    using stale_run by metis
  have "(0, 2) \<in> (mo_edge h - {(2, 1)})\<^sup>*" by (intro r_into_rtrancl) (simp add: mo_edge_def h(3))
  then have "checkReachable_actions mo_sample h 0 2 = Inr True"
    using reachability_of_runs [OF h(2), of 0 2] h(4) by auto
  moreover have "checkReachable_actions mo_sample h 2 1 = Inr False"
    using run_reachable [OF h(2), of 2 1] h(4,5) by (simp add: not_le)
  moreover have "(2, 1) \<in> mo_edge h" by (simp add: mo_edge_def h(3))
  ultimately show ?thesis using h(2) by blast
qed

text \<open>C22: in a run with exact clocks (\<open>mo_built\<close>), \<open>addEdges\<close> ends without an error when a new store is put behind stores of its location that stand for
  all earlier ones of its thread.  Afterwards it is behind each of them, nothing is behind it, and no two other
  stores have changed places.\<close>

theorem new_store_is_last:
  assumes "mo_built acts g" and "newcomer acts w g" and "covers acts es w g" and "es \<noteq> []"
  shows "\<exists>h. addEdges acts es w g = Inr h \<and> mo_built acts h \<and>
    (\<forall>e\<in>set es. checkReachable_actions acts h e w = Inr True) \<and>
    (\<forall>a\<in>dom g. a_location (acts a) = a_location (acts w) \<longrightarrow>
      checkReachable_actions acts h w a = Inr False \<and>
      (\<forall>b\<in>dom g. a_location (acts b) = a_location (acts w) \<longrightarrow>
        checkReachable_actions acts h a b = checkReachable_actions acts g a b))"
proof -
  obtain h where h: "addEdges acts es w g = Inr h" "mo_built acts h" "grown w (getNode acts w g) h"
    "\<forall>e\<in>set es. (e, w) \<in> (mo_edge h)\<^sup>*" using store_step [OF assms] .
  have l: "linked g" using mo_built_ok [OF assms(1)] by (simp add: mo_part_def)
  have w: "w \<notin> dom g" using assms(2) by (simp add: newcomer_def)
  have d: "dom h = insert w (dom g)" using h(3) by (simp add: grown_def)
  have up: "mo_edge h \<subseteq> mo_edge g \<union> UNIV \<times> {w}" using h(3) by (simp add: grown_def getNode_read)
  have down: "(a, b) \<in> (mo_edge h)\<^sup>*" if "(a, b) \<in> (mo_edge g)\<^sup>*" for a b
    using grown_path [OF h(3)] that by (simp add: getNode_read)
  have es: "\<forall>e\<in>set es. e \<in> dom g \<and> a_location (acts e) = a_location (acts w)"
    using assms(3) by (simp add: covers_def stands_for_def)
  have "checkReachable_actions acts h e w = Inr True" if "e \<in> set es" for e
    using that es h(4) built_reachable [OF h(2), of e w] d by simp
  moreover have "checkReachable_actions acts h w a = Inr False"
    if a: "a \<in> dom g" "a_location (acts a) = a_location (acts w)" for a
  proof -
    have aw: "a \<noteq> w" using a w by auto
    have "(w, a) \<notin> (mo_edge g)\<^sup>*" using linked_path_dom [OF _ l, of w a] a w by blast
    then have "(w, a) \<notin> (mo_edge h)\<^sup>*" using newcomer_no_path [OF l w up _ aw] by blast
    then show ?thesis using built_reachable [OF h(2), of w a] d a by simp
  qed
  moreover have "checkReachable_actions acts h a b = checkReachable_actions acts g a b"
    if a: "a \<in> dom g" "b \<in> dom g" "a_location (acts a) = a_location (acts w)" "a_location (acts b) = a_location (acts w)"
    for a b
  proof -
    have "b \<noteq> w" using a w by auto
    then have "(a, b) \<in> (mo_edge h)\<^sup>* \<longleftrightarrow> (a, b) \<in> (mo_edge g)\<^sup>*" using newcomer_no_path [OF l w up] down by blast
    then show ?thesis using built_reachable [OF h(2), of a b] built_reachable [OF assms(1), of a b] d a by simp
  qed
  ultimately show ?thesis using h(1,2) by blast
qed

theorem new_store_is_last_witness:
  "\<exists>h. addEdges mo_sample [1] 2 mo_two = Inr h \<and> checkReachable_actions mo_sample h 1 2 = Inr True \<and>
     checkReachable_actions mo_sample h 2 0 = Inr False"
proof -
  have "covers mo_sample [1] 2 mo_two" using two_contract(2) by (simp add: rmw_contract_def)
  from new_store_is_last [OF mo_two_built two_contract(1) this] show ?thesis by (auto simp: mo_two_read)
qed

text \<open>C23: in every run, a RMW gets its place behind the store it reads from without an error: it is that
  store's only successor and takes over all its successors, the clocks know that it comes after the store, and
  whatever they knew of the other stores they still know. When the clock of that store knows a store of another
  thread than the RMW's, the RMW is known to be in front of each of the successors; otherwise the clocks are not
  told (the next property but one shows the effect).\<close>

theorem rmw_takes_its_place:
  assumes "mo_run acts P X g" and "rmw_ready acts P from r g"
  shows "\<exists>h. addRMWEdge acts from r g = Inr h \<and>
    mo_run acts (P \<union> mo_edge h) ((X \<union> unspread acts from r g) \<inter> mo_edge h) h \<and>
    dom h = insert r (dom g) \<and> succs h = (succs g)(from := [r], r := succs g from) \<and>
    checkReachable_actions acts h from r = Inr True \<and>
    (\<forall>a\<in>dom g. \<forall>b\<in>dom g. checkReachable_actions acts g a b = Inr True \<longrightarrow>
      checkReachable_actions acts h a b = Inr True) \<and>
    ((\<exists>t. t \<noteq> a_tid (acts r) \<and> clk g from t \<noteq> 0) \<longrightarrow>
      (\<forall>m\<in>set (succs g from). checkReachable_actions acts h r m = Inr True))"
proof -
  from mo_run_ok [OF assms(1)] have ok: "mo_part acts X g" "mo_sound acts P g" "X \<subseteq> mo_edge g" by auto
  from rmw_ready_step [OF ok(1,2) assms(2)] obtain h where h: "addRMWEdge acts from r g = Inr h"
    "mo_part acts (X \<union> unspread acts from r g) h" "dom h = insert r (dom g)"
    "succs h = (succs g)(from := [r], r := succs g from)" "\<forall>n t. clk (getNode acts r g) n t \<le> clk h n t" by metis
  have run: "mo_run acts (P \<union> mo_edge h) ((X \<union> unspread acts from r g) \<inter> mo_edge h) h"
    by (rule mo_run.read_modify_write [OF assms h(1)])
  note reach = run_reachable [OF run]
  have r: "r \<notin> dom g" and f: "from \<in> dom g"
    using assms(2) by (auto simp: rmw_ready_def newcomer_def stands_for_def)
  have l: "linked g" using ok(1) by (simp add: mo_part_def)
  have fr: "from \<noteq> r" using f r by auto
  have noX: "(n, r) \<notin> X" "(r, n) \<notin> X" for n using ok(3) linked_dom [OF l] r by blast+
  have own: "seq_number (acts n) \<le> clk h n (a_tid (acts n))" if "n \<in> dom h" for n
    using h(2) that unfolding mo_part_def by blast
  have set: "clk h n t \<le> clk h m t" if "(n, m) \<in> mo_edge h" "(n, m) \<notin> X" "(n, m) \<notin> unspread acts from r g" for n m t
    using h(2) that unfolding mo_part_def settled_def by blast
  have "(from, r) \<notin> unspread acts from r g" using fr by (auto simp: unspread_def)
  then have "clk h from t \<le> clk h r t" for t by (intro set) (use fr noX in \<open>simp_all add: mo_edge_def h(4)\<close>)
  with own [of "from"] f h(3) have "checkReachable_actions acts h from r = Inr True"
    by (simp add: reach) (meson order_trans)
  moreover have "checkReachable_actions acts h a b = Inr True"
    if a: "a \<in> dom g" "b \<in> dom g" "checkReachable_actions acts g a b = Inr True" for a b
  proof -
    have "seq_number (acts a) \<le> clk g b (a_tid (acts a))" using run_reachable [OF assms(1) a(1,2)] a(3) by simp
    also have "\<dots> \<le> clk h b (a_tid (acts a))" using h(5) a(2) r by (metis new_clock)
    finally show ?thesis using a h(3) by (simp add: reach)
  qed
  moreover have "checkReachable_actions acts h r m = Inr True"
    if t: "\<exists>t. t \<noteq> a_tid (acts r) \<and> clk g from t \<noteq> 0" and m: "m \<in> set (succs g from)" for m
  proof -
    have "unspread acts from r g = {}" unfolding unspread_def using t by (rule if_P)
    then have "clk h r t \<le> clk h m t" for t by (intro set) (use m noX in \<open>simp_all add: mo_edge_def h(4)\<close>)
    moreover have "m \<in> dom g" using m by (intro linked_dom(2) [OF l, of "from"]) (simp add: mo_edge_def)
    ultimately show ?thesis using own [of r] h(3) by (simp add: reach) (meson order_trans)
  qed
  ultimately show ?thesis using h(1,3,4) run by blast
qed

theorem rmw_takes_its_place_witness:
  "\<exists>h. addRMWEdge mo_sample 0 2 mo_two = Inr h \<and> checkReachable_actions mo_sample h 0 2 = Inr True \<and>
     succs h 2 = [1]"
  using rmw_takes_its_place [OF mo_two_run two_ready] by (auto simp: mo_two_read)


text \<open>C24: in every run, a RMW and the store it reads from are never separated: the RMW is the only successor of
  the store and known to be behind it, and every other store that edges put behind the store is behind the RMW,
  or is the RMW.\<close>

theorem rmw_not_separated:
  assumes "mo_run acts P X g" and "rmw_of g n = Some m"
  shows "succs g n = [m] \<and> checkReachable_actions acts g n m = Inr True \<and>
    (\<forall>a. (n, a) \<in> (mo_edge g)\<^sup>* \<longrightarrow> a \<noteq> n \<longrightarrow> (m, a) \<in> (mo_edge g)\<^sup>*)"
proof -
  from mo_run_ok [OF assms(1)] have part: "mo_part acts X g" by blast
  then have s: "succs g n = [m]" and l: "linked g" using assms(2) by (simp_all add: mo_part_def rmw_chained_def)
  then have nm: "(n, m) \<in> mo_edge g" by (simp add: mo_edge_def)
  then have d: "n \<in> dom g" "m \<in> dom g" using linked_dom [OF l nm] by auto
  have "(n, m) \<in> (mo_edge g - X)\<^sup>*" using nm mo_run_rmw [OF assms] by blast
  from path_clock [OF part d(1) this] have "checkReachable_actions acts g n m = Inr True"
    by (simp add: run_reachable [OF assms(1) d])
  moreover have "(m, a) \<in> (mo_edge g)\<^sup>*" if "(n, a) \<in> (mo_edge g)\<^sup>*" "a \<noteq> n" for a
  proof -
    from that obtain y where "(n, y) \<in> mo_edge g" "(y, a) \<in> (mo_edge g)\<^sup>*" by (auto elim: converse_rtranclE)
    then show ?thesis using s by (simp add: mo_edge_def [of g])
  qed
  ultimately show ?thesis using s by blast
qed

theorem rmw_not_separated_witness:
  "\<exists>h. addRMWEdge mo_sample 0 2 mo_two = Inr h \<and> rmw_of h 0 = Some 2 \<and> (2, 1) \<in> (mo_edge h)\<^sup>* \<and>
     checkReachable_actions mo_sample h 0 2 = Inr True"
proof -
  obtain h where h: "addRMWEdge mo_sample 0 2 mo_two = Inr h" "mo_run mo_sample ({(0, 1)} \<union> mo_edge h) {(2, 1)} h"
    "succs h = (succs mo_two)(0 := [2], 2 := [1])" "rmw_of h 0 = Some 2" using stale_run by metis
  have "(0, 2) \<in> mo_edge h" "(2, 1) \<in> mo_edge h" by (simp_all add: mo_edge_def h(3))
  then have "(0, 1) \<in> (mo_edge h)\<^sup>*" by (meson r_into_rtrancl rtrancl_into_rtrancl)
  with rmw_not_separated [OF h(2,4)] have "(2, 1) \<in> (mo_edge h)\<^sup>*" "checkReachable_actions mo_sample h 0 2 = Inr True"
    by auto
  with h(1,4) show ?thesis by blast
qed

text \<open>C25: a RMW that learns nothing from the store it reads from takes over the edges of that store, but the
  clocks behind these edges are not told: the RMW is in front of a store that it does not reach according to its
  clocks.\<close>

theorem rmw_edges_not_spread:
  assumes "mo_built acts g" and "newcomer acts r g" and "from \<in> dom g" and "rmw_of g from = None"
    and "a_location (acts from) = a_location (acts r)"
    and "\<forall>t. t \<noteq> a_tid (acts r) \<longrightarrow> clk g from t = 0" and "(from, m) \<in> mo_edge g"
  shows "\<exists>h. addRMWEdge acts from r g = Inr h \<and> (r, m) \<in> mo_edge h \<and>
    checkReachable_actions acts h r m = Inr False"
proof -
  have wf: "mo_wf acts g" using mo_built_ok [OF assms(1)] by simp
  have r: "r \<notin> dom g" using assms(2) by (simp add: newcomer_def)
  obtain h where h: "addRMWEdge acts from r g = Inr h" "clk h = clk (getNode acts r g)" "dom h = insert r (dom g)"
    "succs h = (succs g)(from := [r], r := succs g from)" using addRMWEdge_idle [OF wf assms(2-6)] .
  have m: "m \<in> dom g" "m \<noteq> r" using linked_dom(2) [OF _ assms(7)] wf r by (auto simp: mo_part_def)
  have "(r, m) \<in> mo_edge h" using assms(7) by (simp add: mo_edge_def h(4))
  moreover have "a_location (acts m) = a_location (acts r)" using wf assms(5,7) by (auto simp: mo_part_def)
  then have "clk h m (a_tid (acts r)) < seq_number (acts r)" "seq_number (acts r) \<noteq> 0"
    using assms(2) m by (simp_all add: h(2) new_clock [OF r] newcomer_def)
  then have "checkReachable_actions acts h r m = Inr False"
    using m h(3) by (simp add: checkReachable_actions_eq checkReachable_def synchronized_since_iff not_le)
  ultimately show ?thesis using h(1) by blast
qed

theorem rmw_edges_not_spread_witness:
  "\<exists>h. addRMWEdge mo_sample 0 2 mo_two = Inr h \<and> (2, 1) \<in> mo_edge h \<and>
     checkReachable_actions mo_sample h 2 1 = Inr False"
  by (rule rmw_edges_not_spread [OF mo_two_built two_contract(1)]) (simp_all add: mo_two_read)

text \<open>C26: in a run with exact clocks (\<open>mo_built\<close>), stores that are freed together with everything ordered before them leave without an error, and the rest
  of the order stays as it is.\<close>

theorem freeing_is_invisible:
  assumes "mo_built acts g" and "ancestor_closed ds g"
  shows "\<exists>h. foldR freeAction ds g = Inr h \<and> mo_built acts h \<and> dom h = dom g - set ds \<and>
    (\<forall>a\<in>dom h. \<forall>b\<in>dom h. a_location (acts a) = a_location (acts b) \<longrightarrow>
      checkReachable_actions acts h a b = checkReachable_actions acts g a b)"
proof -
  from mo_built_ok [OF assms(1)] free_result [OF _ _ assms(2)] obtain h where
    h: "foldR freeAction ds g = Inr h" "dom h = dom g - set ds"
    "\<And>a b. a \<in> dom h \<Longrightarrow> b \<in> dom h \<Longrightarrow> (a, b) \<in> (mo_edge h)\<^sup>* \<longleftrightarrow> (a, b) \<in> (mo_edge g)\<^sup>*" by blast
  have b: "mo_built acts h" by (rule mo_built.free [OF assms h(1)])
  have "checkReachable_actions acts h x y = checkReachable_actions acts g x y"
    if "x \<in> dom h" "y \<in> dom h" "a_location (acts x) = a_location (acts y)" for x y
    using built_reachable [OF b, of x y] built_reachable [OF assms(1), of x y] h(2,3) that by simp
  with h(1,2) b show ?thesis by blast
qed

theorem freeing_is_invisible_witness:
  "\<exists>h. foldR freeAction [0] mo_three = Inr h \<and> dom h = {1, 2} \<and>
     checkReachable_actions mo_sample h 1 2 = checkReachable_actions mo_sample mo_three 1 2"
proof -
  have e: "mo_edge mo_three = {(0, 1), (1, 2)}"
    by (auto simp: mo_three_def mo_edge_def succs_def split: if_splits)
  have d: "dom mo_three = {0, 1, 2}" by (auto simp: mo_three_def)
  then have "ancestor_closed [0] mo_three" by (simp add: ancestor_closed_def e)
  from freeing_is_invisible [OF mo_three_built this] obtain h where h: "foldR freeAction [0] mo_three = Inr h"
    "dom h = dom mo_three - set [0]"
    "\<forall>a\<in>dom h. \<forall>b\<in>dom h. a_location (mo_sample a) = a_location (mo_sample b) \<longrightarrow>
      checkReachable_actions mo_sample h a b = checkReachable_actions mo_sample mo_three a b" by blast
  have "dom h = {1, 2}" using h(2) d by auto
  with h(1,3) show ?thesis by (intro exI [of _ h]) simp
qed

end
