(* ===== verification/Executions.thy ===== *)
theory Executions
  imports Mo_Props
begin

text \<open>
  The state of PCTWM's execution (\<open>execution.h\<close>, \<open>Thread\<close> in \<open>threads-model.h\<close>) as far as reads, writes and
  fences use it, and the lists that record actions.

  Vectors of actions are shared: the local vector of a thread and the bag of an action are addresses into
  \<open>vecs\<close>, so that a change through one pointer is seen through the others.  Hash tables by location are maps.
  An \<open>actionlist\<close> is the list from its \<open>begin\<close> to its \<open>end\<close>.
\<close>

record execution =
  acts :: "nat \<Rightarrow> action"
  vecs :: "nat list list"
  local_vec :: "nat \<Rightarrow> nat"
  acq_fence_cv :: "nat \<Rightarrow> clocks"
  last_action_val :: "nat \<Rightarrow> 64 word"
  creation :: "nat \<Rightarrow> nat option"
  action_trace :: "nat list"
  obj_map :: "64 word \<Rightarrow> nat list option"
  obj_thrd_map :: "64 word \<Rightarrow> nat list list option"
  obj_wr_thrd_map :: "64 word \<Rightarrow> nat list list option"
  obj_last_sc_map :: "64 word \<Rightarrow> nat option"
  thrd_last_action :: "nat option list"
  thrd_last_fence_release :: "nat option list"
  next_thread_id :: nat
  used_sequence_numbers :: clock
  mo_graph :: cycle_graph

definition upd_act :: "nat \<Rightarrow> (action \<Rightarrow> action) \<Rightarrow> execution \<Rightarrow> execution" where
  "upd_act a f e = e\<lparr>acts := (acts e)(a := f (acts e a))\<rparr>"

definition get_num_threads :: "execution \<Rightarrow> nat" where
  "get_num_threads e = next_thread_id e"

definition get_next_seq_num :: "execution \<Rightarrow> clock \<times> execution" where
  "get_next_seq_num e = (let n = used_sequence_numbers e + 1 in (n, e\<lparr>used_sequence_numbers := n\<rparr>))"

section \<open>Lists\<close>

text \<open>A new element goes behind all that are not later.\<close>

definition al_add :: "(nat \<Rightarrow> action) \<Rightarrow> nat \<Rightarrow> nat list \<Rightarrow> nat list" where
  "al_add as a xs = (let le = (\<lambda>x. seq_number (as x) \<le> seq_number (as a));
     k = length (dropWhile (\<lambda>x. \<not> le x) (rev xs)) in take k xs @ [a] @ drop k xs)"

definition get_last_action :: "nat \<Rightarrow> execution \<Rightarrow> nat option" where
  "get_last_action tid e = (if tid < length (thrd_last_action e) then thrd_last_action e ! tid else None)"

definition get_last_fence_release :: "nat \<Rightarrow> execution \<Rightarrow> nat option" where
  "get_last_fence_release tid e =
     (if tid < length (thrd_last_fence_release e) then thrd_last_fence_release e ! tid else None)"

definition get_last_seq_cst_write :: "nat \<Rightarrow> execution \<Rightarrow> nat option" where
  "get_last_seq_cst_write cur e = obj_last_sc_map e (a_location (acts e cur))"

text \<open>All fences have one location.\<close>

definition FENCE_LOCATION :: "64 word" where "FENCE_LOCATION = 7"

definition get_last_seq_cst_fence :: "nat \<Rightarrow> nat option \<Rightarrow> execution \<Rightarrow> nat option res" where
  "get_last_seq_cst_fence tid before e = (case obj_map e FENCE_LOCATION of
     None \<Rightarrow> Inr None
   | Some xs \<Rightarrow>
       let last = (\<lambda>ys. List.find (\<lambda>a. is_fence (acts e a) \<and> a_tid (acts e a) = tid \<and> is_seqcst (acts e a)) ys)
       in case before of
         None \<Rightarrow> Inr (last (rev xs))
       | Some b \<Rightarrow> (case dropWhile (\<lambda>a. a \<noteq> b) (rev xs) of
           [] \<Rightarrow> Inl Undefined
         | _ # ys \<Rightarrow> Inr (last ys)))"

definition get_last_unlock :: "nat \<Rightarrow> execution \<Rightarrow> nat option" where
  "get_last_unlock cur e = (case obj_map e (a_location (acts e cur)) of
     None \<Rightarrow> None
   | Some xs \<Rightarrow> List.find (\<lambda>a. is_unlock (acts e a) \<or> is_wait (acts e a)) (rev xs))"

definition get_parent_action :: "nat \<Rightarrow> execution \<Rightarrow> nat option" where
  "get_parent_action tid e = (case get_last_action tid e of Some a \<Rightarrow> Some a | None \<Rightarrow> creation e tid)"

definition get_cv :: "nat \<Rightarrow> execution \<Rightarrow> clocks option" where
  "get_cv tid e = (case get_parent_action tid e of Some a \<Rightarrow> a_cv (acts e a) | None \<Rightarrow> None)"

text \<open>Vectors with an entry for each thread grow to the number of threads when a thread is missing; the index is
  not checked after that.\<close>

definition grow_to :: "nat \<Rightarrow> nat \<Rightarrow> 'a \<Rightarrow> 'a list \<Rightarrow> 'a list" where
  "grow_to tid n x xs = (if length xs \<le> tid then resize n x xs else xs)"

definition upd_slot :: "nat \<Rightarrow> ('a \<Rightarrow> 'a) \<Rightarrow> 'a list \<Rightarrow> 'a list res" where
  "upd_slot i f xs = bindR (nthR xs (int i)) (\<lambda>x. updR xs (int i) (f x))"

definition get_safe :: "'a \<Rightarrow> 'a option \<Rightarrow> 'a" where
  "get_safe d m = (case m of None \<Rightarrow> d | Some x \<Rightarrow> x)"

definition add_action_to_lists :: "nat \<Rightarrow> bool \<Rightarrow> execution \<Rightarrow> execution res" where
  "add_action_to_lists a canprune e =
     (let act = acts e a; loc = a_location act; tid = a_tid act; n = get_num_threads e;
        e1 = (if is_fence act \<and> is_seqcst act \<or> is_unlock act
              then e\<lparr>obj_map := (obj_map e)(loc \<mapsto> get_safe [] (obj_map e loc) @ [a])\<rparr> else e);
        e2 = e1\<lparr>action_trace := al_add (acts e) a (action_trace e1)\<rparr>;
        vec = grow_to tid n [] (get_safe [] (obj_thrd_map e2 loc)) in
      bindR (if \<not> canprune \<and> (is_read act \<or> is_write act) then upd_slot tid (al_add (acts e) a) vec else Inr vec) (\<lambda>vec1.
      bindR (upd_slot tid (\<lambda>_. Some a) (grow_to tid n None (thrd_last_action e2))) (\<lambda>la.
      bindR (if is_fence act \<and> is_release act
             then upd_slot tid (\<lambda>_. Some a) (grow_to tid n None (thrd_last_fence_release e2))
             else Inr (thrd_last_fence_release e2)) (\<lambda>lf.
      let e3 = e2\<lparr>obj_thrd_map := (obj_thrd_map e2)(loc \<mapsto> vec1), thrd_last_action := la, thrd_last_fence_release := lf\<rparr> in
      Inr (if is_wait act
           then e3\<lparr>obj_map := (obj_map e3)(a_value act \<mapsto> get_safe [] (obj_map e3 (a_value act)) @ [a])\<rparr> else e3)))))"

definition add_normal_write_to_lists :: "nat \<Rightarrow> execution \<Rightarrow> execution res" where
  "add_normal_write_to_lists a e0 =
     (let e = upd_act a (create_cv None) e0; act = acts e a; loc = a_location act; tid = a_tid act;
        e1 = e\<lparr>action_trace := al_add (acts e) a (action_trace e)\<rparr> in
      bindR (upd_slot tid (al_add (acts e) a) (grow_to tid (get_num_threads e) [] (get_safe [] (obj_thrd_map e1 loc)))) (\<lambda>vec.
      bindR (nthR (thrd_last_action e1) (int tid)) (\<lambda>last.
      let e2 = e1\<lparr>obj_thrd_map := (obj_thrd_map e1)(loc \<mapsto> vec)\<rparr> in
      if last = None \<or> seq_number (acts e (the last)) = seq_number act
      then Inr (e2\<lparr>thrd_last_action := (thrd_last_action e2)[tid := Some a]\<rparr>) else Inr e2)))"

definition add_write_to_lists :: "nat \<Rightarrow> execution \<Rightarrow> execution res" where
  "add_write_to_lists a e =
     (let act = acts e a; loc = a_location act; tid = a_tid act in
      bindR (upd_slot tid (\<lambda>xs. xs @ [a]) (grow_to tid (get_num_threads e) [] (get_safe [] (obj_wr_thrd_map e loc)))) (\<lambda>vec.
      Inr (e\<lparr>obj_wr_thrd_map := (obj_wr_thrd_map e)(loc \<mapsto> vec)\<rparr>)))"

section \<open>Current actions\<close>

text \<open>The first half of \<open>check_current_action\<close>.  The second half of a RMW replaces the action by the read that
  the thread did last; \<open>True\<close> is a new action.\<close>

definition exec_process_rmw :: "nat \<Rightarrow> execution \<Rightarrow> (nat \<times> execution) res" where
  "exec_process_rmw a e = (case get_last_action (a_tid (acts e a)) e of
     None \<Rightarrow> Inl Undefined
   | Some r \<Rightarrow>
       let e1 = upd_act r (\<lambda>x. process_rmw x (acts e a)) e in
       if is_rmw (acts e a) then (case a_union (acts e1 r) of
           Reads_from (Some w) \<Rightarrow> bindR (addRMWEdge (acts e1) w r (mo_graph e1)) (\<lambda>g. Inr (r, e1\<lparr>mo_graph := g\<rparr>))
         | _ \<Rightarrow> Inl Undefined)
       else Inr (r, e1))"

definition initialize_curr_action :: "nat \<Rightarrow> execution \<Rightarrow> (nat \<times> bool \<times> execution) res" where
  "initialize_curr_action a e =
     (if is_rmwc (acts e a) \<or> is_rmw (acts e a)
      then bindR (exec_process_rmw a e) (\<lambda>(r, e1). Inr (r, False, e1))
      else let (n, e1) = get_next_seq_num e; tid = a_tid (acts e a);
             parent = map_option (acts e1) (get_parent_action tid e1);
             fence = get_last_fence_release tid e1
           in Inr (a, True, upd_act a (\<lambda>x. (create_cv parent (set_seq_number n x))\<lparr>last_fence_release := fence\<rparr>) e1))"

definition exec_synchronize :: "nat \<Rightarrow> nat \<Rightarrow> execution \<Rightarrow> (bool \<times> execution) res" where
  "exec_synchronize first second e =
     (if seq_number (acts e second) < seq_number (acts e first) then Inr (False, e)
      else bindR (synchronize_with (acts e second) (acts e first)) (\<lambda>(x, b). Inr (b, upd_act second (\<lambda>_. x) e)))"

end
