(* ===== verification/Local_Views.thy ===== *)
theory Local_Views
  imports Executions
begin

text \<open>
  PCTWM's local views (\<open>execution.cc\<close>, \<open>threads.cc\<close>): a thread keeps a vector with a store for each location
  that it has seen, an action that synchronizes keeps such a vector as its bag, and a read of a store that
  synchronizes collects what the thread of the store knew.
\<close>

section \<open>Vectors of stores\<close>

definition vec_at :: "execution \<Rightarrow> nat \<Rightarrow> nat list res" where
  "vec_at e p = nthR (vecs e) (int p)"

definition set_vec :: "nat \<Rightarrow> nat list \<Rightarrow> execution \<Rightarrow> execution res" where
  "set_vec p xs e = bindR (updR (vecs e) (int p) xs) (\<lambda>vs. Inr (e\<lparr>vecs := vs\<rparr>))"

definition new_vec :: "execution \<Rightarrow> nat \<times> execution" where
  "new_vec e = (length (vecs e), e\<lparr>vecs := vecs e @ [[]]\<rparr>)"

text \<open>The index of the first action with the location of \<open>a\<close>.\<close>

definition var_index :: "execution \<Rightarrow> nat \<Rightarrow> nat list \<Rightarrow> nat option" where
  "var_index e a xs = (let i = length (takeWhile (\<lambda>x. a_location (acts e x) \<noteq> a_location (acts e a)) xs) in
     if i < length xs then Some i else None)"

text \<open>The loop of \<open>updateVec\<close> writes the element that it has found back to its place.\<close>

definition updateVec :: "nat \<Rightarrow> nat \<Rightarrow> execution \<Rightarrow> execution res" where
  "updateVec p a e = bindR (vec_at e p) (\<lambda>xs. case var_index e a xs of
     Some i \<Rightarrow> if seq_number (acts e (xs ! i)) > seq_number (acts e a) then set_vec p (xs[i := xs ! i]) e else Inr e
   | None \<Rightarrow> set_vec p (xs @ [a]) e)"

definition maxVec :: "nat \<Rightarrow> nat \<Rightarrow> execution \<Rightarrow> (nat \<times> execution) res" where
  "maxVec p q e = (let (r, e1) = new_vec e in
     bindR (vec_at e1 p) (\<lambda>xs. bindR (foldR (updateVec r) xs e1) (\<lambda>e2.
     bindR (vec_at e2 q) (\<lambda>ys. bindR (foldR (updateVec r) ys e2) (\<lambda>e3. Inr (r, e3))))))"

section \<open>The vector of a thread\<close>

definition update_local_vec :: "nat \<Rightarrow> nat \<Rightarrow> execution \<Rightarrow> execution res" where
  "update_local_vec t a e = bindR (vec_at e (local_vec e t)) (\<lambda>xs. case var_index e a xs of
     Some i \<Rightarrow> if seq_number (acts e (xs ! i)) > seq_number (acts e a) then set_vec (local_vec e t) (xs[i := a]) e
               else Inr e
   | None \<Rightarrow> set_vec (local_vec e t) (xs @ [a]) e)"

definition set_local_vec :: "nat \<Rightarrow> nat \<Rightarrow> execution \<Rightarrow> execution" where
  "set_local_vec t p e = (let (_, e1) = new_vec e in e1\<lparr>local_vec := (local_vec e1)(t := p)\<rparr>)"

definition get_same_location_act :: "nat \<Rightarrow> nat \<Rightarrow> execution \<Rightarrow> nat option res" where
  "get_same_location_act t a e = bindR (vec_at e (local_vec e t)) (\<lambda>xs.
     Inr (case var_index e a xs of Some i \<Rightarrow> Some (xs ! i) | None \<Rightarrow> None))"

text \<open>\<open>add_thread\<close>, for the threads of the program: one other than the first takes over the vector of that thread.\<close>

definition init_local_vec :: "nat \<Rightarrow> execution \<Rightarrow> execution" where
  "init_local_vec t e = (if t \<noteq> 1 then set_local_vec t (local_vec e 1) e else e)"

section \<open>What a thread has passed on\<close>

text \<open>The walk back over the actions of the thread of \<open>w\<close>, from behind \<open>w\<close> to the first action with a bag or the
  start of the thread.\<close>

fun walk_back :: "nat \<Rightarrow> bool \<Rightarrow> nat list \<Rightarrow> nat \<Rightarrow> nat \<Rightarrow> nat \<Rightarrow> execution \<Rightarrow> (nat \<times> execution) res" where
  "walk_back w before [] acc r l e = Inr (r, e)"
| "walk_back w before (x # xs) acc r l e =
     (let before1 = (before \<or> x = w) in
      if before1 \<and> x \<noteq> w \<and> a_tid (acts e x) = a_tid (acts e w) then
        if is_thread_start (acts e x) then Inr (acc, e)
        else if bag_flag (acts e x) then
          bindR (maxVec acc (a_bag (acts e x)) e) (\<lambda>(acc1, e1). maxVec acc1 l e1)
        else if is_write (acts e x) \<and> is_release (acts e x) then
          bindR (updateVec acc x e) (walk_back w before1 xs acc acc l)
        else walk_back w before1 xs acc r l e
      else walk_back w before1 xs acc r l e)"

definition computeUpdate :: "nat \<Rightarrow> nat \<Rightarrow> execution \<Rightarrow> (nat \<times> execution) res" where
  "computeUpdate rd w e =
     (let (r, e1) = new_vec e; (acc, e2) = new_vec e1; t = a_tid (acts e rd); l = local_vec e2 t in
      bindR (updateVec acc w e2) (\<lambda>e3.
      bindR (walk_back w False (rev (action_trace e3)) acc r l e3) (\<lambda>(r1, e4).
      bindR (maxVec r1 l e4) (\<lambda>(v, e5). Inr (v, upd_act rd (set_bag v) (set_local_vec t v e5))))))"

definition computeUpdate_fence :: "nat \<Rightarrow> nat \<Rightarrow> execution \<Rightarrow> (nat \<times> execution) res" where
  "computeUpdate_fence acq rel e =
     (let (r, e1) = new_vec e; (acc, e2) = new_vec e1; l = local_vec e2 (a_tid (acts e acq)) in
      bindR (walk_back rel False (rev (action_trace e2)) acc r l e2) (\<lambda>(r1, e3). maxVec r1 l e3))"

text \<open>\<open>computeBag_sc\<close> declares \<open>before_flag\<close> inside the loop, so it is set at the current action only.\<close>

fun walk_sc :: "nat \<Rightarrow> nat list \<Rightarrow> execution \<Rightarrow> execution" where
  "walk_sc a [] e = e"
| "walk_sc a (x # xs) e =
     (let before = (x = a) in
      if before \<and> is_seqcst (acts e x) \<and> bag_flag (acts e x) then upd_act a (set_bag (a_bag (acts e x))) e
      else if before \<and> is_thread_start (acts e x) then let (p, e1) = new_vec e in upd_act a (set_bag p) e1
      else walk_sc a xs e)"

definition computeBag_sc :: "nat \<Rightarrow> execution \<Rightarrow> nat \<times> execution" where
  "computeBag_sc a e = (let e1 = walk_sc a (rev (action_trace e)) e in (a_bag (acts e1 a), e1))"

section \<open>Writes and fences\<close>

text \<open>\<open>process_write\<close> up to its last two calls.\<close>

definition write_views :: "nat \<Rightarrow> execution \<Rightarrow> execution res" where
  "write_views a e =
     bindR (if is_seqcst (acts e a) then
              bindR (updateVec (a_bag (acts e a)) a e) (\<lambda>e1. Inr (upd_act a (set_bag (a_bag (acts e1 a))) e1))
            else Inr e) (\<lambda>e1.
     let t = a_tid (acts e1 a); l = local_vec e1 t in
     bindR (updateVec l a e1) (\<lambda>e2. update_local_vec t a (set_local_vec t l e2)))"

definition fence_from :: "nat \<Rightarrow> nat \<Rightarrow> nat \<times> execution \<Rightarrow> (nat \<times> execution) res" where
  "fence_from a i = (\<lambda>(bag, e). case get_last_fence_release i e of
     None \<Rightarrow> Inr (bag, e)
   | Some rel \<Rightarrow> if could_synchronize_with (acts e a) (acts e rel)
       then bindR (computeUpdate_fence a rel e) (\<lambda>(tmp, e1). maxVec tmp bag e1)
       else Inr (bag, e))"

definition process_fence :: "nat \<Rightarrow> execution \<Rightarrow> execution res" where
  "process_fence a e =
     (if is_acquire (acts e a) then
        let t = a_tid (acts e a) in
        bindR (case a_cv (acts e a) of None \<Rightarrow> Inl Undefined
               | Some c \<Rightarrow> Inr (upd_act a (\<lambda>x. x\<lparr>a_cv := Some (fst (cv_merge c (acq_fence_cv e t)))\<rparr>) e)) (\<lambda>e1.
        bindR (foldR (fence_from a) [0..<get_num_threads e1] (new_vec e1)) (\<lambda>(bag, e2).
        bindR (maxVec bag (local_vec e2 t) e2) (\<lambda>(bag1, e3).
        bindR (if is_seqcst (acts e3 a) then maxVec (a_bag (acts e3 a)) bag1 e3 else Inr (bag1, e3)) (\<lambda>(bag2, e4).
        Inr (set_local_vec t bag2 (upd_act a (set_bag bag2) e4))))))
      else Inr e)"

end
