(* ===== verification/View_Facts.thy ===== *)
theory View_Facts
  imports Local_Views
begin

text \<open>
  What the operations on local views do to the heap of vectors: each is an equation that gives the new content of
  the vectors it changes.
\<close>

section \<open>Adding to a vector\<close>

text \<open>The store for a location, and the effect of \<open>updateVec\<close> on the content of a vector.\<close>

definition store_for :: "execution \<Rightarrow> 64 word \<Rightarrow> nat list \<Rightarrow> nat option" where
  "store_for e loc xs = List.find (\<lambda>x. a_location (acts e x) = loc) xs"

definition add_new :: "execution \<Rightarrow> nat \<Rightarrow> nat list \<Rightarrow> nat list" where
  "add_new e a xs = (if store_for e (a_location (acts e a)) xs = None then xs @ [a] else xs)"

lemma store_for_simps [simp]:
  "store_for e loc [] = None"
  "store_for e loc (x # xs) = (if a_location (acts e x) = loc then Some x else store_for e loc xs)"
  by (simp_all add: store_for_def)

lemma store_for_None: "store_for e loc xs = None \<longleftrightarrow> (\<forall>x\<in>set xs. a_location (acts e x) \<noteq> loc)"
  by (induction xs) auto

lemma store_for_Some: "store_for e loc xs = Some x \<Longrightarrow> x \<in> set xs \<and> a_location (acts e x) = loc"
  by (induction xs) (auto split: if_splits)

lemma store_for_append:
  "store_for e loc (xs @ ys) = (case store_for e loc xs of Some x \<Rightarrow> Some x | None \<Rightarrow> store_for e loc ys)"
  by (induction xs) auto

lemma store_for_vecs [simp]: "store_for (e\<lparr>vecs := vs\<rparr>) = store_for e"
  by (simp add: store_for_def fun_eq_iff)

lemma add_new_vecs [simp]: "add_new (e\<lparr>vecs := vs\<rparr>) = add_new e"
  by (simp add: add_new_def fun_eq_iff)

lemma store_for_add_new:
  "store_for e loc (add_new e a xs) = (case store_for e loc xs of Some x \<Rightarrow> Some x
     | None \<Rightarrow> if a_location (acts e a) = loc then Some a else None)"
  by (auto simp: add_new_def store_for_append split: option.splits)

lemma store_for_fold:
  "store_for e loc (fold (add_new e) ys xs) = store_for e loc (xs @ ys)"
proof (induction ys arbitrary: xs)
  case (Cons y ys)
  show ?case by (auto simp: Cons.IH store_for_append store_for_add_new split: option.splits)
qed simp

lemma fold_add_new_distinct:
  "distinct (map (\<lambda>x. a_location (acts e x)) xs) \<Longrightarrow> distinct (map (\<lambda>x. a_location (acts e x)) (fold (add_new e) ys xs))"
proof (induction ys arbitrary: xs)
  case (Cons y ys)
  have "distinct (map (\<lambda>x. a_location (acts e x)) (add_new e y xs))"
    using Cons.prems by (auto simp: add_new_def store_for_None)
  then show ?case by (simp add: Cons.IH)
qed simp

lemma fold_add_new_set: "set (fold (add_new e) ys xs) \<subseteq> set xs \<union> set ys"
  by (induction ys arbitrary: xs) (auto simp: add_new_def, fastforce+)

lemma var_index_None: "var_index e a xs = None \<longleftrightarrow> store_for e (a_location (acts e a)) xs = None"
proof -
  let ?P = "\<lambda>x. a_location (acts e x) \<noteq> a_location (acts e a)"
  have "length (takeWhile ?P xs) < length xs \<longleftrightarrow> \<not> (\<forall>x\<in>set xs. ?P x)" by (induction xs) auto
  then show ?thesis by (auto simp: var_index_def Let_def store_for_None)
qed

lemma var_index_Some:
  assumes "var_index e a xs = Some i"
  shows "i < length xs" "store_for e (a_location (acts e a)) xs = Some (xs ! i)"
proof -
  let ?P = "\<lambda>x. a_location (acts e x) \<noteq> a_location (acts e a)"
  have i: "i = length (takeWhile ?P xs)" "i < length xs" using assms by (auto simp: var_index_def Let_def split: if_splits)
  then show "i < length xs" by simp
  from i show "store_for e (a_location (acts e a)) xs = Some (xs ! i)"
    by (induction xs arbitrary: i) (auto split: if_splits)
qed

lemma vec_at_eq [simp]: "p < length (vecs e) \<Longrightarrow> vec_at e p = Inr (vecs e ! p)"
  by (simp add: vec_at_def)

lemma set_vec_eq [simp]: "p < length (vecs e) \<Longrightarrow> set_vec p xs e = Inr (e\<lparr>vecs := (vecs e)[p := xs]\<rparr>)"
  by (simp add: set_vec_def)

lemma updateVec_eq:
  assumes "p < length (vecs e)"
  shows "updateVec p a e = Inr (e\<lparr>vecs := (vecs e)[p := add_new e a (vecs e ! p)]\<rparr>)"
proof (cases "var_index e a (vecs e ! p)")
  case None
  with var_index_None [of e a "vecs e ! p"] show ?thesis using assms by (simp add: updateVec_def add_new_def)
next
  case (Some i)
  then have "add_new e a (vecs e ! p) = vecs e ! p" using var_index_Some(2) by (simp add: add_new_def)
  then show ?thesis using assms Some by (simp add: updateVec_def)
qed

lemma foldR_updateVec:
  "p < length (vecs e) \<Longrightarrow> foldR (updateVec p) xs e = Inr (e\<lparr>vecs := (vecs e)[p := fold (add_new e) xs (vecs e ! p)]\<rparr>)"
  by (induction xs arbitrary: e) (simp_all add: updateVec_eq)

lemma maxVec_eq:
  assumes "p < length (vecs e)" and "q < length (vecs e)"
  shows "maxVec p q e = Inr (length (vecs e),
    e\<lparr>vecs := vecs e @ [fold (add_new e) (vecs e ! p @ vecs e ! q) []]\<rparr>)"
  using assms by (simp add: maxVec_def new_vec_def foldR_updateVec nth_append)

text \<open>\<open>Thread::update_local_vec\<close> replaces a store by an earlier one.\<close>

lemma update_local_vec_eq:
  assumes "local_vec e t < length (vecs e)"
  shows "update_local_vec t a e = (let xs = vecs e ! local_vec e t in
    case var_index e a xs of
      Some i \<Rightarrow> if seq_number (acts e a) < seq_number (acts e (xs ! i))
                then Inr (e\<lparr>vecs := (vecs e)[local_vec e t := xs[i := a]]\<rparr>) else Inr e
    | None \<Rightarrow> Inr (e\<lparr>vecs := (vecs e)[local_vec e t := xs @ [a]]\<rparr>))"
  using assms by (simp add: update_local_vec_def Let_def split: option.splits)

lemma update_local_vec_later:
  assumes "local_vec e t < length (vecs e)"
    and "store_for e (a_location (acts e a)) (vecs e ! local_vec e t) = Some x"
    and "seq_number (acts e x) \<le> seq_number (acts e a)"
  shows "update_local_vec t a e = Inr e"
proof -
  obtain i where i: "var_index e a (vecs e ! local_vec e t) = Some i" using assms(2) var_index_None
    by (metis option.distinct(1) option.exhaust)
  with var_index_Some(2) [OF i] assms show ?thesis by (simp add: update_local_vec_eq Let_def not_less)
qed

lemma get_same_location_act_eq:
  "local_vec e t < length (vecs e) \<Longrightarrow>
   get_same_location_act t a e = Inr (store_for e (a_location (acts e a)) (vecs e ! local_vec e t))"
  using var_index_None [of e a "vecs e ! local_vec e t"] var_index_Some(2) [of e a "vecs e ! local_vec e t"]
  by (auto simp: get_same_location_act_def split: option.splits)

section \<open>Heaps of views\<close>

text \<open>All pointers lead to vectors, and no vector has two stores of a location.\<close>

definition views_ok :: "execution \<Rightarrow> bool" where
  "views_ok e \<longleftrightarrow> (\<forall>t. local_vec e t < length (vecs e)) \<and> (\<forall>a. a_bag (acts e a) < length (vecs e)) \<and>
     (\<forall>xs\<in>set (vecs e). distinct (map (\<lambda>x. a_location (acts e x)) xs))"

lemma views_ok_update:
  assumes "views_ok e" and "p < length (vecs e)" shows "views_ok (e\<lparr>vecs := (vecs e)[p := fold (add_new e) ys (vecs e ! p)]\<rparr>)"
proof -
  have "distinct (map (\<lambda>x. a_location (acts e x)) (fold (add_new e) ys (vecs e ! p)))"
    using assms by (intro fold_add_new_distinct) (auto simp: views_ok_def)
  moreover have "set ((vecs e)[p := fold (add_new e) ys (vecs e ! p)]) \<subseteq> insert (fold (add_new e) ys (vecs e ! p)) (set (vecs e))"
    by (rule set_update_subset_insert)
  ultimately show ?thesis using assms by (auto simp: views_ok_def)
qed

lemma views_ok_alloc:
  assumes "views_ok e" and "distinct (map (\<lambda>x. a_location (acts e x)) xs)" shows "views_ok (e\<lparr>vecs := vecs e @ [xs]\<rparr>)"
  using assms by (auto simp: views_ok_def less_Suc_eq)

lemma views_ok_maxVec:
  "views_ok e \<Longrightarrow> views_ok (e\<lparr>vecs := vecs e @ [fold (add_new e) xs []]\<rparr>)"
  using fold_add_new_distinct [of e "[]" xs] by (intro views_ok_alloc) simp_all

lemma views_ok_local: "views_ok e \<Longrightarrow> p < length (vecs e) \<Longrightarrow> views_ok (e\<lparr>local_vec := (local_vec e)(t := p)\<rparr>)"
  by (simp add: views_ok_def)

lemma views_ok_upd_act:
  assumes "views_ok e" and "\<And>x. a_location (f x) = a_location x" and "a_bag (f (acts e a)) < length (vecs e)"
  shows "views_ok (upd_act a f e)"
proof -
  have "a_location (acts (upd_act a f e) x) = a_location (acts e x)" for x using assms(2) by (simp add: upd_act_def)
  then show ?thesis using assms(1,3) by (simp add: views_ok_def) (simp add: upd_act_def)
qed

lemma set_bag_simps [simp]:
  "a_location (set_bag p x) = a_location x" "a_tid (set_bag p x) = a_tid x" "seq_number (set_bag p x) = seq_number x"
  "a_bag (set_bag p x) = p" "a_order (set_bag p x) = a_order x" "a_type (set_bag p x) = a_type x"
  by (simp_all add: set_bag_def)


section \<open>The walk back\<close>

text \<open>The actions of the thread of \<open>w\<close> before \<open>w\<close>, latest first; the walk passes those that neither start the
  thread nor have a bag, and collects their releasing stores.\<close>

definition before_of :: "execution \<Rightarrow> nat \<Rightarrow> nat list" where
  "before_of e w = filter (\<lambda>x. a_tid (acts e x) = a_tid (acts e w))
     (tl (dropWhile (\<lambda>x. x \<noteq> w) (rev (action_trace e))))"

definition stops :: "execution \<Rightarrow> nat \<Rightarrow> bool" where
  "stops e x \<longleftrightarrow> is_thread_start (acts e x) \<or> bag_flag (acts e x)"

definition passed_stores :: "execution \<Rightarrow> nat list \<Rightarrow> nat list" where
  "passed_stores e xs = filter (\<lambda>x. is_write (acts e x) \<and> is_release (acts e x)) (takeWhile (\<lambda>x. \<not> stops e x) xs)"

text \<open>What the action at which the walk stops adds: the stores of its bag, unless it starts the thread.\<close>

definition stop_bag :: "execution \<Rightarrow> nat list \<Rightarrow> nat list option" where
  "stop_bag e xs = (case dropWhile (\<lambda>x. \<not> stops e x) xs of
     [] \<Rightarrow> None
   | x # _ \<Rightarrow> Some (if is_thread_start (acts e x) then [] else vecs e ! a_bag (acts e x)))"

lemma walk_back_skip:
  "w \<in> set ts \<Longrightarrow> walk_back w False ts acc r l e = walk_back w True (tl (dropWhile (\<lambda>x. x \<noteq> w) ts)) acc r l e"
  by (induction ts) (auto simp: Let_def)

lemma updateVec_acts: "updateVec p a e = Inr e1 \<Longrightarrow> acts e1 = acts e"
  by (auto simp: updateVec_def set_vec_def bindR_Inr_iff split: option.splits if_splits)

lemma walk_back_filter:
  "w \<notin> set ts \<Longrightarrow> acts e = as \<Longrightarrow>
   walk_back w True ts acc r l e = walk_back w True (filter (\<lambda>x. a_tid (as x) = a_tid (as w)) ts) acc r l e"
proof (induction ts arbitrary: acc r e)
  case (Cons x ts)
  then have ih: "acts e1 = as \<Longrightarrow> walk_back w True ts acc1 r1 l e1 =
      walk_back w True (filter (\<lambda>x. a_tid (as x) = a_tid (as w)) ts) acc1 r1 l e1" for acc1 r1 e1 by simp
  show ?case
  proof (cases "a_tid (as x) = a_tid (as w)")
    case True
    have "acts e1 = as" if "updateVec acc x e = Inr e1" for e1
      using that Cons.prems(2) by (simp add: updateVec_acts)
    with True show ?thesis using Cons.prems ih [of e] ih by (cases "updateVec acc x e") simp_all
  next
    case False
    then show ?thesis using Cons.prems ih [of e] by simp
  qed
qed simp

text \<open>The walk over the actions of the thread.  Besides its vector \<open>acc\<close> it only adds vectors.\<close>

lemma walk_vecs [simp]:
  "stops (e\<lparr>vecs := vs\<rparr>) = stops e" "passed_stores (e\<lparr>vecs := vs\<rparr>) = passed_stores e"
  by (simp_all add: stops_def passed_stores_def fun_eq_iff)

lemma stop_bag_vecs:
  assumes "\<And>x. x \<in> set xs \<Longrightarrow> vs ! a_bag (acts e x) = vecs e ! a_bag (acts e x)"
  shows "stop_bag (e\<lparr>vecs := vs\<rparr>) xs = stop_bag e xs"
proof (cases "dropWhile (\<lambda>x. \<not> stops e x) xs")
  case (Cons x ys)
  then have "x \<in> set xs" by (metis list.set_intros(1) set_dropWhileD)
  then show ?thesis using Cons assms by (simp add: stop_bag_def)
next
  case Nil
  then show ?thesis unfolding stop_bag_def walk_vecs by (simp only: list.case)
qed

definition walked :: "execution \<Rightarrow> nat list \<Rightarrow> nat \<Rightarrow> nat \<Rightarrow> nat list" where
  "walked e xs acc r = (case stop_bag e xs of
     None \<Rightarrow> if passed_stores e xs = [] then vecs e ! r else vecs e ! acc @ passed_stores e xs
   | Some ys \<Rightarrow> vecs e ! acc @ passed_stores e xs @ ys)"

lemma walk_back_thread:
  assumes "\<forall>x\<in>set xs. a_tid (acts e x) = a_tid (acts e w) \<and> x \<noteq> w \<and> a_bag (acts e x) < length (vecs e) \<and> a_bag (acts e x) \<noteq> acc"
    and "acc < length (vecs e)" and "r < length (vecs e)" and "l < length (vecs e)" and "l \<noteq> acc"
  shows "\<exists>v vs. walk_back w True xs acc r l e = Inr (v, e\<lparr>vecs := vs\<rparr>) \<and> v < length vs \<and> length (vecs e) \<le> length vs \<and>
    (\<forall>p<length (vecs e). p \<noteq> acc \<longrightarrow> vs ! p = vecs e ! p) \<and>
    (\<forall>loc. store_for e loc (vs ! v @ vecs e ! l) = store_for e loc (walked e xs acc r @ vecs e ! l))"
  using assms
proof (induction xs arbitrary: r e)
  case Nil
  then show ?case
    by (intro exI [of _ r] exI [of _ "vecs e"]) (simp add: walked_def stop_bag_def passed_stores_def)
next
  case (Cons x xs)
  then have x: "a_tid (acts e x) = a_tid (acts e w)" "x \<noteq> w" "a_bag (acts e x) < length (vecs e)" "a_bag (acts e x) \<noteq> acc"
    by auto
  consider (start) "is_thread_start (acts e x)" | (bag) "\<not> is_thread_start (acts e x)" "bag_flag (acts e x)"
    | (release) "\<not> stops e x" "is_write (acts e x)" "is_release (acts e x)"
    | (other) "\<not> stops e x" "\<not> (is_write (acts e x) \<and> is_release (acts e x))"
    by (auto simp: stops_def)
  then show ?case
  proof cases
    case start
    then have "walked e (x # xs) acc r = vecs e ! acc"
      by (simp add: walked_def stop_bag_def passed_stores_def stops_def)
    with start x Cons.prems(2) show ?thesis
      by (intro exI [of _ acc] exI [of _ "vecs e"]) simp
  next
    case bag
    then have wd: "walked e (x # xs) acc r = vecs e ! acc @ vecs e ! a_bag (acts e x)"
      by (simp add: walked_def stop_bag_def passed_stores_def stops_def)
    let ?v1 = "fold (add_new e) (vecs e ! acc @ vecs e ! a_bag (acts e x)) []"
    let ?vs = "(vecs e @ [?v1]) @ [fold (add_new e) (?v1 @ vecs e ! l) []]"
    have "walk_back w True (x # xs) acc r l e = Inr (Suc (length (vecs e)), e\<lparr>vecs := ?vs\<rparr>)"
      using bag x Cons.prems(2,4) by (simp add: maxVec_eq nth_append)
    moreover have "store_for e loc (?vs ! Suc (length (vecs e)) @ vecs e ! l) =
        store_for e loc (walked e (x # xs) acc r @ vecs e ! l)" for loc
      by (auto simp: wd nth_append store_for_fold store_for_append split: option.splits)
    ultimately show ?thesis by (intro exI conjI) (auto simp: nth_append)
  next
    case release
    define e1 where "e1 = e\<lparr>vecs := (vecs e)[acc := add_new e x (vecs e ! acc)]\<rparr>"
    have u: "updateVec acc x e = Inr e1" using Cons.prems(2) by (simp add: updateVec_eq e1_def)
    have p1: "\<forall>y\<in>set xs. a_tid (acts e1 y) = a_tid (acts e1 w) \<and> y \<noteq> w \<and> a_bag (acts e1 y) < length (vecs e1) \<and>
        a_bag (acts e1 y) \<noteq> acc" "acc < length (vecs e1)" "l < length (vecs e1)" "l \<noteq> acc"
      using Cons.prems by (simp_all add: e1_def)
    from Cons.IH [OF p1(1,2,2,3,4)] obtain v vs where ih: "walk_back w True xs acc acc l e1 = Inr (v, e1\<lparr>vecs := vs\<rparr>)"
      "v < length vs" "length (vecs e1) \<le> length vs" "\<forall>p<length (vecs e1). p \<noteq> acc \<longrightarrow> vs ! p = vecs e1 ! p"
      "\<forall>loc. store_for e1 loc (vs ! v @ vecs e1 ! l) = store_for e1 loc (walked e1 xs acc acc @ vecs e1 ! l)" by blast
    have sb: "stop_bag e1 xs = stop_bag e (x # xs)"
    proof -
      have "stop_bag e1 xs = stop_bag e xs" unfolding e1_def
        by (rule stop_bag_vecs) (use Cons.prems(1) in auto)
      then show ?thesis using release(1) by (simp add: stop_bag_def)
    qed
    have ps: "passed_stores e (x # xs) = x # passed_stores e xs" using release by (simp add: passed_stores_def)
    have a1: "vecs e1 ! acc = add_new e x (vecs e ! acc)" using Cons.prems(2) by (simp add: e1_def)
    have "store_for e loc (walked e1 xs acc acc @ vecs e ! l) = store_for e loc (walked e (x # xs) acc r @ vecs e ! l)" for loc
      by (simp add: walked_def sb ps a1 split: option.splits)
        (auto simp: e1_def store_for_append store_for_add_new split: option.splits)
    then have "\<forall>loc. store_for e loc (vs ! v @ vecs e ! l) = store_for e loc (walked e (x # xs) acc r @ vecs e ! l)"
      using ih(5) Cons.prems(5) by (simp add: e1_def)
    moreover have "walk_back w True (x # xs) acc r l e = Inr (v, e\<lparr>vecs := vs\<rparr>)"
      using x release u ih(1) by (simp add: stops_def) (simp add: e1_def)
    ultimately show ?thesis using ih(2-4) by (intro exI [of _ v] exI [of _ vs]) (simp add: e1_def)
  next
    case other
    then have "passed_stores e (x # xs) = passed_stores e xs" "stop_bag e (x # xs) = stop_bag e xs"
      by (auto simp: passed_stores_def stop_bag_def)
    then have "walked e (x # xs) acc r = walked e xs acc r" by (simp only: walked_def)
    moreover have "walk_back w True (x # xs) acc r l e = walk_back w True xs acc r l e"
      using x other by (auto simp: stops_def)
    ultimately show ?thesis using Cons.IH [of e r] Cons.prems by simp
  qed
qed

end
