(* ===== verification/View_Changes.thy ===== *)
theory View_Changes
  imports View_Facts
begin

text \<open>
  The operations of PCTWM's execution on local views, one by one: none leaves the heap of vectors, and each changes
  nothing but views and the bag of its action.
\<close>

section \<open>No operation leaves the heap\<close>

definition extends :: "execution \<Rightarrow> execution \<Rightarrow> bool" where
  "extends e e1 \<longleftrightarrow> views_ok e1 \<and> (\<exists>vs. e1 = e\<lparr>vecs := vs\<rparr> \<and> length (vecs e) \<le> length vs)"

lemma extends_refl: "views_ok e \<Longrightarrow> extends e e"
  unfolding extends_def by (intro conjI exI [of _ "vecs e"]) simp_all

lemma extends_trans: "extends e e1 \<Longrightarrow> extends e1 e2 \<Longrightarrow> extends e e2"
  by (auto simp: extends_def)

lemma extends_ok: "extends e e1 \<Longrightarrow> views_ok e1"
  by (simp add: extends_def)

lemma extends_same:
  assumes "extends e e1"
  shows "acts e1 = acts e" "local_vec e1 = local_vec e" "length (vecs e) \<le> length (vecs e1)"
    "thrd_last_fence_release e1 = thrd_last_fence_release e" "next_thread_id e1 = next_thread_id e"
    "action_trace e1 = action_trace e" "acq_fence_cv e1 = acq_fence_cv e"
  using assms by (auto simp: extends_def)

lemma updateVec_extends:
  assumes "views_ok e" and "p < length (vecs e)" shows "\<exists>e1. updateVec p a e = Inr e1 \<and> extends e e1"
  using views_ok_update [OF assms, of "[a]"] assms(2) by (auto simp: updateVec_eq extends_def)

lemma maxVec_extends:
  assumes "views_ok e" and "p < length (vecs e)" and "q < length (vecs e)"
  shows "\<exists>v e1. maxVec p q e = Inr (v, e1) \<and> extends e e1 \<and> v < length (vecs e1)"
  using views_ok_maxVec [OF assms(1), of "vecs e ! p @ vecs e ! q"] assms(2,3) by (auto simp: maxVec_eq extends_def)

lemma new_vec_extends: "views_ok e \<Longrightarrow> extends e (snd (new_vec e)) \<and> fst (new_vec e) < length (vecs (snd (new_vec e)))"
  using views_ok_alloc [of e "[]"] by (auto simp: new_vec_def extends_def)

lemma walk_back_extends:
  "views_ok e \<Longrightarrow> acc < length (vecs e) \<Longrightarrow> r < length (vecs e) \<Longrightarrow> l < length (vecs e) \<Longrightarrow>
   \<exists>v e1. walk_back w b xs acc r l e = Inr (v, e1) \<and> extends e e1 \<and> v < length (vecs e1)"
proof (induction xs arbitrary: b r e)
  case Nil
  then show ?case by (simp add: extends_refl)
next
  case (Cons x xs)
  have bag: "a_bag (acts e x) < length (vecs e)" using Cons.prems(1) by (simp add: views_ok_def)
  obtain v1 e1 where m1: "maxVec acc (a_bag (acts e x)) e = Inr (v1, e1)" "extends e e1" "v1 < length (vecs e1)"
    using maxVec_extends [OF Cons.prems(1,2) bag] by blast
  have "l < length (vecs e1)" using Cons.prems(4) extends_same(3) [OF m1(2)] by simp
  then obtain v2 e2 where m2: "maxVec v1 l e1 = Inr (v2, e2)" "extends e1 e2" "v2 < length (vecs e2)"
    using maxVec_extends [OF extends_ok [OF m1(2)] m1(3)] by blast
  obtain e3 where u: "updateVec acc x e = Inr e3" "extends e e3" using updateVec_extends [OF Cons.prems(1,2)] by blast
  have "acc < length (vecs e3)" "l < length (vecs e3)" using Cons.prems(2,4) extends_same(3) [OF u(2)] by simp_all
  then have ih: "\<exists>v e1. walk_back w c xs acc acc l e3 = Inr (v, e1) \<and> extends e e1 \<and> v < length (vecs e1)" for c
    using Cons.IH [OF extends_ok [OF u(2)], of acc c] extends_trans [OF u(2)] by blast
  note ih5 = Cons.IH [OF Cons.prems]
  show ?case
    using m1 m2 u ih ih5 Cons.prems(1,2) extends_refl [OF Cons.prems(1)] extends_trans [OF m1(2) m2(2)]
    by (simp add: Let_def)
qed

text \<open>The operations also change the pointers of one thread and of one action.\<close>

lemma views_ok_set_local:
  assumes "views_ok e" and "p < length (vecs e)" shows "views_ok (set_local_vec t p e)"
  using views_ok_local [OF views_ok_alloc [OF assms(1), of "[]"], of p t] assms(2)
  by (simp add: set_local_vec_def new_vec_def)

lemma views_ok_set_bag: "views_ok e \<Longrightarrow> p < length (vecs e) \<Longrightarrow> views_ok (upd_act a (set_bag p) e)"
  by (rule views_ok_upd_act) simp_all

lemma length_set_local [simp]: "length (vecs (set_local_vec t p e)) = Suc (length (vecs e))"
  by (simp add: set_local_vec_def new_vec_def)

lemma vecs_upd_act [simp]: "vecs (upd_act a f e) = vecs e" "local_vec (upd_act a f e) = local_vec e"
  by (simp_all add: upd_act_def)

lemma views_ok_ptr: "views_ok e \<Longrightarrow> local_vec e t < length (vecs e)" "views_ok e \<Longrightarrow> a_bag (acts e a) < length (vecs e)"
  by (simp_all add: views_ok_def)

text \<open>Only views change, and the bag of \<open>a\<close>.\<close>

definition views_only :: "nat \<Rightarrow> execution \<Rightarrow> execution \<Rightarrow> bool" where
  "views_only a e e1 \<longleftrightarrow> views_ok e1 \<and> length (vecs e) \<le> length (vecs e1) \<and>
     (\<exists>vs l b f. e1 = e\<lparr>acts := (acts e)(a := (acts e a)\<lparr>bag_flag := f, a_bag := b\<rparr>), vecs := vs, local_vec := l\<rparr>)"

lemma views_only_ok: "views_only a e e1 \<Longrightarrow> views_ok e1"
  by (simp add: views_only_def)

lemma views_onlyI:
  "e1 = e\<lparr>acts := (acts e)(a := (acts e a)\<lparr>bag_flag := f, a_bag := b\<rparr>), vecs := vs, local_vec := l\<rparr> \<Longrightarrow>
   views_ok e1 \<Longrightarrow> length (vecs e) \<le> length (vecs e1) \<Longrightarrow> views_only a e e1"
  unfolding views_only_def by blast

lemma views_only_trans:
  assumes "views_only a e e1" and "views_only a e1 e2" shows "views_only a e e2"
proof -
  obtain vs l b f where e1: "e1 = e\<lparr>acts := (acts e)(a := (acts e a)\<lparr>bag_flag := f, a_bag := b\<rparr>), vecs := vs, local_vec := l\<rparr>"
    using assms(1) unfolding views_only_def by blast
  obtain vs' l' b' f' where e2: "e2 = e1\<lparr>acts := (acts e1)(a := (acts e1 a)\<lparr>bag_flag := f', a_bag := b'\<rparr>), vecs := vs', local_vec := l'\<rparr>"
    using assms(2) unfolding views_only_def by blast
  show ?thesis
  proof (rule views_onlyI)
    show "e2 = e\<lparr>acts := (acts e)(a := (acts e a)\<lparr>bag_flag := f', a_bag := b'\<rparr>), vecs := vs', local_vec := l'\<rparr>"
      by (simp add: e2 e1)
  qed (use assms in \<open>auto simp: views_only_def\<close>)
qed

lemma extends_only: "extends e e1 \<Longrightarrow> views_only a e e1"
  unfolding extends_def views_only_def
  by (auto intro!: exI [of _ "local_vec e"] exI [of _ "a_bag (acts e a)"] exI [of _ "bag_flag (acts e a)"])

lemma views_only_refl: "views_ok e \<Longrightarrow> views_only a e e"
  using extends_only extends_refl by blast

lemma set_local_only:
  assumes "views_ok e" and "p < length (vecs e)" shows "views_only a e (set_local_vec t p e)"
proof (rule views_onlyI)
  show "set_local_vec t p e = e\<lparr>acts := (acts e)(a := (acts e a)\<lparr>bag_flag := bag_flag (acts e a), a_bag := a_bag (acts e a)\<rparr>),
      vecs := vecs e @ [[]], local_vec := (local_vec e)(t := p)\<rparr>" by (simp add: set_local_vec_def new_vec_def)
qed (use views_ok_set_local [OF assms] in simp_all)

lemma set_bag_only:
  assumes "views_ok e" and "p < length (vecs e)" shows "views_only a e (upd_act a (set_bag p) e)"
proof (rule views_onlyI)
  show "upd_act a (set_bag p) e = e\<lparr>acts := (acts e)(a := (acts e a)\<lparr>bag_flag := True, a_bag := p\<rparr>),
      vecs := vecs e, local_vec := local_vec e\<rparr>" by (simp add: upd_act_def set_bag_def)
qed (use views_ok_set_bag [OF assms] in simp_all)

lemma update_local_vec_extends:
  assumes ok: "views_ok e" shows "\<exists>e1. update_local_vec t a e = Inr e1 \<and> extends e e1"
proof -
  let ?p = "local_vec e t" let ?xs = "vecs e ! ?p"
  have p: "?p < length (vecs e)" by (rule views_ok_ptr(1) [OF ok])
  have d: "distinct (map (\<lambda>x. a_location (acts e x)) ?xs)" using ok p by (auto simp: views_ok_def)
  show ?thesis
  proof (cases "var_index e a ?xs")
    case None
    then have "?xs @ [a] = fold (add_new e) [a] ?xs" by (simp add: add_new_def var_index_None)
    then show ?thesis using views_ok_update [OF ok p, of "[a]"] None p
      by (auto simp: update_local_vec_eq Let_def extends_def)
  next
    case (Some i)
    note i = var_index_Some [OF Some]
    have "map (\<lambda>x. a_location (acts e x)) (?xs[i := a]) = map (\<lambda>x. a_location (acts e x)) ?xs"
      using i store_for_Some [OF i(2)] by (intro nth_equalityI) (auto simp: nth_list_update)
    then have "views_ok (e\<lparr>vecs := (vecs e)[?p := ?xs[i := a]]\<rparr>)"
      using ok d set_update_subset_insert [of "vecs e" ?p "?xs[i := a]"] by (auto simp: views_ok_def)
    then show ?thesis using Some p extends_refl [OF ok] by (auto simp: update_local_vec_eq Let_def extends_def)
  qed
qed

lemma computeUpdate_only:
  assumes ok: "views_ok e"
  shows "\<exists>v e1. computeUpdate rd w e = Inr (v, e1) \<and> views_only rd e e1"
proof -
  define r e1 acc e2 where "r = fst (new_vec e)" and "e1 = snd (new_vec e)" and "acc = fst (new_vec e1)"
    and "e2 = snd (new_vec e1)"
  let ?t = "a_tid (acts e rd)"
  have x1: "extends e e1" "r < length (vecs e1)" using new_vec_extends [OF ok] by (simp_all add: r_def e1_def)
  have x2: "extends e1 e2" "acc < length (vecs e2)" using new_vec_extends [OF extends_ok [OF x1(1)]] by (simp_all add: acc_def e2_def)
  have ok2: "views_ok e2" by (rule extends_ok [OF x2(1)])
  obtain e3 where u: "updateVec acc w e2 = Inr e3" "extends e2 e3" using updateVec_extends [OF ok2 x2(2)] by blast
  have lt: "r < length (vecs e3)" "acc < length (vecs e3)" "local_vec e2 ?t < length (vecs e3)"
    using x1(2) x2(2) extends_same(3) [OF x2(1)] extends_same(3) [OF u(2)] views_ok_ptr(1) [OF ok2, of ?t] by simp_all
  obtain v e4 where w: "walk_back w False (rev (action_trace e3)) acc r (local_vec e2 ?t) e3 = Inr (v, e4)"
    "extends e3 e4" "v < length (vecs e4)" using walk_back_extends [OF extends_ok [OF u(2)] lt(2,1,3)] by blast
  have "local_vec e2 ?t < length (vecs e4)" using lt(3) extends_same(3) [OF w(2)] by simp
  then obtain v5 e5 where m: "maxVec v (local_vec e2 ?t) e4 = Inr (v5, e5)" "extends e4 e5" "v5 < length (vecs e5)"
    using maxVec_extends [OF extends_ok [OF w(2)] w(3)] by blast
  have "computeUpdate rd w e = Inr (v5, upd_act rd (set_bag v5) (set_local_vec ?t v5 e5))"
    using u(1) w(1) m(1) by (simp add: computeUpdate_def case_prod_beta Let_def r_def e1_def acc_def e2_def)
  moreover have "extends e e5" using x1(1) x2(1) u(2) w(2) m(2) by (blast intro: extends_trans)
  moreover have "views_only rd e5 (upd_act rd (set_bag v5) (set_local_vec ?t v5 e5))"
    using m(3) by (intro views_only_trans [OF set_local_only set_bag_only] views_ok_set_local extends_ok [OF m(2)]) simp_all
  ultimately show ?thesis using views_only_trans [OF extends_only] by blast
qed

lemma computeUpdate_fence_extends:
  assumes ok: "views_ok e"
  shows "\<exists>v e1. computeUpdate_fence acq rel e = Inr (v, e1) \<and> extends e e1 \<and> v < length (vecs e1)"
proof -
  define r e1 acc e2 where "r = fst (new_vec e)" and "e1 = snd (new_vec e)" and "acc = fst (new_vec e1)"
    and "e2 = snd (new_vec e1)"
  let ?l = "local_vec e2 (a_tid (acts e acq))"
  have x1: "extends e e1" "r < length (vecs e1)" using new_vec_extends [OF ok] by (simp_all add: r_def e1_def)
  have x2: "extends e1 e2" "acc < length (vecs e2)" using new_vec_extends [OF extends_ok [OF x1(1)]] by (simp_all add: acc_def e2_def)
  have ok2: "views_ok e2" by (rule extends_ok [OF x2(1)])
  have lt: "r < length (vecs e2)" "?l < length (vecs e2)"
    using x1(2) extends_same(3) [OF x2(1)] views_ok_ptr(1) [OF ok2] by simp_all
  obtain v e3 where w: "walk_back rel False (rev (action_trace e2)) acc r ?l e2 = Inr (v, e3)"
    "extends e2 e3" "v < length (vecs e3)" using walk_back_extends [OF ok2 x2(2) lt] by blast
  have "?l < length (vecs e3)" using lt(2) extends_same(3) [OF w(2)] by simp
  then obtain v4 e4 where m: "maxVec v ?l e3 = Inr (v4, e4)" "extends e3 e4" "v4 < length (vecs e4)"
    using maxVec_extends [OF extends_ok [OF w(2)] w(3)] by blast
  have "computeUpdate_fence acq rel e = Inr (v4, e4)"
    using w(1) m(1) by (simp add: computeUpdate_fence_def case_prod_beta Let_def r_def e1_def acc_def e2_def)
  moreover have "extends e e4" using x1(1) x2(1) w(2) m(2) by (blast intro: extends_trans)
  ultimately show ?thesis using m(3) by blast
qed

lemma fence_loop_extends:
  assumes "extends e e1" and "bag < length (vecs e1)"
  shows "\<exists>v e2. foldR (fence_from a) is (bag, e1) = Inr (v, e2) \<and> extends e e2 \<and> v < length (vecs e2)"
proof -
  let ?I = "\<lambda>(v, x). extends e x \<and> v < length (vecs x)"
  have "\<exists>s. foldR (fence_from a) is (bag, e1) = Inr s \<and> ?I s"
  proof (rule foldR_invariant)
    show "?I (bag, e1)" using assms by simp
    fix i s assume s: "?I s"
    obtain v x where sx: "s = (v, x)" by fastforce
    with s have x: "extends e x" "v < length (vecs x)" by auto
    show "\<exists>s'. fence_from a i s = Inr s' \<and> ?I s'"
    proof (cases "get_last_fence_release i x")
      case None
      then show ?thesis using s sx by (auto simp: fence_from_def)
    next
      case (Some rel)
      obtain u y where u: "computeUpdate_fence a rel x = Inr (u, y)" "extends x y" "u < length (vecs y)"
        using computeUpdate_fence_extends [OF extends_ok [OF x(1)]] by blast
      have "v < length (vecs y)" using x(2) extends_same(3) [OF u(2)] by simp
      then obtain m z where m: "maxVec u v y = Inr (m, z)" "extends y z" "m < length (vecs z)"
        using maxVec_extends [OF extends_ok [OF u(2)] u(3)] by blast
      then show ?thesis using Some s sx u(1) extends_trans [OF x(1) extends_trans [OF u(2) m(2)]]
        by (auto simp: fence_from_def)
    qed
  qed
  then show ?thesis by auto
qed


lemma write_views_only:
  assumes ok: "views_ok e" shows "\<exists>e1. write_views a e = Inr e1 \<and> views_only a e e1"
proof -
  obtain e1 where e1: "(if is_seqcst (acts e a) then bindR (updateVec (a_bag (acts e a)) a e)
      (\<lambda>e1. Inr (upd_act a (set_bag (a_bag (acts e1 a))) e1)) else Inr e) = Inr e1" "views_only a e e1"
  proof (cases "is_seqcst (acts e a)")
    case True
    obtain e1 where u: "updateVec (a_bag (acts e a)) a e = Inr e1" "extends e e1"
      using updateVec_extends [OF ok views_ok_ptr(2) [OF ok, of a]] by blast
    have "views_only a e1 (upd_act a (set_bag (a_bag (acts e1 a))) e1)"
      by (rule set_bag_only [OF extends_ok [OF u(2)] views_ok_ptr(2) [OF extends_ok [OF u(2)]]])
    then show ?thesis using u True views_only_trans [OF extends_only [OF u(2)]] by (intro that) auto
  next
    case False
    then show ?thesis using views_only_refl [OF ok] by (intro that) simp_all
  qed
  let ?t = "a_tid (acts e1 a)"
  note ok1 = views_only_ok [OF e1(2)]
  obtain e2 where u: "updateVec (local_vec e1 ?t) a e1 = Inr e2" "extends e1 e2"
    using updateVec_extends [OF ok1 views_ok_ptr(1) [OF ok1, of ?t]] by blast
  have l: "local_vec e1 ?t < length (vecs e2)" using views_ok_ptr(1) [OF ok1] extends_same(3) [OF u(2)]
    by (rule less_le_trans)
  have s: "views_only a e2 (set_local_vec ?t (local_vec e1 ?t) e2)" by (rule set_local_only [OF extends_ok [OF u(2)] l])
  obtain e4 where x: "update_local_vec ?t a (set_local_vec ?t (local_vec e1 ?t) e2) = Inr e4"
    "extends (set_local_vec ?t (local_vec e1 ?t) e2) e4" using update_local_vec_extends [OF views_only_ok [OF s]] by blast
  have "views_only a e e4"
    using e1(2) extends_only [OF u(2)] s extends_only [OF x(2)] by (blast intro: views_only_trans)
  then show ?thesis using e1(1) u(1) x(1) by (auto simp: write_views_def Let_def)
qed

text \<open>An acquire fence also takes over what the reads of its thread could have acquired.\<close>

definition fence_clock :: "nat \<Rightarrow> execution \<Rightarrow> execution" where
  "fence_clock a e = (if is_acquire (acts e a)
     then upd_act a (\<lambda>x. x\<lparr>a_cv := map_option (\<lambda>c. fst (cv_merge c (acq_fence_cv e (a_tid (acts e a))))) (a_cv x)\<rparr>) e
     else e)"

lemma process_fence_only:
  assumes ok: "views_ok e" and cv: "a_cv (acts e a) \<noteq> None"
  shows "\<exists>e1. process_fence a e = Inr e1 \<and> views_only a (fence_clock a e) e1"
proof (cases "is_acquire (acts e a)")
  case True
  obtain c where c: "a_cv (acts e a) = Some c" using cv by auto
  let ?t = "a_tid (acts e a)"
  define e1 where "e1 = upd_act a (\<lambda>x. x\<lparr>a_cv := Some (fst (cv_merge c (acq_fence_cv e ?t)))\<rparr>) e"
  have ok1: "views_ok e1" unfolding e1_def
    by (rule views_ok_upd_act [OF ok]) (use views_ok_ptr(2) [OF ok] in simp_all)
  obtain v0 e0 where n: "new_vec e1 = (v0, e0)" by fastforce
  then have "extends e1 e0" "v0 < length (vecs e0)" using new_vec_extends [OF ok1] by simp_all
  then obtain v2 e2 where f: "foldR (fence_from a) [0..<get_num_threads e1] (v0, e0) = Inr (v2, e2)" "extends e1 e2"
    "v2 < length (vecs e2)" using fence_loop_extends by blast
  have ok2: "views_ok e2" by (rule extends_ok [OF f(2)])
  obtain v3 e3 where m: "maxVec v2 (local_vec e2 ?t) e2 = Inr (v3, e3)" "extends e2 e3" "v3 < length (vecs e3)"
    using maxVec_extends [OF ok2 f(3) views_ok_ptr(1) [OF ok2]] by blast
  have ok3: "views_ok e3" by (rule extends_ok [OF m(2)])
  obtain v4 e4 where s: "(if is_seqcst (acts e3 a) then maxVec (a_bag (acts e3 a)) v3 e3 else Inr (v3, e3)) = Inr (v4, e4)"
    "extends e3 e4" "v4 < length (vecs e4)"
    using maxVec_extends [OF ok3 views_ok_ptr(2) [OF ok3] m(3), of a] extends_refl [OF ok3] m(3)
    by (cases "is_seqcst (acts e3 a)") auto
  have "process_fence a e = Inr (set_local_vec ?t v4 (upd_act a (set_bag v4) e4))"
    using True c n f(1) m(1) s(1) by (simp add: process_fence_def Let_def e1_def [symmetric])
  moreover have "extends e1 e4"
    using \<open>extends e1 e0\<close> f(2) m(2) s(2) extends_trans [OF \<open>extends e1 e0\<close>] by (blast intro: extends_trans)
  moreover have "views_only a e4 (set_local_vec ?t v4 (upd_act a (set_bag v4) e4))"
    using s(3) by (intro views_only_trans [OF set_bag_only set_local_only] views_ok_set_bag extends_ok [OF s(2)]) simp_all
  moreover have "fence_clock a e = e1" using True c by (simp add: fence_clock_def e1_def upd_act_def)
  ultimately show ?thesis using views_only_trans [OF extends_only] by auto
next
  case False
  then show ?thesis using views_only_refl [OF ok] by (simp add: process_fence_def fence_clock_def)
qed

lemma walk_sc_only: "views_ok e \<Longrightarrow> views_only a e (walk_sc a xs e)"
proof (induction xs)
  case (Cons x xs)
  obtain p e1 where n: "new_vec e = (p, e1)" by fastforce
  then have e1: "extends e e1" "p < length (vecs e1)" using new_vec_extends [OF Cons.prems] by auto
  have "views_only a e (upd_act a (set_bag p) e1)"
    using views_only_trans [OF extends_only [OF e1(1)] set_bag_only [OF extends_ok [OF e1(1)] e1(2)]] .
  then show ?case using Cons n set_bag_only [OF Cons.prems views_ok_ptr(2) [OF Cons.prems]] by (auto simp: Let_def)
qed (simp add: views_only_refl)

lemma computeBag_sc_only: "views_ok e \<Longrightarrow> views_only a e (snd (computeBag_sc a e))"
  by (simp add: computeBag_sc_def Let_def walk_sc_only)

lemma init_local_vec_ok: "views_ok e \<Longrightarrow> views_ok (init_local_vec t e)"
  by (simp add: init_local_vec_def views_ok_set_local views_ok_ptr)

end
