(* ===== verification/Read_Orders.thy ===== *)
theory Read_Orders
  imports Local_Views Race_Detector
begin

text \<open>
  Reads and writes of PCTWM's execution (\<open>execution.cc\<close>, \<open>fuzzer.cc\<close>): what happens before a write, which stores a
  read may read from, the constraints on the modification order that a read and a write bring, and the loops that
  pick a store until one is accepted.

  \<open>cur\<close> is the current action and \<open>rf\<close> the store that a read would read from.
\<close>

section \<open>What happens before a write\<close>

definition reads_from :: "execution \<Rightarrow> nat \<Rightarrow> nat option res" where
  "reads_from e a = (case a_union (acts e a) of Reads_from r \<Rightarrow> Inr r | _ \<Rightarrow> Inl Undefined)"

text \<open>The chain of RMWs that \<open>rf\<close> ends: the actions whose vector is still to be computed, and the one that it
  starts with.\<close>

partial_function (option) hb_chain :: "execution \<Rightarrow> nat option \<Rightarrow> nat list \<Rightarrow> (nat \<times> nat list) res option" where
  "hb_chain e rf ps = (case rf of
     None \<Rightarrow> Some (Inl Undefined)
   | Some w \<Rightarrow>
       let act = acts e w in
       if \<not> is_rmw act \<or> (is_acquire act \<and> is_release act) \<or> a_rf_cv act \<noteq> None then Some (Inr (w, ps))
       else (case reads_from e w of
           Inl f \<Rightarrow> Some (Inl f)
         | Inr r \<Rightarrow> hb_chain e r (ps @ [w])))"

definition merge_cv :: "clocks option \<Rightarrow> clocks option \<Rightarrow> clocks option res" where
  "merge_cv vec c = (case c of None \<Rightarrow> Inl Undefined | Some d \<Rightarrow> Inr (Some (fst (cv_merge (cv_new vec None) d))))"

definition hb_of :: "nat \<Rightarrow> clocks option \<times> execution \<Rightarrow> (clocks option \<times> execution) res" where
  "hb_of w = (\<lambda>(vec, e).
     let act = acts e w; keep = (\<lambda>v. Inr (v, upd_act w (\<lambda>x. x\<lparr>a_rf_cv := v\<rparr>) e)) in
     if a_rf_cv act \<noteq> None then Inr (a_rf_cv act, e)
     else if is_acquire act \<and> is_release act then Inr (a_cv act, e)
     else if is_release act \<and> \<not> is_rmw act then Inr (a_cv act, e)
     else if is_release act then bindR (merge_cv vec (a_cv act)) keep
     else (case last_fence_release act of
         Some f \<Rightarrow> (case vec of
             None \<Rightarrow> keep (Some (cv_new (a_cv (acts e f)) None))
           | Some v \<Rightarrow> bindR (merge_cv vec (a_cv (acts e f))) keep)
       | None \<Rightarrow> (case vec of
             None \<Rightarrow> keep (if is_rmw act then Some (cv_new None None) else None)
           | Some v \<Rightarrow> keep (Some (cv_new vec None)))))"

definition get_hb_from_write :: "nat \<Rightarrow> execution \<Rightarrow> (clocks option \<times> execution) res" where
  "get_hb_from_write rf e =
     bindR (ended (hb_chain e (Some rf) [])) (\<lambda>(w, ps). foldR hb_of (w # rev ps) (None, e))"

definition read_from :: "nat \<Rightarrow> nat \<Rightarrow> execution \<Rightarrow> execution res" where
  "read_from cur rf e =
     (let e1 = upd_act cur (set_read_from rf) e in
      if is_acquire (acts e1 cur) then bindR (get_hb_from_write rf e1) (\<lambda>(vec, e2). case vec of
          None \<Rightarrow> Inr e2
        | Some v \<Rightarrow> (case a_cv (acts e2 cur) of
            None \<Rightarrow> Inl Undefined
          | Some c \<Rightarrow> Inr (upd_act cur (\<lambda>x. x\<lparr>a_cv := Some (fst (cv_merge c v))\<rparr>) e2)))
      else Inr e1)"

section \<open>Constraints of a read\<close>

definition act_hb :: "execution \<Rightarrow> nat \<Rightarrow> nat \<Rightarrow> bool res" where
  "act_hb e a b = happens_before (acts e a) (acts e b)"

definition act_before :: "execution \<Rightarrow> nat \<Rightarrow> nat option \<Rightarrow> bool" where
  "act_before e a f = (case f of None \<Rightarrow> False | Some b \<Rightarrow> seq_number (acts e a) < seq_number (acts e b))"

definition act_after :: "execution \<Rightarrow> nat \<Rightarrow> nat option \<Rightarrow> bool" where
  "act_after e a f = (case f of None \<Rightarrow> True | Some b \<Rightarrow> seq_number (acts e b) < seq_number (acts e a))"

text \<open>What the actions of one thread ask for: whether \<open>rf\<close> can be read, the stores that have to be before it, the new
  \<open>prev_same_thread\<close>, and whether the list need not keep the read.\<close>

record demand =
  allowed :: bool
  prior :: "nat list"
  prev_act :: "nat option"
  prune :: bool

definition demand_store :: "execution \<Rightarrow> nat \<Rightarrow> nat \<Rightarrow> nat option \<Rightarrow> demand res" where
  "demand_store e rf x prev = bindR (checkReachable_actions (acts e) (mo_graph e) rf x) (\<lambda>r.
     Inr \<lparr>allowed = \<not> r, prior = [x], prev_act = prev, prune = False\<rparr>)"

definition no_demand :: demand where
  "no_demand = \<lparr>allowed = True, prior = [], prev_act = None, prune = False\<rparr>"

text \<open>The scan of a thread from its latest action.  \<open>first\<close>: it is the thread of the read.  \<open>lf\<close>, \<open>lft\<close> and \<open>lftb\<close> are
  \<open>last_sc_fence_local\<close>, \<open>last_sc_fence_thread_local\<close> and \<open>last_sc_fence_thread_before\<close>.\<close>

fun scan_read :: "execution \<Rightarrow> nat \<Rightarrow> nat \<Rightarrow> bool \<Rightarrow> nat option \<Rightarrow> nat option \<Rightarrow> nat option \<Rightarrow> nat list \<Rightarrow> demand res" where
  "scan_read e cur rf first lf lft lftb [] = Inr no_demand"
| "scan_read e cur rf first lf lft lftb (x # xs) =
     (if x = cur then scan_read e cur rf first lf lft lftb xs
      else if x = rf then
        bindR (act_hb e x cur) (\<lambda>hb. if hb then Inr no_demand else scan_read e cur rf first lf lft lftb xs)
      else if is_write (acts e x) \<and> (is_seqcst (acts e cur) \<and> act_before e x lft \<or>
          is_seqcst (acts e x) \<and> act_before e x lf \<or> act_before e x lftb)
        then demand_store e rf x None
      else bindR (act_hb e x cur) (\<lambda>hb.
        if \<not> hb then scan_read e cur rf first lf lft lftb xs
        else let prev = (if first \<and> act_after e x lf then Some x else None) in
          if is_write (acts e x) then demand_store e rf x prev
          else bindR (reads_from e x) (\<lambda>p. case p of
              None \<Rightarrow> Inl Undefined
            | Some w \<Rightarrow> if w \<noteq> rf then demand_store e rf w prev
                else Inr \<lparr>allowed = True, prior = [], prev_act = prev, prune = a_tid (acts e x) = a_tid (acts e cur)\<rparr>)))"

text \<open>A thread is passed over when the read knows no more of it than the previous action of its own thread.\<close>

definition thread_unchanged :: "execution \<Rightarrow> nat \<Rightarrow> nat option \<Rightarrow> nat \<Rightarrow> nat option \<Rightarrow> bool res" where
  "thread_unchanged e cur prev tid lft = (case prev of
     None \<Rightarrow> Inr False
   | Some p \<Rightarrow> (case (a_cv (acts e p), a_cv (acts e cur)) of
       (Some c, Some d) \<Rightarrow> Inr (getClock c tid = getClock d tid \<and> (case lft of None \<Rightarrow> True | Some f \<Rightarrow> act_before e f prev))
     | _ \<Rightarrow> Inl Undefined))"

text \<open>The loop over the threads, \<open>n\<close> of them from \<open>tid\<close> on.  \<open>None\<close> is a store that cannot be read.\<close>

fun scan_threads :: "execution \<Rightarrow> nat \<Rightarrow> nat \<Rightarrow> nat option \<Rightarrow> nat list list \<Rightarrow> nat \<Rightarrow> bool \<Rightarrow> nat option \<Rightarrow> nat list \<times> bool \<Rightarrow>
    nat \<Rightarrow> (nat list \<times> bool) option res" where
  "scan_threads e cur rf lf ls tid first prev (ps, pr) 0 = Inr (Some (ps, pr))"
| "scan_threads e cur rf lf ls tid first prev (ps, pr) (Suc n) =
     (let next = (if tid + 1 = length ls then 0 else tid + 1) in
      bindR (if first then Inr None else get_last_seq_cst_fence tid None e) (\<lambda>lft.
      bindR (if lf = None then Inr None else get_last_seq_cst_fence tid lf e) (\<lambda>lftb.
      bindR (thread_unchanged e cur prev tid lft) (\<lambda>skip.
      if skip then scan_threads e cur rf lf ls next False prev (ps, pr) n
      else bindR (nthR ls (int tid)) (\<lambda>xs.
        bindR (scan_read e cur rf first lf lft lftb (rev xs)) (\<lambda>d.
        if \<not> allowed d then Inr None
        else scan_threads e cur rf lf ls next False (if prev_act d = None then prev else prev_act d)
          (ps @ prior d, pr \<or> prune d) n))))))"

definition r_modification_order :: "nat \<Rightarrow> nat \<Rightarrow> execution \<Rightarrow> ((nat list \<times> bool) option \<times> execution) res" where
  "r_modification_order cur rf e = (let loc = a_location (acts e cur); tid = a_tid (acts e cur) in
     case obj_thrd_map e loc of
       None \<Rightarrow> Inl Undefined
     | Some ls0 \<Rightarrow>
         let ls = grow_to tid (next_thread_id e) [] ls0; e1 = e\<lparr>obj_thrd_map := (obj_thrd_map e)(loc \<mapsto> ls)\<rparr> in
         bindR (get_last_seq_cst_fence tid None e) (\<lambda>lf.
         bindR (scan_threads e1 cur rf lf ls tid True None ([], False) (length ls)) (\<lambda>r. Inr (r, e1))))"

section \<open>Constraints of a write\<close>

fun scan_write :: "execution \<Rightarrow> nat \<Rightarrow> nat option \<Rightarrow> nat list \<Rightarrow> nat list res" where
  "scan_write e cur lftb [] = Inr []"
| "scan_write e cur lftb (x # xs) =
     (if x = cur then
        if is_rmw (acts e cur) then
          bindR (reads_from e cur) (\<lambda>r. if r \<noteq> None then Inr [] else scan_write e cur lftb xs)
        else scan_write e cur lftb xs
      else if is_write (acts e x) \<and> act_before e x lftb then Inr [x]
      else bindR (act_hb e x cur) (\<lambda>hb.
        if \<not> hb then scan_write e cur lftb xs
        else if is_write (acts e x) then Inr [x]
        else if is_read (acts e x) then
          bindR (reads_from e x) (\<lambda>r. case r of None \<Rightarrow> Inl Undefined | Some w \<Rightarrow> Inr [w])
        else Inr []))"

definition thread_demand :: "execution \<Rightarrow> nat \<Rightarrow> nat option \<Rightarrow> nat list list \<Rightarrow> nat \<Rightarrow> nat list res" where
  "thread_demand e cur lf ls i =
     bindR (if lf \<noteq> None \<and> i \<noteq> a_tid (acts e cur) then get_last_seq_cst_fence i lf e else Inr None) (\<lambda>lftb.
     bindR (nthR ls (int i)) (\<lambda>xs. scan_write e cur lftb (rev xs)))"

definition w_modification_order :: "nat \<Rightarrow> execution \<Rightarrow> execution res" where
  "w_modification_order cur e = (let act = acts e cur; loc = a_location act in
     case obj_thrd_map e loc of
       None \<Rightarrow> Inl Undefined
     | Some ls \<Rightarrow>
         let sc = (if is_seqcst act then case get_last_seq_cst_write cur e of None \<Rightarrow> [] | Some w \<Rightarrow> [w] else []);
             e1 = (if is_seqcst act then e\<lparr>obj_last_sc_map := (obj_last_sc_map e)(loc \<mapsto> cur)\<rparr> else e) in
         bindR (get_last_seq_cst_fence (a_tid act) None e1) (\<lambda>lf.
         bindR (foldR (\<lambda>i es. bindR (thread_demand e1 cur lf ls i) (\<lambda>xs. Inr (es @ xs))) [0..<length ls] sc) (\<lambda>es.
         bindR (addEdges (acts e1) es cur (mo_graph e1)) (\<lambda>g. Inr (e1\<lparr>mo_graph := g\<rparr>)))))"

definition set_return_value :: "nat \<Rightarrow> 64 word \<Rightarrow> execution \<Rightarrow> execution" where
  "set_return_value t v e = e\<lparr>last_action_val := (last_action_val e)(t := v)\<rparr>"

definition process_write :: "nat \<Rightarrow> execution \<Rightarrow> execution res" where
  "process_write cur e = bindR (write_views cur e) (\<lambda>e1. bindR (w_modification_order cur e1) (\<lambda>e2.
     Inr (set_return_value (a_tid (acts e2 cur)) VALUE_NONE e2)))"

section \<open>The stores that a read may read from\<close>

definition valequals :: "64 word \<Rightarrow> 64 word \<Rightarrow> 32 word \<Rightarrow> bool" where
  "valequals v w sz =
     (if sz = 1 then (ucast v :: 8 word) = ucast w
      else if sz = 2 then (ucast v :: 16 word) = ucast w
      else if sz = 4 then (ucast v :: 32 word) = ucast w
      else if sz = 8 then v = w
      else False)"

text \<open>A store that another RMW reads from is no store for a RMW, nor for a compare-and-swap that would succeed on
  it.\<close>

definition taken_by_rmw :: "execution \<Rightarrow> nat \<Rightarrow> nat \<Rightarrow> bool res" where
  "taken_by_rmw e cur x =
     (if is_rmwr (acts e cur) then
        bindR (if is_rmwrcas (acts e cur) then bindR (getSize (acts e cur)) (\<lambda>s.
                 Inr (valequals (a_value (acts e cur)) (a_value (acts e x)) s)) else Inr True) (\<lambda>same.
        Inr (same \<and> (case mo_graph e x of None \<Rightarrow> False | Some c \<Rightarrow> hasRMW c \<noteq> None)))
      else Inr False)"

definition sc_hidden :: "execution \<Rightarrow> nat \<Rightarrow> nat option \<Rightarrow> nat \<Rightarrow> bool res" where
  "sc_hidden e cur lsc x =
     (if is_seqcst (acts e cur) then
        bindR (if is_seqcst (acts e x) then Inr True else case lsc of None \<Rightarrow> Inr False | Some l \<Rightarrow> act_hb e x l) (\<lambda>h.
        Inr (h \<and> Some x \<noteq> lsc))
      else Inr False)"

fun scan_stores :: "execution \<Rightarrow> nat \<Rightarrow> nat option \<Rightarrow> int \<Rightarrow> int \<Rightarrow> nat list \<Rightarrow> nat list res" where
  "scan_stores e cur lsc history found [] = Inr []"
| "scan_stores e cur lsc history found (x # xs) =
     (if x = cur then scan_stores e cur lsc history found xs
      else bindR (sc_hidden e cur lsc x) (\<lambda>hidden.
        bindR (taken_by_rmw e cur x) (\<lambda>taken.
        let add = (if hidden \<or> taken then [] else [x]); found1 = found + int (length add) in
        if add \<noteq> [] \<and> found1 = history then Inr add
        else bindR (act_hb e x cur) (\<lambda>hb.
          if hb then Inr add
          else bindR (scan_stores e cur lsc history found1 xs) (\<lambda>ys. Inr (add @ ys))))))"

definition build_may_read_from :: "nat \<Rightarrow> int \<Rightarrow> execution \<Rightarrow> nat list res" where
  "build_may_read_from cur history e = (case obj_wr_thrd_map e (a_location (acts e cur)) of
     None \<Rightarrow> Inr []
   | Some ls \<Rightarrow>
       let lsc = (if is_seqcst (acts e cur) then get_last_seq_cst_write cur e else None) in
       foldR (\<lambda>xs rfs. bindR (scan_stores e cur lsc history 0 (rev xs)) (\<lambda>ys. Inr (rfs @ ys))) ls [])"

section \<open>Stores that were not atomic\<close>

text \<open>A store of the program to a location that is now read becomes an action: \<open>v\<close> is the value in memory, \<open>a\<close> the
  new action.\<close>

definition convertNonAtomicStore :: "64 word \<Rightarrow> 64 word \<Rightarrow> nat \<Rightarrow> execution \<times> detector \<Rightarrow> (execution \<times> detector) res" where
  "convertNonAtomicStore loc v a = (\<lambda>(e, d).
     let (d1, t, c) = getStoreThreadAndClock loc d; d2 = setAtomicStoreFlag loc d1; (bag, e1) = new_vec e;
       e2 = e1\<lparr>acts := (acts e1)(a := set_seq_number c (new_action bag t NONATOMIC_WRITE mo_relaxed loc v (Some t)))\<rparr> in
     bindR (add_normal_write_to_lists a e2) (\<lambda>e3. bindR (add_write_to_lists a e3) (\<lambda>e4.
     bindR (w_modification_order a e4) (\<lambda>e5. Inr (e5, d2)))))"

definition nonatomic_candidates :: "64 word \<Rightarrow> nat \<Rightarrow> nat \<Rightarrow> nat list \<Rightarrow> execution \<times> detector \<Rightarrow>
    (nat list \<times> execution \<times> detector) res" where
  "nonatomic_candidates v a cur rfs = (\<lambda>(e, d). let loc = a_location (acts e cur); (d1, b) = hasNonAtomicStore loc d in
     if b then bindR (convertNonAtomicStore loc v a (e, d1)) (\<lambda>(e1, d2). Inr (rfs @ [a], e1, d2))
     else Inr (rfs, e, d1))"

section \<open>Reads\<close>

text \<open>\<open>rnd n\<close> is the result of the \<open>n\<close>-th call of \<open>random()\<close>.  The remainder by an empty set of stores is an error.\<close>

definition selectWrite :: "(nat \<Rightarrow> nat) \<Rightarrow> nat \<Rightarrow> nat list \<Rightarrow> nat res" where
  "selectWrite rnd n rfs = (if rfs = [] then Inl Undefined else Inr (rnd n mod length rfs))"

definition find_idx :: "nat list \<Rightarrow> nat \<Rightarrow> int" where
  "find_idx rfs w = (let i = length (takeWhile (\<lambda>x. x \<noteq> w) rfs) in if i < length rfs then int i else -1)"

text \<open>One pass of the loop up to the choice: the position of the store, the number of random numbers used, the state.\<close>

definition choose_external :: "(nat \<Rightarrow> nat) \<Rightarrow> nat \<Rightarrow> nat \<Rightarrow> nat \<Rightarrow> nat list \<Rightarrow> execution \<Rightarrow> (nat \<times> nat \<times> execution) res" where
  "choose_external rnd n cur sc rfs e = (let t = a_tid (acts e cur) in
     bindR (selectWrite rnd n rfs) (\<lambda>i. let rf = rfs ! i in
     bindR (update_local_vec t rf e) (\<lambda>e1. let (p, e2) = new_vec e1 in
     bindR (updateVec p rf e2) (\<lambda>e3.
     bindR (update_local_vec t rf (upd_act cur (set_bag p) e3)) (\<lambda>e4.
     bindR (if could_synchronize_with (acts e4 cur) (acts e4 rf)
            then bindR (computeUpdate cur rf e4) (\<lambda>(_, e5). Inr e5) else Inr e4) (\<lambda>e5.
     bindR (if is_seqcst (acts e5 cur) then
              bindR (maxVec (a_bag (acts e5 cur)) sc e5) (\<lambda>(b, e6). let e7 = upd_act cur (set_bag b) e6 in
              bindR (maxVec (local_vec e7 t) b e7) (\<lambda>(l, e8). Inr (set_local_vec t l e8)))
            else Inr e5) (\<lambda>e6. Inr (i, Suc n, e6))))))))"

definition choose_local :: "(nat \<Rightarrow> nat) \<Rightarrow> nat \<Rightarrow> nat \<Rightarrow> nat \<Rightarrow> nat list \<Rightarrow> execution \<Rightarrow> (nat \<times> nat \<times> execution) res" where
  "choose_local rnd n cur sc rfs e = (let t = a_tid (acts e cur) in
     bindR (if is_seqcst (acts e cur) then let e1 = upd_act cur (set_bag sc) e in
              bindR (maxVec (local_vec e1 t) sc e1) (\<lambda>(l, e2). Inr (set_local_vec t l e2))
            else Inr e) (\<lambda>e1.
     bindR (get_same_location_act t cur e1) (\<lambda>known. let random = bindR (selectWrite rnd n rfs) (\<lambda>i. Inr (i, Suc n, e1)) in
     case known of
       None \<Rightarrow> random
     | Some w \<Rightarrow> let i = find_idx rfs w in if i \<noteq> -1 then Inr (nat i, n, e1) else random)))"

text \<open>The end of a pass when \<open>rf\<close> is accepted.\<close>

definition accept_read :: "nat \<Rightarrow> nat \<Rightarrow> nat list \<times> bool \<Rightarrow> execution \<Rightarrow> (bool \<times> execution) res" where
  "accept_read cur rf = (\<lambda>(ps, canprune) e.
     bindR (foldR (\<lambda>p. cg_addEdge (acts e) p rf False) ps (mo_graph e)) (\<lambda>g.
     bindR (read_from cur rf (e\<lparr>mo_graph := g\<rparr>)) (\<lambda>e1. let t = a_tid (acts e1 cur);
       e2 = set_return_value t (get_write_value (acts e1 rf)) e1 in
     bindR (get_hb_from_write rf e2) (\<lambda>(vec, e3).
     Inr (canprune \<and> a_type (acts e3 cur) = ATOMIC_READ,
          case vec of None \<Rightarrow> e3
          | Some c \<Rightarrow> e3\<lparr>acq_fence_cv := (acq_fence_cv e3)(t := fst (cv_merge (acq_fence_cv e3 t) c))\<rparr>)))))"

text \<open>The loop: a rejected store is replaced by the last one.  \<open>pick\<close> is one of the two choices above, or the random
  choice of the version without views.\<close>

function read_loop :: "(nat \<Rightarrow> nat list \<Rightarrow> execution \<Rightarrow> (nat \<times> nat \<times> execution) res) \<Rightarrow> nat \<Rightarrow> nat \<Rightarrow> nat list \<Rightarrow> execution \<Rightarrow>
    (bool \<times> execution) res" where
  "read_loop pick cur n rfs e =
     (case pick n rfs e of
        Inl f \<Rightarrow> Inl f
      | Inr (i, m, e1) \<Rightarrow>
          if length rfs \<le> i then Inl Out_of_range
          else (case r_modification_order cur (rfs ! i) e1 of
              Inl f \<Rightarrow> Inl f
            | Inr (Some d, e2) \<Rightarrow> accept_read cur (rfs ! i) d e2
            | Inr (None, e2) \<Rightarrow> read_loop pick cur m (butlast (rfs[i := last rfs])) e2))"
  by pat_completeness auto
termination by (relation "measure (\<lambda>(_, _, _, rfs, _). length rfs)") auto

definition process_read :: "(nat \<Rightarrow> nat) \<Rightarrow> nat \<Rightarrow> 64 word \<Rightarrow> nat \<Rightarrow> nat \<Rightarrow> nat list \<Rightarrow> bool \<Rightarrow> execution \<times> detector \<Rightarrow>
    (bool \<times> execution \<times> detector) res" where
  "process_read rnd n v a cur rfs external s = bindR (nonatomic_candidates v a cur rfs s) (\<lambda>(rfs1, e, d).
     let (p, e1) = new_vec e; (sc, e2) = (if is_seqcst (acts e1 cur) then computeBag_sc cur e1 else (p, e1)) in
     bindR (read_loop (\<lambda>n. if external then choose_external rnd n cur sc else choose_local rnd n cur sc) cur n rfs1 e2)
       (\<lambda>(b, e3). Inr (b, e3, d)))"

definition process_read_c11 :: "(nat \<Rightarrow> nat) \<Rightarrow> nat \<Rightarrow> 64 word \<Rightarrow> nat \<Rightarrow> nat \<Rightarrow> nat list \<Rightarrow> execution \<times> detector \<Rightarrow>
    (bool \<times> execution \<times> detector) res" where
  "process_read_c11 rnd n v a cur rfs s = bindR (nonatomic_candidates v a cur rfs s) (\<lambda>(rfs1, e, d).
     bindR (read_loop (\<lambda>n rfs e. bindR (selectWrite rnd n rfs) (\<lambda>i. Inr (i, Suc n, e))) cur n rfs1 e)
       (\<lambda>(b, e1). Inr (b, e1, d)))"

end
