(* ===== verification/View_Choices.thy ===== *)
theory View_Choices
  imports View_Changes Read_Orders
begin

text \<open>
  The choice of a store for a read (\<open>process_read\<close>), which is where a read changes views: outside, at random, or
  the store of the thread's own vector.
\<close>

text \<open>Steps of a choice, after some changes of views.\<close>

lemma only_ptr: "views_only a e e1 \<Longrightarrow> p < length (vecs e) \<Longrightarrow> p < length (vecs e1)"
  by (auto simp: views_only_def)

lemma only_local: "views_only a e e1 \<Longrightarrow> \<exists>e2. update_local_vec t x e1 = Inr e2 \<and> views_only a e e2"
  using update_local_vec_extends [OF views_only_ok, of a e e1 t x] views_only_trans extends_only by blast

lemma only_new: "views_only a e e1 \<Longrightarrow> \<exists>p e2. new_vec e1 = (p, e2) \<and> views_only a e e2 \<and> p < length (vecs e2)"
  using new_vec_extends [OF views_only_ok, of a e e1] views_only_trans extends_only by (cases "new_vec e1") force

lemma only_update: "views_only a e e1 \<Longrightarrow> p < length (vecs e1) \<Longrightarrow> \<exists>e2. updateVec p x e1 = Inr e2 \<and> views_only a e e2 \<and>
    p < length (vecs e2)"
  using updateVec_extends [OF views_only_ok, of a e e1 p x] views_only_trans extends_only extends_same(3) less_le_trans by metis

lemma only_bag:
  "views_only a e e1 \<Longrightarrow> p < length (vecs e1) \<Longrightarrow> views_only a e (upd_act a (set_bag p) e1)"
  using set_bag_only [OF views_only_ok] views_only_trans by blast

lemma only_set_local:
  "views_only a e e1 \<Longrightarrow> p < length (vecs e1) \<Longrightarrow> views_only a e (set_local_vec t p e1)"
  using set_local_only [OF views_only_ok] views_only_trans by blast

lemma only_max:
  assumes "views_only a e e1" and "p < length (vecs e1)" and "q < length (vecs e1)"
  shows "\<exists>v e2. maxVec p q e1 = Inr (v, e2) \<and> views_only a e e2 \<and> v < length (vecs e2)"
  using maxVec_extends [OF views_only_ok [OF assms(1)] assms(2,3)] views_only_trans [OF assms(1)] extends_only by blast

lemma only_compute:
  "views_only a e e1 \<Longrightarrow> \<exists>v e2. computeUpdate a w e1 = Inr (v, e2) \<and> views_only a e e2"
  using computeUpdate_only [OF views_only_ok, of a e e1 a w] views_only_trans by blast

lemma selectWrite_result: "rfs \<noteq> [] \<Longrightarrow> \<exists>i<length rfs. selectWrite rnd n rfs = Inr i"
  by (intro exI [of _ "rnd n mod length rfs"]) (simp add: selectWrite_def)

text \<open>A sequentially consistent read takes over the bag \<open>sc\<close>.\<close>

lemma only_sc:
  assumes v: "views_only a e e1" and p: "p < length (vecs e1)" and q: "q < length (vecs e1)"
  shows "\<exists>e2. bindR (maxVec p q e1) (\<lambda>(b, e6). let e7 = upd_act a (set_bag b) e6 in
     bindR (maxVec (local_vec e7 t) b e7) (\<lambda>(l, e8). Inr (set_local_vec t l e8))) = Inr e2 \<and> views_only a e e2"
proof -
  obtain b e6 where m: "maxVec p q e1 = Inr (b, e6)" "views_only a e e6" "b < length (vecs e6)" using only_max [OF v p q] by blast
  let ?e7 = "upd_act a (set_bag b) e6"
  have e7: "views_only a e ?e7" "b < length (vecs ?e7)" using only_bag [OF m(2,3)] m(3) by simp_all
  obtain l e8 where l: "maxVec (local_vec ?e7 t) b ?e7 = Inr (l, e8)" "views_only a e e8" "l < length (vecs e8)"
    using only_max [OF e7(1) views_ok_ptr(1) [OF views_only_ok [OF e7(1)], of t] e7(2)] by blast
  show ?thesis using m(1) l(1) only_set_local [OF l(2,3)] by (simp add: Let_def)
qed

text \<open>What a choice does: the position of a store, and only views change.\<close>

definition chosen :: "nat \<Rightarrow> nat list \<Rightarrow> execution \<Rightarrow> (nat \<times> nat \<times> execution) res \<Rightarrow> bool" where
  "chosen cur rfs e r \<longleftrightarrow> (\<exists>i m e1. r = Inr (i, m, e1) \<and> i < length rfs \<and> views_only cur e e1)"

lemma choose_external_chosen:
  assumes ok: "views_ok e" and sc: "sc < length (vecs e)" and ne: "rfs \<noteq> []"
  shows "chosen cur rfs e (choose_external rnd n cur sc rfs e)"
proof -
  obtain i where i: "i < length rfs" "selectWrite rnd n rfs = Inr i" using selectWrite_result [OF ne] by blast
  let ?t = "a_tid (acts e cur)" and ?rf = "rfs ! i"
  obtain e1 where e1: "update_local_vec ?t ?rf e = Inr e1" "views_only cur e e1" using only_local [OF views_only_refl [OF ok]] by blast
  obtain p e2 where e2: "new_vec e1 = (p, e2)" "views_only cur e e2" "p < length (vecs e2)" using only_new [OF e1(2)] by blast
  obtain e3 where e3: "updateVec p ?rf e2 = Inr e3" "views_only cur e e3" "p < length (vecs e3)" using only_update [OF e2(2,3)] by blast
  obtain e4 where e4: "update_local_vec ?t ?rf (upd_act cur (set_bag p) e3) = Inr e4" "views_only cur e e4"
    using only_local [OF only_bag [OF e3(2,3)]] by blast
  obtain e5 where e5: "(if could_synchronize_with (acts e4 cur) (acts e4 ?rf)
      then bindR (computeUpdate cur ?rf e4) (\<lambda>(_, e5). Inr e5) else Inr e4) = Inr e5" "views_only cur e e5"
    using only_compute [OF e4(2), of ?rf] e4(2) by (cases "could_synchronize_with (acts e4 cur) (acts e4 ?rf)") auto
  have sc5: "sc < length (vecs e5)" "a_bag (acts e5 cur) < length (vecs e5)"
    using only_ptr [OF e5(2) sc] views_ok_ptr(2) [OF views_only_ok [OF e5(2)]] by simp_all
  obtain e6 where e6: "(if is_seqcst (acts e5 cur) then
              bindR (maxVec (a_bag (acts e5 cur)) sc e5) (\<lambda>(b, e6). let e7 = upd_act cur (set_bag b) e6 in
              bindR (maxVec (local_vec e7 ?t) b e7) (\<lambda>(l, e8). Inr (set_local_vec ?t l e8)))
            else Inr e5) = Inr e6" "views_only cur e e6"
    using only_sc [OF e5(2) sc5(2,1), of ?t] e5(2) by (cases "is_seqcst (acts e5 cur)") auto
  have "choose_external rnd n cur sc rfs e = Inr (i, Suc n, e6)"
    unfolding choose_external_def Let_def i(2) bindR_simps e1(1) e2(1) prod.case e3(1) e4(1) e5(1) e6(1) [unfolded Let_def] by simp
  then show ?thesis using i(1) e6(2) unfolding chosen_def by blast
qed

lemma choose_local_chosen:
  assumes ok: "views_ok e" and sc: "sc < length (vecs e)" and ne: "rfs \<noteq> []"
  shows "chosen cur rfs e (choose_local rnd n cur sc rfs e)"
proof -
  obtain i where i: "i < length rfs" "selectWrite rnd n rfs = Inr i" using selectWrite_result [OF ne] by blast
  let ?t = "a_tid (acts e cur)"
  let ?e1 = "upd_act cur (set_bag sc) e"
  have v1: "views_only cur e ?e1" "sc < length (vecs ?e1)" using only_bag [OF views_only_refl [OF ok] sc] sc by simp_all
  obtain l e2 where l: "maxVec (local_vec ?e1 ?t) sc ?e1 = Inr (l, e2)" "views_only cur e e2" "l < length (vecs e2)"
    using only_max [OF v1(1) views_ok_ptr(1) [OF views_only_ok [OF v1(1)], of ?t] v1(2)] by blast
  obtain e3 where e3: "(if is_seqcst (acts e cur) then let e1 = upd_act cur (set_bag sc) e in
              bindR (maxVec (local_vec e1 ?t) sc e1) (\<lambda>(l, e2). Inr (set_local_vec ?t l e2))
            else Inr e) = Inr e3" "views_only cur e e3"
    using l only_set_local [OF l(2,3), of ?t] views_only_refl [OF ok] by (cases "is_seqcst (acts e cur)") (auto simp: Let_def)
  obtain kn where kn: "get_same_location_act ?t cur e3 = Inr kn"
    using get_same_location_act_eq [OF views_ok_ptr(1) [OF views_only_ok [OF e3(2)]]] by blast
  have f: "find_idx rfs w \<noteq> -1 \<Longrightarrow> nat (find_idx rfs w) < length rfs" for w
    by (auto simp: find_idx_def Let_def split: if_splits)
  have eq: "choose_local rnd n cur sc rfs e = (case kn of None \<Rightarrow> Inr (i, Suc n, e3)
     | Some w \<Rightarrow> let j = find_idx rfs w in if j \<noteq> -1 then Inr (nat j, n, e3) else Inr (i, Suc n, e3))"
    using e3(1) kn i(2) by (simp add: choose_local_def Let_def split: option.split)
  show ?thesis
    using i(1) e3(2) f unfolding chosen_def eq by (auto simp: Let_def split: option.split)
qed

text \<open>The version without views picks a store at random.\<close>

lemma choose_random_chosen:
  "views_ok e \<Longrightarrow> rfs \<noteq> [] \<Longrightarrow> chosen cur rfs e (bindR (selectWrite rnd n rfs) (\<lambda>i. Inr (i, Suc n, e)))"
  using selectWrite_result [of rfs rnd n] views_only_refl [of e cur] by (auto simp: chosen_def)

end
