(* ===== verification/View_Steps.thy ===== *)
theory View_Steps
  imports View_Choices
begin

text \<open>
  The steps that PCTWM's execution takes on local views, the invariant of the heap of vectors along them, and the
  processing of reads and writes as sequences of such steps.
\<close>

section \<open>The steps\<close>

text \<open>Actions and lists that change in any way that keeps locations and bags.\<close>

definition same_views :: "execution \<Rightarrow> execution \<Rightarrow> bool" where
  "same_views e e1 \<longleftrightarrow> vecs e1 = vecs e \<and> local_vec e1 = local_vec e \<and>
     (\<forall>x. a_location (acts e1 x) = a_location (acts e x) \<and> a_bag (acts e1 x) = a_bag (acts e x))"

text \<open>The steps that change views.  A read chooses a store, once or again after a rejection; \<open>sc\<close> is the vector that
  \<open>process_read\<close> has for sequentially consistent reads.  A new action gets a bag of its own, at an address that no
  vector holds: actions are deleted by \<open>collectActions\<close> only, which runs only when a trace size is asked for.\<close>

inductive view_step :: "execution \<Rightarrow> execution res \<Rightarrow> bool" where
  store: "view_step e (write_views a e)"
| fence: "a_cv (acts e a) \<noteq> None \<Longrightarrow> view_step e (process_fence a e)"
| outside: "sc < length (vecs e) \<Longrightarrow> rfs \<noteq> [] \<Longrightarrow>
    view_step e (bindR (choose_external rnd n cur sc rfs e) (\<lambda>(i, m, e1). Inr e1))"
| inside: "sc < length (vecs e) \<Longrightarrow> rfs \<noteq> [] \<Longrightarrow>
    view_step e (bindR (choose_local rnd n cur sc rfs e) (\<lambda>(i, m, e1). Inr e1))"
| bag: "view_step e (Inr (snd (computeBag_sc a e)))"
| vector: "view_step e (Inr (snd (new_vec e)))"
| action: "new_vec e = (p, e1) \<Longrightarrow> a_bag x = p \<Longrightarrow> \<forall>xs\<in>set (vecs e). a \<notin> set xs \<Longrightarrow>
    view_step e (Inr (e1\<lparr>acts := (acts e1)(a := x)\<rparr>))"
| thread: "view_step e (Inr (init_local_vec t e))"
| other: "same_views e e1 \<Longrightarrow> view_step e (Inr e1)"

inductive view_run :: "execution \<Rightarrow> execution \<Rightarrow> bool" where
  refl: "view_run e e"
| step: "view_run e e1 \<Longrightarrow> view_step e1 (Inr e2) \<Longrightarrow> view_run e e2"

lemma same_views_ok: "same_views e e1 \<Longrightarrow> views_ok e \<Longrightarrow> views_ok e1"
  by (simp add: same_views_def views_ok_def)

lemma new_action_ok:
  assumes ok: "views_ok e" and n: "new_vec e = (p, e1)" and x: "a_bag x = p" and a: "\<forall>xs\<in>set (vecs e). a \<notin> set xs"
  shows "views_ok (e1\<lparr>acts := (acts e1)(a := x)\<rparr>)"
proof -
  have e1: "p = length (vecs e)" "e1 = e\<lparr>vecs := vecs e @ [[]]\<rparr>" using n by (simp_all add: new_vec_def)
  have "\<forall>xs\<in>set (vecs e). distinct (map (\<lambda>y. a_location (((acts e)(a := x)) y)) xs)"
  proof
    fix xs assume xs: "xs \<in> set (vecs e)"
    then have "map (\<lambda>y. a_location (((acts e)(a := x)) y)) xs = map (\<lambda>y. a_location (acts e y)) xs"
      using a by (auto intro: map_cong)
    moreover have "distinct (map (\<lambda>y. a_location (acts e y)) xs)" using ok xs unfolding views_ok_def by blast
    ultimately show "distinct (map (\<lambda>y. a_location (((acts e)(a := x)) y)) xs)" by (simp only:)
  qed
  then show ?thesis using ok x by (simp add: views_ok_def e1 less_Suc_eq)
qed

lemma chosen_ok:
  "chosen cur rfs e r \<Longrightarrow> \<exists>e1. bindR r (\<lambda>(i, m, e1). Inr e1) = Inr e1 \<and> views_ok e1"
  unfolding chosen_def using views_only_ok by auto

lemma view_step_ok:
  assumes "view_step e r" and "views_ok e" shows "\<exists>e1. r = Inr e1 \<and> views_ok e1"
  using assms(1)
proof (cases rule: view_step.cases)
  case (store a)
  then show ?thesis using write_views_only [OF assms(2)] views_only_ok by blast
next
  case (fence a)
  then show ?thesis using process_fence_only [OF assms(2)] views_only_ok by blast
next
  case (outside sc rfs rnd n cur)
  then show ?thesis using chosen_ok [OF choose_external_chosen [OF assms(2)]] by blast
next
  case (inside sc rfs rnd n cur)
  then show ?thesis using chosen_ok [OF choose_local_chosen [OF assms(2)]] by blast
next
  case (bag a)
  then show ?thesis using computeBag_sc_only [OF assms(2)] views_only_ok by blast
next
  case vector
  then show ?thesis using new_vec_extends [OF assms(2)] extends_ok by blast
next
  case (action p e1 x a)
  then show ?thesis using new_action_ok [OF assms(2)] by blast
next
  case (thread t)
  then show ?thesis using init_local_vec_ok [OF assms(2)] by simp
next
  case (other e1)
  then show ?thesis using same_views_ok assms(2) by blast
qed

lemma view_run_ok: "view_run e e1 \<Longrightarrow> views_ok e \<Longrightarrow> views_ok e1"
  by (induction rule: view_run.induct) (auto dest: view_step_ok)

section \<open>Reads and writes as steps\<close>

lemma view_run_trans: "view_run e1 e2 \<Longrightarrow> view_run e e1 \<Longrightarrow> view_run e e2"
  by (induction rule: view_run.induct) (auto intro: view_run.step)

lemma view_run_one: "view_step e (Inr e1) \<Longrightarrow> view_run e e1"
  by (rule view_run.step [OF view_run.refl])

lemma same_views_refl: "same_views e e"
  by (simp add: same_views_def)

lemma same_views_trans: "same_views e e1 \<Longrightarrow> same_views e1 e2 \<Longrightarrow> same_views e e2"
  by (simp add: same_views_def)

lemma same_views_upd:
  "(\<And>x. a_location (f x) = a_location x) \<Longrightarrow> (\<And>x. a_bag (f x) = a_bag x) \<Longrightarrow> same_views e (upd_act a f e)"
  by (simp add: same_views_def upd_act_def)

lemma foldR_preserves:
  "foldR f xs s = Inr s' \<Longrightarrow> (\<And>x s s'. f x s = Inr s' \<Longrightarrow> P s \<Longrightarrow> P s') \<Longrightarrow> P s \<Longrightarrow> P s'"
  by (induction xs arbitrary: s) (auto simp: bindR_Inr_iff)

lemma hb_of_views: "hb_of w (vec, e) = Inr (v, e1) \<Longrightarrow> same_views e e1"
  by (auto simp: hb_of_def Let_def bindR_Inr_iff same_views_refl intro!: same_views_upd
      split: if_splits option.splits)

lemma get_hb_views: assumes "get_hb_from_write rf e = Inr (v, e1)" shows "same_views e e1"
proof -
  obtain w ps where "foldR hb_of (w # rev ps) (None, e) = Inr (v, e1)"
    using assms by (auto simp: get_hb_from_write_def bindR_Inr_iff simp del: foldR.simps)
  then have "same_views e (snd (v, e1))"
    by (rule foldR_preserves) (use hb_of_views same_views_trans in \<open>fastforce simp: same_views_refl\<close>)+
  then show ?thesis by simp
qed

lemma read_from_views: assumes "read_from cur rf e = Inr e1" shows "same_views e e1"
proof -
  have s: "same_views e (upd_act cur (set_read_from rf) e)" by (rule same_views_upd) (simp_all add: set_read_from_def)
  show ?thesis
  proof (cases "is_acquire (acts (upd_act cur (set_read_from rf) e) cur)")
    case True
    with assms obtain v e2 where h: "get_hb_from_write rf (upd_act cur (set_read_from rf) e) = Inr (v, e2)"
      "(case v of None \<Rightarrow> Inr e2 | Some v \<Rightarrow> (case a_cv (acts e2 cur) of None \<Rightarrow> Inl Undefined
         | Some c \<Rightarrow> Inr (upd_act cur (\<lambda>x. x\<lparr>a_cv := Some (fst (cv_merge c v))\<rparr>) e2))) = Inr e1"
      by (auto simp: read_from_def Let_def bindR_Inr_iff)
    from h(2) have "same_views e2 e1"
      by (auto simp: same_views_refl intro!: same_views_upd split: option.splits)
    with s get_hb_views [OF h(1)] show ?thesis using same_views_trans by blast
  next
    case False
    with assms s show ?thesis by (simp add: read_from_def Let_def)
  qed
qed

lemma r_modification_order_views: "r_modification_order cur rf e = Inr (r, e1) \<Longrightarrow> same_views e e1"
  by (auto simp: r_modification_order_def Let_def bindR_Inr_iff same_views_def split: option.splits)

lemma accept_read_views: assumes "accept_read cur rf d e = Inr (b, e1)" shows "same_views e e1"
proof -
  obtain ps pr where d: "d = (ps, pr)" by fastforce
  from assms obtain g e2 h where a: "read_from cur rf (e\<lparr>mo_graph := g\<rparr>) = Inr e2"
    "get_hb_from_write rf (set_return_value (a_tid (acts e2 cur)) (get_write_value (acts e2 rf)) e2) = Inr h"
    "(case h of (vec, e3) \<Rightarrow> Inr (pr \<and> a_type (acts e3 cur) = ATOMIC_READ, case vec of None \<Rightarrow> e3
      | Some c \<Rightarrow> e3\<lparr>acq_fence_cv := (acq_fence_cv e3)(a_tid (acts e2 cur) :=
          fst (cv_merge (acq_fence_cv e3 (a_tid (acts e2 cur))) c))\<rparr>)) = (Inr (b, e1) :: (bool \<times> execution) res)"
    unfolding accept_read_def d prod.case Let_def bindR_Inr_iff by (elim exE conjE) (erule (2) that)
  obtain vec e3 where h: "h = (vec, e3)" by fastforce
  have "same_views e3 e1"
  proof (cases vec)
    case None
    have "e3 = e1" using a(3) unfolding h None prod.case option.case sum.inject by (elim conjE Pair_inject)
    then show ?thesis by (simp add: same_views_refl)
  next
    case (Some c)
    obtain f where "e1 = e3\<lparr>acq_fence_cv := f\<rparr>"
      using a(3) unfolding h Some prod.case option.case sum.inject by (elim conjE Pair_inject) (rule that, erule sym)
    then show ?thesis by (simp add: same_views_def)
  qed
  have "same_views e (e\<lparr>mo_graph := g\<rparr>)" "same_views e2 (set_return_value t v e2)" for t v
    by (simp_all add: same_views_def set_return_value_def)
  note s = this
  have "same_views e e2" by (rule same_views_trans [OF s(1) read_from_views [OF a(1)]])
  then have "same_views e e3" using get_hb_views [OF a(2) [unfolded h]] by (rule same_views_trans [OF same_views_trans [OF _ s(2)]])
  then show ?thesis using \<open>same_views e3 e1\<close> by (rule same_views_trans)
qed

lemma w_modification_order_views:
  assumes "w_modification_order cur e = Inr e1" shows "same_views e e1"
proof -
  define e2 where "e2 = (if is_seqcst (acts e cur)
      then e\<lparr>obj_last_sc_map := (obj_last_sc_map e)(a_location (acts e cur) \<mapsto> cur)\<rparr> else e)"
  have "\<exists>g. e1 = e2\<lparr>mo_graph := g\<rparr>" using assms unfolding w_modification_order_def Let_def e2_def [symmetric]
    by (auto simp: bindR_Inr_iff split: option.splits)
  moreover have "same_views e e2" by (simp add: e2_def same_views_def)
  ultimately show ?thesis by (auto simp: same_views_def)
qed

lemma same_views_if:
  "(if b then Inr x else Inr y) = Inr e1 \<Longrightarrow> same_views e x \<Longrightarrow> same_views e y \<Longrightarrow> same_views e e1"
  by (simp split: if_splits)

lemma add_normal_views:
  assumes "add_normal_write_to_lists a e = Inr e1" shows "same_views e e1"
proof -
  define e2 where "e2 = upd_act a (create_cv None) e"
  have "same_views e e2" unfolding e2_def by (rule same_views_upd) (simp_all add: create_cv_def)
  moreover have "same_views e2 e1" using assms
    unfolding add_normal_write_to_lists_def Let_def e2_def [symmetric] bindR_Inr_iff
    by (elim exE conjE) (erule same_views_if; simp add: same_views_def)
  ultimately show ?thesis by (rule same_views_trans)
qed

lemma add_write_views: "add_write_to_lists a e = Inr e1 \<Longrightarrow> same_views e e1"
  by (auto simp: add_write_to_lists_def Let_def bindR_Inr_iff same_views_def)

lemma view_run_same: "view_run e e1 \<Longrightarrow> same_views e1 e2 \<Longrightarrow> view_run e e2"
  by (rule view_run.step [OF _ view_step.other])

lemma process_write_run: "process_write a e = Inr e1 \<Longrightarrow> view_run e e1"
proof -
  assume "process_write a e = Inr e1"
  then obtain e2 e3 where w: "write_views a e = Inr e2" "w_modification_order a e2 = Inr e3"
    "e1 = set_return_value (a_tid (acts e3 a)) VALUE_NONE e3" by (auto simp: process_write_def bindR_Inr_iff)
  have "view_run e e2" using view_step.store [of e a] by (simp add: w(1) view_run_one)
  from view_run_same [OF this w_modification_order_views [OF w(2)]] have "view_run e e3" .
  then show ?thesis by (rule view_run_same) (simp add: w(3) same_views_def set_return_value_def)
qed

text \<open>The loop of a read, for a choice that is a step.\<close>

lemma read_loop_run:
  assumes "\<And>n rfs e. sc < length (vecs e) \<Longrightarrow> rfs \<noteq> [] \<Longrightarrow> view_step e (bindR (pick n rfs e) (\<lambda>(i, m, e1). Inr e1))"
    and "\<And>n rfs e. views_ok e \<Longrightarrow> sc < length (vecs e) \<Longrightarrow> rfs \<noteq> [] \<Longrightarrow> chosen cur rfs e (pick n rfs e)"
  shows "read_loop pick cur n rfs e = Inr (b, e1) \<Longrightarrow> views_ok e \<Longrightarrow> sc < length (vecs e) \<Longrightarrow> view_run e e1"
proof (induction "length rfs" arbitrary: n rfs e rule: less_induct)
  case less
  obtain i m e2 where p: "pick n rfs e = Inr (i, m, e2)" "i < length rfs"
    using less.prems(1) by (subst (asm) read_loop.simps) (auto split: sum.splits if_splits)
  then have ne: "rfs \<noteq> []" by auto
  have s: "view_run e e2" using assms(1) [OF less.prems(3) ne, of n] by (simp add: p(1) view_run_one)
  have v: "views_only cur e e2" using assms(2) [OF less.prems(2,3) ne, of n] p(1) by (simp add: chosen_def)
  have eq: "(case r_modification_order cur (rfs ! i) e2 of Inl f \<Rightarrow> Inl f
      | Inr (Some d, e3) \<Rightarrow> accept_read cur (rfs ! i) d e3
      | Inr (None, e3) \<Rightarrow> read_loop pick cur m (butlast (rfs[i := last rfs])) e3) = Inr (b, e1)"
    using less.prems(1) p(2) unfolding read_loop.simps [of pick cur n rfs e] p(1) sum.case prod.case by (simp del: read_loop.simps)
  obtain d e3 where r: "r_modification_order cur (rfs ! i) e2 = Inr (d, e3)"
    "(case d of Some x \<Rightarrow> accept_read cur (rfs ! i) x e3
       | None \<Rightarrow> read_loop pick cur m (butlast (rfs[i := last rfs])) e3) = Inr (b, e1)"
  proof (cases "r_modification_order cur (rfs ! i) e2")
    case (Inr q)
    obtain d e3 where q: "q = (d, e3)" by fastforce
    have "(case d of Some x \<Rightarrow> accept_read cur (rfs ! i) x e3
       | None \<Rightarrow> read_loop pick cur m (butlast (rfs[i := last rfs])) e3) = Inr (b, e1)"
      using eq unfolding Inr q sum.case prod.case by (cases d) (simp_all only: option.case)
    then show ?thesis using that Inr q by blast
  qed (use eq in simp)
  note rv = r_modification_order_views [OF r(1)]
  from view_run_same [OF s rv] have s3: "view_run e e3" .
  show ?case
  proof (cases d)
    case (Some x)
    with r(2) have "accept_read cur (rfs ! i) x e3 = Inr (b, e1)" by simp
    from view_run_same [OF s3 accept_read_views [OF this]] show ?thesis .
  next
    case None
    let ?rfs = "butlast (rfs[i := last rfs])"
    have eq: "read_loop pick cur m ?rfs e3 = Inr (b, e1)" using r(2) unfolding None option.case .
    have "length ?rfs < length rfs" using p(2) by simp
    moreover have "views_ok e3" by (rule same_views_ok [OF rv views_only_ok [OF v]])
    moreover have "sc < length (vecs e3)" using only_ptr [OF v less.prems(3)] rv by (simp add: same_views_def)
    ultimately have "view_run e3 e1" using less.hyps eq by blast
    then show ?thesis using s3 by (rule view_run_trans)
  qed
qed

lemma convert_run:
  assumes "convertNonAtomicStore loc v a (e, d) = Inr (e1, d1)" and "\<forall>xs\<in>set (vecs e). a \<notin> set xs"
  shows "view_run e e1"
proof -
  obtain d2 t c where g: "getStoreThreadAndClock loc d = (d2, t, c)" using prod_cases3 by blast
  obtain p e2 where n: "new_vec e = (p, e2)" by fastforce
  let ?x = "set_seq_number c (new_action p t NONATOMIC_WRITE mo_relaxed loc v (Some t))"
  obtain e4 e5 where w: "add_normal_write_to_lists a (e2\<lparr>acts := (acts e2)(a := ?x)\<rparr>) = Inr e4"
    "add_write_to_lists a e4 = Inr e5" "w_modification_order a e5 = Inr e1"
    using assms(1) by (auto simp: convertNonAtomicStore_def g n Let_def bindR_Inr_iff)
  have "view_run e (e2\<lparr>acts := (acts e2)(a := ?x)\<rparr>)"
    by (rule view_run_one [OF view_step.action [OF n _ assms(2)]]) (simp add: set_seq_number_def new_action_def)
  from view_run_same [OF view_run_same [OF view_run_same [OF this add_normal_views [OF w(1)]] add_write_views [OF w(2)]]
      w_modification_order_views [OF w(3)]] show ?thesis .
qed

lemma process_read_run:
  assumes "process_read rnd n v a cur rfs ext (e, d) = Inr (b, e1, d1)" and ok: "views_ok e"
    and a: "\<forall>xs\<in>set (vecs e). a \<notin> set xs"
  shows "view_run e e1"
proof -
  obtain rfs1 e2 d2 where c: "nonatomic_candidates v a cur rfs (e, d) = Inr (rfs1, e2, d2)"
    "(let (p, e1) = new_vec e2; (sc, e3) = (if is_seqcst (acts e1 cur) then computeBag_sc cur e1 else (p, e1)) in
      bindR (read_loop (\<lambda>n. if ext then choose_external rnd n cur sc else choose_local rnd n cur sc) cur n rfs1 e3)
        (\<lambda>(b, e3). Inr (b, e3, d2))) = Inr (b, e1, d1)"
    using assms(1) unfolding process_read_def bindR_Inr_iff by (elim exE conjE) (case_tac x, simp)
  have r2: "view_run e e2" using c(1) convert_run [OF _ a] view_run.refl
    by (auto simp: nonatomic_candidates_def Let_def bindR_Inr_iff split: prod.splits if_splits)
  have ok2: "views_ok e2" by (rule view_run_ok [OF r2 ok])
  obtain p e3 where n: "new_vec e2 = (p, e3)" by fastforce
  have x3: "extends e2 e3" "p < length (vecs e3)" using new_vec_extends [OF ok2] by (simp_all add: n)
  have r3: "view_run e e3" using view_run.step [OF r2 view_step.vector] by (simp add: n)
  have ok3: "views_ok e3" by (rule extends_ok [OF x3(1)])
  obtain sc e4 where s: "(if is_seqcst (acts e3 cur) then computeBag_sc cur e3 else (p, e3)) = (sc, e4)" by fastforce
  have r4: "view_run e e4"
    using s r3 view_run.step [OF r3 view_step.bag, of cur] by (auto split: if_splits)
  have ok4: "views_ok e4" by (rule view_run_ok [OF r4 ok])
  have sc: "sc < length (vecs e4)"
    using s x3(2) views_ok_ptr(2) [OF ok4, of cur] by (auto simp: computeBag_sc_def Let_def split: if_splits)
  let ?pick = "\<lambda>n. if ext then choose_external rnd n cur sc else choose_local rnd n cur sc"
  have "read_loop ?pick cur n rfs1 e4 = Inr (b, e1)"
    using c(2) by (auto simp: n s bindR_Inr_iff)
  moreover have "view_step e (bindR (?pick n rfs e) (\<lambda>(i, m, e1). Inr e1))" if "sc < length (vecs e)" "rfs \<noteq> []" for n rfs e
    using that view_step.outside view_step.inside by simp
  moreover have "chosen cur rfs e (?pick n rfs e)" if "views_ok e" "sc < length (vecs e)" "rfs \<noteq> []" for n rfs e
    using that choose_external_chosen choose_local_chosen by simp
  ultimately have "view_run e4 e1" using read_loop_run [of sc ?pick cur n rfs1 e4 b e1] ok4 sc by blast
  then show ?thesis using r4 by (rule view_run_trans)
qed

end
