(* ===== verification/View_Props.thy ===== *)
theory View_Props
  imports View_Steps
begin

text \<open>
  What PCTWM's local views promise and what they do: no operation leaves the heap of vectors, the collection of
  what a thread has passed on is exact, but a store for a location is never replaced by a later one, the bags of
  sequentially consistent actions are not computed, and vectors are shared between threads and actions.
\<close>

section \<open>What an update collects\<close>

text \<open>The store, the releasing stores that its thread did before, and the bag at which the walk stops.  Without a
  stop and without such a store, not even the store itself.\<close>

definition collected :: "execution \<Rightarrow> nat \<Rightarrow> nat list" where
  "collected e w = (let xs = before_of e w in case stop_bag e xs of
     None \<Rightarrow> if passed_stores e xs = [] then [] else w # passed_stores e xs
   | Some ys \<Rightarrow> w # passed_stores e xs @ ys)"

lemma before_of_other:
  assumes "distinct (action_trace e)" and "x \<in> set (before_of e w)"
  shows "x \<noteq> w \<and> a_tid (acts e x) = a_tid (acts e w)"
proof -
  let ?d = "dropWhile (\<lambda>x. x \<noteq> w) (rev (action_trace e))"
  have x: "x \<in> set (tl ?d)" and t: "a_tid (acts e x) = a_tid (acts e w)" using assms(2) by (auto simp: before_of_def)
  then obtain y ys where d: "?d = y # ys" by (cases ?d) auto
  then have "y = w" using hd_dropWhile [of "\<lambda>x. x \<noteq> w" "rev (action_trace e)"] by simp
  moreover have "distinct ?d" using assms(1) distinct_dropWhile distinct_rev by blast
  ultimately show ?thesis using x t d by auto
qed

lemma not_in_tail: "distinct ts \<Longrightarrow> w \<notin> set (tl (dropWhile (\<lambda>x. x \<noteq> w) ts))"
proof
  assume d: "distinct ts" and w: "w \<in> set (tl (dropWhile (\<lambda>x. x \<noteq> w) ts))"
  then obtain y ys where y: "dropWhile (\<lambda>x. x \<noteq> w) ts = y # ys" by (cases "dropWhile (\<lambda>x. x \<noteq> w) ts") auto
  then have "y = w" using hd_dropWhile [of "\<lambda>x. x \<noteq> w" ts] by simp
  moreover have "distinct (y # ys)" using distinct_dropWhile [OF d, of "\<lambda>x. x \<noteq> w"] y by simp
  ultimately show False using w y by simp
qed

lemma computeUpdate_result:
  assumes ok: "views_ok e" and d: "distinct (action_trace e)" and w: "w \<in> set (action_trace e)"
  shows "\<exists>v e1. computeUpdate rd w e = Inr (v, e1) \<and> v < length (vecs e1) \<and>
    local_vec e1 = (local_vec e)(a_tid (acts e rd) := v) \<and> acts e1 = (acts e)(rd := set_bag v (acts e rd)) \<and>
    (\<forall>p<length (vecs e). vecs e1 ! p = vecs e ! p) \<and>
    (\<forall>loc. store_for e loc (vecs e1 ! v) = store_for e loc (collected e w @ vecs e ! local_vec e (a_tid (acts e rd))))"
proof -
  let ?n = "length (vecs e)" let ?l = "local_vec e (a_tid (acts e rd))" let ?acc = "Suc ?n"
  let ?e2 = "e\<lparr>vecs := (vecs e @ [[]]) @ [[]]\<rparr>"
  define e3 where "e3 = e\<lparr>vecs := (vecs e @ [[]]) @ [[w]]\<rparr>"
  have l: "?l < ?n" by (rule views_ok_ptr(1) [OF ok])
  have bag: "a_bag (acts e x) < ?n" for x by (rule views_ok_ptr(2) [OF ok])
  have u: "updateVec ?acc w ?e2 = Inr e3"
    by (simp add: updateVec_eq nth_append add_new_def e3_def list_update_append)
  have xs: "\<forall>x\<in>set (before_of e w). a_tid (acts e3 x) = a_tid (acts e3 w) \<and> x \<noteq> w \<and>
      a_bag (acts e3 x) < length (vecs e3) \<and> a_bag (acts e3 x) \<noteq> ?acc"
  proof
    fix x assume "x \<in> set (before_of e w)"
    from before_of_other [OF d this] bag [of x]
    show "a_tid (acts e3 x) = a_tid (acts e3 w) \<and> x \<noteq> w \<and> a_bag (acts e3 x) < length (vecs e3) \<and> a_bag (acts e3 x) \<noteq> ?acc"
      by (simp add: e3_def)
  qed
  have len: "?acc < length (vecs e3)" "?n < length (vecs e3)" "?l < length (vecs e3)" "?l \<noteq> ?acc"
    using l by (simp_all add: e3_def)
  obtain v vs where walk: "walk_back w True (before_of e w) ?acc ?n ?l e3 = Inr (v, e3\<lparr>vecs := vs\<rparr>)" "v < length vs"
    "length (vecs e3) \<le> length vs" "\<forall>p<length (vecs e3). p \<noteq> ?acc \<longrightarrow> vs ! p = vecs e3 ! p"
    "\<forall>loc. store_for e3 loc (vs ! v @ vecs e3 ! ?l) = store_for e3 loc (walked e3 (before_of e w) ?acc ?n @ vecs e3 ! ?l)"
    using walk_back_thread [OF xs len] by blast
  have wb: "walk_back w False (rev (action_trace e3)) ?acc ?n ?l e3 = Inr (v, e3\<lparr>vecs := vs\<rparr>)"
    using walk(1) w walk_back_skip [of w "rev (action_trace e)"]
      walk_back_filter [OF not_in_tail, of "rev (action_trace e)" e3 "acts e" w] d
    by (simp add: before_of_def e3_def)
  have vl: "vs ! ?l = vecs e ! ?l" using walk(4) l len by (simp add: e3_def nth_append)
  have sb: "stop_bag e3 (before_of e w) = stop_bag e (before_of e w)"
    unfolding e3_def by (rule stop_bag_vecs) (use bag in \<open>simp add: nth_append less_SucI\<close>)
  have wd: "walked e3 (before_of e w) ?acc ?n = collected e w"
    unfolding walked_def collected_def Let_def sb by (simp add: e3_def nth_append split: option.splits)
  let ?v = "length vs" let ?vs = "vs @ [fold (add_new e) (vs ! v @ vs ! ?l) []]"
  have mx: "maxVec v ?l (e3\<lparr>vecs := vs\<rparr>) = Inr (?v, e\<lparr>vecs := ?vs\<rparr>)"
    using walk(2,3) len(3) by (simp add: maxVec_eq e3_def)
  let ?e4 = "upd_act rd (set_bag ?v) (set_local_vec (a_tid (acts e rd)) ?v (e\<lparr>vecs := ?vs\<rparr>))"
  have eq: "computeUpdate rd w e = Inr (?v, ?e4)"
    using u wb mx by (simp add: computeUpdate_def new_vec_def Let_def)
  have v4: "vecs ?e4 = ?vs @ [[]]" by (simp add: set_local_vec_def new_vec_def)
  have "store_for e loc (vecs ?e4 ! ?v) = store_for e loc (collected e w @ vecs e ! ?l)" for loc
  proof -
    have "store_for e loc (vecs ?e4 ! ?v) = store_for e loc (vs ! v @ vs ! ?l)"
      unfolding v4 by (simp add: nth_append store_for_fold store_for_append)
    also have "\<dots> = store_for e loc (collected e w @ vecs e ! ?l)"
    proof -
      have "store_for e3 loc (vs ! v @ vecs e3 ! ?l) = store_for e3 loc (collected e w @ vecs e3 ! ?l)"
        using walk(5) unfolding wd by blast
      then show ?thesis using vl l by (simp add: e3_def nth_append)
    qed
    finally show ?thesis .
  qed
  moreover have "vecs ?e4 ! p = vecs e ! p" if "p < ?n" for p
    using that walk(3,4) unfolding v4 by (simp add: e3_def nth_append)
  ultimately show ?thesis using eq
    by (intro exI [of _ ?v] exI [of _ ?e4]) (simp add: v4, simp add: upd_act_def set_local_vec_def new_vec_def)
qed


lemma write_views_seen:
  assumes ok: "views_ok e" and x: "store_for e (a_location (acts e a)) (vecs e ! local_vec e (a_tid (acts e a))) = Some x"
    and late: "seq_number (acts e x) \<le> seq_number (acts e a)"
  obtains e1 where "write_views a e = Inr e1" and "views_ok e1" and "local_vec e1 = local_vec e"
    and "\<forall>y. a_location (acts e1 y) = a_location (acts e y) \<and> a_tid (acts e1 y) = a_tid (acts e y) \<and>
      seq_number (acts e1 y) = seq_number (acts e y)"
    and "vecs e1 ! local_vec e (a_tid (acts e a)) = vecs e ! local_vec e (a_tid (acts e a))"
proof -
  let ?t = "a_tid (acts e a)" let ?l = "local_vec e ?t" let ?b = "a_bag (acts e a)"
  have l: "?l < length (vecs e)" and b: "?b < length (vecs e)" using ok by (simp_all add: views_ok_def)
  define e0 where "e0 = (if is_seqcst (acts e a)
    then upd_act a (set_bag ?b) (e\<lparr>vecs := (vecs e)[?b := add_new e a (vecs e ! ?b)]\<rparr>) else e)"
  have e0: "(if is_seqcst (acts e a) then bindR (updateVec ?b a e) (\<lambda>e1. Inr (upd_act a (set_bag (a_bag (acts e1 a))) e1))
      else Inr e) = Inr e0" using b by (simp add: updateVec_eq e0_def)
  have acts0: "a_location (acts e0 y) = a_location (acts e y)" "a_tid (acts e0 y) = a_tid (acts e y)"
    "seq_number (acts e0 y) = seq_number (acts e y)" for y by (auto simp: e0_def upd_act_def)
  have sf: "store_for e0 = store_for e" by (simp add: store_for_def acts0 fun_eq_iff)
  have lv0: "local_vec e0 = local_vec e" "length (vecs e0) = length (vecs e)" by (simp_all add: e0_def)
  have v0: "vecs e0 ! ?l = vecs e ! ?l"
    using x l b by (auto simp: e0_def nth_list_update add_new_def)
  have an: "add_new e0 a (vecs e0 ! ?l) = vecs e0 ! ?l" using x by (simp add: add_new_def sf acts0 v0)
  have u: "updateVec ?l a e0 = Inr e0" using l by (simp add: updateVec_eq lv0(2) an)
  let ?e2 = "set_local_vec ?t ?l e0"
  have e2: "vecs ?e2 = vecs e0 @ [[]]" "local_vec ?e2 = local_vec e" "acts ?e2 = acts e0"
    by (simp_all add: set_local_vec_def new_vec_def lv0 fun_upd_idem)
  have "update_local_vec ?t a ?e2 = Inr ?e2"
  proof (rule update_local_vec_later)
    show "local_vec ?e2 ?t < length (vecs ?e2)" using l by (simp only: e2 lv0) (simp add: lv0)
    have "store_for ?e2 = store_for e" by (simp add: store_for_def e2(3) acts0 fun_eq_iff)
    then show "store_for ?e2 (a_location (acts ?e2 a)) (vecs ?e2 ! local_vec ?e2 ?t) = Some x"
      using x l by (simp add: e2 acts0 nth_append lv0 v0)
    show "seq_number (acts ?e2 x) \<le> seq_number (acts ?e2 a)" using late by (simp add: e2 acts0)
  qed
  then have w: "write_views a e = Inr ?e2" using e0 u by (simp add: write_views_def Let_def acts0 lv0)
  moreover have "views_ok ?e2" using write_views_only [OF ok, of a] w views_only_ok by fastforce
  ultimately show thesis
    by (rule that) (use l in \<open>simp_all add: e2 acts0 nth_append lv0 v0\<close>)
qed

lemma stores_seen:
  assumes "views_ok e" and "\<forall>a\<in>set as. a_tid (acts e a) = t \<and> a_location (acts e a) = loc \<and>
      seq_number (acts e x) \<le> seq_number (acts e a)"
    and "store_for e loc (vecs e ! local_vec e t) = Some x"
  shows "\<exists>e1. foldR write_views as e = Inr e1 \<and> views_ok e1 \<and> store_for e1 loc (vecs e1 ! local_vec e1 t) = Some x"
  using assms
proof (induction as arbitrary: e)
  case (Cons a as)
  have a: "a_tid (acts e a) = t" "a_location (acts e a) = loc" "seq_number (acts e x) \<le> seq_number (acts e a)"
    using Cons.prems(2) by simp_all
  have sx: "store_for e (a_location (acts e a)) (vecs e ! local_vec e (a_tid (acts e a))) = Some x"
    using Cons.prems(3) a by simp
  obtain e1 where e1: "write_views a e = Inr e1" "views_ok e1" "local_vec e1 = local_vec e"
    "\<forall>y. a_location (acts e1 y) = a_location (acts e y) \<and> a_tid (acts e1 y) = a_tid (acts e y) \<and>
      seq_number (acts e1 y) = seq_number (acts e y)"
    "vecs e1 ! local_vec e (a_tid (acts e a)) = vecs e ! local_vec e (a_tid (acts e a))"
    using write_views_seen [OF Cons.prems(1) sx a(3)] .
  have "store_for e1 = store_for e" using e1(4) by (simp add: store_for_def fun_eq_iff)
  then have s1: "store_for e1 loc (vecs e1 ! local_vec e1 t) = Some x" using Cons.prems(3) a e1(3,5) by simp
  have p1: "\<forall>a\<in>set as. a_tid (acts e1 a) = t \<and> a_location (acts e1 a) = loc \<and>
      seq_number (acts e1 x) \<le> seq_number (acts e1 a)" using Cons.prems(2) e1(4) by simp
  show ?case using Cons.IH [OF e1(2) p1 s1] e1(1) by simp
qed simp


text \<open>The first store for a location goes into the vector, through whichever pointer it is reached.\<close>

lemma write_views_first:
  assumes ok: "views_ok e" and rel: "\<not> is_seqcst (acts e a)"
    and x: "store_for e (a_location (acts e a)) (vecs e ! local_vec e (a_tid (acts e a))) = None"
  obtains e1 where "write_views a e = Inr e1" and "local_vec e1 = local_vec e" and "acts e1 = acts e"
    and "local_vec e (a_tid (acts e a)) < length (vecs e1)"
    and "vecs e1 ! local_vec e (a_tid (acts e a)) = vecs e ! local_vec e (a_tid (acts e a)) @ [a]"
proof -
  let ?t = "a_tid (acts e a)" let ?l = "local_vec e ?t" let ?xs = "vecs e ! ?l @ [a]"
  have l: "?l < length (vecs e)" using ok by (simp add: views_ok_def)
  let ?e1 = "e\<lparr>vecs := (vecs e)[?l := ?xs]\<rparr>"
  have u: "updateVec ?l a e = Inr ?e1" using l x by (simp add: updateVec_eq add_new_def)
  let ?e2 = "set_local_vec ?t ?l ?e1"
  have e2: "vecs ?e2 = (vecs e)[?l := ?xs] @ [[]]" "local_vec ?e2 = local_vec e" "acts ?e2 = acts e"
    by (simp_all add: set_local_vec_def new_vec_def fun_upd_idem)
  have "update_local_vec ?t a ?e2 = Inr ?e2"
  proof (rule update_local_vec_later)
    show "local_vec ?e2 ?t < length (vecs ?e2)" using l by (simp only: e2) simp
    have "store_for ?e2 = store_for e" by (simp add: store_for_def e2(3) fun_eq_iff)
    then show "store_for ?e2 (a_location (acts ?e2 a)) (vecs ?e2 ! local_vec ?e2 ?t) = Some a"
      using x l by (simp add: e2 nth_append store_for_append)
  qed simp
  then have "write_views a e = Inr ?e2" using rel u by (simp add: write_views_def Let_def)
  then show thesis by (rule that) (use l in \<open>simp_all add: e2 nth_append\<close>)
qed

section \<open>A sample\<close>

text \<open>Thread 1 starts, stores to two locations, and stores to the first again; thread 2 reads the second;
  both store to a third.\<close>

definition view_act :: "nat \<Rightarrow> action" where
  "view_act n = set_seq_number (of_nat n + 1) (new_action 3 0
     (if n = 0 then THREAD_START else if n = 3 then ATOMIC_READ else ATOMIC_WRITE)
     (if n = 3 then mo_acquire else mo_release) (if n = 2 \<or> n = 3 then 32 else if 5 \<le> n then 48 else 16) 0 (Some (if n = 3 \<or> n = 5 then 2 else 1)))"

definition view_sample :: execution where
  "view_sample = \<lparr>acts = view_act, vecs = [[], [1, 2], [], []], local_vec = (\<lambda>t. if t \<le> 2 then t else 0),
     acq_fence_cv = (\<lambda>_. []), last_action_val = (\<lambda>_. 0), creation = (\<lambda>_. None), action_trace = [0, 1, 2],
     obj_map = (\<lambda>_. None), obj_thrd_map = (\<lambda>_. None), obj_wr_thrd_map = (\<lambda>_. None), obj_last_sc_map = (\<lambda>_. None),
     thrd_last_action = [], thrd_last_fence_release = [], next_thread_id = 3, used_sequence_numbers = 3,
     mo_graph = (\<lambda>_. None)\<rparr>"

lemma view_act_simps [simp]:
  "a_location (view_act n) = (if n = 2 \<or> n = 3 then 32 else if 5 \<le> n then 48 else 16)"
  "a_tid (view_act n) = (if n = 3 \<or> n = 5 then 2 else 1)"
  "seq_number (view_act n) = of_nat n + 1" "a_bag (view_act n) = 3" "bag_flag (view_act n) = False"
  "is_thread_start (view_act n) = (n = 0)" "is_write (view_act n) = (n \<noteq> 0 \<and> n \<noteq> 3)"
  "is_release (view_act n) = (n \<noteq> 3)" "is_seqcst (view_act n) = False"
  by (simp_all add: view_act_def set_seq_number_def new_action_def is_thread_start_def is_write_def is_release_def is_seqcst_def)

lemma view_sample_simps [simp]:
  "acts view_sample = view_act" "vecs view_sample = [[], [1, 2], [], []]"
  "local_vec view_sample = (\<lambda>t. if t \<le> 2 then t else 0)" "action_trace view_sample = [0, 1, 2]"
  by (simp_all add: view_sample_def)

lemma view_sample_ok: "views_ok view_sample"
  by (simp add: views_ok_def)

section \<open>Properties\<close>

text \<open>C35: as long as no action that a vector holds is deleted, whatever stores, acquire fences, choices of reads (outside
  or local, sequentially consistent or not, repeated after rejections), bags, new actions and thread creations the
  execution goes through, the next operation on views follows no bad pointer, and afterwards again no vector has two
  stores for a location.  The whole of \<open>process_read\<close> and of \<open>process_write\<close> is a sequence of such steps
  (\<open>process_read_run\<close>, \<open>process_write_run\<close>).  \<open>collectActions\<close>, which runs when a trace size is asked for, does
  delete stores that vectors hold, see \<open>reused_store_duplicates\<close>.\<close>

theorem view_operations_never_fault:
  assumes "views_ok e" and "view_run e e1" and "view_step e1 r"
  shows "\<exists>e2. r = Inr e2 \<and> views_ok e2"
  using view_step_ok [OF assms(3) view_run_ok [OF assms(2,1)]] .

theorem view_operations_never_fault_witness:
  "\<exists>e2. write_views 4 view_sample = Inr e2 \<and> views_ok e2"
  by (rule view_operations_never_fault [OF view_sample_ok view_run.refl view_step.store])

text \<open>When a store that a vector holds is deleted and its address is used for a new action, the vector has a store of
  another location: here the vector of thread 1 gets two entries for location 32.\<close>

theorem reused_store_duplicates:
  "new_vec view_sample = (p, e1) \<Longrightarrow>
   \<not> views_ok (e1\<lparr>acts := (acts e1)(1 := new_action p 1 ATOMIC_WRITE mo_relaxed 32 7 (Some 1))\<rparr>)"
  by (auto simp: new_vec_def views_ok_def new_action_def)

theorem reused_store_duplicates_witness:
  "\<not> views_ok (snd (new_vec view_sample)
     \<lparr>acts := (acts (snd (new_vec view_sample)))(1 := new_action (fst (new_vec view_sample)) 1 ATOMIC_WRITE mo_relaxed 32 7 (Some 1))\<rparr>)"
  by (rule reused_store_duplicates) simp

text \<open>C36: after \<open>computeUpdate\<close>, the reading thread has for each location the first store of this list: the
  store that is read, the releasing stores that its thread did before it, latest first, the bag where the walk
  over them stopped, and what the reading thread had.  The read gets the same vector as its bag, and no vector that
  was there before is changed.\<close>

theorem computeUpdate_exact:
  assumes "views_ok e" and "distinct (action_trace e)" and "w \<in> set (action_trace e)"
  shows "\<exists>e1. computeUpdate rd w e = Inr (local_vec e1 (a_tid (acts e rd)), e1) \<and>
    a_bag (acts e1 rd) = local_vec e1 (a_tid (acts e rd)) \<and>
    (\<forall>p<length (vecs e). vecs e1 ! p = vecs e ! p) \<and>
    (\<forall>a. get_same_location_act (a_tid (acts e rd)) a e1 = Inr (store_for e (a_location (acts e a))
      (collected e w @ vecs e ! local_vec e (a_tid (acts e rd)))))"
proof -
  obtain v e1 where c: "computeUpdate rd w e = Inr (v, e1)" "v < length (vecs e1)"
    "local_vec e1 = (local_vec e)(a_tid (acts e rd) := v)" "acts e1 = (acts e)(rd := set_bag v (acts e rd))"
    "\<forall>p<length (vecs e). vecs e1 ! p = vecs e ! p"
    "\<forall>loc. store_for e loc (vecs e1 ! v) = store_for e loc (collected e w @ vecs e ! local_vec e (a_tid (acts e rd)))"
    using computeUpdate_result [OF assms] by blast
  have loc: "a_location (acts e1 x) = a_location (acts e x)" for x by (simp add: c(4))
  then have "store_for e1 = store_for e" by (simp add: store_for_def fun_eq_iff)
  then show ?thesis using c by (intro exI [of _ e1]) (simp add: get_same_location_act_eq)
qed

theorem computeUpdate_exact_witness:
  "\<exists>e1. computeUpdate 3 2 view_sample = Inr (local_vec e1 2, e1) \<and>
     get_same_location_act 2 3 e1 = Inr (Some 2) \<and> get_same_location_act 2 4 e1 = Inr (Some 1)"
proof -
  have "collected view_sample 2 = [2, 1]"
    by (simp add: collected_def before_of_def stop_bag_def passed_stores_def stops_def)
  moreover have "distinct (action_trace view_sample)" "2 \<in> set (action_trace view_sample)" by simp_all
  ultimately show ?thesis using computeUpdate_exact [OF view_sample_ok, of 2 3] by fastforce
qed

text \<open>C37: a thread that has a store for a location keeps it, however many later stores it does to this location: its
  next internal read asks for the first one.\<close>

theorem later_stores_not_seen:
  assumes "views_ok e" and "get_same_location_act t a e = Inr (Some x)"
    and "\<forall>b\<in>set as. a_tid (acts e b) = t \<and> a_location (acts e b) = a_location (acts e a) \<and>
      seq_number (acts e x) \<le> seq_number (acts e b)"
  shows "\<exists>e1. foldR write_views as e = Inr e1 \<and>
    (\<forall>b. a_location (acts e1 b) = a_location (acts e a) \<longrightarrow> get_same_location_act t b e1 = Inr (Some x))"
proof -
  have l: "local_vec e t < length (vecs e)" using assms(1) by (simp add: views_ok_def)
  then have "store_for e (a_location (acts e a)) (vecs e ! local_vec e t) = Some x"
    using assms(2) by (simp add: get_same_location_act_eq)
  from stores_seen [OF assms(1,3) this] obtain e1 where e1: "foldR write_views as e = Inr e1" "views_ok e1"
    "store_for e1 (a_location (acts e a)) (vecs e1 ! local_vec e1 t) = Some x" by blast
  have "local_vec e1 t < length (vecs e1)" using e1(2) by (simp add: views_ok_def)
  with e1 show ?thesis by (auto simp: get_same_location_act_eq)
qed

theorem later_stores_not_seen_witness:
  "\<exists>e1. foldR write_views [4] view_sample = Inr e1 \<and>
     (\<forall>b. a_location (acts e1 b) = 16 \<longrightarrow> get_same_location_act 1 b e1 = Inr (Some 1))"
  using later_stores_not_seen [OF view_sample_ok, of 1 4 1 "[4]"] by (simp add: get_same_location_act_eq)

text \<open>\<open>maxVec\<close> takes the store of its first argument whenever it has one for the location, be it the earlier
  one.\<close>

theorem maxVec_prefers_first:
  assumes "p < length (vecs e)" and "q < length (vecs e)"
  shows "\<exists>r e1. maxVec p q e = Inr (r, e1) \<and> (\<forall>i<length (vecs e). vecs e1 ! i = vecs e ! i) \<and>
    (\<forall>loc. store_for e1 loc (vecs e1 ! r) = (case store_for e loc (vecs e ! p) of
       Some x \<Rightarrow> Some x | None \<Rightarrow> store_for e loc (vecs e ! q)))"
  using assms by (auto simp: maxVec_eq nth_append store_for_fold store_for_append simp del: fold_append)

theorem maxVec_prefers_first_witness:
  "\<exists>r e1. maxVec 1 0 view_sample = Inr (r, e1) \<and> store_for e1 16 (vecs e1 ! r) = Some 1"
  using maxVec_prefers_first [of 1 view_sample 0] by fastforce

text \<open>C38: the bag that \<open>computeUpdate\<close> gives a synchronizing read is the vector of its thread, not a copy: the next
  store of the thread to a new location is in the bag of the earlier read.  For reads that are not sequentially
  consistent this is the bag that stays; for the others \<open>process_read\<close> puts a new vector in its place.\<close>

theorem bag_grows_after_read:
  assumes "views_ok e" and "computeUpdate rd w e = Inr (v, e1)" and "a_tid (acts e1 a) = a_tid (acts e1 rd)"
    and "\<not> is_seqcst (acts e1 a)" and "get_same_location_act (a_tid (acts e1 rd)) a e1 = Inr None"
    and "distinct (action_trace e)" and "w \<in> set (action_trace e)"
  shows "\<exists>e2. write_views a e1 = Inr e2 \<and> a \<in> set (vecs e2 ! a_bag (acts e2 rd))"
proof -
  obtain e1' v' where c: "computeUpdate rd w e = Inr (v', e1')" "v' < length (vecs e1')"
    "local_vec e1' = (local_vec e)(a_tid (acts e rd) := v')" "acts e1' = (acts e)(rd := set_bag v' (acts e rd))"
    using computeUpdate_result [OF assms(1,6,7)] by blast
  then have e: "e1' = e1" "v' = v" using assms(2) by simp_all
  have t: "a_tid (acts e1 rd) = a_tid (acts e rd)" "a_bag (acts e1 rd) = v" "local_vec e1 (a_tid (acts e rd)) = v"
    using c(3,4) by (simp_all add: e)
  have ok: "views_ok e1" using computeUpdate_only [OF assms(1), of rd w] assms(2) views_only_ok by fastforce
  have "store_for e1 (a_location (acts e1 a)) (vecs e1 ! local_vec e1 (a_tid (acts e1 a))) = None"
    using assms(3,5) ok views_ok_ptr(1) [OF ok] by (simp add: get_same_location_act_eq)
  then obtain e2 where "write_views a e1 = Inr e2" "acts e2 = acts e1"
    "vecs e2 ! local_vec e1 (a_tid (acts e1 a)) = vecs e1 ! local_vec e1 (a_tid (acts e1 a)) @ [a]"
    using write_views_first [OF ok assms(4)] by metis
  then show ?thesis using assms(3) t by simp
qed

theorem bag_grows_after_read_witness:
  "\<exists>v e1 e2. computeUpdate 3 2 view_sample = Inr (v, e1) \<and> write_views 5 e1 = Inr e2 \<and>
     5 \<in> set (vecs e2 ! a_bag (acts e2 3))"
proof -
  have d: "distinct (action_trace view_sample)" "2 \<in> set (action_trace view_sample)" by simp_all
  obtain v e1 where c: "computeUpdate 3 2 view_sample = Inr (v, e1)" "v < length (vecs e1)"
    "local_vec e1 = (local_vec view_sample)(2 := v)" "acts e1 = view_act(3 := set_bag v (view_act 3))"
    "\<forall>loc. store_for view_sample loc (vecs e1 ! v) = store_for view_sample loc (collected view_sample 2)"
    using computeUpdate_result [OF view_sample_ok d, of 3] by auto
  have "collected view_sample 2 = [2, 1]"
    by (simp add: collected_def before_of_def stop_bag_def passed_stores_def stops_def)
  moreover have loc: "a_location (acts e1 x) = a_location (view_act x)" for x by (simp add: c(4) del: view_act_simps)
  have "store_for e1 = store_for view_sample" by (simp add: store_for_def loc fun_eq_iff del: view_act_simps)
  ultimately have "get_same_location_act 2 5 e1 = Inr None" using c by (simp add: get_same_location_act_eq)
  then have "\<exists>e2. write_views 5 e1 = Inr e2 \<and> 5 \<in> set (vecs e2 ! a_bag (acts e2 3))"
    by (intro bag_grows_after_read [OF view_sample_ok c(1) _ _ _ d]) (simp_all add: c(4))
  with c(1) show ?thesis by blast
qed

text \<open>C39: a new thread shares the vector of the first thread: a later store of the first thread to a new location is
  in the view of the new thread, with no synchronization.\<close>

theorem new_thread_shares_view:
  assumes "views_ok e" and "t \<noteq> 1" and "a_tid (acts e a) = 1" and "\<not> is_seqcst (acts e a)"
    and "get_same_location_act 1 a e = Inr None"
  shows "\<exists>e1. write_views a (init_local_vec t e) = Inr e1 \<and> get_same_location_act t a e1 = Inr (Some a)"
proof -
  let ?e = "init_local_vec t e"
  have ok: "views_ok ?e" by (rule init_local_vec_ok [OF assms(1)])
  have l: "local_vec e 1 < length (vecs e)" using assms(1) by (simp add: views_ok_def)
  have s: "acts ?e = acts e" "local_vec ?e 1 = local_vec e 1" "local_vec ?e t = local_vec e 1"
    "vecs ?e ! local_vec e 1 = vecs e ! local_vec e 1"
    using assms(2) l by (simp_all add: init_local_vec_def set_local_vec_def new_vec_def nth_append)
  then have sf: "store_for ?e = store_for e" by (simp add: store_for_def fun_eq_iff)
  have n: "store_for e (a_location (acts e a)) (vecs e ! local_vec e 1) = None"
    using assms(5) l by (simp add: get_same_location_act_eq)
  then have "store_for ?e (a_location (acts ?e a)) (vecs ?e ! local_vec ?e (a_tid (acts ?e a))) = None"
    by (simp only: s sf assms(3))
  moreover have "\<not> is_seqcst (acts ?e a)" using assms(4) by (simp add: s)
  ultimately obtain e1 where e1: "write_views a ?e = Inr e1" "local_vec e1 = local_vec ?e" "acts e1 = acts ?e"
    "local_vec ?e (a_tid (acts ?e a)) < length (vecs e1)"
    "vecs e1 ! local_vec ?e (a_tid (acts ?e a)) = vecs ?e ! local_vec ?e (a_tid (acts ?e a)) @ [a]"
    using write_views_first [OF ok] by metis
  have sf1: "store_for e1 = store_for e" using e1(3) s(1) by (simp add: store_for_def fun_eq_iff)
  have p: "local_vec e1 t = local_vec e 1" "acts e1 = acts e" "local_vec e 1 < length (vecs e1)"
    "vecs e1 ! local_vec e 1 = vecs e ! local_vec e 1 @ [a]"
    using e1(2-5) by (simp_all only: s assms(3))
  then have "get_same_location_act t a e1 = Inr (Some a)"
    using n by (simp add: get_same_location_act_eq sf1 store_for_append)
  with e1(1) show ?thesis by blast
qed

theorem new_thread_shares_view_witness:
  "\<exists>e1. write_views 6 (init_local_vec 2 view_sample) = Inr e1 \<and> get_same_location_act 2 6 e1 = Inr (Some 6)"
  by (rule new_thread_shares_view [OF view_sample_ok]) (simp_all add: get_same_location_act_eq)

text \<open>C40: \<open>computeBag_sc\<close> computes nothing: for every action but the start of a thread it returns the bag that
  the action has and changes nothing, whatever sequentially consistent actions came before.\<close>

theorem sc_bag_not_computed:
  assumes "\<not> is_thread_start (acts e a)" shows "computeBag_sc a e = (a_bag (acts e a), e)"
proof -
  have "set_bag (a_bag (acts e a)) (acts e a) = acts e a" if "bag_flag (acts e a)"
    using that by (cases "acts e a") (simp add: set_bag_def)
  then have "upd_act a (set_bag (a_bag (acts e a))) e = e" if "bag_flag (acts e a)"
    using that by (simp add: upd_act_def)
  then have "walk_sc a xs e = e" for xs using assms by (induction xs) (auto simp: Let_def)
  then show ?thesis by (simp add: computeBag_sc_def Let_def)
qed

theorem sc_bag_not_computed_witness: "computeBag_sc 5 view_sample = (3, view_sample)"
  using sc_bag_not_computed [of view_sample 5] by simp

end
