(* ===== verification/Spec2Isabelle.thy ===== *)
theory Spec2Isabelle
  imports Vset Vector_Clocks Clock_Actions Race_Facts Scheduler_Props Graph_Props Symbolic_Props Explorer_Props SC_Props Revisit_Props View_Props
begin

text \<open>
  A verification development for two testing tools for concurrent C programs.

  \<^bold>\<open>The programs.\<close>  \<open>genmc-tool\<close> is GenMC, a stateless model checker for weak memory models, with an
  extension that fuzzes.  An interpreter runs the program under test and reports every event to the driver
  (\<open>Verification/GenMCDriver.cpp\<close>).  The driver adds the event as a label to the execution graph
  (\<open>ExecutionGraph/\<close>), asks the consistency checker of the memory model which stores a read may read from
  and where a store may go in coherence (\<open>Verification/Consistency/\<close>), continues with one choice, and puts
  the others on a worklist (\<open>Verification/WorkSet.hpp\<close>, \<open>Revisit.hpp\<close>).  To explore the next one, it cuts
  the graph back to a stamp, or copies the part of it that a store and a read need, and goes on from there.
  Sets of events are vector clocks (\<open>ADT/View\<close>, \<open>DepView\<close>, \<open>VectorClock\<close>) and sorted vectors
  (\<open>ADT/VSet\<close>).  \<open>pctwm\<close> is C11Tester with a scheduler that uses PCT: it runs the program natively, keeps
  actions with clock vectors (\<open>action.cc\<close>, \<open>clockvector.cc\<close>), finds data races through a shadow memory
  (\<open>datarace.cc\<close>), keeps the constraints on the modification order in a graph whose reachability it reads
  off clock vectors (\<open>cyclegraph.cc\<close>), and picks threads by priority (\<open>schedule.cc\<close>).

  \<^bold>\<open>Conventions.\<close>  \<open>Weazer_Prelude\<close> has the vocabulary.  A computation of the code that can abort
  (\<open>BUG\<close>, \<open>BUG_ON\<close>), read outside a container, throw, follow a pointer that is null or dangling, or not
  end, returns \<open>fault + 'a\<close>; every early return and abort of the code is a branch of the model.  Integers that
  wrap are words of their width.  A pointer to a label is the position of the label, a null pointer is
  \<open>None\<close>, an iterator is a number of elements.  State is a record that an operation returns updated.
  A \<open>std::map\<close> is an association list in the order of its keys, an intrusive list a list of positions.
  What comes from outside the repository (random numbers, call stacks, calculated values of the interpreter)
  is an argument.

  \<^bold>\<open>Theories and sources, first program.\<close>
  \<^item> \<open>Vset\<close>: \<open>ADT/VSet.hpp\<close>, \<open>VSet.tcc\<close>.  Every operation is the one on sets (locale \<open>finite_set_rep\<close>).
  \<^item> \<open>Vector_Clocks\<close>: \<open>Event.hpp\<close>, \<open>Stamp.hpp\<close>, \<open>DepInfo.hpp\<close>, \<open>View\<close>, \<open>DepView\<close>, \<open>VectorClock\<close>.
    Both kinds of clock satisfy one contract (locale \<open>vector_clock\<close>, interpretations \<open>view_clock\<close> and
    \<open>dep_clock\<close>): updates are unions of the contained events.
  \<^item> \<open>Values\<close>, \<open>Symbolic_Exprs\<close>: \<open>SVal.hpp\<close>, \<open>ASize.hpp\<close>, the arithmetic of atomic RMWs in
    \<open>Runtime/Execution.cpp\<close>, and the annotations of reads (\<open>SExpr.hpp\<close>, \<open>SExprVisitor.tcc\<close>).
    \<open>Symbolic_Facts\<close>: evaluation without the bookkeeping of unknown registers, and the passes that rename,
    concretise and transform.  \<open>LLVM_Values\<close>: what the operators mean in LLVM, on numbers of a given width,
    and where the evaluator computes it.  \<open>Symbolic_Props\<close>: the properties.
  \<^item> \<open>Event_Labels\<close>: \<open>EventLabel.def\<close>, \<open>EventLabel.hpp\<close>, \<open>EventLabel.cpp\<close>.
  \<^item> \<open>Exec_Graph\<close>, \<open>Graph_Cutting\<close>: \<open>ExecutionGraph.hpp\<close>, \<open>ExecutionGraph.cpp\<close>,
    \<open>DepExecutionGraph.cpp\<close>, \<open>GraphUtils.cpp\<close>.  \<open>Graph_Facts\<close> states well-formedness (\<open>graph_core\<close>: positions
    and stamps, reads-from against reader lists, coherence, tracked locations, insertion order, allocation
    links); \<open>Graph_Building\<close>, \<open>Graph_Edges\<close>, \<open>Graph_Coherence\<close>, \<open>Graph_Ops\<close> show that each operation keeps it;
    \<open>Graph_Restriction\<close>, \<open>Graph_Cuts\<close>, \<open>Graph_Cut_Facts\<close> what cutting leaves (locale \<open>cut_clock\<close>), \<open>Graph_Copies\<close>
    and \<open>Copy_Facts\<close> what copying does; \<open>Graph_Relabels\<close> changes of labels that leave the graph as it is
    (compressing stamps), \<open>Graph_Removal\<close> joins and the removal of a last label; \<open>Graph_Reach\<close> puts the
    operations into one step relation: \<open>graph_op\<close> are the operations of the driver but copies along a
    \<open>DepView\<close>, \<open>enabled\<close> the conditions under which it calls them (\<open>droppable\<close> leaves out removals that would
    leave a stale pointer to the label, a second free of a block is not enabled);
    \<open>Graph_Queries\<close> has the functions that only read; \<open>Graph_Props\<close> the properties.
  \<^item> \<open>Graph_Frees\<close>: freeing of blocks in the driver (\<open>handleFree\<close>).
  \<^item> \<open>Explorer\<close>: \<open>Revisit.hpp\<close>, \<open>WorkSet.hpp\<close> and the part of \<open>GenMCDriver\<close> that keeps executions: worklist,
    choices, restriction of an execution, repair of dangling reads, the stack of executions.
    \<open>Explorer_Facts\<close>, \<open>Explorer_Runs\<close>, \<open>Explorer_Props\<close>: the worklist along a run, and what a restriction
    leaves.  \<open>explored\<close> is one growing execution: it starts empty, and has no removal of labels and no copies
    pushed by backward revisits, which \<open>Revisit_Props\<close> treats.
  \<^item> \<open>Revisits\<close>: the backward revisits of \<open>GenMCDriver\<close>: the view that a store and a read need, the condition
    that an execution is a maximal extension, the copy of the graph, the new edge, the loop that plans the
    revisits of a store, and mutants.  \<open>Revisit_Facts\<close> (views, prefixes, stamps), \<open>Revisit_Graphs\<close> (the copy and
    the new edge), \<open>Revisit_Props\<close>.
  \<^item> \<open>Graph_Iterators\<close>: \<open>GraphIterators.hpp\<close>, and the visitors that the generated checkers are made of.
    \<open>SC_Checker\<close>: \<open>Consistency/SCChecker.cpp\<close>, all of it.  \<open>Search_Facts\<close> proves the depth-first search
    for any relation given by lists of successors (locale \<open>coloured_search\<close>); \<open>SC_Facts\<close> interprets it for the
    search of consistency (\<open>cons_search\<close>) and of coherence (\<open>coh_search\<close>).  \<open>SC_Order\<close> and \<open>SC_Lines\<close> show
    that the relation of the first has no cycle exactly when the graph is sequentially consistent;
    \<open>SC_Views\<close> that cached views are happens-before; \<open>SC_Stores\<close> what the scans of coherence find;
    \<open>SC_Races\<close> what the error checks report.  \<open>SC_Samples\<close> has graphs for the witnesses and \<open>SC_Props\<close> the
    properties.

  \<^bold>\<open>Theories and sources, second program.\<close>
  \<^item> \<open>Clock_Actions\<close>: \<open>clockvector.cc\<close>, \<open>action.h\<close>, \<open>action.cc\<close> (locale \<open>pointwise_clock\<close>, interpretation
    \<open>cvc\<close>): merging is the pointwise maximum, synchronising establishes happens-before.
  \<^item> \<open>Race_Detector\<close>: \<open>datarace.h\<close>, \<open>datarace.cc\<close>.  \<open>Race_Facts\<close>: packed and full shadow entries refine
    one abstract entry (locale \<open>entry_check\<close>, interpretations \<open>read_check\<close> and \<open>write_check\<close>); wide checks
    equal bytewise ones; no call runs out of bounds.
  \<^item> \<open>Snap_Vectors\<close>: \<open>SnapVector\<close> of \<open>stl-model.h\<close> (locale \<open>growing_vector\<close>, interpretation \<open>snapvec\<close>).
  \<^item> \<open>Mo_Graph\<close>: \<open>cyclegraph.h\<close>, \<open>cyclegraph.cc\<close>.  \<open>Mo_Facts\<close> shows what one edge and the loop that spreads
    clocks do, \<open>Mo_Orders\<close> what each call of the execution does to them; \<open>Mo_Runs\<close> puts the calls into one
    relation (\<open>mo_run\<close>) in which clocks are sound, and complete but for edges that a RMW takes over without
    learning anything (a defect, \<open>Mo_Props.rmw_edges_not_spread\<close>).  \<open>mo_built\<close> in \<open>Mo_Props\<close> are the runs without
    such steps, whose clocks are exact.
  \<^item> \<open>Executions\<close>: the state of \<open>execution.h\<close>, and the queries, lists and first steps of an action in
    \<open>execution.cc\<close>.  \<open>Local_Views\<close>: the views of threads and the bags of actions (\<open>execution.cc\<close>, \<open>threads.cc\<close>).
    Vectors are shared, so they live in a heap; \<open>View_Facts\<close> and \<open>View_Changes\<close> have what each operation does to
    it.  \<open>Read_Orders\<close>: what happens before a write, the constraints of reads and writes on the modification
    order, the stores a read may read from and the loop that picks one (\<open>execution.cc\<close>, \<open>fuzzer.cc\<close>);
    \<open>View_Choices\<close> shows what its choices do to views.  \<open>View_Steps\<close> puts the changes of views into one relation
    (\<open>view_step\<close>) and shows that \<open>process_read\<close> and \<open>process_write\<close> are runs of it; deleting an action that a
    vector holds, as \<open>collectActions\<close> may, is no step.  \<open>View_Props\<close> has what views promise and where they
    deviate from their description.
  \<^item> \<open>Pct_Scheduler\<close>: \<open>schedule.cc\<close> with the parts of \<open>fuzzer.cc\<close> it calls.  \<open>Scheduler_Facts\<close>,
    \<open>Scheduler_Order\<close>, \<open>Scheduler_Props\<close>: choice by priority, change points, moves between the vectors.

  \<^bold>\<open>Loops and fuel.\<close>  Loops over containers are folds or structural recursion.  The searches of the checker
  recurse at most once into each label: their fuel is the size of the table of visited nodes, one more than
  the greatest stamp (\<open>search_fuel\<close>), and \<open>coloured_search\<close> shows that it never runs out (\<open>Diverges\<close> is not
  a result).  The loop that draws change points until it finds a fresh one ends only with a fair random source;
  it takes the source as a function, and both cases are properties.  \<open>getFreshFd\<close> has a termination proof.
  The loops of the modification order graph are \<open>partial_function\<close>s; their results exist because the clocks have
  room for finitely many changes only (\<open>room\<close>) and chains of RMWs go up in sequence numbers.

  \<^bold>\<open>Hypotheses.\<close>  \<open>graph_core\<close> and \<open>graph_ok\<close> hold of every graph that the operations reach
  (\<open>Graph_Props.reachable_graphs_ok\<close>).  \<open>searchable\<close> adds what the driver establishes before it calls a
  checker: every edge leads to a label, every store is placed, every read has a store, stamps are distinct
  and below the counter.  \<open>view_right\<close> says that a cached view is exact; \<open>SC_Props.calculated_view_exact\<close> shows
  that the calculation makes it so.  \<open>explorable\<close> is the invariant of an exploration that a revisit starts from,
  \<open>prefix_view\<close> what the calculated view of a store is.  \<open>newcomer\<close>, \<open>stands_for\<close>,
  \<open>rmw_ready\<close> and \<open>freeable\<close> are what \<open>execution.cc\<close> owes the modification order graph: sequence numbers are fresh
  (which fails for a store that was not atomic and follows an atomic store of its thread to the location: it
  is converted with the sequence number of that store), the predecessors of a store stand for all earlier stores of its thread, a store has one RMW, and a RMW is
  freed with the store it reads from.  \<open>rmw_contract\<close> and \<open>ancestor_closed\<close> ask for more than the program gives
  (a RMW that learns, stores freed with all that is before them: \<open>collectActions\<close> frees only marked stores that
  are old enough); only the properties of runs with exact clocks assume them.  \<open>views_ok\<close> (every pointer
  leads to a vector, no vector has two stores for a location) is kept by every step of \<open>view_step\<close>
  (\<open>View_Props.view_operations_never_fault\<close>).

  \<^bold>\<open>Not modelled.\<close>  The interpreter and the passes over the program under test work on LLVM's data and are
  not code of this repository alone; printing, statistics, logging, configuration and thread pools have no
  behaviour that the rest depends on; process snapshots, context switches and system call wrappers of
  \<open>pctwm\<close> are operating system behaviour.  Of the driver, scheduling, the handlers around the graph operations,
  symmetry reduction, fuzzing and estimation are left out, of the checkers those for RA, TSO, RC11 and IMM,
  which are generated like the one modelled here, and the bound deciders; of \<open>pctwm\<close> the execution loop, the
  action lists and the hash tables.
\<close>

end
